(* ===== verification/Prelude.thy ===== *)
theory Prelude
  imports Main "HOL-Library.Word"
begin

text \<open>
  The vocabulary shared by every component of the development.

  \<^item> \<open>error\<close> and \<open>result\<close>: how a call of the C++ code can fail. A call of
    \<open>util::raise\<close> (or a \<open>throw std::runtime_error\<close>) is \<open>Raise message\<close>, a failed
    \<open>assert\<close> is \<open>AssertFailed\<close>, an out-of-range \<open>vector::at\<close> is \<open>OutOfRange\<close>,
    dereferencing an empty \<open>optional\<close>, an end iterator or memory past the end of an
    array is \<open>Undefined\<close>, locking a mutex that the caller already holds is
    \<open>Deadlock\<close>, changing a page without holding its exclusive lock is \<open>DataRace\<close>, releasing a changed page without marking it dirty is \<open>LostUpdate\<close> (the change is gone
    once the page is evicted).
    A loop that used up its fuel is \<open>OutOfFuel\<close>; the theorems about such loops show
    which fuel is enough.
  \<^item> \<open>bindE\<close>: sequencing of two fallible steps, the first error wins.
  \<^item> generic lemmas on lists and maps, collected for the simplifier.
\<close>

section \<open>Errors and results\<close>

datatype error =
    Raise string
  | AssertFailed
  | OutOfRange
  | Undefined
  | Deadlock
  | DataRace
  | LostUpdate
  | OutOfFuel

type_synonym 'a result = "error + 'a"

fun bindE :: "'a result \<Rightarrow> ('a \<Rightarrow> 'b result) \<Rightarrow> 'b result" where
  "bindE (Inl e) f = Inl e"
| "bindE (Inr x) f = f x"

text \<open>\<open>util::raise\<close> prints the message and throws; \<open>assert\<close> aborts when its condition is false.\<close>

definition raise :: "string \<Rightarrow> 'a result" where
  "raise what = Inl (Raise what)"

definition check :: "bool \<Rightarrow> unit result" where
  "check b = (if b then Inr () else Inl AssertFailed)"

named_theorems result_simps \<open>evaluation of the result type\<close>

lemma bindE_cong [fundef_cong]:
  "m = m' \<Longrightarrow> (\<And>x. m' = Inr x \<Longrightarrow> f x = f' x) \<Longrightarrow> bindE m f = bindE m' f'"
  by (cases m') auto

lemma bindE_eq_Inr [simp]: "bindE m f = Inr y \<longleftrightarrow> (\<exists>x. m = Inr x \<and> f x = Inr y)"
  by (cases m) auto

lemma bindE_eq_Inl: "bindE m f = Inl e \<longleftrightarrow> m = Inl e \<or> (\<exists>x. m = Inr x \<and> f x = Inl e)"
  by (cases m) auto

lemma bindE_assoc: "bindE (bindE m f) g = bindE m (\<lambda>x. bindE (f x) g)"
  by (cases m) auto

lemma bindE_if: "bindE (if b then m else m') f = (if b then bindE m f else bindE m' f)"
  by simp

lemma check_True [simp]: "check True = Inr ()" and check_False [simp]: "check False = Inl AssertFailed"
  by (simp_all add: check_def)

lemma check_eq_Inr [simp]: "check b = Inr u \<longleftrightarrow> b"
  by (simp add: check_def)

lemma check_iff: "b \<Longrightarrow> check b = Inr ()"
  by simp

lemma raise_not_Inr [simp]: "raise w \<noteq> Inr x" "Inr x \<noteq> raise w"
  by (simp_all add: raise_def)

declare bindE.simps [result_simps] check_def [result_simps] raise_def [result_simps]

section \<open>Lists\<close>

named_theorems list_split_simps \<open>take, drop and append under length side conditions\<close>

lemma take_drop_append3 [list_split_simps]:
  "i \<le> j \<Longrightarrow> j \<le> length xs \<Longrightarrow> take i xs @ take (j - i) (drop i xs) @ drop j xs = xs"
  by (metis append_take_drop_id drop_drop le_add_diff_inverse2)

lemma take_Suc_nth: "i < length xs \<Longrightarrow> take (Suc i) xs = take i xs @ [xs ! i]"
  by (rule take_Suc_conv_app_nth)

lemma drop_Cons_nth: "i < length xs \<Longrightarrow> drop i xs = xs ! i # drop (Suc i) xs"
  by (simp add: Cons_nth_drop_Suc)

lemma length_takeWhile_less: "length (takeWhile P xs) \<le> length xs"
  by (rule length_takeWhile_le)

lemma nth_length_takeWhile_not:
  "length (takeWhile P xs) < length xs \<Longrightarrow> \<not> P (xs ! length (takeWhile P xs))"
  by (rule nth_length_takeWhile)

lemma nth_takeWhile_P: "i < length (takeWhile P xs) \<Longrightarrow> P (xs ! i)"
  by (metis nth_mem set_takeWhileD takeWhile_nth)

lemma length_takeWhile_eqI:
  assumes "r \<le> length xs" "\<And>i. i < r \<Longrightarrow> P (xs ! i)" "r < length xs \<Longrightarrow> \<not> P (xs ! r)"
  shows "length (takeWhile P xs) = r"
proof -
  have "takeWhile P xs = take r xs"
    by (rule takeWhile_eq_take_P_nth) (use assms in auto)
  then show ?thesis using assms(1) by simp
qed

lemma sorted_wrt_less_nth_mono:
  fixes xs :: "'a::linorder list"
  shows "sorted_wrt (<) xs \<Longrightarrow> i < j \<Longrightarrow> j < length xs \<Longrightarrow> xs ! i < xs ! j"
  by (rule sorted_wrt_nth_less)

lemma sorted_wrt_take: "sorted_wrt R xs \<Longrightarrow> sorted_wrt R (take n xs)"
  by (metis append_take_drop_id sorted_wrt_append)

lemma sorted_wrt_drop: "sorted_wrt R xs \<Longrightarrow> sorted_wrt R (drop n xs)"
  by (metis append_take_drop_id sorted_wrt_append)

lemma map_of_append_notin:
  "k \<notin> fst ` set xs \<Longrightarrow> map_of (xs @ ys) k = map_of ys k"
  by (simp add: map_add_def map_of_eq_None_iff [THEN iffD2] split: option.split)

lemma map_of_append_notin2:
  "k \<notin> fst ` set ys \<Longrightarrow> map_of (xs @ ys) k = map_of xs k"
  by (simp add: map_add_def map_of_eq_None_iff [THEN iffD2] split: option.split)

lemma nth_concat_split:
  assumes "j < length xs"
  shows "concat (map f xs) = concat (map f (take j xs)) @ f (xs ! j) @ concat (map f (drop (Suc j) xs))"
proof -
  have "xs = take j xs @ xs ! j # drop (Suc j) xs"
    using assms by (simp add: id_take_nth_drop)
  then have "concat (map f xs) = concat (map f (take j xs @ xs ! j # drop (Suc j) xs))"
    by simp
  then show ?thesis by simp
qed

lemma diff_union_remove: "M \<subseteq> U \<Longrightarrow> x \<in> M \<Longrightarrow> (U - M) \<union> (M - {x}) = U - {x}"
  by blast

end
