(* ===== verification/StdAlgo.thy ===== *)
theory StdAlgo
  imports Prelude
begin

text \<open>
  The algorithms of \<open>\<langle>algorithm\<rangle>\<close> that the code runs on fixed-size arrays, written as
  the loops of the standard library over a list whose length is the capacity of the
  array: \<open>std::lower_bound\<close> and \<open>std::upper_bound\<close> (binary search by halving the
  remaining length), \<open>std::move\<close> (element by element from the front),
  \<open>std::move_backward\<close> (from the back) and \<open>std::remove_if\<close> (compaction to the
  front, which leaves the tail as it was). Each comes with its closed form: the first
  two as the length of a prefix, the moves as \<open>take\<close>/\<open>drop\<close> expressions.
\<close>

section \<open>Binary search\<close>

text \<open>
  \<open>std::lower_bound\<close> and \<open>std::upper_bound\<close> are one loop, a search for the partition
  point of the predicate ``goes left of the key''.
\<close>

fun partition_point :: "('a \<Rightarrow> bool) \<Rightarrow> 'a list \<Rightarrow> nat \<Rightarrow> nat \<Rightarrow> nat" where
  "partition_point P xs first len =
     (if len = 0 then first
      else let half = len div 2
           in if P (xs ! (first + half))
              then partition_point P xs (first + half + 1) (len - half - 1)
              else partition_point P xs first half)"

declare partition_point.simps [simp del]

definition lower_bound :: "'a::linorder list \<Rightarrow> nat \<Rightarrow> 'a \<Rightarrow> nat" where
  "lower_bound xs n key = partition_point (\<lambda>x. x < key) xs 0 n"

definition upper_bound :: "'a::linorder list \<Rightarrow> nat \<Rightarrow> 'a \<Rightarrow> nat" where
  "upper_bound xs n key = partition_point (\<lambda>x. \<not> key < x) xs 0 n"

lemma partition_point_bounds:
  "first \<le> partition_point P xs first len \<and> partition_point P xs first len \<le> first + len"
proof (induction P xs first len rule: partition_point.induct)
  case (1 P xs first len)
  show ?case
  proof (cases "len = 0")
    case True
    then show ?thesis by (simp add: partition_point.simps)
  next
    case False
    then have "len div 2 < len" by simp
    with False 1 show ?thesis
      by (subst (1 2) partition_point.simps) (auto simp: Let_def)
  qed
qed

lemma partition_point_sides:
  assumes "\<And>i j. first \<le> i \<Longrightarrow> i \<le> j \<Longrightarrow> j < first + len \<Longrightarrow> P (xs ! j) \<Longrightarrow> P (xs ! i)"
  shows "(\<forall>i. first \<le> i \<and> i < partition_point P xs first len \<longrightarrow> P (xs ! i)) \<and>
         (\<forall>i. partition_point P xs first len \<le> i \<and> i < first + len \<longrightarrow> \<not> P (xs ! i))"
  using assms
proof (induction P xs first len rule: partition_point.induct)
  case (1 P xs first len)
  show ?case
  proof (cases "len = 0")
    case True
    then show ?thesis by (subst (1 2) partition_point.simps) auto
  next
    case False
    define half where "half = len div 2"
    have half: "half < len" using False by (simp add: half_def)
    show ?thesis
    proof (cases "P (xs ! (first + half))")
      case True
      have eq: "partition_point P xs first len =
                partition_point P xs (first + half + 1) (len - half - 1)"
        using False True by (subst partition_point.simps) (simp add: half_def Let_def)
      have end_eq: "first + half + 1 + (len - half - 1) = first + len" using half by simp
      have left: "\<And>i. first \<le> i \<Longrightarrow> i \<le> first + half \<Longrightarrow> P (xs ! i)"
        using "1.prems" True half by (meson nat_add_left_cancel_less)
      have IH: "(\<forall>i. first + half + 1 \<le> i \<and>
                  i < partition_point P xs (first + half + 1) (len - half - 1) \<longrightarrow> P (xs ! i)) \<and>
                (\<forall>i. partition_point P xs (first + half + 1) (len - half - 1) \<le> i \<and>
                  i < first + half + 1 + (len - half - 1) \<longrightarrow> \<not> P (xs ! i))"
        by (rule "1.IH"(1) [OF False half_def True])
          (use "1.prems" half in \<open>simp\<close>)
      show ?thesis unfolding eq
      proof (intro conjI allI impI, goal_cases)
        case (1 i)
        then show ?case using IH left by (cases "i \<le> first + half") auto
      next
        case (2 i)
        then show ?case using IH end_eq by simp
      qed
    next
      case False2: False
      have eq: "partition_point P xs first len = partition_point P xs first half"
        using False False2 by (subst partition_point.simps) (simp add: half_def Let_def)
      have right: "\<And>i. first + half \<le> i \<Longrightarrow> i < first + len \<Longrightarrow> \<not> P (xs ! i)"
        using "1.prems" False2 by (meson le_add1)
      have IH: "(\<forall>i. first \<le> i \<and> i < partition_point P xs first half \<longrightarrow> P (xs ! i)) \<and>
                (\<forall>i. partition_point P xs first half \<le> i \<and> i < first + half \<longrightarrow> \<not> P (xs ! i))"
        by (rule "1.IH"(2) [OF False half_def False2])
          (use "1.prems" half in \<open>meson less_trans nat_add_left_cancel_less\<close>)
      show ?thesis unfolding eq
      proof (intro conjI allI impI, goal_cases)
        case (1 i)
        then show ?case using IH by blast
      next
        case (2 i)
        then show ?case using IH right by (cases "i < first + half") auto
      qed
    qed
  qed
qed

text \<open>On a range whose elements are ordered, the result is the length of the matching prefix.\<close>

lemma partition_point_takeWhile:
  assumes "n \<le> length xs"
    and "\<And>i j. i \<le> j \<Longrightarrow> j < n \<Longrightarrow> P (xs ! j) \<Longrightarrow> P (xs ! i)"
  shows "partition_point P xs 0 n = length (takeWhile P (take n xs))"
proof -
  let ?r = "partition_point P xs 0 n"
  have b: "?r \<le> n" using partition_point_bounds [of 0 P xs n] by simp
  have s: "(\<forall>i. i < ?r \<longrightarrow> P (xs ! i)) \<and> (\<forall>i. ?r \<le> i \<and> i < n \<longrightarrow> \<not> P (xs ! i))"
    using partition_point_sides [of 0 n P xs] assms(2) by simp
  have "length (takeWhile P (take n xs)) = ?r"
    by (rule length_takeWhile_eqI) (use b s assms(1) in auto)
  then show ?thesis by simp
qed

lemma lower_bound_takeWhile:
  "n \<le> length xs \<Longrightarrow> sorted (take n xs) \<Longrightarrow> lower_bound xs n key = length (takeWhile (\<lambda>x. x < key) (take n xs))"
  unfolding lower_bound_def
  by (rule partition_point_takeWhile) (auto simp: sorted_iff_nth_mono dest: order.strict_trans1)

lemma upper_bound_takeWhile:
  "n \<le> length xs \<Longrightarrow> sorted (take n xs) \<Longrightarrow> upper_bound xs n key = length (takeWhile (\<lambda>x. x \<le> key) (take n xs))"
proof -
  assume a: "n \<le> length xs" "sorted (take n xs)"
  have "partition_point (\<lambda>x. \<not> key < x) xs 0 n = length (takeWhile (\<lambda>x. \<not> key < x) (take n xs))"
    by (rule partition_point_takeWhile)
      (use a in \<open>auto simp: sorted_iff_nth_mono not_less intro: order_trans\<close>)
  then show ?thesis by (simp add: upper_bound_def not_less)
qed

lemma lower_bound_le: "lower_bound xs n key \<le> n"
  using partition_point_bounds [of 0 "\<lambda>x. x < key" xs n] by (simp add: lower_bound_def)

lemma upper_bound_le: "upper_bound xs n key \<le> n"
  using partition_point_bounds [of 0 "\<lambda>x. \<not> key < x" xs n] by (simp add: upper_bound_def)

section \<open>Moving ranges\<close>

text \<open>
  \<open>copy_fwd n src s dst d\<close> is \<open>std::move(src + s, src + s + n, dst + d)\<close> between two
  arrays, \<open>move_left n a s d\<close> the same call within one array (defined for a
  destination left of the source), \<open>move_backward n a s d\<close> is
  \<open>std::move_backward(a + s, a + s + n, a + d + n)\<close>: elements of \<open>a\<close> go from \<open>s\<close> to
  \<open>d\<close>, the last one first.
\<close>

fun copy_fwd :: "nat \<Rightarrow> 'a list \<Rightarrow> nat \<Rightarrow> 'a list \<Rightarrow> nat \<Rightarrow> 'a list" where
  "copy_fwd 0 src s dst d = dst"
| "copy_fwd (Suc n) src s dst d = copy_fwd n src (Suc s) (dst[d := src ! s]) (Suc d)"

fun move_left :: "nat \<Rightarrow> 'a list \<Rightarrow> nat \<Rightarrow> nat \<Rightarrow> 'a list" where
  "move_left 0 a s d = a"
| "move_left (Suc n) a s d = move_left n (a[d := a ! s]) (Suc s) (Suc d)"

fun move_backward :: "nat \<Rightarrow> 'a list \<Rightarrow> nat \<Rightarrow> nat \<Rightarrow> 'a list" where
  "move_backward 0 a s d = a"
| "move_backward (Suc n) a s d = move_backward n (a[d + n := a ! (s + n)]) s d"

lemma length_copy_fwd [simp]: "length (copy_fwd n src s dst d) = length dst"
  by (induction n src s dst d rule: copy_fwd.induct) auto

lemma length_move_left [simp]: "length (move_left n a s d) = length a"
  by (induction n a s d rule: move_left.induct) auto

lemma length_move_backward [simp]: "length (move_backward n a s d) = length a"
  by (induction n a s d rule: move_backward.induct) auto

lemma nth_copy_fwd:
  "s + n \<le> length src \<Longrightarrow> d + n \<le> length dst \<Longrightarrow> i < length dst \<Longrightarrow>
   copy_fwd n src s dst d ! i = (if d \<le> i \<and> i < d + n then src ! (s + i - d) else dst ! i)"
proof (induction n src s dst d rule: copy_fwd.induct)
  case (2 n src s dst d)
  then show ?case by (cases "i = d") (auto simp: nth_list_update)
qed auto

lemma nth_move_left:
  "s + n \<le> length a \<Longrightarrow> d \<le> s \<Longrightarrow> i < length a \<Longrightarrow>
   move_left n a s d ! i = (if d \<le> i \<and> i < d + n then a ! (s + i - d) else a ! i)"
proof (induction n a s d rule: move_left.induct)
  case (2 n a s d)
  then show ?case by (cases "i = d") (auto simp: nth_list_update)
qed auto

lemma nth_move_backward:
  "d + n \<le> length a \<Longrightarrow> s \<le> d \<Longrightarrow> i < length a \<Longrightarrow>
   move_backward n a s d ! i = (if d \<le> i \<and> i < d + n then a ! (s + i - d) else a ! i)"
proof (induction n a s d rule: move_backward.induct)
  case (2 n a s d)
  then show ?case by (auto simp: nth_list_update less_Suc_eq)
qed auto

text \<open>The closed forms.\<close>

lemma copy_fwd_eq:
  "s + n \<le> length src \<Longrightarrow> d + n \<le> length dst \<Longrightarrow>
   copy_fwd n src s dst d = take d dst @ take n (drop s src) @ drop (d + n) dst"
  by (rule nth_equalityI) (auto simp: nth_copy_fwd nth_append min_def intro!: arg_cong2 [where f = nth])

lemma move_left_eq:
  "s + n \<le> length a \<Longrightarrow> d \<le> s \<Longrightarrow>
   move_left n a s d = take d a @ take n (drop s a) @ drop (d + n) a"
  by (rule nth_equalityI) (auto simp: nth_move_left nth_append min_def intro!: arg_cong2 [where f = nth])

lemma move_backward_eq:
  "d + n \<le> length a \<Longrightarrow> s \<le> d \<Longrightarrow>
   move_backward n a s d = take d a @ take n (drop s a) @ drop (d + n) a"
  by (rule nth_equalityI) (auto simp: nth_move_backward nth_append min_def intro!: arg_cong2 [where f = nth])

text \<open>
  The three idioms of the nodes: opening a gap at \<open>i\<close> and writing into it, closing
  the gap at \<open>i\<close>, and copying a suffix to the front of another array.
\<close>

definition insert_at :: "nat \<Rightarrow> nat \<Rightarrow> 'a \<Rightarrow> 'a list \<Rightarrow> 'a list" where
  "insert_at n i x a = (move_backward (n - i) a i (i + 1))[i := x]"

definition erase_at :: "nat \<Rightarrow> nat \<Rightarrow> 'a list \<Rightarrow> 'a list" where
  "erase_at n i a = move_left (n - (i + 1)) a (i + 1) i"

lemma length_insert_at [simp]: "length (insert_at n i x a) = length a"
  by (simp add: insert_at_def)

lemma length_erase_at [simp]: "length (erase_at n i a) = length a"
  by (simp add: erase_at_def)

lemma take_insert_at:
  assumes "i \<le> n" "n < length a"
  shows "take (Suc n) (insert_at n i x a) = take i (take n a) @ x # drop i (take n a)"
proof -
  have "move_backward (n - i) a i (i + 1) =
        take (i + 1) a @ take (n - i) (drop i a) @ drop (i + 1 + (n - i)) a"
    by (rule move_backward_eq) (use assms in auto)
  then have "insert_at n i x a = take i a @ x # take (n - i) (drop i a) @ drop (Suc n) a"
    using assms by (simp add: insert_at_def take_Suc_conv_app_nth list_update_append)
  then have "insert_at n i x a = (take i a @ x # take (n - i) (drop i a)) @ drop (Suc n) a"
    by simp
  moreover have "length (take i a @ x # take (n - i) (drop i a)) = Suc n"
    using assms by simp
  ultimately have "take (Suc n) (insert_at n i x a) = take i a @ x # take (n - i) (drop i a)"
    by (metis append_eq_conv_conj)
  then show ?thesis using assms by (simp add: min_def drop_take)
qed

lemma take_erase_at:
  assumes "i < n" "n \<le> length a"
  shows "take (n - 1) (erase_at n i a) = take i (take n a) @ drop (Suc i) (take n a)"
proof -
  have "erase_at n i a = take i a @ take (n - (i + 1)) (drop (i + 1) a) @ drop (i + (n - (i + 1))) a"
    unfolding erase_at_def by (rule move_left_eq) (use assms in auto)
  then have "erase_at n i a = (take i a @ take (n - (i + 1)) (drop (i + 1) a)) @ drop (n - 1) a"
    using assms by simp
  moreover have "length (take i a @ take (n - (i + 1)) (drop (i + 1) a)) = n - 1"
    using assms by simp
  ultimately have "take (n - 1) (erase_at n i a) = take i a @ take (n - (i + 1)) (drop (i + 1) a)"
    by (metis append_eq_conv_conj)
  then show ?thesis using assms by (simp add: min_def drop_take)
qed

lemma take_copy_fwd_front:
  assumes "s + n \<le> length src" "n \<le> length dst"
  shows "take n (copy_fwd n src s dst 0) = take n (drop s src)"
  using assms by (subst copy_fwd_eq) auto

section \<open>Removing by a predicate\<close>

text \<open>
  \<open>std::remove_if\<close>: the kept elements are moved to the front, one after the other;
  the result is the position after the last kept element. The elements behind it are
  what the moves left there.
\<close>

fun remove_if_loop :: "('a \<Rightarrow> bool) \<Rightarrow> 'a list \<Rightarrow> nat \<Rightarrow> nat \<Rightarrow> nat \<Rightarrow> 'a list \<times> nat" where
  "remove_if_loop P a 0 i r = (a, r)"
| "remove_if_loop P a (Suc n) i r =
     (if P (a ! i) then remove_if_loop P a n (Suc i) r
      else remove_if_loop P (a[r := a ! i]) n (Suc i) (Suc r))"

definition remove_if :: "('a \<Rightarrow> bool) \<Rightarrow> 'a list \<Rightarrow> nat \<Rightarrow> 'a list \<times> nat" where
  "remove_if P a n = remove_if_loop P a n 0 0"

lemma remove_if_loop_all_removed:
  "(\<And>j. i \<le> j \<Longrightarrow> j < i + n \<Longrightarrow> P (a ! j)) \<Longrightarrow> remove_if_loop P a n i r = (a, r)"
  by (induction n arbitrary: i) auto

lemma remove_if_loop_prefix:
  assumes "\<And>j. i \<le> j \<Longrightarrow> j < i + m \<Longrightarrow> \<not> P (a ! j)" "i + m \<le> length a"
  shows "remove_if_loop P a (m + n) i i = remove_if_loop P a n (i + m) (i + m)"
  using assms by (induction m arbitrary: i) auto

text \<open>
  When the elements to remove form a suffix, nothing moves: the array is unchanged and
  the removed elements are still behind the returned position.
\<close>

lemma remove_if_suffix:
  assumes "n \<le> length a" "r \<le> n"
    and keep: "\<And>j. j < r \<Longrightarrow> \<not> P (a ! j)" and drop: "\<And>j. r \<le> j \<Longrightarrow> j < n \<Longrightarrow> P (a ! j)"
  shows "remove_if P a n = (a, r)"
proof -
  have "remove_if P a n = remove_if_loop P a (r + (n - r)) 0 0"
    using assms(2) by (simp add: remove_if_def)
  also have "\<dots> = remove_if_loop P a (n - r) (0 + r) (0 + r)"
    by (rule remove_if_loop_prefix) (use assms(1,2) keep in auto)
  also have "\<dots> = (a, r)"
    using remove_if_loop_all_removed [of r "n - r" P a r] drop assms(2) by simp
  finally show ?thesis .
qed

section \<open>Printing numbers\<close>

text \<open>An unsigned integer in decimal, as \<open>operator<<\<close> of the standard streams prints it.\<close>

fun show_nat :: "nat \<Rightarrow> string" where
  "show_nat n = (if n < 10 then [char_of (48 + n)] else show_nat (n div 10) @ [char_of (48 + n mod 10)])"

declare show_nat.simps [simp del]

end
