(* ===== verification/FileIO.thy ===== *)
theory FileIO
  imports Prelude
begin

text \<open>
  The POSIX calls the storage layer makes on its one file descriptor, and the byte
  layout of the integers it stores. A file is its size and its bytes. \<open>pread\<close> returns
  the bytes it could read (fewer than asked for at the end of the file), \<open>pwrite\<close>
  extends the file when it writes behind its end (the hole is filled with zeros) and
  \<open>ftruncate\<close> sets the size. Input/output errors of the operating system are not
  modelled: a call transfers all the bytes that the file size allows.
\<close>

section \<open>Files\<close>

record os_file =
  fsize :: nat
  fbytes :: "nat \<Rightarrow> 8 word"

definition empty_file :: os_file where
  "empty_file = \<lparr>fsize = 0, fbytes = (\<lambda>_. 0)\<rparr>"

definition pread :: "os_file \<Rightarrow> nat \<Rightarrow> nat \<Rightarrow> 8 word list" where
  "pread f n off = map (fbytes f) [off..<min (off + n) (fsize f)]"

definition pwrite :: "os_file \<Rightarrow> 8 word list \<Rightarrow> nat \<Rightarrow> os_file" where
  "pwrite f bs off =
     \<lparr>fsize = max (fsize f) (off + length bs),
      fbytes = (\<lambda>i. if off \<le> i \<and> i < off + length bs then bs ! (i - off)
                    else if i < fsize f then fbytes f i else 0)\<rparr>"

definition ftruncate :: "os_file \<Rightarrow> nat \<Rightarrow> os_file" where
  "ftruncate f n = \<lparr>fsize = n, fbytes = (\<lambda>i. if i < fsize f \<and> i < n then fbytes f i else 0)\<rparr>"

named_theorems file_simps \<open>sizes and reads after writes\<close>

lemma fsize_pwrite [file_simps, simp]: "fsize (pwrite f bs off) = max (fsize f) (off + length bs)"
  by (simp add: pwrite_def)

lemma fsize_ftruncate [file_simps, simp]: "fsize (ftruncate f n) = n"
  by (simp add: ftruncate_def)

lemma length_pread: "length (pread f n off) = (if off + n \<le> fsize f then n else fsize f - off)"
  by (auto simp: pread_def min_def)

lemma length_pread_full [file_simps, simp]: "off + n \<le> fsize f \<Longrightarrow> length (pread f n off) = n"
  by (simp add: length_pread)

lemma pread_pwrite_same [file_simps, simp]:
  "length bs = n \<Longrightarrow> pread (pwrite f bs off) n off = bs"
  by (rule nth_equalityI) (auto simp: pread_def pwrite_def)

lemma pread_pwrite_prefix:
  "n \<le> length bs \<Longrightarrow> pread (pwrite f bs off) n off = take n bs"
  by (rule nth_equalityI) (auto simp: pread_def pwrite_def)

lemma pread_pwrite_other [file_simps]:
  assumes "off + n \<le> fsize f" "off + n \<le> off' \<or> off' + length bs \<le> off"
  shows "pread (pwrite f bs off') n off = pread f n off"
  using assms by (auto simp: pread_def pwrite_def min_def)

lemma pread_ftruncate [file_simps]:
  "off + n \<le> fsize f \<Longrightarrow> off + n \<le> m \<Longrightarrow> pread (ftruncate f m) n off = pread f n off"
  by (auto simp: pread_def ftruncate_def min_def)

section \<open>Little-endian integers\<close>

text \<open>The object representation of an unsigned integer of \<open>k\<close> bytes.\<close>

fun enc_uint :: "nat \<Rightarrow> nat \<Rightarrow> 8 word list" where
  "enc_uint 0 n = []"
| "enc_uint (Suc k) n = of_nat (n mod 256) # enc_uint k (n div 256)"

fun dec_uint :: "8 word list \<Rightarrow> nat" where
  "dec_uint [] = 0"
| "dec_uint (b # bs) = unat b + 256 * dec_uint bs"

definition enc64 :: "nat \<Rightarrow> 8 word list" where
  "enc64 = enc_uint 8"

lemma length_enc_uint [simp]: "length (enc_uint k n) = k"
  by (induction k arbitrary: n) auto

lemma length_enc64 [simp]: "length (enc64 n) = 8"
  by (simp add: enc64_def)

lemma unat_byte: "unat (of_nat (n mod 256) :: 8 word) = n mod 256"
  by (simp add: unat_of_nat)

lemma dec_enc_uint: "dec_uint (enc_uint k n) = n mod 256 ^ k"
proof (induction k arbitrary: n)
  case (Suc k)
  have "n mod 256 + 256 * (n div 256 mod 256 ^ k) = n mod (256 * 256 ^ k)"
    by (simp add: mod_mult2_eq)
  with Suc show ?case by (simp only: enc_uint.simps dec_uint.simps unat_byte power_Suc)
qed simp

lemma dec_enc64 [simp]: "n < 2 ^ 64 \<Longrightarrow> dec_uint (enc64 n) = n"
  by (simp add: enc64_def dec_enc_uint)

end
