(* ===== verification/BlockStore.thy ===== *)
theory BlockStore
  imports Prelude
begin

text \<open>
  The contract of a block allocator with storage: blocks are created, deleted, read and
  written, a created block was not in use, and what is stored in one block in use does
  not depend on the operations on other blocks. \<open>Segment\<close> and \<open>SegmentManager\<close> both
  provide it (with different block names), the page buffer uses it. From the contract
  alone, the store behaves like a finite map from the blocks in use to their contents.
\<close>

definition contents :: "('s \<Rightarrow> 'i set) \<Rightarrow> ('s \<Rightarrow> 'i \<Rightarrow> 'd result) \<Rightarrow> 's \<Rightarrow> ('i \<rightharpoonup> 'd)" where
  "contents used rd s =
     (\<lambda>i. if i \<in> used s then (case rd s i of Inl e \<Rightarrow> None | Inr d \<Rightarrow> Some d) else None)"

text \<open>
  A run of a client: a list of commands with the blocks they got or named, each command
  used within the contract (only blocks in use are deleted or written).
\<close>

datatype ('i, 'd) block_cmd = Create 'i | Delete 'i | Write 'i 'd

inductive client_run ::
  "('s \<Rightarrow> 'i set) \<Rightarrow> ('s \<Rightarrow> bool) \<Rightarrow> ('d \<Rightarrow> bool) \<Rightarrow> ('s \<Rightarrow> ('i \<times> 's) result) \<Rightarrow>
   ('s \<Rightarrow> 'i \<Rightarrow> 's result) \<Rightarrow> ('s \<Rightarrow> 'i \<Rightarrow> 'd \<Rightarrow> 's result) \<Rightarrow>
   's \<Rightarrow> ('i, 'd) block_cmd list \<Rightarrow> 's \<Rightarrow> bool"
  for used can_create data_ok cr dl wr where
  run_nil: "client_run used can_create data_ok cr dl wr s [] s"
| run_create: "can_create s \<Longrightarrow> cr s = Inr (i, s1) \<Longrightarrow>
    client_run used can_create data_ok cr dl wr s1 cs s2 \<Longrightarrow>
    client_run used can_create data_ok cr dl wr s (Create i # cs) s2"
| run_delete: "i \<in> used s \<Longrightarrow> dl s i = Inr s1 \<Longrightarrow>
    client_run used can_create data_ok cr dl wr s1 cs s2 \<Longrightarrow>
    client_run used can_create data_ok cr dl wr s (Delete i # cs) s2"
| run_write: "i \<in> used s \<Longrightarrow> data_ok d \<Longrightarrow> wr s i d = Inr s1 \<Longrightarrow>
    client_run used can_create data_ok cr dl wr s1 cs s2 \<Longrightarrow>
    client_run used can_create data_ok cr dl wr s (Write i d # cs) s2"

inductive_cases client_run_WriteE: "client_run used can_create data_ok cr dl wr s (Write i d # cs) s2"

locale block_store =
  fixes inv :: "'s \<Rightarrow> bool"
    and used :: "'s \<Rightarrow> 'i set"
    and can_create :: "'s \<Rightarrow> bool"
    and data_ok :: "'d \<Rightarrow> bool"
    and cr :: "'s \<Rightarrow> ('i \<times> 's) result"
    and dl :: "'s \<Rightarrow> 'i \<Rightarrow> 's result"
    and rd :: "'s \<Rightarrow> 'i \<Rightarrow> 'd result"
    and wr :: "'s \<Rightarrow> 'i \<Rightarrow> 'd \<Rightarrow> 's result"
  assumes create_law: "inv s \<Longrightarrow> can_create s \<Longrightarrow>
      \<exists>i s'. cr s = Inr (i, s') \<and> inv s' \<and> i \<notin> used s \<and> used s' = insert i (used s) \<and>
             (\<forall>j \<in> used s. rd s' j = rd s j)"
    and delete_law: "inv s \<Longrightarrow> i \<in> used s \<Longrightarrow>
      \<exists>s'. dl s i = Inr s' \<and> inv s' \<and> used s' = used s - {i} \<and>
           (\<forall>j \<in> used s'. rd s' j = rd s j)"
    and read_law: "inv s \<Longrightarrow> i \<in> used s \<Longrightarrow> \<exists>d. rd s i = Inr d \<and> data_ok d"
    and write_law: "inv s \<Longrightarrow> i \<in> used s \<Longrightarrow> data_ok d \<Longrightarrow>
      \<exists>s'. wr s i d = Inr s' \<and> inv s' \<and> used s' = used s \<and> rd s' i = Inr d \<and>
           (\<forall>j \<in> used s - {i}. rd s' j = rd s j)"
begin

lemma dom_contents:
  assumes "inv s"
  shows "dom (contents used rd s) = used s"
proof (rule set_eqI)
  fix i
  show "i \<in> dom (contents used rd s) \<longleftrightarrow> i \<in> used s"
    using read_law [OF assms, of i] by (cases "i \<in> used s") (auto simp: contents_def dom_def)
qed

lemma contents_create:
  assumes "inv s" "can_create s"
  shows "\<exists>i s' d. cr s = Inr (i, s') \<and> inv s' \<and> contents used rd s i = None \<and> data_ok d \<and>
                  contents used rd s' = (contents used rd s)(i \<mapsto> d)"
proof -
  obtain i s' where c: "cr s = Inr (i, s')" "inv s'" "i \<notin> used s" "used s' = insert i (used s)"
      "\<forall>j \<in> used s. rd s' j = rd s j"
    using create_law [OF assms] by blast
  obtain d where d: "rd s' i = Inr d" "data_ok d" using read_law [of s' i] c by auto
  have "contents used rd s' = (contents used rd s)(i \<mapsto> d)"
    using c d by (auto simp: contents_def fun_eq_iff)
  with c d show ?thesis by (auto simp: contents_def)
qed

lemma contents_delete:
  assumes "inv s" "i \<in> used s"
  shows "\<exists>s'. dl s i = Inr s' \<and> inv s' \<and> contents used rd s' = (contents used rd s)(i := None)"
proof -
  obtain s' where "dl s i = Inr s'" "inv s'" "used s' = used s - {i}"
      "\<forall>j \<in> used s'. rd s' j = rd s j"
    using delete_law [OF assms] by blast
  then show ?thesis by (auto simp: contents_def fun_eq_iff)
qed

lemma contents_write:
  assumes "inv s" "i \<in> used s" "data_ok d"
  shows "\<exists>s'. wr s i d = Inr s' \<and> inv s' \<and> contents used rd s' = (contents used rd s)(i \<mapsto> d)"
proof -
  obtain s' where "wr s i d = Inr s'" "inv s'" "used s' = used s" "rd s' i = Inr d"
      "\<forall>j \<in> used s - {i}. rd s' j = rd s j"
    using write_law [OF assms] by blast
  then show ?thesis using assms by (auto simp: contents_def fun_eq_iff)
qed

text \<open>A run keeps the invariant, and a block that it neither deletes nor writes keeps its contents.\<close>

lemma run_inv:
  "client_run used can_create data_ok cr dl wr s cs s' \<Longrightarrow> inv s \<Longrightarrow> inv s'"
proof (induction rule: client_run.induct)
  case (run_create s i s1 cs s2)
  then show ?case using create_law by fastforce
next
  case (run_delete i s s1 cs s2)
  then show ?case using delete_law by fastforce
next
  case (run_write i s d s1 cs s2)
  then show ?case using write_law by fastforce
qed

lemma run_keeps:
  "client_run used can_create data_ok cr dl wr s cs s' \<Longrightarrow> inv s \<Longrightarrow> j \<in> used s \<Longrightarrow>
   Delete j \<notin> set cs \<Longrightarrow> (\<And>d. Write j d \<notin> set cs) \<Longrightarrow> j \<in> used s' \<and> rd s' j = rd s j"
proof (induction rule: client_run.induct)
  case (run_create s i s1 cs s2)
  then show ?case using create_law [of s] by fastforce
next
  case (run_delete i s s1 cs s2)
  then have "j \<noteq> i" by auto
  with run_delete show ?case using delete_law [of s i] by fastforce
next
  case (run_write i s d s1 cs s2)
  then have "j \<noteq> i" by auto
  with run_write show ?case using write_law [of s i d] by fastforce
qed simp

text \<open>What was written last to a block is what is read after the run.\<close>

lemma run_last_write:
  assumes "client_run used can_create data_ok cr dl wr s (Write j d # cs) s'" "inv s"
    "Delete j \<notin> set cs" "\<And>d'. Write j d' \<notin> set cs"
  shows "rd s' j = Inr d"
proof -
  obtain s1 where w: "j \<in> used s" "data_ok d" "wr s j d = Inr s1"
    and r: "client_run used can_create data_ok cr dl wr s1 cs s'"
    using assms(1) by (rule client_run_WriteE)
  from write_law [OF assms(2) w(1,2)] w(3) have "inv s1" "j \<in> used s1" "rd s1 j = Inr d"
    using w(1) by auto
  then show ?thesis using run_keeps [OF r] assms(3,4) by auto
qed

end

end
