(* ===== verification/Segment.thy ===== *)
theory Segment
  imports FileIO BlockStore
begin

text \<open>
  \<open>src/file/Segment.h\<close>: a segment is a run of \<open>allocatedBlocks\<close> blocks of \<open>B\<close> bytes
  behind a header block, in the file of the segment manager. Blocks are handed out in
  two ways: fresh blocks by the counter \<open>occupiedBlocks\<close>, deleted blocks from a free
  list that lives inside the deleted blocks themselves (the head in the header, the
  successor of a free block in its first eight bytes).

  The model keeps the header as a record and passes the file explicitly; \<open>B\<close> is the
  template parameter. The invariant \<open>seg_inv\<close> says that following the free list from
  the head visits \<open>deletedBlocks\<close> distinct blocks below \<open>occupiedBlocks\<close>; \<open>live\<close> is
  the set of blocks handed out and not deleted.
\<close>

section \<open>State\<close>

record seg_hdr =
  blockSize :: nat
  allocatedBlocks :: nat
  occupiedBlocks :: nat
  deletedBlocks :: nat
  freeNodesHead :: "nat option"

record segment =
  fileOffset :: nat
  header :: seg_hdr

text \<open>
  The object representation of the header: four counters, then the
  \<open>optional\<close> (its value, its flag, padding up to the alignment of 16).
\<close>

definition sizeof_seg_hdr :: nat where
  "sizeof_seg_hdr = 48"

definition enc_seg_hdr :: "seg_hdr \<Rightarrow> 8 word list" where
  "enc_seg_hdr h =
     enc64 (blockSize h) @ enc64 (allocatedBlocks h) @ enc64 (occupiedBlocks h) @
     enc64 (deletedBlocks h) @
     (case freeNodesHead h of None \<Rightarrow> replicate 16 0
      | Some n \<Rightarrow> enc64 n @ 1 # replicate 7 0)"

definition dec_seg_hdr :: "8 word list \<Rightarrow> seg_hdr" where
  "dec_seg_hdr bs =
     \<lparr>blockSize = dec_uint (take 8 bs),
      allocatedBlocks = dec_uint (take 8 (drop 8 bs)),
      occupiedBlocks = dec_uint (take 8 (drop 16 bs)),
      deletedBlocks = dec_uint (take 8 (drop 24 bs)),
      freeNodesHead =
        (if bs ! 40 = 0 then None else Some (dec_uint (take 8 (drop 32 bs))))\<rparr>"

section \<open>Operations\<close>

text \<open>The two constructors: an existing segment is read from the file, a new one starts empty.\<close>

definition seg_open :: "nat \<Rightarrow> os_file \<Rightarrow> nat \<Rightarrow> segment result" where
  "seg_open B f off =
     (let bs = pread f sizeof_seg_hdr off
      in if length bs \<noteq> sizeof_seg_hdr then raise ''Invalid segment!''
         else let h = dec_seg_hdr bs
              in if blockSize h \<noteq> B then raise ''Different block sizes (segment)!''
                 else Inr \<lparr>fileOffset = off, header = h\<rparr>)"

definition seg_new :: "nat \<Rightarrow> nat \<Rightarrow> nat \<Rightarrow> segment" where
  "seg_new B off segmentSize =
     \<lparr>fileOffset = off,
      header = \<lparr>blockSize = B, allocatedBlocks = segmentSize, occupiedBlocks = 0,
                deletedBlocks = 0, freeNodesHead = None\<rparr>\<rparr>"

definition block_pos :: "nat \<Rightarrow> segment \<Rightarrow> nat \<Rightarrow> nat" where
  "block_pos B s i = fileOffset s + B + i * B"

definition getIDInBlock :: "nat \<Rightarrow> os_file \<Rightarrow> segment \<Rightarrow> nat \<Rightarrow> nat result" where
  "getIDInBlock B f s i =
     (let bs = pread f 8 (block_pos B s i)
      in if length bs \<noteq> 8 then raise ''Could not read id in block.''
         else Inr (dec_uint bs))"

definition storeIDInBlock :: "nat \<Rightarrow> os_file \<Rightarrow> segment \<Rightarrow> nat \<Rightarrow> nat \<Rightarrow> os_file" where
  "storeIDInBlock B f s i idToStore = pwrite f (enc64 idToStore) (block_pos B s i)"

definition getTotalSize :: "nat \<Rightarrow> segment \<Rightarrow> nat" where
  "getTotalSize B s = B + allocatedBlocks (header s) * B"

definition freeBlocks :: "segment \<Rightarrow> nat" where
  "freeBlocks s =
     allocatedBlocks (header s) - occupiedBlocks (header s) + deletedBlocks (header s)"

definition seg_createBlock :: "nat \<Rightarrow> os_file \<Rightarrow> segment \<Rightarrow> (nat \<times> segment) result" where
  "seg_createBlock B f s =
     (let h = header s
      in if deletedBlocks h > 0 then
           (case freeNodesHead h of
              None \<Rightarrow> Inl AssertFailed
            | Some res \<Rightarrow>
                bindE (if deletedBlocks h > 1
                       then bindE (getIDInBlock B f s res) (\<lambda>nextID. Inr (Some nextID))
                       else Inr None)
                (\<lambda>hd'. Inr (res, s\<lparr>header := h\<lparr>freeNodesHead := hd',
                                               deletedBlocks := deletedBlocks h - 1\<rparr>\<rparr>)))
         else bindE (check (freeNodesHead h = None)) (\<lambda>_.
           if allocatedBlocks h > occupiedBlocks h
           then Inr (occupiedBlocks h, s\<lparr>header := h\<lparr>occupiedBlocks := occupiedBlocks h + 1\<rparr>\<rparr>)
           else raise ''All blocks were occupied!''))"

definition seg_deleteBlock :: "nat \<Rightarrow> os_file \<Rightarrow> segment \<Rightarrow> nat \<Rightarrow> (os_file \<times> segment) result" where
  "seg_deleteBlock B f s i =
     (let h = header s;
          h' = h\<lparr>freeNodesHead := Some i, deletedBlocks := deletedBlocks h + 1\<rparr>
      in if deletedBlocks h > 0 then
           (case freeNodesHead h of
              None \<Rightarrow> Inl AssertFailed
            | Some nextID \<Rightarrow> Inr (storeIDInBlock B f s i nextID, s\<lparr>header := h'\<rparr>))
         else bindE (check (freeNodesHead h = None)) (\<lambda>_. Inr (f, s\<lparr>header := h'\<rparr>)))"

definition seg_readBlock :: "nat \<Rightarrow> os_file \<Rightarrow> segment \<Rightarrow> nat \<Rightarrow> 8 word list result" where
  "seg_readBlock B f s i =
     (let bs = pread f B (block_pos B s i)
      in if length bs \<noteq> B then raise ''Could not read the block.'' else Inr bs)"

definition seg_writeBlock :: "nat \<Rightarrow> os_file \<Rightarrow> segment \<Rightarrow> nat \<Rightarrow> 8 word list \<Rightarrow> os_file" where
  "seg_writeBlock B f s i data = pwrite f data (block_pos B s i)"

definition seg_flush :: "os_file \<Rightarrow> segment \<Rightarrow> os_file" where
  "seg_flush f s = pwrite f (enc_seg_hdr (header s)) (fileOffset s)"

section \<open>Specification\<close>

text \<open>Following the free list: \<open>n\<close> blocks from block \<open>i\<close> on.\<close>

fun chain :: "nat \<Rightarrow> os_file \<Rightarrow> segment \<Rightarrow> nat \<Rightarrow> nat option \<Rightarrow> nat list" where
  "chain B f s 0 i = []"
| "chain B f s (Suc n) None = []"
| "chain B f s (Suc n) (Some i) =
     i # chain B f s n (if n = 0 then None else Some (dec_uint (pread f 8 (block_pos B s i))))"

definition free_list :: "nat \<Rightarrow> os_file \<Rightarrow> segment \<Rightarrow> nat list" where
  "free_list B f s = chain B f s (deletedBlocks (header s)) (freeNodesHead (header s))"

definition live :: "nat \<Rightarrow> os_file \<Rightarrow> segment \<Rightarrow> nat set" where
  "live B f s = {..<occupiedBlocks (header s)} - set (free_list B f s)"

definition seg_inv :: "nat \<Rightarrow> os_file \<Rightarrow> segment \<Rightarrow> bool" where
  "seg_inv B f s \<longleftrightarrow>
     sizeof_seg_hdr \<le> B \<and> B < 2 ^ 64 \<and> blockSize (header s) = B \<and>
     occupiedBlocks (header s) \<le> allocatedBlocks (header s) \<and>
     allocatedBlocks (header s) < 2 ^ 64 \<and>
     fileOffset s + getTotalSize B s \<le> fsize f \<and>
     (freeNodesHead (header s) = None \<longleftrightarrow> deletedBlocks (header s) = 0) \<and>
     length (free_list B f s) = deletedBlocks (header s) \<and>
     distinct (free_list B f s) \<and>
     set (free_list B f s) \<subseteq> {..<occupiedBlocks (header s)}"

lemmas seg_defs = free_list_def live_def seg_inv_def getTotalSize_def block_pos_def

subsection \<open>Positions\<close>

lemma block_end_le:
  assumes "i < n"
  shows "B + i * B + B \<le> B + n * (B::nat)"
proof -
  have "Suc i * B \<le> n * B" using assms by (intro mult_le_mono1) simp
  then show ?thesis by simp
qed

lemma block_in_file:
  assumes "fileOffset s + getTotalSize B s \<le> fsize f" "i < allocatedBlocks (header s)"
  shows "block_pos B s i + B \<le> fsize f"
  using block_end_le [OF assms(2), of B] assms(1) by (simp add: getTotalSize_def block_pos_def)

lemma block_disjoint:
  assumes "i \<noteq> j"
  shows "block_pos B s i + B \<le> block_pos B s j \<or> block_pos B s j + B \<le> block_pos B s i"
  using block_end_le [of i j B] block_end_le [of j i B] assms
  by (cases "i < j") (auto simp: block_pos_def)

subsection \<open>The free list only depends on its own blocks\<close>

lemma chain_cong:
  assumes "\<And>j. j \<in> set (chain B f s n i) \<Longrightarrow>
             pread f' 8 (block_pos B s' j) = pread f 8 (block_pos B s j)"
  shows "chain B f' s' n i = chain B f s n i"
  using assms by (induction B f s n i rule: chain.induct) auto

lemma free_list_cong:
  assumes "header s' = header s"
    "\<And>j. j \<in> set (free_list B f s) \<Longrightarrow>
       pread f' 8 (block_pos B s' j) = pread f 8 (block_pos B s j)"
  shows "free_list B f' s' = free_list B f s"
  using assms unfolding free_list_def by (auto intro: chain_cong)

lemma length_chain: "i \<noteq> None \<or> n = 0 \<Longrightarrow> length (chain B f s n i) = n"
  by (induction B f s n i rule: chain.induct) auto

lemma free_list_length_hd: "freeNodesHead (header s) = None \<longleftrightarrow> deletedBlocks (header s) = 0 \<Longrightarrow>
   length (free_list B f s) = deletedBlocks (header s)"
  unfolding free_list_def by (rule length_chain) auto

section \<open>Properties\<close>

lemma pread8_prefix:
  assumes "8 \<le> B" "pread f B p = bs" "p + B \<le> fsize f"
  shows "pread f 8 p = take 8 bs"
  using assms by (auto simp: pread_def min_def take_map)

lemma seg_new_inv:
  assumes "sizeof_seg_hdr \<le> B" "B < 2 ^ 64" "n < 2 ^ 64" "off + (B + n * B) \<le> fsize f"
  shows "seg_inv B f (seg_new B off n)"
    and "live B f (seg_new B off n) = {}"
    and "freeBlocks (seg_new B off n) = n"
  using assms by (auto simp: seg_new_def seg_defs freeBlocks_def)

lemma freeBlocks_live:
  assumes "seg_inv B f s"
  shows "card (live B f s) + freeBlocks s = allocatedBlocks (header s)"
proof -
  have "card (live B f s) = occupiedBlocks (header s) - deletedBlocks (header s)"
    using assms unfolding live_def seg_inv_def
    by (subst card_Diff_subset) (auto simp: distinct_card)
  moreover have "deletedBlocks (header s) \<le> occupiedBlocks (header s)"
    using assms unfolding seg_inv_def
    by (metis card_lessThan card_mono distinct_card finite_lessThan)
  ultimately show ?thesis using assms by (simp add: freeBlocks_def seg_inv_def)
qed

text \<open>Reading the head of a non-empty free list.\<close>

lemma getIDInBlock_ok:
  assumes "seg_inv B f s" "i < occupiedBlocks (header s)"
  shows "getIDInBlock B f s i = Inr (dec_uint (pread f 8 (block_pos B s i)))"
proof -
  have "block_pos B s i + B \<le> fsize f" "8 \<le> B"
    using assms block_in_file [of s B f i] by (auto simp: seg_inv_def sizeof_seg_hdr_def)
  then show ?thesis by (simp add: getIDInBlock_def)
qed

lemma seg_createBlock_reuse:
  assumes inv: "seg_inv B f s" and fl: "free_list B f s = i # rest"
  shows "\<exists>s'. seg_createBlock B f s = Inr (i, s') \<and> seg_inv B f s' \<and>
              free_list B f s' = rest \<and> live B f s' = insert i (live B f s) \<and>
              fileOffset s' = fileOffset s \<and>
              allocatedBlocks (header s') = allocatedBlocks (header s) \<and>
              freeBlocks s = Suc (freeBlocks s') \<and> i \<notin> live B f s \<and>
              i < allocatedBlocks (header s)"
proof -
  obtain n where n: "deletedBlocks (header s) = Suc n"
    using inv fl by (cases "deletedBlocks (header s)") (auto simp: seg_inv_def free_list_def)
  from inv fl n have hd: "freeNodesHead (header s) = Some i" and i: "i < occupiedBlocks (header s)"
    by (auto simp: seg_inv_def free_list_def split: option.splits)
  let ?next = "if n = 0 then None else Some (dec_uint (pread f 8 (block_pos B s i)))"
  let ?s' = "s\<lparr>header := (header s)\<lparr>freeNodesHead := ?next, deletedBlocks := n\<rparr>\<rparr>"
  have c: "seg_createBlock B f s = Inr (i, ?s')"
    using n hd getIDInBlock_ok [OF inv i] by (auto simp: seg_createBlock_def Let_def)
  have "rest = chain B f s n ?next" using fl n hd by (simp add: free_list_def)
  then have fl': "free_list B f ?s' = rest"
    by (auto simp: free_list_def block_pos_def intro: chain_cong)
  have "seg_inv B f ?s'"
    using inv fl n fl' by (auto simp: seg_inv_def getTotalSize_def)
  moreover have "live B f ?s' = insert i (live B f s)"
    using inv fl fl' i by (auto simp: live_def seg_inv_def)
  moreover have "i \<notin> live B f s" using fl by (simp add: live_def)
  moreover have "i < allocatedBlocks (header s)" using inv i by (simp add: seg_inv_def)
  ultimately show ?thesis using c fl' n by (auto simp: freeBlocks_def)
qed

lemma seg_createBlock_fresh:
  assumes inv: "seg_inv B f s" and fl: "free_list B f s = []" and free: "freeBlocks s > 0"
  shows "\<exists>s'. seg_createBlock B f s = Inr (occupiedBlocks (header s), s') \<and> seg_inv B f s' \<and>
              free_list B f s' = [] \<and>
              live B f s' = insert (occupiedBlocks (header s)) (live B f s) \<and>
              fileOffset s' = fileOffset s \<and>
              allocatedBlocks (header s') = allocatedBlocks (header s) \<and>
              freeBlocks s = Suc (freeBlocks s') \<and> occupiedBlocks (header s) \<notin> live B f s \<and>
              occupiedBlocks (header s) < allocatedBlocks (header s)"
proof -
  from inv fl have d: "deletedBlocks (header s) = 0" and h: "freeNodesHead (header s) = None"
    by (auto simp: seg_inv_def)
  then have o: "occupiedBlocks (header s) < allocatedBlocks (header s)"
    using free by (simp add: freeBlocks_def)
  let ?s' = "s\<lparr>header := (header s)\<lparr>occupiedBlocks := occupiedBlocks (header s) + 1\<rparr>\<rparr>"
  have "seg_createBlock B f s = Inr (occupiedBlocks (header s), ?s')"
    using d h o by (simp add: seg_createBlock_def Let_def)
  moreover have "free_list B f ?s' = []" using d by (simp add: free_list_def)
  ultimately show ?thesis
    using inv fl d o by (auto simp: seg_inv_def live_def getTotalSize_def freeBlocks_def)
qed

text \<open>Both ways of creating a block together.\<close>

lemma seg_createBlock_ok:
  assumes inv: "seg_inv B f s" and free: "freeBlocks s > 0"
  shows "\<exists>i s'. seg_createBlock B f s = Inr (i, s') \<and> seg_inv B f s' \<and>
                i \<notin> live B f s \<and> i < allocatedBlocks (header s) \<and>
                live B f s' = insert i (live B f s) \<and> freeBlocks s = Suc (freeBlocks s') \<and>
                fileOffset s' = fileOffset s \<and>
                allocatedBlocks (header s') = allocatedBlocks (header s)"
proof (cases "free_list B f s")
  case Nil
  from seg_createBlock_fresh [OF inv this free] show ?thesis by blast
next
  case (Cons i rest)
  from seg_createBlock_reuse [OF inv this] show ?thesis by blast
qed

text \<open>A full segment refuses.\<close>

lemma seg_createBlock_full_iff:
  assumes "seg_inv B f s"
  shows "seg_createBlock B f s = raise ''All blocks were occupied!'' \<longleftrightarrow> freeBlocks s = 0"
proof
  assume "seg_createBlock B f s = raise ''All blocks were occupied!''"
  then show "freeBlocks s = 0"
    using seg_createBlock_ok [OF assms] by (metis gr0I raise_not_Inr(2))
next
  assume "freeBlocks s = 0"
  then show "seg_createBlock B f s = raise ''All blocks were occupied!''"
    using assms by (auto simp: seg_createBlock_def freeBlocks_def seg_inv_def Let_def)
qed

lemma chain_push:
  assumes "n > 0" "dec_uint (pread f' 8 (block_pos B s i)) = j" "h = Some j"
    "\<And>k. k \<in> set (chain B f s n h) \<Longrightarrow>
       pread f' 8 (block_pos B s k) = pread f 8 (block_pos B s k)"
  shows "chain B f' s (Suc n) (Some i) = i # chain B f s n h"
proof -
  have "chain B f' s n h = chain B f s n h" by (rule chain_cong) (use assms in auto)
  then show ?thesis using assms by simp
qed

text \<open>
  Deleting pushes the block on the free list; the list is threaded through the deleted
  block only, so all bytes outside of it stay as they are.
\<close>

lemma seg_deleteBlock_ok:
  assumes inv: "seg_inv B f s" and i: "i \<in> live B f s"
  shows "\<exists>f' s'. seg_deleteBlock B f s i = Inr (f', s') \<and> seg_inv B f' s' \<and>
           live B f' s' = live B f s - {i} \<and> freeBlocks s' = Suc (freeBlocks s) \<and>
           (\<forall>p n. p + n \<le> fsize f \<longrightarrow> p + n \<le> block_pos B s i \<or> block_pos B s i + B \<le> p \<longrightarrow>
                  pread f' n p = pread f n p) \<and>
           fsize f' = fsize f \<and> fileOffset s' = fileOffset s \<and>
           allocatedBlocks (header s') = allocatedBlocks (header s) \<and>
           (\<exists>s''. seg_createBlock B f' s' = Inr (i, s''))"
proof -
  from i inv have io: "i < occupiedBlocks (header s)" and ia: "i < allocatedBlocks (header s)"
    and ifl: "i \<notin> set (free_list B f s)" by (auto simp: live_def seg_inv_def)
  have fit: "block_pos B s i + B \<le> fsize f" and B8: "8 \<le> B"
    using inv ia block_in_file [of s B f i] by (auto simp: seg_inv_def sizeof_seg_hdr_def)
  let ?h' = "(header s)\<lparr>freeNodesHead := Some i, deletedBlocks := deletedBlocks (header s) + 1\<rparr>"
  let ?s' = "s\<lparr>header := ?h'\<rparr>"
  let ?f' = "case freeNodesHead (header s) of None \<Rightarrow> f
             | Some j \<Rightarrow> pwrite f (enc64 j) (block_pos B s i)"
  have fl_in: "k < occupiedBlocks (header s)" if "k \<in> set (free_list B f s)" for k
    using inv that by (auto simp: seg_inv_def)
  have del: "seg_deleteBlock B f s i = Inr (?f', ?s')"
    using inv by (auto simp: seg_deleteBlock_def seg_inv_def storeIDInBlock_def Let_def split: option.split)
  have size: "fsize ?f' = fsize f"
    using fit B8 by (auto split: option.split)
  have frame: "pread ?f' n p = pread f n p"
    if "p + n \<le> fsize f" "p + n \<le> block_pos B s i \<or> block_pos B s i + B \<le> p" for p n
    using that B8 by (auto simp: pread_pwrite_other split: option.split)
  have other: "pread ?f' 8 (block_pos B s k) = pread f 8 (block_pos B s k)"
    if "k \<in> set (free_list B f s)" for k
  proof (rule frame)
    have "k < allocatedBlocks (header s)" using fl_in [OF that] inv by (simp add: seg_inv_def)
    then show "block_pos B s k + 8 \<le> fsize f"
      using inv block_in_file [of s B f k] B8 by (auto simp: seg_inv_def)
    show "block_pos B s k + 8 \<le> block_pos B s i \<or> block_pos B s i + B \<le> block_pos B s k"
      using block_disjoint [of k i B s] that ifl B8 by (metis add_leD1 add_le_cancel_left le_trans)
  qed
  have fl': "free_list B ?f' ?s' = i # free_list B f s"
  proof (cases "freeNodesHead (header s)")
    case None
    then have "deletedBlocks (header s) = 0" using inv by (simp add: seg_inv_def)
    with None show ?thesis by (simp add: free_list_def)
  next
    case (Some j)
    with inv have d: "deletedBlocks (header s) > 0" by (auto simp: seg_inv_def)
    have j: "j \<in> set (free_list B f s)"
      using Some d by (cases "deletedBlocks (header s)") (auto simp: free_list_def)
    have "j < 2 ^ 64" using fl_in [OF j] inv by (simp add: seg_inv_def)
    then have dec: "dec_uint (pread ?f' 8 (block_pos B s i)) = j" using Some by simp
    have "chain B ?f' s (Suc (deletedBlocks (header s))) (Some i) =
        i # chain B f s (deletedBlocks (header s)) (freeNodesHead (header s))"
      using d other Some dec unfolding free_list_def by (intro chain_push) auto
    then have "chain B ?f' ?s' (Suc (deletedBlocks (header s))) (Some i) = i # free_list B f s"
      unfolding free_list_def by (subst chain_cong [of B ?f' s]) (auto simp: block_pos_def)
    then show ?thesis by (simp add: free_list_def)
  qed
  have inv': "seg_inv B ?f' ?s'"
    using inv size fl' ifl io by (auto simp: seg_inv_def getTotalSize_def)
  have "live B ?f' ?s' = live B f s - {i}"
    using fl' by (auto simp: live_def)
  moreover have "\<exists>s''. seg_createBlock B ?f' ?s' = Inr (i, s'')"
    using seg_createBlock_reuse [OF inv' fl'] by blast
  moreover have "freeBlocks ?s' = Suc (freeBlocks s)" by (simp add: freeBlocks_def)
  ultimately show ?thesis using del inv' size frame by auto
qed

subsection \<open>Reading and writing blocks\<close>

lemma live_fits:
  assumes "seg_inv B f s" "i \<in> live B f s"
  shows "i < allocatedBlocks (header s)" "block_pos B s i + B \<le> fsize f"
  using assms block_in_file [of s B f i] by (auto simp: seg_inv_def live_def)

lemma seg_readBlock_ok:
  assumes "seg_inv B f s" "i \<in> live B f s"
  shows "seg_readBlock B f s i = Inr (pread f B (block_pos B s i))"
  using live_fits [OF assms] by (simp add: seg_readBlock_def)

text \<open>A change of the file outside the header fields and the free blocks keeps the invariant.\<close>

lemma seg_inv_cong:
  assumes inv: "seg_inv B f s" and hdr: "header s' = header s"
    and off: "fileOffset s' + getTotalSize B s' \<le> fsize f'"
    and same: "\<And>j. j \<in> set (free_list B f s) \<Longrightarrow>
                 pread f' 8 (block_pos B s' j) = pread f 8 (block_pos B s j)"
  shows "seg_inv B f' s'" and "live B f' s' = live B f s"
  using inv off free_list_cong [OF hdr same] hdr by (auto simp: seg_inv_def live_def)

lemma free_list_fits:
  assumes "seg_inv B f s" "k \<in> set (free_list B f s)"
  shows "block_pos B s k + B \<le> fsize f" "8 \<le> B"
proof -
  have "k < occupiedBlocks (header s)" using assms unfolding seg_inv_def by blast
  then show "block_pos B s k + B \<le> fsize f" "8 \<le> B"
    using assms block_in_file [of s B f k] by (auto simp: seg_inv_def sizeof_seg_hdr_def)
qed

lemma block_disjoint8:
  assumes "i \<noteq> j" "8 \<le> B"
  shows "block_pos B s i + 8 \<le> block_pos B s j \<or> block_pos B s j + B \<le> block_pos B s i"
  using block_disjoint [OF assms(1), of B s] assms(2) by auto

lemma seg_writeBlock_ok:
  assumes inv: "seg_inv B f s" and i: "i \<in> live B f s" and len: "length d = B"
  shows "seg_inv B (seg_writeBlock B f s i d) s"
    and "live B (seg_writeBlock B f s i d) s = live B f s"
    and "seg_readBlock B (seg_writeBlock B f s i d) s i = Inr d"
    and "j \<in> live B f s \<Longrightarrow> j \<noteq> i \<Longrightarrow>
         seg_readBlock B (seg_writeBlock B f s i d) s j = seg_readBlock B f s j"
proof -
  let ?f' = "seg_writeBlock B f s i d"
  note fit = live_fits [OF inv i]
  have size: "fsize ?f' = fsize f" using fit len by (simp add: seg_writeBlock_def)
  have same: "pread ?f' 8 (block_pos B s k) = pread f 8 (block_pos B s k)"
    if "k \<in> set (free_list B f s)" for k
    unfolding seg_writeBlock_def
    using free_list_fits [OF inv that] block_disjoint8 [of k i B s] i that len
    by (intro pread_pwrite_other) (auto simp: live_def)
  have tot: "fileOffset s + getTotalSize B s \<le> fsize ?f'" using inv size by (simp add: seg_inv_def)
  show inv': "seg_inv B ?f' s" and live': "live B ?f' s = live B f s"
    using seg_inv_cong [OF inv refl tot same] by auto
  show "seg_readBlock B ?f' s i = Inr d"
    using seg_readBlock_ok [OF inv'] live' i len by (simp add: seg_writeBlock_def)
  show "seg_readBlock B ?f' s j = seg_readBlock B f s j" if j: "j \<in> live B f s" "j \<noteq> i"
  proof -
    have "pread ?f' B (block_pos B s j) = pread f B (block_pos B s j)"
      unfolding seg_writeBlock_def
      using live_fits [OF inv j(1)] block_disjoint [OF j(2), of B s] len
      by (intro pread_pwrite_other) auto
    then show ?thesis using seg_readBlock_ok [OF inv j(1)] seg_readBlock_ok [OF inv', of j] live' j by simp
  qed
qed

text \<open>The state of a segment with its file, as the block store contract sees it.\<close>

definition seg_create_op :: "nat \<Rightarrow> os_file \<times> segment \<Rightarrow> (nat \<times> os_file \<times> segment) result" where
  "seg_create_op B = (\<lambda>(f, s). bindE (seg_createBlock B f s) (\<lambda>(i, s'). Inr (i, f, s')))"

interpretation seg: block_store
  "\<lambda>(f, s). seg_inv B f s" "\<lambda>(f, s). live B f s" "\<lambda>(f, s). freeBlocks s > 0" "\<lambda>d. length d = B"
  "seg_create_op B" "\<lambda>(f, s). seg_deleteBlock B f s" "\<lambda>(f, s). seg_readBlock B f s"
  "\<lambda>(f, s) i d. Inr (seg_writeBlock B f s i d, s)" for B
proof (unfold_locales, goal_cases)
  case (1 fs)
  obtain f s where fs: "fs = (f, s)" by (cases fs)
  obtain i s' where c: "seg_createBlock B f s = Inr (i, s')" "seg_inv B f s'"
      "i \<notin> live B f s" "live B f s' = insert i (live B f s)" "fileOffset s' = fileOffset s"
    using seg_createBlock_ok [of B f s] 1 fs by auto
  then show ?case using fs by (auto simp: seg_create_op_def seg_readBlock_def block_pos_def)
next
  case (2 fs i)
  obtain f s where fs: "fs = (f, s)" by (cases fs)
  obtain f' s' where c: "seg_deleteBlock B f s i = Inr (f', s')" "seg_inv B f' s'"
      "live B f' s' = live B f s - {i}" "fileOffset s' = fileOffset s"
      "\<forall>p n. p + n \<le> fsize f \<longrightarrow> p + n \<le> block_pos B s i \<or> block_pos B s i + B \<le> p \<longrightarrow>
             pread f' n p = pread f n p"
    using seg_deleteBlock_ok [of B f s i] 2 fs by auto
  have "seg_readBlock B f' s' j = seg_readBlock B f s j" if "j \<in> live B f s" "j \<noteq> i" for j
    using c(4,5) live_fits [of B f s j] block_disjoint [OF that(2), of B s] 2 fs that
    by (auto simp: seg_readBlock_def block_pos_def)
  then show ?case using c fs by auto
next
  case (3 fs i)
  then show ?case
    using seg_readBlock_ok live_fits by (cases fs) fastforce
next
  case (4 fs i d)
  then show ?case
    using seg_writeBlock_ok by (cases fs) auto
qed

subsection \<open>The header on disk\<close>

lemma length_enc_seg_hdr [simp]: "length (enc_seg_hdr h) = sizeof_seg_hdr"
  by (simp add: enc_seg_hdr_def sizeof_seg_hdr_def split: option.split)

lemma enc_seg_hdr_parts:
  "take 8 (enc_seg_hdr h) = enc64 (blockSize h)"
  "take 8 (drop 8 (enc_seg_hdr h)) = enc64 (allocatedBlocks h)"
  "take 8 (drop 16 (enc_seg_hdr h)) = enc64 (occupiedBlocks h)"
  "take 8 (drop 24 (enc_seg_hdr h)) = enc64 (deletedBlocks h)"
  "enc_seg_hdr h ! 40 = (if freeNodesHead h = None then 0 else 1)"
  "freeNodesHead h = Some n \<Longrightarrow> take 8 (drop 32 (enc_seg_hdr h)) = enc64 n"
  by (auto simp: enc_seg_hdr_def nth_append split: option.split)

lemma dec_enc_seg_hdr:
  assumes "blockSize h < 2 ^ 64" "allocatedBlocks h < 2 ^ 64" "occupiedBlocks h < 2 ^ 64"
    "deletedBlocks h < 2 ^ 64" "\<And>n. freeNodesHead h = Some n \<Longrightarrow> n < 2 ^ 64"
  shows "dec_seg_hdr (enc_seg_hdr h) = h"
proof -
  have "freeNodesHead (dec_seg_hdr (enc_seg_hdr h)) = freeNodesHead h"
    using assms(5) by (cases "freeNodesHead h") (simp_all add: dec_seg_hdr_def enc_seg_hdr_parts)
  then show ?thesis
    using assms(1-4) by (intro seg_hdr.equality) (simp_all add: dec_seg_hdr_def enc_seg_hdr_parts)
qed

lemma seg_hdr_bounds:
  assumes "seg_inv B f s"
  shows "dec_seg_hdr (enc_seg_hdr (header s)) = header s"
proof (rule dec_enc_seg_hdr)
  have "deletedBlocks (header s) \<le> occupiedBlocks (header s)"
    using freeBlocks_live [OF assms] assms unfolding seg_inv_def
    by (metis card_lessThan card_mono distinct_card finite_lessThan)
  then show "blockSize (header s) < 2 ^ 64" "allocatedBlocks (header s) < 2 ^ 64"
    "occupiedBlocks (header s) < 2 ^ 64" "deletedBlocks (header s) < 2 ^ 64"
    using assms by (auto simp: seg_inv_def)
  fix n assume n: "freeNodesHead (header s) = Some n"
  then have "n \<in> set (free_list B f s)"
    using assms by (cases "deletedBlocks (header s)") (auto simp: seg_inv_def free_list_def)
  then have "n < occupiedBlocks (header s)" using assms unfolding seg_inv_def by blast
  then show "n < 2 ^ 64" using assms by (auto simp: seg_inv_def)
qed

lemma seg_flush_frame:
  assumes "p + n \<le> fsize f" "p + n \<le> fileOffset s \<or> fileOffset s + sizeof_seg_hdr \<le> p"
  shows "pread (seg_flush f s) n p = pread f n p"
  unfolding seg_flush_def by (rule pread_pwrite_other) (use assms in auto)

lemma fsize_seg_flush:
  "seg_inv B f s \<Longrightarrow> fsize (seg_flush f s) = fsize f"
  by (auto simp: seg_flush_def seg_inv_def getTotalSize_def)

lemma seg_flush_ok:
  assumes "seg_inv B f s"
  shows "seg_inv B (seg_flush f s) s" and "live B (seg_flush f s) s = live B f s"
proof -
  have same: "pread (seg_flush f s) 8 (block_pos B s k) = pread f 8 (block_pos B s k)"
    if "k \<in> set (free_list B f s)" for k
    using free_list_fits [OF assms that] assms
    by (intro seg_flush_frame) (auto simp: block_pos_def seg_inv_def)
  have tot: "fileOffset s + getTotalSize B s \<le> fsize (seg_flush f s)"
    using assms fsize_seg_flush [OF assms] by (simp add: seg_inv_def)
  show "seg_inv B (seg_flush f s) s" "live B (seg_flush f s) s = live B f s"
    using seg_inv_cong [OF assms refl tot same] by auto
qed

text \<open>The header written by \<open>flush\<close> is read back by the constructor.\<close>

lemma seg_flush_open_ok:
  assumes "seg_inv B f s"
  shows "seg_open B (seg_flush f s) (fileOffset s) = Inr s \<and>
         seg_inv B (seg_flush f s) s \<and> live B (seg_flush f s) s = live B f s \<and>
         (\<forall>i \<in> live B f s. seg_readBlock B (seg_flush f s) s i = seg_readBlock B f s i)"
proof (intro conjI ballI)
  have "pread (seg_flush f s) sizeof_seg_hdr (fileOffset s) = enc_seg_hdr (header s)"
    unfolding seg_flush_def by (rule pread_pwrite_same) simp
  then show "seg_open B (seg_flush f s) (fileOffset s) = Inr s"
    using seg_hdr_bounds [OF assms] assms by (simp add: seg_open_def Let_def seg_inv_def)
  show inv': "seg_inv B (seg_flush f s) s" and live': "live B (seg_flush f s) s = live B f s"
    using seg_flush_ok [OF assms] by auto
  fix i assume i: "i \<in> live B f s"
  have "pread (seg_flush f s) B (block_pos B s i) = pread f B (block_pos B s i)"
    using live_fits [OF assms i] assms
    by (intro seg_flush_frame) (auto simp: block_pos_def seg_inv_def)
  then show "seg_readBlock B (seg_flush f s) s i = seg_readBlock B f s i"
    using seg_readBlock_ok [OF assms i] seg_readBlock_ok [OF inv', of i] live' i by simp
qed

section \<open>The segment's contract\<close>

text \<open>
  As long as a block is free, \<open>createBlock\<close> returns a block of the segment that is
  not in use, and marks exactly this block as used; it keeps the invariant, the position
  and the size of the segment, and uses up one free block.
\<close>

theorem seg_createBlock_correct:
  assumes "seg_inv B f s" and "freeBlocks s > 0"
  shows "\<exists>i s'. seg_createBlock B f s = Inr (i, s') \<and> seg_inv B f s' \<and>
                i \<notin> live B f s \<and> i < allocatedBlocks (header s) \<and>
                live B f s' = insert i (live B f s) \<and> freeBlocks s = Suc (freeBlocks s') \<and>
                fileOffset s' = fileOffset s \<and>
                allocatedBlocks (header s') = allocatedBlocks (header s)"
  by (rule seg_createBlock_ok [OF assms])

text \<open>A small segment: three blocks of 48 bytes at the start of a file.\<close>

definition demo_file :: os_file where
  "demo_file = ftruncate empty_file 192"

lemma demo_seg: "seg_inv 48 demo_file (seg_new 48 0 3)"
  "live 48 demo_file (seg_new 48 0 3) = {}" "freeBlocks (seg_new 48 0 3) = 3"
  using seg_new_inv [of 48 3 0 demo_file] by (simp_all add: demo_file_def sizeof_seg_hdr_def)

theorem seg_createBlock_correct_witness:
  "\<exists>i s'. seg_createBlock 48 demo_file (seg_new 48 0 3) = Inr (i, s') \<and>
          live 48 demo_file s' = {i} \<and> freeBlocks s' = 2"
proof -
  have "freeBlocks (seg_new 48 0 3) > 0" using demo_seg(3) by simp
  from seg_createBlock_correct [OF demo_seg(1) this] show ?thesis using demo_seg(2,3) by auto
qed

text \<open>
  A full segment refuses: with no free block left, \<open>createBlock\<close> raises, and it does
  so in no other state than a full one.
\<close>

theorem seg_createBlock_full:
  assumes "seg_inv B f s"
  shows "seg_createBlock B f s = raise ''All blocks were occupied!'' \<longleftrightarrow> freeBlocks s = 0"
  by (rule seg_createBlock_full_iff [OF assms])

theorem seg_createBlock_full_witness:
  "seg_createBlock 48 (ftruncate empty_file 48) (seg_new 48 0 0) = raise ''All blocks were occupied!''"
proof -
  have "seg_inv 48 (ftruncate empty_file 48) (seg_new 48 0 0)" "freeBlocks (seg_new 48 0 0) = 0"
    using seg_new_inv [of 48 0 0 "ftruncate empty_file 48"] by (simp_all add: sizeof_seg_hdr_def)
  then show ?thesis using seg_createBlock_full by blast
qed

text \<open>
  Deleting a block in use makes exactly this block free again, keeps the invariant
  and all bytes of the file outside the deleted block, and the next \<open>createBlock\<close> hands
  out the block that was deleted last.
\<close>

theorem seg_deleteBlock_correct:
  assumes "seg_inv B f s" and "i \<in> live B f s"
  shows "\<exists>f' s'. seg_deleteBlock B f s i = Inr (f', s') \<and> seg_inv B f' s' \<and>
           live B f' s' = live B f s - {i} \<and> freeBlocks s' = Suc (freeBlocks s) \<and>
           (\<forall>p n. p + n \<le> fsize f \<longrightarrow> p + n \<le> block_pos B s i \<or> block_pos B s i + B \<le> p \<longrightarrow>
                  pread f' n p = pread f n p) \<and>
           (\<exists>s''. seg_createBlock B f' s' = Inr (i, s''))"
  using seg_deleteBlock_ok [OF assms] by blast

theorem seg_deleteBlock_correct_witness:
  "\<exists>i s f' s' s''. seg_createBlock 48 demo_file (seg_new 48 0 3) = Inr (i, s) \<and>
     seg_deleteBlock 48 demo_file s i = Inr (f', s') \<and> live 48 f' s' = {} \<and>
     seg_createBlock 48 f' s' = Inr (i, s'')"
proof -
  have "freeBlocks (seg_new 48 0 3) > 0" using demo_seg(3) by simp
  from seg_createBlock_ok [OF demo_seg(1) this] demo_seg(2)
  obtain i s where s: "seg_createBlock 48 demo_file (seg_new 48 0 3) = Inr (i, s)"
      "seg_inv 48 demo_file s" "live 48 demo_file s = {i}" by auto
  then have "i \<in> live 48 demo_file s" by simp
  from seg_deleteBlock_correct [OF s(2) this] s show ?thesis by auto
qed

text \<open>
  Flushing a segment and constructing it again from the file gives the same segment:
  the same header, the same blocks in use with the same contents.
\<close>

theorem seg_flush_open:
  assumes "seg_inv B f s"
  shows "seg_open B (seg_flush f s) (fileOffset s) = Inr s \<and>
         live B (seg_flush f s) s = live B f s \<and>
         (\<forall>i \<in> live B f s. seg_readBlock B (seg_flush f s) s i = seg_readBlock B f s i)"
  using seg_flush_open_ok [OF assms] by blast

theorem seg_flush_open_witness:
  "seg_open 48 (seg_flush demo_file (seg_new 48 0 3)) 0 = Inr (seg_new 48 0 3)"
  using seg_flush_open [OF demo_seg(1)] by (simp add: seg_new_def)

end
