(* ===== verification/SegmentManager.thy ===== *)
theory SegmentManager
  imports Segment
begin

text \<open>
  \<open>src/file/SegmentManager.h\<close>: the segments of one file, laid out one after the other
  behind a header block, and the set of segments with a free block. A block of the
  manager is named by a 64-bit number, the index of its segment in the upper 16 bits and
  the block number within the segment in the lower 48 bits. When no segment has a free
  block, a new segment is appended whose size is the last size times the growth factor,
  at least 10.

  Two parameters stand for what the C++ standard leaves open or computes in floating
  point: \<open>grow n\<close> is \<open>n * growthFactor\<close> converted to \<open>size_t\<close>, and \<open>pick\<close> is the element
  that \<open>*freeSegments.begin()\<close> yields (any element of a non-empty set). The model runs one
  call at a time; the mutexes, which only order concurrent calls, are left out, and so is
  the waiting for a segment that another thread is still initialising.
\<close>

section \<open>Block numbers\<close>

type_synonym block_id = "64 word"

definition mk_id :: "nat \<Rightarrow> nat \<Rightarrow> block_id" where
  "mk_id segmentIndex blockID = or (push_bit 48 (of_nat segmentIndex)) (of_nat blockID)"

definition getIndexFromID :: "block_id \<Rightarrow> nat" where
  "getIndexFromID i = unat (drop_bit 48 i)"

definition getBlockFromID :: "block_id \<Rightarrow> nat" where
  "getBlockFromID i = unat (and i 0xffffffffffff)"

lemma mk_id_unat:
  assumes "i < 2 ^ 16" "b < 2 ^ 48"
  shows "unat (mk_id i b) = i * 2 ^ 48 + b"
proof -
  have nb: "\<not> bit (of_nat b :: 64 word) n" if "48 \<le> n" for n
  proof -
    have "take_bit 48 (of_nat b :: 64 word) = of_nat b"
      using assms(2) by (simp only: take_bit_of_nat take_bit_nat_eq_self)
    then show ?thesis using that by (metis bit_take_bit_iff not_less)
  qed
  have "mk_id i b = push_bit 48 (of_nat i) + of_nat b"
    unfolding mk_id_def
    by (rule disjunctive_add [symmetric]) (use nb in \<open>auto simp: bit_push_bit_iff\<close>)
  also have "\<dots> = of_nat (i * 2 ^ 48 + b)"
    by (simp only: push_bit_of_nat) (simp only: push_bit_eq_mult of_nat_add)
  finally have e: "mk_id i b = of_nat (i * 2 ^ 48 + b)" .
  have "i * 2 ^ 48 + b < Suc i * 2 ^ 48" using assms(2) by simp
  also have "\<dots> \<le> 2 ^ 16 * 2 ^ 48" using assms(1) by (intro mult_le_mono1) simp
  finally have "i * 2 ^ 48 + b < 2 ^ 16 * 2 ^ 48" .
  then have "i * 2 ^ 48 + b < 2 ^ 64" by (simp only: power_add [symmetric]) simp
  then have "(i * 2 ^ 48 + b) mod 2 ^ LENGTH(64) = i * 2 ^ 48 + b" by simp
  then show ?thesis unfolding e by (simp only: unat_of_nat)
qed

lemma block_id_roundtrip0:
  assumes "i < 2 ^ 16" "b < 2 ^ 48"
  shows "getIndexFromID (mk_id i b) = i \<and> getBlockFromID (mk_id i b) = b"
proof
  show "getIndexFromID (mk_id i b) = i"
  proof -
    have "getIndexFromID (mk_id i b) = drop_bit 48 (i * 2 ^ 48 + b)"
      by (simp only: getIndexFromID_def unat_drop_bit_eq mk_id_unat [OF assms])
    also have "\<dots> = (i * 2 ^ 48 + b) div 2 ^ 48" by (rule drop_bit_eq_div)
    also have "\<dots> = i" using assms(2) by simp
    finally show ?thesis .
  qed
  have "and (mk_id i b) 0xffffffffffff = take_bit 48 (mk_id i b)"
    by (simp add: take_bit_eq_mask mask_eq_exp_minus_1)
  then show "getBlockFromID (mk_id i b) = b"
  proof -
    assume e: "and (mk_id i b) 0xffffffffffff = take_bit 48 (mk_id i b)"
    have "getBlockFromID (mk_id i b) = take_bit 48 (i * 2 ^ 48 + b)"
      by (simp only: getBlockFromID_def e unsigned_take_bit_eq mk_id_unat [OF assms])
    also have "\<dots> = (i * 2 ^ 48 + b) mod 2 ^ 48" by (rule take_bit_eq_mod)
    also have "\<dots> = b" using assms(2) by simp
    finally show ?thesis .
  qed
qed

text \<open>
  The number of a block determines its segment and its place in the segment, as long
  as there are at most 2^16 segments of at most 2^48 blocks.
\<close>

theorem block_id_roundtrip:
  assumes "i < 2 ^ 16" "b < 2 ^ 48"
  shows "getIndexFromID (mk_id i b) = i \<and> getBlockFromID (mk_id i b) = b"
  by (rule block_id_roundtrip0 [OF assms])

theorem block_id_roundtrip_witness:
  "getIndexFromID (mk_id 3 7) = 3 \<and> getBlockFromID (mk_id 3 7) = 7"
  by (rule block_id_roundtrip) simp_all

text \<open>
  The bound on the number of segments is needed: nothing in the code enforces it, and
  segment 2^16 + i gets the same block numbers as segment i.
\<close>

theorem block_id_collision: "mk_id (2 ^ 16 + i) b = mk_id i b"
proof -
  have "push_bit 48 (of_nat (2 ^ 16 + i) :: 64 word) = push_bit 48 (of_nat i)"
  proof -
    have "(2 ^ 16 + i) * 2 ^ 48 = i * 2 ^ 48 + (2 ^ 64 :: nat)" by simp
    then have "take_bit LENGTH(64) ((2 ^ 16 + i) * 2 ^ 48) = take_bit LENGTH(64) (i * 2 ^ 48)"
      by (simp only: take_bit_eq_mod) simp
    then show ?thesis
      by (simp only: push_bit_of_nat) (simp only: push_bit_eq_mult word_of_nat_eq_iff)
  qed
  then show ?thesis by (simp only: mk_id_def)
qed

section \<open>State and operations\<close>

record seg_mgr =
  sm_file :: os_file
  numberOfSegments :: nat
  lastAllocatedBlocks :: nat
  segments :: "segment option list"
  freeSegments :: "nat set"

text \<open>\<open>segments.at(i)\<close> and the access to its segment, which must be initialised.\<close>

definition segment_at :: "seg_mgr \<Rightarrow> nat \<Rightarrow> segment result" where
  "segment_at m i =
     (if i \<ge> length (segments m) then Inl OutOfRange
      else case segments m ! i of None \<Rightarrow> Inl AssertFailed | Some s \<Rightarrow> Inr s)"

text \<open>The offset of the segment that is appended next.\<close>

definition next_offset :: "nat \<Rightarrow> seg_mgr \<Rightarrow> nat result" where
  "next_offset B m =
     (if numberOfSegments m = 0 then Inr B
      else if segments m = [] then Inl Undefined
      else case last (segments m) of None \<Rightarrow> Inl Undefined
           | Some s \<Rightarrow> Inr (fileOffset s + getTotalSize B s))"

definition sm_append_segment ::
  "nat \<Rightarrow> (nat \<Rightarrow> nat) \<Rightarrow> seg_mgr \<Rightarrow> (block_id \<times> seg_mgr) result" where
  "sm_append_segment B grow m =
     bindE (check (segments m = [] \<longrightarrow> numberOfSegments m = 0)) (\<lambda>_.
     bindE (check (freeSegments m = {})) (\<lambda>_.
     bindE (next_offset B m) (\<lambda>segmentOffset.
       let segmentSize = max 10 (grow (lastAllocatedBlocks m));
           segmentIndex = length (segments m);
           f = ftruncate (sm_file m) (segmentOffset + B + segmentSize * B)
       in bindE (seg_createBlock B f (seg_new B segmentOffset segmentSize)) (\<lambda>(blockID, s).
            Inr (mk_id segmentIndex blockID,
                 m\<lparr>sm_file := f, numberOfSegments := numberOfSegments m + 1,
                   lastAllocatedBlocks := segmentSize,
                   segments := segments m @ [Some s],
                   freeSegments := insert segmentIndex (freeSegments m)\<rparr>)))))"

definition sm_create_in_segment :: "nat \<Rightarrow> nat \<Rightarrow> seg_mgr \<Rightarrow> (block_id \<times> seg_mgr) result" where
  "sm_create_in_segment B segmentIndex m =
     bindE (segment_at m segmentIndex) (\<lambda>s.
     bindE (check (freeBlocks s > 0)) (\<lambda>_.
     bindE (seg_createBlock B (sm_file m) s) (\<lambda>(blockID, s').
       Inr (mk_id segmentIndex blockID,
            m\<lparr>segments := (segments m)[segmentIndex := Some s'],
              freeSegments := (if freeBlocks s = 1 then freeSegments m - {segmentIndex}
                               else freeSegments m)\<rparr>))))"

definition sm_createBlock ::
  "nat \<Rightarrow> (nat \<Rightarrow> nat) \<Rightarrow> (nat set \<Rightarrow> nat) \<Rightarrow> seg_mgr \<Rightarrow> (block_id \<times> seg_mgr) result" where
  "sm_createBlock B grow pick m =
     (if segments m = [] \<or> freeSegments m = {} then sm_append_segment B grow m
      else sm_create_in_segment B (pick (freeSegments m)) m)"

definition sm_deleteBlock :: "nat \<Rightarrow> seg_mgr \<Rightarrow> block_id \<Rightarrow> seg_mgr result" where
  "sm_deleteBlock B m i =
     (let segmentIndex = getIndexFromID i; blockID = getBlockFromID i
      in bindE (segment_at m segmentIndex) (\<lambda>s.
         bindE (seg_deleteBlock B (sm_file m) s blockID) (\<lambda>(f, s').
           Inr (m\<lparr>sm_file := f, segments := (segments m)[segmentIndex := Some s'],
                  freeSegments := insert segmentIndex (freeSegments m)\<rparr>))))"

definition sm_readBlock :: "nat \<Rightarrow> seg_mgr \<Rightarrow> block_id \<Rightarrow> 8 word list result" where
  "sm_readBlock B m i =
     bindE (segment_at m (getIndexFromID i)) (\<lambda>s.
       seg_readBlock B (sm_file m) s (getBlockFromID i))"

definition sm_writeBlock :: "nat \<Rightarrow> seg_mgr \<Rightarrow> block_id \<Rightarrow> 8 word list \<Rightarrow> seg_mgr result" where
  "sm_writeBlock B m i data =
     bindE (segment_at m (getIndexFromID i)) (\<lambda>s.
       Inr (m\<lparr>sm_file := seg_writeBlock B (sm_file m) s (getBlockFromID i) data\<rparr>))"

fun sum_allocated :: "segment option list \<Rightarrow> nat result" where
  "sum_allocated [] = Inr 0"
| "sum_allocated (None # ss) = Inl AssertFailed"
| "sum_allocated (Some s # ss) =
     bindE (sum_allocated ss) (\<lambda>r. Inr (allocatedBlocks (header s) + r))"

definition sm_allocatedBlocks :: "seg_mgr \<Rightarrow> nat result" where
  "sm_allocatedBlocks m = sum_allocated (segments m)"

fun flush_segments :: "os_file \<Rightarrow> segment option list \<Rightarrow> os_file result" where
  "flush_segments f [] = Inr f"
| "flush_segments f (None # ss) = Inl AssertFailed"
| "flush_segments f (Some s # ss) = flush_segments (seg_flush f s) ss"

definition sizeof_sm_hdr :: nat where
  "sizeof_sm_hdr = 16"

definition sm_flush :: "seg_mgr \<Rightarrow> seg_mgr result" where
  "sm_flush m =
     bindE (flush_segments (sm_file m) (segments m)) (\<lambda>f.
       Inr (m\<lparr>sm_file := pwrite f (enc64 (numberOfSegments m) @ enc64 (lastAllocatedBlocks m)) 0\<rparr>))"

text \<open>The constructor: a new directory, or the segments of an existing file one after the other.\<close>

definition sm_new :: "nat \<Rightarrow> seg_mgr" where
  "sm_new B =
     \<lparr>sm_file = ftruncate empty_file B, numberOfSegments = 0, lastAllocatedBlocks = 0,
      segments = [], freeSegments = {}\<rparr>"

fun load_segments ::
  "nat \<Rightarrow> os_file \<Rightarrow> nat \<Rightarrow> nat \<Rightarrow> nat \<Rightarrow> (segment option list \<times> nat set) result" where
  "load_segments B f 0 i off = Inr ([], {})"
| "load_segments B f (Suc n) i off =
     bindE (seg_open B f off) (\<lambda>s.
     bindE (load_segments B f n (Suc i) (fileOffset s + getTotalSize B s)) (\<lambda>(ss, fr).
       Inr (Some s # ss, if freeBlocks s > 0 then insert i fr else fr)))"

definition sm_open :: "nat \<Rightarrow> os_file \<Rightarrow> seg_mgr result" where
  "sm_open B f =
     (let bs = pread f sizeof_sm_hdr 0
      in if length bs \<noteq> sizeof_sm_hdr then raise ''Invalid segment file!''
         else let n = dec_uint (take 8 bs); l = dec_uint (drop 8 bs)
              in bindE (load_segments B f n 0 B) (\<lambda>(ss, fr).
                   Inr \<lparr>sm_file = f, numberOfSegments = n, lastAllocatedBlocks = l,
                        segments = ss, freeSegments = fr\<rparr>))"

section \<open>Specification\<close>

text \<open>The segments are initialised and lie one behind the other, the first at \<open>off\<close>.\<close>

fun layout :: "nat \<Rightarrow> nat \<Rightarrow> segment option list \<Rightarrow> bool" where
  "layout B off [] = True"
| "layout B off (None # ss) = False"
| "layout B off (Some s # ss) = (fileOffset s = off \<and> layout B (off + getTotalSize B s) ss)"

fun layout_end :: "nat \<Rightarrow> nat \<Rightarrow> segment option list \<Rightarrow> nat" where
  "layout_end B off [] = off"
| "layout_end B off (None # ss) = layout_end B off ss"
| "layout_end B off (Some s # ss) = layout_end B (off + getTotalSize B s) ss"

definition sm_inv :: "nat \<Rightarrow> seg_mgr \<Rightarrow> bool" where
  "sm_inv B m \<longleftrightarrow>
     sizeof_seg_hdr \<le> B \<and> B < 2 ^ 64 \<and> numberOfSegments m = length (segments m) \<and>
     length (segments m) \<le> 2 ^ 16 \<and> lastAllocatedBlocks m < 2 ^ 64 \<and>
     layout B B (segments m) \<and> fsize (sm_file m) = layout_end B B (segments m) \<and>
     (\<forall>i s. i < length (segments m) \<longrightarrow> segments m ! i = Some s \<longrightarrow>
            seg_inv B (sm_file m) s \<and> allocatedBlocks (header s) \<le> 2 ^ 48) \<and>
     freeSegments m = {i. i < length (segments m) \<and> freeBlocks (the (segments m ! i)) > 0}"

definition sm_used :: "nat \<Rightarrow> seg_mgr \<Rightarrow> block_id set" where
  "sm_used B m =
     {mk_id i b | i b s. i < length (segments m) \<and> segments m ! i = Some s \<and>
                         b \<in> live B (sm_file m) s}"

subsection \<open>Layout\<close>

lemma layout_Some: "layout B off ss \<Longrightarrow> i < length ss \<Longrightarrow> \<exists>s. ss ! i = Some s"
  by (induction B off ss arbitrary: i rule: layout.induct) (auto simp: nth_Cons split: nat.split)

lemma layout_end_ge: "off \<le> layout_end B off ss"
  by (induction B off ss rule: layout_end.induct) auto

lemma layout_bounds:
  "layout B off ss \<Longrightarrow> i < length ss \<Longrightarrow> ss ! i = Some s \<Longrightarrow>
   off \<le> fileOffset s \<and> fileOffset s + getTotalSize B s \<le> layout_end B off ss"
proof (induction B off ss arbitrary: i rule: layout.induct)
  case (3 B off t ss)
  show ?case
  proof (cases i)
    case 0
    with 3 show ?thesis using layout_end_ge [of "off + getTotalSize B t" B ss] by auto
  next
    case (Suc k)
    with 3 show ?thesis by fastforce
  qed
qed auto

lemma layout_disjoint:
  "layout B off ss \<Longrightarrow> i < j \<Longrightarrow> j < length ss \<Longrightarrow> ss ! i = Some s \<Longrightarrow> ss ! j = Some t \<Longrightarrow>
   fileOffset s + getTotalSize B s \<le> fileOffset t"
proof (induction B off ss arbitrary: i j rule: layout.induct)
  case (3 B off u ss)
  obtain k where k: "j = Suc k" using 3 by (cases j) auto
  show ?case
  proof (cases i)
    case 0
    with 3 k show ?thesis using layout_bounds [of B "off + getTotalSize B u" ss k t] by auto
  next
    case (Suc l)
    with 3 k show ?thesis by auto
  qed
qed auto

lemma layout_update:
  "layout B off ss \<Longrightarrow> i < length ss \<Longrightarrow> ss ! i = Some s \<Longrightarrow> fileOffset s' = fileOffset s \<Longrightarrow>
   getTotalSize B s' = getTotalSize B s \<Longrightarrow>
   layout B off (ss[i := Some s']) \<and> layout_end B off (ss[i := Some s']) = layout_end B off ss"
proof (induction B off ss arbitrary: i rule: layout.induct)
  case (3 B off t ss)
  then show ?case by (cases i) auto
qed auto

lemma layout_append:
  "layout B off ss \<Longrightarrow> fileOffset s = layout_end B off ss \<Longrightarrow>
   layout B off (ss @ [Some s]) \<and>
   layout_end B off (ss @ [Some s]) = layout_end B off ss + getTotalSize B s"
  by (induction B off ss rule: layout.induct) auto

lemma layout_last:
  "layout B off ss \<Longrightarrow> ss \<noteq> [] \<Longrightarrow>
   \<exists>s. last ss = Some s \<and> layout_end B off ss = fileOffset s + getTotalSize B s"
  by (induction B off ss rule: layout.induct) (auto split: if_splits)

lemma getTotalSize_cong:
  "allocatedBlocks (header s') = allocatedBlocks (header s) \<Longrightarrow> getTotalSize B s' = getTotalSize B s"
  by (simp add: getTotalSize_def)

subsection \<open>What a segment needs of the file\<close>

lemma seg_frame:
  assumes inv: "seg_inv B f s" and fits: "fileOffset s + getTotalSize B s \<le> fsize f'"
    and same: "\<And>p n. fileOffset s \<le> p \<Longrightarrow> p + n \<le> fileOffset s + getTotalSize B s \<Longrightarrow>
                 pread f' n p = pread f n p"
  shows "seg_inv B f' s" and "live B f' s = live B f s"
    and "i \<in> live B f s \<Longrightarrow> seg_readBlock B f' s i = seg_readBlock B f s i"
proof -
  have block: "fileOffset s \<le> block_pos B s k"
    "block_pos B s k + B \<le> fileOffset s + getTotalSize B s"
    if "k < allocatedBlocks (header s)" for k
    using block_end_le [OF that, of B] by (auto simp: block_pos_def getTotalSize_def)
  have fl: "k < allocatedBlocks (header s)" if "k \<in> set (free_list B f s)" for k
    using inv that unfolding seg_inv_def by fastforce
  have link: "pread f' 8 (block_pos B s k) = pread f 8 (block_pos B s k)"
    if "k \<in> set (free_list B f s)" for k
    by (rule same) (use block [OF fl [OF that]] free_list_fits(2) [OF inv that] in auto)
  show inv': "seg_inv B f' s" and live': "live B f' s = live B f s"
    using seg_inv_cong [OF inv refl fits link] by auto
  show "seg_readBlock B f' s i = seg_readBlock B f s i" if i: "i \<in> live B f s"
  proof -
    have "pread f' B (block_pos B s i) = pread f B (block_pos B s i)"
      by (rule same) (use block [OF live_fits(1) [OF inv i]] in auto)
    then show ?thesis
      using seg_readBlock_ok [OF inv i] seg_readBlock_ok [OF inv', of i] live' i by simp
  qed
qed

subsection \<open>Segments of a manager\<close>

lemma sm_invD:
  assumes "sm_inv B m" "i < length (segments m)" "segments m ! i = Some s"
  shows "seg_inv B (sm_file m) s" "allocatedBlocks (header s) \<le> 2 ^ 48" "i < 2 ^ 16"
    "segment_at m i = Inr s" "b \<in> live B (sm_file m) s \<Longrightarrow> b < 2 ^ 48"
    "i \<in> freeSegments m \<longleftrightarrow> freeBlocks s > 0"
proof -
  show seg: "seg_inv B (sm_file m) s" "allocatedBlocks (header s) \<le> 2 ^ 48" and "i < 2 ^ 16"
    using assms by (auto simp: sm_inv_def)
  show "segment_at m i = Inr s" using assms by (simp add: segment_at_def)
  show "b < 2 ^ 48" if "b \<in> live B (sm_file m) s"
    using live_fits(1) [OF seg(1) that] seg(2) by simp
  show "i \<in> freeSegments m \<longleftrightarrow> freeBlocks s > 0" using assms by (auto simp: sm_inv_def)
qed

lemma sm_segment_exists:
  "sm_inv B m \<Longrightarrow> i < length (segments m) \<Longrightarrow> \<exists>s. segments m ! i = Some s"
  by (auto simp: sm_inv_def intro: layout_Some)

lemma mk_id_inj:
  assumes "i < 2 ^ 16" "b < 2 ^ 48" "i' < 2 ^ 16" "b' < 2 ^ 48" "mk_id i b = mk_id i' b'"
  shows "i = i' \<and> b = b'"
  using block_id_roundtrip0 [OF assms(1,2)] block_id_roundtrip0 [OF assms(3,4)] assms(5) by metis

lemma sm_usedE:
  assumes "sm_inv B m" "x \<in> sm_used B m"
  obtains i b s where "x = mk_id i b" "i < length (segments m)" "segments m ! i = Some s"
    "b \<in> live B (sm_file m) s" "getIndexFromID x = i" "getBlockFromID x = b"
proof -
  obtain i b s where x: "x = mk_id i b" "i < length (segments m)" "segments m ! i = Some s"
      "b \<in> live B (sm_file m) s"
    using assms(2) by (auto simp: sm_used_def)
  then have "i < 2 ^ 16" "b < 2 ^ 48" using sm_invD [OF assms(1) x(2,3)] by auto
  then show ?thesis using x block_id_roundtrip0 that by blast
qed

lemma sm_used_mk_id:
  assumes "sm_inv B m" "i < length (segments m)" "segments m ! i = Some s" "b < 2 ^ 48"
  shows "mk_id i b \<in> sm_used B m \<longleftrightarrow> b \<in> live B (sm_file m) s"
proof
  assume "mk_id i b \<in> sm_used B m"
  then obtain i' b' s' where x: "mk_id i b = mk_id i' b'" "i' < length (segments m)"
      "segments m ! i' = Some s'" "b' \<in> live B (sm_file m) s'"
    by (auto simp: sm_used_def)
  have "i' < 2 ^ 16" "b' < 2 ^ 48" "i < 2 ^ 16"
    using sm_invD [OF assms(1) x(2,3)] sm_invD [OF assms(1-3)] x(4) by auto
  then have "i = i'" "b = b'" using mk_id_inj [of i b i' b'] x(1) assms(4) by auto
  then show "b \<in> live B (sm_file m) s" using x assms(3) by simp
qed (use assms in \<open>auto simp: sm_used_def\<close>)

lemma sm_readBlock_eq:
  assumes "sm_inv B m" "i < length (segments m)" "segments m ! i = Some s" "b < 2 ^ 48"
  shows "sm_readBlock B m (mk_id i b) = seg_readBlock B (sm_file m) s b"
  using block_id_roundtrip0 [of i b] sm_invD [OF assms(1-3)] assms(4)
  by (simp add: sm_readBlock_def)

text \<open>Replacing one segment, with a change of the file in the area of this segment only.\<close>

lemma sm_update:
  assumes inv: "sm_inv B m" and i: "i < length (segments m)" "segments m ! i = Some s"
    and s': "seg_inv B f' s'" "fileOffset s' = fileOffset s"
      "allocatedBlocks (header s') = allocatedBlocks (header s)"
    and size: "fsize f' = fsize (sm_file m)"
    and frame: "\<And>p n. p + n \<le> fsize (sm_file m) \<Longrightarrow>
        p + n \<le> fileOffset s \<or> fileOffset s + getTotalSize B s \<le> p \<Longrightarrow>
        pread f' n p = pread (sm_file m) n p"
    and fr: "fr = (if freeBlocks s' > 0 then insert i (freeSegments m) else freeSegments m - {i})"
  defines "m' \<equiv> m\<lparr>sm_file := f', segments := (segments m)[i := Some s'], freeSegments := fr\<rparr>"
  shows "sm_inv B m'"
    and "sm_used B m' = (sm_used B m - mk_id i ` live B (sm_file m) s) \<union> mk_id i ` live B f' s'"
    and "\<And>x. x \<in> sm_used B m \<Longrightarrow> getIndexFromID x \<noteq> i \<Longrightarrow>
           sm_readBlock B m' x = sm_readBlock B m x"
proof -
  note segi = sm_invD [OF inv i]
  have lay: "layout B B (segments m)" using inv by (simp add: sm_inv_def)
  have lay': "layout B B ((segments m)[i := Some s'])"
    "layout_end B B ((segments m)[i := Some s']) = layout_end B B (segments m)"
    using layout_update [OF lay i s'(2) getTotalSize_cong [OF s'(3)]] by auto
  have other: "seg_inv B f' t \<and> live B f' t = live B (sm_file m) t \<and>
      (\<forall>b \<in> live B (sm_file m) t. seg_readBlock B f' t b = seg_readBlock B (sm_file m) t b)"
    if j: "j < length (segments m)" "segments m ! j = Some t" "j \<noteq> i" for j t
  proof -
    note segj = sm_invD(1) [OF inv j(1,2)]
    have fits: "fileOffset t + getTotalSize B t \<le> fsize f'"
      using segj size by (simp add: seg_inv_def)
    have "fileOffset t + getTotalSize B t \<le> fileOffset s \<or>
          fileOffset s + getTotalSize B s \<le> fileOffset t"
      using layout_disjoint [OF lay, of i j s t] layout_disjoint [OF lay, of j i t s] i j by linarith
    then have "pread f' n p = pread (sm_file m) n p"
      if "fileOffset t \<le> p" "p + n \<le> fileOffset t + getTotalSize B t" for p n
      using frame [of p n] that fits size by auto
    then show ?thesis using seg_frame [OF segj fits] by blast
  qed
  have free: "fr = {j. j < length (segments m) \<and>
                  freeBlocks (the ((segments m)[i := Some s'] ! j)) > 0}"
    using inv i fr by (auto simp: sm_inv_def nth_list_update split: if_splits)
  have segs: "seg_inv B f' t \<and> allocatedBlocks (header t) \<le> 2 ^ 48"
    if "j < length (segments m)" "(segments m)[i := Some s'] ! j = Some t" for j t
  proof (cases "j = i")
    case True
    then have "t = s'" using that i by simp
    then show ?thesis using s' segi(2) by simp
  next
    case False
    then have "segments m ! j = Some t" using that by simp
    then show ?thesis using other [of j t] sm_invD(2) [OF inv that(1)] that False by simp
  qed
  show inv': "sm_inv B m'"
    using inv lay' size free segs unfolding sm_inv_def m'_def by simp
  show "sm_used B m' = (sm_used B m - mk_id i ` live B (sm_file m) s) \<union> mk_id i ` live B f' s'"
  proof (intro equalityI subsetI)
    fix x assume "x \<in> sm_used B m'"
    then obtain j b t where x: "x = mk_id j b" "j < length (segments m)"
        "(segments m)[i := Some s'] ! j = Some t" "b \<in> live B f' t"
      by (auto simp: sm_used_def m'_def)
    show "x \<in> (sm_used B m - mk_id i ` live B (sm_file m) s) \<union> mk_id i ` live B f' s'"
    proof (cases "j = i")
      case True
      then show ?thesis using x i by auto
    next
      case False
      then have t: "segments m ! j = Some t" "b \<in> live B (sm_file m) t"
        using x other [of j t] by auto
      have "x \<notin> mk_id i ` live B (sm_file m) s"
      proof
        assume "x \<in> mk_id i ` live B (sm_file m) s"
        then obtain c where c: "x = mk_id i c" "c \<in> live B (sm_file m) s" by blast
        have "c < 2 ^ 48" "i < 2 ^ 16" using segi(3,5) c(2) by auto
        moreover have "b < 2 ^ 48" "j < 2 ^ 16" using sm_invD(3,5) [OF inv x(2) t(1)] t(2) by auto
        ultimately have "j = i" using mk_id_inj [of j b i c] c(1) x(1) by simp
        with False show False by contradiction
      qed
      then show ?thesis using x t by (auto simp: sm_used_def)
    qed
  next
    fix x assume x: "x \<in> (sm_used B m - mk_id i ` live B (sm_file m) s) \<union> mk_id i ` live B f' s'"
    then consider "x \<in> mk_id i ` live B f' s'"
      | "x \<in> sm_used B m" "x \<notin> mk_id i ` live B (sm_file m) s" by blast
    then show "x \<in> sm_used B m'"
    proof cases
      case 1
      then obtain b where b: "x = mk_id i b" "b \<in> live B f' s'" by blast
      have "(segments m)[i := Some s'] ! i = Some s'" using i by simp
      then show ?thesis using i b unfolding sm_used_def m'_def by fastforce
    next
      case 2
      then obtain j b t where y: "x = mk_id j b" "j < length (segments m)" "segments m ! j = Some t"
          "b \<in> live B (sm_file m) t" by (auto simp: sm_used_def)
      with 2(2) i have "j \<noteq> i" by auto
      then show ?thesis using y other [of j t] unfolding sm_used_def m'_def by fastforce
    qed
  qed
  show "sm_readBlock B m' x = sm_readBlock B m x"
    if x: "x \<in> sm_used B m" "getIndexFromID x \<noteq> i" for x
  proof -
    from sm_usedE [OF inv x(1)] obtain j b t where y: "x = mk_id j b" "j < length (segments m)"
        "segments m ! j = Some t" "b \<in> live B (sm_file m) t" "getIndexFromID x = j" by metis
    have b: "b < 2 ^ 48" using sm_invD [OF inv y(2,3)] y(4) by auto
    have ji: "j \<noteq> i" using y x by simp
    have "sm_readBlock B m' x = seg_readBlock B f' t b"
      using sm_readBlock_eq [OF inv', of j t b] y b ji by (simp add: m'_def)
    also have "\<dots> = sm_readBlock B m x"
      using other [OF y(2,3) ji] y sm_readBlock_eq [OF inv y(2,3) b] by simp
    finally show ?thesis .
  qed
qed

subsection \<open>Operations of a manager\<close>

lemma next_offset_ok:
  assumes "sm_inv B m"
  shows "next_offset B m = Inr (layout_end B B (segments m))"
proof (cases "segments m = []")
  case False
  then show ?thesis
    using layout_last [of B B "segments m"] assms by (auto simp: next_offset_def sm_inv_def)
qed (use assms in \<open>simp add: next_offset_def sm_inv_def\<close>)

lemma sm_append_segment_ok:
  assumes inv: "sm_inv B m" and full: "freeSegments m = {}"
    and n: "length (segments m) < 2 ^ 16" and g: "grow (lastAllocatedBlocks m) \<le> 2 ^ 48"
  shows "\<exists>x m'. sm_append_segment B grow m = Inr (x, m') \<and> sm_inv B m' \<and> x \<notin> sm_used B m \<and>
           sm_used B m' = insert x (sm_used B m) \<and>
           (\<forall>y \<in> sm_used B m. sm_readBlock B m' y = sm_readBlock B m y)"
proof -
  let ?sz = "max 10 (grow (lastAllocatedBlocks m))" and ?off = "layout_end B B (segments m)"
    and ?i = "length (segments m)"
  let ?f = "ftruncate (sm_file m) (?off + B + ?sz * B)"
  have B: "sizeof_seg_hdr \<le> B" "B < 2 ^ 64" and lay: "layout B B (segments m)"
    and size: "fsize (sm_file m) = ?off" using inv by (auto simp: sm_inv_def)
  have sz: "?sz \<le> 2 ^ 48" "?sz < 2 ^ 64" "0 < ?sz" using g by auto
  note new = seg_new_inv [OF B sz(2), of ?off ?f]
  have inv0: "seg_inv B ?f (seg_new B ?off ?sz)" by (rule new(1)) simp
  have live0: "live B ?f (seg_new B ?off ?sz) = {}" and free0: "freeBlocks (seg_new B ?off ?sz) = ?sz"
    using new(2,3) by simp_all
  obtain b s where c: "seg_createBlock B ?f (seg_new B ?off ?sz) = Inr (b, s)" "seg_inv B ?f s"
      "b < ?sz" "live B ?f s = {b}" "?sz = Suc (freeBlocks s)" "fileOffset s = ?off"
      "allocatedBlocks (header s) = ?sz"
    using seg_createBlock_ok [OF inv0] sz free0 live0 by (auto simp: seg_new_def)
  let ?m' = "m\<lparr>sm_file := ?f, numberOfSegments := numberOfSegments m + 1,
               lastAllocatedBlocks := ?sz, segments := segments m @ [Some s],
               freeSegments := insert ?i (freeSegments m)\<rparr>"
  have res: "sm_append_segment B grow m = Inr (mk_id ?i b, ?m')"
    using inv full c(1) next_offset_ok [OF inv]
    by (simp add: sm_append_segment_def Let_def sm_inv_def)
  have old: "seg_inv B ?f t \<and> live B ?f t = live B (sm_file m) t \<and>
      (\<forall>k \<in> live B (sm_file m) t. seg_readBlock B ?f t k = seg_readBlock B (sm_file m) t k)"
    if j: "j < ?i" "segments m ! j = Some t" for j t
  proof -
    have e: "fileOffset t + getTotalSize B t \<le> ?off" using layout_bounds [OF lay j] by simp
    have fits: "fileOffset t + getTotalSize B t \<le> fsize ?f" using e by simp
    have "pread ?f k p = pread (sm_file m) k p"
      if "fileOffset t \<le> p" "p + k \<le> fileOffset t + getTotalSize B t" for p k
      by (rule pread_ftruncate) (use that e size in auto)
    then show ?thesis using seg_frame [OF sm_invD(1) [OF inv j] fits] by blast
  qed
  have total: "getTotalSize B s = B + ?sz * B" using c(7) by (simp add: getTotalSize_def)
  have lay': "layout B B (segments m @ [Some s])"
    "layout_end B B (segments m @ [Some s]) = ?off + (B + ?sz * B)"
    using layout_append [OF lay c(6)] total by auto
  have segs: "seg_inv B ?f t \<and> allocatedBlocks (header t) \<le> 2 ^ 48"
    if "j < Suc ?i" "(segments m @ [Some s]) ! j = Some t" for j t
  proof (cases "j = ?i")
    case True
    then show ?thesis using that c(2,7) sz(1) by auto
  next
    case False
    then have j: "j < ?i" "segments m ! j = Some t" using that by (auto simp: nth_append)
    then show ?thesis using old [OF j] sm_invD(2) [OF inv j] by blast
  qed
  have fs: "insert ?i (freeSegments m) =
      {j. j < Suc ?i \<and> freeBlocks (the ((segments m @ [Some s]) ! j)) > 0}"
    using inv c(5) sz(3) by (auto simp: sm_inv_def nth_append less_Suc_eq)
  have inv': "sm_inv B ?m'"
    using inv n lay' sz(2) segs fs unfolding sm_inv_def by (simp add: add.assoc)
  have new_used: "sm_used B ?m' = insert (mk_id ?i b) (sm_used B m)"
  proof (intro equalityI subsetI)
    fix x assume "x \<in> sm_used B ?m'"
    then obtain j k t where x: "x = mk_id j k" "j < Suc ?i" "(segments m @ [Some s]) ! j = Some t"
        "k \<in> live B ?f t" by (auto simp: sm_used_def)
    then show "x \<in> insert (mk_id ?i b) (sm_used B m)"
    proof (cases "j = ?i")
      case False
      then have "j < ?i" "segments m ! j = Some t" using x by (auto simp: nth_append)
      then show ?thesis using x old [of j t] by (auto simp: sm_used_def)
    qed (use c(4) in auto)
  next
    fix x assume "x \<in> insert (mk_id ?i b) (sm_used B m)"
    then consider "x = mk_id ?i b" | "x \<in> sm_used B m" by blast
    then show "x \<in> sm_used B ?m'"
    proof cases
      case 1
      have "(segments m @ [Some s]) ! ?i = Some s" by simp
      then show ?thesis using 1 c(4) unfolding sm_used_def by fastforce
    next
      case 2
      then obtain j k t where y: "x = mk_id j k" "j < ?i" "segments m ! j = Some t"
          "k \<in> live B (sm_file m) t" by (auto simp: sm_used_def)
      then have "(segments m @ [Some s]) ! j = Some t" "k \<in> live B ?f t"
        using old [OF y(2,3)] by (auto simp: nth_append)
      then show ?thesis using y unfolding sm_used_def by fastforce
    qed
  qed
  have fresh: "mk_id ?i b \<notin> sm_used B m"
  proof
    assume "mk_id ?i b \<in> sm_used B m"
    then obtain j k t where y: "mk_id ?i b = mk_id j k" "j < ?i" "segments m ! j = Some t"
        "k \<in> live B (sm_file m) t" by (auto simp: sm_used_def)
    have "k < 2 ^ 48" "j < 2 ^ 16" "b < 2 ^ 48"
      using sm_invD(3,5) [OF inv y(2,3)] y(4) c(3) sz(1) by auto
    then show False using mk_id_inj [of ?i b j k] y n by auto
  qed
  have "sm_readBlock B ?m' y = sm_readBlock B m y" if y: "y \<in> sm_used B m" for y
  proof -
    from sm_usedE [OF inv y] obtain j k t where z: "y = mk_id j k" "j < ?i"
        "segments m ! j = Some t" "k \<in> live B (sm_file m) t" by metis
    have k: "k < 2 ^ 48" using sm_invD(5) [OF inv z(2,3)] z(4) by auto
    have "sm_readBlock B ?m' y = seg_readBlock B ?f t k"
      using sm_readBlock_eq [OF inv', of j t k] z k by (simp add: nth_append)
    then show ?thesis using old [OF z(2,3)] z sm_readBlock_eq [OF inv z(2,3) k] by simp
  qed
  then show ?thesis using res inv' new_used fresh by blast
qed

lemma sm_create_in_segment_ok:
  assumes inv: "sm_inv B m" and i: "i \<in> freeSegments m"
  shows "\<exists>x m'. sm_create_in_segment B i m = Inr (x, m') \<and> sm_inv B m' \<and> x \<notin> sm_used B m \<and>
           sm_used B m' = insert x (sm_used B m) \<and>
           (\<forall>y \<in> sm_used B m. sm_readBlock B m' y = sm_readBlock B m y)"
proof -
  have il: "i < length (segments m)" using inv i by (auto simp: sm_inv_def)
  then obtain s where s: "segments m ! i = Some s" using sm_segment_exists [OF inv] by blast
  note segi = sm_invD [OF inv il s]
  have free: "freeBlocks s > 0" using segi(6) i by simp
  obtain b s' where c: "seg_createBlock B (sm_file m) s = Inr (b, s')" "seg_inv B (sm_file m) s'"
      "b \<notin> live B (sm_file m) s" "b < allocatedBlocks (header s)"
      "live B (sm_file m) s' = insert b (live B (sm_file m) s)" "freeBlocks s = Suc (freeBlocks s')"
      "fileOffset s' = fileOffset s" "allocatedBlocks (header s') = allocatedBlocks (header s)"
    using seg_createBlock_ok [OF segi(1) free] by blast
  have b: "b < 2 ^ 48" using c(4) segi(2) by simp
  let ?fr = "if freeBlocks s = 1 then freeSegments m - {i} else freeSegments m"
  have fr: "?fr = (if freeBlocks s' > 0 then insert i (freeSegments m) else freeSegments m - {i})"
    using c(6) i by auto
  let ?m' = "m\<lparr>segments := (segments m)[i := Some s'], freeSegments := ?fr\<rparr>"
  have res: "sm_create_in_segment B i m = Inr (mk_id i b, ?m')"
    using segi(4) free c(1) by (simp add: sm_create_in_segment_def)
  note up = sm_update [OF inv il s c(2,7,8) refl _ fr, simplified]
  have inv': "sm_inv B ?m'" and
    used': "sm_used B ?m' = (sm_used B m - mk_id i ` live B (sm_file m) s) \<union>
              mk_id i ` live B (sm_file m) s'"
    using up(1,2) by simp_all
  have "mk_id i k \<in> sm_used B m" if "k \<in> live B (sm_file m) s" for k
    using that il s by (auto simp: sm_used_def)
  then have used: "sm_used B ?m' = insert (mk_id i b) (sm_used B m)"
    using used' c(5) by auto
  have fresh: "mk_id i b \<notin> sm_used B m" using sm_used_mk_id [OF inv il s b] c(3) by simp
  have "sm_readBlock B ?m' y = sm_readBlock B m y" if y: "y \<in> sm_used B m" for y
  proof (cases "getIndexFromID y = i")
    case False
    then show ?thesis using up(3) y by simp
  next
    case True
    then have "segment_at ?m' (getIndexFromID y) = Inr s'" "segment_at m (getIndexFromID y) = Inr s"
      using il s by (simp_all add: segment_at_def)
    then show ?thesis using c(7) by (simp add: sm_readBlock_def seg_readBlock_def block_pos_def)
  qed
  then show ?thesis using res inv' used fresh by blast
qed

text \<open>The room that the block numbers leave for a new segment.\<close>

definition sm_can_grow :: "(nat \<Rightarrow> nat) \<Rightarrow> seg_mgr \<Rightarrow> bool" where
  "sm_can_grow grow m \<longleftrightarrow>
     freeSegments m \<noteq> {} \<or> length (segments m) < 2 ^ 16 \<and> grow (lastAllocatedBlocks m) \<le> 2 ^ 48"

lemma sm_createBlock_ok:
  assumes inv: "sm_inv B m" and room: "sm_can_grow grow m"
    and pick: "freeSegments m \<noteq> {} \<Longrightarrow> pick (freeSegments m) \<in> freeSegments m"
  shows "\<exists>x m'. sm_createBlock B grow pick m = Inr (x, m') \<and> sm_inv B m' \<and> x \<notin> sm_used B m \<and>
           sm_used B m' = insert x (sm_used B m) \<and>
           (\<forall>y \<in> sm_used B m. sm_readBlock B m' y = sm_readBlock B m y)"
proof (cases "freeSegments m = {}")
  case True
  then show ?thesis
    using sm_append_segment_ok [OF inv True] room by (auto simp: sm_createBlock_def sm_can_grow_def)
next
  case False
  then have "segments m \<noteq> []" using inv by (auto simp: sm_inv_def)
  then show ?thesis
    using sm_create_in_segment_ok [OF inv pick [OF False]] False by (simp add: sm_createBlock_def)
qed

lemma sm_deleteBlock_ok:
  assumes inv: "sm_inv B m" and x: "x \<in> sm_used B m"
  shows "\<exists>m'. sm_deleteBlock B m x = Inr m' \<and> sm_inv B m' \<and> sm_used B m' = sm_used B m - {x} \<and>
           (\<forall>y \<in> sm_used B m'. sm_readBlock B m' y = sm_readBlock B m y)"
proof -
  from sm_usedE [OF inv x] obtain i b s where ib: "x = mk_id i b" "i < length (segments m)"
      "segments m ! i = Some s" "b \<in> live B (sm_file m) s" "getIndexFromID x = i"
      "getBlockFromID x = b" by metis
  note segi = sm_invD [OF inv ib(2,3)]
  have b: "b < 2 ^ 48" using segi(5) ib(4) by simp
  obtain f s' where c: "seg_deleteBlock B (sm_file m) s b = Inr (f, s')" "seg_inv B f s'"
      "live B f s' = live B (sm_file m) s - {b}" "freeBlocks s' = Suc (freeBlocks s)"
      "\<forall>p n. p + n \<le> fsize (sm_file m) \<longrightarrow>
         p + n \<le> block_pos B s b \<or> block_pos B s b + B \<le> p \<longrightarrow>
         pread f n p = pread (sm_file m) n p" "fsize f = fsize (sm_file m)"
      "fileOffset s' = fileOffset s" "allocatedBlocks (header s') = allocatedBlocks (header s)"
    using seg_deleteBlock_ok [OF segi(1) ib(4)] by blast
  let ?m' = "m\<lparr>sm_file := f, segments := (segments m)[i := Some s'],
               freeSegments := insert i (freeSegments m)\<rparr>"
  have res: "sm_deleteBlock B m x = Inr ?m'"
    using ib segi(4) c(1) by (simp add: sm_deleteBlock_def)
  have in_seg: "fileOffset s \<le> block_pos B s b"
      "block_pos B s b + B \<le> fileOffset s + getTotalSize B s"
    using block_end_le [OF live_fits(1) [OF segi(1) ib(4)], of B]
    by (auto simp: block_pos_def getTotalSize_def)
  have frame: "pread f n p = pread (sm_file m) n p"
    if "p + n \<le> fsize (sm_file m)" "p + n \<le> fileOffset s \<or> fileOffset s + getTotalSize B s \<le> p"
    for p n using c(5) that in_seg by auto
  have fr: "insert i (freeSegments m) =
      (if freeBlocks s' > 0 then insert i (freeSegments m) else freeSegments m - {i})"
    using c(4) by simp
  note up = sm_update [OF inv ib(2,3) c(2,7,8,6) frame fr]
  have inj: "inj_on (mk_id i) (live B (sm_file m) s)"
    using mk_id_inj [OF segi(3) segi(5) segi(3) segi(5)] by (meson inj_onI)
  have img: "mk_id i ` live B f s' = mk_id i ` live B (sm_file m) s - {x}"
  proof -
    have "mk_id i ` (live B (sm_file m) s - {b}) = mk_id i ` live B (sm_file m) s - mk_id i ` {b}"
      by (rule inj_on_image_set_diff [OF inj]) (use ib(4) in auto)
    then show ?thesis by (simp only: c(3) ib(1) image_insert image_empty)
  qed
  have "mk_id i ` live B (sm_file m) s \<subseteq> sm_used B m"
    using ib(2,3) unfolding sm_used_def by blast
  moreover have "x \<in> mk_id i ` live B (sm_file m) s" using ib(1,4) by blast
  ultimately have used: "sm_used B ?m' = sm_used B m - {x}"
    by (simp only: up(2) img diff_union_remove)
  have "sm_readBlock B ?m' y = sm_readBlock B m y" if y: "y \<in> sm_used B ?m'" for y
  proof (cases "getIndexFromID y = i")
    case False
    then show ?thesis using up(3) [of y] y used by simp
  next
    case True
    from y used have "y \<in> sm_used B m" "y \<noteq> x" by auto
    from sm_usedE [OF inv this(1)] obtain k t where k: "y = mk_id i k"
        "segments m ! i = Some t" "k \<in> live B (sm_file m) t" "getBlockFromID y = k"
      using True by metis
    then have t: "t = s" and kb: "k \<noteq> b" using ib \<open>y \<noteq> x\<close> by auto
    have "pread f B (block_pos B s k) = pread (sm_file m) B (block_pos B s k)"
      using c(5) live_fits(2) [OF segi(1), of k] k(3) t block_disjoint [OF kb, of B s] by auto
    moreover have "block_pos B s' k = block_pos B s k" using c(7) by (simp add: block_pos_def)
    ultimately show ?thesis
      using True k(4) ib(2,3)
      by (simp add: sm_readBlock_def segment_at_def seg_readBlock_def)
  qed
  then show ?thesis using res up(1) used by blast
qed

lemma sm_writeBlock_ok:
  assumes inv: "sm_inv B m" and x: "x \<in> sm_used B m" and d: "length d = B"
  shows "\<exists>m'. sm_writeBlock B m x d = Inr m' \<and> sm_inv B m' \<and> sm_used B m' = sm_used B m \<and>
           sm_readBlock B m' x = Inr d \<and>
           (\<forall>y \<in> sm_used B m - {x}. sm_readBlock B m' y = sm_readBlock B m y)"
proof -
  from sm_usedE [OF inv x] obtain i b s where ib: "x = mk_id i b" "i < length (segments m)"
      "segments m ! i = Some s" "b \<in> live B (sm_file m) s" "getIndexFromID x = i"
      "getBlockFromID x = b" by metis
  note segi = sm_invD [OF inv ib(2,3)]
  let ?f = "seg_writeBlock B (sm_file m) s b d"
  note w = seg_writeBlock_ok [OF segi(1) ib(4) d]
  have in_seg: "fileOffset s \<le> block_pos B s b"
      "block_pos B s b + B \<le> fileOffset s + getTotalSize B s"
    using block_end_le [OF live_fits(1) [OF segi(1) ib(4)], of B]
    by (auto simp: block_pos_def getTotalSize_def)
  have size: "fsize ?f = fsize (sm_file m)"
    using live_fits(2) [OF segi(1) ib(4)] d by (simp add: seg_writeBlock_def)
  have frame: "pread ?f n p = pread (sm_file m) n p"
    if "p + n \<le> fsize (sm_file m)" "p + n \<le> fileOffset s \<or> fileOffset s + getTotalSize B s \<le> p"
    for p n unfolding seg_writeBlock_def
    by (rule pread_pwrite_other) (use that in_seg d in auto)
  have fr: "freeSegments m =
      (if freeBlocks s > 0 then insert i (freeSegments m) else freeSegments m - {i})"
    using segi(6) by auto
  let ?m' = "m\<lparr>sm_file := ?f\<rparr>"
  have seg_id: "(segments m)[i := Some s] = segments m" using ib(3) by (metis list_update_id)
  have res: "sm_writeBlock B m x d = Inr ?m'"
    using ib segi(4) by (simp add: sm_writeBlock_def)
  have m': "m\<lparr>sm_file := ?f, segments := (segments m)[i := Some s],
              freeSegments := freeSegments m\<rparr> = ?m'" using seg_id by simp
  note up = sm_update [OF inv ib(2,3) w(1) refl refl size frame fr, unfolded m']
  have "mk_id i k \<in> sm_used B m" if "k \<in> live B (sm_file m) s" for k
    using that ib by (auto simp: sm_used_def)
  then have used: "sm_used B ?m' = sm_used B m" using up(2) w(2) by auto
  have at: "segment_at ?m' i = Inr s" using ib(2,3) by (simp add: segment_at_def)
  have "sm_readBlock B ?m' x = Inr d" using at ib(5,6) w(3) by (simp add: sm_readBlock_def)
  moreover have "sm_readBlock B ?m' y = sm_readBlock B m y" if y: "y \<in> sm_used B m" "y \<noteq> x" for y
  proof (cases "getIndexFromID y = i")
    case False
    then show ?thesis using up(3) [of y] y by simp
  next
    case True
    from sm_usedE [OF inv y(1)] obtain k t where k: "y = mk_id i k"
        "segments m ! i = Some t" "k \<in> live B (sm_file m) t" "getBlockFromID y = k"
      using True by metis
    then have "t = s" "k \<noteq> b" using ib y(2) by auto
    then show ?thesis using w(4) k at True segi(4) by (simp add: sm_readBlock_def)
  qed
  ultimately show ?thesis using res up(1) used by blast
qed

subsection \<open>Saving and reopening\<close>

lemma flush_segments_ok:
  "layout B off ss \<Longrightarrow> sizeof_seg_hdr \<le> B \<Longrightarrow> layout_end B off ss \<le> fsize f \<Longrightarrow>
   \<exists>f'. flush_segments f ss = Inr f' \<and> fsize f' = fsize f \<and>
     (\<forall>p n. p + n \<le> fsize f \<longrightarrow>
        (\<forall>s. Some s \<in> set ss \<longrightarrow> p + n \<le> fileOffset s \<or> fileOffset s + sizeof_seg_hdr \<le> p) \<longrightarrow>
        pread f' n p = pread f n p) \<and>
     (\<forall>s. Some s \<in> set ss \<longrightarrow> pread f' sizeof_seg_hdr (fileOffset s) = enc_seg_hdr (header s))"
proof (induction B off ss arbitrary: f rule: layout.induct)
  case (3 B off s ss)
  have fit: "fileOffset s + getTotalSize B s \<le> fsize f"
    using 3 layout_end_ge [of "off + getTotalSize B s" B ss] by auto
  have hdr: "fileOffset s + sizeof_seg_hdr \<le> off + getTotalSize B s"
    using 3 by (simp add: getTotalSize_def)
  have size: "fsize (seg_flush f s) = fsize f" using fit hdr 3 by (auto simp: seg_flush_def)
  obtain f' where f': "flush_segments (seg_flush f s) ss = Inr f'" "fsize f' = fsize f"
    "\<And>p n. p + n \<le> fsize f \<Longrightarrow>
        (\<forall>s. Some s \<in> set ss \<longrightarrow> p + n \<le> fileOffset s \<or> fileOffset s + sizeof_seg_hdr \<le> p) \<Longrightarrow>
        pread f' n p = pread (seg_flush f s) n p"
    "\<And>s. Some s \<in> set ss \<Longrightarrow> pread f' sizeof_seg_hdr (fileOffset s) = enc_seg_hdr (header s)"
    using 3(1) [of "seg_flush f s"] 3(2-) size by auto
  have later: "off + getTotalSize B s \<le> fileOffset t" if "Some t \<in> set ss" for t
    using layout_bounds [of B "off + getTotalSize B s" ss _ t] 3(2) that
    by (auto simp: in_set_conv_nth)
  have "pread f' sizeof_seg_hdr (fileOffset s) = pread (seg_flush f s) sizeof_seg_hdr (fileOffset s)"
    by (rule f'(3)) (use hdr later fit 3 in fastforce)+
  then have mine: "pread f' sizeof_seg_hdr (fileOffset s) = enc_seg_hdr (header s)"
    by (simp add: seg_flush_def)
  have "pread f' n p = pread f n p"
    if "p + n \<le> fsize f"
      "\<forall>t. Some t \<in> set (Some s # ss) \<longrightarrow> p + n \<le> fileOffset t \<or> fileOffset t + sizeof_seg_hdr \<le> p"
    for p n
    using that f'(3) [of p n] seg_flush_frame [of p n f s] by auto
  with f' mine show ?case by auto
qed auto

lemma load_segments_ok:
  "layout B off ss \<Longrightarrow>
   (\<And>s. Some s \<in> set ss \<Longrightarrow> seg_open B f (fileOffset s) = Inr s) \<Longrightarrow>
   load_segments B f (length ss) i off =
     Inr (ss, {i + j | j. j < length ss \<and> freeBlocks (the (ss ! j)) > 0})"
proof (induction B off ss arbitrary: i rule: layout.induct)
  case (3 B off s ss)
  have IH: "load_segments B f (length ss) (Suc i) (off + getTotalSize B s) =
     Inr (ss, {Suc i + j | j. j < length ss \<and> freeBlocks (the (ss ! j)) > 0})"
    using 3 by auto
  have "{i + j | j. j < Suc (length ss) \<and> freeBlocks (the ((Some s # ss) ! j)) > 0} =
        (if freeBlocks s > 0 then {i} else {}) \<union>
        {Suc i + j | j. j < length ss \<and> freeBlocks (the (ss ! j)) > 0}" (is "?L = ?R")
  proof (intro equalityI subsetI)
    fix x assume "x \<in> ?L"
    then obtain j where "x = i + j" "j < Suc (length ss)"
        "freeBlocks (the ((Some s # ss) ! j)) > 0" by blast
    then show "x \<in> ?R" by (cases j) auto
  next
    fix x assume "x \<in> ?R"
    then consider "x = i" "freeBlocks s > 0"
      | j where "x = Suc i + j" "j < length ss" "freeBlocks (the (ss ! j)) > 0"
      by (auto split: if_splits)
    then show "x \<in> ?L"
    proof cases
      case 1
      then show ?thesis by (intro CollectI exI [of _ 0]) simp
    next
      case (2 j)
      then show ?thesis by (intro CollectI exI [of _ "Suc j"]) simp
    qed
  qed
  with IH 3(2,3) show ?case by auto
qed auto

lemma sm_flush_open_ok:
  assumes inv: "sm_inv B m"
  shows "\<exists>m'. sm_flush m = Inr m' \<and> sm_open B (sm_file m') = Inr m' \<and> sm_inv B m' \<and>
           segments m' = segments m \<and> freeSegments m' = freeSegments m \<and>
           sm_used B m' = sm_used B m \<and>
           (\<forall>x \<in> sm_used B m. sm_readBlock B m' x = sm_readBlock B m x)"
proof -
  have B: "sizeof_seg_hdr \<le> B" and lay: "layout B B (segments m)"
    and size: "layout_end B B (segments m) \<le> fsize (sm_file m)"
    using inv by (auto simp: sm_inv_def)
  obtain f where f: "flush_segments (sm_file m) (segments m) = Inr f"
      "fsize f = fsize (sm_file m)"
    "\<And>p n. p + n \<le> fsize (sm_file m) \<Longrightarrow>
       (\<forall>s. Some s \<in> set (segments m) \<longrightarrow>
          p + n \<le> fileOffset s \<or> fileOffset s + sizeof_seg_hdr \<le> p) \<Longrightarrow>
       pread f n p = pread (sm_file m) n p"
    "\<And>s. Some s \<in> set (segments m) \<Longrightarrow>
       pread f sizeof_seg_hdr (fileOffset s) = enc_seg_hdr (header s)"
    using flush_segments_ok [OF lay B size] by blast
  let ?hdr = "enc64 (numberOfSegments m) @ enc64 (lastAllocatedBlocks m)"
  let ?f = "pwrite f ?hdr 0" and ?m' = "m\<lparr>sm_file := pwrite f ?hdr 0\<rparr>"
  have mem: "\<exists>i < length (segments m). segments m ! i = Some s" if "Some s \<in> set (segments m)" for s
    using that by (auto simp: in_set_conv_nth)
  have B16: "16 \<le> B" using B by (simp add: sizeof_seg_hdr_def)
  have pos: "B \<le> fileOffset s" "fileOffset s + getTotalSize B s \<le> fsize f"
    if "i < length (segments m)" "segments m ! i = Some s" for i s
    using layout_bounds [OF lay that] size f(2) by auto
  have le: "B \<le> fsize f" using layout_end_ge [of B B "segments m"] size f(2) by simp
  have size': "fsize ?f = fsize (sm_file m)" using f(2) le B16 by simp
  have keep: "seg_inv B ?f s \<and> live B ?f s = live B (sm_file m) s \<and>
      (\<forall>b \<in> live B (sm_file m) s. seg_readBlock B ?f s b = seg_readBlock B (sm_file m) s b) \<and>
      seg_open B ?f (fileOffset s) = Inr s"
    if i: "i < length (segments m)" "segments m ! i = Some s" for i s
  proof -
    note segi = sm_invD(1) [OF inv i]
    have blocks: "pread ?f n p = pread (sm_file m) n p"
      if p: "fileOffset s + B \<le> p" "p + n \<le> fileOffset s + getTotalSize B s" for p n
    proof -
      have "p + n \<le> fileOffset t \<or> fileOffset t + sizeof_seg_hdr \<le> p"
        if t: "Some t \<in> set (segments m)" for t
      proof -
        obtain j where j: "j < length (segments m)" "segments m ! j = Some t" using mem [OF t] by blast
        consider "i = j" | "i < j" | "j < i" by linarith
        then show ?thesis
        proof cases
          case 1
          then show ?thesis using i j p B by auto
        next
          case 2
          then show ?thesis using layout_disjoint [OF lay 2 j(1) i(2) j(2)] p by auto
        next
          case 3
          then show ?thesis
            using layout_disjoint [OF lay 3 i(1) j(2) i(2)] p B by (auto simp: getTotalSize_def)
        qed
      qed
      then have "pread f n p = pread (sm_file m) n p"
        using p pos [OF i] f(2) by (intro f(3)) auto
      moreover have "pread ?f n p = pread f n p"
        by (rule pread_pwrite_other) (use p pos [OF i] B16 in auto)
      ultimately show ?thesis by simp
    qed
    have bp: "fileOffset s + B \<le> block_pos B s k" "block_pos B s k + B \<le> fileOffset s + getTotalSize B s"
      if "k < allocatedBlocks (header s)" for k
      using block_end_le [OF that, of B] by (auto simp: block_pos_def getTotalSize_def)
    have fits: "fileOffset s + getTotalSize B s \<le> fsize ?f" using pos [OF i] by simp
    have link: "pread ?f 8 (block_pos B s k) = pread (sm_file m) 8 (block_pos B s k)"
      if k: "k \<in> set (free_list B (sm_file m) s)" for k
    proof -
      have "k < allocatedBlocks (header s)" using segi k unfolding seg_inv_def by fastforce
      then show ?thesis
        using bp [of k] free_list_fits(2) [OF segi k] by (intro blocks) auto
    qed
    have inv': "seg_inv B ?f s" and live': "live B ?f s = live B (sm_file m) s"
      using seg_inv_cong [OF segi refl fits link] by auto
    have rd: "seg_readBlock B ?f s b = seg_readBlock B (sm_file m) s b"
      if b: "b \<in> live B (sm_file m) s" for b
    proof -
      have "pread ?f B (block_pos B s b) = pread (sm_file m) B (block_pos B s b)"
        using bp [OF live_fits(1) [OF segi b]] by (intro blocks) auto
      then show ?thesis
        using seg_readBlock_ok [OF segi b] seg_readBlock_ok [OF inv', of b] live' b by simp
    qed
    have "Some s \<in> set (segments m)" using i by (metis nth_mem)
    then have "pread f sizeof_seg_hdr (fileOffset s) = enc_seg_hdr (header s)" by (rule f(4))
    moreover have "pread ?f sizeof_seg_hdr (fileOffset s) = pread f sizeof_seg_hdr (fileOffset s)"
      by (rule pread_pwrite_other) (use pos [OF i] B B16 in \<open>auto simp: getTotalSize_def\<close>)
    ultimately have "seg_open B ?f (fileOffset s) = Inr s"
      using seg_hdr_bounds [OF segi] segi by (simp add: seg_open_def Let_def seg_inv_def)
    with inv' live' rd show ?thesis by blast
  qed
  have inv': "sm_inv B ?m'"
    using inv size' keep sm_invD(2) [OF inv] unfolding sm_inv_def by simp
  have "load_segments B ?f (length (segments m)) 0 B = Inr (segments m, freeSegments m)"
  proof -
    have "load_segments B ?f (length (segments m)) 0 B =
        Inr (segments m,
             {0 + j | j. j < length (segments m) \<and> freeBlocks (the (segments m ! j)) > 0})"
      by (rule load_segments_ok [OF lay]) (use keep mem in blast)
    moreover have "freeSegments m =
        {0 + j | j. j < length (segments m) \<and> freeBlocks (the (segments m ! j)) > 0}"
      using inv by (simp add: sm_inv_def)
    ultimately show ?thesis by simp
  qed
  moreover have "pread ?f sizeof_sm_hdr 0 = ?hdr"
    by (rule pread_pwrite_same) (simp add: sizeof_sm_hdr_def)
  moreover have "numberOfSegments m = length (segments m)" "numberOfSegments m < 2 ^ 64"
      "lastAllocatedBlocks m < 2 ^ 64"
    using inv by (auto simp: sm_inv_def)
  ultimately have reopen: "sm_open B ?f = Inr ?m'"
    by (simp add: sm_open_def Let_def sizeof_sm_hdr_def)
  have used: "sm_used B ?m' = sm_used B m"
  proof -
    have "(i < length (segments m) \<and> segments m ! i = Some s \<and> b \<in> live B ?f s) =
          (i < length (segments m) \<and> segments m ! i = Some s \<and> b \<in> live B (sm_file m) s)" for i b s
      using keep by blast
    then show ?thesis unfolding sm_used_def by simp
  qed
  have "sm_readBlock B ?m' x = sm_readBlock B m x" if x: "x \<in> sm_used B m" for x
  proof -
    from sm_usedE [OF inv x] obtain j k t where z: "x = mk_id j k" "j < length (segments m)"
        "segments m ! j = Some t" "k \<in> live B (sm_file m) t" by metis
    have k: "k < 2 ^ 48" using sm_invD(5) [OF inv z(2,3)] z(4) by auto
    show ?thesis
      using sm_readBlock_eq [OF inv', of j t k] sm_readBlock_eq [OF inv z(2,3) k] z k keep [OF z(2,3)]
      by simp
  qed
  with f(1) inv' reopen used show ?thesis by (intro exI [of _ ?m']) (simp add: sm_flush_def)
qed

section \<open>The manager's contract\<close>

lemma sm_readBlock_ok:
  assumes "sm_inv B m" "x \<in> sm_used B m"
  shows "\<exists>d. sm_readBlock B m x = Inr d \<and> length d = B"
proof -
  from sm_usedE [OF assms] obtain i b s where x: "x = mk_id i b" "i < length (segments m)"
      "segments m ! i = Some s" "b \<in> live B (sm_file m) s" by metis
  note segi = sm_invD [OF assms(1) x(2,3)]
  show ?thesis
    using sm_readBlock_eq [OF assms(1) x(2,3) segi(5) [OF x(4)]] x(1)
      seg_readBlock_ok [OF segi(1) x(4)] live_fits [OF segi(1) x(4)] by simp
qed

definition sm_can_create :: "(nat \<Rightarrow> nat) \<Rightarrow> (nat set \<Rightarrow> nat) \<Rightarrow> seg_mgr \<Rightarrow> bool" where
  "sm_can_create grow pick m \<longleftrightarrow>
     sm_can_grow grow m \<and> (freeSegments m \<noteq> {} \<longrightarrow> pick (freeSegments m) \<in> freeSegments m)"

interpretation sm: block_store
  "sm_inv B" "sm_used B" "sm_can_create grow pick" "\<lambda>d. length d = B"
  "sm_createBlock B grow pick" "sm_deleteBlock B" "sm_readBlock B" "sm_writeBlock B"
  for B grow pick
proof (unfold_locales, goal_cases)
  case (1 s)
  then show ?case using sm_createBlock_ok [of B s grow pick] by (auto simp: sm_can_create_def)
next
  case (2 s i)
  then show ?case by (rule sm_deleteBlock_ok)
next
  case (3 s i)
  then show ?case by (rule sm_readBlock_ok)
next
  case (4 s i d)
  then show ?case by (rule sm_writeBlock_ok)
qed

lemma sm_new_inv:
  assumes "sizeof_seg_hdr \<le> B" "B < 2 ^ 64"
  shows "sm_inv B (sm_new B)" and "sm_used B (sm_new B) = {}"
  using assms by (auto simp: sm_inv_def sm_new_def sm_used_def)

lemma demo_sm: "sm_inv 48 (sm_new 48)" "sm_used 48 (sm_new 48) = {}"
  "sm_can_create (\<lambda>n. n * 5 div 4) Min (sm_new 48)"
  using sm_new_inv [of 48]
  by (simp_all add: sizeof_seg_hdr_def sm_can_create_def sm_can_grow_def sm_new_def)

text \<open>
  C13. \<open>createBlock\<close> of the manager never runs out of blocks: it returns a block number
  that is not in use, adds exactly this one to the numbers in use, and leaves what is
  stored under all other numbers unchanged, whether it took a block of an existing
  segment or appended one. The hypotheses say that the new number fits into 64 bits and
  that \<open>pick\<close> chooses an element.
\<close>

theorem sm_createBlock_correct:
  assumes "sm_inv B m"
    and "freeSegments m \<noteq> {} \<or> length (segments m) < 2 ^ 16 \<and> grow (lastAllocatedBlocks m) \<le> 2 ^ 48"
    and "freeSegments m \<noteq> {} \<longrightarrow> pick (freeSegments m) \<in> freeSegments m"
  shows "\<exists>x m'. sm_createBlock B grow pick m = Inr (x, m') \<and> sm_inv B m' \<and> x \<notin> sm_used B m \<and>
           sm_used B m' = insert x (sm_used B m) \<and>
           (\<forall>y \<in> sm_used B m. sm_readBlock B m' y = sm_readBlock B m y)"
  by (rule sm.create_law [of B m grow pick])
    (use assms in \<open>auto simp: sm_can_create_def sm_can_grow_def\<close>)

theorem sm_createBlock_correct_witness:
  "\<exists>x m'. sm_createBlock 48 (\<lambda>n. n * 5 div 4) Min (sm_new 48) = Inr (x, m') \<and>
          sm_used 48 m' = {x}"
  using sm_createBlock_correct [of 48 "sm_new 48" "\<lambda>n. n * 5 div 4" Min, OF demo_sm(1)] demo_sm(2)
  by (fastforce simp: sm_new_def)

text \<open>
  \<open>deleteBlock\<close> removes exactly the given number from the numbers in use and leaves
  what is stored under the others unchanged; the segment of the block is marked as having
  room (part of the invariant).
\<close>

theorem sm_deleteBlock_correct:
  assumes "sm_inv B m" and "x \<in> sm_used B m"
  shows "\<exists>m'. sm_deleteBlock B m x = Inr m' \<and> sm_inv B m' \<and> sm_used B m' = sm_used B m - {x} \<and>
           getIndexFromID x \<in> freeSegments m' \<and>
           (\<forall>y \<in> sm_used B m'. sm_readBlock B m' y = sm_readBlock B m y)"
proof -
  obtain m' where m': "sm_deleteBlock B m x = Inr m'" "sm_inv B m'" "sm_used B m' = sm_used B m - {x}"
      "\<forall>y \<in> sm_used B m'. sm_readBlock B m' y = sm_readBlock B m y"
    using sm.delete_law [OF assms] by blast
  then have "getIndexFromID x \<in> freeSegments m'"
    by (auto simp: sm_deleteBlock_def Let_def split: prod.splits)
  with m' show ?thesis by blast
qed

theorem sm_deleteBlock_correct_witness:
  "\<exists>x m m'. sm_createBlock 48 (\<lambda>n. n * 5 div 4) Min (sm_new 48) = Inr (x, m) \<and>
            sm_deleteBlock 48 m x = Inr m' \<and> sm_used 48 m' = {}"
proof -
  obtain x m where m: "sm_createBlock 48 (\<lambda>n. n * 5 div 4) Min (sm_new 48) = Inr (x, m)"
      "sm_inv 48 m" "sm_used 48 m = {x}"
    using sm.create_law [OF demo_sm(1,3)] demo_sm(2) by auto
  then have "x \<in> sm_used 48 m" by simp
  from sm_deleteBlock_correct [OF m(2) this] m show ?thesis by auto
qed

text \<open>
  C14. The manager is a store: after any run of creations, deletions and writes of blocks in
  use that starts with writing \<open>d\<close> to block \<open>x\<close> and does not delete or write \<open>x\<close> again,
  reading \<open>x\<close> returns \<open>d\<close>.
\<close>

theorem sm_store_last_write:
  assumes "client_run (sm_used B) (sm_can_create grow pick) (\<lambda>d. length d = B)
             (sm_createBlock B grow pick) (sm_deleteBlock B) (sm_writeBlock B) m (Write x d # cs) m'"
    and "sm_inv B m" and "Delete x \<notin> set cs" and "\<And>d'. Write x d' \<notin> set cs"
  shows "sm_readBlock B m' x = Inr d \<and> sm_inv B m'"
  using sm.run_last_write [OF assms] sm.run_inv [OF assms(1,2)] by blast

theorem sm_store_last_write_witness:
  "\<exists>x m m'. sm_createBlock 48 (\<lambda>n. n * 5 div 4) Min (sm_new 48) = Inr (x, m) \<and>
            sm_writeBlock 48 m x (replicate 48 7) = Inr m' \<and>
            sm_readBlock 48 m' x = Inr (replicate 48 7)"
proof -
  obtain x m where m: "sm_createBlock 48 (\<lambda>n. n * 5 div 4) Min (sm_new 48) = Inr (x, m)"
      "sm_inv 48 m" "sm_used 48 m = {x}"
    using sm.create_law [OF demo_sm(1,3)] demo_sm(2) by auto
  obtain m' where w: "sm_writeBlock 48 m x (replicate 48 7) = Inr m'"
    using sm.write_law [of 48 m x "replicate 48 7"] m by auto
  have "client_run (sm_used 48) (sm_can_create (\<lambda>n. n * 5 div 4) Min) (\<lambda>d. length d = 48)
          (sm_createBlock 48 (\<lambda>n. n * 5 div 4) Min) (sm_deleteBlock 48) (sm_writeBlock 48)
          m [Write x (replicate 48 7)] m'"
    by (rule client_run.intros) (use m w in \<open>auto intro: client_run.intros\<close>)
  from sm_store_last_write [OF this m(2)] m w show ?thesis by auto
qed

text \<open>
  C15. Flushing the manager and opening the file again restores it: the same segments, the
  same free segments, the same numbers in use with the same contents.
\<close>

theorem sm_flush_open:
  assumes "sm_inv B m"
  shows "\<exists>m'. sm_flush m = Inr m' \<and> sm_open B (sm_file m') = Inr m' \<and> sm_inv B m' \<and>
           segments m' = segments m \<and> freeSegments m' = freeSegments m \<and>
           sm_used B m' = sm_used B m \<and>
           (\<forall>x \<in> sm_used B m. sm_readBlock B m' x = sm_readBlock B m x)"
  by (rule sm_flush_open_ok [OF assms])

theorem sm_flush_open_witness:
  "\<exists>m'. sm_flush (sm_new 48) = Inr m' \<and> sm_open 48 (sm_file m') = Inr m'"
  using sm_flush_open [OF demo_sm(1)] by blast

end
