(* ===== verification/Queues.thy ===== *)
theory Queues
  imports Prelude "HOL-Library.AList"
begin

text \<open>
  \<open>src/buffer/queue\<close>: the queue of the page buffer, a \<open>std::list\<close> of entries with a map
  from keys to list iterators. Iterators of a \<open>std::list\<close> stay valid while other
  elements come and go, so a list element is modelled with a node number that never
  changes, and \<open>pointerMap\<close> maps keys to node numbers (an association list with distinct
  keys stands for the \<open>unordered_map\<close>). New entries are at the front of the list, the
  search for a victim starts at the back. \<open>FIFOQueue\<close> and \<open>LRUQueue\<close> differ in \<open>find\<close>
  only: the latter can move the entry to the front.

  The contract of both is the locale \<open>page_queue\<close>: the queue is a list of entries with
  distinct keys.
\<close>

section \<open>State and operations\<close>

record ('k, 'v) queue =
  entryQueue :: "(nat \<times> 'k \<times> 'v) list"
  pointerMap :: "('k \<times> nat) list"
  nextNode :: nat

definition q_empty :: "('k, 'v) queue" where
  "q_empty = \<lparr>entryQueue = [], pointerMap = [], nextNode = 0\<rparr>"

definition q_size :: "('k, 'v) queue \<Rightarrow> nat" where
  "q_size q = length (pointerMap q)"

definition getList :: "('k, 'v) queue \<Rightarrow> ('k \<times> 'v) list" where
  "getList q = map snd (entryQueue q)"

definition q_contains :: "('k, 'v) queue \<Rightarrow> 'k \<Rightarrow> bool" where
  "q_contains q key \<longleftrightarrow> map_of (pointerMap q) key \<noteq> None"

definition q_insert :: "('k, 'v) queue \<Rightarrow> 'k \<Rightarrow> 'v \<Rightarrow> ('k, 'v) queue" where
  "q_insert q key val =
     q\<lparr>entryQueue := (nextNode q, key, val) # entryQueue q,
       pointerMap := AList.update key (nextNode q) (pointerMap q),
       nextNode := nextNode q + 1\<rparr>"

text \<open>Dereferencing the iterator stored for a key; an absent key has no valid iterator.\<close>

definition q_entry :: "('k, 'v) queue \<Rightarrow> 'k \<Rightarrow> (nat \<times> 'k \<times> 'v) result" where
  "q_entry q key =
     (case map_of (pointerMap q) key of
        None \<Rightarrow> Inl Undefined
      | Some a \<Rightarrow> (case find (\<lambda>e. fst e = a) (entryQueue q) of
                   None \<Rightarrow> Inl Undefined | Some e \<Rightarrow> Inr e))"

definition q_remove :: "('k, 'v) queue \<Rightarrow> 'k \<Rightarrow> (('k \<times> 'v) \<times> ('k, 'v) queue) result" where
  "q_remove q key =
     bindE (q_entry q key) (\<lambda>(a, removedEntry).
       Inr (removedEntry,
            q\<lparr>entryQueue := filter (\<lambda>e. fst e \<noteq> a) (entryQueue q),
              pointerMap := AList.delete key (pointerMap q)\<rparr>))"

text \<open>The loop from \<open>rbegin\<close> to \<open>rend\<close>, on the reversed list.\<close>

fun findOne_loop :: "('v \<Rightarrow> bool) \<Rightarrow> (nat \<times> 'k \<times> 'v) list \<Rightarrow> 'k option" where
  "findOne_loop predicate [] = None"
| "findOne_loop predicate ((a, k, v) # es) =
     (if predicate v then Some k else findOne_loop predicate es)"

definition findOne :: "('k, 'v) queue \<Rightarrow> ('v \<Rightarrow> bool) \<Rightarrow> 'k option" where
  "findOne q predicate = findOne_loop predicate (rev (entryQueue q))"

definition fifo_find :: "('k, 'v) queue \<Rightarrow> 'k \<Rightarrow> bool \<Rightarrow> ('v \<times> ('k, 'v) queue) result" where
  "fifo_find q key modify =
     (if \<not> q_contains q key then raise ''Key was not found! (FIFO)''
      else bindE (q_entry q key) (\<lambda>(a, k, v). Inr (v, q)))"

definition lru_find :: "('k, 'v) queue \<Rightarrow> 'k \<Rightarrow> bool \<Rightarrow> ('v \<times> ('k, 'v) queue) result" where
  "lru_find q key modify =
     (if \<not> q_contains q key then raise ''Key was not found! (LRU)''
      else bindE (q_entry q key) (\<lambda>(a, k, v).
        Inr (v, if modify
                then q\<lparr>entryQueue := (a, k, v) # filter (\<lambda>e. fst e \<noteq> a) (entryQueue q)\<rparr>
                else q)))"

section \<open>Specification\<close>

definition q_inv :: "('k, 'v) queue \<Rightarrow> bool" where
  "q_inv q \<longleftrightarrow>
     distinct (map fst (entryQueue q)) \<and> distinct (map fst (pointerMap q)) \<and>
     distinct (map fst (getList q)) \<and>
     (\<forall>a k v. (a, k, v) \<in> set (entryQueue q) \<longrightarrow>
        map_of (pointerMap q) k = Some a \<and> a < nextNode q) \<and>
     fst ` set (pointerMap q) = fst ` set (getList q)"

lemma q_invD:
  assumes "q_inv q"
  shows "distinct (map fst (entryQueue q))" "distinct (map fst (pointerMap q))"
    "distinct (map fst (getList q))"
    "(a, k, v) \<in> set (entryQueue q) \<Longrightarrow> map_of (pointerMap q) k = Some a \<and> a < nextNode q"
    "fst ` set (pointerMap q) = fst ` set (getList q)"
  using assms unfolding q_inv_def by blast+

lemma q_invI:
  assumes "distinct (map fst (entryQueue q))" "distinct (map fst (pointerMap q))"
    "distinct (map fst (getList q))"
    "\<And>a k v. (a, k, v) \<in> set (entryQueue q) \<Longrightarrow> map_of (pointerMap q) k = Some a \<and> a < nextNode q"
    "fst ` set (pointerMap q) = fst ` set (getList q)"
  shows "q_inv q"
  unfolding q_inv_def using assms by blast

lemma q_contains_iff: "q_inv q \<Longrightarrow> q_contains q k \<longleftrightarrow> k \<in> fst ` set (getList q)"
  using q_invD(5) [of q] by (auto simp: q_contains_def map_of_eq_None_iff)

lemma set_filter_key:
  assumes "distinct (map fst xs)" "(k, v) \<in> set xs"
  shows "set (filter (\<lambda>e. fst e \<noteq> k) xs) = set xs - {(k, v)}"
proof -
  have "fst e \<noteq> k \<longleftrightarrow> e \<noteq> (k, v)" if "e \<in> set xs" for e
    using eq_key_imp_eq_value [OF assms(1)] that assms(2) by (cases e) auto
  then show ?thesis by auto
qed

lemma filter_key_split:
  assumes "distinct (map fst (xs @ (k, v) # ys))"
  shows "filter (\<lambda>e. fst e \<noteq> k) (xs @ (k, v) # ys) = xs @ ys"
proof -
  have "k \<notin> fst ` set xs" "k \<notin> fst ` set ys" using assms by auto
  then have "filter (\<lambda>e. fst e \<noteq> k) xs = xs" "filter (\<lambda>e. fst e \<noteq> k) ys = ys"
    by (auto simp: filter_id_conv)
  then show ?thesis by simp
qed

lemma find_fst_unique:
  "distinct (map fst xs) \<Longrightarrow> (a, b) \<in> set xs \<Longrightarrow> find (\<lambda>e. fst e = a) xs = Some (a, b)"
  by (induction xs) (auto simp: rev_image_eqI)

lemma q_entry_ok:
  assumes "q_inv q" "(k, v) \<in> set (getList q)"
  shows "\<exists>a. q_entry q k = Inr (a, k, v) \<and> (a, k, v) \<in> set (entryQueue q)"
proof -
  obtain a where a: "(a, k, v) \<in> set (entryQueue q)"
    using assms(2) by (auto simp: getList_def)
  then have "map_of (pointerMap q) k = Some a" using q_invD(4) [OF assms(1)] by blast
  moreover have "find (\<lambda>e. fst e = a) (entryQueue q) = Some (a, k, v)"
    by (rule find_fst_unique [OF q_invD(1) [OF assms(1)] a])
  ultimately show ?thesis using a by (simp add: q_entry_def)
qed

lemma filter_node_eq_filter_key:
  assumes "q_inv q" "(a, k, v) \<in> set (entryQueue q)"
  shows "map snd (filter (\<lambda>e. fst e \<noteq> a) (entryQueue q)) = filter (\<lambda>e. fst e \<noteq> k) (getList q)"
proof -
  have "fst e \<noteq> a \<longleftrightarrow> fst (snd e) \<noteq> k" if "e \<in> set (entryQueue q)" for e
  proof -
    obtain b l w where e: "e = (b, l, w)" by (cases e) auto
    have "map_of (pointerMap q) l = Some b" "map_of (pointerMap q) k = Some a"
      using q_invD(4) [OF assms(1)] that assms(2) e by blast+
    moreover have "b = a \<longrightarrow> l = k"
      using q_invD(1) [OF assms(1)] that assms(2) e
      by (metis eq_key_imp_eq_value prod.inject)
    ultimately show ?thesis using e by auto
  qed
  then have "filter (\<lambda>e. fst e \<noteq> a) (entryQueue q) = filter (\<lambda>e. fst (snd e) \<noteq> k) (entryQueue q)"
    by (rule filter_cong [OF refl])
  then show ?thesis by (simp add: getList_def filter_map comp_def)
qed

lemma q_insert_ok:
  assumes "q_inv q" "k \<notin> fst ` set (getList q)"
  shows "q_inv (q_insert q k v) \<and> getList (q_insert q k v) = (k, v) # getList q"
proof -
  have k: "k \<notin> fst ` set (pointerMap q)" using q_invD(5) [OF assms(1)] assms(2) by simp
  have fresh: "nextNode q \<notin> fst ` set (entryQueue q)"
    using q_invD(4) [OF assms(1)] by fastforce
  have up: "map_of (AList.update k (nextNode q) (pointerMap q)) l =
      (if l = k then Some (nextNode q) else map_of (pointerMap q) l)" for l
    by (simp add: update_conv)
  have keys: "fst ` set (AList.update k (nextNode q) (pointerMap q)) = insert k (fst ` set (pointerMap q))"
    by (simp add: dom_update)
  have nk: "l \<noteq> k" if "(a, l, w) \<in> set (entryQueue q)" for a l w
    using assms(2) that by (force simp: getList_def)
  show ?thesis
    using q_invD [OF assms(1)] fresh assms(2) nk
    by (auto simp: q_inv_def q_insert_def getList_def up keys distinct_update less_Suc_eq
        simp del: fun_upd_apply)
qed

lemma q_remove_ok:
  assumes "q_inv q" "(k, v) \<in> set (getList q)"
  shows "\<exists>q'. q_remove q k = Inr ((k, v), q') \<and> q_inv q' \<and>
              getList q' = filter (\<lambda>e. fst e \<noteq> k) (getList q)"
proof -
  obtain a where a: "q_entry q k = Inr (a, k, v)" "(a, k, v) \<in> set (entryQueue q)"
    using q_entry_ok [OF assms] by blast
  let ?q = "q\<lparr>entryQueue := filter (\<lambda>e. fst e \<noteq> a) (entryQueue q),
              pointerMap := AList.delete k (pointerMap q)\<rparr>"
  have list: "getList ?q = filter (\<lambda>e. fst e \<noteq> k) (getList q)"
    using filter_node_eq_filter_key [OF assms(1) a(2)] by (simp add: getList_def)
  have keys: "fst ` set (AList.delete k (pointerMap q)) = fst ` set (pointerMap q) - {k}"
    by (metis delete_keys list.set_map set_removeAll)
  have map: "map_of (AList.delete k (pointerMap q)) l = Some b"
    if "(b, l, w) \<in> set (entryQueue q)" "b \<noteq> a" for b l w
    using q_invD(4) [OF assms(1) that(1)] q_invD(4) [OF assms(1) a(2)] that(2)
    by (metis delete_conv' option.inject fun_upd_other)
  have d1: "distinct (map fst (entryQueue ?q))"
    using q_invD(1) [OF assms(1)] by (simp add: distinct_map_filter)
  have d2: "distinct (map fst (pointerMap ?q))"
    using q_invD(2) [OF assms(1)] by (simp add: distinct_delete)
  have d3: "distinct (map fst (getList ?q))"
    unfolding list using q_invD(3) [OF assms(1)] by (rule distinct_map_filter)
  have d4: "map_of (pointerMap ?q) l = Some b \<and> b < nextNode ?q"
    if "(b, l, w) \<in> set (entryQueue ?q)" for b l w
  proof -
    have "(b, l, w) \<in> set (entryQueue q)" "b \<noteq> a" using that by auto
    from map [OF this] q_invD(4) [OF assms(1) this(1)] show ?thesis by simp
  qed
  have d5: "fst ` set (pointerMap ?q) = fst ` set (getList ?q)"
    using q_invD(5) [OF assms(1)] keys unfolding list by auto
  have "q_inv ?q" by (rule q_invI [OF d1 d2 d3 d4 d5])
  then show ?thesis using a(1) list by (auto simp: q_remove_def)
qed

text \<open>The search finds the oldest entry that satisfies the predicate.\<close>

lemma findOne_loop_Some:
  "findOne_loop P es = Some k \<Longrightarrow>
   \<exists>xs a v ys. es = xs @ (a, k, v) # ys \<and> P v \<and> (\<forall>e \<in> set xs. \<not> P (snd (snd e)))"
proof (induction es)
  case (Cons e es)
  obtain a l v where e: "e = (a, l, v)" by (cases e) auto
  show ?case
  proof (cases "P v")
    case True
    then have "e # es = [] @ (a, k, v) # es" using Cons.prems e by simp
    then show ?thesis using True by fastforce
  next
    case False
    then obtain xs b w ys where "es = xs @ (b, k, w) # ys" "P w" "\<forall>e \<in> set xs. \<not> P (snd (snd e))"
      using Cons e by auto
    then have "e # es = (e # xs) @ (b, k, w) # ys" "P w" "\<forall>e \<in> set (e # xs). \<not> P (snd (snd e))"
      using False e by simp_all
    then show ?thesis by blast
  qed
qed simp

lemma findOne_loop_None: "findOne_loop P es = None \<longleftrightarrow> (\<forall>e \<in> set es. \<not> P (snd (snd e)))"
proof (induction es)
  case (Cons e es)
  then show ?case by (cases e) simp
qed simp

lemma findOne_None: "findOne q P = None \<longleftrightarrow> (\<forall>(k, v) \<in> set (getList q). \<not> P v)"
  by (force simp: findOne_def findOne_loop_None getList_def)

lemma findOne_Some:
  assumes "findOne q P = Some k"
  shows "\<exists>xs v ys. getList q = xs @ (k, v) # ys \<and> P v \<and> (\<forall>(l, w) \<in> set ys. \<not> P w)"
proof -
  obtain xs a v ys where s: "rev (entryQueue q) = xs @ (a, k, v) # ys" "P v"
      "\<forall>e \<in> set xs. \<not> P (snd (snd e))"
    using assms findOne_loop_Some [of P "rev (entryQueue q)" k] by (auto simp: findOne_def)
  from s(1) have "entryQueue q = rev ys @ (a, k, v) # rev xs"
    by (metis append.assoc append_Cons append_Nil rev.simps(2) rev_append rev_rev_ident)
  then have "getList q = map snd (rev ys) @ (k, v) # map snd (rev xs)" by (simp add: getList_def)
  moreover have "\<forall>(l, w) \<in> set (map snd (rev xs)). \<not> P w" using s(3) by fastforce
  ultimately show ?thesis using s(2) by blast
qed

lemma fifo_find_ok:
  assumes "q_inv q" "(k, v) \<in> set (getList q)"
  shows "fifo_find q k m = Inr (v, q)"
  using q_entry_ok [OF assms] assms(2) q_contains_iff [OF assms(1), of k]
  by (force simp: fifo_find_def)

lemma lru_find_ok:
  assumes "q_inv q" "(k, v) \<in> set (getList q)"
  shows "\<exists>q'. lru_find q k m = Inr (v, q') \<and> q_inv q' \<and>
              getList q' = (if m then (k, v) # filter (\<lambda>e. fst e \<noteq> k) (getList q) else getList q)"
proof -
  obtain a where a: "q_entry q k = Inr (a, k, v)" "(a, k, v) \<in> set (entryQueue q)"
    using q_entry_ok [OF assms] by blast
  let ?es = "(a, k, v) # filter (\<lambda>e. fst e \<noteq> a) (entryQueue q)"
  let ?q = "q\<lparr>entryQueue := ?es\<rparr>"
  have c: "q_contains q k" using assms(2) q_contains_iff [OF assms(1), of k] by force
  have list: "getList ?q = (k, v) # filter (\<lambda>e. fst e \<noteq> k) (getList q)"
    using filter_node_eq_filter_key [OF assms(1) a(2)] by (simp add: getList_def)
  have d1: "distinct (map fst (entryQueue ?q))"
    using distinct_map_filter [OF q_invD(1) [OF assms(1)]] by auto
  have d3: "distinct (map fst (getList ?q))"
    unfolding list using distinct_map_filter [OF q_invD(3) [OF assms(1)]] by auto
  have d4: "map_of (pointerMap ?q) l = Some b \<and> b < nextNode ?q"
    if "(b, l, w) \<in> set (entryQueue ?q)" for b l w
    using that a(2) q_invD(4) [OF assms(1)] by fastforce
  have d5: "fst ` set (pointerMap ?q) = fst ` set (getList ?q)"
    using q_invD(5) [OF assms(1)] assms(2) unfolding list by force
  have d2: "distinct (map fst (pointerMap ?q))" using q_invD(2) [OF assms(1)] by simp
  have "q_inv ?q" by (rule q_invI [OF d1 d2 d3 d4 d5])
  then show ?thesis using a(1) c list assms(1) by (simp add: lru_find_def)
qed

lemma lru_find_False:
  assumes "q_inv q" "(k, v) \<in> set (getList q)"
  shows "lru_find q k False = Inr (v, q)"
  using q_entry_ok [OF assms] assms(2) q_contains_iff [OF assms(1), of k]
  by (force simp: lru_find_def)

lemma q_empty_inv: "q_inv q_empty" "getList q_empty = []"
  by (simp_all add: q_inv_def q_empty_def getList_def)

lemma q_size_ok: "q_inv q \<Longrightarrow> q_size q = length (getList q)"
  using q_invD(2,3,5) [of q] by (metis q_size_def distinct_card length_map list.set_map)

section \<open>The contract of a page queue\<close>

text \<open>
  What the page buffer needs of a queue: it is a list of entries with distinct keys, the
  newest first, and the search for a victim starts at the end of that list. \<open>find\<close> may
  reorder the list, but only when the caller allows it.
\<close>

locale page_queue =
  fixes inv :: "'s \<Rightarrow> bool"
    and lst :: "'s \<Rightarrow> ('k \<times> 'v) list"
    and ins :: "'s \<Rightarrow> 'k \<Rightarrow> 'v \<Rightarrow> 's"
    and rem :: "'s \<Rightarrow> 'k \<Rightarrow> (('k \<times> 'v) \<times> 's) result"
    and one :: "'s \<Rightarrow> ('v \<Rightarrow> bool) \<Rightarrow> 'k option"
    and has :: "'s \<Rightarrow> 'k \<Rightarrow> bool"
    and fnd :: "'s \<Rightarrow> 'k \<Rightarrow> bool \<Rightarrow> ('v \<times> 's) result"
  assumes keys_law: "inv q \<Longrightarrow> distinct (map fst (lst q))"
    and has_law: "inv q \<Longrightarrow> has q k \<longleftrightarrow> k \<in> fst ` set (lst q)"
    and insert_law: "inv q \<Longrightarrow> k \<notin> fst ` set (lst q) \<Longrightarrow>
      inv (ins q k v) \<and> lst (ins q k v) = (k, v) # lst q"
    and remove_law: "inv q \<Longrightarrow> (k, v) \<in> set (lst q) \<Longrightarrow>
      \<exists>q'. rem q k = Inr ((k, v), q') \<and> inv q' \<and> lst q' = filter (\<lambda>e. fst e \<noteq> k) (lst q)"
    and one_none: "inv q \<Longrightarrow> one q P = None \<longleftrightarrow> (\<forall>(k, v) \<in> set (lst q). \<not> P v)"
    and one_some: "inv q \<Longrightarrow> one q P = Some k \<Longrightarrow>
      \<exists>xs v ys. lst q = xs @ (k, v) # ys \<and> P v \<and> (\<forall>(l, w) \<in> set ys. \<not> P w)"
    and find_law: "inv q \<Longrightarrow> (k, v) \<in> set (lst q) \<Longrightarrow>
      \<exists>q'. fnd q k m = Inr (v, q') \<and> inv q' \<and> set (lst q') = set (lst q)"
    and peek_law: "inv q \<Longrightarrow> (k, v) \<in> set (lst q) \<Longrightarrow> fnd q k False = Inr (v, q)"
begin

text \<open>Picking a victim and taking it out: the eviction step of the buffer.\<close>

lemma victim_law:
  assumes "inv q" "one q P = Some k"
  shows "\<exists>v q'. (k, v) \<in> set (lst q) \<and> P v \<and> has q k \<and> fnd q k False = Inr (v, q) \<and>
                rem q k = Inr ((k, v), q') \<and> inv q' \<and>
                set (lst q') = set (lst q) - {(k, v)} \<and> k \<notin> fst ` set (lst q')"
proof -
  obtain v where v: "(k, v) \<in> set (lst q)" "P v"
    using one_some [OF assms] by (metis in_set_conv_decomp)
  obtain q' where q': "rem q k = Inr ((k, v), q')" "inv q'"
      "lst q' = filter (\<lambda>e. fst e \<noteq> k) (lst q)"
    using remove_law [OF assms(1) v(1)] by blast
  have "set (lst q') = set (lst q) - {(k, v)}"
    unfolding q'(3) by (rule set_filter_key [OF keys_law [OF assms(1)] v(1)])
  moreover have "k \<notin> fst ` set (lst q')" unfolding q'(3) by auto
  moreover have "has q k" using has_law [OF assms(1)] v(1) by force
  ultimately show ?thesis using v q' peek_law [OF assms(1) v(1)] by blast
qed

lemma insert_set:
  assumes "inv q" "k \<notin> fst ` set (lst q)"
  shows "inv (ins q k v)" "set (lst (ins q k v)) = insert (k, v) (set (lst q))"
  using insert_law [OF assms] by auto

lemma remove_set:
  assumes "inv q" "(k, v) \<in> set (lst q)"
  shows "\<exists>q'. rem q k = Inr ((k, v), q') \<and> inv q' \<and> set (lst q') = set (lst q) - {(k, v)}"
proof -
  obtain q' where q': "rem q k = Inr ((k, v), q')" "inv q'"
      "lst q' = filter (\<lambda>e. fst e \<noteq> k) (lst q)"
    using remove_law [OF assms] by blast
  have "set (lst q') = set (lst q) - {(k, v)}"
    unfolding q'(3) by (rule set_filter_key [OF keys_law [OF assms(1)] assms(2)])
  then show ?thesis using q' by blast
qed

end

interpretation fifo: page_queue q_inv getList q_insert q_remove findOne q_contains fifo_find
proof (unfold_locales, goal_cases)
  case (1 q)
  then show ?case by (rule q_invD(3))
next
  case (2 q k)
  then show ?case by (rule q_contains_iff)
next
  case (3 q k v)
  then show ?case by (rule q_insert_ok)
next
  case (4 q k v)
  then show ?case by (rule q_remove_ok)
next
  case (5 q P)
  show ?case by (rule findOne_None)
next
  case (6 q P k)
  then show ?case by (intro findOne_Some)
next
  case (7 q k v m)
  then show ?case using fifo_find_ok [OF 7, of m] by auto
next
  case (8 q k v)
  then show ?case by (rule fifo_find_ok)
qed

lemma lru_find_set:
  assumes "q_inv q" "(k, v) \<in> set (getList q)"
  shows "\<exists>q'. lru_find q k m = Inr (v, q') \<and> q_inv q' \<and> set (getList q') = set (getList q)"
proof -
  obtain q' where "lru_find q k m = Inr (v, q')" "q_inv q'"
      "getList q' = (if m then (k, v) # filter (\<lambda>e. fst e \<noteq> k) (getList q) else getList q)"
    using lru_find_ok [OF assms] by blast
  then show ?thesis
    using assms(2) set_filter_key [OF q_invD(3) [OF assms(1)] assms(2)]
    by (auto intro!: exI [of _ q'])
qed

interpretation lru: page_queue q_inv getList q_insert q_remove findOne q_contains lru_find
  by unfold_locales
    (rule fifo.keys_law fifo.has_law fifo.insert_law fifo.remove_law fifo.one_none
      fifo.one_some lru_find_set lru_find_False; assumption)+

section \<open>Properties\<close>

text \<open>
  \<open>findOne\<close> finds a victim whenever some entry satisfies the predicate, and it is
  the oldest such entry: every entry behind it in the list (inserted or touched earlier)
  fails the predicate. Taking it out of the queue with \<open>remove\<close> gives back this entry,
  keeps the invariant and the order of the others.
\<close>

theorem queue_victim_correct:
  assumes "q_inv q" "(k0, v0) \<in> set (getList q)" "P v0"
  shows "\<exists>k v xs ys q'. findOne q P = Some k \<and> getList q = xs @ (k, v) # ys \<and> P v \<and>
           (\<forall>(l, w) \<in> set ys. \<not> P w) \<and>
           q_remove q k = Inr ((k, v), q') \<and> q_inv q' \<and> getList q' = xs @ ys"
proof -
  obtain k where k: "findOne q P = Some k"
    using assms(2,3) findOne_None [of q P] by (cases "findOne q P") auto
  obtain xs v ys where s: "getList q = xs @ (k, v) # ys" "P v" "\<forall>(l, w) \<in> set ys. \<not> P w"
    using findOne_Some [OF k] by blast
  obtain q' where q': "q_remove q k = Inr ((k, v), q')" "q_inv q'"
      "getList q' = filter (\<lambda>e. fst e \<noteq> k) (getList q)"
    using q_remove_ok [OF assms(1), of k v] s(1) by auto
  have "filter (\<lambda>e. fst e \<noteq> k) (getList q) = xs @ ys"
    using fifo.keys_law [OF assms(1)] unfolding s(1) by (rule filter_key_split)
  then show ?thesis using k s q' by auto
qed

definition demo_queue :: "(nat, nat) queue" where
  "demo_queue = q_insert (q_insert (q_insert q_empty 7 0) 8 1) 9 2"

lemma demo_queue_ok: "q_inv demo_queue" "getList demo_queue = [(9, 2), (8, 1), (7, 0)]"
  by (auto simp: demo_queue_def q_inv_def q_insert_def q_empty_def getList_def)

theorem queue_victim_correct_witness:
  "\<exists>k v xs ys q'. findOne demo_queue (\<lambda>v. v \<noteq> 0) = Some k \<and>
     getList demo_queue = xs @ (k, v) # ys \<and> v \<noteq> 0 \<and> (\<forall>(l, w) \<in> set ys. \<not> w \<noteq> 0) \<and>
     q_remove demo_queue k = Inr ((k, v), q') \<and> q_inv q' \<and> getList q' = xs @ ys"
  by (rule queue_victim_correct [of demo_queue 9 2 "\<lambda>v. v \<noteq> 0"]) (simp_all add: demo_queue_ok)

text \<open>
  \<open>LRUQueue::find\<close> with \<open>modify\<close> returns the value of the key and moves its entry to
  the front, so that it becomes the last candidate for eviction; the others keep their
  order. Without \<open>modify\<close>, and always in \<open>FIFOQueue\<close>, the queue does not change. Looking
  up an absent key raises.
\<close>

theorem queue_find_correct:
  assumes "q_inv q"
  shows "((k, v) \<in> set (getList q) \<longrightarrow>
            fifo_find q k m = Inr (v, q) \<and> lru_find q k False = Inr (v, q) \<and>
            (\<exists>q'. lru_find q k True = Inr (v, q') \<and> q_inv q' \<and>
                  getList q' = (k, v) # filter (\<lambda>e. fst e \<noteq> k) (getList q))) \<and>
         (k \<notin> fst ` set (getList q) \<longrightarrow>
            fifo_find q k m = Inl (Raise ''Key was not found! (FIFO)'') \<and>
            lru_find q k m = Inl (Raise ''Key was not found! (LRU)''))"
proof (intro conjI impI)
  assume kv: "(k, v) \<in> set (getList q)"
  show "fifo_find q k m = Inr (v, q)" "lru_find q k False = Inr (v, q)"
    using fifo_find_ok [OF assms kv] lru_find_False [OF assms kv] by simp_all
  show "\<exists>q'. lru_find q k True = Inr (v, q') \<and> q_inv q' \<and>
               getList q' = (k, v) # filter (\<lambda>e. fst e \<noteq> k) (getList q)"
    using lru_find_ok [OF assms kv, of True] by simp
next
  assume "k \<notin> fst ` set (getList q)"
  then show "fifo_find q k m = Inl (Raise ''Key was not found! (FIFO)'')"
      "lru_find q k m = Inl (Raise ''Key was not found! (LRU)'')"
    using q_contains_iff [OF assms, of k] by (simp_all add: fifo_find_def lru_find_def raise_def)
qed

theorem queue_find_correct_witness:
  "(fifo_find demo_queue 8 True = Inr (1, demo_queue) \<and>
    lru_find demo_queue 8 False = Inr (1, demo_queue) \<and>
    (\<exists>q'. lru_find demo_queue 8 True = Inr (1, q') \<and> q_inv q' \<and>
          getList q' = (8, 1) # filter (\<lambda>e. fst e \<noteq> 8) (getList demo_queue))) \<and>
   fifo_find demo_queue 5 True = Inl (Raise ''Key was not found! (FIFO)'')"
  using queue_find_correct [of demo_queue 8 1 True] queue_find_correct [of demo_queue 5 1 True]
  by (simp add: demo_queue_ok)

end
