(* ===== verification/Locks.thy ===== *)
theory Locks
  imports Prelude
begin

text \<open>
  \<open>std::shared_mutex\<close> as the page buffer uses it, seen by clients that run one call at a
  time: a lock is free, held by some readers, or held by one writer. A call that would
  block can never be woken up by the same client, so it is an error. \<open>unlock\<close> is called for
  both modes (\<open>PageBuffer::unpinPage\<close>); releasing a free mutex is undefined.
\<close>

datatype lock = Unlocked | Shared nat | Exclusive

fun acquire :: "bool \<Rightarrow> lock \<Rightarrow> lock result" where
  "acquire True Unlocked = Inr Exclusive"
| "acquire False Unlocked = Inr (Shared 1)"
| "acquire False (Shared n) = Inr (Shared (Suc n))"
| "acquire e l = Inl Deadlock"

fun release :: "lock \<Rightarrow> lock result" where
  "release Unlocked = Inl Undefined"
| "release (Shared n) = Inr (if n \<le> 1 then Unlocked else Shared (n - 1))"
| "release Exclusive = Inr Unlocked"

text \<open>The number of holders, which is the number of pins of a page.\<close>

fun holders :: "lock \<Rightarrow> nat" where
  "holders Unlocked = 0"
| "holders (Shared n) = n"
| "holders Exclusive = 1"

fun lock_ok :: "lock \<Rightarrow> bool" where
  "lock_ok (Shared n) = (n > 0)"
| "lock_ok l = True"

definition lock_free :: "bool \<Rightarrow> lock \<Rightarrow> bool" where
  "lock_free e l \<longleftrightarrow> l = Unlocked \<or> \<not> e \<and> l \<noteq> Exclusive"

lemma acquire_cases: "acquire e l = (if lock_free e l then
    Inr (if e then Exclusive else Shared (Suc (holders l))) else Inl Deadlock)"
  by (cases "(e, l)" rule: acquire.cases) (simp_all add: lock_free_def)

lemma acquire_ok:
  assumes "acquire e l = Inr l'"
  shows "holders l' = Suc (holders l)" "lock_ok l'" "l' \<noteq> Unlocked" "l' = Exclusive \<longleftrightarrow> e"
    "lock_free e l"
  using assms by (cases e; cases l; auto simp: lock_free_def)+

lemma lock_free_Unlocked [simp]: "lock_free e Unlocked"
  by (simp add: lock_free_def)

lemma holders_zero: "lock_ok l \<Longrightarrow> holders l = 0 \<longleftrightarrow> l = Unlocked"
  by (cases l) auto

lemma release_ok:
  assumes "lock_ok l" "l \<noteq> Unlocked"
  shows "\<exists>l'. release l = Inr l' \<and> lock_ok l' \<and> holders l' = holders l - 1 \<and> l' \<noteq> Exclusive"
  using assms by (cases l) auto

lemma release_acquire: "acquire e Unlocked = Inr l \<Longrightarrow> release l = Inr Unlocked"
  by (cases e) auto

end
