(* ===== verification/PagePool.thy ===== *)
theory PagePool
  imports Locks
begin

text \<open>
  The contract between a page buffer and its clients, the trees: pages are created, pinned
  in a shared or exclusive mode, read and changed while pinned, and unpinned with a flag
  that says whether they were changed. At most \<open>cap\<close> pages can be pinned at a time. A
  client may unpin a page as clean only when it left the page unmodified.

  Every page has contents, a lock and a flag ``modified'', the changes that only the
  holder of the exclusive lock has seen. The trees rely on nothing else; from the contract
  follow the two patterns in which they use a page, a look at it and an update.
\<close>

definition pinned_pages :: "('s \<Rightarrow> 'i \<Rightarrow> lock) \<Rightarrow> 's \<Rightarrow> 'i set" where
  "pinned_pages held s = {i. held s i \<noteq> Unlocked}"

locale page_pool =
  fixes inv :: "'s \<Rightarrow> bool"
    and used :: "'s \<Rightarrow> 'i set"
    and content :: "'s \<Rightarrow> 'i \<Rightarrow> 'd result"
    and held :: "'s \<Rightarrow> 'i \<Rightarrow> lock"
    and modified :: "'s \<Rightarrow> 'i set"
    and cap :: nat
    and can_create :: "'s \<Rightarrow> bool"
    and data_ok :: "'d \<Rightarrow> bool"
    and create :: "'s \<Rightarrow> ('i \<times> 's) result"
    and pin :: "bool \<Rightarrow> ('d \<Rightarrow> bool) \<Rightarrow> 'i \<Rightarrow> 's \<Rightarrow> 's result"
    and get :: "'i \<Rightarrow> 's \<Rightarrow> 'd result"
    and put :: "'i \<Rightarrow> 'd \<Rightarrow> 's \<Rightarrow> 's result"
    and unpin :: "bool \<Rightarrow> 'i \<Rightarrow> 's \<Rightarrow> 's result"
  assumes content_law: "inv s \<Longrightarrow> i \<in> used s \<Longrightarrow> \<exists>d. content s i = Inr d \<and> data_ok d"
    and held_used: "inv s \<Longrightarrow> held s i \<noteq> Unlocked \<Longrightarrow> i \<in> used s"
    and held_ok: "inv s \<Longrightarrow> lock_ok (held s i)"
    and finite_held: "inv s \<Longrightarrow> finite (pinned_pages held s)"
    and modified_held: "inv s \<Longrightarrow> i \<in> modified s \<Longrightarrow> held s i = Exclusive"
    and create_law: "inv s \<Longrightarrow> can_create s \<Longrightarrow>
      \<exists>i s'. create s = Inr (i, s') \<and> inv s' \<and> i \<notin> used s \<and> used s' = insert i (used s) \<and>
        held s' = held s \<and> modified s' = modified s \<and>
        (\<forall>j \<in> used s. content s' j = content s j)"
    and pin_law: "inv s \<Longrightarrow> i \<in> used s \<Longrightarrow> content s i = Inr d \<Longrightarrow> lock_free (f d) (held s i) \<Longrightarrow>
      held s i \<noteq> Unlocked \<or> card (pinned_pages held s) < cap \<Longrightarrow>
      \<exists>s'. pin False f i s = Inr s' \<and> inv s' \<and> used s' = used s \<and>
        acquire (f d) (held s i) = Inr (held s' i) \<and> (\<forall>j. j \<noteq> i \<longrightarrow> held s' j = held s j) \<and>
        modified s' \<subseteq> modified s \<and> (\<forall>j \<in> used s. content s' j = content s j)"
    and pin_skip_law: "inv s \<Longrightarrow> i \<in> used s \<Longrightarrow> held s i = Unlocked \<Longrightarrow>
      card (pinned_pages held s) < cap \<Longrightarrow>
      \<exists>s'. pin True f i s = Inr s' \<and> inv s' \<and> used s' = used s \<and>
        held s' i = Exclusive \<and> (\<forall>j. j \<noteq> i \<longrightarrow> held s' j = held s j) \<and>
        modified s' \<subseteq> insert i (modified s) \<and> (\<forall>j \<in> used s - {i}. content s' j = content s j)"
    and pin_full: "inv s \<Longrightarrow> i \<in> used s \<Longrightarrow> held s i = Unlocked \<Longrightarrow>
      card (pinned_pages held s) = cap \<Longrightarrow> pin skip f i s = Inl (Raise ''Buffer is full!'')"
    and get_law: "inv s \<Longrightarrow> held s i \<noteq> Unlocked \<Longrightarrow> get i s = content s i"
    and put_law: "inv s \<Longrightarrow> held s i = Exclusive \<Longrightarrow> data_ok d \<Longrightarrow>
      \<exists>s'. put i d s = Inr s' \<and> inv s' \<and> used s' = used s \<and> held s' = held s \<and>
        modified s' \<subseteq> insert i (modified s) \<and> content s' i = Inr d \<and>
        (\<forall>j \<in> used s - {i}. content s' j = content s j)"
    and unpin_law: "inv s \<Longrightarrow> held s i \<noteq> Unlocked \<Longrightarrow> dirty \<or> i \<notin> modified s \<Longrightarrow>
      \<exists>s'. unpin dirty i s = Inr s' \<and> inv s' \<and> used s' = used s \<and>
        release (held s i) = Inr (held s' i) \<and> (\<forall>j. j \<noteq> i \<longrightarrow> held s' j = held s j) \<and>
        modified s' \<subseteq> modified s - {i} \<and> (\<forall>j \<in> used s. content s' j = content s j)"
begin

lemma same_held_ext: "(\<And>j. j \<noteq> i \<Longrightarrow> h' j = h j) \<Longrightarrow> h' i = h i \<Longrightarrow> h' = h"
  by (rule ext) metis

text \<open>Looking at a page: nothing changes, and what is seen are its contents.\<close>

lemma look_at_page:
  assumes "inv s" "i \<in> used s" "held s i = Unlocked" "card (pinned_pages held s) < cap"
  shows "\<exists>s1 s2 d. pin False (\<lambda>_. False) i s = Inr s1 \<and> get i s1 = Inr d \<and>
           unpin False i s1 = Inr s2 \<and> content s i = Inr d \<and>
           inv s2 \<and> used s2 = used s \<and> held s2 = held s \<and>
           (\<forall>j \<in> used s. content s2 j = content s j)"
proof -
  obtain d where d: "content s i = Inr d" using content_law [OF assms(1,2)] by blast
  obtain s1 where s1: "pin False (\<lambda>_. False) i s = Inr s1" "inv s1" "used s1 = used s"
      "acquire False (held s i) = Inr (held s1 i)" "\<And>j. j \<noteq> i \<Longrightarrow> held s1 j = held s j"
      "modified s1 \<subseteq> modified s" "\<forall>j \<in> used s. content s1 j = content s j"
    using pin_law [OF assms(1,2) d, of "\<lambda>_. False"] assms(3,4) by auto
  have h: "held s1 i \<noteq> Unlocked" "i \<notin> modified s1"
    using acquire_ok(3) [OF s1(4)] modified_held [OF assms(1), of i] s1(6) assms(3) by auto
  obtain s2 where s2: "unpin False i s1 = Inr s2" "inv s2" "used s2 = used s1"
      "release (held s1 i) = Inr (held s2 i)" "\<And>j. j \<noteq> i \<Longrightarrow> held s2 j = held s1 j"
      "\<forall>j \<in> used s1. content s2 j = content s1 j"
    using unpin_law [OF s1(2) h(1), of False] h(2) by auto
  have "held s2 i = held s i"
    using release_acquire [of False "held s1 i"] s1(4) s2(4) unfolding assms(3) by simp
  then have "held s2 = held s" using s1(5) s2(5) by (intro same_held_ext) simp_all
  then show ?thesis using s1 s2 d get_law [OF s1(2) h(1)] assms(2) by auto
qed

text \<open>Updating a page: its contents are replaced, nothing else changes.\<close>

lemma update_page:
  assumes "inv s" "i \<in> used s" "held s i = Unlocked" "card (pinned_pages held s) < cap" "data_ok d"
  shows "\<exists>s1 s2 s3. pin False (\<lambda>_. True) i s = Inr s1 \<and> put i d s1 = Inr s2 \<and>
           unpin True i s2 = Inr s3 \<and> inv s3 \<and> used s3 = used s \<and> held s3 = held s \<and>
           content s3 i = Inr d \<and> (\<forall>j \<in> used s - {i}. content s3 j = content s j)"
proof -
  obtain e where e: "content s i = Inr e" using content_law [OF assms(1,2)] by blast
  obtain s1 where s1: "pin False (\<lambda>_. True) i s = Inr s1" "inv s1" "used s1 = used s"
      "acquire True (held s i) = Inr (held s1 i)" "\<And>j. j \<noteq> i \<Longrightarrow> held s1 j = held s j"
      "\<forall>j \<in> used s. content s1 j = content s j"
    using pin_law [OF assms(1,2) e, of "\<lambda>_. True"] assms(3,4) by auto
  have h: "held s1 i = Exclusive" using acquire_ok(4) [OF s1(4)] by simp
  obtain s2 where s2: "put i d s1 = Inr s2" "inv s2" "used s2 = used s1" "held s2 = held s1"
      "content s2 i = Inr d" "\<forall>j \<in> used s1 - {i}. content s2 j = content s1 j"
    using put_law [OF s1(2) h assms(5)] by blast
  obtain s3 where s3: "unpin True i s2 = Inr s3" "inv s3" "used s3 = used s2"
      "release (held s2 i) = Inr (held s3 i)" "\<And>j. j \<noteq> i \<Longrightarrow> held s3 j = held s2 j"
      "\<forall>j \<in> used s2. content s3 j = content s2 j"
    using unpin_law [OF s2(2), of i True] h s2(4) by auto
  have "held s3 i = held s i" using s3(4) s2(4) h assms(3) by simp
  then have "held s3 = held s" using s1(5) s3(5) s2(4) by (intro same_held_ext) simp_all
  then show ?thesis using s1 s2 s3 assms(2) by auto
qed

text \<open>A page that is new gets its first contents without a read of the disk.\<close>

lemma fill_page:
  assumes "inv s" "i \<in> used s" "held s i = Unlocked" "card (pinned_pages held s) < cap" "data_ok d"
  shows "\<exists>s1 s2 s3. pin True f i s = Inr s1 \<and> put i d s1 = Inr s2 \<and>
           unpin True i s2 = Inr s3 \<and> inv s3 \<and> used s3 = used s \<and> held s3 = held s \<and>
           content s3 i = Inr d \<and> (\<forall>j \<in> used s - {i}. content s3 j = content s j)"
proof -
  obtain s1 where s1: "pin True f i s = Inr s1" "inv s1" "used s1 = used s"
      "held s1 i = Exclusive" "\<And>j. j \<noteq> i \<Longrightarrow> held s1 j = held s j"
      "\<forall>j \<in> used s - {i}. content s1 j = content s j"
    using pin_skip_law [OF assms(1-4), of f] by auto
  obtain s2 where s2: "put i d s1 = Inr s2" "inv s2" "used s2 = used s1" "held s2 = held s1"
      "content s2 i = Inr d" "\<forall>j \<in> used s1 - {i}. content s2 j = content s1 j"
    using put_law [OF s1(2,4) assms(5)] by blast
  obtain s3 where s3: "unpin True i s2 = Inr s3" "inv s3" "used s3 = used s2"
      "release (held s2 i) = Inr (held s3 i)" "\<And>j. j \<noteq> i \<Longrightarrow> held s3 j = held s2 j"
      "\<forall>j \<in> used s2. content s3 j = content s2 j"
    using unpin_law [OF s2(2), of i True] s1(4) s2(4) by auto
  have "held s3 i = held s i" using s3(4) s2(4) s1(4) assms(3) by simp
  then have "held s3 = held s" using s1(5) s3(5) s2(4) by (intro same_held_ext) simp_all
  then show ?thesis using s1 s2 s3 assms(2) by auto
qed

end

end
