(* ===== verification/PageBuffer.thy ===== *)
theory PageBuffer
  imports SegmentManager Queues PagePool
begin

text \<open>
  \<open>src/buffer/PageBuffer.h\<close>: \<open>N\<close> pages in memory, a table from the numbers of the loaded
  blocks to page indices, the set of unused indices, and two queues (2Q): a page enters
  the FIFO queue when it is loaded and moves to the LRU queue when it is pinned again.
  Pinning a page that is not loaded takes an unused index, or evicts the oldest page
  without pins from the FIFO queue, or else from the LRU queue; a dirty victim is written
  back first.

  Calls run one at a time here. The table mutex is then free at the start of each call,
  so it is left out, except for the flag \<open>exclusivePageTableLock\<close>, which decides when the
  loop of \<open>pinPage\<close> goes round again. The locks of the pages stay held between calls and
  are part of the state. Where the code drops the table mutex for an IO write it checks
  again afterwards whether its victim can still be used; these checks are in the model,
  and the theorems show that they succeed when no other thread runs in between.

  The parameter \<open>slot\<close> is the element that \<open>*freeSlots.begin()\<close> yields, \<open>grow\<close> and \<open>pick\<close>
  are those of the segment manager.
\<close>

section \<open>State\<close>

record page =
  pdata :: "8 word list"
  pid :: block_id
  plock :: lock
  pins :: nat
  pdirty :: bool

record page_buffer =
  segmentManager :: seg_mgr
  pages :: "page list"
  pageTable :: "(block_id \<times> nat) list"
  freeSlots :: "nat set"
  fifoQueue :: "(block_id, nat) queue"
  lruQueue :: "(block_id, nat) queue"

text \<open>A mode function sees what is public in a page, its bytes and its number.\<close>

type_synonym mode_function = "8 word list \<Rightarrow> block_id \<Rightarrow> bool"

definition decide :: "bool \<Rightarrow> mode_function option \<Rightarrow> 8 word list \<Rightarrow> block_id \<Rightarrow> bool" where
  "decide exclusive modeFunction d b =
     (case modeFunction of None \<Rightarrow> exclusive | Some f \<Rightarrow> f d b)"

definition pb_new :: "nat \<Rightarrow> nat \<Rightarrow> seg_mgr \<Rightarrow> page_buffer" where
  "pb_new B N m =
     \<lparr>segmentManager = m,
      pages = replicate N \<lparr>pdata = replicate B 0, pid = - 1, plock = Unlocked, pins = 0,
                           pdirty = False\<rparr>,
      pageTable = [], freeSlots = {..<N}, fifoQueue = q_empty, lruQueue = q_empty\<rparr>"

definition set_page :: "nat \<Rightarrow> (page \<Rightarrow> page) \<Rightarrow> page_buffer \<Rightarrow> page_buffer" where
  "set_page i f pb = pb\<lparr>pages := (pages pb)[i := f (pages pb ! i)]\<rparr>"

section \<open>Operations\<close>

definition loadPage :: "nat \<Rightarrow> block_id \<Rightarrow> nat \<Rightarrow> page_buffer \<Rightarrow> page_buffer result" where
  "loadPage B b index pb =
     bindE (sm_readBlock B (segmentManager pb) b) (\<lambda>d.
       Inr (set_page index (\<lambda>p. p\<lparr>pdata := d\<rparr>) pb))"

definition savePage :: "nat \<Rightarrow> nat \<Rightarrow> page_buffer \<Rightarrow> page_buffer result" where
  "savePage B index pb =
     (let p = pages pb ! index
      in bindE (sm_writeBlock B (segmentManager pb) (pid p) (pdata p)) (\<lambda>m.
           Inr (pb\<lparr>segmentManager := m\<rparr>)))"

definition pb_createPage ::
  "nat \<Rightarrow> (nat \<Rightarrow> nat) \<Rightarrow> (nat set \<Rightarrow> nat) \<Rightarrow> page_buffer \<Rightarrow> (block_id \<times> page_buffer) result" where
  "pb_createPage B grow pick pb =
     bindE (sm_createBlock B grow pick (segmentManager pb)) (\<lambda>(b, m).
       Inr (b, pb\<lparr>segmentManager := m\<rparr>))"

text \<open>What an iteration of the loop ends with: the index of the pinned page, or \<open>continue\<close>.\<close>

datatype pin_step = Pinned nat | Continue bool

text \<open>Locking the page for the caller; the mode function decides after a look at the page.\<close>

definition lock_page ::
  "bool \<Rightarrow> mode_function option \<Rightarrow> nat \<Rightarrow> page_buffer \<Rightarrow> (pin_step \<times> page_buffer) result" where
  "lock_page exclusive modeFunction index pb =
     (let p = pages pb ! index
      in bindE (acquire (decide exclusive modeFunction (pdata p) (pid p)) (plock p)) (\<lambda>l.
           Inr (Pinned index, set_page index (\<lambda>p. p\<lparr>plock := l\<rparr>) pb)))"

text \<open>A lock that is taken and released again within the call.\<close>

definition instant_lock :: "bool \<Rightarrow> nat \<Rightarrow> page_buffer \<Rightarrow> unit result" where
  "instant_lock exclusive index pb =
     bindE (acquire exclusive (plock (pages pb ! index))) (\<lambda>l. Inr ())"

text \<open>1) The page is already in memory.\<close>

definition touch_queues :: "block_id \<Rightarrow> nat \<Rightarrow> page_buffer \<Rightarrow> page_buffer result" where
  "touch_queues b index pb =
     (if q_contains (fifoQueue pb) b then
        bindE (q_remove (fifoQueue pb) b) (\<lambda>(e, q).
          Inr (pb\<lparr>fifoQueue := q, lruQueue := q_insert (lruQueue pb) b index\<rparr>))
      else if q_contains (lruQueue pb) b then
        bindE (lru_find (lruQueue pb) b True) (\<lambda>(i, q). Inr (pb\<lparr>lruQueue := q\<rparr>))
      else Inr (pb\<lparr>fifoQueue := q_insert (fifoQueue pb) b index\<rparr>))"

definition pin_resident ::
  "bool \<Rightarrow> mode_function option \<Rightarrow> bool \<Rightarrow> block_id \<Rightarrow> nat \<Rightarrow> page_buffer \<Rightarrow>
   (pin_step \<times> page_buffer) result" where
  "pin_resident exclusive modeFunction tableLock b index pb =
     (let pb1 = set_page index (\<lambda>p. p\<lparr>pins := pins p + 1\<rparr>) pb;
          n = pins (pages pb1 ! index)
      in bindE (check (n \<ge> 1)) (\<lambda>_.
         if n = 1 \<and> \<not> tableLock
         then Inr (Continue True, set_page index (\<lambda>p. p\<lparr>pins := pins p - 1\<rparr>) pb1)
         else bindE (if n = 1 then touch_queues b index pb1 else Inr pb1) (\<lambda>pb2.
                lock_page exclusive modeFunction index pb2)))"

text \<open>2.1) There is an unused index.\<close>

definition pin_free ::
  "nat \<Rightarrow> (nat set \<Rightarrow> nat) \<Rightarrow> bool \<Rightarrow> bool \<Rightarrow> mode_function option \<Rightarrow> bool \<Rightarrow> block_id \<Rightarrow>
   page_buffer \<Rightarrow> (pin_step \<times> page_buffer) result" where
  "pin_free B slot exclusive skipLoad modeFunction tableLock b pb =
     (if \<not> tableLock then Inr (Continue True, pb)
      else bindE (check (freeSlots pb \<noteq> {})) (\<lambda>_.
           bindE (check (map_of (pageTable pb) b = None)) (\<lambda>_.
           let freeIndex = slot (freeSlots pb)
           in bindE (check (pins (pages pb ! freeIndex) = 0)) (\<lambda>_.
              let pb1 = set_page freeIndex (\<lambda>p. p\<lparr>pins := 1, pid := b, pdirty := False\<rparr>)
                          (pb\<lparr>freeSlots := freeSlots pb - {freeIndex},
                              pageTable := AList.update b freeIndex (pageTable pb),
                              fifoQueue := q_insert (fifoQueue pb) b freeIndex\<rparr>)
              in bindE (if skipLoad then Inr pb1
                        else bindE (instant_lock True freeIndex pb1) (\<lambda>_.
                             loadPage B b freeIndex pb1)) (\<lambda>pb2.
                 lock_page exclusive modeFunction freeIndex pb2)))))"

text \<open>
  2.2) and 2.3) Eviction. The victim is pinned, a dirty victim is marked clean and
  written back; then the table is locked exclusively and the victim is checked again.
\<close>

definition evict_save :: "nat \<Rightarrow> nat \<Rightarrow> page_buffer \<Rightarrow> page_buffer result" where
  "evict_save B index pb =
     (let pb1 = set_page index (\<lambda>p. p\<lparr>pins := pins p + 1\<rparr>) pb
      in if pdirty (pages pb1 ! index)
         then let pb2 = set_page index (\<lambda>p. p\<lparr>pdirty := False\<rparr>) pb1
              in bindE (instant_lock False index pb2) (\<lambda>_. savePage B index pb2)
         else Inr pb1)"

definition evict_reuse ::
  "nat \<Rightarrow> bool \<Rightarrow> bool \<Rightarrow> mode_function option \<Rightarrow> block_id \<Rightarrow> nat \<Rightarrow> page_buffer \<Rightarrow>
   (pin_step \<times> page_buffer) result" where
  "evict_reuse B exclusive skipLoad modeFunction b index pb =
     (let pb1 = set_page index (\<lambda>p. p\<lparr>pid := b, pdirty := False\<rparr>)
                  (pb\<lparr>pageTable := AList.update b index (pageTable pb),
                      fifoQueue := q_insert (fifoQueue pb) b index\<rparr>)
      in bindE (if skipLoad then Inr pb1
                else bindE (instant_lock True index pb1) (\<lambda>_. loadPage B b index pb1)) (\<lambda>pb2.
         lock_page exclusive modeFunction index pb2))"

definition evict_give_up :: "nat \<Rightarrow> page_buffer \<Rightarrow> (pin_step \<times> page_buffer) result" where
  "evict_give_up index pb =
     Inr (Continue False, set_page index (\<lambda>p. p\<lparr>pins := pins p - 1\<rparr>) pb)"

definition evict_usable :: "block_id \<Rightarrow> bool \<Rightarrow> nat \<Rightarrow> page_buffer \<Rightarrow> bool" where
  "evict_usable b queued index pb \<longleftrightarrow>
     map_of (pageTable pb) b = None \<and> queued \<and> pins (pages pb ! index) = 1 \<and>
     \<not> pdirty (pages pb ! index)"

definition pin_evict_fifo ::
  "nat \<Rightarrow> bool \<Rightarrow> bool \<Rightarrow> mode_function option \<Rightarrow> block_id \<Rightarrow> block_id \<Rightarrow> page_buffer \<Rightarrow>
   (pin_step \<times> page_buffer) result" where
  "pin_evict_fifo B exclusive skipLoad modeFunction b key pb =
     bindE (fifo_find (fifoQueue pb) key False) (\<lambda>(index, q).
     bindE (evict_save B index (pb\<lparr>fifoQueue := q\<rparr>)) (\<lambda>pb1.
       if evict_usable b (q_contains (fifoQueue pb1) key) index pb1
       then bindE (q_remove (fifoQueue pb1) key) (\<lambda>(e, q).
              evict_reuse B exclusive skipLoad modeFunction b index
                (pb1\<lparr>pageTable := AList.delete key (pageTable pb1), fifoQueue := q\<rparr>))
       else evict_give_up index pb1))"

definition pin_evict_lru ::
  "nat \<Rightarrow> bool \<Rightarrow> bool \<Rightarrow> mode_function option \<Rightarrow> block_id \<Rightarrow> block_id \<Rightarrow> page_buffer \<Rightarrow>
   (pin_step \<times> page_buffer) result" where
  "pin_evict_lru B exclusive skipLoad modeFunction b key pb =
     bindE (lru_find (lruQueue pb) key False) (\<lambda>(index, q).
     bindE (evict_save B index (pb\<lparr>lruQueue := q\<rparr>)) (\<lambda>pb1.
       if evict_usable b (q_contains (lruQueue pb1) key) index pb1
       then bindE (q_remove (lruQueue pb1) key) (\<lambda>(e, q).
              evict_reuse B exclusive skipLoad modeFunction b index
                (pb1\<lparr>pageTable := AList.delete key (pageTable pb1), lruQueue := q\<rparr>))
       else evict_give_up index pb1))"

definition no_pins :: "page_buffer \<Rightarrow> nat \<Rightarrow> bool" where
  "no_pins pb index \<longleftrightarrow> pins (pages pb ! index) = 0"

definition pin_iteration ::
  "nat \<Rightarrow> (nat set \<Rightarrow> nat) \<Rightarrow> bool \<Rightarrow> bool \<Rightarrow> mode_function option \<Rightarrow> bool \<Rightarrow> block_id \<Rightarrow>
   page_buffer \<Rightarrow> (pin_step \<times> page_buffer) result" where
  "pin_iteration B slot exclusive skipLoad modeFunction tableLock b pb =
     (case map_of (pageTable pb) b of
        Some index \<Rightarrow> pin_resident exclusive modeFunction tableLock b index pb
      | None \<Rightarrow>
          if length (pageTable pb) < length (pages pb)
          then pin_free B slot exclusive skipLoad modeFunction tableLock b pb
          else (case findOne (fifoQueue pb) (no_pins pb) of
                  Some key \<Rightarrow> pin_evict_fifo B exclusive skipLoad modeFunction b key pb
                | None \<Rightarrow>
                    (case findOne (lruQueue pb) (no_pins pb) of
                       Some key \<Rightarrow> pin_evict_lru B exclusive skipLoad modeFunction b key pb
                     | None \<Rightarrow> raise ''Buffer is full!'')))"

text \<open>The loop, with fuel; \<open>pinPage\<close> starts without the exclusive table lock.\<close>

fun pin_loop ::
  "nat \<Rightarrow> (nat set \<Rightarrow> nat) \<Rightarrow> bool \<Rightarrow> bool \<Rightarrow> mode_function option \<Rightarrow> nat \<Rightarrow> bool \<Rightarrow> block_id \<Rightarrow>
   page_buffer \<Rightarrow> (nat \<times> page_buffer) result" where
  "pin_loop B slot exclusive skipLoad modeFunction 0 tableLock b pb = Inl OutOfFuel"
| "pin_loop B slot exclusive skipLoad modeFunction (Suc fuel) tableLock b pb =
     bindE (pin_iteration B slot exclusive skipLoad modeFunction tableLock b pb) (\<lambda>(st, pb').
       case st of
         Pinned index \<Rightarrow> Inr (index, pb')
       | Continue tableLock' \<Rightarrow>
           pin_loop B slot exclusive skipLoad modeFunction fuel tableLock' b pb')"

definition pb_pinPage ::
  "nat \<Rightarrow> (nat set \<Rightarrow> nat) \<Rightarrow> nat \<Rightarrow> bool \<Rightarrow> bool \<Rightarrow> mode_function option \<Rightarrow> block_id \<Rightarrow> page_buffer \<Rightarrow>
   (nat \<times> page_buffer) result" where
  "pb_pinPage B slot fuel exclusive skipLoad modeFunction b pb =
     pin_loop B slot exclusive skipLoad modeFunction fuel False b pb"

definition pb_unpinPage :: "nat \<Rightarrow> bool \<Rightarrow> page_buffer \<Rightarrow> page_buffer result" where
  "pb_unpinPage index dirty pb =
     (let p = pages pb ! index
      in bindE (check (pins p \<ge> 1)) (\<lambda>_.
         bindE (release (plock p)) (\<lambda>l.
           Inr (set_page index (\<lambda>p. p\<lparr>pdirty := (if dirty then True else pdirty p), plock := l,
                                      pins := pins p - 1\<rparr>) pb))))"

definition pb_pageAmount :: "page_buffer \<Rightarrow> nat result" where
  "pb_pageAmount pb = sm_allocatedBlocks (segmentManager pb)"

fun flush_pages :: "nat \<Rightarrow> nat list \<Rightarrow> page_buffer \<Rightarrow> page_buffer result" where
  "flush_pages B [] pb = Inr pb"
| "flush_pages B (index # is) pb =
     bindE (if index \<notin> freeSlots pb \<and> pdirty (pages pb ! index) then savePage B index pb
            else Inr pb) (\<lambda>pb'. flush_pages B is pb')"

definition pb_flush :: "nat \<Rightarrow> page_buffer \<Rightarrow> page_buffer result" where
  "pb_flush B pb =
     bindE (flush_pages B [0..<length (pages pb)] pb) (\<lambda>pb'.
     bindE (sm_flush (segmentManager pb')) (\<lambda>m.
       Inr (pb'\<lparr>segmentManager := m\<rparr>)))"

text \<open>
  A client that holds the exclusive lock of a page changes its bytes in place.
\<close>

definition pb_write :: "nat \<Rightarrow> 8 word list \<Rightarrow> page_buffer \<Rightarrow> page_buffer result" where
  "pb_write index d pb =
     (if plock (pages pb ! index) = Exclusive
      then Inr (set_page index (\<lambda>p. p\<lparr>pdata := d\<rparr>) pb) else Inl DataRace)"

section \<open>Invariant\<close>

definition pb_disk :: "nat \<Rightarrow> page_buffer \<Rightarrow> block_id \<Rightarrow> 8 word list result" where
  "pb_disk B pb b = sm_readBlock B (segmentManager pb) b"

definition page_ok :: "nat \<Rightarrow> page \<Rightarrow> bool" where
  "page_ok B p \<longleftrightarrow> length (pdata p) = B \<and> lock_ok (plock p) \<and> pins p = holders (plock p)"

text \<open>
  A loaded page: it carries its number, its block is in use, and when it is clean and
  nobody may be writing to it, its bytes are those of the block.
\<close>

definition loaded_ok :: "nat \<Rightarrow> page_buffer \<Rightarrow> block_id \<Rightarrow> nat \<Rightarrow> bool" where
  "loaded_ok B pb b i \<longleftrightarrow>
     pid (pages pb ! i) = b \<and> b \<in> sm_used B (segmentManager pb) \<and>
     (\<not> pdirty (pages pb ! i) \<and> plock (pages pb ! i) \<noteq> Exclusive \<longrightarrow>
        pb_disk B pb b = Inr (pdata (pages pb ! i)))"

definition pb_inv :: "nat \<Rightarrow> nat \<Rightarrow> page_buffer \<Rightarrow> bool" where
  "pb_inv B N pb \<longleftrightarrow>
     sm_inv B (segmentManager pb) \<and> length (pages pb) = N \<and>
     distinct (map fst (pageTable pb)) \<and> distinct (map snd (pageTable pb)) \<and>
     snd ` set (pageTable pb) \<subseteq> {..<N} \<and>
     freeSlots pb = {..<N} - snd ` set (pageTable pb) \<and>
     (\<forall>p \<in> set (pages pb). page_ok B p) \<and>
     (\<forall>i \<in> freeSlots pb. plock (pages pb ! i) = Unlocked) \<and>
     (\<forall>(b, i) \<in> set (pageTable pb). loaded_ok B pb b i) \<and>
     q_inv (fifoQueue pb) \<and> q_inv (lruQueue pb) \<and>
     set (getList (fifoQueue pb)) \<union> set (getList (lruQueue pb)) = set (pageTable pb) \<and>
     set (getList (fifoQueue pb)) \<inter> set (getList (lruQueue pb)) = {}"

text \<open>What the buffer shows of a page: its bytes, its lock, and whether its changes are safe.\<close>

definition pb_content :: "nat \<Rightarrow> page_buffer \<Rightarrow> block_id \<Rightarrow> 8 word list result" where
  "pb_content B pb b =
     (case map_of (pageTable pb) b of
        Some i \<Rightarrow> Inr (pdata (pages pb ! i)) | None \<Rightarrow> pb_disk B pb b)"

definition pb_held :: "page_buffer \<Rightarrow> block_id \<Rightarrow> lock" where
  "pb_held pb b =
     (case map_of (pageTable pb) b of Some i \<Rightarrow> plock (pages pb ! i) | None \<Rightarrow> Unlocked)"

definition pb_modified :: "nat \<Rightarrow> page_buffer \<Rightarrow> block_id set" where
  "pb_modified B pb =
     {b. \<exists>i. map_of (pageTable pb) b = Some i \<and> \<not> pdirty (pages pb ! i) \<and>
             pb_disk B pb b \<noteq> Inr (pdata (pages pb ! i))}"

definition pb_used :: "nat \<Rightarrow> page_buffer \<Rightarrow> block_id set" where
  "pb_used B pb = sm_used B (segmentManager pb)"

lemma pb_invD:
  assumes "pb_inv B N pb"
  shows "sm_inv B (segmentManager pb)" "length (pages pb) = N"
    "distinct (map fst (pageTable pb))" "distinct (map snd (pageTable pb))"
    "snd ` set (pageTable pb) \<subseteq> {..<N}"
    "freeSlots pb = {..<N} - snd ` set (pageTable pb)"
    "p \<in> set (pages pb) \<Longrightarrow> page_ok B p"
    "i \<in> freeSlots pb \<Longrightarrow> plock (pages pb ! i) = Unlocked"
    "(b, i) \<in> set (pageTable pb) \<Longrightarrow> loaded_ok B pb b i"
    "q_inv (fifoQueue pb)" "q_inv (lruQueue pb)"
    "set (getList (fifoQueue pb)) \<union> set (getList (lruQueue pb)) = set (pageTable pb)"
    "set (getList (fifoQueue pb)) \<inter> set (getList (lruQueue pb)) = {}"
  using assms unfolding pb_inv_def by blast+

lemma pb_invI:
  assumes "sm_inv B (segmentManager pb)" "length (pages pb) = N"
    "distinct (map fst (pageTable pb))" "distinct (map snd (pageTable pb))"
    "snd ` set (pageTable pb) \<subseteq> {..<N}"
    "freeSlots pb = {..<N} - snd ` set (pageTable pb)"
    "\<And>p. p \<in> set (pages pb) \<Longrightarrow> page_ok B p"
    "\<And>i. i \<in> freeSlots pb \<Longrightarrow> plock (pages pb ! i) = Unlocked"
    "\<And>b i. (b, i) \<in> set (pageTable pb) \<Longrightarrow> loaded_ok B pb b i"
    "q_inv (fifoQueue pb)" "q_inv (lruQueue pb)"
    "set (getList (fifoQueue pb)) \<union> set (getList (lruQueue pb)) = set (pageTable pb)"
    "set (getList (fifoQueue pb)) \<inter> set (getList (lruQueue pb)) = {}"
  shows "pb_inv B N pb"
  unfolding pb_inv_def using assms by blast

text \<open>The page behind an entry of the table.\<close>

lemma table_index:
  assumes "pb_inv B N pb" "map_of (pageTable pb) b = Some i"
  shows "(b, i) \<in> set (pageTable pb)" "i < N" "page_ok B (pages pb ! i)" "loaded_ok B pb b i"
proof -
  show t: "(b, i) \<in> set (pageTable pb)" using assms(2) by (rule map_of_SomeD)
  show i: "i < N" using pb_invD(5) [OF assms(1)] t by force
  show "page_ok B (pages pb ! i)" "loaded_ok B pb b i"
    using pb_invD(2,7,9) [OF assms(1)] i t by (auto intro: nth_mem)
qed

lemma table_index_inj:
  assumes "pb_inv B N pb" "map_of (pageTable pb) b = Some i" "map_of (pageTable pb) c = Some i"
  shows "b = c"
proof -
  have "inj_on snd (set (pageTable pb))"
    using pb_invD(4) [OF assms(1)] by (simp add: distinct_map)
  then show ?thesis using assms(2,3) map_of_SomeD by (metis inj_onD prod.inject snd_conv)
qed

lemma in_table_iff:
  assumes "pb_inv B N pb"
  shows "(b, i) \<in> set (pageTable pb) \<longleftrightarrow> map_of (pageTable pb) b = Some i"
  using pb_invD(3) [OF assms] by (simp add: map_of_eq_Some_iff)

section \<open>Pinning\<close>

lemma update_notin: "k \<notin> fst ` set al \<Longrightarrow> AList.update k v al = al @ [(k, v)]"
  by (induction al) auto

text \<open>
  Installing a page in slot \<open>i\<close>: the common end of the free-slot branch (where \<open>T0\<close> is the
  page table) and of the eviction branches (where \<open>T0\<close> is the table without the victim).
\<close>

lemma pb_install:
  assumes inv: "pb_inv B N pb" and i: "i < N"
    and T0: "set T0 \<subseteq> set (pageTable pb)" "distinct (map fst T0)" "distinct (map snd T0)"
      "i \<notin> snd ` set T0" "b \<notin> fst ` set T0" "{..<N} - snd ` set T0 = insert i (freeSlots pb)"
    and m: "sm_inv B m" "sm_used B m = sm_used B (segmentManager pb)"
      "\<And>c j. (c, j) \<in> set T0 \<Longrightarrow> sm_readBlock B m c = pb_disk B pb c"
    and b: "b \<in> sm_used B (segmentManager pb)"
    and q: "q_inv F" "q_inv L" "set (getList F) \<union> set (getList L) = insert (b, i) (set T0)"
      "set (getList F) \<inter> set (getList L) = {}"
    and p: "page_ok B p" "pid p = b"
      "\<not> pdirty p \<and> plock p \<noteq> Exclusive \<Longrightarrow> sm_readBlock B m b = Inr (pdata p)"
    and pb': "pb' = \<lparr>segmentManager = m, pages = (pages pb)[i := p], pageTable = T0 @ [(b, i)],
      freeSlots = freeSlots pb - {i}, fifoQueue = F, lruQueue = L\<rparr>"
  shows "pb_inv B N pb'"
proof (rule pb_invI)
  have len: "length (pages pb) = N" by (rule pb_invD(2) [OF inv])
  show "sm_inv B (segmentManager pb')" "length (pages pb') = N" "q_inv (fifoQueue pb')"
      "q_inv (lruQueue pb')"
    using m(1) len q(1,2) by (simp_all add: pb')
  show "distinct (map fst (pageTable pb'))" "distinct (map snd (pageTable pb'))"
    using T0(2,3,4,5) by (simp_all add: pb')
  show "snd ` set (pageTable pb') \<subseteq> {..<N}"
    using pb_invD(5) [OF inv] T0(1) i by (fastforce simp: pb')
  show "freeSlots pb' = {..<N} - snd ` set (pageTable pb')"
  proof -
    have "{..<N} - snd ` set (pageTable pb') = ({..<N} - snd ` set T0) - {i}"
      by (auto simp: pb')
    then show ?thesis unfolding T0(6) by (auto simp: pb')
  qed
  show "page_ok B r" if "r \<in> set (pages pb')" for r
    using that pb_invD(7) [OF inv] p(1) set_update_subset_insert [of "pages pb" i p]
    by (auto simp: pb')
  show "plock (pages pb' ! j) = Unlocked" if "j \<in> freeSlots pb'" for j
    using that pb_invD(8) [OF inv, of j] by (simp add: pb')
  show "loaded_ok B pb' c j" if "(c, j) \<in> set (pageTable pb')" for c j
  proof (cases "(c, j) = (b, i)")
    case True
    then show ?thesis using p(2,3) m(2) b i len by (simp add: loaded_ok_def pb' pb_disk_def)
  next
    case False
    then have t: "(c, j) \<in> set T0" using that by (auto simp: pb')
    then have "i \<noteq> j" using T0(4) by force
    moreover have "loaded_ok B pb c j" using pb_invD(9) [OF inv] t T0(1) by blast
    ultimately show ?thesis using m(2) m(3) [OF t] by (simp add: loaded_ok_def pb' pb_disk_def)
  qed
  show "set (getList (fifoQueue pb')) \<union> set (getList (lruQueue pb')) = set (pageTable pb')"
      "set (getList (fifoQueue pb')) \<inter> set (getList (lruQueue pb')) = {}"
    using q(3,4) by (simp_all add: pb')
qed

lemma pb_install_view:
  assumes inv: "pb_inv B N pb" and i: "i < N"
    and T0: "set T0 \<subseteq> set (pageTable pb)" "distinct (map fst T0)"
      "i \<notin> snd ` set T0" "b \<notin> fst ` set T0"
    and m: "\<And>c. c \<noteq> b \<Longrightarrow> c \<notin> fst ` set T0 \<Longrightarrow> c \<in> sm_used B (segmentManager pb) \<Longrightarrow>
        sm_readBlock B m c = pb_content B pb c \<and> pb_held pb c = Unlocked"
      "\<And>c j. (c, j) \<in> set T0 \<Longrightarrow> sm_readBlock B m c = pb_disk B pb c"
    and pb': "pb' = \<lparr>segmentManager = m, pages = (pages pb)[i := p], pageTable = T0 @ [(b, i)],
      freeSlots = freeSlots pb - {i}, fifoQueue = F, lruQueue = L\<rparr>"
  shows "map_of (pageTable pb') b = Some i" "pages pb' ! i = p"
    "pb_content B pb' b = Inr (pdata p)" "pb_held pb' b = plock p"
    "c \<noteq> b \<Longrightarrow> c \<in> sm_used B (segmentManager pb) \<Longrightarrow>
       pb_content B pb' c = pb_content B pb c \<and> pb_held pb' c = pb_held pb c \<and>
       (c \<in> pb_modified B pb' \<longrightarrow> c \<in> pb_modified B pb)"
proof -
  have len: "length (pages pb) = N" by (rule pb_invD(2) [OF inv])
  have mb: "map_of T0 b = None" using T0(4) by (simp add: map_of_eq_None_iff)
  show tb: "map_of (pageTable pb') b = Some i" using mb by (simp add: pb' map_add_def)
  show pi: "pages pb' ! i = p" using i len by (simp add: pb')
  show "pb_content B pb' b = Inr (pdata p)" "pb_held pb' b = plock p"
    using tb pi by (simp_all add: pb_content_def pb_held_def)
  assume c: "c \<noteq> b" "c \<in> sm_used B (segmentManager pb)"
  have tc: "map_of (pageTable pb') c = map_of T0 c" using c
    by (simp add: pb' map_add_def split: option.split)
  show "pb_content B pb' c = pb_content B pb c \<and> pb_held pb' c = pb_held pb c \<and>
      (c \<in> pb_modified B pb' \<longrightarrow> c \<in> pb_modified B pb)"
  proof (cases "map_of T0 c")
    case None
    then have "c \<notin> fst ` set T0" by (simp add: map_of_eq_None_iff)
    then show ?thesis using m(1) [OF c(1) _ c(2)] tc None
      by (simp add: pb_content_def pb_held_def pb_modified_def pb_disk_def) (simp add: pb')
  next
    case (Some j)
    then have t: "(c, j) \<in> set T0" by (rule map_of_SomeD)
    then have j: "j \<noteq> i" "map_of (pageTable pb) c = Some j"
      using T0(1,3) in_table_iff [OF inv] by force+
    have "pages pb' ! j = pages pb ! j" using j(1) by (simp add: pb')
    moreover have "pb_disk B pb' c = pb_disk B pb c" using m(2) [OF t] by (simp add: pb_disk_def pb')
    ultimately show ?thesis using tc Some j(2)
      by (simp add: pb_content_def pb_held_def pb_modified_def)
  qed
qed

lemma page_eta:
  "p\<lparr>pdata := d, pid := b, plock := l, pins := n, pdirty := x\<rparr> =
   \<lparr>pdata = d, pid = b, plock = l, pins = n, pdirty = x\<rparr>"
  by (cases p) simp

lemma page_eqI:
  "pdata p = d \<Longrightarrow> pid p = b \<Longrightarrow> plock p = l \<Longrightarrow> pins p = n \<Longrightarrow> pdirty p = x \<Longrightarrow>
   p = \<lparr>pdata = d, pid = b, plock = l, pins = n, pdirty = x\<rparr>"
  by (cases p) simp

lemma set_page_sel [simp]:
  "segmentManager (set_page i f pb) = segmentManager pb"
  "pageTable (set_page i f pb) = pageTable pb" "freeSlots (set_page i f pb) = freeSlots pb"
  "fifoQueue (set_page i f pb) = fifoQueue pb" "lruQueue (set_page i f pb) = lruQueue pb"
  "pages (set_page i f pb) = (pages pb)[i := f (pages pb ! i)]"
  by (simp_all add: set_page_def)

text \<open>The fresh page in slot \<open>i\<close> is loaded, unless that is skipped, and locked.\<close>

lemma load_and_lock:
  assumes i: "i < length (pages pb)"
    and p: "plock (pages pb ! i) = Unlocked" "pins (pages pb ! i) = 1" "pid (pages pb ! i) = b"
      "\<not> pdirty (pages pb ! i)"
    and d: "sm_readBlock B (segmentManager pb) b = Inr d"
    and D: "D = (if skipLoad then pdata (pages pb ! i) else d)"
    and l: "acquire (decide exclusive mf D b) Unlocked = Inr l"
  shows "bindE (if skipLoad then Inr pb
                else bindE (instant_lock True i pb) (\<lambda>_. loadPage B b i pb))
           (\<lambda>pb2. lock_page exclusive mf i pb2) =
         Inr (Pinned i, pb\<lparr>pages := (pages pb)[i :=
           \<lparr>pdata = D, pid = b, plock = l, pins = 1, pdirty = False\<rparr>]\<rparr>)"
proof -
  let ?p = "(pages pb ! i)\<lparr>pdata := D, plock := l\<rparr>"
  have eq: "?p = \<lparr>pdata = D, pid = b, plock = l, pins = 1, pdirty = False\<rparr>"
    using p by (intro page_eqI) simp_all
  have same: "(pages pb ! i)\<lparr>pdata := pdata (pages pb ! i), plock := l\<rparr> = (pages pb ! i)\<lparr>plock := l\<rparr>"
    by (cases "pages pb ! i") simp
  show ?thesis unfolding eq [symmetric]
  proof (cases skipLoad)
    case True
    then show "bindE (if skipLoad then Inr pb
                else bindE (instant_lock True i pb) (\<lambda>_. loadPage B b i pb))
           (\<lambda>pb2. lock_page exclusive mf i pb2) =
         Inr (Pinned i, pb\<lparr>pages := (pages pb)[i := ?p]\<rparr>)"
      using p(1,3) D l by (simp add: lock_page_def set_page_def same)
  next
    case False
    then show "bindE (if skipLoad then Inr pb
                else bindE (instant_lock True i pb) (\<lambda>_. loadPage B b i pb))
           (\<lambda>pb2. lock_page exclusive mf i pb2) =
         Inr (Pinned i, pb\<lparr>pages := (pages pb)[i := ?p]\<rparr>)"
      using p(1,3) d D l i by (simp add: lock_page_def set_page_def instant_lock_def loadPage_def)
  qed
qed

text \<open>
  What a successful pin has done, in terms of the views: the lock is acquired in the mode
  decided on the contents of the page, the contents are those of the page (unless loading
  was skipped), and nothing changes for other pages.
\<close>

definition pin_post ::
  "nat \<Rightarrow> nat \<Rightarrow> bool \<Rightarrow> bool \<Rightarrow> block_id \<Rightarrow> page_buffer \<Rightarrow> nat \<Rightarrow> page_buffer \<Rightarrow> bool" where
  "pin_post B N e skipLoad b pb index pb' \<longleftrightarrow>
     pb_inv B N pb' \<and> pb_used B pb' = pb_used B pb \<and>
     map_of (pageTable pb') b = Some index \<and>
     acquire e (pb_held pb b) = Inr (pb_held pb' b) \<and>
     (\<not> skipLoad \<longrightarrow> pb_content B pb' b = pb_content B pb b \<and>
        (b \<in> pb_modified B pb' \<longrightarrow> b \<in> pb_modified B pb)) \<and>
     (\<forall>c \<in> pb_used B pb - {b}.
        pb_content B pb' c = pb_content B pb c \<and> pb_held pb' c = pb_held pb c \<and>
        (c \<in> pb_modified B pb' \<longrightarrow> c \<in> pb_modified B pb))"

text \<open>Skipping the load needs a client that overwrites the page: the lock must be exclusive.\<close>

definition skip_ok :: "bool \<Rightarrow> bool \<Rightarrow> mode_function option \<Rightarrow> bool" where
  "skip_ok exclusive skipLoad mf \<longleftrightarrow> (skipLoad \<longrightarrow> exclusive \<and> mf = None)"

lemma pb_disk_ok:
  assumes "pb_inv B N pb" "b \<in> sm_used B (segmentManager pb)"
  shows "\<exists>d. sm_readBlock B (segmentManager pb) b = Inr d \<and> length d = B"
  using sm_readBlock_ok [OF pb_invD(1) [OF assms(1)] assms(2)] by blast

lemma not_queued:
  assumes "pb_inv B N pb" "map_of (pageTable pb) b = None"
  shows "b \<notin> fst ` set (pageTable pb)" "b \<notin> fst ` set (getList (fifoQueue pb))"
    "b \<notin> fst ` set (getList (lruQueue pb))"
  using assms(2) pb_invD(12) [OF assms(1)] by (auto simp: map_of_eq_None_iff) 

lemma free_slot_ok:
  assumes "pb_inv B N pb" "i \<in> freeSlots pb"
  shows "i < N" "page_ok B (pages pb ! i)" "plock (pages pb ! i) = Unlocked" "pins (pages pb ! i) = 0"
    "i \<notin> snd ` set (pageTable pb)"
proof -
  show i: "i < N" "i \<notin> snd ` set (pageTable pb)" using pb_invD(6) [OF assms(1)] assms(2) by auto
  show p: "page_ok B (pages pb ! i)" using pb_invD(2,7) [OF assms(1)] i by (auto intro: nth_mem)
  show l: "plock (pages pb ! i) = Unlocked" by (rule pb_invD(8) [OF assms])
  show "pins (pages pb ! i) = 0" using p l by (simp add: page_ok_def)
qed

lemma finite_free_slots: "pb_inv B N pb \<Longrightarrow> finite (freeSlots pb)"
  using pb_invD(6) [of B N pb] by simp

lemma free_slots_exist:
  assumes "pb_inv B N pb" "length (pageTable pb) < N"
  shows "freeSlots pb \<noteq> {}"
proof -
  have "card (snd ` set (pageTable pb)) < N"
    using assms(2) pb_invD(4) [OF assms(1)] by (metis distinct_card length_map list.set_map)
  then have "\<not> {..<N} \<subseteq> snd ` set (pageTable pb)"
    by (metis card_lessThan card_mono finite_imageI finite_set not_less)
  then show ?thesis using pb_invD(6) [OF assms(1)] by auto
qed

lemma pb_view_None:
  "map_of (pageTable pb) c = None \<Longrightarrow>
   pb_content B pb c = sm_readBlock B (segmentManager pb) c \<and> pb_held pb c = Unlocked"
  by (simp add: pb_content_def pb_held_def pb_disk_def)

text \<open>The page that both the free-slot branch and the eviction branches end with.\<close>

lemma fresh_page_ok:
  assumes "acquire e Unlocked = Inr l" "length D = B"
  shows "page_ok B \<lparr>pdata = D, pid = b, plock = l, pins = 1, pdirty = False\<rparr>"
  using acquire_ok [OF assms(1)] assms(2) by (simp add: page_ok_def)

text \<open>Both branches that load a page end here.\<close>

lemma pin_post_install:
  assumes inv: "pb_inv B N pb" and i: "i < N"
    and T: "map_of (pageTable pb) b = None"
    and T0: "set T0 \<subseteq> set (pageTable pb)" "distinct (map fst T0)" "distinct (map snd T0)"
      "i \<notin> snd ` set T0" "{..<N} - snd ` set T0 = insert i (freeSlots pb)"
    and m: "sm_inv B m" "sm_used B m = sm_used B (segmentManager pb)"
      "\<And>c j. (c, j) \<in> set T0 \<Longrightarrow> sm_readBlock B m c = pb_disk B pb c"
      "\<And>c. c \<notin> fst ` set T0 \<Longrightarrow> c \<in> sm_used B (segmentManager pb) \<Longrightarrow>
        sm_readBlock B m c = pb_content B pb c \<and> pb_held pb c = Unlocked"
    and b: "b \<in> sm_used B (segmentManager pb)"
    and q: "q_inv F" "q_inv L" "set (getList F) \<union> set (getList L) = insert (b, i) (set T0)"
      "set (getList F) \<inter> set (getList L) = {}"
    and D: "length D = B" "\<not> skipLoad \<Longrightarrow> pb_content B pb b = Inr D"
      "skipLoad \<Longrightarrow> e"
    and l: "acquire e Unlocked = Inr l"
    and pb': "pb' = \<lparr>segmentManager = m,
      pages = (pages pb)[i := \<lparr>pdata = D, pid = b, plock = l, pins = 1, pdirty = False\<rparr>],
      pageTable = T0 @ [(b, i)], freeSlots = freeSlots pb - {i}, fifoQueue = F, lruQueue = L\<rparr>"
  shows "pin_post B N e skipLoad b pb i pb'"
proof -
  let ?p = "\<lparr>pdata = D, pid = b, plock = l, pins = 1, pdirty = False\<rparr>"
  have bT0: "b \<notin> fst ` set T0" using T T0(1) by (force simp: map_of_eq_None_iff)
  have disk: "sm_readBlock B m b = Inr D" if "\<not> skipLoad"
    using m(4) [OF bT0 b] D(2) [OF that] by simp
  have "pb_inv B N pb'"
    by (rule pb_install [OF inv i T0(1,2,3,4) bT0 T0(5) m(1,2,3) b q fresh_page_ok [OF l D(1)] _ _ pb'])
      (use disk D(3) acquire_ok(4) [OF l] in auto)
  moreover note view = pb_install_view [OF inv i T0(1,2,4) bT0 m(4) m(3) pb']
  moreover have "pb_used B pb' = pb_used B pb" using m(2) by (simp add: pb_used_def pb')
  moreover have "pb_held pb b = Unlocked" using pb_view_None [OF T] by simp
  moreover have "b \<notin> pb_modified B pb'" if "\<not> skipLoad"
    using view(1,2) disk [OF that] by (simp add: pb_modified_def pb_disk_def pb')
  ultimately show ?thesis using D(2) l by (auto simp: pin_post_def pb_used_def)
qed

lemma pin_free_ok:
  assumes inv: "pb_inv B N pb" and b: "b \<in> sm_used B (segmentManager pb)"
    and T: "map_of (pageTable pb) b = None" "length (pageTable pb) < N"
    and slot: "slot (freeSlots pb) \<in> freeSlots pb"
    and skip: "skip_ok exclusive skipLoad mf"
    and d: "pb_content B pb b = Inr d"
  shows "\<exists>i pb'. pin_free B slot exclusive skipLoad mf True b pb = Inr (Pinned i, pb') \<and>
           pin_post B N (decide exclusive mf d b) skipLoad b pb i pb'"
proof -
  define i where "i = slot (freeSlots pb)"
  have i: "i \<in> freeSlots pb" using slot by (simp add: i_def)
  note fi = free_slot_ok [OF inv i]
  have len: "length (pages pb) = N" by (rule pb_invD(2) [OF inv])
  define D where "D = (if skipLoad then pdata (pages pb ! i) else d)"
  have disk: "sm_readBlock B (segmentManager pb) b = Inr d" using d pb_view_None [OF T(1)] by simp
  have D: "length D = B" using fi(2) disk pb_disk_ok [OF inv b] by (auto simp: D_def page_ok_def)
  have dec: "decide exclusive mf D b = decide exclusive mf d b"
    using skip by (auto simp: D_def skip_ok_def decide_def)
  obtain l where l: "acquire (decide exclusive mf D b) Unlocked = Inr l"
    by (simp add: acquire_cases)
  define pb1 where "pb1 = set_page i (\<lambda>p. p\<lparr>pins := 1, pid := b, pdirty := False\<rparr>)
      (pb\<lparr>freeSlots := freeSlots pb - {i}, pageTable := AList.update b i (pageTable pb),
          fifoQueue := q_insert (fifoQueue pb) b i\<rparr>)"
  let ?p = "\<lparr>pdata = D, pid = b, plock = l, pins = 1, pdirty = False\<rparr>"
  define pb' where "pb' = pb1\<lparr>pages := (pages pb1)[i := ?p]\<rparr>"
  have run: "pin_free B slot exclusive skipLoad mf True b pb = Inr (Pinned i, pb')"
  proof -
    have "bindE (if skipLoad then Inr pb1
                else bindE (instant_lock True i pb1) (\<lambda>_. loadPage B b i pb1))
           (\<lambda>pb2. lock_page exclusive mf i pb2) = Inr (Pinned i, pb')"
      unfolding pb'_def
      by (rule load_and_lock [where d = d]) (use fi len disk l in \<open>simp_all add: pb1_def D_def\<close>)
    moreover have "freeSlots pb \<noteq> {}" using i by auto
    ultimately show ?thesis
      unfolding pin_free_def Let_def i_def [symmetric] pb1_def [symmetric]
      using T(1) fi(4) by (simp del: bindE_eq_Inr)
  qed
  have eq: "pb' = \<lparr>segmentManager = segmentManager pb, pages = (pages pb)[i := ?p],
      pageTable = pageTable pb @ [(b, i)], freeSlots = freeSlots pb - {i},
      fifoQueue = q_insert (fifoQueue pb) b i, lruQueue = lruQueue pb\<rparr>"
    using update_notin [OF not_queued(1) [OF inv T(1)], of i]
    by (simp add: pb'_def pb1_def set_page_def)
  note ins = fifo.insert_set [OF pb_invD(10) [OF inv] not_queued(2) [OF inv T(1)], of i]
  have free: "{..<N} - snd ` set (pageTable pb) = insert i (freeSlots pb)"
    using pb_invD(6) [OF inv] i by auto
  have q: "set (getList (q_insert (fifoQueue pb) b i)) \<union> set (getList (lruQueue pb)) =
        insert (b, i) (set (pageTable pb))"
      "set (getList (q_insert (fifoQueue pb) b i)) \<inter> set (getList (lruQueue pb)) = {}"
  proof -
    have "(b, i) \<notin> set (getList (lruQueue pb))" using not_queued(3) [OF inv T(1)] by force
    then show "set (getList (q_insert (fifoQueue pb) b i)) \<union> set (getList (lruQueue pb)) =
        insert (b, i) (set (pageTable pb))"
      "set (getList (q_insert (fifoQueue pb) b i)) \<inter> set (getList (lruQueue pb)) = {}"
      using ins(2) pb_invD(12,13) [OF inv] by auto
  qed
  have other: "sm_readBlock B (segmentManager pb) c = pb_content B pb c \<and> pb_held pb c = Unlocked"
    if "c \<notin> fst ` set (pageTable pb)" for c
    using pb_view_None [of pb c] that by (simp add: map_of_eq_None_iff)
  have "pin_post B N (decide exclusive mf d b) skipLoad b pb i pb'"
    by (rule pin_post_install [OF inv fi(1) T(1) subset_refl pb_invD(3,4) [OF inv] fi(5) free
          pb_invD(1) [OF inv] refl _ other b ins(1) pb_invD(11) [OF inv] q D _ _ _ eq])
      (use d skip l dec in \<open>auto simp: pb_disk_def D_def skip_ok_def decide_def\<close>)
  then show ?thesis using run by blast
qed

text \<open>Saving a victim: its block gets its bytes, every other block keeps what it has.\<close>

lemma evict_save_ok:
  assumes inv: "pb_inv B N pb" and k: "map_of (pageTable pb) k = Some i" and "pins (pages pb ! i) = 0"
  shows "\<exists>m. evict_save B i pb = Inr (pb\<lparr>segmentManager := m,
            pages := (pages pb)[i := (pages pb ! i)\<lparr>pins := 1, pdirty := False\<rparr>]\<rparr>) \<and>
          sm_inv B m \<and> sm_used B m = sm_used B (segmentManager pb) \<and>
          sm_readBlock B m k = Inr (pdata (pages pb ! i)) \<and>
          (\<forall>c \<in> sm_used B (segmentManager pb) - {k}. sm_readBlock B m c = pb_disk B pb c)"
proof -
  let ?p = "pages pb ! i"
  note t = table_index [OF inv k]
  have len: "i < length (pages pb)" using t(2) pb_invD(2) [OF inv] by simp
  have l: "plock ?p = Unlocked" using t(3) assms(3) by (auto simp: page_ok_def holders_zero [symmetric])
  have id: "pid ?p = k" "k \<in> sm_used B (segmentManager pb)" using t(4) by (auto simp: loaded_ok_def)
  show ?thesis
  proof (cases "pdirty ?p")
    case True
    obtain m where m: "sm_writeBlock B (segmentManager pb) k (pdata ?p) = Inr m" "sm_inv B m"
        "sm_used B m = sm_used B (segmentManager pb)" "sm_readBlock B m k = Inr (pdata ?p)"
        "\<forall>c \<in> sm_used B (segmentManager pb) - {k}. sm_readBlock B m c = sm_readBlock B (segmentManager pb) c"
      using sm.write_law [OF pb_invD(1) [OF inv] id(2), of "pdata ?p"] t(3)
      by (auto simp: page_ok_def)
    have "evict_save B i pb = Inr (pb\<lparr>segmentManager := m,
            pages := (pages pb)[i := ?p\<lparr>pins := 1, pdirty := False\<rparr>]\<rparr>)"
      using True len m(1) l assms(3) id(1)
      by (simp add: evict_save_def set_page_def instant_lock_def savePage_def)
    then show ?thesis using m by (auto simp: pb_disk_def)
  next
    case False
    have "evict_save B i pb = Inr (pb\<lparr>segmentManager := segmentManager pb,
            pages := (pages pb)[i := ?p\<lparr>pins := 1, pdirty := False\<rparr>]\<rparr>)"
      using False len assms(3)
      by (simp add: evict_save_def set_page_def) (cases ?p; simp)
    moreover have "pb_disk B pb k = Inr (pdata ?p)" using t(4) False l by (simp add: loaded_ok_def)
    ultimately show ?thesis using pb_invD(1) [OF inv]
      by (intro exI [of _ "segmentManager pb"]) (simp add: pb_disk_def)
  qed
qed

lemma evict_reuse_ok:
  assumes inv: "pb_inv B N pb" and b: "b \<in> sm_used B (segmentManager pb)"
    and T: "map_of (pageTable pb) b = None"
    and k: "map_of (pageTable pb) k = Some i" "pins (pages pb ! i) = 0"
    and m: "sm_inv B m" "sm_used B m = sm_used B (segmentManager pb)"
      "sm_readBlock B m k = Inr (pdata (pages pb ! i))"
      "\<forall>c \<in> sm_used B (segmentManager pb) - {k}. sm_readBlock B m c = pb_disk B pb c"
    and q: "q_inv F" "q_inv L" "set (getList F) \<union> set (getList L) = set (pageTable pb) - {(k, i)}"
      "set (getList F) \<inter> set (getList L) = {}"
    and pb1: "pb1 = pb\<lparr>segmentManager := m,
      pages := (pages pb)[i := (pages pb ! i)\<lparr>pins := 1, pdirty := False\<rparr>],
      pageTable := AList.delete k (pageTable pb), fifoQueue := F, lruQueue := L\<rparr>"
    and skip: "skip_ok exclusive skipLoad mf"
    and d: "pb_content B pb b = Inr d"
  shows "\<exists>pb'. evict_reuse B exclusive skipLoad mf b i pb1 = Inr (Pinned i, pb') \<and>
           pin_post B N (decide exclusive mf d b) skipLoad b pb i pb'"
proof -
  let ?T0 = "AList.delete k (pageTable pb)"
  note t = table_index [OF inv k(1)]
  have len: "length (pages pb) = N" by (rule pb_invD(2) [OF inv])
  have bk: "b \<noteq> k" using T k(1) by auto
  define D where "D = (if skipLoad then pdata (pages pb ! i) else d)"
  have disk: "sm_readBlock B m b = Inr d" using d pb_view_None [OF T] m(4) b bk by (simp add: pb_disk_def)
  have D: "length D = B" using t(3) d pb_view_None [OF T] pb_disk_ok [OF inv b]
    by (auto simp: D_def page_ok_def)
  have dec: "decide exclusive mf D b = decide exclusive mf d b"
    using skip by (auto simp: D_def skip_ok_def decide_def)
  obtain l where l: "acquire (decide exclusive mf D b) Unlocked = Inr l"
    by (simp add: acquire_cases)
  have T0: "set ?T0 = set (pageTable pb) - {(k, i)}" "distinct (map fst ?T0)" "distinct (map snd ?T0)"
  proof -
    show "set ?T0 = set (pageTable pb) - {(k, i)}"
      using set_filter_key [OF pb_invD(3) [OF inv] t(1)] by (simp add: AList.delete_eq split_def eq_commute)
    show "distinct (map fst ?T0)" using pb_invD(3) [OF inv] by (rule distinct_delete)
    show "distinct (map snd ?T0)" using pb_invD(4) [OF inv] by (simp add: AList.delete_eq split_def distinct_map_filter)
  qed
  have iT0: "i \<notin> snd ` set ?T0"
  proof
    assume "i \<in> snd ` set ?T0"
    then obtain c where "(c, i) \<in> set (pageTable pb)" "(c, i) \<noteq> (k, i)" using T0(1) by force
    then show False using table_index_inj [OF inv k(1)] in_table_iff [OF inv] by blast
  qed
  have free: "{..<N} - snd ` set ?T0 = insert i (freeSlots pb)"
  proof -
    have "snd ` set (pageTable pb) = insert i (snd ` set ?T0)" using T0(1) t(1) by force
    then show ?thesis using pb_invD(6) [OF inv] t(2) iT0 by auto
  qed
  have bT0: "b \<notin> fst ` set ?T0" using T T0(1) by (force simp: map_of_eq_None_iff)
  define pb2 where "pb2 = set_page i (\<lambda>p. p\<lparr>pid := b, pdirty := False\<rparr>)
      (pb1\<lparr>pageTable := AList.update b i (pageTable pb1), fifoQueue := q_insert (fifoQueue pb1) b i\<rparr>)"
  let ?p = "\<lparr>pdata = D, pid = b, plock = l, pins = 1, pdirty = False\<rparr>"
  define pb' where "pb' = pb2\<lparr>pages := (pages pb2)[i := ?p]\<rparr>"
  have ul: "plock (pages pb ! i) = Unlocked" using t(3) k(2) by (auto simp: page_ok_def holders_zero [symmetric])
  have "evict_reuse B exclusive skipLoad mf b i pb1 = Inr (Pinned i, pb')"
    unfolding evict_reuse_def Let_def pb2_def [symmetric] pb'_def
    by (rule load_and_lock [where d = d])
      (use t(2) len disk l ul in \<open>simp_all add: pb2_def pb1 D_def\<close>)
  moreover have eq: "pb' = \<lparr>segmentManager = m, pages = (pages pb)[i := ?p],
      pageTable = ?T0 @ [(b, i)], freeSlots = freeSlots pb - {i},
      fifoQueue = q_insert F b i, lruQueue = L\<rparr>"
  proof -
    have "freeSlots pb - {i} = freeSlots pb" using pb_invD(6) [OF inv] t(1) by force
    then show ?thesis
      using update_notin [OF bT0, of i] by (simp add: pb'_def pb2_def pb1 set_page_def)
  qed
  moreover have "pin_post B N (decide exclusive mf d b) skipLoad b pb i pb'"
  proof -
    have bq: "b \<notin> fst ` set (getList F)" "(b, i) \<notin> set (getList L)"
      using not_queued(1) [OF inv T] q(3) by force+
    note ins = fifo.insert_set [OF q(1) bq(1), of i]
    have q': "set (getList (q_insert F b i)) \<union> set (getList L) = insert (b, i) (set ?T0)"
        "set (getList (q_insert F b i)) \<inter> set (getList L) = {}"
      using ins(2) q(3,4) bq(2) T0(1) by auto
    have other: "sm_readBlock B m c = pb_content B pb c \<and> pb_held pb c = Unlocked"
      if "c \<notin> fst ` set ?T0" "c \<in> sm_used B (segmentManager pb)" for c
    proof (cases "c = k")
      case True
      then show ?thesis using m(3) k ul by (simp add: pb_content_def pb_held_def)
    next
      case False
      then have "c \<notin> fst ` set (pageTable pb)" using that(1) T0(1) by force
      then have "map_of (pageTable pb) c = None" by (simp add: map_of_eq_None_iff)
      then show ?thesis using pb_view_None m(4) that(2) False by (simp add: pb_disk_def)
    qed
    have rest: "sm_readBlock B m c = pb_disk B pb c" if "(c, j) \<in> set ?T0" for c j
    proof -
      have "(c, j) \<in> set (pageTable pb)" "(c, j) \<noteq> (k, i)" using that T0(1) by auto
      then have "c \<noteq> k" "c \<in> sm_used B (segmentManager pb)"
        using in_table_iff [OF inv] k(1) pb_invD(9) [OF inv, of c j] by (auto simp: loaded_ok_def)
      then show ?thesis using m(4) by simp
    qed
    show ?thesis
      by (rule pin_post_install [OF inv t(2) T _ T0(2,3) iT0 free m(1,2) rest other b ins(1) q(2)
            q' D _ _ _ eq])
        (use T0(1) d skip l dec in \<open>auto simp: D_def skip_ok_def decide_def\<close>)
  qed
  ultimately show ?thesis by blast
qed

text \<open>The two eviction branches, when the queue yields a victim.\<close>

lemma pin_evict_fifo_ok:
  assumes inv: "pb_inv B N pb" and b: "b \<in> sm_used B (segmentManager pb)"
    and T: "map_of (pageTable pb) b = None"
    and key: "findOne (fifoQueue pb) (no_pins pb) = Some key"
    and skip: "skip_ok exclusive skipLoad mf" and d: "pb_content B pb b = Inr d"
  shows "\<exists>i pb'. pin_evict_fifo B exclusive skipLoad mf b key pb = Inr (Pinned i, pb') \<and>
           pin_post B N (decide exclusive mf d b) skipLoad b pb i pb'"
proof -
  obtain i q' where v: "(key, i) \<in> set (getList (fifoQueue pb))" "no_pins pb i"
      "q_contains (fifoQueue pb) key" "fifo_find (fifoQueue pb) key False = Inr (i, fifoQueue pb)"
      "q_remove (fifoQueue pb) key = Inr ((key, i), q')" "q_inv q'"
      "set (getList q') = set (getList (fifoQueue pb)) - {(key, i)}"
    using fifo.victim_law [OF pb_invD(10) [OF inv] key] by blast
  have k: "map_of (pageTable pb) key = Some i"
    using in_table_iff [OF inv] pb_invD(12) [OF inv] v(1) by blast
  have pins: "pins (pages pb ! i) = 0" using v(2) by (simp add: no_pins_def)
  obtain m where m: "evict_save B i pb = Inr (pb\<lparr>segmentManager := m,
            pages := (pages pb)[i := (pages pb ! i)\<lparr>pins := 1, pdirty := False\<rparr>]\<rparr>)"
      "sm_inv B m" "sm_used B m = sm_used B (segmentManager pb)"
      "sm_readBlock B m key = Inr (pdata (pages pb ! i))"
      "\<forall>c \<in> sm_used B (segmentManager pb) - {key}. sm_readBlock B m c = pb_disk B pb c"
    using evict_save_ok [OF inv k pins] by blast
  have q: "set (getList q') \<union> set (getList (lruQueue pb)) = set (pageTable pb) - {(key, i)}"
      "set (getList q') \<inter> set (getList (lruQueue pb)) = {}"
    using v(1,7) pb_invD(12,13) [OF inv] by blast+
  have i: "i < length (pages pb)" using table_index(2) [OF inv k] pb_invD(2) [OF inv] by simp
  note re = evict_reuse_ok [OF inv b T k pins m(2-5) v(6) pb_invD(11) [OF inv] q refl skip d]
  from this obtain pb' where pb': "evict_reuse B exclusive skipLoad mf b i (pb\<lparr>segmentManager := m,
      pages := (pages pb)[i := (pages pb ! i)\<lparr>pins := 1, pdirty := False\<rparr>],
      pageTable := AList.delete key (pageTable pb), fifoQueue := q'\<rparr>) = Inr (Pinned i, pb')"
      "pin_post B N (decide exclusive mf d b) skipLoad b pb i pb'"
    by auto
  have "pin_evict_fifo B exclusive skipLoad mf b key pb = Inr (Pinned i, pb')"
    using m(1) v T i pb'(1)
    by (simp add: pin_evict_fifo_def evict_usable_def del: bindE_eq_Inr One_nat_def)
  then show ?thesis using pb'(2) by blast
qed

lemma pin_evict_lru_ok:
  assumes inv: "pb_inv B N pb" and b: "b \<in> sm_used B (segmentManager pb)"
    and T: "map_of (pageTable pb) b = None"
    and key: "findOne (lruQueue pb) (no_pins pb) = Some key"
    and skip: "skip_ok exclusive skipLoad mf" and d: "pb_content B pb b = Inr d"
  shows "\<exists>i pb'. pin_evict_lru B exclusive skipLoad mf b key pb = Inr (Pinned i, pb') \<and>
           pin_post B N (decide exclusive mf d b) skipLoad b pb i pb'"
proof -
  obtain i q' where v: "(key, i) \<in> set (getList (lruQueue pb))" "no_pins pb i"
      "q_contains (lruQueue pb) key" "lru_find (lruQueue pb) key False = Inr (i, lruQueue pb)"
      "q_remove (lruQueue pb) key = Inr ((key, i), q')" "q_inv q'"
      "set (getList q') = set (getList (lruQueue pb)) - {(key, i)}"
    using lru.victim_law [OF pb_invD(11) [OF inv] key] by blast
  have k: "map_of (pageTable pb) key = Some i"
    using in_table_iff [OF inv] pb_invD(12) [OF inv] v(1) by blast
  have pins: "pins (pages pb ! i) = 0" using v(2) by (simp add: no_pins_def)
  obtain m where m: "evict_save B i pb = Inr (pb\<lparr>segmentManager := m,
            pages := (pages pb)[i := (pages pb ! i)\<lparr>pins := 1, pdirty := False\<rparr>]\<rparr>)"
      "sm_inv B m" "sm_used B m = sm_used B (segmentManager pb)"
      "sm_readBlock B m key = Inr (pdata (pages pb ! i))"
      "\<forall>c \<in> sm_used B (segmentManager pb) - {key}. sm_readBlock B m c = pb_disk B pb c"
    using evict_save_ok [OF inv k pins] by blast
  have q: "set (getList (fifoQueue pb)) \<union> set (getList q') = set (pageTable pb) - {(key, i)}"
      "set (getList (fifoQueue pb)) \<inter> set (getList q') = {}"
    using v(1,7) pb_invD(12,13) [OF inv] by blast+
  have i: "i < length (pages pb)" using table_index(2) [OF inv k] pb_invD(2) [OF inv] by simp
  note re = evict_reuse_ok [OF inv b T k pins m(2-5) pb_invD(10) [OF inv] v(6) q refl skip d]
  from this obtain pb' where pb': "evict_reuse B exclusive skipLoad mf b i (pb\<lparr>segmentManager := m,
      pages := (pages pb)[i := (pages pb ! i)\<lparr>pins := 1, pdirty := False\<rparr>],
      pageTable := AList.delete key (pageTable pb), lruQueue := q'\<rparr>) = Inr (Pinned i, pb')"
      "pin_post B N (decide exclusive mf d b) skipLoad b pb i pb'"
    by auto
  have "pin_evict_lru B exclusive skipLoad mf b key pb = Inr (Pinned i, pb')"
    using m(1) v T i pb'(1)
    by (simp add: pin_evict_lru_def evict_usable_def del: bindE_eq_Inr One_nat_def)
  then show ?thesis using pb'(2) by blast
qed

text \<open>Changing one loaded page (and reordering the queues): pinning it again, unpinning, writing.\<close>

lemma pb_update_page:
  assumes inv: "pb_inv B N pb" and k: "map_of (pageTable pb) b = Some i"
    and p: "page_ok B p" "pid p = b"
      "\<not> pdirty p \<and> plock p \<noteq> Exclusive \<longrightarrow> pb_disk B pb b = Inr (pdata p)"
    and q: "q_inv F" "q_inv L" "set (getList F) \<union> set (getList L) = set (pageTable pb)"
      "set (getList F) \<inter> set (getList L) = {}"
    and pb': "pb' = pb\<lparr>pages := (pages pb)[i := p], fifoQueue := F, lruQueue := L\<rparr>"
  shows "pb_inv B N pb'" "pb_used B pb' = pb_used B pb" "pageTable pb' = pageTable pb"
    "pages pb' ! i = p" "pb_content B pb' b = Inr (pdata p)" "pb_held pb' b = plock p"
    "b \<in> pb_modified B pb' \<longleftrightarrow> \<not> pdirty p \<and> pb_disk B pb b \<noteq> Inr (pdata p)"
    "c \<noteq> b \<Longrightarrow> pb_content B pb' c = pb_content B pb c \<and> pb_held pb' c = pb_held pb c \<and>
       (c \<in> pb_modified B pb' \<longleftrightarrow> c \<in> pb_modified B pb)"
proof -
  note t = table_index [OF inv k]
  have len: "length (pages pb) = N" by (rule pb_invD(2) [OF inv])
  have other: "pages pb' ! j = pages pb ! j" if "j \<noteq> i" for j using that by (simp add: pb')
  show pi: "pages pb' ! i = p" using t(2) len by (simp add: pb')
  show tab: "pageTable pb' = pageTable pb" by (simp add: pb')
  show "pb_used B pb' = pb_used B pb" by (simp add: pb' pb_used_def)
  have disk: "pb_disk B pb' c = pb_disk B pb c" for c by (simp add: pb_disk_def pb')
  show "pb_content B pb' b = Inr (pdata p)" "pb_held pb' b = plock p"
    using k pi tab by (simp_all add: pb_content_def pb_held_def)
  show "b \<in> pb_modified B pb' \<longleftrightarrow> \<not> pdirty p \<and> pb_disk B pb b \<noteq> Inr (pdata p)"
    using k pi tab disk by (simp add: pb_modified_def)
  show "c \<noteq> b \<Longrightarrow> pb_content B pb' c = pb_content B pb c \<and> pb_held pb' c = pb_held pb c \<and>
       (c \<in> pb_modified B pb' \<longleftrightarrow> c \<in> pb_modified B pb)"
  proof (cases "map_of (pageTable pb) c")
    case None
    then show ?thesis using tab disk by (simp add: pb_content_def pb_held_def pb_modified_def)
  next
    case (Some j)
    assume "c \<noteq> b"
    then have "j \<noteq> i" using table_index_inj [OF inv k] Some by blast
    then show ?thesis using Some tab disk other
      by (simp add: pb_content_def pb_held_def pb_modified_def)
  qed
  show "pb_inv B N pb'"
  proof (rule pb_invI)
    show "sm_inv B (segmentManager pb')" "length (pages pb') = N" "q_inv (fifoQueue pb')"
        "q_inv (lruQueue pb')" "distinct (map fst (pageTable pb'))" "distinct (map snd (pageTable pb'))"
        "snd ` set (pageTable pb') \<subseteq> {..<N}" "freeSlots pb' = {..<N} - snd ` set (pageTable pb')"
        "set (getList (fifoQueue pb')) \<union> set (getList (lruQueue pb')) = set (pageTable pb')"
        "set (getList (fifoQueue pb')) \<inter> set (getList (lruQueue pb')) = {}"
      using pb_invD [OF inv] q by (simp_all add: pb')
    show "page_ok B r" if "r \<in> set (pages pb')" for r
      using that pb_invD(7) [OF inv] p(1) set_update_subset_insert [of "pages pb" i p]
      by (auto simp: pb')
    show "plock (pages pb' ! j) = Unlocked" if "j \<in> freeSlots pb'" for j
    proof -
      have "j \<in> freeSlots pb" using that by (simp add: pb')
      moreover have "j \<noteq> i" using free_slot_ok(5) [OF inv calculation] t(1) by force
      ultimately show ?thesis using other pb_invD(8) [OF inv] by simp
    qed
    show "loaded_ok B pb' c j" if "(c, j) \<in> set (pageTable pb')" for c j
    proof (cases "c = b")
      case True
      then have "j = i" using that tab in_table_iff [OF inv] k by auto
      then show ?thesis using True pi p(2,3) t(4) disk by (simp add: loaded_ok_def pb')
    next
      case False
      then have "j \<noteq> i" using that tab in_table_iff [OF inv] table_index_inj [OF inv k] by metis
      moreover have "loaded_ok B pb c j" using that tab pb_invD(9) [OF inv] by simp
      ultimately show ?thesis using other disk by (simp add: loaded_ok_def) (simp add: pb')
    qed
  qed
qed

text \<open>Touching the queues moves the entry of a loaded page to the front of the LRU queue.\<close>

lemma touch_queues_ok:
  assumes inv: "pb_inv B N pb" and k: "map_of (pageTable pb) b = Some i"
    and same: "fifoQueue pb1 = fifoQueue pb" "lruQueue pb1 = lruQueue pb"
  shows "\<exists>F L. touch_queues b i pb1 = Inr (pb1\<lparr>fifoQueue := F, lruQueue := L\<rparr>) \<and> q_inv F \<and> q_inv L \<and>
           set (getList F) \<union> set (getList L) = set (pageTable pb) \<and>
           set (getList F) \<inter> set (getList L) = {} \<and> (b, i) \<in> set (getList L)"
proof -
  note qi = pb_invD(10,11) [OF inv] and qs = pb_invD(12,13) [OF inv]
  note t = table_index(1) [OF inv k]
  have u: "c = i" if "(b, c) \<in> set (getList (fifoQueue pb)) \<union> set (getList (lruQueue pb))" for c
    using that qs(1) in_table_iff [OF inv] k by auto
  show ?thesis
  proof (cases "(b, i) \<in> set (getList (fifoQueue pb))")
    case True
    obtain F where F: "q_remove (fifoQueue pb) b = Inr ((b, i), F)" "q_inv F"
        "set (getList F) = set (getList (fifoQueue pb)) - {(b, i)}"
      using fifo.remove_set [OF qi(1) True] by blast
    have "b \<notin> fst ` set (getList (lruQueue pb))" using u True qs(2) by force
    note ins = lru.insert_set [OF qi(2) this, of i]
    have "q_contains (fifoQueue pb) b" using fifo.has_law [OF qi(1)] True by force
    then have "touch_queues b i pb1 =
        Inr (pb1\<lparr>fifoQueue := F, lruQueue := q_insert (lruQueue pb) b i\<rparr>)"
      using F(1) same by (simp add: touch_queues_def)
    moreover have "set (getList F) \<union> set (getList (q_insert (lruQueue pb) b i)) = set (pageTable pb)"
        "set (getList F) \<inter> set (getList (q_insert (lruQueue pb) b i)) = {}"
      using F(3) ins(2) qs True by auto
    ultimately show ?thesis using F(2) ins by blast
  next
    case False
    then have L: "(b, i) \<in> set (getList (lruQueue pb))" using t qs(1) by blast
    obtain L' where L': "lru_find (lruQueue pb) b True = Inr (i, L')" "q_inv L'"
        "set (getList L') = set (getList (lruQueue pb))"
      using lru.find_law [OF qi(2) L] by blast
    have "\<not> q_contains (fifoQueue pb) b" using fifo.has_law [OF qi(1)] False u by force
    moreover have "q_contains (lruQueue pb) b" using lru.has_law [OF qi(2)] L by force
    ultimately have "touch_queues b i pb1 = Inr (pb1\<lparr>fifoQueue := fifoQueue pb, lruQueue := L'\<rparr>)"
      using L'(1) same by (cases pb1) (simp add: touch_queues_def)
    then show ?thesis using L' qi(1) qs L by blast
  qed
qed

lemma pin_resident_ok:
  assumes inv: "pb_inv B N pb" and k: "map_of (pageTable pb) b = Some i"
    and tl: "tableLock \<or> pb_held pb b \<noteq> Unlocked"
    and d: "pb_content B pb b = Inr d"
    and free: "lock_free (decide exclusive mf d b) (pb_held pb b)"
  shows "\<exists>pb'. pin_resident exclusive mf tableLock b i pb = Inr (Pinned i, pb') \<and>
           pin_post B N (decide exclusive mf d b) skipLoad b pb i pb'"
proof -
  let ?p = "pages pb ! i"
  note t = table_index [OF inv k]
  have len: "i < length (pages pb)" using t(2) pb_invD(2) [OF inv] by simp
  have dp: "d = pdata ?p" "pb_held pb b = plock ?p" using d k by (simp_all add: pb_content_def pb_held_def)
  have id: "pid ?p = b" using t(4) by (simp add: loaded_ok_def)
  define e where "e = decide exclusive mf d b"
  obtain l where l: "acquire e (plock ?p) = Inr l" using free dp(2) by (simp add: acquire_cases e_def)
  define pb1 where "pb1 = set_page i (\<lambda>p. p\<lparr>pins := pins p + 1\<rparr>) pb"
  have n: "pins (pages pb1 ! i) = holders (plock ?p) + 1"
    using len t(3) by (simp add: pb1_def page_ok_def)
  obtain F L where FL: "q_inv F" "q_inv L" "set (getList F) \<union> set (getList L) = set (pageTable pb)"
      "set (getList F) \<inter> set (getList L) = {}"
      "(if pins (pages pb1 ! i) = 1 then touch_queues b i pb1 else Inr pb1) =
         Inr (pb1\<lparr>fifoQueue := F, lruQueue := L\<rparr>)"
  proof (cases "pins (pages pb1 ! i) = 1")
    case True
    obtain F L where "q_inv F" "q_inv L" "set (getList F) \<union> set (getList L) = set (pageTable pb)"
      "set (getList F) \<inter> set (getList L) = {}"
      "touch_queues b i pb1 = Inr (pb1\<lparr>fifoQueue := F, lruQueue := L\<rparr>)"
      using touch_queues_ok [OF inv k, of pb1] by (auto simp: pb1_def)
    then show ?thesis using that True by simp
  next
    case False
    have "pb1\<lparr>fifoQueue := fifoQueue pb, lruQueue := lruQueue pb\<rparr> = pb1"
      by (simp add: pb1_def set_page_def)
    then show ?thesis using that [OF pb_invD(10-13) [OF inv]] False by simp
  qed
  let ?p' = "?p\<lparr>pins := pins ?p + 1, plock := l\<rparr>"
  define pb' where "pb' = pb\<lparr>pages := (pages pb)[i := ?p'], fifoQueue := F, lruQueue := L\<rparr>"
  have "\<not> (pins (pages pb1 ! i) = 1 \<and> \<not> tableLock)"
    using tl n dp(2) t(3) holders_zero by (auto simp: page_ok_def)
  then have run: "pin_resident exclusive mf tableLock b i pb = Inr (Pinned i, pb')"
    unfolding pin_resident_def Let_def pb1_def [symmetric] FL(5) using n len l id dp(1)
    by (simp add: lock_page_def e_def [symmetric])
      (simp add: pb1_def pb'_def set_page_def e_def)
  have ok: "page_ok B ?p'" using t(3) acquire_ok [OF l] by (simp add: page_ok_def)
  have coh: "pb_disk B pb b = Inr (pdata ?p)" if "\<not> pdirty ?p" "plock ?p \<noteq> Exclusive"
    using t(4) that by (simp add: loaded_ok_def)
  have ne: "plock ?p \<noteq> Exclusive" using free dp(2) by (auto simp: lock_free_def)
  note up = pb_update_page [OF inv k ok _ _ FL(1-4) pb'_def]
  have coh': "\<not> pdirty ?p' \<and> plock ?p' \<noteq> Exclusive \<longrightarrow> pb_disk B pb b = Inr (pdata ?p')"
    using coh ne by simp
  have "pin_post B N e skipLoad b pb i pb'"
    using up [OF _ coh'] id l dp k coh ne unfolding pin_post_def by (auto simp: d)
  then show ?thesis using run by (auto simp: e_def)
qed

text \<open>A page that is not loaded finds room as long as fewer than \<open>N\<close> pages are pinned.\<close>

definition pb_pinned :: "page_buffer \<Rightarrow> block_id set" where
  "pb_pinned pb = {b. pb_held pb b \<noteq> Unlocked}"

lemma pinned_table:
  assumes "pb_inv B N pb"
  shows "pb_pinned pb = {b. \<exists>i. (b, i) \<in> set (pageTable pb) \<and> \<not> no_pins pb i}"
proof -
  have "plock (pages pb ! i) \<noteq> Unlocked \<longleftrightarrow> \<not> no_pins pb i" if "map_of (pageTable pb) b = Some i" for b i
    using table_index(3) [OF assms that] holders_zero by (auto simp: page_ok_def no_pins_def)
  then show ?thesis
    unfolding pb_pinned_def pb_held_def using in_table_iff [OF assms]
    by (auto split: option.splits)
qed

lemma finite_pinned: "pb_inv B N pb \<Longrightarrow> finite (pb_pinned pb)"
proof -
  assume "pb_inv B N pb"
  then have "pb_pinned pb \<subseteq> fst ` set (pageTable pb)" by (force simp: pinned_table)
  then show ?thesis using finite_surj by blast
qed

lemma pinned_card:
  assumes "pb_inv B N pb"
  shows "card (pb_pinned pb) \<le> length (pageTable pb)" "length (pageTable pb) \<le> N"
    "card (pb_pinned pb) = length (pageTable pb) \<Longrightarrow> pb_pinned pb = fst ` set (pageTable pb)"
proof -
  have sub: "pb_pinned pb \<subseteq> fst ` set (pageTable pb)" using pinned_table [OF assms] by force
  have card: "card (fst ` set (pageTable pb)) = length (pageTable pb)"
    using pb_invD(3) [OF assms] by (metis distinct_card length_map list.set_map)
  show "card (pb_pinned pb) \<le> length (pageTable pb)" using card_mono [OF _ sub] card by simp
  show "card (pb_pinned pb) = length (pageTable pb) \<Longrightarrow> pb_pinned pb = fst ` set (pageTable pb)"
    using card_subset_eq [OF _ sub] card by simp
  have "length (pageTable pb) = card (snd ` set (pageTable pb))"
    using pb_invD(4) [OF assms] by (metis distinct_card length_map list.set_map)
  also have "\<dots> \<le> card {..<N}" by (rule card_mono) (use pb_invD(5) [OF assms] in auto)
  finally show "length (pageTable pb) \<le> N" by simp
qed

lemma victim_exists:
  assumes inv: "pb_inv B N pb" and "card (pb_pinned pb) < N" "\<not> length (pageTable pb) < N"
  shows "findOne (fifoQueue pb) (no_pins pb) \<noteq> None \<or> findOne (lruQueue pb) (no_pins pb) \<noteq> None"
proof (rule ccontr)
  assume "\<not> ?thesis"
  then have "\<forall>(b, i) \<in> set (getList (fifoQueue pb)) \<union> set (getList (lruQueue pb)). \<not> no_pins pb i"
    using fifo.one_none [OF pb_invD(10) [OF inv], of "no_pins pb"]
      lru.one_none [OF pb_invD(11) [OF inv], of "no_pins pb"] by (simp add: ball_Un)
  then have "\<forall>(b, i) \<in> set (pageTable pb). \<not> no_pins pb i" by (simp only: pb_invD(12) [OF inv])
  then have "pb_pinned pb = fst ` set (pageTable pb)" unfolding pinned_table [OF inv] by force
  moreover have "card (fst ` set (pageTable pb)) = length (pageTable pb)"
    using pb_invD(3) [OF inv] by (metis distinct_card length_map list.set_map)
  ultimately show False using assms(2,3) by simp
qed

lemma pin_iteration_locked:
  assumes inv: "pb_inv B N pb" and b: "b \<in> pb_used B pb"
    and slot: "\<And>S. finite S \<Longrightarrow> S \<noteq> {} \<Longrightarrow> slot S \<in> S"
    and skip: "skip_ok exclusive skipLoad mf"
    and d: "pb_content B pb b = Inr d"
    and free: "lock_free (decide exclusive mf d b) (pb_held pb b)"
    and room: "b \<in> pb_pinned pb \<or> card (pb_pinned pb) < N"
  shows "\<exists>i pb'. pin_iteration B slot exclusive skipLoad mf True b pb = Inr (Pinned i, pb') \<and>
           pin_post B N (decide exclusive mf d b) skipLoad b pb i pb'"
proof (cases "map_of (pageTable pb) b")
  case (Some i)
  then show ?thesis using pin_resident_ok [OF inv Some _ d free, of True skipLoad]
    by (auto simp: pin_iteration_def)
next
  case None
  have bu: "b \<in> sm_used B (segmentManager pb)" using b by (simp add: pb_used_def)
  have room': "card (pb_pinned pb) < N" using room None by (auto simp: pb_pinned_def pb_held_def)
  have len: "length (pages pb) = N" by (rule pb_invD(2) [OF inv])
  show ?thesis
  proof (cases "length (pageTable pb) < N")
    case True
    then show ?thesis
      using pin_free_ok [where slot = slot, OF inv bu None True slot [OF finite_free_slots [OF inv] free_slots_exist [OF inv True]] skip d] None len
      by (simp add: pin_iteration_def)
  next
    case False
    show ?thesis
    proof (cases "findOne (fifoQueue pb) (no_pins pb)")
      case (Some key)
      then show ?thesis using pin_evict_fifo_ok [OF inv bu None Some skip d] None len False
        by (simp add: pin_iteration_def)
    next
      case fn: None
      then obtain key where key: "findOne (lruQueue pb) (no_pins pb) = Some key"
        using victim_exists [OF inv room' False] by auto
      show ?thesis using pin_evict_lru_ok [OF inv bu None key skip d] None len False fn key
        by (simp add: pin_iteration_def)
    qed
  qed
qed

text \<open>
  The first iteration, without the exclusive table lock, either does the same or changes
  nothing and asks for a second iteration with the lock.
\<close>

lemma pin_iteration_shared:
  assumes inv: "pb_inv B N pb"
  shows "pin_iteration B slot exclusive skipLoad mf False b pb =
           pin_iteration B slot exclusive skipLoad mf True b pb \<or>
         pin_iteration B slot exclusive skipLoad mf False b pb = Inr (Continue True, pb)"
proof (cases "map_of (pageTable pb) b")
  case (Some i)
  have i: "i < length (pages pb)" using table_index(2) [OF inv Some] pb_invD(2) [OF inv] by simp
  show ?thesis
  proof (cases "pins (pages pb ! i) = 0")
    case True
    have p: "(pages pb ! i)\<lparr>pins := 0\<rparr> = pages pb ! i" using True by (cases "pages pb ! i") simp
    have "(pages pb)[i := (pages pb ! i)\<lparr>pins := 0\<rparr>] = pages pb" unfolding p by simp
    then have "pin_resident exclusive mf False b i pb = Inr (Continue True, pb)"
      using i True by (simp add: pin_resident_def set_page_def)
    then show ?thesis using Some by (simp add: pin_iteration_def)
  next
    case False
    then have "pin_resident exclusive mf False b i pb = pin_resident exclusive mf True b i pb"
      using i by (simp add: pin_resident_def Let_def)
    then show ?thesis using Some by (simp add: pin_iteration_def)
  qed
next
  case None
  then show ?thesis by (auto simp: pin_iteration_def pin_free_def split: option.splits)
qed

lemma pb_pinPage_ok:
  assumes "pb_inv B N pb" "b \<in> pb_used B pb" "\<And>S. finite S \<Longrightarrow> S \<noteq> {} \<Longrightarrow> slot S \<in> S"
    "skip_ok exclusive skipLoad mf" "pb_content B pb b = Inr d"
    "lock_free (decide exclusive mf d b) (pb_held pb b)"
    "b \<in> pb_pinned pb \<or> card (pb_pinned pb) < N" "2 \<le> fuel"
  shows "\<exists>i pb'. pb_pinPage B slot fuel exclusive skipLoad mf b pb = Inr (i, pb') \<and>
           pin_post B N (decide exclusive mf d b) skipLoad b pb i pb'"
proof -
  define n where "n = fuel - 2"
  have n: "fuel = Suc (Suc n)" using assms(8) by (simp add: n_def)
  obtain i pb' where it: "pin_iteration B slot exclusive skipLoad mf True b pb = Inr (Pinned i, pb')"
      "pin_post B N (decide exclusive mf d b) skipLoad b pb i pb'"
    using pin_iteration_locked [OF assms(1-7)] by blast
  then have "pb_pinPage B slot fuel exclusive skipLoad mf b pb = Inr (i, pb')"
    using pin_iteration_shared [OF assms(1), of slot exclusive skipLoad mf b]
  proof (elim disjE)
    assume "pin_iteration B slot exclusive skipLoad mf False b pb =
      pin_iteration B slot exclusive skipLoad mf True b pb"
    then show ?thesis by (simp only: pb_pinPage_def n pin_loop.simps it(1) bindE.simps) simp
  next
    assume "pin_iteration B slot exclusive skipLoad mf False b pb = Inr (Continue True, pb)"
    then show ?thesis by (simp add: pb_pinPage_def n it(1) del: bindE_eq_Inr)
  qed
  then show ?thesis using it(2) by blast
qed

lemma pb_pinPage_full_ok:
  assumes inv: "pb_inv B N pb" and "b \<notin> pb_pinned pb" "card (pb_pinned pb) = N"
  shows "pb_pinPage B slot (Suc fuel) exclusive skipLoad mf b pb = Inl (Raise ''Buffer is full!'')"
proof -
  have eq: "length (pageTable pb) = N" "pb_pinned pb = fst ` set (pageTable pb)"
    using pinned_card [OF inv] assms(3) by auto
  then have None: "map_of (pageTable pb) b = None" using assms(2) by (simp add: map_of_eq_None_iff)
  have "\<not> no_pins pb i" if t: "(c, i) \<in> set (pageTable pb)" for c i
  proof -
    have "c \<in> pb_pinned pb" using eq(2) t by force
    then show ?thesis using t in_table_iff [OF inv] unfolding pinned_table [OF inv] by force
  qed
  then have "findOne (fifoQueue pb) (no_pins pb) = None" "findOne (lruQueue pb) (no_pins pb) = None"
    using pb_invD(12) [OF inv] by (auto simp: findOne_None)
  then show ?thesis using None eq(1) pb_invD(2) [OF inv]
    by (simp add: pb_pinPage_def pin_iteration_def raise_def)
qed

section \<open>Unpinning, writing, creating\<close>

lemma held_index:
  assumes "pb_inv B N pb" "pb_held pb b \<noteq> Unlocked"
  shows "\<exists>i. map_of (pageTable pb) b = Some i \<and> pb_held pb b = plock (pages pb ! i) \<and>
             pb_content B pb b = Inr (pdata (pages pb ! i))"
  using assms(2) by (auto simp: pb_held_def pb_content_def split: option.splits)

lemma pb_modified_held:
  assumes "pb_inv B N pb" "b \<in> pb_modified B pb"
  shows "pb_held pb b = Exclusive"
proof -
  obtain i where "map_of (pageTable pb) b = Some i" "\<not> pdirty (pages pb ! i)"
      "pb_disk B pb b \<noteq> Inr (pdata (pages pb ! i))"
    using assms(2) by (auto simp: pb_modified_def)
  then show ?thesis using table_index(4) [OF assms(1)] by (auto simp: loaded_ok_def pb_held_def)
qed

lemma pb_unpinPage_ok:
  assumes inv: "pb_inv B N pb" and h: "pb_held pb b \<noteq> Unlocked" "map_of (pageTable pb) b = Some i"
    and "dirty \<or> b \<notin> pb_modified B pb"
  shows "\<exists>pb'. pb_unpinPage i dirty pb = Inr pb' \<and> pb_inv B N pb' \<and> pb_used B pb' = pb_used B pb \<and>
           release (pb_held pb b) = Inr (pb_held pb' b) \<and>
           (\<forall>c. c \<noteq> b \<longrightarrow> pb_held pb' c = pb_held pb c) \<and>
           pb_modified B pb' \<subseteq> pb_modified B pb - {b} \<and>
           (\<forall>c. pb_content B pb' c = pb_content B pb c)"
proof -
  let ?p = "pages pb ! i"
  note t = table_index [OF inv h(2)]
  have len: "i < length (pages pb)" using t(2) pb_invD(2) [OF inv] by simp
  have pl: "pb_held pb b = plock ?p" "pb_content B pb b = Inr (pdata ?p)"
    using h(2) by (simp_all add: pb_held_def pb_content_def)
  obtain l where l: "release (plock ?p) = Inr l" "lock_ok l" "holders l = holders (plock ?p) - 1"
      "l \<noteq> Exclusive"
    using release_ok [of "plock ?p"] t(3) h(1) pl(1) by (auto simp: page_ok_def)
  have pins: "1 \<le> pins ?p" using t(3) h(1) pl(1) holders_zero by (auto simp: page_ok_def Suc_le_eq)
  let ?p' = "?p\<lparr>pdirty := (if dirty then True else pdirty ?p), plock := l, pins := pins ?p - 1\<rparr>"
  define pb' where "pb' = pb\<lparr>pages := (pages pb)[i := ?p'], fifoQueue := fifoQueue pb,
    lruQueue := lruQueue pb\<rparr>"
  have run: "pb_unpinPage i dirty pb = Inr pb'"
    using pins l(1) by (simp add: pb_unpinPage_def pb'_def set_page_def Let_def)
  have ok: "page_ok B ?p'" "pid ?p' = b" using t(3,4) l by (simp_all add: page_ok_def loaded_ok_def)
  have coh: "pb_disk B pb b = Inr (pdata ?p')" if "\<not> pdirty ?p'"
    using assms(4) that h(2) by (auto simp: pb_modified_def split: if_splits)
  have coh': "\<not> pdirty ?p' \<and> plock ?p' \<noteq> Exclusive \<longrightarrow> pb_disk B pb b = Inr (pdata ?p')"
    using coh by simp
  note up = pb_update_page [OF inv h(2) ok coh' pb_invD(10-13) [OF inv] pb'_def]
  have nb: "b \<notin> pb_modified B pb'" using up(7) coh by auto
  have "pb_modified B pb' \<subseteq> pb_modified B pb - {b}"
  proof
    fix c assume c: "c \<in> pb_modified B pb'"
    then have "c \<noteq> b" using nb by auto
    then show "c \<in> pb_modified B pb - {b}" using up(8) [of c] c by simp
  qed
  moreover have "pb_content B pb' c = pb_content B pb c" for c
    using up(5,8) pl(2) by (cases "c = b") simp_all
  moreover have "release (pb_held pb b) = Inr (pb_held pb' b)" using up(6) l(1) pl(1) by simp
  ultimately show ?thesis using run up(1,2,8) by auto
qed

lemma pb_write_ok:
  assumes inv: "pb_inv B N pb" and h: "pb_held pb b = Exclusive" "map_of (pageTable pb) b = Some i"
    and "length d = B"
  shows "\<exists>pb'. pb_write i d pb = Inr pb' \<and> pb_inv B N pb' \<and> pb_used B pb' = pb_used B pb \<and>
           pb_held pb' = pb_held pb \<and> pb_modified B pb' \<subseteq> insert b (pb_modified B pb) \<and>
           pb_content B pb' b = Inr d \<and> (\<forall>c. c \<noteq> b \<longrightarrow> pb_content B pb' c = pb_content B pb c)"
proof -
  let ?p = "pages pb ! i"
  note t = table_index [OF inv h(2)]
  have pl: "plock ?p = Exclusive" using h by (simp add: pb_held_def)
  define pb' where "pb' = pb\<lparr>pages := (pages pb)[i := ?p\<lparr>pdata := d\<rparr>], fifoQueue := fifoQueue pb,
    lruQueue := lruQueue pb\<rparr>"
  have run: "pb_write i d pb = Inr pb'" using pl by (simp add: pb_write_def pb'_def set_page_def)
  have ok: "page_ok B (?p\<lparr>pdata := d\<rparr>)" "pid (?p\<lparr>pdata := d\<rparr>) = b"
    using t(3,4) assms(4) by (simp_all add: page_ok_def loaded_ok_def)
  note up = pb_update_page [OF inv h(2) ok _ pb_invD(10-13) [OF inv] pb'_def]
  have "pb_held pb' c = pb_held pb c" for c
    using up(6,8) pl h(1) by (cases "c = b") simp_all
  then show ?thesis using run up(1,2,5,8) pl by auto
qed

lemma pb_createPage_ok:
  assumes inv: "pb_inv B N pb" and "sm_can_create grow pick (segmentManager pb)"
  shows "\<exists>b pb'. pb_createPage B grow pick pb = Inr (b, pb') \<and> pb_inv B N pb' \<and>
           b \<notin> pb_used B pb \<and> pb_used B pb' = insert b (pb_used B pb) \<and>
           pb_held pb' = pb_held pb \<and> pb_modified B pb' = pb_modified B pb \<and>
           (\<forall>c \<in> pb_used B pb. pb_content B pb' c = pb_content B pb c)"
proof -
  obtain b m where m: "sm_createBlock B grow pick (segmentManager pb) = Inr (b, m)" "sm_inv B m"
      "b \<notin> sm_used B (segmentManager pb)" "sm_used B m = insert b (sm_used B (segmentManager pb))"
      "\<forall>c \<in> sm_used B (segmentManager pb). sm_readBlock B m c = sm_readBlock B (segmentManager pb) c"
    using sm.create_law [OF pb_invD(1) [OF inv] assms(2)] by blast
  let ?pb = "pb\<lparr>segmentManager := m\<rparr>"
  have tu: "c \<in> sm_used B (segmentManager pb)" if "(c, i) \<in> set (pageTable pb)" for c i
    using pb_invD(9) [OF inv that] by (simp add: loaded_ok_def)
  have "pb_inv B N ?pb"
  proof (rule pb_invI)
    show "loaded_ok B ?pb c i" if t: "(c, i) \<in> set (pageTable ?pb)" for c i
    proof -
      have "(c, i) \<in> set (pageTable pb)" using t by simp
      then show ?thesis using pb_invD(9) [OF inv] m(4,5) tu by (simp add: loaded_ok_def pb_disk_def)
    qed
  qed (use pb_invD [OF inv] m(2) in simp_all)
  moreover have "pb_modified B ?pb = pb_modified B pb"
    using m(5) tu in_table_iff [OF inv] by (auto simp: pb_modified_def pb_disk_def)
  moreover have "pb_held ?pb = pb_held pb" by (rule ext) (simp add: pb_held_def split: option.split)
  moreover have "pb_content B ?pb c = pb_content B pb c" if "c \<in> pb_used B pb" for c
    using m(5) that by (simp add: pb_content_def pb_disk_def pb_used_def split: option.split)
  ultimately show ?thesis using m(1,3,4) by (auto simp: pb_createPage_def pb_used_def)
qed

section \<open>The buffer as a page pool\<close>

text \<open>
  The operations by page number: the reference that \<open>pinPage\<close> returns stands for the
  index of the page. \<open>pb_pin True\<close> pins a new page without loading it, \<open>pb_pin False f\<close>
  pins with a mode function.
\<close>

definition pb_pin ::
  "nat \<Rightarrow> (nat set \<Rightarrow> nat) \<Rightarrow> bool \<Rightarrow> (8 word list \<Rightarrow> bool) \<Rightarrow> block_id \<Rightarrow> page_buffer \<Rightarrow>
   page_buffer result" where
  "pb_pin B slot skipLoad f b pb =
     bindE (if skipLoad then pb_pinPage B slot 2 True True None b pb
            else pb_pinPage B slot 2 False False (Some (\<lambda>d _. f d)) b pb) (\<lambda>(i, pb'). Inr pb')"

definition page_index :: "block_id \<Rightarrow> page_buffer \<Rightarrow> nat result" where
  "page_index b pb = (case map_of (pageTable pb) b of None \<Rightarrow> Inl Undefined | Some i \<Rightarrow> Inr i)"

definition pb_get :: "block_id \<Rightarrow> page_buffer \<Rightarrow> 8 word list result" where
  "pb_get b pb = bindE (page_index b pb) (\<lambda>i. Inr (pdata (pages pb ! i)))"

definition pb_put :: "block_id \<Rightarrow> 8 word list \<Rightarrow> page_buffer \<Rightarrow> page_buffer result" where
  "pb_put b d pb = bindE (page_index b pb) (\<lambda>i. pb_write i d pb)"

definition pb_unpin :: "bool \<Rightarrow> block_id \<Rightarrow> page_buffer \<Rightarrow> page_buffer result" where
  "pb_unpin dirty b pb = bindE (page_index b pb) (\<lambda>i. pb_unpinPage i dirty pb)"

definition pool_inv :: "nat \<Rightarrow> nat \<Rightarrow> (nat set \<Rightarrow> nat) \<Rightarrow> page_buffer \<Rightarrow> bool" where
  "pool_inv B N slot pb \<longleftrightarrow> pb_inv B N pb \<and> (\<forall>S. finite S \<longrightarrow> S \<noteq> {} \<longrightarrow> slot S \<in> S)"

lemma pinned_pages_pb: "pinned_pages pb_held pb = pb_pinned pb"
  by (simp add: pinned_pages_def pb_pinned_def)

lemma pin_post_pool:
  assumes "pin_post B N e False b pb i pb'"
  shows "pb_inv B N pb'" "pb_used B pb' = pb_used B pb"
    "acquire e (pb_held pb b) = Inr (pb_held pb' b)"
    "\<forall>c \<in> pb_used B pb. pb_content B pb' c = pb_content B pb c"
  using assms by (auto simp: pin_post_def)

lemma held_used_pb:
  assumes "pb_inv B N pb" "pb_held pb b \<noteq> Unlocked"
  shows "b \<in> pb_used B pb"
  using held_index [OF assms] table_index(4) [OF assms(1)] by (auto simp: loaded_ok_def pb_used_def)

lemma pin_post_frame:
  assumes "pb_inv B N pb" "pin_post B N e skip b pb i pb'"
  shows "c \<noteq> b \<Longrightarrow> pb_held pb' c = pb_held pb c"
    "pb_modified B pb' \<subseteq> (if skip then insert b (pb_modified B pb) else pb_modified B pb)"
proof -
  note p = assms(2) [unfolded pin_post_def]
  have inv': "pb_inv B N pb'" "pb_used B pb' = pb_used B pb" using p by auto
  show "pb_held pb' c = pb_held pb c" if "c \<noteq> b"
  proof (cases "c \<in> pb_used B pb")
    case True
    then show ?thesis using p that by blast
  next
    case False
    then have "pb_held pb c = Unlocked" "pb_held pb' c = Unlocked"
      using held_used_pb [OF assms(1)] held_used_pb [OF inv'(1)] inv'(2) by blast+
    then show ?thesis by simp
  qed
  show "pb_modified B pb' \<subseteq> (if skip then insert b (pb_modified B pb) else pb_modified B pb)"
  proof
    fix c assume c: "c \<in> pb_modified B pb'"
    then have "pb_held pb' c = Exclusive" by (rule pb_modified_held [OF inv'(1)])
    then have "c \<in> pb_used B pb" using held_used_pb [OF inv'(1), of c] inv'(2) by simp
    then show "c \<in> (if skip then insert b (pb_modified B pb) else pb_modified B pb)"
      using p c by (cases "c = b") auto
  qed
qed

lemma pb_pin_ok:
  assumes "pb_inv B N pb" "\<And>S. finite S \<Longrightarrow> S \<noteq> {} \<Longrightarrow> slot S \<in> S" "b \<in> pb_used B pb"
    "pb_content B pb b = Inr d" "lock_free (f d) (pb_held pb b)"
    "b \<in> pb_pinned pb \<or> card (pb_pinned pb) < N"
  shows "\<exists>i pb'. pb_pin B slot False f b pb = Inr pb' \<and> pin_post B N (f d) False b pb i pb'"
proof -
  have "decide False (Some (\<lambda>d _. f d)) d b = f d" by (simp add: decide_def)
  then show ?thesis
    using pb_pinPage_ok [where slot = slot and exclusive = False and skipLoad = False and
        mf = "Some (\<lambda>d _. f d)", OF assms(1,3,2) _ assms(4) _ assms(6) order_refl] assms(5)
    by (auto simp: skip_ok_def pb_pin_def)
qed

lemma pb_pin_skip_ok:
  assumes "pb_inv B N pb" "\<And>S. finite S \<Longrightarrow> S \<noteq> {} \<Longrightarrow> slot S \<in> S" "b \<in> pb_used B pb"
    "pb_held pb b = Unlocked" "card (pb_pinned pb) < N"
  shows "\<exists>i pb'. pb_pin B slot True f b pb = Inr pb' \<and> pin_post B N True True b pb i pb'"
proof -
  obtain d where d: "pb_content B pb b = Inr d"
  proof (cases "map_of (pageTable pb) b")
    case None
    then show ?thesis
      using that pb_disk_ok [OF assms(1), of b] assms(3) pb_view_None by (auto simp: pb_used_def)
  next
    case (Some i)
    then show ?thesis using that by (simp add: pb_content_def)
  qed
  have "decide True None d b" by (simp add: decide_def)
  then show ?thesis
    using pb_pinPage_ok [where slot = slot and exclusive = True and skipLoad = True and
        mf = None, OF assms(1,3,2) _ d _ _ order_refl] assms(4,5)
    by (auto simp: skip_ok_def pb_pin_def)
qed

interpretation pool: page_pool "pool_inv B N slot" "pb_used B" "pb_content B" pb_held "pb_modified B"
  N "\<lambda>pb. sm_can_create grow pick (segmentManager pb)" "\<lambda>d. length d = B"
  "pb_createPage B grow pick" "pb_pin B slot" pb_get pb_put pb_unpin
  for B N slot grow pick
proof (unfold_locales, unfold pinned_pages_pb, goal_cases)
  case (1 s i)
  then have inv: "pb_inv B N s" by (simp add: pool_inv_def)
  show ?case
  proof (cases "map_of (pageTable s) i")
    case None
    then show ?thesis using pb_disk_ok [OF inv] 1(2) pb_view_None by (auto simp: pb_used_def)
  next
    case (Some j)
    then show ?thesis using table_index(3) [OF inv Some] by (simp add: pb_content_def page_ok_def)
  qed
next
  case (2 s i)
  then show ?case by (auto simp: pool_inv_def intro: held_used_pb)
next
  case (3 s i)
  then have inv: "pb_inv B N s" by (simp add: pool_inv_def)
  then show ?case using table_index(3) [OF inv]
    by (auto simp: pb_held_def page_ok_def split: option.split)
next
  case (4 s)
  then show ?case by (auto simp: pool_inv_def intro: finite_pinned)
next
  case (5 s i)
  then show ?case by (auto simp: pool_inv_def intro: pb_modified_held)
next
  case (6 s)
  then show ?case using pb_createPage_ok by (fastforce simp: pool_inv_def)
next
  case (7 s i d f)
  then have inv: "pb_inv B N s" and slot: "\<And>S. finite S \<Longrightarrow> S \<noteq> {} \<Longrightarrow> slot S \<in> S" by (auto simp: pool_inv_def)
  obtain j s' where p: "pb_pin B slot False f i s = Inr s'" "pin_post B N (f d) False i s j s'"
    using pb_pin_ok [where slot = slot and f = f, OF inv slot 7(2-4)] 7(5) by (auto simp: pb_pinned_def)
  show ?case using p(1) pin_post_pool [OF p(2)] pin_post_frame [OF inv p(2)] 7(1)
    by (auto simp: pool_inv_def)
next
  case (8 s i f)
  then have inv: "pb_inv B N s" and slot: "\<And>S. finite S \<Longrightarrow> S \<noteq> {} \<Longrightarrow> slot S \<in> S" by (auto simp: pool_inv_def)
  obtain j s' where p: "pb_pin B slot True f i s = Inr s'" "pin_post B N True True i s j s'"
    using pb_pin_skip_ok [where slot = slot and f = f, OF inv slot 8(2-4)] by blast
  have "pb_held s' i = Exclusive" using p(2) acquire_ok(4) by (auto simp: pin_post_def)
  then show ?case using p pin_post_frame [OF inv p(2)] 8(1)
    by (auto simp: pool_inv_def pin_post_def)
next
  case (9 s i skip f)
  then have "pb_inv B N s" "i \<notin> pb_pinned s" by (auto simp: pool_inv_def pb_pinned_def)
  from pb_pinPage_full_ok [OF this 9(4), of slot 1] show ?case
    by (simp add: pb_pin_def numeral_2_eq_2)
next
  case (10 s i)
  then show ?case using held_index by (fastforce simp: pool_inv_def pb_get_def page_index_def)
next
  case (11 s i d)
  then have inv: "pb_inv B N s" by (simp add: pool_inv_def)
  obtain j where j: "map_of (pageTable s) i = Some j" using held_index [OF inv, of i] 11(2) by auto
  show ?case using pb_write_ok [OF inv 11(2) j 11(3)] 11(1) j
    by (auto simp: pool_inv_def pb_put_def page_index_def)
next
  case (12 s i dirty)
  then have inv: "pb_inv B N s" by (simp add: pool_inv_def)
  obtain j where j: "map_of (pageTable s) i = Some j" using held_index [OF inv, of i] 12(2) by auto
  show ?case using pb_unpinPage_ok [OF inv 12(2) j 12(3)] 12(1) j
    by (auto simp: pool_inv_def pb_unpin_def page_index_def)
qed

section \<open>Flushing\<close>

lemma savePage_ok:
  assumes inv: "pb_inv B N pb" and i: "i < N" "i \<notin> freeSlots pb"
  shows "\<exists>b m. map_of (pageTable pb) b = Some i \<and> savePage B i pb = Inr (pb\<lparr>segmentManager := m\<rparr>) \<and>
           pb_inv B N (pb\<lparr>segmentManager := m\<rparr>) \<and> sm_used B m = sm_used B (segmentManager pb) \<and>
           sm_readBlock B m b = Inr (pdata (pages pb ! i)) \<and>
           (\<forall>c \<in> sm_used B (segmentManager pb) - {b}. sm_readBlock B m c = pb_disk B pb c)"
proof -
  obtain b where "(b, i) \<in> set (pageTable pb)" using i pb_invD(6) [OF inv] by force
  then have b: "map_of (pageTable pb) b = Some i" using in_table_iff [OF inv] by simp
  note t = table_index [OF inv b]
  have id: "pid (pages pb ! i) = b" "b \<in> sm_used B (segmentManager pb)"
    using t(4) by (auto simp: loaded_ok_def)
  obtain m where m: "sm_writeBlock B (segmentManager pb) b (pdata (pages pb ! i)) = Inr m" "sm_inv B m"
      "sm_used B m = sm_used B (segmentManager pb)" "sm_readBlock B m b = Inr (pdata (pages pb ! i))"
      "\<forall>c \<in> sm_used B (segmentManager pb) - {b}. sm_readBlock B m c = sm_readBlock B (segmentManager pb) c"
    using sm.write_law [OF pb_invD(1) [OF inv] id(2), of "pdata (pages pb ! i)"] t(3)
    by (auto simp: page_ok_def)
  have "pb_inv B N (pb\<lparr>segmentManager := m\<rparr>)"
  proof (rule pb_invI)
    fix c j assume "(c, j) \<in> set (pageTable (pb\<lparr>segmentManager := m\<rparr>))"
    then have c: "(c, j) \<in> set (pageTable pb)" by simp
    note l = pb_invD(9) [OF inv c, unfolded loaded_ok_def]
    show "loaded_ok B (pb\<lparr>segmentManager := m\<rparr>) c j"
    proof (cases "c = b")
      case True
      then have "j = i" using c b in_table_iff [OF inv] by simp
      then show ?thesis using l m(3,4) True by (simp add: loaded_ok_def pb_disk_def)
    next
      case False
      then show ?thesis using l m(3,5) by (simp add: loaded_ok_def pb_disk_def)
    qed
  qed (use pb_invD [OF inv] m(2) in simp_all)
  then show ?thesis using b m id(1) by (auto simp: savePage_def pb_disk_def)
qed

text \<open>After the loop the blocks of the dirty pages seen have the bytes of the pages.\<close>

definition saved :: "nat \<Rightarrow> page_buffer \<Rightarrow> nat set \<Rightarrow> block_id \<Rightarrow> 8 word list result" where
  "saved B pb is b =
     (case map_of (pageTable pb) b of
        Some i \<Rightarrow> if i \<in> is \<and> pdirty (pages pb ! i) then Inr (pdata (pages pb ! i)) else pb_disk B pb b
      | None \<Rightarrow> pb_disk B pb b)"

lemma flush_pages_ok:
  assumes "pb_inv B N pb" "set is \<subseteq> {..<N}"
  shows "\<exists>m. flush_pages B is pb = Inr (pb\<lparr>segmentManager := m\<rparr>) \<and>
           pb_inv B N (pb\<lparr>segmentManager := m\<rparr>) \<and> sm_used B m = sm_used B (segmentManager pb) \<and>
           (\<forall>c \<in> sm_used B (segmentManager pb). sm_readBlock B m c = saved B pb (set is) c)"
  using assms
proof (induction "is" arbitrary: pb)
  case Nil
  then show ?case
    by (intro exI [of _ "segmentManager pb"]) (simp add: saved_def pb_disk_def split: option.split)
next
  case (Cons i "is")
  show ?case
  proof (cases "i \<notin> freeSlots pb \<and> pdirty (pages pb ! i)")
    case True
    obtain b m where m: "map_of (pageTable pb) b = Some i" "savePage B i pb = Inr (pb\<lparr>segmentManager := m\<rparr>)"
        "pb_inv B N (pb\<lparr>segmentManager := m\<rparr>)" "sm_used B m = sm_used B (segmentManager pb)"
        "sm_readBlock B m b = Inr (pdata (pages pb ! i))"
        "\<forall>c \<in> sm_used B (segmentManager pb) - {b}. sm_readBlock B m c = pb_disk B pb c"
      using savePage_ok [OF Cons.prems(1), of i] True Cons.prems(2) by auto
    obtain m' where m': "flush_pages B is (pb\<lparr>segmentManager := m\<rparr>) = Inr (pb\<lparr>segmentManager := m'\<rparr>)"
        "pb_inv B N (pb\<lparr>segmentManager := m'\<rparr>)" "sm_used B m' = sm_used B m"
        "\<forall>c \<in> sm_used B m. sm_readBlock B m' c = saved B (pb\<lparr>segmentManager := m\<rparr>) (set is) c"
      using Cons.IH [OF m(3)] Cons.prems(2) by auto
    have "saved B (pb\<lparr>segmentManager := m\<rparr>) (set is) c = saved B pb (set (i # is)) c"
      if c: "c \<in> sm_used B (segmentManager pb)" for c
    proof (cases "c = b")
      case True
      then show ?thesis using m(1,5) \<open>i \<notin> freeSlots pb \<and> pdirty (pages pb ! i)\<close>
        by (simp add: saved_def pb_disk_def)
    next
      case False
      have "map_of (pageTable pb) c \<noteq> Some i"
        using False table_index_inj [OF Cons.prems(1) m(1)] by blast
      then show ?thesis using m(6) c False
        by (auto simp: saved_def pb_disk_def split: option.split)
    qed
    then show ?thesis using m(2,4) m' True by auto
  next
    case False
    obtain m' where m': "flush_pages B is pb = Inr (pb\<lparr>segmentManager := m'\<rparr>)"
        "pb_inv B N (pb\<lparr>segmentManager := m'\<rparr>)" "sm_used B m' = sm_used B (segmentManager pb)"
        "\<forall>c \<in> sm_used B (segmentManager pb). sm_readBlock B m' c = saved B pb (set is) c"
      using Cons.IH [OF Cons.prems(1)] Cons.prems(2) by auto
    have "saved B pb (set is) c = saved B pb (set (i # is)) c" for c
    proof -
      have "\<not> pdirty (pages pb ! i)" if "map_of (pageTable pb) c = Some i"
        using False table_index(1) [OF Cons.prems(1) that] pb_invD(6) [OF Cons.prems(1)] by force
      then show ?thesis by (auto simp: saved_def split: option.split)
    qed
    then show ?thesis using m' False by auto
  qed
qed

lemma saved_all:
  assumes "pb_inv B N pb" "c \<notin> pb_modified B pb"
  shows "saved B pb {..<N} c = pb_content B pb c"
proof (cases "map_of (pageTable pb) c")
  case (Some i)
  then show ?thesis using assms(2) table_index(2) [OF assms(1) Some]
    by (auto simp: saved_def pb_content_def pb_modified_def)
qed (simp add: saved_def pb_content_def)

lemma pb_flush_ok:
  assumes inv: "pb_inv B N pb"
  shows "\<exists>pb' m. pb_flush B pb = Inr pb' \<and> pages pb' = pages pb \<and> pageTable pb' = pageTable pb \<and>
           sm_open B (sm_file (segmentManager pb')) = Inr m \<and> sm_inv B m \<and>
           sm_used B m = pb_used B pb \<and>
           (\<forall>c \<in> pb_used B pb - pb_modified B pb. sm_readBlock B m c = pb_content B pb c)"
proof -
  have len: "length (pages pb) = N" by (rule pb_invD(2) [OF inv])
  obtain m where m: "flush_pages B [0..<N] pb = Inr (pb\<lparr>segmentManager := m\<rparr>)"
      "pb_inv B N (pb\<lparr>segmentManager := m\<rparr>)" "sm_used B m = sm_used B (segmentManager pb)"
      "\<forall>c \<in> sm_used B (segmentManager pb). sm_readBlock B m c = saved B pb {..<N} c"
    using flush_pages_ok [OF inv, of "[0..<N]"] by (auto simp: atLeast_upt [symmetric] lessThan_atLeast0)
  have "sm_inv B m" using pb_invD(1) [OF m(2)] by simp
  from sm_flush_open_ok [OF this] obtain m' where m': "sm_flush m = Inr m'"
      "sm_open B (sm_file m') = Inr m'" "sm_inv B m'" "sm_used B m' = sm_used B m"
      "\<forall>c \<in> sm_used B m. sm_readBlock B m' c = sm_readBlock B m c" by blast
  have "pb_flush B pb = Inr (pb\<lparr>segmentManager := m'\<rparr>)"
    using m(1) m'(1) len by (simp add: pb_flush_def)
  then show ?thesis using m(3,4) m' saved_all [OF inv] by (auto simp: pb_used_def)
qed

lemma pb_new_ok:
  assumes "sm_inv B m"
  shows "pb_inv B N (pb_new B N m)" "pb_used B (pb_new B N m) = sm_used B m"
    "pb_content B (pb_new B N m) b = sm_readBlock B m b" "pb_pinned (pb_new B N m) = {}"
    "pb_held (pb_new B N m) b = Unlocked"
  using assms
  by (auto simp: pb_inv_def pb_new_def page_ok_def q_empty_inv pb_used_def pb_content_def
      pb_disk_def pb_pinned_def pb_held_def)

section \<open>Properties\<close>

text \<open>A manager with one block, and a buffer with one page over it, for the examples.\<close>

lemma demo_manager:
  "\<exists>x m. sm_createBlock 48 (\<lambda>n. n * 5 div 4) Min (sm_new 48) = Inr (x, m) \<and> sm_inv 48 m \<and>
         sm_used 48 m = {x}"
  using sm.create_law [OF demo_sm(1,3)] demo_sm(2) by auto

lemma demo_slot: "finite S \<Longrightarrow> S \<noteq> {} \<Longrightarrow> Min S \<in> (S :: nat set)"
  by (rule Min_in)

text \<open>
  C16. \<open>pinPage\<close>: when the requested lock is free and the page is already pinned or fewer
  than \<open>N\<close> pages are, the loop ends after at most two iterations and returns the page of
  the block, locked in the requested mode (or in the mode that the mode function decides
  from the contents), with the contents of the block unless loading was skipped. All other
  pages keep their contents and locks, also the page that was evicted to make room.
\<close>

theorem pb_pinPage_correct:
  assumes "pb_inv B N pb" and "b \<in> pb_used B pb"
    and "\<And>S. finite S \<Longrightarrow> S \<noteq> {} \<Longrightarrow> slot S \<in> S"
    and "skipLoad \<longrightarrow> exclusive \<and> mf = None"
    and "pb_content B pb b = Inr d"
    and "lock_free (decide exclusive mf d b) (pb_held pb b)"
    and "b \<in> pb_pinned pb \<or> card (pb_pinned pb) < N" and "2 \<le> fuel"
  shows "\<exists>i pb'. pb_pinPage B slot fuel exclusive skipLoad mf b pb = Inr (i, pb') \<and>
           pb_inv B N pb' \<and> pb_used B pb' = pb_used B pb \<and> pid (pages pb' ! i) = b \<and>
           acquire (decide exclusive mf d b) (pb_held pb b) = Inr (plock (pages pb' ! i)) \<and>
           (\<not> skipLoad \<longrightarrow> pdata (pages pb' ! i) = d) \<and>
           (\<forall>c \<in> pb_used B pb - {b}.
              pb_content B pb' c = pb_content B pb c \<and> pb_held pb' c = pb_held pb c)"
proof -
  have "skip_ok exclusive skipLoad mf" using assms(4) by (simp add: skip_ok_def)
  from pb_pinPage_ok [where slot = slot, OF assms(1-3) this assms(5-8)] obtain i pb' where
    p: "pb_pinPage B slot fuel exclusive skipLoad mf b pb = Inr (i, pb')"
      "pin_post B N (decide exclusive mf d b) skipLoad b pb i pb'"
    by blast
  have t: "map_of (pageTable pb') b = Some i" "pb_inv B N pb'" using p(2) by (auto simp: pin_post_def)
  have "pid (pages pb' ! i) = b" using table_index(4) [OF t(2,1)] by (simp add: loaded_ok_def)
  moreover have "pb_held pb' b = plock (pages pb' ! i)"
      "pb_content B pb' b = Inr (pdata (pages pb' ! i))"
    using t(1) by (simp_all add: pb_held_def pb_content_def)
  ultimately show ?thesis using p assms(5) by (auto simp: pin_post_def)
qed

theorem pb_pinPage_correct_witness:
  "\<exists>x m i pb'. pb_pinPage 48 Min 2 True False None x (pb_new 48 2 m) = Inr (i, pb') \<and>
     pid (pages pb' ! i) = x \<and> plock (pages pb' ! i) = Exclusive \<and>
     Inr (pdata (pages pb' ! i)) = sm_readBlock 48 m x"
proof -
  obtain x m where m: "sm_inv 48 m" "sm_used 48 m = {x}" using demo_manager by blast
  obtain d where d: "sm_readBlock 48 m x = Inr d" using sm_readBlock_ok [OF m(1), of x] m(2) by auto
  note new = pb_new_ok [OF m(1), of 2]
  have a: "x \<in> pb_used 48 (pb_new 48 2 m)" "pb_content 48 (pb_new 48 2 m) x = Inr d"
      "lock_free (decide True None d x) (pb_held (pb_new 48 2 m) x)"
      "x \<in> pb_pinned (pb_new 48 2 m) \<or> card (pb_pinned (pb_new 48 2 m)) < 2"
    using m(2) d by (simp_all add: new)
  have "False \<longrightarrow> True \<and> (None :: mode_function option) = None" by simp
  from pb_pinPage_correct [OF new(1) a(1) demo_slot this a(2-4) order_refl] obtain i pb' where
    "pb_pinPage 48 Min 2 True False None x (pb_new 48 2 m) = Inr (i, pb')"
    "pid (pages pb' ! i) = x" "plock (pages pb' ! i) = Exclusive" "pdata (pages pb' ! i) = d"
    by (auto simp: new decide_def)
  then show ?thesis using d by metis
qed

text \<open>
  When every page of the buffer is pinned, pinning another one raises ``Buffer is
  full!'': the buffer never evicts a pinned page.
\<close>

theorem pb_pinPage_full:
  assumes "pb_inv B N pb" and "b \<notin> pb_pinned pb" and "card (pb_pinned pb) = N"
  shows "pb_pinPage B slot (Suc fuel) exclusive skipLoad mf b pb = Inl (Raise ''Buffer is full!'')"
  by (rule pb_pinPage_full_ok [OF assms])

theorem pb_pinPage_full_witness:
  "pb_pinPage 48 Min 2 True False None 5 (pb_new 48 0 (sm_new 48)) = Inl (Raise ''Buffer is full!'')"
  using pb_pinPage_full [OF pb_new_ok(1) [OF demo_sm(1), of 0], of 5 Min 1 True False None]
    pb_new_ok(4) [OF demo_sm(1), of 0] by (simp add: numeral_2_eq_2)

text \<open>
  C32. After \<open>flush\<close>, a buffer opened on the same file shows the same pages with the same
  contents, except for pages that a client is just writing to.
\<close>

theorem pb_flush_reopen:
  assumes "pb_inv B N pb"
  shows "\<exists>pb' m. pb_flush B pb = Inr pb' \<and> sm_open B (sm_file (segmentManager pb')) = Inr m \<and>
           pb_inv B N (pb_new B N m) \<and> pb_used B (pb_new B N m) = pb_used B pb \<and>
           (\<forall>c \<in> pb_used B pb. pb_held pb c \<noteq> Exclusive \<longrightarrow>
              pb_content B (pb_new B N m) c = pb_content B pb c)"
proof -
  obtain pb' m where m: "pb_flush B pb = Inr pb'" "sm_open B (sm_file (segmentManager pb')) = Inr m"
      "sm_inv B m" "sm_used B m = pb_used B pb"
      "\<forall>c \<in> pb_used B pb - pb_modified B pb. sm_readBlock B m c = pb_content B pb c"
    using pb_flush_ok [OF assms] by blast
  then show ?thesis using pb_new_ok [OF m(3)] pb_modified_held [OF assms] by auto
qed

theorem pb_flush_reopen_witness:
  "\<exists>pb' m. pb_flush 48 (pb_new 48 3 (sm_new 48)) = Inr pb' \<and>
     sm_open 48 (sm_file (segmentManager pb')) = Inr m \<and> pb_inv 48 3 (pb_new 48 3 m)"
  using pb_flush_reopen [OF pb_new_ok(1) [OF demo_sm(1), of 3]] by blast

end
