(* ===== verification/PinSteps.thy ===== *)
theory PinSteps
  imports PageBuffer
begin

text \<open>
  \<open>src/buffer/PageBuffer.h\<close> under threads: \<open>pinPage\<close> and \<open>unpinPage\<close> once more, now as
  steps of threads that run at the same time on one buffer. The theory \<open>PageBuffer\<close>
  models the calls one at a time; here the two kinds of mutex are modelled, and a thread
  is inside a call at a program point (\<open>pc\<close>), with its local variables as arguments.

  One step is one access to what threads share: taking or releasing a mutex, one access
  to the atomics \<open>pins\<close> and \<open>dirty\<close>, a look at one entry of a queue, an IO read or write
  of a block. What a thread does under the exclusive table mutex with entries that no
  other thread can reach is one step. \<open>None\<close> as the result of a step means that the thread waits.

  Blocks on disk are a function from block numbers to bytes: every operation of the
  segment manager locks what it uses, and that it acts as a map from blocks to bytes is
  shown in \<open>SegmentManager\<close>. The errors of the segment manager are modelled in \<open>PageBuffer\<close>.
\<close>

section \<open>Mutexes with owners\<close>

type_synonym tid = nat

datatype mutex = Mutex (mx_writer: "tid option") (mx_readers: "tid set")

text \<open>
  \<open>lock\<close> and \<open>lock_shared\<close> of \<open>std::shared_mutex\<close>; a thread that has the mutex already and
  locks it again waits for itself.
\<close>

fun mx_lock :: "bool \<Rightarrow> tid \<Rightarrow> mutex \<Rightarrow> mutex option" where
  "mx_lock e t (Mutex w R) =
     (if w \<noteq> None then None
      else if e then (if R = {} then Some (Mutex (Some t) {}) else None)
      else if t \<in> R then None else Some (Mutex None (insert t R)))"

fun mx_unlock :: "bool \<Rightarrow> tid \<Rightarrow> mutex \<Rightarrow> mutex option" where
  "mx_unlock e t (Mutex w R) =
     (if e then (if w = Some t then Some (Mutex None R) else None)
      else if t \<in> R then Some (Mutex w (R - {t})) else None)"

section \<open>State\<close>

record cpage =
  cp_data :: "8 word list"
  cp_id :: block_id
  cp_mutex :: mutex
  cp_pins :: nat
  cp_dirty :: bool

text \<open>The arguments of a call of \<open>pinPage\<close>.\<close>

record pin_req =
  rq_block :: block_id
  rq_excl :: bool
  rq_skip :: bool
  rq_mode :: "mode_function option"

text \<open>
  Where a thread is. \<open>x\<close> is \<open>exclusivePageTableLock\<close>, \<open>i\<close> the index of a page, \<open>l\<close> tells
  the LRU queue (2.3) from the FIFO queue (2.2), \<open>k\<close> is the number of the victim's block.
\<close>

datatype pc =
    Idle
  | LockTable pin_req bool
  | Lookup pin_req bool
  | Retry pin_req bool bool
  | BackOff pin_req nat
  | Touch pin_req nat
  | UnlockTable pin_req bool nat
  | Decide pin_req nat
  | LockPage pin_req nat bool
  | LoadLock pin_req nat
  | LoadUnlockTable pin_req nat
  | Load pin_req nat
  | LoadUnlock pin_req nat
  | Scan pin_req bool bool "(block_id \<times> nat) list"
  | Found pin_req bool bool block_id
  | TestDirty pin_req bool bool block_id nat
  | ClearDirty pin_req bool bool block_id nat
  | SaveLock pin_req bool bool block_id nat
  | SaveUnlockTable pin_req bool bool block_id nat
  | Save pin_req bool block_id nat
  | SaveUnlock pin_req bool block_id nat
  | FreeTable pin_req bool block_id nat
  | Relock pin_req bool block_id nat
  | Check pin_req bool block_id nat
  | CheckDirty pin_req bool block_id nat
  | GiveUp pin_req block_id nat
  | Raised pin_req bool
  | UnpinDirty block_id nat bool bool
  | UnpinUnlock block_id nat bool
  | UnpinDec block_id nat

text \<open>
  A page that a client has pinned: \<open>h_excl\<close> is the mode of its lock, \<open>h_mod\<close> is history,
  it records whether the client changed the bytes.
\<close>

record hold =
  h_block :: block_id
  h_excl :: bool
  h_mod :: bool

text \<open>
  \<open>cs_log\<close> is history as well: the bytes last written to a block by any client, \<open>None\<close>
  after a \<open>pinPage\<close> with \<open>skipLoad\<close>, which leaves the bytes of the page open.
\<close>

record cstate =
  cs_table :: "(block_id \<times> nat) list"
  cs_free :: "nat set"
  cs_fifo :: "(block_id, nat) queue"
  cs_lru :: "(block_id, nat) queue"
  cs_mutex :: mutex
  cs_pages :: "nat \<Rightarrow> cpage"
  cs_disk :: "block_id \<Rightarrow> 8 word list"
  cs_pc :: "tid \<Rightarrow> pc"
  cs_held :: "tid \<Rightarrow> nat \<Rightarrow> hold option"
  cs_log :: "block_id \<Rightarrow> 8 word list option"

definition cs_init :: "nat \<Rightarrow> nat \<Rightarrow> (block_id \<Rightarrow> 8 word list) \<Rightarrow> cstate" where
  "cs_init B N disk =
     \<lparr>cs_table = [], cs_free = {..<N}, cs_fifo = q_empty, cs_lru = q_empty,
      cs_mutex = Mutex None {},
      cs_pages = (\<lambda>_. \<lparr>cp_data = replicate B 0, cp_id = - 1, cp_mutex = Mutex None {},
                       cp_pins = 0, cp_dirty = False\<rparr>),
      cs_disk = disk, cs_pc = (\<lambda>_. Idle), cs_held = (\<lambda>_ _. None), cs_log = (\<lambda>b. Some (disk b))\<rparr>"

section \<open>Steps\<close>

definition goto :: "tid \<Rightarrow> pc \<Rightarrow> cstate \<Rightarrow> cstate" where
  "goto t p s = s\<lparr>cs_pc := (cs_pc s)(t := p)\<rparr>"

definition upd_page :: "nat \<Rightarrow> (cpage \<Rightarrow> cpage) \<Rightarrow> cstate \<Rightarrow> cstate" where
  "upd_page i f s = s\<lparr>cs_pages := (cs_pages s)(i := f (cs_pages s i))\<rparr>"

definition set_pins :: "nat \<Rightarrow> (nat \<Rightarrow> nat) \<Rightarrow> cstate \<Rightarrow> cstate" where
  "set_pins i f = upd_page i (\<lambda>p. p\<lparr>cp_pins := f (cp_pins p)\<rparr>)"

text \<open>\<open>lockPageTable\<close>, \<open>unlockPageTable\<close> and the mutex of a page.\<close>

definition lock_table :: "bool \<Rightarrow> tid \<Rightarrow> cstate \<Rightarrow> cstate option" where
  "lock_table x t s = map_option (\<lambda>m. s\<lparr>cs_mutex := m\<rparr>) (mx_lock x t (cs_mutex s))"

definition unlock_table :: "bool \<Rightarrow> tid \<Rightarrow> cstate \<Rightarrow> cstate option" where
  "unlock_table x t s = map_option (\<lambda>m. s\<lparr>cs_mutex := m\<rparr>) (mx_unlock x t (cs_mutex s))"

definition lock_frame :: "bool \<Rightarrow> tid \<Rightarrow> nat \<Rightarrow> cstate \<Rightarrow> cstate option" where
  "lock_frame e t i s =
     map_option (\<lambda>m. upd_page i (\<lambda>p. p\<lparr>cp_mutex := m\<rparr>) s) (mx_lock e t (cp_mutex (cs_pages s i)))"

definition unlock_frame :: "bool \<Rightarrow> tid \<Rightarrow> nat \<Rightarrow> cstate \<Rightarrow> cstate option" where
  "unlock_frame e t i s =
     map_option (\<lambda>m. upd_page i (\<lambda>p. p\<lparr>cp_mutex := m\<rparr>) s) (mx_unlock e t (cp_mutex (cs_pages s i)))"

definition cs_queue :: "bool \<Rightarrow> cstate \<Rightarrow> (block_id, nat) queue" where
  "cs_queue l s = (if l then cs_lru s else cs_fifo s)"

definition set_queue :: "bool \<Rightarrow> (block_id, nat) queue \<Rightarrow> cstate \<Rightarrow> cstate" where
  "set_queue l q s = (if l then s\<lparr>cs_lru := q\<rparr> else s\<lparr>cs_fifo := q\<rparr>)"

definition queue_find :: "bool \<Rightarrow> block_id \<Rightarrow> cstate \<Rightarrow> nat option" where
  "queue_find l k s =
     (case (if l then lru_find (cs_lru s) k False else fifo_find (cs_fifo s) k False) of
        Inl e \<Rightarrow> None | Inr (i, q) \<Rightarrow> Some i)"

text \<open>Lines 136 to 143: the position in the 2Q when the first pin arrives.\<close>

definition touch_queue :: "block_id \<Rightarrow> nat \<Rightarrow> cstate \<Rightarrow> cstate option" where
  "touch_queue b i s =
     (if q_contains (cs_fifo s) b then
        (case q_remove (cs_fifo s) b of
           Inl e \<Rightarrow> None
         | Inr (e, q) \<Rightarrow> Some (s\<lparr>cs_fifo := q, cs_lru := q_insert (cs_lru s) b i\<rparr>))
      else if q_contains (cs_lru s) b then
        (case lru_find (cs_lru s) b True of
           Inl e \<Rightarrow> None
         | Inr (j, q) \<Rightarrow> Some (s\<lparr>cs_lru := q\<rparr>))
      else Some (s\<lparr>cs_fifo := q_insert (cs_fifo s) b i\<rparr>))"

text \<open>
  Giving a page to a block: the entry in the table, the metadata and the entry in the
  FIFO queue. With \<open>skipLoad\<close> the bytes stay what they are.
\<close>

definition occupy :: "pin_req \<Rightarrow> nat \<Rightarrow> cstate \<Rightarrow> cstate" where
  "occupy r i s =
     (let b = rq_block r
      in upd_page i (\<lambda>p. p\<lparr>cp_id := b, cp_dirty := False\<rparr>)
           (s\<lparr>cs_table := AList.update b i (cs_table s),
              cs_fifo := q_insert (cs_fifo s) b i,
              cs_log := (if rq_skip r then (cs_log s)(b := None) else cs_log s)\<rparr>))"

definition after_occupy :: "pin_req \<Rightarrow> nat \<Rightarrow> pc" where
  "after_occupy r i = (if rq_skip r then UnlockTable r True i else LoadLock r i)"

text \<open>2.1) An unused index, lines 166 to 179.\<close>

definition take_free :: "(nat set \<Rightarrow> nat) \<Rightarrow> tid \<Rightarrow> pin_req \<Rightarrow> cstate \<Rightarrow> cstate option" where
  "take_free slot t r s =
     (if cs_free s = {} then None
      else let i = slot (cs_free s)
           in Some (goto t (after_occupy r i)
                (set_pins i (\<lambda>_. 1) (occupy r i (s\<lparr>cs_free := cs_free s - {i}\<rparr>)))))"

text \<open>The look into the table; \<open>pins\<close> goes up at once when the block is there.\<close>

definition look_up :: "nat \<Rightarrow> (nat set \<Rightarrow> nat) \<Rightarrow> tid \<Rightarrow> pin_req \<Rightarrow> bool \<Rightarrow> cstate \<Rightarrow> cstate option" where
  "look_up N slot t r x s =
     (case map_of (cs_table s) (rq_block r) of
        Some i \<Rightarrow>
          let n = cp_pins (cs_pages s i) + 1
          in Some (goto t (if n = 1 then (if x then Touch r i else BackOff r i) else UnlockTable r x i)
               (set_pins i (\<lambda>n. n + 1) s))
      | None \<Rightarrow>
          if length (cs_table s) < N
          then if x then take_free slot t r s else Some (goto t (Retry r x True) s)
          else Some (goto t (Scan r x False (rev (getList (cs_fifo s)))) s))"

text \<open>\<open>findOne\<close> looks at the entries from the oldest on, first of the FIFO, then of the LRU queue.\<close>

definition scan_next ::
  "cstate \<Rightarrow> pin_req \<Rightarrow> bool \<Rightarrow> bool \<Rightarrow> (block_id \<times> nat) list \<Rightarrow> pc" where
  "scan_next s r x l es =
     (case es of
        [] \<Rightarrow> if l then Raised r x else Scan r x True (rev (getList (cs_lru s)))
      | (k, i) # es' \<Rightarrow> if cp_pins (cs_pages s i) = 0 then Found r x l k else Scan r x l es')"

text \<open>The victim was not used meanwhile: its page is given to the new block.\<close>

definition reuse :: "tid \<Rightarrow> pin_req \<Rightarrow> bool \<Rightarrow> block_id \<Rightarrow> nat \<Rightarrow> cstate \<Rightarrow> cstate option" where
  "reuse t r l k i s =
     (case q_remove (cs_queue l s) k of
        Inl e \<Rightarrow> None
      | Inr (e, q) \<Rightarrow>
          Some (goto t (after_occupy r i)
            (occupy r i (set_queue l q (s\<lparr>cs_table := AList.delete k (cs_table s)\<rparr>)))))"

text \<open>One step of a thread inside a call.\<close>

fun run_step :: "nat \<Rightarrow> (nat set \<Rightarrow> nat) \<Rightarrow> tid \<Rightarrow> pc \<Rightarrow> cstate \<Rightarrow> cstate option" where
  "run_step N slot t Idle s = None"
| "run_step N slot t (LockTable r x) s = map_option (goto t (Lookup r x)) (lock_table x t s)"
| "run_step N slot t (Lookup r x) s = look_up N slot t r x s"
| "run_step N slot t (Retry r x x') s = map_option (goto t (LockTable r x')) (unlock_table x t s)"
| "run_step N slot t (BackOff r i) s =
     Some (goto t (Retry r False True) (set_pins i (\<lambda>n. n - 1) s))"
| "run_step N slot t (Touch r i) s =
     map_option (goto t (UnlockTable r True i)) (touch_queue (rq_block r) i s)"
| "run_step N slot t (UnlockTable r x i) s = map_option (goto t (Decide r i)) (unlock_table x t s)"
| "run_step N slot t (Decide r i) s =
     (let p = cs_pages s i
      in Some (goto t (LockPage r i (decide (rq_excl r) (rq_mode r) (cp_data p) (cp_id p))) s))"
| "run_step N slot t (LockPage r i e) s =
     map_option (\<lambda>s'. goto t Idle (s'\<lparr>cs_held := (cs_held s')(t := (cs_held s' t)
         (i \<mapsto> \<lparr>h_block = rq_block r, h_excl = e, h_mod = False\<rparr>))\<rparr>))
       (lock_frame e t i s)"
| "run_step N slot t (LoadLock r i) s = map_option (goto t (LoadUnlockTable r i)) (lock_frame True t i s)"
| "run_step N slot t (LoadUnlockTable r i) s = map_option (goto t (Load r i)) (unlock_table True t s)"
| "run_step N slot t (Load r i) s =
     Some (goto t (LoadUnlock r i) (upd_page i (\<lambda>p. p\<lparr>cp_data := cs_disk s (rq_block r)\<rparr>) s))"
| "run_step N slot t (LoadUnlock r i) s = map_option (goto t (Decide r i)) (unlock_frame True t i s)"
| "run_step N slot t (Scan r x l es) s = Some (goto t (scan_next s r x l es) s)"
| "run_step N slot t (Found r x l k) s =
     map_option (\<lambda>i. goto t (TestDirty r x l k i) (set_pins i (\<lambda>n. n + 1) s)) (queue_find l k s)"
| "run_step N slot t (TestDirty r x l k i) s =
     Some (goto t (if cp_dirty (cs_pages s i) then ClearDirty r x l k i
                   else if x then Check r l k i else FreeTable r l k i) s)"
| "run_step N slot t (ClearDirty r x l k i) s =
     Some (goto t (SaveLock r x l k i) (upd_page i (\<lambda>p. p\<lparr>cp_dirty := False\<rparr>) s))"
| "run_step N slot t (SaveLock r x l k i) s =
     map_option (goto t (SaveUnlockTable r x l k i)) (lock_frame False t i s)"
| "run_step N slot t (SaveUnlockTable r x l k i) s =
     map_option (goto t (Save r l k i)) (unlock_table x t s)"
| "run_step N slot t (Save r l k i) s =
     (let p = cs_pages s i
      in Some (goto t (SaveUnlock r l k i) (s\<lparr>cs_disk := (cs_disk s)(cp_id p := cp_data p)\<rparr>)))"
| "run_step N slot t (SaveUnlock r l k i) s =
     map_option (goto t (Relock r l k i)) (unlock_frame False t i s)"
| "run_step N slot t (FreeTable r l k i) s = map_option (goto t (Relock r l k i)) (unlock_table False t s)"
| "run_step N slot t (Relock r l k i) s = map_option (goto t (Check r l k i)) (lock_table True t s)"
| "run_step N slot t (Check r l k i) s =
     Some (goto t (if map_of (cs_table s) (rq_block r) = None \<and> q_contains (cs_queue l s) k \<and>
                      cp_pins (cs_pages s i) = 1
                   then CheckDirty r l k i else GiveUp r k i) s)"
| "run_step N slot t (CheckDirty r l k i) s =
     (if \<not> cp_dirty (cs_pages s i) then reuse t r l k i s else Some (goto t (GiveUp r k i) s))"
| "run_step N slot t (GiveUp r k i) s =
     Some (goto t (Retry r True False) (set_pins i (\<lambda>n. n - 1) s))"
| "run_step N slot t (Raised r x) s = None"
| "run_step N slot t (UnpinDirty b i e d) s =
     Some (goto t (UnpinUnlock b i e) (upd_page i (\<lambda>p. p\<lparr>cp_dirty := (if d then True else cp_dirty p)\<rparr>) s))"
| "run_step N slot t (UnpinUnlock b i e) s = map_option (goto t (UnpinDec b i)) (unlock_frame e t i s)"
| "run_step N slot t (UnpinDec b i) s = Some (goto t Idle (set_pins i (\<lambda>n. n - 1) s))"

text \<open>
  What happens next: the thread goes on inside its call, or a thread outside of a call
  starts one, or writes the bytes of a page it has pinned.
\<close>

datatype event =
    Step
  | CallPin pin_req
  | Write nat "8 word list"
  | CallUnpin nat bool

fun cstep :: "nat \<Rightarrow> (nat set \<Rightarrow> nat) \<Rightarrow> event \<Rightarrow> tid \<Rightarrow> cstate \<Rightarrow> cstate option" where
  "cstep N slot Step t s = run_step N slot t (cs_pc s t) s"
| "cstep N slot (CallPin r) t s =
     (case cs_pc s t of Idle \<Rightarrow> Some (goto t (LockTable r False) s) | _ \<Rightarrow> None)"
| "cstep N slot (Write i d) t s =
     (case (cs_pc s t, cs_held s t i) of
        (Idle, Some h) \<Rightarrow>
          Some (upd_page i (\<lambda>p. p\<lparr>cp_data := d\<rparr>)
            (s\<lparr>cs_held := (cs_held s)(t := (cs_held s t)(i \<mapsto> h\<lparr>h_mod := True\<rparr>)),
               cs_log := (cs_log s)(h_block h \<mapsto> d)\<rparr>))
      | _ \<Rightarrow> None)"
| "cstep N slot (CallUnpin i dirty) t s =
     (case (cs_pc s t, cs_held s t i) of
        (Idle, Some h) \<Rightarrow>
          Some (goto t (UnpinDirty (h_block h) i (h_excl h) dirty)
            (s\<lparr>cs_held := (cs_held s)(t := (cs_held s t)(i := None))\<rparr>))
      | _ \<Rightarrow> None)"

text \<open>
  The protocol of the buffer's clients: bytes are only written under the exclusive lock,
  and a page that was written is unpinned as dirty.
\<close>

fun obeys :: "cstate \<Rightarrow> tid \<Rightarrow> event \<Rightarrow> bool" where
  "obeys s t (Write i d) = (case cs_held s t i of Some h \<Rightarrow> h_excl h | None \<Rightarrow> False)"
| "obeys s t (CallUnpin i dirty) = (case cs_held s t i of Some h \<Rightarrow> h_mod h \<longrightarrow> dirty | None \<Rightarrow> False)"
| "obeys s t ev = True"

inductive reachable :: "nat \<Rightarrow> nat \<Rightarrow> (nat set \<Rightarrow> nat) \<Rightarrow> (block_id \<Rightarrow> 8 word list) \<Rightarrow> cstate \<Rightarrow> bool"
  for B N slot disk where
  reachable_init: "reachable B N slot disk (cs_init B N disk)"
| reachable_step: "reachable B N slot disk s \<Longrightarrow> obeys s t ev \<Longrightarrow> cstep N slot ev t s = Some s' \<Longrightarrow>
     reachable B N slot disk s'"

text \<open>A schedule: which thread does what, one step after the other.\<close>

fun crun :: "nat \<Rightarrow> (nat set \<Rightarrow> nat) \<Rightarrow> (tid \<times> event) list \<Rightarrow> cstate \<Rightarrow> cstate option" where
  "crun N slot [] s = Some s"
| "crun N slot ((t, ev) # es) s =
     (if obeys s t ev then Option.bind (cstep N slot ev t s) (crun N slot es) else None)"

lemma crun_reachable:
  "reachable B N slot disk s \<Longrightarrow> crun N slot es s = Some s' \<Longrightarrow> reachable B N slot disk s'"
proof (induction es arbitrary: s)
  case Nil
  then show ?case by simp
next
  case (Cons e es)
  then obtain t ev s1 where "e = (t, ev)" "obeys s t ev" "cstep N slot ev t s = Some s1"
      "crun N slot es s1 = Some s'"
    by (cases e) (auto split: if_splits bind_splits)
  with Cons.IH [of s1] reachable_step [OF Cons.prems(1)] show ?case by blast
qed

end
