(* ===== verification/PinLocks.thy ===== *)
theory PinLocks
  imports PinSteps
begin

text \<open>
  Which thread has which mutex, read off the program points: \<open>table_mode\<close> for the table
  mutex and \<open>frame_mode\<close> for the mutex of a page. The owners recorded in the mutexes agree
  with them in every reachable state (\<open>locks_inv\<close>), so no call of \<open>unlock\<close> fails. A step
  of a thread without the exclusive table mutex leaves table and queues alone.
\<close>

section \<open>Owners of a mutex\<close>

definition mx_ok :: "mutex \<Rightarrow> (tid \<Rightarrow> bool option) \<Rightarrow> bool" where
  "mx_ok m f \<longleftrightarrow> (\<forall>t. f t = Some True \<longleftrightarrow> mx_writer m = Some t) \<and>
     (\<forall>t. f t = Some False \<longleftrightarrow> t \<in> mx_readers m) \<and> (mx_writer m \<noteq> None \<longrightarrow> mx_readers m = {})"

lemma mx_lock_ok:
  assumes "mx_ok m f" "mx_lock e t m = Some m'"
  shows "mx_ok m' (f(t := Some e))" "f t = None"
proof -
  obtain w R where m: "m = Mutex w R" by (cases m)
  have f: "f u = Some True \<longleftrightarrow> w = Some u" "f u = Some False \<longleftrightarrow> u \<in> R" for u
    using assms(1) by (auto simp: mx_ok_def m)
  from assms(2) have w: "w = None" "e \<Longrightarrow> R = {}" "t \<notin> R"
      and m': "m' = (if e then Mutex (Some t) {} else Mutex None (insert t R))"
    by (auto simp: m split: if_splits)
  from w f [of t] show t: "f t = None" by (cases "f t") auto
  show "mx_ok m' (f(t := Some e))" using f w m' by (auto simp: mx_ok_def)
qed

lemma mx_unlock_ok:
  assumes "mx_ok m f" "mx_unlock e t m = Some m'"
  shows "mx_ok m' (f(t := None))" "f t = Some e"
  using assms by (cases m; cases e; auto simp: mx_ok_def split: if_splits)+

lemma mx_unlock_some: "mx_ok m f \<Longrightarrow> f t = Some e \<Longrightarrow> \<exists>m'. mx_unlock e t m = Some m'"
  by (cases m; cases e) (auto simp: mx_ok_def)

text \<open>A mutex that cannot be locked has an owner, and an exclusive owner is alone.\<close>

lemma mx_lock_none:
  assumes "mx_ok m f" "mx_lock e t m = None"
  shows "\<exists>u. f u \<noteq> None"
proof -
  obtain w R where m: "m = Mutex w R" by (cases m)
  with assms(2) have "w \<noteq> None \<or> R \<noteq> {}" by (auto split: if_splits)
  with assms(1) show ?thesis by (fastforce simp: mx_ok_def m)
qed

lemma mx_alone: "mx_ok m f \<Longrightarrow> f t = Some True \<Longrightarrow> u \<noteq> t \<Longrightarrow> f u = None"
  by (cases "f u"; cases "the (f u)") (auto simp: mx_ok_def)

lemma mx_lock_free: "mx_ok m f \<Longrightarrow> (\<And>u. f u = None) \<Longrightarrow> \<exists>m'. mx_lock e t m = Some m'"
  by (rule ccontr) (use mx_lock_none in fastforce)

lemma mx_ok_cong: "mx_ok m f \<Longrightarrow> (\<And>t. f t = g t) \<Longrightarrow> mx_ok m g"
  by (simp add: mx_ok_def)

section \<open>What a program point says\<close>

fun table_mode :: "pc \<Rightarrow> bool option" where
  "table_mode (Lookup r x) = Some x"
| "table_mode (Retry r x x') = Some x"
| "table_mode (BackOff r i) = Some False"
| "table_mode (Touch r i) = Some True"
| "table_mode (UnlockTable r x i) = Some x"
| "table_mode (LoadLock r i) = Some True"
| "table_mode (LoadUnlockTable r i) = Some True"
| "table_mode (Scan r x l es) = Some x"
| "table_mode (Found r x l k) = Some x"
| "table_mode (TestDirty r x l k i) = Some x"
| "table_mode (ClearDirty r x l k i) = Some x"
| "table_mode (SaveLock r x l k i) = Some x"
| "table_mode (SaveUnlockTable r x l k i) = Some x"
| "table_mode (FreeTable r l k i) = Some False"
| "table_mode (Check r l k i) = Some True"
| "table_mode (CheckDirty r l k i) = Some True"
| "table_mode (GiveUp r k i) = Some True"
| "table_mode (Raised r x) = Some x"
| "table_mode p = None"

text \<open>The page mutex that a thread has while it is inside a call.\<close>

fun frame_lock :: "pc \<Rightarrow> (nat \<times> bool) option" where
  "frame_lock (LoadUnlockTable r i) = Some (i, True)"
| "frame_lock (Load r i) = Some (i, True)"
| "frame_lock (LoadUnlock r i) = Some (i, True)"
| "frame_lock (SaveUnlockTable r x l k i) = Some (i, False)"
| "frame_lock (Save r l k i) = Some (i, False)"
| "frame_lock (SaveUnlock r l k i) = Some (i, False)"
| "frame_lock (UnpinDirty b i e d) = Some (i, e)"
| "frame_lock (UnpinUnlock b i e) = Some (i, e)"
| "frame_lock p = None"

definition frame_mode :: "cstate \<Rightarrow> nat \<Rightarrow> tid \<Rightarrow> bool option" where
  "frame_mode s i t =
     (case cs_held s t i of
        Some h \<Rightarrow> Some (h_excl h)
      | None \<Rightarrow> (case frame_lock (cs_pc s t) of
                  Some (j, e) \<Rightarrow> if j = i then Some e else None
                | None \<Rightarrow> None))"

definition locks_inv :: "cstate \<Rightarrow> bool" where
  "locks_inv s \<longleftrightarrow>
     mx_ok (cs_mutex s) (\<lambda>t. table_mode (cs_pc s t)) \<and>
     (\<forall>i. mx_ok (cp_mutex (cs_pages s i)) (frame_mode s i)) \<and>
     (\<forall>t i e. frame_lock (cs_pc s t) = Some (i, e) \<longrightarrow> cs_held s t i = None)"

section \<open>The fields that the pieces of a step change\<close>

named_theorems step_simps \<open>unfolding of the pieces of a step\<close>

declare goto_def [step_simps] upd_page_def [step_simps] set_pins_def [step_simps]
  lock_table_def [step_simps] unlock_table_def [step_simps] lock_frame_def [step_simps]
  unlock_frame_def [step_simps] occupy_def [step_simps] Let_def [step_simps]

lemma set_queue_fields [simp]:
  "cs_table (set_queue l q s) = cs_table s" "cs_free (set_queue l q s) = cs_free s"
  "cs_mutex (set_queue l q s) = cs_mutex s" "cs_pages (set_queue l q s) = cs_pages s"
  "cs_disk (set_queue l q s) = cs_disk s" "cs_pc (set_queue l q s) = cs_pc s"
  "cs_held (set_queue l q s) = cs_held s" "cs_log (set_queue l q s) = cs_log s"
  by (simp_all add: set_queue_def)

lemma touch_queue_fields:
  assumes "touch_queue b i s = Some s'"
  shows "cs_table s' = cs_table s" "cs_free s' = cs_free s" "cs_mutex s' = cs_mutex s"
    "cs_pages s' = cs_pages s" "cs_disk s' = cs_disk s" "cs_pc s' = cs_pc s"
    "cs_held s' = cs_held s" "cs_log s' = cs_log s"
  using assms by (auto simp: touch_queue_def split: if_splits sum.splits prod.splits)

lemma upd_page_queues [simp]: "cs_queue l (upd_page i f s) = cs_queue l s"
  by (simp add: upd_page_def cs_queue_def)

section \<open>Locks\<close>

lemma scan_next_locks [simp]:
  "table_mode (scan_next s r x l es) = Some x" "frame_lock (scan_next s r x l es) = None"
  by (auto simp: scan_next_def split: list.splits)

lemma locks_init: "locks_inv (cs_init B N disk)"
  by (auto simp: locks_inv_def cs_init_def mx_ok_def frame_mode_def)

lemma frame_mode_cong:
  assumes "cs_held s' u i = cs_held s u i" "frame_lock (cs_pc s' u) = frame_lock (cs_pc s u)"
  shows "frame_mode s' i u = frame_mode s i u"
  unfolding frame_mode_def assms by (rule refl)

text \<open>A step that leaves the mutexes alone, and only moves its thread.\<close>

lemma locks_move:
  assumes "locks_inv s" "cs_mutex s' = cs_mutex s"
    "\<And>i. cp_mutex (cs_pages s' i) = cp_mutex (cs_pages s i)"
    "cs_pc s' = (cs_pc s)(t := p)" "cs_held s' = cs_held s"
    "table_mode p = table_mode (cs_pc s t)" "frame_lock p = frame_lock (cs_pc s t)"
  shows "locks_inv s'"
proof -
  have "mx_ok (cs_mutex s') (\<lambda>u. table_mode (cs_pc s' u))"
    using assms by (auto simp: locks_inv_def elim!: mx_ok_cong)
  moreover have "frame_lock (cs_pc s' u) = frame_lock (cs_pc s u)" for u
    using assms(4,7) by (cases "u = t") auto
  then have "frame_mode s' i = frame_mode s i" for i
    using assms(5) by (intro ext frame_mode_cong) simp_all
  then have "mx_ok (cp_mutex (cs_pages s' i)) (frame_mode s' i)" for i
    using assms(1,3) by (simp add: locks_inv_def)
  ultimately show ?thesis using assms by (auto simp: locks_inv_def)
qed

text \<open>A step that takes or releases the table mutex.\<close>

lemma locks_table:
  assumes "locks_inv s" "mx_ok m ((\<lambda>u. table_mode (cs_pc s u))(t := table_mode p))"
    "cs_mutex s' = m" "cs_pages s' = cs_pages s" "cs_pc s' = (cs_pc s)(t := p)"
    "cs_held s' = cs_held s" "frame_lock p = frame_lock (cs_pc s t)"
  shows "locks_inv s'"
proof -
  have "(\<lambda>u. table_mode (cs_pc s' u)) = (\<lambda>u. table_mode (cs_pc s u))(t := table_mode p)"
    using assms(5) by auto
  moreover have "frame_lock (cs_pc s' u) = frame_lock (cs_pc s u)" for u
    using assms(5,7) by (cases "u = t") auto
  then have "frame_mode s' i = frame_mode s i" for i
    using assms(6) by (intro ext frame_mode_cong) simp_all
  ultimately show ?thesis using assms by (auto simp: locks_inv_def)
qed

text \<open>A step that takes or releases the mutex of a page.\<close>

lemma locks_frame:
  assumes "locks_inv s" "mx_ok m ((frame_mode s i)(t := frame_mode s' i t))"
    "cs_mutex s' = cs_mutex s" "cp_mutex (cs_pages s' i) = m"
    "\<And>j. j \<noteq> i \<Longrightarrow> cs_pages s' j = cs_pages s j" "cs_pc s' = (cs_pc s)(t := p)"
    "\<And>u. u \<noteq> t \<Longrightarrow> cs_held s' u = cs_held s u"
    "\<And>j. j \<noteq> i \<Longrightarrow> cs_held s' t j = cs_held s t j"
    "table_mode p = table_mode (cs_pc s t)"
    "\<And>j e. frame_lock p = Some (j, e) \<Longrightarrow> j = i \<and> cs_held s' t j = None"
    "\<And>j e. frame_lock (cs_pc s t) = Some (j, e) \<Longrightarrow> j = i"
  shows "locks_inv s'"
proof -
  have other: "frame_mode s' j u = frame_mode s j u" if "u \<noteq> t" for j u
    using assms(6,7) that by (intro frame_mode_cong) simp_all
  have "frame_mode s' i = (frame_mode s i)(t := frame_mode s' i t)"
    using other by auto
  then have "mx_ok (cp_mutex (cs_pages s' i)) (frame_mode s' i)" using assms(2,4) by simp
  moreover have same: "frame_mode s' j u = frame_mode s j u" if "j \<noteq> i" for j u
    using assms(6,8,10,11) that other [of u j]
    by (cases "u = t") (fastforce simp: frame_mode_def split: option.splits)+
  have "frame_mode s' j = frame_mode s j" if "j \<noteq> i" for j
    by (rule ext) (rule same [OF that])
  then have "mx_ok (cp_mutex (cs_pages s' j)) (frame_mode s' j)" if "j \<noteq> i" for j
    using assms(1) assms(5) [OF that] that by (simp add: locks_inv_def)
  moreover have "mx_ok (cs_mutex s') (\<lambda>u. table_mode (cs_pc s' u))"
    using assms(1,3,6,9) by (auto simp: locks_inv_def elim!: mx_ok_cong)
  moreover have "frame_lock (cs_pc s' u) = Some (j, e) \<Longrightarrow> cs_held s' u j = None" for u j e
    using assms(1,6,7,10) by (cases "u = t") (auto simp: locks_inv_def)
  ultimately show ?thesis unfolding locks_inv_def by metis
qed

text \<open>Taking the table mutex, and giving it back.\<close>

lemma locks_lock_table:
  assumes "locks_inv s" "lock_table x t s = Some s1" "table_mode p = Some x"
    "frame_lock p = frame_lock (cs_pc s t)"
  shows "locks_inv (goto t p s1)"
proof -
  obtain m where m: "mx_lock x t (cs_mutex s) = Some m" "s1 = s\<lparr>cs_mutex := m\<rparr>"
    using assms(2) by (auto simp: lock_table_def)
  have "mx_ok m ((\<lambda>u. table_mode (cs_pc s u))(t := Some x))"
    using mx_lock_ok(1) [OF _ m(1)] assms(1) by (simp add: locks_inv_def)
  then show ?thesis
    by (intro locks_table [OF assms(1), where t = t and p = p and m = m])
      (simp_all add: m(2) goto_def assms(3,4))
qed

lemma locks_unlock_table:
  assumes "locks_inv s" "unlock_table x t s = Some s1" "table_mode p = None"
    "frame_lock p = frame_lock (cs_pc s t)"
  shows "locks_inv (goto t p s1)"
proof -
  obtain m where m: "mx_unlock x t (cs_mutex s) = Some m" "s1 = s\<lparr>cs_mutex := m\<rparr>"
    using assms(2) by (auto simp: unlock_table_def)
  have "mx_ok m ((\<lambda>u. table_mode (cs_pc s u))(t := None))"
    using mx_unlock_ok(1) [OF _ m(1)] assms(1) by (simp add: locks_inv_def)
  then show ?thesis
    by (intro locks_table [OF assms(1), where t = t and p = p and m = m])
      (simp_all add: m(2) goto_def assms(3,4))
qed

text \<open>The same for the mutex of a page, inside a call.\<close>

lemma locks_lock_frame:
  assumes "locks_inv s" "lock_frame e t i s = Some s1" "frame_lock p = Some (i, e)"
    "frame_lock (cs_pc s t) = None" "table_mode p = table_mode (cs_pc s t)"
  shows "locks_inv (goto t p s1)"
proof -
  obtain m where m: "mx_lock e t (cp_mutex (cs_pages s i)) = Some m"
      "s1 = upd_page i (\<lambda>p. p\<lparr>cp_mutex := m\<rparr>) s"
    using assms(2) by (auto simp: lock_frame_def)
  have ok: "mx_ok (cp_mutex (cs_pages s i)) (frame_mode s i)"
    using assms(1) by (simp add: locks_inv_def)
  have "mx_ok m ((frame_mode s i)(t := Some e))" "frame_mode s i t = None"
    using mx_lock_ok [OF ok m(1)] by simp_all
  moreover from this have "cs_held s t i = None" by (auto simp: frame_mode_def split: option.splits)
  moreover from this have "frame_mode (goto t p s1) i t = Some e"
    by (simp add: frame_mode_def goto_def m(2) upd_page_def assms(3))
  ultimately show ?thesis
    by (intro locks_frame [OF assms(1), where t = t and p = p and m = m and i = i])
      (simp_all add: m(2) goto_def upd_page_def assms(3-5))
qed

lemma locks_unlock_frame:
  assumes "locks_inv s" "unlock_frame e t i s = Some s1" "frame_lock p = None"
    "frame_lock (cs_pc s t) = Some (i, e)" "table_mode p = table_mode (cs_pc s t)"
  shows "locks_inv (goto t p s1)"
proof -
  obtain m where m: "mx_unlock e t (cp_mutex (cs_pages s i)) = Some m"
      "s1 = upd_page i (\<lambda>p. p\<lparr>cp_mutex := m\<rparr>) s"
    using assms(2) by (auto simp: unlock_frame_def)
  have ok: "mx_ok (cp_mutex (cs_pages s i)) (frame_mode s i)"
    using assms(1) by (simp add: locks_inv_def)
  have "mx_ok m ((frame_mode s i)(t := None))" using mx_unlock_ok [OF ok m(1)] by simp
  moreover have "cs_held s t i = None" using assms(1,4) by (simp add: locks_inv_def)
  moreover from this have "frame_mode (goto t p s1) i t = None"
    by (simp add: frame_mode_def goto_def m(2) upd_page_def assms(3))
  ultimately show ?thesis
    by (intro locks_frame [OF assms(1), where t = t and p = p and m = m and i = i])
      (simp_all add: m(2) goto_def upd_page_def assms(3-5))
qed

text \<open>The locks of the pages that a client has: taken by \<open>pinPage\<close>, handed to \<open>unpinPage\<close>.\<close>

lemma locks_pin:
  assumes "locks_inv s" "cs_pc s t = LockPage r i e" "run_step N slot t (LockPage r i e) s = Some s'"
  shows "locks_inv s'"
proof -
  obtain m where m: "mx_lock e t (cp_mutex (cs_pages s i)) = Some m"
      "s' = goto t Idle ((upd_page i (\<lambda>p. p\<lparr>cp_mutex := m\<rparr>) s)\<lparr>cs_held := (cs_held s)
         (t := (cs_held s t)(i \<mapsto> \<lparr>h_block = rq_block r, h_excl = e, h_mod = False\<rparr>))\<rparr>)"
    using assms(3) by (auto simp: lock_frame_def upd_page_def)
  have "mx_ok (cp_mutex (cs_pages s i)) (frame_mode s i)"
    using assms(1) by (simp add: locks_inv_def)
  from mx_lock_ok [OF this m(1)] have "mx_ok m ((frame_mode s i)(t := Some e))" by simp
  moreover have "frame_mode s' i t = Some e"
    by (simp add: frame_mode_def m(2) goto_def upd_page_def)
  ultimately show ?thesis
    by (intro locks_frame [OF assms(1), where t = t and p = Idle and m = m and i = i])
      (simp_all add: m(2) goto_def upd_page_def assms(2))
qed

lemma locks_unpin:
  assumes "locks_inv s" "cs_pc s t = Idle" "cs_held s t i = Some h"
  shows "locks_inv (goto t (UnpinDirty (h_block h) i (h_excl h) d)
           (s\<lparr>cs_held := (cs_held s)(t := (cs_held s t)(i := None))\<rparr>))" (is "locks_inv ?s'")
proof -
  have "frame_mode s i t = frame_mode ?s' i t" using assms(3) by (simp add: frame_mode_def goto_def)
  then have "(frame_mode s i)(t := frame_mode ?s' i t) = frame_mode s i" by (rule fun_upd_idem)
  then have "mx_ok (cp_mutex (cs_pages s i)) ((frame_mode s i)(t := frame_mode ?s' i t))"
    using assms(1) by (simp add: locks_inv_def)
  then show ?thesis
    by (intro locks_frame [OF assms(1), where t = t and i = i and p = "UnpinDirty (h_block h) i (h_excl h) d"])
      (simp_all add: goto_def assms(2))
qed

lemma locks_write:
  assumes "locks_inv s" "cs_held s t i = Some h" "cs_held s' = (cs_held s)(t := (cs_held s t)(i \<mapsto> h'))"
    "h_excl h' = h_excl h" "cs_pc s' = cs_pc s" "cs_mutex s' = cs_mutex s"
    "\<And>j. cp_mutex (cs_pages s' j) = cp_mutex (cs_pages s j)"
  shows "locks_inv s'"
proof -
  have "frame_mode s' j u = frame_mode s j u" for j u
  proof (cases "u = t \<and> j = i")
    case True
    then show ?thesis using assms(2-4) by (simp add: frame_mode_def)
  next
    case False
    then show ?thesis using assms(3,5) by (intro frame_mode_cong) auto
  qed
  then have "frame_mode s' j = frame_mode s j" for j by (rule ext)
  then show ?thesis using assms by (auto simp: locks_inv_def)
qed

lemma locks_run_step:
  assumes inv: "locks_inv s" and step: "run_step N slot t (cs_pc s t) s = Some s'"
  shows "locks_inv s'"
proof (cases "cs_pc s t")
  case (Lookup r x)
  with step show ?thesis
    by (intro locks_move [OF inv, where t = t and p = "cs_pc s' t"])
      (auto simp: look_up_def take_free_def after_occupy_def step_simps split: option.splits if_splits)
next
  case (Touch r i)
  then obtain s1 where "touch_queue (rq_block r) i s = Some s1"
      "s' = goto t (UnlockTable r True i) s1" using step by auto
  then show ?thesis
    using Touch by (intro locks_move [OF inv, where t = t and p = "cs_pc s' t"])
      (simp_all add: goto_def touch_queue_fields)
next
  case (CheckDirty r l k i)
  with step show ?thesis
    by (intro locks_move [OF inv, where t = t and p = "cs_pc s' t"])
      (auto simp: reuse_def after_occupy_def step_simps split: sum.splits if_splits)
next
  case (LockPage r i e)
  with locks_pin [OF inv] step show ?thesis by simp
next
  case (LockTable r x)
  with step show ?thesis by (auto intro: locks_lock_table [OF inv])
next
  case (Relock r l k i)
  with step show ?thesis by (auto intro: locks_lock_table [OF inv])
next
  case (Retry r x y)
  with step show ?thesis by (auto intro: locks_unlock_table [OF inv])
next
  case (UnlockTable r x i)
  with step show ?thesis by (auto intro: locks_unlock_table [OF inv])
next
  case (LoadUnlockTable r i)
  with step show ?thesis by (auto intro: locks_unlock_table [OF inv])
next
  case (SaveUnlockTable r x l k i)
  with step show ?thesis by (auto intro: locks_unlock_table [OF inv])
next
  case (FreeTable r l k i)
  with step show ?thesis by (auto intro: locks_unlock_table [OF inv])
next
  case (LoadLock r i)
  with step show ?thesis by (auto intro: locks_lock_frame [OF inv])
next
  case (SaveLock r x l k i)
  with step show ?thesis by (auto intro: locks_lock_frame [OF inv])
next
  case (LoadUnlock r i)
  with step show ?thesis by (auto intro: locks_unlock_frame [OF inv])
next
  case (SaveUnlock r l k i)
  with step show ?thesis by (auto intro: locks_unlock_frame [OF inv])
next
  case (UnpinUnlock b i e)
  with step show ?thesis by (auto intro: locks_unlock_frame [OF inv])
qed (use step in \<open>auto intro!: locks_move [OF inv, where t = t and p = "cs_pc s' t"]
     simp: step_simps split: if_splits\<close>)

lemma locks_step:
  assumes inv: "locks_inv s" and step: "cstep N slot ev t s = Some s'"
  shows "locks_inv s'"
proof (cases ev)
  case Step
  with step show ?thesis by (auto intro: locks_run_step [OF inv])
next
  case (CallPin r)
  with step show ?thesis
    by (intro locks_move [OF inv, where t = t and p = "cs_pc s' t"])
      (auto simp: goto_def split: pc.splits)
next
  case (Write i d)
  with step show ?thesis
    by (auto split: pc.splits option.splits intro!: locks_write [OF inv] simp: upd_page_def)
next
  case (CallUnpin i dirty)
  with step show ?thesis
    by (auto split: pc.splits option.splits intro!: locks_unpin [OF inv])
qed

text \<open>Two consequences: an exclusive owner is alone.\<close>

lemma table_alone:
  "locks_inv s \<Longrightarrow> table_mode (cs_pc s t) = Some True \<Longrightarrow> u \<noteq> t \<Longrightarrow> table_mode (cs_pc s u) = None"
  by (auto simp: locks_inv_def dest: mx_alone)

lemma frame_alone:
  "locks_inv s \<Longrightarrow> frame_mode s i t = Some True \<Longrightarrow> u \<noteq> t \<Longrightarrow> frame_mode s i u = None"
  by (auto simp: locks_inv_def dest: mx_alone)

end
