(* ===== verification/PinTable.thy ===== *)
theory PinTable
  imports PinLocks
begin

text \<open>
  The table of loaded blocks under threads. \<open>table_inv\<close>: every block of the table has a
  page of its own with the block's number in it, the unused indices are the others, and
  the entries of the two queues are entries of the table. Only three kinds of steps change
  any of this, all of them under the exclusive table mutex (\<open>run_step_table\<close>).
\<close>

section \<open>Invariant\<close>

definition queues_ok :: "cstate \<Rightarrow> bool" where
  "queues_ok s \<longleftrightarrow>
     q_inv (cs_fifo s) \<and> q_inv (cs_lru s) \<and>
     fst ` set (getList (cs_fifo s)) \<inter> fst ` set (getList (cs_lru s)) = {} \<and>
     (\<forall>k i. (k, i) \<in> set (getList (cs_fifo s)) \<union> set (getList (cs_lru s)) \<longrightarrow>
        map_of (cs_table s) k = Some i)"

lemma queues_okD:
  assumes "queues_ok s"
  shows "q_inv (cs_fifo s)" "q_inv (cs_lru s)" "q_inv (cs_queue l s)"
    "(k, i) \<in> set (getList (cs_queue l s)) \<Longrightarrow> map_of (cs_table s) k = Some i"
    "(k, i) \<in> set (getList (cs_fifo s)) \<Longrightarrow> map_of (cs_table s) k = Some i"
    "(k, i) \<in> set (getList (cs_lru s)) \<Longrightarrow> map_of (cs_table s) k = Some i"
    "fst ` set (getList (cs_fifo s)) \<inter> fst ` set (getList (cs_lru s)) = {}"
  using assms by (auto simp: queues_ok_def cs_queue_def split: if_splits)

text \<open>Other queues over the same table.\<close>

lemma queues_okI:
  assumes "q_inv F" "q_inv L" "fst ` set (getList F) \<inter> fst ` set (getList L) = {}"
    "\<And>k i. (k, i) \<in> set (getList F) \<union> set (getList L) \<Longrightarrow> map_of (cs_table s) k = Some i"
  shows "queues_ok (s\<lparr>cs_fifo := F, cs_lru := L\<rparr>)"
  using assms by (simp add: queues_ok_def)

definition slots_ok :: "nat \<Rightarrow> nat \<Rightarrow> cstate \<Rightarrow> bool" where
  "slots_ok N c s \<longleftrightarrow>
     distinct (map fst (cs_table s)) \<and>
     (\<forall>b i. map_of (cs_table s) b = Some i \<longrightarrow>
        i < N \<and> i \<notin> cs_free s \<and> cp_id (cs_pages s i) = b) \<and>
     cs_free s \<subseteq> {..<N} \<and> length (cs_table s) + card (cs_free s) = c"

definition table_inv :: "nat \<Rightarrow> cstate \<Rightarrow> bool" where
  "table_inv N s \<longleftrightarrow> slots_ok N N s \<and> queues_ok s"

definition same_table :: "cstate \<Rightarrow> cstate \<Rightarrow> bool" where
  "same_table s s' \<longleftrightarrow>
     cs_table s' = cs_table s \<and> cs_free s' = cs_free s \<and> cs_fifo s' = cs_fifo s \<and>
     cs_lru s' = cs_lru s \<and> (\<forall>i. cp_id (cs_pages s' i) = cp_id (cs_pages s i))"

lemma same_table_queue: "same_table s s' \<Longrightarrow> cs_queue l s' = cs_queue l s"
  by (simp add: same_table_def cs_queue_def)

lemma table_inv_same: "same_table s s' \<Longrightarrow> table_inv N s' = table_inv N s"
  by (simp add: table_inv_def slots_ok_def queues_ok_def same_table_queue, simp add: same_table_def)

lemma table_inv_init: "table_inv N (cs_init B N disk)"
  by (simp add: table_inv_def slots_ok_def queues_ok_def cs_init_def q_empty_inv cs_queue_def)

lemma slot_unique:
  "slots_ok N c s \<Longrightarrow> map_of (cs_table s) b = Some i \<Longrightarrow> map_of (cs_table s) b' = Some i \<Longrightarrow> b = b'"
  by (metis slots_ok_def)

lemma queue_key_table:
  assumes "queues_ok s" "k \<in> fst ` set (getList (cs_queue l s))" "map_of (cs_table s) k = Some i"
  shows "(k, i) \<in> set (getList (cs_queue l s))"
proof -
  obtain j where j: "(k, j) \<in> set (getList (cs_queue l s))" using assms(2) by auto
  then have "map_of (cs_table s) k = Some j" by (rule queues_okD(4) [OF assms(1)])
  with j assms(3) show ?thesis by simp
qed

lemma queue_find_ok:
  assumes "queues_ok s" "k \<in> fst ` set (getList (cs_queue l s))"
  shows "\<exists>i. queue_find l k s = Some i \<and> map_of (cs_table s) k = Some i"
proof -
  obtain i where i: "(k, i) \<in> set (getList (cs_queue l s))" using assms(2) by auto
  moreover have "map_of (cs_table s) k = Some i" using i by (rule queues_okD(4) [OF assms(1)])
  moreover note queues_okD(1,2) [OF assms(1)]
  ultimately show ?thesis
    by (cases l) (simp_all add: queue_find_def cs_queue_def fifo_find_ok lru_find_False)
qed

section \<open>The steps that change the table\<close>

text \<open>\<open>slots_ok\<close> with a count: while a page is given away it is neither free nor in the table.\<close>

lemma occupy_slots:
  assumes "slots_ok N c s" "i < N" "i \<notin> cs_free s" "\<And>b. map_of (cs_table s) b \<noteq> Some i"
    "map_of (cs_table s) (rq_block r) = None"
  shows "slots_ok N (Suc c) (occupy r i s)"
proof -
  have "rq_block r \<notin> fst ` set (cs_table s)" using assms(5) by (simp add: map_of_eq_None_iff)
  then have "length (AList.update (rq_block r) i (cs_table s)) = Suc (length (cs_table s))"
    by (simp add: update_notin)
  then show ?thesis
    using assms by (auto simp: slots_ok_def occupy_def Let_def upd_page_def update_conv' distinct_update
      split: if_splits)
qed

lemma occupy_queues:
  assumes "queues_ok s" "map_of (cs_table s) (rq_block r) = None"
  shows "queues_ok (occupy r i s)"
proof -
  note q = queues_okD [OF assms(1)]
  have new: "rq_block r \<notin> fst ` set (getList (cs_fifo s))" "rq_block r \<notin> fst ` set (getList (cs_lru s))"
    using q(5,6) assms(2) by force+
  note F = q_insert_ok [OF q(1) new(1), of i]
  have "map_of (AList.update (rq_block r) i (cs_table s)) k = Some j"
    if "(k, j) \<in> set ((rq_block r, i) # getList (cs_fifo s)) \<union> set (getList (cs_lru s))" for k j
    using that q(5,6) [of k j] assms(2) by (auto simp: update_conv')
  then show ?thesis
    using F q(2,7) new by (simp add: queues_ok_def occupy_def Let_def upd_page_def)
qed

lemma table_inv_goto [simp]: "table_inv N (goto t p s) = table_inv N s"
  by (rule table_inv_same) (simp add: same_table_def goto_def)

lemma table_inv_set_pins [simp]: "table_inv N (set_pins i f s) = table_inv N s"
  by (rule table_inv_same) (simp add: same_table_def set_pins_def upd_page_def)

lemma take_free_table:
  assumes inv: "table_inv N s" and none: "map_of (cs_table s) (rq_block r) = None"
    and free: "cs_free s \<noteq> {}" and slot: "\<And>F. finite F \<Longrightarrow> F \<noteq> {} \<Longrightarrow> slot F \<in> F"
    and step: "take_free slot t r s = Some s'"
  shows "table_inv N s'" "slot (cs_free s) \<in> cs_free s" "slot (cs_free s) < N"
    "\<And>b. map_of (cs_table s) b \<noteq> Some (slot (cs_free s))"
proof -
  let ?i = "slot (cs_free s)" and ?s = "s\<lparr>cs_free := cs_free s - {slot (cs_free s)}\<rparr>"
  have fin: "finite (cs_free s)" "cs_free s \<subseteq> {..<N}"
    using inv finite_subset by (auto simp: table_inv_def slots_ok_def)
  then show i: "?i \<in> cs_free s" using slot free by blast
  with fin show N: "?i < N" by auto
  show new: "map_of (cs_table s) b \<noteq> Some ?i" for b
    using inv i by (auto simp: table_inv_def slots_ok_def)
  have "card (cs_free s) = Suc (card (cs_free s - {?i}))"
    using i fin(1) card_Suc_Diff1 by metis
  then have "slots_ok N (N - 1) ?s"
    using inv by (auto simp: table_inv_def slots_ok_def)
  then have "slots_ok N (Suc (N - 1)) (occupy r ?i ?s)"
    using new none N by (intro occupy_slots) simp_all
  moreover have "queues_ok ?s" using inv by (auto simp: table_inv_def queues_ok_def cs_queue_def)
  then have "queues_ok (occupy r ?i ?s)" using none by (intro occupy_queues) simp_all
  ultimately have "table_inv N (occupy r ?i ?s)" using N by (simp add: table_inv_def)
  then show "table_inv N s'"
    using step free by (auto simp: take_free_def Let_def)
qed

lemma touch_table:
  assumes inv: "table_inv N s" and b: "map_of (cs_table s) b = Some i"
  shows "\<exists>s'. touch_queue b i s = Some s' \<and> table_inv N s'"
proof -
  have ok: "queues_ok s" using inv by (simp add: table_inv_def)
  note q = queues_okD [OF ok] and mem = queue_key_table [OF ok _ b]
  have slots: "slots_ok N N (s\<lparr>cs_fifo := F, cs_lru := L\<rparr>)" for F L
    using inv by (simp add: table_inv_def slots_ok_def)
  let ?f = "b \<in> fst ` set (getList (cs_fifo s))" and ?l = "b \<in> fst ` set (getList (cs_lru s))"
  have "\<exists>F L. touch_queue b i s = Some (s\<lparr>cs_fifo := F, cs_lru := L\<rparr>) \<and>
      queues_ok (s\<lparr>cs_fifo := F, cs_lru := L\<rparr>)"
  proof -
    consider "?f" | "\<not> ?f" "?l" | "\<not> ?f" "\<not> ?l" by blast
    then show ?thesis
    proof cases
      case 1
      then have "(b, i) \<in> set (getList (cs_fifo s))" using mem [of False] by (simp add: cs_queue_def)
      from q_remove_ok [OF q(1) this] obtain F where F: "q_remove (cs_fifo s) b = Inr ((b, i), F)"
          "q_inv F" "getList F = filter (\<lambda>e. fst e \<noteq> b) (getList (cs_fifo s))"
        by blast
      have "b \<notin> fst ` set (getList (cs_lru s))" using 1 q(7) by blast
      note L = q_insert_ok [OF q(2) this, of i]
      have "queues_ok (s\<lparr>cs_fifo := F, cs_lru := q_insert (cs_lru s) b i\<rparr>)"
        by (rule queues_okI) (use F(2,3) L q(5-7) b in auto)
      then show ?thesis
        using 1 q(1) F(1) by (intro exI [of _ F] exI [of _ "q_insert (cs_lru s) b i"])
          (simp add: touch_queue_def q_contains_iff)
    next
      case 2
      then have "(b, i) \<in> set (getList (cs_lru s))" using mem [of True] by (simp add: cs_queue_def)
      from lru_find_set [OF q(2) this, of True] obtain L where
          L: "lru_find (cs_lru s) b True = Inr (i, L)"
          "q_inv L" "set (getList L) = set (getList (cs_lru s))"
        by blast
      have "queues_ok (s\<lparr>cs_fifo := cs_fifo s, cs_lru := L\<rparr>)"
        by (rule queues_okI) (use L(2,3) q(1,5-7) in auto)
      then show ?thesis
        using 2 q(1,2) L(1) by (intro exI [of _ "cs_fifo s"] exI [of _ L])
          (simp add: touch_queue_def q_contains_iff)
    next
      case 3
      note F = q_insert_ok [OF q(1) 3(1), of i]
      have "queues_ok (s\<lparr>cs_fifo := q_insert (cs_fifo s) b i, cs_lru := cs_lru s\<rparr>)"
        by (rule queues_okI) (use F q(2,5-7) 3(2) b in auto)
      then show ?thesis
        using 3 q(1,2) by (intro exI [of _ "q_insert (cs_fifo s) b i"] exI [of _ "cs_lru s"])
          (simp add: touch_queue_def q_contains_iff)
    qed
  qed
  then show ?thesis using slots by (auto simp: table_inv_def)
qed

lemma length_delete_present:
  assumes "distinct (map fst xs)" "map_of xs k = Some v"
  shows "Suc (length (AList.delete k xs)) = length xs"
proof -
  have "k \<in> fst ` set xs" using assms(2) by (metis map_of_eq_None_iff option.distinct(1))
  then have "Suc (card (fst ` set xs - {k})) = card (fst ` set xs)"
    using card_Suc_Diff1 by (metis List.finite_set finite_imageI)
  moreover have "card (fst ` set ys) = length ys" if "distinct (map fst ys)" for ys :: "('a \<times> 'b) list"
    using distinct_card [OF that] by simp
  moreover have "fst ` set (AList.delete k xs) = fst ` set xs - {k}"
    by (simp add: dom_map_of_conv_image_fst [symmetric] delete_conv')
  ultimately show ?thesis using assms(1) distinct_delete by metis
qed

lemma reuse_table:
  assumes inv: "table_inv N s" and none: "map_of (cs_table s) (rq_block r) = None"
    and k: "map_of (cs_table s) k = Some i" and q: "q_contains (cs_queue l s) k"
  shows "\<exists>F L. reuse t r l k i s = Some (goto t (after_occupy r i) (occupy r i
           (s\<lparr>cs_table := AList.delete k (cs_table s), cs_fifo := F, cs_lru := L\<rparr>))) \<and>
         table_inv N (occupy r i (s\<lparr>cs_table := AList.delete k (cs_table s), cs_fifo := F, cs_lru := L\<rparr>))"
proof -
  have ok: "queues_ok s" and sl: "slots_ok N N s" using inv by (simp_all add: table_inv_def)
  note Q = queues_okD [OF ok]
  have "k \<in> fst ` set (getList (cs_queue l s))" using q Q(3) [of l] by (simp add: q_contains_iff)
  then have "(k, i) \<in> set (getList (cs_queue l s))" using queue_key_table [OF ok _ k] by blast
  from q_remove_ok [OF Q(3) this] obtain q' where q': "q_remove (cs_queue l s) k = Inr ((k, i), q')"
      "q_inv q'" "getList q' = filter (\<lambda>e. fst e \<noteq> k) (getList (cs_queue l s))"
    by blast
  define F where "F = (if l then cs_fifo s else q')"
  define L where "L = (if l then q' else cs_lru s)"
  let ?s = "s\<lparr>cs_table := AList.delete k (cs_table s), cs_fifo := F, cs_lru := L\<rparr>"
  have sub: "set (getList F) \<subseteq> set (getList (cs_fifo s))" "set (getList L) \<subseteq> set (getList (cs_lru s))"
    using q'(3) by (auto simp: F_def L_def cs_queue_def)
  have "k \<notin> fst ` set (getList (cs_queue (\<not> l) s))"
    using Q(7) \<open>k \<in> fst ` set (getList (cs_queue l s))\<close> unfolding cs_queue_def
    by (cases l) (simp_all only: if_True if_False not_True_eq_False not_False_eq_True, blast+)
  then have "k \<notin> fst ` set (getList F)" "k \<notin> fst ` set (getList L)"
    using q'(3) by (auto simp: F_def L_def cs_queue_def)
  then have "map_of (AList.delete k (cs_table s)) k' = Some j"
    if "(k', j) \<in> set (getList F) \<union> set (getList L)" for k' j
    using that sub Q(5,6) [of k' j] by (force simp: delete_conv')
  moreover have disj: "fst ` set (getList F) \<inter> fst ` set (getList L) = {}"
    using Q(7) image_mono [OF sub(1), of fst] image_mono [OF sub(2), of fst] by blast
  ultimately have "queues_ok (s\<lparr>cs_table := AList.delete k (cs_table s), cs_fifo := F, cs_lru := L\<rparr>)"
    using Q(1,2) q'(2) disj by (simp add: queues_ok_def) (simp add: F_def L_def)
  moreover have uni: "map_of (cs_table s) b = Some i \<Longrightarrow> b = k" for b
    using slot_unique [OF sl _ k] by blast
  moreover have c: "Suc (length (AList.delete k (cs_table s))) = length (cs_table s)"
    using sl k by (intro length_delete_present) (simp_all add: slots_ok_def)
  then have "slots_ok N (N - 1) ?s"
    using sl by (auto simp: slots_ok_def delete_conv' distinct_delete split: if_splits)
  moreover have "N > 0" "i < N" "i \<notin> cs_free s" using sl k by (auto simp: slots_ok_def)
  moreover have "map_of (cs_table ?s) b \<noteq> Some i" for b
    using uni [of b] by (auto simp: delete_conv')
  moreover have "map_of (cs_table ?s) (rq_block r) = None" using none by (simp add: delete_conv')
  ultimately have "table_inv N (occupy r i ?s)"
    using occupy_slots [of N "N - 1" ?s i r] occupy_queues [of ?s r i] by (simp add: table_inv_def)
  moreover have "reuse t r l k i s = Some (goto t (after_occupy r i) (occupy r i ?s))"
    using q'(1) by (simp add: reuse_def set_queue_def F_def L_def)
  ultimately show ?thesis by blast
qed

section \<open>Which steps change the table\<close>

lemma run_step_table:
  assumes "run_step N slot t p s = Some s'"
  shows "same_table s s' \<or>
    (\<exists>r. p = Lookup r True \<and> map_of (cs_table s) (rq_block r) = None \<and> cs_free s \<noteq> {} \<and>
       take_free slot t r s = Some s') \<or>
    (\<exists>r i s1. p = Touch r i \<and> touch_queue (rq_block r) i s = Some s1 \<and> s' = goto t (UnlockTable r True i) s1) \<or>
    (\<exists>r l k i. p = CheckDirty r l k i \<and> \<not> cp_dirty (cs_pages s i) \<and> reuse t r l k i s = Some s')"
proof (cases p)
  case (Lookup r x)
  with assms show ?thesis
    by (auto simp: look_up_def same_table_def step_simps take_free_def split: option.splits if_splits)
qed (use assms in \<open>auto simp: same_table_def step_simps split: if_splits\<close>)

end
