(* ===== verification/PinRefs.thy ===== *)
theory PinRefs
  imports PinTable
begin

text \<open>
  The pins under threads. A thread refers to a page from the moment it has counted its pin
  up to the moment it counts it down again, inside a call (\<open>page_ref\<close>) or as a client that
  has pinned the page. \<open>pins_inv\<close>: the counter of a page is the number of these references.
  \<open>refs_inv\<close>: the table still has the block at the page a thread refers to, that is, no page
  is taken away under a thread. \<open>sole_inv\<close>: at two points of \<open>pinPage\<close> the thread is known to be
  the only one that refers to the page.
\<close>

section \<open>References\<close>

fun page_ref :: "pc \<Rightarrow> (nat \<times> block_id) option" where
  "page_ref (BackOff r i) = Some (i, rq_block r)"
| "page_ref (Touch r i) = Some (i, rq_block r)"
| "page_ref (UnlockTable r x i) = Some (i, rq_block r)"
| "page_ref (Decide r i) = Some (i, rq_block r)"
| "page_ref (LockPage r i e) = Some (i, rq_block r)"
| "page_ref (LoadLock r i) = Some (i, rq_block r)"
| "page_ref (LoadUnlockTable r i) = Some (i, rq_block r)"
| "page_ref (Load r i) = Some (i, rq_block r)"
| "page_ref (LoadUnlock r i) = Some (i, rq_block r)"
| "page_ref (TestDirty r x l k i) = Some (i, k)"
| "page_ref (ClearDirty r x l k i) = Some (i, k)"
| "page_ref (SaveLock r x l k i) = Some (i, k)"
| "page_ref (SaveUnlockTable r x l k i) = Some (i, k)"
| "page_ref (Save r l k i) = Some (i, k)"
| "page_ref (SaveUnlock r l k i) = Some (i, k)"
| "page_ref (FreeTable r l k i) = Some (i, k)"
| "page_ref (Relock r l k i) = Some (i, k)"
| "page_ref (Check r l k i) = Some (i, k)"
| "page_ref (CheckDirty r l k i) = Some (i, k)"
| "page_ref (GiveUp r k i) = Some (i, k)"
| "page_ref (UnpinDirty b i e d) = Some (i, b)"
| "page_ref (UnpinUnlock b i e) = Some (i, b)"
| "page_ref (UnpinDec b i) = Some (i, b)"
| "page_ref p = None"

definition ref_slot :: "pc \<Rightarrow> nat option" where
  "ref_slot p = map_option fst (page_ref p)"

definition workers :: "cstate \<Rightarrow> nat \<Rightarrow> tid set" where
  "workers s i = {t. ref_slot (cs_pc s t) = Some i}"

definition owners :: "cstate \<Rightarrow> nat \<Rightarrow> tid set" where
  "owners s i = {t. cs_held s t i \<noteq> None}"

definition pins_inv :: "cstate \<Rightarrow> bool" where
  "pins_inv s \<longleftrightarrow>
     (\<forall>i. finite (workers s i) \<and> finite (owners s i) \<and>
          cp_pins (cs_pages s i) = card (workers s i) + card (owners s i))"

text \<open>What a thread knows of the table at its program point.\<close>

fun scan_ok :: "cstate \<Rightarrow> pc \<Rightarrow> bool" where
  "scan_ok s (Scan r x l es) \<longleftrightarrow> set es \<subseteq> set (getList (cs_queue l s))"
| "scan_ok s (Found r x l k) \<longleftrightarrow> k \<in> fst ` set (getList (cs_queue l s))"
| "scan_ok s (CheckDirty r l k i) \<longleftrightarrow>
     map_of (cs_table s) (rq_block r) = None \<and> q_contains (cs_queue l s) k"
| "scan_ok s p \<longleftrightarrow> True"

definition pc_ok :: "cstate \<Rightarrow> pc \<Rightarrow> bool" where
  "pc_ok s p \<longleftrightarrow> scan_ok s p \<and>
     (\<forall>i b. page_ref p = Some (i, b) \<longrightarrow> map_of (cs_table s) b = Some i)"

definition refs_inv :: "cstate \<Rightarrow> bool" where
  "refs_inv s \<longleftrightarrow> (\<forall>t. pc_ok s (cs_pc s t)) \<and>
     (\<forall>t i h. cs_held s t i = Some h \<longrightarrow> map_of (cs_table s) (h_block h) = Some i)"

fun sole_page :: "pc \<Rightarrow> nat option" where
  "sole_page (LoadLock r i) = Some i"
| "sole_page (CheckDirty r l k i) = Some i"
| "sole_page p = None"

definition sole :: "cstate \<Rightarrow> tid \<Rightarrow> nat \<Rightarrow> bool" where
  "sole s t i \<longleftrightarrow> (\<forall>u. cs_held s u i = None \<and> (u \<noteq> t \<longrightarrow> ref_slot (cs_pc s u) \<noteq> Some i))"

definition sole_inv :: "cstate \<Rightarrow> bool" where
  "sole_inv s \<longleftrightarrow> (\<forall>t i. sole_page (cs_pc s t) = Some i \<longrightarrow> sole s t i)"

section \<open>The counter\<close>

lemma workers_upd: "cs_pc s' = (cs_pc s)(t := p) \<Longrightarrow>
    workers s' i = (if ref_slot p = Some i then insert t (workers s i) else workers s i - {t})"
  by (auto simp: workers_def)

lemma owners_upd: "cs_held s' = (cs_held s)(t := h) \<Longrightarrow>
    owners s' i = (if h i \<noteq> None then insert t (owners s i) else owners s i - {t})"
  by (auto simp: owners_def)

lemma card_member_change:
  assumes "finite A"
  shows "card (if P then insert t A else A - {t}) + of_bool (t \<in> A) = card A + of_bool P"
  using assms by (auto simp: card_insert_if card_Diff_singleton card_gt_0_iff
      intro: Suc_pred' dest: card_Suc_Diff1)

definition refs_of :: "cstate \<Rightarrow> tid \<Rightarrow> nat \<Rightarrow> nat" where
  "refs_of s t i = of_bool (ref_slot (cs_pc s t) = Some i) + of_bool (cs_held s t i \<noteq> None)"

text \<open>Every step changes the counter as it changes the references of its thread.\<close>

lemma pins_change:
  assumes inv: "pins_inv s" and pc: "cs_pc s' = (cs_pc s)(t := p)"
    and held: "cs_held s' = (cs_held s)(t := h)"
    and eq: "\<And>i. cp_pins (cs_pages s' i) + refs_of s t i = cp_pins (cs_pages s i) + refs_of s' t i"
  shows "pins_inv s'"
  unfolding pins_inv_def
proof
  fix i
  have fin: "finite (workers s i)" "finite (owners s i)"
    and n: "cp_pins (cs_pages s i) = card (workers s i) + card (owners s i)"
    using inv by (simp_all add: pins_inv_def)
  note W = workers_upd [where s = s and s' = s', OF pc, of i]
    and O = owners_upd [where s = s and s' = s', OF held, of i]
  have "card (workers s' i) + of_bool (t \<in> workers s i) = card (workers s i) + of_bool (ref_slot p = Some i)"
    unfolding W by (rule card_member_change [OF fin(1)])
  moreover have "card (owners s' i) + of_bool (t \<in> owners s i) = card (owners s i) + of_bool (h i \<noteq> None)"
    unfolding O by (rule card_member_change [OF fin(2)])
  moreover have "refs_of s t i = of_bool (t \<in> workers s i) + of_bool (t \<in> owners s i)"
      "refs_of s' t i = of_bool (ref_slot p = Some i) + of_bool (h i \<noteq> None)"
    by (simp_all add: refs_of_def workers_def owners_def pc held)
  ultimately have "cp_pins (cs_pages s' i) = card (workers s' i) + card (owners s' i)"
    using eq [of i] n by linarith
  moreover have "finite (workers s' i)" "finite (owners s' i)" using fin W O by simp_all
  ultimately show "finite (workers s' i) \<and> finite (owners s' i) \<and>
      cp_pins (cs_pages s' i) = card (workers s' i) + card (owners s' i)" by blast
qed

lemma pins_pos:
  assumes "pins_inv s" "ref_slot (cs_pc s t) = Some i \<or> cs_held s t i \<noteq> None"
  shows "cp_pins (cs_pages s i) > 0"
proof -
  have "t \<in> workers s i \<or> t \<in> owners s i" using assms(2) by (auto simp: workers_def owners_def)
  then show ?thesis using assms(1) by (auto simp: pins_inv_def card_gt_0_iff)
qed

lemma pins_one:
  assumes "pins_inv s" "ref_slot (cs_pc s t) = Some i" "cp_pins (cs_pages s i) = 1"
  shows "sole s t i"
proof -
  have "t \<in> workers s i" using assms(2) by (simp add: workers_def)
  moreover have fin: "finite (workers s i)" "finite (owners s i)"
    and n: "card (workers s i) + card (owners s i) = 1"
    using assms(1,3) by (auto simp: pins_inv_def)
  ultimately have "card (workers s i) > 0" by (auto simp: card_gt_0_iff)
  with n have "card (workers s i) = 1" "card (owners s i) = 0" by linarith+
  then have "workers s i = {t}" "owners s i = {}"
    using fin \<open>t \<in> workers s i\<close> by (auto simp: card_1_singleton_iff)
  then show ?thesis by (auto simp: sole_def workers_def owners_def)
qed

lemma pins_zero: "pins_inv s \<Longrightarrow> (\<And>t. ref_slot (cs_pc s t) \<noteq> Some i \<and> cs_held s t i = None) \<Longrightarrow>
    cp_pins (cs_pages s i) = 0"
  by (auto simp: pins_inv_def workers_def owners_def)

section \<open>A step keeps the references\<close>

lemma held_run_step:
  assumes "run_step N slot t (cs_pc s t) s = Some s'"
  shows "cs_held s' = cs_held s \<or>
    (\<exists>r i e. cs_pc s t = LockPage r i e \<and> cs_held s' = (cs_held s)(t := (cs_held s t)
       (i \<mapsto> \<lparr>h_block = rq_block r, h_excl = e, h_mod = False\<rparr>)) \<and> cs_pc s' = (cs_pc s)(t := Idle))"
    and "\<exists>p. cs_pc s' = (cs_pc s)(t := p)"
proof -
  have "(cs_held s' = cs_held s \<or>
    (\<exists>r i e. cs_pc s t = LockPage r i e \<and> cs_held s' = (cs_held s)(t := (cs_held s t)
       (i \<mapsto> \<lparr>h_block = rq_block r, h_excl = e, h_mod = False\<rparr>)) \<and> cs_pc s' = (cs_pc s)(t := Idle))) \<and>
    (\<exists>p. cs_pc s' = (cs_pc s)(t := p))"
  proof (cases "cs_pc s t")
    case (Lookup r x)
    with assms show ?thesis
      by (auto simp: look_up_def take_free_def step_simps split: option.splits if_splits)
  next
    case (CheckDirty r l k i)
    with assms show ?thesis by (auto simp: reuse_def step_simps split: sum.splits if_splits)
  next
    case (Touch r i)
    with assms show ?thesis by (auto simp: goto_def touch_queue_fields)
  qed (use assms in \<open>auto simp: step_simps\<close>)
  then show "cs_held s' = cs_held s \<or>
    (\<exists>r i e. cs_pc s t = LockPage r i e \<and> cs_held s' = (cs_held s)(t := (cs_held s t)
       (i \<mapsto> \<lparr>h_block = rq_block r, h_excl = e, h_mod = False\<rparr>)) \<and> cs_pc s' = (cs_pc s)(t := Idle))"
    and "\<exists>p. cs_pc s' = (cs_pc s)(t := p)"
    by blast+
qed

text \<open>A page that is free has no reference.\<close>

lemma refs_table:
  assumes "refs_inv s" "ref_slot (cs_pc s t) = Some i \<or> cs_held s t i \<noteq> None"
  shows "\<exists>b. map_of (cs_table s) b = Some i"
  using assms unfolding refs_inv_def pc_ok_def ref_slot_def by fastforce

lemma after_occupy_simps [simp]:
  "page_ref (after_occupy r i) = Some (i, rq_block r)" "table_mode (after_occupy r i) = Some True"
  "frame_lock (after_occupy r i) = None" "scan_ok s (after_occupy r i)"
  by (simp_all add: after_occupy_def)

lemma scan_next_simps [simp]:
  "page_ref (scan_next s r x l es) = None" "sole_page (scan_next s r x l es) = None"
  by (auto simp: scan_next_def split: list.splits)

lemma pins_run_step:
  assumes inv: "pins_inv s" "refs_inv s" "table_inv N s" "locks_inv s"
    and slot: "\<And>F. finite F \<Longrightarrow> F \<noteq> {} \<Longrightarrow> slot F \<in> F"
    and step: "run_step N slot t (cs_pc s t) s = Some s'"
  shows "pins_inv s'"
proof -
  have "\<exists>h. cs_held s' = (cs_held s)(t := h)"
    using held_run_step(1) [OF step] by (metis fun_upd_triv)
  then obtain h where held: "cs_held s' = (cs_held s)(t := h)" ..
  obtain p where p: "cs_pc s' = (cs_pc s)(t := p)" using held_run_step(2) [OF step] ..
  have pos: "cp_pins (cs_pages s i) > 0" if "ref_slot (cs_pc s t) = Some i" for i
    using pins_pos [OF inv(1)] that by blast
  have "cp_pins (cs_pages s' i) + refs_of s t i = cp_pins (cs_pages s i) + refs_of s' t i" for i
  proof (cases "cs_pc s t")
    case (Lookup r x)
    show ?thesis
    proof (cases "map_of (cs_table s) (rq_block r) = None \<and> length (cs_table s) < N \<and> x")
      case True
      with Lookup step have tf: "take_free slot t r s = Some s'" by (simp add: look_up_def)
      then have ne: "cs_free s \<noteq> {}" by (auto simp: take_free_def)
      have "cp_pins (cs_pages s (slot (cs_free s))) = 0"
        using take_free_table(4) [OF inv(3) conjunct1 [OF True] ne slot tf] refs_table [OF inv(2)]
        by (intro pins_zero [OF inv(1)]) blast
      with tf ne Lookup show ?thesis
        by (auto simp: take_free_def step_simps refs_of_def ref_slot_def)
    next
      case False
      with Lookup step show ?thesis
        by (auto simp: look_up_def step_simps refs_of_def ref_slot_def split: option.splits if_splits)
    qed
  next
    case (CheckDirty r l k i)
    with step show ?thesis
      by (auto simp: reuse_def step_simps refs_of_def ref_slot_def
          split: sum.splits if_splits)
  next
    case (Touch r i)
    with step show ?thesis
      by (auto simp: goto_def touch_queue_fields refs_of_def ref_slot_def)
  next
    case (LockPage r i e)
    have "cs_held s t i = None"
    proof -
      obtain m where "mx_lock e t (cp_mutex (cs_pages s i)) = Some m"
        using step LockPage by (auto simp: lock_frame_def)
      from mx_lock_ok(2) [OF _ this] have "frame_mode s i t = None"
        using inv(4) by (simp add: locks_inv_def)
      then show ?thesis by (auto simp: frame_mode_def split: option.splits)
    qed
    with LockPage step show ?thesis
      by (auto simp: step_simps refs_of_def ref_slot_def)
  next
    case (BackOff r j)
    with step pos [of j] show ?thesis by (auto simp: step_simps refs_of_def ref_slot_def)
  next
    case (GiveUp r k j)
    with step pos [of j] show ?thesis by (auto simp: step_simps refs_of_def ref_slot_def)
  next
    case (UnpinDec b j)
    with step pos [of j] show ?thesis by (auto simp: step_simps refs_of_def ref_slot_def)
  next
    case (Check r l k j)
    with step show ?thesis by (simp add: step_simps refs_of_def ref_slot_def split: if_splits) auto
  next
    case (TestDirty r x l k j)
    with step show ?thesis by (simp add: step_simps refs_of_def ref_slot_def split: if_splits) auto
  qed (use step in \<open>auto simp: step_simps refs_of_def ref_slot_def\<close>)
  then show ?thesis by (rule pins_change [OF inv(1) p held])
qed

text \<open>The table still has what the threads refer to.\<close>

lemma pc_ok_same: "same_table s s' \<Longrightarrow> pc_ok s' p = pc_ok s p"
  by (cases p) (simp_all add: pc_ok_def same_table_queue, simp_all add: same_table_def)

lemma scan_ok_no_table: "table_mode p = None \<Longrightarrow> scan_ok s p"
  by (cases p) auto

lemma update_changes [simp]: "map_of xs k = None \<Longrightarrow> AList.update k v xs \<noteq> xs"
  by (metis update_conv' fun_upd_same option.distinct(1))

lemma pc_ok_next:
  assumes "pc_ok s (cs_pc s t)" "queues_ok s" "run_step N slot t (cs_pc s t) s = Some s'"
    "same_table s s'"
  shows "pc_ok s (cs_pc s' t)"
proof (cases "cs_pc s t")
  case (Lookup r x)
  with assms show ?thesis
    by (auto simp: look_up_def pc_ok_def cs_queue_def same_table_def take_free_def step_simps
        split: option.splits if_splits)
next
  case (Scan r x l es)
  with assms show ?thesis
    by (force simp: pc_ok_def goto_def scan_next_def cs_queue_def split: list.splits if_splits)
next
  case (Found r x l k)
  then have "k \<in> fst ` set (getList (cs_queue l s))" using assms(1) by (simp add: pc_ok_def)
  from queue_find_ok [OF assms(2) this] Found assms(3) show ?thesis
    by (auto simp: pc_ok_def step_simps)
next
  case (CheckDirty r l k i)
  then have "map_of (cs_table s') (rq_block r) = None"
    using assms(1,4) by (simp add: pc_ok_def same_table_def)
  with CheckDirty assms show ?thesis
    by (auto simp: pc_ok_def reuse_def step_simps update_conv' split: sum.splits if_splits)
next
  case (Touch r i)
  with assms show ?thesis by (auto simp: pc_ok_def goto_def)
qed (use assms in \<open>auto simp: pc_ok_def step_simps split: if_splits\<close>)

lemma refs_change:
  assumes inv: "refs_inv s" "locks_inv s" and x: "table_mode (cs_pc s t) = Some True"
    and pc: "cs_pc s' = (cs_pc s)(t := p)" and held: "cs_held s' = cs_held s" and ok: "pc_ok s' p"
    and keep: "\<And>b i. map_of (cs_table s) b = Some i \<Longrightarrow>
       (\<exists>u. u \<noteq> t \<and> ref_slot (cs_pc s u) = Some i) \<or> (\<exists>u. cs_held s u i \<noteq> None) \<Longrightarrow>
       map_of (cs_table s') b = Some i"
  shows "refs_inv s'"
proof -
  have "pc_ok s' (cs_pc s' u)" for u
  proof (cases "u = t")
    case False
    then have "table_mode (cs_pc s u) = None" by (rule table_alone [OF inv(2) x])
    then have "scan_ok s' (cs_pc s u)" by (rule scan_ok_no_table)
    moreover have "map_of (cs_table s') b = Some i" if "page_ref (cs_pc s u) = Some (i, b)" for i b
      using inv(1) that False by (intro keep) (auto simp: refs_inv_def pc_ok_def ref_slot_def)
    ultimately show ?thesis using False pc by (simp add: pc_ok_def)
  qed (simp add: pc ok)
  moreover have "map_of (cs_table s') (h_block h) = Some i" if "cs_held s u i = Some h" for u i h
    using inv(1) that by (intro keep) (auto simp: refs_inv_def)
  ultimately show ?thesis by (simp add: refs_inv_def held)
qed

lemma refs_run_step:
  assumes inv: "refs_inv s" "sole_inv s" "table_inv N s" "locks_inv s"
    and slot: "\<And>F. finite F \<Longrightarrow> F \<noteq> {} \<Longrightarrow> slot F \<in> F"
    and step: "run_step N slot t (cs_pc s t) s = Some s'"
  shows "refs_inv s' \<and> table_inv N s'"
  using run_step_table [OF step]
proof (elim disjE exE conjE)
  assume same: "same_table s s'"
  obtain p where p: "cs_pc s' = (cs_pc s)(t := p)" using held_run_step(2) [OF step] ..
  have "pc_ok s (cs_pc s t)" "queues_ok s" using inv by (simp_all add: refs_inv_def table_inv_def)
  from pc_ok_next [OF this step same] have "pc_ok s' (cs_pc s' t)" by (simp add: pc_ok_same [OF same])
  then have "pc_ok s' (cs_pc s' u)" for u
    using inv(1) p by (cases "u = t") (auto simp: pc_ok_same [OF same] refs_inv_def)
  moreover have "map_of (cs_table s') (h_block h) = Some i" if h: "cs_held s' u i = Some h" for u i h
  proof (cases "cs_held s u i = Some h")
    case True
    then show ?thesis using inv(1) same by (simp add: refs_inv_def same_table_def)
  next
    case False
    with h held_run_step(1) [OF step] obtain r e where "cs_pc s t = LockPage r i e" "h_block h = rq_block r"
      by (auto split: if_splits)
    moreover have "pc_ok s (cs_pc s t)" using inv(1) by (simp add: refs_inv_def)
    ultimately show ?thesis using same by (simp add: pc_ok_def same_table_def)
  qed
  ultimately show ?thesis using inv(3) by (simp add: refs_inv_def table_inv_same [OF same])
next
  fix r
  assume c: "cs_pc s t = Lookup r True" "map_of (cs_table s) (rq_block r) = None" "cs_free s \<noteq> {}"
    "take_free slot t r s = Some s'"
  have "refs_inv s'"
    by (rule refs_change [OF inv(1,4), where t = t and p = "after_occupy r (slot (cs_free s))"])
      (use c in \<open>auto simp: take_free_def step_simps pc_ok_def update_conv' split: if_splits\<close>)
  with take_free_table(1) [OF inv(3) c(2,3) slot c(4)] show ?thesis by simp
next
  fix r i s1
  assume c: "cs_pc s t = Touch r i" "touch_queue (rq_block r) i s = Some s1"
    "s' = goto t (UnlockTable r True i) s1"
  have b: "map_of (cs_table s) (rq_block r) = Some i"
    using inv(1) c(1) unfolding refs_inv_def pc_ok_def by (metis page_ref.simps(2))
  have "refs_inv s'"
    by (rule refs_change [OF inv(1,4), where t = t and p = "UnlockTable r True i"])
      (use c b in \<open>auto simp: goto_def pc_ok_def touch_queue_fields\<close>)
  with touch_table [OF inv(3) b] c show ?thesis by simp
next
  fix r l k i
  assume c: "cs_pc s t = CheckDirty r l k i" "reuse t r l k i s = Some s'"
  have ok: "pc_ok s (CheckDirty r l k i)" using inv(1) c(1) by (metis refs_inv_def)
  then have k: "map_of (cs_table s) (rq_block r) = None" "map_of (cs_table s) k = Some i"
      "q_contains (cs_queue l s) k"
    by (simp_all add: pc_ok_def)
  have sole: "sole s t i" using inv(2) c(1) by (auto simp: sole_inv_def)
  from reuse_table [where t = t, OF inv(3) k] c(2) obtain F L where
      s': "s' = goto t (after_occupy r i) (occupy r i
           (s\<lparr>cs_table := AList.delete k (cs_table s), cs_fifo := F, cs_lru := L\<rparr>))"
      "table_inv N (occupy r i (s\<lparr>cs_table := AList.delete k (cs_table s), cs_fifo := F, cs_lru := L\<rparr>))"
    by auto
  have "refs_inv s'"
    by (rule refs_change [OF inv(1,4), where t = t and p = "after_occupy r i"])
      (use c(1) k sole in \<open>auto simp: s' step_simps pc_ok_def update_conv' delete_conv' sole_def split: if_splits\<close>)
  then show ?thesis using s'(2) unfolding s'(1) by simp
qed

end
