(* ===== verification/PinInv.thy ===== *)
theory PinInv
  imports PinRefs
begin

text \<open>
  The invariant of the buffer under threads, put together from the parts of \<open>PinLocks\<close>,
  \<open>PinTable\<close> and \<open>PinRefs\<close>, for every reachable state (\<open>reachable_struct\<close>).
\<close>

section \<open>The only reference\<close>

text \<open>New references come under the table mutex; a client's page was referred to before.\<close>

lemma ref_gain:
  assumes "run_step N slot t (cs_pc s t) s = Some s'" "ref_slot (cs_pc s' t) = Some i"
  shows "ref_slot (cs_pc s t) = Some i \<or> table_mode (cs_pc s t) \<noteq> None"
  by (cases "cs_pc s t")
    (use assms in \<open>auto simp: step_simps ref_slot_def split: if_splits\<close>)

lemma held_gain:
  assumes "run_step N slot t (cs_pc s t) s = Some s'" "cs_held s' u i \<noteq> None"
  shows "cs_held s u i \<noteq> None \<or> u = t \<and> ref_slot (cs_pc s t) = Some i"
  using held_run_step(1) [OF assms(1)] assms(2)
  by (auto simp: ref_slot_def split: if_splits)

lemma sole_keep:
  assumes inv: "locks_inv s" and sole: "sole s u i" "table_mode (cs_pc s u) = Some True" "u \<noteq> t"
    and step: "run_step N slot t (cs_pc s t) s = Some s'"
  shows "sole s' u i"
proof -
  obtain p where p: "cs_pc s' = (cs_pc s)(t := p)" using held_run_step(2) [OF step] ..
  have t: "ref_slot (cs_pc s t) \<noteq> Some i" using sole(1,3) by (auto simp: sole_def)
  moreover have "table_mode (cs_pc s t) = None" by (rule table_alone [OF inv sole(2)]) (use sole(3) in simp)
  ultimately have "ref_slot (cs_pc s' t) \<noteq> Some i" using ref_gain [OF step] by blast
  then have "w \<noteq> u \<Longrightarrow> ref_slot (cs_pc s' w) \<noteq> Some i" for w
    using sole(1) p by (cases "w = t") (auto simp: sole_def)
  moreover have "cs_held s' w i = None" for w
    using held_gain [OF step, of w i] t sole(1) unfolding sole_def by metis
  ultimately show ?thesis by (simp add: sole_def)
qed

text \<open>A thread arrives at such a point only when it is alone.\<close>

lemma sole_enter:
  assumes inv: "sole_inv s" "pins_inv s" "refs_inv s" "table_inv N s"
    and slot: "\<And>F. finite F \<Longrightarrow> F \<noteq> {} \<Longrightarrow> slot F \<in> F"
    and step: "run_step N slot t (cs_pc s t) s = Some s'" and i: "sole_page (cs_pc s' t) = Some i"
  shows "sole s' t i"
proof -
  obtain p where p: "cs_pc s' = (cs_pc s)(t := p)" using held_run_step(2) [OF step] ..
  have move: "cs_held s' = cs_held s \<Longrightarrow> sole s t i \<Longrightarrow> sole s' t i"
    using p by (simp add: sole_def)
  show ?thesis
  proof (cases "cs_pc s t")
    case (Lookup r x)
    with step i have tf: "take_free slot t r s = Some s'" "map_of (cs_table s) (rq_block r) = None"
      by (auto simp: look_up_def step_simps split: option.splits if_splits)
    then have ne: "cs_free s \<noteq> {}" by (auto simp: take_free_def)
    have "i = slot (cs_free s)" "cs_held s' = cs_held s"
      using tf i ne by (auto simp: take_free_def step_simps after_occupy_def split: if_splits)
    moreover have "ref_slot (cs_pc s u) \<noteq> Some i" "cs_held s u i = None" for u
      using take_free_table(4) [OF inv(4) tf(2) ne slot tf(1)] refs_table [OF inv(3), of u i] calculation
      by blast+
    ultimately show ?thesis by (intro move) (simp_all add: sole_def)
  next
    case (Check r l k j)
    have "cp_pins (cs_pages s j) = 1" "i = j" "cs_held s' = cs_held s"
      using Check step i by (auto simp: goto_def split: if_splits)
    then show ?thesis using pins_one [OF inv(2), of t j] Check by (intro move) (simp_all add: ref_slot_def)
  next
    case (CheckDirty r l k j)
    have "i = j" "cs_held s' = cs_held s"
      using CheckDirty step i
      by (auto simp: reuse_def step_simps after_occupy_def split: sum.splits if_splits)
    then show ?thesis using inv(1) CheckDirty by (intro move) (simp_all add: sole_inv_def)
  qed (use step i in \<open>auto simp: step_simps split: if_splits\<close>)
qed

lemma sole_page_table: "sole_page p = Some i \<Longrightarrow> table_mode p = Some True"
  by (cases p) auto

lemma sole_run_step:
  assumes inv: "sole_inv s" "pins_inv s" "refs_inv s" "table_inv N s" "locks_inv s"
    and slot: "\<And>F. finite F \<Longrightarrow> F \<noteq> {} \<Longrightarrow> slot F \<in> F"
    and step: "run_step N slot t (cs_pc s t) s = Some s'"
  shows "sole_inv s'"
  unfolding sole_inv_def
proof (intro allI impI)
  fix u i
  assume i: "sole_page (cs_pc s' u) = Some i"
  show "sole s' u i"
  proof (cases "u = t")
    case True
    with sole_enter [OF inv(1-4) slot step] i show ?thesis by simp
  next
    case False
    then have pc: "cs_pc s' u = cs_pc s u" using held_run_step(2) [OF step] by auto
    with i have "sole s u i" using inv(1) by (simp add: sole_inv_def)
    from sole_keep [OF inv(5) this sole_page_table False step] i pc show ?thesis by simp
  qed
qed

section \<open>All reachable states\<close>

definition struct_inv :: "nat \<Rightarrow> cstate \<Rightarrow> bool" where
  "struct_inv N s \<longleftrightarrow> locks_inv s \<and> table_inv N s \<and> refs_inv s \<and> pins_inv s \<and> sole_inv s"

lemma struct_init: "struct_inv N (cs_init B N disk)"
  by (simp add: struct_inv_def locks_init table_inv_init)
    (simp add: refs_inv_def pins_inv_def sole_inv_def cs_init_def pc_ok_def workers_def owners_def
      ref_slot_def)

text \<open>The steps outside of calls: they touch neither table nor counters.\<close>

lemma struct_outside:
  assumes inv: "struct_inv N s" and step: "cstep N slot ev t s = Some s'" and ev: "ev \<noteq> Step"
  shows "table_inv N s' \<and> refs_inv s' \<and> pins_inv s' \<and> sole_inv s'"
proof -
  have refs: "refs_inv s" and pins: "pins_inv s" and sole: "sole_inv s" and table: "table_inv N s"
    using inv by (simp_all add: struct_inv_def)
  have idle: "cs_pc s t = Idle" using step ev by (cases ev) (auto split: pc.splits)
  have same: "same_table s s'" "\<And>i. cp_pins (cs_pages s' i) = cp_pins (cs_pages s i)"
    using step ev by (cases ev; auto simp: same_table_def step_simps split: pc.splits option.splits)+
  obtain p h where p: "cs_pc s' = (cs_pc s)(t := p)" "cs_held s' = (cs_held s)(t := h)"
    and p': "sole_page p = None" "table_mode p = None" "\<And>i. refs_of s' t i = refs_of s t i"
      "\<And>i b. page_ref p = Some (i, b) \<Longrightarrow> \<exists>h. cs_held s t i = Some h \<and> h_block h = b"
      "\<And>i h'. h i = Some h' \<Longrightarrow> \<exists>h0. cs_held s t i = Some h0 \<and> h_block h0 = h_block h'"
  proof (cases ev)
    case (CallPin r)
    with step idle show ?thesis
      by (intro that [of "LockTable r False" "cs_held s t"])
        (auto simp: goto_def refs_of_def ref_slot_def)
  next
    case (Write j d)
    with step idle obtain h0 where "cs_held s t j = Some h0"
        "s' = upd_page j (\<lambda>p. p\<lparr>cp_data := d\<rparr>)
            (s\<lparr>cs_held := (cs_held s)(t := (cs_held s t)(j \<mapsto> h0\<lparr>h_mod := True\<rparr>)),
               cs_log := (cs_log s)(h_block h0 \<mapsto> d)\<rparr>)"
      by (auto split: option.splits)
    with idle show ?thesis
      by (intro that [of Idle "(cs_held s t)(j \<mapsto> h0\<lparr>h_mod := True\<rparr>)"])
        (auto simp: upd_page_def refs_of_def ref_slot_def split: if_splits)
  next
    case (CallUnpin j dirty)
    with step idle obtain h0 where "cs_held s t j = Some h0"
        "s' = goto t (UnpinDirty (h_block h0) j (h_excl h0) dirty)
            (s\<lparr>cs_held := (cs_held s)(t := (cs_held s t)(j := None))\<rparr>)"
      by (auto split: option.splits)
    with idle show ?thesis
      by (intro that [of "UnpinDirty (h_block h0) j (h_excl h0) dirty" "(cs_held s t)(j := None)"])
        (auto simp: goto_def refs_of_def ref_slot_def split: if_splits)
  qed (use ev in simp)
  have "pins_inv s'" using same(2) p'(3) by (intro pins_change [OF pins p(1,2)]) simp
  moreover have tab: "cs_table s' = cs_table s" using same(1) by (simp add: same_table_def)
  have "pc_ok s p" using p'(2,4) refs scan_ok_no_table by (fastforce simp: pc_ok_def refs_inv_def)
  then have "refs_inv s'"
    using refs p'(5) unfolding refs_inv_def p(1,2) tab pc_ok_same [OF same(1)]
    by (metis fun_upd_apply)
  moreover have "sole_inv s'"
    unfolding sole_inv_def
  proof (intro allI impI)
    fix u i
    assume "sole_page (cs_pc s' u) = Some i"
    then have "u \<noteq> t" "sole s u i" using p(1) p'(1) sole by (auto simp: sole_inv_def split: if_splits)
    moreover from this have "cs_held s t i = None" by (simp add: sole_def)
    then have "h i = None" "ref_slot p \<noteq> Some i"
      using p'(4) [of i] p'(5) [of i] by (cases "h i", auto simp: ref_slot_def)
    ultimately show "sole s' u i" using p(1,2) by (simp add: sole_def)
  qed
  ultimately show ?thesis using table by (simp add: table_inv_same [OF same(1)])
qed

lemma struct_step:
  assumes inv: "struct_inv N s" and slot: "\<And>F. finite F \<Longrightarrow> F \<noteq> {} \<Longrightarrow> slot F \<in> F"
    and step: "cstep N slot ev t s = Some s'"
  shows "struct_inv N s'"
proof (cases "ev = Step")
  case True
  with step have run: "run_step N slot t (cs_pc s t) s = Some s'" by simp
  from inv have i: "locks_inv s" "table_inv N s" "refs_inv s" "pins_inv s" "sole_inv s"
    by (simp_all add: struct_inv_def)
  show ?thesis
    using locks_run_step [OF i(1) run] refs_run_step [OF i(3,5,2,1) slot run]
      pins_run_step [OF i(4,3,2,1) slot run] sole_run_step [OF i(5,4,3,2,1) slot run]
    by (simp add: struct_inv_def)
next
  case False
  have "locks_inv s'" using locks_step [OF _ step] inv by (simp add: struct_inv_def)
  with struct_outside [OF inv step False] show ?thesis by (simp add: struct_inv_def)
qed

lemma reachable_struct:
  assumes "reachable B N slot disk s" "\<And>F. finite F \<Longrightarrow> F \<noteq> {} \<Longrightarrow> slot F \<in> F"
  shows "struct_inv N s"
  using assms(1) by induction (auto intro: struct_init struct_step assms(2))

end
