(* ===== verification/PinData.thy ===== *)
theory PinData
  imports PinInv
begin

text \<open>
  The bytes under threads. \<open>data_inv\<close>: where the last bytes written to a block are. A
  block that is not in memory has them on disk; a block in memory has them in its page,
  unless the page is just being loaded, and on disk as well unless something still owes
  the write: the dirty flag, a client that changed the page and has not unpinned it, or a
  thread between clearing the dirty flag and writing the page.
\<close>

section \<open>Invariant\<close>

fun loading :: "pc \<Rightarrow> nat option" where
  "loading (LoadLock r i) = Some i"
| "loading (LoadUnlockTable r i) = Some i"
| "loading (Load r i) = Some i"
| "loading p = None"

fun owes :: "pc \<Rightarrow> nat option" where
  "owes (SaveLock r x l k i) = Some i"
| "owes (SaveUnlockTable r x l k i) = Some i"
| "owes (Save r l k i) = Some i"
| "owes (UnpinDirty b i e d) = (if d then Some i else None)"
| "owes p = None"

definition unsaved :: "cstate \<Rightarrow> nat \<Rightarrow> bool" where
  "unsaved s i \<longleftrightarrow>
     cp_dirty (cs_pages s i) \<or> (\<exists>t h. cs_held s t i = Some h \<and> h_mod h) \<or>
     (\<exists>t. owes (cs_pc s t) = Some i)"

definition is_loading :: "cstate \<Rightarrow> nat \<Rightarrow> bool" where
  "is_loading s i \<longleftrightarrow> (\<exists>t. loading (cs_pc s t) = Some i)"

definition block_ok :: "cstate \<Rightarrow> block_id \<Rightarrow> 8 word list \<Rightarrow> bool" where
  "block_ok s b d \<longleftrightarrow>
     (case map_of (cs_table s) b of
        None \<Rightarrow> cs_disk s b = d
      | Some i \<Rightarrow>
          if is_loading s i then cs_disk s b = d
          else cp_data (cs_pages s i) = d \<and> (cs_disk s b = d \<or> unsaved s i))"

definition data_inv :: "cstate \<Rightarrow> bool" where
  "data_inv s \<longleftrightarrow> (\<forall>b d. cs_log s b = Some d \<longrightarrow> block_ok s b d)"

lemma data_init: "data_inv (cs_init B N disk)"
  by (simp add: data_inv_def cs_init_def block_ok_def)

section \<open>Who loads and who owes\<close>

lemma loading_ref: "loading p = Some i \<Longrightarrow> ref_slot p = Some i"
  by (cases p) (auto simp: ref_slot_def)

lemma owes_ref: "owes p = Some i \<Longrightarrow> ref_slot p = Some i"
  by (cases p) (auto simp: ref_slot_def split: if_splits)

lemma frame_lock_ref: "frame_lock p = Some (i, e) \<Longrightarrow> ref_slot p = Some i"
  by (cases p) (auto simp: ref_slot_def)

lemma frame_mode_ref:
  "frame_mode s i t \<noteq> None \<Longrightarrow> cs_held s t i \<noteq> None \<or> ref_slot (cs_pc s t) = Some i"
  by (auto simp: frame_mode_def frame_lock_ref split: option.splits if_splits)

lemma frame_lock_mode:
  assumes "struct_inv N s" "frame_lock (cs_pc s t) = Some (i, e)"
  shows "cs_held s t i = None" "frame_mode s i t = Some e"
proof -
  show "cs_held s t i = None" using assms unfolding struct_inv_def locks_inv_def by blast
  then show "frame_mode s i t = Some e" using assms(2) by (simp add: frame_mode_def)
qed

text \<open>A page that is being loaded is locked, or out of reach of the other threads.\<close>

lemma loading_alone:
  assumes "struct_inv N s" "loading (cs_pc s u) = Some i" "frame_mode s i t \<noteq> None"
  shows "t = u"
proof (cases "sole_page (cs_pc s u) = Some i")
  case True
  then have "sole s u i" using assms(1) by (simp add: struct_inv_def sole_inv_def)
  with frame_mode_ref [OF assms(3)] show ?thesis unfolding sole_def by metis
next
  case False
  then have f: "frame_lock (cs_pc s u) = Some (i, True)"
    using assms(2) by (cases "cs_pc s u") auto
  then have "frame_mode s i u = Some True" by (rule frame_lock_mode(2) [OF assms(1)])
  with frame_alone [of s i u t] assms(1,3) show ?thesis by (auto simp: struct_inv_def)
qed

lemma held_frame: "cs_held s t i = Some h \<Longrightarrow> frame_mode s i t = Some (h_excl h)"
  by (simp add: frame_mode_def)

lemma not_loading_frame:
  assumes "struct_inv N s" "frame_mode s i t \<noteq> None" "loading (cs_pc s t) \<noteq> Some i"
  shows "\<not> is_loading s i"
  using loading_alone [OF assms(1) _ assms(2)] assms(3) by (auto simp: is_loading_def)

lemma sole_saved:
  assumes "sole s t i" "cs_pc s t = CheckDirty r l k i" "\<not> cp_dirty (cs_pages s i)"
  shows "\<not> unsaved s i" "\<not> is_loading s i"
proof -
  have "ref_slot (cs_pc s u) = Some i \<Longrightarrow> u = t" "cs_held s u i = None" for u
    using assms(1) unfolding sole_def by metis+
  moreover have "owes (cs_pc s t) = None" "loading (cs_pc s t) = None" using assms(2) by simp_all
  ultimately show "\<not> unsaved s i" "\<not> is_loading s i"
    using assms(3) owes_ref loading_ref unfolding unsaved_def is_loading_def by (metis option.distinct(1))+
qed

section \<open>Steps\<close>

lemma block_okI:
  assumes "map_of (cs_table s) b = Some i" "\<not> is_loading s i" "cp_data (cs_pages s i) = d"
    "cs_disk s b = d \<or> unsaved s i"
  shows "block_ok s b d"
  using assms by (simp add: block_ok_def)

text \<open>A step that leaves the bytes of a block alone and keeps what is owed.\<close>

lemma block_keep:
  assumes "block_ok s b d" "map_of (cs_table s') b = map_of (cs_table s) b" "cs_disk s' b = cs_disk s b"
    "\<And>i. map_of (cs_table s) b = Some i \<Longrightarrow> cp_data (cs_pages s' i) = cp_data (cs_pages s i)"
    "\<And>i. map_of (cs_table s) b = Some i \<Longrightarrow> is_loading s' i = is_loading s i"
    "\<And>i. map_of (cs_table s) b = Some i \<Longrightarrow> unsaved s i \<Longrightarrow> unsaved s' i"
  shows "block_ok s' b d"
  using assms by (auto simp: block_ok_def split: option.splits if_splits)

lemma is_loading_upd:
  assumes "cs_pc s' = (cs_pc s)(t := p)" "loading p = Some i \<longleftrightarrow> loading (cs_pc s t) = Some i"
  shows "is_loading s' i = is_loading s i"
  using assms by (auto simp: is_loading_def split: if_splits)

lemma unsaved_upd:
  assumes "unsaved s i" "cs_pc s' = (cs_pc s)(t := p)"
    "\<And>u h. cs_held s u i = Some h \<Longrightarrow> h_mod h \<Longrightarrow> \<exists>h'. cs_held s' u i = Some h' \<and> h_mod h'"
    "cp_dirty (cs_pages s i) \<Longrightarrow> cp_dirty (cs_pages s' i) \<or> owes p = Some i"
    "owes (cs_pc s t) = Some i \<Longrightarrow> owes p = Some i \<or> cp_dirty (cs_pages s' i)"
  shows "unsaved s' i"
proof -
  consider "cp_dirty (cs_pages s i)" | u h where "cs_held s u i = Some h" "h_mod h"
    | u where "owes (cs_pc s u) = Some i"
    using assms(1) by (auto simp: unsaved_def)
  then show ?thesis
  proof cases
    case 1
    then show ?thesis using assms(2,4) by (force simp: unsaved_def)
  next
    case 2
    then show ?thesis using assms(3) unfolding unsaved_def by metis
  next
    case 3
    then show ?thesis using assms(2,5) unfolding unsaved_def by (metis fun_upd_apply)
  qed
qed

definition quiet :: "tid \<Rightarrow> cstate \<Rightarrow> cstate \<Rightarrow> bool" where
  "quiet t s s' \<longleftrightarrow>
     cs_log s' = cs_log s \<and> cs_table s' = cs_table s \<and> cs_disk s' = cs_disk s \<and>
     (\<forall>i. cp_data (cs_pages s' i) = cp_data (cs_pages s i)) \<and>
     loading (cs_pc s' t) = loading (cs_pc s t) \<and>
     (\<forall>i. cp_dirty (cs_pages s i) \<longrightarrow> cp_dirty (cs_pages s' i) \<or> owes (cs_pc s' t) = Some i) \<and>
     (\<forall>i. owes (cs_pc s t) = Some i \<longrightarrow> owes (cs_pc s' t) = Some i \<or> cp_dirty (cs_pages s' i))"

lemma quiet_data:
  assumes "data_inv s" "quiet t s s'" "cs_pc s' = (cs_pc s)(t := p)"
    and "\<And>u i h. cs_held s u i = Some h \<Longrightarrow> h_mod h \<Longrightarrow>
       (\<exists>h'. cs_held s' u i = Some h' \<and> h_mod h') \<or> owes p = Some i"
  shows "data_inv s'"
  unfolding data_inv_def
proof (intro allI impI)
  fix b d
  assume "cs_log s' b = Some d"
  then have ok: "block_ok s b d" using assms(1,2) by (simp add: data_inv_def quiet_def)
  have "is_loading s' i = is_loading s i" for i
    by (rule is_loading_upd [OF assms(3)]) (use assms(2,3) in \<open>simp add: quiet_def\<close>)
  moreover have "unsaved s' i" if i: "unsaved s i" for i
  proof (cases "owes p = Some i")
    case True
    then show ?thesis using assms(3) by (auto simp: unsaved_def)
  next
    case False
    show ?thesis
      by (rule unsaved_upd [OF i assms(3)])
        (use False assms(4) assms(2,3) in \<open>auto simp: quiet_def\<close>)
  qed
  ultimately show "block_ok s' b d"
    using assms(2) by (intro block_keep [OF ok]) (simp_all add: quiet_def)
qed

lemma after_scan_data [simp]:
  "loading (scan_next s r x l es) = None" "owes (scan_next s r x l es) = None"
  by (auto simp: scan_next_def split: list.splits)

lemma run_step_quiet:
  assumes step: "run_step N slot t (cs_pc s t) s = Some s'"
  shows "quiet t s s' \<or>
    (\<exists>r. cs_pc s t = Lookup r True \<and> map_of (cs_table s) (rq_block r) = None \<and> cs_free s \<noteq> {} \<and>
       take_free slot t r s = Some s') \<or>
    (\<exists>r l k i. cs_pc s t = CheckDirty r l k i \<and> \<not> cp_dirty (cs_pages s i) \<and> reuse t r l k i s = Some s') \<or>
    (\<exists>r i. cs_pc s t = Load r i) \<or> (\<exists>r l k i. cs_pc s t = Save r l k i)"
proof (cases "cs_pc s t")
  case (Lookup r x)
  with step show ?thesis
    by (auto simp: look_up_def take_free_def quiet_def step_simps split: option.splits if_splits)
next
  case (Touch r i)
  with step show ?thesis by (auto simp: quiet_def goto_def touch_queue_fields)
next
  case (TestDirty r x l k i)
  with step show ?thesis by (auto simp: quiet_def goto_def)
next
  case (Check r l k i)
  with step show ?thesis by (auto simp: quiet_def goto_def)
next
  case (CheckDirty r l k i)
  with step show ?thesis by (cases "cp_dirty (cs_pages s i)") (auto simp: quiet_def goto_def)
qed (use step in \<open>auto simp: quiet_def step_simps\<close>)

text \<open>Reading the block into the page.\<close>

lemma load_data:
  assumes inv: "data_inv s" "struct_inv N s" and pc: "cs_pc s t = Load r i"
    and step: "run_step N slot t (Load r i) s = Some s'"
  shows "data_inv s'"
  unfolding data_inv_def
proof (intro allI impI)
  fix b d
  assume "cs_log s' b = Some d"
  then have ok: "block_ok s b d" using inv(1) step by (auto simp: data_inv_def step_simps)
  have refs: "pc_ok s (Load r i)" using inv(2) pc unfolding struct_inv_def refs_inv_def by metis
  then have ri: "map_of (cs_table s) (rq_block r) = Some i" by (simp add: pc_ok_def)
  have s': "s' = goto t (LoadUnlock r i) (upd_page i (\<lambda>p. p\<lparr>cp_data := cs_disk s (rq_block r)\<rparr>) s)"
    using step by simp
  have frame: "frame_mode s i t \<noteq> None" using frame_lock_mode(2) [OF inv(2), of t i True] pc by simp
  show "block_ok s' b d"
  proof (cases "map_of (cs_table s) b = Some i")
    case True
    then have b: "b = rq_block r"
      using inv(2) ri slot_unique by (metis struct_inv_def table_inv_def)
    have "is_loading s i" using pc by (auto simp: is_loading_def intro: exI [of _ t])
    then have "cs_disk s b = d" using ok True by (simp add: block_ok_def)
    moreover have "loading (cs_pc s u) = Some i \<Longrightarrow> u = t" for u
      using loading_alone [OF inv(2) _ frame] by simp
    then have "\<not> is_loading s' i" by (auto simp: is_loading_def s' goto_def upd_page_def)
    ultimately show ?thesis
      using True b by (intro block_okI [where i = i]) (simp_all add: s' goto_def upd_page_def)
  next
    case False
    show ?thesis
    proof (rule block_keep [OF ok])
      fix j
      assume j: "map_of (cs_table s) b = Some j"
      with False have ne: "j \<noteq> i" by auto
      then show "cp_data (cs_pages s' j) = cp_data (cs_pages s j)"
        by (simp add: s' goto_def upd_page_def)
      show "is_loading s' j = is_loading s j"
        by (rule is_loading_upd [where t = t and p = "LoadUnlock r i"]) (use ne pc in \<open>simp_all add: s' goto_def upd_page_def\<close>)
      show "unsaved s' j" if "unsaved s j"
        by (rule unsaved_upd [OF that, where t = t])
          (use ne pc in \<open>simp_all add: s' goto_def upd_page_def\<close>)
    qed (simp_all add: s' goto_def upd_page_def)
  qed
qed

text \<open>Writing the page to its block.\<close>

lemma save_data:
  assumes inv: "data_inv s" "struct_inv N s" and pc: "cs_pc s t = Save r l k i"
    and step: "run_step N slot t (Save r l k i) s = Some s'"
  shows "data_inv s'"
  unfolding data_inv_def
proof (intro allI impI)
  fix b d
  assume "cs_log s' b = Some d"
  then have ok: "block_ok s b d" using inv(1) step by (auto simp: data_inv_def step_simps)
  have refs: "pc_ok s (Save r l k i)" using inv(2) pc unfolding struct_inv_def refs_inv_def by metis
  then have ki: "map_of (cs_table s) k = Some i" by (simp add: pc_ok_def)
  then have id: "cp_id (cs_pages s i) = k"
    using inv(2) by (simp add: struct_inv_def table_inv_def slots_ok_def)
  have s': "s' = goto t (SaveUnlock r l k i)
      (s\<lparr>cs_disk := (cs_disk s)(k := cp_data (cs_pages s i))\<rparr>)"
    using step id by (simp add: Let_def)
  have frame: "frame_mode s i t \<noteq> None" using frame_lock_mode(2) [OF inv(2), of t i False] pc by simp
  show "block_ok s' b d"
  proof (cases "b = k")
    case True
    have nl: "\<not> is_loading s i" by (rule not_loading_frame [OF inv(2) frame]) (simp add: pc)
    then have "cp_data (cs_pages s i) = d" using ok True ki by (simp add: block_ok_def)
    moreover have "is_loading s' i = is_loading s i"
      by (rule is_loading_upd [where t = t and p = "SaveUnlock r l k i"]) (simp_all add: s' goto_def pc)
    ultimately show ?thesis
      using True ki nl by (intro block_okI [where i = i]) (simp_all add: s' goto_def)
  next
    case False
    show ?thesis
    proof (rule block_keep [OF ok])
      fix j
      assume j: "map_of (cs_table s) b = Some j"
      have ne: "j \<noteq> i"
        using False j ki inv(2) slot_unique by (metis struct_inv_def table_inv_def)
      show "is_loading s' j = is_loading s j"
        by (rule is_loading_upd [where t = t and p = "SaveUnlock r l k i"]) (use pc in \<open>simp_all add: s' goto_def\<close>)
      show "unsaved s' j" if "unsaved s j"
        by (rule unsaved_upd [OF that, where t = t]) (use ne pc in \<open>simp_all add: s' goto_def\<close>)
    qed (use False in \<open>simp_all add: s' goto_def\<close>)
  qed
qed

text \<open>
  Giving page \<open>i\<close> to the block of a request: what was in the page before is saved, and the
  bytes of the new block are on disk.
\<close>

lemma occupy_data:
  assumes inv: "data_inv s" and tab: "cs_table s' = AList.update (rq_block r) i T"
    and none: "map_of (cs_table s) (rq_block r) = None"
    and keep: "\<And>b. b \<noteq> rq_block r \<Longrightarrow> map_of T b = map_of (cs_table s) b \<and> map_of T b \<noteq> Some i \<or>
       map_of T b = None \<and> map_of (cs_table s) b = Some i \<and> \<not> unsaved s i \<and> \<not> is_loading s i"
    and pc: "cs_pc s' = (cs_pc s)(t := after_occupy r i)" "loading (cs_pc s t) = None"
      "owes (cs_pc s t) = None"
    and same: "cs_held s' = cs_held s" "cs_disk s' = cs_disk s"
      "\<And>j. j \<noteq> i \<Longrightarrow> cs_pages s' j = cs_pages s j"
    and log: "cs_log s' = (if rq_skip r then (cs_log s)(rq_block r := None) else cs_log s)"
  shows "data_inv s'"
  unfolding data_inv_def
proof (intro allI impI)
  fix b d
  assume d: "cs_log s' b = Some d"
  then have "cs_log s b = Some d" using log by (auto split: if_splits)
  then have ok: "block_ok s b d" using inv by (simp add: data_inv_def)
  have tab': "map_of (cs_table s') b = (if b = rq_block r then Some i else map_of T b)"
    by (simp add: tab update_conv')
  show "block_ok s' b d"
  proof (cases "b = rq_block r")
    case True
    then have "\<not> rq_skip r" using d log by auto
    then have "loading (cs_pc s' t) = Some i" using pc(1) by (simp add: after_occupy_def)
    then have "is_loading s' i" unfolding is_loading_def by blast
    moreover have "cs_disk s b = d" using ok none True by (simp add: block_ok_def)
    ultimately show ?thesis using tab' True same(2) by (simp add: block_ok_def)
  next
    case False
    from keep [OF this] consider "map_of T b = map_of (cs_table s) b" "map_of T b \<noteq> Some i"
      | "map_of T b = None" "map_of (cs_table s) b = Some i" "\<not> unsaved s i" "\<not> is_loading s i"
      by metis
    then show ?thesis
    proof cases
      case 1
      show ?thesis
      proof (rule block_keep [OF ok])
        fix j
        assume j: "map_of (cs_table s) b = Some j"
        then have ne: "j \<noteq> i" using 1 by auto
        have "loading (after_occupy r i) \<noteq> Some j" using ne by (simp add: after_occupy_def)
        then show "is_loading s' j = is_loading s j"
          by (intro is_loading_upd [where t = t]) (simp_all add: pc)
        show "unsaved s' j" if "unsaved s j"
          by (rule unsaved_upd [OF that pc(1)]) (use ne in \<open>simp_all add: pc same\<close>)
      qed (use 1 False tab' same in auto)
    next
      case 2
      then show ?thesis using ok False tab' same(2) by (simp add: block_ok_def)
    qed
  qed
qed

lemma data_run_step:
  assumes inv: "data_inv s" "struct_inv N s"
    and slot: "\<And>F. finite F \<Longrightarrow> F \<noteq> {} \<Longrightarrow> slot F \<in> F"
    and step: "run_step N slot t (cs_pc s t) s = Some s'"
  shows "data_inv s'"
  using run_step_quiet [OF step]
proof (elim disjE exE conjE)
  assume q: "quiet t s s'"
  obtain p where p: "cs_pc s' = (cs_pc s)(t := p)" using held_run_step(2) [OF step] ..
  show ?thesis
  proof (rule quiet_data [OF inv(1) q p])
    fix u i h
    assume h: "cs_held s u i = Some h" "h_mod h"
    have "cs_held s' u i = Some h"
      using held_run_step(1) [OF step]
    proof (elim disjE exE conjE)
      fix r j e
      assume c: "cs_pc s t = LockPage r j e"
        "cs_held s' = (cs_held s)(t := (cs_held s t)(j \<mapsto> \<lparr>h_block = rq_block r, h_excl = e, h_mod = False\<rparr>))"
      obtain m where "mx_lock e t (cp_mutex (cs_pages s j)) = Some m"
        using step c(1) by (auto simp: lock_frame_def)
      from mx_lock_ok(2) [OF _ this] have "frame_mode s j t = None"
        using inv(2) by (simp add: struct_inv_def locks_inv_def)
      then have "cs_held s t j = None" by (auto simp: frame_mode_def split: option.splits)
      then show ?thesis using h c(2) by auto
    qed (simp add: h)
    with h(2) show "(\<exists>h'. cs_held s' u i = Some h' \<and> h_mod h') \<or> owes p = Some i" by blast
  qed
next
  fix r
  assume c: "cs_pc s t = Lookup r True" "map_of (cs_table s) (rq_block r) = None" "cs_free s \<noteq> {}"
    "take_free slot t r s = Some s'"
  have table: "table_inv N s" using inv(2) by (simp add: struct_inv_def)
  note new = take_free_table(4) [OF table c(2,3) slot c(4)]
  show ?thesis
    by (rule occupy_data [where t = t and i = "slot (cs_free s)" and T = "cs_table s" and r = r, OF inv(1)])
      (use c new in \<open>auto simp: take_free_def step_simps\<close>)
next
  fix r l k i
  assume c: "cs_pc s t = CheckDirty r l k i" "\<not> cp_dirty (cs_pages s i)" "reuse t r l k i s = Some s'"
  have table: "table_inv N s" using inv(2) by (simp add: struct_inv_def)
  have ok: "pc_ok s (CheckDirty r l k i)"
    using inv(2) c(1) unfolding struct_inv_def refs_inv_def by metis
  then have k: "map_of (cs_table s) (rq_block r) = None" "map_of (cs_table s) k = Some i"
      "q_contains (cs_queue l s) k"
    by (simp_all add: pc_ok_def)
  have "sole s t i" using inv(2) c(1) by (auto simp: struct_inv_def sole_inv_def)
  note saved = sole_saved [OF this c(1,2)]
  from reuse_table [where t = t, OF table k] c(3) obtain F L where
      s': "s' = goto t (after_occupy r i) (occupy r i
           (s\<lparr>cs_table := AList.delete k (cs_table s), cs_fifo := F, cs_lru := L\<rparr>))"
    by auto
  have uni: "map_of (cs_table s) b = Some i \<Longrightarrow> b = k" for b
    using table k(2) slot_unique by (metis table_inv_def)
  have "map_of (AList.delete k (cs_table s)) b = map_of (cs_table s) b \<and>
       map_of (AList.delete k (cs_table s)) b \<noteq> Some i \<or>
     map_of (AList.delete k (cs_table s)) b = None \<and> map_of (cs_table s) b = Some i" for b
    using uni [of b] k(2) by (cases "b = k") (auto simp: delete_conv')
  then show ?thesis
    by (intro occupy_data [where s' = s' and t = t and i = i and T = "AList.delete k (cs_table s)" and r = r, OF inv(1)])
      (use c(1) k(1) saved in \<open>simp_all add: s' step_simps\<close>)
next
  fix r i
  assume "cs_pc s t = Load r i"
  with load_data [OF inv this] step show ?thesis by simp
next
  fix r l k i
  assume "cs_pc s t = Save r l k i"
  with save_data [OF inv this] step show ?thesis by simp
qed

section \<open>Clients\<close>

lemma write_data:
  assumes inv: "data_inv s" "struct_inv N s" and h: "cs_pc s t = Idle" "cs_held s t i = Some h"
    and s': "s' = upd_page i (\<lambda>p. p\<lparr>cp_data := d0\<rparr>)
            (s\<lparr>cs_held := (cs_held s)(t := (cs_held s t)(i \<mapsto> h\<lparr>h_mod := True\<rparr>)),
               cs_log := (cs_log s)(h_block h \<mapsto> d0)\<rparr>)"
  shows "data_inv s'"
  unfolding data_inv_def
proof (intro allI impI)
  fix b d
  assume d: "cs_log s' b = Some d"
  have hi: "map_of (cs_table s) (h_block h) = Some i"
    using inv(2) h(2) by (simp add: struct_inv_def refs_inv_def)
  have pc: "cs_pc s' = cs_pc s" by (simp add: s' upd_page_def)
  show "block_ok s' b d"
  proof (cases "b = h_block h")
    case True
    have "\<not> is_loading s i"
      by (rule not_loading_frame [OF inv(2), of i t]) (simp_all add: h frame_mode_def)
    then have "\<not> is_loading s' i" by (simp add: is_loading_def pc)
    moreover have "unsaved s' i"
      unfolding unsaved_def by (intro disjI2 disjI1 exI [of _ t] exI [of _ "h\<lparr>h_mod := True\<rparr>"])
        (simp add: s' upd_page_def)
    ultimately show ?thesis
      using True hi d by (intro block_okI [where i = i]) (simp_all add: s' upd_page_def)
  next
    case False
    then have ok: "block_ok s b d" using d inv(1) by (simp add: s' upd_page_def data_inv_def)
    show ?thesis
    proof (rule block_keep [OF ok])
      fix j
      assume j: "map_of (cs_table s) b = Some j"
      have ne: "j \<noteq> i"
        using False j hi inv(2) slot_unique by (metis struct_inv_def table_inv_def)
      then show "cp_data (cs_pages s' j) = cp_data (cs_pages s j)" by (simp add: s' upd_page_def)
      show "is_loading s' j = is_loading s j" by (simp add: is_loading_def pc)
      show "unsaved s' j" if "unsaved s j"
        using that ne by (auto simp: unsaved_def s' upd_page_def)
    qed (use False in \<open>simp_all add: s' upd_page_def\<close>)
  qed
qed

lemma data_step:
  assumes inv: "data_inv s" "struct_inv N s"
    and slot: "\<And>F. finite F \<Longrightarrow> F \<noteq> {} \<Longrightarrow> slot F \<in> F"
    and ob: "obeys s t ev" and step: "cstep N slot ev t s = Some s'"
  shows "data_inv s'"
proof (cases ev)
  case Step
  with step data_run_step [OF inv slot] show ?thesis by simp
next
  case (CallPin r)
  then have idle: "cs_pc s t = Idle" and s': "s' = goto t (LockTable r False) s"
    using step by (auto split: pc.splits)
  have "quiet t s s'" using idle by (simp add: s' quiet_def goto_def)
  then show ?thesis
    by (rule quiet_data [OF inv(1), where p = "LockTable r False"]) (auto simp: s' goto_def)
next
  case (Write i d)
  with step write_data [OF inv] show ?thesis by (auto split: pc.splits option.splits)
next
  case (CallUnpin i dirty)
  then obtain h where idle: "cs_pc s t = Idle" and h: "cs_held s t i = Some h"
    and s': "s' = goto t (UnpinDirty (h_block h) i (h_excl h) dirty)
            (s\<lparr>cs_held := (cs_held s)(t := (cs_held s t)(i := None))\<rparr>)"
    using step by (auto split: pc.splits option.splits)
  have "h_mod h \<Longrightarrow> dirty" using ob CallUnpin h by simp
  moreover have "quiet t s s'" using idle by (simp add: s' quiet_def goto_def)
  ultimately show ?thesis
    by (intro quiet_data [OF inv(1), where t = t and p = "UnpinDirty (h_block h) i (h_excl h) dirty"])
      (use h in \<open>auto simp: s' goto_def\<close>)
qed

lemma reachable_data:
  assumes "reachable B N slot disk s" and slot: "\<And>F. finite F \<Longrightarrow> F \<noteq> {} \<Longrightarrow> slot F \<in> F"
  shows "data_inv s"
  using assms(1)
proof induction
  case (reachable_step s t ev s')
  then show ?case using data_step [OF _ reachable_struct [OF reachable_step(1) slot] slot] by blast
qed (rule data_init)

end
