(* ===== verification/PinProgress.thy ===== *)
theory PinProgress
  imports PinData
begin

text \<open>
  Which steps can wait. A thread inside a call waits at five program points only, where it
  takes a mutex (\<open>run_step_enabled\<close>); the lock for loading a page is always free
  (\<open>load_lock_free\<close>), as the comment at this line says. A thread that waits for a page waits
  for a client, or for a thread that has the page's mutex inside a call and can go on.
  Threads that can never go on are \<open>stuck\<close>.
\<close>

section \<open>Steps that never wait\<close>

fun takes_mutex :: "pc \<Rightarrow> bool" where
  "takes_mutex (LockTable r x) = True"
| "takes_mutex (Relock r l k i) = True"
| "takes_mutex (LockPage r i e) = True"
| "takes_mutex (LoadLock r i) = True"
| "takes_mutex (SaveLock r x l k i) = True"
| "takes_mutex p = False"

lemma unlock_table_some:
  assumes "struct_inv N s" "table_mode (cs_pc s t) = Some x"
  shows "\<exists>s'. unlock_table x t s = Some s'"
proof -
  have "mx_ok (cs_mutex s) (\<lambda>t. table_mode (cs_pc s t))"
    using assms(1) by (simp add: struct_inv_def locks_inv_def)
  from mx_unlock_some [OF this, of t x] assms(2) show ?thesis by (auto simp: unlock_table_def)
qed

lemma unlock_frame_some:
  assumes "struct_inv N s" "frame_lock (cs_pc s t) = Some (i, e)"
  shows "\<exists>s'. unlock_frame e t i s = Some s'"
proof -
  have "mx_ok (cp_mutex (cs_pages s i)) (frame_mode s i)"
    using assms(1) by (simp add: struct_inv_def locks_inv_def)
  from mx_unlock_some [OF this frame_lock_mode(2) [OF assms]] show ?thesis
    by (auto simp: unlock_frame_def)
qed

lemma run_step_enabled:
  assumes inv: "struct_inv N s" and pc: "cs_pc s t \<noteq> Idle" "\<And>r x. cs_pc s t \<noteq> Raised r x"
    "\<not> takes_mutex (cs_pc s t)"
  shows "\<exists>s'. run_step N slot t (cs_pc s t) s = Some s'"
proof -
  have ok: "pc_ok s (cs_pc s t)" and table: "table_inv N s"
    using inv by (simp_all add: struct_inv_def refs_inv_def)
  show ?thesis
  proof (cases "cs_pc s t")
    case (Lookup r x)
    have "cs_free s \<noteq> {}" if "length (cs_table s) < N"
      using table that by (auto simp: table_inv_def slots_ok_def)
    then show ?thesis using Lookup by (auto simp: look_up_def take_free_def Let_def split: option.splits)
  next
    case (Touch r i)
    with ok have "map_of (cs_table s) (rq_block r) = Some i" by (simp add: pc_ok_def)
    from touch_table [OF table this] Touch show ?thesis by auto
  next
    case (Found r x l k)
    with ok table queue_find_ok show ?thesis by (fastforce simp: pc_ok_def table_inv_def)
  next
    case (CheckDirty r l k i)
    with ok have "map_of (cs_table s) (rq_block r) = None" "map_of (cs_table s) k = Some i"
        "q_contains (cs_queue l s) k"
      by (simp_all add: pc_ok_def)
    from reuse_table [OF table this, of t] CheckDirty show ?thesis by auto
  next
    case (Retry r x x')
    with unlock_table_some [OF inv, of t x] show ?thesis by auto
  next
    case (UnlockTable r x i)
    with unlock_table_some [OF inv, of t x] show ?thesis by auto
  next
    case (LoadUnlockTable r i)
    with unlock_table_some [OF inv, of t True] show ?thesis by auto
  next
    case (SaveUnlockTable r x l k i)
    with unlock_table_some [OF inv, of t x] show ?thesis by auto
  next
    case (FreeTable r l k i)
    with unlock_table_some [OF inv, of t False] show ?thesis by auto
  next
    case (LoadUnlock r i)
    with unlock_frame_some [OF inv, of t i True] show ?thesis by auto
  next
    case (SaveUnlock r l k i)
    with unlock_frame_some [OF inv, of t i False] show ?thesis by auto
  next
    case (UnpinUnlock b i e)
    with unlock_frame_some [OF inv, of t i e] show ?thesis by auto
  qed (use pc in \<open>simp_all add: Let_def\<close>)
qed

lemma load_lock_free:
  assumes inv: "struct_inv N s" and pc: "cs_pc s t = LoadLock r i"
  shows "\<exists>s'. run_step N slot t (cs_pc s t) s = Some s'"
proof -
  have sole: "sole s t i" using inv pc by (simp add: struct_inv_def sole_inv_def)
  have "frame_mode s i u = None" for u
  proof (rule ccontr)
    assume u: "frame_mode s i u \<noteq> None"
    from frame_mode_ref [OF this] sole have "u = t" unfolding sole_def by metis
    moreover have "cs_held s t i = None" using sole by (simp add: sole_def)
    ultimately show False using u pc by (simp add: frame_mode_def)
  qed
  moreover have "mx_ok (cp_mutex (cs_pages s i)) (frame_mode s i)"
    using inv by (simp add: struct_inv_def locks_inv_def)
  ultimately obtain m where "mx_lock True t (cp_mutex (cs_pages s i)) = Some m"
    using mx_lock_free by blast
  then show ?thesis using pc by (simp add: lock_frame_def)
qed

section \<open>Waiting\<close>

text \<open>The page whose mutex a thread is about to take.\<close>

fun waits_for_page :: "pc \<Rightarrow> nat option" where
  "waits_for_page (LockPage r i e) = Some i"
| "waits_for_page (SaveLock r x l k i) = Some i"
| "waits_for_page p = None"

lemma frame_lock_runs: "frame_lock p \<noteq> None \<Longrightarrow> \<not> takes_mutex p"
  by (cases p) auto

lemma waits_page:
  assumes inv: "struct_inv N s" and pc: "waits_for_page (cs_pc s t) = Some i"
    and stop: "run_step N slot t (cs_pc s t) s = None"
  shows "\<exists>u. frame_mode s i u \<noteq> None"
proof -
  obtain e where "mx_lock e t (cp_mutex (cs_pages s i)) = None"
    using pc stop by (cases "cs_pc s t") (auto simp: lock_frame_def)
  moreover have "mx_ok (cp_mutex (cs_pages s i)) (frame_mode s i)"
    using inv by (simp add: struct_inv_def locks_inv_def)
  ultimately show ?thesis using mx_lock_none by blast
qed

lemma waits_table:
  assumes inv: "struct_inv N s" and pc: "cs_pc s t = LockTable r x \<or> cs_pc s t = Relock r l k i"
    and stop: "run_step N slot t (cs_pc s t) s = None"
  shows "\<exists>u. table_mode (cs_pc s u) \<noteq> None"
proof -
  obtain e where "mx_lock e t (cs_mutex s) = None"
    using pc stop by (auto simp: lock_table_def)
  moreover have "mx_ok (cs_mutex s) (\<lambda>t. table_mode (cs_pc s t))"
    using inv by (simp add: struct_inv_def locks_inv_def)
  ultimately show ?thesis using mx_lock_none [of "cs_mutex s"] by blast
qed

text \<open>When nobody can go on, everybody waits for pages that clients have.\<close>

lemma all_wait:
  assumes inv: "struct_inv N s" and raised: "\<And>u r x. cs_pc s u \<noteq> Raised r x"
    and stop: "\<And>u. run_step N slot u (cs_pc s u) s = None" and t: "cs_pc s t \<noteq> Idle"
  shows "\<exists>u v i. waits_for_page (cs_pc s u) = Some i \<and> cs_held s v i \<noteq> None"
proof -
  have mutex: "cs_pc s u = Idle \<or> takes_mutex (cs_pc s u)" for u
    using run_step_enabled [OF inv _ raised, of u slot] stop [of u] by auto
  have page: "\<exists>v. cs_held s v i \<noteq> None" if w: "waits_for_page (cs_pc s u) = Some i" for u i
  proof -
    obtain v where v: "frame_mode s i v \<noteq> None" using waits_page [OF inv w stop [of u]] by blast
    have "frame_lock (cs_pc s v) = None" using mutex [of v] frame_lock_runs by fastforce
    with v have "cs_held s v i \<noteq> None" by (auto simp: frame_mode_def split: option.splits)
    then show ?thesis ..
  qed
  have wait: "\<exists>u i. waits_for_page (cs_pc s u) = Some i"
  proof (cases "\<exists>i. waits_for_page (cs_pc s t) = Some i")
    case False
    moreover have "\<And>r i. cs_pc s t \<noteq> LoadLock r i"
      using load_lock_free [OF inv, of t _ _ slot] stop [of t] by fastforce
    ultimately obtain r x l k i where "cs_pc s t = LockTable r x \<or> cs_pc s t = Relock r l k i"
      using mutex [of t] t by (cases "cs_pc s t") auto
    then obtain u where u: "table_mode (cs_pc s u) \<noteq> None" using waits_table [OF inv _ stop [of t]] by blast
    moreover have "\<And>r i. cs_pc s u \<noteq> LoadLock r i"
      using load_lock_free [OF inv, of u _ _ slot] stop [of u] by fastforce
    ultimately have "\<exists>i. waits_for_page (cs_pc s u) = Some i"
      using mutex [of u] by (cases "cs_pc s u") auto
    then show ?thesis by blast
  qed blast
  with page show ?thesis by blast
qed

section \<open>Threads that wait for ever\<close>

definition stuck :: "nat \<Rightarrow> (nat set \<Rightarrow> nat) \<Rightarrow> tid \<Rightarrow> cstate \<Rightarrow> bool" where
  "stuck N slot t s \<longleftrightarrow> cs_pc s t \<noteq> Idle \<and>
     (\<forall>es s'. crun N slot es s = Some s' \<longrightarrow>
        cs_pc s' t = cs_pc s t \<and> (\<forall>ev. cstep N slot ev t s' = None))"

text \<open>A property of states that no step breaks, and under which the thread cannot move.\<close>

lemma stuckI:
  assumes "P s" "cs_pc s t \<noteq> Idle"
    and stable: "\<And>s u ev s'. P s \<Longrightarrow> cstep N slot ev u s = Some s' \<Longrightarrow> P s'"
    and stop: "\<And>s. P s \<Longrightarrow> run_step N slot t (cs_pc s t) s = None"
    and pc: "\<And>s. P s \<Longrightarrow> cs_pc s t = p"
  shows "stuck N slot t s"
proof -
  have "P s'" if "P s" "crun N slot es s = Some s'" for es s s'
    using that
  proof (induction es arbitrary: s)
    case (Cons e es)
    then obtain u ev s1 where "cstep N slot ev u s = Some s1" "crun N slot es s1 = Some s'"
      by (cases e) (auto split: if_splits bind_splits)
    with Cons.IH stable [OF Cons.prems(1)] show ?case by blast
  qed simp
  moreover have "cstep N slot ev t s' = None" if "P s'" "cs_pc s' t \<noteq> Idle" for ev s'
    using stop [OF that(1)] that(2) by (cases ev) (auto split: pc.splits)
  ultimately show ?thesis using assms(1,2) pc unfolding stuck_def by metis
qed

lemma other_pc:
  assumes "cstep N slot ev u s = Some s'" "t \<noteq> u"
  shows "cs_pc s' t = cs_pc s t" "cs_held s' t = cs_held s t"
proof -
  have "cs_pc s' t = cs_pc s t \<and> cs_held s' t = cs_held s t"
  proof (cases ev)
    case Step
    with assms(1) have step: "run_step N slot u (cs_pc s u) s = Some s'" by simp
    show ?thesis using held_run_step(1) [OF step] held_run_step(2) [OF step] assms(2) by auto
  qed (use assms in \<open>auto simp: step_simps split: pc.splits option.splits\<close>)
  then show "cs_pc s' t = cs_pc s t" "cs_held s' t = cs_held s t" by simp_all
qed

lemma mx_blocked: "mx_ok m f \<Longrightarrow> f u = Some e \<Longrightarrow> e \<or> e' \<Longrightarrow> mx_lock e' t m = None"
  by (cases m; cases e) (auto simp: mx_ok_def)

lemma table_blocked:
  assumes "locks_inv s" "table_mode (cs_pc s u) = Some e" "e \<or> e'"
  shows "lock_table e' t s = None"
  using mx_blocked [of "cs_mutex s" "\<lambda>t. table_mode (cs_pc s t)" u e e' t] assms
  by (simp add: locks_inv_def lock_table_def)

lemma frame_blocked:
  assumes "locks_inv s" "frame_mode s i u = Some True"
  shows "lock_frame e t i s = None"
  using mx_blocked [of "cp_mutex (cs_pages s i)" "frame_mode s i" u True e t] assms
  by (simp add: locks_inv_def lock_frame_def)

lemma outside_idle: "cstep N slot ev t s = Some s' \<Longrightarrow> cs_pc s t \<noteq> Idle \<Longrightarrow>
    run_step N slot t (cs_pc s t) s = Some s'"
  by (cases ev) (auto split: pc.splits)

text \<open>
  After the exception of line 362 the table stays locked in shared mode: whoever needs it
  exclusively waits for ever.
\<close>

lemma raised_stuck:
  assumes "locks_inv s" "cs_pc s u = Raised r0 x0"
    and "cs_pc s t = Relock r l k i \<or> cs_pc s t = LockTable r True"
  shows "stuck N slot t s"
proof (rule stuckI [where P = "\<lambda>s'. locks_inv s' \<and> cs_pc s' u = Raised r0 x0 \<and> cs_pc s' t = cs_pc s t"])
  fix s1 v ev s2
  assume P: "locks_inv s1 \<and> cs_pc s1 u = Raised r0 x0 \<and> cs_pc s1 t = cs_pc s t"
    and step: "cstep N slot ev v s1 = Some s2"
  have "run_step N slot t (cs_pc s1 t) s1 = None"
    using table_blocked [of s1 u x0 True t] P assms(3) by auto
  then have "v \<noteq> t" using outside_idle [OF step] P assms(3) by auto
  moreover have "v \<noteq> u" using outside_idle [OF step] P by auto
  ultimately show "locks_inv s2 \<and> cs_pc s2 u = Raised r0 x0 \<and> cs_pc s2 t = cs_pc s t"
    using locks_step [OF _ step] other_pc(1) [OF step] P by metis
next
  fix s1
  assume "locks_inv s1 \<and> cs_pc s1 u = Raised r0 x0 \<and> cs_pc s1 t = cs_pc s t"
  then show "run_step N slot t (cs_pc s1 t) s1 = None"
    using table_blocked [of s1 u x0 True t] assms(3) by auto
qed (use assms in auto)

text \<open>
  A thread that writes a victim back waits for the victim's mutex with the table mutex
  in shared mode; a client that has the page and needs the table exclusively waits for it.
\<close>

lemma evict_stuck:
  assumes inv: "locks_inv s" and a: "cs_pc s a = SaveLock r False l k i"
    and c: "cs_pc s c = LockTable r' True" "cs_held s c i = Some h" "h_excl h"
  shows "stuck N slot a s" "stuck N slot c s"
proof -
  define P where "P = (\<lambda>s. locks_inv s \<and> cs_pc s a = SaveLock r False l k i \<and>
    cs_pc s c = LockTable r' True \<and> cs_held s c i = Some h)"
  have stop: "run_step N slot a (cs_pc s a) s = None" "run_step N slot c (cs_pc s c) s = None" if "P s" for s
    using that c(3) table_blocked [of s a False True c] frame_blocked [of s i c False a]
    by (auto simp: P_def frame_mode_def)
  have stable: "P s2" if "P s1" and step: "cstep N slot ev v s1 = Some s2" for s1 s2 v ev
  proof -
    have "v \<noteq> a" "v \<noteq> c" using outside_idle [OF step] stop [OF that(1)] that(1) by (auto simp: P_def)
    with that(1) show ?thesis
      using locks_step [OF _ step] other_pc [OF step] unfolding P_def by metis
  qed
  have "P s" using assms by (simp add: P_def)
  note P = this
  show "stuck N slot a s"
  proof (rule stuckI [where P = P, OF P])
    show "cs_pc s a \<noteq> Idle" using a by simp
    show "cs_pc s a = SaveLock r False l k i" if "P s" for s using that by (simp add: P_def)
  qed (fact stable stop(1))+
  show "stuck N slot c s"
  proof (rule stuckI [where P = P, OF P])
    show "cs_pc s c \<noteq> Idle" using c by simp
    show "cs_pc s c = LockTable r' True" if "P s" for s using that by (simp add: P_def)
  qed (fact stable stop(2))+
qed

end
