(* ===== verification/PinProps.thy ===== *)
theory PinProps
  imports PinProgress
begin

text \<open>
  What \<open>pinPage\<close> and \<open>unpinPage\<close> guarantee to threads that run at the same time, for every
  schedule, and three schedules on which they do not do what the callers need: threads that
  wait for each other, an exception that is not due, and a lock of the wrong mode.
\<close>

section \<open>Flushing\<close>

text \<open>
  The loop of \<open>PageBuffer::flush\<close>, which no other thread may disturb; the blocks it writes
  reach the file by the flush of the segment manager (theory \<open>SegmentManager\<close>).
\<close>

fun save_pages :: "nat list \<Rightarrow> cstate \<Rightarrow> cstate" where
  "save_pages [] s = s"
| "save_pages (i # is) s =
     (let p = cs_pages s i
      in save_pages is (if i \<notin> cs_free s \<and> cp_dirty p
                        then s\<lparr>cs_disk := (cs_disk s)(cp_id p := cp_data p)\<rparr> else s))"

definition cs_flush :: "nat \<Rightarrow> cstate \<Rightarrow> cstate" where
  "cs_flush N s = save_pages [0..<N] s"

lemma save_pages_disk:
  assumes "\<And>i. i \<in> set is \<Longrightarrow> i \<notin> cs_free s \<Longrightarrow> cp_dirty (cs_pages s i) \<Longrightarrow>
      cp_id (cs_pages s i) = b \<Longrightarrow> cp_data (cs_pages s i) = d"
    and "cs_disk s b = d \<or>
      (\<exists>i \<in> set is. i \<notin> cs_free s \<and> cp_dirty (cs_pages s i) \<and> cp_id (cs_pages s i) = b)"
  shows "cs_disk (save_pages is s) b = d"
  using assms
proof (induction "is" arbitrary: s)
  case (Cons i "is")
  show ?case
    unfolding save_pages.simps Let_def
    by (rule Cons.IH) (use Cons.prems in \<open>auto split: if_splits\<close>)
qed simp

text \<open>Every index is unused or has the page of a block.\<close>

lemma table_ran:
  assumes "slots_ok N N s"
  shows "ran (map_of (cs_table s)) = {..<N} - cs_free s" "inj_on (map_of (cs_table s)) (dom (map_of (cs_table s)))"
proof -
  let ?m = "map_of (cs_table s)"
  show inj: "inj_on ?m (dom ?m)"
    using assms slot_unique by (fastforce simp: inj_on_def)
  have sub: "ran ?m \<subseteq> {..<N} - cs_free s"
    using assms by (auto simp: slots_ok_def ran_def)
  have fin: "finite (cs_free s)" using assms finite_subset by (auto simp: slots_ok_def)
  have "?m ` dom ?m = Some ` ran ?m" by (force simp: ran_def)
  then have "card (Some ` ran ?m) = card (dom ?m)" using card_image [OF inj] by simp
  then have "card (ran ?m) = card (dom ?m)" by (simp add: card_image)
  also have "\<dots> = length (cs_table s)"
    using assms distinct_card [of "map fst (cs_table s)"]
    by (simp add: slots_ok_def dom_map_of_conv_image_fst)
  also have "\<dots> = card ({..<N} - cs_free s)"
    using assms fin card_Diff_subset [of "cs_free s" "{..<N}"] by (auto simp: slots_ok_def)
  finally show "ran ?m = {..<N} - cs_free s" using sub by (intro card_subset_eq) simp_all
qed

lemma held_not_loading:
  assumes inv: "struct_inv N s" and h: "cs_held s t i = Some h"
  shows "\<not> is_loading s i"
proof (rule not_loading_frame [OF inv])
  show "frame_mode s i t \<noteq> None" by (simp add: held_frame [OF h])
  have "cs_held s t i = None" if "loading (cs_pc s t) = Some i"
  proof (cases "sole_page (cs_pc s t) = Some i")
    case True
    then show ?thesis using inv by (auto simp: struct_inv_def sole_inv_def sole_def)
  next
    case False
    with that have "frame_lock (cs_pc s t) = Some (i, True)" by (cases "cs_pc s t") auto
    then show ?thesis by (rule frame_lock_mode(1) [OF inv])
  qed
  with h show "loading (cs_pc s t) \<noteq> Some i" by auto
qed

lemma held_bound: "struct_inv N s \<Longrightarrow> cs_held s t i = Some h \<Longrightarrow> i < N"
  unfolding struct_inv_def refs_inv_def table_inv_def slots_ok_def by metis

lemma run_step_bytes:
  assumes "run_step N slot t (cs_pc s t) s = Some s'"
  shows "cp_data (cs_pages s' i) = cp_data (cs_pages s i) \<or> (\<exists>r. cs_pc s t = Load r i)"
proof (cases "cs_pc s t")
  case (Lookup r x)
  with assms show ?thesis
    by (auto simp: look_up_def take_free_def step_simps split: option.splits if_splits)
next
  case (CheckDirty r l k i)
  with assms show ?thesis by (auto simp: reuse_def step_simps split: sum.splits if_splits)
next
  case (Touch r i)
  with assms show ?thesis by (auto simp: goto_def touch_queue_fields)
qed (use assms in \<open>auto simp: step_simps\<close>)

lemma frame_mode_block:
  assumes inv: "struct_inv N s" and f: "frame_mode s i t \<noteq> None"
  shows "\<exists>b. (cs_held s t i \<noteq> None \<and> b = h_block (the (cs_held s t i)) \<or> page_ref (cs_pc s t) = Some (i, b)) \<and>
    map_of (cs_table s) b = Some i"
  using frame_mode_ref [OF f]
proof
  assume "cs_held s t i \<noteq> None"
  then show ?thesis using inv by (auto simp: struct_inv_def refs_inv_def)
next
  assume "ref_slot (cs_pc s t) = Some i"
  then obtain b where "page_ref (cs_pc s t) = Some (i, b)" by (auto simp: ref_slot_def)
  moreover have "pc_ok s (cs_pc s t)" using inv by (simp add: struct_inv_def refs_inv_def)
  ultimately show ?thesis by (auto simp: pc_ok_def)
qed

section \<open>Guarantees\<close>

text \<open>
  C6. A page that a client has pinned is the page of its block: the table has the block at
  this index and the page carries its number, whatever other threads have evicted and loaded
  in between; it shows the bytes that were last written to the block by any client (unless
  the block was pinned with \<open>skipLoad\<close> and not written since); all clients that have the
  block have the same page, and who has it exclusively is alone.
\<close>

theorem pin_held_page:
  assumes "reachable B N slot disk s" and "\<And>F. finite F \<Longrightarrow> F \<noteq> {} \<Longrightarrow> slot F \<in> F"
    and "cs_held s t i = Some h"
  shows "map_of (cs_table s) (h_block h) = Some i \<and> i < N \<and> cp_id (cs_pages s i) = h_block h \<and>
    cp_pins (cs_pages s i) > 0 \<and>
    (\<forall>d. cs_log s (h_block h) = Some d \<longrightarrow> cp_data (cs_pages s i) = d) \<and>
    (\<forall>u j h'. cs_held s u j = Some h' \<and> h_block h' = h_block h \<longrightarrow> j = i) \<and>
    (h_excl h \<longrightarrow> (\<forall>u. u \<noteq> t \<longrightarrow> cs_held s u i = None))"
proof -
  have inv: "struct_inv N s" using reachable_struct assms(1,2) by blast
  have refs: "map_of (cs_table s) (h_block h') = Some j" if "cs_held s u j = Some h'" for u j h'
    using inv that by (simp add: struct_inv_def refs_inv_def)
  note hi = refs [OF assms(3)]
  moreover from this have "i < N" "cp_id (cs_pages s i) = h_block h"
    using inv by (auto simp: struct_inv_def table_inv_def slots_ok_def)
  moreover have "cp_pins (cs_pages s i) > 0"
    using pins_pos [of s t i] inv assms(3) by (simp add: struct_inv_def)
  moreover have "\<not> is_loading s i" by (rule held_not_loading [OF inv assms(3)])
  then have "\<forall>d. cs_log s (h_block h) = Some d \<longrightarrow> cp_data (cs_pages s i) = d"
    using reachable_data [OF assms(1,2)] hi by (fastforce simp: data_inv_def block_ok_def)
  moreover have "cs_held s u i = None" if "h_excl h" "u \<noteq> t" for u
  proof -
    have "frame_mode s i u = None"
      using frame_alone [of s i t u] held_frame [OF assms(3)] that inv by (simp add: struct_inv_def)
    then show ?thesis by (auto simp: frame_mode_def split: option.splits)
  qed
  ultimately show ?thesis using refs by (metis option.inject)
qed

text \<open>
  C10. While a thread has the mutex of a page, in either mode, as a client or inside a
  call that loads or writes the page, no step of another thread changes the bytes of the
  page or takes the page away: the bytes that \<open>loadPage\<close> reads into and \<open>savePage\<close> writes
  from stay put, and so does what a client reads.
\<close>

theorem pin_locked_bytes:
  assumes "reachable B N slot disk s" and "\<And>F. finite F \<Longrightarrow> F \<noteq> {} \<Longrightarrow> slot F \<in> F"
    and "frame_mode s i t \<noteq> None" and "u \<noteq> t"
    and "obeys s u ev" and "cstep N slot ev u s = Some s'"
  shows "cp_data (cs_pages s' i) = cp_data (cs_pages s i) \<and>
    cp_id (cs_pages s' i) = cp_id (cs_pages s i) \<and> frame_mode s' i t = frame_mode s i t"
proof -
  have inv: "struct_inv N s" using reachable_struct assms(1,2) by blast
  have inv': "struct_inv N s'" by (rule struct_step [OF inv assms(2,6)])
  have alone: "frame_mode s i u \<noteq> Some True"
    using frame_alone [of s i u t] assms(3,4) inv by (auto simp: struct_inv_def)
  have keep: "frame_mode s' i t = frame_mode s i t"
    using other_pc [OF assms(6), of t] assms(4) by (intro frame_mode_cong) simp_all
  have "cp_data (cs_pages s' i) = cp_data (cs_pages s i)"
  proof (cases ev)
    case Step
    then have step: "run_step N slot u (cs_pc s u) s = Some s'" using assms(6) by simp
    show ?thesis
    proof (cases "\<exists>r. cs_pc s u = Load r i")
      case True
      then show ?thesis using alone frame_lock_mode(2) [OF inv, of u i True] by auto
    next
      case False
      with run_step_bytes [OF step] show ?thesis by blast
    qed
  next
    case (Write j d)
    then obtain h where "cs_held s u j = Some h" "h_excl h" "cs_pc s u = Idle"
      using assms(5,6) by (auto split: option.splits pc.splits)
    moreover from this have "j \<noteq> i" using alone held_frame by fastforce
    ultimately show ?thesis using assms(6) Write by (auto simp: upd_page_def)
  qed (use assms(6) in \<open>auto simp: goto_def split: pc.splits option.splits\<close>)
  moreover have "cp_id (cs_pages s' i) = cp_id (cs_pages s i)"
  proof -
    have t: "cs_pc s' t = cs_pc s t" "cs_held s' t = cs_held s t"
      using other_pc [OF assms(6)] assms(4) by auto
    from frame_mode_block [OF inv assms(3)] obtain b where
        b: "cs_held s t i \<noteq> None \<and> b = h_block (the (cs_held s t i)) \<or> page_ref (cs_pc s t) = Some (i, b)"
        "map_of (cs_table s) b = Some i" by blast
    have "refs_inv s'" using inv' by (simp add: struct_inv_def)
    then have "pc_ok s' (cs_pc s t)" "cs_held s t i = Some h \<Longrightarrow> map_of (cs_table s') (h_block h) = Some i" for h
      using t unfolding refs_inv_def by metis+
    then have "map_of (cs_table s') b = Some i"
      using b(1) by (auto simp: pc_ok_def)
    then show ?thesis
      using b(2) inv inv' by (simp add: struct_inv_def table_inv_def slots_ok_def)
  qed
  ultimately show ?thesis using keep by blast
qed

text \<open>
  C8. When no thread is inside a call and no page is pinned, every counter is zero and no
  mutex is held; a flush then brings the last bytes of every block to disk, those of the
  blocks that were evicted before included.
\<close>

theorem pin_flush_complete:
  assumes "reachable B N slot disk s" and "\<And>F. finite F \<Longrightarrow> F \<noteq> {} \<Longrightarrow> slot F \<in> F"
    and "\<And>t. cs_pc s t = Idle" and "\<And>t i. cs_held s t i = None"
  shows "(\<forall>i. cp_pins (cs_pages s i) = 0 \<and> cp_mutex (cs_pages s i) = Mutex None {}) \<and>
    cs_mutex s = Mutex None {} \<and>
    (\<forall>b d. cs_log s b = Some d \<longrightarrow> cs_disk (cs_flush N s) b = d)"
proof (intro conjI allI impI)
  have inv: "struct_inv N s" using reachable_struct assms(1,2) by blast
  have free: "m = Mutex None {}" if "mx_ok m f" "\<And>t. f t = None" for m f
    using that by (cases m) (auto simp: mx_ok_def)
  show "cp_pins (cs_pages s i) = 0" for i
    by (rule pins_zero) (use inv assms(3,4) in \<open>simp_all add: struct_inv_def ref_slot_def\<close>)
  show "cp_mutex (cs_pages s i) = Mutex None {}" for i
    by (rule free [where f = "frame_mode s i"])
      (use inv assms(3,4) in \<open>simp_all add: struct_inv_def locks_inv_def frame_mode_def\<close>)
  show "cs_mutex s = Mutex None {}"
    by (rule free [where f = "\<lambda>t. table_mode (cs_pc s t)"])
      (use inv assms(3) in \<open>simp_all add: struct_inv_def locks_inv_def\<close>)
  fix b d
  assume "cs_log s b = Some d"
  with reachable_data [OF assms(1,2)] have ok: "block_ok s b d" by (simp add: data_inv_def)
  have slots: "slots_ok N N s" using inv by (simp add: struct_inv_def table_inv_def)
  have load: "\<not> is_loading s i" for i by (simp add: is_loading_def assms(3))
  have unsaved: "unsaved s i \<longleftrightarrow> cp_dirty (cs_pages s i)" for i
    by (simp add: unsaved_def assms(3,4))
  show "cs_disk (cs_flush N s) b = d"
    unfolding cs_flush_def
  proof (rule save_pages_disk)
    fix i
    assume i: "i \<in> set [0..<N]" "i \<notin> cs_free s" "cp_id (cs_pages s i) = b"
    then have "i \<in> ran (map_of (cs_table s))" using table_ran(1) [OF slots] by simp
    then obtain b' where "map_of (cs_table s) b' = Some i" by (auto simp: ran_def)
    moreover from this have "b' = b" using slots i(3) by (auto simp: slots_ok_def)
    ultimately show "cp_data (cs_pages s i) = d" using ok load by (simp add: block_ok_def)
  next
    show "cs_disk s b = d \<or>
      (\<exists>i \<in> set [0..<N]. i \<notin> cs_free s \<and> cp_dirty (cs_pages s i) \<and> cp_id (cs_pages s i) = b)"
    proof (cases "map_of (cs_table s) b")
      case None
      then show ?thesis using ok by (simp add: block_ok_def)
    next
      case (Some i)
      then show ?thesis
        using ok load unsaved slots by (auto simp: block_ok_def slots_ok_def intro!: bexI [of _ i])
    qed
  qed
qed

text \<open>
  C11. The buffer is well formed in every reachable state: the table gives different
  blocks different pages, exactly the indices outside of \<open>freeSlots\<close> have a page of the
  table, each with the number of its block, every entry of the two queues is an entry of
  the table and of one queue only, and the counter of a page is the number of clients that
  have it pinned and of threads inside a call that have counted their pin.
\<close>

theorem pin_buffer_wellformed:
  assumes "reachable B N slot disk s" and "\<And>F. finite F \<Longrightarrow> F \<noteq> {} \<Longrightarrow> slot F \<in> F"
  shows "distinct (map fst (cs_table s)) \<and>
    inj_on (map_of (cs_table s)) (dom (map_of (cs_table s))) \<and>
    ran (map_of (cs_table s)) = {..<N} - cs_free s \<and>
    (\<forall>b i. map_of (cs_table s) b = Some i \<longrightarrow> cp_id (cs_pages s i) = b) \<and>
    set (getList (cs_fifo s)) \<union> set (getList (cs_lru s)) \<subseteq> set (cs_table s) \<and>
    set (getList (cs_fifo s)) \<inter> set (getList (cs_lru s)) = {} \<and>
    (\<forall>i. finite (workers s i) \<and> finite (owners s i) \<and>
       cp_pins (cs_pages s i) = card (workers s i) + card (owners s i))"
proof -
  have inv: "table_inv N s" "pins_inv s"
    using reachable_struct [OF assms] by (simp_all add: struct_inv_def)
  then have slots: "slots_ok N N s" and "queues_ok s" by (simp_all add: table_inv_def)
  note q = queues_okD [OF this(2)]
  have "set (getList (cs_fifo s)) \<union> set (getList (cs_lru s)) \<subseteq> set (cs_table s)"
    using q(5,6) map_of_SomeD by fastforce
  moreover have "set (getList (cs_fifo s)) \<inter> set (getList (cs_lru s)) = {}" using q(7) by blast
  ultimately show ?thesis
    using slots inv(2) table_ran [OF slots] by (simp add: slots_ok_def pins_inv_def)
qed

text \<open>
  C7. No deadlock among threads that pin one page at a time: as long as no thread calls
  \<open>pinPage\<close> while it has another page pinned, and none has left \<open>pinPage\<close> by its exception,
  a thread inside a call can take a step, or a client outside of any call has the page that
  a thread waits for, and can unpin it.
\<close>

theorem pin_progress:
  assumes "reachable B N slot disk s" and "\<And>F. finite F \<Longrightarrow> F \<noteq> {} \<Longrightarrow> slot F \<in> F"
    and "\<And>t i. cs_pc s t \<noteq> Idle \<Longrightarrow> cs_held s t i = None"
    and "\<And>t r x. cs_pc s t \<noteq> Raised r x"
    and "cs_pc s t \<noteq> Idle"
  shows "\<exists>u s'. cstep N slot Step u s = Some s' \<or>
    (\<exists>v i. waits_for_page (cs_pc s u) = Some i \<and> cs_held s v i \<noteq> None \<and>
       obeys s v (CallUnpin i True) \<and> cstep N slot (CallUnpin i True) v s = Some s')"
proof (cases "\<exists>u s'. cstep N slot Step u s = Some s'")
  case False
  then have stop: "run_step N slot u (cs_pc s u) s = None" for u by auto
  obtain u v i where w: "waits_for_page (cs_pc s u) = Some i" "cs_held s v i \<noteq> None"
    using all_wait [OF reachable_struct [OF assms(1,2)] assms(4) stop assms(5)] by blast
  then have "cs_pc s v = Idle" using assms(3) [of v i] by metis
  with w(2) obtain s' where "obeys s v (CallUnpin i True)" "cstep N slot (CallUnpin i True) v s = Some s'"
    by auto
  with w show ?thesis by blast
qed blast

section \<open>Schedules\<close>

definition plain_req :: "block_id \<Rightarrow> bool \<Rightarrow> pin_req" where
  "plain_req b e = \<lparr>rq_block = b, rq_excl = e, rq_skip = False, rq_mode = None\<rparr>"

text \<open>A thread pins a block and takes some more steps.\<close>

definition pins_block :: "tid \<Rightarrow> block_id \<Rightarrow> bool \<Rightarrow> nat \<Rightarrow> (tid \<times> event) list" where
  "pins_block t b e n = (t, CallPin (plain_req b e)) # replicate n (t, Step)"

definition unpins_page :: "tid \<Rightarrow> nat \<Rightarrow> bool \<Rightarrow> (tid \<times> event) list" where
  "unpins_page t i dirty = (t, CallUnpin i dirty) # replicate 3 (t, Step)"

text \<open>
  Thread 0 writes block 1 and reads block 2, then both pages are in memory without pins,
  the first one dirty. Thread 1 pins block 3 and chooses the page of block 1 as its victim,
  thread 2 pins block 1 meanwhile and then block 2, as the trees pin a child while they
  have its parent.
\<close>

definition lock_schedule :: "(tid \<times> event) list" where
  "lock_schedule =
     pins_block 0 1 True 11 @ (0, Write 0 [7]) # unpins_page 0 0 True @
     pins_block 0 2 False 11 @ unpins_page 0 1 False @
     pins_block 1 3 False 5 @ pins_block 2 1 True 5 @ pins_block 2 2 False 4 @ [(1, Step)]"

definition disk0 :: "block_id \<Rightarrow> 8 word list" where
  "disk0 b = [0]"

text \<open>With one page: thread 1 is about to evict block 1 for block 2 while thread 2 pins block 3.\<close>

definition full_schedule :: "(tid \<times> event) list" where
  "full_schedule =
     pins_block 0 1 False 11 @ unpins_page 0 0 False @ pins_block 1 2 False 6 @ pins_block 2 3 False 5"

text \<open>
  A mode function like that of the trees: it looks at the first byte of the page, which
  tells leaves from inner nodes. Thread 2 evaluates it while thread 1 still loads the page.
\<close>

definition leaf_mode :: mode_function where
  "leaf_mode d b \<longleftrightarrow> hd d = 1"

definition mode_req :: "block_id \<Rightarrow> pin_req" where
  "mode_req b = \<lparr>rq_block = b, rq_excl = False, rq_skip = False, rq_mode = Some leaf_mode\<rparr>"

definition mode_schedule :: "(tid \<times> event) list" where
  "mode_schedule =
     pins_block 1 5 False 7 @ (2, CallPin (mode_req 5)) # replicate 4 (2, Step) @
     replicate 4 (1, Step) @ unpins_page 1 0 False @ [(2, Step)]"

definition leaf_disk :: "block_id \<Rightarrow> 8 word list" where
  "leaf_disk b = [1]"

lemma crun_cases:
  assumes "case crun N slot es s of Some s' \<Rightarrow> P s' | None \<Rightarrow> False"
  shows "\<exists>s'. crun N slot es s = Some s' \<and> P s'"
  using assms by (auto split: option.splits)

lemma lock_schedule_run:
  "\<exists>s. crun 2 Min lock_schedule (cs_init 1 2 disk0) = Some s \<and>
     (case cs_pc s 1 of SaveLock r x l k i \<Rightarrow> \<not> x \<and> k = 1 \<and> i = 0 | _ \<Rightarrow> False) \<and>
     (case cs_pc s 2 of LockTable r x \<Rightarrow> x | _ \<Rightarrow> False) \<and>
     (case cs_held s 2 0 of Some h \<Rightarrow> h_excl h | None \<Rightarrow> False)"
  by (rule crun_cases) code_simp

text \<open>
  C9. Two threads can wait for each other for ever. Thread 1 has chosen a dirty page as its
  victim and waits for the page's mutex at the line that says \<open>lock the page (instant)\<close>,
  with the table mutex in shared mode; thread 2 has pinned the victim meanwhile and waits for
  the table mutex in exclusive mode, to pin a second page. No later schedule moves either.
\<close>

theorem pin_evict_deadlock:
  "\<exists>s r l k r' h. reachable 1 2 Min disk0 s \<and> cs_pc s 1 = SaveLock r False l k 0 \<and>
     cs_pc s 2 = LockTable r' True \<and> cs_held s 2 0 = Some h \<and>
     stuck 2 Min 1 s \<and> stuck 2 Min 2 s"
proof -
  obtain s where s: "crun 2 Min lock_schedule (cs_init 1 2 disk0) = Some s"
    "case cs_pc s 1 of SaveLock r x l k i \<Rightarrow> \<not> x \<and> k = 1 \<and> i = 0 | _ \<Rightarrow> False"
    "case cs_pc s 2 of LockTable r x \<Rightarrow> x | _ \<Rightarrow> False"
    "case cs_held s 2 0 of Some h \<Rightarrow> h_excl h | None \<Rightarrow> False"
    using lock_schedule_run by blast
  have reach: "reachable 1 2 Min disk0 s" by (rule crun_reachable [OF reachable_init s(1)])
  have locks: "locks_inv s"
    using reachable_struct [OF reach demo_slot] by (simp add: struct_inv_def)
  obtain r l k where a: "cs_pc s 1 = SaveLock r False l k 0" using s(2) by (auto split: pc.splits)
  obtain r' where c: "cs_pc s 2 = LockTable r' True" using s(3) by (auto split: pc.splits)
  obtain h where h: "cs_held s 2 0 = Some h" "h_excl h" using s(4) by (auto split: option.splits)
  show ?thesis using reach a c h(1) evict_stuck [OF locks a c h] by blast
qed

lemma full_schedule_run:
  "\<exists>s. crun 1 Min full_schedule (cs_init 1 1 disk0) = Some s \<and>
     (case cs_pc s 1 of Relock r l k i \<Rightarrow> i = 0 | _ \<Rightarrow> False) \<and>
     (case cs_pc s 2 of Raised r x \<Rightarrow> \<not> x | _ \<Rightarrow> False) \<and> cp_pins (cs_pages s 0) = 1"
  by (rule crun_cases) code_simp

text \<open>
  \<open>pinPage\<close> can raise \<open>Buffer is full!\<close> although no client has any page pinned: the
  pins it counts include those of other threads that are choosing a victim. The exception
  leaves the table mutex locked, and the other thread waits for ever.
\<close>

theorem pin_spurious_full:
  "\<exists>s r. reachable 1 1 Min disk0 s \<and> (\<forall>t i. cs_held s t i = None) \<and>
     cs_pc s 2 = Raised r False \<and> stuck 1 Min 1 s"
proof -
  obtain s where s: "crun 1 Min full_schedule (cs_init 1 1 disk0) = Some s"
    "case cs_pc s 1 of Relock r l k i \<Rightarrow> i = 0 | _ \<Rightarrow> False"
    "case cs_pc s 2 of Raised r x \<Rightarrow> \<not> x | _ \<Rightarrow> False" "cp_pins (cs_pages s 0) = 1"
    using full_schedule_run by blast
  have reach: "reachable 1 1 Min disk0 s" by (rule crun_reachable [OF reachable_init s(1)])
  have inv: "struct_inv 1 s" by (rule reachable_struct [OF reach demo_slot])
  then have locks: "locks_inv s" by (simp add: struct_inv_def)
  obtain r l k where a: "cs_pc s 1 = Relock r l k 0" using s(2) by (auto split: pc.splits)
  obtain r' where c: "cs_pc s 2 = Raised r' False" using s(3) by (auto split: pc.splits)
  have "sole s 1 0"
    by (rule pins_one) (use inv a s(4) in \<open>simp_all add: struct_inv_def ref_slot_def\<close>)
  moreover have "i = 0" if "cs_held s t i = Some h" for t i h
    using held_bound [OF inv that] by simp
  ultimately have "cs_held s t i = None" for t i unfolding sole_def by (metis not_None_eq)
  then show ?thesis using reach c raised_stuck [OF locks c, of 1] a by blast
qed

lemma mode_schedule_run:
  "\<exists>s. crun 1 Min mode_schedule (cs_init 1 1 leaf_disk) = Some s \<and>
     (case cs_held s 2 0 of Some h \<Rightarrow> h_block h = 5 \<and> \<not> h_excl h | None \<Rightarrow> False) \<and>
     cp_data (cs_pages s 0) = leaf_disk 5 \<and> decide False (Some leaf_mode) (cp_data (cs_pages s 0)) 5"
  by (rule crun_cases) code_simp

text \<open>
  C12. \<open>pinPage\<close> can lock a page in the wrong mode. The mode function is called on the page
  without its mutex, here before another thread has read the block into it, so that the
  caller has the page shared although its mode function asks for an exclusive lock on the
  bytes of the block.
\<close>

theorem pin_mode_too_early:
  "\<exists>s h. reachable 1 1 Min leaf_disk s \<and> crun 1 Min mode_schedule (cs_init 1 1 leaf_disk) = Some s \<and>
     cs_held s 2 0 = Some h \<and> h_block h = 5 \<and> \<not> h_excl h \<and>
     cp_data (cs_pages s 0) = leaf_disk 5 \<and>
     decide (rq_excl (mode_req 5)) (rq_mode (mode_req 5)) (cp_data (cs_pages s 0)) 5"
proof -
  obtain s where s: "crun 1 Min mode_schedule (cs_init 1 1 leaf_disk) = Some s"
    "case cs_held s 2 0 of Some h \<Rightarrow> h_block h = 5 \<and> \<not> h_excl h | None \<Rightarrow> False"
    "cp_data (cs_pages s 0) = leaf_disk 5" "decide False (Some leaf_mode) (cp_data (cs_pages s 0)) 5"
    using mode_schedule_run by blast
  have "reachable 1 1 Min leaf_disk s" by (rule crun_reachable [OF reachable_init s(1)])
  with s show ?thesis by (auto simp: mode_req_def split: option.splits)
qed

section \<open>Instances\<close>

lemma crun_others:
  "crun N slot es s = Some s' \<Longrightarrow> t \<notin> fst ` set es \<Longrightarrow>
     cs_pc s' t = cs_pc s t \<and> cs_held s' t = cs_held s t"
proof (induction es arbitrary: s)
  case (Cons e es)
  then obtain u ev s1 where e: "e = (u, ev)" "cstep N slot ev u s = Some s1" "crun N slot es s1 = Some s'"
    by (cases e) (auto split: if_splits bind_splits)
  then show ?case using Cons.IH [OF e(3)] other_pc [OF e(2), of t] Cons.prems(2) by auto
qed simp

text \<open>A run of thread 0 alone.\<close>

lemma solo_run:
  assumes run: "crun N Min es (cs_init B N disk) = Some s" and solo: "fst ` set es = {0}"
  shows "reachable B N Min disk s" "t \<noteq> 0 \<Longrightarrow> cs_pc s t = Idle" "t \<noteq> 0 \<Longrightarrow> cs_held s t i = None"
    "(\<And>j. j < N \<Longrightarrow> cs_held s 0 j = None) \<Longrightarrow> cs_held s t i = None"
proof -
  show reach: "reachable B N Min disk s" by (rule crun_reachable [OF reachable_init run])
  have other: "cs_pc s t = Idle \<and> cs_held s t i = None" if "t \<noteq> 0" for t i
    using crun_others [OF run, of t] that solo by (simp add: cs_init_def)
  then show "t \<noteq> 0 \<Longrightarrow> cs_pc s t = Idle" "t \<noteq> 0 \<Longrightarrow> cs_held s t i = None" by blast+
  show "cs_held s t i = None" if "\<And>j. j < N \<Longrightarrow> cs_held s 0 j = None"
  proof (cases "t = 0")
    case True
    then show ?thesis
      using held_bound [OF reachable_struct [OF reach demo_slot], of 0 i] that [of i]
      by (cases "cs_held s 0 i") auto
  qed (use other in blast)
qed

definition write_schedule :: "(tid \<times> event) list" where
  "write_schedule = pins_block 0 1 True 11 @ [(0, Write 0 [7])]"

lemma write_schedule_run:
  "\<exists>s. crun 2 Min write_schedule (cs_init 1 2 disk0) = Some s \<and>
     (case cs_held s 0 0 of Some h \<Rightarrow> h_block h = 1 \<and> h_excl h | None \<Rightarrow> False) \<and>
     cs_log s 1 = Some [7]"
  by (rule crun_cases) code_simp

lemma write_schedule_state:
  "\<exists>s h. reachable 1 2 Min disk0 s \<and> cs_held s 0 0 = Some h \<and> h_block h = 1 \<and>
     cs_log s 1 = Some [7] \<and> cs_pc s 1 = Idle"
proof -
  obtain s where s: "crun 2 Min write_schedule (cs_init 1 2 disk0) = Some s"
    "case cs_held s 0 0 of Some h \<Rightarrow> h_block h = 1 \<and> h_excl h | None \<Rightarrow> False" "cs_log s 1 = Some [7]"
    using write_schedule_run by blast
  have "fst ` set write_schedule = {0}" by (simp add: write_schedule_def pins_block_def)
  note solo = solo_run(1,2) [OF s(1) this]
  have "cs_pc s 1 = Idle" by (rule solo(2)) simp
  with s solo(1) show ?thesis by (auto split: option.splits)
qed

theorem pin_held_page_witness:
  "\<exists>s h. reachable 1 2 Min disk0 s \<and> cs_held s 0 0 = Some h \<and> h_block h = 1 \<and>
     cp_data (cs_pages s 0) = [7] \<and> cp_pins (cs_pages s 0) > 0"
proof -
  obtain s h where s: "reachable 1 2 Min disk0 s" "cs_held s 0 0 = Some h" "h_block h = 1"
      "cs_log s 1 = Some [7]"
    using write_schedule_state by blast
  from pin_held_page [OF s(1) demo_slot s(2)] s show ?thesis by auto
qed

theorem pin_locked_bytes_witness:
  "\<exists>s s'. reachable 1 2 Min disk0 s \<and> frame_mode s 0 0 \<noteq> None \<and>
     cstep 2 Min (CallPin (plain_req 1 True)) 1 s = Some s' \<and>
     cp_data (cs_pages s' 0) = cp_data (cs_pages s 0)"
proof -
  obtain s h where s: "reachable 1 2 Min disk0 s" "cs_held s 0 0 = Some h" "cs_pc s 1 = Idle"
    using write_schedule_state by blast
  have f: "frame_mode s 0 0 \<noteq> None" using held_frame [OF s(2)] by simp
  obtain s' where s': "cstep 2 Min (CallPin (plain_req 1 True)) 1 s = Some s'" using s(3) by simp
  from pin_locked_bytes [OF s(1) demo_slot f _ _ s'] s(1) f s' show ?thesis by auto
qed

definition finished_schedule :: "(tid \<times> event) list" where
  "finished_schedule = write_schedule @ unpins_page 0 0 True"

lemma finished_schedule_run:
  "\<exists>s. crun 2 Min finished_schedule (cs_init 1 2 disk0) = Some s \<and>
     (case cs_pc s 0 of Idle \<Rightarrow> True | _ \<Rightarrow> False) \<and>
     (case cs_held s 0 0 of None \<Rightarrow> True | Some _ \<Rightarrow> False) \<and>
     (case cs_held s 0 1 of None \<Rightarrow> True | Some _ \<Rightarrow> False) \<and> cs_log s 1 = Some [7]"
  by (rule crun_cases) code_simp

theorem pin_flush_complete_witness:
  "\<exists>s. reachable 1 2 Min disk0 s \<and> cs_log s 1 = Some [7] \<and> cs_disk (cs_flush 2 s) 1 = [7]"
proof -
  obtain s where s: "crun 2 Min finished_schedule (cs_init 1 2 disk0) = Some s"
     "case cs_pc s 0 of Idle \<Rightarrow> True | _ \<Rightarrow> False"
     "case cs_held s 0 0 of None \<Rightarrow> True | Some _ \<Rightarrow> False"
     "case cs_held s 0 1 of None \<Rightarrow> True | Some _ \<Rightarrow> False" "cs_log s 1 = Some [7]"
    using finished_schedule_run by blast
  have "fst ` set finished_schedule = {0}"
    by (simp add: finished_schedule_def write_schedule_def pins_block_def unpins_page_def)
  note solo = solo_run [OF s(1) this]
  have idle: "cs_pc s t = Idle" for t
    using solo(2) [of t] s(2) by (cases "t = 0") (auto split: pc.splits)
  have "cs_held s 0 j = None" if "j < 2" for j
    using that s(3,4) by (cases "j = 0") (auto simp: less_2_cases_iff split: option.splits)
  then have "cs_held s t i = None" for t i using solo(4) by blast
  from pin_flush_complete [OF solo(1) demo_slot idle this] solo(1) s(5) show ?thesis by auto
qed

theorem pin_buffer_wellformed_witness:
  "\<exists>s h. reachable 1 2 Min disk0 s \<and> cs_held s 0 0 = Some h \<and>
     ran (map_of (cs_table s)) = {..<2} - cs_free s"
proof -
  obtain s h where s: "reachable 1 2 Min disk0 s" "cs_held s 0 0 = Some h"
    using write_schedule_state by blast
  from pin_buffer_wellformed [OF s(1) demo_slot] s show ?thesis by blast
qed

definition started_schedule :: "(tid \<times> event) list" where
  "started_schedule = pins_block 0 1 True 3"

lemma started_schedule_run:
  "\<exists>s. crun 2 Min started_schedule (cs_init 1 2 disk0) = Some s \<and>
     (case cs_pc s 0 of LockTable r x \<Rightarrow> x | _ \<Rightarrow> False) \<and>
     (case cs_held s 0 0 of None \<Rightarrow> True | Some _ \<Rightarrow> False) \<and>
     (case cs_held s 0 1 of None \<Rightarrow> True | Some _ \<Rightarrow> False)"
  by (rule crun_cases) code_simp

theorem pin_progress_witness:
  "\<exists>s r u s'. reachable 1 2 Min disk0 s \<and> cs_pc s 0 = LockTable r True \<and>
     (cstep 2 Min Step u s = Some s' \<or> cstep 2 Min (CallUnpin 0 True) u s = Some s')"
proof -
  obtain s where s: "crun 2 Min started_schedule (cs_init 1 2 disk0) = Some s"
     "case cs_pc s 0 of LockTable r x \<Rightarrow> x | _ \<Rightarrow> False"
     "case cs_held s 0 0 of None \<Rightarrow> True | Some _ \<Rightarrow> False"
     "case cs_held s 0 1 of None \<Rightarrow> True | Some _ \<Rightarrow> False"
    using started_schedule_run by blast
  have "fst ` set started_schedule = {0}" by (simp add: started_schedule_def pins_block_def)
  note solo = solo_run [OF s(1) this]
  obtain r where pc: "cs_pc s 0 = LockTable r True" using s(2) by (auto split: pc.splits)
  have "cs_held s 0 j = None" if "j < 2" for j
    using that s(3,4) by (cases "j = 0") (auto simp: less_2_cases_iff split: option.splits)
  then have none: "cs_held s t i = None" for t i using solo(4) by blast
  have raised: "cs_pc s t \<noteq> Raised r' x" for t r' x using solo(2) [of t] pc by (cases "t = 0") auto
  have "cs_pc s 0 \<noteq> Idle" using pc by simp
  from pin_progress [OF solo(1) demo_slot none raised this] none solo(1) pc show ?thesis by auto
qed

end
