(* ===== verification/PageStore.thy ===== *)
theory PageStore
  imports PagePool
begin

text \<open>
  The page buffer as the trees see it: a store of typed nodes instead of bytes
  (\<open>accessNode\<close> is a \<open>reinterpret_cast\<close> of the bytes of the page), with the locks and the
  modified flags of the pages, and without the details of loading and eviction. It keeps
  the contract \<open>page_pool\<close> like the page buffer itself, and it checks its clients: using a
  page that is not pinned, writing without the exclusive lock, locking twice, pinning more
  pages than there are slots and unpinning a modified page as clean are errors.

  Block numbers are natural numbers, drawn from an injective sequence \<open>id_seq\<close>; \<open>stale\<close> is
  what a page contains before its first initialisation. \<open>stored\<close> is what a flush has
  saved.
\<close>

record 'n pstore =
  slots :: nat
  nodes :: "nat \<rightharpoonup> 'n"
  locks :: "nat \<Rightarrow> lock"
  changed :: "nat set"
  id_seq :: "nat \<Rightarrow> nat"
  created :: nat
  stale :: "nat \<Rightarrow> 'n"
  stored :: "nat \<rightharpoonup> 'n"

definition ps_held :: "'n pstore \<Rightarrow> nat set" where
  "ps_held s = {i. locks s i \<noteq> Unlocked}"

definition ps_new :: "nat \<Rightarrow> (nat \<Rightarrow> nat) \<Rightarrow> (nat \<Rightarrow> 'n) \<Rightarrow> 'n pstore" where
  "ps_new n ids st =
     \<lparr>slots = n, nodes = Map.empty, locks = (\<lambda>_. Unlocked), changed = {}, id_seq = ids,
      created = 0, stale = st, stored = Map.empty\<rparr>"

definition ps_create :: "'n pstore \<Rightarrow> (nat \<times> 'n pstore) result" where
  "ps_create s =
     (let i = id_seq s (created s)
      in Inr (i, s\<lparr>created := created s + 1, nodes := (nodes s)(i \<mapsto> stale s i)\<rparr>))"

definition ps_pinned :: "'n pstore \<Rightarrow> nat list" where
  "ps_pinned s = filter (\<lambda>i. locks s i \<noteq> Unlocked) (map (id_seq s) [0..<created s])"

definition ps_room :: "nat \<Rightarrow> 'n pstore \<Rightarrow> bool" where
  "ps_room i s \<longleftrightarrow> locks s i \<noteq> Unlocked \<or> length (ps_pinned s) < slots s"

definition ps_pin :: "bool \<Rightarrow> ('n \<Rightarrow> bool) \<Rightarrow> nat \<Rightarrow> 'n pstore \<Rightarrow> 'n pstore result" where
  "ps_pin skipLoad f i s =
     (if \<not> ps_room i s then raise ''Buffer is full!''
      else case nodes s i of
        None \<Rightarrow> Inl Undefined
      | Some n \<Rightarrow>
          if skipLoad
          then bindE (acquire True (locks s i)) (\<lambda>l.
                 Inr (s\<lparr>locks := (locks s)(i := l), nodes := (nodes s)(i \<mapsto> stale s i),
                        changed := insert i (changed s)\<rparr>))
          else bindE (acquire (f n) (locks s i)) (\<lambda>l. Inr (s\<lparr>locks := (locks s)(i := l)\<rparr>)))"

definition ps_get :: "nat \<Rightarrow> 'n pstore \<Rightarrow> 'n result" where
  "ps_get i s =
     (if locks s i = Unlocked then Inl DataRace
      else case nodes s i of None \<Rightarrow> Inl Undefined | Some n \<Rightarrow> Inr n)"

definition ps_put :: "nat \<Rightarrow> 'n \<Rightarrow> 'n pstore \<Rightarrow> 'n pstore result" where
  "ps_put i n s =
     (if locks s i \<noteq> Exclusive then Inl DataRace
      else Inr (s\<lparr>nodes := (nodes s)(i \<mapsto> n), changed := insert i (changed s)\<rparr>))"

definition ps_unpin :: "bool \<Rightarrow> nat \<Rightarrow> 'n pstore \<Rightarrow> 'n pstore result" where
  "ps_unpin dirty i s =
     bindE (release (locks s i)) (\<lambda>l.
       if \<not> dirty \<and> i \<in> changed s then Inl LostUpdate
       else Inr (s\<lparr>locks := (locks s)(i := l), changed := changed s - {i}\<rparr>))"

definition ps_pageAmount :: "'n pstore \<Rightarrow> nat" where
  "ps_pageAmount s = created s"

definition ps_flush :: "'n pstore \<Rightarrow> 'n pstore" where
  "ps_flush s = s\<lparr>stored := nodes s\<rparr>"

definition ps_reopen :: "'n pstore \<Rightarrow> 'n pstore" where
  "ps_reopen s = s\<lparr>nodes := stored s, locks := (\<lambda>_. Unlocked), changed := {}\<rparr>"

section \<open>Invariant and contract\<close>

definition ps_inv :: "'n pstore \<Rightarrow> bool" where
  "ps_inv s \<longleftrightarrow>
     inj (id_seq s) \<and> dom (nodes s) = id_seq s ` {..<created s} \<and>
     finite (ps_held s) \<and> (\<forall>i. locks s i \<noteq> Unlocked \<longrightarrow> i \<in> dom (nodes s)) \<and> (\<forall>i. lock_ok (locks s i)) \<and>
     (\<forall>i \<in> changed s. locks s i = Exclusive)"

definition ps_content :: "'n pstore \<Rightarrow> nat \<Rightarrow> 'n result" where
  "ps_content s i = (case nodes s i of None \<Rightarrow> Inl Undefined | Some n \<Rightarrow> Inr n)"

definition ps_used :: "'n pstore \<Rightarrow> nat set" where
  "ps_used s = dom (nodes s)"

lemma ps_held_update [simp]:
  "ps_held (s\<lparr>locks := (locks s)(i := l)\<rparr>) =
     (if l = Unlocked then ps_held s - {i} else insert i (ps_held s))"
  by (auto simp: ps_held_def)

lemma ps_invD:
  assumes "ps_inv s"
  shows "inj (id_seq s)" "dom (nodes s) = id_seq s ` {..<created s}" "finite (ps_held s)"
    "locks s i \<noteq> Unlocked \<Longrightarrow> i \<in> dom (nodes s)" "lock_ok (locks s i)"
    "i \<in> changed s \<Longrightarrow> locks s i = Exclusive"
  using assms unfolding ps_inv_def by blast+

lemma ps_fresh:
  assumes "ps_inv s"
  shows "nodes s (id_seq s (created s)) = None" "locks s (id_seq s (created s)) = Unlocked"
proof -
  have "id_seq s (created s) \<notin> id_seq s ` {..<created s}"
    using ps_invD(1) [OF assms] by (auto dest: injD)
  then have d: "id_seq s (created s) \<notin> dom (nodes s)" by (simp only: ps_invD(2) [OF assms] not_False_eq_True)
  then show "nodes s (id_seq s (created s)) = None" by auto
  show "locks s (id_seq s (created s)) = Unlocked" using d ps_invD(4) [OF assms] by blast
qed

lemma length_ps_pinned:
  assumes "ps_inv s"
  shows "length (ps_pinned s) = card (ps_held s)"
proof -
  have "distinct (ps_pinned s)"
    using ps_invD(1) [OF assms] by (simp add: ps_pinned_def distinct_map inj_on_subset)
  moreover have "set (ps_pinned s) = ps_held s"
    using ps_invD(2,4) [OF assms] by (force simp: ps_pinned_def ps_held_def)
  ultimately show ?thesis by (metis distinct_card)
qed

lemma ps_room_iff:
  "ps_inv s \<Longrightarrow> ps_room i s \<longleftrightarrow> locks s i \<noteq> Unlocked \<or> card (ps_held s) < slots s"
  by (simp add: ps_room_def length_ps_pinned)

text \<open>Changing the node, the lock and the flag of one page.\<close>

lemma ps_inv_update:
  assumes "ps_inv s" "i \<in> dom (nodes s)" "lock_ok l"
    and "C \<subseteq> insert i (changed s)" "i \<in> C \<Longrightarrow> l = Exclusive"
    and nd: "nd = nodes s \<or> nd = (nodes s)(i \<mapsto> n)"
    and s': "nodes s' = nd" "locks s' = (locks s)(i := l)" "changed s' = C"
      "id_seq s' = id_seq s" "created s' = created s"
  shows "ps_inv s'"
proof -
  have "dom nd = dom (nodes s)" using nd assms(2) by (elim disjE) (simp_all add: insert_absorb)
  moreover have "ps_held s' \<subseteq> insert i (ps_held s)" by (auto simp: ps_held_def s'(2))
  then have "finite (ps_held s')" using ps_invD(3) [OF assms(1)] by (meson finite_insert finite_subset)
  moreover have "locks s' j = Exclusive" if "j \<in> changed s'" for j
    using that assms(4,5) ps_invD(6) [OF assms(1), of j] by (auto simp: s'(2,3))
  ultimately show ?thesis
    using assms(2,3) ps_invD [OF assms(1)] unfolding ps_inv_def s' by auto
qed

lemma ps_new_inv: "inj ids \<Longrightarrow> ps_inv (ps_new n ids st)"
  by (simp add: ps_inv_def ps_new_def ps_held_def)

text \<open>
  The store with an explicit number of slots: \<open>page_pool\<close> has the capacity as a constant,
  here it is a field that no operation changes.
\<close>

definition ps_pool :: "nat \<Rightarrow> 'n pstore \<Rightarrow> bool" where
  "ps_pool n s \<longleftrightarrow> ps_inv s \<and> slots s = n"

lemma ps_create_ok:
  assumes "ps_inv s"
  shows "\<exists>i s'. ps_create s = Inr (i, s') \<and> ps_inv s' \<and> i \<notin> ps_used s \<and>
           ps_used s' = insert i (ps_used s) \<and> locks s' = locks s \<and> changed s' = changed s \<and>
           slots s' = slots s \<and> (\<forall>j \<in> ps_used s. ps_content s' j = ps_content s j)"
proof -
  define i where "i = id_seq s (created s)"
  define s' where "s' = s\<lparr>created := created s + 1, nodes := (nodes s)(i \<mapsto> stale s i)\<rparr>"
  have i: "i \<notin> dom (nodes s)" using ps_fresh [OF assms] by (auto simp: i_def)
  have "ps_inv s'"
    using ps_invD [OF assms] unfolding ps_inv_def
    by (simp add: s'_def ps_held_def i_def lessThan_Suc)
  moreover have "ps_create s = Inr (i, s')" by (simp add: ps_create_def s'_def i_def Let_def)
  ultimately show ?thesis using i by (auto simp: s'_def ps_used_def ps_content_def)
qed

lemma ps_pin_inv:
  assumes "ps_inv s" "ps_pin skip f i s = Inr s'"
  shows "ps_inv s'"
proof -
  obtain n where n: "nodes s i = Some n"
    using assms(2) by (auto simp: ps_pin_def split: if_splits option.splits)
  then have i: "i \<in> dom (nodes s)" by auto
  define e where "e = (skip \<or> f n)"
  obtain l where l: "acquire e (locks s i) = Inr l" "locks s' = (locks s)(i := l)"
      "nodes s' = (if skip then (nodes s)(i \<mapsto> stale s i) else nodes s)"
      "changed s' = (if skip then insert i (changed s) else changed s)"
      "id_seq s' = id_seq s" "created s' = created s"
    using assms(2) n by (cases skip) (auto simp: ps_pin_def e_def split: if_splits)
  have ne: "i \<notin> changed s"
    using acquire_ok(5) [OF l(1)] ps_invD(6) [OF assms(1), of i] by (auto simp: lock_free_def)
  have ex: "skip \<Longrightarrow> l = Exclusive" using acquire_ok(4) [OF l(1)] by (simp add: e_def)
  show ?thesis
    by (rule ps_inv_update [OF assms(1) i acquire_ok(2) [OF l(1)] _ _ _ l(3,2,4-6)])
      (use ne ex in \<open>auto split: if_splits\<close>)
qed

lemma acquire_free: "lock_free e l \<Longrightarrow> \<exists>l'. acquire e l = Inr l'"
  by (simp add: acquire_cases)

interpretation store: page_pool "ps_pool n" ps_used ps_content locks changed n "\<lambda>s. True" "\<lambda>d. True"
  ps_create ps_pin ps_get ps_put ps_unpin
  for n
proof (unfold_locales, goal_cases)
  case (1 s i)
  then show ?case by (auto simp: ps_content_def ps_used_def)
next
  case (2 s i)
  then show ?case using ps_invD(4) by (auto simp: ps_pool_def ps_used_def)
next
  case (3 s i)
  then show ?case by (simp add: ps_pool_def ps_inv_def)
next
  case (4 s)
  then show ?case by (simp add: ps_pool_def ps_inv_def pinned_pages_def ps_held_def)
next
  case (5 s i)
  then show ?case by (simp add: ps_pool_def ps_inv_def)
next
  case (6 s)
  then show ?case using ps_create_ok by (fastforce simp: ps_pool_def)
next
  case (7 s i d f)
  have n: "nodes s i = Some d" using 7(3) by (auto simp: ps_content_def split: option.splits)
  obtain l where l: "acquire (f d) (locks s i) = Inr l" using acquire_free [OF 7(4)] by blast
  have r: "ps_pin False f i s = Inr (s\<lparr>locks := (locks s)(i := l)\<rparr>)"
    using 7(1,5) n l by (auto simp: ps_pin_def ps_room_iff pinned_pages_def ps_held_def ps_pool_def)
  then show ?case using ps_pin_inv [OF _ r] 7(1) l
    by (auto simp: ps_pool_def ps_used_def ps_content_def)
next
  case (8 s i f)
  then obtain d where n: "nodes s i = Some d" by (auto simp: ps_used_def)
  have r: "ps_pin True f i s = Inr (s\<lparr>locks := (locks s)(i := Exclusive),
      nodes := (nodes s)(i \<mapsto> stale s i), changed := insert i (changed s)\<rparr>)"
    using 8(1,3,4) n by (auto simp: ps_pin_def ps_room_iff pinned_pages_def ps_held_def ps_pool_def)
  then show ?case using ps_pin_inv [OF _ r] 8(1) n
    by (auto simp: ps_pool_def ps_used_def ps_content_def)
next
  case (9 s i skip f)
  then show ?case
    by (simp add: ps_pin_def ps_room_iff pinned_pages_def ps_held_def ps_pool_def raise_def)
next
  case (10 s i)
  then show ?case by (simp add: ps_get_def ps_content_def)
next
  case (11 s i d)
  then have inv: "ps_inv s" by (simp add: ps_pool_def)
  have i: "i \<in> dom (nodes s)" using ps_invD(4) [OF inv, of i] 11(2) by simp
  let ?s = "s\<lparr>nodes := (nodes s)(i \<mapsto> d), changed := insert i (changed s)\<rparr>"
  have "ps_inv ?s"
    by (rule ps_inv_update [OF inv i, where l = Exclusive and n = d]) (use 11(2) in auto)
  then show ?case using 11 i by (auto simp: ps_put_def ps_pool_def ps_used_def ps_content_def)
next
  case (12 s i dirty)
  have ok: "lock_ok (locks s i)" using 12(1) by (simp add: ps_pool_def ps_inv_def)
  obtain l where l: "release (locks s i) = Inr l" "lock_ok l" "l \<noteq> Exclusive"
    using release_ok [OF ok 12(2)] by blast
  have "ps_unpin dirty i s = Inr (s\<lparr>locks := (locks s)(i := l), changed := changed s - {i}\<rparr>)"
    using l(1) 12(3) by (auto simp: ps_unpin_def)
  moreover have inv: "ps_inv s" using 12(1) by (simp add: ps_pool_def)
  moreover have "ps_inv (s\<lparr>locks := (locks s)(i := l), changed := changed s - {i}\<rparr>)"
    by (rule ps_inv_update [OF inv ps_invD(4) [OF inv 12(2)] l(2), where n = undefined]) auto
  ultimately show ?case using 12(1) l(1) by (auto simp: ps_pool_def ps_used_def ps_content_def)
qed

section \<open>Running the operations\<close>

text \<open>
  The part of a store that matters for a client: the nodes, the locks, the modified pages
  and the number of slots. The rules say what each operation does to them.
\<close>

definition st :: "'n pstore \<Rightarrow> (nat \<rightharpoonup> 'n) \<Rightarrow> (nat \<Rightarrow> lock) \<Rightarrow> nat set \<Rightarrow> nat \<Rightarrow> bool" where
  "st s nd lk ch n \<longleftrightarrow>
     ps_inv s \<and> nodes s = nd \<and> locks s = lk \<and> changed s = ch \<and> slots s = n"

abbreviation no_locks :: "nat \<Rightarrow> lock" where
  "no_locks \<equiv> \<lambda>_. Unlocked"

lemma no_locks_simps [simp]: "no_locks(i := Unlocked) = no_locks"
  by auto

lemma unlock_twice:
  "a \<noteq> b \<Longrightarrow> (lk(a := x, b := y))(a := Unlocked) = (lk(a := Unlocked))(b := y)"
  by (simp add: fun_upd_twist)

definition held_of :: "(nat \<Rightarrow> lock) \<Rightarrow> nat set" where
  "held_of lk = {i. lk i \<noteq> Unlocked}"

lemma held_of_simps [simp]:
  "held_of no_locks = {}"
  "held_of (lk(i := l)) = (if l = Unlocked then held_of lk - {i} else insert i (held_of lk))"
  by (auto simp: held_of_def)

lemma st_held: "st s nd lk ch n \<Longrightarrow> ps_held s = held_of lk"
  by (auto simp: st_def ps_held_def held_of_def)

lemma st_dom: "st s nd lk ch n \<Longrightarrow> lk i \<noteq> Unlocked \<Longrightarrow> i \<in> dom nd"
  unfolding st_def using ps_invD(4) by blast

lemma st_create:
  assumes "st s nd lk ch n"
  shows "\<exists>i s' x. ps_create s = Inr (i, s') \<and> i \<notin> dom nd \<and> lk i = Unlocked \<and> st s' (nd(i \<mapsto> x)) lk ch n"
proof -
  have inv: "ps_inv s" using assms by (simp add: st_def)
  obtain i s' where c: "ps_create s = Inr (i, s')" "ps_inv s'" "locks s' = locks s"
      "changed s' = changed s" "slots s' = slots s"
    using ps_create_ok [OF inv] by blast
  have i: "i = id_seq s (created s)" "nodes s' = (nodes s)(i \<mapsto> stale s i)"
    using c(1) by (auto simp: ps_create_def Let_def)
  show ?thesis using c i assms ps_fresh [OF inv] by (auto simp: st_def)
qed

definition lock_mode :: "bool \<Rightarrow> lock" where
  "lock_mode e = (if e then Exclusive else Shared 1)"

lemma lock_mode_simps [simp]:
  "lock_mode True = Exclusive" "lock_mode False = Shared 1" "lock_mode e \<noteq> Unlocked"
  by (simp_all add: lock_mode_def)

lemma st_pin:
  assumes "st s nd lk ch n" "nd i = Some x" "lk i = Unlocked" "card (held_of lk) < n"
  shows "\<exists>s'. ps_pin False f i s = Inr s' \<and> st s' nd (lk(i := lock_mode (f x))) ch n"
proof -
  have r: "ps_pin False f i s = Inr (s\<lparr>locks := (locks s)(i := lock_mode (f x))\<rparr>)"
    using assms st_held [OF assms(1)]
    by (auto simp: ps_pin_def ps_room_iff st_def acquire_cases lock_mode_def)
  moreover have "ps_inv s" using assms(1) by (simp add: st_def)
  ultimately show ?thesis using ps_pin_inv [OF _ r] assms(1) by (auto simp: st_def)
qed

lemma st_pin_skip:
  assumes "st s nd lk ch n" "nd i = Some x" "lk i = Unlocked" "card (held_of lk) < n"
  shows "\<exists>s' y. ps_pin True f i s = Inr s' \<and>
           st s' (nd(i \<mapsto> y)) (lk(i := Exclusive)) (insert i ch) n"
proof -
  have r: "ps_pin True f i s = Inr (s\<lparr>locks := (locks s)(i := Exclusive),
      nodes := (nodes s)(i \<mapsto> stale s i), changed := insert i (changed s)\<rparr>)"
    using assms st_held [OF assms(1)]
    by (auto simp: ps_pin_def ps_room_iff st_def acquire_cases)
  moreover have "ps_inv s" using assms(1) by (simp add: st_def)
  ultimately show ?thesis using ps_pin_inv [OF _ r] assms(1) by (auto simp: st_def)
qed

lemma st_get: "st s nd lk ch n \<Longrightarrow> nd i = Some x \<Longrightarrow> lk i \<noteq> Unlocked \<Longrightarrow> ps_get i s = Inr x"
  by (auto simp: st_def ps_get_def)

lemma st_put:
  assumes "st s nd lk ch n" "lk i = Exclusive"
  shows "\<exists>s'. ps_put i x s = Inr s' \<and> st s' (nd(i \<mapsto> x)) lk (insert i ch) n"
proof -
  have "i \<in> ps_used s" using st_dom [OF assms(1), of i] assms by (simp add: st_def ps_used_def)
  have r: "ps_put i x s = Inr (s\<lparr>nodes := (nodes s)(i \<mapsto> x), changed := insert i (changed s)\<rparr>)"
    using assms by (simp add: ps_put_def st_def)
  have "ps_pool n s" "locks s i = Exclusive" using assms by (simp_all add: ps_pool_def st_def)
  from store.put_law [OF this, of x] show ?thesis using assms(1) unfolding r
    by (auto simp: st_def ps_pool_def)
qed

lemma st_unpin:
  assumes "st s nd lk ch n" "lk i = Exclusive \<or> lk i = Shared 1" "dirty \<or> i \<notin> ch"
  shows "\<exists>s'. ps_unpin dirty i s = Inr s' \<and> st s' nd (lk(i := Unlocked)) (ch - {i}) n"
proof -
  have r: "ps_unpin dirty i s =
      Inr (s\<lparr>locks := (locks s)(i := Unlocked), changed := changed s - {i}\<rparr>)"
    using assms by (auto simp: ps_unpin_def st_def)
  have "ps_pool n s" "locks s i \<noteq> Unlocked" "dirty \<or> i \<notin> changed s"
    using assms by (auto simp: ps_pool_def st_def)
  from store.unpin_law [OF this] show ?thesis using assms(1) unfolding r
    by (auto simp: st_def ps_pool_def)
qed

text \<open>Unpinning the last pinned page.\<close>

lemma st_unpin_last:
  assumes "st s nd (no_locks(t := l)) ch n" "l = Exclusive \<or> l = Shared 1" "ch \<subseteq> {t}"
    "t \<in> ch \<Longrightarrow> dirty"
  shows "\<exists>s'. ps_unpin dirty t s = Inr s' \<and> st s' nd no_locks {} n"
proof -
  have e: "ch - {t} = {}" using assms(3) by auto
  obtain s' where "ps_unpin dirty t s = Inr s'" "st s' nd ((no_locks(t := l))(t := Unlocked)) (ch - {t}) n"
    using st_unpin [OF assms(1), of t dirty] assms(2,4) by auto
  then show ?thesis unfolding e by auto
qed

section \<open>Creating and pinning\<close>

text \<open>\<open>pageBuffer.pinPage(pageBuffer.createPage(), true, true)\<close>\<close>

definition pin_new :: "'n pstore \<Rightarrow> (nat \<times> 'n pstore) result" where
  "pin_new s =
     bindE (ps_create s) (\<lambda>(p, s1).
     bindE (ps_pin True (\<lambda>_. True) p s1) (\<lambda>s2. Inr (p, s2)))"

lemma pin_new_run:
  assumes "st s nd lk ch n" "card (held_of lk) < n"
  shows "\<exists>r s' y. pin_new s = Inr (r, s') \<and> r \<notin> dom nd \<and> lk r = Unlocked \<and>
           st s' (nd(r \<mapsto> y)) (lk(r := Exclusive)) (insert r ch) n"
proof -
  obtain r s1 x where r: "ps_create s = Inr (r, s1)" "r \<notin> dom nd" "lk r = Unlocked"
      "st s1 (nd(r \<mapsto> x)) lk ch n"
    using st_create [OF assms(1)] by blast
  obtain s2 y where "ps_pin True (\<lambda>_. True) r s1 = Inr s2"
      "st s2 (nd(r \<mapsto> x, r \<mapsto> y)) (lk(r := Exclusive)) (insert r ch) n"
    using st_pin_skip [OF r(4) _ r(3) assms(2), of x "\<lambda>_. True"] by auto
  then show ?thesis using r by (auto simp: pin_new_def)
qed

end
