(* ===== verification/OptBuffer.thy ===== *)
theory OptBuffer
  imports PagePool FileIO
begin

text \<open>
  \<open>src/buffer/OptimalPageBuffer.h\<close>: the replacement of the page buffer for measurements, an array
  with all pages and no eviction. Its file is written by \<open>flush\<close> only. A pin returns a reference
  to a page, which is its index here.

  The bytes of a page object behind its data (its number, its mutex, its flags) are an argument: they
  depend on the compiler and the standard library. So is the way back from bytes to a page.
\<close>

section \<open>State\<close>

record opt_page =
  odata :: "8 word list"
  opid :: nat
  olock :: lock

record opt_buffer =
  optFile :: os_file
  optCounter :: nat
  optPages :: "opt_page list"

record page_layout =
  sizeofPage :: nat
  repPage :: "opt_page \<Rightarrow> 8 word list"
  unrepPage :: "8 word list \<Rightarrow> opt_page"

text \<open>The data come first in a page, and other members follow.\<close>

definition layout_ok :: "nat \<Rightarrow> page_layout \<Rightarrow> bool" where
  "layout_ok B L \<longleftrightarrow>
     B + 8 \<le> sizeofPage L \<and>
     (\<forall>p. length (odata p) = B \<longrightarrow> length (repPage L p) = sizeofPage L \<and> take B (repPage L p) = odata p)"

text \<open>The array of pages as the memory that \<open>pages.data()\<close> points to.\<close>

definition page_memory :: "page_layout \<Rightarrow> opt_page list \<Rightarrow> 8 word list" where
  "page_memory L ps = concat (map (repPage L) ps)"

definition pages_from :: "page_layout \<Rightarrow> nat \<Rightarrow> 8 word list \<Rightarrow> opt_page list" where
  "pages_from L N m = map (\<lambda>i. unrepPage L (take (sizeofPage L) (drop (i * sizeofPage L) m))) [0..<N]"

definition new_pages :: "nat \<Rightarrow> nat \<Rightarrow> opt_page list" where
  "new_pages B N = replicate N \<lparr>odata = replicate B 0, opid = 2 ^ 64 - 1, olock = Unlocked\<rparr>"

section \<open>Opening\<close>

text \<open>The part of the file system that the constructor looks at: regular files and directories.\<close>

record file_system =
  regularFiles :: "string \<rightharpoonup> os_file"
  directories :: "string set"

definition pages_path :: "string \<Rightarrow> string" where
  "pages_path path = path @ ''/pages''"

text \<open>A path names one thing, and what contains a file is a directory.\<close>

definition fs_ok :: "file_system \<Rightarrow> bool" where
  "fs_ok fs \<longleftrightarrow>
     dom (regularFiles fs) \<inter> directories fs = {} \<and>
     (\<forall>path. pages_path path \<in> dom (regularFiles fs) \<longrightarrow> path \<in> directories fs)"

text \<open>\<open>create_directories\<close> throws when the path is a regular file.\<close>

definition create_directories :: "string \<Rightarrow> file_system \<Rightarrow> file_system result" where
  "create_directories path fs =
     (if path \<in> dom (regularFiles fs) then raise ''create_directories''
      else Inr (fs\<lparr>directories := insert path (directories fs)\<rparr>))"

definition opt_new ::
  "nat \<Rightarrow> nat \<Rightarrow> page_layout \<Rightarrow> string \<Rightarrow> file_system \<Rightarrow> (opt_buffer \<times> file_system) result" where
  "opt_new B N L path fs =
     (let filePath = pages_path path
      in if filePath \<in> dom (regularFiles fs) \<and> path \<in> dom (regularFiles fs) then
           (let f = the (regularFiles fs filePath)
            in if fsize f = 0 \<or> fsize f \<noteq> B + B * N then raise ''Invalid file size.''
               else let bytes = pread f (B * N) 0
                    in if length bytes \<noteq> B * N then raise ''Invalid file!''
                       else Inr (\<lparr>optFile = f, optCounter = 0,
                                  optPages = pages_from L N (bytes @ drop (B * N) (page_memory L (new_pages B N)))\<rparr>, fs))
         else bindE (create_directories path fs) (\<lambda>fs1.
              let f = ftruncate (case regularFiles fs1 filePath of None \<Rightarrow> empty_file | Some f \<Rightarrow> f) (B + B * N)
              in Inr (\<lparr>optFile = f, optCounter = 0, optPages = new_pages B N\<rparr>,
                      fs1\<lparr>regularFiles := (regularFiles fs1)(filePath \<mapsto> f)\<rparr>)))"

section \<open>Operations\<close>

text \<open>The counter is increased before the check, also when it fails.\<close>

definition opt_createPage :: "nat \<Rightarrow> opt_buffer \<Rightarrow> nat result \<times> opt_buffer" where
  "opt_createPage N b =
     (let i = (optCounter b + 1) mod 2 ^ 64;
          b1 = b\<lparr>optCounter := i\<rparr>
      in if i \<ge> N then (raise ''Full Buffer!'', b1)
         else (Inr i, b1\<lparr>optPages := (optPages b)[i := (optPages b ! i)\<lparr>opid := i\<rparr>]\<rparr>))"

definition opt_pinPage :: "nat \<Rightarrow> bool \<Rightarrow> (opt_page \<Rightarrow> bool) option \<Rightarrow> nat \<Rightarrow> opt_buffer \<Rightarrow> opt_buffer result" where
  "opt_pinPage N exclusive modeFunction i b =
     (if i \<ge> N then raise ''Invalid id!''
      else let p = optPages b ! i;
               e = (case modeFunction of None \<Rightarrow> exclusive | Some f \<Rightarrow> f p)
           in bindE (acquire e (olock p)) (\<lambda>l. Inr (b\<lparr>optPages := (optPages b)[i := p\<lparr>olock := l\<rparr>]\<rparr>)))"

definition opt_unpinPage :: "nat \<Rightarrow> opt_buffer \<Rightarrow> opt_buffer result" where
  "opt_unpinPage i b =
     (let p = optPages b ! i
      in bindE (release (olock p)) (\<lambda>l. Inr (b\<lparr>optPages := (optPages b)[i := p\<lparr>olock := l\<rparr>]\<rparr>)))"

definition opt_pageAmount :: "opt_buffer \<Rightarrow> nat" where
  "opt_pageAmount b = optCounter b"

text \<open>
  The header is one counter, aligned to 16 bytes. Both writes go to the start of the file. Reading
  behind the array of pages is undefined.
\<close>

definition opt_flush :: "nat \<Rightarrow> page_layout \<Rightarrow> opt_buffer \<Rightarrow> opt_buffer result" where
  "opt_flush B L b =
     (let m = page_memory L (optPages b);
          f = pwrite (optFile b) (enc64 (optCounter b) @ replicate 8 0) 0
      in if B * optCounter b > length m then Inl Undefined
         else Inr (b\<lparr>optFile := pwrite f (take (B * optCounter b) m) 0\<rparr>))"

text \<open>The data that a client reads and writes through a page that it has pinned.\<close>

definition opt_get :: "nat \<Rightarrow> opt_buffer \<Rightarrow> 8 word list result" where
  "opt_get i b =
     (if i \<ge> length (optPages b) then Inl Undefined
      else if olock (optPages b ! i) = Unlocked then Inl DataRace else Inr (odata (optPages b ! i)))"

definition opt_put :: "nat \<Rightarrow> 8 word list \<Rightarrow> opt_buffer \<Rightarrow> opt_buffer result" where
  "opt_put i d b =
     (if i \<ge> length (optPages b) then Inl Undefined
      else if olock (optPages b ! i) \<noteq> Exclusive then Inl DataRace
      else Inr (b\<lparr>optPages := (optPages b)[i := (optPages b ! i)\<lparr>odata := d\<rparr>]\<rparr>))"

section \<open>The contract of a page buffer\<close>

text \<open>
  Created pages have the numbers from 1 on. With the capacity \<open>N\<close> the buffer never runs full: the
  page with number 0 cannot be pinned by a client that has created its pages.
\<close>

definition opt_inv :: "nat \<Rightarrow> nat \<Rightarrow> opt_buffer \<Rightarrow> bool" where
  "opt_inv B N b \<longleftrightarrow>
     N < 2 ^ 64 \<and> optCounter b < N \<and> length (optPages b) = N \<and>
     (\<forall>p \<in> set (optPages b). length (odata p) = B \<and> lock_ok (olock p)) \<and>
     (\<forall>i < N. olock (optPages b ! i) \<noteq> Unlocked \<longrightarrow> 1 \<le> i \<and> i \<le> optCounter b)"

definition opt_used :: "opt_buffer \<Rightarrow> nat set" where
  "opt_used b = {1..optCounter b}"

definition opt_content :: "opt_buffer \<Rightarrow> nat \<Rightarrow> 8 word list result" where
  "opt_content b i = (if i < length (optPages b) then Inr (odata (optPages b ! i)) else Inl Undefined)"

definition opt_held :: "opt_buffer \<Rightarrow> nat \<Rightarrow> lock" where
  "opt_held b i = (if i < length (optPages b) then olock (optPages b ! i) else Unlocked)"

definition opt_create :: "nat \<Rightarrow> opt_buffer \<Rightarrow> (nat \<times> opt_buffer) result" where
  "opt_create N b = (case opt_createPage N b of (r, b') \<Rightarrow> bindE r (\<lambda>i. Inr (i, b')))"

definition opt_pin :: "nat \<Rightarrow> bool \<Rightarrow> (8 word list \<Rightarrow> bool) \<Rightarrow> nat \<Rightarrow> opt_buffer \<Rightarrow> opt_buffer result" where
  "opt_pin N skipLoad f i b =
     (if skipLoad then opt_pinPage N True None i b else opt_pinPage N False (Some (\<lambda>p. f (odata p))) i b)"

definition opt_unpin :: "bool \<Rightarrow> nat \<Rightarrow> opt_buffer \<Rightarrow> opt_buffer result" where
  "opt_unpin dirty i b = opt_unpinPage i b"

lemma opt_invD:
  assumes "opt_inv B N b" "i < N"
  shows "length (odata (optPages b ! i)) = B" "lock_ok (olock (optPages b ! i))" "i < length (optPages b)"
  using assms nth_mem [of i "optPages b"] by (auto simp: opt_inv_def)

lemma opt_heldD:
  assumes "opt_inv B N b" "opt_held b i \<noteq> Unlocked"
  shows "i < N" "i \<in> opt_used b" "opt_held b i = olock (optPages b ! i)"
  using assms by (auto simp: opt_inv_def opt_held_def opt_used_def split: if_splits)

lemma opt_usedD:
  assumes "opt_inv B N b" "i \<in> opt_used b"
  shows "i < N" "1 \<le> i" "i \<le> optCounter b"
  using assms by (auto simp: opt_inv_def opt_used_def)

text \<open>Exchanging one page.\<close>

lemma opt_set_page:
  assumes inv: "opt_inv B N b" and i: "i < N" and p: "length (odata p) = B" "lock_ok (olock p)"
    "olock p \<noteq> Unlocked \<longrightarrow> i \<in> opt_used b"
  defines "b' \<equiv> b\<lparr>optPages := (optPages b)[i := p]\<rparr>"
  shows "opt_inv B N b'" "opt_used b' = opt_used b" "opt_held b' i = olock p" "opt_content b' i = Inr (odata p)"
    "j \<noteq> i \<Longrightarrow> opt_held b' j = opt_held b j" "j \<noteq> i \<Longrightarrow> opt_content b' j = opt_content b j"
proof -
  note l = opt_invD(3) [OF inv i]
  show "opt_inv B N b'"
    using inv p i unfolding opt_inv_def b'_def opt_used_def
    by (auto simp: nth_list_update dest: set_update_subset_insert [THEN subsetD])
qed (use opt_invD(3) [OF inv i] in \<open>auto simp: b'_def opt_used_def opt_held_def opt_content_def\<close>)

lemma opt_pinned_less:
  assumes "opt_inv B N b"
  shows "card (pinned_pages opt_held b) < N" "finite (pinned_pages opt_held b)"
proof -
  have s: "pinned_pages opt_held b \<subseteq> {1..<N}"
    using opt_heldD [OF assms] opt_usedD [OF assms] by (fastforce simp: pinned_pages_def)
  then show "finite (pinned_pages opt_held b)" by (rule finite_subset) simp
  have "N \<noteq> 0" using assms by (auto simp: opt_inv_def)
  then show "card (pinned_pages opt_held b) < N"
    using card_mono [OF _ s] by simp
qed

lemma opt_pinPage_ok:
  assumes inv: "opt_inv B N b" and i: "i \<in> opt_used b"
    and e: "e = (case m of None \<Rightarrow> x | Some f \<Rightarrow> f (optPages b ! i))" and free: "lock_free e (opt_held b i)"
  shows "\<exists>b'. opt_pinPage N x m i b = Inr b' \<and> opt_inv B N b' \<and> opt_used b' = opt_used b \<and>
           acquire e (opt_held b i) = Inr (opt_held b' i) \<and> (\<forall>j. j \<noteq> i \<longrightarrow> opt_held b' j = opt_held b j) \<and>
           (\<forall>j. opt_content b' j = opt_content b j)"
proof -
  note u = opt_usedD(1) [OF inv i]
  let ?p = "optPages b ! i"
  have h: "opt_held b i = olock ?p" using opt_invD(3) [OF inv u] by (simp add: opt_held_def)
  obtain l where l: "acquire e (olock ?p) = Inr l" using free unfolding h by (auto simp: acquire_cases)
  let ?q = "?p\<lparr>olock := l\<rparr>"
  have q: "length (odata ?q) = B" "lock_ok (olock ?q)" "olock ?q \<noteq> Unlocked \<longrightarrow> i \<in> opt_used b"
    using opt_invD(1) [OF inv u] acquire_ok(2) [OF l] i by simp_all
  note s = opt_set_page [OF inv u q]
  have c: "opt_content b i = Inr (odata ?p)" using opt_invD(3) [OF inv u] by (simp add: opt_content_def)
  have "opt_pinPage N x m i b = Inr (b\<lparr>optPages := (optPages b)[i := ?q]\<rparr>)"
    using u l unfolding opt_pinPage_def e by simp
  moreover have "opt_content (b\<lparr>optPages := (optPages b)[i := ?q]\<rparr>) j = opt_content b j" for j
    using s(4,6) c by (cases "j = i") simp_all
  ultimately show ?thesis using s(1-3,5) l h by auto
qed

lemma opt_unpinPage_ok:
  assumes inv: "opt_inv B N b" and h: "opt_held b i \<noteq> Unlocked"
  shows "\<exists>b'. opt_unpinPage i b = Inr b' \<and> opt_inv B N b' \<and> opt_used b' = opt_used b \<and>
           release (opt_held b i) = Inr (opt_held b' i) \<and> (\<forall>j. j \<noteq> i \<longrightarrow> opt_held b' j = opt_held b j) \<and>
           (\<forall>j. opt_content b' j = opt_content b j)"
proof -
  note u = opt_heldD [OF inv h]
  let ?p = "optPages b ! i"
  obtain l where l: "release (olock ?p) = Inr l" "lock_ok l"
    using release_ok [OF opt_invD(2) [OF inv u(1)]] h u(3) by auto
  let ?q = "?p\<lparr>olock := l\<rparr>"
  have q: "length (odata ?q) = B" "lock_ok (olock ?q)" "olock ?q \<noteq> Unlocked \<longrightarrow> i \<in> opt_used b"
    using opt_invD(1) [OF inv u(1)] l(2) u(2) by simp_all
  note s = opt_set_page [OF inv u(1) q]
  have c: "opt_content b i = Inr (odata ?p)" using opt_invD(3) [OF inv u(1)] by (simp add: opt_content_def)
  have "opt_unpinPage i b = Inr (b\<lparr>optPages := (optPages b)[i := ?q]\<rparr>)"
    using l(1) by (simp add: opt_unpinPage_def)
  moreover have "opt_content (b\<lparr>optPages := (optPages b)[i := ?q]\<rparr>) j = opt_content b j" for j
    using s(4,6) c by (cases "j = i") simp_all
  ultimately show ?thesis using s(1-3,5) l(1) u(3) by auto
qed

lemma opt_createPage_ok:
  assumes inv: "opt_inv B N b" and n: "optCounter b + 1 < N"
  shows "\<exists>b'. opt_createPage N b = (Inr (optCounter b + 1), b') \<and> opt_inv B N b' \<and>
           opt_used b' = insert (optCounter b + 1) (opt_used b) \<and> opt_held b' = opt_held b \<and>
           (\<forall>j. opt_content b' j = opt_content b j)"
proof -
  let ?i = "optCounter b + 1"
  have m: "?i mod 2 ^ 64 = ?i" using inv n by (simp add: opt_inv_def)
  let ?b = "b\<lparr>optCounter := ?i, optPages := (optPages b)[?i := (optPages b ! ?i)\<lparr>opid := ?i\<rparr>]\<rparr>"
  have l: "length (optPages b) = N" using inv by (simp add: opt_inv_def)
  have "opt_createPage N b = (Inr ?i, ?b)" using n unfolding opt_createPage_def m by (simp add: Let_def)
  moreover have "opt_inv B N ?b"
    using inv n opt_invD(1,2) [OF inv n] unfolding opt_inv_def
    by (auto simp: nth_list_update le_Suc_eq dest: set_update_subset_insert [THEN subsetD])
  moreover have "opt_held ?b = opt_held b" "opt_content ?b j = opt_content b j" for j
    using l n by (auto simp: opt_held_def opt_content_def nth_list_update fun_eq_iff)
  moreover have "opt_used ?b = insert ?i (opt_used b)" by (auto simp: opt_used_def)
  ultimately show ?thesis by blast
qed

interpretation opt: page_pool "opt_inv B N" opt_used opt_content opt_held "\<lambda>b. {}" N
  "\<lambda>b. optCounter b + 1 < N" "\<lambda>d. length d = B" "opt_create N" "opt_pin N" opt_get opt_put opt_unpin
  for B N
proof (unfold_locales, goal_cases)
  case (1 s i)
  then show ?case using opt_usedD(1) opt_invD(1,3) by (fastforce simp: opt_content_def)
next
  case (2 s i)
  then show ?case by (rule opt_heldD(2))
next
  case (3 s i)
  then show ?case using opt_invD(2) by (auto simp: opt_held_def opt_inv_def)
next
  case (4 s)
  then show ?case by (rule opt_pinned_less(2))
next
  case (6 s)
  then have "optCounter s + 1 \<notin> opt_used s" by (simp add: opt_used_def)
  then show ?case using opt_createPage_ok [OF 6] by (auto simp: opt_create_def)
next
  case (7 s i d f)
  have "optPages s ! i \<in> set (optPages s)" "odata (optPages s ! i) = d"
    using opt_invD(3) [OF 7(1) opt_usedD(1) [OF 7(1,2)]] 7(3) by (auto simp: opt_content_def)
  then show ?case
    using opt_pinPage_ok [OF 7(1,2), of "f d" False "Some (\<lambda>p. f (odata p))"] 7(4)
    by (auto simp: opt_pin_def)
next
  case (8 s i f)
  have "lock_free True (opt_held s i)" using 8(3) by simp
  from opt_pinPage_ok [OF 8(1,2) _ this, of True None]
  show ?case using 8(3) by (auto simp: opt_pin_def)
next
  case (9 s i skip f)
  then show ?case using opt_pinned_less(1) by fastforce
next
  case (10 s i)
  note u = opt_heldD [OF 10]
  show ?case using u(3) 10(2) opt_invD(3) [OF 10(1) u(1)] by (simp add: opt_get_def opt_content_def)
next
  case (11 s i d)
  have h: "opt_held s i \<noteq> Unlocked" using 11(2) by simp
  note u = opt_heldD [OF 11(1) h]
  let ?q = "(optPages s ! i)\<lparr>odata := d\<rparr>"
  have q: "length (odata ?q) = B" "lock_ok (olock ?q)" "olock ?q \<noteq> Unlocked \<longrightarrow> i \<in> opt_used s"
    using opt_invD(2) [OF 11(1) u(1)] 11(3) u(2) by simp_all
  note p = opt_set_page [OF 11(1) u(1) q]
  have "opt_put i d s = Inr (s\<lparr>optPages := (optPages s)[i := ?q]\<rparr>)"
    using opt_invD(3) [OF 11(1) u(1)] u(3) 11(2) by (simp add: opt_put_def)
  moreover have "opt_held (s\<lparr>optPages := (optPages s)[i := ?q]\<rparr>) = opt_held s"
    using p(3,5) u(3) by (intro ext) (metis opt_page.select_convs(3) opt_page.surjective opt_page.update_convs(1))
  ultimately show ?case using p(1,2,4,6) by auto
next
  case (12 s i dirty)
  then show ?case using opt_unpinPage_ok [OF 12(1,2)] by (auto simp: opt_unpin_def)
qed simp

section \<open>Properties\<close>

lemma opt_new_pages: "set (new_pages B N) \<subseteq> {\<lparr>odata = replicate B 0, opid = 2 ^ 64 - 1, olock = Unlocked\<rparr>}"
  "length (new_pages B N) = N"
  by (auto simp: new_pages_def)

text \<open>
  C30. On a buffer in order the numbers of new pages count up to \<open>N - 1\<close>, and then \<open>createPage\<close>
  raises. An update of a created page that is not pinned lasts, and no other page changes: to its
  clients the array is a page buffer that never evicts.
\<close>
theorem opt_page_contract:
  assumes "opt_inv B N b"
  shows "fst (opt_createPage N b) =
           (if optCounter b + 1 < N then Inr (optCounter b + 1) else Inl (Raise ''Full Buffer!'')) \<and>
         (\<forall>i d. i \<in> opt_used b \<and> opt_held b i = Unlocked \<and> length d = B \<longrightarrow>
           (\<exists>b1 b2 b3. opt_pinPage N False (Some (\<lambda>_. True)) i b = Inr b1 \<and> opt_put i d b1 = Inr b2 \<and>
              opt_unpinPage i b2 = Inr b3 \<and> opt_inv B N b3 \<and> opt_held b3 = opt_held b \<and>
              opt_content b3 i = Inr d \<and> (\<forall>j \<in> opt_used b - {i}. opt_content b3 j = opt_content b j)))"
proof (intro conjI allI impI)
  have m: "(optCounter b + 1) mod 2 ^ 64 = optCounter b + 1" using assms by (simp add: opt_inv_def)
  show "fst (opt_createPage N b) =
      (if optCounter b + 1 < N then Inr (optCounter b + 1) else Inl (Raise ''Full Buffer!''))"
    unfolding opt_createPage_def m by (simp add: Let_def raise_def)
next
  fix i and d :: "8 word list"
  assume a: "i \<in> opt_used b \<and> opt_held b i = Unlocked \<and> length d = B"
  then show "\<exists>b1 b2 b3. opt_pinPage N False (Some (\<lambda>_. True)) i b = Inr b1 \<and> opt_put i d b1 = Inr b2 \<and>
              opt_unpinPage i b2 = Inr b3 \<and> opt_inv B N b3 \<and> opt_held b3 = opt_held b \<and>
              opt_content b3 i = Inr d \<and> (\<forall>j \<in> opt_used b - {i}. opt_content b3 j = opt_content b j)"
    using opt.update_page [OF assms, of i d] opt_pinned_less(1) [OF assms]
    unfolding opt_pin_def opt_unpin_def by auto
qed

lemma page_memory_prefix:
  assumes "layout_ok B L" "\<forall>p \<in> set ps. length (odata p) = B"
  shows "length (page_memory L ps) = length ps * sizeofPage L"
    "ps \<noteq> [] \<Longrightarrow> take B (page_memory L ps) = odata (ps ! 0)"
proof -
  show "length (page_memory L ps) = length ps * sizeofPage L"
    using assms(2) by (induction ps) (use assms(1) in \<open>auto simp: page_memory_def layout_ok_def\<close>)
  show "take B (page_memory L ps) = odata (ps ! 0)" if "ps \<noteq> []"
    using that assms by (cases ps) (auto simp: page_memory_def layout_ok_def)
qed

lemma opt_reopen_ok:
  assumes "fs_ok fs" "regularFiles fs (pages_path path) = Some f"
  shows "\<exists>b fs'. opt_new B N L path fs = Inr (b, fs') \<and> optCounter b = 0 \<and> optPages b = new_pages B N"
proof -
  have "path \<in> directories fs" using assms by (auto simp: fs_ok_def)
  then have "path \<notin> dom (regularFiles fs)" using assms(1) by (auto simp: fs_ok_def)
  then show ?thesis by (auto simp: opt_new_def create_directories_def Let_def)
qed

text \<open>
  A flush overwrites the header that it has just written with the first page, and nothing that
  is flushed is ever read again: the constructor loads the pages only if the path of the directory
  is a regular file, which it cannot be when it contains the file with the pages. Opening a
  flushed buffer gives an empty one.
\<close>
theorem opt_flush_reopen_empty:
  assumes "opt_inv B N b" "layout_ok B L" "16 \<le> B" "1 \<le> optCounter b" "fs_ok fs"
  shows "\<exists>b'. opt_flush B L b = Inr b' \<and> pread (optFile b') 16 0 = take 16 (odata (optPages b ! 0)) \<and>
           (regularFiles fs (pages_path path) = Some (optFile b') \<longrightarrow>
             (\<exists>b'' fs'. opt_new B N L path fs = Inr (b'', fs') \<and> optCounter b'' = 0 \<and> optPages b'' = new_pages B N))"
proof -
  let ?m = "page_memory L (optPages b)" and ?n = "B * optCounter b"
  have l: "length (optPages b) = N" "optCounter b \<le> N" using assms(1) by (simp_all add: opt_inv_def)
  have d: "\<forall>p \<in> set (optPages b). length (odata p) = B" using assms(1) by (simp add: opt_inv_def)
  note m = page_memory_prefix [OF assms(2) d]
  have "?n \<le> sizeofPage L * N"
    using assms(2) l(2) by (intro mult_le_mono) (auto simp: layout_ok_def)
  then have n: "?n \<le> length ?m" using m(1) l(1) by (simp add: mult.commute)
  have "B * 1 \<le> ?n" using assms(4) by (intro mult_le_mono2)
  then have B: "16 \<le> ?n" "B \<le> ?n" using assms(3) by linarith+
  let ?f = "pwrite (pwrite (optFile b) (enc64 (optCounter b) @ replicate 8 0) 0) (take ?n ?m) 0"
  have "opt_flush B L b = Inr (b\<lparr>optFile := ?f\<rparr>)" using n by (simp add: opt_flush_def Let_def)
  moreover have "pread ?f 16 0 = take 16 (odata (optPages b ! 0))"
  proof -
    have ne: "optPages b \<noteq> []" using assms(4) l by auto
    have "pread ?f 16 0 = take 16 (take ?n ?m)" by (rule pread_pwrite_prefix) (use n B in simp)
    also have "\<dots> = take 16 (take B ?m)" unfolding take_take min_absorb1 [OF B(1)] min_absorb1 [OF assms(3)] ..
    finally show ?thesis unfolding m(2) [OF ne] .
  qed
  ultimately show ?thesis using opt_reopen_ok [OF assms(5), of path _ B N L] by auto
qed

section \<open>A small buffer\<close>

definition demo_layout :: page_layout where
  "demo_layout = \<lparr>sizeofPage = 24, repPage = (\<lambda>p. odata p @ enc64 (opid p)),
     unrepPage = (\<lambda>bs. \<lparr>odata = take 16 bs, opid = dec_uint (drop 16 bs), olock = Unlocked\<rparr>)\<rparr>"

definition demo_buffer :: opt_buffer where
  "demo_buffer = \<lparr>optFile = empty_file, optCounter = 1,
     optPages = replicate 3 \<lparr>odata = replicate 16 0, opid = 0, olock = Unlocked\<rparr>\<rparr>"

lemma demo_buffer_inv: "opt_inv 16 3 demo_buffer" "layout_ok 16 demo_layout"
  by (auto simp: opt_inv_def demo_buffer_def layout_ok_def demo_layout_def)

theorem opt_page_contract_witness:
  "fst (opt_createPage 3 demo_buffer) = Inr 2 \<and>
   (\<exists>b1 b2 b3. opt_pinPage 3 False (Some (\<lambda>_. True)) 1 demo_buffer = Inr b1 \<and> opt_put 1 (replicate 16 7) b1 = Inr b2 \<and>
      opt_unpinPage 1 b2 = Inr b3 \<and> opt_content b3 1 = Inr (replicate 16 7))"
proof -
  have d: "1 \<in> opt_used demo_buffer" "opt_held demo_buffer 1 = Unlocked" "optCounter demo_buffer = 1"
    "length (replicate 16 (7 :: 8 word)) = 16"
    by (simp_all add: demo_buffer_def opt_used_def opt_held_def)
  note c = opt_page_contract [OF demo_buffer_inv(1)]
  have "fst (opt_createPage 3 demo_buffer) = Inr 2" using conjunct1 [OF c] d(3) by simp
  moreover have "\<exists>b1 b2 b3. opt_pinPage 3 False (Some (\<lambda>_. True)) 1 demo_buffer = Inr b1 \<and>
      opt_put 1 (replicate 16 7) b1 = Inr b2 \<and> opt_unpinPage 1 b2 = Inr b3 \<and> opt_content b3 1 = Inr (replicate 16 7)"
    using conjunct2 [OF c, rule_format, OF conjI [OF d(1) conjI [OF d(2,4)]]] by blast
  ultimately show ?thesis ..
qed

theorem opt_flush_reopen_empty_witness:
  "\<exists>b'. opt_flush 16 demo_layout demo_buffer = Inr b' \<and>
     (\<exists>b'' fs'. opt_new 16 3 demo_layout ''data'' \<lparr>regularFiles = [pages_path ''data'' \<mapsto> optFile b'], directories = {''data''}\<rparr>
        = Inr (b'', fs') \<and> optPages b'' = new_pages 16 3)"
proof -
  obtain b' where b': "opt_flush 16 demo_layout demo_buffer = Inr b'"
    using opt_flush_reopen_empty [OF demo_buffer_inv, of "\<lparr>regularFiles = Map.empty, directories = {}\<rparr>"]
    by (auto simp: fs_ok_def demo_buffer_def)
  have "fs_ok \<lparr>regularFiles = [pages_path ''data'' \<mapsto> optFile b'], directories = {''data''}\<rparr>"
    by (auto simp: fs_ok_def pages_path_def)
  from opt_flush_reopen_empty [OF demo_buffer_inv _ _ this, of "''data''"] b'
  show ?thesis by (auto simp: demo_buffer_def)
qed

end
