(* ===== verification/NodePool.thy ===== *)
theory NodePool
  imports PageBuffer PageStore OptBuffer
begin

text \<open>
  The store of typed nodes that the trees run on (\<open>PageStore\<close>) is implemented by a page buffer: every
  operation that succeeds on the store succeeds on any buffer with the contract \<open>page_pool\<close>, when
  the two are related. \<open>dec\<close> reads a node from the bytes of a page (the \<open>reinterpret_cast\<close> of
  \<open>accessNode\<close>, which leaves padding bytes open), \<open>num\<close> is the number of a page. A page that was
  created, or pinned without being loaded, is fresh until it is written: its bytes are not those
  of any node.
\<close>

definition node_rel ::
  "('s \<Rightarrow> bool) \<Rightarrow> ('s \<Rightarrow> 'i set) \<Rightarrow> ('s \<Rightarrow> 'i \<Rightarrow> 'd result) \<Rightarrow> ('s \<Rightarrow> 'i \<Rightarrow> lock) \<Rightarrow> ('s \<Rightarrow> 'i set) \<Rightarrow> nat \<Rightarrow>
   ('i \<Rightarrow> nat) \<Rightarrow> ('d \<Rightarrow> 'n) \<Rightarrow> 'i set \<Rightarrow> 's \<Rightarrow> 'n pstore \<Rightarrow> bool" where
  "node_rel I used content held modified cap num dec fresh s p \<longleftrightarrow>
     I s \<and> ps_inv p \<and> slots p = cap \<and> dom (nodes p) = num ` used s \<and>
     (\<forall>i. locks p (num i) = held s i) \<and> num ` modified s \<subseteq> changed p \<and>
     (\<forall>i \<in> used s - fresh. \<exists>d. content s i = Inr d \<and> nodes p (num i) = Some (dec d))"

locale node_pool = page_pool inv used content held modified cap can_create data_ok create pin get put unpin
  for inv :: "'s \<Rightarrow> bool" and used :: "'s \<Rightarrow> 'i set" and content :: "'s \<Rightarrow> 'i \<Rightarrow> 'd result" and held :: "'s \<Rightarrow> 'i \<Rightarrow> lock"
    and modified :: "'s \<Rightarrow> 'i set" and cap :: nat and can_create :: "'s \<Rightarrow> bool" and data_ok :: "'d \<Rightarrow> bool"
    and create :: "'s \<Rightarrow> ('i \<times> 's) result" and pin :: "bool \<Rightarrow> ('d \<Rightarrow> bool) \<Rightarrow> 'i \<Rightarrow> 's \<Rightarrow> 's result"
    and get :: "'i \<Rightarrow> 's \<Rightarrow> 'd result" and put :: "'i \<Rightarrow> 'd \<Rightarrow> 's \<Rightarrow> 's result" and unpin :: "bool \<Rightarrow> 'i \<Rightarrow> 's \<Rightarrow> 's result" +
  fixes num :: "'i \<Rightarrow> nat" and dec :: "'d \<Rightarrow> 'n"
  assumes num_inj: "inj num"
begin

abbreviation rel :: "'i set \<Rightarrow> 's \<Rightarrow> 'n pstore \<Rightarrow> bool" where
  "rel \<equiv> node_rel inv used content held modified cap num dec"

lemma relD:
  assumes "rel F s p"
  shows "inv s" "ps_inv p" "slots p = cap" "dom (nodes p) = num ` used s" "locks p (num i) = held s i"
    "num ` modified s \<subseteq> changed p" "i \<in> used s \<Longrightarrow> i \<notin> F \<Longrightarrow> \<exists>d. content s i = Inr d \<and> nodes p (num i) = Some (dec d)"
  using assms by (simp_all add: node_rel_def)

lemma rel_used: "rel F s p \<Longrightarrow> nodes p (num i) = Some n \<Longrightarrow> i \<in> used s"
  using relD(4) [of F s p] num_inj by (metis domI inj_image_mem_iff)

lemma rel_pinned:
  assumes "rel F s p"
  shows "card (pinned_pages held s) = card (ps_held p)"
proof -
  have "ps_held p = num ` pinned_pages held s"
  proof (intro equalityI subsetI)
    fix k assume k: "k \<in> ps_held p"
    then have "k \<in> num ` used s" using ps_invD(4) [OF relD(2) [OF assms]] relD(4) [OF assms] by (auto simp: ps_held_def)
    then show "k \<in> num ` pinned_pages held s" using k relD(5) [OF assms] by (auto simp: ps_held_def pinned_pages_def)
  qed (auto simp: ps_held_def pinned_pages_def relD(5) [OF assms])
  moreover have "inj_on num (pinned_pages held s)" using num_inj by (rule inj_on_subset) simp
  ultimately show ?thesis by (simp add: card_image)
qed

lemma get_sim:
  assumes "rel F s p" "i \<notin> F" "ps_get (num i) p = Inr n"
  shows "\<exists>d. get i s = Inr d \<and> dec d = n"
proof -
  have l: "held s i \<noteq> Unlocked" "nodes p (num i) = Some n"
    using assms(3) relD(5) [OF assms(1), of i] by (auto simp: ps_get_def split: if_splits option.splits)
  then show ?thesis
    using relD(7) [OF assms(1) rel_used [OF assms(1) l(2)] assms(2)] get_law [OF relD(1) [OF assms(1)] l(1)] by auto
qed

text \<open>The related states after a step on page \<open>i\<close> only.\<close>

lemma rel_step:
  assumes r: "rel F s p" and inv': "inv s'" "used s' = used s" and p': "ps_inv p'" "slots p' = slots p" "dom (nodes p') = dom (nodes p)"
    and h: "\<forall>j. j \<noteq> i \<longrightarrow> held s' j = held s j" "locks p' = (locks p)(num i := held s' i)"
    and m: "num ` modified s' \<subseteq> changed p'"
    and c: "\<forall>j \<in> used s - {i}. content s' j = content s j" "\<forall>k. k \<noteq> num i \<longrightarrow> nodes p' k = nodes p k"
    and F: "F \<subseteq> insert i F'" "i \<in> used s - F' \<Longrightarrow> \<exists>d. content s' i = Inr d \<and> nodes p' (num i) = Some (dec d)"
  shows "rel F' s' p'"
proof -
  have "\<exists>d. content s' j = Inr d \<and> nodes p' (num j) = Some (dec d)" if j: "j \<in> used s" "j \<notin> F'" for j
  proof (cases "j = i")
    case False
    then have "num j \<noteq> num i" using num_inj by (auto dest: injD)
    then show ?thesis using relD(7) [OF r j(1)] j F(1) False c by auto
  qed (use F(2) j in blast)
  moreover have "locks p' (num j) = held s' j" for j
    using h relD(5) [OF r, of j] num_inj by (auto dest: injD)
  ultimately show ?thesis using inv' p' m relD(3,4) [OF r] by (simp add: node_rel_def)
qed

lemma put_sim:
  assumes r: "rel F s p" and p': "ps_put (num i) (dec d) p = Inr p'" and d: "data_ok d"
  shows "\<exists>s'. put i d s = Inr s' \<and> rel (F - {i}) s' p'"
proof -
  have l: "held s i = Exclusive" "p' = p\<lparr>nodes := (nodes p)(num i \<mapsto> dec d), changed := insert (num i) (changed p)\<rparr>"
    using p' relD(5) [OF r, of i] by (auto simp: ps_put_def split: if_splits)
  obtain s' where s': "put i d s = Inr s'" "inv s'" "used s' = used s" "held s' = held s"
      "modified s' \<subseteq> insert i (modified s)" "content s' i = Inr d" "\<forall>j \<in> used s - {i}. content s' j = content s j"
    using put_law [OF relD(1) [OF r] l(1) d] by blast
  have i: "num i \<in> dom (nodes p)" using ps_invD(4) [OF relD(2) [OF r], of "num i"] relD(5) [OF r, of i] l(1) by simp
  have "ps_inv p'"
    by (rule ps_inv_update [OF relD(2) [OF r] i, where l = Exclusive and n = "dec d"])
      (use l relD(5) [OF r, of i] in auto)
  moreover have "num ` modified s' \<subseteq> changed p'" using s'(5) relD(6) [OF r] l(2) by auto
  ultimately have "rel (F - {i}) s' p'"
    using s' l i relD(5) [OF r, of i] by (intro rel_step [OF r, where i = i]) (auto simp: insert_absorb)
  then show ?thesis using s'(1) by blast
qed

lemma unpin_sim:
  assumes r: "rel F s p" and p': "ps_unpin dirty (num i) p = Inr p'"
  shows "\<exists>s'. unpin dirty i s = Inr s' \<and> rel F s' p'"
proof -
  obtain l where l: "release (held s i) = Inr l" "dirty \<or> num i \<notin> changed p"
      "p' = p\<lparr>locks := (locks p)(num i := l), changed := changed p - {num i}\<rparr>"
    using p' relD(5) [OF r, of i] by (auto simp: ps_unpin_def split: if_splits)
  have h: "held s i \<noteq> Unlocked" using l(1) by (cases "held s i") auto
  have "dirty \<or> i \<notin> modified s" using l(2) relD(6) [OF r] by auto
  from unpin_law [OF relD(1) [OF r] h this] obtain s' where
    s': "unpin dirty i s = Inr s'" "inv s'" "used s' = used s" "release (held s i) = Inr (held s' i)"
      "\<forall>j. j \<noteq> i \<longrightarrow> held s' j = held s j" "modified s' \<subseteq> modified s - {i}" "\<forall>j \<in> used s. content s' j = content s j"
    by blast
  have i: "num i \<in> dom (nodes p)" using ps_invD(4) [OF relD(2) [OF r], of "num i"] relD(5) [OF r, of i] h by simp
  have ok: "lock_ok l" using release_ok [OF held_ok [OF relD(1) [OF r]] h] l(1) by auto
  have "ps_inv p'"
    by (rule ps_inv_update [OF relD(2) [OF r] i ok, where n = "the (nodes p (num i))"]) (use l(3) in auto)
  moreover have "num ` modified s' \<subseteq> changed p'"
    using s'(6) relD(6) [OF r] l(3) num_inj by (auto dest: injD)
  ultimately have "rel F s' p'"
    using s' l relD(7) [OF r, of i] by (intro rel_step [OF r, where i = i]) auto
  then show ?thesis using s'(1) by blast
qed

lemma pin_sim:
  assumes r: "rel F s p" and i: "i \<notin> F" and p': "ps_pin False f (num i) p = Inr p'"
  shows "\<exists>s'. pin False (\<lambda>d. f (dec d)) i s = Inr s' \<and> rel F s' p'"
proof -
  note P = relD(2) [OF r]
  obtain n l where n: "nodes p (num i) = Some n" "acquire (f n) (held s i) = Inr l" "p' = p\<lparr>locks := (locks p)(num i := l)\<rparr>"
      "ps_room (num i) p"
    using p' relD(5) [OF r, of i] by (auto simp: ps_pin_def split: if_splits option.splits)
  have u: "i \<in> used s" by (rule rel_used [OF r n(1)])
  obtain d where d: "content s i = Inr d" "dec d = n" using relD(7) [OF r u i] n(1) by auto
  have room: "held s i \<noteq> Unlocked \<or> card (pinned_pages held s) < cap"
    using n(4) unfolding ps_room_iff [OF P] rel_pinned [OF r] relD(3) [OF r] relD(5) [OF r] .
  have free: "lock_free (f (dec d)) (held s i)" using acquire_ok(5) [OF n(2)] d(2) by simp
  obtain s' where s': "pin False (\<lambda>d. f (dec d)) i s = Inr s'" "inv s'" "used s' = used s"
      "acquire (f (dec d)) (held s i) = Inr (held s' i)" "\<forall>j. j \<noteq> i \<longrightarrow> held s' j = held s j"
      "modified s' \<subseteq> modified s" "\<forall>j \<in> used s. content s' j = content s j"
    using pin_law [where f = "\<lambda>d. f (dec d)", OF relD(1) [OF r] u d(1) free room] by blast
  have "num ` modified s' \<subseteq> changed p'" using s'(6) relD(6) [OF r] n(3) by auto
  then have "rel F s' p'"
    using s' n d ps_pin_inv [OF P p'] relD(7) [OF r u] by (intro rel_step [OF r, where i = i]) auto
  then show ?thesis using s'(1) by blast
qed

lemma pin_skip_sim:
  assumes r: "rel F s p" and p': "ps_pin True g (num i) p = Inr p'"
  shows "\<exists>s'. pin True f i s = Inr s' \<and> rel (insert i F) s' p'"
proof -
  note P = relD(2) [OF r]
  obtain n l where n: "nodes p (num i) = Some n" "acquire True (held s i) = Inr l" "ps_room (num i) p"
      "p' = p\<lparr>locks := (locks p)(num i := l), nodes := (nodes p)(num i \<mapsto> stale p (num i)), changed := insert (num i) (changed p)\<rparr>"
    using p' relD(5) [OF r, of i] by (auto simp: ps_pin_def split: if_splits option.splits)
  have u: "i \<in> used s" by (rule rel_used [OF r n(1)])
  have h: "held s i = Unlocked" "l = Exclusive"
    using acquire_ok(4,5) [OF n(2)] by (simp_all add: lock_free_def)
  have room: "card (pinned_pages held s) < cap"
    using n(3) h(1) unfolding ps_room_iff [OF P] rel_pinned [OF r] relD(3) [OF r] relD(5) [OF r] by simp
  obtain s' where s': "pin True f i s = Inr s'" "inv s'" "used s' = used s" "held s' i = Exclusive"
      "\<forall>j. j \<noteq> i \<longrightarrow> held s' j = held s j" "modified s' \<subseteq> insert i (modified s)"
      "\<forall>j \<in> used s - {i}. content s' j = content s j"
    using pin_skip_law [OF relD(1) [OF r] u h(1) room] by blast
  have "num ` modified s' \<subseteq> changed p'" using s'(6) relD(6) [OF r] n(4) by auto
  then have "rel (insert i F) s' p'"
    using s' n h ps_pin_inv [OF P p'] by (intro rel_step [OF r, where i = i]) (auto simp: insert_absorb)
  then show ?thesis using s'(1) by blast
qed

text \<open>
  The numbers of new pages are an argument of the store: they can be chosen such that the next one is
  the number that the buffer gives.
\<close>

lemma create_sim:
  assumes r: "rel F s p" and c: "can_create s"
  shows "\<exists>i s' ns p'. create s = Inr (i, s') \<and> (\<forall>k < created p. ns k = id_seq p k) \<and>
           ps_create (p\<lparr>id_seq := ns\<rparr>) = Inr (num i, p') \<and> rel (insert i F) s' p'"
proof -
  note P = relD(2) [OF r]
  obtain i s' where s': "create s = Inr (i, s')" "inv s'" "i \<notin> used s" "used s' = insert i (used s)" "held s' = held s"
      "modified s' = modified s" "\<forall>j \<in> used s. content s' j = content s j"
    using create_law [OF relD(1) [OF r] c] by blast
  let ?c = "created p" and ?S = "id_seq p ` {..<created p}"
  define M where "M = Suc (num i + Max (insert 0 ?S))"
  define ns where "ns k = (if k < ?c then id_seq p k else if k = ?c then num i else M + k)" for k
  have S: "x < M" if "x \<in> ?S" for x
  proof -
    have "x \<le> Max (insert 0 ?S)" by (rule Max_ge) (use that in simp_all)
    then show ?thesis by (simp add: M_def)
  qed
  have new: "num i \<notin> ?S" using relD(4) [OF r] ps_invD(2) [OF P] s'(3) num_inj by (metis inj_image_mem_iff)
  have low: "ns k \<in> ?S" "ns k = id_seq p k" if "k < ?c" for k using that by (simp_all add: ns_def)
  have "inj ns"
  proof (rule linorder_injI)
    fix x y :: nat assume xy: "x < y"
    show "ns x \<noteq> ns y"
    proof (cases "y < ?c")
      case True
      then show ?thesis using low(2) xy ps_invD(1) [OF P] by (auto dest: injD)
    next
      case y: False
      show ?thesis
      proof (cases "x < ?c")
        case True
        have "ns x \<noteq> num i" using low(1) [OF True] new by metis
        moreover have "ns x < M" using S [OF low(1) [OF True]] .
        ultimately show ?thesis using y unfolding ns_def [of y] by auto
      next
        case False
        then show ?thesis using xy by (simp add: ns_def M_def)
      qed
    qed
  qed
  define p' where "p' = p\<lparr>id_seq := ns, created := ?c + 1, nodes := (nodes p)(num i \<mapsto> stale p (num i))\<rparr>"
  have same: "ns ` {..<?c} = ?S" by (rule image_cong) (simp_all add: ns_def)
  have "ps_create (p\<lparr>id_seq := ns\<rparr>) = Inr (num i, p')" by (simp add: ps_create_def p'_def Let_def ns_def)
  moreover have "ps_inv p'"
  proof -
    have "dom (nodes p') = ns ` {..<created p'}"
    proof -
      have "ns ` {..<Suc ?c} = insert (ns ?c) (ns ` {..<?c})" by (simp only: lessThan_Suc image_insert)
      moreover have "ns ?c = num i" by (simp add: ns_def)
      ultimately show ?thesis using ps_invD(2) [OF P] same by (simp add: p'_def)
    qed
    then show ?thesis
      using ps_invD [OF P] \<open>inj ns\<close> unfolding ps_inv_def by (auto simp: p'_def ps_held_def)
  qed
  moreover have "dom (nodes p') = num ` used s'" using relD(4) [OF r] s'(4) by (simp add: p'_def)
  moreover have "\<exists>d. content s' j = Inr d \<and> nodes p' (num j) = Some (dec d)" if "j \<in> used s'" "j \<notin> insert i F" for j
  proof -
    have "num j \<noteq> num i" using that(2) num_inj by (auto dest: injD)
    then show ?thesis using relD(7) [OF r, of j] that s'(4,7) by (auto simp: p'_def)
  qed
  ultimately have "rel (insert i F) s' p'"
    using s'(2,5,6) relD(3,5,6) [OF r] by (auto simp: node_rel_def p'_def)
  then show ?thesis
    using s'(1) \<open>ps_create (p\<lparr>id_seq := ns\<rparr>) = Inr (num i, p')\<close> by (auto simp: ns_def intro!: exI [of _ ns])
qed

end

section \<open>The two page buffers\<close>

interpretation pb_nodes: node_pool "pool_inv B N slot" "pb_used B" "pb_content B" pb_held "pb_modified B"
  N "\<lambda>pb. sm_can_create grow pick (segmentManager pb)" "\<lambda>d. length d = B"
  "pb_createPage B grow pick" "pb_pin B slot" pb_get pb_put pb_unpin unat dec
  for B N slot grow pick and dec :: "8 word list \<Rightarrow> 'n"
  by unfold_locales (auto intro: injI)

interpretation opt_nodes: node_pool "opt_inv B N" opt_used opt_content opt_held "\<lambda>b. {}" N
  "\<lambda>b. optCounter b + 1 < N" "\<lambda>d. length d = B" "opt_create N" "opt_pin N" opt_get opt_put opt_unpin id dec
  for B N and dec :: "8 word list \<Rightarrow> 'n"
  by unfold_locales simp

definition pb_rel ::
  "nat \<Rightarrow> nat \<Rightarrow> (nat set \<Rightarrow> nat) \<Rightarrow> (8 word list \<Rightarrow> 'n) \<Rightarrow> block_id set \<Rightarrow> page_buffer \<Rightarrow> 'n pstore \<Rightarrow> bool" where
  "pb_rel B N slot dec = node_rel (pool_inv B N slot) (pb_used B) (pb_content B) pb_held (pb_modified B) N unat dec"

text \<open>
  C5. The page buffer over the segment manager implements the store of nodes that both trees
  run on. From related states, whatever the store answers without an error the buffer answers
  too: it returns bytes that are the node, and ends in a related state. So no call of a tree that
  succeeds on the store fails on the buffer, with the same number of slots. Pages in \<open>fresh\<close> have not
  been written since they were created; no operation of the trees reads such a page.
\<close>
theorem page_buffer_implements_store:
  assumes "pb_rel B N slot dec fresh pb p"
  shows "(\<forall>i n. i \<notin> fresh \<and> ps_get (unat i) p = Inr n \<longrightarrow> (\<exists>d. pb_get i pb = Inr d \<and> dec d = n)) \<and>
         (\<forall>i d p'. length d = B \<and> ps_put (unat i) (dec d) p = Inr p' \<longrightarrow>
            (\<exists>pb'. pb_put i d pb = Inr pb' \<and> pb_rel B N slot dec (fresh - {i}) pb' p')) \<and>
         (\<forall>i dirty p'. ps_unpin dirty (unat i) p = Inr p' \<longrightarrow>
            (\<exists>pb'. pb_unpin dirty i pb = Inr pb' \<and> pb_rel B N slot dec fresh pb' p')) \<and>
         (\<forall>i f p'. i \<notin> fresh \<and> ps_pin False f (unat i) p = Inr p' \<longrightarrow>
            (\<exists>pb'. pb_pin B slot False (\<lambda>d. f (dec d)) i pb = Inr pb' \<and> pb_rel B N slot dec fresh pb' p')) \<and>
         (\<forall>i f g p'. ps_pin True g (unat i) p = Inr p' \<longrightarrow>
            (\<exists>pb'. pb_pin B slot True f i pb = Inr pb' \<and> pb_rel B N slot dec (insert i fresh) pb' p')) \<and>
         (sm_can_create grow pick (segmentManager pb) \<longrightarrow>
            (\<exists>i pb' ns p'. pb_createPage B grow pick pb = Inr (i, pb') \<and> (\<forall>k < created p. ns k = id_seq p k) \<and>
               ps_create (p\<lparr>id_seq := ns\<rparr>) = Inr (unat i, p') \<and> pb_rel B N slot dec (insert i fresh) pb' p'))"
  using assms unfolding pb_rel_def
  by (intro conjI allI impI; (elim conjE)?)
    (erule (2) pb_nodes.get_sim, erule (1) pb_nodes.put_sim, assumption, erule (1) pb_nodes.unpin_sim,
     erule (2) pb_nodes.pin_sim, erule (1) pb_nodes.pin_skip_sim, erule (1) pb_nodes.create_sim)

text \<open>A new buffer over a new file is related to a new store.\<close>

lemma demo_pb_rel:
  "pb_rel 48 2 Min dec {} (pb_new 48 2 (sm_new 48)) (ps_new 2 (\<lambda>i. i) old)"
proof -
  note new = pb_new_ok [OF demo_sm(1), of 2]
  have "pool_inv 48 2 Min (pb_new 48 2 (sm_new 48))" using new(1) demo_slot by (simp add: pool_inv_def)
  moreover have "pb_modified 48 (pb_new 48 2 (sm_new 48)) = {}"
    using pool.modified_held [OF calculation] by (fastforce simp: new(5))
  ultimately show ?thesis
    unfolding pb_rel_def node_rel_def
    using new(2,5) demo_sm(2) ps_new_inv [of "\<lambda>i. i" 2 old] by (simp add: ps_new_def)
qed

theorem page_buffer_implements_store_witness:
  "\<exists>i pb' ns p'. pb_createPage 48 (\<lambda>n. n * 5 div 4) Min (pb_new 48 2 (sm_new 48)) = Inr (i, pb') \<and>
     ps_create ((ps_new 2 (\<lambda>i. i) (\<lambda>_. 0))\<lparr>id_seq := ns\<rparr>) = Inr (unat i, p') \<and>
     pb_rel 48 2 Min (length :: 8 word list \<Rightarrow> nat) {i} pb' p'"
proof -
  have "sm_can_create (\<lambda>n. n * 5 div 4) Min (segmentManager (pb_new 48 2 (sm_new 48)))"
    using demo_sm(3) by (simp add: pb_new_def)
  with page_buffer_implements_store [OF demo_pb_rel [of length "\<lambda>_. 0"], of "\<lambda>n. n * 5 div 4" Min]
  show ?thesis by blast
qed

end
