(* ===== verification/BNode.thy ===== *)
theory BNode
  imports PageStore StdAlgo
begin

text \<open>
  \<open>src/btree/BNode.h\<close>: the nodes of the B+-tree and their capacities. A node lives in one
  page; its arrays have a fixed length, and \<open>size\<close> tells how many elements are in use. The
  flag \<open>leaf\<close> of the wrapper is the constructor of \<open>bnode\<close>, and reading a node as the
  wrong kind fails the assertion in \<open>asLeaf\<close> and \<open>asInner\<close>.

  Elements behind \<open>size\<close> are in the model, since the code moves and reads whole arrays;
  a new node has indeterminate elements, which the configuration gives as \<open>anyKey\<close> and
  \<open>anyVal\<close>.
\<close>

section \<open>Nodes\<close>

record ('k, 'v) leaf_node =
  keys :: "'k list"
  vals :: "'v list"
  lsize :: nat

record 'k inner_node =
  pivots :: "'k list"
  children :: "nat list"
  isize :: nat

datatype ('k, 'v) bnode = Leaf "('k, 'v) leaf_node" | Inner "'k inner_node"

record ('k, 'v) bconfig =
  LEAF_N :: nat
  INNER_N :: nat
  anyKey :: 'k
  anyVal :: 'v

fun isLeaf :: "('k, 'v) bnode \<Rightarrow> bool" where
  "isLeaf (Leaf l) = True"
| "isLeaf (Inner n) = False"

fun asInner :: "('k, 'v) bnode \<Rightarrow> 'k inner_node result" where
  "asInner (Inner n) = Inr n"
| "asInner (Leaf l) = Inl AssertFailed"

fun asLeaf :: "('k, 'v) bnode \<Rightarrow> ('k, 'v) leaf_node result" where
  "asLeaf (Leaf l) = Inr l"
| "asLeaf (Inner n) = Inl AssertFailed"

definition new_leaf :: "('k, 'v) bconfig \<Rightarrow> ('k, 'v) leaf_node" where
  "new_leaf C =
     \<lparr>keys = replicate (LEAF_N C) (anyKey C), vals = replicate (LEAF_N C) (anyVal C), lsize = 0\<rparr>"

definition new_inner :: "('k, 'v) bconfig \<Rightarrow> 'k inner_node" where
  "new_inner C =
     \<lparr>pivots = replicate (INNER_N C) (anyKey C), children = replicate (INNER_N C + 1) 0, isize = 0\<rparr>"

definition new_bnode :: "('k, 'v) bconfig \<Rightarrow> bool \<Rightarrow> ('k, 'v) bnode" where
  "new_bnode C leaf = (if leaf then Leaf (new_leaf C) else Inner (new_inner C))"

section \<open>Capacities\<close>

text \<open>
  \<open>sizes::NodeSizes\<close>, for keys and values of \<open>sk\<close> and \<open>sv\<close> bytes. The template with
  \<open>N = 0\<close> has empty arrays of one byte each; with the counter (and the one child of an
  inner node) aligned to 8 bytes that makes 16 and 24 bytes. The arithmetic is that of
  \<open>std::size_t\<close>.
\<close>

definition sizeof_leaf0 :: nat where
  "sizeof_leaf0 = 16"

definition sizeof_inner0 :: nat where
  "sizeof_inner0 = 24"

definition getLeafN :: "nat \<Rightarrow> nat \<Rightarrow> nat \<Rightarrow> nat" where
  "getLeafN sk sv bytes = (bytes - sizeof_leaf0) div (sk + sv)"

definition inner_n_before_correction :: "nat \<Rightarrow> nat \<Rightarrow> nat" where
  "inner_n_before_correction sk bytes = (bytes - sizeof_inner0 - 8) div (sk + 8)"

definition getInnerN :: "nat \<Rightarrow> nat \<Rightarrow> nat" where
  "getInnerN sk bytes =
     (let n = inner_n_before_correction sk bytes
      in (n + 2 ^ 64 - (1 - n mod 2)) mod 2 ^ 64)"

text \<open>The layout of the nodes for keys and values whose sizes are multiples of 8.\<close>

definition sizeof_leaf :: "nat \<Rightarrow> nat \<Rightarrow> nat \<Rightarrow> nat" where
  "sizeof_leaf sk sv n = n * sk + n * sv + 8"

definition sizeof_inner :: "nat \<Rightarrow> nat \<Rightarrow> nat" where
  "sizeof_inner sk n = n * sk + (n + 1) * 8 + 8"

lemma getInnerN_eq:
  assumes "0 < inner_n_before_correction sk bytes" "inner_n_before_correction sk bytes < 2 ^ 64"
  shows "getInnerN sk bytes =
    inner_n_before_correction sk bytes - (1 - inner_n_before_correction sk bytes mod 2)"
proof -
  let ?n = "inner_n_before_correction sk bytes" and ?c = "1 - inner_n_before_correction sk bytes mod 2"
  have "?c \<le> ?n" using assms(1) by linarith
  then have "?n + 2 ^ 64 - ?c = (?n - ?c) + 2 ^ 64" by simp
  moreover have "?n - ?c < 2 ^ 64" using assms(2) by linarith
  ultimately show ?thesis by (simp only: getInnerN_def Let_def mod_add_self2 mod_less)
qed

text \<open>
  The computed capacities are right: a full inner node has an odd number of pivots, as
  preemptive splits need, and both kinds of nodes fit in front of the flag byte of the
  wrapper, for keys and values whose sizes are multiples of 8 and a page with room for at
  least one pivot.
\<close>

theorem capacities_fit:
  assumes "32 + (sk + 8) \<le> page - 1" "16 \<le> page - 1" "page < 2 ^ 64" "0 < sk"
  shows "odd (getInnerN sk (page - 1)) \<and> sizeof_inner sk (getInnerN sk (page - 1)) < page \<and>
         sizeof_leaf sk sv (getLeafN sk sv (page - 1)) < page"
proof (intro conjI)
  let ?n = "inner_n_before_correction sk (page - 1)"
  have le: "?n * (sk + 8) \<le> page - 1 - 24 - 8"
    unfolding inner_n_before_correction_def sizeof_inner0_def by (rule div_times_less_eq_dividend)
  have pos: "0 < ?n"
    using assms(1) by (simp add: inner_n_before_correction_def sizeof_inner0_def div_greater_zero_iff)
  have "?n \<le> ?n * (sk + 8)" by simp
  then have lt: "?n < 2 ^ 64" using le assms(3) by linarith
  have eq: "getInnerN sk (page - 1) = ?n - (1 - ?n mod 2)" by (rule getInnerN_eq [OF pos lt])
  show "odd (getInnerN sk (page - 1))"
    unfolding eq using pos by (cases "even ?n") (auto simp: odd_iff_mod_2_eq_one)
  have "getInnerN sk (page - 1) * (sk + 8) \<le> ?n * (sk + 8)"
    unfolding eq by (intro mult_le_mono1) simp
  then have "getInnerN sk (page - 1) * (sk + 8) + 16 < page" using le assms(1) by linarith
  then show "sizeof_inner sk (getInnerN sk (page - 1)) < page"
    by (simp add: sizeof_inner_def algebra_simps)
  have "getLeafN sk sv (page - 1) * (sk + sv) \<le> page - 1 - 16"
    unfolding getLeafN_def sizeof_leaf0_def by (rule div_times_less_eq_dividend)
  then have "getLeafN sk sv (page - 1) * (sk + sv) + 8 < page" using assms(2) by linarith
  then show "sizeof_leaf sk sv (getLeafN sk sv (page - 1)) < page"
    by (simp add: sizeof_leaf_def algebra_simps)
qed

theorem capacities_fit_witness:
  "odd (getInnerN 8 (4096 - 1)) \<and> sizeof_inner 8 (getInnerN 8 (4096 - 1)) < 4096 \<and>
   sizeof_leaf 8 8 (getLeafN 8 8 (4096 - 1)) < 4096"
  by (rule capacities_fit) simp_all

end
