(* ===== verification/BTree.thy ===== *)
theory BTree
  imports BNode FileIO
begin

text \<open>
  \<open>src/btree/BTree.h\<close>: the B+-tree over a page store. Every operation is the handler of the
  code with its pins and unpins, its assertions and its branches; a reference into a pinned
  page is a read of the node and a write back.

  An insert first descends in shared mode and only locks the leaf exclusively. When that
  leaf is full it starts again in exclusive mode: every full node on the way is split before
  the descent enters it, so that a split never has to go up.

  The recursion of \<open>insertTraversal\<close> and the descent loops run with fuel; the theorems show
  that the height of the tree is enough.
\<close>

section \<open>State\<close>

record ('k, 'v) btree =
  pageBuffer :: "('k, 'v) bnode pstore"
  rootID :: nat
  leafRoot :: bool
  hdrFile :: os_file

section \<open>Pages and nodes\<close>

definition page_leaf :: "nat \<Rightarrow> ('k, 'v) bnode pstore \<Rightarrow> ('k, 'v) leaf_node result" where
  "page_leaf p s = bindE (ps_get p s) asLeaf"

definition page_inner :: "nat \<Rightarrow> ('k, 'v) bnode pstore \<Rightarrow> 'k inner_node result" where
  "page_inner p s = bindE (ps_get p s) asInner"

definition initializeNode ::
  "('k, 'v) bconfig \<Rightarrow> nat \<Rightarrow> bool \<Rightarrow> ('k, 'v) bnode pstore \<Rightarrow> ('k, 'v) bnode pstore result" where
  "initializeNode C p leaf s = ps_put p (new_bnode C leaf) s"

definition bt_new ::
  "('k, 'v) bconfig \<Rightarrow> ('k, 'v) bnode pstore \<Rightarrow> ('k, 'v) btree result" where
  "bt_new C s =
     bindE (pin_new s) (\<lambda>(root, s1).
     bindE (initializeNode C root True s1) (\<lambda>s2.
     bindE (ps_unpin True root s2) (\<lambda>s3.
       Inr \<lparr>pageBuffer = s3, rootID = root, leafRoot = True,
            hdrFile = ftruncate empty_file 16\<rparr>)))"

section \<open>Splitting\<close>

definition splitLeafNode ::
  "('k, 'v) bconfig \<Rightarrow> nat \<Rightarrow> ('k, 'v) bnode pstore \<Rightarrow>
   (nat \<times> 'k \<times> ('k, 'v) bnode pstore) result" where
  "splitLeafNode C p s =
     bindE (page_leaf p s) (\<lambda>leafNode.
     bindE (check (lsize leafNode \<ge> 2)) (\<lambda>_.
     let splitIndex = (lsize leafNode - 1) div 2;
         resultKey = keys leafNode ! splitIndex
     in bindE (pin_new s) (\<lambda>(rightPage, s1).
        bindE (initializeNode C rightPage True s1) (\<lambda>s2.
        bindE (page_leaf rightPage s2) (\<lambda>rightLeaf.
        let n = lsize leafNode - (splitIndex + 1);
            rightLeaf' = rightLeaf\<lparr>
              keys := copy_fwd n (keys leafNode) (splitIndex + 1) (keys rightLeaf) 0,
              vals := copy_fwd n (vals leafNode) (splitIndex + 1) (vals rightLeaf) 0,
              lsize := lsize leafNode div 2\<rparr>
        in bindE (ps_put rightPage (Leaf rightLeaf') s2) (\<lambda>s3.
           bindE (ps_put p (Leaf (leafNode\<lparr>lsize := lsize leafNode - lsize rightLeaf'\<rparr>)) s3) (\<lambda>s4.
             Inr (rightPage, resultKey, s4))))))))"

definition splitInnerNode ::
  "('k, 'v) bconfig \<Rightarrow> nat \<Rightarrow> ('k, 'v) bnode pstore \<Rightarrow>
   (nat \<times> 'k \<times> ('k, 'v) bnode pstore) result" where
  "splitInnerNode C p s =
     bindE (page_inner p s) (\<lambda>innerNode.
     bindE (check (isize innerNode \<ge> 2)) (\<lambda>_.
     let splitIndex = (isize innerNode - 1) div 2;
         resultKey = pivots innerNode ! splitIndex
     in bindE (pin_new s) (\<lambda>(rightPage, s1).
        bindE (initializeNode C rightPage False s1) (\<lambda>s2.
        bindE (page_inner rightPage s2) (\<lambda>rightInner.
        let n = isize innerNode - (splitIndex + 1);
            rightInner' = rightInner\<lparr>
              pivots := copy_fwd n (pivots innerNode) (splitIndex + 1) (pivots rightInner) 0,
              children := copy_fwd (n + 1) (children innerNode) (splitIndex + 1) (children rightInner) 0,
              isize := isize innerNode div 2\<rparr>
        in bindE (ps_put rightPage (Inner rightInner') s2) (\<lambda>s3.
           bindE (ps_put p (Inner (innerNode\<lparr>isize := isize innerNode - isize rightInner' - 1\<rparr>)) s3)
             (\<lambda>s4. Inr (rightPage, resultKey, s4))))))))"

text \<open>The pivot of a split and the new page go into the parent behind the child.\<close>

definition insert_pivot :: "nat \<Rightarrow> 'k \<Rightarrow> nat \<Rightarrow> 'k inner_node \<Rightarrow> 'k inner_node" where
  "insert_pivot pivotIndex middleKey rightPage n =
     n\<lparr>pivots := insert_at (isize n) pivotIndex middleKey (pivots n),
       children := insert_at (isize n + 1) (pivotIndex + 1) rightPage (children n),
       isize := isize n + 1\<rparr>"

definition leaf_insert :: "nat \<Rightarrow> 'k \<Rightarrow> 'v \<Rightarrow> ('k, 'v) leaf_node \<Rightarrow> ('k, 'v) leaf_node" where
  "leaf_insert keyIndex key value l =
     l\<lparr>keys := insert_at (lsize l) keyIndex key (keys l),
       vals := insert_at (lsize l) keyIndex value (vals l),
       lsize := lsize l + 1\<rparr>"

section \<open>Inserting below an inner node\<close>

text \<open>
  The end of the traversal, in the leaf that takes the pair. \<open>itKey\<close> is the element that the
  iterator \<open>keyIt\<close> points to: it still points into the array of the leaf before the split.
  Inserting into a leaf without room would write behind its arrays.
\<close>

definition put_in_leaf ::
  "('k, 'v) bconfig \<Rightarrow> 'k \<Rightarrow> 'v \<Rightarrow> 'k \<Rightarrow> nat \<Rightarrow> nat \<Rightarrow> bool \<Rightarrow> ('k, 'v) bnode pstore \<Rightarrow>
   (bool \<times> ('k, 'v) bnode pstore) result" where
  "put_in_leaf C key value itKey targetPage keyIndex split s =
     bindE (page_leaf targetPage s) (\<lambda>l.
       if keyIndex < lsize l \<and> itKey = key then
         (if vals l ! keyIndex = value
          then bindE (ps_unpin split targetPage s) (\<lambda>s1. Inr (True, s1))
          else bindE (ps_put targetPage (Leaf (l\<lparr>vals := (vals l)[keyIndex := value]\<rparr>)) s) (\<lambda>s1.
               bindE (ps_unpin True targetPage s1) (\<lambda>s2. Inr (True, s2))))
       else if lsize l \<ge> length (keys l) then Inl Undefined
       else bindE (ps_put targetPage (Leaf (leaf_insert keyIndex key value l)) s) (\<lambda>s1.
            bindE (ps_unpin True targetPage s1) (\<lambda>s2. Inr (True, s2))))"

definition traverse_leaf ::
  "('k::linorder, 'v) bconfig \<Rightarrow> 'k \<Rightarrow> 'v \<Rightarrow> nat \<Rightarrow> 'k inner_node \<Rightarrow> nat \<Rightarrow> nat \<Rightarrow> bool \<Rightarrow> bool \<Rightarrow>
   ('k, 'v) bnode pstore \<Rightarrow> (bool \<times> ('k, 'v) bnode pstore) result" where
  "traverse_leaf C key value parentPage parentNode pivotIndex childPage dirtyParent exclusiveMode s =
     bindE (page_leaf childPage s) (\<lambda>leafNode.
     let keyIndex = lower_bound (keys leafNode) (lsize leafNode) key;
         itKey = keys leafNode ! keyIndex
     in bindE (check (lsize leafNode \<le> length (keys leafNode))) (\<lambda>_.
        if lsize leafNode = length (keys leafNode) then
          (if \<not> exclusiveMode then bindE (ps_unpin False childPage s) (\<lambda>s1. Inr (False, s1))
           else bindE (splitLeafNode C childPage s) (\<lambda>(rightPage, middleKey, s1).
                bindE (ps_put parentPage (Inner (insert_pivot pivotIndex middleKey rightPage parentNode)) s1) (\<lambda>s2.
                bindE (ps_unpin True parentPage s2) (\<lambda>s3.
                if key \<le> middleKey
                then bindE (ps_unpin True rightPage s3) (\<lambda>s4.
                       put_in_leaf C key value itKey childPage keyIndex True s4)
                else bindE (page_leaf childPage s3) (\<lambda>left.
                     bindE (ps_unpin True childPage s3) (\<lambda>s4.
                       put_in_leaf C key value itKey rightPage (keyIndex - lsize left) True s4))))))
        else bindE (if exclusiveMode then ps_unpin dirtyParent parentPage s else Inr s) (\<lambda>s1.
               put_in_leaf C key value itKey childPage keyIndex False s1)))"

text \<open>An inner child: the page with which the descent goes on, and whether it was split.\<close>

definition traverse_inner ::
  "('k::linorder, 'v) bconfig \<Rightarrow> 'k \<Rightarrow> nat \<Rightarrow> 'k inner_node \<Rightarrow> nat \<Rightarrow> nat \<Rightarrow> bool \<Rightarrow> bool \<Rightarrow>
   ('k, 'v) bnode pstore \<Rightarrow> (nat \<times> bool \<times> ('k, 'v) bnode pstore) result" where
  "traverse_inner C key parentPage parentNode pivotIndex childPage dirtyParent exclusiveMode s =
     bindE (page_inner childPage s) (\<lambda>innerNode.
     bindE (check (isize innerNode \<le> length (pivots innerNode))) (\<lambda>_.
       if isize innerNode = length (pivots innerNode) \<and> exclusiveMode then
         bindE (splitInnerNode C childPage s) (\<lambda>(rightPage, middleKey, s1).
         bindE (ps_put parentPage (Inner (insert_pivot pivotIndex middleKey rightPage parentNode)) s1) (\<lambda>s2.
         bindE (ps_unpin True parentPage s2) (\<lambda>s3.
         if key \<le> middleKey
         then bindE (ps_unpin True rightPage s3) (\<lambda>s4. Inr (childPage, True, s4))
         else bindE (ps_unpin True childPage s3) (\<lambda>s4. Inr (rightPage, True, s4)))))
       else bindE (if exclusiveMode then ps_unpin dirtyParent parentPage s else Inr s) (\<lambda>s1.
              Inr (childPage, False, s1))))"

fun insertTraversal ::
  "('k::linorder, 'v) bconfig \<Rightarrow> nat \<Rightarrow> 'k \<Rightarrow> 'v \<Rightarrow> nat \<Rightarrow> bool \<Rightarrow> bool \<Rightarrow> ('k, 'v) bnode pstore \<Rightarrow>
   (bool \<times> ('k, 'v) bnode pstore) result" where
  "insertTraversal C 0 key value parentPage dirtyParent exclusiveMode s = Inl OutOfFuel"
| "insertTraversal C (Suc fuel) key value parentPage dirtyParent exclusiveMode s =
     bindE (page_inner parentPage s) (\<lambda>parentNode.
     bindE (check (\<not> exclusiveMode \<or> isize parentNode < length (pivots parentNode))) (\<lambda>_.
     let pivotIndex = lower_bound (pivots parentNode) (isize parentNode) key;
         childID = children parentNode ! pivotIndex
     in bindE (ps_pin False (\<lambda>n. exclusiveMode \<or> isLeaf n) childID s) (\<lambda>s1.
        bindE (if exclusiveMode then Inr s1 else ps_unpin False parentPage s1) (\<lambda>s2.
        bindE (ps_get childID s2) (\<lambda>childNode.
        if isLeaf childNode
        then traverse_leaf C key value parentPage parentNode pivotIndex childID dirtyParent exclusiveMode s2
        else bindE (traverse_inner C key parentPage parentNode pivotIndex childID dirtyParent exclusiveMode s2)
               (\<lambda>(targetPage, split, s3).
                 insertTraversal C fuel key value targetPage split exclusiveMode s3))))))"

section \<open>Inserting at the root\<close>

text \<open>
  The new root of a split: a page is created and initialised as an inner node with the
  split page and the new page as its children, then the contents of the new page and of the
  root page are swapped, so that the root keeps its number.
\<close>

definition grow_root ::
  "('k, 'v) bconfig \<Rightarrow> nat \<Rightarrow> nat \<Rightarrow> 'k \<Rightarrow> ('k, 'v) bnode pstore \<Rightarrow>
   (nat \<times> ('k, 'v) bnode pstore) result" where
  "grow_root C rootPage rightPage middleKey s =
     bindE (pin_new s) (\<lambda>(newRoot, s1).
     bindE (initializeNode C newRoot False s1) (\<lambda>s2.
     bindE (page_inner newRoot s2) (\<lambda>n.
     let n' = n\<lparr>pivots := (pivots n)[0 := middleKey],
                children := (children n)[0 := newRoot, 1 := rightPage], isize := 1\<rparr>
     in bindE (ps_get rootPage s2) (\<lambda>oldRoot.
        bindE (ps_put newRoot oldRoot s2) (\<lambda>s3.
        bindE (ps_put rootPage (Inner n') s3) (\<lambda>s4.
        bindE (ps_unpin True rootPage s4) (\<lambda>s5. Inr (newRoot, s5))))))))"

definition handleRootInnerInsert ::
  "('k::linorder, 'v) bconfig \<Rightarrow> nat \<Rightarrow> 'k \<Rightarrow> 'v \<Rightarrow> nat \<Rightarrow> bool \<Rightarrow> ('k, 'v) bnode pstore \<Rightarrow>
   (bool \<times> ('k, 'v) bnode pstore) result" where
  "handleRootInnerInsert C fuel key value rootPage exclusiveMode s =
     bindE (page_inner rootPage s) (\<lambda>innerNode.
     bindE (check (isize innerNode \<le> length (pivots innerNode))) (\<lambda>_.
       if isize innerNode = length (pivots innerNode) \<and> exclusiveMode then
         bindE (splitInnerNode C rootPage s) (\<lambda>(rightPage, middleKey, s1).
         bindE (grow_root C rootPage rightPage middleKey s1) (\<lambda>(newRoot, s2).
         if key \<le> middleKey
         then bindE (ps_unpin True rightPage s2) (\<lambda>s3.
                insertTraversal C fuel key value newRoot True exclusiveMode s3)
         else bindE (page_inner newRoot s2) (\<lambda>_.
              bindE (ps_unpin True newRoot s2) (\<lambda>s3.
                insertTraversal C fuel key value rightPage True exclusiveMode s3))))
       else insertTraversal C fuel key value rootPage False exclusiveMode s))"

text \<open>The insert into the target leaf at the end of \<open>handleRootLeafInsert\<close>.\<close>

definition put_in_root_leaf ::
  "('k, 'v) bconfig \<Rightarrow> 'k \<Rightarrow> 'v \<Rightarrow> nat \<Rightarrow> nat \<Rightarrow> ('k, 'v) bnode pstore \<Rightarrow>
   ('k, 'v) bnode pstore result" where
  "put_in_root_leaf C key value targetPage keyIndex s =
     bindE (page_leaf targetPage s) (\<lambda>l.
       if keyIndex < lsize l \<and> keys l ! keyIndex = key
       then bindE (ps_put targetPage (Leaf (l\<lparr>vals := (vals l)[keyIndex := value]\<rparr>)) s) (\<lambda>s1.
              ps_unpin True targetPage s1)
       else if lsize l \<ge> length (keys l) then Inl Undefined
       else bindE (ps_put targetPage (Leaf (leaf_insert keyIndex key value l)) s) (\<lambda>s1.
              ps_unpin True targetPage s1))"

text \<open>The second component is the new value of \<open>header.leafRoot\<close>.\<close>

definition handleRootLeafInsert ::
  "('k::linorder, 'v) bconfig \<Rightarrow> 'k \<Rightarrow> 'v \<Rightarrow> nat \<Rightarrow> bool \<Rightarrow> ('k, 'v) bnode pstore \<Rightarrow>
   (bool \<times> ('k, 'v) bnode pstore) result" where
  "handleRootLeafInsert C key value rootPage leafRt s =
     bindE (page_leaf rootPage s) (\<lambda>leafNode.
     let keyIndex = lower_bound (keys leafNode) (lsize leafNode) key
     in if keyIndex < lsize leafNode \<and> keys leafNode ! keyIndex = key then
          (if vals leafNode ! keyIndex \<noteq> value
           then bindE (ps_put rootPage (Leaf (leafNode\<lparr>vals := (vals leafNode)[keyIndex := value]\<rparr>)) s) (\<lambda>s1.
                bindE (ps_unpin True rootPage s1) (\<lambda>s2. Inr (leafRt, s2)))
           else bindE (ps_unpin False rootPage s) (\<lambda>s1. Inr (leafRt, s1)))
        else bindE (check (lsize leafNode \<le> length (keys leafNode))) (\<lambda>_.
          if lsize leafNode = length (keys leafNode) then
            bindE (splitLeafNode C rootPage s) (\<lambda>(rightPage, middleKey, s1).
            bindE (grow_root C rootPage rightPage middleKey s1) (\<lambda>(newRoot, s2).
            if key \<le> middleKey
            then bindE (ps_unpin True rightPage s2) (\<lambda>s3.
                 bindE (put_in_root_leaf C key value newRoot keyIndex s3) (\<lambda>s4. Inr (False, s4)))
            else bindE (page_leaf newRoot s2) (\<lambda>left.
                 bindE (ps_unpin True newRoot s2) (\<lambda>s3.
                 bindE (put_in_root_leaf C key value rightPage (keyIndex - lsize left) s3) (\<lambda>s4.
                   Inr (False, s4))))))
          else bindE (put_in_root_leaf C key value rootPage keyIndex s) (\<lambda>s1. Inr (leafRt, s1))))"

section \<open>Operations\<close>

definition bt_insert ::
  "('k::linorder, 'v) bconfig \<Rightarrow> nat \<Rightarrow> 'k \<Rightarrow> 'v \<Rightarrow> ('k, 'v) btree \<Rightarrow> ('k, 'v) btree result" where
  "bt_insert C fuel key value t =
     bindE (ps_pin False (\<lambda>_. leafRoot t) (rootID t) (pageBuffer t)) (\<lambda>s1.
     bindE (ps_get (rootID t) s1) (\<lambda>rootNode.
     if isLeaf rootNode then
       bindE (check (leafRoot t)) (\<lambda>_.
       bindE (handleRootLeafInsert C key value (rootID t) (leafRoot t) s1) (\<lambda>(lr, s2).
         Inr (t\<lparr>pageBuffer := s2, leafRoot := lr\<rparr>)))
     else
       bindE (check (\<not> leafRoot t)) (\<lambda>_.
       bindE (handleRootInnerInsert C fuel key value (rootID t) False s1) (\<lambda>(success, s2).
       if success then Inr (t\<lparr>pageBuffer := s2\<rparr>)
       else bindE (ps_pin False (\<lambda>_. True) (rootID t) s2) (\<lambda>s3.
            bindE (handleRootInnerInsert C fuel key value (rootID t) True s3) (\<lambda>(success', s4).
              Inr (t\<lparr>pageBuffer := s4\<rparr>)))))))"

text \<open>
  The descent of \<open>update\<close>, \<open>erase\<close> and \<open>find\<close>: the child is pinned before the parent is
  unpinned. For \<open>find\<close> every lock is shared, for the others that of the leaf is exclusive.
\<close>

fun bt_descend ::
  "bool \<Rightarrow> nat \<Rightarrow> 'k::linorder \<Rightarrow> nat \<Rightarrow> ('k, 'v) bnode pstore \<Rightarrow> (nat \<times> ('k, 'v) bnode pstore) result" where
  "bt_descend leafExclusive 0 key currentPage s = Inl OutOfFuel"
| "bt_descend leafExclusive (Suc fuel) key currentPage s =
     bindE (ps_get currentPage s) (\<lambda>node.
     if isLeaf node then Inr (currentPage, s)
     else bindE (asInner node) (\<lambda>currentNode.
          let keyIndex = lower_bound (pivots currentNode) (isize currentNode) key;
              childID = children currentNode ! keyIndex
          in bindE (ps_pin False (\<lambda>n. leafExclusive \<and> isLeaf n) childID s) (\<lambda>s1.
             bindE (ps_unpin False currentPage s1) (\<lambda>s2.
               bt_descend leafExclusive fuel key childID s2))))"

text \<open>The start of \<open>update\<close> and \<open>erase\<close>: a root that is a leaf is pinned again, exclusively.\<close>

definition pin_root_for_write ::
  "nat \<Rightarrow> ('k, 'v) bnode pstore \<Rightarrow> ('k, 'v) bnode pstore result" where
  "pin_root_for_write root s =
     bindE (ps_pin False (\<lambda>_. False) root s) (\<lambda>s1.
     bindE (ps_get root s1) (\<lambda>node.
     if isLeaf node
     then bindE (ps_unpin False root s1) (\<lambda>s2. ps_pin False (\<lambda>_. True) root s2)
     else Inr s1))"

definition bt_update ::
  "('k::linorder, 'v::plus) bconfig \<Rightarrow> nat \<Rightarrow> 'k \<Rightarrow> 'v \<Rightarrow> ('k, 'v) btree \<Rightarrow> ('k, 'v) btree result" where
  "bt_update C fuel key value t =
     bindE (pin_root_for_write (rootID t) (pageBuffer t)) (\<lambda>s1.
     bindE (bt_descend True fuel key (rootID t) s1) (\<lambda>(currentPage, s2).
     bindE (page_leaf currentPage s2) (\<lambda>leafNode.
     let keyIndex = lower_bound (keys leafNode) (lsize leafNode) key
     in if keyIndex < lsize leafNode \<and> keys leafNode ! keyIndex = key
        then bindE (ps_put currentPage
                 (Leaf (leafNode\<lparr>vals := (vals leafNode)[keyIndex := vals leafNode ! keyIndex + value]\<rparr>)) s2)
               (\<lambda>s3. bindE (ps_unpin True currentPage s3) (\<lambda>s4. Inr (t\<lparr>pageBuffer := s4\<rparr>)))
        else bindE (ps_unpin False currentPage s2) (\<lambda>s3. Inr (t\<lparr>pageBuffer := s3\<rparr>)))))"

definition leaf_erase :: "nat \<Rightarrow> ('k, 'v) leaf_node \<Rightarrow> ('k, 'v) leaf_node" where
  "leaf_erase keyIndex l =
     l\<lparr>keys := erase_at (lsize l) keyIndex (keys l),
       vals := erase_at (lsize l) keyIndex (vals l),
       lsize := lsize l - 1\<rparr>"

definition bt_erase ::
  "('k::linorder, 'v) bconfig \<Rightarrow> nat \<Rightarrow> 'k \<Rightarrow> ('k, 'v) btree \<Rightarrow> ('k, 'v) btree result" where
  "bt_erase C fuel key t =
     bindE (pin_root_for_write (rootID t) (pageBuffer t)) (\<lambda>s1.
     bindE (bt_descend True fuel key (rootID t) s1) (\<lambda>(currentPage, s2).
     bindE (page_leaf currentPage s2) (\<lambda>leafNode.
     let keyIndex = lower_bound (keys leafNode) (lsize leafNode) key
     in if keyIndex < lsize leafNode \<and> keys leafNode ! keyIndex = key
        then bindE (check (lsize leafNode \<ge> 1)) (\<lambda>_.
             bindE (ps_put currentPage (Leaf (leaf_erase keyIndex leafNode)) s2) (\<lambda>s3.
             bindE (ps_unpin True currentPage s3) (\<lambda>s4. Inr (t\<lparr>pageBuffer := s4\<rparr>))))
        else bindE (ps_unpin False currentPage s2) (\<lambda>s3. Inr (t\<lparr>pageBuffer := s3\<rparr>)))))"

definition bt_find ::
  "('k::linorder, 'v) bconfig \<Rightarrow> nat \<Rightarrow> 'k \<Rightarrow> ('k, 'v) btree \<Rightarrow> ('v option \<times> ('k, 'v) btree) result" where
  "bt_find C fuel key t =
     bindE (ps_pin False (\<lambda>_. False) (rootID t) (pageBuffer t)) (\<lambda>s1.
     bindE (bt_descend False fuel key (rootID t) s1) (\<lambda>(currentPage, s2).
     bindE (page_leaf currentPage s2) (\<lambda>leafNode.
     let keyIndex = lower_bound (keys leafNode) (lsize leafNode) key;
         found = (if keyIndex < lsize leafNode \<and> keys leafNode ! keyIndex = key
                  then Some (vals leafNode ! keyIndex) else None)
     in bindE (ps_unpin False currentPage s2) (\<lambda>s3. Inr (found, t\<lparr>pageBuffer := s3\<rparr>)))))"

definition bt_pageAmount :: "('k, 'v) btree \<Rightarrow> nat" where
  "bt_pageAmount t = ps_pageAmount (pageBuffer t)"

text \<open>The header in its file: the number of the root, the flag, padding up to 16 bytes.\<close>

definition enc_bt_hdr :: "nat \<Rightarrow> bool \<Rightarrow> 8 word list" where
  "enc_bt_hdr root leaf = enc64 root @ (if leaf then 1 else 0) # replicate 7 0"

definition bt_flush :: "('k, 'v) btree \<Rightarrow> ('k, 'v) btree" where
  "bt_flush t =
     t\<lparr>hdrFile := pwrite (hdrFile t) (enc_bt_hdr (rootID t) (leafRoot t)) 0,
       pageBuffer := ps_flush (pageBuffer t)\<rparr>"

definition bt_open :: "os_file \<Rightarrow> ('k, 'v) bnode pstore \<Rightarrow> ('k, 'v) btree result" where
  "bt_open f s =
     (let bs = pread f 16 0
      in if length bs \<noteq> 16 then raise ''Invalid btree header!''
         else Inr \<lparr>pageBuffer = s, rootID = dec_uint (take 8 bs), leafRoot = (bs ! 8 \<noteq> 0),
                   hdrFile = f\<rparr>)"

section \<open>Printing\<close>

text \<open>
  \<open>operator<<\<close> writes the tree in the dot language, level by level with a queue of page
  numbers. It writes to the standard output, whatever stream it is given: the text is the
  first component of the result. How keys and values are printed belongs to their types.
\<close>

fun comma_separated :: "string list \<Rightarrow> string" where
  "comma_separated [] = ''''"
| "comma_separated [x] = x"
| "comma_separated (x # y # xs) = x @ '', '' @ comma_separated (y # xs)"

definition line_end :: string where
  "line_end = ''\"];'' @ [CHR 0x0A]"

definition bt_print_leaf :: "('k \<Rightarrow> string) \<Rightarrow> ('v \<Rightarrow> string) \<Rightarrow> ('k, 'v) leaf_node \<Rightarrow> string" where
  "bt_print_leaf showK showV l =
     comma_separated (map (\<lambda>i. ''('' @ showK (keys l ! i) @ '' => '' @ showV (vals l ! i) @ '')'') [0..<lsize l])
       @ line_end"

definition bt_print_edge :: "nat \<Rightarrow> nat \<Rightarrow> string" where
  "bt_print_edge currentID childID = show_nat currentID @ '' -> '' @ show_nat childID @ '';'' @ [CHR 0x0A]"

definition bt_print_inner :: "('k \<Rightarrow> string) \<Rightarrow> nat \<Rightarrow> 'k inner_node \<Rightarrow> string" where
  "bt_print_inner showK currentID n =
     ''pivots=('' @ comma_separated (map (\<lambda>i. showK (pivots n ! i)) [0..<isize n]) @ '')'' @ line_end @
     concat (map (\<lambda>i. bt_print_edge currentID (children n ! i)) [0..<isize n + 1])"

definition bt_print_page :: "('k \<Rightarrow> string) \<Rightarrow> ('v \<Rightarrow> string) \<Rightarrow> nat \<Rightarrow> ('k, 'v) bnode \<Rightarrow> string" where
  "bt_print_page showK showV currentID node =
     show_nat currentID @ ''[label=\"'' @
     (case node of Leaf l \<Rightarrow> bt_print_leaf showK showV l | Inner n \<Rightarrow> bt_print_inner showK currentID n)"

fun bt_print_loop ::
  "('k \<Rightarrow> string) \<Rightarrow> ('v \<Rightarrow> string) \<Rightarrow> nat \<Rightarrow> nat list \<Rightarrow> ('k, 'v) bnode pstore \<Rightarrow>
   (string \<times> ('k, 'v) bnode pstore) result" where
  "bt_print_loop showK showV 0 queue s = Inl OutOfFuel"
| "bt_print_loop showK showV (Suc fuel) [] s = Inr ('''', s)"
| "bt_print_loop showK showV (Suc fuel) (currentID # queue) s =
     bindE (ps_pin False (\<lambda>_. False) currentID s) (\<lambda>s1.
     bindE (ps_get currentID s1) (\<lambda>node.
     let queue' = (case node of Leaf l \<Rightarrow> queue | Inner n \<Rightarrow> queue @ take (isize n + 1) (children n))
     in bindE (ps_unpin False currentID s1) (\<lambda>s2.
        bindE (bt_print_loop showK showV fuel queue' s2) (\<lambda>(out, s3).
          Inr (bt_print_page showK showV currentID node @ out, s3)))))"

definition bt_print ::
  "('k \<Rightarrow> string) \<Rightarrow> ('v \<Rightarrow> string) \<Rightarrow> nat \<Rightarrow> ('k, 'v) btree \<Rightarrow> (string \<times> ('k, 'v) btree) result" where
  "bt_print showK showV fuel t =
     bindE (bt_print_loop showK showV fuel [rootID t] (pageBuffer t)) (\<lambda>(out, s).
       Inr (''digraph{'' @ [CHR 0x0A] @ out @ ''}'', t\<lparr>pageBuffer := s\<rparr>))"

end
