(* ===== verification/BTreeInv.thy ===== *)
theory BTreeInv
  imports BTree
begin

text \<open>
  The invariant of the B+-tree and its abstraction to a finite map. A tree of height \<open>h\<close>
  is given by the number of its root page and the nodes of the store: \<open>ids\<close> are its pages,
  \<open>kvs\<close> its pairs in order, \<open>tree_ok\<close> says that the arrays have their lengths, keys and pivots
  are sorted, and the keys below a child lie between the pivots on its sides.

  The lemmas say what the parts of an operation mean for \<open>tree_ok\<close> and for the map: a change in
  a leaf, the replacement of one child by a changed one, and the splits.
\<close>

section \<open>Bounds\<close>

definition gt_lo :: "'k::linorder option \<Rightarrow> 'k \<Rightarrow> bool" where
  "gt_lo lo k \<longleftrightarrow> (case lo of None \<Rightarrow> True | Some a \<Rightarrow> a < k)"

definition le_hi :: "'k::linorder option \<Rightarrow> 'k \<Rightarrow> bool" where
  "le_hi hi k \<longleftrightarrow> (case hi of None \<Rightarrow> True | Some b \<Rightarrow> k \<le> b)"

definition lt_hi :: "'k::linorder option \<Rightarrow> 'k \<Rightarrow> bool" where
  "lt_hi hi k \<longleftrightarrow> (case hi of None \<Rightarrow> True | Some b \<Rightarrow> k < b)"

lemma bound_simps [simp]:
  "gt_lo None k" "gt_lo (Some a) k \<longleftrightarrow> a < k" "le_hi None k" "le_hi (Some b) k \<longleftrightarrow> k \<le> b"
  "lt_hi None k" "lt_hi (Some b) k \<longleftrightarrow> k < b"
  by (simp_all add: gt_lo_def le_hi_def lt_hi_def)

lemma above_trans: "gt_lo lo a \<Longrightarrow> a \<le> k \<Longrightarrow> gt_lo lo k"
  by (cases lo) auto

lemma below_trans: "lt_hi hi b \<Longrightarrow> k \<le> b \<Longrightarrow> lt_hi hi k"
  by (cases hi) auto

lemma below_upto: "lt_hi hi k \<Longrightarrow> le_hi hi k"
  by (cases hi) auto

lemma upto_below: "le_hi hi k \<Longrightarrow> m < k \<Longrightarrow> lt_hi hi m"
  by (cases hi) auto

lemma above_child:
  assumes "lo' \<in> insert lo (Some ` S)" "gt_lo lo' k" "\<And>p. p \<in> S \<Longrightarrow> gt_lo lo p"
  shows "gt_lo lo k"
proof (cases "lo' = lo")
  case False
  then obtain p where "p \<in> S" "lo' = Some p" using assms(1) by blast
  then have "gt_lo lo p" "p \<le> k" using assms(2,3) by simp_all
  then show ?thesis by (rule above_trans)
qed (use assms(2) in simp)

lemma upto_child:
  assumes "hi' \<in> insert hi (Some ` S)" "le_hi hi' k" "\<And>p. p \<in> S \<Longrightarrow> lt_hi hi p"
  shows "le_hi hi k"
proof (cases "hi' = hi")
  case False
  then obtain p where "p \<in> S" "hi' = Some p" using assms(1) by blast
  then have "lt_hi hi p" "k \<le> p" using assms(2,3) by simp_all
  then show ?thesis using below_trans below_upto by blast
qed (use assms(2) in simp)

section \<open>Leaves\<close>

definition leaf_ok :: "('k::linorder, 'v) bconfig \<Rightarrow> ('k, 'v) leaf_node \<Rightarrow> bool" where
  "leaf_ok C l \<longleftrightarrow>
     length (keys l) = LEAF_N C \<and> length (vals l) = LEAF_N C \<and> lsize l \<le> LEAF_N C \<and>
     sorted_wrt (<) (take (lsize l) (keys l))"

definition leaf_keys :: "('k, 'v) leaf_node \<Rightarrow> 'k list" where
  "leaf_keys l = take (lsize l) (keys l)"

definition leaf_vals :: "('k, 'v) leaf_node \<Rightarrow> 'v list" where
  "leaf_vals l = take (lsize l) (vals l)"

definition leaf_kvs :: "('k, 'v) leaf_node \<Rightarrow> ('k \<times> 'v) list" where
  "leaf_kvs l = zip (leaf_keys l) (leaf_vals l)"

lemma leaf_okD:
  assumes "leaf_ok C l"
  shows "length (keys l) = LEAF_N C" "length (vals l) = LEAF_N C" "lsize l \<le> LEAF_N C"
    "sorted_wrt (<) (leaf_keys l)" "length (leaf_keys l) = lsize l" "length (leaf_vals l) = lsize l"
    "map fst (leaf_kvs l) = leaf_keys l" "sorted (leaf_keys l)"
  using assms by (auto simp: leaf_ok_def leaf_keys_def leaf_vals_def leaf_kvs_def strict_sorted_imp_sorted)

lemma fst_leaf_kvs: "leaf_ok C l \<Longrightarrow> fst ` set (leaf_kvs l) = set (leaf_keys l)"
  using leaf_okD(7) [of C l] by (metis list.set_map)

lemma leaf_lower_bound:
  assumes "leaf_ok C l"
  shows "lower_bound (keys l) (lsize l) key = length (takeWhile (\<lambda>x. x < key) (leaf_keys l))"
  using lower_bound_takeWhile [of "lsize l" "keys l" key] leaf_okD [OF assms]
  by (simp add: leaf_keys_def)

lemma takeWhile_less_split:
  fixes xs :: "'k::linorder list"
  assumes "sorted_wrt (<) xs" "i = length (takeWhile (\<lambda>x. x < key) xs)"
  shows "i \<le> length xs" "\<forall>x \<in> set (take i xs). x < key"
    "i < length xs \<and> xs ! i = key \<Longrightarrow> \<forall>x \<in> set (drop (Suc i) xs). key < x"
    "\<not> (i < length xs \<and> xs ! i = key) \<Longrightarrow> \<forall>x \<in> set (drop i xs). key < x"
proof -
  show i: "i \<le> length xs" using assms(2) by (simp add: length_takeWhile_le)
  show "\<forall>x \<in> set (take i xs). x < key"
    using assms(2) by (metis set_takeWhileD takeWhile_eq_take)
  have strict: "\<forall>x \<in> set (drop (Suc i) xs). xs ! i < x" if "i < length xs"
  proof -
    have "xs = take i xs @ xs ! i # drop (Suc i) xs" using that by (simp add: id_take_nth_drop)
    then have "sorted_wrt (<) (xs ! i # drop (Suc i) xs)"
      using assms(1) by (metis sorted_wrt_append)
    then show ?thesis by simp
  qed
  then show "i < length xs \<and> xs ! i = key \<Longrightarrow> \<forall>x \<in> set (drop (Suc i) xs). key < x" by auto
  assume "\<not> (i < length xs \<and> xs ! i = key)"
  then show "\<forall>x \<in> set (drop i xs). key < x"
  proof (cases "i < length xs")
    case True
    then have "\<not> xs ! i < key" using assms(2) by (metis nth_length_takeWhile)
    then have "key < xs ! i" using \<open>\<not> (i < length xs \<and> xs ! i = key)\<close> True by simp
    then show ?thesis using strict [OF True] True
      by (metis (no_types, lifting) Cons_nth_drop_Suc order.strict_trans set_ConsD)
  qed simp
qed

text \<open>What \<open>*keyIt == key\<close> means: the key is in the leaf.\<close>

lemma leaf_found:
  assumes "leaf_ok C l" "i = lower_bound (keys l) (lsize l) key"
  shows "i \<le> lsize l" "i < lsize l \<and> keys l ! i = key \<longleftrightarrow> key \<in> set (leaf_keys l)"
    "i < lsize l \<Longrightarrow> keys l ! i = leaf_keys l ! i"
proof -
  note k = leaf_okD [OF assms(1)]
  have i: "i = length (takeWhile (\<lambda>x. x < key) (leaf_keys l))"
    using leaf_lower_bound [OF assms(1)] assms(2) by simp
  note s = takeWhile_less_split [OF k(4) i]
  show "i \<le> lsize l" using s(1) k(5) by simp
  show n: "i < lsize l \<Longrightarrow> keys l ! i = leaf_keys l ! i" by (simp add: leaf_keys_def)
  show "i < lsize l \<and> keys l ! i = key \<longleftrightarrow> key \<in> set (leaf_keys l)"
  proof
    assume "i < lsize l \<and> keys l ! i = key"
    then show "key \<in> set (leaf_keys l)" using n k(5) by (metis nth_mem)
  next
    assume "key \<in> set (leaf_keys l)"
    then have "key \<in> set (take i (leaf_keys l)) \<or> key \<in> set (drop i (leaf_keys l))"
      by (metis append_take_drop_id Un_iff set_append)
    then have "\<not> \<not> (i < length (leaf_keys l) \<and> leaf_keys l ! i = key)"
      using s(2,4) by blast
    then show "i < lsize l \<and> keys l ! i = key" using k(5) n by simp
  qed
qed

lemma leaf_lookup:
  assumes "leaf_ok C l" "i < lsize l" "keys l ! i = key"
  shows "map_of (leaf_kvs l) key = Some (vals l ! i)"
proof -
  note k = leaf_okD [OF assms(1)]
  have "distinct (map fst (leaf_kvs l))" using k(4,7) by (simp add: strict_sorted_iff)
  moreover have "leaf_kvs l ! i = (key, vals l ! i)"
    using assms(2,3) k by (simp add: leaf_kvs_def leaf_keys_def leaf_vals_def)
  then have "(key, vals l ! i) \<in> set (leaf_kvs l)"
    using assms(2) k(5,6) by (metis leaf_kvs_def length_zip min.idem nth_mem)
  ultimately show ?thesis by (simp add: map_of_eq_Some_iff)
qed

lemma leaf_lookup_None:
  assumes "leaf_ok C l"
  shows "map_of (leaf_kvs l) key = None \<longleftrightarrow> key \<notin> set (leaf_keys l)"
  using fst_leaf_kvs [OF assms] by (simp add: map_of_eq_None_iff)

text \<open>Overwriting, inserting and erasing in a leaf.\<close>

lemma map_of_zip_split:
  assumes "length xs = length us" "key \<notin> set xs"
  shows "map_of (zip (xs @ key # ys) (us @ v # ws)) = (map_of (zip (xs @ ys) (us @ ws)))(key \<mapsto> v)"
  using assms
proof (induction xs us rule: list_induct2)
  case (Cons x xs u us)
  then show ?case by (auto simp: fun_upd_twist)
qed simp

lemma leaf_overwrite:
  assumes "leaf_ok C l" "i < lsize l" "keys l ! i = key"
  shows "leaf_ok C (l\<lparr>vals := (vals l)[i := v]\<rparr>)"
    "map_of (leaf_kvs (l\<lparr>vals := (vals l)[i := v]\<rparr>)) = (map_of (leaf_kvs l))(key \<mapsto> v)"
    "leaf_keys (l\<lparr>vals := (vals l)[i := v]\<rparr>) = leaf_keys l"
proof -
  note k = leaf_okD [OF assms(1)]
  show "leaf_ok C (l\<lparr>vals := (vals l)[i := v]\<rparr>)" using assms(1) by (simp add: leaf_ok_def)
  show "leaf_keys (l\<lparr>vals := (vals l)[i := v]\<rparr>) = leaf_keys l" by (simp add: leaf_keys_def)
  have lk: "leaf_keys l = take i (leaf_keys l) @ key # drop (Suc i) (leaf_keys l)"
    using assms(2,3) k(5) by (metis id_take_nth_drop leaf_keys_def nth_take)
  have lv: "leaf_vals l = take i (leaf_vals l) @ vals l ! i # drop (Suc i) (leaf_vals l)"
    using assms(2) k(6) by (metis id_take_nth_drop leaf_vals_def nth_take)
  have lv': "leaf_vals (l\<lparr>vals := (vals l)[i := v]\<rparr>) =
      take i (leaf_vals l) @ v # drop (Suc i) (leaf_vals l)"
  proof -
    have "leaf_vals (l\<lparr>vals := (vals l)[i := v]\<rparr>) = (leaf_vals l)[i := v]"
      by (simp add: leaf_vals_def take_update_swap)
    then show ?thesis using assms(2) k(6) by (simp add: upd_conv_take_nth_drop)
  qed
  have nk: "key \<notin> set (take i (leaf_keys l))"
    using k(4) lk by (metis not_distinct_conv_prefix distinct_append distinct.simps(2)
        strict_sorted_iff IntI empty_iff list.set_intros(1))
  have len: "length (take i (leaf_keys l)) = length (take i (leaf_vals l))" using k(5,6) by simp
  have "map_of (leaf_kvs (l\<lparr>vals := (vals l)[i := v]\<rparr>)) =
      (map_of (zip (take i (leaf_keys l) @ drop (Suc i) (leaf_keys l))
         (take i (leaf_vals l) @ drop (Suc i) (leaf_vals l))))(key \<mapsto> v)"
    unfolding leaf_kvs_def lv' using map_of_zip_split [OF len nk] lk
    by (metis \<open>leaf_keys (l\<lparr>vals := (vals l)[i := v]\<rparr>) = leaf_keys l\<close>)
  moreover have "map_of (leaf_kvs l) =
      (map_of (zip (take i (leaf_keys l) @ drop (Suc i) (leaf_keys l))
         (take i (leaf_vals l) @ drop (Suc i) (leaf_vals l))))(key \<mapsto> vals l ! i)"
    unfolding leaf_kvs_def using map_of_zip_split [OF len nk] lk lv by metis
  ultimately show "map_of (leaf_kvs (l\<lparr>vals := (vals l)[i := v]\<rparr>)) = (map_of (leaf_kvs l))(key \<mapsto> v)"
    by simp
qed

lemma sorted_wrt_insert:
  fixes xs :: "'k::linorder list"
  assumes "sorted_wrt (<) xs" "\<forall>x \<in> set (take i xs). x < key" "\<forall>x \<in> set (drop i xs). key < x"
  shows "sorted_wrt (<) (take i xs @ key # drop i xs)"
proof -
  have "sorted_wrt (<) (take i xs @ drop i xs)" using assms(1) by simp
  then show ?thesis using assms(2,3) unfolding sorted_wrt_append by (auto dest: order.strict_trans)
qed

lemma leaf_insert_ok:
  assumes "leaf_ok C l" "i = lower_bound (keys l) (lsize l) key" "lsize l < LEAF_N C"
    "key \<notin> set (leaf_keys l)"
  shows "leaf_ok C (leaf_insert i key v l)"
    "map_of (leaf_kvs (leaf_insert i key v l)) = (map_of (leaf_kvs l))(key \<mapsto> v)"
    "set (leaf_keys (leaf_insert i key v l)) = insert key (set (leaf_keys l))"
proof -
  note k = leaf_okD [OF assms(1)]
  have i: "i = length (takeWhile (\<lambda>x. x < key) (leaf_keys l))"
    using leaf_lower_bound [OF assms(1)] assms(2) by simp
  note s = takeWhile_less_split [OF k(4) i]
  have il: "i \<le> lsize l" using s(1) k(5) by simp
  have lk: "leaf_keys (leaf_insert i key v l) = take i (leaf_keys l) @ key # drop i (leaf_keys l)"
    using take_insert_at [OF il, of "keys l" key] assms(3) k(1)
    by (simp add: leaf_insert_def leaf_keys_def)
  have lv: "leaf_vals (leaf_insert i key v l) = take i (leaf_vals l) @ v # drop i (leaf_vals l)"
    using take_insert_at [OF il, of "vals l" v] assms(3) k(2)
    by (simp add: leaf_insert_def leaf_vals_def)
  have nf: "\<not> (i < length (leaf_keys l) \<and> leaf_keys l ! i = key)"
    using assms(4) by (metis nth_mem)
  have "sorted_wrt (<) (leaf_keys (leaf_insert i key v l))"
    unfolding lk by (rule sorted_wrt_insert [OF k(4) s(2) s(4) [OF nf]])
  then show "leaf_ok C (leaf_insert i key v l)"
    using assms(3) k(1,2) by (simp add: leaf_ok_def leaf_keys_def) (simp add: leaf_insert_def)
  have len: "length (take i (leaf_keys l)) = length (take i (leaf_vals l))" using k(5,6) by simp
  have nk: "key \<notin> set (take i (leaf_keys l))" using s(2) by auto
  show "map_of (leaf_kvs (leaf_insert i key v l)) = (map_of (leaf_kvs l))(key \<mapsto> v)"
    unfolding leaf_kvs_def lk lv map_of_zip_split [OF len nk] by simp
  show "set (leaf_keys (leaf_insert i key v l)) = insert key (set (leaf_keys l))"
    unfolding lk by (metis append_take_drop_id list.simps(15) set_append Un_insert_right)
qed

lemma leaf_erase_ok:
  assumes "leaf_ok C l" "i = lower_bound (keys l) (lsize l) key" "i < lsize l" "keys l ! i = key"
  shows "leaf_ok C (leaf_erase i l)"
    "map_of (leaf_kvs (leaf_erase i l)) = (map_of (leaf_kvs l))(key := None)"
    "set (leaf_keys (leaf_erase i l)) \<subseteq> set (leaf_keys l)"
proof -
  note k = leaf_okD [OF assms(1)]
  have i: "i = length (takeWhile (\<lambda>x. x < key) (leaf_keys l))"
    using leaf_lower_bound [OF assms(1)] assms(2) by simp
  note s = takeWhile_less_split [OF k(4) i]
  have lk: "leaf_keys (leaf_erase i l) = take i (leaf_keys l) @ drop (Suc i) (leaf_keys l)"
    using take_erase_at [OF assms(3), of "keys l"] k(1,3)
    by (simp add: leaf_erase_def leaf_keys_def)
  have lv: "leaf_vals (leaf_erase i l) = take i (leaf_vals l) @ drop (Suc i) (leaf_vals l)"
    using take_erase_at [OF assms(3), of "vals l"] k(2,3)
    by (simp add: leaf_erase_def leaf_vals_def)
  have at: "leaf_keys l ! i = key" using leaf_found(3) [OF assms(1,2,3)] assms(4) by simp
  have ks: "leaf_keys l = take i (leaf_keys l) @ key # drop (Suc i) (leaf_keys l)"
    using assms(3) k(5) at by (metis id_take_nth_drop)
  have vs: "leaf_vals l = take i (leaf_vals l) @ vals l ! i # drop (Suc i) (leaf_vals l)"
    using assms(3) k(6) by (metis id_take_nth_drop leaf_vals_def nth_take)
  have "sorted_wrt (<) (take i (leaf_keys l) @ key # drop (Suc i) (leaf_keys l))" using k(4) ks by simp
  then have "sorted_wrt (<) (leaf_keys (leaf_erase i l))" unfolding lk by (simp add: sorted_wrt_append)
  then show "leaf_ok C (leaf_erase i l)"
    using k(1-3) by (simp add: leaf_ok_def leaf_keys_def) (simp add: leaf_erase_def)
  show "set (leaf_keys (leaf_erase i l)) \<subseteq> set (leaf_keys l)"
    unfolding lk by (auto dest: in_set_takeD in_set_dropD)
  have len: "length (take i (leaf_keys l)) = length (take i (leaf_vals l))" using k(5,6) by simp
  have nk: "key \<notin> set (take i (leaf_keys l))" "key \<notin> set (drop (Suc i) (leaf_keys l))"
    using s(2,3) assms(3) at k(5) by auto
  have "map_of (leaf_kvs l) = (map_of (leaf_kvs (leaf_erase i l)))(key \<mapsto> vals l ! i)"
    unfolding leaf_kvs_def lk lv using map_of_zip_split [OF len nk(1)] ks vs by metis
  moreover have "map_of (leaf_kvs (leaf_erase i l)) key = None"
    using nk lk leaf_lookup_None [OF \<open>leaf_ok C (leaf_erase i l)\<close>] by simp
  ultimately show "map_of (leaf_kvs (leaf_erase i l)) = (map_of (leaf_kvs l))(key := None)"
    by (auto simp: fun_eq_iff)
qed

section \<open>Trees\<close>

text \<open>The pivots and the children in use.\<close>

definition seps :: "'k inner_node \<Rightarrow> 'k list" where
  "seps n = take (isize n) (pivots n)"

definition kids :: "'k inner_node \<Rightarrow> nat list" where
  "kids n = take (isize n + 1) (children n)"

definition inner_ok :: "('k::linorder, 'v) bconfig \<Rightarrow> 'k inner_node \<Rightarrow> bool" where
  "inner_ok C n \<longleftrightarrow>
     length (pivots n) = INNER_N C \<and> length (children n) = INNER_N C + 1 \<and> isize n \<le> INNER_N C \<and>
     sorted_wrt (<) (seps n)"

lemma inner_okD:
  assumes "inner_ok C n"
  shows "length (pivots n) = INNER_N C" "length (children n) = INNER_N C + 1" "isize n \<le> INNER_N C"
    "sorted_wrt (<) (seps n)" "length (seps n) = isize n" "length (kids n) = isize n + 1"
  using assms by (auto simp: inner_ok_def seps_def kids_def)

text \<open>Every child satisfies \<open>W\<close> between the pivots on its sides.\<close>

fun between :: "('k option \<Rightarrow> 'k option \<Rightarrow> nat \<Rightarrow> bool) \<Rightarrow> 'k option \<Rightarrow> 'k list \<Rightarrow> nat list \<Rightarrow> 'k option \<Rightarrow> bool" where
  "between W lo [] [c] hi = W lo hi c"
| "between W lo (p # ps) (c # cs) hi = (W lo (Some p) c \<and> between W (Some p) ps cs hi)"
| "between W lo ps cs hi = False"

fun tree_ok :: "('k::linorder, 'v) bconfig \<Rightarrow> nat \<Rightarrow> (nat \<rightharpoonup> ('k, 'v) bnode) \<Rightarrow> 'k option \<Rightarrow> 'k option \<Rightarrow> nat \<Rightarrow> bool" where
  "tree_ok C 0 nd lo hi i =
     (\<exists>l. nd i = Some (Leaf l) \<and> leaf_ok C l \<and> (\<forall>k \<in> set (leaf_keys l). gt_lo lo k \<and> le_hi hi k))"
| "tree_ok C (Suc h) nd lo hi i =
     (\<exists>n. nd i = Some (Inner n) \<and> inner_ok C n \<and> (\<forall>p \<in> set (seps n). gt_lo lo p \<and> lt_hi hi p) \<and>
          between (tree_ok C h nd) lo (seps n) (kids n) hi)"

fun kvs :: "nat \<Rightarrow> (nat \<rightharpoonup> ('k, 'v) bnode) \<Rightarrow> nat \<Rightarrow> ('k \<times> 'v) list" where
  "kvs 0 nd i = (case nd i of Some (Leaf l) \<Rightarrow> leaf_kvs l | _ \<Rightarrow> [])"
| "kvs (Suc h) nd i =
     (case nd i of Some (Inner n) \<Rightarrow> concat (map (kvs h nd) (kids n)) | _ \<Rightarrow> [])"

fun ids :: "nat \<Rightarrow> (nat \<rightharpoonup> ('k, 'v) bnode) \<Rightarrow> nat \<Rightarrow> nat list" where
  "ids 0 nd i = [i]"
| "ids (Suc h) nd i =
     i # (case nd i of Some (Inner n) \<Rightarrow> concat (map (ids h nd) (kids n)) | _ \<Rightarrow> [])"

lemma in_ids [simp]: "i \<in> set (ids h nd i)"
  by (cases h) auto

text \<open>The bounds of a child between the pivots before and behind it.\<close>

definition lo_of :: "'k option \<Rightarrow> 'k list \<Rightarrow> 'k option" where
  "lo_of lo ps = (if ps = [] then lo else Some (last ps))"

definition hi_of :: "'k list \<Rightarrow> 'k option \<Rightarrow> 'k option" where
  "hi_of ps hi = (case ps of [] \<Rightarrow> hi | p # _ \<Rightarrow> Some p)"

lemma bounds_of_simps [simp]:
  "lo_of lo [] = lo" "lo_of lo (ps @ [p]) = Some p" "lo_of lo (p # ps) = lo_of (Some p) ps"
  "hi_of [] hi = hi" "hi_of (p # ps) hi = Some p"
  by (auto simp: lo_of_def hi_of_def)

fun between_left :: "('k option \<Rightarrow> 'k option \<Rightarrow> nat \<Rightarrow> bool) \<Rightarrow> 'k option \<Rightarrow> 'k list \<Rightarrow> nat list \<Rightarrow> bool" where
  "between_left W lo [] [] = True"
| "between_left W lo (p # ps) (c # cs) = (W lo (Some p) c \<and> between_left W (Some p) ps cs)"
| "between_left W lo ps cs = False"

fun between_right :: "('k option \<Rightarrow> 'k option \<Rightarrow> nat \<Rightarrow> bool) \<Rightarrow> 'k list \<Rightarrow> nat list \<Rightarrow> 'k option \<Rightarrow> bool" where
  "between_right W [] [] hi = True"
| "between_right W (p # ps) (c # cs) hi = (W (Some p) (hi_of ps hi) c \<and> between_right W ps cs hi)"
| "between_right W ps cs hi = False"

lemma between_Cons_right:
  "between W lo ps (c # cs) hi \<longleftrightarrow> W lo (hi_of ps hi) c \<and> between_right W ps cs hi"
proof (induction ps arbitrary: lo c cs)
  case Nil
  then show ?case by (cases cs) auto
next
  case (Cons p ps)
  then show ?case by (cases cs; cases ps) auto
qed

lemma between_split:
  "length cs1 = length ps1 \<Longrightarrow>
   between W lo (ps1 @ ps2) (cs1 @ c # cs2) hi \<longleftrightarrow>
     between_left W lo ps1 cs1 \<and> W (lo_of lo ps1) (hi_of ps2 hi) c \<and> between_right W ps2 cs2 hi"
proof (induction cs1 ps1 arbitrary: lo rule: list_induct2)
  case Nil
  then show ?case by (simp add: between_Cons_right)
next
  case (Cons c1 cs1 p1 ps1)
  then show ?case by simp
qed

lemma between_left_mono:
  "(\<And>lo hi c. c \<in> set cs \<Longrightarrow> W lo hi c \<Longrightarrow> W' lo hi c) \<Longrightarrow> between_left W lo ps cs \<Longrightarrow>
   between_left W' lo ps cs"
  by (induction W lo ps cs rule: between_left.induct) auto

lemma between_right_mono:
  "(\<And>lo hi c. c \<in> set cs \<Longrightarrow> W lo hi c \<Longrightarrow> W' lo hi c) \<Longrightarrow> between_right W ps cs hi \<Longrightarrow>
   between_right W' ps cs hi"
  by (induction W ps cs hi rule: between_right.induct) auto

lemma between_mono:
  "(\<And>lo hi c. c \<in> set cs \<Longrightarrow> W lo hi c \<Longrightarrow> W' lo hi c) \<Longrightarrow> between W lo ps cs hi \<Longrightarrow>
   between W' lo ps cs hi"
  by (induction W lo ps cs hi rule: between.induct) auto

lemma between_length: "between W lo ps cs hi \<Longrightarrow> length cs = length ps + 1"
  by (induction W lo ps cs hi rule: between.induct) auto

lemma between_nth: "between W lo ps cs hi \<Longrightarrow> c \<in> set cs \<Longrightarrow> \<exists>lo hi. W lo hi c"
  by (induction W lo ps cs hi rule: between.induct) auto

lemma wf_dom: "tree_ok C h nd lo hi i \<Longrightarrow> set (ids h nd i) \<subseteq> dom nd"
proof (induction h arbitrary: lo hi i)
  case (Suc h)
  then obtain n where n: "nd i = Some (Inner n)" "between (tree_ok C h nd) lo (seps n) (kids n) hi" by auto
  have "set (ids h nd c) \<subseteq> dom nd" if "c \<in> set (kids n)" for c
    using between_nth [OF n(2) that] Suc.IH by blast
  then show ?case using n(1) by auto
qed auto

text \<open>A tree depends on its own pages only.\<close>

lemma tree_cong:
  assumes "\<And>j. j \<in> set (ids h nd i) \<Longrightarrow> nd' j = nd j"
  shows "ids h nd' i = ids h nd i" "kvs h nd' i = kvs h nd i"
    "tree_ok C h nd lo hi i \<Longrightarrow> tree_ok C h nd' lo hi i"
proof -
  have "ids h nd' i = ids h nd i \<and> kvs h nd' i = kvs h nd i \<and>
      (\<forall>lo hi. tree_ok C h nd lo hi i \<longrightarrow> tree_ok C h nd' lo hi i)"
    using assms
  proof (induction h arbitrary: i)
    case 0
    then show ?case by simp
  next
    case (Suc h)
    have i: "nd' i = nd i" using Suc.prems [of i] by simp
    show ?case
    proof (cases "\<exists>n. nd i = Some (Inner n)")
      case True
      then obtain n where n: "nd i = Some (Inner n)" by blast
      have sub: "ids h nd' c = ids h nd c \<and> kvs h nd' c = kvs h nd c \<and>
          (\<forall>lo hi. tree_ok C h nd lo hi c \<longrightarrow> tree_ok C h nd' lo hi c)" if "c \<in> set (kids n)" for c
        by (rule Suc.IH) (use Suc.prems n that in auto)
      have m: "map (ids h nd') (kids n) = map (ids h nd) (kids n)"
          "map (kvs h nd') (kids n) = map (kvs h nd) (kids n)"
        using sub by auto
      have "between (tree_ok C h nd') lo (seps n) (kids n) hi"
        if "between (tree_ok C h nd) lo (seps n) (kids n) hi" for lo hi
        by (rule between_mono [OF _ that]) (use sub in blast)
      then show ?thesis using i n by (simp add: m del: map_eq_conv)
    next
      case False
      then show ?thesis using i by (auto split: option.split bnode.split)
    qed
  qed
  then show "ids h nd' i = ids h nd i" "kvs h nd' i = kvs h nd i"
    "tree_ok C h nd lo hi i \<Longrightarrow> tree_ok C h nd' lo hi i" by blast+
qed

text \<open>Where a child of a node lies: between two of its pivots, or at its ends.\<close>

lemma between_bounds:
  "between W lo ps cs hi \<Longrightarrow> c \<in> set cs \<Longrightarrow>
   \<exists>lo' hi'. W lo' hi' c \<and> lo' \<in> insert lo (Some ` set ps) \<and> hi' \<in> insert hi (Some ` set ps)"
proof (induction W lo ps cs hi rule: between.induct)
  case (2 W lo p ps d cs hi)
  show ?case
  proof (cases "c = d")
    case True
    then show ?thesis using 2(2) by (intro exI [of _ lo] exI [of _ "Some p"]) simp
  next
    case False
    then have "between W (Some p) ps cs hi" "c \<in> set cs" using 2(2,3) by auto
    from 2(1) [OF this] obtain lo' hi' where "W lo' hi' c"
        "lo' \<in> insert (Some p) (Some ` set ps)" "hi' \<in> insert hi (Some ` set ps)" by blast
    then show ?thesis by (intro exI [of _ lo'] exI [of _ hi']) auto
  qed
qed auto

lemma between_left_bounds:
  "between_left W lo ps cs \<Longrightarrow> c \<in> set cs \<Longrightarrow> \<exists>lo' p. p \<in> set ps \<and> W lo' (Some p) c"
proof (induction W lo ps cs rule: between_left.induct)
  case (2 W lo p ps d cs)
  show ?case
  proof (cases "c = d")
    case True
    then show ?thesis using 2(2) by (intro exI [of _ lo] exI [of _ p]) simp
  next
    case False
    then show ?thesis using 2 by (metis between_left.simps(2) list.set_intros(2) set_ConsD)
  qed
qed auto

lemma between_right_bounds:
  "between_right W ps cs hi \<Longrightarrow> c \<in> set cs \<Longrightarrow> \<exists>p hi'. p \<in> set ps \<and> W (Some p) hi' c"
proof (induction W ps cs hi rule: between_right.induct)
  case (2 W p ps d cs hi)
  show ?case
  proof (cases "c = d")
    case True
    then show ?thesis using 2(2) by (intro exI [of _ p] exI [of _ "hi_of ps hi"]) simp
  next
    case False
    then show ?thesis using 2 by (metis between_right.simps(2) list.set_intros(2) set_ConsD)
  qed
qed auto

text \<open>The keys of a tree lie within its bounds.\<close>

lemma kvs_range:
  "tree_ok C h nd lo hi i \<Longrightarrow> k \<in> fst ` set (kvs h nd i) \<Longrightarrow> gt_lo lo k \<and> le_hi hi k"
proof (induction h arbitrary: lo hi i)
  case 0
  then obtain l where l: "nd i = Some (Leaf l)" "leaf_ok C l"
      "\<forall>k \<in> set (leaf_keys l). gt_lo lo k \<and> le_hi hi k" by auto
  then have "k \<in> set (leaf_keys l)" using 0(2) fst_leaf_kvs [OF l(2)] by simp
  then show ?case using l(3) by simp
next
  case (Suc h)
  obtain n where n: "nd i = Some (Inner n)" "\<forall>p \<in> set (seps n). gt_lo lo p \<and> lt_hi hi p"
      "between (tree_ok C h nd) lo (seps n) (kids n) hi"
    using Suc.prems(1) by auto
  obtain c where c: "c \<in> set (kids n)" "k \<in> fst ` set (kvs h nd c)"
    using Suc.prems(2) n(1) by auto
  obtain lo' hi' where b: "tree_ok C h nd lo' hi' c" "lo' \<in> insert lo (Some ` set (seps n))"
      "hi' \<in> insert hi (Some ` set (seps n))"
    using between_bounds [OF n(3) c(1)] by blast
  have r: "gt_lo lo' k" "le_hi hi' k" using Suc.IH [OF b(1) c(2)] by auto
  have "gt_lo lo k" by (rule above_child [OF b(2) r(1)]) (use n(2) in blast)
  moreover have "le_hi hi k" by (rule upto_child [OF b(3) r(2)]) (use n(2) in blast)
  ultimately show ?case by simp
qed

section \<open>Descending\<close>

lemma inner_descend:
  assumes "inner_ok C n" "j = lower_bound (pivots n) (isize n) key"
  shows "j \<le> isize n" "children n ! j = kids n ! j"
    "seps n = take j (seps n) @ drop j (seps n)"
    "kids n = take j (kids n) @ children n ! j # drop (Suc j) (kids n)"
    "length (take j (kids n)) = length (take j (seps n))"
    "\<forall>p \<in> set (take j (seps n)). p < key" "\<forall>p \<in> set (drop j (seps n)). key \<le> p"
    "gt_lo lo key \<Longrightarrow> gt_lo (lo_of lo (take j (seps n))) key"
    "le_hi hi key \<Longrightarrow> le_hi (hi_of (drop j (seps n)) hi) key"
proof -
  note k = inner_okD [OF assms(1)]
  have j: "j = length (takeWhile (\<lambda>x. x < key) (seps n))"
    using lower_bound_takeWhile [of "isize n" "pivots n" key] assms(2) k
    by (simp add: seps_def strict_sorted_imp_sorted)
  note s = takeWhile_less_split [OF k(4) j]
  show le: "j \<le> isize n" using s(1) k(5) by simp
  show ck: "children n ! j = kids n ! j" using le by (simp add: kids_def)
  show "seps n = take j (seps n) @ drop j (seps n)" by simp
  show "kids n = take j (kids n) @ children n ! j # drop (Suc j) (kids n)"
    unfolding ck using le k(6) by (simp add: id_take_nth_drop)
  show "length (take j (kids n)) = length (take j (seps n))" using le k(5,6) by simp
  show l: "\<forall>p \<in> set (take j (seps n)). p < key" by (rule s(2))
  show r: "\<forall>p \<in> set (drop j (seps n)). key \<le> p"
  proof (cases "j < length (seps n) \<and> seps n ! j = key")
    case True
    then show ?thesis using s(3) by (auto simp: Cons_nth_drop_Suc [symmetric])
  next
    case False
    then show ?thesis using s(4) by fastforce
  qed
  show "gt_lo lo key \<Longrightarrow> gt_lo (lo_of lo (take j (seps n))) key"
    using l by (auto simp: lo_of_def)
  show "le_hi hi key \<Longrightarrow> le_hi (hi_of (drop j (seps n)) hi) key"
    using r by (auto simp: hi_of_def split: list.split)
qed

lemma map_of_concat_mid:
  assumes "\<And>c. c \<in> set cs1 \<Longrightarrow> key \<notin> fst ` set (f c)" "\<And>c. c \<in> set cs2 \<Longrightarrow> key \<notin> fst ` set (f c)"
  shows "map_of (concat (map f (cs1 @ c # cs2))) key = map_of (f c) key"
proof -
  have "key \<notin> fst ` set (concat (map f cs1))" "key \<notin> fst ` set (concat (map f cs2))"
    using assms by auto
  then show ?thesis by (simp add: map_of_append_notin map_of_append_notin2 del: map_of_append)
qed

text \<open>A node with the child that a search for \<open>key\<close> enters.\<close>

lemma tree_descend:
  assumes "tree_ok C (Suc h) nd lo hi i" "nd i = Some (Inner n)"
    "j = lower_bound (pivots n) (isize n) key"
    "cs1 = take j (kids n)" "c = children n ! j" "cs2 = drop (Suc j) (kids n)"
    "ps1 = take j (seps n)" "ps2 = drop j (seps n)"
  shows "inner_ok C n" "kids n = cs1 @ c # cs2" "seps n = ps1 @ ps2" "length cs1 = length ps1"
    "\<forall>p \<in> set ps1. p < key" "\<forall>p \<in> set ps2. key \<le> p"
    "between_left (tree_ok C h nd) lo ps1 cs1" "tree_ok C h nd (lo_of lo ps1) (hi_of ps2 hi) c"
    "between_right (tree_ok C h nd) ps2 cs2 hi"
    "gt_lo lo key \<Longrightarrow> gt_lo (lo_of lo ps1) key" "le_hi hi key \<Longrightarrow> le_hi (hi_of ps2 hi) key"
    "x \<in> set cs1 \<Longrightarrow> key \<notin> fst ` set (kvs h nd x)" "x \<in> set cs2 \<Longrightarrow> key \<notin> fst ` set (kvs h nd x)"
    "map_of (kvs (Suc h) nd i) key = map_of (kvs h nd c) key"
    "nd c \<noteq> None"
proof -
  show ok: "inner_ok C n" using assms(1,2) by auto
  have b: "between (tree_ok C h nd) lo (seps n) (kids n) hi" using assms(1,2) by auto
  note d = inner_descend [OF ok assms(3)]
  show k: "kids n = cs1 @ c # cs2" "seps n = ps1 @ ps2" "length cs1 = length ps1"
    using d(3-5) assms(4-8) by simp_all
  show p: "\<forall>p \<in> set ps1. p < key" "\<forall>p \<in> set ps2. key \<le> p" using d(6,7) assms(7,8) by simp_all
  show "gt_lo lo key \<Longrightarrow> gt_lo (lo_of lo ps1) key" "le_hi hi key \<Longrightarrow> le_hi (hi_of ps2 hi) key"
    using d(8,9) assms(7,8) by simp_all
  show l: "between_left (tree_ok C h nd) lo ps1 cs1"
    and m: "tree_ok C h nd (lo_of lo ps1) (hi_of ps2 hi) c"
    and r: "between_right (tree_ok C h nd) ps2 cs2 hi"
    using b unfolding k(1,2) between_split [OF k(3)] by blast+
  show nl: "key \<notin> fst ` set (kvs h nd x)" if x: "x \<in> set cs1" for x
  proof -
    obtain lo' q where "q \<in> set ps1" "tree_ok C h nd lo' (Some q) x"
      using between_left_bounds [OF l x] by blast
    then show ?thesis using kvs_range p(1) by (metis bound_simps(4) not_le)
  qed
  show nr: "key \<notin> fst ` set (kvs h nd x)" if x: "x \<in> set cs2" for x
  proof -
    obtain q hi' where "q \<in> set ps2" "tree_ok C h nd (Some q) hi' x"
      using between_right_bounds [OF r x] by blast
    then show ?thesis using kvs_range p(2) by (metis bound_simps(2) not_le)
  qed
  show "map_of (kvs (Suc h) nd i) key = map_of (kvs h nd c) key"
    using map_of_concat_mid [of cs1 key "kvs h nd" cs2 c] nl nr assms(2) k(1) by simp
  show "nd c \<noteq> None" using m by (cases h) auto
qed

section \<open>Changing a tree\<close>

text \<open>
  \<open>grows nd I nd' I'\<close>: a step that changes a tree with the pages \<open>I\<close> into one with the
  pages \<open>I'\<close> changes no other page, and takes only new pages besides its own.
\<close>

definition grows :: "(nat \<rightharpoonup> 'n) \<Rightarrow> nat set \<Rightarrow> (nat \<rightharpoonup> 'n) \<Rightarrow> nat set \<Rightarrow> bool" where
  "grows nd I nd' I' \<longleftrightarrow>
     (\<forall>i \<in> dom nd - I. nd' i = nd i) \<and> I' \<inter> dom nd \<subseteq> I \<and> dom nd \<subseteq> dom nd'"

lemma growsD:
  assumes "grows nd I nd' I'"
  shows "i \<in> dom nd \<Longrightarrow> i \<notin> I \<Longrightarrow> nd' i = nd i" "i \<in> I' \<Longrightarrow> i \<in> dom nd \<Longrightarrow> i \<in> I"
    "i \<in> dom nd \<Longrightarrow> i \<in> dom nd'"
  using assms unfolding grows_def by blast+

lemma grows_refl: "grows nd I nd I"
  by (simp add: grows_def)

lemma grows_trans:
  assumes "grows nd I nd1 I1" "grows nd1 I1 nd2 I2"
  shows "grows nd I nd2 I2"
  unfolding grows_def
proof (intro conjI ballI subsetI)
  fix i assume i: "i \<in> dom nd - I"
  then have "i \<notin> I1" "i \<in> dom nd1" "nd1 i = nd i" using growsD [OF assms(1), of i] by blast+
  then show "nd2 i = nd i" using growsD(1) [OF assms(2)] by simp
next
  fix i assume "i \<in> I2 \<inter> dom nd"
  then show "i \<in> I" using growsD [OF assms(1), of i] growsD(2) [OF assms(2), of i] by blast
next
  fix i assume "i \<in> dom nd"
  then show "i \<in> dom nd2" using growsD(3) [OF assms(1)] growsD(3) [OF assms(2)] by blast
qed

lemma grows_mono: "grows nd I nd' I' \<Longrightarrow> I \<subseteq> J \<Longrightarrow> J' \<inter> dom nd \<subseteq> J \<Longrightarrow> grows nd J nd' J'"
  unfolding grows_def by blast

lemma map_of_replace:
  assumes "key \<notin> fst ` set A" "key \<notin> fst ` set D" "map_of X' = (map_of X)(key := x)"
  shows "map_of (A @ X' @ D) = (map_of (A @ X @ D))(key := x)"
proof
  fix l
  have "map_of A key = None" "map_of D key = None" using assms(1,2) by (simp_all add: map_of_eq_None_iff)
  then show "map_of (A @ X' @ D) l = ((map_of (A @ X @ D))(key := x)) l"
    using assms(3) by (auto simp: map_add_def split: option.splits)
qed

text \<open>Another tree next to one that grows stays as it is.\<close>

lemma tree_beside:
  assumes "grows nd I nd' I'" "tree_ok C h nd lo hi c" "set (ids h nd c) \<inter> I = {}"
  shows "tree_ok C h nd' lo hi c" "ids h nd' c = ids h nd c" "kvs h nd' c = kvs h nd c"
proof -
  have "nd' j = nd j" if "j \<in> set (ids h nd c)" for j
    using growsD(1) [OF assms(1), of j] wf_dom [OF assms(2)] assms(3) that by blast
  then show "tree_ok C h nd' lo hi c" "ids h nd' c = ids h nd c" "kvs h nd' c = kvs h nd c"
    using tree_cong [of h nd c nd'] assms(2) by blast+
qed

text \<open>One child of a node is replaced by a changed tree at the same page.\<close>

lemma replace_child:
  assumes ok: "tree_ok C (Suc h) nd lo hi i" "distinct (ids (Suc h) nd i)" "nd i = Some (Inner n)"
    and n: "kids n = cs1 @ c # cs2" "seps n = ps1 @ ps2" "length cs1 = length ps1"
    and c: "tree_ok C h nd' (lo_of lo ps1) (hi_of ps2 hi) c" "distinct (ids h nd' c)"
      "grows nd (set (ids h nd c)) nd' (set (ids h nd' c))"
  shows "tree_ok C (Suc h) nd' lo hi i" "distinct (ids (Suc h) nd' i)"
    "grows nd (set (ids (Suc h) nd i)) nd' (set (ids (Suc h) nd' i))"
    "kvs (Suc h) nd' i = concat (map (kvs h nd) cs1) @ kvs h nd' c @ concat (map (kvs h nd) cs2)"
proof -
  have b: "inner_ok C n" "\<forall>p \<in> set (seps n). gt_lo lo p \<and> lt_hi hi p"
      "between_left (tree_ok C h nd) lo ps1 cs1" "between_right (tree_ok C h nd) ps2 cs2 hi"
    using ok(1,3) n by (auto simp: between_split)
  let ?A = "concat (map (ids h nd) cs1)" and ?B = "concat (map (ids h nd) cs2)"
  have I: "ids (Suc h) nd i = i # ?A @ ids h nd c @ ?B" using ok(3) n(1) by simp
  have dom: "set (ids (Suc h) nd i) \<subseteq> dom nd" by (rule wf_dom [OF ok(1)])
  have out: "set (ids h nd x) \<inter> set (ids h nd c) = {}" "i \<notin> set (ids h nd c)"
    if "x \<in> set cs1 \<union> set cs2" for x
    using ok(2) that unfolding I by auto
  have iout: "i \<notin> set (ids h nd c)" using ok(2) unfolding I by auto
  have ni: "nd' i = Some (Inner n)" using growsD(1) [OF c(3), of i] iout dom ok(3) by auto
  have okl: "\<exists>lo' p. tree_ok C h nd lo' (Some p) x" if "x \<in> set cs1" for x
    using between_left_bounds [OF b(3) that] by blast
  have okr: "\<exists>p hi'. tree_ok C h nd (Some p) hi' x" if "x \<in> set cs2" for x
    using between_right_bounds [OF b(4) that] by blast
  have same: "ids h nd' x = ids h nd x" "kvs h nd' x = kvs h nd x"
      "tree_ok C h nd a z x \<Longrightarrow> tree_ok C h nd' a z x" if x: "x \<in> set cs1 \<union> set cs2" for x a z
  proof -
    obtain a' z' where "tree_ok C h nd a' z' x" using x okl okr by blast
    then show "ids h nd' x = ids h nd x" "kvs h nd' x = kvs h nd x"
      using tree_beside [OF c(3)] out(1) [OF x] by blast+
    show "tree_ok C h nd a z x \<Longrightarrow> tree_ok C h nd' a z x"
      using tree_beside(1) [OF c(3)] out(1) [OF x] by blast
  qed
  have "between_left (tree_ok C h nd') lo ps1 cs1" "between_right (tree_ok C h nd') ps2 cs2 hi"
    using between_left_mono [OF _ b(3)] between_right_mono [OF _ b(4)] same(3) by blast+
  then show "tree_ok C (Suc h) nd' lo hi i"
    using ni b(1,2) c(1) n by (auto simp: between_split)
  have ms: "map (ids h nd') cs1 = map (ids h nd) cs1" "map (ids h nd') cs2 = map (ids h nd) cs2"
      "map (kvs h nd') cs1 = map (kvs h nd) cs1" "map (kvs h nd') cs2 = map (kvs h nd) cs2"
    using same(1,2) by simp_all
  show "kvs (Suc h) nd' i = concat (map (kvs h nd) cs1) @ kvs h nd' c @ concat (map (kvs h nd) cs2)"
    using ni n(1) by (simp add: ms del: map_eq_conv)
  have I': "ids (Suc h) nd' i = i # ?A @ ids h nd' c @ ?B"
    using ni n(1) by (simp add: ms del: map_eq_conv)
  have old: "set (ids h nd' c) \<inter> dom nd \<subseteq> set (ids h nd c)" using growsD(2) [OF c(3)] by blast
  have "x \<notin> set (ids h nd' c)" if "x \<in> insert i (set ?A \<union> set ?B)" for x
  proof -
    have "x \<in> dom nd" using that dom unfolding I by auto
    moreover have "x \<notin> set (ids h nd c)" using that ok(2) unfolding I by auto
    ultimately show ?thesis using old by blast
  qed
  then show "distinct (ids (Suc h) nd' i)"
    using ok(2) c(2) unfolding I I' by (auto simp del: set_concat)
  show "grows nd (set (ids (Suc h) nd i)) nd' (set (ids (Suc h) nd' i))"
    unfolding I I' by (rule grows_mono [OF c(3)]) (use old in auto)
qed

text \<open>The halves of a split leaf and of a split inner node.\<close>

definition leaf_left :: "('k, 'v) leaf_node \<Rightarrow> ('k, 'v) leaf_node" where
  "leaf_left l = l\<lparr>lsize := lsize l - lsize l div 2\<rparr>"

definition leaf_right :: "('k, 'v) bconfig \<Rightarrow> ('k, 'v) leaf_node \<Rightarrow> ('k, 'v) leaf_node" where
  "leaf_right C l =
     (let i = (lsize l - 1) div 2; n = lsize l - (i + 1)
      in \<lparr>keys = copy_fwd n (keys l) (i + 1) (keys (new_leaf C)) 0,
          vals = copy_fwd n (vals l) (i + 1) (vals (new_leaf C)) 0, lsize = lsize l div 2\<rparr>)"

definition inner_left :: "'k inner_node \<Rightarrow> 'k inner_node" where
  "inner_left n = n\<lparr>isize := isize n - isize n div 2 - 1\<rparr>"

definition inner_right :: "('k, 'v) bconfig \<Rightarrow> 'k inner_node \<Rightarrow> 'k inner_node" where
  "inner_right C n =
     (let i = (isize n - 1) div 2; m = isize n - (i + 1)
      in \<lparr>pivots = copy_fwd m (pivots n) (i + 1) (pivots (new_inner C)) 0,
          children = copy_fwd (m + 1) (children n) (i + 1) (children (new_inner C)) 0,
          isize = isize n div 2\<rparr>)"

lemma half_index:
  assumes "2 \<le> (n :: nat)"
  shows "n - ((n - 1) div 2 + 1) = n div 2" "(n - 1) div 2 + 1 = n - n div 2" "(n - 1) div 2 < n"
    "n - n div 2 < n" "n - n div 2 - 1 = (n - 1) div 2"
  using assms by presburger+

lemma leaf_split_ok:
  assumes "leaf_ok C l" "2 \<le> lsize l" "m = keys l ! ((lsize l - 1) div 2)"
  defines "q \<equiv> lsize l - lsize l div 2"
  shows "leaf_ok C (leaf_left l)" "leaf_ok C (leaf_right C l)"
    "leaf_keys (leaf_left l) = take q (leaf_keys l)" "leaf_keys (leaf_right C l) = drop q (leaf_keys l)"
    "leaf_kvs (leaf_left l) @ leaf_kvs (leaf_right C l) = leaf_kvs l"
    "\<forall>k \<in> set (leaf_keys (leaf_left l)). k \<le> m" "\<forall>k \<in> set (leaf_keys (leaf_right C l)). m < k"
    "m \<in> set (leaf_keys l)" "lsize (leaf_left l) = q" "q < lsize l" "lsize (leaf_right C l) = lsize l - q"
    "\<exists>k \<in> set (leaf_keys l). m < k"
proof -
  note k = leaf_okD [OF assms(1)]
  note h = half_index [OF assms(2)]
  have q: "(lsize l - 1) div 2 + 1 = q" "q < lsize l" "0 < q" "lsize l - q = lsize l div 2"
    using h(2,4) assms(2) unfolding q_def by auto
  show "lsize (leaf_left l) = q" "q < lsize l" "lsize (leaf_right C l) = lsize l - q"
    using q by (simp_all add: leaf_left_def leaf_right_def q_def Let_def)
  show kl: "leaf_keys (leaf_left l) = take q (leaf_keys l)"
    using q(2) by (simp add: leaf_keys_def leaf_left_def q_def min_def)
  have vl: "leaf_vals (leaf_left l) = take q (leaf_vals l)"
    using q(2) by (simp add: leaf_vals_def leaf_left_def q_def min_def)
  have cp: "take (lsize l div 2) (copy_fwd (lsize l div 2) a ((lsize l - 1) div 2 + 1) (replicate (LEAF_N C) x) 0) =
      drop q (take (lsize l) a)" if "length a = LEAF_N C" for a :: "'z list" and x
  proof -
    have "take (lsize l div 2) (copy_fwd (lsize l div 2) a q (replicate (LEAF_N C) x) 0) =
        take (lsize l div 2) (drop q a)"
      by (rule take_copy_fwd_front) (use that k(3) q in auto)
    then show ?thesis using q by (simp add: drop_take)
  qed
  show kr: "leaf_keys (leaf_right C l) = drop q (leaf_keys l)"
    using cp [OF k(1), of "anyKey C"] h(1)
    by (simp add: leaf_right_def leaf_keys_def Let_def new_leaf_def)
  have vr: "leaf_vals (leaf_right C l) = drop q (leaf_vals l)"
    using cp [OF k(2), of "anyVal C"] h(1)
    by (simp add: leaf_right_def leaf_vals_def Let_def new_leaf_def)
  show "leaf_ok C (leaf_left l)"
    using k(1-4) kl q(2) sorted_wrt_take [OF k(4), of q]
    by (simp add: leaf_ok_def leaf_keys_def [symmetric]) (simp add: leaf_left_def q_def)
  show "leaf_ok C (leaf_right C l)"
    using k(1-4) kr q sorted_wrt_drop [OF k(4), of q] h(1)
    by (simp add: leaf_ok_def leaf_keys_def [symmetric])
      (simp add: leaf_right_def Let_def new_leaf_def)
  show "leaf_kvs (leaf_left l) @ leaf_kvs (leaf_right C l) = leaf_kvs l"
  proof -
    have "length (take q (leaf_keys l)) = length (take q (leaf_vals l))" using k(5,6) by simp
    from zip_append [OF this, of "drop q (leaf_keys l)" "drop q (leaf_vals l)"] show ?thesis
      unfolding leaf_kvs_def kl kr vl vr by (simp only: append_take_drop_id)
  qed
  have m: "m = leaf_keys l ! (q - 1)" using assms(3) q by (auto simp: leaf_keys_def)
  have sp: "leaf_keys l = take (q - 1) (leaf_keys l) @ m # drop q (leaf_keys l)"
    using id_take_nth_drop [of "q - 1" "leaf_keys l"] q(2,3) k(5) m by simp
  have st: "sorted_wrt (<) (take (q - 1) (leaf_keys l) @ m # drop q (leaf_keys l))"
    using k(4) sp by simp
  have tq: "take q (leaf_keys l) = take (q - 1) (leaf_keys l) @ [m]"
    using take_Suc_conv_app_nth [of "q - 1" "leaf_keys l"] q(2,3) k(5) m by simp
  show "\<forall>k \<in> set (leaf_keys (leaf_left l)). k \<le> m"
    using st unfolding kl tq by (auto simp: sorted_wrt_append)
  show r: "\<forall>k \<in> set (leaf_keys (leaf_right C l)). m < k"
    using st unfolding kr by (simp add: sorted_wrt_append)
  show "m \<in> set (leaf_keys l)" using sp by (metis in_set_conv_decomp)
  have "drop q (leaf_keys l) \<noteq> []" using q(2) k(5) by simp
  then obtain k where "k \<in> set (drop q (leaf_keys l))" by (meson last_in_set)
  then show "\<exists>k \<in> set (leaf_keys l). m < k" using r kr by (metis in_set_dropD)
qed

lemma inner_split_ok:
  assumes "inner_ok C n" "2 \<le> isize n" "m = pivots n ! ((isize n - 1) div 2)"
  defines "q \<equiv> (isize n - 1) div 2"
  shows "inner_ok C (inner_left n)" "inner_ok C (inner_right C n)"
    "seps (inner_left n) = take q (seps n)" "kids (inner_left n) = take (Suc q) (kids n)"
    "seps (inner_right C n) = drop (Suc q) (seps n)" "kids (inner_right C n) = drop (Suc q) (kids n)"
    "seps n = take q (seps n) @ m # drop (Suc q) (seps n)"
    "isize (inner_left n) < INNER_N C" "isize (inner_right C n) < INNER_N C"
proof -
  note k = inner_okD [OF assms(1)]
  note h = half_index [OF assms(2)]
  have q: "isize n - isize n div 2 - 1 = q" "isize n - Suc q = isize n div 2" "q < isize n"
    using h unfolding q_def by simp_all
  show sl: "seps (inner_left n) = take q (seps n)"
    using q by (simp add: seps_def inner_left_def min_def)
  show kl: "kids (inner_left n) = take (Suc q) (kids n)"
    using q by (simp add: kids_def inner_left_def min_def)
  have r: "inner_right C n = \<lparr>pivots = copy_fwd (isize n div 2) (pivots n) (Suc q) (pivots (new_inner C)) 0,
      children = copy_fwd (isize n div 2 + 1) (children n) (Suc q) (children (new_inner C)) 0,
      isize = isize n div 2\<rparr>"
    using q(2) by (simp add: inner_right_def Let_def q_def)
  have "take (isize n div 2) (copy_fwd (isize n div 2) (pivots n) (Suc q) (replicate (INNER_N C) (anyKey C)) 0) =
      take (isize n div 2) (drop (Suc q) (pivots n))"
    by (rule take_copy_fwd_front) (use k(1,3) q in auto)
  then show sr: "seps (inner_right C n) = drop (Suc q) (seps n)"
    using q(2) by (simp add: r seps_def new_inner_def drop_take)
  have "take (isize n div 2 + 1) (copy_fwd (isize n div 2 + 1) (children n) (Suc q) (replicate (INNER_N C + 1) 0) 0) =
      take (isize n div 2 + 1) (drop (Suc q) (children n))"
    by (rule take_copy_fwd_front) (use k(2,3) q in auto)
  moreover have "isize n + 1 - Suc q = isize n div 2 + 1" using q by simp
  ultimately show kr: "kids (inner_right C n) = drop (Suc q) (kids n)"
    by (simp add: r kids_def new_inner_def drop_take del: replicate.simps)
  show "inner_ok C (inner_left n)"
    using k(1-4) sl q sorted_wrt_take [OF k(4), of q]
    by (simp add: inner_ok_def) (simp add: inner_left_def)
  show "inner_ok C (inner_right C n)"
    using k(1-4) sr q sorted_wrt_drop [OF k(4), of "Suc q"]
    by (simp add: inner_ok_def) (simp add: r new_inner_def)
  show "seps n = take q (seps n) @ m # drop (Suc q) (seps n)"
    using id_take_nth_drop [of q "seps n"] q(3) k(5) assms(3) by (simp add: seps_def q_def)
  show "isize (inner_left n) < INNER_N C" using k(3) assms(2) by (simp add: inner_left_def)
  show "isize (inner_right C n) < INNER_N C" using k(3) assms(2) by (simp add: r)
qed

section \<open>Splitting a subtree\<close>

text \<open>\<open>c\<close> keeps the part up to \<open>m\<close>, the new page \<open>r\<close> gets the part on its other side.\<close>

definition split_tree ::
  "('k::linorder, 'v) bconfig \<Rightarrow> nat \<Rightarrow> (nat \<rightharpoonup> ('k, 'v) bnode) \<Rightarrow> (nat \<rightharpoonup> ('k, 'v) bnode) \<Rightarrow>
   'k option \<Rightarrow> 'k option \<Rightarrow> nat \<Rightarrow> 'k \<Rightarrow> nat \<Rightarrow> bool" where
  "split_tree C h nd nd' lo hi c m r \<longleftrightarrow>
     tree_ok C h nd' lo (Some m) c \<and> tree_ok C h nd' (Some m) hi r \<and> gt_lo lo m \<and> lt_hi hi m \<and>
     kvs h nd' c @ kvs h nd' r = kvs h nd c \<and> distinct (ids h nd' c @ ids h nd' r) \<and>
     set (ids h nd' c) \<union> set (ids h nd' r) = insert r (set (ids h nd c))"

lemma split_leaf_tree:
  assumes "tree_ok C 0 nd lo hi c" "nd c = Some (Leaf l)" "2 \<le> lsize l" "c \<noteq> r"
    and "nd' c = Some (Leaf (leaf_left l))" "nd' r = Some (Leaf (leaf_right C l))"
  shows "split_tree C 0 nd nd' lo hi c (keys l ! ((lsize l - 1) div 2)) r"
proof -
  have ok: "leaf_ok C l" "\<forall>k \<in> set (leaf_keys l). gt_lo lo k \<and> le_hi hi k"
    using assms(1,2) by auto
  note s = leaf_split_ok [OF ok(1) assms(3) refl]
  let ?m = "keys l ! ((lsize l - 1) div 2)"
  have sub: "set (leaf_keys (leaf_left l)) \<subseteq> set (leaf_keys l)"
      "set (leaf_keys (leaf_right C l)) \<subseteq> set (leaf_keys l)"
    unfolding s(3,4) by (simp_all add: set_take_subset set_drop_subset)
  obtain k where k: "k \<in> set (leaf_keys l)" "?m < k" using s(12) by blast
  have "lt_hi hi ?m" using upto_below [OF _ k(2)] ok(2) k(1) by blast
  then show ?thesis
    using assms(2,4-6) s(1,2,5-8) sub ok(2) by (auto simp: split_tree_def)
qed

lemma between_cut:
  "length cs1 = length ps1 + 1 \<Longrightarrow>
   between W lo (ps1 @ m # ps2) (cs1 @ cs2) hi \<longleftrightarrow>
     between W lo ps1 cs1 (Some m) \<and> between W (Some m) ps2 cs2 hi"
proof (induction ps1 arbitrary: lo cs1)
  case Nil
  then obtain c where "cs1 = [c]" by (auto simp: length_Suc_conv)
  then show ?case by simp
next
  case (Cons p ps1)
  then obtain c cs where "cs1 = c # cs" "length cs = length ps1 + 1" by (auto simp: length_Suc_conv)
  then show ?case using Cons.IH by simp
qed

lemma split_inner_tree:
  assumes "tree_ok C (Suc h) nd lo hi c" "distinct (ids (Suc h) nd c)" "nd c = Some (Inner n)"
    and "2 \<le> isize n" "r \<notin> dom nd"
    and nd': "nd' c = Some (Inner (inner_left n))" "nd' r = Some (Inner (inner_right C n))"
      "\<And>j. j \<in> set (ids (Suc h) nd c) \<Longrightarrow> j \<noteq> c \<Longrightarrow> nd' j = nd j"
  shows "split_tree C (Suc h) nd nd' lo hi c (pivots n ! ((isize n - 1) div 2)) r"
proof -
  let ?m = "pivots n ! ((isize n - 1) div 2)" and ?q = "(isize n - 1) div 2"
  have ok: "inner_ok C n" "\<forall>p \<in> set (seps n). gt_lo lo p \<and> lt_hi hi p"
      "between (tree_ok C h nd) lo (seps n) (kids n) hi"
    using assms(1,3) by auto
  note s = inner_split_ok [OF ok(1) assms(4) refl]
  note k = inner_okD [OF ok(1)]
  have q: "?q < isize n" using assms(4) by simp
  have I: "ids (Suc h) nd c = c # concat (map (ids h nd) (kids n))" using assms(3) by simp
  have same: "ids h nd' x = ids h nd x" "kvs h nd' x = kvs h nd x"
      "tree_ok C h nd a z x \<Longrightarrow> tree_ok C h nd' a z x" if x: "x \<in> set (kids n)" for x a z
  proof -
    have "nd' j = nd j" if "j \<in> set (ids h nd x)" for j
    proof (rule nd'(3))
      show "j \<in> set (ids (Suc h) nd c)" using x that unfolding I by auto
      show "j \<noteq> c" using x that assms(2) unfolding I by auto
    qed
    then show "ids h nd' x = ids h nd x" "kvs h nd' x = kvs h nd x"
      "tree_ok C h nd a z x \<Longrightarrow> tree_ok C h nd' a z x"
      using tree_cong [of h nd x nd'] by blast+
  qed
  have "between (tree_ok C h nd') lo (seps n) (kids n) hi"
    by (rule between_mono [OF _ ok(3)]) (rule same(3))
  then have "between (tree_ok C h nd') lo (take ?q (seps n) @ ?m # drop (Suc ?q) (seps n))
      (take (Suc ?q) (kids n) @ drop (Suc ?q) (kids n)) hi"
    using s(7) by simp
  moreover have "length (take (Suc ?q) (kids n)) = length (take ?q (seps n)) + 1" using k(5,6) q by simp
  ultimately have b: "between (tree_ok C h nd') lo (take ?q (seps n)) (take (Suc ?q) (kids n)) (Some ?m)"
      "between (tree_ok C h nd') (Some ?m) (drop (Suc ?q) (seps n)) (drop (Suc ?q) (kids n)) hi"
    by (simp_all only: between_cut)
  have st: "sorted_wrt (<) (take ?q (seps n) @ ?m # drop (Suc ?q) (seps n))" using k(4) s(7) by simp
  have m: "?m \<in> set (seps n)" using s(7) by (metis in_set_conv_decomp)
  have left: "\<forall>p \<in> set (take ?q (seps n)). gt_lo lo p \<and> p < ?m"
    using st ok(2) by (auto simp: sorted_wrt_append dest: in_set_takeD)
  have right: "\<forall>p \<in> set (drop (Suc ?q) (seps n)). ?m < p \<and> lt_hi hi p"
    using st ok(2) by (auto simp: sorted_wrt_append dest: in_set_dropD)
  have "tree_ok C (Suc h) nd' lo (Some ?m) c"
    using nd'(1) s(1) left b(1) by (simp add: s(3,4))
  moreover have "tree_ok C (Suc h) nd' (Some ?m) hi r"
    using nd'(2) s(2) right b(2) by (simp add: s(5,6))
  moreover have "gt_lo lo ?m" "lt_hi hi ?m" using ok(2) m by blast+
  moreover have ms: "map (ids h nd') (kids n) = map (ids h nd) (kids n)"
      "map (kvs h nd') (kids n) = map (kvs h nd) (kids n)"
    using same(1,2) by simp_all
  have cut: "concat (map f (take (Suc ?q) (kids n))) @ concat (map f (drop (Suc ?q) (kids n))) =
      concat (map f (kids n))" for f :: "nat \<Rightarrow> 'z list"
    by (metis append_take_drop_id concat_append map_append)
  have "kvs (Suc h) nd' c @ kvs (Suc h) nd' r = kvs (Suc h) nd c"
    using nd'(1,2) assms(3) cut [of "kvs h nd'"] by (simp add: s(4,6) ms del: map_eq_conv)
  moreover have ids': "ids (Suc h) nd' c @ ids (Suc h) nd' r =
      c # concat (map (ids h nd) (take (Suc ?q) (kids n))) @ r # concat (map (ids h nd) (drop (Suc ?q) (kids n)))"
  proof -
    have "map (ids h nd') (take (Suc ?q) (kids n)) = map (ids h nd) (take (Suc ?q) (kids n))"
        "map (ids h nd') (drop (Suc ?q) (kids n)) = map (ids h nd) (drop (Suc ?q) (kids n))"
      using ms(1) by (metis take_map, metis drop_map)
    then show ?thesis using nd'(1,2) by (simp add: s(4,6) del: map_eq_conv)
  qed
  have set': "set (ids (Suc h) nd' c) \<union> set (ids (Suc h) nd' r) = insert r (set (ids (Suc h) nd c))"
  proof -
    have "set (ids (Suc h) nd' c) \<union> set (ids (Suc h) nd' r) = set (ids (Suc h) nd' c @ ids (Suc h) nd' r)"
      by (simp only: set_append)
    also have "\<dots> = insert r (insert c (set (concat (map (ids h nd) (take (Suc ?q) (kids n))) @
        concat (map (ids h nd) (drop (Suc ?q) (kids n))))))"
      unfolding ids' by (simp only: list.set set_append) blast
    also have "\<dots> = insert r (set (ids (Suc h) nd c))" unfolding cut I by simp
    finally show ?thesis .
  qed
  have "r \<notin> set (ids (Suc h) nd c)" using wf_dom [OF assms(1)] assms(5) by blast
  then have "distinct (r # c # concat (map (ids h nd) (take (Suc ?q) (kids n))) @
        concat (map (ids h nd) (drop (Suc ?q) (kids n))))"
    using assms(2) unfolding cut I by simp
  then have "distinct (ids (Suc h) nd' c @ ids (Suc h) nd' r)"
    unfolding ids' by (simp del: set_concat)
  ultimately show ?thesis using set' unfolding split_tree_def by blast
qed

section \<open>A split below a parent\<close>

lemma insert_pivot_ok:
  assumes "inner_ok C n" "isize n < INNER_N C" "j \<le> isize n"
  shows "seps (insert_pivot j m r n) = take j (seps n) @ m # drop j (seps n)"
    "kids (insert_pivot j m r n) = take (Suc j) (kids n) @ r # drop (Suc j) (kids n)"
    "sorted_wrt (<) (take j (seps n) @ m # drop j (seps n)) \<Longrightarrow> inner_ok C (insert_pivot j m r n)"
proof -
  note k = inner_okD [OF assms(1)]
  show s: "seps (insert_pivot j m r n) = take j (seps n) @ m # drop j (seps n)"
    using take_insert_at [OF assms(3), of "pivots n" m] k(1) assms(2)
    by (simp add: insert_pivot_def seps_def)
  have "Suc j \<le> isize n + 1" "isize n + 1 < length (children n)" using assms(2,3) k(2) by simp_all
  from take_insert_at [OF this, of r]
  show "kids (insert_pivot j m r n) = take (Suc j) (kids n) @ r # drop (Suc j) (kids n)"
    by (simp add: insert_pivot_def kids_def)
  show "sorted_wrt (<) (take j (seps n) @ m # drop j (seps n)) \<Longrightarrow> inner_ok C (insert_pivot j m r n)"
    using k(1,2) assms(2) s by (simp add: inner_ok_def) (simp add: insert_pivot_def)
qed

lemma split_child:
  assumes ok: "tree_ok C (Suc h) nd lo hi i" "distinct (ids (Suc h) nd i)" "nd i = Some (Inner n)"
    and n: "kids n = cs1 @ c # cs2" "seps n = ps1 @ ps2" "length cs1 = length ps1"
    and size: "isize n < INNER_N C"
    and sp: "split_tree C h nd nd' (lo_of lo ps1) (hi_of ps2 hi) c m r" and r: "r \<notin> dom nd"
    and ni: "nd' i = Some (Inner (insert_pivot (length ps1) m r n))"
    and frame: "\<forall>j \<in> dom nd. j \<noteq> i \<longrightarrow> j \<notin> set (ids h nd c) \<longrightarrow> nd' j = nd j"
    and dom: "dom nd \<subseteq> dom nd'"
  shows "tree_ok C (Suc h) nd' lo hi i" "distinct (ids (Suc h) nd' i)"
    "grows nd (set (ids (Suc h) nd i)) nd' (set (ids (Suc h) nd' i))"
    "kvs (Suc h) nd' i = kvs (Suc h) nd i"
proof -
  have b: "inner_ok C n" "\<forall>p \<in> set (seps n). gt_lo lo p \<and> lt_hi hi p"
      "between_left (tree_ok C h nd) lo ps1 cs1" "between_right (tree_ok C h nd) ps2 cs2 hi"
    using ok(1,3) n by (auto simp: between_split)
  note k = inner_okD [OF b(1)]
  have j: "length ps1 \<le> isize n" using k(5) n(2) by (metis length_append le_add1)
  note ip = insert_pivot_ok [OF b(1) size j, of m r]
  have sep: "take (length ps1) (seps n) = ps1" "drop (length ps1) (seps n) = ps2"
    using n(2) by simp_all
  have kid: "take (Suc (length ps1)) (kids n) = cs1 @ [c]" "drop (Suc (length ps1)) (kids n) = cs2"
    using n(1,3) by simp_all
  let ?n = "insert_pivot (length ps1) m r n"
  have seps': "seps ?n = ps1 @ m # ps2" and kids': "kids ?n = cs1 @ c # r # cs2"
    using ip(1,2) sep kid by simp_all
  have s: "tree_ok C h nd' (lo_of lo ps1) (Some m) c" "tree_ok C h nd' (Some m) (hi_of ps2 hi) r"
      "gt_lo (lo_of lo ps1) m" "lt_hi (hi_of ps2 hi) m" "kvs h nd' c @ kvs h nd' r = kvs h nd c"
      "distinct (ids h nd' c @ ids h nd' r)"
      "set (ids h nd' c) \<union> set (ids h nd' r) = insert r (set (ids h nd c))"
    using sp unfolding split_tree_def by blast+
  let ?A = "concat (map (ids h nd) cs1)" and ?B = "concat (map (ids h nd) cs2)"
  have I: "ids (Suc h) nd i = i # ?A @ ids h nd c @ ?B" using ok(3) n(1) by simp
  have domI: "set (ids (Suc h) nd i) \<subseteq> dom nd" by (rule wf_dom [OF ok(1)])
  have same: "ids h nd' x = ids h nd x" "kvs h nd' x = kvs h nd x"
      "tree_ok C h nd a z x \<Longrightarrow> tree_ok C h nd' a z x" if x: "x \<in> set cs1 \<union> set cs2" for x a z
  proof -
    have "nd' j = nd j" if "j \<in> set (ids h nd x)" for j
    proof -
      have "j \<in> dom nd" using that x domI unfolding I by auto
      moreover have "j \<noteq> i" "j \<notin> set (ids h nd c)" using that x ok(2) unfolding I by auto
      ultimately show ?thesis using frame by blast
    qed
    then show "ids h nd' x = ids h nd x" "kvs h nd' x = kvs h nd x"
      "tree_ok C h nd a z x \<Longrightarrow> tree_ok C h nd' a z x"
      using tree_cong [of h nd x nd'] by blast+
  qed
  have bl: "between_left (tree_ok C h nd') lo ps1 cs1" "between_right (tree_ok C h nd') ps2 cs2 hi"
    using between_left_mono [OF _ b(3)] between_right_mono [OF _ b(4)] same(3) by blast+
  have st: "sorted_wrt (<) (ps1 @ ps2)" using k(4) n(2) by simp
  have m1: "p < m" if pp: "p \<in> set ps1" for p
  proof -
    obtain ys y where y: "ps1 = ys @ [y]" using pp by (cases ps1 rule: rev_cases) auto
    then have "p \<le> y" using st pp by (auto simp: sorted_wrt_append)
    moreover have "y < m" using s(3) y by simp
    ultimately show ?thesis by simp
  qed
  have m2: "m < p" if pp: "p \<in> set ps2" for p
  proof -
    obtain x xs where x: "ps2 = x # xs" using pp by (cases ps2) auto
    then have "x \<le> p" using st pp by (auto simp: sorted_wrt_append)
    then show ?thesis using s(4) x by simp
  qed
  have st': "sorted_wrt (<) (ps1 @ m # ps2)" using st m1 m2 by (auto simp: sorted_wrt_append)
  have "gt_lo lo m"
  proof (cases ps1 rule: rev_cases)
    case (snoc ys y)
    then have "gt_lo lo y" "y < m" using b(2) n(2) m1 by auto
    then show ?thesis using above_trans by (metis order.strict_implies_order)
  qed (use s(3) in simp)
  moreover have "lt_hi hi m"
  proof (cases ps2)
    case (Cons y ys)
    then have "lt_hi hi y" "m < y" using b(2) n(2) m2 by auto
    then show ?thesis using below_trans by (metis order.strict_implies_order)
  qed (use s(4) in simp)
  ultimately show "tree_ok C (Suc h) nd' lo hi i"
    using ni ip(3) st' sep b(2) n(2,3) s(1,2) bl
    by (auto simp: seps' kids' between_split)
  have ms: "map (ids h nd') cs1 = map (ids h nd) cs1" "map (ids h nd') cs2 = map (ids h nd) cs2"
      "map (kvs h nd') cs1 = map (kvs h nd) cs1" "map (kvs h nd') cs2 = map (kvs h nd) cs2"
    using same(1,2) by simp_all
  show "kvs (Suc h) nd' i = kvs (Suc h) nd i"
    using ni ok(3) n(1) s(5) by (simp add: kids' ms del: map_eq_conv)
  have I': "ids (Suc h) nd' i = i # ?A @ (ids h nd' c @ ids h nd' r) @ ?B"
    using ni by (simp add: kids' ms del: map_eq_conv)
  have rn: "r \<notin> set (i # ?A @ ids h nd c @ ?B)" using r domI unfolding I by blast
  show "distinct (ids (Suc h) nd' i)"
    using ok(2) s(6) rn unfolding I I' distinct_append distinct.simps set_append s(7)
    by (simp del: set_concat)
  have set': "set (ids (Suc h) nd' i) = insert r (set (ids (Suc h) nd i))"
    unfolding I I' using s(7) by auto
  show "grows nd (set (ids (Suc h) nd i)) nd' (set (ids (Suc h) nd' i))"
    unfolding grows_def set'
  proof (intro conjI ballI)
    fix x assume "x \<in> dom nd - set (ids (Suc h) nd i)"
    then show "nd' x = nd x" using frame unfolding I by auto
  qed (use r dom in auto)
qed

end
