(* ===== verification/BTreeOps.thy ===== *)
theory BTreeOps
  imports BTreeInv
begin

text \<open>
  The operations of the B+-tree are correct: run on a tree with the invariant, with no page
  pinned and room to pin three, they return, keep the invariant, change the map as they
  should and leave no page pinned and no change unmarked. Every error value of the model
  (failed assertions, accesses out of bounds, deadlocks, data races, lost updates, a full
  buffer, fuel) is thereby excluded.
\<close>

section \<open>Running the helpers\<close>

lemma page_leaf_run:
  "st s nd lk ch n \<Longrightarrow> nd p = Some (Leaf l) \<Longrightarrow> lk p \<noteq> Unlocked \<Longrightarrow> page_leaf p s = Inr l"
  by (simp add: page_leaf_def st_get)

lemma page_inner_run:
  "st s nd lk ch n \<Longrightarrow> nd p = Some (Inner x) \<Longrightarrow> lk p \<noteq> Unlocked \<Longrightarrow> page_inner p s = Inr x"
  by (simp add: page_inner_def st_get)

lemma node_eta:
  "(l :: ('k, 'v) leaf_node)\<lparr>keys := a, vals := b, lsize := c\<rparr> = \<lparr>keys = a, vals = b, lsize = c\<rparr>"
  "(x :: 'k inner_node)\<lparr>pivots := p, children := d, isize := e\<rparr> =
     \<lparr>pivots = p, children = d, isize = e\<rparr>"
  by (cases l, simp) (cases x, simp)

lemma splitLeafNode_run:
  assumes "st s nd lk ch n" "lk p = Exclusive" "nd p = Some (Leaf l)" "2 \<le> lsize l"
    "card (held_of lk) < n"
  shows "\<exists>r s'. splitLeafNode C p s = Inr (r, keys l ! ((lsize l - 1) div 2), s') \<and>
           r \<notin> dom nd \<and> lk r = Unlocked \<and>
           st s' (nd(r \<mapsto> Leaf (leaf_right C l), p \<mapsto> Leaf (leaf_left l))) (lk(r := Exclusive))
             (insert p (insert r ch)) n"
proof -
  obtain r s1 y where r: "pin_new s = Inr (r, s1)" "r \<notin> dom nd" "lk r = Unlocked"
      "st s1 (nd(r \<mapsto> y)) (lk(r := Exclusive)) (insert r ch) n"
    using pin_new_run [OF assms(1,5)] by blast
  have rp: "r \<noteq> p" using r(3) assms(2) by auto
  obtain s2 where s2: "initializeNode C r True s1 = Inr s2"
      "st s2 (nd(r \<mapsto> Leaf (new_leaf C))) (lk(r := Exclusive)) (insert r ch) n"
    using st_put [OF r(4), of r "Leaf (new_leaf C)"] by (auto simp: initializeNode_def new_bnode_def)
  obtain s3 where s3: "ps_put r (Leaf (leaf_right C l)) s2 = Inr s3"
      "st s3 (nd(r \<mapsto> Leaf (leaf_right C l))) (lk(r := Exclusive)) (insert r ch) n"
    using st_put [OF s2(2), of r "Leaf (leaf_right C l)"] by auto
  obtain s4 where s4: "ps_put p (Leaf (leaf_left l)) s3 = Inr s4"
      "st s4 (nd(r \<mapsto> Leaf (leaf_right C l), p \<mapsto> Leaf (leaf_left l))) (lk(r := Exclusive))
         (insert p (insert r ch)) n"
    using st_put [OF s3(2), of p "Leaf (leaf_left l)"] rp assms(2) by auto
  have "page_leaf p s = Inr l" by (rule page_leaf_run [OF assms(1,3)]) (simp add: assms(2))
  moreover have "page_leaf r s2 = Inr (new_leaf C)" by (rule page_leaf_run [OF s2(2)]) simp_all
  ultimately have "splitLeafNode C p s = Inr (r, keys l ! ((lsize l - 1) div 2), s4)"
    using r(1) s2(1) s3(1) s4(1) assms(4)
    by (simp add: splitLeafNode_def Let_def leaf_right_def leaf_left_def node_eta del: bindE_eq_Inr)
  then show ?thesis using r(2,3) s4(2) by blast
qed

lemma splitInnerNode_run:
  assumes "st s nd lk ch n" "lk p = Exclusive" "nd p = Some (Inner x)" "2 \<le> isize x"
    "card (held_of lk) < n"
  shows "\<exists>r s'. splitInnerNode C p s = Inr (r, pivots x ! ((isize x - 1) div 2), s') \<and>
           r \<notin> dom nd \<and> lk r = Unlocked \<and>
           st s' (nd(r \<mapsto> Inner (inner_right C x), p \<mapsto> Inner (inner_left x))) (lk(r := Exclusive))
             (insert p (insert r ch)) n"
proof -
  obtain r s1 y where r: "pin_new s = Inr (r, s1)" "r \<notin> dom nd" "lk r = Unlocked"
      "st s1 (nd(r \<mapsto> y)) (lk(r := Exclusive)) (insert r ch) n"
    using pin_new_run [OF assms(1,5)] by blast
  have rp: "r \<noteq> p" using r(3) assms(2) by auto
  obtain s2 where s2: "initializeNode C r False s1 = Inr s2"
      "st s2 (nd(r \<mapsto> Inner (new_inner C))) (lk(r := Exclusive)) (insert r ch) n"
    using st_put [OF r(4), of r "Inner (new_inner C)"] by (auto simp: initializeNode_def new_bnode_def)
  obtain s3 where s3: "ps_put r (Inner (inner_right C x)) s2 = Inr s3"
      "st s3 (nd(r \<mapsto> Inner (inner_right C x))) (lk(r := Exclusive)) (insert r ch) n"
    using st_put [OF s2(2), of r "Inner (inner_right C x)"] by auto
  obtain s4 where s4: "ps_put p (Inner (inner_left x)) s3 = Inr s4"
      "st s4 (nd(r \<mapsto> Inner (inner_right C x), p \<mapsto> Inner (inner_left x))) (lk(r := Exclusive))
         (insert p (insert r ch)) n"
    using st_put [OF s3(2), of p "Inner (inner_left x)"] rp assms(2) by auto
  have "page_inner p s = Inr x" by (rule page_inner_run [OF assms(1,3)]) (simp add: assms(2))
  moreover have "page_inner r s2 = Inr (new_inner C)" by (rule page_inner_run [OF s2(2)]) simp_all
  ultimately have "splitInnerNode C p s = Inr (r, pivots x ! ((isize x - 1) div 2), s4)"
    using r(1) s2(1) s3(1) s4(1) assms(4)
    by (simp add: splitInnerNode_def Let_def inner_right_def inner_left_def node_eta del: bindE_eq_Inr)
  then show ?thesis using r(2,3) s4(2) by blast
qed

text \<open>What an insert makes of a leaf.\<close>

definition leaf_put :: "('k::linorder, 'v) bconfig \<Rightarrow> 'k \<Rightarrow> 'v \<Rightarrow> ('k, 'v) leaf_node \<Rightarrow> ('k, 'v) leaf_node \<Rightarrow> bool" where
  "leaf_put C key value l l' \<longleftrightarrow>
     leaf_ok C l' \<and> map_of (leaf_kvs l') = (map_of (leaf_kvs l))(key \<mapsto> value) \<and>
     set (leaf_keys l') = insert key (set (leaf_keys l))"

lemma put_in_leaf_run:
  assumes s: "st s nd (no_locks(t := Exclusive)) ch n" "nd t = Some (Leaf l)" "leaf_ok C l"
    and ki: "ki = lower_bound (keys l) (lsize l) key" "ki < lsize l \<Longrightarrow> itKey = keys l ! ki"
    and room: "lsize l < LEAF_N C" and ch: "ch \<subseteq> {t}" "t \<in> ch \<Longrightarrow> split"
  shows "\<exists>s' l'. put_in_leaf C key value itKey t ki split s = Inr (True, s') \<and>
           st s' (nd(t \<mapsto> Leaf l')) no_locks {} n \<and> leaf_put C key value l l'"
proof -
  have pl: "page_leaf t s = Inr l" by (rule page_leaf_run [OF s(1,2)]) simp
  note k = leaf_okD [OF s(3)]
  have fin: "\<exists>s'. ps_unpin True t s1 = Inr s' \<and> st s' nd1 no_locks {} n"
    if "st s1 nd1 (no_locks(t := Exclusive)) (insert t ch) n" for s1 nd1
    by (rule st_unpin_last [OF that]) (use ch(1) in auto)
  show ?thesis
  proof (cases "ki < lsize l \<and> itKey = key")
    case True
    then have f: "ki < lsize l" "keys l ! ki = key" using ki(2) by auto
    show ?thesis
    proof (cases "vals l ! ki = value")
      case same: True
      obtain s' where s': "ps_unpin split t s = Inr s'" "st s' nd no_locks {} n"
        using st_unpin_last [OF s(1) _ ch(1), of split] ch(2) by auto
      have "nd(t \<mapsto> Leaf l) = nd" using s(2) by auto
      moreover have "leaf_put C key value l l"
        using s(3) leaf_lookup [OF s(3) f] same leaf_found(2) [OF s(3) ki(1)] f
        by (auto simp: leaf_put_def)
      ultimately show ?thesis using s' pl True same
        by (intro exI [of _ s'] exI [of _ l]) (simp add: put_in_leaf_def)
    next
      case diff: False
      let ?l = "l\<lparr>vals := (vals l)[ki := value]\<rparr>"
      obtain s1 where s1: "ps_put t (Leaf ?l) s = Inr s1"
          "st s1 (nd(t \<mapsto> Leaf ?l)) (no_locks(t := Exclusive)) (insert t ch) n"
        using st_put [OF s(1), of t "Leaf ?l"] by auto
      obtain s' where s': "ps_unpin True t s1 = Inr s'" "st s' (nd(t \<mapsto> Leaf ?l)) no_locks {} n"
        using fin [OF s1(2)] by blast
      have "leaf_put C key value l ?l"
        using leaf_overwrite [OF s(3) f, of "value"] leaf_found(2) [OF s(3) ki(1)] f
        by (auto simp: leaf_put_def)
      then show ?thesis using s' s1(1) pl True diff
        by (intro exI [of _ s'] exI [of _ ?l]) (simp add: put_in_leaf_def)
    qed
  next
    case False
    then have nf: "key \<notin> set (leaf_keys l)" using leaf_found(2) [OF s(3) ki(1)] ki(2) by auto
    let ?l = "leaf_insert ki key value l"
    obtain s1 where s1: "ps_put t (Leaf ?l) s = Inr s1"
        "st s1 (nd(t \<mapsto> Leaf ?l)) (no_locks(t := Exclusive)) (insert t ch) n"
      using st_put [OF s(1), of t "Leaf ?l"] by auto
    obtain s' where s': "ps_unpin True t s1 = Inr s'" "st s' (nd(t \<mapsto> Leaf ?l)) no_locks {} n"
      using fin [OF s1(2)] by blast
    have "leaf_put C key value l ?l"
      using leaf_insert_ok [OF s(3) ki(1) room nf] by (simp add: leaf_put_def)
    then show ?thesis using s' s1(1) pl False room k(1)
      by (intro exI [of _ s'] exI [of _ ?l]) (auto simp: put_in_leaf_def)
  qed
qed

section \<open>Effects on the tree\<close>

text \<open>
  \<open>changed_tree\<close>: the tree at page \<open>i\<close> has become one whose map differs in \<open>key\<close> only,
  and only its own and new pages were written.
\<close>

definition changed_tree ::
  "('k::linorder, 'v) bconfig \<Rightarrow> nat \<Rightarrow> (nat \<rightharpoonup> ('k, 'v) bnode) \<Rightarrow> (nat \<rightharpoonup> ('k, 'v) bnode) \<Rightarrow>
   'k option \<Rightarrow> 'k option \<Rightarrow> nat \<Rightarrow> 'k \<Rightarrow> 'v option \<Rightarrow> bool" where
  "changed_tree C h nd nd' lo hi i key x \<longleftrightarrow>
     tree_ok C h nd' lo hi i \<and> distinct (ids h nd' i) \<and>
     grows nd (set (ids h nd i)) nd' (set (ids h nd' i)) \<and>
     map_of (kvs h nd' i) = (map_of (kvs h nd i))(key := x)"

lemma changed_leaf:
  assumes "tree_ok C 0 nd lo hi t" "nd t = Some (Leaf l)" "leaf_ok C l'"
    "map_of (leaf_kvs l') = (map_of (leaf_kvs l))(key := x)"
    "\<And>k. k \<in> set (leaf_keys l') \<Longrightarrow> k \<noteq> key \<Longrightarrow> k \<in> set (leaf_keys l)"
    "gt_lo lo key" "le_hi hi key"
  shows "changed_tree C 0 nd (nd(t \<mapsto> Leaf l')) lo hi t key x"
  using assms by (auto simp: changed_tree_def grows_def)

lemma changed_leaf_put:
  assumes "tree_ok C 0 nd lo hi t" "nd t = Some (Leaf l)" "leaf_put C key value l l'"
    "gt_lo lo key" "le_hi hi key"
  shows "changed_tree C 0 nd (nd(t \<mapsto> Leaf l')) lo hi t key (Some value)"
  by (rule changed_leaf [OF assms(1,2)]) (use assms(3-5) in \<open>auto simp: leaf_put_def\<close>)

lemma changed_child:
  assumes "tree_ok C (Suc h) nd lo hi i" "distinct (ids (Suc h) nd i)" "nd i = Some (Inner n)"
    "j = lower_bound (pivots n) (isize n) key"
    "changed_tree C h nd nd' (lo_of lo (take j (seps n))) (hi_of (drop j (seps n)) hi)
       (children n ! j) key x"
  shows "changed_tree C (Suc h) nd nd' lo hi i key x"
proof -
  note d = tree_descend [OF assms(1,3,4) refl refl refl refl refl]
  note c = assms(5) [unfolded changed_tree_def]
  note r = replace_child [OF assms(1-3) d(2,3,4), of nd']
  let ?A = "concat (map (kvs h nd) (take j (kids n)))"
  let ?D = "concat (map (kvs h nd) (drop (Suc j) (kids n)))"
  have "key \<notin> fst ` set ?A" "key \<notin> fst ` set ?D" using d(12,13) by auto
  from map_of_replace [OF this, of "kvs h nd' (children n ! j)" "kvs h nd (children n ! j)" x] c
  have "map_of (?A @ kvs h nd' (children n ! j) @ ?D) =
      (map_of (?A @ kvs h nd (children n ! j) @ ?D))(key := x)" by blast
  moreover have "kvs (Suc h) nd i = ?A @ kvs h nd (children n ! j) @ ?D"
    using assms(3) d(2) by (metis concat.simps(2) concat_append list.simps(9) map_append
        kvs.simps(2) option.simps(5) bnode.simps(6))
  ultimately show ?thesis using r c unfolding changed_tree_def by simp
qed

lemma changed_after:
  assumes "grows nd (set (ids h nd i)) nd1 (set (ids h nd1 i))" "kvs h nd1 i = kvs h nd i"
    "changed_tree C h nd1 nd2 lo hi i key x"
  shows "changed_tree C h nd nd2 lo hi i key x"
  using assms grows_trans [OF assms(1), of nd2] unfolding changed_tree_def by simp

text \<open>After a split, the search for the key enters the half that the code chooses.\<close>

lemma takeWhile_split:
  fixes xs :: "'k::linorder list"
  assumes "\<forall>x \<in> set xs. x < key" "\<forall>y \<in> set ys. key \<le> y"
  shows "length (takeWhile (\<lambda>x. x < key) (xs @ m # ys)) = (if key \<le> m then length xs else Suc (length xs))"
proof -
  have "takeWhile (\<lambda>x. x < key) xs = xs" using assms(1) by (simp add: takeWhile_eq_all_conv)
  moreover have "takeWhile (\<lambda>x. x < key) ys = []"
    using assms(2) by (cases ys) (auto simp: not_less)
  ultimately show ?thesis using assms(1) by (auto simp: takeWhile_append not_less)
qed

lemma target_after_split:
  assumes "inner_ok C n" "isize n < INNER_N C" "j = lower_bound (pivots n) (isize n) key"
    "inner_ok C (insert_pivot j m r n)"
  shows "lower_bound (pivots (insert_pivot j m r n)) (isize (insert_pivot j m r n)) key =
      (if key \<le> m then j else Suc j)"
    "children (insert_pivot j m r n) ! (if key \<le> m then j else Suc j) =
      (if key \<le> m then children n ! j else r)"
proof -
  note d = inner_descend [OF assms(1,3)]
  note k = inner_okD [OF assms(1)] and k' = inner_okD [OF assms(4)]
  note ip = insert_pivot_ok [OF assms(1,2) d(1), of m r]
  let ?n = "insert_pivot j m r n"
  have sorted: "sorted (take (isize ?n) (pivots ?n))"
    using k'(4) by (simp add: seps_def strict_sorted_imp_sorted)
  have "lower_bound (pivots ?n) (isize ?n) key = length (takeWhile (\<lambda>x. x < key) (seps ?n))"
    unfolding seps_def by (rule lower_bound_takeWhile [OF _ sorted]) (use k'(1,3) in simp)
  also have "\<dots> = (if key \<le> m then j else Suc j)"
    unfolding ip(1) takeWhile_split [OF d(6,7)] using d(1) k(5) by simp
  finally show "lower_bound (pivots ?n) (isize ?n) key = (if key \<le> m then j else Suc j)" .
  have cn: "children ?n ! x = kids ?n ! x" if "x \<le> Suc j" for x
    using that d(1) k'(6) by (simp add: kids_def insert_pivot_def)
  show "children ?n ! (if key \<le> m then j else Suc j) = (if key \<le> m then children n ! j else r)"
    using d(1,2) k(6) by (auto simp: cn ip(2) nth_append)
qed

text \<open>The position of the key in the half of a split leaf that takes it.\<close>

lemma leaf_half_index:
  assumes "leaf_ok C l" "2 \<le> lsize l" "m = keys l ! ((lsize l - 1) div 2)"
    "ki = lower_bound (keys l) (lsize l) key"
  shows "key \<le> m \<Longrightarrow> ki = lower_bound (keys (leaf_left l)) (lsize (leaf_left l)) key"
    "\<not> key \<le> m \<Longrightarrow> ki - lsize (leaf_left l) =
       lower_bound (keys (leaf_right C l)) (lsize (leaf_right C l)) key"
    "\<not> key \<le> m \<Longrightarrow> ki - lsize (leaf_left l) < lsize (leaf_right C l) \<Longrightarrow>
       keys l ! ki = keys (leaf_right C l) ! (ki - lsize (leaf_left l))"
proof -
  note s = leaf_split_ok [OF assms(1-3)]
  note k = leaf_okD [OF assms(1)]
  let ?q = "lsize (leaf_left l)" and ?P = "\<lambda>x. x < key"
  have q: "?q < lsize l" "0 < ?q" using s(9,10) assms(2) by auto
  have kl: "leaf_keys (leaf_left l) = take ?q (leaf_keys l)" using s(3,9) by simp
  have kr: "leaf_keys (leaf_right C l) = drop ?q (leaf_keys l)" using s(4,9) by simp
  have ki: "ki = length (takeWhile ?P (leaf_keys l))"
    using leaf_lower_bound [OF assms(1)] assms(4) by simp
  have split: "leaf_keys l = leaf_keys (leaf_left l) @ leaf_keys (leaf_right C l)"
    unfolding kl kr by simp
  have lb_l: "lower_bound (keys (leaf_left l)) ?q key = length (takeWhile ?P (leaf_keys (leaf_left l)))"
    by (rule leaf_lower_bound [OF s(1)])
  have lb_r: "lower_bound (keys (leaf_right C l)) (lsize (leaf_right C l)) key =
      length (takeWhile ?P (leaf_keys (leaf_right C l)))"
    by (rule leaf_lower_bound [OF s(2)])
  have m: "m \<in> set (leaf_keys (leaf_left l))"
    using s(7,8) split by auto
  show "key \<le> m \<Longrightarrow> ki = lower_bound (keys (leaf_left l)) ?q key"
  proof -
    assume "key \<le> m"
    then have "takeWhile ?P (leaf_keys (leaf_left l) @ leaf_keys (leaf_right C l)) =
        takeWhile ?P (leaf_keys (leaf_left l))"
      using m by (intro takeWhile_append1 [of m]) auto
    then show ?thesis using ki lb_l split by simp
  qed
  have r: "ki = ?q + length (takeWhile ?P (leaf_keys (leaf_right C l)))" if "\<not> key \<le> m"
  proof -
    have "\<forall>x \<in> set (leaf_keys (leaf_left l)). x < key" using s(6) that by auto
    then have "takeWhile ?P (leaf_keys l) =
        leaf_keys (leaf_left l) @ takeWhile ?P (leaf_keys (leaf_right C l))"
      unfolding split by (simp add: takeWhile_append2)
    then show ?thesis using ki leaf_okD(5) [OF s(1)] by simp
  qed
  then show "\<not> key \<le> m \<Longrightarrow> ki - ?q = lower_bound (keys (leaf_right C l)) (lsize (leaf_right C l)) key"
    using lb_r by simp
  assume a: "\<not> key \<le> m" "ki - ?q < lsize (leaf_right C l)"
  have "ki < lsize l" using a(2) r [OF a(1)] s(11) s(9) q by simp
  then have "keys l ! ki = leaf_keys l ! ki" by (simp add: leaf_keys_def)
  also have "\<dots> = leaf_keys (leaf_right C l) ! (ki - ?q)"
    unfolding kr using r [OF a(1)] k(5) q \<open>ki < lsize l\<close> by simp
  also have "\<dots> = keys (leaf_right C l) ! (ki - ?q)" using a(2) by (simp add: leaf_keys_def)
  finally show "keys l ! ki = keys (leaf_right C l) ! (ki - ?q)" .
qed

section \<open>Inserting below an inner node\<close>

lemma parent_not_child:
  assumes "distinct (ids (Suc h) nd p)" "nd p = Some (Inner pn)" "kids pn = cs1 @ c # cs2"
  shows "p \<noteq> c" "p \<notin> set (ids h nd c)" "distinct (ids h nd c)"
  using assms in_ids [of c h nd] by auto

text \<open>The leaf at the end of the traversal, in exclusive mode.\<close>

lemma traverse_leaf_excl:
  assumes s: "st s nd (no_locks(p := Exclusive, c := Exclusive)) ch n"
    and t: "tree_ok C (Suc 0) nd lo hi p" "distinct (ids (Suc 0) nd p)" "nd p = Some (Inner pn)"
      "isize pn < INNER_N C" "gt_lo lo key" "le_hi hi key"
    and j: "j = lower_bound (pivots pn) (isize pn) key" "c = children pn ! j"
    and ch: "ch \<subseteq> {p}" "p \<in> ch \<Longrightarrow> dirty" and n: "3 \<le> n" and L: "2 \<le> LEAF_N C"
  shows "\<exists>s' nd'. traverse_leaf C key value p pn j c dirty True s = Inr (True, s') \<and>
           st s' nd' no_locks {} n \<and> changed_tree C (Suc 0) nd nd' lo hi p key (Some value)"
proof -
  note d = tree_descend [OF t(1,3) j(1) refl j(2) refl refl refl]
  obtain l where l: "nd c = Some (Leaf l)" "leaf_ok C l" using d(8) by auto
  have pc: "p \<noteq> c" by (rule parent_not_child [OF t(2,3) d(2)])
  note k = leaf_okD [OF l(2)]
  define ki where "ki = lower_bound (keys l) (lsize l) key"
  have pl: "page_leaf c s = Inr l" by (rule page_leaf_run [OF s l(1)]) simp
  show ?thesis
  proof (cases "lsize l = length (keys l)")
    case False
    have cn: "c \<notin> ch - {p}" "ch - {p} = {}" using ch(1) by auto
    obtain s1 where s1: "ps_unpin dirty p s = Inr s1"
        "st s1 nd ((no_locks(p := Exclusive, c := Exclusive))(p := Unlocked)) (ch - {p}) n"
      using st_unpin [OF s, of p dirty] ch(2) pc by auto
    have s1': "st s1 nd (no_locks(c := Exclusive)) {} n"
      using s1(2) unfolding unlock_twice [OF pc] cn(2) by simp
    have room: "lsize l < LEAF_N C" using False k(1,3) by simp
    obtain s' l' where r: "put_in_leaf C key value (keys l ! ki) c ki False s1 = Inr (True, s')"
        "st s' (nd(c \<mapsto> Leaf l')) no_locks {} n" "leaf_put C key value l l'"
      using put_in_leaf_run [OF s1' l ki_def _ room, of "keys l ! ki" False "value"] by auto
    have "changed_tree C 0 nd (nd(c \<mapsto> Leaf l')) (lo_of lo (take j (seps pn)))
        (hi_of (drop j (seps pn)) hi) c key (Some value)"
      by (rule changed_leaf_put [OF d(8) l(1) r(3) d(10) d(11)]) (rule t(5), rule t(6))
    then have "changed_tree C (Suc 0) nd (nd(c \<mapsto> Leaf l')) lo hi p key (Some value)"
      using changed_child [OF t(1-3) j(1)] j(2) by simp
    moreover have "traverse_leaf C key value p pn j c dirty True s = Inr (True, s')"
      using pl s1(1) r(1) False k(1,3)
      by (simp add: traverse_leaf_def Let_def ki_def del: bindE_eq_Inr)
    ultimately show ?thesis using r(2) by blast
  next
    case True
    then have full: "lsize l = LEAF_N C" using k(1) by simp
    then have two: "2 \<le> lsize l" using L by simp
    define m where "m = keys l ! ((lsize l - 1) div 2)"
    have "card (held_of (no_locks(p := Exclusive, c := Exclusive))) < n" using n by (simp add: card_insert_if)
    then obtain r s1 where s1: "splitLeafNode C c s = Inr (r, m, s1)" "r \<notin> dom nd"
        "(no_locks(p := Exclusive, c := Exclusive)) r = Unlocked"
        "st s1 (nd(r \<mapsto> Leaf (leaf_right C l), c \<mapsto> Leaf (leaf_left l)))
           (no_locks(p := Exclusive, c := Exclusive, r := Exclusive)) (insert c (insert r ch)) n"
      using splitLeafNode_run [OF s _ l(1) two, of C] by (auto simp: m_def)
    have ne: "r \<noteq> p" "r \<noteq> c" using s1(2) t(3) l(1) by auto
    let ?pn = "insert_pivot j m r pn"
    define nd1 where "nd1 = nd(r \<mapsto> Leaf (leaf_right C l), c \<mapsto> Leaf (leaf_left l), p \<mapsto> Inner ?pn)"
    obtain s2 where s2: "ps_put p (Inner ?pn) s1 = Inr s2"
        "st s2 nd1 (no_locks(p := Exclusive, c := Exclusive, r := Exclusive))
           (insert p (insert c (insert r ch))) n"
      using st_put [OF s1(4), of p "Inner ?pn"] ne pc(1) by (auto simp: nd1_def)
    have lk: "(no_locks(p := Exclusive, c := Exclusive, r := Exclusive))(p := Unlocked) =
        no_locks(c := Exclusive, r := Exclusive)"
      using ne pc(1) by (auto simp: fun_eq_iff)
    have chs: "insert p (insert c (insert r ch)) - {p} = {c, r}" using ch(1) ne pc(1) by auto
    obtain s3 where s3: "ps_unpin True p s2 = Inr s3"
        "st s3 nd1 (no_locks(c := Exclusive, r := Exclusive)) {c, r} n"
      using st_unpin [OF s2(2), of p True] ne pc(1) unfolding lk chs by auto
    have nd1: "nd1 c = Some (Leaf (leaf_left l))" "nd1 r = Some (Leaf (leaf_right C l))"
        "nd1 p = Some (Inner ?pn)"
      using ne pc(1) by (simp_all add: nd1_def)
    have len: "length (take j (seps pn)) = j" using d(3,4) inner_descend(1) [OF d(1) j(1)] inner_okD(5) [OF d(1)]
      by simp
    have sp: "split_tree C 0 nd nd1 (lo_of lo (take j (seps pn))) (hi_of (drop j (seps pn)) hi) c m r"
      unfolding m_def by (rule split_leaf_tree [OF d(8) l(1) two _ nd1(1,2)]) (use ne in simp)
    have frame: "\<forall>x \<in> dom nd. x \<noteq> p \<longrightarrow> x \<notin> set (ids 0 nd c) \<longrightarrow> nd1 x = nd x"
      using s1(2) by (auto simp: nd1_def)
    have dom: "dom nd \<subseteq> dom nd1" by (auto simp: nd1_def)
    note sc = split_child [OF t(1-3) d(2,3,4) t(4) sp s1(2) _ frame dom, unfolded len, OF nd1(3)]
    have ok1: "inner_ok C ?pn" using sc(1) nd1(3) by auto
    note tg = target_after_split [OF d(1) t(4) j(1) ok1]
    define j1 where "j1 = (if key \<le> m then j else Suc j)"
    define tp where "tp = (if key \<le> m then c else r)"
    have j1: "j1 = lower_bound (pivots ?pn) (isize ?pn) key" "tp = children ?pn ! j1"
      using tg j(2) by (simp_all add: j1_def tp_def)
    note d1 = tree_descend [OF sc(1) nd1(3) j1(1) refl j1(2) refl refl refl]
    note hs = leaf_half_index [OF l(2) two m_def ki_def]
    note sl = leaf_split_ok [OF l(2) two m_def]
    define tl where "tl = (if key \<le> m then leaf_left l else leaf_right C l)"
    define ti where "ti = (if key \<le> m then ki else ki - lsize (leaf_left l))"
    have tl: "nd1 tp = Some (Leaf tl)" "leaf_ok C tl" using nd1 sl(1,2) by (simp_all add: tp_def tl_def)
    have tlr: "lsize tl < LEAF_N C"
      using sl(9,10,11) full two by (auto simp: tl_def)
    obtain s4 where s4: "ps_unpin True (if key \<le> m then r else c) s3 = Inr s4"
        "st s4 nd1 (no_locks(tp := Exclusive)) {tp} n"
    proof (cases "key \<le> m")
      case True
      have "(no_locks(c := Exclusive, r := Exclusive))(r := Unlocked) = no_locks(c := Exclusive)"
          "{c, r} - {r} = {c}"
        using ne by (auto simp: fun_eq_iff)
      then show ?thesis using that st_unpin [OF s3(2), of r True] True by (auto simp: tp_def)
    next
      case False
      have "(no_locks(c := Exclusive, r := Exclusive))(c := Unlocked) = no_locks(r := Exclusive)"
          "{c, r} - {c} = {r}"
        using ne by (auto simp: fun_eq_iff)
      then show ?thesis using that st_unpin [OF s3(2), of c True] False ne by (auto simp: tp_def)
    qed
    have ti: "ti = lower_bound (keys tl) (lsize tl) key" "ti < lsize tl \<Longrightarrow> keys l ! ki = keys tl ! ti"
      using hs by (auto simp: ti_def tl_def leaf_left_def)
    obtain s' l' where r': "put_in_leaf C key value (keys l ! ki) tp ti True s4 = Inr (True, s')"
        "st s' (nd1(tp \<mapsto> Leaf l')) no_locks {} n" "leaf_put C key value tl l'"
      using put_in_leaf_run [OF s4(2) tl ti tlr, of True "value"] by auto
    have "changed_tree C 0 nd1 (nd1(tp \<mapsto> Leaf l')) (lo_of lo (take j1 (seps ?pn)))
        (hi_of (drop j1 (seps ?pn)) hi) tp key (Some value)"
      by (rule changed_leaf_put [OF d1(8) tl(1) r'(3) d1(10) d1(11)]) (rule t(5), rule t(6))
    then have "changed_tree C (Suc 0) nd1 (nd1(tp \<mapsto> Leaf l')) lo hi p key (Some value)"
      using changed_child [OF sc(1,2) nd1(3) j1(1)] j1(2) by simp
    then have "changed_tree C (Suc 0) nd (nd1(tp \<mapsto> Leaf l')) lo hi p key (Some value)"
      by (rule changed_after [OF sc(3,4)])
    moreover have "page_leaf c s3 = Inr (leaf_left l)"
      by (rule page_leaf_run [OF s3(2) nd1(1)]) (use ne in simp)
    then have "traverse_leaf C key value p pn j c dirty True s = Inr (True, s')"
      using pl s1(1) s2(1) s3(1) s4(1) r'(1) True
      by (cases "key \<le> m")
        (simp_all add: traverse_leaf_def Let_def ki_def tp_def ti_def del: bindE_eq_Inr)
    ultimately show ?thesis using r'(2) by blast
  qed
qed

text \<open>An inner child in exclusive mode: the next page of the traversal is not full.\<close>

lemma traverse_inner_excl:
  assumes s: "st s nd (no_locks(p := Exclusive, c := Exclusive)) ch n"
    and t: "tree_ok C (Suc (Suc h)) nd lo hi p" "distinct (ids (Suc (Suc h)) nd p)"
      "nd p = Some (Inner pn)" "isize pn < INNER_N C"
    and j: "j = lower_bound (pivots pn) (isize pn) key" "c = children pn ! j"
    and ch: "ch \<subseteq> {p}" "p \<in> ch \<Longrightarrow> dirty" and n: "3 \<le> n" and N: "2 \<le> INNER_N C"
  shows "\<exists>s' nd1 n1 j1 tp split ch' x.
           traverse_inner C key p pn j c dirty True s = Inr (tp, split, s') \<and>
           st s' nd1 (no_locks(tp := Exclusive)) ch' n \<and> ch' \<subseteq> {tp} \<and> (tp \<in> ch' \<longrightarrow> split) \<and>
           tree_ok C (Suc (Suc h)) nd1 lo hi p \<and> distinct (ids (Suc (Suc h)) nd1 p) \<and>
           grows nd (set (ids (Suc (Suc h)) nd p)) nd1 (set (ids (Suc (Suc h)) nd1 p)) \<and>
           kvs (Suc (Suc h)) nd1 p = kvs (Suc (Suc h)) nd p \<and> nd1 p = Some (Inner n1) \<and>
           j1 = lower_bound (pivots n1) (isize n1) key \<and> tp = children n1 ! j1 \<and>
           nd1 tp = Some (Inner x) \<and> isize x < INNER_N C"
proof -
  note d = tree_descend [OF t(1,3) j(1) refl j(2) refl refl refl]
  obtain x where x: "nd c = Some (Inner x)" "inner_ok C x" using d(8) by auto
  note pc = parent_not_child [OF t(2,3) d(2)]
  note k = inner_okD [OF x(2)]
  have pl: "page_inner c s = Inr x" by (rule page_inner_run [OF s x(1)]) simp
  show ?thesis
  proof (cases "isize x = length (pivots x)")
    case False
    have cn: "ch - {p} = {}" using ch(1) by auto
    obtain s1 where s1: "ps_unpin dirty p s = Inr s1"
        "st s1 nd ((no_locks(p := Exclusive, c := Exclusive))(p := Unlocked)) (ch - {p}) n"
      using st_unpin [OF s, of p dirty] ch(2) pc by auto
    have s1': "st s1 nd (no_locks(c := Exclusive)) {} n"
      using s1(2) unfolding unlock_twice [OF pc(1)] cn by simp
    have "traverse_inner C key p pn j c dirty True s = Inr (c, False, s1)"
      using pl s1(1) False k(1,3) by (simp add: traverse_inner_def del: bindE_eq_Inr)
    moreover have "isize x < INNER_N C" using False k(1,3) by simp
    ultimately show ?thesis using s1' t(1-3) j x(1) grows_refl
      by (intro exI [of _ s1] exI [of _ nd] exI [of _ pn] exI [of _ j] exI [of _ c] exI [of _ False]
          exI [of _ "{}"] exI [of _ x]) simp
  next
    case True
    then have full: "isize x = INNER_N C" using k(1) by simp
    then have two: "2 \<le> isize x" using N by simp
    define m where "m = pivots x ! ((isize x - 1) div 2)"
    have "card (held_of (no_locks(p := Exclusive, c := Exclusive))) < n" using n by (simp add: card_insert_if)
    then obtain r s1 where s1: "splitInnerNode C c s = Inr (r, m, s1)" "r \<notin> dom nd"
        "st s1 (nd(r \<mapsto> Inner (inner_right C x), c \<mapsto> Inner (inner_left x)))
           (no_locks(p := Exclusive, c := Exclusive, r := Exclusive)) (insert c (insert r ch)) n"
      using splitInnerNode_run [OF s _ x(1) two, of C] by (auto simp: m_def)
    have ne: "r \<noteq> p" "r \<noteq> c" using s1(2) t(3) x(1) by auto
    let ?pn = "insert_pivot j m r pn"
    define nd1 where "nd1 = nd(r \<mapsto> Inner (inner_right C x), c \<mapsto> Inner (inner_left x), p \<mapsto> Inner ?pn)"
    obtain s2 where s2: "ps_put p (Inner ?pn) s1 = Inr s2"
        "st s2 nd1 (no_locks(p := Exclusive, c := Exclusive, r := Exclusive))
           (insert p (insert c (insert r ch))) n"
      using st_put [OF s1(3), of p "Inner ?pn"] ne pc(1) by (auto simp: nd1_def)
    have lk: "(no_locks(p := Exclusive, c := Exclusive, r := Exclusive))(p := Unlocked) =
        no_locks(c := Exclusive, r := Exclusive)"
      using ne pc(1) by (auto simp: fun_eq_iff)
    have chs: "insert p (insert c (insert r ch)) - {p} = {c, r}" using ch(1) ne pc(1) by auto
    obtain s3 where s3: "ps_unpin True p s2 = Inr s3"
        "st s3 nd1 (no_locks(c := Exclusive, r := Exclusive)) {c, r} n"
      using st_unpin [OF s2(2), of p True] ne pc(1) unfolding lk chs by auto
    have nd1: "nd1 c = Some (Inner (inner_left x))" "nd1 r = Some (Inner (inner_right C x))"
        "nd1 p = Some (Inner ?pn)"
      using ne pc(1) by (simp_all add: nd1_def)
    have len: "length (take j (seps pn)) = j"
      using inner_descend(1) [OF d(1) j(1)] inner_okD(5) [OF d(1)] by simp
    note dc = pc(3)
    have other: "nd1 y = nd y" if "y \<in> set (ids (Suc h) nd c)" "y \<noteq> c" for y
    proof -
      have "y \<noteq> p" using that(1) pc(2) by auto
      moreover have "y \<noteq> r" using wf_dom [OF d(8)] that(1) s1(2) by auto
      ultimately show ?thesis using that(2) by (simp add: nd1_def)
    qed
    have sp: "split_tree C (Suc h) nd nd1 (lo_of lo (take j (seps pn))) (hi_of (drop j (seps pn)) hi) c m r"
      unfolding m_def by (rule split_inner_tree [OF d(8) dc x(1) two s1(2) nd1(1,2) other])
    have frame: "\<forall>y \<in> dom nd. y \<noteq> p \<longrightarrow> y \<notin> set (ids (Suc h) nd c) \<longrightarrow> nd1 y = nd y"
      using s1(2) by (auto simp: nd1_def)
    have dom: "dom nd \<subseteq> dom nd1" by (auto simp: nd1_def)
    note sc = split_child [OF t(1-3) d(2,3,4) t(4) sp s1(2) _ frame dom, unfolded len, OF nd1(3)]
    have ok1: "inner_ok C ?pn" using sc(1) nd1(3) by auto
    note tg = target_after_split [OF d(1) t(4) j(1) ok1]
    define tp where "tp = (if key \<le> m then c else r)"
    obtain s4 where s4: "ps_unpin True (if key \<le> m then r else c) s3 = Inr s4"
        "st s4 nd1 (no_locks(tp := Exclusive)) {tp} n"
    proof (cases "key \<le> m")
      case True
      have "(no_locks(c := Exclusive, r := Exclusive))(r := Unlocked) = no_locks(c := Exclusive)"
          "{c, r} - {r} = {c}"
        using ne by (auto simp: fun_eq_iff)
      then show ?thesis using that st_unpin [OF s3(2), of r True] True by (auto simp: tp_def)
    next
      case False
      have "(no_locks(c := Exclusive, r := Exclusive))(c := Unlocked) = no_locks(r := Exclusive)"
          "{c, r} - {c} = {r}"
        using ne by (auto simp: fun_eq_iff)
      then show ?thesis using that st_unpin [OF s3(2), of c True] False ne by (auto simp: tp_def)
    qed
    note si = inner_split_ok [OF x(2) two m_def]
    have "traverse_inner C key p pn j c dirty True s = Inr (tp, True, s4)"
      using pl s1(1) s2(1) s3(1) s4(1) True
      by (cases "key \<le> m") (simp_all add: traverse_inner_def tp_def del: bindE_eq_Inr)
    moreover obtain y where "nd1 tp = Some (Inner y)" "isize y < INNER_N C"
      using that nd1 si(8,9) by (cases "key \<le> m") (simp_all add: tp_def)
    moreover have "tp = children ?pn ! (if key \<le> m then j else Suc j)"
      using tg(2) j(2) by (simp add: tp_def)
    ultimately show ?thesis using s4(2) sc nd1(3) tg(1)
      by (intro exI [of _ s4] exI [of _ nd1] exI [of _ ?pn]
          exI [of _ "if key \<le> m then j else Suc j"] exI [of _ tp] exI [of _ True]
          exI [of _ "{tp}"] exI [of _ y]) (simp only: refl simp_thms subset_refl)
  qed
qed

text \<open>The traversal in exclusive mode, by induction on the height.\<close>

lemma insertTraversal_excl:
  assumes "st s nd (no_locks(p := Exclusive)) ch n"
    "tree_ok C (Suc h) nd lo hi p" "distinct (ids (Suc h) nd p)" "nd p = Some (Inner pn)"
    "isize pn < INNER_N C" "gt_lo lo key" "le_hi hi key"
    "ch \<subseteq> {p}" "p \<in> ch \<Longrightarrow> dirty" "3 \<le> n" "2 \<le> LEAF_N C" "2 \<le> INNER_N C" "h < fuel"
  shows "\<exists>s' nd'. insertTraversal C fuel key value p dirty True s = Inr (True, s') \<and>
           st s' nd' no_locks {} n \<and> changed_tree C (Suc h) nd nd' lo hi p key (Some value)"
  using assms
proof (induction h arbitrary: fuel s nd p ch lo hi pn dirty)
  case (0 fuel s nd p ch lo hi pn dirty)
  obtain f where fuel: "fuel = Suc f" using 0(13) by (cases fuel) auto
  define j where "j = lower_bound (pivots pn) (isize pn) key"
  define c where "c = children pn ! j"
  note d = tree_descend [OF 0(2,4) j_def refl c_def refl refl refl]
  note pc = parent_not_child [OF 0(3,4) d(2)]
  obtain l where l: "nd c = Some (Leaf l)" using d(8) by auto
  have pi: "page_inner p s = Inr pn" by (rule page_inner_run [OF 0(1,4)]) simp
  have len: "length (pivots pn) = INNER_N C" by (rule inner_okD(1) [OF d(1)])
  have room: "card (held_of (no_locks(p := Exclusive))) < n" using 0(10) by simp
  have lc: "(no_locks(p := Exclusive)) c = Unlocked" using pc(1) by simp
  obtain s1 where s1: "ps_pin False (\<lambda>n. True) c s = Inr s1"
      "st s1 nd (no_locks(p := Exclusive, c := Exclusive)) ch n"
    using st_pin [OF 0(1) l lc room, of "\<lambda>n. True"] by auto
  have g: "ps_get c s1 = Inr (Leaf l)" by (rule st_get [OF s1(2) l]) simp
  obtain s' nd' where r: "traverse_leaf C key value p pn j c dirty True s1 = Inr (True, s')"
      "st s' nd' no_locks {} n" "changed_tree C (Suc 0) nd nd' lo hi p key (Some value)"
    using traverse_leaf_excl [OF s1(2) 0(2-7) j_def c_def 0(8,9,10,11)] by blast
  have "insertTraversal C fuel key value p dirty True s = Inr (True, s')"
    using pi s1(1) g r(1) 0(5) len
    by (simp add: fuel Let_def j_def [symmetric] c_def [symmetric] del: bindE_eq_Inr)
  then show ?case using r(2,3) by blast
next
  case (Suc h fuel s nd p ch lo hi pn dirty)
  obtain f where fuel: "fuel = Suc f" "h < f" using Suc.prems(13) by (cases fuel) auto
  define j where "j = lower_bound (pivots pn) (isize pn) key"
  define c where "c = children pn ! j"
  note d = tree_descend [OF Suc.prems(2,4) j_def refl c_def refl refl refl]
  note pc = parent_not_child [OF Suc.prems(3,4) d(2)]
  obtain x where x: "nd c = Some (Inner x)" using d(8) by auto
  have pi: "page_inner p s = Inr pn" by (rule page_inner_run [OF Suc.prems(1,4)]) simp
  have len: "length (pivots pn) = INNER_N C" by (rule inner_okD(1) [OF d(1)])
  have room: "card (held_of (no_locks(p := Exclusive))) < n" using Suc.prems(10) by simp
  have lc: "(no_locks(p := Exclusive)) c = Unlocked" using pc(1) by simp
  obtain s1 where s1: "ps_pin False (\<lambda>n. True) c s = Inr s1"
      "st s1 nd (no_locks(p := Exclusive, c := Exclusive)) ch n"
    using st_pin [OF Suc.prems(1) x lc room, of "\<lambda>n. True"] by auto
  have g: "ps_get c s1 = Inr (Inner x)" by (rule st_get [OF s1(2) x]) simp
  obtain s2 nd1 n1 j1 tp split ch' y where r: "traverse_inner C key p pn j c dirty True s1 = Inr (tp, split, s2)"
      "st s2 nd1 (no_locks(tp := Exclusive)) ch' n" "ch' \<subseteq> {tp}" "tp \<in> ch' \<longrightarrow> split"
      "tree_ok C (Suc (Suc h)) nd1 lo hi p" "distinct (ids (Suc (Suc h)) nd1 p)"
      "grows nd (set (ids (Suc (Suc h)) nd p)) nd1 (set (ids (Suc (Suc h)) nd1 p))"
      "kvs (Suc (Suc h)) nd1 p = kvs (Suc (Suc h)) nd p" "nd1 p = Some (Inner n1)"
      "j1 = lower_bound (pivots n1) (isize n1) key" "tp = children n1 ! j1"
      "nd1 tp = Some (Inner y)" "isize y < INNER_N C"
    using traverse_inner_excl [OF s1(2) Suc.prems(2-5) j_def c_def Suc.prems(8,9,10,12)] by blast
  note d1 = tree_descend [OF r(5,9,10) refl r(11) refl refl refl]
  note pc1 = parent_not_child [OF r(6,9) d1(2)]
  have b: "gt_lo (lo_of lo (take j1 (seps n1))) key" "le_hi (hi_of (drop j1 (seps n1)) hi) key"
    using d1(10,11) Suc.prems(6,7) by blast+
  obtain s' nd' where e: "insertTraversal C f key value tp split True s2 = Inr (True, s')"
      "st s' nd' no_locks {} n"
      "changed_tree C (Suc h) nd1 nd' (lo_of lo (take j1 (seps n1))) (hi_of (drop j1 (seps n1)) hi)
         tp key (Some value)"
    using Suc.IH [OF r(2) d1(8) pc1(3) r(12,13) b r(3) _ Suc.prems(10-12) fuel(2)] r(4) by blast
  have "changed_tree C (Suc (Suc h)) nd1 nd' lo hi p key (Some value)"
    by (rule changed_child [OF r(5,6,9,10)]) (use e(3) r(11) in simp)
  then have "changed_tree C (Suc (Suc h)) nd nd' lo hi p key (Some value)"
    by (rule changed_after [OF r(7,8)])
  moreover have "insertTraversal C fuel key value p dirty True s = Inr (True, s')"
    using pi s1(1) g r(1) e(1) Suc.prems(5) len
    by (simp add: fuel(1) Let_def j_def [symmetric] c_def [symmetric] del: bindE_eq_Inr)
  ultimately show ?case using e(2) by blast
qed

text \<open>The traversal in shared mode either inserts or has changed nothing.\<close>

definition tried_insert ::
  "('k::linorder, 'v) bconfig \<Rightarrow> nat \<Rightarrow> (nat \<rightharpoonup> ('k, 'v) bnode) \<Rightarrow> 'k option \<Rightarrow> 'k option \<Rightarrow> nat \<Rightarrow>
   'k \<Rightarrow> 'v \<Rightarrow> nat \<Rightarrow> bool \<Rightarrow> ('k, 'v) bnode pstore \<Rightarrow> bool" where
  "tried_insert C h nd lo hi p key value n success s' \<longleftrightarrow>
     (if success
      then \<exists>nd'. st s' nd' no_locks {} n \<and> changed_tree C h nd nd' lo hi p key (Some value)
      else st s' nd no_locks {} n)"

lemma traverse_leaf_shared:
  assumes s: "st s nd (no_locks(c := Exclusive)) {} n"
    and t: "tree_ok C (Suc 0) nd lo hi p" "distinct (ids (Suc 0) nd p)" "nd p = Some (Inner pn)"
      "gt_lo lo key" "le_hi hi key"
    and j: "j = lower_bound (pivots pn) (isize pn) key" "c = children pn ! j"
  shows "\<exists>b s'. traverse_leaf C key value p pn j c dirty False s = Inr (b, s') \<and>
           tried_insert C (Suc 0) nd lo hi p key value n b s'"
proof -
  note d = tree_descend [OF t(1,3) j(1) refl j(2) refl refl refl]
  obtain l where l: "nd c = Some (Leaf l)" "leaf_ok C l" using d(8) by auto
  note k = leaf_okD [OF l(2)]
  have pl: "page_leaf c s = Inr l" by (rule page_leaf_run [OF s l(1)]) simp
  show ?thesis
  proof (cases "lsize l = length (keys l)")
    case True
    obtain s1 where s1: "ps_unpin False c s = Inr s1" "st s1 nd no_locks {} n"
      using st_unpin_last [OF s, of False] by auto
    have "traverse_leaf C key value p pn j c dirty False s = Inr (False, s1)"
      using pl s1(1) True by (simp add: traverse_leaf_def Let_def del: bindE_eq_Inr)
    then show ?thesis using s1(2) by (auto simp: tried_insert_def)
  next
    case False
    define ki where "ki = lower_bound (keys l) (lsize l) key"
    have room: "lsize l < LEAF_N C" using False k(1,3) by simp
    obtain s' l' where r: "put_in_leaf C key value (keys l ! ki) c ki False s = Inr (True, s')"
        "st s' (nd(c \<mapsto> Leaf l')) no_locks {} n" "leaf_put C key value l l'"
      using put_in_leaf_run [OF s l ki_def _ room, of "keys l ! ki" False "value"] by auto
    have "changed_tree C 0 nd (nd(c \<mapsto> Leaf l')) (lo_of lo (take j (seps pn)))
        (hi_of (drop j (seps pn)) hi) c key (Some value)"
      by (rule changed_leaf_put [OF d(8) l(1) r(3) d(10) d(11)]) (rule t(4), rule t(5))
    then have "changed_tree C (Suc 0) nd (nd(c \<mapsto> Leaf l')) lo hi p key (Some value)"
      using changed_child [OF t(1-3) j(1)] j(2) by simp
    moreover have "traverse_leaf C key value p pn j c dirty False s = Inr (True, s')"
      using pl r(1) False k(1,3)
      by (simp add: traverse_leaf_def Let_def ki_def del: bindE_eq_Inr)
    ultimately show ?thesis using r(2) by (auto simp: tried_insert_def)
  qed
qed

lemma insertTraversal_shared:
  assumes "st s nd (no_locks(p := Shared 1)) {} n"
    "tree_ok C (Suc h) nd lo hi p" "distinct (ids (Suc h) nd p)" "nd p = Some (Inner pn)"
    "gt_lo lo key" "le_hi hi key" "3 \<le> n" "h < fuel"
  shows "\<exists>b s'. insertTraversal C fuel key value p dirty False s = Inr (b, s') \<and>
           tried_insert C (Suc h) nd lo hi p key value n b s'"
  using assms
proof (induction h arbitrary: fuel s p lo hi pn dirty)
  case (0 fuel s p lo hi pn dirty)
  obtain f where fuel: "fuel = Suc f" using 0(8) by (cases fuel) auto
  define j where "j = lower_bound (pivots pn) (isize pn) key"
  define c where "c = children pn ! j"
  note d = tree_descend [OF 0(2,4) j_def refl c_def refl refl refl]
  note pc = parent_not_child [OF 0(3,4) d(2)]
  obtain l where l: "nd c = Some (Leaf l)" using d(8) by auto
  have pi: "page_inner p s = Inr pn" by (rule page_inner_run [OF 0(1,4)]) simp
  have room: "card (held_of (no_locks(p := Shared 1))) < n" using 0(7) by simp
  have lc: "(no_locks(p := Shared 1)) c = Unlocked" using pc(1) by simp
  obtain s1 where s1: "ps_pin False isLeaf c s = Inr s1"
      "st s1 nd (no_locks(p := Shared 1, c := Exclusive)) {} n"
    using st_pin [OF 0(1) l lc room, of isLeaf] by auto
  obtain s2 where s2: "ps_unpin False p s1 = Inr s2"
      "st s2 nd ((no_locks(p := Shared 1, c := Exclusive))(p := Unlocked)) {} n"
    using st_unpin [OF s1(2), of p False] pc(1) by auto
  have s2': "st s2 nd (no_locks(c := Exclusive)) {} n" using s2(2) unfolding unlock_twice [OF pc(1)] by simp
  have g: "ps_get c s2 = Inr (Leaf l)" by (rule st_get [OF s2' l]) simp
  obtain b s' where r: "traverse_leaf C key value p pn j c dirty False s2 = Inr (b, s')"
      "tried_insert C (Suc 0) nd lo hi p key value n b s'"
    using traverse_leaf_shared [OF s2' 0(2-6) j_def c_def] by blast
  have "insertTraversal C fuel key value p dirty False s = Inr (b, s')"
    using pi s1(1) s2(1) g r(1)
    by (simp add: fuel Let_def j_def [symmetric] c_def [symmetric] del: bindE_eq_Inr)
  then show ?case using r(2) by blast
next
  case (Suc h fuel s p lo hi pn dirty)
  obtain f where fuel: "fuel = Suc f" "h < f" using Suc.prems(8) by (cases fuel) auto
  define j where "j = lower_bound (pivots pn) (isize pn) key"
  define c where "c = children pn ! j"
  note d = tree_descend [OF Suc.prems(2,4) j_def refl c_def refl refl refl]
  note pc = parent_not_child [OF Suc.prems(3,4) d(2)]
  obtain x where x: "nd c = Some (Inner x)" "inner_ok C x" using d(8) by auto
  have pi: "page_inner p s = Inr pn" by (rule page_inner_run [OF Suc.prems(1,4)]) simp
  have room: "card (held_of (no_locks(p := Shared 1))) < n" using Suc.prems(7) by simp
  have lc: "(no_locks(p := Shared 1)) c = Unlocked" using pc(1) by simp
  obtain s1 where s1: "ps_pin False isLeaf c s = Inr s1"
      "st s1 nd (no_locks(p := Shared 1, c := Shared 1)) {} n"
    using st_pin [OF Suc.prems(1) x(1) lc room, of isLeaf] by auto
  obtain s2 where s2: "ps_unpin False p s1 = Inr s2"
      "st s2 nd ((no_locks(p := Shared 1, c := Shared 1))(p := Unlocked)) {} n"
    using st_unpin [OF s1(2), of p False] pc(1) by auto
  have s2': "st s2 nd (no_locks(c := Shared 1)) {} n" using s2(2) unfolding unlock_twice [OF pc(1)] by simp
  have g: "ps_get c s2 = Inr (Inner x)" by (rule st_get [OF s2' x(1)]) simp
  have pix: "page_inner c s2 = Inr x" by (rule page_inner_run [OF s2' x(1)]) simp
  have ti: "traverse_inner C key p pn j c dirty False s2 = Inr (c, False, s2)"
    using pix inner_okD(1,3) [OF x(2)] by (simp add: traverse_inner_def)
  have b: "gt_lo (lo_of lo (take j (seps pn))) key" "le_hi (hi_of (drop j (seps pn)) hi) key"
    using d(10,11) Suc.prems(5,6) by blast+
  obtain b s' where e: "insertTraversal C f key value c False False s2 = Inr (b, s')"
      "tried_insert C (Suc h) nd (lo_of lo (take j (seps pn))) (hi_of (drop j (seps pn)) hi) c
         key value n b s'"
    using Suc.IH [OF s2' d(8) pc(3) x(1) b Suc.prems(7) fuel(2)] by blast
  have "tried_insert C (Suc (Suc h)) nd lo hi p key value n b s'"
    using e(2) changed_child [OF Suc.prems(2,3,4) j_def] unfolding tried_insert_def c_def
    by (auto split: if_splits)
  moreover have "insertTraversal C fuel key value p dirty False s = Inr (b, s')"
    using pi s1(1) s2(1) g ti e(1)
    by (simp add: fuel(1) Let_def j_def [symmetric] c_def [symmetric] del: bindE_eq_Inr)
  ultimately show ?case by blast
qed

end
