(* ===== verification/BTreeRoot.thy ===== *)
theory BTreeRoot
  imports BTreeOps
begin

text \<open>
  Inserting at the root of the B+-tree: a full root is split, and a new root with the two
  halves as its children takes its page, so that the tree grows by one level at the top.
\<close>

section \<open>A new root\<close>

definition root_node :: "('k, 'v) bconfig \<Rightarrow> nat \<Rightarrow> nat \<Rightarrow> 'k \<Rightarrow> 'k inner_node" where
  "root_node C q r m =
     \<lparr>pivots = (pivots (new_inner C))[0 := m], children = (children (new_inner C))[0 := q, 1 := r],
      isize = 1\<rparr>"

lemma root_node_ok:
  assumes "2 \<le> INNER_N C"
  shows "inner_ok C (root_node C q r m)" "seps (root_node C q r m) = [m]"
    "kids (root_node C q r m) = [q, r]"
    "lower_bound (pivots (root_node C q r m)) (isize (root_node C q r m)) key = (if key \<le> m then 0 else 1)"
    "children (root_node C q r m) ! (if key \<le> m then 0 else 1) = (if key \<le> m then q else r)"
proof -
  let ?n = "root_node C q r m"
  obtain N where N: "INNER_N C = Suc N" using assms by (cases "INNER_N C") auto
  show s: "seps ?n = [m]" by (simp add: root_node_def seps_def new_inner_def N)
  show k: "kids ?n = [q, r]" by (simp add: root_node_def kids_def new_inner_def N)
  show ok: "inner_ok C ?n" by (simp add: inner_ok_def s) (simp add: root_node_def new_inner_def N)
  have "lower_bound (pivots ?n) (isize ?n) key = length (takeWhile (\<lambda>x. x < key) (seps ?n))"
    unfolding seps_def by (rule lower_bound_takeWhile)
      (use inner_okD [OF ok] in \<open>simp_all add: seps_def [symmetric] strict_sorted_imp_sorted\<close>)
  then show "lower_bound (pivots ?n) (isize ?n) key = (if key \<le> m then 0 else 1)"
    by (cases "key \<le> m") (simp_all add: s not_le not_less)
  show "children ?n ! (if key \<le> m then 0 else 1) = (if key \<le> m then q else r)"
    by (simp add: root_node_def new_inner_def N)
qed

lemma grow_root_run:
  assumes "st s nd lk ch n" "lk p = Exclusive" "nd p = Some x" "card (held_of lk) < n"
  shows "\<exists>q s'. grow_root C p r m s = Inr (q, s') \<and> q \<notin> dom nd \<and> q \<noteq> p \<and>
           st s' (nd(q \<mapsto> x, p \<mapsto> Inner (root_node C q r m))) (lk(q := Exclusive, p := Unlocked))
             (insert q ch - {p}) n"
proof -
  obtain q s1 y where q: "pin_new s = Inr (q, s1)" "q \<notin> dom nd" "lk q = Unlocked"
      "st s1 (nd(q \<mapsto> y)) (lk(q := Exclusive)) (insert q ch) n"
    using pin_new_run [OF assms(1,4)] by blast
  have qp: "q \<noteq> p" using q(3) assms(2) by auto
  obtain s2 where s2: "initializeNode C q False s1 = Inr s2"
      "st s2 (nd(q \<mapsto> Inner (new_inner C))) (lk(q := Exclusive)) (insert q ch) n"
    using st_put [OF q(4), of q "Inner (new_inner C)"] by (auto simp: initializeNode_def new_bnode_def)
  have g: "page_inner q s2 = Inr (new_inner C)" by (rule page_inner_run [OF s2(2)]) simp_all
  have o: "ps_get p s2 = Inr x" by (rule st_get [OF s2(2)]) (use qp assms(2,3) in auto)
  obtain s3 where s3: "ps_put q x s2 = Inr s3"
      "st s3 (nd(q \<mapsto> x)) (lk(q := Exclusive)) (insert q ch) n"
    using st_put [OF s2(2), of q x] by auto
  obtain s4 where s4: "ps_put p (Inner (root_node C q r m)) s3 = Inr s4"
      "st s4 (nd(q \<mapsto> x, p \<mapsto> Inner (root_node C q r m))) (lk(q := Exclusive)) (insert p (insert q ch)) n"
    using st_put [OF s3(2), of p] qp assms(2) by auto
  obtain s5 where s5: "ps_unpin True p s4 = Inr s5"
      "st s5 (nd(q \<mapsto> x, p \<mapsto> Inner (root_node C q r m))) (lk(q := Exclusive, p := Unlocked))
         (insert p (insert q ch) - {p}) n"
    using st_unpin [OF s4(2), of p True] qp assms(2) by auto
  have "grow_root C p r m s = Inr (q, s5)"
    using q(1) s2(1) g o s3(1) s4(1) s5(1)
    by (simp add: grow_root_def Let_def root_node_def node_eta del: bindE_eq_Inr One_nat_def)
  moreover have "insert p (insert q ch) - {p} = insert q ch - {p}" by auto
  ultimately show ?thesis using q(2) qp s5(2) by auto
qed

text \<open>A tree whose root node moves to a new page.\<close>

lemma relocate:
  assumes "tree_ok C h nd lo hi p" "distinct (ids h nd p)" "nd' q = nd p"
    "\<And>j. j \<in> set (ids h nd p) \<Longrightarrow> j \<noteq> p \<Longrightarrow> nd' j = nd j"
  shows "tree_ok C h nd' lo hi q" "kvs h nd' q = kvs h nd p" "ids h nd' q = q # tl (ids h nd p)"
proof -
  have "tree_ok C h nd' lo hi q \<and> kvs h nd' q = kvs h nd p \<and> ids h nd' q = q # tl (ids h nd p)"
  proof (cases h)
    case 0
    then show ?thesis using assms(1,3) by auto
  next
    case (Suc k)
    obtain n where n: "nd p = Some (Inner n)" "inner_ok C n"
        "\<forall>x \<in> set (seps n). gt_lo lo x \<and> lt_hi hi x"
        "between (tree_ok C k nd) lo (seps n) (kids n) hi"
      using assms(1) Suc by auto
    have I: "ids h nd p = p # concat (map (ids k nd) (kids n))" using n(1) Suc by simp
    have same: "ids k nd' x = ids k nd x" "kvs k nd' x = kvs k nd x"
        "tree_ok C k nd a z x \<Longrightarrow> tree_ok C k nd' a z x" if x: "x \<in> set (kids n)" for x a z
    proof -
      have "nd' j = nd j" if "j \<in> set (ids k nd x)" for j
        by (rule assms(4)) (use that x assms(2) in \<open>auto simp: I\<close>)
      then show "ids k nd' x = ids k nd x" "kvs k nd' x = kvs k nd x"
        "tree_ok C k nd a z x \<Longrightarrow> tree_ok C k nd' a z x"
        using tree_cong [of k nd x nd'] by blast+
    qed
    have b: "between (tree_ok C k nd') lo (seps n) (kids n) hi"
      by (rule between_mono [OF _ n(4)]) (rule same(3))
    have "map (ids k nd') (kids n) = map (ids k nd) (kids n)"
        "map (kvs k nd') (kids n) = map (kvs k nd) (kids n)"
      using same(1,2) by simp_all
    then show ?thesis using n b assms(3) I Suc by (simp del: map_eq_conv)
  qed
  then show "tree_ok C h nd' lo hi q" "kvs h nd' q = kvs h nd p" "ids h nd' q = q # tl (ids h nd p)"
    by blast+
qed

lemma ids_Cons: "ids h nd p = p # tl (ids h nd p)"
  by (cases h) auto

text \<open>The tree after a split of its root and \<open>grow_root\<close>.\<close>

lemma grown_tree:
  assumes sp: "split_tree C h nd nd1 None None p m r" and r: "r \<notin> dom nd" and p: "p \<in> dom nd"
    and q: "q \<notin> dom nd1" and N: "2 \<le> INNER_N C" and dom: "dom nd \<subseteq> dom nd1"
    and frame: "\<forall>j \<in> dom nd. j \<notin> set (ids h nd p) \<longrightarrow> nd1 j = nd j"
    and x: "nd1 p = Some x"
    and nd2: "nd2 = nd1(q \<mapsto> x, p \<mapsto> Inner (root_node C q r m))"
  shows "tree_ok C (Suc h) nd2 None None p" "distinct (ids (Suc h) nd2 p)"
    "kvs (Suc h) nd2 p = kvs h nd p"
    "grows nd (set (ids h nd p)) nd2 (set (ids (Suc h) nd2 p))"
proof -
  note s = sp [unfolded split_tree_def]
  have qp: "q \<noteq> p" using q x by auto
  have dl: "set (ids h nd1 p) \<subseteq> dom nd1" "set (ids h nd1 r) \<subseteq> dom nd1"
    using s wf_dom by blast+
  have d: "distinct (ids h nd1 p)" "distinct (ids h nd1 r)"
      "set (ids h nd1 p) \<inter> set (ids h nd1 r) = {}"
    using s by auto
  have pr: "p \<notin> set (ids h nd1 r)" using d(3) in_ids [of p h nd1] by blast
  have left: "nd2 j = nd1 j" if "j \<in> set (ids h nd1 p)" "j \<noteq> p" for j
    using that dl(1) q by (auto simp: nd2)
  have q2: "nd2 q = nd1 p" using x qp by (simp add: nd2)
  note R = relocate [of C h nd1 None "Some m" p, OF _ d(1) q2 left]
  have rc: "nd2 j = nd1 j" if "j \<in> set (ids h nd1 r)" for j
    using that dl(2) q pr by (auto simp: nd2)
  have rt: "ids h nd2 r = ids h nd1 r" "kvs h nd2 r = kvs h nd1 r" "tree_ok C h nd2 (Some m) None r"
    using tree_cong [of h nd1 r nd2, OF rc] s by blast+
  have lt: "tree_ok C h nd2 None (Some m) q" "kvs h nd2 q = kvs h nd1 p"
      "ids h nd2 q = q # tl (ids h nd1 p)"
    using R s by blast+
  have root: "nd2 p = Some (Inner (root_node C q r m))" using qp by (simp add: nd2)
  note rn = root_node_ok [OF N, of q r m]
  show "tree_ok C (Suc h) nd2 None None p" using root rn lt(1) rt(3) by simp
  show "kvs (Suc h) nd2 p = kvs h nd p" using root rn(3) lt(2) rt(2) s by simp
  have I: "ids (Suc h) nd2 p = p # (q # tl (ids h nd1 p)) @ ids h nd1 r"
    using root rn(3) lt(3) rt(1) by simp
  have P: "ids h nd1 p = p # tl (ids h nd1 p)" by (rule ids_Cons)
  have pt: "p \<notin> set (tl (ids h nd1 p))" "distinct (tl (ids h nd1 p))"
    using d(1) P by (metis distinct.simps(2))+
  have tl: "set (tl (ids h nd1 p)) \<subseteq> set (ids h nd1 p)" using P by (metis set_subset_Cons)
  have "q \<notin> set (tl (ids h nd1 p))" "q \<notin> set (ids h nd1 r)" using q dl tl by blast+
  then show "distinct (ids (Suc h) nd2 p)" unfolding I using pt d tl pr qp by auto
  have "set (ids (Suc h) nd2 p) = insert q (set (ids h nd1 p) \<union> set (ids h nd1 r))"
    unfolding I using P by (metis (no_types, opaque_lifting) Un_insert_left insert_commute list.simps(15) set_append append_Cons)
  also have "\<dots> = insert q (insert r (set (ids h nd p)))" using s by simp
  finally have S: "set (ids (Suc h) nd2 p) = insert q (insert r (set (ids h nd p)))" .
  have qn: "q \<notin> dom nd" using q dom by blast
  show "grows nd (set (ids h nd p)) nd2 (set (ids (Suc h) nd2 p))"
    unfolding grows_def S
  proof (intro conjI ballI)
    fix j assume j: "j \<in> dom nd - set (ids h nd p)"
    then have "j \<noteq> p" "j \<noteq> q" using in_ids [of p h nd] qn by blast+
    then show "nd2 j = nd j" using frame j by (simp add: nd2)
  qed (use r qn dom in \<open>auto simp: nd2\<close>)
qed

section \<open>Inserting into a root that is a leaf\<close>

definition tree_changed ::
  "('k::linorder, 'v) bconfig \<Rightarrow> nat \<Rightarrow> (nat \<rightharpoonup> ('k, 'v) bnode) \<Rightarrow> nat \<Rightarrow> (nat \<rightharpoonup> ('k, 'v) bnode) \<Rightarrow>
   nat \<Rightarrow> 'k \<Rightarrow> 'v option \<Rightarrow> bool" where
  "tree_changed C h nd h' nd' p key x \<longleftrightarrow>
     tree_ok C h' nd' None None p \<and> distinct (ids h' nd' p) \<and>
     map_of (kvs h' nd' p) = (map_of (kvs h nd p))(key := x)"

lemma tree_changedI:
  assumes "changed_tree C h' nd1 nd' None None p key x" "kvs h' nd1 p = kvs h nd p"
  shows "tree_changed C h nd h' nd' p key x"
  using assms unfolding tree_changed_def changed_tree_def by simp

lemma put_in_root_leaf_run:
  assumes s: "st s nd (no_locks(t := Exclusive)) ch n" "nd t = Some (Leaf l)" "leaf_ok C l"
    and ki: "ki = lower_bound (keys l) (lsize l) key"
    and room: "lsize l < LEAF_N C" and ch: "ch \<subseteq> {t}"
  shows "\<exists>s' l'. put_in_root_leaf C key value t ki s = Inr s' \<and>
           st s' (nd(t \<mapsto> Leaf l')) no_locks {} n \<and> leaf_put C key value l l'"
proof -
  have pl: "page_leaf t s = Inr l" by (rule page_leaf_run [OF s(1,2)]) simp
  note k = leaf_okD [OF s(3)]
  have put: "\<exists>s' s1. ps_put t (Leaf l') s = Inr s1 \<and> ps_unpin True t s1 = Inr s' \<and>
      st s' (nd(t \<mapsto> Leaf l')) no_locks {} n" for l'
  proof -
    obtain s1 where s1: "ps_put t (Leaf l') s = Inr s1"
        "st s1 (nd(t \<mapsto> Leaf l')) (no_locks(t := Exclusive)) (insert t ch) n"
      using st_put [OF s(1), of t "Leaf l'"] by auto
    then show ?thesis using st_unpin_last [OF s1(2), of True] ch by auto
  qed
  show ?thesis
  proof (cases "ki < lsize l \<and> keys l ! ki = key")
    case True
    let ?l = "l\<lparr>vals := (vals l)[ki := value]\<rparr>"
    have "leaf_put C key value l ?l"
      using leaf_overwrite [OF s(3), of ki key "value"] leaf_found(2) [OF s(3) ki] True
      by (auto simp: leaf_put_def)
    then show ?thesis using put [of ?l] pl True by (auto simp: put_in_root_leaf_def)
  next
    case False
    then have nf: "key \<notin> set (leaf_keys l)" using leaf_found(2) [OF s(3) ki] by simp
    let ?l = "leaf_insert ki key value l"
    have "leaf_put C key value l ?l"
      using leaf_insert_ok [OF s(3) ki room nf] by (simp add: leaf_put_def)
    then show ?thesis using put [of ?l] pl False room k(1) by (auto simp: put_in_root_leaf_def)
  qed
qed

text \<open>Which half of a split leaf takes the key, and at which position.\<close>

definition half_leaf :: "('k::linorder, 'v) bconfig \<Rightarrow> 'k \<Rightarrow> 'k \<Rightarrow> ('k, 'v) leaf_node \<Rightarrow> ('k, 'v) leaf_node" where
  "half_leaf C key m l = (if key \<le> m then leaf_left l else leaf_right C l)"

lemma half_leaf_ok:
  assumes "leaf_ok C l" "2 \<le> lsize l" "m = keys l ! ((lsize l - 1) div 2)"
    "ki = lower_bound (keys l) (lsize l) key"
  shows "leaf_ok C (half_leaf C key m l)" "lsize (half_leaf C key m l) < LEAF_N C"
    "(if key \<le> m then ki else ki - lsize (leaf_left l)) =
       lower_bound (keys (half_leaf C key m l)) (lsize (half_leaf C key m l)) key"
proof -
  note sl = leaf_split_ok [OF assms(1-3)]
  show "leaf_ok C (half_leaf C key m l)" using sl(1,2) by (simp add: half_leaf_def)
  show "lsize (half_leaf C key m l) < LEAF_N C"
    using sl(9-11) leaf_okD(3) [OF assms(1)] assms(2) by (auto simp: half_leaf_def)
  show "(if key \<le> m then ki else ki - lsize (leaf_left l)) =
       lower_bound (keys (half_leaf C key m l)) (lsize (half_leaf C key m l)) key"
    using leaf_half_index(1,2) [OF assms] by (simp add: half_leaf_def)
qed

lemma unpin_other_half:
  assumes "st s nd (no_locks(a := Exclusive, b := Exclusive)) {a, b} n" "a \<noteq> b"
  shows "\<exists>s'. ps_unpin True b s = Inr s' \<and> st s' nd (no_locks(a := Exclusive)) {a} n"
    "\<exists>s'. ps_unpin True a s = Inr s' \<and> st s' nd (no_locks(b := Exclusive)) {b} n"
proof -
  have "(no_locks(a := Exclusive, b := Exclusive))(b := Unlocked) = no_locks(a := Exclusive)"
      "(no_locks(a := Exclusive, b := Exclusive))(a := Unlocked) = no_locks(b := Exclusive)"
      "{a, b} - {b} = {a}" "{a, b} - {a} = {b}"
    using assms(2) by (auto simp: fun_eq_iff)
  then show "\<exists>s'. ps_unpin True b s = Inr s' \<and> st s' nd (no_locks(a := Exclusive)) {a} n"
    "\<exists>s'. ps_unpin True a s = Inr s' \<and> st s' nd (no_locks(b := Exclusive)) {b} n"
    using st_unpin [OF assms(1), of b True] st_unpin [OF assms(1), of a True] by auto
qed

text \<open>The locks and the modified pages after \<open>grow_root\<close>.\<close>

lemma grown_locks:
  assumes "q \<noteq> p" "r \<noteq> p" "ch \<subseteq> {p, r}" "r \<in> ch"
  shows "(no_locks(p := Exclusive, r := Exclusive))(q := Exclusive, p := Unlocked) =
      no_locks(q := Exclusive, r := Exclusive)"
    "insert q ch - {p} = {q, r}"
  using assms by (auto simp: fun_eq_iff)

text \<open>A change in the half that takes the key is a change of the new tree.\<close>

lemma changed_half:
  assumes "tree_ok C (Suc h) nd None None p" "distinct (ids (Suc h) nd p)"
    "nd p = Some (Inner (root_node C q r m))" "2 \<le> INNER_N C" "c = (if key \<le> m then q else r)"
  shows "\<exists>lo hi. tree_ok C h nd lo hi c \<and> gt_lo lo key \<and> le_hi hi key \<and> distinct (ids h nd c) \<and>
           (\<forall>nd' x. changed_tree C h nd nd' lo hi c key x \<longrightarrow> changed_tree C (Suc h) nd nd' None None p key x)"
proof -
  let ?n = "root_node C q r m"
  define j where "j = (if key \<le> m then 0 else 1 :: nat)"
  note rn = root_node_ok [OF assms(4), of q r m]
  have j: "j = lower_bound (pivots ?n) (isize ?n) key" "c = children ?n ! j"
    using rn(4,5) [of key] by (simp_all only: j_def assms(5))
  note d = tree_descend [OF assms(1,3) j(1) refl j(2) refl refl refl]
  have dc: "distinct (ids h nd c)" using assms(2,3,5) rn(3) by auto
  have b: "gt_lo (lo_of None (take j (seps ?n))) key" "le_hi (hi_of (drop j (seps ?n)) None) key"
    using d(10,11) by simp_all
  have "changed_tree C (Suc h) nd nd' None None p key x"
    if "changed_tree C h nd nd' (lo_of None (take j (seps ?n))) (hi_of (drop j (seps ?n)) None) c key x" for nd' x
    by (rule changed_child [OF assms(1-3) j(1)]) (use that j(2) in simp)
  then show ?thesis using d(8) b dc by blast
qed

lemma handleRootLeafInsert_split:
  assumes s: "st s nd (no_locks(p := Exclusive)) {} n"
    and t: "tree_ok C 0 nd None None p" "nd p = Some (Leaf l)"
    and n: "3 \<le> n" "2 \<le> LEAF_N C" "2 \<le> INNER_N C"
    and full: "lsize l = LEAF_N C" and new: "key \<notin> set (leaf_keys l)"
  shows "\<exists>s' nd'. handleRootLeafInsert C key value p lr s = Inr (False, s') \<and>
           st s' nd' no_locks {} n \<and> tree_changed C 0 nd (Suc 0) nd' p key (Some value)"
proof -
  have ok: "leaf_ok C l" using t by simp
  have two: "2 \<le> lsize l" using full n(2) by simp
  define m where "m = keys l ! ((lsize l - 1) div 2)"
  define ki where "ki = lower_bound (keys l) (lsize l) key"
  have pl: "page_leaf p s = Inr l" by (rule page_leaf_run [OF s t(2)]) simp
  have c1: "card (held_of (no_locks(p := Exclusive))) < n" using n(1) by simp
  obtain r s1 where s1: "splitLeafNode C p s = Inr (r, m, s1)" "r \<notin> dom nd"
      "st s1 (nd(r \<mapsto> Leaf (leaf_right C l), p \<mapsto> Leaf (leaf_left l)))
         (no_locks(p := Exclusive, r := Exclusive)) {p, r} n"
    using splitLeafNode_run [OF s _ t(2) two c1, of C] by (auto simp: m_def)
  have rp: "r \<noteq> p" using s1(2) t(2) by auto
  define nd1 where "nd1 = nd(r \<mapsto> Leaf (leaf_right C l), p \<mapsto> Leaf (leaf_left l))"
  have nd1: "nd1 p = Some (Leaf (leaf_left l))" "nd1 r = Some (Leaf (leaf_right C l))"
    using rp by (simp_all add: nd1_def)
  have lp: "(no_locks(p := Exclusive, r := Exclusive)) p = Exclusive" by simp
  have c2: "card (held_of (no_locks(p := Exclusive, r := Exclusive))) < n"
    using n(1) by (simp add: card_insert_if)
  obtain q s2 where q: "grow_root C p r m s1 = Inr (q, s2)" "q \<notin> dom nd1" "q \<noteq> p"
      "st s2 (nd1(q \<mapsto> Leaf (leaf_left l), p \<mapsto> Inner (root_node C q r m)))
         ((no_locks(p := Exclusive, r := Exclusive))(q := Exclusive, p := Unlocked))
         (insert q {p, r} - {p}) n"
    using grow_root_run [where r = r and C = C and m = m, OF s1(3) [folded nd1_def] lp nd1(1) c2] by blast
  define nd2 where "nd2 = nd1(q \<mapsto> Leaf (leaf_left l), p \<mapsto> Inner (root_node C q r m))"
  have qr: "q \<noteq> r" using q(2) nd1(2) by auto
  have sp: "split_tree C 0 nd nd1 None None p m r"
    unfolding m_def by (rule split_leaf_tree [OF t two _ nd1]) (use rp in simp)
  have fr: "\<forall>j \<in> dom nd. j \<notin> set (ids 0 nd p) \<longrightarrow> nd1 j = nd j" "dom nd \<subseteq> dom nd1" "p \<in> dom nd"
    using s1(2) t(2) by (auto simp: nd1_def)
  note g = grown_tree [OF sp s1(2) fr(3) q(2) n(3) fr(2,1) nd1(1) nd2_def]
  have st2: "st s2 nd2 (no_locks(q := Exclusive, r := Exclusive)) {q, r} n"
    using q(4) rp q(3) grown_locks [of q p r "{p, r}"] by (simp add: nd2_def)
  have n2: "nd2 p = Some (Inner (root_node C q r m))" "nd2 q = Some (Leaf (leaf_left l))"
      "nd2 r = Some (Leaf (leaf_right C l))"
    using q(3) qr rp nd1(2) by (simp_all add: nd2_def)
  define c where "c = (if key \<le> m then q else r)"
  obtain s3 where s3: "ps_unpin True (if key \<le> m then r else q) s2 = Inr s3"
      "st s3 nd2 (no_locks(c := Exclusive)) {c} n"
    using unpin_other_half [OF st2 qr] by (cases "key \<le> m") (auto simp: c_def)
  define ti where "ti = (if key \<le> m then ki else ki - lsize (leaf_left l))"
  note hl = half_leaf_ok [OF ok two m_def ki_def]
  have nc: "nd2 c = Some (Leaf (half_leaf C key m l))" using n2 by (simp add: c_def half_leaf_def)
  obtain s' l' where r': "put_in_root_leaf C key value c ti s3 = Inr s'"
      "st s' (nd2(c \<mapsto> Leaf l')) no_locks {} n" "leaf_put C key value (half_leaf C key m l) l'"
    using put_in_root_leaf_run [OF s3(2) nc hl(1) hl(3) hl(2) subset_refl, folded ti_def] by blast
  obtain lo hi where b: "tree_ok C 0 nd2 lo hi c" "gt_lo lo key" "le_hi hi key"
      "\<forall>nd' x. changed_tree C 0 nd2 nd' lo hi c key x \<longrightarrow> changed_tree C (Suc 0) nd2 nd' None None p key x"
    using changed_half [OF g(1,2) n2(1) n(3) c_def] by blast
  have "changed_tree C (Suc 0) nd2 (nd2(c \<mapsto> Leaf l')) None None p key (Some value)"
    using b(4) changed_leaf_put [OF b(1) nc r'(3) b(2,3)] by blast
  then have "tree_changed C 0 nd (Suc 0) (nd2(c \<mapsto> Leaf l')) p key (Some value)"
    using tree_changedI [OF _ g(3)] by blast
  moreover have pq: "page_leaf q s2 = Inr (leaf_left l)" by (rule page_leaf_run [OF st2 n2(2)]) simp
  have "\<not> (ki < lsize l \<and> keys l ! ki = key)" using leaf_found(2) [OF ok ki_def] new by simp
  then have "handleRootLeafInsert C key value p lr s = Inr (False, s')"
    using pl s1(1) q(1) s3(1) r'(1) pq full leaf_okD(1) [OF ok] ki_def [symmetric]
    by (cases "key \<le> m"; cases "ki < LEAF_N C")
      (simp_all add: handleRootLeafInsert_def Let_def c_def ti_def del: bindE_eq_Inr)
  ultimately show ?thesis using r'(2) by blast
qed

lemma handleRootLeafInsert_run:
  assumes s: "st s nd (no_locks(p := Exclusive)) {} n"
    and t: "tree_ok C 0 nd None None p"
    and n: "3 \<le> n" "2 \<le> LEAF_N C" "2 \<le> INNER_N C"
  shows "\<exists>lr s' nd' h'. handleRootLeafInsert C key value p True s = Inr (lr, s') \<and>
           st s' nd' no_locks {} n \<and> tree_changed C 0 nd h' nd' p key (Some value) \<and> lr = (h' = 0)"
proof -
  obtain l where l: "nd p = Some (Leaf l)" "leaf_ok C l" using t by auto
  define ki where "ki = lower_bound (keys l) (lsize l) key"
  note k = leaf_okD [OF l(2)]
  have pl: "page_leaf p s = Inr l" by (rule page_leaf_run [OF s l(1)]) simp
  have same: "tree_changed C 0 nd 0 (nd(p \<mapsto> Leaf l')) p key (Some value)"
    if "leaf_put C key value l l'" for l'
    by (rule tree_changedI [OF changed_leaf_put [OF t l(1) that]]) simp_all
  consider (found) "ki < lsize l \<and> keys l ! ki = key"
    | (room) "\<not> (ki < lsize l \<and> keys l ! ki = key)" "lsize l < LEAF_N C"
    | (full) "\<not> (ki < lsize l \<and> keys l ! ki = key)" "lsize l = LEAF_N C"
    using k(3) by linarith
  then show ?thesis
  proof cases
    case found
    let ?l = "l\<lparr>vals := (vals l)[ki := value]\<rparr>"
    have put: "leaf_put C key value l ?l"
      using leaf_overwrite [OF l(2), of ki key "value"] leaf_found(2) [OF l(2) ki_def] found
      by (auto simp: leaf_put_def)
    show ?thesis
    proof (cases "vals l ! ki = value")
      case True
      obtain s1 where s1: "ps_unpin False p s = Inr s1" "st s1 nd no_locks {} n"
        using st_unpin_last [OF s, of False] by auto
      have "(vals l)[ki := value] = vals l" using True by auto
      then have "nd(p \<mapsto> Leaf ?l) = nd" using l(1) by auto
      moreover have "handleRootLeafInsert C key value p True s = Inr (True, s1)"
        using pl s1(1) found True ki_def [symmetric]
        by (simp add: handleRootLeafInsert_def Let_def del: bindE_eq_Inr)
      ultimately show ?thesis using same [OF put] s1(2) by (metis (full_types))
    next
      case False
      obtain s1 where s1: "ps_put p (Leaf ?l) s = Inr s1"
          "st s1 (nd(p \<mapsto> Leaf ?l)) (no_locks(p := Exclusive)) {p} n"
        using st_put [OF s, of p "Leaf ?l"] by auto
      obtain s2 where s2: "ps_unpin True p s1 = Inr s2" "st s2 (nd(p \<mapsto> Leaf ?l)) no_locks {} n"
        using st_unpin_last [OF s1(2), of True] by auto
      have "handleRootLeafInsert C key value p True s = Inr (True, s2)"
        using pl s1(1) s2(1) found False ki_def [symmetric]
        by (simp add: handleRootLeafInsert_def Let_def del: bindE_eq_Inr)
      then show ?thesis using same [OF put] s2(2) by (metis (full_types))
    qed
  next
    case room
    obtain s' l' where r: "put_in_root_leaf C key value p ki s = Inr s'"
        "st s' (nd(p \<mapsto> Leaf l')) no_locks {} n" "leaf_put C key value l l'"
      using put_in_root_leaf_run [OF s l ki_def room(2)] by blast
    have "handleRootLeafInsert C key value p True s = Inr (True, s')"
      using pl r(1) room k(1) ki_def [symmetric]
      by (cases "ki < lsize l") (simp_all add: handleRootLeafInsert_def Let_def del: bindE_eq_Inr)
    then show ?thesis using same [OF r(3)] r(2) by (metis (full_types))
  next
    case full
    have "key \<notin> set (leaf_keys l)" using full(1) leaf_found(2) [OF l(2) ki_def] by blast
    from handleRootLeafInsert_split [OF s t l(1) n full(2) this] show ?thesis
      by (metis (full_types) old.nat.distinct(2))
  qed
qed

section \<open>Inserting below a root that is an inner node\<close>

lemma handleRootInnerInsert_split:
  assumes s: "st s nd (no_locks(p := Exclusive)) {} n"
    and t: "tree_ok C (Suc h) nd None None p" "distinct (ids (Suc h) nd p)" "nd p = Some (Inner x)"
    and n: "3 \<le> n" "2 \<le> LEAF_N C" "2 \<le> INNER_N C" "h < fuel"
    and full: "isize x = INNER_N C"
  shows "\<exists>s' nd'. handleRootInnerInsert C fuel key value p True s = Inr (True, s') \<and>
           st s' nd' no_locks {} n \<and> tree_changed C (Suc h) nd (Suc (Suc h)) nd' p key (Some value)"
proof -
  have ok: "inner_ok C x" using t(1,3) by simp
  have two: "2 \<le> isize x" using full n(3) by simp
  define m where "m = pivots x ! ((isize x - 1) div 2)"
  have pl: "page_inner p s = Inr x" by (rule page_inner_run [OF s t(3)]) simp
  have c1: "card (held_of (no_locks(p := Exclusive))) < n" using n(1) by simp
  obtain r s1 where s1: "splitInnerNode C p s = Inr (r, m, s1)" "r \<notin> dom nd"
      "st s1 (nd(r \<mapsto> Inner (inner_right C x), p \<mapsto> Inner (inner_left x)))
         (no_locks(p := Exclusive, r := Exclusive)) {p, r} n"
    using splitInnerNode_run [OF s _ t(3) two c1, of C] by (auto simp: m_def)
  have rp: "r \<noteq> p" using s1(2) t(3) by auto
  define nd1 where "nd1 = nd(r \<mapsto> Inner (inner_right C x), p \<mapsto> Inner (inner_left x))"
  have nd1: "nd1 p = Some (Inner (inner_left x))" "nd1 r = Some (Inner (inner_right C x))"
    using rp by (simp_all add: nd1_def)
  have lp: "(no_locks(p := Exclusive, r := Exclusive)) p = Exclusive" by simp
  have c2: "card (held_of (no_locks(p := Exclusive, r := Exclusive))) < n"
    using n(1) by (simp add: card_insert_if)
  obtain q s2 where q: "grow_root C p r m s1 = Inr (q, s2)" "q \<notin> dom nd1" "q \<noteq> p"
      "st s2 (nd1(q \<mapsto> Inner (inner_left x), p \<mapsto> Inner (root_node C q r m)))
         ((no_locks(p := Exclusive, r := Exclusive))(q := Exclusive, p := Unlocked))
         (insert q {p, r} - {p}) n"
    using grow_root_run [where r = r and C = C and m = m, OF s1(3) [folded nd1_def] lp nd1(1) c2] by blast
  define nd2 where "nd2 = nd1(q \<mapsto> Inner (inner_left x), p \<mapsto> Inner (root_node C q r m))"
  have qr: "q \<noteq> r" using q(2) nd1(2) by auto
  have other: "nd1 j = nd j" if "j \<in> set (ids (Suc h) nd p)" "j \<noteq> p" for j
    using that wf_dom [OF t(1)] s1(2) by (auto simp: nd1_def)
  have sp: "split_tree C (Suc h) nd nd1 None None p m r"
    unfolding m_def by (rule split_inner_tree [OF t two s1(2) nd1 other])
  have fr: "\<forall>j \<in> dom nd. j \<notin> set (ids (Suc h) nd p) \<longrightarrow> nd1 j = nd j" "dom nd \<subseteq> dom nd1" "p \<in> dom nd"
    using s1(2) t(3) by (auto simp: nd1_def)
  note g = grown_tree [OF sp s1(2) fr(3) q(2) n(3) fr(2,1) nd1(1) nd2_def]
  have st2: "st s2 nd2 (no_locks(q := Exclusive, r := Exclusive)) {q, r} n"
    using q(4) rp q(3) grown_locks [of q p r "{p, r}"] by (simp add: nd2_def)
  have n2: "nd2 p = Some (Inner (root_node C q r m))" "nd2 q = Some (Inner (inner_left x))"
      "nd2 r = Some (Inner (inner_right C x))"
    using q(3) qr rp nd1(2) by (simp_all add: nd2_def)
  define c where "c = (if key \<le> m then q else r)"
  obtain s3 where s3: "ps_unpin True (if key \<le> m then r else q) s2 = Inr s3"
      "st s3 nd2 (no_locks(c := Exclusive)) {c} n"
    using unpin_other_half [OF st2 qr] by (cases "key \<le> m") (auto simp: c_def)
  note si = inner_split_ok [OF ok two m_def]
  obtain y where nc: "nd2 c = Some (Inner y)" "isize y < INNER_N C"
    using n2 si(8,9) by (cases "key \<le> m") (simp_all add: c_def)
  obtain lo hi where b: "tree_ok C (Suc h) nd2 lo hi c" "gt_lo lo key" "le_hi hi key"
      "distinct (ids (Suc h) nd2 c)"
      "\<forall>nd' x. changed_tree C (Suc h) nd2 nd' lo hi c key x \<longrightarrow>
         changed_tree C (Suc (Suc h)) nd2 nd' None None p key x"
    using changed_half [OF g(1,2) n2(1) n(3) c_def] by blast
  obtain s' nd' where r': "insertTraversal C fuel key value c True True s3 = Inr (True, s')"
      "st s' nd' no_locks {} n" "changed_tree C (Suc h) nd2 nd' lo hi c key (Some value)"
    using insertTraversal_excl [OF s3(2) b(1,4) nc b(2,3) subset_refl _ n, of True "value"] by blast
  have "tree_changed C (Suc h) nd (Suc (Suc h)) nd' p key (Some value)"
    using tree_changedI [OF _ g(3)] b(5) r'(3) by blast
  moreover have "page_inner q s2 = Inr (inner_left x)" by (rule page_inner_run [OF st2 n2(2)]) simp
  then have "handleRootInnerInsert C fuel key value p True s = Inr (True, s')"
    using pl s1(1) q(1) s3(1) r'(1) full inner_okD(1) [OF ok]
    by (cases "key \<le> m")
      (simp_all add: handleRootInnerInsert_def c_def del: bindE_eq_Inr)
  ultimately show ?thesis using r'(2) by blast
qed

lemma handleRootInnerInsert_excl:
  assumes s: "st s nd (no_locks(p := Exclusive)) {} n"
    and t: "tree_ok C (Suc h) nd None None p" "distinct (ids (Suc h) nd p)"
    and n: "3 \<le> n" "2 \<le> LEAF_N C" "2 \<le> INNER_N C" "h < fuel"
  shows "\<exists>s' nd' h'. handleRootInnerInsert C fuel key value p True s = Inr (True, s') \<and>
           st s' nd' no_locks {} n \<and> tree_changed C (Suc h) nd (Suc h') nd' p key (Some value)"
proof -
  obtain x where x: "nd p = Some (Inner x)" "inner_ok C x" using t(1) by auto
  show ?thesis
  proof (cases "isize x = INNER_N C")
    case True
    from handleRootInnerInsert_split [OF s t x(1) n True] show ?thesis by blast
  next
    case False
    have pl: "page_inner p s = Inr x" by (rule page_inner_run [OF s x(1)]) simp
    have room: "isize x < INNER_N C" using False inner_okD(3) [OF x(2)] by simp
    obtain s' nd' where r: "insertTraversal C fuel key value p False True s = Inr (True, s')"
        "st s' nd' no_locks {} n" "changed_tree C (Suc h) nd nd' None None p key (Some value)"
      using insertTraversal_excl [OF s t x(1) room _ _ _ _ n, of key False "value"] by auto
    have "handleRootInnerInsert C fuel key value p True s = Inr (True, s')"
      using pl r(1) False room inner_okD(1) [OF x(2)]
      by (simp add: handleRootInnerInsert_def del: bindE_eq_Inr)
    then show ?thesis using r(2) tree_changedI [OF r(3) refl] by blast
  qed
qed

lemma handleRootInnerInsert_shared:
  assumes s: "st s nd (no_locks(p := Shared 1)) {} n"
    and t: "tree_ok C (Suc h) nd None None p" "distinct (ids (Suc h) nd p)"
    and n: "3 \<le> n" "h < fuel"
  shows "\<exists>b s'. handleRootInnerInsert C fuel key value p False s = Inr (b, s') \<and>
           tried_insert C (Suc h) nd None None p key value n b s'"
proof -
  obtain x where x: "nd p = Some (Inner x)" "inner_ok C x" using t(1) by auto
  have pl: "page_inner p s = Inr x" by (rule page_inner_run [OF s x(1)]) simp
  obtain b s' where r: "insertTraversal C fuel key value p False False s = Inr (b, s')"
      "tried_insert C (Suc h) nd None None p key value n b s'"
    using insertTraversal_shared [OF s t x(1) _ _ n, of key "value" False] by auto
  then show ?thesis using pl inner_okD(1,3) [OF x(2)] by (auto simp: handleRootInnerInsert_def)
qed

end
