(* ===== verification/KvStore.thy ===== *)
theory KvStore
  imports Prelude
begin

text \<open>
  What the trees promise to their callers: a map from keys to values with an insert that
  overwrites, an update that adds to the value of a key that is present, an erase and a
  lookup (the operations of the classes \<open>BTree\<close> and \<open>BeTree\<close>).
\<close>

datatype ('k, 'v) kv_op = KInsert 'k 'v | KUpdate 'k 'v | KErase 'k | KFind 'k

text \<open>The abstract operations on a map, and the answer of a lookup.\<close>

definition map_update :: "'k \<Rightarrow> 'v::plus \<Rightarrow> ('k \<rightharpoonup> 'v) \<Rightarrow> 'k \<rightharpoonup> 'v" where
  "map_update k x m = (case m k of None \<Rightarrow> m | Some v \<Rightarrow> m(k \<mapsto> v + x))"

fun kv_apply :: "('k, 'v::plus) kv_op \<Rightarrow> ('k \<rightharpoonup> 'v) \<Rightarrow> 'k \<rightharpoonup> 'v" where
  "kv_apply (KInsert k v) m = m(k \<mapsto> v)"
| "kv_apply (KUpdate k x) m = map_update k x m"
| "kv_apply (KErase k) m = m(k := None)"
| "kv_apply (KFind k) m = m"

fun kv_answer :: "('k, 'v) kv_op \<Rightarrow> ('k \<rightharpoonup> 'v) \<Rightarrow> 'v option" where
  "kv_answer (KFind k) m = m k"
| "kv_answer _ m = None"

fun kv_answers :: "('k, 'v::plus) kv_op list \<Rightarrow> ('k \<rightharpoonup> 'v) \<Rightarrow> 'v option list" where
  "kv_answers [] m = []"
| "kv_answers (op # ops) m = kv_answer op m # kv_answers ops (kv_apply op m)"

text \<open>One operation of an implementation, and a sequence of them.\<close>

fun kv_step ::
  "('k \<Rightarrow> 'v \<Rightarrow> 's \<Rightarrow> 's result) \<Rightarrow> ('k \<Rightarrow> 'v \<Rightarrow> 's \<Rightarrow> 's result) \<Rightarrow> ('k \<Rightarrow> 's \<Rightarrow> 's result) \<Rightarrow>
   ('k \<Rightarrow> 's \<Rightarrow> ('v option \<times> 's) result) \<Rightarrow> ('k, 'v) kv_op \<Rightarrow> 's \<Rightarrow> ('v option \<times> 's) result" where
  "kv_step ins upd era fnd (KInsert k v) s = bindE (ins k v s) (\<lambda>s'. Inr (None, s'))"
| "kv_step ins upd era fnd (KUpdate k v) s = bindE (upd k v s) (\<lambda>s'. Inr (None, s'))"
| "kv_step ins upd era fnd (KErase k) s = bindE (era k s) (\<lambda>s'. Inr (None, s'))"
| "kv_step ins upd era fnd (KFind k) s = fnd k s"

fun kv_run :: "('o \<Rightarrow> 's \<Rightarrow> ('a \<times> 's) result) \<Rightarrow> 'o list \<Rightarrow> 's \<Rightarrow> ('a list \<times> 's) result" where
  "kv_run step [] s = Inr ([], s)"
| "kv_run step (op # ops) s =
     bindE (step op s) (\<lambda>(a, s1). bindE (kv_run step ops s1) (\<lambda>(as, s2). Inr (a # as, s2)))"

locale kv_store =
  fixes inv :: "'s \<Rightarrow> bool" and content :: "'s \<Rightarrow> ('k \<rightharpoonup> 'v::plus)"
    and ins :: "'k \<Rightarrow> 'v \<Rightarrow> 's \<Rightarrow> 's result" and upd :: "'k \<Rightarrow> 'v \<Rightarrow> 's \<Rightarrow> 's result"
    and era :: "'k \<Rightarrow> 's \<Rightarrow> 's result" and fnd :: "'k \<Rightarrow> 's \<Rightarrow> ('v option \<times> 's) result"
  assumes insert_law: "inv s \<Longrightarrow> \<exists>s'. ins k v s = Inr s' \<and> inv s' \<and> content s' = (content s)(k \<mapsto> v)"
    and update_law: "inv s \<Longrightarrow> \<exists>s'. upd k v s = Inr s' \<and> inv s' \<and> content s' = map_update k v (content s)"
    and erase_law: "inv s \<Longrightarrow> \<exists>s'. era k s = Inr s' \<and> inv s' \<and> content s' = (content s)(k := None)"
    and find_law: "inv s \<Longrightarrow> \<exists>s'. fnd k s = Inr (content s k, s') \<and> inv s' \<and> content s' = content s"
begin

lemma step_law:
  assumes "inv s"
  shows "\<exists>s'. kv_step ins upd era fnd op s = Inr (kv_answer op (content s), s') \<and> inv s' \<and>
           content s' = kv_apply op (content s)"
proof (cases op)
  case (KInsert k v)
  then show ?thesis using insert_law [OF assms, of k v] by auto
next
  case (KUpdate k v)
  then show ?thesis using update_law [OF assms, of k v] by auto
next
  case (KErase k)
  then show ?thesis using erase_law [OF assms, of k] by auto
next
  case (KFind k)
  then show ?thesis using find_law [OF assms, of k] by auto
qed

lemma run_law:
  "inv s \<Longrightarrow> \<exists>s'. kv_run (kv_step ins upd era fnd) ops s = Inr (kv_answers ops (content s), s') \<and>
     inv s' \<and> content s' = fold kv_apply ops (content s)"
proof (induction ops arbitrary: s)
  case (Cons op ops)
  obtain s1 where s1: "kv_step ins upd era fnd op s = Inr (kv_answer op (content s), s1)" "inv s1"
      "content s1 = kv_apply op (content s)"
    using step_law [OF Cons.prems] by blast
  then show ?case using Cons.IH [OF s1(2)] by auto
qed simp

text \<open>Two stores with the same laws cannot be told apart.\<close>

lemma run_answers:
  assumes "inv s" "kv_run (kv_step ins upd era fnd) ops s = Inr (as, s')"
  shows "as = kv_answers ops (content s)"
  using run_law [OF assms(1), of ops] assms(2) by auto

end

end
