(* ===== verification/BTreeMap.thy ===== *)
theory BTreeMap
  imports BTreeRoot KvStore "HOL-Library.Multiset"
begin

text \<open>
  The B+-tree is a map: the invariant of a tree between two operations, the map it stands
  for, and what insert, update, erase, find, printing and flushing do to it.
\<close>

section \<open>Invariant and map\<close>

text \<open>The height is the number of steps from the root to a leaf.\<close>

fun height_of :: "nat \<Rightarrow> (nat \<rightharpoonup> ('k, 'v) bnode) \<Rightarrow> nat \<Rightarrow> nat" where
  "height_of 0 nd i = 0"
| "height_of (Suc f) nd i =
     (case nd i of Some (Inner n) \<Rightarrow> Suc (height_of f nd (children n ! 0)) | _ \<Rightarrow> 0)"

definition bt_height :: "('k, 'v) btree \<Rightarrow> nat" where
  "bt_height t = height_of (created (pageBuffer t)) (nodes (pageBuffer t)) (rootID t)"

definition bt_list :: "('k, 'v) btree \<Rightarrow> ('k \<times> 'v) list" where
  "bt_list t = kvs (bt_height t) (nodes (pageBuffer t)) (rootID t)"

definition bt_map :: "('k, 'v) btree \<Rightarrow> 'k \<rightharpoonup> 'v" where
  "bt_map t = map_of (bt_list t)"

definition bt_inv :: "('k::linorder, 'v) bconfig \<Rightarrow> ('k, 'v) btree \<Rightarrow> bool" where
  "bt_inv C t \<longleftrightarrow>
     (let s = pageBuffer t; h = bt_height t; nd = nodes s in
      st s nd no_locks {} (slots s) \<and> 3 \<le> slots s \<and>
      tree_ok C h nd None None (rootID t) \<and> distinct (ids h nd (rootID t)) \<and> leafRoot t = (h = 0))"

text \<open>The capacities that the splits need.\<close>

definition bt_config :: "('k, 'v) bconfig \<Rightarrow> bool" where
  "bt_config C \<longleftrightarrow> 2 \<le> LEAF_N C \<and> 2 \<le> INNER_N C"

lemma between_first: "between W lo ps (c # cs) hi \<Longrightarrow> \<exists>hi'. W lo hi' c"
  by (simp add: between_Cons_right) blast

lemma kids_first: "inner_ok C n \<Longrightarrow> kids n = children n ! 0 # tl (kids n)"
  using inner_okD(2) [of C n] by (cases "children n") (simp_all add: kids_def)

lemma tree_first:
  assumes "tree_ok C (Suc h) nd lo hi i"
  shows "\<exists>n hi'. nd i = Some (Inner n) \<and> children n ! 0 \<in> set (kids n) \<and>
           tree_ok C h nd lo hi' (children n ! 0)"
proof -
  obtain n where n: "nd i = Some (Inner n)" "inner_ok C n"
      "between (tree_ok C h nd) lo (seps n) (kids n) hi"
    using assms by auto
  note k = kids_first [OF n(2)]
  have "\<exists>hi'. tree_ok C h nd lo hi' (children n ! 0)"
    using between_first [of "tree_ok C h nd" lo "seps n"] n(3) k by metis
  then show ?thesis using n(1) k by (metis list.set_intros(1))
qed

lemma height_of_tree: "tree_ok C h nd lo hi i \<Longrightarrow> h \<le> f \<Longrightarrow> height_of f nd i = h"
proof (induction h arbitrary: f i lo hi)
  case 0
  then show ?case by (cases f) auto
next
  case (Suc h)
  obtain n hi' where n: "nd i = Some (Inner n)" "tree_ok C h nd lo hi' (children n ! 0)"
    using tree_first [OF Suc.prems(1)] by blast
  obtain g where g: "f = Suc g" "h \<le> g" using Suc.prems(2) by (cases f) auto
  show ?case using n(1) g(1) Suc.IH [OF n(2) g(2)] by simp
qed

lemma height_ids: "tree_ok C h nd lo hi i \<Longrightarrow> h < length (ids h nd i)"
proof (induction h arbitrary: i lo hi)
  case (Suc h)
  obtain n hi' where n: "nd i = Some (Inner n)" "children n ! 0 \<in> set (kids n)"
      "tree_ok C h nd lo hi' (children n ! 0)"
    using tree_first [OF Suc.prems] by blast
  have "length (ids h nd (children n ! 0)) \<in> set (map (length \<circ> ids h nd) (kids n))" using n(2) by auto
  then have "length (ids h nd (children n ! 0)) \<le> sum_list (map (length \<circ> ids h nd) (kids n))"
    by (intro member_le_sum_list) auto
  then show ?case using n(1) Suc.IH [OF n(3)] by (simp add: length_concat comp_def)
qed simp

text \<open>A tree of distinct pages is lower than the number of pages of the buffer.\<close>

lemma height_pages:
  assumes "st s nd lk ch n" "tree_ok C h nd lo hi i" "distinct (ids h nd i)"
  shows "h < created s"
proof -
  have "ps_inv s" "nodes s = nd" using assms(1) by (simp_all add: st_def)
  then have d: "dom nd = id_seq s ` {..<created s}" using ps_invD(2) by blast
  have "length (ids h nd i) = card (set (ids h nd i))" using assms(3) by (simp add: distinct_card)
  also have "\<dots> \<le> card (id_seq s ` {..<created s})"
    using wf_dom [OF assms(2)] unfolding d by (intro card_mono) auto
  also have "\<dots> \<le> created s" using card_image_le [of "{..<created s}" "id_seq s"] by simp
  finally show ?thesis using height_ids [OF assms(2)] by simp
qed

text \<open>A tree whose height is known.\<close>

lemma bt_invI:
  assumes "st (pageBuffer t) nd no_locks {} n" "3 \<le> n" "tree_ok C h nd None None (rootID t)"
    "distinct (ids h nd (rootID t))" "leafRoot t = (h = 0)"
  shows "bt_inv C t" "bt_height t = h" "bt_list t = kvs h nd (rootID t)" "bt_map t = map_of (kvs h nd (rootID t))"
proof -
  have s: "nodes (pageBuffer t) = nd" "slots (pageBuffer t) = n" using assms(1) by (simp_all add: st_def)
  show h: "bt_height t = h"
    using height_of_tree [OF assms(3)] height_pages [OF assms(1,3,4)] s by (simp add: bt_height_def)
  show "bt_inv C t" using assms h s by (simp add: bt_inv_def Let_def)
  show "bt_list t = kvs h nd (rootID t)" "bt_map t = map_of (kvs h nd (rootID t))"
    using h s by (simp_all add: bt_map_def bt_list_def)
qed

lemma bt_invD:
  assumes "bt_inv C t"
  obtains nd n h where "st (pageBuffer t) nd no_locks {} n" "3 \<le> n" "tree_ok C h nd None None (rootID t)"
    "distinct (ids h nd (rootID t))" "leafRoot t = (h = 0)" "bt_map t = map_of (kvs h nd (rootID t))"
    "bt_list t = kvs h nd (rootID t)" "h < created (pageBuffer t)"
proof -
  let ?s = "pageBuffer t"
  have i: "st ?s (nodes ?s) no_locks {} (slots ?s)" "3 \<le> slots ?s"
      "tree_ok C (bt_height t) (nodes ?s) None None (rootID t)"
      "distinct (ids (bt_height t) (nodes ?s) (rootID t))" "leafRoot t = (bt_height t = 0)"
    using assms by (simp_all add: bt_inv_def Let_def)
  show ?thesis
    by (rule that [OF i]) (use height_pages [OF i(1,3,4)] in \<open>simp_all add: bt_map_def bt_list_def\<close>)
qed

section \<open>Insert\<close>

lemma bt_insert_ok:
  assumes inv: "bt_inv C t" and C: "bt_config C" and fuel: "created (pageBuffer t) \<le> fuel"
  shows "\<exists>t'. bt_insert C fuel key value t = Inr t' \<and> bt_inv C t' \<and>
           bt_map t' = (bt_map t)(key \<mapsto> value) \<and> rootID t' = rootID t"
proof -
  from inv obtain nd n h where t: "st (pageBuffer t) nd no_locks {} n" "3 \<le> n"
      "tree_ok C h nd None None (rootID t)" "distinct (ids h nd (rootID t))" "leafRoot t = (h = 0)"
      "bt_map t = map_of (kvs h nd (rootID t))" "h < created (pageBuffer t)"
    by (rule bt_invD)
  have c: "2 \<le> LEAF_N C" "2 \<le> INNER_N C" using C by (simp_all add: bt_config_def)
  let ?p = "rootID t"
  have room: "card (held_of no_locks) < n" using t(2) by simp
  have fin: "bt_inv C (t\<lparr>pageBuffer := s', leafRoot := lr\<rparr>) \<and>
      bt_map (t\<lparr>pageBuffer := s', leafRoot := lr\<rparr>) = (bt_map t)(key \<mapsto> value)"
    if s': "st s' nd' no_locks {} n" "tree_changed C h nd h' nd' ?p key (Some value)" "lr = (h' = 0)"
    for s' nd' h' lr
  proof -
    let ?t = "t\<lparr>pageBuffer := s', leafRoot := lr\<rparr>"
    have c: "tree_ok C h' nd' None None (rootID ?t)" "distinct (ids h' nd' (rootID ?t))"
        "map_of (kvs h' nd' ?p) = (map_of (kvs h nd ?p))(key \<mapsto> value)"
      using s'(2) by (simp_all add: tree_changed_def)
    have b: "st (pageBuffer ?t) nd' no_locks {} n" "leafRoot ?t = (h' = 0)" using s'(1,3) by simp_all
    show ?thesis using bt_invI [OF b(1) t(2) c(1,2) b(2)] c(3) t(6) by simp
  qed
  show ?thesis
  proof (cases h)
    case 0
    then obtain l where l: "nd ?p = Some (Leaf l)" using t(3) by auto
    have lr: "leafRoot t" using t(5) 0 by simp
    obtain s1 where s1: "ps_pin False (\<lambda>_. leafRoot t) ?p (pageBuffer t) = Inr s1"
        "st s1 nd (no_locks(?p := Exclusive)) {} n"
      using st_pin [OF t(1) l _ room, of "\<lambda>_. leafRoot t"] lr by auto
    have g: "ps_get ?p s1 = Inr (Leaf l)" by (rule st_get [OF s1(2) l]) simp
    obtain lr' s' nd' h' where r: "handleRootLeafInsert C key value ?p True s1 = Inr (lr', s')"
        "st s' nd' no_locks {} n" "tree_changed C 0 nd h' nd' ?p key (Some value)" "lr' = (h' = 0)"
      using handleRootLeafInsert_run [OF s1(2) _ t(2) c] t(3) 0 by blast
    have "bt_insert C fuel key value t = Inr (t\<lparr>pageBuffer := s', leafRoot := lr'\<rparr>)"
      using s1(1) g r(1) lr by (simp add: bt_insert_def del: bindE_eq_Inr)
    then show ?thesis using fin [OF r(2) _ r(4)] r(3) 0 by simp
  next
    case (Suc k)
    obtain x where x: "nd ?p = Some (Inner x)" using t(3) Suc by auto
    have lr: "\<not> leafRoot t" using t(5) Suc by simp
    have k: "k < fuel" using t(7) fuel Suc by simp
    obtain s1 where s1: "ps_pin False (\<lambda>_. leafRoot t) ?p (pageBuffer t) = Inr s1"
        "st s1 nd (no_locks(?p := Shared 1)) {} n"
      using st_pin [OF t(1) x _ room, of "\<lambda>_. leafRoot t"] lr by auto
    have g: "ps_get ?p s1 = Inr (Inner x)" by (rule st_get [OF s1(2) x]) simp
    obtain b s2 where r: "handleRootInnerInsert C fuel key value ?p False s1 = Inr (b, s2)"
        "tried_insert C (Suc k) nd None None ?p key value n b s2"
      using handleRootInnerInsert_shared [OF s1(2) _ _ t(2) k] t(3,4) Suc by blast
    have upd: "t\<lparr>pageBuffer := s\<rparr> = t\<lparr>pageBuffer := s, leafRoot := False\<rparr>" for s using lr by simp
    show ?thesis
    proof (cases b)
      case True
      then obtain nd' where nd': "st s2 nd' no_locks {} n"
          "changed_tree C (Suc k) nd nd' None None ?p key (Some value)"
        using r(2) by (auto simp: tried_insert_def)
      have "tree_changed C h nd (Suc k) nd' ?p key (Some value)"
        by (rule tree_changedI [OF nd'(2)]) (simp add: Suc)
      from fin [OF nd'(1) this, of False]
      have "bt_inv C (t\<lparr>pageBuffer := s2\<rparr>) \<and> bt_map (t\<lparr>pageBuffer := s2\<rparr>) = (bt_map t)(key \<mapsto> value)"
        by (simp only: upd [symmetric]) simp
      moreover have "bt_insert C fuel key value t = Inr (t\<lparr>pageBuffer := s2\<rparr>)"
        using s1(1) g r(1) lr True by (simp add: bt_insert_def del: bindE_eq_Inr)
      ultimately show ?thesis by simp
    next
      case False
      then have s2: "st s2 nd no_locks {} n" using r(2) by (simp add: tried_insert_def)
      obtain s3 where s3: "ps_pin False (\<lambda>_. True) ?p s2 = Inr s3"
          "st s3 nd (no_locks(?p := Exclusive)) {} n"
        using st_pin [OF s2 x _ room, of "\<lambda>_. True"] by auto
      obtain s4 nd' h' where e: "handleRootInnerInsert C fuel key value ?p True s3 = Inr (True, s4)"
          "st s4 nd' no_locks {} n" "tree_changed C (Suc k) nd (Suc h') nd' ?p key (Some value)"
        using handleRootInnerInsert_excl [OF s3(2) _ _ t(2) c k] t(3,4) Suc by blast
      have "bt_inv C (t\<lparr>pageBuffer := s4\<rparr>) \<and> bt_map (t\<lparr>pageBuffer := s4\<rparr>) = (bt_map t)(key \<mapsto> value)"
        using fin [OF e(2), of "Suc h'" False] e(3) Suc by (simp only: upd [symmetric]) simp
      moreover have "bt_insert C fuel key value t = Inr (t\<lparr>pageBuffer := s4\<rparr>)"
        using s1(1) g r(1) s3(1) e(1) lr False by (simp add: bt_insert_def del: bindE_eq_Inr)
      ultimately show ?thesis by simp
    qed
  qed
qed

section \<open>Descending\<close>

lemma bt_descend_run:
  assumes "st s nd (no_locks(p := l)) {} n" "tree_ok C h nd lo hi p" "distinct (ids h nd p)"
    "gt_lo lo key" "le_hi hi key" "3 \<le> n" "h < fuel"
    "l = (if h = 0 then lock_mode e else Shared 1)"
  shows "\<exists>c lf s'. bt_descend e fuel key p s = Inr (c, s') \<and>
           st s' nd (no_locks(c := lock_mode e)) {} n \<and> nd c = Some (Leaf lf) \<and> leaf_ok C lf \<and>
           map_of (kvs h nd p) key = map_of (leaf_kvs lf) key \<and>
           (\<forall>lf' x. leaf_ok C lf' \<longrightarrow> map_of (leaf_kvs lf') = (map_of (leaf_kvs lf))(key := x) \<longrightarrow>
              set (leaf_keys lf') \<subseteq> insert key (set (leaf_keys lf)) \<longrightarrow>
              changed_tree C h nd (nd(c \<mapsto> Leaf lf')) lo hi p key x)"
  using assms
proof (induction h arbitrary: fuel s p l lo hi)
  case (0 fuel s p l lo hi)
  obtain f where fuel: "fuel = Suc f" using 0(7) by (cases fuel) auto
  obtain lf where lf: "nd p = Some (Leaf lf)" "leaf_ok C lf" using 0(2) by auto
  have g: "ps_get p s = Inr (Leaf lf)" by (rule st_get [OF 0(1) lf(1)]) (simp add: 0(8))
  have "changed_tree C 0 nd (nd(p \<mapsto> Leaf lf')) lo hi p key x"
    if "leaf_ok C lf'" "map_of (leaf_kvs lf') = (map_of (leaf_kvs lf))(key := x)"
      "set (leaf_keys lf') \<subseteq> insert key (set (leaf_keys lf))" for lf' x
    by (rule changed_leaf [OF 0(2) lf(1) that(1,2) _ 0(4,5)]) (use that(3) in auto)
  moreover have "bt_descend e fuel key p s = Inr (p, s)" using g by (simp add: fuel)
  moreover have "l = lock_mode e" using 0(8) by simp
  then have "st s nd (no_locks(p := lock_mode e)) {} n" using 0(1) by (simp only:)
  moreover have "map_of (kvs 0 nd p) key = map_of (leaf_kvs lf) key" using lf(1) by simp
  ultimately show ?case using lf by blast
next
  case (Suc h fuel s p l lo hi)
  obtain f where fuel: "fuel = Suc f" "h < f" using Suc.prems(7) by (cases fuel) auto
  obtain x where x: "nd p = Some (Inner x)" using Suc.prems(2) by auto
  have "l = Shared 1" using Suc.prems(8) by simp
  then have s: "st s nd (no_locks(p := Shared 1)) {} n" using Suc.prems(1) by (simp only:)
  define j where "j = lower_bound (pivots x) (isize x) key"
  define c where "c = children x ! j"
  note d = tree_descend [OF Suc.prems(2) x j_def refl c_def refl refl refl]
  note pc = parent_not_child [OF Suc.prems(3) x d(2)]
  have g: "ps_get p s = Inr (Inner x)" by (rule st_get [OF s x]) simp
  obtain y where y: "nd c = Some y" using d(15) by auto
  have leaf: "isLeaf y = (h = 0)" using d(8) y by (cases h) auto
  have room: "card (held_of (no_locks(p := Shared 1))) < n" using Suc.prems(6) by simp
  have lc: "(no_locks(p := Shared 1)) c = Unlocked" using pc(1) by simp
  let ?l = "lock_mode (e \<and> isLeaf y)"
  obtain s1 where s1: "ps_pin False (\<lambda>n. e \<and> isLeaf n) c s = Inr s1"
      "st s1 nd (no_locks(p := Shared 1, c := ?l)) {} n"
    using st_pin [OF s y lc room, of "\<lambda>n. e \<and> isLeaf n"] by auto
  obtain s2 where s2: "ps_unpin False p s1 = Inr s2"
      "st s2 nd ((no_locks(p := Shared 1, c := ?l))(p := Unlocked)) {} n"
    using st_unpin [OF s1(2), of p False] pc(1) by auto
  have s2': "st s2 nd (no_locks(c := ?l)) {} n" using s2(2) unfolding unlock_twice [OF pc(1)] by simp
  have b: "gt_lo (lo_of lo (take j (seps x))) key" "le_hi (hi_of (drop j (seps x)) hi) key"
    using d(10,11) Suc.prems(4,5) by blast+
  have lm: "?l = (if h = 0 then lock_mode e else Shared 1)" by (simp add: leaf)
  obtain i lf s' where r: "bt_descend e f key c s2 = Inr (i, s')"
      "st s' nd (no_locks(i := lock_mode e)) {} n" "nd i = Some (Leaf lf)" "leaf_ok C lf"
      "map_of (kvs h nd c) key = map_of (leaf_kvs lf) key"
      "\<forall>lf' x'. leaf_ok C lf' \<longrightarrow> map_of (leaf_kvs lf') = (map_of (leaf_kvs lf))(key := x') \<longrightarrow>
         set (leaf_keys lf') \<subseteq> insert key (set (leaf_keys lf)) \<longrightarrow>
         changed_tree C h nd (nd(i \<mapsto> Leaf lf')) (lo_of lo (take j (seps x)))
           (hi_of (drop j (seps x)) hi) c key x'"
    using Suc.IH [OF s2' d(8) pc(3) b Suc.prems(6) fuel(2) lm] by blast
  have "bt_descend e fuel key p s = Inr (i, s')"
    using g s1(1) s2(1) r(1)
    by (simp add: fuel(1) Let_def j_def [symmetric] c_def [symmetric] del: bindE_eq_Inr)
  moreover have "map_of (kvs (Suc h) nd p) key = map_of (leaf_kvs lf) key" using d(14) r(5) by simp
  moreover have "changed_tree C (Suc h) nd (nd(i \<mapsto> Leaf lf')) lo hi p key x'"
    if "leaf_ok C lf'" "map_of (leaf_kvs lf') = (map_of (leaf_kvs lf))(key := x')"
      "set (leaf_keys lf') \<subseteq> insert key (set (leaf_keys lf))" for lf' x'
    using changed_child [OF Suc.prems(2,3) x j_def] r(6) that by (simp add: c_def)
  ultimately show ?case using r(2-4) by blast
qed

section \<open>Update, erase and find\<close>

text \<open>A change of the reached leaf is a change of the whole tree.\<close>

lemma leaf_write:
  assumes "st s nd (no_locks(c := Exclusive)) {} n" "3 \<le> n"
    "changed_tree C h nd (nd(c \<mapsto> Leaf lf')) None None (rootID t) key x" "leafRoot t = (h = 0)"
    "bt_map t = map_of (kvs h nd (rootID t))"
  shows "\<exists>s1 s2. ps_put c (Leaf lf') s = Inr s1 \<and> ps_unpin True c s1 = Inr s2 \<and>
           bt_inv C (t\<lparr>pageBuffer := s2\<rparr>) \<and> bt_map (t\<lparr>pageBuffer := s2\<rparr>) = (bt_map t)(key := x)"
proof -
  obtain s1 where s1: "ps_put c (Leaf lf') s = Inr s1"
      "st s1 (nd(c \<mapsto> Leaf lf')) (no_locks(c := Exclusive)) {c} n"
    using st_put [OF assms(1), of c] by auto
  obtain s2 where s2: "ps_unpin True c s1 = Inr s2" "st s2 (nd(c \<mapsto> Leaf lf')) no_locks {} n"
    using st_unpin_last [OF s1(2), of True] by auto
  let ?t = "t\<lparr>pageBuffer := s2\<rparr>"
  have b: "st (pageBuffer ?t) (nd(c \<mapsto> Leaf lf')) no_locks {} n"
      "tree_ok C h (nd(c \<mapsto> Leaf lf')) None None (rootID ?t)"
      "distinct (ids h (nd(c \<mapsto> Leaf lf')) (rootID ?t))" "leafRoot ?t = (h = 0)"
    using s2(2) assms(3,4) by (simp_all add: changed_tree_def)
  show ?thesis using s1(1) s2(1) bt_invI [OF b(1) assms(2) b(2-4)] assms(3,5)
    by (simp add: changed_tree_def)
qed

lemma leaf_keep:
  assumes "st s nd (no_locks(c := l)) {} n" "l = Exclusive \<or> l = Shared 1" "3 \<le> n"
    "tree_ok C h nd None None (rootID t)" "distinct (ids h nd (rootID t))" "leafRoot t = (h = 0)"
    "bt_map t = map_of (kvs h nd (rootID t))"
  shows "\<exists>s1. ps_unpin False c s = Inr s1 \<and> bt_inv C (t\<lparr>pageBuffer := s1\<rparr>) \<and>
           bt_map (t\<lparr>pageBuffer := s1\<rparr>) = bt_map t"
proof -
  obtain s1 where s1: "ps_unpin False c s = Inr s1" "st s1 nd no_locks {} n"
    using st_unpin_last [OF assms(1,2), of False] by auto
  let ?t = "t\<lparr>pageBuffer := s1\<rparr>"
  have b: "st (pageBuffer ?t) nd no_locks {} n" "tree_ok C h nd None None (rootID ?t)"
      "distinct (ids h nd (rootID ?t))" "leafRoot ?t = (h = 0)"
    using s1(2) assms(4-6) by simp_all
  show ?thesis using s1(1) bt_invI [OF b(1) assms(3) b(2-4)] assms(7) by simp
qed

lemma pin_root_for_write_run:
  assumes "st s nd no_locks {} n" "tree_ok C h nd lo hi p" "3 \<le> n"
  shows "\<exists>s'. pin_root_for_write p s = Inr s' \<and>
           st s' nd (no_locks(p := (if h = 0 then lock_mode True else Shared 1))) {} n"
proof -
  obtain x where x: "nd p = Some x" "isLeaf x = (h = 0)" using assms(2) by (cases h) auto
  have room: "card (held_of no_locks) < n" using assms(3) by simp
  obtain s1 where s1: "ps_pin False (\<lambda>_. False) p s = Inr s1" "st s1 nd (no_locks(p := Shared 1)) {} n"
    using st_pin [OF assms(1) x(1) _ room, of "\<lambda>_. False"] by auto
  have g: "ps_get p s1 = Inr x" by (rule st_get [OF s1(2) x(1)]) simp
  show ?thesis
  proof (cases "h = 0")
    case True
    obtain s2 where s2: "ps_unpin False p s1 = Inr s2" "st s2 nd no_locks {} n"
      using st_unpin_last [OF s1(2), of False] by auto
    obtain s3 where s3: "ps_pin False (\<lambda>_. True) p s2 = Inr s3" "st s3 nd (no_locks(p := Exclusive)) {} n"
      using st_pin [OF s2(2) x(1) _ room, of "\<lambda>_. True"] by auto
    have "pin_root_for_write p s = Inr s3"
      using s1(1) g s2(1) s3(1) x(2) True by (simp add: pin_root_for_write_def del: bindE_eq_Inr)
    then show ?thesis using s3(2) True by auto
  next
    case False
    have "pin_root_for_write p s = Inr s1"
      using s1(1) g x(2) False by (simp add: pin_root_for_write_def del: bindE_eq_Inr)
    then show ?thesis using s1(2) False by auto
  qed
qed

lemma bt_update_ok:
  assumes inv: "bt_inv C t" and fuel: "created (pageBuffer t) \<le> fuel"
  shows "\<exists>t'. bt_update C fuel key value t = Inr t' \<and> bt_inv C t' \<and>
           bt_map t' = (case bt_map t key of None \<Rightarrow> bt_map t | Some v \<Rightarrow> (bt_map t)(key \<mapsto> v + value))"
proof -
  from inv obtain nd n h where t: "st (pageBuffer t) nd no_locks {} n" "3 \<le> n"
      "tree_ok C h nd None None (rootID t)" "distinct (ids h nd (rootID t))" "leafRoot t = (h = 0)"
      "bt_map t = map_of (kvs h nd (rootID t))" "h < created (pageBuffer t)"
    by (rule bt_invD)
  have f: "h < fuel" using t(7) fuel by simp
  obtain s1 where s1: "pin_root_for_write (rootID t) (pageBuffer t) = Inr s1"
      "st s1 nd (no_locks(rootID t := (if h = 0 then lock_mode True else Shared 1))) {} n"
    using pin_root_for_write_run [OF t(1,3,2)] by blast
  obtain c lf s2 where r: "bt_descend True fuel key (rootID t) s1 = Inr (c, s2)"
      "st s2 nd (no_locks(c := lock_mode True)) {} n" "nd c = Some (Leaf lf)" "leaf_ok C lf"
      "map_of (kvs h nd (rootID t)) key = map_of (leaf_kvs lf) key"
      "\<forall>lf' x. leaf_ok C lf' \<longrightarrow> map_of (leaf_kvs lf') = (map_of (leaf_kvs lf))(key := x) \<longrightarrow>
         set (leaf_keys lf') \<subseteq> insert key (set (leaf_keys lf)) \<longrightarrow>
         changed_tree C h nd (nd(c \<mapsto> Leaf lf')) None None (rootID t) key x"
    using bt_descend_run [OF s1(2) t(3,4) bound_simps(1) bound_simps(3) t(2) f refl, of key] by blast
  have r2: "st s2 nd (no_locks(c := Exclusive)) {} n" using r(2) by (simp only: lock_mode_simps)
  define ki where "ki = lower_bound (keys lf) (lsize lf) key"
  note lf = leaf_found [OF r(4) ki_def]
  have pl: "page_leaf c s2 = Inr lf" by (rule page_leaf_run [OF r2 r(3)]) simp
  show ?thesis
  proof (cases "ki < lsize lf \<and> keys lf ! ki = key")
    case True
    let ?v = "vals lf ! ki + value"
    let ?l = "lf\<lparr>vals := (vals lf)[ki := ?v]\<rparr>"
    have m: "bt_map t key = Some (vals lf ! ki)" using leaf_lookup [OF r(4), of ki key] True r(5) t(6) by simp
    have ow: "leaf_ok C ?l" "map_of (leaf_kvs ?l) = (map_of (leaf_kvs lf))(key := Some ?v)"
        "leaf_keys ?l = leaf_keys lf"
      using leaf_overwrite [OF r(4)] True by blast+
    have sub: "set (leaf_keys ?l) \<subseteq> insert key (set (leaf_keys lf))" unfolding ow(3) by blast
    have "changed_tree C h nd (nd(c \<mapsto> Leaf ?l)) None None (rootID t) key (Some ?v)"
      using r(6) ow(1,2) sub by blast
    from leaf_write [OF r2 t(2) this t(5,6)] obtain s3 s4 where e: "ps_put c (Leaf ?l) s2 = Inr s3"
        "ps_unpin True c s3 = Inr s4" "bt_inv C (t\<lparr>pageBuffer := s4\<rparr>)"
        "bt_map (t\<lparr>pageBuffer := s4\<rparr>) = (bt_map t)(key := Some ?v)" by blast
    have "bt_update C fuel key value t = Inr (t\<lparr>pageBuffer := s4\<rparr>)"
      using s1(1) r(1) pl e(1,2) True ki_def [symmetric]
      by (simp add: bt_update_def Let_def del: bindE_eq_Inr)
    then show ?thesis using e(3,4) m by simp
  next
    case False
    have m: "bt_map t key = None"
      using leaf_lookup_None [OF r(4), of key] lf(2) False r(5) t(6) by simp
    obtain s3 where e: "ps_unpin False c s2 = Inr s3" "bt_inv C (t\<lparr>pageBuffer := s3\<rparr>)"
        "bt_map (t\<lparr>pageBuffer := s3\<rparr>) = bt_map t"
      using leaf_keep [OF r2 _ t(2-6)] by blast
    have "bt_update C fuel key value t = Inr (t\<lparr>pageBuffer := s3\<rparr>)"
      using s1(1) r(1) pl e(1) False ki_def [symmetric]
      by (auto simp add: bt_update_def Let_def simp del: bindE_eq_Inr)
    then show ?thesis using e(2,3) m by simp
  qed
qed

lemma bt_erase_ok:
  assumes inv: "bt_inv C t" and fuel: "created (pageBuffer t) \<le> fuel"
  shows "\<exists>t'. bt_erase C fuel key t = Inr t' \<and> bt_inv C t' \<and> bt_map t' = (bt_map t)(key := None)"
proof -
  from inv obtain nd n h where t: "st (pageBuffer t) nd no_locks {} n" "3 \<le> n"
      "tree_ok C h nd None None (rootID t)" "distinct (ids h nd (rootID t))" "leafRoot t = (h = 0)"
      "bt_map t = map_of (kvs h nd (rootID t))" "h < created (pageBuffer t)"
    by (rule bt_invD)
  have f: "h < fuel" using t(7) fuel by simp
  obtain s1 where s1: "pin_root_for_write (rootID t) (pageBuffer t) = Inr s1"
      "st s1 nd (no_locks(rootID t := (if h = 0 then lock_mode True else Shared 1))) {} n"
    using pin_root_for_write_run [OF t(1,3,2)] by blast
  obtain c lf s2 where r: "bt_descend True fuel key (rootID t) s1 = Inr (c, s2)"
      "st s2 nd (no_locks(c := lock_mode True)) {} n" "nd c = Some (Leaf lf)" "leaf_ok C lf"
      "map_of (kvs h nd (rootID t)) key = map_of (leaf_kvs lf) key"
      "\<forall>lf' x. leaf_ok C lf' \<longrightarrow> map_of (leaf_kvs lf') = (map_of (leaf_kvs lf))(key := x) \<longrightarrow>
         set (leaf_keys lf') \<subseteq> insert key (set (leaf_keys lf)) \<longrightarrow>
         changed_tree C h nd (nd(c \<mapsto> Leaf lf')) None None (rootID t) key x"
    using bt_descend_run [OF s1(2) t(3,4) bound_simps(1) bound_simps(3) t(2) f refl, of key] by blast
  have r2: "st s2 nd (no_locks(c := Exclusive)) {} n" using r(2) by (simp only: lock_mode_simps)
  define ki where "ki = lower_bound (keys lf) (lsize lf) key"
  note lf = leaf_found [OF r(4) ki_def]
  have pl: "page_leaf c s2 = Inr lf" by (rule page_leaf_run [OF r2 r(3)]) simp
  show ?thesis
  proof (cases "ki < lsize lf \<and> keys lf ! ki = key")
    case True
    note er = leaf_erase_ok [OF r(4) ki_def conjunct1 [OF True] conjunct2 [OF True]]
    have sub: "set (leaf_keys (leaf_erase ki lf)) \<subseteq> insert key (set (leaf_keys lf))" using er(3) by blast
    have "changed_tree C h nd (nd(c \<mapsto> Leaf (leaf_erase ki lf))) None None (rootID t) key None"
      using r(6) er(1,2) sub by blast
    from leaf_write [OF r2 t(2) this t(5,6)] obtain s3 s4 where e: "ps_put c (Leaf (leaf_erase ki lf)) s2 = Inr s3"
        "ps_unpin True c s3 = Inr s4" "bt_inv C (t\<lparr>pageBuffer := s4\<rparr>)"
        "bt_map (t\<lparr>pageBuffer := s4\<rparr>) = (bt_map t)(key := None)" by blast
    have "bt_erase C fuel key t = Inr (t\<lparr>pageBuffer := s4\<rparr>)"
      using s1(1) r(1) pl e(1,2) True ki_def [symmetric]
      by (simp add: bt_erase_def Let_def del: bindE_eq_Inr)
    then show ?thesis using e(3,4) by simp
  next
    case False
    have m: "bt_map t key = None"
      using leaf_lookup_None [OF r(4), of key] lf(2) False r(5) t(6) by simp
    obtain s3 where e: "ps_unpin False c s2 = Inr s3" "bt_inv C (t\<lparr>pageBuffer := s3\<rparr>)"
        "bt_map (t\<lparr>pageBuffer := s3\<rparr>) = bt_map t"
      using leaf_keep [OF r2 _ t(2-6)] by blast
    have "bt_erase C fuel key t = Inr (t\<lparr>pageBuffer := s3\<rparr>)"
      using s1(1) r(1) pl e(1) False ki_def [symmetric]
      by (auto simp add: bt_erase_def Let_def simp del: bindE_eq_Inr)
    then show ?thesis using e(2,3) m by (auto simp: fun_eq_iff)
  qed
qed

lemma bt_find_ok:
  assumes inv: "bt_inv C t" and fuel: "created (pageBuffer t) \<le> fuel"
  shows "\<exists>t'. bt_find C fuel key t = Inr (bt_map t key, t') \<and> bt_inv C t' \<and> bt_map t' = bt_map t"
proof -
  from inv obtain nd n h where t: "st (pageBuffer t) nd no_locks {} n" "3 \<le> n"
      "tree_ok C h nd None None (rootID t)" "distinct (ids h nd (rootID t))" "leafRoot t = (h = 0)"
      "bt_map t = map_of (kvs h nd (rootID t))" "h < created (pageBuffer t)"
    by (rule bt_invD)
  have f: "h < fuel" using t(7) fuel by simp
  obtain x where x: "nd (rootID t) = Some x" using t(3) by (cases h) auto
  have room: "card (held_of no_locks) < n" using t(2) by simp
  obtain s1 where s1: "ps_pin False (\<lambda>_. False) (rootID t) (pageBuffer t) = Inr s1"
      "st s1 nd (no_locks(rootID t := Shared 1)) {} n"
    using st_pin [OF t(1) x _ room, of "\<lambda>_. False"] by auto
  have l: "Shared 1 = (if h = 0 then lock_mode False else Shared 1)" by simp
  obtain c lf s2 where r: "bt_descend False fuel key (rootID t) s1 = Inr (c, s2)"
      "st s2 nd (no_locks(c := lock_mode False)) {} n" "nd c = Some (Leaf lf)" "leaf_ok C lf"
      "map_of (kvs h nd (rootID t)) key = map_of (leaf_kvs lf) key"
    using bt_descend_run [OF s1(2) t(3,4) bound_simps(1) bound_simps(3) t(2) f l, of key] by blast
  have r2: "st s2 nd (no_locks(c := Shared 1)) {} n" using r(2) by (simp only: lock_mode_simps)
  define ki where "ki = lower_bound (keys lf) (lsize lf) key"
  have pl: "page_leaf c s2 = Inr lf" by (rule page_leaf_run [OF r2 r(3)]) simp
  have m: "bt_map t key = (if ki < lsize lf \<and> keys lf ! ki = key then Some (vals lf ! ki) else None)"
    using leaf_lookup [OF r(4), of ki key] leaf_lookup_None [OF r(4), of key] leaf_found(2) [OF r(4) ki_def]
      r(5) t(6) by auto
  obtain s3 where e: "ps_unpin False c s2 = Inr s3" "bt_inv C (t\<lparr>pageBuffer := s3\<rparr>)"
      "bt_map (t\<lparr>pageBuffer := s3\<rparr>) = bt_map t"
    using leaf_keep [OF r2 _ t(2-6)] by blast
  have "bt_find C fuel key t = Inr (bt_map t key, t\<lparr>pageBuffer := s3\<rparr>)"
    using s1(1) r(1) pl e(1) ki_def [symmetric] unfolding m
    by (simp add: bt_find_def Let_def del: bindE_eq_Inr)
  then show ?thesis using e(2,3) by blast
qed

section \<open>A map for its callers\<close>

text \<open>
  The operations with the number of pages as fuel: a descent visits every page at most once.
\<close>

definition bt_fuel :: "('k, 'v) btree \<Rightarrow> nat" where
  "bt_fuel t = created (pageBuffer t)"

interpretation bmap: kv_store "\<lambda>t. bt_config C \<and> bt_inv C t" bt_map
  "\<lambda>k v t. bt_insert C (bt_fuel t) k v t" "\<lambda>k v t. bt_update C (bt_fuel t) k v t"
  "\<lambda>k t. bt_erase C (bt_fuel t) k t" "\<lambda>k t. bt_find C (bt_fuel t) k t"
  for C :: "('k::linorder, 'v::plus) bconfig"
proof (unfold_locales, goal_cases)
  case (1 t k v)
  then show ?case using bt_insert_ok [of C t "bt_fuel t" k v] unfolding bt_fuel_def by blast
next
  case (2 t k v)
  then show ?case using bt_update_ok [of C t "bt_fuel t" k v] unfolding bt_fuel_def map_update_def by blast
next
  case (3 t k)
  then show ?case using bt_erase_ok [of C t "bt_fuel t" k] unfolding bt_fuel_def by blast
next
  case (4 t k)
  then show ?case using bt_find_ok [of C t "bt_fuel t" k] unfolding bt_fuel_def by blast
qed

section \<open>A new tree\<close>

lemma new_leaf_ok: "leaf_ok C (new_leaf C)" "leaf_kvs (new_leaf C) = []" "leaf_keys (new_leaf C) = []"
  by (simp_all add: leaf_ok_def new_leaf_def leaf_kvs_def leaf_keys_def leaf_vals_def)

lemma bt_new_ok:
  assumes "st s nd no_locks {} n" "3 \<le> n"
  shows "\<exists>t. bt_new C s = Inr t \<and> bt_inv C t \<and> bt_map t = Map.empty"
proof -
  have room: "card (held_of no_locks) < n" using assms(2) by simp
  obtain r s1 y where r: "pin_new s = Inr (r, s1)"
      "st s1 (nd(r \<mapsto> y)) (no_locks(r := Exclusive)) {r} n"
    using pin_new_run [OF assms(1) room] by blast
  obtain s2 where s2: "initializeNode C r True s1 = Inr s2"
      "st s2 (nd(r \<mapsto> Leaf (new_leaf C))) (no_locks(r := Exclusive)) {r} n"
    using st_put [OF r(2), of r "Leaf (new_leaf C)"] by (auto simp: initializeNode_def new_bnode_def)
  obtain s3 where s3: "ps_unpin True r s2 = Inr s3" "st s3 (nd(r \<mapsto> Leaf (new_leaf C))) no_locks {} n"
    using st_unpin_last [OF s2(2), of True] by auto
  define t :: "('a, 'b) btree" where
    "t = \<lparr>pageBuffer = s3, rootID = r, leafRoot = True, hdrFile = ftruncate empty_file 16\<rparr>"
  have t: "st (pageBuffer t) (nd(r \<mapsto> Leaf (new_leaf C))) no_locks {} n"
      "tree_ok C 0 (nd(r \<mapsto> Leaf (new_leaf C))) None None (rootID t)"
      "distinct (ids 0 (nd(r \<mapsto> Leaf (new_leaf C))) (rootID t))" "leafRoot t = (0 = (0 :: nat))"
    using s3(2) by (simp_all add: t_def new_leaf_ok)
  have "bt_new C s = Inr t"
    using r(1) s2(1) s3(1) by (simp add: bt_new_def t_def del: bindE_eq_Inr)
  moreover have "bt_map t = Map.empty"
    using bt_invI(4) [OF t(1) assms(2) t(2-4)] by (simp add: t_def new_leaf_ok)
  ultimately show ?thesis using bt_invI(1) [OF t(1) assms(2) t(2-4)] by blast
qed

section \<open>Flushing and opening\<close>

lemma enc_bt_hdr_ok:
  assumes "root < 2 ^ 64"
  shows "length (enc_bt_hdr root leaf) = 16" "dec_uint (take 8 (enc_bt_hdr root leaf)) = root"
    "(enc_bt_hdr root leaf ! 8 \<noteq> 0) = leaf"
  using assms by (simp_all add: enc_bt_hdr_def nth_append)


lemma bt_flush_inv:
  assumes "bt_inv C t"
  shows "bt_inv C (bt_flush t)" "bt_map (bt_flush t) = bt_map t"
proof -
  from assms obtain nd n h where t: "st (pageBuffer t) nd no_locks {} n" "3 \<le> n"
      "tree_ok C h nd None None (rootID t)" "distinct (ids h nd (rootID t))" "leafRoot t = (h = 0)"
      "bt_map t = map_of (kvs h nd (rootID t))"
    by (rule bt_invD)
  have "st (pageBuffer (bt_flush t)) nd no_locks {} n"
    using t(1) by (auto simp: bt_flush_def ps_flush_def st_def ps_inv_def ps_held_def)
  moreover have "rootID (bt_flush t) = rootID t" "leafRoot (bt_flush t) = (h = 0)"
    using t(5) by (simp_all add: bt_flush_def)
  ultimately show "bt_inv C (bt_flush t)" "bt_map (bt_flush t) = bt_map t"
    using bt_invI(1,4) [of "bt_flush t" nd n C h] t(2-4,6) by simp_all
qed

lemma bt_flush_open_ok:
  assumes "bt_inv C t" "rootID t < 2 ^ 64"
  shows "\<exists>t'. bt_open (hdrFile (bt_flush t)) (ps_reopen (pageBuffer (bt_flush t))) = Inr t' \<and>
           bt_inv C t' \<and> bt_map t' = bt_map t"
proof -
  from assms(1) obtain nd n h where t: "st (pageBuffer t) nd no_locks {} n" "3 \<le> n"
      "tree_ok C h nd None None (rootID t)" "distinct (ids h nd (rootID t))" "leafRoot t = (h = 0)"
      "bt_map t = map_of (kvs h nd (rootID t))"
    by (rule bt_invD)
  let ?s = "ps_reopen (pageBuffer (bt_flush t))" and ?f = "hdrFile (bt_flush t)"
  define t' :: "('a, 'b) btree" where
    "t' = \<lparr>pageBuffer = ?s, rootID = rootID t, leafRoot = leafRoot t, hdrFile = ?f\<rparr>"
  note e = enc_bt_hdr_ok [OF assms(2), of "leafRoot t"]
  have "pread ?f 16 0 = enc_bt_hdr (rootID t) (leafRoot t)"
    unfolding bt_flush_def by (simp add: e(1))
  then have "bt_open ?f ?s = Inr t'" using e by (simp add: bt_open_def Let_def t'_def)
  moreover have s: "st (pageBuffer t') nd no_locks {} n"
    using t(1) by (auto simp: t'_def bt_flush_def ps_reopen_def ps_flush_def st_def ps_inv_def ps_held_def)
  have "tree_ok C h nd None None (rootID t')" "distinct (ids h nd (rootID t'))" "leafRoot t' = (h = 0)"
    using t(3-5) by (simp_all add: t'_def)
  note i = bt_invI [OF s t(2) this]
  have "bt_map t' = bt_map t" using i(4) t(6) by (simp add: t'_def)
  ultimately show ?thesis using i(1) by blast
qed

section \<open>Order\<close>

lemma leaf_keys_sorted: "leaf_ok C l \<Longrightarrow> sorted_wrt (<) (map fst (leaf_kvs l))"
  using leaf_okD(4,7) by metis

lemma between_kvs_sorted:
  assumes "\<And>lo hi c. tree_ok C h nd lo hi c \<Longrightarrow> sorted_wrt (<) (map fst (kvs h nd c))"
  shows "between (tree_ok C h nd) lo ps cs hi \<Longrightarrow> \<forall>p \<in> set ps. gt_lo lo p \<Longrightarrow> sorted_wrt (<) ps \<Longrightarrow>
    sorted_wrt (<) (map fst (concat (map (kvs h nd) cs))) \<and>
    (\<forall>k \<in> fst ` set (concat (map (kvs h nd) cs)). gt_lo lo k)"
proof (induction "tree_ok C h nd" lo ps cs hi rule: between.induct)
  case (1 lo c hi)
  then show ?case using assms kvs_range by fastforce
next
  case (2 lo p ps c cs hi)
  have c: "tree_ok C h nd lo (Some p) c" "between (tree_ok C h nd) (Some p) ps cs hi" using 2(2) by simp_all
  have ps: "\<forall>q \<in> set ps. gt_lo (Some p) q" "sorted_wrt (<) ps" using 2(4) by simp_all
  note IH = 2(1) [OF c(2) ps]
  have l: "\<forall>k \<in> fst ` set (kvs h nd c). gt_lo lo k \<and> k \<le> p" using kvs_range [OF c(1)] by auto
  have r: "\<forall>k \<in> fst ` set (concat (map (kvs h nd) cs)). p < k" using IH by simp
  have lp: "gt_lo lo p" using 2(3) by simp
  have up: "\<forall>k \<in> fst ` set (concat (map (kvs h nd) cs)). gt_lo lo k"
    using r above_trans [OF lp] by (meson less_imp_le)
  have "sorted_wrt (<) (map fst (kvs h nd c) @ map fst (concat (map (kvs h nd) cs)))"
    unfolding sorted_wrt_append
  proof (intro conjI ballI)
    show "sorted_wrt (<) (map fst (kvs h nd c))" by (rule assms [OF c(1)])
    show "sorted_wrt (<) (map fst (concat (map (kvs h nd) cs)))" using IH by blast
    fix x y assume "x \<in> set (map fst (kvs h nd c))" "y \<in> set (map fst (concat (map (kvs h nd) cs)))"
    then have "x \<le> p" "p < y" using l r by (simp_all only: set_map)
    then show "x < y" by simp
  qed
  then show ?case using l up by (simp del: set_concat) blast
qed auto

text \<open>The pairs of the leaves, from left to right, have increasing keys.\<close>

lemma kvs_sorted: "tree_ok C h nd lo hi i \<Longrightarrow> sorted_wrt (<) (map fst (kvs h nd i))"
proof (induction h arbitrary: lo hi i)
  case 0
  then show ?case using leaf_keys_sorted by auto
next
  case (Suc h)
  then obtain n where n: "nd i = Some (Inner n)" "inner_ok C n" "\<forall>p \<in> set (seps n). gt_lo lo p \<and> lt_hi hi p"
      "between (tree_ok C h nd) lo (seps n) (kids n) hi" by auto
  have "sorted_wrt (<) (map fst (concat (map (kvs h nd) (kids n))))"
    using between_kvs_sorted [of C h nd lo "seps n" "kids n" hi, OF _ n(4) _ inner_okD(4) [OF n(2)]] Suc.IH n(3)
    by blast
  then show ?case using n(1) by simp
qed

section \<open>Printing\<close>

definition page_text :: "('k \<Rightarrow> string) \<Rightarrow> ('v \<Rightarrow> string) \<Rightarrow> (nat \<rightharpoonup> ('k, 'v) bnode) \<Rightarrow> nat \<Rightarrow> string" where
  "page_text showK showV nd i = (case nd i of None \<Rightarrow> '''' | Some x \<Rightarrow> bt_print_page showK showV i x)"

definition forest_ids :: "(nat \<rightharpoonup> ('k, 'v) bnode) \<Rightarrow> (nat \<times> nat) list \<Rightarrow> nat list" where
  "forest_ids nd q = concat (map (\<lambda>(h, i). ids h nd i) q)"

text \<open>The queue of the level-order traversal is a forest; the loop prints each of its pages once.\<close>

lemma bt_print_loop_run:
  assumes "\<forall>(h, i) \<in> set q. \<exists>lo hi. tree_ok C h nd lo hi i" "st s nd no_locks {} n" "1 \<le> n"
    "length (forest_ids nd q) < fuel"
  shows "\<exists>s' is. bt_print_loop showK showV fuel (map snd q) s =
             Inr (concat (map (page_text showK showV nd) is), s') \<and>
           st s' nd no_locks {} n \<and> mset is = mset (forest_ids nd q)"
  using assms
proof (induction fuel arbitrary: q s)
  case (Suc fuel q s)
  show ?case
  proof (cases q)
    case Nil
    then show ?thesis using Suc.prems(2) by (intro exI [of _ s] exI [of _ "[]"]) (simp add: forest_ids_def)
  next
    case (Cons hi q')
    obtain h i where hi: "hi = (h, i)" by (cases hi)
    obtain lo hb where ok: "tree_ok C h nd lo hb i" using Suc.prems(1) Cons hi by auto
    obtain x where x: "nd i = Some x" using ok by (cases h) auto
    have room: "card (held_of no_locks) < n" using Suc.prems(3) by simp
    obtain s1 where s1: "ps_pin False (\<lambda>_. False) i s = Inr s1" "st s1 nd (no_locks(i := Shared 1)) {} n"
      using st_pin [OF Suc.prems(2) x _ room, of "\<lambda>_. False"] by auto
    have g: "ps_get i s1 = Inr x" by (rule st_get [OF s1(2) x]) simp
    obtain s2 where s2: "ps_unpin False i s1 = Inr s2" "st s2 nd no_locks {} n"
      using st_unpin_last [OF s1(2), of False] by auto
    define q2 where "q2 = q' @ (case x of Leaf l \<Rightarrow> [] | Inner y \<Rightarrow> map (\<lambda>c. (h - 1, c)) (kids y))"
    have q2: "map snd q2 = (case x of Leaf l \<Rightarrow> map snd q' | Inner y \<Rightarrow> map snd q' @ take (isize y + 1) (children y))"
      by (simp add: q2_def kids_def comp_def split: bnode.split)
    have sub: "mset (ids h nd i) = add_mset i (mset (forest_ids nd
        (case x of Leaf l \<Rightarrow> [] | Inner y \<Rightarrow> map (\<lambda>c. (h - 1, c)) (kids y))))"
      using ok x by (cases h) (auto simp: forest_ids_def comp_def)
    have ms: "mset (forest_ids nd q) = add_mset i (mset (forest_ids nd q2))"
      using sub by (simp add: Cons hi q2_def) (simp add: forest_ids_def)
    have ok2: "\<forall>(h, i) \<in> set q2. \<exists>lo hi. tree_ok C h nd lo hi i"
    proof (cases x)
      case (Leaf l)
      then show ?thesis using Suc.prems(1) Cons by (simp add: q2_def)
    next
      case (Inner y)
      obtain k where k: "h = Suc k" using ok x Inner by (cases h) auto
      then have "between (tree_ok C k nd) lo (seps y) (kids y) hb" using ok x Inner by simp
      then have "\<forall>c \<in> set (kids y). \<exists>lo hi. tree_ok C k nd lo hi c" using between_nth by blast
      then show ?thesis using Suc.prems(1) Cons Inner k by (auto simp: q2_def)
    qed
    have "length (forest_ids nd q) = Suc (length (forest_ids nd q2))"
      using ms by (metis size_mset size_add_mset)
    then have f: "length (forest_ids nd q2) < fuel" using Suc.prems(4) by simp
    obtain s' "is" where r: "bt_print_loop showK showV fuel (map snd q2) s2 =
          Inr (concat (map (page_text showK showV nd) is), s')"
        "st s' nd no_locks {} n" "mset is = mset (forest_ids nd q2)"
      using Suc.IH [OF ok2 s2(2) Suc.prems(3) f] by blast
    have "bt_print_loop showK showV (Suc fuel) (map snd q) s =
        Inr (concat (map (page_text showK showV nd) (i # is)), s')"
      using s1(1) g s2(1) r(1) x
      by (simp add: Cons hi Let_def q2 page_text_def del: bindE_eq_Inr split: bnode.splits)
    moreover have "mset (i # is) = mset (forest_ids nd q)" using r(3) ms by simp
    ultimately show ?thesis using r(2) by blast
  qed
qed simp

lemma bt_print_ok:
  assumes "bt_inv C t" "created (pageBuffer t) < fuel"
  shows "\<exists>is t'. bt_print showK showV fuel t = Inr (''digraph{'' @ [CHR 0x0A] @
             concat (map (page_text showK showV (nodes (pageBuffer t))) is) @ ''}'', t') \<and>
           distinct is \<and> set is = set (ids (bt_height t) (nodes (pageBuffer t)) (rootID t)) \<and>
           bt_inv C t' \<and> bt_map t' = bt_map t"
proof -
  let ?nd = "nodes (pageBuffer t)" and ?h = "bt_height t" and ?n = "slots (pageBuffer t)"
  have t: "st (pageBuffer t) ?nd no_locks {} ?n" "3 \<le> ?n" "tree_ok C ?h ?nd None None (rootID t)"
      "distinct (ids ?h ?nd (rootID t))" "leafRoot t = (?h = 0)"
    using assms(1) by (simp_all add: bt_inv_def Let_def)
  have "ps_inv (pageBuffer t)" using t(1) by (simp add: st_def)
  then have d: "dom ?nd = id_seq (pageBuffer t) ` {..<created (pageBuffer t)}" by (rule ps_invD(2))
  have "length (ids ?h ?nd (rootID t)) = card (set (ids ?h ?nd (rootID t)))"
    using t(4) by (simp add: distinct_card)
  also have "\<dots> \<le> card (id_seq (pageBuffer t) ` {..<created (pageBuffer t)})"
    using wf_dom [OF t(3)] unfolding d by (intro card_mono) auto
  also have "\<dots> \<le> created (pageBuffer t)" using card_image_le [of "{..<created (pageBuffer t)}"] by simp
  finally have f: "length (forest_ids ?nd [(?h, rootID t)]) < fuel"
    using assms(2) by (simp add: forest_ids_def)
  have q: "\<forall>(h, i) \<in> set [(?h, rootID t)]. \<exists>lo hi. tree_ok C h ?nd lo hi i" using t(3) by auto
  have n: "1 \<le> ?n" using t(2) by simp
  obtain s' "is" where r: "bt_print_loop showK showV fuel [rootID t] (pageBuffer t) =
        Inr (concat (map (page_text showK showV ?nd) is), s')"
      "st s' ?nd no_locks {} ?n" "mset is = mset (ids ?h ?nd (rootID t))"
    using bt_print_loop_run [OF q t(1) n f, of showK showV] by (auto simp: forest_ids_def)
  let ?t = "t\<lparr>pageBuffer := s'\<rparr>"
  have b: "st (pageBuffer ?t) ?nd no_locks {} ?n" "tree_ok C ?h ?nd None None (rootID ?t)"
      "distinct (ids ?h ?nd (rootID ?t))" "leafRoot ?t = (?h = 0)"
    using r(2) t(3-5) by simp_all
  note i = bt_invI [OF b(1) t(2) b(2-4)]
  have "bt_map ?t = bt_map t" using i(4) by (simp add: bt_map_def bt_list_def)
  moreover have "distinct is" "set is = set (ids ?h ?nd (rootID t))"
    using r(3) t(4) mset_eq_imp_distinct_iff mset_eq_setD by blast+
  ultimately show ?thesis using r(1) i(1)
    by (intro exI [of _ "is"] exI [of _ ?t]) (simp add: bt_print_def)
qed

end
