(* ===== verification/BTreeProps.thy ===== *)
theory BTreeProps
  imports BTreeMap
begin

text \<open>
  The properties of the B+-tree, and a small tree on which they are applied: capacity two in
  leaves and inner nodes, a root with two full leaves, so that an insert splits.
\<close>

section \<open>A small tree\<close>

definition demo_config :: "(nat, int) bconfig" where
  "demo_config = \<lparr>LEAF_N = 2, INNER_N = 2, anyKey = 0, anyVal = 0\<rparr>"

definition demo_nodes :: "nat \<rightharpoonup> (nat, int) bnode" where
  "demo_nodes =
     [0 \<mapsto> Inner \<lparr>pivots = [5, 0], children = [1, 2, 0], isize = 1\<rparr>,
      1 \<mapsto> Leaf \<lparr>keys = [3, 5], vals = [30, 50], lsize = 2\<rparr>,
      2 \<mapsto> Leaf \<lparr>keys = [7, 9], vals = [70, 90], lsize = 2\<rparr>]"

definition demo_store :: "(nat, int) bnode pstore" where
  "demo_store =
     \<lparr>slots = 3, nodes = demo_nodes, locks = no_locks, changed = {}, id_seq = (\<lambda>i. i), created = 3,
      stale = (\<lambda>_. Leaf \<lparr>keys = [], vals = [], lsize = 0\<rparr>), stored = Map.empty\<rparr>"

definition demo_tree :: "(nat, int) btree" where
  "demo_tree = \<lparr>pageBuffer = demo_store, rootID = 0, leafRoot = False, hdrFile = empty_file\<rparr>"

lemma demo_dom: "dom demo_nodes = {..<3}"
  by (auto simp: demo_nodes_def)

lemma demo_st: "st demo_store demo_nodes no_locks {} 3"
  by (simp add: st_def demo_store_def ps_inv_def ps_held_def demo_dom)

lemma demo_ok:
  "tree_ok demo_config (Suc 0) demo_nodes None None 0" "distinct (ids (Suc 0) demo_nodes 0)"
  "kvs (Suc 0) demo_nodes 0 = [(3, 30), (5, 50), (7, 70), (9, 90)]"
  by (simp_all add: demo_nodes_def demo_config_def inner_ok_def seps_def kids_def leaf_ok_def
      leaf_keys_def leaf_kvs_def leaf_vals_def take_Cons')

lemma demo_inv: "bt_inv demo_config demo_tree" "bt_map demo_tree = map_of [(3, 30), (5, 50), (7, 70), (9, 90)]"
proof -
  have s: "st (pageBuffer demo_tree) demo_nodes no_locks {} 3" using demo_st by (simp add: demo_tree_def)
  have r: "rootID demo_tree = 0" "leafRoot demo_tree = (Suc 0 = 0)" by (simp_all add: demo_tree_def)
  note i = bt_invI [OF s, of demo_config "Suc 0", unfolded r, OF _ demo_ok(1,2)]
  show "bt_inv demo_config demo_tree" "bt_map demo_tree = map_of [(3, 30), (5, 50), (7, 70), (9, 90)]"
    using i(1,4) r(2) demo_ok(3) by simp_all
qed

lemma demo_sizes [simp]:
  "bt_config demo_config" "created (pageBuffer demo_tree) = 3" "rootID demo_tree = 0"
  by (simp_all add: bt_config_def demo_config_def demo_tree_def demo_store_def)

section \<open>The operations as operations on a map\<close>

text \<open>
  C3. Inserting overwrites or adds exactly one key of the map, whatever splits this takes. The call
  returns: no assertion fails, no array is left, no page is locked twice, the buffer does not
  run full with three slots, and the number of pages is enough as a bound of the descent. The
  invariant holds again afterwards, with no page pinned and no change unsaved.
\<close>
theorem bt_insert_correct:
  assumes "bt_inv C t" "bt_config C" "created (pageBuffer t) \<le> fuel"
  shows "\<exists>t'. bt_insert C fuel key value t = Inr t' \<and> bt_inv C t' \<and>
           bt_map t' = (bt_map t)(key \<mapsto> value) \<and> rootID t' = rootID t"
  by (rule bt_insert_ok [OF assms])

theorem bt_insert_correct_witness:
  "\<exists>t'. bt_insert demo_config 3 6 60 demo_tree = Inr t' \<and> bt_inv demo_config t' \<and>
     bt_map t' = (bt_map demo_tree)(6 \<mapsto> 60) \<and> rootID t' = rootID demo_tree"
  by (rule bt_insert_correct [OF demo_inv(1)]) simp_all

text \<open>
  An update adds to the value of a key that is present and changes nothing otherwise.
\<close>
theorem bt_update_correct:
  assumes "bt_inv C t" "created (pageBuffer t) \<le> fuel"
  shows "\<exists>t'. bt_update C fuel key value t = Inr t' \<and> bt_inv C t' \<and>
           bt_map t' = (case bt_map t key of None \<Rightarrow> bt_map t | Some v \<Rightarrow> (bt_map t)(key \<mapsto> v + value))"
  by (rule bt_update_ok [OF assms])

theorem bt_update_correct_witness:
  "\<exists>t'. bt_update demo_config 3 7 1 demo_tree = Inr t' \<and> bt_inv demo_config t' \<and>
     bt_map t' = (bt_map demo_tree)(7 \<mapsto> 71)"
  using bt_update_correct [OF demo_inv(1), of 3 7 1] by (simp add: demo_inv(2))

text \<open>C26. Erasing removes exactly the key.\<close>
theorem bt_erase_correct:
  assumes "bt_inv C t" "created (pageBuffer t) \<le> fuel"
  shows "\<exists>t'. bt_erase C fuel key t = Inr t' \<and> bt_inv C t' \<and> bt_map t' = (bt_map t)(key := None)"
  by (rule bt_erase_ok [OF assms])

theorem bt_erase_correct_witness:
  "\<exists>t'. bt_erase demo_config 3 5 demo_tree = Inr t' \<and> bt_inv demo_config t' \<and>
     bt_map t' = (bt_map demo_tree)(5 := None)"
  by (rule bt_erase_correct [OF demo_inv(1)]) simp

text \<open>C25. A lookup answers with the value of the key in the map, and changes nothing.\<close>
theorem bt_find_correct:
  assumes "bt_inv C t" "created (pageBuffer t) \<le> fuel"
  shows "\<exists>t'. bt_find C fuel key t = Inr (bt_map t key, t') \<and> bt_inv C t' \<and> bt_map t' = bt_map t"
  by (rule bt_find_ok [OF assms])

theorem bt_find_correct_witness:
  "\<exists>t'. bt_find demo_config 3 9 demo_tree = Inr (Some 90, t') \<and> bt_inv demo_config t' \<and>
     bt_map t' = bt_map demo_tree"
  using bt_find_correct [OF demo_inv(1), of 3 9] by (simp add: demo_inv(2))

text \<open>
  C4. Every sequence of calls on a new tree gives the answers of a map that starts empty, and
  ends in a tree with the invariant that stands for the map after the same operations.
\<close>
theorem bt_run_as_map:
  assumes "st s nd no_locks {} n" "3 \<le> n" "bt_config C" "bt_new C s = Inr t"
  shows "\<exists>t'. kv_run (kv_step (\<lambda>k v t. bt_insert C (bt_fuel t) k v t) (\<lambda>k v t. bt_update C (bt_fuel t) k v t)
             (\<lambda>k t. bt_erase C (bt_fuel t) k t) (\<lambda>k t. bt_find C (bt_fuel t) k t)) ops t =
           Inr (kv_answers ops Map.empty, t') \<and>
         bt_inv C t' \<and> bt_map t' = fold kv_apply ops Map.empty"
  using bt_new_ok [OF assms(1,2), of C] bmap.run_law [of C t ops] assms(3,4) by auto

lemma demo_new_st: "st (ps_new 3 (\<lambda>i. i) (\<lambda>_. Leaf (new_leaf demo_config))) Map.empty no_locks {} 3"
  by (simp add: st_def ps_new_inv) (simp add: ps_new_def)

theorem bt_run_as_map_witness:
  "\<exists>t t'. bt_new demo_config (ps_new 3 (\<lambda>i. i) (\<lambda>_. Leaf (new_leaf demo_config))) = Inr t \<and>
     kv_run (kv_step (\<lambda>k v t. bt_insert demo_config (bt_fuel t) k v t)
         (\<lambda>k v t. bt_update demo_config (bt_fuel t) k v t)
         (\<lambda>k t. bt_erase demo_config (bt_fuel t) k t) (\<lambda>k t. bt_find demo_config (bt_fuel t) k t))
       [KInsert 4 2, KInsert 1 3, KUpdate 4 5, KFind 4, KErase 4, KFind 4] t =
     Inr ([None, None, None, Some 7, None, None], t')"
proof -
  obtain t where t: "bt_new demo_config (ps_new 3 (\<lambda>i. i) (\<lambda>_. Leaf (new_leaf demo_config))) = Inr t"
    using bt_new_ok [OF demo_new_st, of demo_config] by auto
  have "kv_answers [KInsert 4 2, KInsert 1 3, KUpdate 4 5, KFind 4, KErase 4, KFind 4] (Map.empty :: nat \<rightharpoonup> int) =
      [None, None, None, Some 7, None, None]"
    by (simp add: map_update_def)
  with bt_run_as_map [OF demo_new_st _ _ t, of "[KInsert 4 2, KInsert 1 3, KUpdate 4 5, KFind 4, KErase 4, KFind 4]"] t
  show ?thesis by auto
qed

text \<open>
  C27. After any operation that returns, no page is locked and no page has a change that the
  buffer was not told of, so that every page can be evicted and is saved when it is.
\<close>
theorem bt_step_releases:
  assumes "bt_inv C t" "bt_config C"
    "kv_step (\<lambda>k v t. bt_insert C (bt_fuel t) k v t) (\<lambda>k v t. bt_update C (bt_fuel t) k v t)
       (\<lambda>k t. bt_erase C (bt_fuel t) k t) (\<lambda>k t. bt_find C (bt_fuel t) k t) op t = Inr (a, t')"
  shows "locks (pageBuffer t') = no_locks \<and> changed (pageBuffer t') = {}"
proof -
  have "bt_inv C t'" using bmap.step_law [of C t op] assms by auto
  then show ?thesis by (rule bt_invD) (simp add: st_def)
qed

theorem bt_step_releases_witness:
  "\<exists>t'. kv_step (\<lambda>k v t. bt_insert demo_config (bt_fuel t) k v t)
       (\<lambda>k v t. bt_update demo_config (bt_fuel t) k v t)
       (\<lambda>k t. bt_erase demo_config (bt_fuel t) k t) (\<lambda>k t. bt_find demo_config (bt_fuel t) k t)
       (KErase 9) demo_tree = Inr (None, t') \<and>
     locks (pageBuffer t') = no_locks \<and> changed (pageBuffer t') = {}"
proof -
  obtain t' where "kv_step (\<lambda>k v t. bt_insert demo_config (bt_fuel t) k v t)
       (\<lambda>k v t. bt_update demo_config (bt_fuel t) k v t)
       (\<lambda>k t. bt_erase demo_config (bt_fuel t) k t) (\<lambda>k t. bt_find demo_config (bt_fuel t) k t)
       (KErase 9) demo_tree = Inr (None, t')"
    using bmap.step_law [of demo_config demo_tree "KErase 9"] demo_inv(1) by auto
  with bt_step_releases [OF demo_inv(1) _ this] show ?thesis by simp
qed

text \<open>
  C28. A flushed tree is opened again with the same contents: header and pages are read back
  from what the flush has stored. The number of the root must fit its eight bytes.
\<close>
theorem bt_flush_reopen:
  assumes "bt_inv C t" "rootID t < 2 ^ 64"
  shows "\<exists>t'. bt_open (hdrFile (bt_flush t)) (ps_reopen (pageBuffer (bt_flush t))) = Inr t' \<and>
           bt_inv C t' \<and> bt_map t' = bt_map t"
  by (rule bt_flush_open_ok [OF assms])

theorem bt_flush_reopen_witness:
  "\<exists>t'. bt_open (hdrFile (bt_flush demo_tree)) (ps_reopen (pageBuffer (bt_flush demo_tree))) = Inr t' \<and>
     bt_inv demo_config t' \<and> bt_map t' = map_of [(3, 30), (5, 50), (7, 70), (9, 90)]"
  using bt_flush_reopen [OF demo_inv(1)] by (simp add: demo_inv(2))

text \<open>
  The tree is a search tree: from left to right the leaves hold increasing keys, so that
  each key is in exactly one leaf.
\<close>
theorem bt_keys_sorted:
  assumes "bt_inv C t"
  shows "sorted_wrt (<) (map fst (bt_list t))"
  using assms by (rule bt_invD) (simp add: kvs_sorted)

theorem bt_keys_sorted_witness: "sorted_wrt (<) (map fst (bt_list demo_tree))"
  by (rule bt_keys_sorted [OF demo_inv(1)])

text \<open>
  C29. Printing ends, prints every page of the tree exactly once, and leaves the tree as it is.
\<close>
theorem bt_print_complete:
  assumes "bt_inv C t" "created (pageBuffer t) < fuel"
  shows "\<exists>is t'. bt_print showK showV fuel t = Inr (''digraph{'' @ [CHR 0x0A] @
             concat (map (page_text showK showV (nodes (pageBuffer t))) is) @ ''}'', t') \<and>
           distinct is \<and> set is = set (ids (bt_height t) (nodes (pageBuffer t)) (rootID t)) \<and>
           bt_inv C t' \<and> bt_map t' = bt_map t"
  by (rule bt_print_ok [OF assms])

theorem bt_print_complete_witness:
  "\<exists>is t'. bt_print (\<lambda>k. show_nat k) (\<lambda>v. ''v'') 4 demo_tree = Inr (''digraph{'' @ [CHR 0x0A] @
       concat (map (page_text (\<lambda>k. show_nat k) (\<lambda>v. ''v'') (nodes (pageBuffer demo_tree))) is) @ ''}'', t') \<and>
     distinct is \<and> set is = set (ids (bt_height demo_tree) (nodes (pageBuffer demo_tree)) (rootID demo_tree)) \<and>
     bt_inv demo_config t' \<and> bt_map t' = bt_map demo_tree"
  by (rule bt_print_complete [OF demo_inv(1)]) simp

end
