(* ===== verification/BeNode.thy ===== *)
theory BeNode
  imports BNode
begin

text \<open>
  \<open>src/betree/BeNode.h\<close>: the nodes of the B-epsilon-tree, the messages (upserts) that its
  inner nodes buffer, and the capacities that follow from the size of a page and from
  epsilon. A leaf has the same members as in the B+-tree. The type byte of the wrapper is the
  constructor of \<open>be_node\<close>.
\<close>

section \<open>Messages\<close>

datatype upsert_type = INSERT | UPDATE | DELETE | INVALID

record ('k, 'v) upsert =
  ukey :: 'k
  uval :: 'v
  timeStamp :: nat
  utype :: upsert_type

text \<open>\<open>operator<=>\<close>: first by key, then by time stamp; against a key alone, by key.\<close>

definition upsert_less :: "('k::linorder, 'v) upsert \<Rightarrow> ('k, 'v) upsert \<Rightarrow> bool" where
  "upsert_less a b \<longleftrightarrow> (if ukey a = ukey b then timeStamp a < timeStamp b else ukey a < ukey b)"

section \<open>Nodes\<close>

record ('k, 'v) upsert_buffer =
  upserts :: "('k, 'v) upsert list"
  usize :: nat

record 'k be_root =
  rpivots :: "'k list"
  rchildren :: "nat list"
  rsize :: nat

record ('k, 'v) be_inner =
  ubuf :: "('k, 'v) upsert_buffer"
  ipivots :: "'k list"
  ichildren :: "nat list"
  innsize :: nat

datatype ('k, 'v) be_node =
    BeRoot "'k be_root"
  | BeInner "('k, 'v) be_inner"
  | BeLeaf "('k, 'v) leaf_node"

text \<open>
  The capacities, what a new array contains, whether assertions are compiled in (without them
  \<open>NDEBUG\<close> is defined), the two constants that \<open>findMedianKey\<close> converts
  to a key (\<open>0\<close> and \<open>SIZE_MAX\<close>), and what the standard library leaves open: the order in
  which an \<open>unordered_map\<close> is walked, and how \<open>std::sort\<close> orders blocks of the same size.
\<close>

record ('k, 'v) be_config = "('k, 'v) bconfig" +
  ROOT_N :: nat
  INNER_B_N :: nat
  zeroKey :: 'k
  sizeMaxKey :: 'k
  debugBuild :: bool
  mapOrder :: "(nat \<times> ('k, 'v) upsert list) list \<Rightarrow> (nat \<times> ('k, 'v) upsert list) list"
  sortBySize :: "(nat \<Rightarrow> nat) \<Rightarrow> nat list \<Rightarrow> nat list"

text \<open>What the standard promises of the last two.\<close>

definition std_ok :: "('k, 'v) be_config \<Rightarrow> bool" where
  "std_ok C \<longleftrightarrow>
     (\<forall>m. distinct (map fst m) \<longrightarrow> distinct (mapOrder C m) \<and> set (mapOrder C m) = set m) \<and>
     (\<forall>f xs. distinct xs \<longrightarrow> distinct (sortBySize C f xs) \<and> set (sortBySize C f xs) = set xs \<and>
        sorted_wrt (\<lambda>i j. f j \<le> f i) (sortBySize C f xs))"

fun asBeRoot :: "('k, 'v) be_node \<Rightarrow> 'k be_root result" where
  "asBeRoot (BeRoot n) = Inr n"
| "asBeRoot _ = Inl AssertFailed"

fun asBeInner :: "('k, 'v) be_node \<Rightarrow> ('k, 'v) be_inner result" where
  "asBeInner (BeInner n) = Inr n"
| "asBeInner _ = Inl AssertFailed"

fun asBeLeaf :: "('k, 'v) be_node \<Rightarrow> ('k, 'v) leaf_node result" where
  "asBeLeaf (BeLeaf n) = Inr n"
| "asBeLeaf _ = Inl AssertFailed"

fun is_be_leaf :: "('k, 'v) be_node \<Rightarrow> bool" where
  "is_be_leaf (BeLeaf n) = True"
| "is_be_leaf _ = False"

definition new_be_root :: "('k, 'v) be_config \<Rightarrow> 'k be_root" where
  "new_be_root C =
     \<lparr>rpivots = replicate (ROOT_N C) (anyKey C), rchildren = replicate (ROOT_N C + 1) 0, rsize = 0\<rparr>"

definition any_upsert :: "('k, 'v) be_config \<Rightarrow> ('k, 'v) upsert" where
  "any_upsert C = \<lparr>ukey = anyKey C, uval = anyVal C, timeStamp = 2 ^ 64 - 1, utype = INVALID\<rparr>"

definition new_be_inner :: "('k, 'v) be_config \<Rightarrow> ('k, 'v) be_inner" where
  "new_be_inner C =
     \<lparr>ubuf = \<lparr>upserts = replicate (INNER_B_N C) (any_upsert C), usize = 0\<rparr>,
      ipivots = replicate (INNER_N C) (anyKey C), ichildren = replicate (INNER_N C + 1) 0, innsize = 0\<rparr>"

definition new_be_leaf :: "('k, 'v) be_config \<Rightarrow> ('k, 'v) leaf_node" where
  "new_be_leaf C = new_leaf (bconfig.truncate C)"

text \<open>The constructor of the wrapper; \<open>type\<close> is one of the constants of \<open>NodeType\<close>.\<close>

definition NodeType_ROOT :: nat where "NodeType_ROOT = 0"
definition NodeType_INNER :: nat where "NodeType_INNER = 1"
definition NodeType_LEAF :: nat where "NodeType_LEAF = 2"

definition new_be_node :: "('k, 'v) be_config \<Rightarrow> nat \<Rightarrow> ('k, 'v) be_node result" where
  "new_be_node C type =
     (if type = NodeType_ROOT then Inr (BeRoot (new_be_root C))
      else if type = NodeType_INNER then Inr (BeInner (new_be_inner C))
      else if type = NodeType_LEAF then Inr (BeLeaf (new_be_leaf C))
      else raise ''Invalid node type!'')"

lemma new_be_node_simps [simp]:
  "new_be_node C NodeType_ROOT = Inr (BeRoot (new_be_root C))"
  "new_be_node C NodeType_INNER = Inr (BeInner (new_be_inner C))"
  "new_be_node C NodeType_LEAF = Inr (BeLeaf (new_be_leaf C))"
  by (simp_all add: new_be_node_def NodeType_ROOT_def NodeType_INNER_def NodeType_LEAF_def)

section \<open>Capacities\<close>

text \<open>
  \<open>sizes::NodeSizes\<close> for keys and values whose sizes are multiples of 8. \<open>dataSize\<close> stands for
  \<open>std::round(std::pow(BASE_INNER_SIZE, EPSILON / 100.0))\<close>, a floating-point computation of the
  compiler. (A negative quotient is cut off by \<open>std::max\<close>, however it is rounded.) An upsert has a time stamp of 8 bytes and a type, which is padded to 8.
\<close>

definition sizeof_upsert :: "nat \<Rightarrow> nat \<Rightarrow> nat" where
  "sizeof_upsert sk sv = sk + sv + 8 + 8"

definition sizeof_be_inner :: "nat \<Rightarrow> nat \<Rightarrow> nat \<Rightarrow> nat \<Rightarrow> nat" where
  "sizeof_be_inner sk sv bn n = bn * sizeof_upsert sk sv + 8 + n * sk + (n + 1) * 8 + 8"

definition sizeof_be_root :: "nat \<Rightarrow> nat \<Rightarrow> nat" where
  "sizeof_be_root sk n = n * sk + (n + 1) * 8 + 8"

definition base_inner_size :: "nat \<Rightarrow> nat \<Rightarrow> nat \<Rightarrow> nat" where
  "base_inner_size sk sv bytes = bytes - sizeof_be_inner sk sv 1 3"

definition be_leaf_n :: "nat \<Rightarrow> nat \<Rightarrow> nat \<Rightarrow> nat" where
  "be_leaf_n sk sv bytes = (bytes - sizeof_leaf0) div (sk + sv)"

definition be_inner_n_before_correction :: "nat \<Rightarrow> nat \<Rightarrow> nat" where
  "be_inner_n_before_correction sk dataSize =
     3 + nat (max 0 ((int dataSize - 8) div (int sk + 8)))"

definition be_inner_n :: "nat \<Rightarrow> nat \<Rightarrow> nat" where
  "be_inner_n sk dataSize =
     (let n = be_inner_n_before_correction sk dataSize in n - (1 - n mod 2))"

definition be_inner_bn :: "nat \<Rightarrow> nat \<Rightarrow> nat \<Rightarrow> nat \<Rightarrow> nat" where
  "be_inner_bn sk sv bytes dataSize =
     (let bn = (base_inner_size sk sv bytes - dataSize) div sizeof_upsert sk sv
      in if sizeof_be_inner sk sv (1 + bn + 1) (be_inner_n sk dataSize) \<le> bytes then 1 + bn + 1
         else 1 + bn)"

definition be_root_n :: "nat \<Rightarrow> nat \<Rightarrow> nat" where
  "be_root_n sk bytes =
     (let n = (bytes - sizeof_inner0 - 8) div (sk + 8) in (n + 2 ^ 64 - (1 - n mod 2)) mod 2 ^ 64)"

lemma odd_correction: "3 \<le> n \<Longrightarrow> odd (n - (1 - n mod 2)) \<and> 3 \<le> n - (1 - n mod 2)"
  for n :: nat
  by presburger

lemma be_inner_n_bound:
  "(be_inner_n sk d - 3) * (sk + 8) \<le> d"
proof -
  have "be_inner_n sk d - 3 \<le> nat (max 0 ((int d - 8) div (int sk + 8)))"
    by (simp add: be_inner_n_def be_inner_n_before_correction_def Let_def)
  also have "\<dots> \<le> d div (sk + 8)"
  proof -
    have "(int d - 8) div (int sk + 8) \<le> int d div (int sk + 8)" by (intro zdiv_mono1) auto
    also have "\<dots> = int (d div (sk + 8))" by (simp add: zdiv_int)
    finally show ?thesis by simp
  qed
  finally have "(be_inner_n sk d - 3) * (sk + 8) \<le> d div (sk + 8) * (sk + 8)" by (rule mult_le_mono1)
  then show ?thesis using div_times_less_eq_dividend order.trans by blast
qed

text \<open>
  The computed capacities are right for any page in which the smallest inner node fits: the
  number of pivots of an inner node is odd and at least three, its buffer holds at least one
  message, and inner nodes and leaves fit in front of the type byte of the wrapper.
\<close>
theorem be_capacities_fit:
  assumes "sizeof_be_inner sk sv 1 3 \<le> page - 1" "16 \<le> page - 1" "d \<le> base_inner_size sk sv (page - 1)"
  shows "odd (be_inner_n sk d) \<and> 3 \<le> be_inner_n sk d \<and> 1 \<le> be_inner_bn sk sv (page - 1) d \<and>
         sizeof_be_inner sk sv (be_inner_bn sk sv (page - 1) d) (be_inner_n sk d) < page \<and>
         sizeof_leaf sk sv (be_leaf_n sk sv (page - 1)) < page"
proof (intro conjI)
  let ?n = "be_inner_n sk d" and ?U = "sizeof_upsert sk sv" and ?b = "base_inner_size sk sv (page - 1)"
  have page: "1 \<le> page" using assms(2) by simp
  show n: "odd ?n" "3 \<le> ?n"
    using odd_correction [of "be_inner_n_before_correction sk d"]
    by (simp_all add: be_inner_n_def Let_def be_inner_n_before_correction_def)
  show "1 \<le> be_inner_bn sk sv (page - 1) d" by (simp add: be_inner_bn_def Let_def)
  have bn: "(?b - d) div ?U * ?U \<le> ?b - d" by (rule div_times_less_eq_dividend)
  obtain m where m: "?n = 3 + m" using n(2) le_Suc_ex by blast
  have "m * (sk + 8) \<le> d" using be_inner_n_bound [of sk d] m by simp
  then have "(?b - d) div ?U * ?U + m * (sk + 8) \<le> ?b" using bn assms(3) by linarith
  moreover have "?b + sizeof_be_inner sk sv 1 3 = page - 1"
    using assms(1) by (simp add: base_inner_size_def)
  moreover have "sizeof_be_inner sk sv (1 + (?b - d) div ?U) ?n =
      sizeof_be_inner sk sv 1 3 + (?b - d) div ?U * ?U + m * (sk + 8)"
    by (simp add: sizeof_be_inner_def m algebra_simps)
  ultimately have "sizeof_be_inner sk sv (1 + (?b - d) div ?U) ?n \<le> page - 1" by linarith
  then show "sizeof_be_inner sk sv (be_inner_bn sk sv (page - 1) d) ?n < page"
    using page by (auto simp: be_inner_bn_def Let_def)
  have "be_leaf_n sk sv (page - 1) * (sk + sv) \<le> page - 1 - 16"
    unfolding be_leaf_n_def sizeof_leaf0_def by (rule div_times_less_eq_dividend)
  then have "be_leaf_n sk sv (page - 1) * (sk + sv) + 8 < page" using assms(2) by linarith
  then show "sizeof_leaf sk sv (be_leaf_n sk sv (page - 1)) < page"
    by (simp add: sizeof_leaf_def algebra_simps)
qed

theorem be_capacities_fit_witness:
  "odd (be_inner_n 8 63) \<and> 3 \<le> be_inner_n 8 63 \<and> 1 \<le> be_inner_bn 8 8 4095 63 \<and>
   sizeof_be_inner 8 8 (be_inner_bn 8 8 4095 63) (be_inner_n 8 63) < 4096 \<and>
   sizeof_leaf 8 8 (be_leaf_n 8 8 4095) < 4096"
  using be_capacities_fit [of 8 8 4096 63]
  by (simp add: sizeof_be_inner_def sizeof_upsert_def base_inner_size_def)

end
