(* ===== verification/BeUpserts.thy ===== *)
theory BeUpserts
  imports BeNode "HOL-Library.Multiset"
begin

text \<open>
  The free functions at the top of \<open>src/betree/BeTree.h\<close>: squashing two messages for the same
  key, merging two sorted sequences of messages, and the median of two sorted sequences of
  keys. \<open>effect\<close> says what a message does to the value of its key; squashing and merging
  keep the effect.
\<close>

section \<open>The functions\<close>

definition squashUpserts ::
  "('k::linorder, 'v::plus) upsert \<Rightarrow> ('k, 'v) upsert \<Rightarrow> ('k, 'v) upsert result" where
  "squashUpserts upsertA upsertB =
     bindE (check (ukey upsertA = ukey upsertB)) (\<lambda>_.
     let (a, b) = (if upsert_less upsertB upsertA then (upsertB, upsertA) else (upsertA, upsertB))
     in bindE (check (\<not> upsert_less b a)) (\<lambda>_. Inr
        (case utype a of
           INSERT \<Rightarrow>
             (case utype b of
                INSERT \<Rightarrow> b
              | UPDATE \<Rightarrow> a\<lparr>timeStamp := timeStamp b, uval := uval a + uval b\<rparr>
              | DELETE \<Rightarrow> b
              | INVALID \<Rightarrow> a)
         | UPDATE \<Rightarrow>
             (case utype b of
                INSERT \<Rightarrow> b
              | UPDATE \<Rightarrow> b\<lparr>uval := uval a + uval b\<rparr>
              | DELETE \<Rightarrow> b
              | INVALID \<Rightarrow> a)
         | DELETE \<Rightarrow>
             (case utype b of
                INSERT \<Rightarrow> b
              | UPDATE \<Rightarrow> a
              | DELETE \<Rightarrow> b
              | INVALID \<Rightarrow> a)
         | INVALID \<Rightarrow> a)))"

text \<open>The output iterator is the end of the result.\<close>

fun mergeUpserts ::
  "('k::linorder, 'v::plus) upsert list \<Rightarrow> ('k, 'v) upsert list \<Rightarrow> ('k, 'v) upsert list result" where
  "mergeUpserts [] second = Inr second"
| "mergeUpserts (a # first) [] = Inr (a # first)"
| "mergeUpserts (a # first) (b # second) =
     (if ukey a = ukey b then
        bindE (squashUpserts a b) (\<lambda>c. bindE (mergeUpserts first second) (\<lambda>out. Inr (c # out)))
      else if upsert_less b a then
        bindE (mergeUpserts (a # first) second) (\<lambda>out. Inr (b # out))
      else bindE (mergeUpserts first (b # second)) (\<lambda>out. Inr (a # out)))"

text \<open>
  The binary search of \<open>findMedianKey\<close>. With \<open>partX = 0\<close> the assignment \<open>high = partX - 1\<close> wraps
  around, and the next probe is outside of the arrays.
\<close>

function median_loop ::
  "'k::linorder \<Rightarrow> 'k \<Rightarrow> 'k list \<Rightarrow> nat \<Rightarrow> 'k list \<Rightarrow> nat \<Rightarrow> nat \<Rightarrow> nat \<Rightarrow> 'k result" where
  "median_loop zero mx first firstSize second secondSize low high =
     (if low \<le> high then
        let partX = (low + high) div 2;
            partY = (firstSize + secondSize + 1) div 2 - partX;
            leftX = (if partX = 0 then zero else first ! (partX - 1));
            rightX = (if partX \<ge> firstSize then mx else first ! partX);
            leftY = (if partY = 0 then zero else second ! (partY - 1));
            rightY = (if partY \<ge> secondSize then mx else second ! partY)
        in if leftX \<le> rightY \<and> leftY \<le> rightX then Inr (max leftX leftY)
           else if leftX > rightY then
             (if partX = 0 then Inl Undefined
              else median_loop zero mx first firstSize second secondSize low (partX - 1))
           else median_loop zero mx first firstSize second secondSize (partX + 1) high
      else raise ''Invalid elements (not sorted?)'')"
  by pat_completeness auto
termination
  by (relation "measure (\<lambda>(_, _, _, _, _, _, low, high). high + 1 - low)") (auto simp: Let_def)

declare median_loop.simps [simp del]

definition findMedianKey ::
  "'k::linorder \<Rightarrow> 'k \<Rightarrow> 'k list \<Rightarrow> nat \<Rightarrow> 'k list \<Rightarrow> nat \<Rightarrow> 'k result" where
  "findMedianKey zero mx first firstSize second secondSize =
     bindE (check (firstSize \<le> length first)) (\<lambda>_.
     bindE (check (secondSize \<le> length second)) (\<lambda>_.
       if firstSize > secondSize
       then median_loop zero mx second secondSize first firstSize 0 secondSize
       else median_loop zero mx first firstSize second secondSize 0 firstSize))"

section \<open>What messages do\<close>

fun effect :: "('k, 'v::plus) upsert \<Rightarrow> 'v option \<Rightarrow> 'v option" where
  "effect u x =
     (case utype u of
        INSERT \<Rightarrow> Some (uval u)
      | UPDATE \<Rightarrow> map_option (\<lambda>v. v + uval u) x
      | DELETE \<Rightarrow> None
      | INVALID \<Rightarrow> x)"

text \<open>The messages of a sorted sequence with the given key, oldest first, applied to a value.\<close>

definition effects :: "('k, 'v::plus) upsert list \<Rightarrow> 'k \<Rightarrow> 'v option \<Rightarrow> 'v option" where
  "effects us key x = fold effect (filter (\<lambda>u. ukey u = key) us) x"

definition valid_upsert :: "('k, 'v) upsert \<Rightarrow> bool" where
  "valid_upsert u \<longleftrightarrow> utype u \<noteq> INVALID"

lemma squash_ok:
  assumes "ukey a = ukey b" "timeStamp a < timeStamp b" "valid_upsert a" "valid_upsert b"
  shows "\<exists>c. squashUpserts a b = Inr c \<and> squashUpserts b a = Inr c \<and> ukey c = ukey a \<and> valid_upsert c \<and>
           timeStamp c \<in> {timeStamp a, timeStamp b} \<and>
           (\<forall>x. effect c x = effect b (effect a (x :: 'v::semigroup_add option)))"
proof -
  have l: "upsert_less a b" "\<not> upsert_less b a" using assms(1,2) by (auto simp: upsert_less_def)
  obtain c where c: "squashUpserts a b = Inr c" using assms(1) l by (simp add: squashUpserts_def)
  have "squashUpserts b a = squashUpserts a b" using assms(1) l by (simp add: squashUpserts_def)
  moreover have "ukey c = ukey a \<and> valid_upsert c \<and> timeStamp c \<in> {timeStamp a, timeStamp b}"
    using c assms l
    by (cases "utype a"; cases "utype b") (auto simp: squashUpserts_def valid_upsert_def)
  moreover have "effect c x = effect b (effect a x)" for x :: "'v::semigroup_add option"
    using c assms l
    by (cases "utype a"; cases "utype b"; cases x)
      (auto simp: squashUpserts_def valid_upsert_def add.assoc)
  ultimately show ?thesis using c by auto
qed

text \<open>Sorted by key, one message for a key.\<close>

definition upserts_ok :: "('k::linorder, 'v) upsert list \<Rightarrow> bool" where
  "upserts_ok us \<longleftrightarrow> sorted_wrt (<) (map ukey us) \<and> (\<forall>u \<in> set us. valid_upsert u)"

lemma upserts_ok_Cons:
  "upserts_ok (u # us) \<longleftrightarrow> upserts_ok us \<and> valid_upsert u \<and> (\<forall>v \<in> set us. ukey u < ukey v)"
  by (auto simp: upserts_ok_def)

lemma effects_Cons:
  "effects (u # us) key x = effects us key (if ukey u = key then effect u x else x)"
  by (simp add: effects_def)

lemma effects_absent: "key \<notin> ukey ` set us \<Longrightarrow> effects us key x = x"
proof -
  assume "key \<notin> ukey ` set us"
  then have "filter (\<lambda>u. ukey u = key) us = []" by (auto simp: filter_empty_conv)
  then show ?thesis by (simp add: effects_def)
qed

lemma upsert_less_keys: "ukey a \<noteq> ukey b \<Longrightarrow> upsert_less a b \<longleftrightarrow> ukey a < ukey b"
  by (simp add: upsert_less_def)

lemma above_notin: "\<forall>k \<in> S. a < k \<Longrightarrow> a \<notin> S"
  for a :: "'k::order"
  by auto

text \<open>
  Merging older messages with newer ones (in either position): the result is sorted, has the
  keys of both, and its effect on every key is that of the older message and then the newer.
\<close>

definition newer :: "('k, 'v) upsert list \<Rightarrow> ('k, 'v) upsert list \<Rightarrow> bool" where
  "newer old new \<longleftrightarrow> (\<forall>a \<in> set old. \<forall>b \<in> set new. ukey a = ukey b \<longrightarrow> timeStamp a < timeStamp b)"

lemma merge_ok:
  fixes first second :: "('k::linorder, 'v::semigroup_add) upsert list"
  assumes "upserts_ok first" "upserts_ok second" "newer first second"
  shows "\<exists>out. mergeUpserts first second = Inr out \<and> upserts_ok out \<and>
           ukey ` set out = ukey ` set first \<union> ukey ` set second \<and>
           length out \<le> length first + length second \<and>
           (\<forall>u \<in> set out. \<exists>v \<in> set first \<union> set second. ukey v = ukey u \<and> timeStamp v = timeStamp u) \<and>
           (\<forall>key x. effects out key x = effects second key (effects first key x))"
  using assms
proof (induction first second rule: mergeUpserts.induct)
  case (1 second)
  then show ?case by (auto simp: effects_def)
next
  case (2 a first)
  then show ?case by (auto simp: effects_def)
next
  case (3 a first b second)
  have ok: "upserts_ok first" "upserts_ok second" "valid_upsert a" "valid_upsert b"
      "\<forall>v \<in> set first. ukey a < ukey v" "\<forall>v \<in> set second. ukey b < ukey v"
    using "3.prems"(1,2) by (auto simp: upserts_ok_Cons)
  have nw: "newer first second" "newer (a # first) second" "newer first (b # second)"
    using "3.prems"(3) by (auto simp: newer_def)
  consider (same) "ukey a = ukey b" | (right) "ukey b < ukey a" | (left) "ukey a < ukey b"
    by (metis less_linear)
  then show ?case
  proof cases
    case same
    have ts: "timeStamp a < timeStamp b" using "3.prems"(3) same by (auto simp: newer_def)
    obtain c where c: "squashUpserts a b = Inr c" "ukey c = ukey a" "valid_upsert c"
        "timeStamp c \<in> {timeStamp a, timeStamp b}" "\<forall>x. effect c x = effect b (effect a (x :: 'v option))"
      using squash_ok [where 'v = 'v, OF same ts ok(3,4)] by blast
    obtain out where o: "mergeUpserts first second = Inr out" "upserts_ok out"
        "ukey ` set out = ukey ` set first \<union> ukey ` set second"
        "length out \<le> length first + length second"
        "\<forall>u \<in> set out. \<exists>v \<in> set first \<union> set second. ukey v = ukey u \<and> timeStamp v = timeStamp u"
        "\<forall>key x. effects out key x = effects second key (effects first key x)"
      using "3.IH"(1) [OF same c(1) ok(1,2) nw(1)] by blast
    have cm: "\<forall>k \<in> ukey ` set out. ukey a < k" unfolding o(3) using ok(5,6) same by simp blast
    have "upserts_ok (c # out)" using o(2) c(2,3) cm by (simp add: upserts_ok_Cons)
    moreover have "effects (c # out) key x = effects (b # second) key (effects (a # first) key x)" for key x
    proof (cases "key = ukey a")
      case True
      then have "key \<notin> ukey ` set first" "key \<notin> ukey ` set second" using ok(5,6) same by auto
      then show ?thesis using o(6) c(2,5) same True by (simp add: effects_Cons effects_absent)
    next
      case False
      then show ?thesis using o(6) c(2) same by (simp add: effects_Cons)
    qed
    moreover have "\<forall>u \<in> set (c # out). \<exists>v \<in> set (a # first) \<union> set (b # second).
        ukey v = ukey u \<and> timeStamp v = timeStamp u"
      using o(5) c(2,4) same by auto
    moreover have "mergeUpserts (a # first) (b # second) = Inr (c # out)" using same c(1) o(1) by simp
    moreover have "ukey ` set (c # out) = ukey ` set (a # first) \<union> ukey ` set (b # second)"
      using o(3) c(2) same by auto
    ultimately show ?thesis using o(4) by (intro exI [of _ "c # out"]) simp
  next
    case right
    then have ne: "ukey a \<noteq> ukey b" and l: "upsert_less b a" by (auto simp: upsert_less_def)
    obtain out where o: "mergeUpserts (a # first) second = Inr out" "upserts_ok out"
        "ukey ` set out = ukey ` set (a # first) \<union> ukey ` set second"
        "length out \<le> length (a # first) + length second"
        "\<forall>u \<in> set out. \<exists>v \<in> set (a # first) \<union> set second. ukey v = ukey u \<and> timeStamp v = timeStamp u"
        "\<forall>key x. effects out key x = effects second key (effects (a # first) key x)"
      using "3.IH"(2) [OF ne l "3.prems"(1) ok(2) nw(2)] by blast
    have bm: "\<forall>k \<in> ukey ` set out. ukey b < k" unfolding o(3) using ok(5,6) right by (simp add: ball_Un) (blast intro: order.strict_trans)
    have "upserts_ok (b # out)" using o(2) ok(4) bm by (simp add: upserts_ok_Cons)
    moreover have "effects (b # out) key x = effects (b # second) key (effects (a # first) key x)" for key x
    proof (cases "key = ukey b")
      case True
      have "\<forall>k \<in> ukey ` set (a # first). ukey b < k"
        using ok(5) right by (simp add: ball_Un) (blast intro: order.strict_trans)
      then have "key \<notin> ukey ` set (a # first)" "key \<notin> ukey ` set out" using above_notin bm unfolding True by blast+
      then show ?thesis using o(6) True ok(6)
        by (simp add: effects_Cons [of b] effects_absent)
    next
      case False
      then show ?thesis using o(6) by (simp add: effects_Cons [of b])
    qed
    moreover have "mergeUpserts (a # first) (b # second) = Inr (b # out)" using ne l o(1) by simp
    moreover have "ukey ` set (b # out) = ukey ` set (a # first) \<union> ukey ` set (b # second)"
      using o(3) by auto
    ultimately show ?thesis using o(4,5) by (intro exI [of _ "b # out"]) auto
  next
    case left
    then have ne: "ukey a \<noteq> ukey b" and l: "\<not> upsert_less b a" by (auto simp: upsert_less_def)
    obtain out where o: "mergeUpserts first (b # second) = Inr out" "upserts_ok out"
        "ukey ` set out = ukey ` set first \<union> ukey ` set (b # second)"
        "length out \<le> length first + length (b # second)"
        "\<forall>u \<in> set out. \<exists>v \<in> set first \<union> set (b # second). ukey v = ukey u \<and> timeStamp v = timeStamp u"
        "\<forall>key x. effects out key x = effects (b # second) key (effects first key x)"
      using "3.IH"(3) [OF ne l ok(1) "3.prems"(2) nw(3)] by blast
    have am: "\<forall>k \<in> ukey ` set out. ukey a < k" unfolding o(3) using ok(5,6) left by (simp add: ball_Un) (blast intro: order.strict_trans)
    have "upserts_ok (a # out)" using o(2) ok(3) am by (simp add: upserts_ok_Cons)
    moreover have "effects (a # out) key x = effects (b # second) key (effects (a # first) key x)" for key x
      using o(6) by (simp add: effects_Cons [of a])
    moreover have "mergeUpserts (a # first) (b # second) = Inr (a # out)" using ne l o(1) by simp
    moreover have "ukey ` set (a # out) = ukey ` set (a # first) \<union> ukey ` set (b # second)"
      using o(3) by auto
    ultimately show ?thesis using o(4,5) by (intro exI [of _ "a # out"]) auto
  qed
qed

section \<open>The median\<close>

text \<open>The keys on the sides of a partition of two sorted lists, with the sentinels.\<close>

definition left_of :: "'k \<Rightarrow> 'k list \<Rightarrow> nat \<Rightarrow> 'k" where
  "left_of zero xs p = (if p = 0 then zero else xs ! (p - 1))"

definition right_of :: "'k \<Rightarrow> 'k list \<Rightarrow> nat \<Rightarrow> nat \<Rightarrow> 'k" where
  "right_of mx xs n p = (if p \<ge> n then mx else xs ! p)"

lemma sort_append:
  fixes as bs :: "'k::linorder list"
  assumes "\<forall>a \<in> set as. \<forall>b \<in> set bs. a \<le> b"
  shows "sort (as @ bs) = sort as @ sort bs"
  by (rule properties_for_sort) (use assms in \<open>auto simp: sorted_append\<close>)

lemma last_sort_Max: "xs \<noteq> [] \<Longrightarrow> last (sort xs) = Max (set xs)"
  for xs :: "'k::linorder list"
proof -
  assume "xs \<noteq> []"
  then have ne: "sort xs \<noteq> []" by (metis set_empty set_sort)
  have "\<forall>x \<in> set (sort xs). x \<le> last (sort xs)"
    by (metis ne sorted_sort sorted_nth_mono in_set_conv_nth last_conv_nth diff_less length_greater_0_conv
        less_Suc_eq_le Suc_diff_1 zero_less_one)
  then show ?thesis using ne by (metis Max_eqI List.finite_set last_in_set set_sort)
qed

lemma sorted_take_le:
  fixes xs :: "'k::linorder list"
  assumes "sorted (take n xs)" "p \<le> n" "n \<le> length xs"
  shows "x \<in> set (take p xs) \<Longrightarrow> x \<le> left_of zero xs p"
    "x \<in> set (drop p (take n xs)) \<Longrightarrow> right_of mx xs n p \<le> x"
proof -
  assume "x \<in> set (take p xs)"
  then obtain i where i: "i < p" "x = xs ! i" using assms(2,3) by (auto simp: in_set_conv_nth)
  then have "xs ! i \<le> xs ! (p - 1)"
    using sorted_nth_mono [OF assms(1), of i "p - 1"] assms(2,3) by simp
  then show "x \<le> left_of zero xs p" using i by (simp add: left_of_def)
next
  assume "x \<in> set (drop p (take n xs))"
  then obtain i where i: "i < n - p" "x = xs ! (p + i)" using assms(2,3) by (auto simp: in_set_conv_nth)
  then have "xs ! p \<le> xs ! (p + i)"
    using sorted_nth_mono [OF assms(1), of p "p + i"] assms(3) by simp
  moreover have "p < n" using i(1) by simp
  ultimately show "right_of mx xs n p \<le> x" using i(2) by (simp add: right_of_def)
qed

text \<open>A correct partition gives the median.\<close>

lemma partition_median:
  fixes xs ys :: "'k::linorder list"
  assumes s: "sorted (take n xs)" "sorted (take m ys)" "n \<le> length xs" "m \<le> length ys"
    and z: "\<forall>x \<in> set (take n xs) \<union> set (take m ys). zero \<le> x \<and> x \<le> mx"
    and p: "p \<le> n" "q \<le> m" "0 < p + q"
    and ok: "left_of zero xs p \<le> right_of mx ys m q" "left_of zero ys q \<le> right_of mx xs n p"
  shows "max (left_of zero xs p) (left_of zero ys q) = sort (take n xs @ take m ys) ! (p + q - 1)"
proof -
  let ?A = "take p xs @ take q ys" and ?R = "drop p (take n xs) @ drop q (take m ys)"
  note lx = sorted_take_le(1) [OF s(1) p(1) s(3), where zero = zero]
    and rx = sorted_take_le(2) [OF s(1) p(1) s(3), where mx = mx]
    and ly = sorted_take_le(1) [OF s(2) p(2) s(4), where zero = zero]
    and ry = sorted_take_le(2) [OF s(2) p(2) s(4), where mx = mx]
  have tx: "take n xs = take p xs @ drop p (take n xs)" "take m ys = take q ys @ drop q (take m ys)"
    using p(1,2) by (metis append_take_drop_id min.absorb1 take_take)+
  have xx: "\<forall>a \<in> set (take p xs). \<forall>b \<in> set (drop p (take n xs)). a \<le> b"
      and yy: "\<forall>a \<in> set (take q ys). \<forall>b \<in> set (drop q (take m ys)). a \<le> b"
    using s(1,2) tx by (metis sorted_append)+
  have xy: "a \<le> b" if "a \<in> set (take p xs)" "b \<in> set (drop q (take m ys))" for a b
    using lx [OF that(1)] ry [OF that(2)] ok(1) by order
  have yx: "a \<le> b" if "a \<in> set (take q ys)" "b \<in> set (drop p (take n xs))" for a b
    using ly [OF that(1)] rx [OF that(2)] ok(2) by order
  have "mset (take n xs @ take m ys) = mset (?A @ ?R)"
    by (subst (1) tx(1), subst (1) tx(2)) (simp only: mset_append ac_simps)
  then have "sort (take n xs @ take m ys) = sort (?A @ ?R)" by (metis sorted_list_of_multiset_mset)
  also have "\<dots> = sort ?A @ sort ?R"
    by (rule sort_append) (use xx yy xy yx in \<open>auto simp del: set_take_subset\<close>)
  finally have so: "sort (take n xs @ take m ys) = sort ?A @ sort ?R" .
  have len: "length ?A = p + q" using p s(3,4) by simp
  have ne: "?A \<noteq> []" using len p(3) by fastforce
  have sl: "length (sort ?A) = p + q" using len by (metis length_sort)
  have "sort (take n xs @ take m ys) ! (p + q - 1) = sort ?A ! (p + q - 1)"
    unfolding so by (rule nth_append_left) (use sl p(3) in linarith)
  also have "\<dots> = last (sort ?A)"
    by (metis sl last_conv_nth length_0_conv less_irrefl p(3))
  finally have "sort (take n xs @ take m ys) ! (p + q - 1) = last (sort ?A)" .
  also have "last (sort ?A) = Max (set ?A)" by (rule last_sort_Max [OF ne])
  also have "\<dots> = max (left_of zero xs p) (left_of zero ys q)"
  proof (rule Max_eqI)
    fix y assume "y \<in> set ?A"
    then show "y \<le> max (left_of zero xs p) (left_of zero ys q)"
      using lx ly by (auto simp: le_max_iff_disj)
  next
    have mx: "left_of zero xs p \<in> set ?A" if "p \<noteq> 0"
    proof -
      have "xs ! (p - 1) \<in> set (take p xs)" using that p(1) s(3) by (auto simp: in_set_conv_nth intro!: exI [of _ "p - 1"])
      then show ?thesis using that by (simp add: left_of_def)
    qed
    have my: "left_of zero ys q \<in> set ?A" if "q \<noteq> 0"
    proof -
      have "ys ! (q - 1) \<in> set (take q ys)" using that p(2) s(4) by (auto simp: in_set_conv_nth intro!: exI [of _ "q - 1"])
      then show ?thesis using that by (simp add: left_of_def)
    qed
    have low: "zero \<le> x" if "x \<in> set ?A" for x
      using that z tx by (metis Un_iff set_append)
    show "max (left_of zero xs p) (left_of zero ys q) \<in> set ?A"
    proof (cases "p = 0")
      case True
      then have q: "q \<noteq> 0" using p(3) by simp
      then show ?thesis using my low [OF my [OF q]] True by (simp add: left_of_def max_def)
    next
      case False
      show ?thesis
      proof (cases "q = 0")
        case True
        then show ?thesis using mx [OF False] low [OF mx [OF False]] by (auto simp: left_of_def max_def)
      next
        case q: False
        then show ?thesis using mx [OF False] my [OF q] by (simp add: max_def)
      qed
    qed
  qed simp
  finally show ?thesis by simp
qed

text \<open>
  The binary search keeps the right partition between its bounds: one step below \<open>low\<close> takes
  too few elements of the first list, one step above \<open>high\<close> too many.
\<close>

lemma median_loop_ok:
  fixes xs ys :: "'k::linorder list"
  assumes s: "sorted (take n xs)" "sorted (take m ys)" "n \<le> length xs" "m \<le> length ys" "n \<le> m" "0 < m"
    and z: "\<forall>x \<in> set (take n xs) \<union> set (take m ys). zero \<le> x \<and> x \<le> mx" "zero \<le> mx"
    and k: "k = (n + m + 1) div 2"
    and lo: "low = 0 \<or> (low - 1 \<le> n \<and> right_of mx xs n (low - 1) < left_of zero ys (k - (low - 1)))"
    and hi: "high = n \<or> (high < n \<and> right_of mx ys m (k - (high + 1)) < left_of zero xs (high + 1))"
    and bd: "low \<le> high + 1"
  shows "median_loop zero mx xs n ys m low high = Inr (sort (take n xs @ take m ys) ! (k - 1))"
  using lo hi bd
proof (induction "high + 1 - low" arbitrary: low high rule: less_induct)
  case less
  have kn: "n \<le> k" "k \<le> m" "0 < k" using k s(5,6) by auto
  have rz: "zero \<le> right_of mx ys m q" for q
  proof (cases "m \<le> q")
    case False
    then have "ys ! q \<in> set (take m ys)" using s(4) by (auto simp: in_set_conv_nth intro!: exI [of _ q])
    then show ?thesis using z False by (auto simp: right_of_def)
  qed (use z in \<open>simp add: right_of_def\<close>)
  have lm: "left_of zero ys q \<le> mx" if "q \<le> m" for q
  proof (cases "q = 0")
    case False
    then have "ys ! (q - 1) \<in> set (take m ys)"
      using that s(4) by (auto simp: in_set_conv_nth intro!: exI [of _ "q - 1"])
    then show ?thesis using z False by (auto simp: left_of_def)
  qed (use z in \<open>simp add: left_of_def\<close>)
  show ?case
  proof (cases "low \<le> high")
    case False
    then have l: "low = high + 1" using less.prems(3) by simp
    then have sm: "right_of mx xs n high < left_of zero ys (k - high)" using less.prems(1) by simp
    show ?thesis
    proof (cases "high = n")
      case True
      then have "right_of mx xs n high = mx" by (simp add: right_of_def)
      moreover have "left_of zero ys (k - high) \<le> mx" by (rule lm) (use kn in linarith)
      ultimately show ?thesis using sm by simp
    next
      case False
      then have h: "high < n" "right_of mx ys m (k - (high + 1)) < left_of zero xs (high + 1)"
        using less.prems(2) by auto
      have "right_of mx xs n high = left_of zero xs (high + 1)" using h(1) by (simp add: right_of_def left_of_def)
      moreover have "left_of zero ys (k - high) = right_of mx ys m (k - (high + 1))"
      proof -
        have "k - high \<noteq> 0" "\<not> m \<le> k - (high + 1)" "k - high - 1 = k - (high + 1)"
          using h(1) kn by linarith+
        then show ?thesis by (simp only: right_of_def left_of_def if_False)
      qed
      ultimately show ?thesis using sm h(2) by order
    qed
  next
    case True
    define p where "p = (low + high) div 2"
    have hn: "high \<le> n" using less.prems(2) by auto
    have p: "low \<le> p" "p \<le> high" "p \<le> n" using True hn by (auto simp: p_def)
    have step: "median_loop zero mx xs n ys m low high =
        (if left_of zero xs p \<le> right_of mx ys m (k - p) \<and> left_of zero ys (k - p) \<le> right_of mx xs n p
         then Inr (max (left_of zero xs p) (left_of zero ys (k - p)))
         else if left_of zero xs p > right_of mx ys m (k - p) then
           (if p = 0 then Inl Undefined else median_loop zero mx xs n ys m low (p - 1))
         else median_loop zero mx xs n ys m (p + 1) high)"
      unfolding k p_def left_of_def right_of_def
      by (subst median_loop.simps) (simp only: True if_True Let_def)
    consider (found) "left_of zero xs p \<le> right_of mx ys m (k - p)" "left_of zero ys (k - p) \<le> right_of mx xs n p"
      | (high) "right_of mx ys m (k - p) < left_of zero xs p"
      | (low) "left_of zero xs p \<le> right_of mx ys m (k - p)" "right_of mx xs n p < left_of zero ys (k - p)"
      by fastforce
    then show ?thesis
    proof cases
      case found
      have q: "k - p \<le> m" "0 < p + (k - p)" "p + (k - p) - 1 = k - 1" using kn p(3) by auto
      have "median_loop zero mx xs n ys m low high = Inr (max (left_of zero xs p) (left_of zero ys (k - p)))"
        unfolding step by (simp only: found simp_thms if_True)
      also have "\<dots> = Inr (sort (take n xs @ take m ys) ! (k - 1))"
        unfolding partition_median [OF s(1-4) z(1) p(3) q(1,2) found] q(3) by (rule refl)
      finally show ?thesis .
    next
      case high
      have p0: "p \<noteq> 0"
      proof
        assume "p = 0"
        then have "left_of zero xs p = zero" by (simp add: left_of_def)
        then show False using high rz [of "k - p"] by simp
      qed
      have "median_loop zero mx xs n ys m low (p - 1) = Inr (sort (take n xs @ take m ys) ! (k - 1))"
      proof (rule less.hyps)
        show "p - 1 + 1 - low < high + 1 - low" using p p0 by linarith
        show "p - 1 = n \<or> (p - 1 < n \<and> right_of mx ys m (k - (p - 1 + 1)) < left_of zero xs (p - 1 + 1))"
        proof -
          have "p - 1 < n" "p - 1 + 1 = p" using p p0 by linarith+
          then show ?thesis using high by metis
        qed
        show "low \<le> p - 1 + 1" using p p0 by simp
      qed (use less.prems(1) in simp)
      then show ?thesis unfolding step using high p0 by (simp only: not_le [symmetric] simp_thms if_True if_False)
    next
      case low
      have "median_loop zero mx xs n ys m (p + 1) high = Inr (sort (take n xs @ take m ys) ! (k - 1))"
      proof (rule less.hyps)
        show "high + 1 - (p + 1) < high + 1 - low" using p True by linarith
        show "p + 1 = 0 \<or> (p + 1 - 1 \<le> n \<and> right_of mx xs n (p + 1 - 1) < left_of zero ys (k - (p + 1 - 1)))"
          using low p by simp
        show "p + 1 \<le> high + 1" using p by simp
      qed (use less.prems(2) in simp)
      moreover have "\<not> left_of zero ys (k - p) \<le> right_of mx xs n p"
          "\<not> left_of zero xs p > right_of mx ys m (k - p)"
        using low by (simp_all add: not_le not_less)
      ultimately show ?thesis unfolding step by (simp only: simp_thms if_False)
    qed
  qed
qed

lemma findMedianKey_ok:
  fixes xs ys :: "'k::linorder list"
  assumes "sorted (take n xs)" "sorted (take m ys)" "n \<le> length xs" "m \<le> length ys" "0 < n + m"
    "\<forall>x \<in> set (take n xs) \<union> set (take m ys). zero \<le> x \<and> x \<le> mx" "zero \<le> mx"
  shows "findMedianKey zero mx xs n ys m = Inr (sort (take n xs @ take m ys) ! ((n + m + 1) div 2 - 1))"
proof (cases "n > m")
  case True
  have "sort (take m ys @ take n xs) = sort (take n xs @ take m ys)"
    by (metis mset_append sorted_list_of_multiset_mset union_commute)
  moreover have "median_loop zero mx ys m xs n 0 m =
      Inr (sort (take m ys @ take n xs) ! ((m + n + 1) div 2 - 1))"
    by (rule median_loop_ok) (use assms True in auto)
  ultimately show ?thesis using True assms(3,4) by (simp add: findMedianKey_def add.commute)
next
  case False
  then show ?thesis using median_loop_ok [OF assms(1-4) _ _ assms(6,7) refl, of 0 n] assms(3-5)
    by (simp add: findMedianKey_def)
qed

end
