(* ===== verification/BeParts.thy ===== *)
theory BeParts
  imports BeUpserts BTree
begin

text \<open>
  \<open>src/betree/BeTree.h\<close>: the private operations on single nodes: splitting a leaf at a given
  median, splitting an inner node with its buffer, splitting the root into several inner
  nodes, inserting several pivots at once, and taking the largest blocks of messages out of a
  full buffer.
\<close>

section \<open>Pages and nodes\<close>

definition be_leaf_at :: "nat \<Rightarrow> ('k, 'v) be_node pstore \<Rightarrow> ('k, 'v) leaf_node result" where
  "be_leaf_at p s = bindE (ps_get p s) asBeLeaf"

definition be_inner_at :: "nat \<Rightarrow> ('k, 'v) be_node pstore \<Rightarrow> ('k, 'v) be_inner result" where
  "be_inner_at p s = bindE (ps_get p s) asBeInner"

definition be_root_at :: "nat \<Rightarrow> ('k, 'v) be_node pstore \<Rightarrow> 'k be_root result" where
  "be_root_at p s = bindE (ps_get p s) asBeRoot"

definition be_initializeNode ::
  "('k, 'v) be_config \<Rightarrow> nat \<Rightarrow> nat \<Rightarrow> ('k, 'v) be_node pstore \<Rightarrow> ('k, 'v) be_node pstore result" where
  "be_initializeNode C p type s = bindE (new_be_node C type) (\<lambda>n. ps_put p n s)"

section \<open>Splitting\<close>

definition be_splitLeafNode ::
  "('k::linorder, 'v) be_config \<Rightarrow> nat \<Rightarrow> 'k \<Rightarrow> ('k, 'v) be_node pstore \<Rightarrow>
   (nat \<times> 'k \<times> ('k, 'v) be_node pstore) result" where
  "be_splitLeafNode C p medianKey s =
     bindE (be_leaf_at p s) (\<lambda>leafNode.
     bindE (check (lsize leafNode \<ge> 2)) (\<lambda>_.
     let it = upper_bound (keys leafNode) (lsize leafNode) medianKey;
         medianIndex = (if it > lsize leafNode then lsize leafNode else it)
     in bindE (pin_new s) (\<lambda>(rightPage, s1).
        bindE (be_initializeNode C rightPage NodeType_LEAF s1) (\<lambda>s2.
        bindE (be_leaf_at rightPage s2) (\<lambda>rightLeaf.
        let n = lsize leafNode - medianIndex;
            rightLeaf' = rightLeaf\<lparr>
              keys := copy_fwd n (keys leafNode) medianIndex (keys rightLeaf) 0,
              vals := copy_fwd n (vals leafNode) medianIndex (vals rightLeaf) 0,
              lsize := n\<rparr>
        in bindE (ps_put rightPage (BeLeaf rightLeaf') s2) (\<lambda>s3.
           bindE (ps_put p (BeLeaf (leafNode\<lparr>lsize := lsize leafNode - lsize rightLeaf'\<rparr>)) s3) (\<lambda>s4.
             Inr (rightPage, medianKey, s4))))))))"

text \<open>
  The messages behind the pivot are moved with \<open>std::remove_if\<close>: the code takes the elements
  behind the returned iterator for the removed ones.
\<close>

definition be_splitInnerNode ::
  "('k::linorder, 'v) be_config \<Rightarrow> nat \<Rightarrow> ('k, 'v) be_node pstore \<Rightarrow>
   (nat \<times> 'k \<times> ('k, 'v) be_node pstore) result" where
  "be_splitInnerNode C p s =
     bindE (be_inner_at p s) (\<lambda>innerNode.
     bindE (check (innsize innerNode \<ge> 2)) (\<lambda>_.
     let splitIndex = (innsize innerNode - 1) div 2;
         resultKey = ipivots innerNode ! splitIndex
     in bindE (pin_new s) (\<lambda>(rightPage, s1).
        bindE (be_initializeNode C rightPage NodeType_INNER s1) (\<lambda>s2.
        bindE (be_inner_at rightPage s2) (\<lambda>rightInner.
        let n = innsize innerNode - (splitIndex + 1);
            buf = ubuf innerNode;
            (ups, it) = remove_if (\<lambda>u. ukey u > resultKey) (upserts buf) (usize buf);
            rightBuf = (ubuf rightInner)\<lparr>
              upserts := copy_fwd (usize buf - it) ups it (upserts (ubuf rightInner)) 0,
              usize := usize buf - it\<rparr>;
            rightInner' = rightInner\<lparr>
              ubuf := rightBuf,
              ipivots := copy_fwd n (ipivots innerNode) (splitIndex + 1) (ipivots rightInner) 0,
              ichildren := copy_fwd (n + 1) (ichildren innerNode) (splitIndex + 1) (ichildren rightInner) 0,
              innsize := innsize innerNode div 2\<rparr>;
            innerNode' = innerNode\<lparr>
              ubuf := \<lparr>upserts = ups, usize = usize buf - usize rightBuf\<rparr>,
              innsize := innsize innerNode - innsize rightInner' - 1\<rparr>
        in bindE (ps_put rightPage (BeInner rightInner') s2) (\<lambda>s3.
           bindE (ps_put p (BeInner innerNode') s3) (\<lambda>s4. Inr (rightPage, resultKey, s4))))))))"

text \<open>
  The loop of \<open>splitRootNode\<close>: a new inner node gets \<open>childPivots\<close> pivots of the root, the next
  pivot stays in the root as the separator. The arrays of the root are overwritten from the
  front while they are read further behind.
\<close>

function split_root_loop ::
  "('k, 'v) be_config \<Rightarrow> nat \<Rightarrow> nat \<Rightarrow> nat \<Rightarrow> 'k be_root \<Rightarrow> nat list \<Rightarrow> 'k list \<Rightarrow>
   ('k, 'v) be_node pstore \<Rightarrow> ('k be_root \<times> nat list \<times> 'k list \<times> ('k, 'v) be_node pstore) result" where
  "split_root_loop C childPivots i newRootSize rootNode newChildren midPivots s =
     (if i < rsize rootNode then
        let lastIteration = (i + (childPivots + 1) \<ge> rsize rootNode);
            n = min childPivots (rsize rootNode - i)
        in bindE (pin_new s) (\<lambda>(newChild, s1).
           bindE (be_initializeNode C newChild NodeType_INNER s1) (\<lambda>s2.
           bindE (be_inner_at newChild s2) (\<lambda>childNode.
           bindE (ps_put newChild (BeInner (childNode\<lparr>
               ipivots := copy_fwd n (rpivots rootNode) i (ipivots childNode) 0,
               ichildren := copy_fwd (n + 1) (rchildren rootNode) i (ichildren childNode) 0,
               innsize := n\<rparr>)) s2) (\<lambda>s3.
           let rootNode' = (if lastIteration then rootNode
                            else rootNode\<lparr>rpivots := (rpivots rootNode)[newRootSize := rpivots rootNode ! (i + n)]\<rparr>);
               midPivots' = (if lastIteration then midPivots else midPivots @ [rpivots rootNode ! (i + n)]);
               rootNode'' = rootNode'\<lparr>rchildren := (rchildren rootNode')[newRootSize := newChild]\<rparr>
           in split_root_loop C childPivots (i + (childPivots + 1))
                (if lastIteration then newRootSize else newRootSize + 1) rootNode''
                (newChildren @ [newChild]) midPivots' s3))))
      else Inr (rootNode\<lparr>rsize := newRootSize\<rparr>, newChildren, midPivots, s))"
  by pat_completeness auto
termination
  by (relation "measure (\<lambda>(_, _, i, _, r, _, _, _). rsize r - i)") (auto simp: Let_def)

declare split_root_loop.simps [simp del]

definition splitRootNode ::
  "('k, 'v) be_config \<Rightarrow> nat \<Rightarrow> ('k, 'v) be_node pstore \<Rightarrow>
   (nat list \<times> 'k list \<times> ('k, 'v) be_node pstore) result" where
  "splitRootNode C p s =
     bindE (be_root_at p s) (\<lambda>rootNode.
     bindE (split_root_loop C (INNER_N C div 2) 0 0 rootNode [] [] s) (\<lambda>(rootNode', newChildren, midPivots, s1).
     bindE (ps_put p (BeRoot rootNode') s1) (\<lambda>s2. Inr (newChildren, midPivots, s2))))"

section \<open>Inserting pivots\<close>

text \<open>What the calls of \<open>std::is_sorted\<close> and the assertions inside their comparators accept.\<close>

fun ascending :: "'a::linorder list \<Rightarrow> bool" where
  "ascending [] = True"
| "ascending [x] = True"
| "ascending (x # y # xs) = (x < y \<and> ascending (y # xs))"

text \<open>The loop runs from the last pivot to the first: the list of the remaining pivots is reversed.\<close>

fun insert_pivots_loop ::
  "(nat \<times> 'k \<times> nat) list \<Rightarrow> nat \<Rightarrow> ('k, 'v) be_inner \<Rightarrow> ('k, 'v) be_inner result" where
  "insert_pivots_loop [] lastFirst node = Inr node"
| "insert_pivots_loop ((index, key, child) # rest) lastFirst node =
     (let it = length rest + 1
      in bindE (check (index + it - 1 < length (ipivots node))) (\<lambda>_.
         bindE (check (lastFirst + it \<le> length (ipivots node))) (\<lambda>_.
           insert_pivots_loop rest index (node\<lparr>
             ipivots := (move_backward (lastFirst - index) (ipivots node) index (index + it))
                          [index + it - 1 := key],
             ichildren := (move_backward (lastFirst - index) (ichildren node) (index + 1) (index + it + 1))
                          [index + it := child]\<rparr>))))"

definition insertPivots ::
  "(nat \<times> 'k::linorder \<times> nat) list \<Rightarrow> ('k, 'v) be_inner \<Rightarrow> ('k, 'v) be_inner result" where
  "insertPivots newPivots node =
     bindE (check (innsize node + length newPivots \<le> length (ipivots node))) (\<lambda>_.
     bindE (check (ascending (map fst newPivots))) (\<lambda>_.
     bindE (check (ascending (map (fst \<circ> snd) newPivots))) (\<lambda>_.
     bindE (insert_pivots_loop (rev newPivots) (innsize node) node) (\<lambda>node'.
       Inr (node'\<lparr>innsize := innsize node + length newPivots\<rparr>)))))"

section \<open>Removing messages\<close>

fun is_sorted_upserts :: "('k::linorder, 'v) upsert list \<Rightarrow> bool" where
  "is_sorted_upserts [] = True"
| "is_sorted_upserts [x] = True"
| "is_sorted_upserts (x # y # xs) = (\<not> upsert_less y x \<and> is_sorted_upserts (y # xs))"

fun no_adjacent :: "'a list \<Rightarrow> bool" where
  "no_adjacent [] = True"
| "no_adjacent [x] = True"
| "no_adjacent (x # y # xs) = (x \<noteq> y \<and> no_adjacent (y # xs))"

text \<open>
  The scan for blocks: neighbouring messages for the same child, as triples of the first
  index, the index behind the last, and the child.
\<close>

primrec scan_blocks ::
  "'k::linorder list \<Rightarrow> nat \<Rightarrow> ('k, 'v) upsert list \<Rightarrow> nat \<Rightarrow> nat \<Rightarrow> 'k \<Rightarrow> nat \<Rightarrow>
   (nat \<times> nat \<times> nat) list" where
  "scan_blocks piv n [] i lastStartingIndex lastKey lastChildIndex =
     [(lastStartingIndex, i, lastChildIndex)]"
| "scan_blocks piv n (u # us) i lastStartingIndex lastKey lastChildIndex =
     (if ukey u \<noteq> lastKey then
        let currentChildIndex = lower_bound piv n (ukey u)
        in if currentChildIndex \<noteq> lastChildIndex
           then (lastStartingIndex, i, lastChildIndex) # scan_blocks piv n us (i + 1) i (ukey u) currentChildIndex
           else scan_blocks piv n us (i + 1) lastStartingIndex lastKey lastChildIndex
      else scan_blocks piv n us (i + 1) lastStartingIndex lastKey lastChildIndex)"

fun message_blocks ::
  "'k::linorder list \<Rightarrow> nat \<Rightarrow> ('k, 'v) upsert list \<Rightarrow> (nat \<times> nat \<times> nat) list result" where
  "message_blocks piv n [] = Inl Undefined"
| "message_blocks piv n (u # us) = Inr (scan_blocks piv n us 1 0 (ukey u) (lower_bound piv n (ukey u)))"

definition block_size :: "(nat \<times> nat \<times> nat) list \<Rightarrow> nat \<Rightarrow> nat" where
  "block_size blocks i = fst (snd (blocks ! i)) - fst (blocks ! i)"

text \<open>
  The loop that collects blocks, the largest first. A reference to a block that was removed
  as a whole is replaced by the number of references.
\<close>

primrec collect_blocks ::
  "nat \<Rightarrow> nat \<Rightarrow> nat \<Rightarrow> ('k::linorder, 'v) upsert list \<Rightarrow> nat list \<Rightarrow> nat \<Rightarrow> (nat \<times> nat \<times> nat) list \<Rightarrow>
   (nat \<times> ('k, 'v) upsert list) list \<Rightarrow>
   (nat list \<times> (nat \<times> nat \<times> nat) list \<times> (nat \<times> ('k, 'v) upsert list) list) result" where
  "collect_blocks needed maxRemoved nrefs allMessages [] collected blocks result' = Inr ([], blocks, result')"
| "collect_blocks needed maxRemoved nrefs allMessages (r # refs) collected blocks result' =
     (if \<not> collected < needed then Inr (r # refs, blocks, result')
      else let (first, last, child) = blocks ! r;
               blockSize = last - first;
               toRemove = (if collected + blockSize > maxRemoved then maxRemoved - collected else blockSize);
               resultVec = take toRemove (drop first allMessages)
           in bindE (check (\<forall>v \<in> set (map snd (filter (\<lambda>(c, _). c = child) result')). v = [])) (\<lambda>_.
              bindE (check (is_sorted_upserts resultVec)) (\<lambda>_.
              bindE (collect_blocks needed maxRemoved nrefs allMessages refs (collected + toRemove)
                  (if toRemove = blockSize then blocks else blocks[r := (first + toRemove, last, child)])
                  (result' @ [(child, resultVec)])) (\<lambda>(refs', blocks', result'').
                Inr ((if toRemove = blockSize then nrefs else r) # refs', blocks', result'')))))"

definition keep_blocks ::
  "nat \<Rightarrow> ('k, 'v) upsert list \<Rightarrow> (nat \<times> nat \<times> nat) list \<Rightarrow> nat list \<Rightarrow> ('k, 'v) upsert list" where
  "keep_blocks nrefs allMessages blocks refs =
     concat (map (\<lambda>r. take (block_size blocks r) (drop (fst (blocks ! r)) allMessages))
       (filter (\<lambda>r. r \<noteq> nrefs) refs))"

text \<open>Writing elements at the front of an array; beyond its end is undefined.\<close>

definition write_front :: "'a list \<Rightarrow> 'a list \<Rightarrow> 'a list result" where
  "write_front xs a = (if length xs > length a then Inl Undefined else Inr (xs @ drop (length xs) a))"

text \<open>
  With fewer messages than slots, \<open>neededUpsertSlots\<close> wraps around and the first assertion fails.
\<close>

definition removeMessages ::
  "('k::linorder, 'v::plus) be_config \<Rightarrow> ('k, 'v) be_inner \<Rightarrow> ('k, 'v) upsert list \<Rightarrow> nat \<Rightarrow>
   ((nat \<times> ('k, 'v) upsert list) list \<times> ('k, 'v) be_inner) result" where
  "removeMessages C innerNode additionalUpserts maxRemoved =
     (let buf = ubuf innerNode;
          own = take (usize buf) (upserts buf);
          all = usize buf + length additionalUpserts;
          needed = all - length (upserts buf)
      in bindE (check (length (upserts buf) \<le> all \<and> maxRemoved \<ge> needed)) (\<lambda>_.
         bindE (check (is_sorted_upserts own)) (\<lambda>_.
         bindE (check (is_sorted_upserts additionalUpserts)) (\<lambda>_.
         bindE (mergeUpserts own additionalUpserts) (\<lambda>allMessages.
         bindE (check (is_sorted_upserts allMessages)) (\<lambda>_.
         bindE (check (no_adjacent (map ukey allMessages))) (\<lambda>_.
         bindE (message_blocks (ipivots innerNode) (innsize innerNode) allMessages) (\<lambda>blocks.
         let nrefs = length blocks;
             refs = sortBySize C (block_size blocks) [0..<nrefs]
         in bindE (collect_blocks needed maxRemoved nrefs allMessages refs 0 blocks []) (\<lambda>(refs', blocks', result').
            let kept = keep_blocks nrefs allMessages blocks' (sort refs')
            in bindE (write_front kept (upserts buf)) (\<lambda>ups.
               bindE (check (is_sorted_upserts (take (length kept) ups))) (\<lambda>_.
                 Inr (result', innerNode\<lparr>ubuf := \<lparr>upserts = ups, usize = length kept\<rparr>\<rparr>))))))))))))"

end
