(* ===== verification/BeTree.thy ===== *)
theory BeTree
  imports BeParts FileIO
begin

text \<open>
  \<open>src/betree/BeTree.h\<close>: the B-epsilon-tree over a page store. Inserts, updates and erases become
  messages with a time stamp. A message goes into the buffer of the child of the root on its
  path; when that buffer is full, its largest blocks of messages are flushed one level down,
  which can fill the buffers there, and so on in level order down to the leaves. A node that
  could need more pivots than it has room for is split before the flush enters it.

  A page is named by its number; a reference to its node is read again where the code uses it.
  \<open>MessageMap\<close> is a list of pairs with distinct first components, walked in the order \<open>mapOrder\<close>.
\<close>

section \<open>State\<close>

record ('k, 'v) be_tree =
  bePages :: "('k, 'v) be_node pstore"
  beRootID :: nat
  beTimeStamp :: nat
  beRootLeaf :: bool
  beHdrFile :: os_file

type_synonym ('k, 'v) message_map = "(nat \<times> ('k, 'v) upsert list) list"

definition MAX_FLUSH_SIZE :: "('k, 'v) be_config \<Rightarrow> nat" where
  "MAX_FLUSH_SIZE C = LEAF_N C - 1"

definition be_new :: "('k, 'v) be_config \<Rightarrow> ('k, 'v) be_node pstore \<Rightarrow> ('k, 'v) be_tree result" where
  "be_new C s =
     bindE (pin_new s) (\<lambda>(root, s1).
     bindE (be_initializeNode C root NodeType_LEAF s1) (\<lambda>s2.
     bindE (ps_unpin True root s2) (\<lambda>s3.
       Inr \<lparr>bePages = s3, beRootID = root, beTimeStamp = 0, beRootLeaf = True,
            beHdrFile = ftruncate empty_file 32\<rparr>)))"

section \<open>Messages for a leaf\<close>

text \<open>
  The loop that estimates the size of a leaf after its messages. The difference
  \<open>leafChild.keys.begin() - it\<close> has the wrong sign: as a \<open>std::size_t\<close> it is small only when the
  key is not behind the first one of the leaf.
\<close>

fun leaf_needs_split ::
  "'k::linorder list \<Rightarrow> nat \<Rightarrow> ('k, 'v) upsert list \<Rightarrow> nat \<Rightarrow> 'k list \<Rightarrow> bool" where
  "leaf_needs_split ks n [] futureSize seenKeys = False"
| "leaf_needs_split ks n (u # us) futureSize seenKeys =
     (if utype u \<noteq> INSERT \<and> utype u \<noteq> DELETE then leaf_needs_split ks n us futureSize seenKeys
      else let inserted = ukey u \<in> set seenKeys;
               seenKeys' = (if inserted then seenKeys
                            else if utype u = INSERT then ukey u # seenKeys
                            else removeAll (ukey u) seenKeys);
               it = lower_bound ks n (ukey u);
               seen = (if inserted then True
                       else (2 ^ 64 - it) mod 2 ^ 64 < n \<and> ks ! it = ukey u);
               futureSize' = (if utype u = INSERT then futureSize + (if seen then 0 else 1)
                              else if futureSize \<ge> 1 then futureSize - (if seen then 1 else 0)
                              else futureSize)
           in if futureSize' > length ks then True
              else leaf_needs_split ks n us futureSize' seenKeys')"

text \<open>
  A leaf and its messages: it is split at the median of its keys and those of the messages.
  The result are the new pivot and the entry of \<open>leafMessages\<close>.
\<close>

type_synonym ('k, 'v) leaf_work = "nat \<times> ('k \<times> nat) option \<times> ('k, 'v) upsert list"

definition handle_leaf_child ::
  "('k::linorder, 'v) be_config \<Rightarrow> nat \<Rightarrow> nat \<Rightarrow> ('k, 'v) upsert list \<Rightarrow> ('k, 'v) be_node pstore \<Rightarrow>
   ((nat \<times> 'k \<times> nat) list \<times> ('k, 'v) leaf_work \<times> ('k, 'v) be_node pstore) result" where
  "handle_leaf_child C childIndex childPage messages s =
     bindE (be_leaf_at childPage s) (\<lambda>leafChild.
     if leaf_needs_split (keys leafChild) (lsize leafChild) messages (lsize leafChild) []
     then bindE (findMedianKey (zeroKey C) (sizeMaxKey C) (keys leafChild) (lsize leafChild)
                  (map ukey messages) (length messages)) (\<lambda>medianKey.
          bindE (be_splitLeafNode C childPage medianKey s) (\<lambda>(rightPage, middleKey, s1).
            Inr ([(childIndex, middleKey, rightPage)],
                 (childPage, Some (middleKey, rightPage), messages), s1)))
     else Inr ([], (childPage, None, messages), s))"

text \<open>
  One message in its leaf; the right half of a split leaf takes the keys behind the pivot. The
  assertions of the code guard what follows them, and the model keeps them in every build. The
  one exception is \<open>*keyIt != upsert.key\<close> before an insertion: at the end of the leaf it reads a
  slot that is not in use, and can fail where the insertion itself is fine. It counts in a build
  with assertions only.
\<close>

definition apply_leaf_message ::
  "('k, 'v) be_config \<Rightarrow> nat \<Rightarrow> ('k::linorder \<times> nat) option \<Rightarrow> ('k, 'v::plus) upsert \<Rightarrow> ('k, 'v) be_node pstore \<Rightarrow>
   ('k, 'v) be_node pstore result" where
  "apply_leaf_message C childPage splitResult u s =
     (let targetPage = (case splitResult of
            None \<Rightarrow> childPage
          | Some (middleKey, rightPage) \<Rightarrow> if ukey u > middleKey then rightPage else childPage)
      in bindE (be_leaf_at targetPage s) (\<lambda>targetNode.
         let keyIndex = lower_bound (keys targetNode) (lsize targetNode) (ukey u);
             absent = (keyIndex \<ge> lsize targetNode \<or> keys targetNode ! keyIndex \<noteq> ukey u)
         in case utype u of
              DELETE \<Rightarrow>
                if absent then Inr s
                else ps_put targetPage (BeLeaf (leaf_erase keyIndex targetNode)) s
            | UPDATE \<Rightarrow>
                if absent then Inr s
                else ps_put targetPage (BeLeaf (targetNode\<lparr>
                       vals := (vals targetNode)[keyIndex := vals targetNode ! keyIndex + uval u]\<rparr>)) s
            | INSERT \<Rightarrow>
                if \<not> absent
                then ps_put targetPage (BeLeaf (targetNode\<lparr>vals := (vals targetNode)[keyIndex := uval u]\<rparr>)) s
                else bindE (check (lsize targetNode < length (keys targetNode))) (\<lambda>_.
                     bindE (check (keyIndex < length (keys targetNode) \<and>
                                   (debugBuild C \<longrightarrow> keys targetNode ! keyIndex \<noteq> ukey u))) (\<lambda>_.
                       ps_put targetPage (BeLeaf (leaf_insert keyIndex (ukey u) (uval u) targetNode)) s))
            | INVALID \<Rightarrow> Inr s))"

fun apply_leaf_messages ::
  "('k, 'v) be_config \<Rightarrow> nat \<Rightarrow> ('k::linorder \<times> nat) option \<Rightarrow> ('k, 'v::plus) upsert list \<Rightarrow> ('k, 'v) be_node pstore \<Rightarrow>
   ('k, 'v) be_node pstore result" where
  "apply_leaf_messages C childPage splitResult [] s = Inr s"
| "apply_leaf_messages C childPage splitResult (u # us) s =
     bindE (apply_leaf_message C childPage splitResult u s) (apply_leaf_messages C childPage splitResult us)"

fun finish_leaves ::
  "('k, 'v) be_config \<Rightarrow> ('k::linorder, 'v::plus) leaf_work list \<Rightarrow> ('k, 'v) be_node pstore \<Rightarrow> ('k, 'v) be_node pstore result" where
  "finish_leaves C [] s = Inr s"
| "finish_leaves C ((childPage, splitResult, messages) # works) s =
     bindE (apply_leaf_messages C childPage splitResult messages s) (\<lambda>s1.
     bindE (ps_unpin True childPage s1) (\<lambda>s2.
     bindE (case splitResult of None \<Rightarrow> Inr s2 | Some (_, rightPage) \<Rightarrow> ps_unpin True rightPage s2) (\<lambda>s3.
       finish_leaves C works s3)))"

section \<open>Messages for an inner node\<close>

text \<open>The node has room for its messages: they are merged into its buffer.\<close>

definition store_messages ::
  "nat \<Rightarrow> ('k::linorder, 'v::plus) upsert list \<Rightarrow> ('k, 'v) be_node pstore \<Rightarrow> ('k, 'v) be_node pstore result" where
  "store_messages childPage messages s =
     bindE (be_inner_at childPage s) (\<lambda>innerChild.
     let buf = ubuf innerChild
     in bindE (mergeUpserts (take (usize buf) (upserts buf)) messages) (\<lambda>merged.
        bindE (write_front merged (upserts buf)) (\<lambda>ups.
        bindE (check (is_sorted_upserts merged)) (\<lambda>_.
        bindE (check (no_adjacent (map ukey merged))) (\<lambda>_.
        bindE (ps_put childPage (BeInner (innerChild\<lparr>ubuf := \<lparr>upserts = ups, usize = length merged\<rparr>\<rparr>)) s)
          (\<lambda>s1. ps_unpin True childPage s1))))))"

text \<open>The messages for the halves of a split node; \<open>n\<close> is the size of the left half.\<close>

fun split_map ::
  "nat \<Rightarrow> ('k, 'v) message_map \<Rightarrow> ('k, 'v) message_map \<Rightarrow> ('k, 'v) message_map \<Rightarrow>
   (('k, 'v) message_map \<times> ('k, 'v) message_map) result" where
  "split_map n [] leftMap rightMap = Inr (leftMap, rightMap)"
| "split_map n ((childIndex, messages) # entries) leftMap rightMap =
     (if childIndex \<le> n then
        bindE (check (childIndex \<notin> set (map fst leftMap))) (\<lambda>_.
          split_map n entries (leftMap @ [(childIndex, messages)]) rightMap)
      else let adjustedChildIndex = childIndex - n - 1
           in bindE (check (adjustedChildIndex \<notin> set (map fst rightMap))) (\<lambda>_.
                split_map n entries leftMap (rightMap @ [(adjustedChildIndex, messages)])))"

text \<open>The halves that have messages are queued, the other one is done.\<close>

definition queue_halves ::
  "('k, 'v) be_config \<Rightarrow> nat \<Rightarrow> nat \<Rightarrow> ('k, 'v) message_map \<Rightarrow> (nat \<times> ('k, 'v) message_map) list \<Rightarrow>
   ('k, 'v) be_node pstore \<Rightarrow>
   ((nat \<times> ('k, 'v) message_map) list \<times> ('k, 'v) be_node pstore) result" where
  "queue_halves C leftPage rightPage messageMap queue s =
     bindE (be_inner_at leftPage s) (\<lambda>leftNode.
     bindE (split_map (innsize leftNode) (mapOrder C messageMap) [] []) (\<lambda>(leftMap, rightMap).
     bindE (check (leftMap \<noteq> [] \<or> rightMap \<noteq> [])) (\<lambda>_.
     bindE (if leftMap = [] then bindE (ps_unpin True leftPage s) (\<lambda>s1. Inr (queue, s1))
            else Inr (queue @ [(leftPage, leftMap)], s)) (\<lambda>(queue1, s1).
     if rightMap = [] then bindE (ps_unpin True rightPage s1) (\<lambda>s2. Inr (queue1, s2))
     else Inr (queue1 @ [(rightPage, rightMap)], s1)))))"

text \<open>A node without room: blocks of messages are taken out of it, and it is split if needed.\<close>

definition flush_inner_child ::
  "('k::linorder, 'v::plus) be_config \<Rightarrow> nat \<Rightarrow> nat \<Rightarrow> ('k, 'v) upsert list \<Rightarrow>
   (nat \<times> ('k, 'v) message_map) list \<Rightarrow> ('k, 'v) be_node pstore \<Rightarrow>
   ((nat \<times> 'k \<times> nat) list \<times> (nat \<times> ('k, 'v) message_map) list \<times> ('k, 'v) be_node pstore) result" where
  "flush_inner_child C childIndex childPage messages queue s =
     bindE (be_inner_at childPage s) (\<lambda>innerChild.
     bindE (removeMessages C innerChild messages (MAX_FLUSH_SIZE C)) (\<lambda>(messageMap, innerChild').
     bindE (ps_put childPage (BeInner innerChild') s) (\<lambda>s1.
     if length (ipivots innerChild') - innsize innerChild' < length messageMap then
       bindE (be_splitInnerNode C childPage s1) (\<lambda>(rightPage, middleKey, s2).
       bindE (queue_halves C childPage rightPage messageMap queue s2) (\<lambda>(queue', s3).
         Inr ([(childIndex, middleKey, rightPage)], queue', s3)))
     else Inr ([], queue @ [(childPage, messageMap)], s1))))"

section \<open>One step of the level-order traversal\<close>

text \<open>The loop over the children with messages: new pivots, leaves to finish, and the queue.\<close>

fun handle_children ::
  "('k::linorder, 'v::plus) be_config \<Rightarrow> nat \<Rightarrow> ('k, 'v) message_map \<Rightarrow>
   (nat \<times> 'k \<times> nat) list \<Rightarrow> ('k, 'v) leaf_work list \<Rightarrow> (nat \<times> ('k, 'v) message_map) list \<Rightarrow>
   ('k, 'v) be_node pstore \<Rightarrow>
   ((nat \<times> 'k \<times> nat) list \<times> ('k, 'v) leaf_work list \<times> (nat \<times> ('k, 'v) message_map) list \<times>
    ('k, 'v) be_node pstore) result" where
  "handle_children C currentPage [] newPivots leafMessages queue s = Inr (newPivots, leafMessages, queue, s)"
| "handle_children C currentPage ((childIndex, messages) # entries) newPivots leafMessages queue s =
     bindE (be_inner_at currentPage s) (\<lambda>currentNode.
     bindE (check (childIndex \<le> innsize currentNode)) (\<lambda>_.
     bindE (check (is_sorted_upserts messages)) (\<lambda>_.
     let childPage = ichildren currentNode ! childIndex
     in bindE (ps_pin False (\<lambda>_. True) childPage s) (\<lambda>s1.
        bindE (ps_get childPage s1) (\<lambda>childNode.
        if is_be_leaf childNode then
          bindE (handle_leaf_child C childIndex childPage messages s1) (\<lambda>(pivs, work, s2).
            handle_children C currentPage entries (newPivots @ pivs) (leafMessages @ [work]) queue s2)
        else
          bindE (asBeInner childNode) (\<lambda>innerChild.
          let buf = ubuf innerChild
          in if length (upserts buf) - usize buf \<ge> length messages then
               bindE (store_messages childPage messages s1) (\<lambda>s2.
                 handle_children C currentPage entries newPivots leafMessages queue s2)
             else bindE (flush_inner_child C childIndex childPage messages queue s1) (\<lambda>(pivs, queue', s2).
                    handle_children C currentPage entries (newPivots @ pivs) leafMessages queue' s2)))))))"

definition handleTraversalNode ::
  "('k::linorder, 'v::plus) be_config \<Rightarrow> nat \<Rightarrow> ('k, 'v) message_map \<Rightarrow>
   (nat \<times> ('k, 'v) message_map) list \<Rightarrow> ('k, 'v) be_node pstore \<Rightarrow>
   ((nat \<times> ('k, 'v) message_map) list \<times> ('k, 'v) be_node pstore) result" where
  "handleTraversalNode C currentPage messageMap queue s =
     bindE (handle_children C currentPage (mapOrder C messageMap) [] [] queue s)
       (\<lambda>(newPivots, leafMessages, queue', s1).
     bindE (be_inner_at currentPage s1) (\<lambda>currentNode.
     bindE (insertPivots (sort_key fst newPivots) currentNode) (\<lambda>currentNode'.
     bindE (ps_put currentPage (BeInner currentNode') s1) (\<lambda>s2.
     bindE (ps_unpin True currentPage s2) (\<lambda>s3.
     bindE (finish_leaves C leafMessages s3) (\<lambda>s4. Inr (queue', s4)))))))"

fun traversal_loop ::
  "('k::linorder, 'v::plus) be_config \<Rightarrow> nat \<Rightarrow> (nat \<times> ('k, 'v) message_map) list \<Rightarrow>
   ('k, 'v) be_node pstore \<Rightarrow> ('k, 'v) be_node pstore result" where
  "traversal_loop C fuel [] s = Inr s"
| "traversal_loop C 0 (q # queue) s = Inl OutOfFuel"
| "traversal_loop C (Suc fuel) ((currentPage, messageMap) # queue) s =
     bindE (be_inner_at currentPage s) (\<lambda>_.
     bindE (handleTraversalNode C currentPage messageMap queue s) (\<lambda>(queue', s1).
       traversal_loop C fuel queue' s1))"

end
