(* ===== verification/BeRoot.thy ===== *)
theory BeRoot
  imports BeTree
begin

text \<open>
  \<open>src/betree/BeTree.h\<close>: the operations of the tree. \<open>upsert\<close> dispatches on the root: a leaf is
  changed directly and split into a root with two leaves when it is full; below a root node the
  message goes to a leaf, into the buffer of an inner node, or starts a flush. Like the B+-tree,
  a first attempt holds the root in shared mode, and a split needs a second, exclusive one.
\<close>

section \<open>Changing one leaf\<close>

text \<open>Deleting and updating, in \<open>handleRootRootUpsert\<close> and in \<open>handleRootLeafUpsert\<close> alike.\<close>

definition delete_in_leaf ::
  "nat \<Rightarrow> 'k::linorder \<Rightarrow> ('k, 'v) be_node pstore \<Rightarrow> ('k, 'v) be_node pstore result" where
  "delete_in_leaf p key s =
     bindE (be_leaf_at p s) (\<lambda>l.
     let keyIndex = lower_bound (keys l) (lsize l) key
     in if keyIndex \<ge> lsize l \<or> keys l ! keyIndex \<noteq> key then ps_unpin False p s
        else bindE (ps_put p (BeLeaf (leaf_erase keyIndex l)) s) (ps_unpin True p))"

definition update_in_leaf ::
  "nat \<Rightarrow> 'k::linorder \<Rightarrow> 'v::plus \<Rightarrow> ('k, 'v) be_node pstore \<Rightarrow> ('k, 'v) be_node pstore result" where
  "update_in_leaf p key value s =
     bindE (be_leaf_at p s) (\<lambda>l.
     let keyIndex = lower_bound (keys l) (lsize l) key
     in if keyIndex \<ge> lsize l \<or> keys l ! keyIndex \<noteq> key then ps_unpin False p s
        else bindE (ps_put p (BeLeaf (l\<lparr>vals := (vals l)[keyIndex := vals l ! keyIndex + value]\<rparr>)) s)
               (ps_unpin True p))"

definition insert_in_leaf ::
  "nat \<Rightarrow> 'k::linorder \<Rightarrow> 'v \<Rightarrow> ('k, 'v) be_node pstore \<Rightarrow> ('k, 'v) be_node pstore result" where
  "insert_in_leaf p key value s =
     bindE (be_leaf_at p s) (\<lambda>l.
     let keyIndex = lower_bound (keys l) (lsize l) key
     in if keyIndex < lsize l \<and> keys l ! keyIndex = key then
          (if vals l ! keyIndex \<noteq> value
           then bindE (ps_put p (BeLeaf (l\<lparr>vals := (vals l)[keyIndex := value]\<rparr>)) s) (ps_unpin True p)
           else ps_unpin False p s)
        else if lsize l \<ge> length (keys l) then Inl Undefined
        else bindE (ps_put p (BeLeaf (leaf_insert keyIndex key value l)) s) (ps_unpin True p))"

text \<open>A message of an invalid type leaves the page pinned.\<close>

definition upsert_leaf ::
  "nat \<Rightarrow> ('k::linorder, 'v::plus) upsert \<Rightarrow> ('k, 'v) be_node pstore \<Rightarrow> ('k, 'v) be_node pstore result" where
  "upsert_leaf p u s =
     (case utype u of
        DELETE \<Rightarrow> delete_in_leaf p (ukey u) s
      | UPDATE \<Rightarrow> update_in_leaf p (ukey u) (uval u) s
      | INSERT \<Rightarrow> insert_in_leaf p (ukey u) (uval u) s
      | INVALID \<Rightarrow> Inr s)"

section \<open>Below a root node\<close>

text \<open>A new pivot and the page behind it; a full root has no room for them.\<close>

definition root_insert :: "nat \<Rightarrow> 'k \<Rightarrow> nat \<Rightarrow> 'k be_root \<Rightarrow> 'k be_root result" where
  "root_insert childIndex middleKey rightPage n =
     (if rsize n \<ge> length (rpivots n) then Inl Undefined
      else Inr (n\<lparr>rpivots := insert_at (rsize n) childIndex middleKey (rpivots n),
                  rchildren := insert_at (rsize n + 1) (childIndex + 1) rightPage (rchildren n),
                  rsize := rsize n + 1\<rparr>))"

fun unpin_others :: "nat \<Rightarrow> nat list \<Rightarrow> 'n pstore \<Rightarrow> 'n pstore result" where
  "unpin_others target [] s = Inr s"
| "unpin_others target (p # ps) s =
     (if p = target then unpin_others target ps s
      else bindE (ps_unpin True p s) (unpin_others target ps))"

text \<open>
  The child for the message: pinned, with its index and whether the root was split for it. No
  result means that the attempt needs the exclusive mode.
\<close>

definition root_target ::
  "('k::linorder, 'v) be_config \<Rightarrow> 'k \<Rightarrow> nat \<Rightarrow> bool \<Rightarrow> ('k, 'v) be_node pstore \<Rightarrow>
   ((nat \<times> nat \<times> bool) option \<times> ('k, 'v) be_node pstore) result" where
  "root_target C key rootPage exclusiveMode s =
     bindE (be_root_at rootPage s) (\<lambda>rootNode.
     bindE (check (rsize rootNode \<le> length (rpivots rootNode))) (\<lambda>_.
     if rsize rootNode = length (rpivots rootNode) then
       (if \<not> exclusiveMode then bindE (ps_unpin False rootPage s) (\<lambda>s1. Inr (None, s1))
        else bindE (splitRootNode C rootPage s) (\<lambda>(children, midPivots, s1).
             let childIndex = lower_bound midPivots (length midPivots) key
             in if childIndex \<ge> length children then Inl Undefined
                else bindE (unpin_others (children ! childIndex) children s1) (\<lambda>s2.
                       Inr (Some (children ! childIndex, childIndex, True), s2))))
     else
       let childIndex = lower_bound (rpivots rootNode) (rsize rootNode) key;
           targetPage = rchildren rootNode ! childIndex
       in bindE (ps_pin False (\<lambda>_. True) targetPage s) (\<lambda>s1.
            Inr (Some (targetPage, childIndex, False), s1))))"

text \<open>The target is a leaf.\<close>

definition root_leaf_upsert ::
  "('k::linorder, 'v::plus) be_config \<Rightarrow> ('k, 'v) upsert \<Rightarrow> nat \<Rightarrow> bool \<Rightarrow> nat \<Rightarrow> nat \<Rightarrow> bool \<Rightarrow>
   ('k, 'v) be_node pstore \<Rightarrow> (bool \<times> ('k, 'v) be_node pstore) result" where
  "root_leaf_upsert C u rootPage exclusiveMode targetPage childIndex splitRoot s =
     bindE (be_leaf_at targetPage s) (\<lambda>leafNode.
     bindE (check (lsize leafNode \<le> length (keys leafNode))) (\<lambda>_.
     if utype u = INSERT \<and> lsize leafNode = length (keys leafNode) then
       (if \<not> exclusiveMode then bindE (ps_unpin False targetPage s) (\<lambda>s1. Inr (False, s1))
        else bindE (findMedianKey (zeroKey C) (sizeMaxKey C) (keys leafNode) (lsize leafNode) [ukey u] 1)
               (\<lambda>medianKey.
             bindE (be_splitLeafNode C targetPage medianKey s) (\<lambda>(rightPage, middleKey, s1).
             bindE (be_root_at rootPage s1) (\<lambda>rootNode.
             bindE (root_insert childIndex middleKey rightPage rootNode) (\<lambda>rootNode'.
             bindE (ps_put rootPage (BeRoot rootNode') s1) (\<lambda>s2.
             bindE (ps_unpin True rootPage s2) (\<lambda>s3.
             if ukey u \<le> middleKey
             then bindE (ps_unpin True rightPage s3) (\<lambda>s4.
                  bindE (upsert_leaf targetPage u s4) (\<lambda>s5. Inr (True, s5)))
             else bindE (ps_unpin True targetPage s3) (\<lambda>s4.
                  bindE (upsert_leaf rightPage u s4) (\<lambda>s5. Inr (True, s5))))))))))
     else bindE (if exclusiveMode then ps_unpin splitRoot rootPage s else Inr s) (\<lambda>s1.
          bindE (upsert_leaf targetPage u s1) (\<lambda>s2. Inr (True, s2)))))"

text \<open>The flush of a full buffer; the target is split before if it has no room for a pivot.\<close>

definition flush_target ::
  "('k::linorder, 'v::plus) be_config \<Rightarrow> nat \<Rightarrow> ('k, 'v) upsert \<Rightarrow> nat \<Rightarrow> bool \<Rightarrow> nat \<Rightarrow> nat \<Rightarrow> bool \<Rightarrow>
   ('k, 'v) be_node pstore \<Rightarrow> (bool \<times> ('k, 'v) be_node pstore) result" where
  "flush_target C fuel u rootPage exclusiveMode targetPage childIndex splitRoot s =
     bindE (be_inner_at targetPage s) (\<lambda>innerNode.
     if innsize innerNode + 1 > length (ipivots innerNode) then
       (if \<not> exclusiveMode then bindE (ps_unpin False targetPage s) (\<lambda>s1. Inr (False, s1))
        else bindE (removeMessages C innerNode [u] (MAX_FLUSH_SIZE C)) (\<lambda>(targetMap, innerNode').
             bindE (check (length targetMap = 1)) (\<lambda>_.
             bindE (ps_put targetPage (BeInner innerNode') s) (\<lambda>s1.
             bindE (be_splitInnerNode C targetPage s1) (\<lambda>(rightPage, middleKey, s2).
             bindE (be_root_at rootPage s2) (\<lambda>rootNode.
             bindE (root_insert childIndex middleKey rightPage rootNode) (\<lambda>rootNode'.
             bindE (ps_put rootPage (BeRoot rootNode') s2) (\<lambda>s3.
             bindE (ps_unpin True rootPage s3) (\<lambda>s4.
             bindE (queue_halves C targetPage rightPage targetMap [] s4) (\<lambda>(queue, s5).
             bindE (traversal_loop C fuel queue s5) (\<lambda>s6. Inr (True, s6))))))))))))
     else bindE (if exclusiveMode then ps_unpin splitRoot rootPage s else Inr s) (\<lambda>s1.
          bindE (removeMessages C innerNode [u] (MAX_FLUSH_SIZE C)) (\<lambda>(targetMap, innerNode').
          bindE (ps_put targetPage (BeInner innerNode') s1) (\<lambda>s2.
          bindE (traversal_loop C fuel [(targetPage, targetMap)] s2) (\<lambda>s3. Inr (True, s3))))))"

text \<open>The target is an inner node.\<close>

definition root_inner_upsert ::
  "('k::linorder, 'v::plus) be_config \<Rightarrow> nat \<Rightarrow> ('k, 'v) upsert \<Rightarrow> nat \<Rightarrow> bool \<Rightarrow> nat \<Rightarrow> nat \<Rightarrow> bool \<Rightarrow>
   ('k, 'v) be_node pstore \<Rightarrow> (bool \<times> ('k, 'v) be_node pstore) result" where
  "root_inner_upsert C fuel u rootPage exclusiveMode targetPage childIndex splitRoot s =
     bindE (be_inner_at targetPage s) (\<lambda>innerNode.
     let buf = ubuf innerNode;
         upsertIndex = lower_bound (map ukey (upserts buf)) (usize buf) (ukey u)
     in if upsertIndex < usize buf \<and> ukey (upserts buf ! upsertIndex) = ukey u then
          bindE (if exclusiveMode then ps_unpin splitRoot rootPage s else Inr s) (\<lambda>s1.
          bindE (squashUpserts u (upserts buf ! upsertIndex)) (\<lambda>u'.
          bindE (ps_put targetPage (BeInner (innerNode\<lparr>
              ubuf := buf\<lparr>upserts := (upserts buf)[upsertIndex := u']\<rparr>\<rparr>)) s1) (\<lambda>s2.
          bindE (ps_unpin True targetPage s2) (\<lambda>s3. Inr (True, s3)))))
        else if usize buf < length (upserts buf) then
          bindE (if exclusiveMode then ps_unpin splitRoot rootPage s else Inr s) (\<lambda>s1.
          bindE (ps_put targetPage (BeInner (innerNode\<lparr>
              ubuf := \<lparr>upserts = insert_at (usize buf) upsertIndex u (upserts buf), usize = usize buf + 1\<rparr>\<rparr>)) s1)
            (\<lambda>s2.
          bindE (ps_unpin True targetPage s2) (\<lambda>s3. Inr (True, s3))))
        else flush_target C fuel u rootPage exclusiveMode targetPage childIndex splitRoot s)"

definition handleRootRootUpsert ::
  "('k::linorder, 'v::plus) be_config \<Rightarrow> nat \<Rightarrow> ('k, 'v) upsert \<Rightarrow> nat \<Rightarrow> bool \<Rightarrow>
   ('k, 'v) be_node pstore \<Rightarrow> (bool \<times> ('k, 'v) be_node pstore) result" where
  "handleRootRootUpsert C fuel u rootPage exclusiveMode s =
     bindE (root_target C (ukey u) rootPage exclusiveMode s) (\<lambda>(target, s1).
     case target of
       None \<Rightarrow> Inr (False, s1)
     | Some (targetPage, childIndex, splitRoot) \<Rightarrow>
         bindE (if exclusiveMode then Inr s1 else ps_unpin False rootPage s1) (\<lambda>s2.
         bindE (ps_get targetPage s2) (\<lambda>node.
         if is_be_leaf node
         then root_leaf_upsert C u rootPage exclusiveMode targetPage childIndex splitRoot s2
         else root_inner_upsert C fuel u rootPage exclusiveMode targetPage childIndex splitRoot s2)))"

section \<open>A root that is a leaf\<close>

text \<open>The insert at the end of \<open>handleRootLeafUpsert\<close>, at an index found before the split.\<close>

definition put_in_split_root ::
  "nat \<Rightarrow> nat \<Rightarrow> 'k \<Rightarrow> 'v \<Rightarrow> ('k, 'v) be_node pstore \<Rightarrow> ('k, 'v) be_node pstore result" where
  "put_in_split_root p keyIndex key value s =
     bindE (be_leaf_at p s) (\<lambda>l.
       if lsize l \<ge> length (keys l) then Inl Undefined
       else bindE (ps_put p (BeLeaf (leaf_insert keyIndex key value l)) s) (ps_unpin True p))"

text \<open>The new root with the old leaf (on a new page) and its right half.\<close>

definition grow_be_root ::
  "('k, 'v) be_config \<Rightarrow> nat \<Rightarrow> nat \<Rightarrow> 'k \<Rightarrow> ('k, 'v) be_node pstore \<Rightarrow>
   (nat \<times> ('k, 'v) be_node pstore) result" where
  "grow_be_root C rootPage rightPage middleKey s =
     bindE (pin_new s) (\<lambda>(newRoot, s1).
     bindE (be_initializeNode C newRoot NodeType_ROOT s1) (\<lambda>s2.
     bindE (be_root_at newRoot s2) (\<lambda>n.
     let n' = n\<lparr>rpivots := (rpivots n)[0 := middleKey],
                rchildren := (rchildren n)[0 := newRoot, 1 := rightPage], rsize := 1\<rparr>
     in bindE (ps_get rootPage s2) (\<lambda>oldRoot.
        bindE (ps_put newRoot oldRoot s2) (\<lambda>s3.
        bindE (ps_put rootPage (BeRoot n') s3) (\<lambda>s4.
        bindE (ps_unpin True rootPage s4) (\<lambda>s5. Inr (newRoot, s5))))))))"

text \<open>The first component is the new value of \<open>header.rootLeaf\<close>.\<close>

definition handleRootLeafUpsert ::
  "('k::linorder, 'v::plus) be_config \<Rightarrow> ('k, 'v) upsert \<Rightarrow> nat \<Rightarrow> bool \<Rightarrow> ('k, 'v) be_node pstore \<Rightarrow>
   (bool \<times> ('k, 'v) be_node pstore) result" where
  "handleRootLeafUpsert C u rootPage rootLeaf s =
     bindE (be_leaf_at rootPage s) (\<lambda>leafNode.
     let keyIndex = lower_bound (keys leafNode) (lsize leafNode) (ukey u)
     in case utype u of
          DELETE \<Rightarrow> bindE (delete_in_leaf rootPage (ukey u) s) (\<lambda>s1. Inr (rootLeaf, s1))
        | UPDATE \<Rightarrow> bindE (update_in_leaf rootPage (ukey u) (uval u) s) (\<lambda>s1. Inr (rootLeaf, s1))
        | INSERT \<Rightarrow>
            if keyIndex < lsize leafNode \<and> keys leafNode ! keyIndex = ukey u then
              (if vals leafNode ! keyIndex \<noteq> uval u
               then bindE (ps_put rootPage (BeLeaf (leafNode\<lparr>vals := (vals leafNode)[keyIndex := uval u]\<rparr>)) s)
                      (\<lambda>s1. bindE (ps_unpin True rootPage s1) (\<lambda>s2. Inr (rootLeaf, s2)))
               else bindE (ps_unpin False rootPage s) (\<lambda>s1. Inr (rootLeaf, s1)))
            else bindE (check (lsize leafNode \<le> length (keys leafNode))) (\<lambda>_.
              if lsize leafNode = length (keys leafNode) then
                bindE (findMedianKey (zeroKey C) (sizeMaxKey C) (keys leafNode) (lsize leafNode) [ukey u] 1)
                  (\<lambda>medianKey.
                bindE (be_splitLeafNode C rootPage medianKey s) (\<lambda>(rightPage, middleKey, s1).
                bindE (grow_be_root C rootPage rightPage middleKey s1) (\<lambda>(newRoot, s2).
                if ukey u \<le> middleKey
                then bindE (ps_unpin True rightPage s2) (\<lambda>s3.
                     bindE (put_in_split_root newRoot keyIndex (ukey u) (uval u) s3) (\<lambda>s4. Inr (False, s4)))
                else bindE (be_leaf_at newRoot s2) (\<lambda>left.
                     bindE (ps_unpin True newRoot s2) (\<lambda>s3.
                     bindE (put_in_split_root rightPage (keyIndex - lsize left) (ukey u) (uval u) s3)
                       (\<lambda>s4. Inr (False, s4)))))))
              else bindE (put_in_split_root rootPage keyIndex (ukey u) (uval u) s) (\<lambda>s1. Inr (rootLeaf, s1)))
        | INVALID \<Rightarrow> Inr (rootLeaf, s))"

section \<open>Operations\<close>

definition be_upsert ::
  "('k::linorder, 'v::plus) be_config \<Rightarrow> nat \<Rightarrow> ('k, 'v) upsert \<Rightarrow> ('k, 'v) be_tree \<Rightarrow> ('k, 'v) be_tree result" where
  "be_upsert C fuel u t =
     bindE (ps_pin False (\<lambda>_. beRootLeaf t) (beRootID t) (bePages t)) (\<lambda>s1.
     bindE (ps_get (beRootID t) s1) (\<lambda>rootNode.
     if is_be_leaf rootNode then
       bindE (check (beRootLeaf t)) (\<lambda>_.
       bindE (handleRootLeafUpsert C u (beRootID t) (beRootLeaf t) s1) (\<lambda>(rl, s2).
         Inr (t\<lparr>bePages := s2, beRootLeaf := rl\<rparr>)))
     else
       bindE (check (\<not> beRootLeaf t)) (\<lambda>_.
       bindE (asBeRoot rootNode) (\<lambda>_.
       bindE (handleRootRootUpsert C fuel u (beRootID t) False s1) (\<lambda>(success, s2).
       if success then Inr (t\<lparr>bePages := s2\<rparr>)
       else bindE (ps_pin False (\<lambda>_. True) (beRootID t) s2) (\<lambda>s3.
            bindE (handleRootRootUpsert C fuel u (beRootID t) True s3) (\<lambda>(success', s4).
              Inr (t\<lparr>bePages := s4\<rparr>))))))))"

text \<open>The time stamp is the incremented counter; \<open>V()\<close> is the value of an erase.\<close>

definition next_stamp :: "('k, 'v) be_tree \<Rightarrow> nat" where
  "next_stamp t = (beTimeStamp t + 1) mod 2 ^ 64"

definition be_insert ::
  "('k::linorder, 'v::plus) be_config \<Rightarrow> nat \<Rightarrow> 'k \<Rightarrow> 'v \<Rightarrow> ('k, 'v) be_tree \<Rightarrow> ('k, 'v) be_tree result" where
  "be_insert C fuel key value t =
     be_upsert C fuel \<lparr>ukey = key, uval = value, timeStamp = next_stamp t, utype = INSERT\<rparr>
       (t\<lparr>beTimeStamp := next_stamp t\<rparr>)"

definition be_update ::
  "('k::linorder, 'v::plus) be_config \<Rightarrow> nat \<Rightarrow> 'k \<Rightarrow> 'v \<Rightarrow> ('k, 'v) be_tree \<Rightarrow> ('k, 'v) be_tree result" where
  "be_update C fuel key value t =
     be_upsert C fuel \<lparr>ukey = key, uval = value, timeStamp = next_stamp t, utype = UPDATE\<rparr>
       (t\<lparr>beTimeStamp := next_stamp t\<rparr>)"

definition be_erase ::
  "('k::linorder, 'v::plus) be_config \<Rightarrow> nat \<Rightarrow> 'v \<Rightarrow> 'k \<Rightarrow> ('k, 'v) be_tree \<Rightarrow> ('k, 'v) be_tree result" where
  "be_erase C fuel defaultValue key t =
     be_upsert C fuel \<lparr>ukey = key, uval = defaultValue, timeStamp = next_stamp t, utype = DELETE\<rparr>
       (t\<lparr>beTimeStamp := next_stamp t\<rparr>)"

section \<open>Find\<close>

text \<open>The messages for the key in one buffer: deleted, local updates, current value.\<close>

fun find_scan :: "('k, 'v) upsert list \<Rightarrow> bool \<Rightarrow> 'v list \<Rightarrow> 'v option \<Rightarrow> bool \<times> 'v list \<times> 'v option" where
  "find_scan [] deleted localUpdates currentValue = (deleted, localUpdates, currentValue)"
| "find_scan (u # us) deleted localUpdates currentValue =
     (case utype u of
        DELETE \<Rightarrow> find_scan us True [] None
      | UPDATE \<Rightarrow> find_scan us deleted (localUpdates @ [uval u]) currentValue
      | INSERT \<Rightarrow> find_scan us False [] (Some (uval u))
      | INVALID \<Rightarrow> find_scan us deleted localUpdates currentValue)"

text \<open>
  The descent: the page it ends on (none if a message settled the value), the accumulated
  updates, the current value.
\<close>

fun find_loop ::
  "nat \<Rightarrow> 'k::linorder \<Rightarrow> nat \<Rightarrow> 'v list \<Rightarrow> ('k, 'v) be_node pstore \<Rightarrow>
   (nat option \<times> 'v list \<times> 'v option \<times> ('k, 'v) be_node pstore) result" where
  "find_loop 0 key currentPage accumulatedUpdates s = Inl OutOfFuel"
| "find_loop (Suc fuel) key currentPage accumulatedUpdates s =
     bindE (ps_get currentPage s) (\<lambda>node.
     case node of
       BeInner innerNode \<Rightarrow>
         let buf = ubuf innerNode;
             first = lower_bound (map ukey (upserts buf)) (usize buf) key;
             block = takeWhile (\<lambda>u. ukey u = key) (drop first (take (usize buf) (upserts buf)));
             (deleted, localUpdates, currentValue) = find_scan block False [] None;
             acc = rev localUpdates @ (if deleted then [] else accumulatedUpdates)
         in if deleted \<or> currentValue \<noteq> None
            then bindE (ps_unpin False currentPage s) (\<lambda>s1. Inr (None, acc, currentValue, s1))
            else let child = lower_bound (ipivots innerNode) (innsize innerNode) key;
                     childId = ichildren innerNode ! child
                 in bindE (ps_pin False (\<lambda>_. False) childId s) (\<lambda>s1.
                    bindE (ps_unpin False currentPage s1) (\<lambda>s2. find_loop fuel key childId acc s2))
     | _ \<Rightarrow> Inr (Some currentPage, accumulatedUpdates, None, s))"

text \<open>The updates are added to the value; without a value an assertion fails.\<close>

fun add_updates :: "'v::plus list \<Rightarrow> 'v option \<Rightarrow> 'v option result" where
  "add_updates [] currentValue = Inr currentValue"
| "add_updates (x # xs) currentValue =
     bindE (check (currentValue \<noteq> None)) (\<lambda>_. add_updates xs (map_option (\<lambda>v. v + x) currentValue))"

definition be_find ::
  "('k::linorder, 'v::plus) be_config \<Rightarrow> nat \<Rightarrow> 'k \<Rightarrow> ('k, 'v) be_tree \<Rightarrow> ('v option \<times> ('k, 'v) be_tree) result" where
  "be_find C fuel key t =
     bindE (ps_pin False (\<lambda>_. False) (beRootID t) (bePages t)) (\<lambda>s1.
     bindE (ps_get (beRootID t) s1) (\<lambda>node.
     case node of
       BeRoot rootNode \<Rightarrow>
         let childIndex = lower_bound (rpivots rootNode) (rsize rootNode) key;
             childId = rchildren rootNode ! childIndex
         in bindE (ps_pin False (\<lambda>_. False) childId s1) (\<lambda>s2.
            bindE (ps_unpin False (beRootID t) s2) (\<lambda>s3.
            bindE (find_loop fuel key childId [] s3) (\<lambda>(page, accumulatedUpdates, currentValue, s4).
            bindE (case page of
                     None \<Rightarrow> Inr (currentValue, s4)
                   | Some p \<Rightarrow>
                       bindE (be_leaf_at p s4) (\<lambda>leafNode.
                       let index = lower_bound (keys leafNode) (lsize leafNode) key;
                           value = (if currentValue = None \<and> index < lsize leafNode \<and> keys leafNode ! index = key
                                    then Some (vals leafNode ! index) else currentValue)
                       in bindE (ps_unpin False p s4) (\<lambda>s5. Inr (value, s5)))) (\<lambda>(value, s5).
            bindE (add_updates accumulatedUpdates value) (\<lambda>value'. Inr (value', t\<lparr>bePages := s5\<rparr>))))))
     | _ \<Rightarrow> bindE (ps_unpin False (beRootID t) s1) (\<lambda>s2. Inr (None, t\<lparr>bePages := s2\<rparr>))))"

definition be_pageAmount :: "('k, 'v) be_tree \<Rightarrow> nat" where
  "be_pageAmount t = ps_pageAmount (bePages t)"

section \<open>Flushing and opening\<close>

definition enc_be_hdr :: "nat \<Rightarrow> nat \<Rightarrow> bool \<Rightarrow> 8 word list" where
  "enc_be_hdr root stamp leaf = enc64 root @ enc64 stamp @ (if leaf then 1 else 0) # replicate 15 0"

definition be_flush :: "('k, 'v) be_tree \<Rightarrow> ('k, 'v) be_tree" where
  "be_flush t =
     t\<lparr>beHdrFile := pwrite (beHdrFile t) (enc_be_hdr (beRootID t) (beTimeStamp t) (beRootLeaf t)) 0,
       bePages := ps_flush (bePages t)\<rparr>"

definition be_open :: "os_file \<Rightarrow> ('k, 'v) be_node pstore \<Rightarrow> ('k, 'v) be_tree result" where
  "be_open f s =
     (let bs = pread f 32 0
      in if length bs \<noteq> 32 then raise ''Invalid betree header!''
         else Inr \<lparr>bePages = s, beRootID = dec_uint (take 8 bs), beTimeStamp = dec_uint (take 8 (drop 8 bs)),
                   beRootLeaf = (bs ! 16 \<noteq> 0), beHdrFile = f\<rparr>)"

section \<open>Printing\<close>

text \<open>As for the B+-tree: the dot language, written to the standard output.\<close>

fun upsert_name :: "upsert_type \<Rightarrow> string" where
  "upsert_name INSERT = ''INSERT''"
| "upsert_name UPDATE = ''UPDATE''"
| "upsert_name DELETE = ''DELETE''"
| "upsert_name INVALID = ''UNKNOWN''"

definition be_print_upsert :: "('k \<Rightarrow> string) \<Rightarrow> ('v \<Rightarrow> string) \<Rightarrow> ('k, 'v) upsert \<Rightarrow> string" where
  "be_print_upsert showK showV u =
     ''('' @ upsert_name (utype u) @ '': '' @ showK (ukey u) @ '', '' @ showV (uval u) @ '')''"

definition be_print_node :: "('k \<Rightarrow> string) \<Rightarrow> ('v \<Rightarrow> string) \<Rightarrow> nat \<Rightarrow> ('k, 'v) be_node \<Rightarrow> string" where
  "be_print_node showK showV currentID node =
     show_nat currentID @ ''[label=\"'' @
     (case node of
        BeLeaf l \<Rightarrow> bt_print_leaf showK showV l
      | BeInner n \<Rightarrow>
          ''pivots=('' @ comma_separated (map showK (take (innsize n) (ipivots n))) @ '') buffer=('' @
          comma_separated (map (be_print_upsert showK showV) (take (usize (ubuf n)) (upserts (ubuf n)))) @
          '')'' @ line_end @ concat (map (bt_print_edge currentID) (take (innsize n + 1) (ichildren n)))
      | BeRoot n \<Rightarrow>
          comma_separated (map showK (take (rsize n) (rpivots n))) @ line_end @
          concat (map (bt_print_edge currentID) (take (rsize n + 1) (rchildren n))))"

fun be_children :: "('k, 'v) be_node \<Rightarrow> nat list" where
  "be_children (BeLeaf l) = []"
| "be_children (BeInner n) = take (innsize n + 1) (ichildren n)"
| "be_children (BeRoot n) = take (rsize n + 1) (rchildren n)"

fun be_print_loop ::
  "('k \<Rightarrow> string) \<Rightarrow> ('v \<Rightarrow> string) \<Rightarrow> nat \<Rightarrow> nat list \<Rightarrow> ('k, 'v) be_node pstore \<Rightarrow>
   (string \<times> ('k, 'v) be_node pstore) result" where
  "be_print_loop showK showV 0 queue s = Inl OutOfFuel"
| "be_print_loop showK showV (Suc fuel) [] s = Inr ('''', s)"
| "be_print_loop showK showV (Suc fuel) (currentID # queue) s =
     bindE (ps_pin False (\<lambda>_. False) currentID s) (\<lambda>s1.
     bindE (ps_get currentID s1) (\<lambda>node.
     bindE (ps_unpin False currentID s1) (\<lambda>s2.
     bindE (be_print_loop showK showV fuel (queue @ be_children node) s2) (\<lambda>(out, s3).
       Inr (be_print_node showK showV currentID node @ out, s3)))))"

definition be_print ::
  "('k \<Rightarrow> string) \<Rightarrow> ('v \<Rightarrow> string) \<Rightarrow> nat \<Rightarrow> ('k, 'v) be_tree \<Rightarrow> (string \<times> ('k, 'v) be_tree) result" where
  "be_print showK showV fuel t =
     bindE (be_print_loop showK showV fuel [beRootID t] (bePages t)) (\<lambda>(out, s).
       Inr (''digraph{'' @ [CHR 0x0A] @ out @ ''}'', t\<lparr>bePages := s\<rparr>))"

end
