(* ===== verification/BeInv.thy ===== *)
theory BeInv
  imports BeRoot BTreeInv
begin

text \<open>
  The invariant of the B-epsilon-tree and its meaning. In the middle of a flush a page can have
  messages on the way to it, in a message map of the traversal: its \<open>inbox\<close>. A state is a
  map from pages to nodes with their inboxes. The \<open>trail\<close> of a key are the messages for it on the
  path to its leaf, the newest first, the \<open>base\<close> is its value in the leaf, and \<open>look\<close>, the base
  after all messages of the trail, is the value that the tree stands for.

  A flush moves messages down: \<open>evolves\<close> says that a step keeps a subtree in order and keeps the
  value of every key. The lemmas here lift such steps from a child to its parent.
\<close>

section \<open>Positions\<close>

definition within :: "'k::linorder option \<Rightarrow> 'k option \<Rightarrow> 'k \<Rightarrow> bool" where
  "within lo hi k \<longleftrightarrow> gt_lo lo k \<and> le_hi hi k"

definition lo_at :: "'k option \<Rightarrow> 'k list \<Rightarrow> nat \<Rightarrow> 'k option" where
  "lo_at lo ps j = (if j = 0 then lo else Some (ps ! (j - 1)))"

definition hi_at :: "'k list \<Rightarrow> 'k option \<Rightarrow> nat \<Rightarrow> 'k option" where
  "hi_at ps hi j = (if j < length ps then Some (ps ! j) else hi)"

definition route :: "'k::linorder list \<Rightarrow> 'k \<Rightarrow> nat" where
  "route ps key = length (takeWhile (\<lambda>p. p < key) ps)"

lemma within_None [simp]: "within None None k"
  by (simp add: within_def)

lemma route_le: "route ps key \<le> length ps"
  by (simp add: route_def length_takeWhile_le)

lemma route_within:
  assumes "within lo hi key"
  shows "within (lo_at lo ps (route ps key)) (hi_at ps hi (route ps key)) key"
proof -
  let ?j = "route ps key"
  have "ps ! (?j - 1) < key" if "0 < ?j"
    using nth_takeWhile_P [of "?j - 1" "\<lambda>p. p < key" ps] that by (simp add: route_def)
  moreover have "key \<le> ps ! ?j" if "?j < length ps"
    using nth_length_takeWhile [of "\<lambda>p. p < key" ps] that by (simp add: route_def)
  ultimately show ?thesis using assms by (auto simp: within_def lo_at_def hi_at_def)
qed

lemma route_unique:
  assumes "sorted_wrt (<) ps" "j \<le> length ps" "within (lo_at lo ps j) (hi_at ps hi j) key"
  shows "route ps key = j"
  unfolding route_def
proof (rule length_takeWhile_eqI [OF assms(2)])
  fix i assume i: "i < j"
  then have "i = j - 1 \<or> i < j - 1" "j - 1 < length ps" using assms(2) by auto
  then have "ps ! i \<le> ps ! (j - 1)"
    using sorted_wrt_less_nth_mono [OF assms(1), of i "j - 1"] by auto
  moreover have "ps ! (j - 1) < key" using assms(3) i by (simp add: within_def lo_at_def)
  ultimately show "ps ! i < key" by simp
next
  assume "j < length ps"
  then show "\<not> ps ! j < key" using assms(3) by (simp add: within_def hi_at_def not_less)
qed

lemma within_part:
  assumes "within (lo_at lo ps j) (hi_at ps hi j) key" "j \<le> length ps"
    "\<forall>p \<in> set ps. gt_lo lo p \<and> lt_hi hi p"
  shows "within lo hi key"
proof -
  have "gt_lo lo key"
  proof (cases "j = 0")
    case False
    then have "ps ! (j - 1) \<in> set ps" "ps ! (j - 1) < key"
      using assms(1,2) by (auto simp: within_def lo_at_def)
    then show ?thesis using assms(3) above_trans by (metis order.strict_implies_order)
  qed (use assms(1) in \<open>simp add: within_def lo_at_def\<close>)
  moreover have "le_hi hi key"
  proof (cases "j < length ps")
    case True
    then have "ps ! j \<in> set ps" "key \<le> ps ! j" using assms(1) by (auto simp: within_def hi_at_def)
    then show ?thesis using assms(3) below_trans below_upto by blast
  qed (use assms(1) in \<open>simp add: within_def hi_at_def\<close>)
  ultimately show ?thesis by (simp add: within_def)
qed

section \<open>Nodes\<close>

definition bmsgs :: "('k, 'v) be_inner \<Rightarrow> ('k, 'v) upsert list" where
  "bmsgs n = take (usize (ubuf n)) (upserts (ubuf n))"

definition bseps :: "('k, 'v) be_inner \<Rightarrow> 'k list" where
  "bseps n = take (innsize n) (ipivots n)"

definition bkids :: "('k, 'v) be_inner \<Rightarrow> nat list" where
  "bkids n = take (innsize n + 1) (ichildren n)"

abbreviation bleaf_ok :: "('k::linorder, 'v) be_config \<Rightarrow> ('k, 'v) leaf_node \<Rightarrow> bool" where
  "bleaf_ok C \<equiv> leaf_ok (bconfig.truncate C)"

definition be_inner_ok :: "('k::linorder, 'v) be_config \<Rightarrow> ('k, 'v) be_inner \<Rightarrow> bool" where
  "be_inner_ok C n \<longleftrightarrow>
     length (ipivots n) = INNER_N C \<and> length (ichildren n) = INNER_N C + 1 \<and> innsize n \<le> INNER_N C \<and>
     sorted_wrt (<) (bseps n) \<and>
     length (upserts (ubuf n)) = INNER_B_N C \<and> usize (ubuf n) \<le> INNER_B_N C \<and> upserts_ok (bmsgs n)"

lemma truncate_simps [simp]: "LEAF_N (bconfig.truncate C) = LEAF_N C" "INNER_N (bconfig.truncate C) = INNER_N C"
  by (simp_all add: bconfig.truncate_def)

lemma be_inner_okD:
  assumes "be_inner_ok C n"
  shows "length (ipivots n) = INNER_N C" "length (ichildren n) = INNER_N C + 1" "innsize n \<le> INNER_N C"
    "sorted_wrt (<) (bseps n)" "length (bseps n) = innsize n" "length (bkids n) = innsize n + 1"
    "length (upserts (ubuf n)) = INNER_B_N C" "usize (ubuf n) \<le> INNER_B_N C" "upserts_ok (bmsgs n)"
    "length (bmsgs n) = usize (ubuf n)" "j \<le> innsize n \<Longrightarrow> bkids n ! j = ichildren n ! j"
    "lower_bound (ipivots n) (innsize n) key = route (bseps n) key"
  using assms lower_bound_takeWhile [of "innsize n" "ipivots n" key]
  by (auto simp: be_inner_ok_def bseps_def bkids_def bmsgs_def route_def strict_sorted_imp_sorted)

section \<open>States\<close>

type_synonym ('k, 'v) be_state = "nat \<rightharpoonup> ('k, 'v) be_node \<times> ('k, 'v) upsert list"

definition inbox :: "('k, 'v) be_state \<Rightarrow> nat \<Rightarrow> ('k, 'v) upsert list" where
  "inbox X i = (case X i of None \<Rightarrow> [] | Some (_, b) \<Rightarrow> b)"

definition plain :: "(nat \<rightharpoonup> ('k, 'v) be_node) \<Rightarrow> ('k, 'v) be_state" where
  "plain nd = (\<lambda>i. map_option (\<lambda>n. (n, [])) (nd i))"

definition nds :: "('k, 'v) be_state \<Rightarrow> nat \<rightharpoonup> ('k, 'v) be_node" where
  "nds X = (\<lambda>i. map_option fst (X i))"

definition inbox_ok :: "('k::linorder, 'v) be_config \<Rightarrow> 'k option \<Rightarrow> 'k option \<Rightarrow> ('k, 'v) upsert list \<Rightarrow> bool" where
  "inbox_ok C lo hi b \<longleftrightarrow>
     upserts_ok b \<and> length b \<le> MAX_FLUSH_SIZE C \<and> (\<forall>u \<in> set b. within lo hi (ukey u))"

primrec be_ok ::
  "('k::linorder, 'v) be_config \<Rightarrow> nat \<Rightarrow> ('k, 'v) be_state \<Rightarrow> 'k option \<Rightarrow> 'k option \<Rightarrow> nat \<Rightarrow> bool" where
  "be_ok C 0 X lo hi i \<longleftrightarrow>
     (\<exists>l b. X i = Some (BeLeaf l, b) \<and> bleaf_ok C l \<and> (\<forall>k \<in> set (leaf_keys l). within lo hi k) \<and>
            inbox_ok C lo hi b)"
| "be_ok C (Suc h) X lo hi i \<longleftrightarrow>
     (\<exists>n b. X i = Some (BeInner n, b) \<and> be_inner_ok C n \<and> (\<forall>p \<in> set (bseps n). gt_lo lo p \<and> lt_hi hi p) \<and>
            (\<forall>u \<in> set (bmsgs n). within lo hi (ukey u)) \<and> inbox_ok C lo hi b \<and>
            (\<forall>j \<le> innsize n. be_ok C h X (lo_at lo (bseps n) j) (hi_at (bseps n) hi j) (bkids n ! j)))"

primrec be_ids :: "nat \<Rightarrow> ('k, 'v) be_state \<Rightarrow> nat \<Rightarrow> nat list" where
  "be_ids 0 X i = [i]"
| "be_ids (Suc h) X i =
     i # (case X i of Some (BeInner n, _) \<Rightarrow> concat (map (be_ids h X) (bkids n)) | _ \<Rightarrow> [])"

lemma in_be_ids [simp]: "i \<in> set (be_ids h X i)"
  by (cases h) auto

definition msgs_for :: "'k \<Rightarrow> ('k, 'v) upsert list \<Rightarrow> ('k, 'v) upsert list" where
  "msgs_for key us = filter (\<lambda>u. ukey u = key) us"

primrec trail :: "nat \<Rightarrow> ('k::linorder, 'v) be_state \<Rightarrow> 'k \<Rightarrow> nat \<Rightarrow> ('k, 'v) upsert list" where
  "trail 0 X key i = msgs_for key (inbox X i)"
| "trail (Suc h) X key i =
     msgs_for key (inbox X i) @
     (case X i of
        Some (BeInner n, _) \<Rightarrow> msgs_for key (bmsgs n) @ trail h X key (bkids n ! route (bseps n) key)
      | _ \<Rightarrow> [])"

primrec base :: "nat \<Rightarrow> ('k::linorder, 'v) be_state \<Rightarrow> 'k \<Rightarrow> nat \<Rightarrow> 'v option" where
  "base 0 X key i = (case X i of Some (BeLeaf l, _) \<Rightarrow> map_of (leaf_kvs l) key | _ \<Rightarrow> None)"
| "base (Suc h) X key i =
     (case X i of Some (BeInner n, _) \<Rightarrow> base h X key (bkids n ! route (bseps n) key) | _ \<Rightarrow> None)"

definition look :: "nat \<Rightarrow> ('k::linorder, 'v::plus) be_state \<Rightarrow> 'k \<Rightarrow> nat \<Rightarrow> 'v option" where
  "look h X key i = foldr effect (trail h X key i) (base h X key i)"

definition stamps :: "nat \<Rightarrow> ('k::linorder, 'v) be_state \<Rightarrow> 'k \<Rightarrow> nat \<Rightarrow> nat set" where
  "stamps h X key i = timeStamp ` set (trail h X key i)"

definition ordered :: "('k, 'v) upsert list \<Rightarrow> bool" where
  "ordered us \<longleftrightarrow> sorted_wrt (\<lambda>a b. timeStamp b < timeStamp a) us"

text \<open>A subtree in order; one step of it that keeps its meaning.\<close>

definition good ::
  "('k::linorder, 'v) be_config \<Rightarrow> nat \<Rightarrow> ('k, 'v) be_state \<Rightarrow> 'k option \<Rightarrow> 'k option \<Rightarrow> nat \<Rightarrow> bool" where
  "good C h X lo hi i \<longleftrightarrow>
     be_ok C h X lo hi i \<and> distinct (be_ids h X i) \<and> (\<forall>key. within lo hi key \<longrightarrow> ordered (trail h X key i))"

definition same_at ::
  "nat \<Rightarrow> ('k::linorder, 'v::plus) be_state \<Rightarrow> nat \<Rightarrow> ('k, 'v) be_state \<Rightarrow> nat \<Rightarrow> 'k \<Rightarrow> bool" where
  "same_at h X i X' i' key \<longleftrightarrow>
     look h X' key i' = look h X key i \<and> stamps h X' key i' \<subseteq> stamps h X key i"

definition evolves ::
  "('k::linorder, 'v::plus) be_config \<Rightarrow> nat \<Rightarrow> ('k, 'v) be_state \<Rightarrow> ('k, 'v) be_state \<Rightarrow> 'k option \<Rightarrow> 'k option \<Rightarrow>
   nat \<Rightarrow> bool" where
  "evolves C h X X' lo hi i \<longleftrightarrow>
     good C h X' lo hi i \<and> grows X (set (be_ids h X i)) X' (set (be_ids h X' i)) \<and>
     (\<forall>key. within lo hi key \<longrightarrow> same_at h X i X' i key)"

section \<open>A tree depends on its own pages only\<close>

lemma plain_simps [simp]:
  "inbox (plain nd) i = []" "dom (plain nd) = dom nd" "nds (plain nd) = nd"
  "plain nd i = Some (x, b) \<longleftrightarrow> nd i = Some x \<and> b = []"
  by (auto simp: inbox_def plain_def nds_def dom_def option.map_comp comp_def option.map_ident split: option.splits)

lemma nds_simps [simp]:
  "dom (nds X) = dom X" "nds (X(i \<mapsto> (x, b))) = (nds X)(i \<mapsto> x)"
  by (auto simp: nds_def dom_def)

lemma nds_inbox: "X i = Some (x, b) \<Longrightarrow> nds (X(i \<mapsto> (x, b'))) = nds X"
  by (auto simp: nds_def)

lemma nds_at: "X i = Some (x, b) \<Longrightarrow> nds X i = Some x"
  by (simp add: nds_def)

lemma inbox_simps [simp]:
  "X i = Some (x, b) \<Longrightarrow> inbox X i = b" "inbox (X(i \<mapsto> (x, b))) j = (if j = i then b else inbox X j)"
  by (auto simp: inbox_def)

lemma be_ok_at: "be_ok C h X lo hi i \<Longrightarrow> \<exists>x b. X i = Some (x, b) \<and> inbox_ok C lo hi b"
  by (cases h) auto

lemma be_ok_inner:
  assumes "be_ok C (Suc h) X lo hi i" "X i = Some (BeInner n, b)"
  shows "be_inner_ok C n" "\<forall>p \<in> set (bseps n). gt_lo lo p \<and> lt_hi hi p"
    "\<forall>u \<in> set (bmsgs n). within lo hi (ukey u)" "inbox_ok C lo hi b"
    "j \<le> innsize n \<Longrightarrow> be_ok C h X (lo_at lo (bseps n) j) (hi_at (bseps n) hi j) (bkids n ! j)"
  using assms by auto

lemma kid_in:
  assumes "be_inner_ok C n"
  shows "j \<le> innsize n \<Longrightarrow> bkids n ! j \<in> set (bkids n)" "bkids n ! route (bseps n) key \<in> set (bkids n)"
    "route (bseps n) key \<le> innsize n"
proof -
  note k = be_inner_okD [OF assms]
  show "j \<le> innsize n \<Longrightarrow> bkids n ! j \<in> set (bkids n)" using k(6) by simp
  show r: "route (bseps n) key \<le> innsize n" using route_le [of "bseps n" key] k(5) by simp
  show "bkids n ! route (bseps n) key \<in> set (bkids n)" using k(6) r by simp
qed

lemma be_ids_dom: "be_ok C h X lo hi i \<Longrightarrow> set (be_ids h X i) \<subseteq> dom X"
proof (induction h arbitrary: lo hi i)
  case (Suc h)
  then obtain n b where n: "X i = Some (BeInner n, b)" by auto
  note o = be_ok_inner [OF Suc.prems n]
  have "set (be_ids h X c) \<subseteq> dom X" if c: "c \<in> set (bkids n)" for c
  proof -
    obtain j where "j < length (bkids n)" "c = bkids n ! j" using c by (auto simp: set_conv_nth)
    then show ?thesis using Suc.IH o(5) [of j] be_inner_okD(6) [OF o(1)] by simp
  qed
  then show ?case using n by auto
qed auto

lemma be_cong:
  assumes "be_ok C h X lo hi i" "\<And>j. j \<in> set (be_ids h X i) \<Longrightarrow> X' j = X j"
  shows "be_ok C h X' lo hi i" "be_ids h X' i = be_ids h X i" "trail h X' key i = trail h X key i"
    "base h X' key i = base h X key i"
proof -
  have "be_ok C h X' lo hi i \<and> be_ids h X' i = be_ids h X i \<and> trail h X' key i = trail h X key i \<and>
      base h X' key i = base h X key i"
    using assms
  proof (induction h arbitrary: lo hi i)
    case 0
    then have "X' i = X i" by simp
    then show ?case using 0 by (simp add: inbox_def)
  next
    case (Suc h)
    obtain n b where n: "X i = Some (BeInner n, b)" using Suc.prems(1) by auto
    note o = be_ok_inner [OF Suc.prems(1) n]
    note k = be_inner_okD [OF o(1)]
    have i: "X' i = X i" using Suc.prems(2) [of i] by simp
    have sub: "be_ok C h X' (lo_at lo (bseps n) j) (hi_at (bseps n) hi j) (bkids n ! j) \<and>
        be_ids h X' (bkids n ! j) = be_ids h X (bkids n ! j) \<and>
        trail h X' key (bkids n ! j) = trail h X key (bkids n ! j) \<and>
        base h X' key (bkids n ! j) = base h X key (bkids n ! j)" if "j \<le> innsize n" for j
      by (rule Suc.IH [OF o(5) [OF that]]) (use Suc.prems(2) n kid_in(1) [OF o(1) that] in auto)
    have "map (be_ids h X') (bkids n) = map (be_ids h X) (bkids n)"
      using sub k(6) by (intro nth_equalityI) (auto simp: less_Suc_eq_le)
    then have "be_ids (Suc h) X' i = be_ids (Suc h) X i" using i n by (simp del: map_eq_conv)
    moreover have "be_ok C (Suc h) X' lo hi i" using i n o sub by auto
    moreover have "inbox X' i = inbox X i" using i by (simp add: inbox_def)
    ultimately show ?case using i n sub [OF kid_in(3) [OF o(1)]] by simp
  qed
  then show "be_ok C h X' lo hi i" "be_ids h X' i = be_ids h X i" "trail h X' key i = trail h X key i"
    "base h X' key i = base h X key i" by blast+
qed

lemma good_cong:
  assumes "good C h X lo hi i" "\<And>j. j \<in> set (be_ids h X i) \<Longrightarrow> X' j = X j"
  shows "good C h X' lo hi i" "be_ids h X' i = be_ids h X i" "same_at h X i X' i key"
  using be_cong [OF _ assms(2)] assms(1)
  by (auto simp: good_def same_at_def look_def stamps_def)

section \<open>Families of trees\<close>

text \<open>Trees side by side: their heights, bounds and roots.\<close>

type_synonym 'k family = "(nat \<times> 'k option \<times> 'k option \<times> nat) list"

definition fids :: "('k, 'v) be_state \<Rightarrow> 'k family \<Rightarrow> nat list" where
  "fids X F = concat (map (\<lambda>(h, lo, hi, i). be_ids h X i) F)"

definition fgood :: "('k::linorder, 'v) be_config \<Rightarrow> ('k, 'v) be_state \<Rightarrow> 'k family \<Rightarrow> bool" where
  "fgood C X F \<longleftrightarrow> (\<forall>(h, lo, hi, i) \<in> set F. good C h X lo hi i) \<and> distinct (fids X F)"

definition fevolves ::
  "('k::linorder, 'v::plus) be_config \<Rightarrow> ('k, 'v) be_state \<Rightarrow> ('k, 'v) be_state \<Rightarrow> 'k family \<Rightarrow> bool" where
  "fevolves C X X' F \<longleftrightarrow>
     fgood C X' F \<and> grows X (set (fids X F)) X' (set (fids X' F)) \<and>
     (\<forall>(h, lo, hi, i) \<in> set F. \<forall>key. within lo hi key \<longrightarrow> same_at h X i X' i key)"

lemma fids_simps [simp]:
  "fids X [] = []" "fids X ((h, lo, hi, i) # F) = be_ids h X i @ fids X F" "fids X (F @ G) = fids X F @ fids X G"
  by (simp_all add: fids_def)

lemma fevolves_single: "fevolves C X X' [(h, lo, hi, i)] \<longleftrightarrow> evolves C h X X' lo hi i"
  by (auto simp: fevolves_def evolves_def fgood_def good_def)

lemma fgood_single: "fgood C X [(h, lo, hi, i)] \<longleftrightarrow> good C h X lo hi i"
  by (auto simp: fgood_def good_def)

lemma same_at_refl: "same_at h X i X i key"
  by (simp add: same_at_def)

lemma same_at_trans: "same_at h X i X1 j key \<Longrightarrow> same_at h X1 j X2 k key \<Longrightarrow> same_at h X i X2 k key"
  by (auto simp: same_at_def)

lemma fgoodD: "fgood C X F \<Longrightarrow> (h, lo, hi, i) \<in> set F \<Longrightarrow> good C h X lo hi i"
  unfolding fgood_def by blast

lemma fevolvesD:
  assumes "fevolves C X X' F"
  shows "fgood C X' F" "grows X (set (fids X F)) X' (set (fids X' F))"
    "(h, lo, hi, i) \<in> set F \<Longrightarrow> within lo hi key \<Longrightarrow> same_at h X i X' i key"
  using assms unfolding fevolves_def by blast+

lemma fevolvesI:
  assumes "fgood C X' F" "grows X (set (fids X F)) X' (set (fids X' F))"
    "\<And>h lo hi i key. (h, lo, hi, i) \<in> set F \<Longrightarrow> within lo hi key \<Longrightarrow> same_at h X i X' i key"
  shows "fevolves C X X' F"
  using assms unfolding fevolves_def by blast

lemma fevolves_refl: "fgood C X F \<Longrightarrow> fevolves C X X F"
  by (rule fevolvesI) (simp_all add: grows_refl same_at_refl)

lemma fevolves_trans:
  assumes "fevolves C X X1 F" "fevolves C X1 X2 F"
  shows "fevolves C X X2 F"
proof (rule fevolvesI)
  note a = fevolvesD [OF assms(1)] and b = fevolvesD [OF assms(2)]
  show "fgood C X2 F" by (rule b(1))
  show "grows X (set (fids X F)) X2 (set (fids X2 F))" by (rule grows_trans [OF a(2) b(2)])
  show "same_at h X i X2 i key" if "(h, lo, hi, i) \<in> set F" "within lo hi key" for h lo hi i key
    by (rule same_at_trans [OF a(3) b(3)]) (use that in blast)+
qed

lemma fgood_append:
  "fgood C X (F @ G) \<longleftrightarrow> fgood C X F \<and> fgood C X G \<and> set (fids X F) \<inter> set (fids X G) = {}"
  unfolding fgood_def fids_simps distinct_append set_append ball_Un by blast

lemma fids_in: "(h, lo, hi, i) \<in> set F \<Longrightarrow> set (be_ids h X i) \<subseteq> set (fids X F)"
  unfolding fids_def by force

lemma fids_set: "j \<in> set (fids X F) \<Longrightarrow> \<exists>h lo hi i. (h, lo, hi, i) \<in> set F \<and> j \<in> set (be_ids h X i)"
  unfolding fids_def by force

lemma fgood_dom: "fgood C X F \<Longrightarrow> set (fids X F) \<subseteq> dom X"
proof
  fix j assume g: "fgood C X F" and "j \<in> set (fids X F)"
  then obtain h lo hi i where "(h, lo, hi, i) \<in> set F" "j \<in> set (be_ids h X i)" using fids_set by blast
  moreover have "good C h X lo hi i" using fgoodD [OF g] calculation(1) .
  ultimately show "j \<in> dom X" using be_ids_dom unfolding good_def by blast
qed

lemma fids_perm:
  assumes "mset F = mset G"
  shows "mset (fids X F) = mset (fids X G)" "set (fids X F) = set (fids X G)"
proof -
  have "mset (concat (map f F)) = mset (concat (map f G))" for f :: "_ \<Rightarrow> nat list"
    unfolding mset_concat map_map [symmetric] by (simp add: assms flip: sum_mset_sum_list)
  then show "mset (fids X F) = mset (fids X G)" unfolding fids_def .
  then show "set (fids X F) = set (fids X G)" by (rule mset_eq_setD)
qed

lemma fgood_perm:
  assumes "mset F = mset G" "fgood C X F"
  shows "fgood C X G"
proof -
  have "distinct (fids X G)"
    using assms(2) mset_eq_imp_distinct_iff [OF fids_perm(1) [OF assms(1)]] unfolding fgood_def by blast
  then show ?thesis using assms(2) mset_eq_setD [OF assms(1)] unfolding fgood_def by simp
qed

lemma fevolves_perm:
  assumes "mset F = mset G" "fevolves C X X' F"
  shows "fevolves C X X' G"
proof (rule fevolvesI)
  note a = fevolvesD [OF assms(2)]
  show "fgood C X' G" by (rule fgood_perm [OF assms(1) a(1)])
  show "grows X (set (fids X G)) X' (set (fids X' G))" using a(2) by (simp only: fids_perm(2) [OF assms(1)])
  show "same_at h X i X' i key" if "(h, lo, hi, i) \<in> set G" "within lo hi key" for h lo hi i key
    by (rule a(3)) (use that mset_eq_setD [OF assms(1)] in simp_all)
qed

text \<open>The trees next to those that evolve stay as they are.\<close>

lemma fgood_beside:
  assumes "fgood C X G" "\<And>j. j \<in> set (fids X G) \<Longrightarrow> X' j = X j"
  shows "fgood C X' G" "fids X' G = fids X G"
    "(h, lo, hi, i) \<in> set G \<Longrightarrow> same_at h X i X' i key"
proof -
  have e: "good C h X' lo hi i \<and> be_ids h X' i = be_ids h X i \<and> same_at h X i X' i key"
    if "(h, lo, hi, i) \<in> set G" for h lo hi i key
  proof -
    have "X' j = X j" if "j \<in> set (be_ids h X i)" for j
      by (rule assms(2)) (use that fids_in [OF \<open>(h, lo, hi, i) \<in> set G\<close>] in blast)
    note c = good_cong [OF fgoodD [OF assms(1) that] this]
    show ?thesis using c(1,2) c(3) [of key] by simp
  qed
  show i: "fids X' G = fids X G" unfolding fids_def
    by (intro arg_cong [of _ _ concat] map_cong refl) (use e in auto)
  have "\<forall>(h, lo, hi, i) \<in> set G. good C h X' lo hi i" using e by blast
  then show "fgood C X' G" using assms(1) unfolding fgood_def i by blast
  show "(h, lo, hi, i) \<in> set G \<Longrightarrow> same_at h X i X' i key" using e by blast
qed

lemma fevolves_frame:
  assumes "fgood C X (F @ G)" "fevolves C X X' F"
  shows "fevolves C X X' (F @ G)" "\<And>j. j \<in> set (fids X G) \<Longrightarrow> X' j = X j" "fids X' G = fids X G"
proof -
  have g: "fgood C X G" "set (fids X F) \<inter> set (fids X G) = {}" using assms(1) unfolding fgood_append by blast+
  note a = fevolvesD [OF assms(2)]
  show same: "X' j = X j" if "j \<in> set (fids X G)" for j
    using growsD(1) [OF a(2), of j] fgood_dom [OF g(1)] g(2) that by blast
  note b = fgood_beside [OF g(1) same]
  show e: "fids X' G = fids X G" by (rule b(2))
  have "set (fids X' F) \<inter> set (fids X' G) = {}"
    unfolding e using growsD(2) [OF a(2)] fgood_dom [OF g(1)] g(2) by blast
  then have good: "fgood C X' (F @ G)" unfolding fgood_append using a(1) b(1) by blast
  show "fevolves C X X' (F @ G)"
  proof (rule fevolvesI [OF good])
    show "grows X (set (fids X (F @ G))) X' (set (fids X' (F @ G)))"
      by (rule grows_mono [OF a(2)]) (use e growsD(2) [OF a(2)] in auto)
    show "same_at h X i X' i key" if "(h, lo, hi, i) \<in> set (F @ G)" "within lo hi key" for h lo hi i key
      using that a(3) b(3) unfolding set_append by blast
  qed
qed

section \<open>The children of a node\<close>

definition kfam :: "nat \<Rightarrow> 'k option \<Rightarrow> 'k list \<Rightarrow> nat list \<Rightarrow> 'k option \<Rightarrow> 'k family" where
  "kfam h lo ps cs hi = map (\<lambda>j. (h, lo_at lo ps j, hi_at ps hi j, cs ! j)) [0..<length cs]"

lemma length_kfam [simp]: "length (kfam h lo ps cs hi) = length cs"
  by (simp add: kfam_def)

lemma nth_kfam [simp]: "j < length cs \<Longrightarrow> kfam h lo ps cs hi ! j = (h, lo_at lo ps j, hi_at ps hi j, cs ! j)"
  by (simp add: kfam_def)

lemma kfam_in: "j < length cs \<Longrightarrow> (h, lo_at lo ps j, hi_at ps hi j, cs ! j) \<in> set (kfam h lo ps cs hi)"
  by (simp add: kfam_def)

lemma kfam_set:
  "(h', lo', hi', i) \<in> set (kfam h lo ps cs hi) \<longleftrightarrow>
     h' = h \<and> (\<exists>j < length cs. lo' = lo_at lo ps j \<and> hi' = hi_at ps hi j \<and> i = cs ! j)"
  by (auto simp: kfam_def)

lemma fids_kfam: "fids X (kfam h lo ps cs hi) = concat (map (be_ids h X) cs)"
proof -
  have "map (\<lambda>(h, lo, hi, i). be_ids h X i) (kfam h lo ps cs hi) = map (be_ids h X) cs"
    by (rule nth_equalityI) auto
  then show ?thesis by (simp add: fids_def)
qed

lemma kfam_cut:
  assumes "j < length cs"
  shows "kfam h lo ps cs hi = take j (kfam h lo ps cs hi) @ (h, lo_at lo ps j, hi_at ps hi j, cs ! j) #
           drop (Suc j) (kfam h lo ps cs hi)"
  using id_take_nth_drop [of j "kfam h lo ps cs hi"] assms by simp

text \<open>A child that is split in two.\<close>

lemma kfam_split:
  assumes "length cs = Suc (length ps)" "j < length cs"
  shows "kfam h lo (take j ps @ m # drop j ps) (take (Suc j) cs @ r # drop (Suc j) cs) hi =
    take j (kfam h lo ps cs hi) @
    [(h, lo_at lo ps j, Some m, cs ! j), (h, Some m, hi_at ps hi j, r)] @
    drop (Suc j) (kfam h lo ps cs hi)" (is "?L = ?R")
proof (rule nth_equalityI)
  show len: "length ?L = length ?R" using assms by simp
  fix i assume i: "i < length ?L"
  have j: "j \<le> length ps" "Suc j \<le> length cs" using assms by simp_all
  have L: "?L ! i = (h, lo_at lo (take j ps @ m # drop j ps) i, hi_at (take j ps @ m # drop j ps) hi i,
      (take (Suc j) cs @ r # drop (Suc j) cs) ! i)"
    by (rule nth_kfam) (use i in simp)
  consider "i < j" | "i = j" | "i = Suc j" | "Suc j < i" by linarith
  then show "?L ! i = ?R ! i"
  proof cases
    case 4
    define i' where "i' = i - 2"
    have i': "i = Suc (Suc i')" "j \<le> i'" "Suc i' < length cs" using 4 i assms by (auto simp: i'_def)
    then have "?R ! i = kfam h lo ps cs hi ! (Suc i')" using j by (simp add: nth_append)
    then show ?thesis unfolding L using i' j assms
      by (auto simp: nth_append nth_Cons' lo_at_def hi_at_def Suc_diff_le)
  qed (use L j assms in \<open>auto simp: nth_append lo_at_def hi_at_def\<close>)
qed

lemma be_ids_inner: "X i = Some (BeInner n, b) \<Longrightarrow> be_ids (Suc h) X i = i # fids X (kfam h lo (bseps n) (bkids n) hi)"
  by (simp add: fids_kfam)

lemma trail_inner:
  "X i = Some (BeInner n, b) \<Longrightarrow>
   trail (Suc h) X key i = msgs_for key b @ msgs_for key (bmsgs n) @ trail h X key (bkids n ! route (bseps n) key)"
  "X i = Some (BeInner n, b) \<Longrightarrow> base (Suc h) X key i = base h X key (bkids n ! route (bseps n) key)"
  by simp_all

lemma look_inner:
  "X i = Some (BeInner n, b) \<Longrightarrow>
   look (Suc h) X key i =
     foldr effect (msgs_for key b @ msgs_for key (bmsgs n)) (look h X key (bkids n ! route (bseps n) key))"
  "X i = Some (BeInner n, b) \<Longrightarrow>
   stamps (Suc h) X key i =
     timeStamp ` (set (msgs_for key b) \<union> set (msgs_for key (bmsgs n))) \<union>
     stamps h X key (bkids n ! route (bseps n) key)"
  by (auto simp: look_def stamps_def)

lemma ordered_append:
  "ordered (us @ vs) \<longleftrightarrow> ordered us \<and> ordered vs \<and> (\<forall>u \<in> set us. \<forall>v \<in> set vs. timeStamp v < timeStamp u)"
  by (simp add: ordered_def sorted_wrt_append)

lemma within_kid:
  assumes "be_inner_ok C n" "j \<le> innsize n" "within (lo_at lo (bseps n) j) (hi_at (bseps n) hi j) key"
  shows "route (bseps n) key = j"
  by (rule route_unique [OF _ _ assms(3)]) (use be_inner_okD [OF assms(1)] assms(2) in auto)

text \<open>A node in order is a node over children in order.\<close>

lemma good_kids:
  assumes "good C (Suc h) X lo hi i" "X i = Some (BeInner n, b)"
  shows "fgood C X (kfam h lo (bseps n) (bkids n) hi)" "i \<notin> set (fids X (kfam h lo (bseps n) (bkids n) hi))"
    "be_inner_ok C n" "\<forall>p \<in> set (bseps n). gt_lo lo p \<and> lt_hi hi p"
    "\<forall>u \<in> set (bmsgs n). within lo hi (ukey u)" "inbox_ok C lo hi b"
    "within lo hi key \<Longrightarrow> ordered (msgs_for key b @ msgs_for key (bmsgs n) @ trail h X key (bkids n ! route (bseps n) key))"
proof -
  let ?K = "kfam h lo (bseps n) (bkids n) hi"
  have ok: "be_ok C (Suc h) X lo hi i" using assms(1) by (simp add: good_def)
  note o = be_ok_inner [OF ok assms(2)]
  show "be_inner_ok C n" "\<forall>p \<in> set (bseps n). gt_lo lo p \<and> lt_hi hi p"
    "\<forall>u \<in> set (bmsgs n). within lo hi (ukey u)" "inbox_ok C lo hi b" by (rule o)+
  have d: "distinct (i # fids X ?K)"
    using assms(1) unfolding good_def be_ids_inner [where X = X and i = i and lo = lo and hi = hi and h = h, OF assms(2)]
    by blast
  then show "i \<notin> set (fids X ?K)" by simp
  have ord: "ordered (trail (Suc h) X key i)" if "within lo hi key" for key
    using assms(1) that by (simp add: good_def)
  then show "within lo hi key \<Longrightarrow>
      ordered (msgs_for key b @ msgs_for key (bmsgs n) @ trail h X key (bkids n ! route (bseps n) key))"
    unfolding trail_inner(1) [where X = X and i = i, OF assms(2)] .
  have "good C h X (lo_at lo (bseps n) j) (hi_at (bseps n) hi j) (bkids n ! j)" if j: "j < length (bkids n)" for j
  proof -
    note k = be_inner_okD [OF o(1)]
    have jn: "j \<le> innsize n" using j k(6) by simp
    have "set (be_ids h X (bkids n ! j)) \<subseteq> set (fids X ?K)" by (rule fids_in [OF kfam_in [OF j]])
    moreover have "distinct (be_ids h X (bkids n ! j))"
      using d j unfolding fids_kfam by (simp add: distinct_concat_iff)
    moreover have "ordered (trail h X key (bkids n ! j))"
      if w: "within (lo_at lo (bseps n) j) (hi_at (bseps n) hi j) key" for key
    proof -
      have "within lo hi key" by (rule within_part [OF w _ o(2)]) (use jn k(5) in simp)
      then have "ordered (trail (Suc h) X key i)" by (rule ord)
      then show ?thesis
        unfolding trail_inner(1) [where X = X and i = i, OF assms(2)] within_kid [OF o(1) jn w] by (simp add: ordered_append)
    qed
    ultimately show ?thesis using o(5) [OF jn] by (simp add: good_def)
  qed
  then have "\<forall>(h', lo', hi', c) \<in> set ?K. good C h' X lo' hi' c" by (auto simp: kfam_set)
  then show "fgood C X ?K" using d by (simp add: fgood_def)
qed

lemma good_node:
  assumes "X i = Some (BeInner n, b)" "be_inner_ok C n" "\<forall>p \<in> set (bseps n). gt_lo lo p \<and> lt_hi hi p"
    "\<forall>u \<in> set (bmsgs n). within lo hi (ukey u)" "inbox_ok C lo hi b"
    "fgood C X (kfam h lo (bseps n) (bkids n) hi)" "i \<notin> set (fids X (kfam h lo (bseps n) (bkids n) hi))"
    "\<And>key. within lo hi key \<Longrightarrow>
       ordered (msgs_for key b @ msgs_for key (bmsgs n) @ trail h X key (bkids n ! route (bseps n) key))"
  shows "good C (Suc h) X lo hi i"
proof -
  note k = be_inner_okD [OF assms(2)]
  have "good C h X (lo_at lo (bseps n) j) (hi_at (bseps n) hi j) (bkids n ! j)" if "j \<le> innsize n" for j
    by (rule fgoodD [OF assms(6)], rule kfam_in) (use that k(6) in simp)
  then have "be_ok C (Suc h) X lo hi i" using assms(1-5) by (simp add: good_def)
  moreover have "distinct (be_ids (Suc h) X i)"
    unfolding be_ids_inner [where X = X and i = i and lo = lo and hi = hi and h = h, OF assms(1)] using assms(6,7) by (simp add: fgood_def)
  moreover have "ordered (trail (Suc h) X key i)" if "within lo hi key" for key
    unfolding trail_inner(1) [where X = X and i = i, OF assms(1)] by (rule assms(8) [OF that])
  ultimately show ?thesis by (simp add: good_def)
qed

section \<open>From the children to their parent\<close>

text \<open>What a change below a node means for the node, one key at a time.\<close>

lemma node_key:
  assumes "X i = Some (BeInner n, b)" "X' i' = Some (BeInner n', b)" "bmsgs n' = bmsgs n"
    "same_at h X (bkids n ! route (bseps n) key) X' c' key" "bkids n' ! route (bseps n') key = c'"
    "ordered (msgs_for key b @ msgs_for key (bmsgs n) @ trail h X key (bkids n ! route (bseps n) key))"
    "ordered (trail h X' key c')"
  shows "same_at (Suc h) X i X' i' key"
    "ordered (msgs_for key b @ msgs_for key (bmsgs n') @ trail h X' key (bkids n' ! route (bseps n') key))"
proof -
  have s: "look h X' key c' = look h X key (bkids n ! route (bseps n) key)"
      "stamps h X' key c' \<subseteq> stamps h X key (bkids n ! route (bseps n) key)"
    using assms(4) by (auto simp: same_at_def)
  show "same_at (Suc h) X i X' i' key"
    unfolding same_at_def look_inner [where X = X and i = i, OF assms(1)]
      look_inner [where X = X' and i = i', OF assms(2)] assms(3,5)
    using s by auto
  show "ordered (msgs_for key b @ msgs_for key (bmsgs n') @ trail h X' key (bkids n' ! route (bseps n') key))"
    using assms(6,7) s(2) unfolding assms(3,5) ordered_append stamps_def by fastforce
qed

lemma kid_bounds:
  assumes "be_inner_ok C n" "within lo hi key"
  shows "(h, lo_at lo (bseps n) (route (bseps n) key), hi_at (bseps n) hi (route (bseps n) key),
           bkids n ! route (bseps n) key) \<in> set (kfam h lo (bseps n) (bkids n) hi)"
    "within (lo_at lo (bseps n) (route (bseps n) key)) (hi_at (bseps n) hi (route (bseps n) key)) key"
  using kid_in(3) [OF assms(1), of key] be_inner_okD(6) [OF assms(1)] route_within [OF assms(2)]
  by (auto intro!: kfam_in simp: less_Suc_eq_le)

lemma fevolves_up:
  assumes g: "fgood C X (F @ [(Suc h, lo, hi, i)])" and n: "X i = Some (BeInner n, b)"
    and e: "fevolves C X X' (F @ kfam h lo (bseps n) (bkids n) hi)"
  shows "fevolves C X X' (F @ [(Suc h, lo, hi, i)])" "X' i = X i"
proof -
  let ?K = "kfam h lo (bseps n) (bkids n) hi"
  have g': "fgood C X F" "good C (Suc h) X lo hi i" "set (fids X F) \<inter> set (be_ids (Suc h) X i) = {}"
    using g unfolding fgood_append fgood_single by simp_all
  note k = good_kids [OF g'(2) n] and ev = fevolvesD [OF e]
  have ids: "be_ids (Suc h) X i = i # fids X ?K"
    by (rule be_ids_inner [where X = X and i = i, OF n])
  have dom: "set (fids X (F @ ?K)) \<subseteq> dom X" "i \<in> dom X"
    using fgood_dom [OF g] unfolding fids_simps ids by auto
  have out: "i \<notin> set (fids X (F @ ?K))" using k(2) g'(3) ids by auto
  show i: "X' i = X i" by (rule growsD(1) [OF ev(2) dom(2) out])
  then have n': "X' i = Some (BeInner n, b)" using n by simp
  have K': "fgood C X' F" "fgood C X' ?K" "set (fids X' F) \<inter> set (fids X' ?K) = {}"
    using ev(1) unfolding fgood_append by blast+
  have out': "i \<notin> set (fids X' (F @ ?K))" using growsD(2) [OF ev(2)] dom(2) out by blast
  have kk: "same_at (Suc h) X i X' i key"
      "ordered (msgs_for key b @ msgs_for key (bmsgs n) @ trail h X' key (bkids n ! route (bseps n) key))"
    if w: "within lo hi key" for key
  proof -
    note kb = kid_bounds [OF k(3) w]
    have s: "same_at h X (bkids n ! route (bseps n) key) X' (bkids n ! route (bseps n) key) key"
      by (rule ev(3) [OF _ kb(2)]) (use kb(1) in auto)
    have "ordered (trail h X' key (bkids n ! route (bseps n) key))"
      using fgoodD [OF K'(2) kb(1)] kb(2) by (simp add: good_def)
    from node_key [where X = X and X' = X' and i = i and i' = i, OF n n' refl s refl k(7) [OF w] this]
    show "same_at (Suc h) X i X' i key"
      "ordered (msgs_for key b @ msgs_for key (bmsgs n) @ trail h X' key (bkids n ! route (bseps n) key))"
      by blast+
  qed
  have good: "good C (Suc h) X' lo hi i"
    by (rule good_node [where X = X' and i = i, OF n' k(3-6) K'(2) _ kk(2)]) (use out' in auto)
  have ids': "be_ids (Suc h) X' i = i # fids X' ?K"
    by (rule be_ids_inner [where X = X' and i = i, OF n'])
  show "fevolves C X X' (F @ [(Suc h, lo, hi, i)])"
  proof (rule fevolvesI)
    show "fgood C X' (F @ [(Suc h, lo, hi, i)])"
      unfolding fgood_append fgood_single using K' good ids' out' by auto
    show "grows X (set (fids X (F @ [(Suc h, lo, hi, i)]))) X' (set (fids X' (F @ [(Suc h, lo, hi, i)])))"
      by (rule grows_mono [OF ev(2)]) (use ids ids' growsD(2) [OF ev(2)] in auto)
    show "same_at h' X j X' j key"
      if "(h', lo', hi', j) \<in> set (F @ [(Suc h, lo, hi, i)])" "within lo' hi' key" for h' lo' hi' j key
      using that ev(3) [of h' lo' hi' j key] kk(1) [of key] by auto
  qed
qed

text \<open>A child \<open>c\<close> split in two: it keeps the keys up to \<open>m\<close>, the new page \<open>r\<close> has the others.\<close>

definition splits ::
  "('k::linorder, 'v::plus) be_config \<Rightarrow> nat \<Rightarrow> ('k, 'v) be_state \<Rightarrow> ('k, 'v) be_state \<Rightarrow> 'k option \<Rightarrow> 'k option \<Rightarrow>
   nat \<Rightarrow> 'k \<Rightarrow> nat \<Rightarrow> bool" where
  "splits C h X X' lo hi c m r \<longleftrightarrow>
     fgood C X' [(h, lo, Some m, c), (h, Some m, hi, r)] \<and> gt_lo lo m \<and> lt_hi hi m \<and>
     grows X (set (be_ids h X c)) X' (set (be_ids h X' c @ be_ids h X' r)) \<and>
     (\<forall>key. within lo hi key \<longrightarrow> same_at h X c X' (if key \<le> m then c else r) key)"

lemma splitsD:
  assumes "splits C h X X' lo hi c m r"
  shows "fgood C X' [(h, lo, Some m, c), (h, Some m, hi, r)]" "gt_lo lo m" "lt_hi hi m"
    "grows X (set (be_ids h X c)) X' (set (be_ids h X' c @ be_ids h X' r))"
    "within lo hi key \<Longrightarrow> same_at h X c X' (if key \<le> m then c else r) key"
  using assms unfolding splits_def by blast+

lemma sorted_insert_between:
  assumes "sorted_wrt (<) ps" "j \<le> length ps" "gt_lo (lo_at lo ps j) m" "lt_hi (hi_at ps hi j) m"
    "\<forall>p \<in> set ps. gt_lo lo p \<and> lt_hi hi p"
  shows "sorted_wrt (<) (take j ps @ m # drop j ps)" "gt_lo lo m" "lt_hi hi m"
proof -
  have l: "\<forall>p \<in> set (take j ps). p < m"
  proof
    fix p assume "p \<in> set (take j ps)"
    then obtain i where i: "i < j" "p = ps ! i" using assms(2) by (auto simp: in_set_conv_nth)
    have "i = j - 1 \<or> i < j - 1" "j - 1 < length ps" using i(1) assms(2) by auto
    then have "ps ! i \<le> ps ! (j - 1)"
      using sorted_wrt_less_nth_mono [OF assms(1), of i "j - 1"] by auto
    moreover have "ps ! (j - 1) < m" using assms(3) i(1) by (simp add: lo_at_def)
    ultimately show "p < m" using i(2) by simp
  qed
  have r: "\<forall>p \<in> set (drop j ps). m < p"
  proof
    fix p assume "p \<in> set (drop j ps)"
    then obtain i where i: "j \<le> i" "i < length ps" "p = ps ! i"
      by (metis in_set_conv_nth length_drop less_diff_conv2 nth_drop add.commute le_add1 less_diff_conv assms(2))
    have "i = j \<or> j < i" using i(1) by auto
    then have "ps ! j \<le> ps ! i"
      using sorted_wrt_less_nth_mono [OF assms(1), of j i] i(2) by auto
    moreover have "m < ps ! j" using assms(4) i(1,2) by (simp add: hi_at_def)
    ultimately show "m < p" using i(3) by simp
  qed
  show "sorted_wrt (<) (take j ps @ m # drop j ps)" by (rule sorted_wrt_insert [OF assms(1) l r])
  show "gt_lo lo m"
  proof (cases "j = 0")
    case False
    then have "ps ! (j - 1) \<in> set ps" "ps ! (j - 1) < m" using assms(2,3) by (auto simp: lo_at_def)
    then show ?thesis using assms(5) above_trans by (metis order.strict_implies_order)
  qed (use assms(3) in \<open>simp add: lo_at_def\<close>)
  show "lt_hi hi m"
  proof (cases "j < length ps")
    case True
    then have "ps ! j \<in> set ps" "m < ps ! j" using assms(4) by (auto simp: hi_at_def)
    then show ?thesis using assms(5) below_trans by (metis order.strict_implies_order)
  qed (use assms(4) in \<open>simp add: hi_at_def\<close>)
qed

lemma kfam_bounds:
  assumes "length cs = Suc (length ps)" "within lo hi key"
  shows "(h, lo_at lo ps (route ps key), hi_at ps hi (route ps key), cs ! route ps key) \<in> set (kfam h lo ps cs hi)"
    "within (lo_at lo ps (route ps key)) (hi_at ps hi (route ps key)) key"
  using route_le [of ps key] assms(1) route_within [OF assms(2)] by (auto intro!: kfam_in simp: less_Suc_eq_le)

lemma kfam_route:
  assumes "length cs = Suc (length ps)" "sorted_wrt (<) ps" "(h', lo', hi', c) \<in> set (kfam h lo ps cs hi)"
    "within lo' hi' key"
  shows "c = cs ! route ps key"
proof -
  obtain j where j: "j < length cs" "lo' = lo_at lo ps j" "hi' = hi_at ps hi j" "c = cs ! j"
    using assms(3) by (auto simp: kfam_set)
  have "route ps key = j" by (rule route_unique [OF assms(2)]) (use j assms(1,4) in auto)
  then show ?thesis using j(4) by simp
qed

lemma kid_of_key:
  assumes "be_inner_ok C n" "(h', lo', hi', c) \<in> set (kfam h lo (bseps n) (bkids n) hi)" "within lo' hi' key"
  shows "c = bkids n ! route (bseps n) key"
  by (rule kfam_route [OF _ be_inner_okD(4) [OF assms(1)] assms(2,3)]) (use be_inner_okD(5,6) [OF assms(1)] in simp)

lemma disjoint_new: "P \<inter> D \<subseteq> Q \<Longrightarrow> A \<subseteq> D \<Longrightarrow> A \<inter> Q = {} \<Longrightarrow> P \<inter> A = {}"
  by blast

text \<open>A family in which one tree is split.\<close>

lemma splits_family:
  assumes K: "fgood C X (kfam h lo ps cs hi)" and len: "length cs = Suc (length ps)" and srt: "sorted_wrt (<) ps"
    and seps: "\<forall>p \<in> set ps. gt_lo lo p \<and> lt_hi hi p" and j: "j < length cs"
    and s: "splits C h X X1 (lo_at lo ps j) (hi_at ps hi j) (cs ! j) m r"
    and ps': "ps' = take j ps @ m # drop j ps" and cs': "cs' = take (Suc j) cs @ r # drop (Suc j) cs"
  shows "fgood C X1 (kfam h lo ps' cs' hi)" "sorted_wrt (<) ps'" "\<forall>p \<in> set ps'. gt_lo lo p \<and> lt_hi hi p"
    "length cs' = Suc (length ps')" "length ps' = Suc (length ps)"
    "grows X (set (fids X (kfam h lo ps cs hi))) X1 (set (fids X1 (kfam h lo ps' cs' hi)))"
    "within lo hi key \<Longrightarrow> same_at h X (cs ! route ps key) X1 (cs' ! route ps' key) key"
proof -
  let ?c = "cs ! j" and ?K = "kfam h lo ps cs hi" and ?K' = "kfam h lo ps' cs' hi"
  let ?l = "lo_at lo ps j" and ?u = "hi_at ps hi j"
  note sp = splitsD [OF s]
  define A B where "A = take j ?K" and "B = drop (Suc j) ?K"
  let ?S = "[(h, ?l, Some m, ?c), (h, Some m, ?u, r)]"
  have KAB: "?K = A @ [(h, ?l, ?u, ?c)] @ B" unfolding A_def B_def using kfam_cut [OF j] by simp
  have K': "?K' = A @ ?S @ B" unfolding ps' cs' A_def B_def by (rule kfam_split) (use len j in simp_all)
  have gA: "fgood C X A" "fgood C X B" "set (fids X A) \<inter> set (fids X B) = {}"
      "set (fids X A) \<inter> set (be_ids h X ?c) = {}" "set (fids X B) \<inter> set (be_ids h X ?c) = {}"
    using K unfolding KAB fgood_append fids_simps by auto
  have d: "set (fids X A) \<subseteq> dom X" "set (fids X B) \<subseteq> dom X" "set (be_ids h X ?c) \<subseteq> dom X"
    using fgood_dom [OF gA(1)] fgood_dom [OF gA(2)] fgood_dom [OF K] unfolding KAB by simp_all
  have new: "(set (be_ids h X1 ?c) \<union> set (be_ids h X1 r)) \<inter> dom X \<subseteq> set (be_ids h X ?c)"
    using sp(4) by (simp add: grows_def)
  have sX: "X1 x = X x" if "x \<in> set (fids X A) \<union> set (fids X B)" for x
  proof -
    have "x \<in> dom X" "x \<notin> set (be_ids h X ?c)" using that d gA by blast+
    then show ?thesis by (rule growsD(1) [OF sp(4)])
  qed
  have sA: "\<And>x. x \<in> set (fids X A) \<Longrightarrow> X1 x = X x" and sB: "\<And>x. x \<in> set (fids X B) \<Longrightarrow> X1 x = X x"
    using sX by blast+
  have bA: "fgood C X1 A" "fids X1 A = fids X A" "(h', lo', hi', c) \<in> set A \<Longrightarrow> same_at h' X c X1 c key" for h' lo' hi' c key
    by (rule fgood_beside [OF gA(1)], erule sA)+
  have bB: "fgood C X1 B" "fids X1 B = fids X B" "(h', lo', hi', c) \<in> set B \<Longrightarrow> same_at h' X c X1 c key" for h' lo' hi' c key
    by (rule fgood_beside [OF gA(2)], erule sB)+
  have e: "set (fids X1 ?S) = set (be_ids h X1 ?c) \<union> set (be_ids h X1 r)" by simp
  have disj: "set (fids X1 ?S) \<inter> set (fids X1 A) = {}" "set (fids X1 ?S) \<inter> set (fids X1 B) = {}"
    unfolding bA(2) bB(2) e by (rule disjoint_new [OF new d(1) gA(4)], rule disjoint_new [OF new d(2) gA(5)])
  have "set (fids X1 A) \<inter> set (fids X1 (?S @ B)) = {}"
    using disj(1) gA(3) bA(2) bB(2) unfolding fids_simps(3) set_append Int_Un_distrib by (simp add: Int_commute)
  then show "fgood C X1 ?K'" unfolding K' fgood_append using bA(1) bB(1) sp(1) disj(2) by blast
  have jn: "j \<le> length ps" using j len by simp
  note si = sorted_insert_between [OF srt jn sp(2,3) seps]
  show "sorted_wrt (<) ps'" unfolding ps' by (rule si(1))
  show "\<forall>p \<in> set ps'. gt_lo lo p \<and> lt_hi hi p"
    using seps si(2,3) unfolding ps' by (auto dest: in_set_takeD in_set_dropD)
  show lps: "length ps' = Suc (length ps)" using jn by (simp add: ps')
  show lcs: "length cs' = Suc (length ps')" using j len by (simp add: ps' cs')
  have fK: "set (fids X ?K) = set (fids X A) \<union> set (be_ids h X ?c) \<union> set (fids X B)" unfolding KAB by auto
  have fK': "set (fids X1 ?K') = set (fids X A) \<union> (set (be_ids h X1 ?c) \<union> set (be_ids h X1 r)) \<union> set (fids X B)"
    unfolding K' fids_simps(3) bA(2) bB(2) by auto
  show "grows X (set (fids X ?K)) X1 (set (fids X1 ?K'))"
    unfolding grows_def
  proof (intro conjI ballI)
    fix x assume "x \<in> dom X - set (fids X ?K)"
    then have "x \<in> dom X" "x \<notin> set (be_ids h X ?c)" unfolding fK by auto
    then show "X1 x = X x" by (rule growsD(1) [OF sp(4)])
  next
    show "set (fids X1 ?K') \<inter> dom X \<subseteq> set (fids X ?K)" unfolding fK fK' using new by blast
    show "dom X \<subseteq> dom X1" using sp(4) by (simp add: grows_def)
  qed
  show "same_at h X (cs ! route ps key) X1 (cs' ! route ps' key) key" if w: "within lo hi key"
  proof -
    let ?c' = "cs' ! route ps' key" and ?l' = "lo_at lo ps' (route ps' key)" and ?u' = "hi_at ps' hi (route ps' key)"
    note kb = kfam_bounds(1) [OF lcs w, of h] kfam_bounds(2) [OF lcs w]
    have at: "route ps key = j" if "within ?l ?u key"
      by (rule route_unique [OF srt jn that])
    have old: "?c' = cs ! route ps key" if "(h, ?l', ?u', ?c') \<in> set ?K"
      by (rule kfam_route [OF len srt that kb(2)])
    consider (A) "(h, ?l', ?u', ?c') \<in> set A" | (B) "(h, ?l', ?u', ?c') \<in> set B"
      | (c) "?l' = ?l" "?u' = Some m" "?c' = ?c" | (r) "?l' = Some m" "?u' = ?u" "?c' = r"
      using kb(1) unfolding K' by auto
    then show ?thesis
    proof cases
      case A
      then show ?thesis using bA(3) [OF A] old KAB by simp
    next
      case B
      then show ?thesis using bB(3) [OF B] old KAB by simp
    next
      case c
      then have "within ?l ?u key" "key \<le> m"
        using kb(2) below_upto [OF below_trans [OF sp(3), of key]] by (auto simp: within_def)
      then show ?thesis using sp(5) [of key] at c(3) by simp
    next
      case r
      then have "within ?l ?u key" "\<not> key \<le> m"
        using kb(2) above_trans [OF sp(2), of key] by (auto simp: within_def less_imp_le)
      then show ?thesis using sp(5) [of key] at r(3) by simp
    qed
  qed
qed

lemma splits_up:
  assumes g: "good C (Suc h) X lo hi i" and n: "X i = Some (BeInner n, b)" and j: "j \<le> innsize n"
    and s: "splits C h X X1 (lo_at lo (bseps n) j) (hi_at (bseps n) hi j) (bkids n ! j) m r"
    and X': "X' = X1(i \<mapsto> (BeInner n', b))" and n': "be_inner_ok C n'" "bmsgs n' = bmsgs n"
      "bseps n' = take j (bseps n) @ m # drop j (bseps n)"
      "bkids n' = take (Suc j) (bkids n) @ r # drop (Suc j) (bkids n)"
  shows "evolves C (Suc h) X X' lo hi i" "X1 i = X i"
proof -
  let ?K = "kfam h lo (bseps n) (bkids n) hi" and ?K' = "kfam h lo (bseps n') (bkids n') hi"
  note k = good_kids [OF g n] and sp = splitsD [OF s]
  note z = be_inner_okD [OF k(3)]
  have jl: "j < length (bkids n)" and len: "length (bkids n) = Suc (length (bseps n))" using j z(5,6) by simp_all
  note f = splits_family [OF k(1) len z(4) k(4) jl s n'(3,4)]
  have idom: "i \<in> dom X" using n by blast
  have cK: "set (be_ids h X (bkids n ! j)) \<subseteq> set (fids X ?K)" by (rule fids_in [OF kfam_in [OF jl]])
  show i1: "X1 i = X i" by (rule growsD(1) [OF sp(4) idom]) (use cK k(2) in blast)
  have iK': "i \<notin> set (fids X1 ?K')" using growsD(2) [OF f(6)] idom k(2) by blast
  then have same: "\<And>x. x \<in> set (fids X1 ?K') \<Longrightarrow> X' x = X1 x" by (auto simp: X')
  have b: "fgood C X' ?K'" "fids X' ?K' = fids X1 ?K'" "(h', lo', hi', c) \<in> set ?K' \<Longrightarrow> same_at h' X1 c X' c key" for h' lo' hi' c key
    by (rule fgood_beside [OF f(1)], erule same)+
  have Xi: "X' i = Some (BeInner n', b)" by (simp add: X')
  have kk: "same_at (Suc h) X i X' i key"
      "ordered (msgs_for key b @ msgs_for key (bmsgs n') @ trail h X' key (bkids n' ! route (bseps n') key))"
    if w: "within lo hi key" for key
  proof -
    let ?c' = "bkids n' ! route (bseps n') key"
    note kb = kid_bounds(1) [where h = h, OF n'(1) w] kid_bounds(2) [OF n'(1) w]
    have sa: "same_at h X (bkids n ! route (bseps n) key) X' ?c' key"
      by (rule same_at_trans [OF f(7) [OF w] b(3) [OF kb(1)]])
    have "ordered (trail h X' key ?c')"
      using fgoodD [OF b(1) kb(1)] kb(2) by (simp add: good_def)
    from node_key [where X = X and X' = X' and i = i and i' = i, OF n Xi n'(2) sa refl k(7) [OF w] this]
    show "same_at (Suc h) X i X' i key"
      "ordered (msgs_for key b @ msgs_for key (bmsgs n') @ trail h X' key ?c')" by blast+
  qed
  have good: "good C (Suc h) X' lo hi i"
    by (rule good_node [where X = X' and i = i, OF Xi n'(1) f(3) _ k(6) b(1) _ kk(2)])
      (use k(5) n'(2) iK' b(2) in simp_all)
  have I: "be_ids (Suc h) X i = i # fids X ?K" by (rule be_ids_inner [where X = X and i = i, OF n])
  have I': "be_ids (Suc h) X' i = i # fids X1 ?K'"
    unfolding b(2) [symmetric] by (rule be_ids_inner [where X = X' and i = i, OF Xi])
  have "grows X (set (be_ids (Suc h) X i)) X' (set (be_ids (Suc h) X' i))"
    unfolding grows_def I I'
  proof (intro conjI ballI)
    fix x assume "x \<in> dom X - set (i # fids X ?K)"
    then show "X' x = X x" using growsD(1) [OF f(6)] by (simp add: X')
  next
    show "set (i # fids X1 ?K') \<inter> dom X \<subseteq> set (i # fids X ?K)" using growsD(2) [OF f(6)] by auto
    show "dom X \<subseteq> dom X'" using growsD(3) [OF f(6)] unfolding X' by auto
  qed
  then show "evolves C (Suc h) X X' lo hi i" using good kk(1) by (simp add: evolves_def)
qed

end
