(* ===== verification/Exclusive.thy ===== *)
theory Exclusive
  imports PageStore
begin

text \<open>
  The page store when all pinned pages are pinned in exclusive mode, as in the flush of the
  B-epsilon-tree: the locks are given by the set of pinned pages.
\<close>

definition xlocks :: "nat set \<Rightarrow> nat \<Rightarrow> lock" where
  "xlocks S = (\<lambda>i. if i \<in> S then Exclusive else Unlocked)"

definition xst :: "'n pstore \<Rightarrow> (nat \<rightharpoonup> 'n) \<Rightarrow> nat set \<Rightarrow> nat \<Rightarrow> bool" where
  "xst s nd S n \<longleftrightarrow> (\<exists>ch. st s nd (xlocks S) ch n)"

lemma xlocks_simps [simp]:
  "xlocks {} = no_locks" "(xlocks S)(i := Exclusive) = xlocks (insert i S)"
  "(xlocks S)(i := Unlocked) = xlocks (S - {i})" "held_of (xlocks S) = S" "xlocks S i = Exclusive \<longleftrightarrow> i \<in> S"
  "xlocks S i = Unlocked \<longleftrightarrow> i \<notin> S"
  by (auto simp: xlocks_def held_of_def)

lemma st_xst: "st s nd no_locks ch n \<Longrightarrow> xst s nd {} n"
  by (auto simp: xst_def)

lemma st_changed: "st s nd lk ch n \<Longrightarrow> i \<in> ch \<Longrightarrow> lk i = Exclusive"
  unfolding st_def using ps_invD(6) by blast

lemma xst_done: "xst s nd {} n \<Longrightarrow> st s nd no_locks {} n"
proof -
  assume "xst s nd {} n"
  then obtain ch where s: "st s nd no_locks ch n" by (auto simp: xst_def)
  then have "ch = {}" using st_changed [OF s] by auto
  then show ?thesis using s by simp
qed

lemma xst_dom:
  assumes "xst s nd S n"
  shows "S \<subseteq> dom nd" "finite S"
proof -
  obtain ch where s: "st s nd (xlocks S) ch n" using assms by (auto simp: xst_def)
  show "S \<subseteq> dom nd" using st_dom [OF s] by auto
  have "ps_held s = S" using st_held [OF s] by simp
  then show "finite S" using s ps_invD(3) unfolding st_def by metis
qed

lemma xst_get: "xst s nd S n \<Longrightarrow> i \<in> S \<Longrightarrow> nd i = Some x \<Longrightarrow> ps_get i s = Inr x"
  unfolding xst_def using st_get by (metis lock.distinct(3) xlocks_simps(5))

lemma xst_put:
  assumes "xst s nd S n" "i \<in> S"
  shows "\<exists>s'. ps_put i x s = Inr s' \<and> xst s' (nd(i \<mapsto> x)) S n"
proof -
  obtain ch where s: "st s nd (xlocks S) ch n" using assms(1) by (auto simp: xst_def)
  show ?thesis using st_put [OF s, of i x] assms(2) by (auto simp: xst_def)
qed

lemma xst_pin:
  assumes "xst s nd S n" "nd i = Some x" "i \<notin> S" "card S < n"
  shows "\<exists>s'. ps_pin False (\<lambda>_. True) i s = Inr s' \<and> xst s' nd (insert i S) n"
proof -
  obtain ch where s: "st s nd (xlocks S) ch n" using assms(1) by (auto simp: xst_def)
  show ?thesis using st_pin [OF s assms(2), of "\<lambda>_. True"] assms(3,4) by (auto simp: xst_def)
qed

lemma xst_unpin:
  assumes "xst s nd S n" "i \<in> S"
  shows "\<exists>s'. ps_unpin True i s = Inr s' \<and> xst s' nd (S - {i}) n"
proof -
  obtain ch where s: "st s nd (xlocks S) ch n" using assms(1) by (auto simp: xst_def)
  show ?thesis using st_unpin [OF s, of i True] assms(2) by (auto simp: xst_def)
qed

lemma xst_pin_new:
  assumes "xst s nd S n" "card S < n"
  shows "\<exists>r s' y. pin_new s = Inr (r, s') \<and> r \<notin> dom nd \<and> r \<notin> S \<and> xst s' (nd(r \<mapsto> y)) (insert r S) n"
proof -
  obtain ch where s: "st s nd (xlocks S) ch n" using assms(1) by (auto simp: xst_def)
  obtain r s' y where "pin_new s = Inr (r, s')" "r \<notin> dom nd" "xlocks S r = Unlocked"
      "st s' (nd(r \<mapsto> y)) ((xlocks S)(r := Exclusive)) (insert r ch) n"
    using pin_new_run [OF s] assms(2) by auto
  then show ?thesis by (auto simp: xst_def)
qed

end
