(* ===== verification/BeSplit.thy ===== *)
theory BeSplit
  imports BeInv Exclusive
begin

text \<open>
  Splitting a leaf at a given median and an inner node at its middle pivot: what the halves
  contain, that the functions of the code produce them, and that the halves stand for what
  the node stood for.
\<close>

section \<open>Leaves\<close>

definition bleaf_left :: "'k::linorder \<Rightarrow> ('k, 'v) leaf_node \<Rightarrow> ('k, 'v) leaf_node" where
  "bleaf_left m l = l\<lparr>lsize := upper_bound (keys l) (lsize l) m\<rparr>"

definition bleaf_right :: "('k::linorder, 'v) be_config \<Rightarrow> 'k \<Rightarrow> ('k, 'v) leaf_node \<Rightarrow> ('k, 'v) leaf_node" where
  "bleaf_right C m l =
     (let i = upper_bound (keys l) (lsize l) m; n = lsize l - i
      in \<lparr>keys = copy_fwd n (keys l) i (keys (new_be_leaf C)) 0,
          vals = copy_fwd n (vals l) i (vals (new_be_leaf C)) 0, lsize = n\<rparr>)"

lemma takeWhile_le_filter:
  "sorted_wrt (<) xs \<Longrightarrow> takeWhile (\<lambda>x. x \<le> m) xs = filter (\<lambda>x. x \<le> m) xs"
  "sorted_wrt (<) xs \<Longrightarrow> dropWhile (\<lambda>x. x \<le> m) xs = filter (\<lambda>x. m < x) xs"
  for xs :: "'k::linorder list"
proof -
  have *: "takeWhile (\<lambda>x. x \<le> m) xs = filter (\<lambda>x. x \<le> m) xs \<and> dropWhile (\<lambda>x. x \<le> m) xs = filter (\<lambda>x. m < x) xs"
    if "sorted_wrt (<) xs"
    using that
  proof (induction xs)
    case (Cons x xs)
    show ?case
    proof (cases "x \<le> m")
      case False
      then have "\<forall>y \<in> set xs. m < y" using Cons.prems by (auto simp: not_le dest: order.strict_trans)
      then have "filter (\<lambda>x. x \<le> m) xs = []" "filter (\<lambda>x. m < x) xs = xs"
        by (auto simp: filter_empty_conv filter_id_conv not_le)
      then show ?thesis using False not_le_imp_less [OF False] by simp
    qed (use Cons in \<open>simp add: not_less\<close>)
  qed simp
  then show "sorted_wrt (<) xs \<Longrightarrow> takeWhile (\<lambda>x. x \<le> m) xs = filter (\<lambda>x. x \<le> m) xs"
    "sorted_wrt (<) xs \<Longrightarrow> dropWhile (\<lambda>x. x \<le> m) xs = filter (\<lambda>x. m < x) xs" by blast+
qed

lemma bleaf_split_ok:
  assumes "bleaf_ok C l" and q_def: "q = upper_bound (keys l) (lsize l) m"
  shows "bleaf_ok C (bleaf_left m l)" "bleaf_ok C (bleaf_right C m l)"
    "leaf_keys (bleaf_left m l) = filter (\<lambda>k. k \<le> m) (leaf_keys l)"
    "leaf_keys (bleaf_right C m l) = filter (\<lambda>k. m < k) (leaf_keys l)"
    "leaf_kvs (bleaf_left m l) @ leaf_kvs (bleaf_right C m l) = leaf_kvs l"
    "lsize (bleaf_left m l) = q" "lsize (bleaf_right C m l) = lsize l - q" "q \<le> lsize l"
proof -
  note k = leaf_okD [OF assms(1)]
  have qw: "q = length (takeWhile (\<lambda>x. x \<le> m) (leaf_keys l))"
    unfolding q_def leaf_keys_def by (rule upper_bound_takeWhile) (use k in \<open>auto simp: leaf_keys_def\<close>)
  show q: "q \<le> lsize l" unfolding q_def by (rule upper_bound_le)
  show "lsize (bleaf_left m l) = q" "lsize (bleaf_right C m l) = lsize l - q"
    by (simp_all add: bleaf_left_def bleaf_right_def q_def Let_def)
  have tk: "take q (leaf_keys l) = filter (\<lambda>k. k \<le> m) (leaf_keys l)"
    unfolding qw takeWhile_eq_take [symmetric] by (rule takeWhile_le_filter(1) [OF k(4)])
  have dk: "drop q (leaf_keys l) = filter (\<lambda>k. m < k) (leaf_keys l)"
    unfolding qw dropWhile_eq_drop [symmetric] by (rule takeWhile_le_filter(2) [OF k(4)])
  have kl: "leaf_keys (bleaf_left m l) = take q (leaf_keys l)"
    and vl: "leaf_vals (bleaf_left m l) = take q (leaf_vals l)"
    using q by (simp_all add: leaf_keys_def leaf_vals_def bleaf_left_def min_def flip: q_def)
  have cp: "take (lsize l - q) (copy_fwd (lsize l - q) a q (replicate (LEAF_N C) x) 0) = drop q (take (lsize l) a)"
    if "length a = LEAF_N C" for a :: "'z list" and x
    using take_copy_fwd_front [of q "lsize l - q" a "replicate (LEAF_N C) x"] that k(3) q
    by (simp add: drop_take)
  have kr: "leaf_keys (bleaf_right C m l) = drop q (leaf_keys l)"
    and vr: "leaf_vals (bleaf_right C m l) = drop q (leaf_vals l)"
    using cp [of "keys l" "anyKey C"] cp [of "vals l" "anyVal C"] k(1,2)
    by (simp_all add: bleaf_right_def leaf_keys_def leaf_vals_def Let_def new_be_leaf_def new_leaf_def
        bconfig.truncate_def flip: q_def)
  show "leaf_keys (bleaf_left m l) = filter (\<lambda>k. k \<le> m) (leaf_keys l)"
    "leaf_keys (bleaf_right C m l) = filter (\<lambda>k. m < k) (leaf_keys l)"
    using kl kr tk dk by simp_all
  show "bleaf_ok C (bleaf_left m l)"
    using k(1-3) q sorted_wrt_take [OF k(4), of q] unfolding leaf_ok_def leaf_keys_def [symmetric] kl
    by (simp add: bleaf_left_def flip: q_def)
  show "bleaf_ok C (bleaf_right C m l)"
    using k(1-3) q sorted_wrt_drop [OF k(4), of q] unfolding leaf_ok_def leaf_keys_def [symmetric] kr
    by (simp add: bleaf_right_def Let_def new_be_leaf_def new_leaf_def bconfig.truncate_def)
  have "length (take q (leaf_keys l)) = length (take q (leaf_vals l))" using k(5,6) by simp
  from zip_append [OF this, of "drop q (leaf_keys l)" "drop q (leaf_vals l)"]
  show "leaf_kvs (bleaf_left m l) @ leaf_kvs (bleaf_right C m l) = leaf_kvs l"
    unfolding leaf_kvs_def kl kr vl vr by (simp only: append_take_drop_id)
qed

lemma bleaf_split_lookup:
  assumes "bleaf_ok C l"
  shows "map_of (leaf_kvs l) key =
      (if key \<le> m then map_of (leaf_kvs (bleaf_left m l)) key else map_of (leaf_kvs (bleaf_right C m l)) key)"
proof -
  note s = bleaf_split_ok [OF assms refl, of m]
  have dk: "fst ` set (leaf_kvs (bleaf_left m l)) = {k \<in> set (leaf_keys l). k \<le> m}"
      "fst ` set (leaf_kvs (bleaf_right C m l)) = {k \<in> set (leaf_keys l). m < k}"
    using fst_leaf_kvs [OF s(1)] fst_leaf_kvs [OF s(2)] unfolding s(3,4) by auto
  show ?thesis
  proof (cases "key \<le> m")
    case True
    then have "key \<notin> fst ` set (leaf_kvs (bleaf_right C m l))" unfolding dk by (simp add: not_less)
    then show ?thesis using True map_of_append_notin2 [of key _ "leaf_kvs (bleaf_left m l)"] s(5) by metis
  next
    case False
    then have "key \<notin> fst ` set (leaf_kvs (bleaf_left m l))" unfolding dk by simp
    then show ?thesis using False map_of_append_notin [of key _ "leaf_kvs (bleaf_right C m l)"] s(5) by metis
  qed
qed

lemma be_leaf_run: "xst s nd S N \<Longrightarrow> p \<in> S \<Longrightarrow> nd p = Some (BeLeaf l) \<Longrightarrow> be_leaf_at p s = Inr l"
  by (simp add: be_leaf_at_def xst_get)

lemma be_inner_run: "xst s nd S N \<Longrightarrow> p \<in> S \<Longrightarrow> nd p = Some (BeInner x) \<Longrightarrow> be_inner_at p s = Inr x"
  by (simp add: be_inner_at_def xst_get)

lemma be_root_run: "xst s nd S N \<Longrightarrow> p \<in> S \<Longrightarrow> nd p = Some (BeRoot x) \<Longrightarrow> be_root_at p s = Inr x"
  by (simp add: be_root_at_def xst_get)

text \<open>A new page with an initialised node.\<close>

lemma be_new_page_run:
  assumes "xst s nd S N" "card S < N" "new_be_node C type = Inr x"
  shows "\<exists>r s1 s2. pin_new s = Inr (r, s1) \<and> be_initializeNode C r type s1 = Inr s2 \<and> r \<notin> dom nd \<and> r \<notin> S \<and>
           xst s2 (nd(r \<mapsto> x)) (insert r S) N"
proof -
  obtain r s1 y where r: "pin_new s = Inr (r, s1)" "r \<notin> dom nd" "r \<notin> S"
      "xst s1 (nd(r \<mapsto> y)) (insert r S) N"
    using xst_pin_new [OF assms(1,2)] by blast
  obtain s2 where "ps_put r x s1 = Inr s2" "xst s2 (nd(r \<mapsto> y, r \<mapsto> x)) (insert r S) N"
    using xst_put [OF r(4), of r x] by auto
  then show ?thesis using r assms(3) by (auto simp: be_initializeNode_def)
qed

lemma be_node_eta:
  "(l :: ('k, 'v) leaf_node)\<lparr>keys := a, vals := b, lsize := c\<rparr> = \<lparr>keys = a, vals = b, lsize = c\<rparr>"
  by (cases l) simp

lemma be_splitLeafNode_run:
  assumes "xst s nd S N" "p \<in> S" "nd p = Some (BeLeaf l)" "2 \<le> lsize l" "card S < N"
  shows "\<exists>r s'. be_splitLeafNode C p m s = Inr (r, m, s') \<and> r \<notin> dom nd \<and> r \<notin> S \<and>
           xst s' (nd(r \<mapsto> BeLeaf (bleaf_right C m l), p \<mapsto> BeLeaf (bleaf_left m l))) (insert r S) N"
proof -
  obtain r s1 s2 where r: "pin_new s = Inr (r, s1)" "be_initializeNode C r NodeType_LEAF s1 = Inr s2" "r \<notin> dom nd"
      "r \<notin> S" "xst s2 (nd(r \<mapsto> BeLeaf (new_be_leaf C))) (insert r S) N"
    using be_new_page_run [OF assms(1,5) new_be_node_simps(3)] by blast
  have rp: "r \<noteq> p" using r(4) assms(2) by auto
  obtain s3 where s3: "ps_put r (BeLeaf (bleaf_right C m l)) s2 = Inr s3"
      "xst s3 (nd(r \<mapsto> BeLeaf (bleaf_right C m l))) (insert r S) N"
    using xst_put [OF r(5), of r "BeLeaf (bleaf_right C m l)"] by auto
  obtain s4 where s4: "ps_put p (BeLeaf (bleaf_left m l)) s3 = Inr s4"
      "xst s4 (nd(r \<mapsto> BeLeaf (bleaf_right C m l), p \<mapsto> BeLeaf (bleaf_left m l))) (insert r S) N"
    using xst_put [OF s3(2), of p "BeLeaf (bleaf_left m l)"] assms(2) by auto
  have u: "upper_bound (keys l) (lsize l) m \<le> lsize l" by (rule upper_bound_le)
  have "be_leaf_at p s = Inr l" by (rule be_leaf_run [OF assms(1,2,3)])
  moreover have "be_leaf_at r s2 = Inr (new_be_leaf C)" by (rule be_leaf_run [OF r(5)]) simp_all
  ultimately have "be_splitLeafNode C p m s = Inr (r, m, s4)"
    using r(1,2) s3(1) s4(1) assms(4) u
    by (simp add: be_splitLeafNode_def Let_def bleaf_right_def bleaf_left_def be_node_eta del: bindE_eq_Inr)
  then show ?thesis using r(3,4) s4(2) by blast
qed

lemma split_leaf_splits:
  assumes X: "X c = Some (BeLeaf l, b)" and g: "good C 0 X lo hi c" and m: "gt_lo lo m" "lt_hi hi m"
    and r: "r \<notin> dom X"
  shows "splits C 0 X (X(r \<mapsto> (BeLeaf (bleaf_right C m l), filter (\<lambda>u. m < ukey u) b),
                        c \<mapsto> (BeLeaf (bleaf_left m l), filter (\<lambda>u. ukey u \<le> m) b))) lo hi c m r"
    (is "splits _ _ _ ?X _ _ _ _ _")
proof -
  have ok: "bleaf_ok C l" "\<forall>k \<in> set (leaf_keys l). within lo hi k" "inbox_ok C lo hi b"
    using g X by (auto simp: good_def)
  note s = bleaf_split_ok [OF ok(1) refl, of m]
  have rc: "r \<noteq> c" using r X by auto
  have up: "upserts_ok (filter P b)" "length (filter P b) \<le> MAX_FLUSH_SIZE C" for P
    using ok(3) by (auto simp: inbox_ok_def upserts_ok_def sorted_wrt_map intro: sorted_wrt_filter le_trans [OF length_filter_le])
  have bo: "be_ok C 0 ?X lo (Some m) c" "be_ok C 0 ?X (Some m) hi r"
    using s(1-4) ok(2,3) up rc by (auto simp: inbox_ok_def within_def)
  have tr: "trail 0 ?X key c = msgs_for key (filter (\<lambda>u. ukey u \<le> m) b)"
      "trail 0 ?X key r = msgs_for key (filter (\<lambda>u. m < ukey u) b)" for key
    using rc by auto
  have mf: "msgs_for key (filter (\<lambda>u. ukey u \<le> m) b) = (if key \<le> m then msgs_for key b else [])"
      "msgs_for key (filter (\<lambda>u. m < ukey u) b) = (if key \<le> m then [] else msgs_for key b)" for key
    by (auto simp: msgs_for_def filter_empty_conv intro: filter_cong)
  have old: "trail 0 X key c = msgs_for key b" "base 0 X key c = map_of (leaf_kvs l) key" for key
    using X by simp_all
  have ord: "ordered (msgs_for key b)" if "within lo hi key" for key
    using g that old(1) by (simp add: good_def)
  have wl: "within lo (Some m) key \<Longrightarrow> within lo hi key" and wr: "within (Some m) hi key \<Longrightarrow> within lo hi key" for key
    using below_upto [OF below_trans [OF m(2), of key]] above_trans [OF m(1), of key]
    by (auto simp: within_def less_imp_le)
  have gd: "good C 0 ?X lo (Some m) c" "good C 0 ?X (Some m) hi r"
    using bo ord wl wr unfolding good_def tr mf by (auto simp: ordered_def)
  have nb: "base 0 ?X key c = map_of (leaf_kvs (bleaf_left m l)) key"
      "base 0 ?X key r = map_of (leaf_kvs (bleaf_right C m l)) key" for key
    using rc by simp_all
  note kv = bleaf_split_lookup [OF ok(1), of _ m]
  have bs: "base 0 ?X key (if key \<le> m then c else r) = base 0 X key c" for key
    unfolding old kv [of key] using nb by (simp del: base.simps)
  have sa: "same_at 0 X c ?X (if key \<le> m then c else r) key" for key
  proof -
    have "trail 0 ?X key (if key \<le> m then c else r) = trail 0 X key c"
      by (cases "key \<le> m") (simp_all only: old tr mf if_True if_False)
    then show ?thesis using bs by (simp add: same_at_def look_def stamps_def del: trail.simps base.simps)
  qed
  have gr: "grows X {c} ?X {c, r}" using r X by (auto simp: grows_def)
  have "fgood C ?X [(0, lo, Some m, c), (0, Some m, hi, r)]"
    using gd rc by (simp add: fgood_def del: fun_upd_apply)
  then show ?thesis using m sa gr by (auto simp: splits_def simp del: fun_upd_apply)
qed

section \<open>Inner nodes\<close>

definition mid_pivot :: "('k, 'v) be_inner \<Rightarrow> 'k" where
  "mid_pivot n = ipivots n ! ((innsize n - 1) div 2)"

definition binner_left :: "('k::linorder, 'v) be_inner \<Rightarrow> ('k, 'v) be_inner" where
  "binner_left n =
     (let (ups, it) = remove_if (\<lambda>u. ukey u > mid_pivot n) (upserts (ubuf n)) (usize (ubuf n))
      in n\<lparr>ubuf := \<lparr>upserts = ups, usize = usize (ubuf n) - (usize (ubuf n) - it)\<rparr>,
           innsize := innsize n - innsize n div 2 - 1\<rparr>)"

definition binner_right :: "('k::linorder, 'v) be_config \<Rightarrow> ('k, 'v) be_inner \<Rightarrow> ('k, 'v) be_inner" where
  "binner_right C n =
     (let i = (innsize n - 1) div 2 + 1; c = innsize n - i;
          (ups, it) = remove_if (\<lambda>u. ukey u > mid_pivot n) (upserts (ubuf n)) (usize (ubuf n))
      in \<lparr>ubuf = \<lparr>upserts = copy_fwd (usize (ubuf n) - it) ups it (upserts (ubuf (new_be_inner C))) 0,
                  usize = usize (ubuf n) - it\<rparr>,
          ipivots = copy_fwd c (ipivots n) i (ipivots (new_be_inner C)) 0,
          ichildren = copy_fwd (c + 1) (ichildren n) i (ichildren (new_be_inner C)) 0,
          innsize = innsize n div 2\<rparr>)"

text \<open>In a sorted buffer the messages behind a key are the last ones, and nothing is moved.\<close>

lemma upserts_ok_split:
  assumes "upserts_ok us"
  shows "takeWhile (\<lambda>u. ukey u \<le> m) us = filter (\<lambda>u. ukey u \<le> m) us"
    "dropWhile (\<lambda>u. ukey u \<le> m) us = filter (\<lambda>u. m < ukey u) us"
proof -
  have "takeWhile (\<lambda>u. ukey u \<le> m) us = filter (\<lambda>u. ukey u \<le> m) us \<and>
      dropWhile (\<lambda>u. ukey u \<le> m) us = filter (\<lambda>u. m < ukey u) us"
    using assms
  proof (induction us)
    case (Cons u us)
    show ?case
    proof (cases "ukey u \<le> m")
      case False
      then have "\<forall>v \<in> set us. m < ukey v" using Cons.prems
        by (auto simp: upserts_ok_Cons not_le dest: order.strict_trans)
      then have "filter (\<lambda>u. ukey u \<le> m) us = []" "filter (\<lambda>u. m < ukey u) us = us"
        by (auto simp: filter_empty_conv filter_id_conv not_le)
      then show ?thesis using False not_le_imp_less [OF False] by simp
    qed (use Cons in \<open>simp add: not_less upserts_ok_Cons\<close>)
  qed simp
  then show "takeWhile (\<lambda>u. ukey u \<le> m) us = filter (\<lambda>u. ukey u \<le> m) us"
    "dropWhile (\<lambda>u. ukey u \<le> m) us = filter (\<lambda>u. m < ukey u) us" by blast+
qed

lemma remove_behind:
  assumes "be_inner_ok C n"
  defines "it \<equiv> length (filter (\<lambda>u. ukey u \<le> mid_pivot n) (bmsgs n))"
  shows "remove_if (\<lambda>u. ukey u > mid_pivot n) (upserts (ubuf n)) (usize (ubuf n)) = (upserts (ubuf n), it)"
    "it \<le> usize (ubuf n)" "take it (bmsgs n) = filter (\<lambda>u. ukey u \<le> mid_pivot n) (bmsgs n)"
    "drop it (bmsgs n) = filter (\<lambda>u. mid_pivot n < ukey u) (bmsgs n)"
proof -
  note k = be_inner_okD [OF assms(1)]
  note w = upserts_ok_split [OF k(9), of "mid_pivot n"]
  have it: "it = length (takeWhile (\<lambda>u. ukey u \<le> mid_pivot n) (bmsgs n))" by (simp add: it_def w)
  show le: "it \<le> usize (ubuf n)" using k(10) by (metis it_def length_filter_le)
  show t: "take it (bmsgs n) = filter (\<lambda>u. ukey u \<le> mid_pivot n) (bmsgs n)"
    unfolding it takeWhile_eq_take [symmetric] by (rule w(1))
  show d: "drop it (bmsgs n) = filter (\<lambda>u. mid_pivot n < ukey u) (bmsgs n)"
    unfolding it dropWhile_eq_drop [symmetric] by (rule w(2))
  show "remove_if (\<lambda>u. ukey u > mid_pivot n) (upserts (ubuf n)) (usize (ubuf n)) = (upserts (ubuf n), it)"
  proof (rule remove_if_suffix)
    show "usize (ubuf n) \<le> length (upserts (ubuf n))" "it \<le> usize (ubuf n)" using k(7,8) le by simp_all
    fix j assume j: "j < it"
    then have "upserts (ubuf n) ! j = take it (bmsgs n) ! j" using le by (simp add: bmsgs_def)
    moreover have "take it (bmsgs n) ! j \<in> set (take it (bmsgs n))" using j le k(10) by (intro nth_mem) simp
    ultimately show "\<not> ukey (upserts (ubuf n) ! j) > mid_pivot n" unfolding t by auto
  next
    fix j assume j: "it \<le> j" "j < usize (ubuf n)"
    then have "upserts (ubuf n) ! j = drop it (bmsgs n) ! (j - it)" using k(7,8) by (simp add: bmsgs_def)
    moreover have "drop it (bmsgs n) ! (j - it) \<in> set (drop it (bmsgs n))" using j k(10) by (intro nth_mem) simp
    ultimately show "ukey (upserts (ubuf n) ! j) > mid_pivot n" unfolding d by auto
  qed
qed

lemma binner_split_ok:
  assumes "be_inner_ok C n" "2 \<le> innsize n" and q_def: "q = (innsize n - 1) div 2"
  shows "be_inner_ok C (binner_left n)" "be_inner_ok C (binner_right C n)"
    "bseps (binner_left n) = take q (bseps n)" "bkids (binner_left n) = take (Suc q) (bkids n)"
    "bseps (binner_right C n) = drop (Suc q) (bseps n)" "bkids (binner_right C n) = drop (Suc q) (bkids n)"
    "bseps n = take q (bseps n) @ mid_pivot n # drop (Suc q) (bseps n)"
    "bmsgs (binner_left n) = filter (\<lambda>u. ukey u \<le> mid_pivot n) (bmsgs n)"
    "bmsgs (binner_right C n) = filter (\<lambda>u. mid_pivot n < ukey u) (bmsgs n)"
    "innsize (binner_left n) = q" "innsize (binner_right C n) = innsize n div 2" "q < innsize n"
proof -
  note k = be_inner_okD [OF assms(1)]
  define it where "it = length (filter (\<lambda>u. ukey u \<le> mid_pivot n) (bmsgs n))"
  note m = remove_behind [OF assms(1), folded it_def]
  note hf = half_index [OF assms(2)]
  have h: "innsize n - Suc q = innsize n div 2" "q < innsize n" "innsize n - innsize n div 2 - 1 = q"
    using hf(1,3,5) by (simp_all add: q_def)
  have l: "binner_left n = n\<lparr>ubuf := \<lparr>upserts = upserts (ubuf n), usize = it\<rparr>, innsize := q\<rparr>"
    using m(1,2) h(3) by (simp add: binner_left_def)
  have r: "binner_right C n =
      \<lparr>ubuf = \<lparr>upserts = copy_fwd (usize (ubuf n) - it) (upserts (ubuf n)) it (upserts (ubuf (new_be_inner C))) 0,
               usize = usize (ubuf n) - it\<rparr>,
       ipivots = copy_fwd (innsize n div 2) (ipivots n) (Suc q) (ipivots (new_be_inner C)) 0,
       ichildren = copy_fwd (innsize n div 2 + 1) (ichildren n) (Suc q) (ichildren (new_be_inner C)) 0,
       innsize = innsize n div 2\<rparr>"
    using m(1) h(1) by (simp add: binner_right_def Let_def q_def)
  show "innsize (binner_left n) = q" "innsize (binner_right C n) = innsize n div 2" "q < innsize n"
    using h(2) by (simp_all add: l r)
  show sl: "bseps (binner_left n) = take q (bseps n)" and kl: "bkids (binner_left n) = take (Suc q) (bkids n)"
    using h(2) by (simp_all add: bseps_def bkids_def l min_def)
  show ml: "bmsgs (binner_left n) = filter (\<lambda>u. ukey u \<le> mid_pivot n) (bmsgs n)"
    using m(2,3) by (simp add: bmsgs_def l min_def)
  have "take (innsize n div 2) (copy_fwd (innsize n div 2) (ipivots n) (Suc q) (replicate (INNER_N C) (anyKey C)) 0) =
      take (innsize n div 2) (drop (Suc q) (ipivots n))"
    by (rule take_copy_fwd_front) (use k(1,3) h in auto)
  then show sr: "bseps (binner_right C n) = drop (Suc q) (bseps n)"
    using h(1) by (simp add: r bseps_def new_be_inner_def drop_take)
  have "take (innsize n div 2 + 1) (copy_fwd (innsize n div 2 + 1) (ichildren n) (Suc q) (replicate (INNER_N C + 1) 0) 0) =
      take (innsize n div 2 + 1) (drop (Suc q) (ichildren n))"
    by (rule take_copy_fwd_front) (use k(2,3) h in auto)
  moreover have "innsize n + 1 - Suc q = innsize n div 2 + 1" using h by simp
  ultimately show kr: "bkids (binner_right C n) = drop (Suc q) (bkids n)"
    by (simp add: r bkids_def new_be_inner_def drop_take del: replicate.simps)
  have "take (usize (ubuf n) - it)
        (copy_fwd (usize (ubuf n) - it) (upserts (ubuf n)) it (replicate (INNER_B_N C) (any_upsert C)) 0) =
      take (usize (ubuf n) - it) (drop it (upserts (ubuf n)))"
    by (rule take_copy_fwd_front) (use k(7,8) m(2) in auto)
  then show mr: "bmsgs (binner_right C n) = filter (\<lambda>u. mid_pivot n < ukey u) (bmsgs n)"
    using m(4) by (simp add: r bmsgs_def new_be_inner_def drop_take)
  have up: "upserts_ok (filter P (bmsgs n))" for P
    using k(9) by (auto simp: upserts_ok_def sorted_wrt_map intro: sorted_wrt_filter)
  show "be_inner_ok C (binner_left n)"
    using k(1-3,7,8) sorted_wrt_take [OF k(4), of q] up m(2) h(2) unfolding be_inner_ok_def sl ml
    by (simp add: l)
  show "be_inner_ok C (binner_right C n)"
    using k(1-3,7,8) sorted_wrt_drop [OF k(4), of "Suc q"] up h(2) unfolding be_inner_ok_def sr mr
    by (simp add: r new_be_inner_def) (meson div_le_dividend diff_le_self le_trans)
  show "bseps n = take q (bseps n) @ mid_pivot n # drop (Suc q) (bseps n)"
    using id_take_nth_drop [of q "bseps n"] h(2) k(5) by (simp add: bseps_def mid_pivot_def q_def)
qed

lemma be_inner_eta:
  "(n :: ('k, 'v) be_inner)\<lparr>ubuf := a, ipivots := b, ichildren := c, innsize := d\<rparr> =
     \<lparr>ubuf = a, ipivots = b, ichildren = c, innsize = d\<rparr>"
  "(u :: ('k, 'v) upsert_buffer)\<lparr>upserts := x, usize := y\<rparr> = \<lparr>upserts = x, usize = y\<rparr>"
  by (cases n, simp) (cases u, simp)

lemma be_splitInnerNode_run:
  assumes "xst s nd S N" "p \<in> S" "nd p = Some (BeInner n)" "2 \<le> innsize n" "card S < N"
  shows "\<exists>r s'. be_splitInnerNode C p s = Inr (r, mid_pivot n, s') \<and> r \<notin> dom nd \<and> r \<notin> S \<and>
           xst s' (nd(r \<mapsto> BeInner (binner_right C n), p \<mapsto> BeInner (binner_left n))) (insert r S) N"
proof -
  obtain r s1 s2 where r: "pin_new s = Inr (r, s1)" "be_initializeNode C r NodeType_INNER s1 = Inr s2" "r \<notin> dom nd"
      "r \<notin> S" "xst s2 (nd(r \<mapsto> BeInner (new_be_inner C))) (insert r S) N"
    using be_new_page_run [OF assms(1,5) new_be_node_simps(2)] by blast
  have rp: "r \<noteq> p" using r(4) assms(2) by auto
  obtain s3 where s3: "ps_put r (BeInner (binner_right C n)) s2 = Inr s3"
      "xst s3 (nd(r \<mapsto> BeInner (binner_right C n))) (insert r S) N"
    using xst_put [OF r(5), of r "BeInner (binner_right C n)"] by auto
  obtain s4 where s4: "ps_put p (BeInner (binner_left n)) s3 = Inr s4"
      "xst s4 (nd(r \<mapsto> BeInner (binner_right C n), p \<mapsto> BeInner (binner_left n))) (insert r S) N"
    using xst_put [OF s3(2), of p "BeInner (binner_left n)"] assms(2) by auto
  obtain ups it where ui: "remove_if (\<lambda>u. ukey u > mid_pivot n) (upserts (ubuf n)) (usize (ubuf n)) = (ups, it)"
    by (meson surj_pair)
  have "be_inner_at p s = Inr n" by (rule be_inner_run [OF assms(1,2,3)])
  moreover have "be_inner_at r s2 = Inr (new_be_inner C)" by (rule be_inner_run [OF r(5)]) simp_all
  ultimately have "be_splitInnerNode C p s = Inr (r, mid_pivot n, s4)"
    using r(1,2) s3(1) s4(1) assms(4) ui unfolding mid_pivot_def
    by (simp add: be_splitInnerNode_def Let_def binner_right_def binner_left_def be_inner_eta mid_pivot_def
        del: bindE_eq_Inr)
  then show ?thesis using r(3,4) s4(2) by blast
qed

text \<open>The children of the halves are those of the node.\<close>

lemma kfam_halves:
  assumes "length cs = Suc (length ps)" "q < length ps"
  shows "kfam h lo ps cs hi =
    kfam h lo (take q ps) (take (Suc q) cs) (Some (ps ! q)) @ kfam h (Some (ps ! q)) (drop (Suc q) ps) (drop (Suc q) cs) hi"
    (is "?L = ?A @ ?B")
proof (rule nth_equalityI)
  show "length ?L = length (?A @ ?B)" using assms by simp
  fix i assume i: "i < length ?L"
  have lA: "length ?A = Suc q" using assms by simp
  show "?L ! i = (?A @ ?B) ! i"
  proof (cases "i < Suc q")
    case True
    then show ?thesis using i assms lA by (auto simp: nth_append lo_at_def hi_at_def less_Suc_eq)
  next
    case False
    then obtain j where j: "i = Suc q + j" by (metis le_Suc_ex not_less)
    then show ?thesis using i assms lA
      by (cases j) (auto simp: nth_append lo_at_def hi_at_def)
  qed
qed

lemma split_inner_splits:
  assumes X: "X c = Some (BeInner n, [])" and g: "good C (Suc h) X lo hi c" and n: "2 \<le> innsize n"
    and r: "r \<notin> dom X"
  shows "splits C (Suc h) X (X(r \<mapsto> (BeInner (binner_right C n), []), c \<mapsto> (BeInner (binner_left n), [])))
           lo hi c (mid_pivot n) r"
    (is "splits _ _ _ ?X _ _ _ ?m _")
proof -
  note k = good_kids [OF g X]
  note s = binner_split_ok [OF k(3) n refl] and z = be_inner_okD [OF k(3)]
  let ?q = "(innsize n - 1) div 2" and ?l = "binner_left n" and ?r = "binner_right C n"
  let ?K = "kfam h lo (bseps n) (bkids n) hi"
  let ?A = "kfam h lo (bseps ?l) (bkids ?l) (Some ?m)" and ?B = "kfam h (Some ?m) (bseps ?r) (bkids ?r) hi"
  have q: "?q < length (bseps n)" using s(12) z(5) by simp
  have mq: "bseps n ! ?q = ?m" using s(12) by (simp add: bseps_def mid_pivot_def)
  have K: "?K = ?A @ ?B"
    using kfam_halves [of "bkids n" "bseps n" ?q h lo hi] q z(5,6) unfolding s(3-6) mq by simp
  have rc: "r \<noteq> c" using r X by auto
  have dom: "set (fids X ?K) \<subseteq> dom X" by (rule fgood_dom [OF k(1)])
  have same: "\<And>x. x \<in> set (fids X ?K) \<Longrightarrow> ?X x = X x" using k(2) dom r by auto
  have bK: "fgood C ?X ?K" "fids ?X ?K = fids X ?K" "(h', lo', hi', i) \<in> set ?K \<Longrightarrow> same_at h' X i ?X i key"
    for h' lo' hi' i key
    by (rule fgood_beside [OF k(1)], erule same)+
  have fAB: "fgood C ?X ?A" "fgood C ?X ?B" "set (fids ?X ?A) \<inter> set (fids ?X ?B) = {}"
    using bK(1) unfolding K fgood_append by blast+
  have out: "c \<notin> set (fids ?X ?A)" "c \<notin> set (fids ?X ?B)" "r \<notin> set (fids ?X ?A)" "r \<notin> set (fids ?X ?B)"
  proof -
    have "set (fids X ?K) = set (fids ?X ?A) \<union> set (fids ?X ?B)" using bK(2) K by (metis fids_simps(3) set_append)
    then show "c \<notin> set (fids ?X ?A)" "c \<notin> set (fids ?X ?B)" "r \<notin> set (fids ?X ?A)" "r \<notin> set (fids ?X ?B)"
      using k(2) dom r by auto
  qed
  have m: "?m \<in> set (bseps n)" using s(7) by (metis in_set_conv_decomp)
  then have mb: "gt_lo lo ?m" "lt_hi hi ?m" using k(4) by blast+
  have srt: "sorted_wrt (<) (take ?q (bseps n) @ ?m # drop (Suc ?q) (bseps n))" using z(4) s(7) by simp
  have sepL: "\<forall>p \<in> set (bseps ?l). gt_lo lo p \<and> lt_hi (Some ?m) p"
    and sepR: "\<forall>p \<in> set (bseps ?r). gt_lo (Some ?m) p \<and> lt_hi hi p"
    using srt k(4) unfolding s(3,5) by (auto simp: sorted_wrt_append dest: in_set_takeD in_set_dropD)
  have wl: "within lo (Some ?m) key \<Longrightarrow> within lo hi key" and wr: "within (Some ?m) hi key \<Longrightarrow> within lo hi key" for key
    using below_upto [OF below_trans [OF mb(2), of key]] above_trans [OF mb(1), of key]
    by (auto simp: within_def less_imp_le)
  have Xc: "?X c = Some (BeInner ?l, [])" and Xr: "?X r = Some (BeInner ?r, [])" using rc by auto
  have mf: "msgs_for key (bmsgs ?l) = (if key \<le> ?m then msgs_for key (bmsgs n) else [])"
      "msgs_for key (bmsgs ?r) = (if key \<le> ?m then [] else msgs_for key (bmsgs n))" for key
    unfolding s(8,9) by (auto simp: msgs_for_def filter_empty_conv intro: filter_cong)
  have kidL: "bkids ?l ! route (bseps ?l) key = bkids n ! route (bseps n) key"
    if w: "within lo (Some ?m) key" for key
  proof (rule kid_of_key [OF k(3)])
    show "(h, lo_at lo (bseps ?l) (route (bseps ?l) key), hi_at (bseps ?l) (Some ?m) (route (bseps ?l) key),
        bkids ?l ! route (bseps ?l) key) \<in> set ?K"
      unfolding K using kid_bounds(1) [OF s(1) w] by simp
  qed (rule kid_bounds(2) [OF s(1) w])
  have kidR: "bkids ?r ! route (bseps ?r) key = bkids n ! route (bseps n) key"
    if w: "within (Some ?m) hi key" for key
  proof (rule kid_of_key [OF k(3)])
    show "(h, lo_at (Some ?m) (bseps ?r) (route (bseps ?r) key), hi_at (bseps ?r) hi (route (bseps ?r) key),
        bkids ?r ! route (bseps ?r) key) \<in> set ?K"
      unfolding K using kid_bounds(1) [OF s(2) w] by simp
  qed (rule kid_bounds(2) [OF s(2) w])
  have tr: "trail h ?X key (bkids n ! route (bseps n) key) = trail h X key (bkids n ! route (bseps n) key)"
      "base h ?X key (bkids n ! route (bseps n) key) = base h X key (bkids n ! route (bseps n) key)"
    if w: "within lo hi key" for key
  proof -
    note kb = kid_bounds(1) [OF k(3) w, of h]
    have "good C h X (lo_at lo (bseps n) (route (bseps n) key)) (hi_at (bseps n) hi (route (bseps n) key))
        (bkids n ! route (bseps n) key)"
      by (rule fgoodD [OF k(1) kb])
    then have ok: "be_ok C h X (lo_at lo (bseps n) (route (bseps n) key)) (hi_at (bseps n) hi (route (bseps n) key))
        (bkids n ! route (bseps n) key)" by (simp add: good_def)
    have a: "\<And>j. j \<in> set (be_ids h X (bkids n ! route (bseps n) key)) \<Longrightarrow> ?X j = X j"
      by (rule same) (use fids_in [OF kb] in blast)
    show "trail h ?X key (bkids n ! route (bseps n) key) = trail h X key (bkids n ! route (bseps n) key)"
      "base h ?X key (bkids n ! route (bseps n) key) = base h X key (bkids n ! route (bseps n) key)"
      by (rule be_cong [OF ok], erule a)+
  qed
  have tL: "trail (Suc h) ?X key c = trail (Suc h) X key c" "base (Suc h) ?X key c = base (Suc h) X key c"
    if w: "within lo (Some ?m) key" for key
    using w tr [OF wl [OF w]] kidL [OF w] mf [of key]
    unfolding trail_inner [where X = X and i = c, OF X] trail_inner [where X = ?X and i = c, OF Xc]
    by (simp_all add: within_def)
  have tR: "trail (Suc h) ?X key r = trail (Suc h) X key c" "base (Suc h) ?X key r = base (Suc h) X key c"
    if w: "within (Some ?m) hi key" for key
    using tr [OF wr [OF w]] kidR [OF w] mf [of key] not_le [of key ?m] w [unfolded within_def bound_simps]
    unfolding trail_inner [where X = X and i = c, OF X] trail_inner [where X = ?X and i = r, OF Xr]
    by (simp_all add: within_def)
  have ord: "ordered (trail (Suc h) X key c)" if "within lo hi key" for key
    using g that by (simp add: good_def)
  have ib: "inbox_ok C lo' hi' []" for lo' hi' :: "'a option" by (simp add: inbox_ok_def upserts_ok_def)
  have gL: "good C (Suc h) ?X lo (Some ?m) c"
  proof (rule good_node [where X = ?X and i = c, OF Xc s(1) sepL _ ib fAB(1) out(1)])
    show "\<forall>u \<in> set (bmsgs ?l). within lo (Some ?m) (ukey u)" using k(5) unfolding s(8) by (auto simp: within_def)
    fix key assume w: "within lo (Some ?m) key"
    show "ordered (msgs_for key [] @ msgs_for key (bmsgs ?l) @ trail h ?X key (bkids ?l ! route (bseps ?l) key))"
      using ord [OF wl [OF w]] tL(1) [OF w] unfolding trail_inner(1) [where X = ?X and i = c, OF Xc] by simp
  qed
  have gR: "good C (Suc h) ?X (Some ?m) hi r"
  proof (rule good_node [where X = ?X and i = r, OF Xr s(2) sepR _ ib fAB(2) out(4)])
    show "\<forall>u \<in> set (bmsgs ?r). within (Some ?m) hi (ukey u)" using k(5) unfolding s(9) by (auto simp: within_def)
    fix key assume w: "within (Some ?m) hi key"
    show "ordered (msgs_for key [] @ msgs_for key (bmsgs ?r) @ trail h ?X key (bkids ?r ! route (bseps ?r) key))"
      using ord [OF wr [OF w]] tR(1) [OF w] unfolding trail_inner(1) [where X = ?X and i = r, OF Xr] by simp
  qed
  have I: "be_ids (Suc h) X c = c # fids X ?K" by (rule be_ids_inner [where X = X and i = c, OF X])
  have IL: "be_ids (Suc h) ?X c = c # fids ?X ?A" by (rule be_ids_inner [where X = ?X and i = c, OF Xc])
  have IR: "be_ids (Suc h) ?X r = r # fids ?X ?B" by (rule be_ids_inner [where X = ?X and i = r, OF Xr])
  have fid: "set (fids ?X ?A) \<union> set (fids ?X ?B) = set (fids X ?K)"
    using bK(2) K by (metis fids_simps(3) set_append)
  have fg: "fgood C ?X [(Suc h, lo, Some ?m, c), (Suc h, Some ?m, hi, r)]"
  proof -
    have "set (be_ids (Suc h) ?X c) \<inter> set (be_ids (Suc h) ?X r) = {}"
      unfolding IL IR using out rc fAB(3) by auto
    then show ?thesis using gL gR
      fgood_append [of C ?X "[(Suc h, lo, Some ?m, c)]" "[(Suc h, Some ?m, hi, r)]"]
      by (simp add: fgood_single del: fun_upd_apply be_ids.simps)
  qed
  have gr: "grows X (set (be_ids (Suc h) X c)) ?X (set (be_ids (Suc h) ?X c @ be_ids (Suc h) ?X r))"
    unfolding I IL IR grows_def
  proof (intro conjI ballI)
    fix i assume "i \<in> dom X - set (c # fids X ?K)"
    then show "?X i = X i" using r by auto
  next
    show "set ((c # fids ?X ?A) @ r # fids ?X ?B) \<inter> dom X \<subseteq> set (c # fids X ?K)" using fid r by auto
  qed auto
  have sa: "same_at (Suc h) X c ?X (if key \<le> ?m then c else r) key" if w: "within lo hi key" for key
  proof (cases "key \<le> ?m")
    case True
    then have "within lo (Some ?m) key" using w by (simp add: within_def)
    then show ?thesis using True tL by (simp add: same_at_def look_def stamps_def del: trail.simps base.simps fun_upd_apply)
  next
    case False
    then have "within (Some ?m) hi key" using w by (simp add: within_def)
    then show ?thesis using False tR by (simp add: same_at_def look_def stamps_def del: trail.simps base.simps fun_upd_apply)
  qed
  show ?thesis unfolding splits_def using fg mb gr sa by blast
qed

end
