(* ===== verification/BePivots.thy ===== *)
theory BePivots
  imports BeInv
begin

text \<open>
  \<open>insertPivots\<close> puts several pivots with their right children into a node in one pass from
  the right, moving every element once. It has the effect of inserting them one at a time.
\<close>

section \<open>One at a time\<close>

definition ins :: "nat \<Rightarrow> 'a \<Rightarrow> 'a list \<Rightarrow> 'a list" where
  "ins j x xs = take j xs @ x # drop j xs"

definition ins_seps :: "(nat \<times> 'k \<times> nat) list \<Rightarrow> 'k list \<Rightarrow> 'k list" where
  "ins_seps P xs = foldr (\<lambda>(c, m, r). ins c m) P xs"

definition ins_kids :: "(nat \<times> 'k \<times> nat) list \<Rightarrow> nat list \<Rightarrow> nat list" where
  "ins_kids P ys = foldr (\<lambda>(c, m, r). ins (Suc c) r) P ys"

lemma ins_simps [simp]:
  "ins_seps [] xs = xs" "ins_seps ((c, m, r) # P) xs = ins c m (ins_seps P xs)"
  "ins_kids [] ys = ys" "ins_kids ((c, m, r) # P) ys = ins (Suc c) r (ins_kids P ys)"
  by (simp_all add: ins_seps_def ins_kids_def)

lemma length_ins [simp]: "j \<le> length xs \<Longrightarrow> length (ins j x xs) = Suc (length xs)"
  by (simp add: ins_def)

lemma length_ins_lists:
  "\<forall>p \<in> set P. fst p \<le> length xs \<Longrightarrow> length (ins_seps P xs) = length xs + length P"
  "\<forall>p \<in> set P. Suc (fst p) \<le> length ys \<Longrightarrow> length (ins_kids P ys) = length ys + length P"
  by (induction P) auto

lemma ins_ins:
  assumes "c \<le> j" "j \<le> length xs"
  shows "ins c y (ins j x xs) = ins (Suc j) x (ins c y xs)"
proof -
  define A B D where "A = take c xs" "B = drop c (take j xs)" "D = drop j xs"
  have x: "xs = A @ B @ D"
    unfolding A_B_D_def using assms(1) by (metis append.assoc append_take_drop_id min.absorb1 take_take)
  have l: "length A = c" "length B = j - c" using assms by (simp_all add: A_B_D_def)
  show ?thesis unfolding x using l assms by (simp add: ins_def Suc_diff_le)
qed

text \<open>Where child \<open>c\<close> is after the insertions.\<close>

definition moved :: "(nat \<times> 'k \<times> nat) list \<Rightarrow> nat \<Rightarrow> nat" where
  "moved P c = c + length (filter (\<lambda>p. fst p < c) P)"

lemma ins_insort:
  assumes "sorted_wrt (<) (map fst P)" "c \<notin> fst ` set P"
  shows "\<forall>p \<in> set P. fst p \<le> length xs \<Longrightarrow> c \<le> length xs \<Longrightarrow>
      ins_seps (insort_key fst (c, m, r) P) xs = ins (moved P c) m (ins_seps P xs) \<and> moved P c \<le> length (ins_seps P xs)"
    "\<forall>p \<in> set P. Suc (fst p) \<le> length ys \<Longrightarrow> Suc c \<le> length ys \<Longrightarrow>
      ins_kids (insort_key fst (c, m, r) P) ys = ins (Suc (moved P c)) r (ins_kids P ys) \<and>
      moved P c < length (ins_kids P ys) \<and> ins_kids P ys ! moved P c = ys ! c"
proof -
  show "\<forall>p \<in> set P. fst p \<le> length xs \<Longrightarrow> c \<le> length xs \<Longrightarrow>
      ins_seps (insort_key fst (c, m, r) P) xs = ins (moved P c) m (ins_seps P xs) \<and> moved P c \<le> length (ins_seps P xs)"
    using assms
  proof (induction P)
    case (Cons p P)
    obtain c1 m1 r1 where p: "p = (c1, m1, r1)" by (metis prod_cases3)
    show ?case
    proof (cases "c < c1")
      case True
      then have "filter (\<lambda>p. fst p < c) (p # P) = []"
        using Cons.prems(3) p by (auto simp: filter_empty_conv)
      then have "moved (p # P) c = c" unfolding moved_def by simp
      then show ?thesis using True p Cons.prems length_ins_lists(1) [of "p # P" xs] by simp
    next
      case False
      then have c: "c1 < c" using Cons.prems(4) p by auto
      have IH: "ins_seps (insort_key fst (c, m, r) P) xs = ins (moved P c) m (ins_seps P xs)"
          "moved P c \<le> length (ins_seps P xs)"
        using Cons by auto
      have mv: "moved ((c1, m1, r1) # P) c = Suc (moved P c)" using c by (simp add: moved_def)
      have "c1 \<le> moved P c" using c by (simp add: moved_def)
      then show ?thesis using c p IH(2) by (simp add: IH(1) mv ins_ins)
    qed
  qed (simp add: moved_def)
  show "\<forall>p \<in> set P. Suc (fst p) \<le> length ys \<Longrightarrow> Suc c \<le> length ys \<Longrightarrow>
      ins_kids (insort_key fst (c, m, r) P) ys = ins (Suc (moved P c)) r (ins_kids P ys) \<and>
      moved P c < length (ins_kids P ys) \<and> ins_kids P ys ! moved P c = ys ! c"
    using assms
  proof (induction P)
    case (Cons p P)
    obtain c1 m1 r1 where p: "p = (c1, m1, r1)" by (metis prod_cases3)
    have l: "length (ins_kids P ys) = length ys + length P" "length (ins_kids (p # P) ys) = Suc (length ys + length P)"
      using Cons.prems(1) length_ins_lists(2) [of P ys] length_ins_lists(2) [of "p # P" ys] by auto
    show ?case
    proof (cases "c < c1")
      case True
      then have f: "filter (\<lambda>p. fst p < c) (p # P) = []" "filter (\<lambda>p. fst p < c) P = []"
        using Cons.prems(3) p by (auto simp: filter_empty_conv)
      then have "moved (p # P) c = c" "moved P c = c" unfolding moved_def by simp_all
      moreover have "ins_kids P ys ! moved P c = ys ! c" using Cons by auto
      ultimately show ?thesis using True p Cons.prems l by (simp add: ins_def nth_append)
    next
      case False
      then have c: "c1 < c" using Cons.prems(4) p by auto
      have IH: "ins_kids (insort_key fst (c, m, r) P) ys = ins (Suc (moved P c)) r (ins_kids P ys)"
          "moved P c < length (ins_kids P ys)" "ins_kids P ys ! moved P c = ys ! c"
        using Cons by auto
      have mv: "moved ((c1, m1, r1) # P) c = Suc (moved P c)" using c by (simp add: moved_def)
      have mc: "c1 < moved P c" using c by (simp add: moved_def)
      have "ins (Suc c1) r1 (ins_kids P ys) ! Suc (moved P c) = ys ! c"
        using mc IH(2,3) by (simp add: ins_def nth_append min_def)
      then show ?thesis using c p IH(2) mc by (simp add: IH(1) mv ins_ins)
    qed
  qed (simp add: moved_def)
qed

lemma sort_snoc:
  assumes "distinct (map fst (P @ [x]))"
  shows "sort_key fst (P @ [x]) = insort_key fst x (sort_key fst P)"
proof (rule map_sorted_distinct_set_unique [where f = fst])
  have d: "distinct (map fst P)" "fst x \<notin> fst ` set P" using assms by auto
  show "inj_on fst (set (sort_key fst (P @ [x])) \<union> set (insort_key fst x (sort_key fst P)))"
    using assms by (auto simp: distinct_map set_insort_key)
  show "sorted (map fst (sort_key fst (P @ [x])))" by (rule sorted_sort_key)
  show "distinct (map fst (sort_key fst (P @ [x])))" using assms by (auto simp: distinct_map)
  show "sorted (map fst (insort_key fst x (sort_key fst P)))" by (simp add: sorted_insort_key)
  show "distinct (map fst (insort_key fst x (sort_key fst P)))"
  proof -
    have "x \<notin> set P" using d(2) by blast
    then show ?thesis using d by (simp add: distinct_map distinct_insort set_insort_key)
  qed
  show "set (sort_key fst (P @ [x])) = set (insort_key fst x (sort_key fst P))" by (simp add: set_insort_key)
qed

section \<open>The loop\<close>

text \<open>One round: the elements from \<open>index\<close> to \<open>lf\<close> move by \<open>it\<close>, the new one goes in front of them.\<close>

lemma shift_step:
  assumes "index \<le> lf" "lf + it \<le> tot" "tot \<le> length a" "0 < it"
    and a'_def: "a' = (move_backward (lf - index) a index (index + it))[index + it - 1 := x]"
  shows "take index a' = take index a" "length a' = length a"
    "drop (index + it - 1) (take tot a') = x # drop index (take lf a) @ drop (lf + it) (take tot a)"
proof -
  have a': "a' = take (index + it - 1) a @ x # take (lf - index) (drop index a) @ drop (lf + it) a"
  proof -
    have "move_backward (lf - index) a index (index + it) =
        take (index + it) a @ take (lf - index) (drop index a) @ drop (index + it + (lf - index)) a"
      by (rule move_backward_eq) (use assms in auto)
    also have "take (index + it) a = take (index + it - 1) a @ [a ! (index + it - 1)]"
      using take_Suc_conv_app_nth [of "index + it - 1" a] assms by simp
    finally show ?thesis using assms(1-4) by (simp add: a'_def list_update_append add.commute)
  qed
  have l: "length (take (index + it - 1) a) = index + it - 1" using assms by simp
  show "length a' = length a" by (simp add: a'_def)
  have "index \<le> index + it - 1" using assms(4) by simp
  then show "take index a' = take index a" unfolding a' using l by (simp add: take_append min.absorb1)
  have e0: "take tot a' = take (index + it - 1) a @ take (tot - (index + it - 1)) (x # take (lf - index) (drop index a) @ drop (lf + it) a)"
    unfolding a' take_append l using assms(1-4) by simp
  have e1: "tot - (index + it - 1) = Suc (tot - (index + it))" using assms(1-4) by simp
  have e2: "take (tot - (index + it)) (take (lf - index) (drop index a) @ drop (lf + it) a) =
      drop index (take lf a) @ drop (lf + it) (take tot a)"
  proof -
    have l2: "length (take (lf - index) (drop index a)) = lf - index" using assms by simp
    have "lf - index \<le> tot - (index + it)" "tot - (index + it) - (lf - index) = tot - (lf + it)"
      using assms(1-4) by simp_all
    then show ?thesis unfolding take_append l2 by (simp add: drop_take min.absorb2)
  qed
  have "take tot a' = take (index + it - 1) a @ x # (drop index (take lf a) @ drop (lf + it) (take tot a))"
    unfolding e0 e1 take_Suc_Cons e2 ..
  then show "drop (index + it - 1) (take tot a') = x # drop index (take lf a) @ drop (lf + it) (take tot a)"
    using l by simp
qed

text \<open>
  The arrays after the pivots \<open>Q\<close>, with \<open>P\<close> still to come: in front of the last index nothing has
  changed, behind it everything is in place.
\<close>

definition half_done :: "nat \<Rightarrow> nat \<Rightarrow> nat \<Rightarrow> nat \<Rightarrow> 'a list \<Rightarrow> 'a list \<Rightarrow> 'a list \<Rightarrow> bool" where
  "half_done todo lf sz tt a0 a z \<longleftrightarrow>
     length a = length a0 \<and> take lf a = take lf a0 \<and> drop (lf + todo) (take tt a) = drop lf z \<and>
     take lf z = take lf a0 \<and> lf \<le> length z \<and> lf \<le> sz"

lemma half_done_step:
  assumes "half_done (Suc todo) lf sz tt a0 a z" "index \<le> lf" "sz + Suc todo \<le> tt" "tt \<le> length a0"
  shows "half_done todo index sz tt a0
    ((move_backward (lf - index) a index (index + Suc todo))[index + todo := x]) (ins index x z)"
proof -
  note d = assms(1) [unfolded half_done_def]
  have "lf + Suc todo \<le> tt" "tt \<le> length a" using d assms(3,4) by simp_all
  note s = shift_step [OF assms(2) this zero_less_Suc refl, of x]
  have iz: "index \<le> length z" using d assms(2) by simp
  have tz: "take index z = take index a0" using d assms(2) by (metis min.absorb1 take_take)
  have lf: "drop index (take lf a) @ drop lf z = drop index z"
  proof -
    have "index - lf = 0" "lf \<le> length z" using d assms(2) by simp_all
    then have "drop index (take lf z @ drop lf z) = drop index (take lf z) @ drop lf z"
      by (simp only: drop_append length_take min.absorb2 drop_0)
    then have "drop index z = drop index (take lf z) @ drop lf z" by (simp only: append_take_drop_id)
    then show ?thesis using d by metis
  qed
  have "drop (index + todo) (take tt ((move_backward (lf - index) a index (index + Suc todo))[index + todo := x])) =
      x # drop index z"
    using s(3) d lf by simp
  moreover have "drop index (ins index x z) = x # drop index z" "take index (ins index x z) = take index z"
    using iz by (simp_all add: ins_def)
  moreover have "take index ((move_backward (lf - index) a index (index + Suc todo))[index + todo := x]) = take index a0"
    using s(1) d assms(2) by (metis Suc_eq_plus1 add_Suc_right diff_Suc_1 min.absorb1 take_take)
  ultimately show ?thesis
    unfolding half_done_def using s(2) d iz tz assms(2) by simp
qed

lemma half_done_done: "half_done 0 l sz t a0 a z \<Longrightarrow> l \<le> t \<Longrightarrow> take t a = z"
  unfolding half_done_def by (metis add_0_right append_take_drop_id min.absorb1 take_take)

lemma insert_pivots_loop_run:
  assumes "sorted_wrt (<) (map fst (rev R @ Q))" "\<forall>p \<in> set R. fst p \<le> lf" "\<forall>p \<in> set Q. lf \<le> fst p"
    and n0: "length a0 = I" "length b0 = I + 1" "length (ipivots n) = I" "length (ichildren n) = I + 1" "lf \<le> sz"
    and room: "sz + length R + length Q \<le> I"
    and h: "half_done (length R) lf sz (sz + length R + length Q) a0 (ipivots n) (ins_seps Q (take sz a0))"
      "half_done (length R) (lf + 1) (sz + 1) (sz + length R + length Q + 1) b0 (ichildren n) (ins_kids Q (take (sz + 1) b0))"
  shows "\<exists>n'. insert_pivots_loop R lf n = Inr n' \<and> ubuf n' = ubuf n \<and> length (ipivots n') = I \<and> length (ichildren n') = I + 1 \<and>
    take (sz + length R + length Q) (ipivots n') = ins_seps (rev R @ Q) (take sz a0) \<and>
    take (sz + length R + length Q + 1) (ichildren n') = ins_kids (rev R @ Q) (take (sz + 1) b0)"
  using assms
proof (induction R arbitrary: lf n Q)
  case Nil
  have "take (sz + length Q) (ipivots n) = ins_seps Q (take sz a0)"
    by (rule half_done_done) (use Nil.prems(10,8) in \<open>auto intro: trans_le_add1\<close>)
  moreover have "take (sz + length Q + 1) (ichildren n) = ins_kids Q (take (sz + 1) b0)"
    by (rule half_done_done) (use Nil.prems(11,8) in \<open>auto intro: trans_le_add1\<close>)
  ultimately show ?case using Nil.prems(6,7) by simp
next
  case (Cons p R)
  obtain index key child where p: "p = (index, key, child)" by (metis prod_cases3)
  let ?n = "n\<lparr>ipivots := (move_backward (lf - index) (ipivots n) index (index + Suc (length R)))[index + length R := key],
      ichildren := (move_backward (lf - index) (ichildren n) (index + 1) (index + Suc (length R) + 1))
        [index + Suc (length R) := child]\<rparr>"
  have ix: "index \<le> lf" using Cons.prems(2) p by simp
  have run: "insert_pivots_loop (p # R) lf n = insert_pivots_loop R index ?n"
    using ix Cons.prems(6,8,9) p by (simp add: Let_def)
  have "\<exists>n'. insert_pivots_loop R index ?n = Inr n' \<and> ubuf n' = ubuf ?n \<and> length (ipivots n') = I \<and> length (ichildren n') = I + 1 \<and>
    take (sz + length R + length (p # Q)) (ipivots n') = ins_seps (rev R @ p # Q) (take sz a0) \<and>
    take (sz + length R + length (p # Q) + 1) (ichildren n') = ins_kids (rev R @ p # Q) (take (sz + 1) b0)"
  proof (rule Cons.IH)
    show "sorted_wrt (<) (map fst (rev R @ p # Q))" using Cons.prems(1) by simp
    show "\<forall>q \<in> set R. fst q \<le> index"
      using Cons.prems(1) p by (auto simp: sorted_wrt_append less_imp_le)
    show "\<forall>q \<in> set (p # Q). index \<le> fst q" using Cons.prems(3) ix p by auto
    show "length (ipivots ?n) = I" "length (ichildren ?n) = I + 1" using Cons.prems(6,7) by simp_all
    show "index \<le> sz" "sz + length R + length (p # Q) \<le> I" using ix Cons.prems(8,9) by simp_all
    have t: "sz + length R + length (p # Q) = sz + length (p # R) + length Q" by simp
    show "half_done (length R) index sz (sz + length R + length (p # Q)) a0 (ipivots ?n) (ins_seps (p # Q) (take sz a0))"
      unfolding t p
      using half_done_step [of "length R" lf sz "sz + length (p # R) + length Q" a0 "ipivots n" "ins_seps Q (take sz a0)" index key]
        Cons.prems(4,9,10) ix by (simp add: p)
    show "half_done (length R) (index + 1) (sz + 1) (sz + length R + length (p # Q) + 1) b0 (ichildren ?n)
        (ins_kids (p # Q) (take (sz + 1) b0))"
      unfolding t p
      using half_done_step [of "length R" "lf + 1" "sz + 1" "sz + length (p # R) + length Q + 1" b0 "ichildren n"
          "ins_kids Q (take (sz + 1) b0)" "index + 1" child]
        Cons.prems(5,9,11) ix by (simp add: p)
  qed (use Cons.prems(4,5) in simp_all)
  then show ?case unfolding run by simp
qed

lemma ascending_iff: "ascending xs \<longleftrightarrow> sorted_wrt (<) xs"
proof (induction xs rule: ascending.induct)
  case (3 x y xs)
  then show ?case by (auto dest: order.strict_trans)
qed simp_all

lemma insertPivots_run:
  assumes "be_inner_ok C n" "innsize n + length P \<le> INNER_N C" "sorted_wrt (<) (map fst P)"
    "sorted_wrt (<) (map (fst \<circ> snd) P)" "\<forall>p \<in> set P. fst p \<le> innsize n"
  shows "\<exists>n'. insertPivots P n = Inr n' \<and> ubuf n' = ubuf n \<and> innsize n' = innsize n + length P \<and>
           length (ipivots n') = INNER_N C \<and> length (ichildren n') = INNER_N C + 1 \<and>
           bseps n' = ins_seps P (bseps n) \<and> bkids n' = ins_kids P (bkids n)"
proof -
  note k = be_inner_okD [OF assms(1)]
  let ?t = "innsize n + length P"
  have "half_done (length (rev P)) (innsize n) (innsize n) (innsize n + length (rev P) + length []) (ipivots n) (ipivots n)
      (ins_seps [] (take (innsize n) (ipivots n)))"
    using k(1,3) assms(2) by (simp add: half_done_def)
  moreover have "half_done (length (rev P)) (innsize n + 1) (innsize n + 1) (innsize n + length (rev P) + length [] + 1)
      (ichildren n) (ichildren n) (ins_kids [] (take (innsize n + 1) (ichildren n)))"
    using k(2,3) assms(2) by (simp add: half_done_def)
  ultimately obtain n' where n': "insert_pivots_loop (rev P) (innsize n) n = Inr n'" "ubuf n' = ubuf n"
      "length (ipivots n') = INNER_N C" "length (ichildren n') = INNER_N C + 1"
      "take ?t (ipivots n') = ins_seps P (take (innsize n) (ipivots n))"
      "take (?t + 1) (ichildren n') = ins_kids P (take (innsize n + 1) (ichildren n))"
    using insert_pivots_loop_run [of "rev P" "[]" "innsize n" "ipivots n" "INNER_N C" "ichildren n" n "innsize n"]
      assms(2,3,5) k(1,2) by auto
  have "insertPivots P n = Inr (n'\<lparr>innsize := ?t\<rparr>)"
    using n'(1) assms(2-4) k(1) by (simp add: insertPivots_def ascending_iff del: bindE_eq_Inr)
  then show ?thesis using n' by (simp add: bseps_def bkids_def)
qed

end
