(* ===== verification/BeMessages.thy ===== *)
theory BeMessages
  imports BeInv
begin

text \<open>
  \<open>removeMessages\<close>: the messages of a full buffer and the new ones are merged, cut into blocks
  for the same child, and the largest blocks are taken out until the rest fits into the
  buffer. No message is lost, and those taken out go to the child on their path.
\<close>

section \<open>The assertions\<close>

lemma upserts_ok_sorted: "upserts_ok us \<Longrightarrow> is_sorted_upserts us"
  by (induction us rule: is_sorted_upserts.induct) (auto simp: upserts_ok_Cons upsert_less_def)

lemma upserts_ok_distinct: "upserts_ok us \<Longrightarrow> no_adjacent (map ukey us)"
  by (induction us rule: is_sorted_upserts.induct) (auto simp: upserts_ok_Cons)

lemma upserts_ok_take [simp]: "upserts_ok us \<Longrightarrow> upserts_ok (take n us)"
  and upserts_ok_drop [simp]: "upserts_ok us \<Longrightarrow> upserts_ok (drop n us)"
  by (auto simp: upserts_ok_def take_map [symmetric] drop_map [symmetric] sorted_wrt_take sorted_wrt_drop dest: in_set_takeD in_set_dropD)

lemma upserts_ok_append:
  "upserts_ok (us @ vs) \<longleftrightarrow> upserts_ok us \<and> upserts_ok vs \<and> (\<forall>u \<in> set us. \<forall>v \<in> set vs. ukey u < ukey v)"
  by (auto simp: upserts_ok_def sorted_wrt_append)

lemma msgs_for_simps [simp]:
  "msgs_for key [] = []" "msgs_for key (us @ vs) = msgs_for key us @ msgs_for key vs"
  "msgs_for key (u # us) = (if ukey u = key then u # msgs_for key us else msgs_for key us)"
  by (simp_all add: msgs_for_def)

lemma msgs_for_absent: "key \<notin> ukey ` set us \<Longrightarrow> msgs_for key us = []"
  by (auto simp: msgs_for_def filter_empty_conv)

lemma msgs_for_empty_iff: "msgs_for key us = [] \<longleftrightarrow> key \<notin> ukey ` set us"
  by (auto simp: msgs_for_def filter_empty_conv)

lemma msgs_for_set: "u \<in> set (msgs_for key us) \<longleftrightarrow> u \<in> set us \<and> ukey u = key"
  by (auto simp: msgs_for_def)

text \<open>There is at most one message for a key.\<close>

lemma msgs_for_swap: "upserts_ok (us @ vs) \<Longrightarrow> msgs_for key (us @ vs) = msgs_for key vs @ msgs_for key us"
proof -
  assume "upserts_ok (us @ vs)"
  then have lt: "ukey u < ukey v" if "u \<in> set us" "v \<in> set vs" for u v using that by (simp add: upserts_ok_append)
  have "msgs_for key us = [] \<or> msgs_for key vs = []"
  proof (rule ccontr)
    assume "\<not> (msgs_for key us = [] \<or> msgs_for key vs = [])"
    then obtain u v where "u \<in> set us" "ukey u = key" "v \<in> set vs" "ukey v = key"
      unfolding msgs_for_empty_iff by auto
    then show False using lt [of u v] by simp
  qed
  then show ?thesis by auto
qed

lemma msgs_for_one:
  assumes "upserts_ok us" "u \<in> set us"
  shows "msgs_for (ukey u) us = [u]"
proof -
  obtain a b where us: "us = a @ u # b" using assms(2) by (meson split_list)
  then have "\<forall>v \<in> set a. ukey v < ukey u" "\<forall>v \<in> set b. ukey u < ukey v"
    using assms(1) by (auto simp: upserts_ok_append upserts_ok_Cons)
  then have "msgs_for (ukey u) a = []" "msgs_for (ukey u) b = []" by (auto simp: msgs_for_empty_iff)
  then show ?thesis by (simp add: us)
qed

section \<open>Blocks\<close>

lemma route_mono: "sorted_wrt (<) ps \<Longrightarrow> k \<le> k' \<Longrightarrow> route ps k \<le> route ps k'"
  unfolding route_def
  by (induction ps) (auto dest: order.strict_trans2)

definition block :: "('k, 'v) upsert list \<Rightarrow> (nat \<times> nat \<times> nat) list \<Rightarrow> nat \<Rightarrow> ('k, 'v) upsert list" where
  "block ms bl r = take (block_size bl r) (drop (fst (bl ! r)) ms)"

definition child :: "(nat \<times> nat \<times> nat) list \<Rightarrow> nat \<Rightarrow> nat" where
  "child bl r = snd (snd (bl ! r))"

text \<open>The blocks follow each other, each belongs to one child, and the children increase.\<close>

fun blocks_ok :: "'k::linorder list \<Rightarrow> ('k, 'v) upsert list \<Rightarrow> nat \<Rightarrow> (nat \<times> nat \<times> nat) list \<Rightarrow> bool" where
  "blocks_ok ps ms i [] \<longleftrightarrow> i = length ms"
| "blocks_ok ps ms i ((a, b, c) # bl) \<longleftrightarrow>
     a = i \<and> a < b \<and> b \<le> length ms \<and> (\<forall>u \<in> set (take (b - a) (drop a ms)). route ps (ukey u) = c) \<and>
     (\<forall>x \<in> set bl. c < snd (snd x)) \<and> blocks_ok ps ms b bl"

lemma scan_blocks_ok:
  assumes "sorted_wrt (<) ps" "\<And>key. lower_bound piv n key = route ps key" "upserts_ok ms"
    and "drop i ms = us" "start < i" "i \<le> length ms" "lastKey = ukey (ms ! start)"
    and "\<forall>u \<in> set (take (i - start) (drop start ms)). route ps (ukey u) = c" "c = route ps lastKey"
  shows "blocks_ok ps ms start (scan_blocks piv n us i start lastKey c) \<and>
         (\<forall>x \<in> set (scan_blocks piv n us i start lastKey c). c \<le> snd (snd x))"
  using assms(4-)
proof (induction us arbitrary: i start lastKey c)
  case Nil
  have "i = length ms" using Nil.prems(1,3) by simp
  then show ?case using Nil.prems(2,5) by (auto dest: bspec)
next
  case (Cons u us)
  have i: "i < length ms" using Cons.prems(1) by (metis drop_eq_Nil list.distinct(1) not_le)
  have u: "u = ms ! i" "drop (i + 1) ms = us" using Cons.prems(1) Cons_nth_drop_Suc [OF i] by auto
  have lt: "ukey (ms ! start) < ukey u"
    using assms(3) Cons.prems(2) i sorted_wrt_nth_less [of "(<)" "map ukey ms" start i]
    by (simp add: upserts_ok_def u(1))
  have grow: "take (i + 1 - start) (drop start ms) = take (i - start) (drop start ms) @ [u]"
  proof -
    have "i + 1 - start = Suc (i - start)" "i - start < length (drop start ms)" "drop start ms ! (i - start) = u"
      using Cons.prems(2) i u(1) by simp_all
    then show ?thesis by (simp only: take_Suc_conv_app_nth)
  qed
  let ?d = "route ps (ukey u)"
  have lb: "lower_bound piv n (ukey u) = ?d" by (rule assms(2))
  show ?case
  proof (cases "?d = c")
    case True
    have "blocks_ok ps ms start (scan_blocks piv n us (i + 1) start lastKey c) \<and>
        (\<forall>x \<in> set (scan_blocks piv n us (i + 1) start lastKey c). c \<le> snd (snd x))"
      by (rule Cons.IH [OF u(2)]) (use Cons.prems i True grow in auto)
    then show ?thesis using True lb by simp
  next
    case False
    have cd: "c < ?d" using route_mono [OF assms(1) less_imp_le [OF lt]] Cons.prems(4,6) False by simp
    have "blocks_ok ps ms i (scan_blocks piv n us (i + 1) i (ukey u) ?d) \<and>
        (\<forall>x \<in> set (scan_blocks piv n us (i + 1) i (ukey u) ?d). ?d \<le> snd (snd x))"
      by (rule Cons.IH [OF u(2)]) (use i u hd_drop_conv_nth [OF i] in \<open>auto simp: take_Suc\<close>)
    then show ?thesis using False lb lt Cons.prems(2,3,4,5) cd by auto
  qed
qed

lemma message_blocks_ok:
  assumes "be_inner_ok C n" "upserts_ok ms" "ms \<noteq> []"
  shows "\<exists>bl. message_blocks (ipivots n) (innsize n) ms = Inr bl \<and> blocks_ok (bseps n) ms 0 bl \<and> bl \<noteq> []"
proof -
  note k = be_inner_okD [OF assms(1)]
  obtain u us where m: "ms = u # us" using assms(3) by (cases ms) auto
  have "blocks_ok (bseps n) ms 0 (scan_blocks (ipivots n) (innsize n) us 1 0 (ukey u) (route (bseps n) (ukey u)))"
    by (rule scan_blocks_ok [OF k(4) k(12) assms(2), THEN conjunct1]) (auto simp: m)
  moreover have "scan_blocks (ipivots n) (innsize n) us 1 0 (ukey u) (route (bseps n) (ukey u)) \<noteq> []"
    using calculation assms(3) by auto
  ultimately show ?thesis using k(12) by (simp add: m)
qed

lemma blocks_ok_nth:
  assumes "blocks_ok ps ms i bl" "r < length bl"
  shows "0 < block_size bl r" "length (block ms bl r) = block_size bl r"
    "\<forall>u \<in> set (block ms bl r). route ps (ukey u) = child bl r"
    "r < s \<Longrightarrow> s < length bl \<Longrightarrow> child bl r < child bl s"
proof -
  have "0 < block_size bl r \<and> length (block ms bl r) = block_size bl r \<and>
      (\<forall>u \<in> set (block ms bl r). route ps (ukey u) = child bl r) \<and>
      (\<forall>s. r < s \<and> s < length bl \<longrightarrow> child bl r < child bl s)"
    using assms
  proof (induction ps ms i bl arbitrary: r rule: blocks_ok.induct)
    case (2 ps ms i a b c bl)
    show ?case
    proof (cases r)
      case 0
      then show ?thesis using 2(2) by (auto simp: block_def block_size_def child_def nth_Cons' dest: in_set_takeD in_set_dropD)
    next
      case (Suc q)
      then have "0 < block_size bl q \<and> length (block ms bl q) = block_size bl q \<and>
          (\<forall>u \<in> set (block ms bl q). route ps (ukey u) = child bl q) \<and>
          (\<forall>s. q < s \<and> s < length bl \<longrightarrow> child bl q < child bl s)"
        using 2 by simp
      moreover have "block_size ((a, b, c) # bl) r = block_size bl q" "block ms ((a, b, c) # bl) r = block ms bl q"
          "child ((a, b, c) # bl) r = child bl q"
        using Suc by (simp_all add: block_size_def block_def child_def)
      moreover have "child ((a, b, c) # bl) r < child ((a, b, c) # bl) s" if "r < s" "s < length ((a, b, c) # bl)" for s
        using that Suc calculation(1) by (cases s) (auto simp: child_def)
      ultimately show ?thesis by simp
    qed
  qed simp
  then show "0 < block_size bl r" "length (block ms bl r) = block_size bl r"
    "\<forall>u \<in> set (block ms bl r). route ps (ukey u) = child bl r"
    "r < s \<Longrightarrow> s < length bl \<Longrightarrow> child bl r < child bl s" by blast+
qed

lemma blocks_concat:
  assumes "blocks_ok ps ms i bl" "i \<le> length ms"
  shows "concat (map (block ms bl) [0..<length bl]) = drop i ms"
  using assms
proof (induction ps ms i bl rule: blocks_ok.induct)
  case (2 ps ms i a b c bl)
  have "map (block ms ((a, b, c) # bl)) [0..<length ((a, b, c) # bl)] =
      take (b - a) (drop a ms) # map (block ms bl) [0..<length bl]"
    by (rule nth_equalityI) (auto simp: block_def block_size_def nth_Cons' simp del: upt_Suc)
  moreover have "take (b - a) (drop a ms) @ drop b ms = drop a ms"
  proof -
    have "drop b ms = drop (b - a) (drop a ms)" using 2(2) by simp
    then show ?thesis by (simp only: append_take_drop_id)
  qed
  ultimately show ?case using 2 by simp
qed simp

section \<open>Taking blocks out\<close>

text \<open>\<open>k r\<close> messages are taken out at the front of block \<open>r\<close>.\<close>

definition cut_ok ::
  "nat \<Rightarrow> nat \<Rightarrow> nat \<Rightarrow> nat list \<Rightarrow> (nat \<times> nat \<times> nat) list \<Rightarrow> (nat \<Rightarrow> nat) \<Rightarrow> bool" where
  "cut_ok needed maxRemoved collected refs bl k \<longleftrightarrow>
     (\<forall>r \<in> set refs. k r \<le> block_size bl r) \<and> (\<forall>r. r \<notin> set refs \<longrightarrow> k r = 0) \<and>
     collected + sum_list (map k refs) \<le> maxRemoved \<and>
     (needed \<le> collected + sum_list (map k refs) \<or> (\<forall>r \<in> set refs. k r = block_size bl r)) \<and>
     length (filter (\<lambda>r. 0 < k r) refs) \<le> needed - collected"

definition cut_blocks :: "nat list \<Rightarrow> (nat \<times> nat \<times> nat) list \<Rightarrow> (nat \<Rightarrow> nat) \<Rightarrow> nat \<Rightarrow> nat \<times> nat \<times> nat" where
  "cut_blocks refs bl k r =
     (if r \<in> set refs \<and> k r < block_size bl r then (fst (bl ! r) + k r, snd (bl ! r)) else bl ! r)"

lemma cut_ok_none:
  "needed \<le> collected \<Longrightarrow> collected \<le> maxRemoved \<Longrightarrow> cut_ok needed maxRemoved collected refs bl (\<lambda>_. 0)"
  by (simp add: cut_ok_def)

lemma collect_blocks_run:
  assumes "distinct refs" "\<And>r. r \<in> set refs \<Longrightarrow> r < length bl \<and> 0 < block_size bl r \<and> length (block ms bl r) = block_size bl r"
    and "upserts_ok ms" "inj_on (child bl) (set refs)" "\<And>r. r \<in> set refs \<Longrightarrow> child bl r \<notin> fst ` set res"
    and "collected \<le> maxRemoved" "needed \<le> maxRemoved"
  shows "\<exists>k bl'. collect_blocks needed maxRemoved N ms refs collected bl res =
           Inr (map (\<lambda>r. if k r = block_size bl r then N else r) refs, bl',
                res @ map (\<lambda>r. (child bl r, take (k r) (block ms bl r))) (filter (\<lambda>r. 0 < k r) refs)) \<and>
         length bl' = length bl \<and> (\<forall>r < length bl. bl' ! r = cut_blocks refs bl k r) \<and>
         cut_ok needed maxRemoved collected refs bl k"
  using assms
proof (induction refs arbitrary: collected bl res)
  case Nil
  then show ?case
    by (intro exI [of _ "\<lambda>_. 0"] exI [of _ bl]) (simp add: cut_ok_def cut_blocks_def)
next
  case (Cons r refs)
  show ?case
  proof (cases "collected < needed")
    case False
    then have "cut_ok needed maxRemoved collected (r # refs) bl (\<lambda>_. 0)" using Cons.prems(6) by (intro cut_ok_none) simp_all
    moreover have "map (\<lambda>x. if 0 = block_size bl x then N else x) (r # refs) = r # refs"
    proof (rule map_idI)
      fix x assume "x \<in> set (r # refs)"
      from Cons.prems(2) [OF this] show "(if 0 = block_size bl x then N else x) = x" by simp
    qed
    ultimately show ?thesis using False
      by (intro exI [of _ "\<lambda>_. 0"] exI [of _ bl]) (simp add: cut_blocks_def)
  next
    case True
    define t where "t = (if collected + block_size bl r > maxRemoved then maxRemoved - collected else block_size bl r)"
    have r: "r < length bl" "0 < block_size bl r" "length (block ms bl r) = block_size bl r" "r \<notin> set refs"
      using Cons.prems(1) Cons.prems(2) [of r] by simp_all
    have t: "0 < t" "t \<le> block_size bl r" "collected + t \<le> maxRemoved"
      using r(2) True Cons.prems(6,7) by (auto simp: t_def)
    define bl1 where "bl1 = (if t = block_size bl r then bl else bl[r := (fst (bl ! r) + t, snd (bl ! r))])"
    have same: "bl1 ! x = bl ! x" if "x \<noteq> r" for x using that by (simp add: bl1_def)
    have same': "block_size bl1 x = block_size bl x" "block ms bl1 x = block ms bl x" "child bl1 x = child bl x"
      if x: "x \<in> set refs" for x
    proof -
      have "bl1 ! x = bl ! x" by (rule same) (use x r(4) in blast)
      then show "block_size bl1 x = block_size bl x" "block ms bl1 x = block ms bl x" "child bl1 x = child bl x"
        by (simp_all add: block_size_def block_def child_def)
    qed
    let ?v = "take t (block ms bl r)"
    have "\<exists>k bl'. collect_blocks needed maxRemoved N ms refs (collected + t) bl1 (res @ [(child bl r, ?v)]) =
           Inr (map (\<lambda>r. if k r = block_size bl1 r then N else r) refs, bl',
                (res @ [(child bl r, ?v)]) @ map (\<lambda>r. (child bl1 r, take (k r) (block ms bl1 r))) (filter (\<lambda>r. 0 < k r) refs)) \<and>
         length bl' = length bl1 \<and> (\<forall>r < length bl1. bl' ! r = cut_blocks refs bl1 k r) \<and>
         cut_ok needed maxRemoved (collected + t) refs bl1 k"
    proof (rule Cons.IH)
      show "x < length bl1 \<and> 0 < block_size bl1 x \<and> length (block ms bl1 x) = block_size bl1 x" if "x \<in> set refs" for x
        using that Cons.prems(2) [of x] same' [OF that] by (simp add: bl1_def)
      show "inj_on (child bl1) (set refs)"
        using Cons.prems(4) same'(3) by (simp add: inj_on_def)
      show "child bl1 x \<notin> fst ` set (res @ [(child bl r, ?v)])" if "x \<in> set refs" for x
      proof -
        have "child bl x \<noteq> child bl r" using Cons.prems(4) that r(4) by (auto simp: inj_on_def)
        then show ?thesis using Cons.prems(5) [of x] same'(3) [OF that] that by simp
      qed
    qed (use Cons.prems t in simp_all)
    then obtain k bl' where k: "collect_blocks needed maxRemoved N ms refs (collected + t) bl1 (res @ [(child bl r, ?v)]) =
           Inr (map (\<lambda>r. if k r = block_size bl1 r then N else r) refs, bl',
                (res @ [(child bl r, ?v)]) @ map (\<lambda>r. (child bl1 r, take (k r) (block ms bl1 r))) (filter (\<lambda>r. 0 < k r) refs))"
         "length bl' = length bl1" "\<forall>r < length bl1. bl' ! r = cut_blocks refs bl1 k r"
         "cut_ok needed maxRemoved (collected + t) refs bl1 k" by blast
    define k' where "k' = k(r := t)"
    have kk: "k' x = k x" if "x \<in> set refs" for x using that r(4) by (auto simp: k'_def)
    have kr: "k' r = t" by (simp add: k'_def)
    obtain first last c where bd: "bl ! r = (first, last, c)" by (metis prod_cases3)
    have sz: "last - first = block_size bl r" "c = child bl r" by (simp_all add: bd block_size_def child_def)
    have v: "take t (drop first ms) = ?v" using t(2) by (simp add: block_def bd min.absorb1)
    have sorted: "is_sorted_upserts ?v" using Cons.prems(3) by (simp add: block_def upserts_ok_sorted)
    have nochild: "\<forall>v \<in> set (map snd (filter (\<lambda>(x, _). x = c) res)). v = []"
      using Cons.prems(5) [of r] sz(2) by force
    have c1: "collect_blocks needed maxRemoved N ms (r # refs) collected bl res =
      Inr ((if t = block_size bl r then N else r) # map (\<lambda>r. if k r = block_size bl1 r then N else r) refs, bl',
           (res @ [(child bl r, ?v)]) @ map (\<lambda>r. (child bl1 r, take (k r) (block ms bl1 r))) (filter (\<lambda>r. 0 < k r) refs))"
    proof -
      have b1: "(if t = block_size bl r then bl else bl[r := (first + t, last, c)]) = bl1" by (simp add: bl1_def bd)
      have "collect_blocks needed maxRemoved N ms (r # refs) collected bl res =
        bindE (collect_blocks needed maxRemoved N ms refs (collected + t) bl1 (res @ [(child bl r, ?v)]))
          (\<lambda>(refs', blocks', result''). Inr ((if t = block_size bl r then N else r) # refs', blocks', result''))"
        unfolding collect_blocks.simps bd Let_def prod.case sz(1) t_def [symmetric] v b1
        unfolding check_iff [OF nochild] check_iff [OF sorted] bindE.simps
        using True by (simp add: sz(2))
      then show ?thesis unfolding k(1) by simp
    qed
    have m1: "map (\<lambda>r. if k r = block_size bl1 r then N else r) refs = map (\<lambda>r. if k' r = block_size bl r then N else r) refs"
      using same' kk by simp
    have f1: "filter (\<lambda>r. 0 < k r) refs = filter (\<lambda>r. 0 < k' r) refs" using kk by (simp cong: filter_cong)
    have m2: "map (\<lambda>r. (child bl1 r, take (k r) (block ms bl1 r))) (filter (\<lambda>r. 0 < k r) refs) =
        map (\<lambda>r. (child bl r, take (k' r) (block ms bl r))) (filter (\<lambda>r. 0 < k' r) refs)"
      unfolding f1 using same' kk by simp
    have s1: "sum_list (map k refs) = sum_list (map k' refs)" using kk by (intro arg_cong [of _ _ sum_list]) simp
    have "cut_ok needed maxRemoved collected (r # refs) bl k'"
      unfolding cut_ok_def
    proof (intro conjI)
      note q = k(4) [unfolded cut_ok_def]
      show "\<forall>x \<in> set (r # refs). k' x \<le> block_size bl x" using q t(2) kk kr same'(1) by simp
      show "\<forall>x. x \<notin> set (r # refs) \<longrightarrow> k' x = 0" using q by (simp add: k'_def)
      show "collected + sum_list (map k' (r # refs)) \<le> maxRemoved" using q kr s1 by simp
      show "needed \<le> collected + sum_list (map k' (r # refs)) \<or> (\<forall>x \<in> set (r # refs). k' x = block_size bl x)"
      proof (cases "t = block_size bl r")
        case True
        then show ?thesis using q kr s1 kk same'(1) by auto
      next
        case False
        then have "collected + t = maxRemoved" using t by (simp add: t_def split: if_splits)
        then show ?thesis using Cons.prems(7) kr by simp
      qed
      show "length (filter (\<lambda>x. 0 < k' x) (r # refs)) \<le> needed - collected"
      proof -
        have "length (filter (\<lambda>x. 0 < k' x) refs) \<le> needed - (collected + t)" using q f1 by simp
        then show ?thesis using t(1) True kr by simp
      qed
    qed
    moreover have "bl' ! x = cut_blocks (r # refs) bl k' x" if "x < length bl" for x
    proof (cases "x = r")
      case True
      then have "bl' ! x = bl1 ! r" using k(3) that r(4) by (simp add: bl1_def cut_blocks_def)
      then show ?thesis using True r(1) t(2) kr by (simp add: bl1_def cut_blocks_def)
    next
      case False
      have "bl' ! x = cut_blocks refs bl1 k x" using k(3) that by (simp add: bl1_def)
      then show ?thesis using False same [OF False] kk same'(1) by (auto simp: cut_blocks_def)
    qed
    moreover have "length bl' = length bl" using k(2) by (simp add: bl1_def)
    ultimately show ?thesis
      using c1 m1 m2 kr t(1)
      by (intro exI [of _ k'] exI [of _ bl']) (simp add: kr t(1))
  qed
qed

section \<open>What is left and what is taken\<close>

lemma concat_map_filter:
  "(\<And>x. x \<in> set xs \<Longrightarrow> \<not> P x \<Longrightarrow> g x = []) \<Longrightarrow> concat (map g (filter P xs)) = concat (map g xs)"
  by (induction xs) auto

lemma concat_only:
  "r < N \<Longrightarrow> (\<And>x. x < N \<Longrightarrow> x \<noteq> r \<Longrightarrow> g x = []) \<Longrightarrow> concat (map g [0..<N]) = g r"
proof -
  assume r: "r < N" and e: "\<And>x. x < N \<Longrightarrow> x \<noteq> r \<Longrightarrow> g x = []"
  have "[0..<N] = [0..<r] @ r # [Suc r..<N]"
    using upt_add_eq_append [of 0 r "N - r"] upt_conv_Cons [OF r] r by simp
  moreover have "concat (map g [0..<r]) = []" "concat (map g [Suc r..<N]) = []"
    using e r by (auto simp del: upt_Suc)
  ultimately show ?thesis by (simp only: map_append list.map concat.simps concat_append append_Nil append_Nil2)
qed

lemma msgs_for_concat: "msgs_for key (concat xss) = concat (map (msgs_for key) xss)"
  by (induction xss) simp_all

lemma upserts_ok_concat_drop:
  "upserts_ok (concat (map f xs)) \<Longrightarrow> upserts_ok (concat (map (\<lambda>r. drop (k r) (f r)) xs))"
  by (induction xs) (auto simp: upserts_ok_append dest!: in_set_dropD)

lemma sort_all: "distinct refs \<Longrightarrow> set refs = {0..<N} \<Longrightarrow> sort refs = [0..<N]"
  by (rule sorted_distinct_set_unique) auto

lemma keep_blocks_kept:
  assumes "distinct refs" "set refs = {0..<N}" "length bl = N"
    and "\<forall>r < N. bl' ! r = cut_blocks refs bl k r" "\<forall>r \<in> set refs. k r \<le> block_size bl r"
    and len: "\<And>r. r < N \<Longrightarrow> length (block ms bl r) = block_size bl r"
  shows "keep_blocks N ms bl' (sort (map (\<lambda>r. if k r = block_size bl r then N else r) refs)) =
         concat (map (\<lambda>r. drop (k r) (block ms bl r)) [0..<N])"
proof -
  let ?f = "\<lambda>r. if k r = block_size bl r then N else r" and ?P = "\<lambda>r. k r \<noteq> block_size bl r"
  have "filter (\<lambda>r. r \<noteq> N) (map ?f xs) = filter ?P xs" if "\<forall>r \<in> set xs. r < N" for xs
    using that by (induction xs) auto
  then have "filter (\<lambda>r. r \<noteq> N) (map ?f refs) = filter ?P refs" using assms(2) by auto
  then have sorted: "filter (\<lambda>r. r \<noteq> N) (sort (map ?f refs)) = filter ?P [0..<N]"
    by (simp add: filter_sort sort_all [OF assms(1,2), symmetric])
  have g: "take (block_size bl' r) (drop (fst (bl' ! r)) ms) = drop (k r) (block ms bl r)"
    if "r \<in> set (filter ?P [0..<N])" for r
  proof -
    have r: "r < N" "k r < block_size bl r" "r \<in> set refs" using that assms(2,5) by (auto simp: le_neq_implies_less)
    then have b: "bl' ! r = (fst (bl ! r) + k r, snd (bl ! r))" using assms(4) by (simp add: cut_blocks_def)
    then have "block_size bl' r = block_size bl r - k r" by (simp add: block_size_def)
    then show ?thesis by (simp add: b block_def drop_take add.commute)
  qed
  have "keep_blocks N ms bl' (sort (map ?f refs)) =
      concat (map (\<lambda>r. drop (k r) (block ms bl r)) (filter ?P [0..<N]))"
    unfolding keep_blocks_def sorted using g by (intro arg_cong [of _ _ concat] map_cong refl) blast
  also have "\<dots> = concat (map (\<lambda>r. drop (k r) (block ms bl r)) [0..<N])"
    by (rule concat_map_filter) (simp add: len)
  finally show ?thesis .
qed

text \<open>The messages in a message map for a child; none if it has no entry.\<close>

definition entry :: "('k, 'v) message_map \<Rightarrow> nat \<Rightarrow> ('k, 'v) upsert list" where
  "entry m c = (case map_of m c of None \<Rightarrow> [] | Some v \<Rightarrow> v)"

lemma entry_simps [simp]: "entry [] c = []" "entry ((d, v) # m) c = (if c = d then v else entry m c)"
  by (simp_all add: entry_def)

lemma entry_absent: "c \<notin> fst ` set m \<Longrightarrow> entry m c = []"
  by (simp add: entry_def map_of_eq_None_iff [THEN iffD2])

lemma entry_in: "distinct (map fst m) \<Longrightarrow> (c, v) \<in> set m \<Longrightarrow> entry m c = v"
  by (simp add: entry_def)

text \<open>The blocks of a message map belong to different children, in order and not too long.\<close>

definition map_ok :: "'k::linorder list \<Rightarrow> nat \<Rightarrow> ('k, 'v) message_map \<Rightarrow> bool" where
  "map_ok ps mx m \<longleftrightarrow>
     distinct (map fst m) \<and>
     (\<forall>(c, v) \<in> set m. v \<noteq> [] \<and> upserts_ok v \<and> length v \<le> mx \<and> (\<forall>u \<in> set v. route ps (ukey u) = c))"

lemma map_okD:
  assumes "map_ok ps mx m" "(c, v) \<in> set m"
  shows "v \<noteq> []" "upserts_ok v" "length v \<le> mx" "u \<in> set v \<Longrightarrow> route ps (ukey u) = c" "c \<le> length ps" "entry m c = v"
proof -
  show a: "v \<noteq> []" "upserts_ok v" "length v \<le> mx" "u \<in> set v \<Longrightarrow> route ps (ukey u) = c" for u
    using assms unfolding map_ok_def by blast+
  show "c \<le> length ps" using a(1) a(4) [of "hd v"] route_le [of ps "ukey (hd v)"] by simp
  show "entry m c = v" using assms unfolding map_ok_def by (blast intro: entry_in)
qed

lemma msgs_for_block:
  assumes "upserts_ok (block ms bl r)"
  shows "msgs_for key (block ms bl r) =
         msgs_for key (drop (k r) (block ms bl r)) @ msgs_for key (take (k r) (block ms bl r))"
  using msgs_for_swap [of "take (k r) (block ms bl r)" "drop (k r) (block ms bl r)" key] assms by simp

text \<open>Cutting the blocks splits the messages for every key.\<close>

lemma cut_messages:
  assumes b: "blocks_ok ps ms 0 bl" and ms: "upserts_ok ms" and refs: "distinct refs" "set refs = {0..<length bl}"
    and k: "\<forall>r \<in> set refs. k r \<le> block_size bl r"
    and m_def: "m = map (\<lambda>r. (child bl r, take (k r) (block ms bl r))) (filter (\<lambda>r. 0 < k r) refs)"
    and kept_def: "kept = concat (map (\<lambda>r. drop (k r) (block ms bl r)) [0..<length bl])"
  shows "upserts_ok kept" "set kept \<subseteq> set ms" "length kept + sum_list (map k refs) = length ms"
    "map_ok ps (sum_list (map k refs)) m" "\<Union> (set ` snd ` set m) \<subseteq> set ms"
    "msgs_for key ms = msgs_for key kept @ msgs_for key (entry m (route ps key))"
proof -
  let ?N = "length bl"
  have all: "concat (map (block ms bl) [0..<?N]) = ms" using blocks_concat [OF b] by simp
  note n = blocks_ok_nth [OF b]
  have bo: "upserts_ok (block ms bl r)" for r by (simp add: block_def ms)
  have bs: "set (block ms bl r) \<subseteq> set ms" for r unfolding block_def by (auto dest: in_set_takeD in_set_dropD)
  show "upserts_ok kept" unfolding kept_def by (rule upserts_ok_concat_drop) (simp add: all ms)
  show "set kept \<subseteq> set ms" unfolding kept_def using bs by (auto dest!: in_set_dropD)
  have sums: "sum_list (map k refs) = sum_list (map k [0..<?N])"
    using refs by (simp add: sum_list_distinct_conv_sum_set)
  have "length kept + sum_list (map k [0..<?N]) = sum_list (map (\<lambda>r. (block_size bl r - k r) + k r) [0..<?N])"
    unfolding kept_def length_concat map_map sum_list_addf comp_def
    using n(2) by (simp add: interv_sum_list_conv_sum_set_nat)
  also have "\<dots> = sum_list (map (\<lambda>r. length (block ms bl r)) [0..<?N])"
    using k refs(2) n(2) by (intro arg_cong [of _ _ sum_list] map_cong refl) auto
  also have "\<dots> = length ms" by (subst all [symmetric]) (simp add: length_concat comp_def)
  finally show "length kept + sum_list (map k refs) = length ms" by (simp add: sums)
  have inj: "inj_on (child bl) (set refs)"
    using n(4) refs(2) unfolding inj_on_def by (metis atLeastLessThan_iff less_irrefl linorder_neqE_nat)
  have keys: "map fst m = map (child bl) (filter (\<lambda>r. 0 < k r) refs)" by (simp add: m_def comp_def)
  have d: "distinct (map fst m)"
    unfolding keys using inj refs(1) by (auto simp: distinct_map intro: inj_on_subset)
  have ent: "v \<noteq> [] \<and> upserts_ok v \<and> length v \<le> sum_list (map k refs) \<and> (\<forall>u \<in> set v. route ps (ukey u) = c)"
    if cv: "(c, v) \<in> set m" for c v
  proof -
    obtain r where r: "r \<in> set refs" "0 < k r" "c = child bl r" "v = take (k r) (block ms bl r)"
      using cv unfolding m_def by auto
    then have N: "r < ?N" "k r \<le> block_size bl r" using refs(2) k by auto
    have "k r \<le> sum_list (map k refs)" using r(1) by (simp add: member_le_sum_list)
    then have "length v \<le> sum_list (map k refs)" "v \<noteq> []" using r(2,4) n(1,2) [OF N(1)] by auto
    then show ?thesis using r(4) bo n(3) [OF N(1)] r(3) by (auto dest: in_set_takeD)
  qed
  then show mo: "map_ok ps (sum_list (map k refs)) m" using d unfolding map_ok_def by blast
  show "\<Union> (set ` snd ` set m) \<subseteq> set ms" unfolding m_def using bs by (auto dest!: in_set_takeD)
  show "msgs_for key ms = msgs_for key kept @ msgs_for key (entry m (route ps key))"
  proof (cases "\<exists>r < ?N. child bl r = route ps key")
    case True
    then obtain r where r: "r < ?N" "child bl r = route ps key" by blast
    have other: "msgs_for key (block ms bl x) = []" if "x < ?N" "x \<noteq> r" for x
    proof -
      have "child bl x \<noteq> route ps key" using inj r that refs(2) by (auto simp: inj_on_def)
      then show ?thesis using n(3) [OF that(1)] by (auto simp: msgs_for_empty_iff)
    qed
    have a: "msgs_for key ms = msgs_for key (block ms bl r)"
      by (subst all [symmetric], unfold msgs_for_concat map_map comp_def, rule concat_only [OF r(1)]) (rule other)
    have b: "msgs_for key kept = msgs_for key (drop (k r) (block ms bl r))"
      unfolding kept_def msgs_for_concat map_map comp_def
      by (rule concat_only [OF r(1)])
        (use other in \<open>auto simp: msgs_for_empty_iff image_iff dest!: in_set_dropD\<close>)
    have "msgs_for key (entry m (route ps key)) = msgs_for key (take (k r) (block ms bl r))"
    proof (cases "0 < k r")
      case True
      then have "(route ps key, take (k r) (block ms bl r)) \<in> set m" using r refs(2) unfolding m_def by force
      then show ?thesis using map_okD(6) [OF mo] by simp
    next
      case False
      have "route ps key \<notin> fst ` set m"
      proof
        assume "route ps key \<in> fst ` set m"
        then obtain x where x: "x \<in> set refs" "0 < k x" "child bl x = route ps key" unfolding m_def by auto
        then have "x = r" using inj r refs(2) by (auto simp: inj_on_def)
        then show False using x(2) False by simp
      qed
      then show ?thesis using False by (simp add: entry_absent)
    qed
    then show ?thesis unfolding a b using msgs_for_block [OF bo, of key r k] by simp
  next
    case False
    have other: "msgs_for key (block ms bl x) = []" if "x < ?N" for x
      using n(3) [OF that] False that by (auto simp: msgs_for_empty_iff)
    have "msgs_for key ms = []"
      by (subst all [symmetric], unfold msgs_for_concat map_map comp_def) (use other in auto)
    moreover have "route ps key \<notin> fst ` set m" using False refs(2) unfolding m_def by auto
    moreover have "msgs_for key kept = []"
      using calculation(1) \<open>set kept \<subseteq> set ms\<close> by (auto simp: msgs_for_empty_iff)
    ultimately show ?thesis by (simp add: entry_absent)
  qed
qed

lemma filter_one: "upserts_ok us \<Longrightarrow> msgs_for key us = [] \<or> (\<exists>u. msgs_for key us = [u])"
  using msgs_for_one [of us] msgs_for_set [of _ key us] by (metis list.set_intros(1) neq_Nil_conv)

lemma foldr_effects: "upserts_ok us \<Longrightarrow> foldr effect (msgs_for key us) x = effects us key x"
  using filter_one [of us key] by (auto simp: effects_def msgs_for_def)

text \<open>What a merge means for one key.\<close>

lemma merge_key:
  fixes old new :: "('k::linorder, 'v::semigroup_add) upsert list"
  assumes "upserts_ok old" "upserts_ok new" "newer old new"
  shows "\<exists>ms. mergeUpserts old new = Inr ms \<and> upserts_ok ms \<and> length ms \<le> length old + length new \<and>
           ukey ` set ms = ukey ` set old \<union> ukey ` set new \<and>
           (\<forall>key x. foldr effect (msgs_for key ms) x = foldr effect (msgs_for key new @ msgs_for key old) x) \<and>
           (\<forall>key. timeStamp ` set (msgs_for key ms) \<subseteq> timeStamp ` (set (msgs_for key new) \<union> set (msgs_for key old)))"
proof -
  obtain ms where ms: "mergeUpserts old new = Inr ms" "upserts_ok ms"
      "ukey ` set ms = ukey ` set old \<union> ukey ` set new" "length ms \<le> length old + length new"
      "\<forall>u \<in> set ms. \<exists>v \<in> set old \<union> set new. ukey v = ukey u \<and> timeStamp v = timeStamp u"
      "\<forall>key x. effects ms key x = effects new key (effects old key x)"
    using merge_ok [OF assms] by blast
  have "timeStamp ` set (msgs_for key ms) \<subseteq> timeStamp ` (set (msgs_for key new) \<union> set (msgs_for key old))" for key
  proof
    fix t assume "t \<in> timeStamp ` set (msgs_for key ms)"
    then obtain u where u: "u \<in> set ms" "ukey u = key" "t = timeStamp u" by (auto simp: msgs_for_set)
    then obtain v where "v \<in> set old \<union> set new" "ukey v = key" "timeStamp v = t" using ms(5) by blast
    then show "t \<in> timeStamp ` (set (msgs_for key new) \<union> set (msgs_for key old))" by (auto simp: msgs_for_set)
  qed
  moreover have "foldr effect (msgs_for key ms) x = foldr effect (msgs_for key new @ msgs_for key old) x" for key x
    using ms(6) by (simp add: foldr_effects ms(2) assms(1,2))
  ultimately show ?thesis using ms by blast
qed

lemma take_write_front: "write_front xs a = Inr ups \<Longrightarrow> take (length xs) ups = xs \<and> length ups = length a"
  by (auto simp: write_front_def split: if_splits)

lemma removeMessages_ok:
  fixes n :: "('k::linorder, 'v::semigroup_add) be_inner"
  assumes n: "be_inner_ok C n" and add: "upserts_ok add" "newer (bmsgs n) add"
    and full: "INNER_B_N C < usize (ubuf n) + length add"
    and room: "usize (ubuf n) + length add - INNER_B_N C \<le> mx" and std: "std_ok C"
  shows "\<exists>m n' ms. removeMessages C n add mx = Inr (m, n') \<and> mergeUpserts (bmsgs n) add = Inr ms \<and>
           be_inner_ok C n' \<and> (\<exists>b. n' = n\<lparr>ubuf := b\<rparr>) \<and> map_ok (bseps n) mx m \<and> m \<noteq> [] \<and>
           length m \<le> usize (ubuf n) + length add - INNER_B_N C \<and>
           set (bmsgs n') \<subseteq> set ms \<and> \<Union> (set ` snd ` set m) \<subseteq> set ms \<and>
           (\<forall>key. msgs_for key ms = msgs_for key (bmsgs n') @ msgs_for key (entry m (route (bseps n) key)))"
proof -
  note z = be_inner_okD [OF n]
  let ?needed = "usize (ubuf n) + length add - INNER_B_N C"
  obtain ms where ms: "mergeUpserts (bmsgs n) add = Inr ms" "upserts_ok ms" "length ms \<le> usize (ubuf n) + length add"
      "ukey ` set ms = ukey ` set (bmsgs n) \<union> ukey ` set add"
    using merge_key [OF z(9) add] z(10) by auto
  have "add \<noteq> []" using full z(8) by auto
  then have "ukey ` set add \<noteq> {}" by simp
  then have ne: "ms \<noteq> []" using ms(4) by auto
  obtain bl where bl: "message_blocks (ipivots n) (innsize n) ms = Inr bl" "blocks_ok (bseps n) ms 0 bl" "bl \<noteq> []"
    using message_blocks_ok [OF n ms(2) ne] by blast
  define refs where "refs = sortBySize C (block_size bl) [0..<length bl]"
  have refs: "distinct refs" "set refs = {0..<length bl}" using std by (simp_all add: std_ok_def refs_def)
  note b = blocks_ok_nth [OF bl(2)]
  have inj: "inj_on (child bl) (set refs)"
    using b(4) refs(2) unfolding inj_on_def by (metis atLeastLessThan_iff less_irrefl linorder_neqE_nat)
  obtain k bl' where k: "collect_blocks ?needed mx (length bl) ms refs 0 bl [] =
           Inr (map (\<lambda>r. if k r = block_size bl r then length bl else r) refs, bl',
                [] @ map (\<lambda>r. (child bl r, take (k r) (block ms bl r))) (filter (\<lambda>r. 0 < k r) refs))"
         "length bl' = length bl" "\<forall>r < length bl. bl' ! r = cut_blocks refs bl k r"
         "cut_ok ?needed mx 0 refs bl k"
    using collect_blocks_run [OF refs(1) _ ms(2) inj, of "[]" 0 mx ?needed "length bl"] b(1,2) refs(2) room by auto
  define m where "m = map (\<lambda>r. (child bl r, take (k r) (block ms bl r))) (filter (\<lambda>r. 0 < k r) refs)"
  define kept where "kept = concat (map (\<lambda>r. drop (k r) (block ms bl r)) [0..<length bl])"
  note q = k(4) [unfolded cut_ok_def]
  note c = cut_messages [OF bl(2) ms(2) refs conjunct1 [OF q] m_def kept_def]
  have keep: "keep_blocks (length bl) ms bl' (sort (map (\<lambda>r. if k r = block_size bl r then length bl else r) refs)) = kept"
    unfolding kept_def by (rule keep_blocks_kept [OF refs refl k(3) conjunct1 [OF q] b(2)])
  have pos: "0 < sum_list (map k refs)"
  proof (cases "?needed \<le> sum_list (map k refs)")
    case True
    then show ?thesis using full by linarith
  next
    case False
    then have "k 0 = block_size bl 0" "0 \<in> set refs" using q refs(2) bl(3) by auto
    then show ?thesis using b(1) [of 0] bl(3) member_le_sum_list [of "k 0" "map k refs"] by fastforce
  qed
  have "m \<noteq> []"
  proof
    assume "m = []"
    then have "\<forall>r \<in> set refs. k r = 0" by (auto simp: m_def filter_empty_conv)
    then show False using pos by (simp add: sum_list_distinct_conv_sum_set refs(1))
  qed
  have fit: "length kept \<le> INNER_B_N C"
  proof (cases "?needed \<le> sum_list (map k refs)")
    case False
    then have "\<forall>r < length bl. k r = block_size bl r" using q refs(2) by auto
    then have "kept = []" unfolding kept_def using b(2) by auto
    then show ?thesis by simp
  qed (use c(3) ms(3) in linarith)
  define ups where "ups = kept @ drop (length kept) (upserts (ubuf n))"
  have ups: "write_front kept (upserts (ubuf n)) = Inr ups" using fit z(7) by (simp add: write_front_def ups_def)
  define n' where "n' = n\<lparr>ubuf := \<lparr>upserts = ups, usize = length kept\<rparr>\<rparr>"
  have km: "bmsgs n' = kept" "bseps n' = bseps n" "bkids n' = bkids n"
    by (simp_all add: n'_def bmsgs_def bseps_def bkids_def ups_def)
  have ok': "be_inner_ok C n'"
    using n c(1) fit z(7) km unfolding be_inner_ok_def by (simp add: n'_def ups_def)
  have sm: "sum_list (map k refs) \<le> mx" using q by simp
  have mo: "map_ok (bseps n) mx m" using c(4) sm unfolding map_ok_def by fastforce
  have lm: "length m \<le> ?needed" using q by (simp add: m_def)
  have "removeMessages C n add mx = Inr (m, n')"
    unfolding removeMessages_def Let_def z(7) bmsgs_def [symmetric]
    using z(9) add(1) ms(1,2) bl(1) k(1) full room ups fit
    by (simp add: upserts_ok_sorted upserts_ok_distinct refs_def [symmetric] m_def [symmetric] n'_def keep c(1) ups_def)
  then show ?thesis
    using ms(1) ok' mo \<open>m \<noteq> []\<close> lm c(2,5,6) km n'_def by blast
qed

end
