(* ===== verification/BeLeaves.thy ===== *)
theory BeLeaves
  imports BeSplit BeMessages
begin

text \<open>
  Messages that reach a leaf: the estimate of its size is never too low, the median splits it
  so that both halves have room, and applying the messages has their effect on every key.
\<close>

section \<open>One message\<close>

definition leaf_apply :: "('k::linorder, 'v::plus) upsert \<Rightarrow> ('k, 'v) leaf_node \<Rightarrow> ('k, 'v) leaf_node" where
  "leaf_apply u l =
     (let i = lower_bound (keys l) (lsize l) (ukey u);
          absent = (i \<ge> lsize l \<or> keys l ! i \<noteq> ukey u)
      in case utype u of
           DELETE \<Rightarrow> if absent then l else leaf_erase i l
         | UPDATE \<Rightarrow> if absent then l else l\<lparr>vals := (vals l)[i := vals l ! i + uval u]\<rparr>
         | INSERT \<Rightarrow> if absent then leaf_insert i (ukey u) (uval u) l else l\<lparr>vals := (vals l)[i := uval u]\<rparr>
         | INVALID \<Rightarrow> l)"

text \<open>The keys of a leaf after a message, and whether there is room for a sequence of them.\<close>

fun key_step :: "('k, 'v) upsert \<Rightarrow> 'k set \<Rightarrow> 'k set" where
  "key_step u K = (case utype u of INSERT \<Rightarrow> insert (ukey u) K | DELETE \<Rightarrow> K - {ukey u} | _ \<Rightarrow> K)"

primrec fits :: "nat \<Rightarrow> 'k set \<Rightarrow> ('k, 'v) upsert list \<Rightarrow> bool" where
  "fits n K [] \<longleftrightarrow> True"
| "fits n K (u # us) \<longleftrightarrow> card (key_step u K) \<le> n \<and> fits n (key_step u K) us"

lemma leaf_dom: "leaf_ok C l \<Longrightarrow> dom (map_of (leaf_kvs l)) = set (leaf_keys l)"
  by (simp add: dom_map_of_conv_image_fst fst_leaf_kvs)

lemma leaf_card: "leaf_ok C l \<Longrightarrow> card (set (leaf_keys l)) = lsize l"
  using leaf_okD(4,5) [of C l] by (metis distinct_card strict_sorted_iff)

lemma leaf_apply_ok:
  assumes "bleaf_ok C l" "card (key_step u (set (leaf_keys l))) \<le> LEAF_N C"
  shows "bleaf_ok C (leaf_apply u l)"
    "map_of (leaf_kvs (leaf_apply u l)) = (map_of (leaf_kvs l))(ukey u := effect u (map_of (leaf_kvs l) (ukey u)))"
    "set (leaf_keys (leaf_apply u l)) = key_step u (set (leaf_keys l))"
proof -
  let ?i = "lower_bound (keys l) (lsize l) (ukey u)" and ?C = "bconfig.truncate C"
  note f = leaf_found(2) [OF assms(1) refl, of "ukey u"]
  have goal: "bleaf_ok C (leaf_apply u l) \<and>
    map_of (leaf_kvs (leaf_apply u l)) = (map_of (leaf_kvs l))(ukey u := effect u (map_of (leaf_kvs l) (ukey u)))"
  proof (cases "ukey u \<in> set (leaf_keys l)")
    case True
    then have i: "?i < lsize l" "keys l ! ?i = ukey u" using f by blast+
    have v: "map_of (leaf_kvs l) (ukey u) = Some (vals l ! ?i)" by (rule leaf_lookup [OF assms(1) i])
    show ?thesis
      using leaf_erase_ok [OF assms(1) refl i] leaf_overwrite [OF assms(1) i] assms(1) i v
      by (cases "utype u") (auto simp: leaf_apply_def Let_def)
  next
    case False
    then have i: "?i \<ge> lsize l \<or> keys l ! ?i \<noteq> ukey u" using f by (meson not_le)
    have v: "map_of (leaf_kvs l) (ukey u) = None" using False leaf_dom [OF assms(1)] by blast
    have "lsize l < LEAF_N C" if "utype u = INSERT"
      using assms(2) that False leaf_card [OF assms(1)] by simp
    then show ?thesis
      using leaf_insert_ok [OF assms(1) refl _ False] assms(1) i v
      by (cases "utype u") (auto simp: leaf_apply_def Let_def)
  qed
  then show ok: "bleaf_ok C (leaf_apply u l)"
    and kv: "map_of (leaf_kvs (leaf_apply u l)) = (map_of (leaf_kvs l))(ukey u := effect u (map_of (leaf_kvs l) (ukey u)))"
    by blast+
  show "set (leaf_keys (leaf_apply u l)) = key_step u (set (leaf_keys l))"
    unfolding leaf_dom [OF ok, symmetric] kv leaf_dom [OF assms(1), symmetric]
    by (cases "utype u"; cases "map_of (leaf_kvs l) (ukey u)") auto
qed

lemma leaf_applies_ok:
  assumes "bleaf_ok C l" "fits (LEAF_N C) (set (leaf_keys l)) us"
  shows "bleaf_ok C (fold leaf_apply us l)"
    "map_of (leaf_kvs (fold leaf_apply us l)) key = effects us key (map_of (leaf_kvs l) key)"
    "set (leaf_keys (fold leaf_apply us l)) \<subseteq> set (leaf_keys l) \<union> ukey ` set us"
proof -
  have "bleaf_ok C (fold leaf_apply us l) \<and>
    map_of (leaf_kvs (fold leaf_apply us l)) key = effects us key (map_of (leaf_kvs l) key) \<and>
    set (leaf_keys (fold leaf_apply us l)) \<subseteq> set (leaf_keys l) \<union> ukey ` set us"
    using assms
  proof (induction us arbitrary: l)
    case Nil
    then show ?case by (simp add: effects_def)
  next
    case (Cons u us)
    have "card (key_step u (set (leaf_keys l))) \<le> LEAF_N C" using Cons.prems(2) by simp
    note a = leaf_apply_ok [OF Cons.prems(1) this]
    have "fits (LEAF_N C) (set (leaf_keys (leaf_apply u l))) us" using Cons.prems(2) by (simp add: a(3))
    note IH = Cons.IH [OF a(1) this]
    have "key_step u (set (leaf_keys l)) \<subseteq> insert (ukey u) (set (leaf_keys l))"
      by (cases "utype u") auto
    then show ?case using IH a(2,3) by (auto simp: effects_Cons simp del: key_step.simps)
  qed
  then show "bleaf_ok C (fold leaf_apply us l)"
    "map_of (leaf_kvs (fold leaf_apply us l)) key = effects us key (map_of (leaf_kvs l) key)"
    "set (leaf_keys (fold leaf_apply us l)) \<subseteq> set (leaf_keys l) \<union> ukey ` set us" by blast+
qed

section \<open>The estimate of the size\<close>

lemma fits_mono:
  assumes "finite K" "card (K \<union> ukey ` set us) \<le> n"
  shows "fits n K us"
  using assms
proof (induction us arbitrary: K)
  case (Cons u us)
  let ?K = "key_step u K"
  have K: "?K \<subseteq> insert (ukey u) K" by (cases "utype u") auto
  then have f: "finite ?K" using Cons.prems(1) by (meson finite.insertI finite_subset)
  have "?K \<union> ukey ` set us \<subseteq> K \<union> ukey ` set (u # us)" using K by auto
  then have c: "card (?K \<union> ukey ` set us) \<le> n"
    by (rule le_trans [OF card_mono Cons.prems(2), rotated]) (use Cons.prems(1) in simp)
  have "card ?K \<le> n" by (rule le_trans [OF card_mono c]) (use f in auto)
  then show ?case using Cons.IH [OF f c] by simp
qed simp

text \<open>
  The difference in the wrong order: a key counts as seen only at the front of the leaf. So
  the estimate is at least the true size.
\<close>

lemma seen_front:
  assumes "it \<le> n" "n < 2 ^ 63" "(2 ^ 64 - it) mod 2 ^ 64 < n" "ks ! it = key"
  shows "it < n \<and> key \<in> set (take n ks) \<or> it < n \<and> length ks \<le> it"
proof -
  have "it = 0"
  proof (rule ccontr)
    assume "it \<noteq> 0"
    then have m: "(2 ^ 64 - it) mod 2 ^ 64 = (2 :: nat) ^ 64 - it" by simp
    show False using assms(1-3) unfolding m by simp
  qed
  moreover have "0 < n" using assms(3) by simp
  ultimately show ?thesis using assms(4) by (cases ks; cases n) auto
qed

lemma leaf_needs_split_False:
  assumes "\<not> leaf_needs_split ks n us fut seen" "n \<le> length ks" "n < 2 ^ 63" "fut \<le> length ks"
    and "distinct (map ukey us)" "set seen \<inter> ukey ` set us = {}" "finite K" "card K \<le> fut"
    and "\<forall>u \<in> set us. ukey u \<in> set (take n ks) \<longrightarrow> ukey u \<in> K"
  shows "fits (length ks) K us"
  using assms
proof (induction us arbitrary: fut seen K)
  case (Cons u us)
  define it where "it = lower_bound ks n (ukey u)"
  define sn where "sn = ((2 ^ 64 - it) mod 2 ^ 64 < n \<and> ks ! it = ukey u)"
  have ni: "ukey u \<notin> set seen" using Cons.prems(6) by auto
  have itn: "it \<le> n" using lower_bound_le by (simp add: it_def)
  have in_K: "ukey u \<in> K" if "sn"
    using seen_front [OF itn Cons.prems(3), of ks "ukey u"] that Cons.prems(2,9) by (auto simp: sn_def)
  have d: "distinct (map ukey us)" "ukey u \<notin> ukey ` set us" using Cons.prems(5) by auto
  have seen': "set (ukey u # seen) \<inter> ukey ` set us = {}" "set (removeAll (ukey u) seen) \<inter> ukey ` set us = {}"
    using Cons.prems(6) d(2) by auto
  have keep: "\<forall>v \<in> set us. ukey v \<in> set (take n ks) \<longrightarrow> ukey v \<in> key_step u K"
    using Cons.prems(9) d(2) by (cases "utype u") (auto simp: image_iff)
  have fin: "finite (key_step u K)" using Cons.prems(7) by (cases "utype u") auto
  have step: "fits (length ks) K (u # us)"
    if "\<not> leaf_needs_split ks n us f s" "f \<le> length ks" "set s \<inter> ukey ` set us = {}" "card (key_step u K) \<le> f" for f s
    using Cons.IH [OF that(1) Cons.prems(2,3) that(2) d(1) that(3) fin that(4) keep] that(2,4) by simp
  note ls = leaf_needs_split.simps(2) [of ks n u us fut seen, unfolded Let_def, folded it_def, folded sn_def]
  consider (i) "utype u = INSERT" | (d) "utype u = DELETE" | (o) "utype u \<noteq> INSERT" "utype u \<noteq> DELETE" by blast
  then show ?case
  proof cases
    case i
    define f where "f = fut + (if sn then 0 else 1)"
    have "\<not> leaf_needs_split ks n us f (ukey u # seen)" "f \<le> length ks"
      using Cons.prems(1) i ni unfolding ls f_def by (auto split: if_splits)
    moreover have "card (key_step u K) \<le> f"
      using in_K Cons.prems(7,8) i by (auto simp: f_def insert_absorb card_insert_if)
    ultimately show ?thesis using step seen'(1) by blast
  next
    case d
    define f where "f = (if fut \<ge> 1 then fut - (if sn then 1 else 0) else fut)"
    have "\<not> leaf_needs_split ks n us f (removeAll (ukey u) seen)" "f \<le> length ks"
      using Cons.prems(1,4) d ni unfolding ls f_def by (auto split: if_splits)
    moreover have "card (key_step u K) \<le> f"
    proof (cases sn)
      case True
      then have "card (K - {ukey u}) = card K - 1" using in_K Cons.prems(7) by simp
      then show ?thesis using Cons.prems(8) d True by (auto simp: f_def)
    next
      case False
      then show ?thesis using Cons.prems(7,8) d card_Diff1_le [of K "ukey u"] by (auto simp: f_def)
    qed
    ultimately show ?thesis using step seen'(2) by blast
  next
    case o
    have "\<not> leaf_needs_split ks n us fut seen" using Cons.prems(1) o unfolding ls by simp
    moreover have "key_step u K = K" using o by (cases "utype u") auto
    ultimately show ?thesis using step [of fut seen] Cons.prems(4,6,8) by auto
  qed
qed simp

lemma leaf_needs_split_True:
  "leaf_needs_split ks n us fut seen \<Longrightarrow> fut \<le> length ks \<Longrightarrow> length ks < fut + length us"
proof (induction ks n us fut seen rule: leaf_needs_split.induct)
  case (2 ks n u us fut seen)
  show ?case
  proof (cases "utype u \<noteq> INSERT \<and> utype u \<noteq> DELETE")
    case True
    then show ?thesis using 2 by simp
  next
    case False
    define it where "it = lower_bound ks n (ukey u)"
    define sn where "sn = (if ukey u \<in> set seen then True else (2 ^ 64 - it) mod 2 ^ 64 < n \<and> ks ! it = ukey u)"
    define f where "f = (if utype u = INSERT then fut + (if sn then 0 else 1)
                         else if fut \<ge> 1 then fut - (if sn then 1 else 0) else fut)"
    define s where "s = (if ukey u \<in> set seen then seen
                            else if utype u = INSERT then ukey u # seen
                            else removeAll (ukey u) seen)"
    note ls = leaf_needs_split.simps(2) [of ks n u us fut seen, unfolded Let_def, folded it_def, folded sn_def, folded f_def, folded s_def]
    have f: "f \<le> fut + 1" by (auto simp: f_def)
    show ?thesis
    proof (cases "f > length ks")
      case True
      then show ?thesis using f by simp
    next
      case le: False
      then have n: "leaf_needs_split ks n us f s" using 2(3) False unfolding ls by simp
      have "length ks < f + length us"
        by (rule 2(2) [OF False refl refl it_def sn_def f_def]) (use le n s_def in auto)
      then show ?thesis using f by simp
    qed
  qed
qed simp

section \<open>The median\<close>

lemma sorted_card_parts:
  fixes xs :: "'k::linorder list"
  assumes "sorted xs" "i < length xs"
  shows "card {k \<in> set xs. k \<le> xs ! i} \<le> Suc i" "card {k \<in> set xs. xs ! i < k} \<le> length xs - Suc i"
proof -
  have "{k \<in> set xs. k \<le> xs ! i} \<subseteq> set (take (Suc i) xs)"
  proof
    fix k assume "k \<in> {k \<in> set xs. k \<le> xs ! i}"
    then obtain j where j: "j < length xs" "k = xs ! j" "xs ! j \<le> xs ! i" by (auto simp: in_set_conv_nth)
    have "\<exists>q. q < Suc i \<and> q < length xs \<and> xs ! q = k"
    proof (cases "j < i")
      case True
      then show ?thesis using j by (intro exI [of _ j]) simp
    next
      case False
      then have "xs ! j = xs ! i" using j assms sorted_nth_mono [of xs i j] by simp
      then show ?thesis using j(2) assms(2) by (intro exI [of _ i]) simp
    qed
    then show "k \<in> set (take (Suc i) xs)" by (auto simp: in_set_conv_nth)
  qed
  then have "card {k \<in> set xs. k \<le> xs ! i} \<le> card (set (take (Suc i) xs))" by (intro card_mono) auto
  also have "\<dots> \<le> Suc i" by (rule le_trans [OF card_length]) simp
  finally show "card {k \<in> set xs. k \<le> xs ! i} \<le> Suc i" .
  have "{k \<in> set xs. xs ! i < k} \<subseteq> set (drop (Suc i) xs)"
  proof
    fix k assume "k \<in> {k \<in> set xs. xs ! i < k}"
    then obtain j where j: "j < length xs" "k = xs ! j" "xs ! i < xs ! j" by (auto simp: in_set_conv_nth)
    have "i < j" using j assms sorted_nth_mono [of xs j i] by (meson leD leI)
    then have "drop (Suc i) xs ! (j - Suc i) = k" "j - Suc i < length (drop (Suc i) xs)" using j by simp_all
    then show "k \<in> set (drop (Suc i) xs)" by (metis nth_mem)
  qed
  then have "card {k \<in> set xs. xs ! i < k} \<le> card (set (drop (Suc i) xs))" by (intro card_mono) auto
  also have "\<dots> \<le> length xs - Suc i" by (rule le_trans [OF card_length]) simp
  finally show "card {k \<in> set xs. xs ! i < k} \<le> length xs - Suc i" .
qed

lemma count_distinct: "distinct xs \<Longrightarrow> count (mset xs) x \<le> 1"
  by (induction xs) (auto simp: count_eq_zero_iff)

text \<open>A key that occurs at most twice is not in the middle and at the end of a long sequence.\<close>

lemma middle_not_last:
  fixes as bs :: "'k::linorder list"
  assumes "distinct as" "distinct bs" "xs = sort (as @ bs)" "i + 2 < length xs" "\<forall>k \<in> set xs. le_hi hi k"
  shows "lt_hi hi (xs ! i)"
proof (cases hi)
  case (Some h)
  have s: "sorted xs" using assms(3) by simp
  have le: "\<forall>k \<in> set xs. k \<le> h" using assms(5) Some by simp
  show ?thesis
  proof (rule ccontr)
    assume "\<not> lt_hi hi (xs ! i)"
    then have h: "xs ! i = h" using Some le assms(4) by (simp add: not_less order_antisym)
    have "drop i xs = replicate (length xs - i) h"
    proof (rule nth_equalityI)
      fix j assume "j < length (drop i xs)"
      then have "xs ! i \<le> xs ! (i + j)" "xs ! (i + j) \<le> h" "i + j < length xs"
        using s le sorted_nth_mono [of xs i "i + j"] by simp_all
      then show "drop i xs ! j = replicate (length xs - i) h ! j" using h by simp
    qed simp
    then have "mset xs = mset (take i xs) + mset (replicate (length xs - i) h)"
      by (metis append_take_drop_id mset_append)
    then have "length xs - i \<le> count (mset xs) h" by simp
    moreover have "mset xs = mset as + mset bs" using assms(3) by simp
    then have "count (mset xs) h \<le> 2"
      using count_distinct [OF assms(1), of h] count_distinct [OF assms(2), of h] by simp
    ultimately show False using assms(4) by linarith
  qed
qed simp

text \<open>The pivot of a leaf that is split for its messages.\<close>

definition leaf_median :: "'k::linorder list \<Rightarrow> 'k list \<Rightarrow> 'k" where
  "leaf_median ks us = sort (ks @ us) ! ((length ks + length us + 1) div 2 - 1)"

lemma leaf_median_ok:
  fixes ks us :: "'k::linorder list"
  assumes "distinct ks" "distinct us" "4 \<le> length ks + length us"
  shows "leaf_median ks us \<in> set ks \<union> set us"
    "card {k \<in> set ks \<union> set us. k \<le> leaf_median ks us} \<le> (length ks + length us + 1) div 2"
    "card {k \<in> set ks \<union> set us. leaf_median ks us < k} \<le> (length ks + length us) div 2"
    "\<forall>k \<in> set ks \<union> set us. le_hi hi k \<Longrightarrow> lt_hi hi (leaf_median ks us)"
proof -
  let ?xs = "sort (ks @ us)" and ?i = "(length ks + length us + 1) div 2 - 1"
  have len: "length ?xs = length ks + length us" by simp
  have i: "?i + 2 < length ?xs" "Suc ?i = (length ks + length us + 1) div 2" using assms(3) by auto
  have si: "set ?xs = set ks \<union> set us" by simp
  show "leaf_median ks us \<in> set ks \<union> set us"
    unfolding leaf_median_def si [symmetric] by (rule nth_mem) (use i in linarith)
  note c = sorted_card_parts [of ?xs ?i, unfolded si, folded leaf_median_def]
  show "card {k \<in> set ks \<union> set us. k \<le> leaf_median ks us} \<le> (length ks + length us + 1) div 2"
    using c(1) i by simp
  show "card {k \<in> set ks \<union> set us. leaf_median ks us < k} \<le> (length ks + length us) div 2"
    by (rule le_trans [OF c(2)]) (use i len in simp_all)
  show "\<forall>k \<in> set ks \<union> set us. le_hi hi k \<Longrightarrow> lt_hi hi (leaf_median ks us)"
    unfolding leaf_median_def using middle_not_last [OF assms(1,2) refl i(1)] si by simp
qed

section \<open>Runs\<close>

fun side :: "nat \<Rightarrow> ('k::linorder \<times> nat) option \<Rightarrow> ('k, 'v) upsert \<Rightarrow> nat" where
  "side c None u = c"
| "side c (Some (m, r)) u = (if ukey u > m then r else c)"

lemma apply_leaf_message_run:
  assumes "xst s nd S N" "side c spl u \<in> S" "nd (side c spl u) = Some (BeLeaf l)" "bleaf_ok C l"
    "card (key_step u (set (leaf_keys l))) \<le> LEAF_N C" "\<not> debugBuild C"
  shows "\<exists>s'. apply_leaf_message C c spl u s = Inr s' \<and> xst s' (nd(side c spl u \<mapsto> BeLeaf (leaf_apply u l))) S N"
proof -
  let ?t = "side c spl u" and ?i = "lower_bound (keys l) (lsize l) (ukey u)"
  note k = leaf_okD [OF assms(4)]
  have t: "(case spl of None \<Rightarrow> c | Some (m, r) \<Rightarrow> if ukey u > m then r else c) = ?t"
    by (cases spl) auto
  have put: "\<exists>s'. ps_put ?t (BeLeaf l') s = Inr s' \<and> xst s' (nd(?t \<mapsto> BeLeaf l')) S N" for l'
    using xst_put [OF assms(1,2)] by blast
  have same: "nd(?t \<mapsto> BeLeaf l) = nd" using assms(3) by auto
  note get = be_leaf_run [where p = ?t, OF assms(1-3)]
  note f = leaf_found [OF assms(4) refl, of "ukey u"]
  show ?thesis
  proof (cases "?i \<ge> lsize l \<or> keys l ! ?i \<noteq> ukey u")
    case True
    then have ni: "ukey u \<notin> set (leaf_keys l)" using f(2) by auto
    show ?thesis
    proof (cases "utype u")
      case INSERT
      have "lsize l < LEAF_N C" using INSERT assms(5) ni leaf_card [OF assms(4)] by simp
      then have "lsize l < length (keys l)" "?i < length (keys l)" using f(1) k(1) by simp_all
      then show ?thesis using put [of "leaf_insert ?i (ukey u) (uval u) l"] INSERT True assms(6) get
        by (auto simp: apply_leaf_message_def t leaf_apply_def Let_def)
    qed (use True same assms(1) get in \<open>simp_all add: apply_leaf_message_def t leaf_apply_def Let_def\<close>)
  next
    case False
    then show ?thesis
      using put same assms(1) get
      by (cases "utype u") (auto simp: apply_leaf_message_def t leaf_apply_def Let_def)
  qed
qed

lemma fold_if: "fold f (if P then u # us else us) x = fold f us (if P then f u x else x)"
  by simp

lemma apply_leaf_messages_run:
  assumes "xst s nd S N" "\<forall>u \<in> set us. side c spl u \<in> T" "T \<subseteq> S" "\<not> debugBuild C"
    "\<forall>t \<in> T. nd t = Some (BeLeaf (lf t)) \<and> bleaf_ok C (lf t) \<and>
       fits (LEAF_N C) (set (leaf_keys (lf t))) (filter (\<lambda>u. side c spl u = t) us)"
  shows "\<exists>s'. apply_leaf_messages C c spl us s = Inr s' \<and>
           xst s' (\<lambda>x. if x \<in> T then Some (BeLeaf (fold leaf_apply (filter (\<lambda>u. side c spl u = x) us) (lf x))) else nd x) S N"
  using assms
proof (induction us arbitrary: s nd lf)
  case Nil
  have "(\<lambda>x. if x \<in> T then Some (BeLeaf (lf x)) else nd x) = nd" using Nil.prems(5) by auto
  then show ?case using Nil.prems(1) by (simp only: filter.simps fold_simps apply_leaf_messages.simps) blast
next
  case (Cons u us)
  let ?t = "side c spl u"
  define l where "l = lf ?t"
  have t: "?t \<in> T" "?t \<in> S" using Cons.prems(2,3) by auto
  have lt: "nd ?t = Some (BeLeaf l)" "bleaf_ok C l"
      "fits (LEAF_N C) (set (leaf_keys l)) (u # filter (\<lambda>v. side c spl v = ?t) us)"
    using Cons.prems(5) t(1) unfolding l_def by auto
  have card: "card (key_step u (set (leaf_keys l))) \<le> LEAF_N C" using lt(3) by simp
  obtain s1 where s1: "apply_leaf_message C c spl u s = Inr s1" "xst s1 (nd(?t \<mapsto> BeLeaf (leaf_apply u l))) S N"
    using apply_leaf_message_run [OF Cons.prems(1) t(2) lt(1,2) card Cons.prems(4)] by blast
  note a = leaf_apply_ok [OF lt(2) card]
  define lf' where "lf' = lf(?t := leaf_apply u l)"
  have ok: "\<forall>x \<in> T. (nd(?t \<mapsto> BeLeaf (leaf_apply u l))) x = Some (BeLeaf (lf' x)) \<and> bleaf_ok C (lf' x) \<and>
       fits (LEAF_N C) (set (leaf_keys (lf' x))) (filter (\<lambda>u. side c spl u = x) us)"
  proof
    fix x assume x: "x \<in> T"
    show "(nd(?t \<mapsto> BeLeaf (leaf_apply u l))) x = Some (BeLeaf (lf' x)) \<and> bleaf_ok C (lf' x) \<and>
       fits (LEAF_N C) (set (leaf_keys (lf' x))) (filter (\<lambda>u. side c spl u = x) us)"
    proof (cases "x = ?t")
      case True
      then show ?thesis using a(1,3) lt(3) by (simp add: lf'_def)
    next
      case False
      then show ?thesis using Cons.prems(5) x by (auto simp: lf'_def split: if_splits)
    qed
  qed
  obtain s' where s': "apply_leaf_messages C c spl us s1 = Inr s'"
      "xst s' (\<lambda>x. if x \<in> T then Some (BeLeaf (fold leaf_apply (filter (\<lambda>u. side c spl u = x) us) (lf' x)))
                   else (nd(?t \<mapsto> BeLeaf (leaf_apply u l))) x) S N"
    using Cons.IH [OF s1(2) _ Cons.prems(3,4) ok] Cons.prems(2) by auto
  have "(\<lambda>x. if x \<in> T then Some (BeLeaf (fold leaf_apply (filter (\<lambda>u. side c spl u = x) us) (lf' x)))
                   else (nd(?t \<mapsto> BeLeaf (leaf_apply u l))) x) =
        (\<lambda>x. if x \<in> T then Some (BeLeaf (fold leaf_apply (filter (\<lambda>u. side c spl u = x) (u # us)) (lf x))) else nd x)"
    using t(1) by (auto simp: lf'_def l_def)
  then show ?case using s' s1(1) by simp
qed

section \<open>A leaf in the tree\<close>

lemma leaf_evolves:
  assumes X: "X c = Some (BeLeaf l, b)" and g: "good C 0 X lo hi c" and f: "fits (LEAF_N C) (set (leaf_keys l)) b"
  shows "evolves C 0 X (X(c \<mapsto> (BeLeaf (fold leaf_apply b l), []))) lo hi c" (is "evolves C 0 X ?X lo hi c")
proof -
  have ok: "bleaf_ok C l" "\<forall>k \<in> set (leaf_keys l). within lo hi k" "inbox_ok C lo hi b"
    using g X by (auto simp: good_def)
  have up: "upserts_ok b" "\<forall>u \<in> set b. within lo hi (ukey u)" using ok(3) by (auto simp: inbox_ok_def)
  note a = leaf_applies_ok [OF ok(1) f]
  have "be_ok C 0 ?X lo hi c" using a(1,3) ok(2) up(2) by (auto simp: inbox_ok_def upserts_ok_def)
  moreover have "same_at 0 X c ?X c key" for key
    using X a(2) [of key] foldr_effects [OF up(1), of key] by (simp add: same_at_def look_def stamps_def)
  moreover have "grows X {c} ?X {c}" using X by (auto simp: grows_def)
  ultimately show ?thesis by (simp add: evolves_def good_def ordered_def)
qed

text \<open>A leaf with messages that are going to fit.\<close>

definition leaf_job :: "('k::linorder, 'v) be_config \<Rightarrow> ('k, 'v) be_state \<Rightarrow> nat \<Rightarrow> bool" where
  "leaf_job C X c \<longleftrightarrow> (\<exists>l b. X c = Some (BeLeaf l, b) \<and> fits (LEAF_N C) (set (leaf_keys l)) b)"

text \<open>What the code relies on in a configuration.\<close>

definition config_ok :: "('k::linorder, 'v) be_config \<Rightarrow> bool" where
  "config_ok C \<longleftrightarrow>
     3 \<le> LEAF_N C \<and> LEAF_N C < 2 ^ 63 \<and> 3 \<le> INNER_N C \<and> odd (INNER_N C) \<and> 1 \<le> INNER_B_N C \<and>
     (\<forall>k. zeroKey C \<le> k \<and> k \<le> sizeMaxKey C) \<and> std_ok C \<and> \<not> debugBuild C"

lemma config_okD:
  assumes "config_ok C"
  shows "3 \<le> LEAF_N C" "LEAF_N C < 2 ^ 63" "3 \<le> INNER_N C" "odd (INNER_N C)" "1 \<le> INNER_B_N C"
    "zeroKey C \<le> k" "k \<le> sizeMaxKey C" "std_ok C" "\<not> debugBuild C"
  using assms unfolding config_ok_def by blast+

lemma leaf_split_fits:
  assumes C: "config_ok C" and ok: "bleaf_ok C l" "upserts_ok b"
    and n: "LEAF_N C < lsize l + length b" "length b \<le> MAX_FLUSH_SIZE C"
    and m_def: "m = leaf_median (leaf_keys l) (map ukey b)"
  shows "findMedianKey (zeroKey C) (sizeMaxKey C) (keys l) (lsize l) (map ukey b) (length b) = Inr m" "2 \<le> lsize l"
    "fits (LEAF_N C) (set (leaf_keys (bleaf_left m l))) (filter (\<lambda>u. ukey u \<le> m) b)"
    "fits (LEAF_N C) (set (leaf_keys (bleaf_right C m l))) (filter (\<lambda>u. m < ukey u) b)"
    "m \<in> set (leaf_keys l) \<union> ukey ` set b"
    "\<forall>k \<in> set (leaf_keys l) \<union> ukey ` set b. le_hi hi k \<Longrightarrow> lt_hi hi m"
proof -
  note c = config_okD [OF C] and k = leaf_okD [OF ok(1)]
  note s = bleaf_split_ok [OF ok(1) refl, of m]
  have L: "lsize l \<le> LEAF_N C" "length b + 1 \<le> LEAF_N C" using k(3) n(2) c(1) by (simp_all add: MAX_FLUSH_SIZE_def)
  show "2 \<le> lsize l" using n(1) L(2) by linarith
  have d: "distinct (leaf_keys l)" "distinct (map ukey b)" "sorted (map ukey b)"
    using k(4) ok(2) by (simp_all add: upserts_ok_def strict_sorted_iff)
  have "4 \<le> length (leaf_keys l) + length (map ukey b)" using n(1) c(1) k(5) by simp
  note md = leaf_median_ok [OF d(1,2) this, folded m_def, unfolded length_map k(5)]
  show "findMedianKey (zeroKey C) (sizeMaxKey C) (keys l) (lsize l) (map ukey b) (length b) = Inr m"
    using findMedianKey_ok [of "lsize l" "keys l" "length b" "map ukey b" "zeroKey C" "sizeMaxKey C"] k c(6,7) d(3)
      L(1) \<open>2 \<le> lsize l\<close>
    by (simp add: m_def leaf_median_def leaf_keys_def)
  have img: "set (map ukey b) = ukey ` set b" by simp
  show "m \<in> set (leaf_keys l) \<union> ukey ` set b" using md(1) unfolding img .
  show "\<forall>k \<in> set (leaf_keys l) \<union> ukey ` set b. le_hi hi k \<Longrightarrow> lt_hi hi m" using md(4) [of hi] unfolding img .
  have b: "(lsize l + length b + 1) div 2 \<le> LEAF_N C" "(lsize l + length b) div 2 \<le> LEAF_N C" using L by linarith+
  show "fits (LEAF_N C) (set (leaf_keys (bleaf_left m l))) (filter (\<lambda>u. ukey u \<le> m) b)"
  proof (rule fits_mono)
    have "set (leaf_keys (bleaf_left m l)) \<union> ukey ` set (filter (\<lambda>u. ukey u \<le> m) b) \<subseteq>
        {k \<in> set (leaf_keys l) \<union> set (map ukey b). k \<le> m}" unfolding s(3) by auto
    then have "card (set (leaf_keys (bleaf_left m l)) \<union> ukey ` set (filter (\<lambda>u. ukey u \<le> m) b)) \<le>
        card {k \<in> set (leaf_keys l) \<union> set (map ukey b). k \<le> m}" by (rule card_mono [rotated]) simp
    then show "card (set (leaf_keys (bleaf_left m l)) \<union> ukey ` set (filter (\<lambda>u. ukey u \<le> m) b)) \<le> LEAF_N C"
      using md(2) b(1) by linarith
  qed simp
  show "fits (LEAF_N C) (set (leaf_keys (bleaf_right C m l))) (filter (\<lambda>u. m < ukey u) b)"
  proof (rule fits_mono)
    have "set (leaf_keys (bleaf_right C m l)) \<union> ukey ` set (filter (\<lambda>u. m < ukey u) b) \<subseteq>
        {k \<in> set (leaf_keys l) \<union> set (map ukey b). m < k}" unfolding s(4) by auto
    then have "card (set (leaf_keys (bleaf_right C m l)) \<union> ukey ` set (filter (\<lambda>u. m < ukey u) b)) \<le>
        card {k \<in> set (leaf_keys l) \<union> set (map ukey b). m < k}" by (rule card_mono [rotated]) simp
    then show "card (set (leaf_keys (bleaf_right C m l)) \<union> ukey ` set (filter (\<lambda>u. m < ukey u) b)) \<le> LEAF_N C"
      using md(3) b(2) by linarith
  qed simp
qed

end
