(* ===== verification/BeKid.thy ===== *)
theory BeKid
  imports BeLeaves
begin

text \<open>
  Messages that reach an inner node. Either they are merged into its buffer, or blocks of
  messages are passed on to the children: they become their inboxes, until the traversal
  reaches them. In both cases every key keeps its value.
\<close>

section \<open>A new inbox\<close>

lemma good_inbox:
  assumes g: "good C h X lo hi i" and X: "X i = Some (x, [])" and X': "X' i = Some (x, b)"
    and same: "\<And>j. j \<in> set (be_ids h X i) \<Longrightarrow> j \<noteq> i \<Longrightarrow> X' j = X j" and b: "inbox_ok C lo hi b"
    and ord: "\<And>key. within lo hi key \<Longrightarrow> ordered (msgs_for key b @ trail h X key i)"
  shows "good C h X' lo hi i" "be_ids h X' i = be_ids h X i" "trail h X' key i = msgs_for key b @ trail h X key i"
    "base h X' key i = base h X key i"
proof -
  have bo: "be_ok C h X lo hi i" "distinct (be_ids h X i)" using g by (auto simp: good_def)
  have main: "be_ok C h X' lo hi i \<and> be_ids h X' i = be_ids h X i \<and>
      (\<forall>key. trail h X' key i = msgs_for key b @ trail h X key i \<and> base h X' key i = base h X key i)"
  proof (cases h)
    case 0
    then show ?thesis using bo(1) X X' b by (auto simp: inbox_def)
  next
    case (Suc h')
    obtain n where n: "x = BeInner n" using bo(1) X Suc by auto
    have Xn: "X i = Some (BeInner n, [])" "X' i = Some (BeInner n, b)" using X X' n by simp_all
    note o = be_ok_inner [OF bo(1) [unfolded Suc] Xn(1)]
    note k = be_inner_okD [OF o(1)]
    have ids: "be_ids h X i = i # concat (map (be_ids h' X) (bkids n))" using Xn(1) Suc by simp
    have cong: "X' j = X j" if "c \<in> set (bkids n)" "j \<in> set (be_ids h' X c)" for c j
    proof (rule same)
      show "j \<in> set (be_ids h X i)" using that ids by auto
      then show "j \<noteq> i" using that bo(2) ids by auto
    qed
    have sub: "be_ok C h' X' (lo_at lo (bseps n) j) (hi_at (bseps n) hi j) (bkids n ! j) \<and>
        be_ids h' X' (bkids n ! j) = be_ids h' X (bkids n ! j) \<and>
        (\<forall>key. trail h' X' key (bkids n ! j) = trail h' X key (bkids n ! j) \<and>
          base h' X' key (bkids n ! j) = base h' X key (bkids n ! j))" if j: "j \<le> innsize n" for j
      using be_cong [OF o(5) [OF j] cong [OF kid_in(1) [OF o(1) j]]] by blast
    have "map (be_ids h' X') (bkids n) = map (be_ids h' X) (bkids n)"
      using sub k(6) by (intro nth_equalityI) (auto simp: less_Suc_eq_le)
    then have "be_ids h X' i = be_ids h X i" using ids Xn(2) Suc by (simp del: map_eq_conv)
    moreover have "be_ok C h X' lo hi i" using Xn(2) Suc o b sub by auto
    moreover have "inbox X' i = b" "inbox X i = []" using Xn by (auto simp: inbox_def)
    ultimately show ?thesis using Xn Suc sub [OF kid_in(3) [OF o(1)]] by simp
  qed
  then show "be_ids h X' i = be_ids h X i" "trail h X' key i = msgs_for key b @ trail h X key i"
    "base h X' key i = base h X key i" by blast+
  show "good C h X' lo hi i" using main bo(2) ord by (auto simp: good_def)
qed

section \<open>Messages for the children\<close>

definition pos :: "nat list \<Rightarrow> nat \<Rightarrow> nat" where
  "pos cs x = length (takeWhile (\<lambda>y. y \<noteq> x) cs)"

lemma pos_nth:
  assumes "distinct cs" "j < length cs"
  shows "pos cs (cs ! j) = j"
  unfolding pos_def
  by (rule length_takeWhile_eqI) (use assms in \<open>auto simp: nth_eq_iff_index_eq\<close>)

definition deliver :: "nat list \<Rightarrow> ('k, 'v) message_map \<Rightarrow> ('k, 'v) be_state \<Rightarrow> ('k, 'v) be_state" where
  "deliver cs m X = (\<lambda>x. if x \<in> set cs then map_option (\<lambda>(y, b). (y, entry m (pos cs x))) (X x) else X x)"

lemma nds_deliver [simp]: "nds (deliver cs m X) = nds X"
proof
  fix x show "nds (deliver cs m X) x = nds X x" by (cases "X x") (auto simp: nds_def deliver_def)
qed

lemma dom_deliver [simp]: "dom (deliver cs m X) = dom X"
  using nds_deliver [of cs m X] by (metis nds_simps(1))

lemma deliver_out: "x \<notin> set cs \<Longrightarrow> deliver cs m X x = X x"
  by (simp add: deliver_def)

lemma deliver_kid:
  "distinct cs \<Longrightarrow> j < length cs \<Longrightarrow> X (cs ! j) = Some (y, b) \<Longrightarrow> deliver cs m X (cs ! j) = Some (y, entry m j)"
  by (simp add: deliver_def pos_nth)

lemma deliver_nothing:
  assumes "\<forall>x \<in> set cs. inbox X x = []"
  shows "deliver cs [] X = X"
proof
  fix x
  show "deliver cs [] X x = X x" using assms by (cases "X x") (auto simp: deliver_def inbox_def)
qed

lemma length_le_1_ordered: "length M \<le> 1 \<Longrightarrow> ordered M"
  by (cases M) (auto simp: ordered_def)

lemma concat_disjoint:
  assumes "distinct (concat (map f ys))" "\<And>x. x \<in> set (f x)"
  shows "distinct ys" "x \<in> set ys \<Longrightarrow> y \<in> set ys \<Longrightarrow> x \<noteq> y \<Longrightarrow> set (f x) \<inter> set (f y) = {}"
proof -
  have "distinct ys \<and> (\<forall>x \<in> set ys. \<forall>y \<in> set ys. x \<noteq> y \<longrightarrow> set (f x) \<inter> set (f y) = {})"
    using assms(1)
  proof (induction ys)
    case (Cons z ys)
    then have d: "set (f z) \<inter> \<Union> (set ` f ` set ys) = {}" "distinct (concat (map f ys))" by auto
    then have "z \<notin> set ys" using assms(2) [of z] by auto
    then show ?case using Cons.IH [OF d(2)] d(1) by auto
  qed simp
  then show "distinct ys" "x \<in> set ys \<Longrightarrow> y \<in> set ys \<Longrightarrow> x \<noteq> y \<Longrightarrow> set (f x) \<inter> set (f y) = {}" by blast+
qed

lemma distinct_kids:
  assumes "good C (Suc h) X lo hi c" "X c = Some (BeInner n, b)"
  shows "distinct (bkids n)" "c \<notin> set (bkids n)" "set (bkids n) \<subseteq> set (be_ids (Suc h) X c)" "set (bkids n) \<subseteq> dom X"
proof -
  note k = good_kids [OF assms]
  have d: "distinct (concat (map (be_ids h X) (bkids n)))" using k(1) by (simp add: fgood_def fids_kfam)
  show "distinct (bkids n)" by (rule concat_disjoint(1) [OF d in_be_ids])
  show "c \<notin> set (bkids n)" using k(2) in_be_ids by (fastforce simp: fids_kfam)
  show sub: "set (bkids n) \<subseteq> set (be_ids (Suc h) X c)" using assms(2) in_be_ids by fastforce
  show "set (bkids n) \<subseteq> dom X" using sub be_ids_dom assms(1) unfolding good_def by blast
qed

text \<open>
  The messages of the node and of its inbox are replaced by those of a new buffer and those
  that the children get.
\<close>

lemma push_evolves:
  assumes g: "good C (Suc h) X lo hi c" and X: "X c = Some (BeInner n, b)"
    and quiet: "\<forall>x \<in> set (bkids n). inbox X x = []"
    and n': "be_inner_ok C n'" "bseps n' = bseps n" "bkids n' = bkids n" "\<forall>u \<in> set (bmsgs n'). within lo hi (ukey u)"
    and m: "\<And>j. j \<le> innsize n \<Longrightarrow> inbox_ok C (lo_at lo (bseps n) j) (hi_at (bseps n) hi j) (entry m j)"
    and eff: "\<And>key x. foldr effect (msgs_for key (bmsgs n') @ msgs_for key (entry m (route (bseps n) key))) x =
                foldr effect (msgs_for key b @ msgs_for key (bmsgs n)) x"
    and one: "\<And>key. length (msgs_for key (bmsgs n') @ msgs_for key (entry m (route (bseps n) key))) \<le> 1"
    and ts: "\<And>key. timeStamp ` set (msgs_for key (bmsgs n') @ msgs_for key (entry m (route (bseps n) key))) \<subseteq>
                timeStamp ` set (msgs_for key b @ msgs_for key (bmsgs n))"
    and X'_def: "X' = (deliver (bkids n) m X)(c \<mapsto> (BeInner n', []))"
  shows "evolves C (Suc h) X X' lo hi c" "be_ids (Suc h) X' c = be_ids (Suc h) X c"
    "\<And>x. x \<notin> insert c (set (bkids n)) \<Longrightarrow> X' x = X x"
    "\<And>j. j \<le> innsize n \<Longrightarrow> inbox X' (bkids n ! j) = entry m j" "nds X' = (nds X)(c \<mapsto> BeInner n')"
proof -
  note k = good_kids [OF g X] and d = distinct_kids [OF g X]
  note z = be_inner_okD [OF k(3)]
  let ?K = "kfam h lo (bseps n) (bkids n) hi"
  have X'c: "X' c = Some (BeInner n', [])" by (simp add: X'_def)
  show out: "X' x = X x" if "x \<notin> insert c (set (bkids n))" for x
    using that by (simp add: X'_def deliver_out)
  show "nds X' = (nds X)(c \<mapsto> BeInner n')" by (simp add: X'_def)
  have kid: "\<exists>y. X (bkids n ! j) = Some (y, []) \<and> X' (bkids n ! j) = Some (y, entry m j)" if j: "j \<le> innsize n" for j
  proof -
    have jl: "j < length (bkids n)" "bkids n ! j \<in> set (bkids n)" using j z(6) by simp_all
    then obtain y b' where y: "X (bkids n ! j) = Some (y, b')" using d(4) by fastforce
    then have "b' = []" using bspec [OF quiet jl(2)] by simp
    moreover have "X' (bkids n ! j) = Some (y, entry m j)"
      using deliver_kid [where cs = "bkids n" and X = X and m = m, OF d(1) jl(1) y] jl(2) d(2) by (auto simp: X'_def)
    ultimately show ?thesis using y by blast
  qed
  then show inb: "inbox X' (bkids n ! j) = entry m j" if "j \<le> innsize n" for j
    using that by (fastforce simp: inbox_def)
  have sub: "good C h X' (lo_at lo (bseps n) j) (hi_at (bseps n) hi j) (bkids n ! j) \<and>
      be_ids h X' (bkids n ! j) = be_ids h X (bkids n ! j) \<and>
      (\<forall>key. trail h X' key (bkids n ! j) = msgs_for key (entry m j) @ trail h X key (bkids n ! j) \<and>
        base h X' key (bkids n ! j) = base h X key (bkids n ! j))" if j: "j \<le> innsize n" for j
  proof -
    obtain y where y: "X (bkids n ! j) = Some (y, [])" "X' (bkids n ! j) = Some (y, entry m j)" using kid [OF j] by blast
    have jl: "j < length (bkids n)" using j z(6) by simp
    have gj: "good C h X (lo_at lo (bseps n) j) (hi_at (bseps n) hi j) (bkids n ! j)"
      by (rule fgoodD [OF k(1) kfam_in [OF jl]])
    have same: "X' x = X x" if x: "x \<in> set (be_ids h X (bkids n ! j))" "x \<noteq> bkids n ! j" for x
    proof (rule out)
      have "x \<in> set (fids X ?K)" using x(1) fids_in [OF kfam_in [OF jl]] by blast
      then have "x \<noteq> c" using k(2) by blast
      moreover have "x \<notin> set (bkids n)"
      proof
        assume "x \<in> set (bkids n)"
        moreover have "distinct (concat (map (be_ids h X) (bkids n)))" using k(1) by (simp add: fgood_def fids_kfam)
        ultimately show False using concat_disjoint(2) [where f = "be_ids h X" and ys = "bkids n" and x = x and y = "bkids n ! j", OF _ in_be_ids] jl x in_be_ids [of x h X]
          by (auto simp del: in_be_ids)
      qed
      ultimately show "x \<notin> insert c (set (bkids n))" by blast
    qed
    have ord: "ordered (msgs_for key (entry m j) @ trail h X key (bkids n ! j))"
      if w: "within (lo_at lo (bseps n) j) (hi_at (bseps n) hi j) key" for key
    proof -
      have r: "route (bseps n) key = j" by (rule within_kid [OF k(3) j w])
      have "within lo hi key" by (rule within_part [OF w _ k(4)]) (use j z(5) in simp)
      then have o: "ordered ((msgs_for key b @ msgs_for key (bmsgs n)) @ trail h X key (bkids n ! j))"
        using k(7) [of key] r by simp
      have "length (msgs_for key (entry m j)) \<le> 1" using one [of key] r by simp
      moreover have "timeStamp ` set (msgs_for key (entry m j)) \<subseteq> timeStamp ` set (msgs_for key b @ msgs_for key (bmsgs n))"
        using ts [of key] r by auto
      ultimately show ?thesis using o length_le_1_ordered unfolding ordered_append by fastforce
    qed
    show ?thesis
      using good_inbox [where X = X and X' = X' and i = "bkids n ! j", OF gj y same m [OF j] ord] by blast
  qed
  have ids: "map (be_ids h X') (bkids n) = map (be_ids h X) (bkids n)"
    using sub z(6) by (intro nth_equalityI) (auto simp: less_Suc_eq_le)
  have fids: "fids X' ?K = fids X ?K" by (simp only: fids_kfam ids)
  show same_ids: "be_ids (Suc h) X' c = be_ids (Suc h) X c" using X X'c ids n'(3) by (simp del: map_eq_conv)
  have fK: "fgood C X' ?K"
  proof -
    have "\<forall>(h', lo', hi', i) \<in> set ?K. good C h' X' lo' hi' i"
      using sub z(6) by (auto simp: kfam_set less_Suc_eq_le)
    then show ?thesis using k(1) fids by (simp add: fgood_def)
  qed
  have tr: "trail (Suc h) X' key c = msgs_for key (bmsgs n') @ msgs_for key (entry m (route (bseps n) key)) @
      trail h X key (bkids n ! route (bseps n) key)"
      "base (Suc h) X' key c = base (Suc h) X key c" for key
    using sub [OF kid_in(3) [OF k(3), of key]] X X'c n'(2,3) by (simp_all add: msgs_for_def)
  have old: "trail (Suc h) X key c = (msgs_for key b @ msgs_for key (bmsgs n)) @ trail h X key (bkids n ! route (bseps n) key)"
    for key using X by simp
  have same: "same_at (Suc h) X c X' c key" for key
    unfolding same_at_def look_def stamps_def old tr
    using eff [of key] ts [of key] by (auto simp del: base.simps)
  have good: "good C (Suc h) X' lo hi c"
  proof (rule good_node [where X = X' and i = c, OF X'c n'(1)])
    show "\<forall>p \<in> set (bseps n'). gt_lo lo p \<and> lt_hi hi p" using k(4) n'(2) by simp
    show "\<forall>u \<in> set (bmsgs n'). within lo hi (ukey u)" by (rule n'(4))
    show "inbox_ok C lo hi []" by (simp add: inbox_ok_def upserts_ok_def)
    show "fgood C X' (kfam h lo (bseps n') (bkids n') hi)" using fK n'(2,3) by simp
    show "c \<notin> set (fids X' (kfam h lo (bseps n') (bkids n') hi))" using k(2) fids n'(2,3) by simp
    fix key assume w: "within lo hi key"
    have "ordered ((msgs_for key b @ msgs_for key (bmsgs n)) @ trail h X key (bkids n ! route (bseps n) key))"
      using k(7) [OF w] by simp
    then have "ordered ((msgs_for key (bmsgs n') @ msgs_for key (entry m (route (bseps n) key))) @
        trail h X key (bkids n ! route (bseps n) key))"
      using ts [of key] length_le_1_ordered [OF one [of key]] unfolding ordered_append by fastforce
    moreover have "trail h X' key (bkids n' ! route (bseps n') key) =
        msgs_for key (entry m (route (bseps n) key)) @ trail h X key (bkids n ! route (bseps n) key)"
      using sub [OF kid_in(3) [OF k(3), of key]] n'(2,3) by simp
    ultimately show "ordered (msgs_for key [] @ msgs_for key (bmsgs n') @ trail h X' key (bkids n' ! route (bseps n') key))"
      by simp
  qed
  have "grows X (set (be_ids (Suc h) X c)) X' (set (be_ids (Suc h) X' c))"
    unfolding same_ids grows_def
  proof (intro conjI ballI)
    fix x assume "x \<in> dom X - set (be_ids (Suc h) X c)"
    then have "x \<notin> insert c (set (bkids n))" using d(3) in_be_ids [of c "Suc h" X] by blast
    then show "X' x = X x" by (rule out)
  qed (auto simp: X'_def)
  then show "evolves C (Suc h) X X' lo hi c" using good same by (simp add: evolves_def)
qed

section \<open>A node with room\<close>

lemma inbox_newer:
  assumes "good C (Suc h) X lo hi c" "X c = Some (BeInner n, b)"
  shows "newer (bmsgs n) b"
  unfolding newer_def
proof (intro ballI impI)
  fix u v assume uv: "u \<in> set (bmsgs n)" "v \<in> set b" "ukey u = ukey v"
  note k = good_kids [OF assms]
  have "within lo hi (ukey v)" using k(6) uv(2) by (simp add: inbox_ok_def)
  then have "ordered (msgs_for (ukey v) b @ msgs_for (ukey v) (bmsgs n) @ trail h X (ukey v) (bkids n ! route (bseps n) (ukey v)))"
    by (rule k(7))
  moreover have "v \<in> set (msgs_for (ukey v) b)" "u \<in> set (msgs_for (ukey v) (bmsgs n))"
    using uv by (simp_all add: msgs_for_set)
  ultimately show "timeStamp u < timeStamp v" unfolding ordered_append by auto
qed

lemma inbox_okD:
  assumes "inbox_ok C lo hi b"
  shows "upserts_ok b" "length b \<le> MAX_FLUSH_SIZE C" "u \<in> set b \<Longrightarrow> within lo hi (ukey u)"
  using assms unfolding inbox_ok_def by blast+

lemma inbox_ok_Nil [simp]: "inbox_ok C lo hi []"
  by (simp add: inbox_ok_def upserts_ok_def)

lemma one_message: "upserts_ok us \<Longrightarrow> length (msgs_for key us) \<le> 1"
  using filter_one [of us key] by auto

lemma keys_within:
  assumes "ukey ` set ms = ukey ` set us \<union> ukey ` set vs" "\<forall>u \<in> set us. within lo hi (ukey u)"
    "\<forall>u \<in> set vs. within lo hi (ukey u)"
  shows "u \<in> set ms \<Longrightarrow> within lo hi (ukey u)"
proof -
  assume "u \<in> set ms"
  then have "ukey u \<in> ukey ` set us \<union> ukey ` set vs" using assms(1) by blast
  then show ?thesis using assms(2,3) by auto
qed

lemma merge_evolves:
  fixes X :: "('k::linorder, 'v::semigroup_add) be_state"
  assumes g: "good C (Suc h) X lo hi c" and X: "X c = Some (BeInner n, b)"
    and quiet: "\<forall>x \<in> set (bkids n). inbox X x = []"
    and room: "length b \<le> INNER_B_N C - usize (ubuf n)"
  shows "\<exists>ms ups n'. mergeUpserts (bmsgs n) b = Inr ms \<and> write_front ms (upserts (ubuf n)) = Inr ups \<and>
           upserts_ok ms \<and> n' = n\<lparr>ubuf := \<lparr>upserts = ups, usize = length ms\<rparr>\<rparr> \<and>
           evolves C (Suc h) X (X(c \<mapsto> (BeInner n', []))) lo hi c"
proof -
  note k = good_kids [OF g X]
  note z = be_inner_okD [OF k(3)] and i = inbox_okD [OF k(6)]
  obtain ms where ms: "mergeUpserts (bmsgs n) b = Inr ms" "upserts_ok ms" "length ms \<le> usize (ubuf n) + length b"
      "ukey ` set ms = ukey ` set (bmsgs n) \<union> ukey ` set b"
      "\<forall>key x. foldr effect (msgs_for key ms) x = foldr effect (msgs_for key b @ msgs_for key (bmsgs n)) x"
      "\<forall>key. timeStamp ` set (msgs_for key ms) \<subseteq> timeStamp ` (set (msgs_for key b) \<union> set (msgs_for key (bmsgs n)))"
    using merge_key [OF z(9) i(1) inbox_newer [OF g X]] z(10) by auto
  have len: "length ms \<le> INNER_B_N C" using ms(3) room z(8) by linarith
  define ups where "ups = ms @ drop (length ms) (upserts (ubuf n))"
  have ups: "write_front ms (upserts (ubuf n)) = Inr ups" using len z(7) by (simp add: write_front_def ups_def)
  define n' where "n' = n\<lparr>ubuf := \<lparr>upserts = ups, usize = length ms\<rparr>\<rparr>"
  have n': "bmsgs n' = ms" "bseps n' = bseps n" "bkids n' = bkids n"
    by (simp_all add: n'_def bmsgs_def bseps_def bkids_def ups_def)
  have ok': "be_inner_ok C n'"
    using k(3) ms(2) len z(7) n' unfolding be_inner_ok_def by (simp add: n'_def ups_def)
  have w: "\<forall>u \<in> set (bmsgs n'). within lo hi (ukey u)"
    using keys_within [OF ms(4) k(5)] i(3) n'(1) by blast
  have "evolves C (Suc h) X ((deliver (bkids n) [] X)(c \<mapsto> (BeInner n', []))) lo hi c"
  proof (rule push_evolves(1) [where X = X and c = c, OF g X quiet ok' n'(2,3) w])
    show "length (msgs_for key (bmsgs n') @ msgs_for key (entry [] (route (bseps n) key))) \<le> 1" for key
      using one_message [OF ms(2), of key] n'(1) by simp
  qed (use ms(5,6) n'(1) in auto)
  then have "evolves C (Suc h) X (X(c \<mapsto> (BeInner n', []))) lo hi c"
    by (simp only: deliver_nothing [OF quiet])
  then show ?thesis using ms(1,2) ups n'_def by blast
qed

lemma nds_upd_out: "p \<noteq> c \<Longrightarrow> (nds (X(c \<mapsto> (x, b))))(p \<mapsto> z) = (nds X)(p \<mapsto> z, c \<mapsto> x)"
  by (simp add: fun_upd_twist)

lemma store_messages_run:
  fixes X :: "('k::linorder, 'v::semigroup_add) be_state"
  assumes g: "good C (Suc h) X lo hi c" and X: "X c = Some (BeInner n, b)"
    and quiet: "\<forall>x \<in> set (bkids n). inbox X x = []"
    and room: "length b \<le> INNER_B_N C - usize (ubuf n)"
    and s: "xst s ((nds X)(p \<mapsto> z)) S N" "c \<in> S" "p \<noteq> c"
  shows "\<exists>s' x. store_messages c b s = Inr s' \<and> evolves C (Suc h) X (X(c \<mapsto> (x, []))) lo hi c \<and>
           xst s' ((nds (X(c \<mapsto> (x, []))))(p \<mapsto> z)) (S - {c}) N"
proof -
  obtain ms ups n' where m: "mergeUpserts (bmsgs n) b = Inr ms" "write_front ms (upserts (ubuf n)) = Inr ups"
      "upserts_ok ms" "n' = n\<lparr>ubuf := \<lparr>upserts = ups, usize = length ms\<rparr>\<rparr>"
      "evolves C (Suc h) X (X(c \<mapsto> (BeInner n', []))) lo hi c"
    using merge_evolves [OF g X quiet room] by blast
  have "((nds X)(p \<mapsto> z)) c = Some (BeInner n)" using X s(3) by (simp add: nds_def)
  then have get: "be_inner_at c s = Inr n" using be_inner_run s(1,2) by blast
  obtain s1 where s1: "ps_put c (BeInner n') s = Inr s1" "xst s1 ((nds X)(p \<mapsto> z, c \<mapsto> BeInner n')) S N"
    using xst_put [OF s(1,2)] by blast
  obtain s2 where s2: "ps_unpin True c s1 = Inr s2" "xst s2 ((nds X)(p \<mapsto> z, c \<mapsto> BeInner n')) (S - {c}) N"
    using xst_unpin [OF s1(2) s(2)] by blast
  have "store_messages c b s = Inr s2"
    using get m(1,2) upserts_ok_sorted [OF m(3)] upserts_ok_distinct [OF m(3)] s1(1) s2(1) m(4)
    by (simp add: store_messages_def bmsgs_def)
  then show ?thesis using m(5) s2(2) nds_upd_out [OF s(3)] by metis
qed

section \<open>A node without room\<close>

text \<open>A node whose children wait for the messages of a message map.\<close>

definition pend :: "('k, 'v) be_config \<Rightarrow> ('k, 'v) be_state \<Rightarrow> nat \<Rightarrow> ('k, 'v) message_map \<Rightarrow> bool" where
  "pend C X q mm \<longleftrightarrow>
     (\<exists>n. X q = Some (BeInner n, []) \<and> distinct (map fst mm) \<and> (\<forall>(c, v) \<in> set mm. c \<le> innsize n) \<and>
          innsize n + length mm \<le> INNER_N C \<and> (\<forall>j \<le> innsize n. inbox X (bkids n ! j) = entry mm j))"

definition kids :: "('k, 'v) be_state \<Rightarrow> nat \<Rightarrow> nat set" where
  "kids X q = (case X q of Some (BeInner n, _) \<Rightarrow> set (bkids n) | _ \<Rightarrow> {})"

lemma kids_simps [simp]: "X q = Some (BeInner n, b) \<Longrightarrow> kids X q = set (bkids n)"
  by (simp add: kids_def)

lemma kids_ids:
  assumes "good C h X lo hi q"
  shows "kids X q \<subseteq> set (be_ids h X q)"
proof (cases h)
  case 0
  then obtain l b where "X q = Some (BeLeaf l, b)" using assms by (auto simp: good_def)
  then show ?thesis by (simp add: kids_def)
next
  case (Suc h')
  then obtain n b where n: "X q = Some (BeInner n, b)" using assms by (auto simp: good_def)
  then show ?thesis using distinct_kids(3) [OF assms [unfolded Suc] n] Suc by simp
qed

lemma pend_cong:
  assumes "pend C X q mm" "X' q = X q" "\<And>x. x \<in> kids X q \<Longrightarrow> inbox X' x = inbox X x" "\<exists>h lo hi. good C h X lo hi q"
  shows "pend C X' q mm" "kids X' q = kids X q"
proof -
  obtain n where n: "X q = Some (BeInner n, [])" "distinct (map fst mm)" "\<forall>(c, v) \<in> set mm. c \<le> innsize n"
      "innsize n + length mm \<le> INNER_N C" "\<forall>j \<le> innsize n. inbox X (bkids n ! j) = entry mm j"
    using assms(1) by (auto simp: pend_def)
  obtain h lo hi where g: "good C h X lo hi q" using assms(4) by blast
  then obtain h' where "h = Suc h'" using n(1) by (cases h) (auto simp: good_def)
  then have "be_inner_ok C n" using good_kids(3) [of C h' X lo hi q n] g n(1) by simp
  then have "\<forall>j \<le> innsize n. bkids n ! j \<in> kids X q" using kid_in(1) kids_simps [of X q n "[]", OF n(1)] by blast
  then show "pend C X' q mm" "kids X' q = kids X q"
    using n assms(2,3) by (auto simp: pend_def kids_def)
qed

lemma flush_evolves:
  fixes X :: "('k::linorder, 'v::semigroup_add) be_state"
  assumes g: "good C (Suc h) X lo hi c" and X: "X c = Some (BeInner n, b)"
    and quiet: "\<forall>x \<in> set (bkids n). inbox X x = []"
    and full: "INNER_B_N C < usize (ubuf n) + length b" and C: "config_ok C"
  shows "\<exists>m n' X'. removeMessages C n b (MAX_FLUSH_SIZE C) = Inr (m, n') \<and> (\<exists>u. n' = n\<lparr>ubuf := u\<rparr>) \<and>
           X' c = Some (BeInner n', []) \<and> evolves C (Suc h) X X' lo hi c \<and>
           (\<forall>x. x \<notin> insert c (set (bkids n)) \<longrightarrow> X' x = X x) \<and> nds X' = (nds X)(c \<mapsto> BeInner n') \<and>
           (\<forall>j \<le> innsize n. inbox X' (bkids n ! j) = entry m j) \<and>
           distinct (map fst m) \<and> (\<forall>(j, v) \<in> set m. j \<le> innsize n \<and> v \<noteq> []) \<and> m \<noteq> [] \<and>
           length m \<le> usize (ubuf n) + length b - INNER_B_N C"
proof -
  note k = good_kids [OF g X]
  note z = be_inner_okD [OF k(3)] and i = inbox_okD [OF k(6)]
  have mx: "usize (ubuf n) + length b - INNER_B_N C \<le> MAX_FLUSH_SIZE C" using i(2) z(8) by linarith
  note nw = inbox_newer [OF g X]
  obtain m n' ms u where r: "removeMessages C n b (MAX_FLUSH_SIZE C) = Inr (m, n')" "mergeUpserts (bmsgs n) b = Inr ms"
      "be_inner_ok C n'" "n' = n\<lparr>ubuf := u\<rparr>" "map_ok (bseps n) (MAX_FLUSH_SIZE C) m" "m \<noteq> []"
      "length m \<le> usize (ubuf n) + length b - INNER_B_N C"
      "set (bmsgs n') \<subseteq> set ms" "\<Union> (set ` snd ` set m) \<subseteq> set ms"
      "\<forall>key. msgs_for key ms = msgs_for key (bmsgs n') @ msgs_for key (entry m (route (bseps n) key))"
    using removeMessages_ok [OF k(3) i(1) nw full mx config_okD(8) [OF C]] by (elim exE conjE) rule
  obtain ms' where "mergeUpserts (bmsgs n) b = Inr ms'" "upserts_ok ms'"
      "ukey ` set ms' = ukey ` set (bmsgs n) \<union> ukey ` set b"
      "\<forall>key x. foldr effect (msgs_for key ms') x = foldr effect (msgs_for key b @ msgs_for key (bmsgs n)) x"
      "\<forall>key. timeStamp ` set (msgs_for key ms') \<subseteq> timeStamp ` (set (msgs_for key b) \<union> set (msgs_for key (bmsgs n)))"
    using merge_key [OF z(9) i(1) nw] by blast
  then have ms: "upserts_ok ms" "ukey ` set ms = ukey ` set (bmsgs n) \<union> ukey ` set b"
      "\<forall>key x. foldr effect (msgs_for key ms) x = foldr effect (msgs_for key b @ msgs_for key (bmsgs n)) x"
      "\<forall>key. timeStamp ` set (msgs_for key ms) \<subseteq> timeStamp ` (set (msgs_for key b) \<union> set (msgs_for key (bmsgs n)))"
    using r(2) by simp_all
  have w: "within lo hi (ukey v)" if "v \<in> set ms" for v
    using keys_within [OF ms(2) k(5)] i(3) that by blast
  have n': "bseps n' = bseps n" "bkids n' = bkids n" by (simp_all add: r(4) bseps_def bkids_def)
  note mo = map_okD [OF r(5)]
  have m: "inbox_ok C (lo_at lo (bseps n) j) (hi_at (bseps n) hi j) (entry m j)" for j
  proof (cases "j \<in> fst ` set m")
    case True
    then obtain v where v: "(j, v) \<in> set m" by auto
    have "within (lo_at lo (bseps n) j) (hi_at (bseps n) hi j) (ukey y)" if y: "y \<in> set v" for y
    proof -
      have "y \<in> set ms" using v y r(9) by force
      then have "within lo hi (ukey y)" by (rule w)
      from route_within [OF this, of "bseps n"] show ?thesis using mo(4) [OF v y] by simp
    qed
    then show ?thesis using mo(2,3,6) [OF v] by (simp add: inbox_ok_def)
  qed (simp add: entry_absent)
  define X' where "X' = (deliver (bkids n) m X)(c \<mapsto> (BeInner n', []))"
  have w': "\<forall>u \<in> set (bmsgs n'). within lo hi (ukey u)" using w r(8) by blast
  have key: "foldr effect (msgs_for key (bmsgs n') @ msgs_for key (entry m (route (bseps n) key))) x =
                foldr effect (msgs_for key b @ msgs_for key (bmsgs n)) x"
      "length (msgs_for key (bmsgs n') @ msgs_for key (entry m (route (bseps n) key))) \<le> 1"
      "timeStamp ` set (msgs_for key (bmsgs n') @ msgs_for key (entry m (route (bseps n) key))) \<subseteq>
                timeStamp ` set (msgs_for key b @ msgs_for key (bmsgs n))" for key x
    unfolding r(10) [rule_format, symmetric] set_append
    using ms(3,4) one_message [OF ms(1)] by blast+
  note p = push_evolves [where X = X and c = c, OF g X quiet r(3) n' w' m key X'_def]
  have "X' c = Some (BeInner n', [])" by (simp add: X'_def)
  moreover have "\<forall>(j, v) \<in> set m. j \<le> innsize n \<and> v \<noteq> []" using mo(1,5) z(5) by auto
  moreover have "distinct (map fst m)" using r(5) by (simp add: map_ok_def)
  moreover have "\<forall>x. x \<notin> insert c (set (bkids n)) \<longrightarrow> X' x = X x" using p(3) by blast
  ultimately show ?thesis using r(1,4,6,7) p(1,4,5) by blast
qed

section \<open>Splitting a message map\<close>

definition left_map :: "nat \<Rightarrow> ('k, 'v) message_map \<Rightarrow> ('k, 'v) message_map" where
  "left_map n E = filter (\<lambda>(c, v). c \<le> n) E"

definition right_map :: "nat \<Rightarrow> ('k, 'v) message_map \<Rightarrow> ('k, 'v) message_map" where
  "right_map n E = map (\<lambda>(c, v). (c - n - 1, v)) (filter (\<lambda>(c, v). \<not> c \<le> n) E)"

lemma half_map_simps [simp]:
  "left_map n [] = []" "right_map n [] = []"
  "left_map n ((c, v) # E) = (if c \<le> n then (c, v) # left_map n E else left_map n E)"
  "right_map n ((c, v) # E) = (if c \<le> n then right_map n E else (c - n - 1, v) # right_map n E)"
  by (simp_all add: left_map_def right_map_def)

lemma split_map_run:
  "distinct (map fst (lm @ left_map n E)) \<Longrightarrow> distinct (map fst (rm @ right_map n E)) \<Longrightarrow>
   split_map n E lm rm = Inr (lm @ left_map n E, rm @ right_map n E)"
proof (induction E arbitrary: lm rm)
  case (Cons e E)
  obtain c v where e: "e = (c, v)" by (cases e)
  show ?case
  proof (cases "c \<le> n")
    case True
    then have "c \<notin> set (map fst lm)" using Cons.prems(1) e by auto
    then show ?thesis using True e Cons.IH [of "lm @ [(c, v)]" rm] Cons.prems by simp
  next
    case False
    then have "c - n - 1 \<notin> set (map fst rm)" using Cons.prems(2) e by auto
    then show ?thesis using False e Cons.IH [of lm "rm @ [(c - n - 1, v)]"] Cons.prems by simp
  qed
qed simp

lemma half_map_fst:
  "fst ` set (left_map n E) = {c \<in> fst ` set E. c \<le> n}"
  "fst ` set (right_map n E) = (\<lambda>c. c - n - 1) ` {c \<in> fst ` set E. \<not> c \<le> n}"
proof -
  show "fst ` set (left_map n E) = {c \<in> fst ` set E. c \<le> n}" unfolding left_map_def by force
  show "fst ` set (right_map n E) = (\<lambda>c. c - n - 1) ` {c \<in> fst ` set E. \<not> c \<le> n}" unfolding right_map_def by force
qed

lemma half_map_distinct:
  assumes "distinct (map fst E)"
  shows "distinct (map fst (left_map n E))" "distinct (map fst (right_map n E))"
proof -
  have "distinct (map fst (left_map n E)) \<and> distinct (map fst (right_map n E))"
    using assms
  proof (induction E)
    case (Cons e E)
    obtain c v where e: "e = (c, v)" by (cases e)
    have "c \<notin> fst ` set E" using Cons.prems e by simp
    moreover have "d = c" if "\<not> c \<le> n" "\<not> d \<le> n" "c - n - 1 = d - n - 1" for d using that by linarith
    ultimately have "c \<notin> fst ` set (left_map n E)" "\<not> c \<le> n \<Longrightarrow> c - n - 1 \<notin> fst ` set (right_map n E)"
      unfolding half_map_fst by blast+
    then show ?case using Cons e by simp
  qed simp
  then show "distinct (map fst (left_map n E))" "distinct (map fst (right_map n E))" by blast+
qed

lemma half_map_entry:
  "j \<le> n \<Longrightarrow> entry (left_map n E) j = entry E j" "entry (right_map n E) j = entry E (n + 1 + j)"
proof -
  show "j \<le> n \<Longrightarrow> entry (left_map n E) j = entry E j"
  proof (induction E)
    case (Cons e E)
    then show ?case by (cases e) simp
  qed simp
  show "entry (right_map n E) j = entry E (n + 1 + j)"
  proof (induction E)
    case (Cons e E)
    then show ?case by (cases e) auto
  qed simp
qed

lemma half_map_length: "length (left_map n E) + length (right_map n E) = length E"
proof (induction E)
  case (Cons e E)
  then show ?case by (cases e) simp
qed simp

text \<open>Walking a message map in another order.\<close>

lemma map_order:
  assumes "std_ok C" "distinct (map fst m)"
  shows "distinct (map fst (mapOrder C m))" "set (mapOrder C m) = set m" "entry (mapOrder C m) j = entry m j"
    "length (mapOrder C m) = length m"
proof -
  have o: "distinct (mapOrder C m)" "set (mapOrder C m) = set m" using assms by (simp_all add: std_ok_def)
  then show "set (mapOrder C m) = set m" by blast
  have "inj_on fst (set m)" using assms(2) by (simp add: distinct_map)
  then show d: "distinct (map fst (mapOrder C m))" using o by (simp add: distinct_map)
  show "entry (mapOrder C m) j = entry m j"
    using map_of_inject_set [OF d assms(2)] o(2) by (simp add: entry_def)
  show "length (mapOrder C m) = length m"
    using o assms(2) distinct_card [of m] distinct_card [of "mapOrder C m"] by (simp add: distinct_map)
qed

definition queued :: "nat \<Rightarrow> ('k, 'v) message_map \<Rightarrow> nat \<Rightarrow> ('k, 'v) message_map \<Rightarrow> (nat \<times> ('k, 'v) message_map) list" where
  "queued lp lm rp rm = (if lm = [] then [] else [(lp, lm)]) @ (if rm = [] then [] else [(rp, rm)])"

lemma queue_halves_run:
  assumes s: "xst s nd S N" "lp \<in> S" "rp \<in> S" "lp \<noteq> rp" "nd lp = Some (BeInner l)"
    and m: "distinct (map fst m)" "m \<noteq> []" and C: "std_ok C"
    and lm_def: "lm = left_map (innsize l) (mapOrder C m)" and rm_def: "rm = right_map (innsize l) (mapOrder C m)"
  shows "\<exists>s'. queue_halves C lp rp m queue s = Inr (queue @ queued lp lm rp rm, s') \<and>
           xst s' nd ((S - {lp, rp}) \<union> fst ` set (queued lp lm rp rm)) N"
proof -
  note o = map_order [OF C m(1)]
  have sm: "split_map (innsize l) (mapOrder C m) [] [] = Inr (lm, rm)"
    using split_map_run [of "[]" "innsize l" "mapOrder C m" "[]"] half_map_distinct [OF o(1)]
    by (simp add: lm_def rm_def)
  have "length (lm @ rm) = length m" using half_map_length [of "innsize l" "mapOrder C m"] o(4) by (simp add: lm_def rm_def)
  then have ne: "lm \<noteq> [] \<or> rm \<noteq> []" using m(2) by auto
  have get: "be_inner_at lp s = Inr l" using be_inner_run [OF s(1,2,5)] .
  obtain s1 where s1: "(if lm = [] then bindE (ps_unpin True lp s) (\<lambda>s1. Inr (queue, s1))
            else Inr (queue @ [(lp, lm)], s)) = Inr (if lm = [] then queue else queue @ [(lp, lm)], s1)"
      "xst s1 nd (if lm = [] then S - {lp} else S) N"
    using xst_unpin [OF s(1,2)] s(1) by (cases "lm = []") auto
  have rp: "rp \<in> (if lm = [] then S - {lp} else S)" using s(3,4) by simp
  obtain s2 where s2: "rm = [] \<Longrightarrow> ps_unpin True rp s1 = Inr s2"
      "xst s2 nd (if rm = [] then (if lm = [] then S - {lp} else S) - {rp} else (if lm = [] then S - {lp} else S)) N"
      "rm \<noteq> [] \<Longrightarrow> s2 = s1"
    using xst_unpin [OF s1(2) rp] s1(2) by (cases "rm = []") auto
  have "(if rm = [] then (if lm = [] then S - {lp} else S) - {rp} else (if lm = [] then S - {lp} else S)) =
      (S - {lp, rp}) \<union> fst ` set (queued lp lm rp rm)"
    using s(2,3,4) by (auto simp: queued_def)
  moreover have "queue_halves C lp rp m queue s = Inr (queue @ queued lp lm rp rm, s2)"
    unfolding queue_halves_def get sm bindE.simps prod.case check_iff [OF ne] s1(1)
    using s2(1,3) by (auto simp: queued_def)
  ultimately show ?thesis using s2(2) by auto
qed

section \<open>Passing messages on\<close>

definition noisy :: "('k, 'v) be_state \<Rightarrow> nat set" where
  "noisy X = {x. inbox X x \<noteq> []}"

lemma evolves_splits:
  assumes "evolves C h X X1 lo hi c" "splits C h X1 X2 lo hi c m r"
  shows "splits C h X X2 lo hi c m r"
proof -
  note s = splitsD [OF assms(2)]
  have g: "grows X (set (be_ids h X c)) X1 (set (be_ids h X1 c))"
    and a: "\<And>key. within lo hi key \<Longrightarrow> same_at h X c X1 c key" using assms(1) by (simp_all add: evolves_def)
  show ?thesis
    unfolding splits_def
    using s(1-3) grows_trans [OF g s(4)] same_at_trans [OF a s(5)] by blast
qed

lemma evolves_outside: "evolves C h X X' lo hi c \<Longrightarrow> x \<in> dom X \<Longrightarrow> x \<notin> set (be_ids h X c) \<Longrightarrow> X' x = X x"
  unfolding evolves_def by (blast dest: growsD(1))

lemma splits_outside: "splits C h X X' lo hi c m r \<Longrightarrow> x \<in> dom X \<Longrightarrow> x \<notin> set (be_ids h X c) \<Longrightarrow> X' x = X x"
  by (meson growsD(1) splitsD(4))

lemma map_fits:
  assumes "distinct (map fst m)" "\<forall>(j, v) \<in> set m. j \<le> t"
  shows "length m \<le> Suc t"
proof -
  have "fst ` set m \<subseteq> {..t}" using assms(2) by auto
  then have "card (fst ` set m) \<le> Suc t" using card_mono [of "{..t}" "fst ` set m"] by simp
  then show ?thesis using distinct_card [OF assms(1)] by simp
qed

text \<open>
  The halves of a node that waits for its messages wait for theirs, and have room for the
  pivots that these can cause.
\<close>

lemma split_pend:
  assumes g: "good C (Suc h) X lo hi c" and X: "X c = Some (BeInner n, [])" and n: "2 \<le> innsize n"
    and r: "r \<notin> dom X" and C: "odd (INNER_N C)"
    and e: "distinct (map fst E)" "\<forall>(j, v) \<in> set E. j \<le> innsize n" "\<forall>j \<le> innsize n. inbox X (bkids n ! j) = entry E j"
    and X'_def: "X' = X(r \<mapsto> (BeInner (binner_right C n), []), c \<mapsto> (BeInner (binner_left n), []))"
    and lm_def: "lm = left_map (innsize (binner_left n)) E" and rm_def: "rm = right_map (innsize (binner_left n)) E"
  shows "pend C X' c lm" "pend C X' r rm" "kids X' c \<union> kids X' r = set (bkids n)"
    "x \<in> set (bkids n) \<Longrightarrow> inbox X' x = inbox X x"
    "x \<in> set (bkids n) \<Longrightarrow> inbox X x \<noteq> [] \<Longrightarrow> x \<in> kids X' c \<and> lm \<noteq> [] \<or> x \<in> kids X' r \<and> rm \<noteq> []"
proof -
  note k = good_kids [OF g X] and d = distinct_kids [OF g X]
  note z = be_inner_okD [OF k(3)] and b = binner_split_ok [OF k(3) n refl]
  let ?q = "(innsize n - 1) div 2"
  have rc: "r \<noteq> c" using r X by auto
  have at: "X' c = Some (BeInner (binner_left n), [])" "X' r = Some (BeInner (binner_right C n), [])"
    using rc by (simp_all add: X'_def)
  have rk: "r \<notin> set (bkids n)" using r d(4) by blast
  show inb: "inbox X' x = inbox X x" if "x \<in> set (bkids n)" for x
    using that d(2) rk by (auto simp: X'_def inbox_def)
  have kk: "kids X' c = set (take (Suc ?q) (bkids n))" "kids X' r = set (drop (Suc ?q) (bkids n))"
    using at b(4,6) by simp_all
  show "kids X' c \<union> kids X' r = set (bkids n)" unfolding kk by (metis append_take_drop_id set_append)
  note hd = half_map_distinct [OF e(1), of ?q]
  have lm: "lm = left_map ?q E" "rm = right_map ?q E" by (simp_all only: lm_def rm_def b(10))
  have half: "innsize n div 2 = innsize n - ?q - 1" using n by linarith
  have lr: "\<forall>(j, v) \<in> set lm. j \<le> ?q" "\<forall>(j, v) \<in> set rm. j \<le> innsize n div 2"
    using e(2) unfolding lm left_map_def right_map_def half by auto
  have rl: "length lm \<le> Suc ?q" by (rule map_fits) (use hd(1) lr(1) lm(1) in simp_all)
  have rr: "length rm \<le> Suc (innsize n div 2)" by (rule map_fits) (use hd(2) lr(2) lm(2) in simp_all)
  have I: "?q + length lm \<le> INNER_N C" "innsize n div 2 + length rm \<le> INNER_N C"
  proof -
    show "?q + length lm \<le> INNER_N C" using rl z(3) n by linarith
    have "2 * (innsize n div 2) + 1 \<le> INNER_N C" using z(3) C by (auto elim!: oddE)
    then show "innsize n div 2 + length rm \<le> INNER_N C" using rr by linarith
  qed
  have "inbox X' (bkids (binner_left n) ! j) = entry lm j" if "j \<le> ?q" for j
  proof -
    have j: "j \<le> innsize n" using that b(12) by linarith
    then have "bkids (binner_left n) ! j = bkids n ! j" using that by (simp add: b(4))
    then show ?thesis using inb [OF kid_in(1) [OF k(3) j]] e(3) j that half_map_entry(1) [OF that, of E] lm(1) by simp
  qed
  then show "pend C X' c lm" using at(1) hd(1) lr(1) I(1) b(10) lm(1) by (simp add: pend_def)
  have "inbox X' (bkids (binner_right C n) ! j) = entry rm j" if "j \<le> innsize n div 2" for j
  proof -
    have j: "?q + 1 + j \<le> innsize n" using that half b(12) by linarith
    then have "bkids (binner_right C n) ! j = bkids n ! (?q + 1 + j)" using z(6) by (simp add: b(6))
    then show ?thesis using inb [OF kid_in(1) [OF k(3) j]] e(3) j half_map_entry(2) [of ?q E j] lm(2) by simp
  qed
  then show "pend C X' r rm" using at(2) hd(2) lr(2) I(2) b(11) lm(2) by (simp add: pend_def)
  show "x \<in> kids X' c \<and> lm \<noteq> [] \<or> x \<in> kids X' r \<and> rm \<noteq> []" if x: "x \<in> set (bkids n)" "inbox X x \<noteq> []"
  proof -
    obtain j where j: "j \<le> innsize n" "x = bkids n ! j" using x(1) z(6) by (auto simp: in_set_conv_nth less_Suc_eq_le)
    have ent: "entry E j \<noteq> []" using e(3) j x(2) by simp
    show ?thesis
    proof (cases "j \<le> ?q")
      case True
      then have "entry lm j \<noteq> []" using ent half_map_entry(1) [OF True, of E] lm(1) by simp
      then have "lm \<noteq> []" by auto
      moreover have "x \<in> set (take (Suc ?q) (bkids n))"
        using True j z(6) by (auto simp: in_set_conv_nth intro!: exI [of _ j])
      ultimately show ?thesis by (simp add: kk)
    next
      case False
      then obtain i where i: "j = ?q + 1 + i" by (metis Suc_eq_plus1 add_Suc less_imp_Suc_add not_le)
      then have "entry rm i \<noteq> []" using ent half_map_entry(2) [of ?q E i] lm(2) by simp
      then have "rm \<noteq> []" by auto
      moreover have "x \<in> set (drop (Suc ?q) (bkids n))"
        using i j z(6) by (auto simp: in_set_conv_nth intro!: exI [of _ i])
      ultimately show ?thesis by (simp add: kk)
    qed
  qed
qed

text \<open>The outcome for a child: it stays one page, or it is split and has a new pivot.\<close>

definition kid_step ::
  "('k::linorder, 'v::plus) be_config \<Rightarrow> nat \<Rightarrow> ('k, 'v) be_state \<Rightarrow> ('k, 'v) be_state \<Rightarrow> 'k option \<Rightarrow> 'k option \<Rightarrow>
   nat \<Rightarrow> nat \<Rightarrow> (nat \<times> 'k \<times> nat) list \<Rightarrow> bool" where
  "kid_step C h X X' lo hi c ci pivs \<longleftrightarrow>
     pivs = [] \<and> evolves C h X X' lo hi c \<or>
     (\<exists>m r. pivs = [(ci, m, r)] \<and> r \<notin> dom X \<and> splits C h X X' lo hi c m r)"

text \<open>The pages of a child after the step.\<close>

definition kid_pages :: "nat \<Rightarrow> (nat \<times> 'k \<times> nat) list \<Rightarrow> nat list" where
  "kid_pages c pivs = c # map (snd \<circ> snd) pivs"

lemma kid_step_outside:
  "kid_step C h X X' lo hi c ci pivs \<Longrightarrow> x \<in> dom X \<Longrightarrow> x \<notin> set (be_ids h X c) \<Longrightarrow> X' x = X x"
  unfolding kid_step_def using evolves_outside splits_outside by blast

lemma inbox_same: "X' x = X x \<Longrightarrow> inbox X' x = inbox X x"
  by (simp add: inbox_def)

lemma subset_step: "A \<subseteq> D - B \<union> U \<Longrightarrow> D \<subseteq> M \<union> B \<Longrightarrow> A \<subseteq> M \<union> U"
  by blast

lemma set_queued: "set (queued lp lm rp rm) = (if lm = [] then {} else {(lp, lm)}) \<union> (if rm = [] then {} else {(rp, rm)})"
  by (simp add: queued_def)

lemma split_flush_ok:
  fixes X :: "('k::linorder, 'v::semigroup_add) be_state"
  assumes g: "good C (Suc h) X lo hi c" and X: "X c = Some (BeInner n, [])" and n: "2 \<le> innsize n"
    and m: "distinct (map fst m)" "\<forall>(j, v) \<in> set m. j \<le> innsize n"
      "\<forall>j \<le> innsize n. inbox X (bkids n ! j) = entry m j"
    and C: "config_ok C" and r: "r \<notin> dom X"
    and X'_def: "X' = X(r \<mapsto> (BeInner (binner_right C n), []), c \<mapsto> (BeInner (binner_left n), []))"
    and Qk_def: "Qk = queued c (left_map (innsize (binner_left n)) (mapOrder C m))
                   r (right_map (innsize (binner_left n)) (mapOrder C m))"
  shows "splits C (Suc h) X X' lo hi c (mid_pivot n) r"
    "distinct (map fst Qk)" "fst ` set Qk \<subseteq> {c, r}" "\<forall>(q, mm) \<in> set Qk. pend C X' q mm"
    "noisy X' \<subseteq> noisy X - set (bkids n) \<union> \<Union> (kids X' ` fst ` set Qk)"
proof -
  have rc: "r \<noteq> c" using r X by auto
  show "splits C (Suc h) X X' lo hi c (mid_pivot n) r"
    unfolding X'_def by (rule split_inner_splits [where X = X and c = c, OF X g n r])
  define E where "E = mapOrder C m"
  note o = map_order [OF config_okD(8) [OF C] m(1), folded E_def]
  have e2: "\<forall>(j, v) \<in> set E. j \<le> innsize n" using m(2) o(2) by simp
  have e3: "\<forall>j \<le> innsize n. inbox X (bkids n ! j) = entry E j" using m(3) o(3) by simp
  define lm rm where "lm = left_map (innsize (binner_left n)) E" and "rm = right_map (innsize (binner_left n)) E"
  have Qk: "Qk = queued c lm r rm" by (simp add: Qk_def lm_def rm_def E_def)
  note pd = split_pend [where X = X and c = c, OF g X n r config_okD(4) [OF C] o(1) e2 e3 X'_def lm_def rm_def]
  show "noisy X' \<subseteq> noisy X - set (bkids n) \<union> \<Union> (kids X' ` fst ` set Qk)"
  proof
    fix x assume x: "x \<in> noisy X'"
    then have ne: "x \<noteq> c" "x \<noteq> r" using rc by (auto simp: noisy_def X'_def)
    then have nx: "x \<in> noisy X" using x by (auto simp: noisy_def X'_def inbox_def)
    then show "x \<in> noisy X - set (bkids n) \<union> \<Union> (kids X' ` fst ` set Qk)"
      using pd(5) [of x] by (auto simp: noisy_def Qk set_queued)
  qed
  show "distinct (map fst Qk)" "fst ` set Qk \<subseteq> {c, r}" "\<forall>(q, mm) \<in> set Qk. pend C X' q mm"
    using rc pd(1,2) by (auto simp: queued_def Qk)
qed

lemma split_flush_run:
  fixes X :: "('k::linorder, 'v::semigroup_add) be_state"
  assumes g: "good C (Suc h) X lo hi c" and X: "X c = Some (BeInner n, [])" and n: "2 \<le> innsize n"
    and m: "distinct (map fst m)" "\<forall>(j, v) \<in> set m. j \<le> innsize n" "m \<noteq> []"
      "\<forall>j \<le> innsize n. inbox X (bkids n ! j) = entry m j"
    and C: "config_ok C" and s: "xst s ((nds X)(p \<mapsto> z)) S N" "c \<in> S" "p \<noteq> c" "card S < N"
  shows "\<exists>r s1 X'. be_splitInnerNode C c s = Inr (r, mid_pivot n, s1) \<and> r \<notin> dom X \<and> r \<notin> S \<and> r \<noteq> p \<and>
           splits C (Suc h) X X' lo hi c (mid_pivot n) r \<and>
           (\<forall>queue. \<exists>s2 Qk. queue_halves C c r m queue s1 = Inr (queue @ Qk, s2) \<and>
              xst s2 ((nds X')(p \<mapsto> z)) ((S - {c}) \<union> fst ` set Qk) N \<and>
              distinct (map fst Qk) \<and> fst ` set Qk \<subseteq> {c, r} \<and> (\<forall>(q, mm) \<in> set Qk. pend C X' q mm) \<and>
              noisy X' \<subseteq> noisy X - set (bkids n) \<union> \<Union> (kids X' ` fst ` set Qk)) \<and>
           xst s1 ((nds X')(p \<mapsto> z)) (insert r S) N"
proof -
  have at: "((nds X)(p \<mapsto> z)) c = Some (BeInner n)" using X s(3) by (simp add: nds_def)
  obtain r s1 where r: "be_splitInnerNode C c s = Inr (r, mid_pivot n, s1)" "r \<notin> dom ((nds X)(p \<mapsto> z))" "r \<notin> S"
      "xst s1 ((nds X)(p \<mapsto> z, r \<mapsto> BeInner (binner_right C n), c \<mapsto> BeInner (binner_left n))) (insert r S) N"
    using be_splitInnerNode_run [where p = c and C = C, OF s(1,2) at n s(4)] by blast
  have rd: "r \<notin> dom X" "r \<noteq> p" using r(2) by auto
  have rc: "r \<noteq> c" using rd(1) X by auto
  define X' where "X' = X(r \<mapsto> (BeInner (binner_right C n), []), c \<mapsto> (BeInner (binner_left n), []))"
  define lm rm where "lm = left_map (innsize (binner_left n)) (mapOrder C m)"
    and "rm = right_map (innsize (binner_left n)) (mapOrder C m)"
  have Qk: "queued c lm r rm = queued c (left_map (innsize (binner_left n)) (mapOrder C m))
      r (right_map (innsize (binner_left n)) (mapOrder C m))" by (simp add: lm_def rm_def)
  note f = split_flush_ok [where X = X and c = c, OF g X n m(1,2,4) C rd(1) X'_def Qk]
  note sp = f(1) and noisy = f(5) and kc = f(2-4)
  let ?nd = "(nds X)(p \<mapsto> z, r \<mapsto> BeInner (binner_right C n), c \<mapsto> BeInner (binner_left n))"
  have nd: "?nd = (nds X')(p \<mapsto> z)"
    using rd(2) s(3) by (auto simp: X'_def)
  have q: "\<exists>s2. queue_halves C c r m queue s1 = Inr (queue @ queued c lm r rm, s2) \<and>
           xst s2 ?nd ((insert r S - {c, r}) \<union> fst ` set (queued c lm r rm)) N" for queue
    by (rule queue_halves_run [OF r(4) _ _ rc [symmetric] _ m(1,3) config_okD(8) [OF C]])
      (use s(2) in \<open>simp_all add: lm_def rm_def\<close>)
  have S: "insert r S - {c, r} = S - {c}" using r(3) by auto
  have qq: "\<exists>s2 Qk. queue_halves C c r m queue s1 = Inr (queue @ Qk, s2) \<and>
      xst s2 ((nds X')(p \<mapsto> z)) ((S - {c}) \<union> fst ` set Qk) N \<and>
      distinct (map fst Qk) \<and> fst ` set Qk \<subseteq> {c, r} \<and> (\<forall>(q, mm) \<in> set Qk. pend C X' q mm) \<and>
      noisy X' \<subseteq> noisy X - set (bkids n) \<union> \<Union> (kids X' ` fst ` set Qk)" for queue
  proof -
    obtain s2 where s2: "queue_halves C c r m queue s1 = Inr (queue @ queued c lm r rm, s2)"
        "xst s2 ((nds X')(p \<mapsto> z)) ((S - {c}) \<union> fst ` set (queued c lm r rm)) N"
      using q [of queue] unfolding nd S by (elim exE conjE) rule
    show ?thesis using s2 kc noisy by (intro exI [of _ s2] exI [of _ "queued c lm r rm"] conjI)
  qed
  note r' = r(1,3) r(4) [unfolded nd]
  show ?thesis
    by (rule exI [of _ r], rule exI [of _ s1], rule exI [of _ X'], intro conjI allI) (fact r' rd sp | rule qq)+
qed

lemma flush_inner_child_run:
  fixes X :: "('k::linorder, 'v::semigroup_add) be_state"
  assumes g: "good C (Suc h) X lo hi c" and X: "X c = Some (BeInner n, b)"
    and quiet: "\<forall>x \<in> set (bkids n). inbox X x = []"
    and full: "INNER_B_N C < usize (ubuf n) + length b" and C: "config_ok C"
    and s: "xst s ((nds X)(p \<mapsto> z)) S N" "c \<in> S" "p \<noteq> c" "card S < N"
  shows "\<exists>pivs Qk s' X'. flush_inner_child C ci c b queue s = Inr (pivs, queue @ Qk, s') \<and>
           kid_step C (Suc h) X X' lo hi c ci pivs \<and> xst s' ((nds X')(p \<mapsto> z)) ((S - {c}) \<union> fst ` set Qk) N \<and>
           distinct (map fst Qk) \<and> fst ` set Qk \<subseteq> set (kid_pages c pivs) \<and> (\<forall>(q, mm) \<in> set Qk. pend C X' q mm) \<and>
           noisy X' \<subseteq> noisy X - {c} \<union> \<Union> (kids X' ` fst ` set Qk) \<and> (\<forall>y \<in> set pivs. snd (snd y) \<notin> insert p S)"
proof -
  obtain m n' X1 u where f: "removeMessages C n b (MAX_FLUSH_SIZE C) = Inr (m, n')" "n' = n\<lparr>ubuf := u\<rparr>"
      "X1 c = Some (BeInner n', [])" "evolves C (Suc h) X X1 lo hi c"
      "\<forall>x. x \<notin> insert c (set (bkids n)) \<longrightarrow> X1 x = X x" "nds X1 = (nds X)(c \<mapsto> BeInner n')"
      "\<forall>j \<le> innsize n. inbox X1 (bkids n ! j) = entry m j"
      "distinct (map fst m)" "\<forall>(j, v) \<in> set m. j \<le> innsize n \<and> v \<noteq> []" "m \<noteq> []"
    using flush_evolves [where X = X and c = c, OF g X quiet full C] by (elim exE conjE) rule
  have g1: "good C (Suc h) X1 lo hi c" using f(4) by (simp add: evolves_def)
  have z: "innsize n' = innsize n" "bkids n' = bkids n" "ipivots n' = ipivots n"
    using f(2) by (auto simp: bkids_def)
  have len: "length (ipivots n') = INNER_N C" "innsize n' \<le> INNER_N C"
    using be_inner_okD(1,3) [OF good_kids(3) [OF g1 f(3)]] by simp_all
  have at: "((nds X)(p \<mapsto> z)) c = Some (BeInner n)" for z using X s(3) by (simp add: nds_def)
  have get: "be_inner_at c s = Inr n" using be_inner_run [OF s(1,2) at] .
  obtain s1 where s1: "ps_put c (BeInner n') s = Inr s1" "xst s1 ((nds X1)(p \<mapsto> z)) S N"
    using xst_put [OF s(1,2), of "BeInner n'"] s(3) by (auto simp: f(6) fun_upd_twist)
  have noisy1: "noisy X1 \<subseteq> noisy X - {c} \<union> set (bkids n)"
  proof
    fix x assume x: "x \<in> noisy X1"
    then have "x \<noteq> c" using f(3) by (auto simp: noisy_def)
    then show "x \<in> noisy X - {c} \<union> set (bkids n)" using x f(5) inbox_same [of X1 x X] by (auto simp: noisy_def)
  qed
  have mj: "\<forall>(j, v) \<in> set m. j \<le> innsize n'" using f(9) z(1) by auto
  have me: "\<forall>j \<le> innsize n'. inbox X1 (bkids n' ! j) = entry m j" using f(7) z by simp
  show ?thesis
  proof (cases "length (ipivots n') - innsize n' < length m")
    case False
    then have "pend C X1 c m" using f(3,8) mj me len by (simp add: pend_def)
    moreover have "flush_inner_child C ci c b queue s = Inr ([], queue @ [(c, m)], s1)"
      unfolding flush_inner_child_def using get f(1) s1(1) False by simp
    moreover have "noisy X1 \<subseteq> noisy X - {c} \<union> kids X1 c" using noisy1 f(3) z(2) by simp
    moreover have "xst s1 ((nds X1)(p \<mapsto> z)) (S - {c} \<union> {c}) N" using s1(2) s(2) by (simp add: insert_absorb)
    ultimately show ?thesis using f(4)
      by (intro exI [of _ "[]"] exI [of _ "[(c, m)]"] exI [of _ s1] exI [of _ X1]) (simp add: kid_step_def kid_pages_def)
  next
    case True
    have "length m \<le> Suc (innsize n')" by (rule map_fits [OF f(8)]) (use mj in simp)
    then have n2: "2 \<le> innsize n'" using True len config_okD(3) [OF C] by linarith
    obtain r s2 X' where r: "be_splitInnerNode C c s1 = Inr (r, mid_pivot n', s2)" "r \<notin> dom X1" "r \<notin> S" "r \<noteq> p"
        "splits C (Suc h) X1 X' lo hi c (mid_pivot n') r"
        "\<forall>queue. \<exists>s2' Qk. queue_halves C c r m queue s2 = Inr (queue @ Qk, s2') \<and>
              xst s2' ((nds X')(p \<mapsto> z)) ((S - {c}) \<union> fst ` set Qk) N \<and>
              distinct (map fst Qk) \<and> fst ` set Qk \<subseteq> {c, r} \<and> (\<forall>(q, mm) \<in> set Qk. pend C X' q mm) \<and>
              noisy X' \<subseteq> noisy X1 - set (bkids n') \<union> \<Union> (kids X' ` fst ` set Qk)"
      using split_flush_run [where X = X1 and c = c, OF g1 f(3) n2 f(8) mj f(10) me C s1(2) s(2-4)] by (elim exE conjE) rule
    obtain s3 Qk where q: "queue_halves C c r m queue s2 = Inr (queue @ Qk, s3)"
        "xst s3 ((nds X')(p \<mapsto> z)) ((S - {c}) \<union> fst ` set Qk) N"
        "distinct (map fst Qk)" "fst ` set Qk \<subseteq> {c, r}" "\<forall>(q, mm) \<in> set Qk. pend C X' q mm"
        "noisy X' \<subseteq> noisy X1 - set (bkids n') \<union> \<Union> (kids X' ` fst ` set Qk)"
      using spec [OF r(6), of queue] by (elim exE conjE) rule
    have "flush_inner_child C ci c b queue s = Inr ([(ci, mid_pivot n', r)], queue @ Qk, s3)"
      unfolding flush_inner_child_def using get f(1) s1(1) True r(1) q(1) by simp
    moreover have "r \<notin> dom X" using r(2) f(4) growsD(3) unfolding evolves_def by blast
    then have "kid_step C (Suc h) X X' lo hi c ci [(ci, mid_pivot n', r)]"
      using evolves_splits [OF f(4) r(5)] by (simp add: kid_step_def)
    moreover have "noisy X' \<subseteq> noisy X - {c} \<union> \<Union> (kids X' ` fst ` set Qk)" 
      by (rule subset_step [OF q(6) [unfolded z(2)] noisy1])
    ultimately show ?thesis using q(2-5) r(3,4)
      by (intro exI [of _ "[(ci, mid_pivot n', r)]"] exI [of _ Qk] exI [of _ s3] exI [of _ X']) (simp add: kid_pages_def)
  qed
qed

end
