(* ===== verification/BeFlush.thy ===== *)
theory BeFlush
  imports BeKid BePivots
begin

text \<open>
  The level-order traversal that flushes messages. While a node is processed, its new pivots are
  collected and inserted at the end: the state of the proof has them already in the node, the
  store does not. \<open>passing\<close> is the invariant of the loop over the children, \<open>queue_ok\<close> that of the
  loop over the queue.
\<close>

section \<open>The pivots so far\<close>

lemma moved_ge: "c \<le> moved P c"
  by (simp add: moved_def)

lemma moved_Cons:
  assumes "sorted_wrt (<) (map fst ((c1, m, r) # P))" "c \<noteq> c1"
  shows "moved ((c1, m, r) # P) c = (if c1 < c then Suc (moved P c) else c)"
proof (cases "c1 < c")
  case False
  then have "filter (\<lambda>p. fst p < c) ((c1, m, r) # P) = []"
    using assms by (auto simp: filter_empty_conv)
  then show ?thesis using False unfolding moved_def by simp
qed (simp add: moved_def)

lemma nth_ins:
  "j \<le> length xs \<Longrightarrow> i < j \<Longrightarrow> ins j x xs ! i = xs ! i"
  "j \<le> length xs \<Longrightarrow> j \<le> i \<Longrightarrow> i < length xs \<Longrightarrow> ins j x xs ! Suc i = xs ! i"
  by (simp_all add: ins_def nth_append Suc_diff_le)

text \<open>A child that was not split keeps its bounds.\<close>

lemma moved_bounds:
  assumes "sorted_wrt (<) (map fst P)" "c \<notin> fst ` set P" "\<forall>p \<in> set P. fst p \<le> length xs" "c \<le> length xs"
  shows "lo_at lo (ins_seps P xs) (moved P c) = lo_at lo xs c" "hi_at (ins_seps P xs) hi (moved P c) = hi_at xs hi c"
proof -
  have "(0 < c \<longrightarrow> ins_seps P xs ! (moved P c - 1) = xs ! (c - 1)) \<and>
      (c < length xs \<longrightarrow> ins_seps P xs ! moved P c = xs ! c) \<and>
      (c < length xs \<longleftrightarrow> moved P c < length (ins_seps P xs))"
    using assms
  proof (induction P)
    case Nil
    then show ?case by (simp add: moved_def)
  next
    case (Cons p P)
    obtain c1 m r where p: "p = (c1, m, r)" by (metis prod_cases3)
    have IH: "0 < c \<longrightarrow> ins_seps P xs ! (moved P c - 1) = xs ! (c - 1)"
      "c < length xs \<longrightarrow> ins_seps P xs ! moved P c = xs ! c" "c < length xs \<longleftrightarrow> moved P c < length (ins_seps P xs)"
      using Cons by auto
    have len: "length (ins_seps P xs) = length xs + length P" using length_ins_lists(1) Cons.prems(3) by auto
    have c1: "c1 \<le> length (ins_seps P xs)" "c1 \<noteq> c" using Cons.prems(2,3) p len by auto
    note mv = moved_Cons [OF Cons.prems(1) [unfolded p] c1(2) [symmetric]]
    show ?case
    proof (cases "c1 < c")
      case True
      then have m: "moved (p # P) c = Suc (moved P c)" "c1 < moved P c" using mv p moved_ge [of c P] by simp_all
      have "moved P c \<le> length (ins_seps P xs)"
        using ins_insort(1) [of P c xs m r] Cons.prems by auto
      then have "ins c1 m (ins_seps P xs) ! moved P c = ins_seps P xs ! (moved P c - 1)"
        using nth_ins(2) [of c1 "ins_seps P xs" "moved P c - 1" m] m(2) c1(1) by simp
      moreover have "ins c1 m (ins_seps P xs) ! Suc (moved P c) = ins_seps P xs ! moved P c" if "c < length xs"
        using nth_ins(2) [of c1 "ins_seps P xs" "moved P c" m] m(2) c1(1) that IH(3) by simp
      ultimately show ?thesis using IH m(1) p c1(1) True by auto
    next
      case False
      then have cc: "c < c1" using c1(2) by simp
      have e: "filter (\<lambda>p. fst p < c) P = []" using Cons.prems(1) cc p by (auto simp: filter_empty_conv)
      then have m: "moved (p # P) c = c" "moved P c = c" using mv p False e by (simp_all add: moved_def)
      have "c < length xs" using cc Cons.prems(3) p by simp
      then show ?thesis using IH m p cc nth_ins(1) [OF c1(1), of c m] nth_ins(1) [OF c1(1), of "c - 1" m] c1(1) by auto
    qed
  qed
  then show "lo_at lo (ins_seps P xs) (moved P c) = lo_at lo xs c" "hi_at (ins_seps P xs) hi (moved P c) = hi_at xs hi c"
    using moved_ge [of c P] by (auto simp: lo_at_def hi_at_def moved_def)
qed

text \<open>The new pivots are ordered like the children that they split.\<close>

definition pivots_ok :: "'k::linorder option \<Rightarrow> 'k option \<Rightarrow> ('k, 'v) be_inner \<Rightarrow> (nat \<times> 'k \<times> nat) list \<Rightarrow> bool" where
  "pivots_ok lo hi n P \<longleftrightarrow>
     sorted_wrt (<) (map fst P) \<and>
     (\<forall>(c, m, r) \<in> set P. c \<le> innsize n \<and> gt_lo (lo_at lo (bseps n) c) m \<and> lt_hi (hi_at (bseps n) hi c) m)"

lemma pivots_ascending:
  assumes "be_inner_ok C n" "pivots_ok lo hi n P"
  shows "sorted_wrt (<) (map (fst \<circ> snd) P)"
proof -
  note z = be_inner_okD [OF assms(1)]
  have "m < m'" if "(c, m, r) \<in> set P" "(c', m', r') \<in> set P" "c < c'" for c m r c' m' r'
  proof -
    have "c < innsize n" "c' \<le> innsize n" "lt_hi (hi_at (bseps n) hi c) m" "gt_lo (lo_at lo (bseps n) c') m'"
      using assms(2) that unfolding pivots_ok_def by fastforce+
    then have "m < bseps n ! c" "bseps n ! (c' - 1) < m'" "c' - 1 < length (bseps n)" "c \<le> c' - 1"
      using that(3) z(5) by (auto simp: hi_at_def lo_at_def)
    moreover have "bseps n ! c \<le> bseps n ! (c' - 1)"
      using sorted_wrt_less_nth_mono [OF z(4), of c "c' - 1"] calculation(3,4) by (cases "c = c' - 1") simp_all
    ultimately show "m < m'" by simp
  qed
  then show ?thesis using assms(2) unfolding pivots_ok_def sorted_wrt_map
    by (fastforce intro: sorted_wrt_mono_rel [of P "\<lambda>x y. fst x < fst y"])
qed

lemma node_with_pivots:
  assumes n: "be_inner_ok C n" and P: "pivots_ok lo hi n P" and room: "innsize n + length P \<le> INNER_N C"
  shows "\<exists>n'. insertPivots P n = Inr n' \<and> ubuf n' = ubuf n \<and> bmsgs n' = bmsgs n \<and> innsize n' = innsize n + length P \<and>
           length (ipivots n') = INNER_N C \<and> length (ichildren n') = INNER_N C + 1 \<and>
           bseps n' = ins_seps P (bseps n) \<and> bkids n' = ins_kids P (bkids n)"
proof -
  have "\<forall>p \<in> set P. fst p \<le> innsize n" "sorted_wrt (<) (map fst P)" using P unfolding pivots_ok_def by auto
  then show ?thesis
    using insertPivots_run [OF n room _ pivots_ascending [OF n P]] by (auto simp: bmsgs_def)
qed

text \<open>A child that was not split yet, in the node with the pivots so far.\<close>

lemma kept_kid:
  assumes n: "be_inner_ok C n" and P: "pivots_ok lo hi n P" and room: "innsize n + length P \<le> INNER_N C"
    and c: "c \<notin> fst ` set P" "c \<le> innsize n" and x: "insertPivots P n = Inr x"
  shows "ubuf x = ubuf n" "bseps x = ins_seps P (bseps n)" "bkids x = ins_kids P (bkids n)"
    "moved P c \<le> innsize x" "bkids x ! moved P c = bkids n ! c"
    "lo_at lo (bseps x) (moved P c) = lo_at lo (bseps n) c" "hi_at (bseps x) hi (moved P c) = hi_at (bseps n) hi c"
proof -
  note z = be_inner_okD [OF n]
  have sP: "sorted_wrt (<) (map fst P)" and b: "\<forall>p \<in> set P. fst p \<le> innsize n"
    using P unfolding pivots_ok_def by auto
  obtain x0 where "insertPivots P n = Inr x0" "ubuf x0 = ubuf n" "innsize x0 = innsize n + length P"
      "bseps x0 = ins_seps P (bseps n)" "bkids x0 = ins_kids P (bkids n)"
    using node_with_pivots [OF n P room] by blast
  then show e: "ubuf x = ubuf n" "bseps x = ins_seps P (bseps n)" "bkids x = ins_kids P (bkids n)"
    and i: "moved P c \<le> innsize x"
    using x ins_insort(1) [OF sP c(1), of "bseps n"] b c(2) z(5) length_ins_lists(1) [of P "bseps n"] by simp_all
  show "bkids x ! moved P c = bkids n ! c"
    using ins_insort(2) [OF sP c(1), of "bkids n"] b c(2) z(6) by (simp add: e(3))
  show "lo_at lo (bseps x) (moved P c) = lo_at lo (bseps n) c" "hi_at (bseps x) hi (moved P c) = hi_at (bseps n) hi c"
    unfolding e(2) using moved_bounds [OF sP c(1)] b c(2) z(5) by simp_all
qed

text \<open>One more pivot, for a child that was not split before.\<close>

lemma one_more_pivot:
  assumes n: "be_inner_ok C n" and P: "pivots_ok lo hi n P" and room: "innsize n + length P < INNER_N C"
    and c: "c \<notin> fst ` set P" "c \<le> innsize n" and m: "gt_lo (lo_at lo (bseps n) c) m" "lt_hi (hi_at (bseps n) hi c) m"
    and x: "insertPivots P n = Inr x" and P'_def: "P' = insort_key fst (c, m, r) P"
  shows "\<exists>x'. insertPivots P' n = Inr x' \<and> bmsgs x' = bmsgs x \<and> ubuf x' = ubuf x \<and> innsize x' = innsize n + length P' \<and>
           length (ipivots x') = INNER_N C \<and> length (ichildren x') = INNER_N C + 1 \<and>
           bseps x' = take (moved P c) (bseps x) @ m # drop (moved P c) (bseps x) \<and>
           bkids x' = take (Suc (moved P c)) (bkids x) @ r # drop (Suc (moved P c)) (bkids x)"
    "pivots_ok lo hi n P'" "length P' = Suc (length P)"
proof -
  note z = be_inner_okD [OF n]
  have sP: "sorted_wrt (<) (map fst P)" using P by (simp add: pivots_ok_def)
  have P': "mset P' = add_mset (c, m, r) (mset P)" "set P' = insert (c, m, r) (set P)"
    by (simp_all add: P'_def set_insort_key)
  show l: "length P' = Suc (length P)" by (simp add: P'_def)
  have "distinct (map fst P')"
    using sP c(1) P'(1) by (metis (no_types, lifting) distinct.simps(2) fst_conv image_mset_add_mset list.set_map
        mset.simps(2) mset_eq_imp_distinct_iff mset_map strict_sorted_iff)
  moreover have "sorted (map fst P')" unfolding P'_def by (rule sorted_insort_key [THEN iffD2]) (use sP in \<open>simp add: strict_sorted_iff\<close>)
  ultimately have "sorted_wrt (<) (map fst P')" by (simp add: strict_sorted_iff)
  then show p': "pivots_ok lo hi n P'" using P c(2) m P'(2) unfolding pivots_ok_def by auto
  have room': "innsize n + length P' \<le> INNER_N C" "innsize n + length P \<le> INNER_N C" using room l by simp_all
  have b: "\<forall>p \<in> set P. fst p \<le> innsize n" using P unfolding pivots_ok_def by auto
  note k = kept_kid [OF n P room'(2) c x]
  obtain x' where x': "insertPivots P' n = Inr x'" "ubuf x' = ubuf n" "bmsgs x' = bmsgs n"
      "innsize x' = innsize n + length P'" "length (ipivots x') = INNER_N C" "length (ichildren x') = INNER_N C + 1"
      "bseps x' = ins_seps P' (bseps n)" "bkids x' = ins_kids P' (bkids n)"
    using node_with_pivots [OF n p' room'(1)] by blast
  have "ins_seps P' (bseps n) = ins (moved P c) m (bseps x)"
    using ins_insort(1) [OF sP c(1), of "bseps n" m r] b c(2) z(5) by (simp add: P'_def k(2))
  moreover have "ins_kids P' (bkids n) = ins (Suc (moved P c)) r (bkids x)"
    using ins_insort(2) [OF sP c(1), of "bkids n" m r] b c(2) z(6) by (simp add: P'_def k(3))
  ultimately show "\<exists>x'. insertPivots P' n = Inr x' \<and> bmsgs x' = bmsgs x \<and> ubuf x' = ubuf x \<and> innsize x' = innsize n + length P' \<and>
           length (ipivots x') = INNER_N C \<and> length (ichildren x') = INNER_N C + 1 \<and>
           bseps x' = take (moved P c) (bseps x) @ m # drop (moved P c) (bseps x) \<and>
           bkids x' = take (Suc (moved P c)) (bkids x) @ r # drop (Suc (moved P c)) (bkids x)"
    using x' k(1) by (simp add: ins_def bmsgs_def)
qed

section \<open>From a child to the family\<close>

lemma kids_family:
  assumes g: "fgood C X (F @ [(Suc h, lo, hi, i)])" and n: "X i = Some (BeInner n, b)"
  shows "fgood C X (F @ kfam h lo (bseps n) (bkids n) hi)"
proof -
  have g': "fgood C X F" "good C (Suc h) X lo hi i" "set (fids X F) \<inter> set (be_ids (Suc h) X i) = {}"
    using g unfolding fgood_append fgood_single by simp_all
  have "be_ids (Suc h) X i = i # fids X (kfam h lo (bseps n) (bkids n) hi)"
    by (rule be_ids_inner [where X = X and i = i, OF n])
  then show ?thesis using g' good_kids(1) [where X = X, OF g'(2) n] unfolding fgood_append by auto
qed

lemma kid_evolves:
  assumes g: "fgood C X (F @ [(Suc h, lo, hi, i)])" and n: "X i = Some (BeInner n, b)" and j: "j \<le> innsize n"
    and e: "evolves C h X X' (lo_at lo (bseps n) j) (hi_at (bseps n) hi j) (bkids n ! j)"
  shows "fevolves C X X' (F @ [(Suc h, lo, hi, i)])" "X' i = X i"
proof -
  let ?K = "kfam h lo (bseps n) (bkids n) hi" and ?k = "(h, lo_at lo (bseps n) j, hi_at (bseps n) hi j, bkids n ! j)"
  have gi: "good C (Suc h) X lo hi i" using g unfolding fgood_append fgood_single by blast
  have jl: "j < length (bkids n)" using be_inner_okD(6) [OF good_kids(3) [where X = X, OF gi n]] j by simp
  note K = kfam_cut [OF jl, of h lo "bseps n" hi]
  have p: "mset ([?k] @ F @ take j ?K @ drop (Suc j) ?K) = mset (F @ ?K)"
    by (subst (3) K) simp
  have "fgood C X ([?k] @ F @ take j ?K @ drop (Suc j) ?K)"
    by (rule fgood_perm [OF p [symmetric] kids_family [where X = X, OF g n]])
  from fevolves_frame(1) [OF this] e have "fevolves C X X' ([?k] @ F @ take j ?K @ drop (Suc j) ?K)"
    by (simp add: fevolves_single)
  then have "fevolves C X X' (F @ ?K)" by (rule fevolves_perm [OF p])
  from fevolves_up [where X = X and i = i, OF g n this] show "fevolves C X X' (F @ [(Suc h, lo, hi, i)])" "X' i = X i"
    by blast+
qed

lemma family_evolves:
  assumes "fgood C X (F @ [(h, lo, hi, i)])" "evolves C h X X' lo hi i"
  shows "fevolves C X X' (F @ [(h, lo, hi, i)])"
proof -
  have p: "mset ([(h, lo, hi, i)] @ F) = mset (F @ [(h, lo, hi, i)])" by simp
  have "fgood C X ([(h, lo, hi, i)] @ F)" by (rule fgood_perm [OF p [symmetric] assms(1)])
  from fevolves_frame(1) [OF this] assms(2) have "fevolves C X X' ([(h, lo, hi, i)] @ F)" by (simp add: fevolves_single)
  then show ?thesis by (rule fevolves_perm [OF p])
qed

text \<open>The pivots after the step of one child.\<close>

definition add_pivots :: "(nat \<times> 'k \<times> nat) list \<Rightarrow> (nat \<times> 'k \<times> nat) list \<Rightarrow> (nat \<times> 'k \<times> nat) list" where
  "add_pivots pivs P = foldr (insort_key fst) pivs P"

lemma add_pivots_simps [simp]: "add_pivots [] P = P" "add_pivots [y] P = insort_key fst y P"
  by (simp_all add: add_pivots_def)

lemma kid_step_lift:
  assumes g: "fgood C X (F @ [(Suc h, lo, hi, p)])" and n: "be_inner_ok C n" and P: "pivots_ok lo hi n P"
    and room: "innsize n + length P < INNER_N C" and c: "c \<notin> fst ` set P" "c \<le> innsize n"
    and x: "X p = Some (BeInner x, [])" "insertPivots P n = Inr x"
    and step: "kid_step C h X X1 (lo_at lo (bseps n) c) (hi_at (bseps n) hi c) (bkids n ! c) c pivs"
  shows "\<exists>x'. insertPivots (add_pivots pivs P) n = Inr x' \<and>
           fevolves C X (X1(p \<mapsto> (BeInner x', []))) (F @ [(Suc h, lo, hi, p)]) \<and>
           pivots_ok lo hi n (add_pivots pivs P) \<and> length (add_pivots pivs P) = length P + length pivs \<and>
           set (bkids x') = set (bkids x) \<union> (snd \<circ> snd) ` set pivs \<and>
           fst ` set (add_pivots pivs P) \<subseteq> insert c (fst ` set P)"
proof -
  have gp: "good C (Suc h) X lo hi p" using g unfolding fgood_append fgood_single by blast
  note xo = good_kids [where X = X, OF gp x(1)]
  note zx = be_inner_okD [OF xo(3)]
  have room': "innsize n + length P \<le> INNER_N C" using room by simp
  note k = kept_kid [OF n P room' c x(2)]
  show ?thesis
  proof (cases pivs)
    case Nil
    then have e: "evolves C h X X1 (lo_at lo (bseps x) (moved P c)) (hi_at (bseps x) hi (moved P c)) (bkids x ! moved P c)"
      using step k(5) k(6,7) by (simp add: kid_step_def)
    note ke = kid_evolves [where X = X, OF g x(1) k(4) e]
    have "X1(p \<mapsto> (BeInner x, [])) = X1" using ke(2) x(1) by (simp add: fun_upd_idem)
    then show ?thesis using Nil x(2) P ke(1) by auto
  next
    case (Cons y ys)
    then obtain m r where y: "pivs = [(c, m, r)]"
        "splits C h X X1 (lo_at lo (bseps n) c) (hi_at (bseps n) hi c) (bkids n ! c) m r"
      using step by (auto simp: kid_step_def)
    note sp = splitsD [OF y(2)]
    note o = one_more_pivot [OF n P room c sp(2,3) x(2) refl, of r]
    obtain x' where x': "insertPivots (insort_key fst (c, m, r) P) n = Inr x'" "bmsgs x' = bmsgs x" "ubuf x' = ubuf x"
        "innsize x' = innsize n + length (insort_key fst (c, m, r) P)"
        "length (ipivots x') = INNER_N C" "length (ichildren x') = INNER_N C + 1"
        "bseps x' = take (moved P c) (bseps x) @ m # drop (moved P c) (bseps x)"
        "bkids x' = take (Suc (moved P c)) (bkids x) @ r # drop (Suc (moved P c)) (bkids x)"
      using o(1) by blast
    have sp': "splits C h X X1 (lo_at lo (bseps x) (moved P c)) (hi_at (bseps x) hi (moved P c)) (bkids x ! moved P c) m r"
      using y(2) k(5) k(6,7) by simp
    have mj: "moved P c \<le> length (bseps x)" using k(4) zx(5) by simp
    note sb = sorted_insert_between [OF zx(4) mj splitsD(2,3) [OF sp'] xo(4)]
    have ok': "be_inner_ok C x'"
      using x' sb(1) zx(7,8,9) room o(3) unfolding be_inner_ok_def by simp
    have up: "evolves C (Suc h) X (X1(p \<mapsto> (BeInner x', []))) lo hi p"
      by (rule splits_up(1) [where X = X and i = p, OF gp x(1) k(4) sp' refl ok' x'(2,7,8)])
    have "set (bkids x') = insert r (set (take (Suc (moved P c)) (bkids x)) \<union> set (drop (Suc (moved P c)) (bkids x)))"
      using x'(8) by simp
    also have "\<dots> = insert r (set (bkids x))" by (metis append_take_drop_id set_append)
    finally show ?thesis
      using y(1) x'(1) o(2,3) family_evolves [OF g up] by (auto simp: set_insort_key)
  qed
qed

section \<open>A leaf among the children\<close>

fun work_pages :: "('k, 'v) leaf_work \<Rightarrow> nat list" where
  "work_pages (c, None, v) = [c]"
| "work_pages (c, Some (m, r), v) = [c, r]"

definition leaf_waits :: "('k::linorder, 'v) be_config \<Rightarrow> ('k, 'v) be_state \<Rightarrow> nat \<Rightarrow> ('k, 'v) upsert list \<Rightarrow> bool" where
  "leaf_waits C X t v \<longleftrightarrow> (\<exists>l. X t = Some (BeLeaf l, v) \<and> fits (LEAF_N C) (set (leaf_keys l)) v)"

fun work_ok :: "('k::linorder, 'v) be_config \<Rightarrow> ('k, 'v) be_state \<Rightarrow> ('k, 'v) leaf_work \<Rightarrow> bool" where
  "work_ok C X (c, spl, v) \<longleftrightarrow>
     (\<forall>t \<in> set (work_pages (c, spl, v)). leaf_waits C X t (filter (\<lambda>u. side c spl u = t) v))"

lemma work_pages_side: "side c spl u \<in> set (work_pages (c, spl, v))"
  by (cases spl) auto

lemma work_ok_cong: "work_ok C X w \<Longrightarrow> (\<And>t. t \<in> set (work_pages w) \<Longrightarrow> X' t = X t) \<Longrightarrow> work_ok C X' w"
  by (cases w) (auto simp: leaf_waits_def)

lemma evolves_refl: "good C h X lo hi i \<Longrightarrow> evolves C h X X lo hi i"
  using fevolves_refl [of C X "[(h, lo, hi, i)]"] by (simp add: fgood_single fevolves_single)

lemma handle_leaf_child_run:
  fixes X :: "('k::linorder, 'v::semigroup_add) be_state"
  assumes g: "good C 0 X lo hi k" and X: "X k = Some (BeLeaf l, b)" and C: "config_ok C"
    and s: "xst s ((nds X)(p \<mapsto> z)) S N" "k \<in> S" "p \<noteq> k" "card S < N"
  shows "\<exists>pivs w s' X'. handle_leaf_child C ci k b s = Inr (pivs, w, s') \<and> kid_step C 0 X X' lo hi k ci pivs \<and>
           xst s' ((nds X')(p \<mapsto> z)) (S \<union> set (work_pages w)) N \<and> work_pages w = kid_pages k pivs \<and> work_ok C X' w \<and>
           noisy X' \<subseteq> noisy X \<union> set (work_pages w) \<and> (\<forall>y \<in> set pivs. snd (snd y) \<notin> insert p S)"
proof -
  have ok: "bleaf_ok C l" "\<forall>y \<in> set (leaf_keys l). within lo hi y" "inbox_ok C lo hi b"
    using g X by (auto simp: good_def)
  note i = inbox_okD [OF ok(3)] and z = leaf_okD [OF ok(1)]
  have L: "length (keys l) = LEAF_N C" "lsize l \<le> LEAF_N C" using z by simp_all
  have at: "((nds X)(p \<mapsto> z)) k = Some (BeLeaf l)" for z using X s(3) by (simp add: nds_def)
  have get: "be_leaf_at k s = Inr l" using be_leaf_run [OF s(1,2) at] .
  show ?thesis
  proof (cases "leaf_needs_split (keys l) (lsize l) b (lsize l) []")
    case False
    have "fits (length (keys l)) (set (leaf_keys l)) b"
      by (rule leaf_needs_split_False [OF False])
        (use i(1) L config_okD(2) [OF C] leaf_card [OF ok(1)] in
          \<open>auto simp: upserts_ok_def strict_sorted_iff leaf_keys_def\<close>)
    then have "work_ok C X (k, None, b)" using X L by (simp add: leaf_waits_def)
    moreover have "handle_leaf_child C ci k b s = Inr ([], (k, None, b), s)"
      unfolding handle_leaf_child_def using get False by simp
    ultimately show ?thesis using evolves_refl [OF g] s(1,2)
      by (intro exI [of _ "[]"] exI [of _ "(k, None, b)"] exI [of _ s] exI [of _ X])
        (simp add: kid_step_def kid_pages_def insert_absorb subset_insertI)
  next
    case True
    have n: "LEAF_N C < lsize l + length b" using leaf_needs_split_True [OF True] L by simp
    define m where "m = leaf_median (leaf_keys l) (map ukey b)"
    note f = leaf_split_fits [OF C ok(1) i(1) n i(2) m_def]
    have "\<forall>y \<in> set (leaf_keys l) \<union> ukey ` set b. within lo hi y" using ok(2) i(3) by auto
    then have m: "gt_lo lo m" "lt_hi hi m" using f(5) f(6) [of hi] by (auto simp: within_def)
    obtain r s1 where r: "be_splitLeafNode C k m s = Inr (r, m, s1)" "r \<notin> dom ((nds X)(p \<mapsto> z))" "r \<notin> S"
        "xst s1 ((nds X)(p \<mapsto> z, r \<mapsto> BeLeaf (bleaf_right C m l), k \<mapsto> BeLeaf (bleaf_left m l))) (insert r S) N"
      using be_splitLeafNode_run [where p = k, OF s(1,2) at f(2) s(4)] by blast
    have rd: "r \<notin> dom X" "r \<noteq> p" using r(2) by auto
    have rk: "r \<noteq> k" using rd(1) X by auto
    define X' where "X' = X(r \<mapsto> (BeLeaf (bleaf_right C m l), filter (\<lambda>u. m < ukey u) b),
                            k \<mapsto> (BeLeaf (bleaf_left m l), filter (\<lambda>u. ukey u \<le> m) b))"
    have sp: "splits C 0 X X' lo hi k m r"
      unfolding X'_def by (rule split_leaf_splits [where X = X and c = k, OF X g m rd(1)])
    have nd: "(nds X)(p \<mapsto> z, r \<mapsto> BeLeaf (bleaf_right C m l), k \<mapsto> BeLeaf (bleaf_left m l)) = (nds X')(p \<mapsto> z)"
      using rd(2) s(3) by (auto simp: X'_def)
    have flt: "filter (\<lambda>u. side k (Some (m, r)) u = k) b = filter (\<lambda>u. ukey u \<le> m) b"
        "filter (\<lambda>u. side k (Some (m, r)) u = r) b = filter (\<lambda>u. m < ukey u) b"
      using rk by (auto intro!: filter_cong)
    have "work_ok C X' (k, Some (m, r), b)"
      unfolding work_ok.simps work_pages.simps list.set ball_simps flt leaf_waits_def using f(3,4) rk by (simp add: X'_def)
    moreover have "handle_leaf_child C ci k b s = Inr ([(ci, m, r)], (k, Some (m, r), b), s1)"
      unfolding handle_leaf_child_def using get True f(1) r(1) by simp
    moreover have "noisy X' \<subseteq> noisy X \<union> {k, r}" by (auto simp: noisy_def X'_def inbox_def)
    moreover have "xst s1 ((nds X')(p \<mapsto> z)) (S \<union> {k, r}) N" using r(4) nd s(2) by (simp add: insert_absorb)
    ultimately show ?thesis using sp rd r(3)
      by (intro exI [of _ "[(ci, m, r)]"] exI [of _ "(k, Some (m, r), b)"] exI [of _ s1] exI [of _ X'])
        (simp add: kid_step_def kid_pages_def)
  qed
qed

section \<open>The leaves at the end\<close>

text \<open>The leaves \<open>ts\<close> take the messages that wait for them.\<close>

definition settle :: "nat set \<Rightarrow> ('k::linorder, 'v::plus) be_state \<Rightarrow> ('k, 'v) be_state" where
  "settle ts X = (\<lambda>x. if x \<in> ts then (case X x of Some (BeLeaf l, b) \<Rightarrow> Some (BeLeaf (fold leaf_apply b l), []) | y \<Rightarrow> y)
                      else X x)"

lemma settle_simps:
  "x \<notin> ts \<Longrightarrow> settle ts X x = X x"
  "x \<in> ts \<Longrightarrow> X x = Some (BeLeaf l, b) \<Longrightarrow> settle ts X x = Some (BeLeaf (fold leaf_apply b l), [])"
  "settle {} X = X"
  by (auto simp: settle_def)

lemma settle_insert:
  "t \<notin> ts \<Longrightarrow> X t = Some (BeLeaf l, b) \<Longrightarrow>
   settle (insert t ts) X = settle ts (X(t \<mapsto> (BeLeaf (fold leaf_apply b l), [])))"
  by (auto simp: settle_def fun_eq_iff)

lemma settle_evolves:
  fixes X :: "('k::linorder, 'v::semigroup_add) be_state"
  assumes "fgood C X (F @ [(Suc 0, lo, hi, p)])" "X p = Some (BeInner n, b)" "distinct ts" "set ts \<subseteq> set (bkids n)"
    "\<forall>t \<in> set ts. \<exists>v. leaf_waits C X t v"
  shows "fevolves C X (settle (set ts) X) (F @ [(Suc 0, lo, hi, p)]) \<and> settle (set ts) X p = X p"
  using assms
proof (induction ts arbitrary: X)
  case Nil
  then show ?case using fevolves_refl by (auto simp: settle_simps)
next
  case (Cons t ts)
  obtain l v where t: "X t = Some (BeLeaf l, v)" "fits (LEAF_N C) (set (leaf_keys l)) v"
    using Cons.prems(5) by (auto simp: leaf_waits_def)
  have gp: "good C (Suc 0) X lo hi p" using Cons.prems(1) unfolding fgood_append fgood_single by blast
  note k = good_kids [where X = X, OF gp Cons.prems(2)]
  note z = be_inner_okD [OF k(3)]
  obtain j where j: "j < length (bkids n)" "t = bkids n ! j" using Cons.prems(4) by (auto simp: in_set_conv_nth)
  then have jn: "j \<le> innsize n" using z(6) by simp
  let ?X = "X(t \<mapsto> (BeLeaf (fold leaf_apply v l), []))"
  have gt: "good C 0 X (lo_at lo (bseps n) j) (hi_at (bseps n) hi j) t"
    using fgoodD [OF k(1) kfam_in [OF j(1)]] j(2) by simp
  have "evolves C 0 X ?X (lo_at lo (bseps n) j) (hi_at (bseps n) hi j) (bkids n ! j)"
    using leaf_evolves [where X = X, OF t(1) gt t(2)] j(2) by simp
  note e = kid_evolves [where X = X, OF Cons.prems(1,2) jn this]
  have g': "fgood C ?X (F @ [(Suc 0, lo, hi, p)])" by (rule fevolvesD(1) [OF e(1)])
  have "\<forall>x \<in> set ts. \<exists>v. leaf_waits C ?X x v" using Cons.prems(3,5) by (auto simp: leaf_waits_def)
  moreover have xp: "?X p = Some (BeInner n, b)" using e(2) Cons.prems(2) by (simp only:)
  moreover have "distinct ts" "set ts \<subseteq> set (bkids n)" using Cons.prems(3,4) by simp_all
  ultimately have IH: "fevolves C ?X (settle (set ts) ?X) (F @ [(Suc 0, lo, hi, p)])" "settle (set ts) ?X p = ?X p"
    using Cons.IH [OF g'] by blast+
  moreover have "settle (set (t # ts)) X = settle (set ts) ?X"
    using settle_insert [where X = X, OF _ t(1), of "set ts"] Cons.prems(3) by simp
  ultimately show ?case using fevolves_trans [OF e(1) IH(1)] e(2) by metis
qed

lemma finish_leaves_run:
  fixes X :: "('k::linorder, 'v::semigroup_add) be_state"
  assumes "xst s (nds X) S N" "distinct (concat (map work_pages W))" "set (concat (map work_pages W)) \<subseteq> S"
    "\<forall>w \<in> set W. work_ok C X w" "\<forall>w \<in> set W. \<forall>t \<in> set (work_pages w). \<exists>l b. X t = Some (BeLeaf l, b) \<and> bleaf_ok C l"
    "\<not> debugBuild C"
  shows "\<exists>s'. finish_leaves C W s = Inr s' \<and>
           xst s' (nds (settle (set (concat (map work_pages W))) X)) (S - set (concat (map work_pages W))) N"
  using assms
proof (induction W arbitrary: s X S)
  case Nil
  then show ?case by (simp add: settle_simps)
next
  case (Cons w W)
  obtain c spl v where w: "w = (c, spl, v)" by (metis prod_cases3)
  define T where "T = set (work_pages w)"
  have wp: "work_pages w = (case spl of None \<Rightarrow> [c] | Some (m, r) \<Rightarrow> [c, r])" by (cases spl) (auto simp: w)
  define lf where "lf t = (case X t of Some (BeLeaf l, b) \<Rightarrow> l)" for t
  have at: "X t = Some (BeLeaf (lf t), filter (\<lambda>u. side c spl u = t) v) \<and> bleaf_ok C (lf t) \<and>
      fits (LEAF_N C) (set (leaf_keys (lf t))) (filter (\<lambda>u. side c spl u = t) v)" if t: "t \<in> T" for t
  proof -
    have "leaf_waits C X t (filter (\<lambda>u. side c spl u = t) v)" using Cons.prems(4) t by (simp add: w T_def)
    moreover obtain l b where "X t = Some (BeLeaf l, b)" "bleaf_ok C l" using Cons.prems(5) t by (auto simp: T_def)
    ultimately show ?thesis by (auto simp: leaf_waits_def lf_def)
  qed
  have "\<forall>u \<in> set v. side c spl u \<in> T" unfolding T_def w by (intro ballI work_pages_side)
  moreover have TS: "T \<subseteq> S" using Cons.prems(3) by (auto simp: T_def)
  moreover have "\<forall>t \<in> T. nds X t = Some (BeLeaf (lf t)) \<and> bleaf_ok C (lf t) \<and>
       fits (LEAF_N C) (set (leaf_keys (lf t))) (filter (\<lambda>u. side c spl u = t) v)"
    using at by (auto simp: nds_def)
  ultimately obtain s1 where s1: "apply_leaf_messages C c spl v s = Inr s1"
      "xst s1 (\<lambda>x. if x \<in> T then Some (BeLeaf (fold leaf_apply (filter (\<lambda>u. side c spl u = x) v) (lf x))) else nds X x) S N"
    using apply_leaf_messages_run [OF Cons.prems(1), of v c spl T C lf] Cons.prems(6) by blast
  have nd1: "(\<lambda>x. if x \<in> T then Some (BeLeaf (fold leaf_apply (filter (\<lambda>u. side c spl u = x) v) (lf x))) else nds X x) =
      nds (settle T X)"
    using at by (auto simp: fun_eq_iff nds_def settle_def)
  note x1 = s1(2) [unfolded nd1]
  have cT: "c \<in> T" by (cases spl) (auto simp: T_def w)
  obtain s2 where s2: "ps_unpin True c s1 = Inr s2" "xst s2 (nds (settle T X)) (S - {c}) N"
    using xst_unpin [OF x1] cT TS by blast
  obtain s3 where s3: "(case spl of None \<Rightarrow> Inr s2 | Some (_, rightPage) \<Rightarrow> ps_unpin True rightPage s2) = Inr s3"
      "xst s3 (nds (settle T X)) (S - T) N"
  proof (cases spl)
    case None
    then have "T = {c}" using wp by (simp add: T_def)
    then show ?thesis using that [of s2] s2(2) None by simp
  next
    case (Some mr)
    obtain m r where mr: "mr = (m, r)" by (cases mr)
    have T: "T = {c, r}" "c \<noteq> r" using Cons.prems(2) Some mr by (auto simp: T_def w)
    then have "r \<in> S - {c}" using TS by auto
    then obtain s3 where "ps_unpin True r s2 = Inr s3" "xst s3 (nds (settle T X)) (S - {c} - {r}) N"
      using xst_unpin [OF s2(2)] by blast
    moreover have "S - {c} - {r} = S - T" using T by auto
    ultimately show ?thesis using that [of s3] Some mr by simp
  qed
  have disj: "T \<inter> set (concat (map work_pages W)) = {}" using Cons.prems(2) by (auto simp: T_def)
  have keep: "settle T X t = X t" if "w' \<in> set W" "t \<in> set (work_pages w')" for w' t
    using that disj by (intro settle_simps(1)) auto
  have i1: "\<forall>w \<in> set W. work_ok C (settle T X) w"
  proof
    fix w' assume w': "w' \<in> set W"
    show "work_ok C (settle T X) w'"
      by (rule work_ok_cong [of C X]) (use Cons.prems(4) w' keep [OF w'] in auto)
  qed
  have i2: "\<forall>w \<in> set W. \<forall>t \<in> set (work_pages w). \<exists>l b. settle T X t = Some (BeLeaf l, b) \<and> bleaf_ok C l"
  proof (intro ballI)
    fix w' t assume "w' \<in> set W" "t \<in> set (work_pages w')"
    then show "\<exists>l b. settle T X t = Some (BeLeaf l, b) \<and> bleaf_ok C l"
      using Cons.prems(5) keep [of w' t] by simp
  qed
  have i3: "set (concat (map work_pages W)) \<subseteq> S - T" using Cons.prems(3) disj by auto
  have i4: "distinct (concat (map work_pages W))" using Cons.prems(2) by simp
  obtain s' where s': "finish_leaves C W s3 = Inr s'"
      "xst s' (nds (settle (set (concat (map work_pages W))) (settle T X))) (S - T - set (concat (map work_pages W))) N"
    using Cons.IH [OF s3(2) i4 i3 i1 i2 Cons.prems(6)] by (elim exE conjE) rule
  have "settle (set (concat (map work_pages W))) (settle T X) = settle (set (concat (map work_pages (w # W)))) X"
    using disj by (auto simp: settle_def T_def fun_eq_iff)
  moreover have "S - T - set (concat (map work_pages W)) = S - set (concat (map work_pages (w # W)))"
    by (auto simp: T_def)
  moreover have "finish_leaves C (w # W) s = Inr s'" using s1(1) s2(1) s3(1) s'(1) by (simp add: w)
  ultimately show ?case using s'(2) by metis
qed

section \<open>The loop over the children\<close>

definition jobs :: "(nat \<times> ('k, 'v) message_map) list \<Rightarrow> ('k, 'v) leaf_work list \<Rightarrow> nat list" where
  "jobs Q W = map fst Q @ concat (map work_pages W)"

lemma jobs_simps [simp]: "jobs [] [] = []" "jobs Q [] = map fst Q" "jobs [] [w] = work_pages w"
  by (simp_all add: jobs_def)

lemma set_jobs: "set (jobs (Q @ Q') (W @ W')) = set (jobs Q W) \<union> set (jobs Q' W')"
  by (auto simp: jobs_def)

lemma length_jobs: "length (jobs (Q @ Q') (W @ W')) = length (jobs Q W) + length (jobs Q' W')"
  by (simp add: jobs_def)

lemma distinct_jobs:
  "distinct (jobs Q W) \<Longrightarrow> distinct (jobs Q' W') \<Longrightarrow> set (jobs Q W) \<inter> set (jobs Q' W') = {} \<Longrightarrow>
   distinct (jobs (Q @ Q') (W @ W'))"
  by (auto simp: jobs_def)

text \<open>The pages that have messages on the way to them, apart from the remaining entries.\<close>

definition busy :: "('k, 'v) be_state \<Rightarrow> (nat \<times> ('k, 'v) message_map) list \<Rightarrow> ('k, 'v) leaf_work list \<Rightarrow> nat set" where
  "busy X Q W = \<Union> (kids X ` fst ` set Q) \<union> set (concat (map work_pages W))"

lemma busy_append: "busy X (Q @ Q') (W @ W') = busy X Q W \<union> busy X Q' W'"
  by (auto simp: busy_def)

definition passing ::
  "('k::linorder, 'v::plus) be_config \<Rightarrow> nat \<Rightarrow> nat \<Rightarrow> 'k option \<Rightarrow> 'k option \<Rightarrow> nat \<Rightarrow> ('k, 'v) be_inner \<Rightarrow> 'k family \<Rightarrow>
   (nat \<times> ('k, 'v) message_map) list \<Rightarrow> (nat \<times> ('k, 'v) upsert list) list \<Rightarrow> (nat \<times> 'k \<times> nat) list \<Rightarrow>
   (nat \<times> ('k, 'v) message_map) list \<Rightarrow> ('k, 'v) leaf_work list \<Rightarrow> ('k, 'v) be_state \<Rightarrow> ('k, 'v) be_node pstore \<Rightarrow> bool"
where
  "passing C N h lo hi p n F Q0 E P Qn W X s \<longleftrightarrow>
     fgood C X (F @ [(Suc h, lo, hi, p)]) \<and>
     (\<exists>x. X p = Some (BeInner x, []) \<and> insertPivots P n = Inr x) \<and>
     be_inner_ok C n \<and> pivots_ok lo hi n P \<and> innsize n + length P + length E \<le> INNER_N C \<and>
     distinct (map fst E) \<and> fst ` set P \<inter> fst ` set E = {} \<and>
     (\<forall>(c, v) \<in> set E. c \<le> innsize n \<and> inbox X (bkids n ! c) = v \<and> bkids n ! c \<in> kids X p) \<and>
     (\<forall>(q, mm) \<in> set Qn. pend C X q mm) \<and> (\<forall>w \<in> set W. work_ok C X w) \<and> set (jobs Qn W) \<subseteq> kids X p \<and>
     distinct (jobs Qn W) \<and> set (jobs Qn W) \<inter> (\<lambda>(c, v). bkids n ! c) ` set E = {} \<and>
     noisy X \<subseteq> busy X (Q0 @ Qn) W \<union> (\<lambda>(c, v). bkids n ! c) ` set E \<and> fst ` set Q0 \<subseteq> set (fids X F) \<and>
     xst s ((nds X)(p \<mapsto> BeInner n)) (insert p (fst ` set Q0 \<union> set (jobs Qn W))) N \<and>
     length Q0 + 1 + length (jobs Qn W) + 2 * length E \<le> N"

lemma passingD:
  assumes "passing C N h lo hi p n F Q0 E P Qn W X s"
  shows "fgood C X (F @ [(Suc h, lo, hi, p)])" "\<exists>x. X p = Some (BeInner x, []) \<and> insertPivots P n = Inr x"
    "be_inner_ok C n" "pivots_ok lo hi n P" "innsize n + length P + length E \<le> INNER_N C"
    "distinct (map fst E)" "fst ` set P \<inter> fst ` set E = {}"
    "(c, v) \<in> set E \<Longrightarrow> c \<le> innsize n \<and> inbox X (bkids n ! c) = v \<and> bkids n ! c \<in> kids X p"
    "(q, mm) \<in> set Qn \<Longrightarrow> pend C X q mm" "w \<in> set W \<Longrightarrow> work_ok C X w" "set (jobs Qn W) \<subseteq> kids X p"
    "distinct (jobs Qn W)" "set (jobs Qn W) \<inter> (\<lambda>(c, v). bkids n ! c) ` set E = {}"
    "noisy X \<subseteq> busy X (Q0 @ Qn) W \<union> (\<lambda>(c, v). bkids n ! c) ` set E" "fst ` set Q0 \<subseteq> set (fids X F)"
    "xst s ((nds X)(p \<mapsto> BeInner n)) (insert p (fst ` set Q0 \<union> set (jobs Qn W))) N"
    "length Q0 + 1 + length (jobs Qn W) + 2 * length E \<le> N"
  by (insert assms [unfolded passing_def], ((elim conjE, assumption) | (elim conjE, drule (1) bspec, simp))+)

lemma kid_step_after:
  assumes "kid_step C h X X1 lo hi k ci pivs" "q \<in> set (kid_pages k pivs)"
  shows "\<exists>lo' hi'. good C h X1 lo' hi' q" "set (be_ids h X1 q) \<inter> dom X \<subseteq> set (be_ids h X k)"
proof -
  have "(\<exists>lo' hi'. good C h X1 lo' hi' q) \<and> set (be_ids h X1 q) \<inter> dom X \<subseteq> set (be_ids h X k)"
  proof (cases pivs)
    case Nil
    then have "evolves C h X X1 lo hi k" "q = k" using assms by (auto simp: kid_step_def kid_pages_def)
    then show ?thesis unfolding evolves_def by (blast dest: growsD(2))
  next
    case (Cons y ys)
    then obtain m r where y: "pivs = [(ci, m, r)]" "splits C h X X1 lo hi k m r" using assms(1) by (auto simp: kid_step_def)
    have "q = k \<or> q = r" using assms(2) y(1) by (auto simp: kid_pages_def)
    then show ?thesis using splitsD(1,4) [OF y(2)] growsD(2) [OF splitsD(4) [OF y(2)]] by (auto simp: fgood_def)
  qed
  then show "\<exists>lo' hi'. good C h X1 lo' hi' q" "set (be_ids h X1 q) \<inter> dom X \<subseteq> set (be_ids h X k)" by blast+
qed

lemma kid_step_new:
  assumes "kid_step C h X X1 lo hi k ci pivs"
  shows "(snd \<circ> snd) ` set pivs \<inter> dom X = {}" "length pivs \<le> 1" "dom X \<subseteq> dom X1" "length (kid_pages k pivs) \<le> 2"
proof -
  have "(snd \<circ> snd) ` set pivs \<inter> dom X = {} \<and> length pivs \<le> 1 \<and> dom X \<subseteq> dom X1"
    using assms unfolding kid_step_def evolves_def
    by (auto dest: growsD(3) dest!: splitsD(4))
  then show "(snd \<circ> snd) ` set pivs \<inter> dom X = {}" "length pivs \<le> 1" "dom X \<subseteq> dom X1" "length (kid_pages k pivs) \<le> 2"
    by (auto simp: kid_pages_def)
qed

lemma kids_cong: "X' q = X q \<Longrightarrow> kids X' q = kids X q"
  by (simp add: kids_def)

text \<open>
  What is known about the pages below one child and about those next to it: \<open>K\<close> are the pages of
  the child.
\<close>

lemma beside_kid:
  assumes g: "fgood C X (F @ [(Suc h, lo, hi, p)])" and x: "X p = Some (BeInner x, b)" and k: "k \<in> kids X p"
  shows "p \<notin> set (be_ids h X k)" "set (fids X F) \<inter> set (be_ids h X k) = {}" "p \<notin> set (fids X F)"
    "q \<in> kids X p \<Longrightarrow> q \<noteq> k \<Longrightarrow> set (be_ids h X q) \<inter> set (be_ids h X k) = {}"
    "q \<in> kids X p \<Longrightarrow> p \<notin> set (be_ids h X q)" "q \<in> kids X p \<Longrightarrow> \<exists>lo hi. good C h X lo hi q"
    "kids X p \<subseteq> dom X" "p \<in> dom X" "set (fids X F) \<subseteq> dom X"
proof -
  have gp: "good C (Suc h) X lo hi p" "fgood C X F" "set (fids X F) \<inter> set (be_ids (Suc h) X p) = {}"
    using g unfolding fgood_append fgood_single by simp_all
  note o = good_kids [where X = X, OF gp(1) x] and d = distinct_kids [where X = X, OF gp(1) x]
  have kx: "kids X p = set (bkids x)" using x by simp
  have ids: "be_ids (Suc h) X p = p # concat (map (be_ids h X) (bkids x))" using x by simp
  have sub: "set (be_ids h X q) \<subseteq> set (concat (map (be_ids h X) (bkids x)))" if "q \<in> kids X p" for q
    using that kx by auto
  have dd: "p \<notin> set (concat (map (be_ids h X) (bkids x)))" "distinct (concat (map (be_ids h X) (bkids x)))"
    using o(1,2) by (simp_all add: fgood_def fids_kfam)
  show "q \<in> kids X p \<Longrightarrow> p \<notin> set (be_ids h X q)" for q using sub dd(1) by blast
  then show "p \<notin> set (be_ids h X k)" using k by blast
  show "set (fids X F) \<inter> set (be_ids h X k) = {}" using gp(3) sub [OF k] unfolding ids by auto
  show "p \<notin> set (fids X F)" using gp(3) unfolding ids by auto
  show "q \<in> kids X p \<Longrightarrow> q \<noteq> k \<Longrightarrow> set (be_ids h X q) \<inter> set (be_ids h X k) = {}"
    by (rule concat_disjoint(2) [where f = "be_ids h X", OF dd(2) in_be_ids]) (use k kx in auto)
  show "\<exists>lo hi. good C h X lo hi q" if q: "q \<in> kids X p"
  proof -
    obtain j where "j < length (bkids x)" "q = bkids x ! j" using q kx by (auto simp: in_set_conv_nth)
    then show ?thesis using fgoodD [OF o(1) kfam_in] by blast
  qed
  show "kids X p \<subseteq> dom X" using d(4) kx by simp
  show "p \<in> dom X" using x by blast
  show "set (fids X F) \<subseteq> dom X" by (rule fgood_dom [OF gp(2)])
qed

lemma passing_step:
  assumes pas: "passing C N h lo hi p n F Q0 ((c, v) # E) P Qn W X s" and k_def: "k = bkids n ! c"
    and step: "kid_step C h X X1 (lo_at lo (bseps n) c) (hi_at (bseps n) hi c) k c pivs"
    and j: "distinct (jobs Qk Wk)" "set (jobs Qk Wk) \<subseteq> set (kid_pages k pivs)"
    and w: "\<forall>(q, mm) \<in> set Qk. pend C X1 q mm" "\<forall>w \<in> set Wk. work_ok C X1 w"
    and noisy: "noisy X1 \<subseteq> noisy X - {k} \<union> busy X1 Qk Wk"
    and s1: "xst s1 ((nds X1)(p \<mapsto> BeInner n)) (insert p (fst ` set Q0 \<union> set (jobs Qn W)) \<union> set (jobs Qk Wk)) N"
  shows "\<exists>X'. passing C N h lo hi p n F Q0 E (add_pivots pivs P) (Qn @ Qk) (W @ Wk) X' s1 \<and>
           fevolves C X X' (F @ [(Suc h, lo, hi, p)]) \<and> (\<forall>y \<in> set (fids X F). X' y = X y)"
proof -
  note D = passingD [OF pas]
  obtain x where x: "X p = Some (BeInner x, [])" "insertPivots P n = Inr x" using D(2) by blast
  have c: "c \<le> innsize n" "inbox X k = v" "k \<in> kids X p" "c \<notin> fst ` set P" "c \<notin> fst ` set E"
    using D(8) [of c v] D(6,7) by (auto simp: k_def)
  have room: "innsize n + length P < INNER_N C" using D(5) by simp
  obtain x' where x': "insertPivots (add_pivots pivs P) n = Inr x'"
      "fevolves C X (X1(p \<mapsto> (BeInner x', []))) (F @ [(Suc h, lo, hi, p)])"
      "pivots_ok lo hi n (add_pivots pivs P)" "length (add_pivots pivs P) = length P + length pivs"
      "set (bkids x') = set (bkids x) \<union> (snd \<circ> snd) ` set pivs"
      "fst ` set (add_pivots pivs P) \<subseteq> insert c (fst ` set P)"
    using kid_step_lift [where X = X, OF D(1,3,4) room c(4,1) x step [unfolded k_def]] by blast
  define X' where "X' = X1(p \<mapsto> (BeInner x', []))"
  note b = beside_kid [where X = X, OF D(1) x(1) c(3)]
  note new = kid_step_new [OF step]
  have kX': "kids X' p = kids X p \<union> (snd \<circ> snd) ` set pivs" using x'(5) x(1) by (simp add: X'_def)
  have keep: "X' y = X y" if "y \<in> dom X" "y \<notin> set (be_ids h X k)" "y \<noteq> p" for y
    using kid_step_outside [OF step that(1,2)] that(3) by (simp add: X'_def)
  have keepF: "X' y = X y" if "y \<in> set (fids X F)" for y
    by (rule keep) (use that b(2,3,9) in blast)+
  have kid: "X' q = X q" "kids X' q = kids X q" "y \<in> kids X q \<Longrightarrow> X' y = X y" if q: "q \<in> kids X p" "q \<noteq> k" for q y
  proof -
    obtain lo' hi' where gq: "good C h X lo' hi' q" using b(6) [OF q(1)] by blast
    have ids: "set (be_ids h X q) \<subseteq> dom X" using be_ids_dom gq unfolding good_def by blast
    have out: "X' y = X y" if "y \<in> set (be_ids h X q)" for y
      by (rule keep) (use that ids b(4) [OF q] b(5) [OF q(1)] in blast)+
    show "X' q = X q" by (rule out) simp
    then show "kids X' q = kids X q" by (rule kids_cong)
    show "y \<in> kids X q \<Longrightarrow> X' y = X y" using out kids_ids [OF gq] by blast
  qed
  have jk: "q \<in> kids X p \<and> q \<noteq> k" if "q \<in> set (jobs Qn W)" for q
    using that D(11,13) by (auto simp: k_def)
  have jp: "p \<notin> set (be_ids h X1 q)" "\<exists>lo hi. good C h X1 lo hi q" if "q \<in> set (jobs Qk Wk)" for q
    using kid_step_after [OF step, of q] that j(2) b(1,8) by blast+
  have pend_old: "pend C X' q mm" if q: "(q, mm) \<in> set Qn" for q mm
  proof (rule pend_cong(1) [OF D(9) [OF q]])
    have "q \<in> set (jobs Qn W)" using q by (force simp: jobs_def)
    note q' = jk [OF this]
    show "X' q = X q" using kid(1) q' by blast
    show "inbox X' y = inbox X y" if "y \<in> kids X q" for y using kid(3) [of q y] q' that inbox_same by blast
    show "\<exists>h lo hi. good C h X lo hi q" using b(6) q' by blast
  qed
  have new_page: "X' q = X1 q" "kids X' q = kids X1 q" "y \<in> kids X1 q \<Longrightarrow> X' y = X1 y" if q: "q \<in> set (jobs Qk Wk)" for q y
  proof -
    obtain lo' hi' where gq: "good C h X1 lo' hi' q" using jp(2) [OF q] by blast
    have "q \<noteq> p" using jp(1) [OF q] by auto
    then show "X' q = X1 q" by (simp add: X'_def)
    then show "kids X' q = kids X1 q" by (rule kids_cong)
    show "y \<in> kids X1 q \<Longrightarrow> X' y = X1 y" using kids_ids [OF gq] jp(1) [OF q] by (auto simp: X'_def)
  qed
  have pend_new: "pend C X' q mm" if q: "(q, mm) \<in> set Qk" for q mm
  proof (rule pend_cong(1) [of C X1 q mm])
    show "pend C X1 q mm" using w(1) q by blast
    have q': "q \<in> set (jobs Qk Wk)" using q by (force simp: jobs_def)
    show "X' q = X1 q" by (rule new_page(1) [OF q'])
    show "inbox X' y = inbox X1 y" if "y \<in> kids X1 q" for y using new_page(3) [OF q'] that inbox_same by blast
    show "\<exists>h lo hi. good C h X1 lo hi q" using jp(2) [OF q'] by blast
  qed
  have work_old: "work_ok C X' y" if y: "y \<in> set W" for y
    by (rule work_ok_cong [OF D(10) [OF y]]) (use y jk kid(1) in \<open>force simp: jobs_def\<close>)
  have work_new: "work_ok C X' y" if y: "y \<in> set Wk" for y
    by (rule work_ok_cong [of C X1]) (use y w(2) new_page(1) in \<open>force simp: jobs_def\<close>)+
  have entries: "c' \<le> innsize n \<and> inbox X' (bkids n ! c') = v' \<and> bkids n ! c' \<in> kids X p \<and> bkids n ! c' \<noteq> k"
    if e: "(c', v') \<in> set E" for c' v'
  proof -
    have o: "c' \<le> innsize n" "inbox X (bkids n ! c') = v'" "bkids n ! c' \<in> kids X p" using D(8) [of c' v'] e by auto
    have ne: "c' \<noteq> c" using e c(5) by force
    have nP: "c' \<notin> fst ` set P" using D(7) e by force
    have rm: "innsize n + length P \<le> INNER_N C" using room by simp
    note k1 = kept_kid [OF D(3,4) rm c(4,1) x(2)] and k2 = kept_kid [OF D(3,4) rm nP o(1) x(2)]
    have gp: "good C (Suc h) X lo hi p" using D(1) unfolding fgood_append fgood_single by blast
    have "moved P c' \<noteq> moved P c"
    proof
      assume m: "moved P c' = moved P c"
      have "moved P a < moved P b" if "a < b" for a b
      proof -
        have "length (filter (\<lambda>p. fst p < a) P) \<le> length (filter (\<lambda>p. fst p < b) P)"
          using that by (induction P) auto
        then show ?thesis using that by (simp add: moved_def)
      qed
      then show False using m ne by (metis less_irrefl linorder_neqE_nat)
    qed
    moreover have "distinct (bkids x)" by (rule distinct_kids(1) [where X = X, OF gp x(1)])
    moreover have "length (bkids x) = innsize x + 1" by (rule be_inner_okD(6) [OF good_kids(3) [where X = X, OF gp x(1)]])
    ultimately have "bkids n ! c' \<noteq> k"
      using k1(4,5) k2(4,5) unfolding k_def by (metis Suc_eq_plus1 less_Suc_eq_le nth_eq_iff_index_eq)
    then show ?thesis using o kid(1) [of "bkids n ! c'"] inbox_same by metis
  qed
  have Sdom: "insert p (fst ` set Q0 \<union> set (jobs Qn W)) \<subseteq> dom X"
    using D(11,15) b(7,8,9) by blast
  have fresh: "set (jobs Qk Wk) \<inter> (set (jobs Qn W) \<union> (\<lambda>(c, v). bkids n ! c) ` set E) = {}"
  proof -
    have "k \<notin> set (jobs Qn W) \<union> (\<lambda>(c, v). bkids n ! c) ` set E" using jk entries by auto
    moreover have "set (jobs Qn W) \<union> (\<lambda>(c, v). bkids n ! c) ` set E \<subseteq> kids X p"
      using jk entries by auto
    with b(7) have "set (jobs Qn W) \<union> (\<lambda>(c, v). bkids n ! c) ` set E \<subseteq> dom X" by blast
    moreover have "set (jobs Qk Wk) \<subseteq> insert k ((snd \<circ> snd) ` set pivs)" using j(2) by (simp add: kid_pages_def)
    ultimately show ?thesis using new(1) by blast
  qed
  have noisy': "noisy X' \<subseteq> busy X' (Q0 @ Qn @ Qk) (W @ Wk) \<union> (\<lambda>(c, v). bkids n ! c) ` set E"
  proof
    fix y assume y: "y \<in> noisy X'"
    then have yp: "y \<noteq> p" by (auto simp: noisy_def X'_def)
    then have "y \<in> noisy X1" using y by (auto simp: noisy_def X'_def)
    then have "y \<in> noisy X - {k} \<or> y \<in> busy X1 Qk Wk" using noisy by blast
    moreover have "busy X' Qk Wk = busy X1 Qk Wk"
      using new_page(2) by (force simp: busy_def jobs_def)
    moreover have "busy X' (Q0 @ Qn) W = busy X (Q0 @ Qn) W"
    proof -
      have "kids X' q = kids X q" if q: "q \<in> fst ` set (Q0 @ Qn)" for q
      proof (cases "q \<in> fst ` set Q0")
        case True
        then have "X' q = X q" using keepF D(15) by blast
        then show ?thesis by (rule kids_cong)
      next
        case False
        then have "q \<in> set (jobs Qn W)" using q by (auto simp: jobs_def)
        then show ?thesis using jk kid(2) by blast
      qed
      then show ?thesis unfolding busy_def by auto
    qed
    ultimately show "y \<in> busy X' (Q0 @ Qn @ Qk) (W @ Wk) \<union> (\<lambda>(c, v). bkids n ! c) ` set E"
      using D(14) busy_append [of X' "Q0 @ Qn" Qk W Wk] by (auto simp: k_def)
  qed
  have store: "(nds X1)(p \<mapsto> BeInner n) = (nds X')(p \<mapsto> BeInner n)" by (simp add: X'_def)
  have "length (jobs Qk Wk) \<le> 2"
  proof -
    have "card (set (jobs Qk Wk)) \<le> card (set (kid_pages k pivs))" by (rule card_mono [OF _ j(2)]) simp
    also have "\<dots> \<le> length (kid_pages k pivs)" by (rule card_length)
    finally show ?thesis using new(4) distinct_card [OF j(1)] by simp
  qed
  then have len: "length Q0 + 1 + length (jobs (Qn @ Qk) (W @ Wk)) + 2 * length E \<le> N"
    using D(17) by (simp add: length_jobs)
  have ev: "fevolves C X X' (F @ [(Suc h, lo, hi, p)])" using x'(2) by (simp add: X'_def)
  have jobs_kids: "set (jobs (Qn @ Qk) (W @ Wk)) \<subseteq> kids X' p"
    using D(11) j(2) c(3) unfolding set_jobs kX' kid_pages_def by (auto simp: image_comp)
  have "passing C N h lo hi p n F Q0 E (add_pivots pivs P) (Qn @ Qk) (W @ Wk) X' s1"
    unfolding passing_def
  proof (intro conjI)
    show "fgood C X' (F @ [(Suc h, lo, hi, p)])" by (rule fevolvesD(1) [OF ev])
    show "\<exists>x. X' p = Some (BeInner x, []) \<and> insertPivots (add_pivots pivs P) n = Inr x" using x'(1) by (simp add: X'_def)
    show "be_inner_ok C n" by (rule D(3))
    show "pivots_ok lo hi n (add_pivots pivs P)" by (rule x'(3))
    show "innsize n + length (add_pivots pivs P) + length E \<le> INNER_N C" using D(5) x'(4) new(2) by simp
    show "distinct (map fst E)" using D(6) by simp
    have "fst ` set P \<inter> fst ` set E = {}" using D(7) by auto
    then show "fst ` set (add_pivots pivs P) \<inter> fst ` set E = {}" using x'(6) c(5) by blast
    show "\<forall>(c, v) \<in> set E. c \<le> innsize n \<and> inbox X' (bkids n ! c) = v \<and> bkids n ! c \<in> kids X' p"
      using entries kX' by blast
    show "\<forall>(q, mm) \<in> set (Qn @ Qk). pend C X' q mm" using pend_old pend_new by auto
    show "\<forall>w \<in> set (W @ Wk). work_ok C X' w" using work_old work_new by auto
    show "set (jobs (Qn @ Qk) (W @ Wk)) \<subseteq> kids X' p" by (rule jobs_kids)
    show "distinct (jobs (Qn @ Qk) (W @ Wk))" by (rule distinct_jobs [OF D(12) j(1)]) (use fresh in blast)
    show "set (jobs (Qn @ Qk) (W @ Wk)) \<inter> (\<lambda>(c, v). bkids n ! c) ` set E = {}"
      unfolding set_jobs using fresh D(13) by auto
    show "noisy X' \<subseteq> busy X' (Q0 @ Qn @ Qk) (W @ Wk) \<union> (\<lambda>(c, v). bkids n ! c) ` set E" by (rule noisy')
    have "fids X' F = fids X F"
      using fgood_beside(2) [of C X F X'] keepF D(1) unfolding fgood_append by blast
    then show "fst ` set Q0 \<subseteq> set (fids X' F)" using D(15) by simp
    show "xst s1 ((nds X')(p \<mapsto> BeInner n)) (insert p (fst ` set Q0 \<union> set (jobs (Qn @ Qk) (W @ Wk)))) N"
      using s1 unfolding store set_jobs by (simp add: Un_assoc)
    show "length Q0 + 1 + length (jobs (Qn @ Qk) (W @ Wk)) + 2 * length E \<le> N" by (rule len)
  qed
  then show ?thesis using ev keepF by blast
qed

lemma ids_kids:
  "good C h X lo hi i \<Longrightarrow> q \<in> set (be_ids h X i) \<Longrightarrow> kids X q \<subseteq> set (be_ids h X i)"
proof (induction h arbitrary: lo hi i)
  case 0
  then have "q = i" by simp
  then show ?case using kids_ids [OF "0.prems"(1)] by simp
next
  case (Suc h)
  obtain n b where n: "X i = Some (BeInner n, b)" using Suc.prems(1) by (auto simp: good_def)
  note k = good_kids [where X = X, OF Suc.prems(1) n]
  have ids: "be_ids (Suc h) X i = i # concat (map (be_ids h X) (bkids n))" using n by simp
  show ?case
  proof (cases "q = i")
    case True
    then show ?thesis using kids_ids [OF Suc.prems(1)] by simp
  next
    case False
    then obtain c where c: "c \<in> set (bkids n)" "q \<in> set (be_ids h X c)" using Suc.prems(2) unfolding ids by auto
    then obtain j where "j < length (bkids n)" "c = bkids n ! j" by (auto simp: in_set_conv_nth)
    then have "good C h X (lo_at lo (bseps n) j) (hi_at (bseps n) hi j) c" using fgoodD [OF k(1) kfam_in] by blast
    then have "kids X q \<subseteq> set (be_ids h X c)" using Suc.IH c(2) by blast
    then show ?thesis unfolding ids using c(1) by auto
  qed
qed

lemma family_kids:
  assumes "fgood C X F" "q \<in> set (fids X F)"
  shows "kids X q \<subseteq> set (fids X F)"
proof -
  obtain h lo hi i where i: "(h, lo, hi, i) \<in> set F" "q \<in> set (be_ids h X i)" using fids_set [OF assms(2)] by blast
  show ?thesis using ids_kids [OF fgoodD [OF assms(1) i(1)] i(2)] fids_in [OF i(1)] by blast
qed

text \<open>The grandchildren are quiet.\<close>

lemma passing_quiet:
  assumes pas: "passing C N h lo hi p n F Q0 ((c, v) # E) P Qn W X s" and k_def: "k = bkids n ! c"
  shows "\<forall>y \<in> kids X k. inbox X y = []"
proof
  fix y assume y: "y \<in> kids X k"
  note D = passingD [OF pas]
  obtain x where x: "X p = Some (BeInner x, [])" using D(2) by blast
  have k: "k \<in> kids X p" using D(8) [of c v] by (simp add: k_def)
  note b = beside_kid [where X = X, OF D(1) x k]
  obtain lo' hi' where gk: "good C h X lo' hi' k" using b(6) [OF k] by blast
  have yk: "y \<in> set (be_ids h X k)" using kids_ids [OF gk] y by blast
  have other: "y \<notin> set (be_ids h X q)" if "q \<in> kids X p" "q \<noteq> k" for q using b(4) [OF that] yk by blast
  have ny: "y \<noteq> k"
  proof
    assume "y = k"
    then have "k \<in> kids X k" using y by simp
    then obtain m b' where m: "X k = Some (BeInner m, b')" "k \<in> set (bkids m)"
      by (auto simp: kids_def split: option.splits be_node.splits)
    then obtain h' where "h = Suc h'" using gk by (cases h) (auto simp: good_def)
    then show False using distinct_kids(2) [where X = X and c = k] gk m by blast
  qed
  have nk: "y \<notin> kids X p"
  proof
    assume "y \<in> kids X p"
    then show False using other [of y] ny by simp
  qed
  have jk: "q \<in> kids X p \<and> q \<noteq> k" if "q \<in> set (jobs Qn W)" for q
    using that D(11,13) by (auto simp: k_def)
  have "y \<notin> kids X q" if q: "q \<in> fst ` set (Q0 @ Qn)" for q
  proof (cases "q \<in> fst ` set Q0")
    case True
    have "fgood C X F" using D(1) unfolding fgood_append by blast
    then have "kids X q \<subseteq> set (fids X F)" using family_kids True D(15) by blast
    then show ?thesis using b(2) yk by blast
  next
    case False
    then have q': "q \<in> kids X p" "q \<noteq> k" using q jk by (auto simp: jobs_def)
    obtain lo' hi' where "good C h X lo' hi' q" using b(6) [OF q'(1)] by blast
    then show ?thesis using kids_ids other [OF q'] by blast
  qed
  moreover have "y \<notin> set (concat (map work_pages W))" using jk nk by (auto simp: jobs_def)
  ultimately have "y \<notin> busy X (Q0 @ Qn) W" by (auto simp: busy_def)
  moreover have "y \<notin> (\<lambda>(c, v). bkids n ! c) ` set ((c, v) # E)" using D(8) nk by fastforce
  ultimately have "y \<notin> noisy X" using D(14) by blast
  then show "inbox X y = []" by (simp add: noisy_def)
qed

lemma handle_child_run:
  fixes X :: "('k::linorder, 'v::semigroup_add) be_state"
  assumes pas: "passing C N h lo hi p n F Q0 ((c, v) # E) P Qn W X s" and C: "config_ok C" and k_def: "k = bkids n ! c"
  shows "\<exists>pivs Qk Wk s1 X1.
           handle_children C p ((c, v) # E) NP W (Q0 @ Qn) s = handle_children C p E (NP @ pivs) (W @ Wk) ((Q0 @ Qn) @ Qk) s1 \<and>
           kid_step C h X X1 (lo_at lo (bseps n) c) (hi_at (bseps n) hi c) k c pivs \<and>
           distinct (jobs Qk Wk) \<and> set (jobs Qk Wk) \<subseteq> set (kid_pages k pivs) \<and>
           (\<forall>(q, mm) \<in> set Qk. pend C X1 q mm) \<and> (\<forall>w \<in> set Wk. work_ok C X1 w) \<and>
           noisy X1 \<subseteq> noisy X - {k} \<union> busy X1 Qk Wk \<and>
           xst s1 ((nds X1)(p \<mapsto> BeInner n)) (insert p (fst ` set Q0 \<union> set (jobs Qn W)) \<union> set (jobs Qk Wk)) N"
proof -
  note D = passingD [OF pas]
  obtain x where x: "X p = Some (BeInner x, [])" "insertPivots P n = Inr x" using D(2) by blast
  have c: "c \<le> innsize n" "inbox X k = v" "k \<in> kids X p" "c \<notin> fst ` set P" "k \<notin> set (jobs Qn W)"
    using D(8) [of c v] D(7,13) by (auto simp: k_def)
  note b = beside_kid [where X = X, OF D(1) x(1) c(3)]
  have rm: "innsize n + length P \<le> INNER_N C" using D(5) by simp
  note kk = kept_kid [OF D(3,4) rm c(4,1) x(2)]
  have gp: "good C (Suc h) X lo hi p" using D(1) unfolding fgood_append fgood_single by blast
  note o = good_kids [where X = X, OF gp x(1)]
  note z = be_inner_okD [OF D(3)] and zx = be_inner_okD [OF o(3)]
  let ?lo = "lo_at lo (bseps n) c" and ?hi = "hi_at (bseps n) hi c"
  have g: "good C h X ?lo ?hi k"
    using fgoodD [OF o(1) kfam_in [of "moved P c"]] kk(4,5,6,7) zx(6) by (simp add: k_def)
  obtain nd where nd: "X k = Some (nd, v)"
    using b(7) c(2,3) by (fastforce simp: inbox_def split: option.splits prod.splits)
  have "inbox_ok C ?lo ?hi v" using be_ok_at [of C h X ?lo ?hi k] g nd by (auto simp: good_def)
  note i = inbox_okD [OF this]
  let ?S = "insert p (fst ` set Q0 \<union> set (jobs Qn W))"
  have pk: "p \<noteq> k" using b(1) by auto
  have kS: "k \<notin> ?S" using pk c(5) D(15) b(2) in_be_ids [of k h X] by blast
  have "card ?S \<le> 1 + (length Q0 + length (jobs Qn W))"
  proof -
    have "card ?S \<le> Suc (card (fst ` set Q0 \<union> set (jobs Qn W)))" by (rule card_insert_le_m1) simp_all
    also have "card (fst ` set Q0 \<union> set (jobs Qn W)) \<le> card (fst ` set Q0) + card (set (jobs Qn W))" by (rule card_Un_le)
    also have "\<dots> \<le> length Q0 + length (jobs Qn W)"
      using card_length [of "map fst Q0"] card_length [of "jobs Qn W"] by (intro add_mono) simp_all
    finally show ?thesis by simp
  qed
  then have card: "card ?S < N" "Suc (card ?S) < N" using D(17) by simp_all
  have at: "((nds X)(p \<mapsto> BeInner n)) p = Some (BeInner n)" "((nds X)(p \<mapsto> BeInner n)) k = Some nd"
    using nd pk by (simp_all add: nds_def)
  obtain s0 where s0: "ps_pin False (\<lambda>_. True) k s = Inr s0" "xst s0 ((nds X)(p \<mapsto> BeInner n)) (insert k ?S) N"
    using xst_pin [OF D(16) at(2) kS card(1)] by blast
  have fin: "finite ?S" by simp
  have card': "card (insert k ?S) < N" using card(2) unfolding card_insert_disjoint [OF fin kS] .
  have get: "be_inner_at p s = Inr n" by (rule be_inner_run [OF D(16) _ at(1)]) simp
  have getk: "ps_get k s0 = Inr nd" by (rule xst_get [OF s0(2) _ at(2)]) simp
  have ck: "ichildren n ! c = k" using z(11) [OF c(1)] by (simp add: k_def)
  have unfold: "handle_children C p ((c, v) # E) NP W (Q0 @ Qn) s =
      (if is_be_leaf nd then
          bindE (handle_leaf_child C c k v s0) (\<lambda>(pivs, work, s2).
            handle_children C p E (NP @ pivs) (W @ [work]) (Q0 @ Qn) s2)
        else
          bindE (asBeInner nd) (\<lambda>innerChild.
          let buf = ubuf innerChild
          in if length (upserts buf) - usize buf \<ge> length v then
               bindE (store_messages k v s0) (\<lambda>s2. handle_children C p E NP W (Q0 @ Qn) s2)
             else bindE (flush_inner_child C c k v (Q0 @ Qn) s0) (\<lambda>(pivs, queue', s2).
                    handle_children C p E (NP @ pivs) W queue' s2)))"
    using get c(1) upserts_ok_sorted [OF i(1)] s0(1) getk ck by simp
  show ?thesis
  proof (cases h)
    case 0
    then obtain l where l: "nd = BeLeaf l" using g nd by (auto simp: good_def)
    obtain pivs w s' X1 where r: "handle_leaf_child C c k v s0 = Inr (pivs, w, s')" "kid_step C 0 X X1 ?lo ?hi k c pivs"
        "xst s' ((nds X1)(p \<mapsto> BeInner n)) (insert k ?S \<union> set (work_pages w)) N" "work_pages w = kid_pages k pivs"
        "work_ok C X1 w" "noisy X1 \<subseteq> noisy X \<union> set (work_pages w)" "\<forall>y \<in> set pivs. snd (snd y) \<notin> insert p (insert k ?S)"
      using handle_leaf_child_run [where X = X and k = k and ci = c, OF g [unfolded 0] nd [unfolded l] C s0(2) insertI1 pk card']
      by (elim exE conjE) rule
    have kw: "k \<in> set (work_pages w)" by (simp add: r(4) kid_pages_def)
    have d: "distinct (work_pages w)"
      using r(2,7) by (auto simp: r(4) kid_pages_def kid_step_def)
    have S: "insert k ?S \<union> set (work_pages w) = ?S \<union> set (work_pages w)" using kw by blast
    have nz: "noisy X1 \<subseteq> noisy X - {k} \<union> busy X1 [] [w]" using r(6) kw by (auto simp: busy_def)
    show ?thesis
      by (rule exI [of _ pivs], rule exI [of _ "[]"], rule exI [of _ "[w]"], rule exI [of _ s'], rule exI [of _ X1])
        (use unfold l r(1,2,4,5) r(3) [unfolded S] d nz 0 in \<open>simp add: case_prod_unfold\<close>)
  next
    case (Suc h')
    then obtain y where y: "nd = BeInner y" using g nd by (auto simp: good_def)
    have gk: "good C (Suc h') X ?lo ?hi k" using g Suc by simp
    note yo = good_kids [where X = X, OF gk nd [unfolded y]]
    note zy = be_inner_okD [OF yo(3)]
    have quiet: "\<forall>q \<in> set (bkids y). inbox X q = []" using passing_quiet [OF pas k_def] nd y by simp
    show ?thesis
    proof (cases "length (upserts (ubuf y)) - usize (ubuf y) \<ge> length v")
      case True
      then obtain s' a where r: "store_messages k v s0 = Inr s'" "evolves C (Suc h') X (X(k \<mapsto> (a, []))) ?lo ?hi k"
          "xst s' ((nds (X(k \<mapsto> (a, []))))(p \<mapsto> BeInner n)) (insert k ?S - {k}) N"
        using store_messages_run [where X = X and c = k, OF gk nd [unfolded y] quiet _ s0(2) insertI1 pk] zy(7) by auto
      have S: "insert k ?S - {k} = ?S" using kS by simp
      have nz: "noisy (X(k \<mapsto> (a, []))) \<subseteq> noisy X - {k} \<union> busy (X(k \<mapsto> (a, []))) [] []"
        by (auto simp: noisy_def)
      show ?thesis
        by (rule exI [of _ "[]"], rule exI [of _ "[]"], rule exI [of _ "[]"], rule exI [of _ s'],
            rule exI [of _ "X(k \<mapsto> (a, []))"])
          (use unfold y True r(1,2) r(3) [unfolded S] nz Suc in \<open>simp add: kid_step_def\<close>)
    next
      case False
      then have full: "INNER_B_N C < usize (ubuf y) + length v" using zy(7,8) by simp
      obtain pivs Qk s' X1 where r: "flush_inner_child C c k v (Q0 @ Qn) s0 = Inr (pivs, (Q0 @ Qn) @ Qk, s')"
           "kid_step C (Suc h') X X1 ?lo ?hi k c pivs"
           "xst s' ((nds X1)(p \<mapsto> BeInner n)) ((insert k ?S - {k}) \<union> fst ` set Qk) N"
           "distinct (map fst Qk)" "fst ` set Qk \<subseteq> set (kid_pages k pivs)" "\<forall>(q, mm) \<in> set Qk. pend C X1 q mm"
           "noisy X1 \<subseteq> noisy X - {k} \<union> \<Union> (kids X1 ` fst ` set Qk)"
        using flush_inner_child_run [where X = X and c = k and ci = c and queue = "Q0 @ Qn",
            OF gk nd [unfolded y] quiet full C s0(2) insertI1 pk card']
        by (elim exE conjE) rule
      have S: "insert k ?S - {k} = ?S" using kS by simp
      have nz: "noisy X1 \<subseteq> noisy X - {k} \<union> busy X1 Qk []" using r(7) by (simp add: busy_def)
      show ?thesis
        by (rule exI [of _ pivs], rule exI [of _ Qk], rule exI [of _ "[]"], rule exI [of _ s'], rule exI [of _ X1])
          (use unfold y False r(1,2,4,5,6) r(3) [unfolded S] nz Suc in simp)
    qed
  qed
qed

lemma handle_children_run:
  fixes X :: "('k::linorder, 'v::semigroup_add) be_state"
  assumes "passing C N h lo hi p n F Q0 E (sort_key fst NP) Qn W X s" "config_ok C" "distinct (map fst NP)"
  shows "\<exists>NP' Qk Wk X' s'. handle_children C p E NP W (Q0 @ Qn) s = Inr (NP', W @ Wk, Q0 @ Qn @ Qk, s') \<and>
           passing C N h lo hi p n F Q0 [] (sort_key fst NP') (Qn @ Qk) (W @ Wk) X' s' \<and>
           fevolves C X X' (F @ [(Suc h, lo, hi, p)]) \<and> (\<forall>y \<in> set (fids X F). X' y = X y)"
  using assms
proof (induction E arbitrary: NP Qn W X s)
  case Nil
  have "fevolves C X X (F @ [(Suc h, lo, hi, p)])" using fevolves_refl passingD(1) [OF Nil.prems(1)] by blast
  then show ?case using Nil.prems(1)
    by (intro exI [of _ NP] exI [of _ "[]"] exI [of _ "[]"] exI [of _ X] exI [of _ s]) simp
next
  case (Cons e E)
  obtain c v where e: "e = (c, v)" by (cases e)
  note pas = Cons.prems(1) [unfolded e]
  note D = passingD [OF pas]
  define k where "k = bkids n ! c"
  obtain pivs Qk Wk s1 X1 where r:
      "handle_children C p ((c, v) # E) NP W (Q0 @ Qn) s = handle_children C p E (NP @ pivs) (W @ Wk) ((Q0 @ Qn) @ Qk) s1"
      "kid_step C h X X1 (lo_at lo (bseps n) c) (hi_at (bseps n) hi c) k c pivs"
      "distinct (jobs Qk Wk)" "set (jobs Qk Wk) \<subseteq> set (kid_pages k pivs)"
      "\<forall>(q, mm) \<in> set Qk. pend C X1 q mm" "\<forall>w \<in> set Wk. work_ok C X1 w"
      "noisy X1 \<subseteq> noisy X - {k} \<union> busy X1 Qk Wk"
      "xst s1 ((nds X1)(p \<mapsto> BeInner n)) (insert p (fst ` set Q0 \<union> set (jobs Qn W)) \<union> set (jobs Qk Wk)) N"
    using handle_child_run [OF pas Cons.prems(2) k_def, of NP] by (elim exE conjE) rule
  obtain X2 where X2: "passing C N h lo hi p n F Q0 E (add_pivots pivs (sort_key fst NP)) (Qn @ Qk) (W @ Wk) X2 s1"
      "fevolves C X X2 (F @ [(Suc h, lo, hi, p)])" "\<forall>y \<in> set (fids X F). X2 y = X y"
    using passing_step [OF pas k_def r(2-8)] by (elim exE conjE) rule
  have cNP: "c \<notin> fst ` set NP" using D(7) by auto
  have np: "add_pivots pivs (sort_key fst NP) = sort_key fst (NP @ pivs) \<and> distinct (map fst (NP @ pivs))"
  proof (cases pivs)
    case Nil
    then show ?thesis using Cons.prems(3) by simp
  next
    case (Cons y ys)
    then obtain m t where y: "pivs = [(c, m, t)]" using r(2) by (auto simp: kid_step_def)
    have "distinct (map fst (NP @ [(c, m, t)]))" using cNP Cons.prems(3) by simp
    then show ?thesis using sort_snoc [of NP "(c, m, t)"] y by simp
  qed
  obtain NP' Ql Wl X' s' where IH: "handle_children C p E (NP @ pivs) (W @ Wk) (Q0 @ (Qn @ Qk)) s1 =
           Inr (NP', (W @ Wk) @ Wl, Q0 @ (Qn @ Qk) @ Ql, s')"
         "passing C N h lo hi p n F Q0 [] (sort_key fst NP') ((Qn @ Qk) @ Ql) ((W @ Wk) @ Wl) X' s'"
         "fevolves C X2 X' (F @ [(Suc h, lo, hi, p)])" "\<forall>y \<in> set (fids X2 F). X' y = X2 y"
    using Cons.IH [OF X2(1) [unfolded conjunct1 [OF np]] Cons.prems(2) conjunct2 [OF np]] by (elim exE conjE) rule
  have "fids X2 F = fids X F"
    using fgood_beside(2) [of C X F X2] X2(3) D(1) unfolding fgood_append by blast
  then have "\<forall>y \<in> set (fids X F). X' y = X y" using IH(4) X2(3) by simp
  then show ?case
    using r(1) IH(1,2) fevolves_trans [OF X2(2) IH(3)]
    by (intro exI [of _ NP'] exI [of _ "Qk @ Ql"] exI [of _ "Wk @ Wl"] exI [of _ X'] exI [of _ s']) (simp add: e)
qed

section \<open>One node of the traversal\<close>

lemma handleTraversalNode_run:
  fixes X :: "('k::linorder, 'v::semigroup_add) be_state"
  assumes g: "fgood C X (F @ [(Suc h, lo, hi, p)])" and m: "pend C X p m"
    and noisy: "noisy X \<subseteq> \<Union> (kids X ` fst ` set Q0) \<union> kids X p" and Q0: "fst ` set Q0 \<subseteq> set (fids X F)"
    and C: "config_ok C" and s: "xst s (nds X) (insert p (fst ` set Q0)) N"
    and room: "length Q0 + 1 + 2 * (INNER_N C + 1) \<le> N"
  shows "\<exists>Qn X' s'. handleTraversalNode C p m Q0 s = Inr (Q0 @ Qn, s') \<and>
           fevolves C X X' (F @ [(Suc h, lo, hi, p)]) \<and> (\<forall>y \<in> set (fids X F). X' y = X y) \<and>
           (\<exists>x. X' p = Some (BeInner x, [])) \<and> (\<forall>(q, mm) \<in> set Qn. pend C X' q mm \<and> q \<in> kids X' p) \<and>
           distinct (map fst Qn) \<and> length Qn \<le> 2 * (INNER_N C + 1) \<and>
           noisy X' \<subseteq> \<Union> (kids X' ` fst ` set (Q0 @ Qn)) \<and>
           xst s' (nds X') (fst ` set Q0 \<union> fst ` set Qn) N"
proof -
  obtain n where n: "X p = Some (BeInner n, [])" "distinct (map fst m)" "\<forall>(c, v) \<in> set m. c \<le> innsize n"
      "innsize n + length m \<le> INNER_N C" "\<forall>j \<le> innsize n. inbox X (bkids n ! j) = entry m j"
    using m by (auto simp: pend_def)
  have gp: "good C (Suc h) X lo hi p" using g unfolding fgood_append fgood_single by blast
  note o = good_kids [where X = X, OF gp n(1)] and dk = distinct_kids [where X = X, OF gp n(1)]
  note z = be_inner_okD [OF o(3)]
  define E where "E = mapOrder C m"
  note mo = map_order [OF config_okD(8) [OF C] n(2), folded E_def]
  have pivs0: "insertPivots [] n = Inr n"
    using z(3,1) by (simp add: insertPivots_def)
  have eE: "c \<le> innsize n \<and> inbox X (bkids n ! c) = v \<and> bkids n ! c \<in> kids X p" if cv: "(c, v) \<in> set E" for c v
  proof -
    have c: "c \<le> innsize n" using cv mo(2) n(3) by auto
    moreover have "entry m c = v" using entry_in [OF n(2)] cv mo(2) by simp
    moreover have "bkids n ! c \<in> kids X p" using kid_in(1) [OF o(3) c] n(1) by simp
    ultimately show ?thesis using n(5) by simp
  qed
  have noisyE: "noisy X \<subseteq> busy X (Q0 @ []) [] \<union> (\<lambda>(c, v). bkids n ! c) ` set E"
  proof
    fix y assume y: "y \<in> noisy X"
    show "y \<in> busy X (Q0 @ []) [] \<union> (\<lambda>(c, v). bkids n ! c) ` set E"
    proof (cases "y \<in> kids X p")
      case True
      then obtain j where j: "j \<le> innsize n" "y = bkids n ! j" using n(1) z(6) by (auto simp: in_set_conv_nth less_Suc_eq_le)
      then have "entry m j \<noteq> []" using y n(5) by (simp add: noisy_def)
      then have "j \<in> fst ` set m" using entry_absent [of j m] by blast
      then show ?thesis using j(2) mo(2) by force
    next
      case False
      then show ?thesis using y noisy by (auto simp: busy_def)
    qed
  qed
  have lE: "length E \<le> INNER_N C + 1" using mo(4) n(4) by simp
  have same: "(nds X)(p \<mapsto> BeInner n) = nds X" using n(1) by (simp add: nds_def fun_upd_idem)
  have "passing C N h lo hi p n F Q0 E (sort_key fst []) [] [] X s"
    unfolding passing_def
    using g n(1) pivs0 o(3) n(4) mo(1,4) eE noisyE Q0 s room lE
    by (auto simp: pivots_ok_def jobs_def same split: prod.splits)
  note hc = handle_children_run [OF this C]
  obtain NP Qn W X1 s1 where r: "handle_children C p E [] [] Q0 s = Inr (NP, W, Q0 @ Qn, s1)"
      "passing C N h lo hi p n F Q0 [] (sort_key fst NP) Qn W X1 s1"
      "fevolves C X X1 (F @ [(Suc h, lo, hi, p)])" "\<forall>y \<in> set (fids X F). X1 y = X y"
    using hc by auto
  note D = passingD [OF r(2)]
  obtain x where x: "X1 p = Some (BeInner x, [])" "insertPivots (sort_key fst NP) n = Inr x" using D(2) by blast
  let ?S = "insert p (fst ` set Q0 \<union> set (jobs Qn W))"
  have "((nds X1)(p \<mapsto> BeInner n)) p = Some (BeInner n)" by simp
  then have get: "be_inner_at p s1 = Inr n" by (rule be_inner_run [OF D(16), rotated]) simp
  obtain s2 where s2: "ps_put p (BeInner x) s1 = Inr s2" "xst s2 (nds X1) ?S N"
  proof -
    have "(nds X1)(p \<mapsto> BeInner n, p \<mapsto> BeInner x) = nds X1" using x(1) by (simp add: nds_def fun_upd_idem)
    then show ?thesis using xst_put [OF D(16), of p "BeInner x"] that by auto
  qed
  have gp1: "good C (Suc h) X1 lo hi p" using D(1) unfolding fgood_append fgood_single by blast
  have out: "p \<notin> fst ` set Q0 \<union> set (jobs Qn W)"
  proof -
    have "p \<notin> kids X1 p" using distinct_kids(2) [where X = X1, OF gp1 x(1)] x(1) by simp
    moreover have "p \<notin> set (fids X1 F)" using D(1) unfolding fgood_append fids_simps by auto
    ultimately show ?thesis using D(11,15) by blast
  qed
  obtain s3 where s3: "ps_unpin True p s2 = Inr s3" "xst s3 (nds X1) (fst ` set Q0 \<union> set (jobs Qn W)) N"
    using xst_unpin [OF s2(2), of p] out by auto
  let ?ts = "concat (map work_pages W)"
  have ts: "distinct ?ts" "set ?ts \<subseteq> set (bkids x)" "set ?ts \<inter> fst ` set Qn = {}"
    using D(11,12) x(1) by (auto simp: jobs_def)
  have waits: "\<exists>v. leaf_waits C X1 t v" if t: "t \<in> set ?ts" for t
  proof -
    obtain w where w: "w \<in> set W" "t \<in> set (work_pages w)" using t unfolding set_concat set_map by blast
    obtain c spl v where e: "w = (c, spl, v)" by (metis prod_cases3)
    show ?thesis using D(10) [OF w(1)] w(2) unfolding e work_ok.simps by blast
  qed
  have gk: "\<exists>lo hi. good C h X1 lo hi t" if "t \<in> kids X1 p" for t
    using beside_kid(6) [where X = X1, OF D(1) x(1) that that] .
  have leafs: "\<exists>l b. X1 t = Some (BeLeaf l, b) \<and> bleaf_ok C l" if t: "w \<in> set W" "t \<in> set (work_pages w)" for w t
  proof -
    have "t \<in> set ?ts" using t by auto
    then obtain v l where l: "X1 t = Some (BeLeaf l, v)" using waits [of t] by (auto simp only: leaf_waits_def)
    have "t \<in> kids X1 p" using subsetD [OF ts(2) \<open>t \<in> set ?ts\<close>] x(1) by simp
    then obtain lo' hi' where "good C h X1 lo' hi' t" using gk by blast
    then show ?thesis using l by (cases h) (auto simp: good_def)
  qed
  define X' where "X' = settle (set ?ts) X1"
  have "set ?ts \<subseteq> fst ` set Q0 \<union> set (jobs Qn W)" by (auto simp: jobs_def)
  then obtain s4 where s4: "finish_leaves C W s3 = Inr s4"
      "xst s4 (nds X') (fst ` set Q0 \<union> set (jobs Qn W) - set ?ts) N"
    using finish_leaves_run [OF s3(2) ts(1)] D(10) leafs config_okD(9) [OF C] unfolding X'_def by blast
  have ev: "fevolves C X1 X' (F @ [(Suc h, lo, hi, p)]) \<and> X' p = X1 p"
  proof (cases "W = []")
    case True
    then show ?thesis using fevolves_refl [OF D(1)] by (simp add: X'_def settle_simps)
  next
    case False
    then obtain w where "w \<in> set W" by (cases W) auto
    moreover obtain c spl v where "w = (c, spl, v)" by (metis prod_cases3)
    then have "c \<in> set (work_pages w)" by (cases spl) auto
    ultimately have c: "c \<in> set ?ts" by auto
    then obtain l v where l: "X1 c = Some (BeLeaf l, v)" using waits [of c] by (auto simp only: leaf_waits_def)
    have "c \<in> kids X1 p" using subsetD [OF ts(2) c] x(1) by simp
    then obtain lo' hi' where gc: "good C h X1 lo' hi' c" using gk by blast
    have h: "h = 0" using gc l by (cases h) (auto simp: good_def)
    show ?thesis unfolding X'_def h
      by (rule settle_evolves [where X = X1, OF D(1) [unfolded h] x(1) ts(1,2)]) (use waits in blast)
  qed
  have outF: "X' y = X y" if "y \<in> set (fids X F)" for y
  proof -
    have e: "fids X1 F = fids X F"
      using fgood_beside(2) [of C X F X1] r(4) g unfolding fgood_append by blast
    have "y \<notin> set (be_ids (Suc h) X1 p)" using D(1) that e unfolding fgood_append fids_simps by auto
    then have "y \<notin> set ?ts" using ts(2) distinct_kids(3) [where X = X1, OF gp1 x(1)] by blast
    then show ?thesis using r(4) that by (simp add: X'_def settle_simps)
  qed
  have kp: "kids X' p = kids X1 p" using ev by (simp add: kids_def)
  have Qk: "q \<in> kids X1 p \<and> q \<notin> set ?ts" if "q \<in> fst ` set Qn" for q
    using that D(11) ts(3) by (auto simp: jobs_def)
  have kidsQ: "X' q = X1 q \<and> kids X' q = kids X1 q \<and> (\<forall>y \<in> kids X1 q. X' y = X1 y)" if q: "q \<in> fst ` set Qn" for q
  proof -
    have s: "X' q = X1 q" using Qk [OF q] by (simp add: X'_def settle_simps)
    have "X' y = X1 y" if y: "y \<in> kids X1 q" for y
    proof -
      obtain lo' hi' where gq: "good C h X1 lo' hi' q" using gk Qk [OF q] by blast
      have yq: "y \<in> set (be_ids h X1 q)" using kids_ids [OF gq] y by blast
      have "y \<notin> set ?ts"
      proof
        assume yt: "y \<in> set ?ts"
        then have "y \<noteq> q" using Qk [OF q] by blast
        moreover have "y \<in> kids X1 p" "q \<in> kids X1 p" using subsetD [OF ts(2) yt] x(1) Qk [OF q] by simp_all
        ultimately have "set (be_ids h X1 y) \<inter> set (be_ids h X1 q) = {}"
          using beside_kid(4) [where X = X1, OF D(1) x(1)] by blast
        then show False using yq in_be_ids [of y h X1] by blast
      qed
      then show ?thesis by (simp add: X'_def settle_simps)
    qed
    then show ?thesis using s by (simp add: kids_def)
  qed
  have pend': "pend C X' q mm \<and> q \<in> kids X' p" if q: "(q, mm) \<in> set Qn" for q mm
  proof -
    have qf: "q \<in> fst ` set Qn" using q by force
    have "pend C X' q mm"
      by (rule pend_cong(1) [OF D(9) [OF q]]) (use kidsQ [OF qf] inbox_same gk Qk [OF qf] in blast)+
    then show ?thesis using Qk [OF qf] kp by simp
  qed
  have noisy': "noisy X' \<subseteq> \<Union> (kids X' ` fst ` set (Q0 @ Qn))"
  proof
    fix y assume y: "y \<in> noisy X'"
    have yt: "y \<notin> set ?ts"
    proof
      assume yt: "y \<in> set ?ts"
      then obtain l b where "X1 y = Some (BeLeaf l, b)" using waits [of y] by (auto simp only: leaf_waits_def)
      then have "X' y = Some (BeLeaf (fold leaf_apply b l), [])" using yt by (simp add: X'_def settle_simps)
      then show False using y by (simp add: noisy_def)
    qed
    then have "X' y = X1 y" by (simp add: X'_def settle_simps)
    then have "y \<in> noisy X1" using y inbox_same [of X' y X1] by (auto simp: noisy_def)
    then have "y \<in> \<Union> (kids X1 ` fst ` set (Q0 @ Qn))" using D(14) yt unfolding busy_def by auto
    then obtain q where q: "q \<in> fst ` set (Q0 @ Qn)" "y \<in> kids X1 q" by blast
    moreover have "kids X' q = kids X1 q"
    proof (cases "q \<in> fst ` set Qn")
      case False
      then have "q \<in> set (fids X F)" using q(1) Q0 by auto
      then show ?thesis using outF r(4) kids_cong [of X' q X1] by simp
    qed (use kidsQ in blast)
    ultimately show "y \<in> \<Union> (kids X' ` fst ` set (Q0 @ Qn))" by blast
  qed
  have S: "fst ` set Q0 \<union> set (jobs Qn W) - set ?ts = fst ` set Q0 \<union> fst ` set Qn"
  proof -
    have "fst ` set Q0 \<inter> set ?ts = {}"
    proof -
      have "set ?ts \<subseteq> set (be_ids (Suc h) X1 p)" using ts(2) distinct_kids(3) [where X = X1, OF gp1 x(1)] by blast
      moreover have "set (fids X1 F) \<inter> set (be_ids (Suc h) X1 p) = {}" using D(1) unfolding fgood_append by simp
      ultimately show ?thesis using D(15) by blast
    qed
    then show ?thesis using ts(3) by (auto simp: jobs_def)
  qed
  have "length Qn \<le> 2 * (INNER_N C + 1)"
  proof -
    have "set (map fst Qn) \<subseteq> set (bkids x)" using Qk x(1) by auto
    then have "length (map fst Qn) \<le> length (bkids x)"
      using D(12) distinct_card [of "map fst Qn"] card_mono [of "set (bkids x)" "set (map fst Qn)"] card_length [of "bkids x"]
      by (simp add: jobs_def)
    also have "\<dots> \<le> INNER_N C + 1"
      using be_inner_okD(3,6) [OF good_kids(3) [where X = X1, OF gp1 x(1)]] by simp
    finally show ?thesis by simp
  qed
  moreover have "handleTraversalNode C p m Q0 s = Inr (Q0 @ Qn, s4)"
    unfolding handleTraversalNode_def E_def [symmetric] using r(1) get x(2) s2(1) s3(1) s4(1) by simp
  moreover have "distinct (map fst Qn)" using D(12) by (simp add: jobs_def)
  moreover have "\<exists>x. X' p = Some (BeInner x, [])" using ev x(1) by simp
  ultimately show ?thesis
    using fevolves_trans [OF r(3)] ev outF pend' noisy' s4(2) unfolding S by blast
qed

section \<open>The traversal\<close>

text \<open>A bound for the pages in the queue over the flush of a tree of height \<open>h\<close>, and for its steps.\<close>

fun weight :: "nat \<Rightarrow> nat \<Rightarrow> nat" where
  "weight i 0 = 1"
| "weight i (Suc h) = 1 + 2 * (i + 1) * weight i h"

lemma weight_pos: "1 \<le> weight i h"
  by (cases h) auto

definition family_weight :: "nat \<Rightarrow> 'k family \<Rightarrow> nat" where
  "family_weight i F = sum_list (map (\<lambda>(h, lo, hi, q). weight i h) F)"

lemma family_weight_simps [simp]:
  "family_weight i [] = 0" "family_weight i ((h, lo, hi, q) # F) = weight i h + family_weight i F"
  "family_weight i (F @ G) = family_weight i F + family_weight i G"
  by (simp_all add: family_weight_def)

lemma length_le_weight: "length F \<le> family_weight i F"
proof (induction F)
  case (Cons f F)
  obtain h lo hi q where "f = (h, lo, hi, q)" by (metis prod_cases4)
  then show ?case using Cons weight_pos [of i h] by simp
qed simp

text \<open>The queue and the trees below its pages.\<close>

definition queue_ok ::
  "('k::linorder, 'v) be_config \<Rightarrow> ('k, 'v) be_state \<Rightarrow> 'k family \<Rightarrow> (nat \<times> ('k, 'v) message_map) list \<Rightarrow> bool" where
  "queue_ok C X F Q \<longleftrightarrow> list_all2 (\<lambda>(h, lo, hi, i) (q, mm). i = q \<and> pend C X q mm) F Q"

lemma queue_ok_simps [simp]:
  "queue_ok C X F [] \<longleftrightarrow> F = []"
  "queue_ok C X F ((q, mm) # Q) \<longleftrightarrow> (\<exists>h lo hi F'. F = (h, lo, hi, q) # F' \<and> pend C X q mm \<and> queue_ok C X F' Q)"
  by (auto simp: queue_ok_def list_all2_Cons2)

lemma queue_ok_append: "queue_ok C X F Q \<Longrightarrow> queue_ok C X G R \<Longrightarrow> queue_ok C X (F @ G) (Q @ R)"
  by (simp add: queue_ok_def list_all2_appendI)

lemma queue_ok_in:
  "queue_ok C X F Q \<Longrightarrow> (q, mm) \<in> set Q \<Longrightarrow> pend C X q mm \<and> (\<exists>h lo hi. (h, lo, hi, q) \<in> set F)"
  by (induction Q arbitrary: F) fastforce+

lemma queue_pages: "queue_ok C X F Q \<Longrightarrow> fst ` set Q \<subseteq> set (fids X F)"
  using queue_ok_in fids_in in_be_ids by fastforce

lemma queue_length: "queue_ok C X F Q \<Longrightarrow> length Q = length F"
  by (simp add: queue_ok_def list_all2_lengthD)

lemma queue_ok_cong:
  assumes "queue_ok C X F Q" "fgood C X F" "\<And>y. y \<in> set (fids X F) \<Longrightarrow> X' y = X y"
  shows "queue_ok C X' F Q"
  using assms
proof (induction Q arbitrary: F)
  case Nil
  then show ?case by simp
next
  case (Cons e Q)
  obtain q mm where e: "e = (q, mm)" by (cases e)
  obtain h lo hi F' where F: "F = (h, lo, hi, q) # F'" "pend C X q mm" "queue_ok C X F' Q" using Cons.prems(1) e by auto
  have g: "good C h X lo hi q" "fgood C X F'"
    using Cons.prems(2) unfolding F(1) by (simp_all add: fgood_def)
  have "pend C X' q mm"
  proof (rule pend_cong(1) [OF F(2)])
    show "X' q = X q" by (rule Cons.prems(3)) (simp add: F(1))
    show "inbox X' y = inbox X y" if y: "y \<in> kids X q" for y
    proof -
      have "y \<in> set (be_ids h X q)" using y kids_ids [OF g(1)] by blast
      then show ?thesis using Cons.prems(3) [of y] by (simp add: F(1) inbox_def)
    qed
    show "\<exists>h lo hi. good C h X lo hi q" using g(1) by blast
  qed
  moreover have "queue_ok C X' F' Q" by (rule Cons.IH [OF F(3) g(2)]) (rule Cons.prems(3), simp add: F(1))
  ultimately show ?case using e F(1) by simp
qed

lemma pos_in: "q \<in> set cs \<Longrightarrow> pos cs q < length cs \<and> cs ! pos cs q = q"
  unfolding pos_def
  by (induction cs) auto

text \<open>The trees below new pages of the queue, and the others below the same node.\<close>

lemma new_family:
  assumes g: "fgood C X (G @ [(Suc h, lo, hi, p)])" and x: "X p = Some (BeInner x, b)"
    and Q: "distinct (map fst Q)" "\<forall>(q, mm) \<in> set Q. pend C X q mm \<and> q \<in> kids X p"
  shows "\<exists>Fn R. queue_ok C X Fn Q \<and> mset (kfam h lo (bseps x) (bkids x) hi) = mset (Fn @ R) \<and>
           (\<forall>f \<in> set Fn. fst f = h)"
proof -
  have gp: "good C (Suc h) X lo hi p" using g unfolding fgood_append fgood_single by blast
  let ?K = "kfam h lo (bseps x) (bkids x) hi" and ?at = "\<lambda>f. snd (snd (snd f))"
  have d: "distinct (bkids x)" by (rule distinct_kids(1) [where X = X, OF gp x])
  have at: "map ?at ?K = bkids x" by (rule nth_equalityI) simp_all
  have dK: "distinct ?K" using d at by (metis distinct_map)
  define Fn where "Fn = map (\<lambda>(q, mm). ?K ! pos (bkids x) q) Q"
  have el: "?K ! pos (bkids x) q = (h, lo_at lo (bseps x) (pos (bkids x) q), hi_at (bseps x) hi (pos (bkids x) q), q) \<and>
      ?K ! pos (bkids x) q \<in> set ?K \<and> pend C X q mm" if "(q, mm) \<in> set Q" for q mm
  proof -
    have "q \<in> set (bkids x)" "pend C X q mm" using Q(2) that x by auto
    then show ?thesis using pos_in [of q "bkids x"] kfam_in [of "pos (bkids x) q" "bkids x" h lo "bseps x" hi] by simp
  qed
  have "queue_ok C X Fn Q"
    unfolding queue_ok_def Fn_def list_all2_map1
    by (rule list.rel_refl_strong) (use el in \<open>auto split: prod.splits\<close>)
  moreover have "map ?at Fn = map fst Q"
    unfolding Fn_def map_map by (rule map_cong) (use el in force)+
  then have dF: "distinct Fn" using Q(1) by (metis distinct_map)
  have sub: "set Fn \<subseteq> set ?K" using el by (force simp: Fn_def)
  define R where "R = filter (\<lambda>f. f \<notin> set Fn) ?K"
  have "distinct (Fn @ R)" using dF dK by (auto simp: R_def)
  moreover have "set (Fn @ R) = set ?K" using sub by (auto simp: R_def)
  ultimately have "mset ?K = mset (Fn @ R)" using dK set_eq_iff_mset_eq_distinct by blast
  moreover have "\<forall>f \<in> set Fn. fst f = h" using el by (force simp: Fn_def)
  ultimately show ?thesis using \<open>queue_ok C X Fn Q\<close> by blast
qed

lemma traversal_loop_run:
  fixes X :: "('k::linorder, 'v::semigroup_add) be_state"
  assumes "fgood C X F" "queue_ok C X F Q" "noisy X \<subseteq> \<Union> (kids X ` fst ` set Q)" "config_ok C"
    "xst s (nds X) (fst ` set Q) N" "family_weight (INNER_N C) F \<le> fuel" "family_weight (INNER_N C) F \<le> N"
  shows "\<exists>s' X'. traversal_loop C fuel Q s = Inr s' \<and> fevolves C X X' F \<and> noisy X' = {} \<and> xst s' (nds X') {} N"
  using assms
proof (induction fuel arbitrary: X F Q s)
  case 0
  then have "F = []" using length_le_weight [of F "INNER_N C"] by simp
  then have "Q = []" using "0.prems"(2) queue_length by fastforce
  then show ?case using "0.prems" fevolves_refl [of C X F] by auto
next
  case (Suc fuel)
  let ?I = "INNER_N C"
  show ?case
  proof (cases Q)
    case Nil
    then show ?thesis using Suc.prems fevolves_refl [of C X F] by auto
  next
    case (Cons e Q0)
    obtain p m where e: "e = (p, m)" by (cases e)
    obtain hp lo hi F0 where F: "F = (hp, lo, hi, p) # F0" "pend C X p m" "queue_ok C X F0 Q0"
      using Suc.prems(2) Cons e by auto
    obtain n where n: "X p = Some (BeInner n, [])" using F(2) by (auto simp: pend_def)
    have "good C hp X lo hi p" using Suc.prems(1) unfolding F(1) by (simp add: fgood_def)
    then obtain h where hp: "hp = Suc h" using n by (cases hp) (auto simp: good_def)
    have perm: "mset F = mset (F0 @ [(Suc h, lo, hi, p)])" using F(1) hp by simp
    have g: "fgood C X (F0 @ [(Suc h, lo, hi, p)])" by (rule fgood_perm [OF perm Suc.prems(1)])
    have g0: "fgood C X F0" using g unfolding fgood_append by blast
    note lq = queue_length [OF F(3)]
    have wt: "weight ?I (Suc h) + family_weight ?I F0 \<le> N" "weight ?I (Suc h) + family_weight ?I F0 \<le> Suc fuel"
      using Suc.prems(6,7) F(1) hp by simp_all
    have "1 + 2 * (?I + 1) \<le> weight ?I (Suc h)"
      using mult_le_mono2 [OF weight_pos [of ?I h], of "2 * (?I + 1)"] by simp
    then have room: "length Q0 + 1 + 2 * (?I + 1) \<le> N"
      using wt(1) length_le_weight [of F0 ?I] lq by linarith
    have nz: "noisy X \<subseteq> \<Union> (kids X ` fst ` set Q0) \<union> kids X p" using Suc.prems(3) Cons e by auto
    have st: "xst s (nds X) (insert p (fst ` set Q0)) N" using Suc.prems(5) Cons e by simp
    obtain Qn X1 s1 where r: "handleTraversalNode C p m Q0 s = Inr (Q0 @ Qn, s1)"
        "fevolves C X X1 (F0 @ [(Suc h, lo, hi, p)])" "\<forall>y \<in> set (fids X F0). X1 y = X y"
        "\<exists>x. X1 p = Some (BeInner x, [])" "\<forall>(q, mm) \<in> set Qn. pend C X1 q mm \<and> q \<in> kids X1 p"
        "distinct (map fst Qn)" "length Qn \<le> 2 * (?I + 1)"
        "noisy X1 \<subseteq> \<Union> (kids X1 ` fst ` set (Q0 @ Qn))"
        "xst s1 (nds X1) (fst ` set Q0 \<union> fst ` set Qn) N"
      using handleTraversalNode_run [where X = X, OF g F(2) nz queue_pages [OF F(3)] Suc.prems(4) st room]
      by (elim exE conjE) blast
    obtain x where x: "X1 p = Some (BeInner x, [])" using r(4) by blast
    note g1 = fevolvesD(1) [OF r(2)]
    let ?K = "kfam h lo (bseps x) (bkids x) hi"
    obtain Fn R where Fn: "queue_ok C X1 Fn Qn" "mset ?K = mset (Fn @ R)" "\<forall>f \<in> set Fn. fst f = h"
      using new_family [where X = X1, OF g1 x r(6,5)] by blast
    have pK: "mset (F0 @ ?K) = mset ((F0 @ Fn) @ R)" using Fn(2) by simp
    have gK: "fgood C X1 ((F0 @ Fn) @ R)" by (rule fgood_perm [OF pK kids_family [where X = X1, OF g1 x]])
    then have gF: "fgood C X1 (F0 @ Fn)" unfolding fgood_append by blast
    have q1: "queue_ok C X1 (F0 @ Fn) (Q0 @ Qn)"
      by (rule queue_ok_append [OF queue_ok_cong [OF F(3) g0] Fn(1)]) (use r(3) in blast)
    have wn: "family_weight ?I Fn \<le> length Qn * weight ?I h"
    proof -
      have "family_weight ?I Fn = length Fn * weight ?I h"
        using Fn(3) by (induction Fn) auto
      then show ?thesis using queue_length [OF Fn(1)] by simp
    qed
    also have "\<dots> \<le> 2 * (?I + 1) * weight ?I h" using r(7) by (rule mult_le_mono1)
    finally have w1: "Suc (family_weight ?I (F0 @ Fn)) \<le> weight ?I (Suc h) + family_weight ?I F0" by simp
    have st1: "xst s1 (nds X1) (fst ` set (Q0 @ Qn)) N" using r(9) by (simp add: image_Un)
    have w2: "family_weight ?I (F0 @ Fn) \<le> fuel" "family_weight ?I (F0 @ Fn) \<le> N" using w1 wt by linarith+
    obtain s' X' where IH: "traversal_loop C fuel (Q0 @ Qn) s1 = Inr s'" "fevolves C X1 X' (F0 @ Fn)" "noisy X' = {}"
        "xst s' (nds X') {} N"
      using Suc.IH [OF gF q1 r(8) Suc.prems(4) st1 w2] by blast
    have "fevolves C X1 X' (F0 @ ?K)"
      by (rule fevolves_perm [OF pK [symmetric] fevolves_frame(1) [OF gK IH(2)]])
    then have "fevolves C X1 X' (F0 @ [(Suc h, lo, hi, p)])"
      by (rule fevolves_up(1) [where X = X1 and i = p, OF g1 x])
    then have ev: "fevolves C X X' F"
      using fevolves_perm [OF perm [symmetric] fevolves_trans [OF r(2)]] by blast
    have "nds X p = Some (BeInner n)" using n by (simp add: nds_def)
    then have "be_inner_at p s = Inr n" using be_inner_run [OF st] by simp
    then have "traversal_loop C (Suc fuel) Q s = Inr s'" using Cons e r(1) IH(1) by simp
    then show ?thesis using ev IH(3,4) by blast
  qed
qed

end
