(* ===== verification/BeTop.thy ===== *)
theory BeTop
  imports BeFlush
begin

text \<open>
  The root above a family of trees: what a new message at the root does to the value of its key,
  and how the steps of the trees below are steps of the whole.
\<close>

section \<open>The root and its children\<close>

definition rseps :: "'k be_root \<Rightarrow> 'k list" where
  "rseps n = take (rsize n) (rpivots n)"

definition rkids :: "'k be_root \<Rightarrow> nat list" where
  "rkids n = take (rsize n + 1) (rchildren n)"

definition rfam :: "nat \<Rightarrow> 'k be_root \<Rightarrow> 'k family" where
  "rfam h n = kfam h None (rseps n) (rkids n) None"

definition target :: "'k::linorder be_root \<Rightarrow> 'k \<Rightarrow> nat" where
  "target n key = rkids n ! route (rseps n) key"

definition be_root_ok :: "('k::linorder, 'v) be_config \<Rightarrow> 'k be_root \<Rightarrow> bool" where
  "be_root_ok C n \<longleftrightarrow>
     length (rpivots n) = ROOT_N C \<and> length (rchildren n) = ROOT_N C + 1 \<and> rsize n \<le> ROOT_N C \<and>
     sorted_wrt (<) (rseps n)"

definition top_ok ::
  "('k::linorder, 'v) be_config \<Rightarrow> nat \<Rightarrow> ('k, 'v) be_state \<Rightarrow> nat \<Rightarrow> 'k be_root \<Rightarrow> bool" where
  "top_ok C h X R n \<longleftrightarrow>
     X R = Some (BeRoot n, []) \<and> be_root_ok C n \<and> fgood C X (rfam h n) \<and> R \<notin> set (fids X (rfam h n))"

lemma be_root_okD:
  assumes "be_root_ok C n"
  shows "length (rpivots n) = ROOT_N C" "length (rchildren n) = ROOT_N C + 1" "rsize n \<le> ROOT_N C"
    "sorted_wrt (<) (rseps n)" "length (rseps n) = rsize n" "length (rkids n) = Suc (length (rseps n))"
    "j \<le> rsize n \<Longrightarrow> rkids n ! j = rchildren n ! j" "route (rseps n) key \<le> rsize n"
    "lower_bound (rpivots n) (rsize n) key = route (rseps n) key"
  using assms lower_bound_takeWhile [of "rsize n" "rpivots n" key] route_le [of "rseps n" key]
  by (auto simp: be_root_ok_def rseps_def rkids_def route_def strict_sorted_imp_sorted)

lemma top_okD:
  assumes "top_ok C h X R n"
  shows "X R = Some (BeRoot n, [])" "be_root_ok C n" "fgood C X (rfam h n)" "R \<notin> set (fids X (rfam h n))" "R \<in> dom X"
  using assms unfolding top_ok_def by blast+

lemma target_family:
  assumes "be_root_ok C n"
  shows "(h, lo_at None (rseps n) (route (rseps n) key), hi_at (rseps n) None (route (rseps n) key), target n key)
           \<in> set (rfam h n)"
    "within (lo_at None (rseps n) (route (rseps n) key)) (hi_at (rseps n) None (route (rseps n) key)) key"
  using kfam_bounds [OF be_root_okD(6) [OF assms], of None None key] by (simp_all add: rfam_def target_def)

lemma target_good:
  assumes "top_ok C h X R n"
  shows "good C h X (lo_at None (rseps n) (route (rseps n) key)) (hi_at (rseps n) None (route (rseps n) key)) (target n key)"
    "target n key \<in> dom X" "R \<noteq> target n key"
proof -
  note t = top_okD [OF assms]
  note f = target_family [OF t(2)]
  show g: "good C h X (lo_at None (rseps n) (route (rseps n) key)) (hi_at (rseps n) None (route (rseps n) key)) (target n key)"
    by (rule fgoodD [OF t(3) f(1)])
  have "target n key \<in> set (fids X (rfam h n))" using fids_in [OF f(1)] in_be_ids by blast
  then show "target n key \<in> dom X" "R \<noteq> target n key" using fgood_dom [OF t(3)] t(4) by blast+
qed

section \<open>Steps below the root\<close>

lemma fevolves_part:
  assumes "fgood C X F" "mset G \<subseteq># mset F" "fevolves C X X' G"
  shows "fevolves C X X' F"
proof -
  obtain H where "mset H = mset F - mset G" using ex_mset by blast
  then have p: "mset (G @ H) = mset F" using assms(2) by simp
  have "fgood C X (G @ H)" by (rule fgood_perm [OF p [symmetric] assms(1)])
  from fevolves_frame(1) [OF this assms(3)] show ?thesis by (rule fevolves_perm [OF p])
qed

text \<open>The value of every key stays, from one root to another.\<close>

definition top_same :: "nat \<Rightarrow> ('k::linorder, 'v::plus) be_state \<Rightarrow> 'k be_root \<Rightarrow> ('k, 'v) be_state \<Rightarrow> nat \<Rightarrow> 'k be_root \<Rightarrow> bool"
where
  "top_same h X n X' h' n' \<longleftrightarrow>
     (\<forall>key. look h' X' key (target n' key) = look h X key (target n key) \<and>
            stamps h' X' key (target n' key) \<subseteq> stamps h X key (target n key))"

lemma top_same_trans: "top_same h X n X1 h1 n1 \<Longrightarrow> top_same h1 X1 n1 X2 h2 n2 \<Longrightarrow> top_same h X n X2 h2 n2"
  unfolding top_same_def by (metis order_trans)

lemma top_same_at: "(\<And>key. same_at h X (target n key) X' (target n' key) key) \<Longrightarrow> top_same h X n X' h n'"
  by (simp add: top_same_def same_at_def)

lemma top_evolves:
  assumes "top_ok C h X R n" "fevolves C X X' (rfam h n)"
  shows "top_ok C h X' R n" "top_same h X n X' h n"
proof -
  note t = top_okD [OF assms(1)] and e = fevolvesD [OF assms(2)]
  have "X' R = X R" by (rule growsD(1) [OF e(2) t(5,4)])
  moreover have "R \<notin> set (fids X' (rfam h n))" using growsD(2) [OF e(2)] t(4,5) by blast
  ultimately show "top_ok C h X' R n" using t e(1) by (simp add: top_ok_def)
  show "top_same h X n X' h n"
    by (rule top_same_at, rule e(3) [OF target_family [OF t(2)]])
qed

lemma top_evolves_part:
  assumes "top_ok C h X R n" "mset G \<subseteq># mset (rfam h n)" "fevolves C X X' G"
  shows "top_ok C h X' R n" "top_same h X n X' h n"
  using top_evolves [OF assms(1) fevolves_part [OF top_okD(3) [OF assms(1)] assms(2,3)]] .

lemma top_evolves_one:
  assumes "top_ok C h X R n" "(h, lo, hi, c) \<in> set (rfam h n)" "evolves C h X X' lo hi c"
  shows "top_ok C h X' R n" "top_same h X n X' h n"
  using top_evolves_part [OF assms(1), of "[(h, lo, hi, c)]" X'] assms(2,3) by (simp_all add: fevolves_single)

text \<open>A child of the root is split.\<close>

lemma root_insert_run:
  assumes "be_root_ok C n" "rsize n < ROOT_N C" "j \<le> rsize n"
  shows "\<exists>n'. root_insert j m r n = Inr n' \<and> rseps n' = take j (rseps n) @ m # drop j (rseps n) \<and>
           rkids n' = take (Suc j) (rkids n) @ r # drop (Suc j) (rkids n) \<and> length (rpivots n') = ROOT_N C \<and>
           length (rchildren n') = ROOT_N C + 1 \<and> rsize n' = rsize n + 1"
proof -
  note k = be_root_okD [OF assms(1)]
  have "take (Suc (rsize n)) (insert_at (rsize n) j m (rpivots n)) = take j (rseps n) @ m # drop j (rseps n)"
    unfolding rseps_def by (rule take_insert_at) (use k assms in simp_all)
  moreover have "take (Suc (rsize n + 1)) (insert_at (rsize n + 1) (j + 1) r (rchildren n)) =
      take (Suc j) (rkids n) @ r # drop (Suc j) (rkids n)"
    unfolding rkids_def using take_insert_at [of "j + 1" "rsize n + 1" "rchildren n" r] k assms by simp
  ultimately show ?thesis using k assms by (simp add: root_insert_def rseps_def rkids_def)
qed

lemma top_splits:
  assumes t: "top_ok C h X R n" and j: "j \<le> rsize n" "rsize n < ROOT_N C"
    and s: "splits C h X X1 (lo_at None (rseps n) j) (hi_at (rseps n) None j) (rkids n ! j) m r"
    and n': "root_insert j m r n = Inr n'" and X': "X' = X1(R \<mapsto> (BeRoot n', []))"
  shows "top_ok C h X' R n'" "top_same h X n X' h n'" "X1 R = X R" "rsize n' = rsize n + 1"
    "(h, lo_at None (rseps n) j, Some m, rkids n ! j) \<in> set (rfam h n')" "(h, Some m, hi_at (rseps n) None j, r) \<in> set (rfam h n')"
    "mset [(h, lo_at None (rseps n) j, Some m, rkids n ! j), (h, Some m, hi_at (rseps n) None j, r)] \<subseteq># mset (rfam h n')"
proof -
  note k = top_okD [OF t]
  note z = be_root_okD [OF k(2)]
  have jl: "j < length (rkids n)" using j(1) z(5,6) by simp
  have n'': "rseps n' = take j (rseps n) @ m # drop j (rseps n)"
      "rkids n' = take (Suc j) (rkids n) @ r # drop (Suc j) (rkids n)"
      "length (rpivots n') = ROOT_N C" "length (rchildren n') = ROOT_N C + 1" "rsize n' = rsize n + 1"
    using root_insert_run [OF k(2) j(2,1), of m r] n' by auto
  show "rsize n' = rsize n + 1" by (rule n''(5))
  note f = splits_family [OF k(3) [unfolded rfam_def] z(6,4) _ jl s n''(1,2)]
  have K: "fgood C X1 (rfam h n')" "sorted_wrt (<) (rseps n')"
      "grows X (set (fids X (rfam h n))) X1 (set (fids X1 (rfam h n')))"
      "same_at h X (target n key) X1 (target n' key) key" for key
    unfolding rfam_def target_def using f(1,2,6) f(7) [of key] by simp_all
  show "X1 R = X R" by (rule growsD(1) [OF K(3) k(5,4)])
  have out: "R \<notin> set (fids X1 (rfam h n'))" using growsD(2) [OF K(3)] k(4,5) by blast
  then have same: "\<And>x. x \<in> set (fids X1 (rfam h n')) \<Longrightarrow> X' x = X1 x" by (auto simp: X')
  note b = fgood_beside [OF K(1), of X', OF same]
  have ok': "be_root_ok C n'" using n'' j(2) K(2) by (simp add: be_root_ok_def)
  show "top_ok C h X' R n'" using ok' b(1,2) out by (simp add: top_ok_def X')
  show "top_same h X n X' h n'"
    by (rule top_same_at, rule same_at_trans [OF K(4) b(3) [OF _ target_family(1) [OF ok']]])
  have cut: "rfam h n' = take j (rfam h n) @
      [(h, lo_at None (rseps n) j, Some m, rkids n ! j), (h, Some m, hi_at (rseps n) None j, r)] @ drop (Suc j) (rfam h n)"
    unfolding rfam_def n''(1,2) by (rule kfam_split [OF z(6) jl])
  show "(h, lo_at None (rseps n) j, Some m, rkids n ! j) \<in> set (rfam h n')" "(h, Some m, hi_at (rseps n) None j, r) \<in> set (rfam h n')"
    unfolding cut by simp_all
  show "mset [(h, lo_at None (rseps n) j, Some m, rkids n ! j), (h, Some m, hi_at (rseps n) None j, r)] \<subseteq># mset (rfam h n')"
    unfolding cut by simp
qed

section \<open>A new message\<close>

text \<open>
  The message on its way to the child for its key, as if it were in the inbox of that child: the
  value of its key is changed by it, the value of every other key stays.
\<close>

lemma single_inbox_ok: "valid_upsert u \<Longrightarrow> 1 \<le> MAX_FLUSH_SIZE C \<Longrightarrow> within lo hi (ukey u) \<Longrightarrow> inbox_ok C lo hi [u]"
  by (simp add: inbox_ok_def upserts_ok_def)

lemma post_one:
  assumes g: "good C h X lo hi c" and X: "X c = Some (x, [])" and u: "valid_upsert u" "within lo hi (ukey u)"
    and mx: "1 \<le> MAX_FLUSH_SIZE C" and ts: "\<forall>t \<in> stamps h X (ukey u) c. t < timeStamp u"
    and X'_def: "X' = X(c \<mapsto> (x, [u]))"
  shows "good C h X' lo hi c" "be_ids h X' c = be_ids h X c"
    "look h X' key c = (if key = ukey u then effect u (look h X key c) else look h X key c)"
    "stamps h X' key c \<subseteq> insert (timeStamp u) (stamps h X key c)"
proof -
  have ord: "ordered (msgs_for key [u] @ trail h X key c)" if w: "within lo hi key" for key
  proof -
    have "ordered (trail h X key c)" using g w by (simp add: good_def)
    then show ?thesis using ts by (auto simp: ordered_append ordered_def stamps_def)
  qed
  have at: "X' c = Some (x, [u])" by (simp add: X'_def)
  note r = good_inbox [where X = X and X' = X' and i = c, OF g X at _ single_inbox_ok [OF u(1) mx u(2)] ord]
  have same: "\<And>j. j \<in> set (be_ids h X c) \<Longrightarrow> j \<noteq> c \<Longrightarrow> X' j = X j" by (simp add: X'_def)
  show "good C h X' lo hi c" "be_ids h X' c = be_ids h X c" by (rule r [OF same], assumption+)+
  have t: "trail h X' key c = msgs_for key [u] @ trail h X key c" "base h X' key c = base h X key c"
    by (rule r [OF same], assumption+)+
  show "look h X' key c = (if key = ukey u then effect u (look h X key c) else look h X key c)"
    unfolding look_def t by simp
  show "stamps h X' key c \<subseteq> insert (timeStamp u) (stamps h X key c)"
    unfolding stamps_def t by auto
qed

lemma post_top:
  assumes t: "top_ok C h X R n" and c_def: "c = target n (ukey u)" and X: "X c = Some (x, [])" and u: "valid_upsert u"
    and mx: "1 \<le> MAX_FLUSH_SIZE C" and ts: "\<forall>t \<in> stamps h X (ukey u) c. t < timeStamp u"
    and X'_def: "X' = X(c \<mapsto> (x, [u]))"
  shows "top_ok C h X' R n" "nds X' = nds X"
    "look h X' key (target n key) = (if key = ukey u then effect u (look h X key (target n key)) else look h X key (target n key))"
    "stamps h X' key (target n key) \<subseteq> insert (timeStamp u) (stamps h X key (target n key))"
    "noisy X' \<subseteq> insert c (noisy X)"
proof -
  note k = top_okD [OF t]
  note z = be_root_okD [OF k(2)]
  let ?j = "route (rseps n) (ukey u)" and ?K = "rfam h n"
  let ?e = "(h, lo_at None (rseps n) ?j, hi_at (rseps n) None ?j, c)"
  note f = target_family(1) [OF k(2), of h "ukey u", folded c_def] target_family(2) [OF k(2), of "ukey u"]
  have jl: "?j < length (rkids n)" using z(5,6) z(8) [of "ukey u"] by simp
  note g = fgoodD [OF k(3) f(1)]
  note p = post_one [where X = X and c = c, OF g X u f(2) mx ts X'_def]
  define A B where "A = take ?j ?K" and "B = drop (Suc ?j) ?K"
  have K: "?K = A @ [?e] @ B"
    unfolding A_def B_def rfam_def c_def target_def using kfam_cut [OF jl, of h None "rseps n" None] by simp
  have gK: "fgood C X (A @ B)" "set (fids X (A @ B)) \<inter> set (be_ids h X c) = {}"
      "distinct (fids X ?K)"
    using k(3) unfolding K fgood_append by (auto simp: fgood_def)
  have same: "\<And>y. y \<in> set (fids X (A @ B)) \<Longrightarrow> X' y = X y"
    using gK(2) in_be_ids [of c h X] by (auto simp: X'_def simp del: in_be_ids)
  note b = fgood_beside [OF gK(1), of X', OF same]
  have "fids X' A = fids X A" "fids X' B = fids X B"
    using gK(1) same by (intro fgood_beside(2) [of C X]; simp add: fgood_append)+
  then have ids: "fids X' ?K = fids X ?K" using p(2) unfolding K by simp
  have members: "\<forall>(h', lo', hi', i) \<in> set ?K. good C h' X' lo' hi' i"
    using fgoodD [OF b(1)] p(1) unfolding K by auto
  then have "fgood C X' ?K" using gK(3) ids by (simp add: fgood_def)
  moreover have "X' R = X R" using target_good(3) [OF t, of "ukey u"] by (simp add: X'_def c_def)
  ultimately show "top_ok C h X' R n" using k(1,2,4) ids by (simp add: top_ok_def)
  show "nds X' = nds X" unfolding X'_def by (rule nds_inbox [where X = X and i = c, OF X])
  show "noisy X' \<subseteq> insert c (noisy X)" by (auto simp: noisy_def X'_def inbox_def)
  have sub: "look h X' key (target n key) = (if key = ukey u then effect u (look h X key (target n key)) else look h X key (target n key)) \<and>
      stamps h X' key (target n key) \<subseteq> insert (timeStamp u) (stamps h X key (target n key))"
  proof (cases "target n key = c")
    case True
    show ?thesis unfolding True using p(3,4) [of key] by simp
  next
    case False
    then have "ukey u \<noteq> key" by (auto simp: c_def)
    moreover have "same_at h X (target n key) X' (target n key) key"
      by (rule b(3)) (use target_family(1) [OF k(2), of h key] False in \<open>auto simp: K\<close>)
    ultimately show ?thesis by (auto simp: same_at_def)
  qed
  then show "look h X' key (target n key) = (if key = ukey u then effect u (look h X key (target n key)) else look h X key (target n key))"
    "stamps h X' key (target n key) \<subseteq> insert (timeStamp u) (stamps h X key (target n key))" by blast+
qed

text \<open>What a message does to the whole: the value of its key, and the time stamps.\<close>

definition posted ::
  "('k::linorder, 'v::plus) be_config \<Rightarrow> nat \<Rightarrow> ('k, 'v) upsert \<Rightarrow> nat \<Rightarrow> ('k, 'v) be_state \<Rightarrow> 'k be_root \<Rightarrow>
   nat \<Rightarrow> ('k, 'v) be_state \<Rightarrow> 'k be_root \<Rightarrow> bool" where
  "posted C R u h X n h' X' n' \<longleftrightarrow>
     top_ok C h' X' R n' \<and> noisy X' = {} \<and>
     (\<forall>key. look h' X' key (target n' key) =
              (if key = ukey u then effect u (look h X key (target n key)) else look h X key (target n key)) \<and>
            stamps h' X' key (target n' key) \<subseteq> insert (timeStamp u) (stamps h X key (target n key)))"

lemma posted_step:
  assumes t: "top_ok C h X R n" and c: "X (target n (ukey u)) = Some (x, [])" and u: "valid_upsert u"
    and C: "config_ok C" and ts: "\<forall>t \<in> stamps h X (ukey u) (target n (ukey u)). t < timeStamp u"
    and X1: "X1 = X(target n (ukey u) \<mapsto> (x, [u]))"
    and X': "top_ok C h' X' R n'" "noisy X' = {}" "top_same h X1 n X' h' n'"
  shows "posted C R u h X n h' X' n'"
proof -
  have "1 \<le> MAX_FLUSH_SIZE C" using config_okD(1) [OF C] by (simp add: MAX_FLUSH_SIZE_def)
  note p = post_top(3,4) [where X = X, OF t refl c u this ts X1]
  show ?thesis unfolding posted_def
  proof (intro conjI allI)
    fix key
    have s: "look h' X' key (target n' key) = look h X1 key (target n key)"
      "stamps h' X' key (target n' key) \<subseteq> stamps h X1 key (target n key)"
      using X'(3) unfolding top_same_def by blast+
    show "look h' X' key (target n' key) =
        (if key = ukey u then effect u (look h X key (target n key)) else look h X key (target n key))"
      unfolding s(1) by (rule p(1))
    show "stamps h' X' key (target n' key) \<subseteq> insert (timeStamp u) (stamps h X key (target n key))"
      by (rule order_trans [OF s(2) p(2)])
  qed (rule X'(1,2))+
qed

lemma quiet_inbox: "noisy X = {} \<Longrightarrow> X i = Some (x, b) \<Longrightarrow> b = []"
  by (auto simp: noisy_def inbox_def split: option.splits)

lemma noisy_upd: "X i = Some (x, b) \<Longrightarrow> noisy (X(i \<mapsto> (y, b'))) = (noisy X - {i}) \<union> (if b' = [] then {} else {i})"
  by (auto simp: noisy_def inbox_def)

end
