(* ===== verification/BeTarget.thy ===== *)
theory BeTarget
  imports BeTop
begin

text \<open>
  The child of the root that a message goes to: a leaf that takes it or is split for it, an inner
  node that takes it into its buffer or is flushed, after a split if it has no room for a pivot.
\<close>

section \<open>A leaf\<close>

lemma upsert_leaf_run:
  assumes s: "st s nd lk ch N" "lk p = Exclusive" "nd p = Some (BeLeaf l)" and l: "bleaf_ok C l"
    and room: "card (key_step u (set (leaf_keys l))) \<le> LEAF_N C" and u: "valid_upsert u"
    and clean: "p \<in> ch \<Longrightarrow> utype u = INSERT \<and> map_of (leaf_kvs l) (ukey u) \<noteq> Some (uval u)"
  shows "\<exists>s'. upsert_leaf p u s = Inr s' \<and> st s' (nd(p \<mapsto> BeLeaf (leaf_apply u l))) (lk(p := Unlocked)) (ch - {p}) N"
proof -
  let ?i = "lower_bound (keys l) (lsize l) (ukey u)" and ?u = "lk(p := Unlocked)"
  note k = leaf_okD [OF l] and f = leaf_found [OF l refl, of "ukey u"]
  have get: "be_leaf_at p s = Inr l" using st_get [OF s(1,3)] s(2) by (simp add: be_leaf_at_def)
  have put: "\<exists>s'. bindE (ps_put p (BeLeaf l') s) (ps_unpin True p) = Inr s' \<and> st s' (nd(p \<mapsto> BeLeaf l')) ?u (ch - {p}) N" for l'
  proof -
    obtain s1 where s1: "ps_put p (BeLeaf l') s = Inr s1" "st s1 (nd(p \<mapsto> BeLeaf l')) lk (insert p ch) N"
      using st_put [OF s(1,2)] by blast
    obtain s2 where "ps_unpin True p s1 = Inr s2" "st s2 (nd(p \<mapsto> BeLeaf l')) ?u (insert p ch - {p}) N"
      using st_unpin [OF s1(2), of p True] s(2) by auto
    then show ?thesis using s1(1) by simp
  qed
  have same: "nd(p \<mapsto> BeLeaf l) = nd" using s(3) by auto
  have skip: "\<exists>s'. ps_unpin False p s = Inr s' \<and> st s' (nd(p \<mapsto> BeLeaf l)) ?u (ch - {p}) N" if "p \<notin> ch"
    unfolding same using st_unpin [OF s(1), of p False] s(2) that by auto
  show ?thesis
  proof (cases "?i \<ge> lsize l \<or> keys l ! ?i \<noteq> ukey u")
    case True
    then have ni: "ukey u \<notin> set (leaf_keys l)" using f(2) by auto
    show ?thesis
    proof (cases "utype u")
      case INSERT
      have "lsize l < length (keys l)" using INSERT room ni leaf_card [OF l] k(1) by simp
      moreover have "\<not> (?i < lsize l \<and> keys l ! ?i = ukey u)" using True by auto
      ultimately show ?thesis using put [of "leaf_insert ?i (ukey u) (uval u) l"] INSERT True get
        by (auto simp: upsert_leaf_def insert_in_leaf_def leaf_apply_def Let_def not_le simp del: bindE_eq_Inr)
    next
      case DELETE
      then have "p \<notin> ch" using clean by auto
      then show ?thesis using skip DELETE True get
        by (simp add: upsert_leaf_def delete_in_leaf_def leaf_apply_def Let_def del: bindE_eq_Inr Diff_insert0)
    next
      case UPDATE
      then have "p \<notin> ch" using clean by auto
      then show ?thesis using skip UPDATE True get
        by (simp add: upsert_leaf_def update_in_leaf_def leaf_apply_def Let_def del: bindE_eq_Inr Diff_insert0)
    qed (use u in \<open>simp add: valid_upsert_def\<close>)
  next
    case False
    then have i: "?i < lsize l" "keys l ! ?i = ukey u" by auto
    have v: "map_of (leaf_kvs l) (ukey u) = Some (vals l ! ?i)" by (rule leaf_lookup [OF l i])
    show ?thesis
    proof (cases "utype u")
      case INSERT
      show ?thesis
      proof (cases "vals l ! ?i = uval u")
        case True
        then have "(vals l)[?i := uval u] = vals l" using list_update_id [of "vals l" ?i] by simp
        then have "l\<lparr>vals := (vals l)[?i := uval u]\<rparr> = l" by (cases l) simp
        moreover have "p \<notin> ch" using clean v True by auto
        ultimately show ?thesis using skip True INSERT i get
          by (simp add: upsert_leaf_def insert_in_leaf_def leaf_apply_def Let_def del: bindE_eq_Inr Diff_insert0)
      next
        case val: False
        then show ?thesis using put [of "l\<lparr>vals := (vals l)[?i := uval u]\<rparr>"] INSERT i get
          by (simp add: upsert_leaf_def insert_in_leaf_def leaf_apply_def Let_def del: bindE_eq_Inr)
      qed
    next
      case DELETE
      then show ?thesis using put False get i
        by (simp add: upsert_leaf_def delete_in_leaf_def leaf_apply_def Let_def del: bindE_eq_Inr)
    next
      case UPDATE
      then show ?thesis using put False get i
        by (simp add: upsert_leaf_def update_in_leaf_def leaf_apply_def Let_def del: bindE_eq_Inr)
    qed (use u in \<open>simp add: valid_upsert_def\<close>)
  qed
qed

lemma leaf_take_run:
  assumes t: "top_ok C 0 X R n" and quiet: "noisy X = {}" and c: "X (target n (ukey u)) = Some (BeLeaf l, [])"
    and C: "config_ok C" and u: "valid_upsert u" and ts: "\<forall>t \<in> stamps 0 X (ukey u) (target n (ukey u)). t < timeStamp u"
    and room: "card (key_step u (set (leaf_keys l))) \<le> LEAF_N C"
    and s: "st s (nds X) lk {} N" "lk (target n (ukey u)) = Exclusive"
  shows "\<exists>s' X'. upsert_leaf (target n (ukey u)) u s = Inr s' \<and>
           st s' (nds X') (lk(target n (ukey u) := Unlocked)) {} N \<and> posted C R u 0 X n 0 X' n"
proof -
  let ?c = "target n (ukey u)" and ?l = "leaf_apply u l"
  define X1 where "X1 = X(?c \<mapsto> (BeLeaf l, [u]))"
  define X' where "X' = X1(?c \<mapsto> (BeLeaf (fold leaf_apply [u] l), []))"
  note k = top_okD [OF t]
  have "1 \<le> MAX_FLUSH_SIZE C" using config_okD(1) [OF C] by (simp add: MAX_FLUSH_SIZE_def)
  note p = post_top [where X = X, OF t refl c u this ts X1_def]
  note g = target_good(1) [OF p(1), of "ukey u"]
  have at: "X1 ?c = Some (BeLeaf l, [u])" by (simp add: X1_def)
  have "evolves C 0 X1 X' (lo_at None (rseps n) (route (rseps n) (ukey u))) (hi_at (rseps n) None (route (rseps n) (ukey u))) ?c"
    unfolding X'_def by (rule leaf_evolves [where X = X1, OF at g]) (use room in simp)
  note e = top_evolves_one [OF p(1) target_family(1) [OF k(2)] this]
  have "noisy X' = {}" using p(5) quiet noisy_upd [where X = X1, OF at] by (auto simp: X'_def)
  then have post: "posted C R u 0 X n 0 X' n"
    by (rule posted_step [where X = X, OF t c u C ts X1_def e(1) _ e(2)])
  have "nds X ?c = Some (BeLeaf l)" by (rule nds_at [where X = X, OF c])
  moreover have "bleaf_ok C l" using g at by (auto simp: good_def)
  ultimately obtain s' where s': "upsert_leaf ?c u s = Inr s'" "st s' ((nds X)(?c \<mapsto> BeLeaf ?l)) (lk(?c := Unlocked)) {} N"
    using upsert_leaf_run [OF s, of l C u] room u by auto
  have "nds X' = (nds X)(?c \<mapsto> BeLeaf ?l)" by (simp add: X'_def X1_def)
  then show ?thesis using s' post by (intro exI [of _ s'] exI [of _ X']) simp
qed

text \<open>The same with only exclusive locks, when the page has changed already.\<close>

lemma upsert_leaf_changed_run:
  assumes "xst s nd S N" "p \<in> S" "nd p = Some (BeLeaf l)" "bleaf_ok C l" "card (key_step u (set (leaf_keys l))) \<le> LEAF_N C"
    "utype u = INSERT" "map_of (leaf_kvs l) (ukey u) \<noteq> Some (uval u)"
  shows "\<exists>s'. upsert_leaf p u s = Inr s' \<and> xst s' (nd(p \<mapsto> BeLeaf (leaf_apply u l))) (S - {p}) N"
proof -
  obtain ch where s: "st s nd (xlocks S) ch N" using assms(1) by (auto simp: xst_def)
  have "valid_upsert u" using assms(6) by (simp add: valid_upsert_def)
  then show ?thesis
    using upsert_leaf_run [OF s _ assms(3-5)] assms(2,6,7) by (auto simp: xst_def)
qed

lemma leaf_split_run:
  fixes X :: "('k::linorder, 'v::plus) be_state"
  assumes t: "top_ok C 0 X R n" and quiet: "noisy X = {}" and c_def: "c = target n (ukey u)"
    and X: "X c = Some (BeLeaf l, [])" and C: "config_ok C" and u: "utype u = INSERT"
    and ts: "\<forall>t \<in> stamps 0 X (ukey u) c. t < timeStamp u" and full: "lsize l = LEAF_N C"
    and new: "map_of (leaf_kvs l) (ukey u) \<noteq> Some (uval u)" and room: "rsize n < ROOT_N C"
    and s: "xst s (nds X) {R, c} N" and N: "3 \<le> N"
  shows "\<exists>s' X' n'. root_leaf_upsert C u R True c (route (rseps n) (ukey u)) False s = Inr (True, s') \<and>
           xst s' (nds X') {} N \<and> posted C R u 0 X n 0 X' n'"
proof -
  let ?j = "route (rseps n) (ukey u)"
  let ?lo = "lo_at None (rseps n) ?j" and ?hi = "hi_at (rseps n) None ?j"
  note k = top_okD [OF t]
  note z = be_root_okD [OF k(2)] and cd = config_okD [OF C]
  have v: "valid_upsert u" using u by (simp add: valid_upsert_def)
  have mx: "1 \<le> MAX_FLUSH_SIZE C" using cd(1) by (simp add: MAX_FLUSH_SIZE_def)
  define X1 where "X1 = X(c \<mapsto> (BeLeaf l, [u]))"
  note p = post_top [where X = X, OF t c_def X v mx ts X1_def]
  have at: "X1 c = Some (BeLeaf l, [u])" by (simp add: X1_def)
  note f = target_family(1) [OF k(2), of 0 "ukey u", folded c_def] target_family(2) [OF k(2), of "ukey u"]
  note g = fgoodD [OF top_okD(3) [OF p(1)] f(1)]
  have l: "bleaf_ok C l" "\<forall>k \<in> set (leaf_keys l). within ?lo ?hi k" using g at by (auto simp: good_def)
  define m where "m = leaf_median (leaf_keys l) (map ukey [u])"
  have up: "upserts_ok [u]" "length [u] \<le> MAX_FLUSH_SIZE C" "LEAF_N C < lsize l + length [u]"
    using v mx full by (simp_all add: upserts_ok_def)
  note h = leaf_split_fits [OF C l(1) up(1,3,2) m_def]
  have within_all: "\<forall>k \<in> set (leaf_keys l) \<union> ukey ` set [u]. within ?lo ?hi k" using l(2) f(2) by auto
  then have m: "gt_lo ?lo m" "lt_hi ?hi m" using h(5) h(6) [of ?hi] unfolding within_def by blast+
  have Rc: "R \<noteq> c" using target_good(3) [OF t, of "ukey u"] by (simp add: c_def)
  have nc: "nds X c = Some (BeLeaf l)" by (rule nds_at [where X = X, OF X])
  obtain r s1 where r: "be_splitLeafNode C c m s = Inr (r, m, s1)" "r \<notin> dom (nds X)" "r \<notin> {R, c}"
      "xst s1 ((nds X)(r \<mapsto> BeLeaf (bleaf_right C m l), c \<mapsto> BeLeaf (bleaf_left m l))) (insert r {R, c}) N"
    using be_splitLeafNode_run [OF s _ nc h(2), of C m] N Rc by auto
  have rX: "r \<notin> dom X1" using r(2,3) by (auto simp: X1_def)
  define X2 where "X2 = X1(r \<mapsto> (BeLeaf (bleaf_right C m l), filter (\<lambda>u. m < ukey u) [u]),
                        c \<mapsto> (BeLeaf (bleaf_left m l), filter (\<lambda>u. ukey u \<le> m) [u]))"
  have sp: "splits C 0 X1 X2 ?lo ?hi (rkids n ! ?j) m r"
    using split_leaf_splits [where X = X1, OF at g m rX] by (simp add: X2_def c_def target_def)
  obtain n' where n': "root_insert ?j m r n = Inr n'" using root_insert_run [OF k(2) room z(8)] by blast
  define X3 where "X3 = X2(R \<mapsto> (BeRoot n', []))"
  note w = top_splits [OF p(1) z(8) room sp n' X3_def]
  have cj: "rkids n ! ?j = c" by (simp add: c_def target_def)
  define q lq where "q = (if ukey u \<le> m then c else r)" and "lq = (if ukey u \<le> m then bleaf_left m l else bleaf_right C m l)"
  have X3q: "X3 q = Some (BeLeaf lq, [u])" using Rc r(3) by (auto simp: X3_def X2_def q_def lq_def not_le)
  have fq: "fits (LEAF_N C) (set (leaf_keys lq)) [u]" using h(3,4) by (auto simp: lq_def not_le split: if_splits)
  obtain lo' hi' where fam: "(0, lo', hi', q) \<in> set (rfam 0 n')"
    using w(5,6) unfolding cj q_def by (cases "ukey u \<le> m") auto
  have g3: "good C 0 X3 lo' hi' q" by (rule fgoodD [OF top_okD(3) [OF w(1)] fam])
  define X4 where "X4 = X3(q \<mapsto> (BeLeaf (fold leaf_apply [u] lq), []))"
  have "evolves C 0 X3 X4 lo' hi' q" unfolding X4_def by (rule leaf_evolves [where X = X3, OF X3q g3 fq])
  note e = top_evolves_one [OF w(1) fam this]
  have noisy4: "noisy X4 = {}"
  proof -
    have "X4 x = Some (y, b) \<Longrightarrow> b = []" for x y b
      using quiet_inbox [where X = X, OF quiet, of x y b]
      by (auto simp: X4_def X3_def X2_def X1_def q_def split: if_splits)
    then show ?thesis by (auto simp: noisy_def inbox_def split: option.splits)
  qed
  have post: "posted C R u 0 X n 0 X4 n'"
    by (rule posted_step [where X = X, OF t X [unfolded c_def] v C ts [unfolded c_def] X1_def [unfolded c_def] e(1) noisy4
          top_same_trans [OF w(2) e(2)]])
  let ?nd = "(nds X)(r \<mapsto> BeLeaf (bleaf_right C m l), c \<mapsto> BeLeaf (bleaf_left m l))"
  have nR: "?nd R = Some (BeRoot n)" using nds_at [where X = X, OF k(1)] Rc r(3) by auto
  obtain s2 where s2: "ps_put R (BeRoot n') s1 = Inr s2" "xst s2 (?nd(R \<mapsto> BeRoot n')) (insert r {R, c}) N"
    using xst_put [OF r(4), of R "BeRoot n'"] by auto
  obtain s3 where s3: "ps_unpin True R s2 = Inr s3" "xst s3 (?nd(R \<mapsto> BeRoot n')) (insert r {R, c} - {R}) N"
    using xst_unpin [OF s2(2), of R] by auto
  define q' where "q' = (if ukey u \<le> m then r else c)"
  have S3: "insert r {R, c} - {R} = {c, r}" using Rc r(3) by auto
  have "q' \<in> {c, r}" by (simp add: q'_def)
  from xst_unpin [OF s3(2) [unfolded S3] this]
  obtain s4 where s4: "ps_unpin True q' s3 = Inr s4" "xst s4 (?nd(R \<mapsto> BeRoot n')) ({c, r} - {q'}) N" by blast
  have S4: "{c, r} - {q'} = {q}" using r(3) by (auto simp: q'_def q_def)
  have nq: "(?nd(R \<mapsto> BeRoot n')) q = Some (BeLeaf lq)" using Rc r(3) by (auto simp: q_def lq_def)
  have lqok: "bleaf_ok C lq" using g3 X3q by (auto simp: good_def)
  have lqm: "map_of (leaf_kvs lq) (ukey u) \<noteq> Some (uval u)"
    using new bleaf_split_lookup [OF l(1), of "ukey u" m] by (simp add: lq_def split: if_splits)
  have "card (key_step u (set (leaf_keys lq))) \<le> LEAF_N C" using fq by simp
  from upsert_leaf_changed_run [OF s4(2) [unfolded S4] singletonI nq lqok this u lqm]
  obtain s5 where s5: "upsert_leaf q u s4 = Inr s5"
    "xst s5 (?nd(R \<mapsto> BeRoot n', q \<mapsto> BeLeaf (leaf_apply u lq))) ({q} - {q}) N" by blast
  have nds4: "nds X4 = ?nd(R \<mapsto> BeRoot n', q \<mapsto> BeLeaf (leaf_apply u lq))"
    using at nc by (auto simp: X4_def X3_def X2_def X1_def)
  have get: "be_leaf_at c s = Inr l" by (rule be_leaf_run [OF s _ nc]) simp
  have getR: "be_root_at R s1 = Inr n" by (rule be_root_run [OF r(4) _ nR]) simp
  have med: "findMedianKey (zeroKey C) (sizeMaxKey C) (keys l) (lsize l) [ukey u] 1 = Inr m" using h(1) by simp
  have "root_leaf_upsert C u R True c ?j False s = Inr (True, s5)"
    using get med r(1) getR n' s2(1) s3(1) s4(1) s5(1) u full leaf_okD(1,3) [OF l(1)]
    by (cases "ukey u \<le> m") (simp_all add: root_leaf_upsert_def q_def q'_def)
  moreover have "xst s5 (nds X4) {} N" using s5(2) unfolding nds4 by simp
  ultimately show ?thesis using post by blast
qed

end
