(* ===== verification/BeBuffer.thy ===== *)
theory BeBuffer
  imports BeTarget
begin

text \<open>
  An inner node as the target of a message: the message goes into its buffer, or is merged
  there with an older one for the same key, or starts a flush.
\<close>

section \<open>Changing a buffer\<close>

lemma buffer_found:
  assumes "be_inner_ok C x" and i_def: "i = lower_bound (map ukey (upserts (ubuf x))) (usize (ubuf x)) key"
  shows "i = length (takeWhile (\<lambda>k. k < key) (map ukey (bmsgs x)))" "i \<le> usize (ubuf x)"
    "i < usize (ubuf x) \<and> ukey (upserts (ubuf x) ! i) = key \<longleftrightarrow> key \<in> ukey ` set (bmsgs x)"
    "i < usize (ubuf x) \<Longrightarrow> upserts (ubuf x) ! i = bmsgs x ! i"
proof -
  note z = be_inner_okD [OF assms(1)]
  have s: "sorted_wrt (<) (map ukey (bmsgs x))" using z(9) by (simp add: upserts_ok_def)
  have m: "map ukey (bmsgs x) = take (usize (ubuf x)) (map ukey (upserts (ubuf x)))" by (simp add: bmsgs_def take_map)
  show i: "i = length (takeWhile (\<lambda>k. k < key) (map ukey (bmsgs x)))"
    unfolding i_def m by (rule lower_bound_takeWhile) (use z(7,8) s in \<open>simp_all add: m [symmetric] strict_sorted_imp_sorted\<close>)
  note w = takeWhile_less_split [OF s i]
  show il: "i \<le> usize (ubuf x)" using w(1) z(10) by simp
  show n: "i < usize (ubuf x) \<Longrightarrow> upserts (ubuf x) ! i = bmsgs x ! i" by (simp add: bmsgs_def)
  show "i < usize (ubuf x) \<and> ukey (upserts (ubuf x) ! i) = key \<longleftrightarrow> key \<in> ukey ` set (bmsgs x)"
  proof
    assume a: "i < usize (ubuf x) \<and> ukey (upserts (ubuf x) ! i) = key"
    then have "bmsgs x ! i \<in> set (bmsgs x)" using z(10) by simp
    then show "key \<in> ukey ` set (bmsgs x)" using a n by force
  next
    assume "key \<in> ukey ` set (bmsgs x)"
    then have key: "key \<in> set (map ukey (bmsgs x))" by simp
    obtain j where j: "j < length (bmsgs x)" "ukey (bmsgs x ! j) = key"
      using key by (auto simp: in_set_conv_nth)
    have "i = j" unfolding i
    proof (rule length_takeWhile_eqI)
      show "j \<le> length (map ukey (bmsgs x))" using j(1) by simp
      show "\<And>i'. i' < j \<Longrightarrow> map ukey (bmsgs x) ! i' < key"
        using s j by (auto simp: sorted_wrt_iff_nth_less)
    qed (use j in simp)
    then show "i < usize (ubuf x) \<and> ukey (upserts (ubuf x) ! i) = key" using j z(10) n by simp
  qed
qed

lemma buffer_replace:
  assumes "upserts_ok us" "i < length us" "ukey (us ! i) = ukey u'" "valid_upsert u'"
  shows "upserts_ok (us[i := u'])" "msgs_for key (us[i := u']) = (if key = ukey u' then [u'] else msgs_for key us)"
proof -
  have k: "map ukey (us[i := u']) = map ukey us" using assms(2,3) by (metis list_update_id map_update)
  show ok: "upserts_ok (us[i := u'])"
    using assms(1,4) k unfolding upserts_ok_def by (auto dest: subsetD [OF set_update_subset_insert])
  show "msgs_for key (us[i := u']) = (if key = ukey u' then [u'] else msgs_for key us)"
  proof (cases "key = ukey u'")
    case True
    then show ?thesis using msgs_for_one [OF ok set_update_memI [OF assms(2)]] by simp
  next
    case False
    then show ?thesis
      unfolding upd_conv_take_nth_drop [OF assms(2)]
      using assms(3) id_take_nth_drop [OF assms(2)] by (metis msgs_for_simps(2,3))
  qed
qed

lemma buffer_insert:
  assumes "upserts_ok us" and i: "i = length (takeWhile (\<lambda>k. k < ukey u) (map ukey us))" and new: "ukey u \<notin> ukey ` set us"
    and "valid_upsert u"
  shows "upserts_ok (take i us @ u # drop i us)"
    "msgs_for key (take i us @ u # drop i us) = (if key = ukey u then [u] else msgs_for key us)" "i \<le> length us"
proof -
  have s: "sorted_wrt (<) (map ukey us)" using assms(1) by (simp add: upserts_ok_def)
  note w = takeWhile_less_split [OF s i]
  show "i \<le> length us" using w(1) by simp
  have "\<not> (i < length (map ukey us) \<and> map ukey us ! i = ukey u)" using new by (metis list.set_map nth_mem)
  note l = w(2) and r = w(4) [OF this]
  have "sorted_wrt (<) (take i (map ukey us) @ ukey u # drop i (map ukey us))"
    by (rule sorted_wrt_insert [OF s l r])
  then show ok: "upserts_ok (take i us @ u # drop i us)"
    using assms(1,4) by (auto simp: upserts_ok_def take_map drop_map dest: in_set_takeD in_set_dropD)
  show "msgs_for key (take i us @ u # drop i us) = (if key = ukey u then [u] else msgs_for key us)"
  proof (cases "key = ukey u")
    case True
    then show ?thesis using msgs_for_one [OF ok, of u] by simp
  next
    case False
    then show ?thesis by (metis append_take_drop_id msgs_for_simps(2,3))
  qed
qed

section \<open>A message for the buffer\<close>

lemma buffer_posted:
  fixes X :: "('k::linorder, 'v::semigroup_add) be_state"
  assumes t: "top_ok C (Suc h) X R n" and quiet: "noisy X = {}" and c_def: "c = target n (ukey u)"
    and X: "X c = Some (BeInner x, [])" and C: "config_ok C" and u: "valid_upsert u"
    and ts: "\<forall>t \<in> stamps (Suc h) X (ukey u) c. t < timeStamp u"
    and x': "be_inner_ok C x'" "bseps x' = bseps x" "bkids x' = bkids x"
      "\<And>key. msgs_for key (bmsgs x') = (if key = ukey u then [u'] else msgs_for key (bmsgs x))"
    and u': "\<And>y. effect u' y = foldr effect (u # msgs_for (ukey u) (bmsgs x)) y"
      "timeStamp u' \<in> timeStamp ` set (u # msgs_for (ukey u) (bmsgs x))"
  shows "posted C R u (Suc h) X n (Suc h) (X(c \<mapsto> (BeInner x', []))) n"
proof -
  let ?j = "route (rseps n) (ukey u)"
  let ?lo = "lo_at None (rseps n) ?j" and ?hi = "hi_at (rseps n) None ?j"
  note k = top_okD [OF t]
  define X1 where "X1 = X(c \<mapsto> (BeInner x, [u]))"
  have mx: "1 \<le> MAX_FLUSH_SIZE C" using config_okD(1) [OF C] by (simp add: MAX_FLUSH_SIZE_def)
  note p = post_top [where X = X, OF t c_def X u mx ts X1_def]
  have at: "X1 c = Some (BeInner x, [u])" by (simp add: X1_def)
  note f = target_family(1) [OF k(2), of "Suc h" "ukey u", folded c_def] target_family(2) [OF k(2), of "ukey u"]
  note g = fgoodD [OF top_okD(3) [OF p(1)] f(1)]
  note kk = good_kids [where X = X1, OF g at] and d = distinct_kids [where X = X1, OF g at]
  have q1: "\<forall>y \<in> set (bkids x). inbox X1 y = []"
  proof
    fix y assume "y \<in> set (bkids x)"
    then have "y \<noteq> c" using d(2) by auto
    then show "inbox X1 y = []" using p(5) quiet by (auto simp: noisy_def)
  qed
  have w: "\<forall>v \<in> set (bmsgs x'). within ?lo ?hi (ukey v)"
  proof
    fix v assume "v \<in> set (bmsgs x')"
    then have "v \<in> set (msgs_for (ukey v) (bmsgs x'))" by (simp add: msgs_for_set)
    then show "within ?lo ?hi (ukey v)"
      unfolding x'(4) using f(2) kk(5) by (auto simp: msgs_for_set split: if_splits)
  qed
  have e: "evolves C (Suc h) X1 ((deliver (bkids x) [] X1)(c \<mapsto> (BeInner x', []))) ?lo ?hi c"
  proof (rule push_evolves(1) [where X = X1 and c = c, OF g at q1 x'(1-3) w])
    fix key z
    show "foldr effect (msgs_for key (bmsgs x') @ msgs_for key (entry [] (route (bseps x) key))) z =
        foldr effect (msgs_for key [u] @ msgs_for key (bmsgs x)) z"
      using u'(1) [of z] x'(4) [of key] by (cases "key = ukey u") (simp_all del: effect.simps)
    show "length (msgs_for key (bmsgs x') @ msgs_for key (entry [] (route (bseps x) key))) \<le> 1"
      using one_message [OF be_inner_okD(9) [OF x'(1)], of key] by simp
    show "timeStamp ` set (msgs_for key (bmsgs x') @ msgs_for key (entry [] (route (bseps x) key))) \<subseteq>
        timeStamp ` set (msgs_for key [u] @ msgs_for key (bmsgs x))"
      using u'(2) x'(4) [of key] by auto
  qed simp_all
  define X' where "X' = X1(c \<mapsto> (BeInner x', []))"
  have "evolves C (Suc h) X1 X' ?lo ?hi c" using e unfolding deliver_nothing [OF q1] X'_def .
  note e = top_evolves_one [OF p(1) f(1) this]
  have "noisy X' = {}" using p(5) quiet noisy_upd [where X = X1, OF at] by (auto simp: X'_def)
  then have "posted C R u (Suc h) X n (Suc h) X' n"
    by (rule posted_step [where X = X, OF t X [unfolded c_def] u C ts [unfolded c_def] X1_def [unfolded c_def] e(1) _ e(2)])
  then show ?thesis by (simp add: X'_def X1_def)
qed

lemma inner_store_run:
  fixes X :: "('k::linorder, 'v::semigroup_add) be_state"
  assumes t: "top_ok C (Suc h) X R n" and quiet: "noisy X = {}" and c_def: "c = target n (ukey u)"
    and X: "X c = Some (BeInner x, [])" and C: "config_ok C" and u: "valid_upsert u"
    and ts: "\<forall>t \<in> stamps (Suc h) X (ukey u) c. t < timeStamp u"
    and room: "usize (ubuf x) < INNER_B_N C \<or> ukey u \<in> ukey ` set (bmsgs x)"
    and get: "be_inner_at c s = Inr x" and pre: "(if ex then ps_unpin sp R s else Inr s) = Inr s1"
    and s1: "xst s1 (nds X) {c} N"
  shows "\<exists>s' X'. root_inner_upsert C fuel u R ex c j sp s = Inr (True, s') \<and> xst s' (nds X') {} N \<and>
           posted C R u (Suc h) X n (Suc h) X' n"
proof -
  let ?i = "lower_bound (map ukey (upserts (ubuf x))) (usize (ubuf x)) (ukey u)"
  note k = top_okD [OF t]
  have g: "good C (Suc h) X (lo_at None (rseps n) (route (rseps n) (ukey u))) (hi_at (rseps n) None (route (rseps n) (ukey u))) c"
    unfolding c_def by (rule target_good(1) [OF t])
  have ok: "be_inner_ok C x" by (rule good_kids(3) [where X = X, OF g X])
  note z = be_inner_okD [OF ok] and b = buffer_found [OF ok refl, of "ukey u"]
  have run: "\<exists>s'. bindE (ps_put c (BeInner x') s1) (ps_unpin True c) = Inr s' \<and> xst s' (nds (X(c \<mapsto> (BeInner x', [])))) {} N" for x'
  proof -
    obtain s2 where s2: "ps_put c (BeInner x') s1 = Inr s2" "xst s2 ((nds X)(c \<mapsto> BeInner x')) {c} N"
      using xst_put [OF s1] by blast
    obtain s3 where "ps_unpin True c s2 = Inr s3" "xst s3 ((nds X)(c \<mapsto> BeInner x')) ({c} - {c}) N"
      using xst_unpin [OF s2(2)] by blast
    then show ?thesis using s2(1) by simp
  qed
  show ?thesis
  proof (cases "?i < usize (ubuf x) \<and> ukey (upserts (ubuf x) ! ?i) = ukey u")
    case True
    let ?old = "bmsgs x ! ?i"
    have i: "?i < length (bmsgs x)" "upserts (ubuf x) ! ?i = ?old" "ukey ?old = ukey u"
      using True z(10) b(4) by simp_all
    have old: "?old \<in> set (bmsgs x)" "valid_upsert ?old" using i(1) z(9) by (simp_all add: upserts_ok_def)
    have mf: "msgs_for (ukey u) (bmsgs x) = [?old]" using msgs_for_one [OF z(9) old(1)] i(3) by simp
    have "timeStamp ?old \<in> stamps (Suc h) X (ukey u) c"
      using look_inner(2) [where X = X, OF X] mf by simp
    then have "timeStamp ?old < timeStamp u" using ts by blast
    from squash_ok [OF i(3) this old(2) u]
    obtain u' where u': "squashUpserts u ?old = Inr u'" "ukey u' = ukey ?old" "valid_upsert u'"
        "timeStamp u' \<in> {timeStamp ?old, timeStamp u}" "\<forall>y. effect u' y = effect u (effect ?old y)"
      by blast
    define x' where "x' = x\<lparr>ubuf := (ubuf x)\<lparr>upserts := (upserts (ubuf x))[?i := u']\<rparr>\<rparr>"
    have m: "bmsgs x' = (bmsgs x)[?i := u']" "bseps x' = bseps x" "bkids x' = bkids x"
      by (simp_all add: x'_def bmsgs_def bseps_def bkids_def take_update_swap)
    have r: "upserts_ok (bmsgs x')" "msgs_for key (bmsgs x') = (if key = ukey u then [u'] else msgs_for key (bmsgs x))" for key
      using buffer_replace [OF z(9) i(1), of u'] u'(2,3) i(3) by (simp_all add: m(1))
    have ok': "be_inner_ok C x'" using ok r(1) m(2) by (simp add: be_inner_ok_def x'_def)
    have "posted C R u (Suc h) X n (Suc h) (X(c \<mapsto> (BeInner x', []))) n"
      by (rule buffer_posted [where X = X, OF t quiet c_def X C u ts ok' m(2,3) r(2)]) (use u' mf in auto)
    moreover obtain s' where "bindE (ps_put c (BeInner x') s1) (ps_unpin True c) = Inr s'" "xst s' (nds (X(c \<mapsto> (BeInner x', [])))) {} N"
      using run by blast
    moreover have "root_inner_upsert C fuel u R ex c j sp s =
        bindE (bindE (ps_put c (BeInner x') s1) (ps_unpin True c)) (\<lambda>s3. Inr (True, s3))"
      using get pre True u'(1) i(2) by (simp add: root_inner_upsert_def x'_def bindE_assoc Let_def del: bindE_eq_Inr)
    ultimately show ?thesis by (metis bindE.simps(2))
  next
    case False
    then have new: "ukey u \<notin> ukey ` set (bmsgs x)" using b(3) by blast
    then have sz: "usize (ubuf x) < INNER_B_N C" using room by blast
    define x' where "x' = x\<lparr>ubuf := \<lparr>upserts = insert_at (usize (ubuf x)) ?i u (upserts (ubuf x)), usize = usize (ubuf x) + 1\<rparr>\<rparr>"
    have "bmsgs x' = take ?i (bmsgs x) @ u # drop ?i (bmsgs x)"
      using take_insert_at [OF b(2), of "upserts (ubuf x)" u] sz z(7) by (simp add: x'_def bmsgs_def)
    moreover note r = buffer_insert [OF z(9) b(1) new u]
    ultimately have m: "upserts_ok (bmsgs x')" "msgs_for key (bmsgs x') = (if key = ukey u then [u] else msgs_for key (bmsgs x))"
        "bseps x' = bseps x" "bkids x' = bkids x" for key
      by (simp_all add: x'_def bseps_def bkids_def)
    have ok': "be_inner_ok C x'" using ok m(1,3) sz by (simp add: be_inner_ok_def x'_def)
    have "posted C R u (Suc h) X n (Suc h) (X(c \<mapsto> (BeInner x', []))) n"
      by (rule buffer_posted [where X = X, OF t quiet c_def X C u ts ok' m(3,4,2)])
        (use new in \<open>simp_all add: msgs_for_absent\<close>)
    moreover obtain s' where "bindE (ps_put c (BeInner x') s1) (ps_unpin True c) = Inr s'" "xst s' (nds (X(c \<mapsto> (BeInner x', [])))) {} N"
      using run by blast
    moreover have "root_inner_upsert C fuel u R ex c j sp s =
        bindE (bindE (ps_put c (BeInner x') s1) (ps_unpin True c)) (\<lambda>s3. Inr (True, s3))"
      using get pre False sz z(7) by (auto simp: root_inner_upsert_def x'_def bindE_assoc Let_def)
    ultimately show ?thesis by (metis bindE.simps(2))
  qed
qed

section \<open>A flush\<close>

lemma family_part: "mset G \<subseteq># mset F \<Longrightarrow> fgood C X F \<Longrightarrow> fgood C X G"
proof -
  assume sub: "mset G \<subseteq># mset F" and g: "fgood C X F"
  obtain H where "mset H = mset F - mset G" using ex_mset by blast
  then have p: "mset F = mset (G @ H)" using sub by simp
  have "fgood C X (G @ H)" by (rule fgood_perm [OF p g])
  then show "fgood C X G" unfolding fgood_append by blast
qed

text \<open>The first step: a block of messages is taken out of the target.\<close>

lemma target_flush:
  fixes X :: "('k::linorder, 'v::semigroup_add) be_state"
  assumes t: "top_ok C (Suc h) X R n" and quiet: "noisy X = {}" and c_def: "c = target n (ukey u)"
    and X: "X c = Some (BeInner x, [])" and C: "config_ok C" and u: "valid_upsert u"
    and ts: "\<forall>t \<in> stamps (Suc h) X (ukey u) c. t < timeStamp u"
    and full: "usize (ubuf x) = INNER_B_N C" and X1_def: "X1 = X(c \<mapsto> (BeInner x, [u]))"
    and lo_def: "lo = lo_at None (rseps n) (route (rseps n) (ukey u))"
    and hi_def: "hi = hi_at (rseps n) None (route (rseps n) (ukey u))"
  shows "top_ok C (Suc h) X1 R n" "nds X1 = nds X" "(Suc h, lo, hi, c) \<in> set (rfam (Suc h) n)"
    "\<exists>m x' X2. removeMessages C x [u] (MAX_FLUSH_SIZE C) = Inr (m, x') \<and> (\<exists>b. x' = x\<lparr>ubuf := b\<rparr>) \<and>
       X2 c = Some (BeInner x', []) \<and> evolves C (Suc h) X1 X2 lo hi c \<and> nds X2 = (nds X)(c \<mapsto> BeInner x') \<and>
       (\<forall>j \<le> innsize x. inbox X2 (bkids x ! j) = entry m j) \<and> distinct (map fst m) \<and>
       (\<forall>(j, v) \<in> set m. j \<le> innsize x) \<and> length m = 1 \<and> noisy X2 \<subseteq> set (bkids x)"
proof -
  note k = top_okD [OF t]
  have mx: "1 \<le> MAX_FLUSH_SIZE C" using config_okD(1) [OF C] by (simp add: MAX_FLUSH_SIZE_def)
  note p = post_top [where X = X, OF t c_def X u mx ts X1_def]
  show "top_ok C (Suc h) X1 R n" "nds X1 = nds X" by (rule p(1,2))+
  have at: "X1 c = Some (BeInner x, [u])" by (simp add: X1_def)
  show f: "(Suc h, lo, hi, c) \<in> set (rfam (Suc h) n)"
    using target_family(1) [OF k(2), of "Suc h" "ukey u"] by (simp add: c_def lo_def hi_def)
  note g = fgoodD [OF top_okD(3) [OF p(1)] f]
  note d = distinct_kids [where X = X1, OF g at]
  have q1: "\<forall>y \<in> set (bkids x). inbox X1 y = []"
  proof
    fix y assume "y \<in> set (bkids x)"
    then have "y \<noteq> c" using d(2) by auto
    then show "inbox X1 y = []" using p(5) quiet by (auto simp: noisy_def)
  qed
  have big: "INNER_B_N C < usize (ubuf x) + length [u]" using full by simp
  obtain m x' X2 b where f: "removeMessages C x [u] (MAX_FLUSH_SIZE C) = Inr (m, x')" "x' = x\<lparr>ubuf := b\<rparr>"
      "X2 c = Some (BeInner x', [])" "evolves C (Suc h) X1 X2 lo hi c"
      "\<forall>y. y \<notin> insert c (set (bkids x)) \<longrightarrow> X2 y = X1 y" "nds X2 = (nds X1)(c \<mapsto> BeInner x')"
      "\<forall>j \<le> innsize x. inbox X2 (bkids x ! j) = entry m j"
      "distinct (map fst m)" "\<forall>(j, v) \<in> set m. j \<le> innsize x \<and> v \<noteq> []" "m \<noteq> []"
      "length m \<le> usize (ubuf x) + length [u] - INNER_B_N C"
    using flush_evolves [where X = X1 and c = c, OF g at q1 big C] by (elim exE conjE) rule
  have "length m \<le> 1" "0 < length m" using f(10,11) full by simp_all
  then have len: "length m = 1" by linarith
  have jj: "\<forall>(j, v) \<in> set m. j \<le> innsize x" using f(9) by auto
  have "noisy X2 \<subseteq> set (bkids x)"
  proof
    fix y assume y: "y \<in> noisy X2"
    then have "y \<noteq> c" using f(3) by (auto simp: noisy_def)
    moreover have "inbox X1 y = []" if "y \<noteq> c" using p(5) quiet that by (auto simp: noisy_def)
    ultimately show "y \<in> set (bkids x)" using y f(5) inbox_same [of X2 y X1] by (auto simp: noisy_def)
  qed
  then show "\<exists>m x' X2. removeMessages C x [u] (MAX_FLUSH_SIZE C) = Inr (m, x') \<and> (\<exists>b. x' = x\<lparr>ubuf := b\<rparr>) \<and>
       X2 c = Some (BeInner x', []) \<and> evolves C (Suc h) X1 X2 lo hi c \<and> nds X2 = (nds X)(c \<mapsto> BeInner x') \<and>
       (\<forall>j \<le> innsize x. inbox X2 (bkids x ! j) = entry m j) \<and> distinct (map fst m) \<and>
       (\<forall>(j, v) \<in> set m. j \<le> innsize x) \<and> length m = 1 \<and> noisy X2 \<subseteq> set (bkids x)"
    using f len jj p(2) by (intro exI [of _ m] exI [of _ x'] exI [of _ X2]) auto
qed

text \<open>A full buffer, and the message is not for a key in it.\<close>

definition overflows :: "('k, 'v) be_config \<Rightarrow> ('k, 'v) upsert \<Rightarrow> ('k, 'v) be_inner \<Rightarrow> bool" where
  "overflows C u x \<longleftrightarrow> usize (ubuf x) = INNER_B_N C \<and> ukey u \<notin> ukey ` set (bmsgs x)"

lemma overflow_run:
  assumes "be_inner_ok C x" "overflows C u x" "be_inner_at c s = Inr x"
  shows "root_inner_upsert C fuel u R ex c j sp s = flush_target C fuel u R ex c j sp s"
proof -
  let ?i = "lower_bound (map ukey (upserts (ubuf x))) (usize (ubuf x)) (ukey u)"
  have "\<not> (?i < usize (ubuf x) \<and> ukey (upserts (ubuf x) ! ?i) = ukey u)"
    using buffer_found(3) [OF assms(1) refl, of "ukey u"] assms(2) by (simp add: overflows_def)
  moreover have "\<not> usize (ubuf x) < length (upserts (ubuf x))"
    using assms(2) be_inner_okD(7) [OF assms(1)] by (simp add: overflows_def)
  ultimately show ?thesis
    unfolding root_inner_upsert_def assms(3) bindE.simps(2) Let_def by (simp only: if_False)
qed

lemma inner_flush_run:
  fixes X :: "('k::linorder, 'v::semigroup_add) be_state"
  assumes t: "top_ok C (Suc h) X R n" and quiet: "noisy X = {}" and c_def: "c = target n (ukey u)"
    and X: "X c = Some (BeInner x, [])" and C: "config_ok C" and u: "valid_upsert u"
    and ts: "\<forall>t \<in> stamps (Suc h) X (ukey u) c. t < timeStamp u"
    and full: "overflows C u x" and room: "innsize x < INNER_N C"
    and s: "xst s (nds X) {c} N" and N: "weight (INNER_N C) (Suc h) \<le> fuel" "weight (INNER_N C) (Suc h) \<le> N"
  shows "\<exists>s' X'. root_inner_upsert C fuel u R False c j sp s = Inr (True, s') \<and> xst s' (nds X') {} N \<and>
           posted C R u (Suc h) X n (Suc h) X' n"
proof -
  let ?j = "route (rseps n) (ukey u)"
  define lo hi where "lo = lo_at None (rseps n) ?j" and "hi = hi_at (rseps n) None ?j"
  define X1 where "X1 = X(c \<mapsto> (BeInner x, [u]))"
  have sz: "usize (ubuf x) = INNER_B_N C" using full by (simp add: overflows_def)
  note tf = target_flush [where X = X, OF t quiet c_def X C u ts sz X1_def lo_def hi_def]
  obtain m x' X2 b where f: "removeMessages C x [u] (MAX_FLUSH_SIZE C) = Inr (m, x')" "x' = x\<lparr>ubuf := b\<rparr>"
      "X2 c = Some (BeInner x', [])" "evolves C (Suc h) X1 X2 lo hi c" "nds X2 = (nds X)(c \<mapsto> BeInner x')"
      "\<forall>j \<le> innsize x. inbox X2 (bkids x ! j) = entry m j" "distinct (map fst m)"
      "\<forall>(j, v) \<in> set m. j \<le> innsize x" "length m = 1" "noisy X2 \<subseteq> set (bkids x)"
    using tf(4) by (elim exE conjE) rule
  have z: "innsize x' = innsize x" "bkids x' = bkids x" "ipivots x' = ipivots x" using f(2) by (auto simp: bkids_def)
  have ok: "be_inner_ok C x"
    by (rule good_kids(3) [where X = X, OF target_good(1) [OF t, of "ukey u", folded c_def] X])
  have pend: "pend C X2 c m" using f(3,6-9) z room by (auto simp: pend_def)
  have g2: "good C (Suc h) X2 lo hi c" using f(4) by (simp add: evolves_def)
  have get: "be_inner_at c s = Inr x" by (rule be_inner_run [OF s _ nds_at [where X = X, OF X]]) simp
  obtain s2 where s2: "ps_put c (BeInner x') s = Inr s2" "xst s2 (nds X2) {c} N"
    using xst_put [OF s, of c "BeInner x'"] by (auto simp: f(5))
  have q: "fgood C X2 [(Suc h, lo, hi, c)]" "queue_ok C X2 [(Suc h, lo, hi, c)] [(c, m)]"
      "noisy X2 \<subseteq> \<Union> (kids X2 ` fst ` set [(c, m)])" "xst s2 (nds X2) (fst ` set [(c, m)]) N"
    using g2 pend f(10) f(3) z(2) s2(2) by (simp_all add: fgood_single)
  obtain s3 X3 where s3: "traversal_loop C fuel [(c, m)] s2 = Inr s3" "fevolves C X2 X3 [(Suc h, lo, hi, c)]"
      "noisy X3 = {}" "xst s3 (nds X3) {} N"
    using traversal_loop_run [where X = X2, OF q(1-3) C q(4), of fuel] N by auto
  have e: "fevolves C X1 X3 [(Suc h, lo, hi, c)]"
    by (rule fevolves_trans [OF _ s3(2)]) (simp only: fevolves_single f(4))
  note te = top_evolves_one [OF tf(1,3) e [unfolded fevolves_single]]
  have "posted C R u (Suc h) X n (Suc h) X3 n"
    by (rule posted_step [where X = X, OF t X [unfolded c_def] u C ts [unfolded c_def] X1_def [unfolded c_def] te(1) s3(3) te(2)])
  moreover have "root_inner_upsert C fuel u R False c j sp s = Inr (True, s3)"
    unfolding overflow_run [OF ok full get] flush_target_def
    using get f(1) s2(1) s3(1) room be_inner_okD(1) [OF ok] by simp
  ultimately show ?thesis using s3(4) by blast
qed

text \<open>The trees of the halves that are queued.\<close>

lemma queued_family:
  assumes "mset [(h, lo, Some m, c), (h, Some m, hi, r)] \<subseteq># mset F" "\<forall>(q, mm) \<in> set (queued c lm r rm). pend C X q mm"
  shows "\<exists>G. mset G \<subseteq># mset F \<and> queue_ok C X G (queued c lm r rm) \<and> family_weight i G \<le> 2 * weight i h"
proof -
  let ?G = "(if lm = [] then [] else [(h, lo, Some m, c)]) @ (if rm = [] then [] else [(h, Some m, hi, r)])"
  have "mset ?G \<subseteq># mset [(h, lo, Some m, c), (h, Some m, hi, r)]" by simp
  then have "mset ?G \<subseteq># mset F" using assms(1) by (rule subset_mset.order_trans)
  moreover have "queue_ok C X ?G (queued c lm r rm)" using assms(2) by (auto simp: queued_def)
  moreover have "family_weight i ?G \<le> 2 * weight i h" by simp
  ultimately show ?thesis by blast
qed

lemma inner_split_flush_run:
  fixes X :: "('k::linorder, 'v::semigroup_add) be_state"
  assumes t: "top_ok C (Suc h) X R n" and quiet: "noisy X = {}" and c_def: "c = target n (ukey u)"
    and X: "X c = Some (BeInner x, [])" and C: "config_ok C" and u: "valid_upsert u"
    and ts: "\<forall>t \<in> stamps (Suc h) X (ukey u) c. t < timeStamp u"
    and full: "overflows C u x" and split: "innsize x = INNER_N C" and room: "rsize n < ROOT_N C"
    and s: "xst s (nds X) {R, c} N"
    and N: "2 * weight (INNER_N C) (Suc h) \<le> fuel" "2 * weight (INNER_N C) (Suc h) \<le> N" "3 \<le> N"
  shows "\<exists>s' X' n'. root_inner_upsert C fuel u R True c (route (rseps n) (ukey u)) False s = Inr (True, s') \<and>
           xst s' (nds X') {} N \<and> posted C R u (Suc h) X n (Suc h) X' n'"
proof -
  let ?j = "route (rseps n) (ukey u)" and ?w = "weight (INNER_N C) (Suc h)"
  define lo hi where "lo = lo_at None (rseps n) ?j" and "hi = hi_at (rseps n) None ?j"
  define X1 where "X1 = X(c \<mapsto> (BeInner x, [u]))"
  have sz: "usize (ubuf x) = INNER_B_N C" using full by (simp add: overflows_def)
  note k = top_okD [OF t]
  note z = be_root_okD [OF k(2)]
  note tf = target_flush [where X = X, OF t quiet c_def X C u ts sz X1_def lo_def hi_def]
  obtain m x' X2 b where f: "removeMessages C x [u] (MAX_FLUSH_SIZE C) = Inr (m, x')" "x' = x\<lparr>ubuf := b\<rparr>"
      "X2 c = Some (BeInner x', [])" "evolves C (Suc h) X1 X2 lo hi c" "nds X2 = (nds X)(c \<mapsto> BeInner x')"
      "\<forall>j \<le> innsize x. inbox X2 (bkids x ! j) = entry m j" "distinct (map fst m)"
      "\<forall>(j, v) \<in> set m. j \<le> innsize x" "length m = 1" "noisy X2 \<subseteq> set (bkids x)"
    using tf(4) by (elim exE conjE) rule
  have xx: "innsize x' = innsize x" "bkids x' = bkids x" "ipivots x' = ipivots x" using f(2) by (auto simp: bkids_def)
  have ok: "be_inner_ok C x"
    by (rule good_kids(3) [where X = X, OF target_good(1) [OF t, of "ukey u", folded c_def] X])
  have g2: "good C (Suc h) X2 lo hi c" using f(4) by (simp add: evolves_def)
  have Rc: "R \<noteq> c" using target_good(3) [OF t, of "ukey u"] by (simp add: c_def)
  have get: "be_inner_at c s = Inr x" by (rule be_inner_run [OF s _ nds_at [where X = X, OF X]]) simp
  obtain s1 where s1: "ps_put c (BeInner x') s = Inr s1" "xst s1 (nds X2) {R, c} N"
    using xst_put [OF s, of c "BeInner x'"] by (auto simp: f(5))
  have n2: "2 \<le> innsize x'" using split xx(1) config_okD(3) [OF C] by simp
  have c2: "nds X2 c = Some (BeInner x')" "c \<in> {R, c}" "card {R, c} < N" using f(5) N(3) Rc by simp_all
  obtain r s2 where r: "be_splitInnerNode C c s1 = Inr (r, mid_pivot x', s2)" "r \<notin> dom (nds X2)" "r \<notin> {R, c}"
      "xst s2 ((nds X2)(r \<mapsto> BeInner (binner_right C x'), c \<mapsto> BeInner (binner_left x'))) (insert r {R, c}) N"
    using be_splitInnerNode_run [where C = C, OF s1(2) c2(2,1) n2 c2(3)] by blast
  define X3 where "X3 = X2(r \<mapsto> (BeInner (binner_right C x'), []), c \<mapsto> (BeInner (binner_left x'), []))"
  have nds3: "nds X3 = (nds X2)(r \<mapsto> BeInner (binner_right C x'), c \<mapsto> BeInner (binner_left x'))" by (simp add: X3_def)
  define lm rm where "lm = left_map (innsize (binner_left x')) (mapOrder C m)"
    and "rm = right_map (innsize (binner_left x')) (mapOrder C m)"
  have mj: "\<forall>(j, v) \<in> set m. j \<le> innsize x'" "\<forall>j \<le> innsize x'. inbox X2 (bkids x' ! j) = entry m j"
    using f(6,8) xx by simp_all
  have rX: "r \<notin> dom X2" using r(2) by simp
  have Qk: "queued c lm r rm = queued c (left_map (innsize (binner_left x')) (mapOrder C m))
      r (right_map (innsize (binner_left x')) (mapOrder C m))" by (simp only: lm_def rm_def)
  note sf = split_flush_ok [where X = X2 and c = c, OF g2 f(3) n2 f(7) mj C rX X3_def Qk]
  have cj: "rkids n ! ?j = c" by (simp add: c_def target_def)
  have sp: "splits C (Suc h) X1 X3 (lo_at None (rseps n) ?j) (hi_at (rseps n) None ?j) (rkids n ! ?j) (mid_pivot x') r"
    unfolding cj using evolves_splits [OF f(4) sf(1)] by (simp add: lo_def hi_def)
  obtain n' where n': "root_insert ?j (mid_pivot x') r n = Inr n'" using root_insert_run [OF k(2) room z(8)] by blast
  define X4 where "X4 = X3(R \<mapsto> (BeRoot n', []))"
  note w = top_splits [OF tf(1) z(8) room sp n' X4_def, unfolded cj]
  have X3R: "X3 R = Some (BeRoot n, [])" using w(3) Rc k(1) by (simp add: X1_def)
  have in4: "inbox X4 y = inbox X3 y" for y using X3R by (auto simp: X4_def inbox_def)
  have pk: "pend C X4 q mm \<and> kids X4 q = kids X3 q" if q: "(q, mm) \<in> set (queued c lm r rm)" for q mm
  proof -
    have p3: "pend C X3 q mm" using sf(4) q by blast
    have "q \<noteq> R" using Rc r(3) q by (auto simp: queued_def split: if_splits)
    then have a: "X4 q = X3 q" by (simp add: X4_def)
    have "q = c \<or> q = r" using q by (auto simp: queued_def split: if_splits)
    then have g: "\<exists>h lo hi. good C h X3 lo hi q" using splitsD(1) [OF sf(1)] unfolding fgood_def by auto
    show ?thesis using pend_cong [where X = X3 and X' = X4, OF p3 a in4 g] by blast
  qed
  have p4: "\<forall>(q, mm) \<in> set (queued c lm r rm). pend C X4 q mm" using pk by blast
  have k4: "kids X4 ` fst ` set (queued c lm r rm) = kids X3 ` fst ` set (queued c lm r rm)"
    unfolding image_image by (rule image_cong [OF refl]) (use pk in auto)
  have noisy: "noisy X4 \<subseteq> \<Union> (kids X4 ` fst ` set (queued c lm r rm))"
  proof -
    have "noisy X4 = noisy X3" by (simp only: noisy_def in4)
    then have "noisy X4 \<subseteq> noisy X2 - set (bkids x) \<union> \<Union> (kids X3 ` fst ` set (queued c lm r rm))"
      using sf(5) unfolding xx(2) by simp
    moreover have "noisy X2 - set (bkids x) = {}" using f(10) by simp
    ultimately show ?thesis unfolding k4 by simp
  qed
  obtain G where G: "mset G \<subseteq># mset (rfam (Suc h) n')" "queue_ok C X4 G (queued c lm r rm)" "family_weight (INNER_N C) G \<le> 2 * ?w"
    using queued_family [OF w(7) p4] by blast
  have gG: "fgood C X4 G" by (rule family_part [OF G(1) top_okD(3) [OF w(1)]])
  let ?nd = "(nds X3)(R \<mapsto> BeRoot n')"
  have nds4: "nds X4 = ?nd" by (simp add: X4_def)
  have nR: "nds X3 R = Some (BeRoot n)" by (rule nds_at [where X = X3, OF X3R])
  note s2 = r(4) [folded nds3]
  have getR: "be_root_at R s2 = Inr n" by (rule be_root_run [OF s2 _ nR]) simp
  obtain s3 where s3: "ps_put R (BeRoot n') s2 = Inr s3" "xst s3 ?nd (insert r {R, c}) N"
    using xst_put [OF s2, of R "BeRoot n'"] by auto
  have S: "insert r {R, c} - {R} = {c, r}" using Rc r(3) by auto
  obtain s4 where s4: "ps_unpin True R s3 = Inr s4" "xst s4 ?nd {c, r} N"
    using xst_unpin [OF s3(2), of R] unfolding S by auto
  have left: "?nd c = Some (BeInner (binner_left x'))" using Rc by (simp add: nds3)
  have "m \<noteq> []" using f(9) by auto
  moreover have "c \<in> {c, r}" "r \<in> {c, r}" "c \<noteq> r" using r(3) by auto
  ultimately obtain s5 where s5: "queue_halves C c r m [] s4 = Inr ([] @ queued c lm r rm, s5)"
      "xst s5 ?nd (({c, r} - {c, r}) \<union> fst ` set (queued c lm r rm)) N"
    using queue_halves_run [OF s4(2) _ _ _ left f(7) _ config_okD(8) [OF C] lm_def rm_def, of r "[]"] by blast
  have q5: "xst s5 (nds X4) (fst ` set (queued c lm r rm)) N" using s5(2) unfolding nds4 by simp
  have N': "family_weight (INNER_N C) G \<le> fuel" "family_weight (INNER_N C) G \<le> N" using G(3) N by linarith+
  obtain s6 X5 where s6: "traversal_loop C fuel (queued c lm r rm) s5 = Inr s6" "fevolves C X4 X5 G"
      "noisy X5 = {}" "xst s6 (nds X5) {} N"
    using traversal_loop_run [where X = X4, OF gG G(2) noisy C q5 N'] by blast
  note te = top_evolves_part [OF w(1) G(1) s6(2)]
  have "posted C R u (Suc h) X n (Suc h) X5 n'"
    by (rule posted_step [where X = X, OF t X [unfolded c_def] u C ts [unfolded c_def] X1_def [unfolded c_def] te(1) s6(3)
          top_same_trans [OF w(2) te(2)]])
  moreover have "root_inner_upsert C fuel u R True c ?j False s = Inr (True, s6)"
    unfolding overflow_run [OF ok full get] flush_target_def
    using get f(1,9) s1(1) r(1) getR n' s3(1) s4(1) s5(1) s6(1) split be_inner_okD(1) [OF ok] by simp
  ultimately show ?thesis using s6(4) by blast
qed

end
