(* ===== verification/BeGrow.thy ===== *)
theory BeGrow
  imports BeBuffer
begin

text \<open>
  \<open>splitRootNode\<close>: the children of a full root move into new inner nodes with empty buffers, and
  the tree grows by one level. The new nodes get \<open>INNER_N / 2\<close> pivots each, except for the last
  one. When \<open>INNER_N / 2 + 1\<close> divides the number of pivots, the last pivot and the last child are
  left out; the lemmas here assume that it does not.
\<close>

section \<open>A new node over a family\<close>

text \<open>The same value for a key at two places.\<close>

definition same_key ::
  "nat \<Rightarrow> ('k::linorder, 'v::plus) be_state \<Rightarrow> nat \<Rightarrow> nat \<Rightarrow> ('k, 'v) be_state \<Rightarrow> nat \<Rightarrow> 'k \<Rightarrow> bool" where
  "same_key h X c h' X' c' key \<longleftrightarrow>
     look h' X' key c' = look h X key c \<and> stamps h' X' key c' \<subseteq> stamps h X key c"

lemma same_key_trans: "same_key h X c h1 X1 c1 key \<Longrightarrow> same_key h1 X1 c1 h2 X2 c2 key \<Longrightarrow> same_key h X c h2 X2 c2 key"
  by (auto simp: same_key_def)

lemma same_key_at: "same_key h X c h X' c key \<longleftrightarrow> same_at h X c X' c key"
  by (simp add: same_key_def same_at_def)

lemma new_inner_good:
  assumes f: "fgood C X (kfam h lo ps cs hi)" and seps: "\<forall>p \<in> set ps. gt_lo lo p \<and> lt_hi hi p"
    and e: "be_inner_ok C e" "bseps e = ps" "bkids e = cs" "bmsgs e = []"
    and r: "r \<notin> dom X" and X'_def: "X' = X(r \<mapsto> (BeInner e, []))"
  shows "good C (Suc h) X' lo hi r" "be_ids (Suc h) X' r = r # fids X (kfam h lo ps cs hi)"
    "within lo hi key \<Longrightarrow> same_key h X (cs ! route ps key) (Suc h) X' r key"
proof -
  let ?K = "kfam h lo ps cs hi"
  have rK: "r \<notin> set (fids X ?K)" using fgood_dom [OF f] r by blast
  then have same: "\<And>x. x \<in> set (fids X ?K) \<Longrightarrow> X' x = X x" by (auto simp: X'_def)
  note b = fgood_beside [OF f, of X', OF same]
  have at: "X' r = Some (BeInner e, [])" by (simp add: X'_def)
  have ord: "ordered (msgs_for key [] @ msgs_for key (bmsgs e) @ trail h X' key (bkids e ! route (bseps e) key))"
    if w: "within lo hi key" for key
  proof -
    note kb = kid_bounds(1) [where h = h, OF e(1) w] kid_bounds(2) [OF e(1) w]
    note fgoodD [OF b(1) kb(1) [unfolded e(2,3)]]
    then show ?thesis using kb(2) e(2-4) by (simp add: good_def)
  qed
  show "good C (Suc h) X' lo hi r"
    by (rule good_node [where X = X' and i = r, OF at e(1) _ _ inbox_ok_Nil _ _ ord])
      (use seps e(2-4) b(1,2) rK in simp_all)
  show "be_ids (Suc h) X' r = r # fids X ?K"
    using be_ids_inner [where X = X' and i = r and h = h and lo = lo and hi = hi, OF at] b(2)
    unfolding e(2,3) by simp
  show "same_key h X (cs ! route ps key) (Suc h) X' r key" if w: "within lo hi key"
  proof -
    have s: "same_at h X (cs ! route ps key) X' (cs ! route ps key) key"
      by (rule b(3) [OF _ kid_bounds(1) [where h = h, OF e(1) w, unfolded e(2,3)]])
    then show ?thesis
      unfolding same_key_def look_inner [where X = X' and i = r, OF at] e(2-4)
      by (auto simp: same_at_def)
  qed
qed

text \<open>The node that a round of the loop makes.\<close>

definition chunk_node :: "('k, 'v) be_config \<Rightarrow> nat \<Rightarrow> nat \<Rightarrow> 'k be_root \<Rightarrow> ('k, 'v) be_inner" where
  "chunk_node C n i r =
     (new_be_inner C)\<lparr>
        ipivots := copy_fwd n (rpivots r) i (ipivots (new_be_inner C)) 0,
        ichildren := copy_fwd (n + 1) (rchildren r) i (ichildren (new_be_inner C)) 0,
        innsize := n\<rparr>"

lemma chunk_node_ok:
  assumes "i + n \<le> length (rpivots r)" "i + n < length (rchildren r)" "n \<le> INNER_N C"
    "sorted_wrt (<) (take n (drop i (rpivots r)))"
  shows "be_inner_ok C (chunk_node C n i r)" "bseps (chunk_node C n i r) = take n (drop i (rpivots r))"
    "bkids (chunk_node C n i r) = take (n + 1) (drop i (rchildren r))" "bmsgs (chunk_node C n i r) = []"
    "usize (ubuf (chunk_node C n i r)) = 0"
proof -
  show "bseps (chunk_node C n i r) = take n (drop i (rpivots r))"
    unfolding bseps_def chunk_node_def
    using take_copy_fwd_front [of i n "rpivots r" "replicate (INNER_N C) (anyKey C)"] assms(1,3)
    by (simp add: new_be_inner_def)
  moreover show "bkids (chunk_node C n i r) = take (n + 1) (drop i (rchildren r))"
    unfolding bkids_def chunk_node_def
    using take_copy_fwd_front [of i "n + 1" "rchildren r" "replicate (INNER_N C + 1) 0"] assms(2,3)
    by (simp add: new_be_inner_def del: replicate_Suc)
  moreover show "bmsgs (chunk_node C n i r) = []" "usize (ubuf (chunk_node C n i r)) = 0"
    by (simp_all add: chunk_node_def new_be_inner_def bmsgs_def)
  ultimately show "be_inner_ok C (chunk_node C n i r)"
    using assms(3,4) by (simp add: be_inner_ok_def) (simp add: chunk_node_def new_be_inner_def upserts_ok_def)
qed

section \<open>The loop\<close>

lemma kfam_Cons:
  assumes "length cs = Suc (length ps)"
  shows "kfam h lo (m # ps) (c # cs) hi = (h, lo, Some m, c) # kfam h (Some m) ps cs hi"
proof -
  have "kfam h lo [] [c] (Some m) = [(h, lo, Some m, c)]" by (simp add: kfam_def lo_at_def hi_at_def)
  then show ?thesis using kfam_halves [of "c # cs" "m # ps" 0 h lo hi] assms by simp
qed

lemma route_Cons: "route (m # ps) key = (if key \<le> m then 0 else Suc (route ps key))"
  by (cases "m < key") (simp_all add: route_def not_le [symmetric])

lemma route_cut:
  assumes "sorted_wrt (<) ps" "q < length ps"
  shows "key \<le> ps ! q \<Longrightarrow> route ps key = route (take q ps) key"
    "\<not> key \<le> ps ! q \<Longrightarrow> route ps key = Suc q + route (drop (Suc q) ps) key"
proof -
  have ps: "ps = take q ps @ ps ! q # drop (Suc q) ps" using id_take_nth_drop [OF assms(2)] .
  have "takeWhile (\<lambda>p. p < key) (A @ m # B) = takeWhile (\<lambda>p. p < key) A" if "key \<le> m" for A B and m :: 'a
  proof (cases "\<forall>x \<in> set A. x < key")
    case True
    then have "takeWhile (\<lambda>p. p < key) A = A" by (simp only: takeWhile_eq_all_conv)
    moreover have "takeWhile (\<lambda>p. p < key) (A @ m # B) = A @ takeWhile (\<lambda>p. p < key) (m # B)"
      by (rule takeWhile_append2) (use True in blast)
    moreover have "takeWhile (\<lambda>p. p < key) (m # B) = []" using that by simp
    ultimately show ?thesis by (simp only: append_Nil2)
  next
    case False
    then obtain x where "x \<in> set A" "\<not> x < key" by blast
    then show ?thesis by (rule takeWhile_append1)
  qed
  then show "key \<le> ps ! q \<Longrightarrow> route ps key = route (take q ps) key"
    unfolding route_def using ps by metis
  assume k: "\<not> key \<le> ps ! q"
  have "\<forall>x \<in> set (take q ps). x < ps ! q"
    using assms sorted_wrt_nth_less [OF assms(1)] by (auto simp: in_set_conv_nth)
  then have "takeWhile (\<lambda>p. p < key) (take q ps @ ps ! q # drop (Suc q) ps) =
      take q ps @ ps ! q # takeWhile (\<lambda>p. p < key) (drop (Suc q) ps)"
    using k by (subst takeWhile_append2) (auto simp: not_le dest: order.strict_trans)
  then show "route ps key = Suc q + route (drop (Suc q) ps) key"
    unfolding route_def using ps assms(2) by simp
qed

definition next_root :: "bool \<Rightarrow> nat \<Rightarrow> nat \<Rightarrow> 'k \<Rightarrow> 'k be_root \<Rightarrow> 'k be_root" where
  "next_root final nrs c m r =
     (if final then r else r\<lparr>rpivots := (rpivots r)[nrs := m]\<rparr>)\<lparr>rchildren := (rchildren r)[nrs := c]\<rparr>"

lemma next_root_simps [simp]:
  "rsize (next_root final nrs c m r) = rsize r" "rchildren (next_root final nrs c m r) = (rchildren r)[nrs := c]"
  "rpivots (next_root final nrs c m r) = (if final then rpivots r else (rpivots r)[nrs := m])"
  by (simp_all add: next_root_def)

lemma split_round_run:
  assumes s: "xst s nd S N" "card S < N" and i: "i < rsize r"
    and n_def: "n = min P (rsize r - i)" and final_def: "final = (rsize r \<le> i + (P + 1))"
  shows "\<exists>c s'. c \<notin> dom nd \<and> c \<notin> S \<and> xst s' (nd(c \<mapsto> BeInner (chunk_node C n i r))) (insert c S) N \<and>
    split_root_loop C P i nrs r nc mp s =
      split_root_loop C P (i + (P + 1)) (if final then nrs else nrs + 1) (next_root final nrs c (rpivots r ! (i + n)) r)
        (nc @ [c]) (if final then mp else mp @ [rpivots r ! (i + n)]) s'"
proof -
  obtain c s1 s2 where c: "pin_new s = Inr (c, s1)" "be_initializeNode C c NodeType_INNER s1 = Inr s2" "c \<notin> dom nd"
      "c \<notin> S" "xst s2 (nd(c \<mapsto> BeInner (new_be_inner C))) (insert c S) N"
    using be_new_page_run [OF s new_be_node_simps(2)] by blast
  have get: "be_inner_at c s2 = Inr (new_be_inner C)" by (rule be_inner_run [OF c(5)]) simp_all
  obtain s3 where s3: "ps_put c (BeInner (chunk_node C n i r)) s2 = Inr s3"
      "xst s3 (nd(c \<mapsto> BeInner (chunk_node C n i r))) (insert c S) N"
    using xst_put [OF c(5), of c "BeInner (chunk_node C n i r)"] by auto
  have "split_root_loop C P i nrs r nc mp s =
      split_root_loop C P (i + (P + 1)) (if final then nrs else nrs + 1) (next_root final nrs c (rpivots r ! (i + n)) r)
        (nc @ [c]) (if final then mp else mp @ [rpivots r ! (i + n)]) s3"
    by (subst split_root_loop.simps)
      (use i c(1,2) get s3(1) in \<open>simp add: chunk_node_def n_def final_def next_root_def Let_def\<close>)
  then show ?thesis using c(3,4) s3(2) by blast
qed

text \<open>The new nodes \<open>news\<close> with the pivots \<open>mids\<close> between them take the place of the children \<open>cs\<close>.\<close>

definition grown ::
  "('k::linorder, 'v::plus) be_config \<Rightarrow> nat \<Rightarrow> ('k, 'v) be_state \<Rightarrow> 'k option \<Rightarrow> 'k option \<Rightarrow> 'k list \<Rightarrow> nat list \<Rightarrow>
   ('k, 'v) be_state \<Rightarrow> 'k list \<Rightarrow> nat list \<Rightarrow> bool" where
  "grown C h X lo hi ps cs X' mids news \<longleftrightarrow>
     length news = Suc (length mids) \<and> distinct news \<and> set news \<inter> dom X = {} \<and>
     (\<forall>x. x \<notin> set news \<longrightarrow> X' x = X x) \<and>
     (\<forall>x \<in> set news. \<exists>e. X' x = Some (BeInner e, []) \<and> usize (ubuf e) = 0) \<and>
     fgood C X' (kfam (Suc h) lo mids news hi) \<and>
     set (fids X' (kfam (Suc h) lo mids news hi)) \<subseteq> set (fids X (kfam h lo ps cs hi)) \<union> set news \<and>
     sorted_wrt (<) mids \<and> set mids \<subseteq> set ps \<and>
     (\<forall>key. within lo hi key \<longrightarrow> same_key h X (cs ! route ps key) (Suc h) X' (news ! route mids key) key)"

lemma grownD:
  assumes "grown C h X lo hi ps cs X' mids news"
  shows "length news = Suc (length mids)" "distinct news" "set news \<inter> dom X = {}"
    "x \<notin> set news \<Longrightarrow> X' x = X x" "x \<in> set news \<Longrightarrow> \<exists>e. X' x = Some (BeInner e, []) \<and> usize (ubuf e) = 0"
    "fgood C X' (kfam (Suc h) lo mids news hi)"
    "set (fids X' (kfam (Suc h) lo mids news hi)) \<subseteq> set (fids X (kfam h lo ps cs hi)) \<union> set news"
    "sorted_wrt (<) mids" "set mids \<subseteq> set ps"
    "within lo hi key \<Longrightarrow> same_key h X (cs ! route ps key) (Suc h) X' (news ! route mids key) key"
  using assms unfolding grown_def by blast+

lemma single_kfam: "kfam h lo [] [c] hi = [(h, lo, hi, c)]"
  by (simp add: kfam_def lo_at_def hi_at_def)

lemma grown_last:
  assumes f: "fgood C X (kfam h lo ps cs hi)" and seps: "\<forall>p \<in> set ps. gt_lo lo p \<and> lt_hi hi p"
    and e: "be_inner_ok C e" "bseps e = ps" "bkids e = cs" "bmsgs e = []" "usize (ubuf e) = 0"
    and c: "c \<notin> dom X"
  shows "grown C h X lo hi ps cs (X(c \<mapsto> (BeInner e, []))) [] [c]"
proof -
  note g = new_inner_good [where X = X, OF f seps e(1-4) c refl]
  have "route [] key = 0" for key :: 'a by (simp add: route_def)
  then show ?thesis
    unfolding grown_def single_kfam fgood_single
    using g e(5) c by (simp del: be_ids.simps)
qed

lemma disjoint_sub: "A \<inter> B = {} \<Longrightarrow> D \<subseteq> B \<Longrightarrow> A \<inter> D = {}"
  by blast

lemma grown_step:
  assumes f: "fgood C X (kfam h lo ps cs hi)" and seps: "\<forall>p \<in> set ps. gt_lo lo p \<and> lt_hi hi p"
    and len: "length cs = Suc (length ps)" and srt: "sorted_wrt (<) ps" and q: "q < length ps"
    and e: "be_inner_ok C e" "bseps e = take q ps" "bkids e = take (Suc q) cs" "bmsgs e = []" "usize (ubuf e) = 0"
    and c: "c \<notin> dom X" and X1_def: "X1 = X(c \<mapsto> (BeInner e, []))"
    and gr: "grown C h X1 (Some (ps ! q)) hi (drop (Suc q) ps) (drop (Suc q) cs) X' mids news"
  shows "grown C h X lo hi ps cs X' (ps ! q # mids) (c # news)"
proof -
  let ?m = "ps ! q"
  let ?A = "kfam h lo (take q ps) (take (Suc q) cs) (Some ?m)" and ?B = "kfam h (Some ?m) (drop (Suc q) ps) (drop (Suc q) cs) hi"
  note r = grownD [OF gr]
  have K: "kfam h lo ps cs hi = ?A @ ?B" by (rule kfam_halves [OF len q])
  have fAB: "fgood C X ?A" "fgood C X ?B" "set (fids X ?A) \<inter> set (fids X ?B) = {}"
    using f unfolding K fgood_append by blast+
  have ps: "ps = take q ps @ ?m # drop (Suc q) ps" by (rule id_take_nth_drop [OF q])
  then have srt': "sorted_wrt (<) (take q ps @ ?m # drop (Suc q) ps)" using srt by simp
  have sepA: "\<forall>p \<in> set (take q ps). gt_lo lo p \<and> lt_hi (Some ?m) p"
    using seps srt' by (auto simp: sorted_wrt_append dest: in_set_takeD)
  have m: "gt_lo lo ?m" "lt_hi hi ?m" using seps q by simp_all
  note g = new_inner_good [where X = X, OF fAB(1) sepA e(1-4) c X1_def]
  have cB: "c \<notin> set (fids X ?B)" "c \<notin> set (fids X ?A)" using fgood_dom [OF fAB(1)] fgood_dom [OF fAB(2)] c by blast+
  have sameB: "\<And>x. x \<in> set (fids X ?B) \<Longrightarrow> X1 x = X x" using cB by (auto simp: X1_def)
  have bB: "fids X1 ?B = fids X ?B" "(h', lo', hi', i) \<in> set ?B \<Longrightarrow> same_at h' X i X1 i key" for h' lo' hi' i key
    by (rule fgood_beside [OF fAB(2)], erule sameB)+
  have dom1: "dom X1 = insert c (dom X)" by (auto simp: X1_def)
  have cn: "c \<notin> set news" "set news \<inter> dom X = {}" using r(3) unfolding dom1 by blast+
  have idc: "set (be_ids (Suc h) X1 c) = insert c (set (fids X ?A))" unfolding g(2) by simp
  have sameC: "X' x = X1 x" if "x \<in> set (be_ids (Suc h) X1 c)" for x
    by (rule r(4)) (use that cn fgood_dom [OF fAB(1)] in \<open>unfold idc, blast\<close>)
  have gc: "good C (Suc h) X' lo (Some ?m) c" "be_ids (Suc h) X' c = be_ids (Suc h) X1 c" "same_at (Suc h) X1 c X' c key" for key
    by (rule good_cong [OF g(1)], erule sameC)+
  have K': "kfam (Suc h) lo (?m # mids) (c # news) hi = (Suc h, lo, Some ?m, c) # kfam (Suc h) (Some ?m) mids news hi"
    by (rule kfam_Cons [OF r(1)])
  have ids': "set (fids X' (kfam (Suc h) (Some ?m) mids news hi)) \<subseteq> set (fids X ?B) \<union> set news"
    using r(7) bB(1) by simp
  have disj: "set (be_ids (Suc h) X' c) \<inter> set (fids X' (kfam (Suc h) (Some ?m) mids news hi)) = {}"
  proof -
    have "insert c (set (fids X ?A)) \<inter> (set (fids X ?B) \<union> set news) = {}"
      using fAB(3) cB(1) cn fgood_dom [OF fAB(1)] by blast
    from disjoint_sub [OF this ids'] show ?thesis by (simp only: gc(2) idc)
  qed
  have good': "fgood C X' (kfam (Suc h) lo (?m # mids) (c # news) hi)"
    unfolding K' using fgood_append [of C X' "[(Suc h, lo, Some ?m, c)]" "kfam (Suc h) (Some ?m) mids news hi"]
      r(6) gc(1) disj by (simp add: fgood_single del: be_ids.simps)
  have sub: "set (fids X' (kfam (Suc h) lo (?m # mids) (c # news) hi)) \<subseteq> set (fids X (kfam h lo ps cs hi)) \<union> set (c # news)"
    unfolding K' K fids_simps set_append gc(2) idc using ids' by auto
  have keys: "same_key h X (cs ! route ps key) (Suc h) X' ((c # news) ! route (?m # mids) key) key"
    if w: "within lo hi key" for key
  proof (cases "key \<le> ?m")
    case True
    then have wl: "within lo (Some ?m) key" using w by (simp add: within_def)
    have "route (take q ps) key < Suc q" using route_le [of "take q ps" key] by simp
    then have at: "take (Suc q) cs ! route (take q ps) key = cs ! route ps key" using route_cut(1) [OF srt q True] by simp
    have "same_key h X (cs ! route ps key) (Suc h) X1 c key" using g(3) [OF wl] unfolding at .
    moreover have "same_key (Suc h) X1 c (Suc h) X' c key" using gc(3) by (simp add: same_key_at)
    ultimately show ?thesis using True by (simp add: route_Cons) (rule same_key_trans)
  next
    case False
    then have wr: "within (Some ?m) hi key" using w by (simp add: within_def not_le)
    let ?j = "route (drop (Suc q) ps) key"
    have lB: "length (drop (Suc q) cs) = Suc (length (drop (Suc q) ps))" using len q by simp
    have at: "drop (Suc q) cs ! ?j = cs ! route ps key"
      using route_cut(2) [OF srt q False] route_le [of "drop (Suc q) ps" key] len q by simp
    have "same_at h X (drop (Suc q) cs ! ?j) X1 (drop (Suc q) cs ! ?j) key"
      by (rule bB(2) [OF kfam_bounds(1) [OF lB wr]])
    then have "same_key h X (drop (Suc q) cs ! ?j) h X1 (drop (Suc q) cs ! ?j) key" by (simp add: same_key_at)
    from same_key_trans [OF this r(10) [OF wr]] show ?thesis using False unfolding at by (simp add: route_Cons)
  qed
  have mids: "sorted_wrt (<) (?m # mids)" "set (?m # mids) \<subseteq> set ps"
  proof -
    have "\<forall>x \<in> set (drop (Suc q) ps). ?m < x" using srt' by (simp add: sorted_wrt_append)
    then show "sorted_wrt (<) (?m # mids)" using r(8,9) by auto
    show "set (?m # mids) \<subseteq> set ps" using r(9) q by (auto dest: in_set_dropD)
  qed
  have out: "\<forall>x. x \<notin> set (c # news) \<longrightarrow> X' x = X x" using r(4) by (simp add: X1_def)
  have new: "\<forall>x \<in> set (c # news). \<exists>e. X' x = Some (BeInner e, []) \<and> usize (ubuf e) = 0"
    using r(5) r(4) [OF cn(1)] e(5) by (auto simp: X1_def)
  have len': "length (c # news) = Suc (length (?m # mids))" "distinct (c # news)" "set (c # news) \<inter> dom X = {}"
    using r(1,2) cn c by simp_all
  show ?thesis
    unfolding grown_def by (intro conjI allI impI) (fact len' good' sub mids | (rule out [rule_format] new keys, assumption)+ | fact new)+
qed

text \<open>What the loop leaves in the arrays of the root.\<close>

definition packed :: "('k, 'v) be_config \<Rightarrow> nat \<Rightarrow> 'k list \<Rightarrow> nat list \<Rightarrow> 'k be_root \<Rightarrow> 'k be_root \<Rightarrow> bool" where
  "packed C nrs mids news r r' \<longleftrightarrow>
     rsize r' = nrs + length mids \<and> length (rpivots r') = ROOT_N C \<and> length (rchildren r') = ROOT_N C + 1 \<and>
     take (nrs + length mids) (rpivots r') = take nrs (rpivots r) @ mids \<and>
     take (nrs + length news) (rchildren r') = take nrs (rchildren r) @ news"

lemma packed_step:
  assumes "packed C (nrs + 1) mids news (next_root False nrs c m r) r'" "nrs < length (rpivots r)" "nrs < length (rchildren r)"
  shows "packed C nrs (m # mids) (c # news) r r'"
  using assms by (simp add: packed_def take_Suc_conv_app_nth)

lemma split_root_loop_run:
  fixes X :: "('k::linorder, 'v::plus) be_state"
  assumes "i < rsize r" "length (rpivots r) = ROOT_N C" "length (rchildren r) = ROOT_N C + 1" "rsize r \<le> ROOT_N C"
    "ps = drop i (take (rsize r) (rpivots r))" "cs = drop i (take (rsize r + 1) (rchildren r))" "nrs \<le> i"
    "(rsize r - i) mod (INNER_N C div 2 + 1) \<noteq> 0" "fgood C X (kfam h lo ps cs hi)" "sorted_wrt (<) ps"
    "\<forall>p \<in> set ps. gt_lo lo p \<and> lt_hi hi p" "config_ok C" "xst s (nds X) S N" "card S + (rsize r - i) \<le> N"
  shows "\<exists>r' news mids s' X'. split_root_loop C (INNER_N C div 2) i nrs r nc mp s = Inr (r', nc @ news, mp @ mids, s') \<and>
    xst s' (nds X') (S \<union> set news) N \<and> set news \<inter> S = {} \<and> grown C h X lo hi ps cs X' mids news \<and>
    length mids < rsize r - i \<and> packed C nrs mids news r r'"
  using assms
proof (induction "rsize r - i" arbitrary: i nrs r nc mp s S X lo ps cs rule: less_induct)
  case less
  note a = less.prems
  define P n final where "P = INNER_N C div 2" and "n = min P (rsize r - i)" and "final = (rsize r \<le> i + (P + 1))"
  have N: "card S < N" using a(1,14) by simp
  obtain c s1 where c: "c \<notin> dom (nds X)" "c \<notin> S" "xst s1 ((nds X)(c \<mapsto> BeInner (chunk_node C n i r))) (insert c S) N"
      "split_root_loop C P i nrs r nc mp s =
        split_root_loop C P (i + (P + 1)) (if final then nrs else nrs + 1) (next_root final nrs c (rpivots r ! (i + n)) r)
          (nc @ [c]) (if final then mp else mp @ [rpivots r ! (i + n)]) s1"
    using split_round_run [where nc = nc and mp = mp and C = C, OF a(13) N a(1) n_def final_def] by blast
  have lps: "length ps = rsize r - i" "length cs = Suc (length ps)" using a(1-6) by simp_all
  have n: "n \<le> rsize r - i" "n \<le> INNER_N C" "i + n \<le> rsize r" using a(1) by (auto simp: n_def P_def)
  have tk: "take n (drop i (rpivots r)) = take n ps" "take (n + 1) (drop i (rchildren r)) = take (n + 1) cs"
    using n a(1-6) by (simp_all add: take_drop min_def)
  have e: "be_inner_ok C (chunk_node C n i r)" "bseps (chunk_node C n i r) = take n ps"
      "bkids (chunk_node C n i r) = take (n + 1) cs" "bmsgs (chunk_node C n i r) = []" "usize (ubuf (chunk_node C n i r)) = 0"
    using chunk_node_ok [of i n r C] n a(2-4) sorted_wrt_take [OF a(10), of n] tk by simp_all
  have cX: "c \<notin> dom X" using c(1) by simp
  define X1 where "X1 = X(c \<mapsto> (BeInner (chunk_node C n i r), []))"
  have s1: "xst s1 (nds X1) (insert c S) N" using c(3) by (simp add: X1_def)
  have finS: "finite S" by (rule xst_dom(2) [OF a(13)])
  show ?case
  proof (cases final)
    case True
    have "n = rsize r - i"
      using True a(1,8) unfolding n_def final_def P_def [symmetric] by (cases "rsize r - i = P + 1") auto
    then have all: "take n ps = ps" "take (n + 1) cs = cs" using lps by simp_all
    have g: "grown C h X lo hi ps cs X1 [] [c]"
      unfolding X1_def by (rule grown_last [OF a(9,11) e(1) _ _ e(4,5) cX]) (use e(2,3) all in simp_all)
    have run: "split_root_loop C P i nrs r nc mp s =
        Inr (next_root True nrs c (rpivots r ! (i + n)) r\<lparr>rsize := nrs\<rparr>, nc @ [c], mp @ [], s1)"
      unfolding c(4) by (subst split_root_loop.simps) (use True in \<open>simp add: final_def\<close>)
    have "packed C nrs [] [c] r (next_root True nrs c (rpivots r ! (i + n)) r\<lparr>rsize := nrs\<rparr>)"
      using a(1-4,7) by (simp add: packed_def take_Suc_conv_app_nth)
    moreover have "xst s1 (nds X1) (S \<union> set [c]) N" "set [c] \<inter> S = {}" using s1 c(2) by simp_all
    moreover have "length ([] :: 'k list) < rsize r - i" using a(1) by simp
    ultimately show ?thesis using run g unfolding P_def by blast
  next
    case False
    then have more: "i + (P + 1) < rsize r" by (simp add: final_def)
    have nP: "n = P" using more by (simp add: n_def)
    let ?m = "rpivots r ! (i + n)" and ?r = "next_root False nrs c (rpivots r ! (i + n)) r"
    have q: "P < length ps" "ps ! P = ?m" using more lps nP a(5,2,4) by simp_all
    have K: "kfam h lo ps cs hi = kfam h lo (take P ps) (take (Suc P) cs) (Some ?m) @ kfam h (Some ?m) (drop (Suc P) ps) (drop (Suc P) cs) hi"
      using kfam_halves [OF lps(2) q(1), of h lo hi] q(2) by simp
    have fB: "fgood C X (kfam h (Some ?m) (drop (Suc P) ps) (drop (Suc P) cs) hi)"
      using a(9) unfolding K fgood_append by blast
    have "c \<notin> set (fids X (kfam h (Some ?m) (drop (Suc P) ps) (drop (Suc P) cs) hi))" using fgood_dom [OF fB] cX by blast
    then have same: "\<And>x. x \<in> set (fids X (kfam h (Some ?m) (drop (Suc P) ps) (drop (Suc P) cs) hi)) \<Longrightarrow> X1 x = X x"
      by (auto simp: X1_def)
    have fB1: "fgood C X1 (kfam h (Some ?m) (drop (Suc P) ps) (drop (Suc P) cs) hi)"
      by (rule fgood_beside(1) [OF fB], erule same)
    have srt: "sorted_wrt (<) (take P ps @ ?m # drop (Suc P) ps)" using a(10) id_take_nth_drop [OF q(1)] q(2) by simp
    have sep: "\<forall>p \<in> set (drop (Suc P) ps). gt_lo (Some ?m) p \<and> lt_hi hi p"
      using a(11) srt by (auto simp: sorted_wrt_append dest: in_set_dropD)
    have arr: "drop (Suc P) ps = drop (i + (P + 1)) (take (rsize ?r) (rpivots ?r))"
        "drop (Suc P) cs = drop (i + (P + 1)) (take (rsize ?r + 1) (rchildren ?r))"
      using a(5-7) by (simp_all add: drop_take drop_update_cancel add.commute)
    have "(rsize r - (i + (P + 1))) mod (P + 1) = (rsize r - i) mod (P + 1)"
      using more le_mod_geq [of "P + 1" "rsize r - i"] by simp
    then have md: "(rsize ?r - (i + (P + 1))) mod (INNER_N C div 2 + 1) \<noteq> 0" using a(8) by (simp add: P_def)
    have "card (insert c S) = Suc (card S)" using c(2) finS by simp
    then have cN: "card (insert c S) + (rsize ?r - (i + (P + 1))) \<le> N" using a(14) more by simp
    have IH: "\<exists>r' news mids s' X'. split_root_loop C (INNER_N C div 2) (i + (P + 1)) (nrs + 1) ?r (nc @ [c]) (mp @ [?m]) s1 =
          Inr (r', (nc @ [c]) @ news, (mp @ [?m]) @ mids, s') \<and>
        xst s' (nds X') (insert c S \<union> set news) N \<and> set news \<inter> insert c S = {} \<and>
        grown C h X1 (Some ?m) hi (drop (Suc P) ps) (drop (Suc P) cs) X' mids news \<and>
        length mids < rsize ?r - (i + (P + 1)) \<and> packed C (nrs + 1) mids news ?r r'"
      by (rule less.hyps [OF _ _ _ _ _ arr _ md fB1 _ sep a(12) s1 cN])
        (use more a(1-4,7) sorted_wrt_drop [OF a(10), of "Suc P"] in simp_all)
    then obtain r' news mids s' X' where
        R: "split_root_loop C (INNER_N C div 2) (i + (P + 1)) (nrs + 1) ?r (nc @ [c]) (mp @ [?m]) s1 =
          Inr (r', (nc @ [c]) @ news, (mp @ [?m]) @ mids, s')"
        "xst s' (nds X') (insert c S \<union> set news) N" "set news \<inter> insert c S = {}"
        "grown C h X1 (Some ?m) hi (drop (Suc P) ps) (drop (Suc P) cs) X' mids news"
        "length mids < rsize ?r - (i + (P + 1))" "packed C (nrs + 1) mids news ?r r'" by blast
    have gr: "grown C h X lo hi ps cs X' (?m # mids) (c # news)"
      using grown_step [OF a(9,11) lps(2) a(10) q(1) e(1) _ _ e(4,5) cX X1_def R(4) [folded q(2)]] e(2,3) nP q(2) by simp
    have pk: "packed C nrs (?m # mids) (c # news) r r'"
      by (rule packed_step [OF R(6)]) (use a(1-4,7) in simp_all)
    have "split_root_loop C (INNER_N C div 2) i nrs r nc mp s = Inr (r', nc @ c # news, mp @ ?m # mids, s')"
      using c(4) R(1) False unfolding P_def by simp
    moreover have "xst s' (nds X') (S \<union> set (c # news)) N" "set (c # news) \<inter> S = {}" using R(2,3) c(2) by simp_all
    moreover have "length (?m # mids) < rsize r - i" using R(5) by simp
    ultimately show ?thesis using gr pk by blast
  qed
qed

section \<open>Splitting the root\<close>

lemma splitRootNode_run:
  fixes X :: "('k::linorder, 'v::plus) be_state"
  assumes t: "top_ok C h X R n" and quiet: "noisy X = {}" and full: "rsize n = ROOT_N C"
    and fit: "ROOT_N C mod (INNER_N C div 2 + 1) \<noteq> 0" and C: "config_ok C"
    and s: "xst s (nds X) {R} N" and N: "ROOT_N C + 1 \<le> N"
  shows "\<exists>news mids n' s' X'. splitRootNode C R s = Inr (news, mids, s') \<and> xst s' (nds X') ({R} \<union> set news) N \<and>
    R \<notin> set news \<and> distinct news \<and> top_ok C (Suc h) X' R n' \<and> top_same h X n X' (Suc h) n' \<and> noisy X' = {} \<and>
    rkids n' = news \<and> rseps n' = mids \<and> rsize n' < ROOT_N C \<and>
    (\<forall>x \<in> set news. \<exists>e. X' x = Some (BeInner e, []) \<and> usize (ubuf e) = 0)"
proof -
  note k = top_okD [OF t]
  note z = be_root_okD [OF k(2)]
  have pos: "0 < ROOT_N C" using fit by (cases "ROOT_N C") auto
  have fam: "fgood C X (kfam h None (rseps n) (rkids n) None)" using k(3) by (simp add: rfam_def)
  have b: "\<forall>p \<in> set (rseps n). gt_lo None p \<and> lt_hi None p" by simp
  obtain r' news mids s' X' where L:
      "split_root_loop C (INNER_N C div 2) 0 0 n [] [] s = Inr (r', news, mids, s')"
      "xst s' (nds X') ({R} \<union> set news) N" "set news \<inter> {R} = {}" "grown C h X None None (rseps n) (rkids n) X' mids news"
      "length mids < rsize n" "packed C 0 mids news n r'"
    using split_root_loop_run [OF _ z(1-3) _ _ le_refl _ fam z(4) b C s, of 0 "[]" "[]"] full fit pos N
    by (auto simp: rseps_def rkids_def)
  note g = grownD [OF L(4)]
  let ?F = "kfam (Suc h) None mids news None"
  define X2 where "X2 = X'(R \<mapsto> (BeRoot r', []))"
  have pk: "rsize r' = length mids" "rseps r' = mids" "rkids r' = news" "length (rpivots r') = ROOT_N C"
      "length (rchildren r') = ROOT_N C + 1"
    using L(6) g(1) by (simp_all add: packed_def rseps_def rkids_def)
  have ok': "be_root_ok C r'" using pk g(8) L(5) full by (simp add: be_root_ok_def)
  have out: "R \<notin> set (fids X' ?F)" using g(7) k(4) L(3) unfolding rfam_def by blast
  then have same: "\<And>x. x \<in> set (fids X' ?F) \<Longrightarrow> X2 x = X' x" by (auto simp: X2_def)
  have b2: "fgood C X2 ?F" "fids X2 ?F = fids X' ?F" "(h', lo', hi', i) \<in> set ?F \<Longrightarrow> same_at h' X' i X2 i key" for h' lo' hi' i key
    by (rule fgood_beside [OF g(6)], erule same)+
  have rf: "rfam (Suc h) r' = ?F" by (simp add: rfam_def pk(2,3))
  have top: "top_ok C (Suc h) X2 R r'" using ok' b2(1,2) out by (simp add: top_ok_def rf X2_def)
  have "same_key h X (target n key) (Suc h) X2 (target r' key) key" for key
  proof -
    have "same_key h X (target n key) (Suc h) X' (target r' key) key"
      using g(10) [of key] by (simp add: target_def pk(2,3))
    moreover have "same_at (Suc h) X' (target r' key) X2 (target r' key) key"
      by (rule b2(3)) (use target_family(1) [OF ok', of "Suc h" key] rf in simp)
    ultimately show ?thesis by (auto simp: same_key_at [symmetric] intro: same_key_trans)
  qed
  then have tsame: "top_same h X n X2 (Suc h) r'" by (simp add: top_same_def same_key_def)
  have quiet2: "noisy X2 = {}"
  proof -
    have "inbox X2 x = []" for x
    proof (cases "x \<in> set news")
      case True
      then show ?thesis using g(5) [OF True] by (auto simp: X2_def inbox_def)
    next
      case False
      then have "inbox X' x = inbox X x" using g(4) by (simp add: inbox_def)
      then show ?thesis using quiet by (auto simp: X2_def inbox_def noisy_def)
    qed
    then show ?thesis by (simp add: noisy_def)
  qed
  have nR: "nds X R = Some (BeRoot n)" by (rule nds_at [where X = X, OF k(1)])
  have get: "be_root_at R s = Inr n" by (rule be_root_run [OF s _ nR]) simp
  obtain s2 where s2: "ps_put R (BeRoot r') s' = Inr s2" "xst s2 ((nds X')(R \<mapsto> BeRoot r')) ({R} \<union> set news) N"
    using xst_put [OF L(2), of R "BeRoot r'"] by auto
  have "splitRootNode C R s = Inr (news, mids, s2)" using get L(1) s2(1) by (simp add: splitRootNode_def)
  moreover have "xst s2 (nds X2) ({R} \<union> set news) N" using s2(2) by (simp add: X2_def)
  moreover have "\<forall>x \<in> set news. \<exists>e. X2 x = Some (BeInner e, []) \<and> usize (ubuf e) = 0"
    using g(5) L(3) by (auto simp: X2_def)
  ultimately show ?thesis using L(3,5) g(2) top tsame quiet2 pk(1-3) full
    by (intro exI [of _ news] exI [of _ mids] exI [of _ r'] exI [of _ s2] exI [of _ X2]) simp
qed

lemma unpin_others_run:
  "xst s nd S N \<Longrightarrow> distinct ps \<Longrightarrow> set ps \<subseteq> S \<Longrightarrow>
   \<exists>s'. unpin_others c ps s = Inr s' \<and> xst s' nd (S - (set ps - {c})) N"
proof (induction ps arbitrary: s S)
  case (Cons p ps)
  show ?case
  proof (cases "p = c")
    case True
    then have "set (p # ps) - {c} = set ps - {c}" using Cons.prems(2) by auto
    then show ?thesis using Cons.IH [OF Cons.prems(1)] Cons.prems(2,3) True by simp
  next
    case False
    obtain s1 where s1: "ps_unpin True p s = Inr s1" "xst s1 nd (S - {p}) N"
      using xst_unpin [OF Cons.prems(1), of p] Cons.prems(3) by auto
    obtain s2 where s2: "unpin_others c ps s1 = Inr s2" "xst s2 nd (S - {p} - (set ps - {c})) N"
      using Cons.IH [OF s1(2)] Cons.prems(2,3) by auto
    have "S - {p} - (set ps - {c}) = S - (set (p # ps) - {c})" using False by auto
    then show ?thesis using s1(1) s2 False by simp
  qed
qed auto

end
