(* ===== verification/BeUpsert.thy ===== *)
theory BeUpsert
  imports BeGrow
begin

text \<open>
  \<open>upsert\<close> on a tree whose root is a root node: the first attempt holds the root in shared mode
  only until the child is locked; if a node has to be split below the root, or the root itself,
  a second attempt with the root locked exclusively does it.
\<close>

section \<open>The two attempts\<close>

lemma st_xst_one: "st s nd (no_locks(c := Exclusive)) {} N \<Longrightarrow> xst s nd {c} N"
  unfolding xst_def using xlocks_simps(2) [of "{}" c] xlocks_simps(1) by metis

lemma xst_pin_free:
  assumes "st s nd no_locks {} N" "nd i = Some x" "0 < N"
  shows "\<exists>s'. ps_pin False (\<lambda>_. True) i s = Inr s' \<and> xst s' nd {i} N"
  using xst_pin [OF st_xst [OF assms(1)] assms(2)] assms(3) by simp

definition target_upsert ::
  "('k::linorder, 'v::plus) be_config \<Rightarrow> nat \<Rightarrow> ('k, 'v) upsert \<Rightarrow> nat \<Rightarrow> bool \<Rightarrow> nat \<Rightarrow> nat \<Rightarrow> bool \<Rightarrow>
   ('k, 'v) be_node \<Rightarrow> ('k, 'v) be_node pstore \<Rightarrow> (bool \<times> ('k, 'v) be_node pstore) result" where
  "target_upsert C fuel u R ex c j sp node s =
     (if is_be_leaf node then root_leaf_upsert C u R ex c j sp s
      else root_inner_upsert C fuel u R ex c j sp s)"

lemma first_try:
  assumes t: "top_ok C h X R n" and c: "X (target n (ukey u)) = Some (x, b)" and room: "rsize n < ROOT_N C"
    and s: "st s (nds X) (no_locks(R := Shared 1)) {} N" "2 \<le> N"
  shows "\<exists>s'. handleRootRootUpsert C fuel u R False s =
             target_upsert C fuel u R False (target n (ukey u)) (route (rseps n) (ukey u)) False x s' \<and>
           st s' (nds X) (no_locks(target n (ukey u) := Exclusive)) {} N"
proof -
  let ?c = "target n (ukey u)"
  note k = top_okD [OF t]
  note z = be_root_okD [OF k(2)]
  have Rc: "R \<noteq> ?c" by (rule target_good(3) [OF t])
  have nR: "nds X R = Some (BeRoot n)" by (rule nds_at [where X = X, OF k(1)])
  have nc: "nds X ?c = Some x" by (rule nds_at [where X = X, OF c])
  have get: "be_root_at R s = Inr n" using st_get [OF s(1) nR] by (simp add: be_root_at_def)
  have held: "held_of (no_locks(R := Shared 1)) = {R}" by (auto simp: held_of_def)
  obtain s1 where s1: "ps_pin False (\<lambda>_. True) ?c s = Inr s1"
      "st s1 (nds X) (no_locks(R := Shared 1, ?c := Exclusive)) {} N"
    using st_pin [OF s(1) nc, of "\<lambda>_. True"] held s(2) Rc by (auto simp: lock_mode_def)
  obtain s2 where s2: "ps_unpin False R s1 = Inr s2"
      "st s2 (nds X) (no_locks(R := Shared 1, ?c := Exclusive, R := Unlocked)) ({} - {R}) N"
    using st_unpin [OF s1(2), of R False] Rc by auto
  have lk: "(no_locks(R := Shared 1, ?c := Exclusive, R := Unlocked)) = no_locks(?c := Exclusive)" using Rc by auto
  have s2': "st s2 (nds X) (no_locks(?c := Exclusive)) {} N" using s2(2) unfolding lk by simp
  have getc: "ps_get ?c s2 = Inr x" using st_get [OF s2' nc] by simp
  have ch: "rchildren n ! route (rseps n) (ukey u) = ?c"
    using z(7) [OF z(8)] by (simp add: target_def)
  have "root_target C (ukey u) R False s = Inr (Some (?c, route (rseps n) (ukey u), False), s1)"
    using get room s1(1) by (simp add: root_target_def z(1,9) Let_def ch)
  then have "handleRootRootUpsert C fuel u R False s =
      target_upsert C fuel u R False ?c (route (rseps n) (ukey u)) False x s2"
    using s2(1) getc by (simp add: handleRootRootUpsert_def target_upsert_def)
  then show ?thesis using s2' by blast
qed

lemma second_try:
  assumes t: "top_ok C h X R n" and c: "X (target n (ukey u)) = Some (x, b)" and room: "rsize n < ROOT_N C"
    and s: "xst s (nds X) {R} N" "2 \<le> N"
  shows "\<exists>s'. handleRootRootUpsert C fuel u R True s =
             target_upsert C fuel u R True (target n (ukey u)) (route (rseps n) (ukey u)) False x s' \<and>
           xst s' (nds X) {R, target n (ukey u)} N"
proof -
  let ?c = "target n (ukey u)"
  note k = top_okD [OF t]
  note z = be_root_okD [OF k(2)]
  have Rc: "R \<noteq> ?c" by (rule target_good(3) [OF t])
  have nR: "nds X R = Some (BeRoot n)" by (rule nds_at [where X = X, OF k(1)])
  have nc: "nds X ?c = Some x" by (rule nds_at [where X = X, OF c])
  have get: "be_root_at R s = Inr n" by (rule be_root_run [OF s(1) _ nR]) simp
  obtain s1 where s1: "ps_pin False (\<lambda>_. True) ?c s = Inr s1" "xst s1 (nds X) {?c, R} N"
    using xst_pin [OF s(1) nc] Rc s(2) by auto
  have getc: "ps_get ?c s1 = Inr x" by (rule xst_get [OF s1(2) _ nc]) simp
  have ch: "rchildren n ! route (rseps n) (ukey u) = ?c"
    using z(7) [OF z(8)] by (simp add: target_def)
  have "root_target C (ukey u) R True s = Inr (Some (?c, route (rseps n) (ukey u), False), s1)"
    using get room s1(1) by (simp add: root_target_def z(1,9) Let_def ch)
  then have "handleRootRootUpsert C fuel u R True s =
      target_upsert C fuel u R True ?c (route (rseps n) (ukey u)) False x s1"
    using getc by (simp add: handleRootRootUpsert_def target_upsert_def)
  moreover have "{?c, R} = {R, ?c}" by auto
  ultimately show ?thesis using s1(2) by metis
qed

text \<open>A full root: the first attempt gives up, the second one splits the root and stores the message.\<close>

lemma full_root_first:
  assumes t: "top_ok C h X R n" and full: "rsize n = ROOT_N C" and s: "st s (nds X) (no_locks(R := Shared 1)) {} N"
  shows "\<exists>s'. handleRootRootUpsert C fuel u R False s = Inr (False, s') \<and> st s' (nds X) no_locks {} N"
proof -
  note k = top_okD [OF t]
  note z = be_root_okD [OF k(2)]
  have nR: "nds X R = Some (BeRoot n)" by (rule nds_at [where X = X, OF k(1)])
  have get: "be_root_at R s = Inr n" using st_get [OF s nR] by (simp add: be_root_at_def)
  obtain s1 where s1: "ps_unpin False R s = Inr s1" "st s1 (nds X) no_locks {} N"
    using st_unpin_last [OF s] by auto
  have "root_target C (ukey u) R False s = Inr (None, s1)"
    using get full s1(1) by (simp add: root_target_def z(1))
  then show ?thesis using s1(2) by (simp add: handleRootRootUpsert_def)
qed

lemma posted_same:
  assumes "top_same h X n X1 h1 n1" "posted C R u h1 X1 n1 h2 X2 n2"
  shows "posted C R u h X n h2 X2 n2"
proof -
  have a: "look h1 X1 key (target n1 key) = look h X key (target n key)"
    "stamps h1 X1 key (target n1 key) \<subseteq> stamps h X key (target n key)" for key
    using assms(1) unfolding top_same_def by blast+
  have b: "top_ok C h2 X2 R n2" "noisy X2 = {}"
    "look h2 X2 key (target n2 key) =
       (if key = ukey u then effect u (look h1 X1 key (target n1 key)) else look h1 X1 key (target n1 key))"
    "stamps h2 X2 key (target n2 key) \<subseteq> insert (timeStamp u) (stamps h1 X1 key (target n1 key))" for key
    using assms(2) unfolding posted_def by blast+
  show ?thesis
    unfolding posted_def
  proof (intro conjI allI)
    fix key
    show "stamps h2 X2 key (target n2 key) \<subseteq> insert (timeStamp u) (stamps h X key (target n key))"
      by (rule order_trans [OF b(4) insert_mono [OF a(2)]])
  qed (rule b(1,2) b(3) [unfolded a(1)])+
qed

lemma full_root_second:
  fixes X :: "('k::linorder, 'v::semigroup_add) be_state"
  assumes t: "top_ok C h X R n" and quiet: "noisy X = {}" and C: "config_ok C" and u: "valid_upsert u"
    and ts: "\<forall>t \<in> stamps h X (ukey u) (target n (ukey u)). t < timeStamp u"
    and full: "rsize n = ROOT_N C" and fit: "ROOT_N C mod (INNER_N C div 2 + 1) \<noteq> 0"
    and s: "xst s (nds X) {R} N" and N: "ROOT_N C + 1 \<le> N"
  shows "\<exists>s' X' n'. handleRootRootUpsert C fuel u R True s = Inr (True, s') \<and> xst s' (nds X') {} N \<and>
           posted C R u h X n (Suc h) X' n'"
proof -
  note k = top_okD [OF t]
  note z = be_root_okD [OF k(2)]
  have nR: "nds X R = Some (BeRoot n)" by (rule nds_at [where X = X, OF k(1)])
  have get: "be_root_at R s = Inr n" by (rule be_root_run [OF s _ nR]) simp
  obtain news mids n1 s1 X1 where S: "splitRootNode C R s = Inr (news, mids, s1)" "xst s1 (nds X1) ({R} \<union> set news) N"
      "R \<notin> set news" "distinct news" "top_ok C (Suc h) X1 R n1" "top_same h X n X1 (Suc h) n1" "noisy X1 = {}"
      "rkids n1 = news" "rseps n1 = mids" "rsize n1 < ROOT_N C"
      "\<forall>x \<in> set news. \<exists>e. X1 x = Some (BeInner e, []) \<and> usize (ubuf e) = 0"
    using splitRootNode_run [where X = X, OF t quiet full fit C s N] by (elim exE conjE) rule
  let ?j = "route mids (ukey u)" and ?c = "target n1 (ukey u)"
  note k1 = top_okD [OF S(5)]
  note z1 = be_root_okD [OF k1(2), unfolded S(8,9)]
  have j: "?j < length news" "news ! ?j = ?c" using z1(5,6) z1(8) [of "ukey u"] by (simp_all add: target_def S(8,9))
  then have cn: "?c \<in> set news" by (metis nth_mem)
  have Rc: "R \<noteq> ?c" using S(3) cn by auto
  have lb: "lower_bound mids (length mids) (ukey u) = ?j"
    using lower_bound_takeWhile [of "length mids" mids "ukey u"] z1(4) by (simp add: route_def strict_sorted_imp_sorted)
  obtain s2 where s2: "unpin_others ?c news s1 = Inr s2" "xst s2 (nds X1) ({R} \<union> set news - (set news - {?c})) N"
    using unpin_others_run [OF S(2,4), of ?c] by auto
  have set2: "{R} \<union> set news - (set news - {?c}) = {R, ?c}" using S(3) cn by auto
  note s2' = s2(2) [unfolded set2]
  obtain e where e: "X1 ?c = Some (BeInner e, [])" "usize (ubuf e) = 0" using S(11) cn by blast
  have ne: "nds X1 ?c = Some (BeInner e)" by (rule nds_at [where X = X1, OF e(1)])
  have getc: "ps_get ?c s2 = Inr (BeInner e)" by (rule xst_get [OF s2' _ ne]) simp
  then have geti: "be_inner_at ?c s2 = Inr e" by (simp add: be_inner_at_def)
  obtain s3 where s3: "ps_unpin True R s2 = Inr s3" "xst s3 (nds X1) {?c} N"
    using xst_unpin [OF s2', of R] Rc by (auto simp: insert_Diff_if)
  have tgt: "root_target C (ukey u) R True s = Inr (Some (?c, ?j, True), s2)"
    using get full S(1) s2(1) j by (simp add: root_target_def z(1) lb Let_def)
  have ts1: "\<forall>t \<in> stamps (Suc h) X1 (ukey u) ?c. t < timeStamp u"
    using S(6) ts unfolding top_same_def by blast
  have room: "usize (ubuf e) < INNER_B_N C \<or> ukey u \<in> ukey ` set (bmsgs e)" using e(2) config_okD(5) [OF C] by simp
  have pre: "(if True then ps_unpin True R s2 else Inr s2) = Inr s3" using s3(1) by simp
  obtain s4 X4 where r: "root_inner_upsert C fuel u R True ?c ?j True s2 = Inr (True, s4)" "xst s4 (nds X4) {} N"
      "posted C R u (Suc h) X1 n1 (Suc h) X4 n1"
    using inner_store_run [where X = X1, OF S(5,7) refl e(1) C u ts1 room geti pre s3(2), of fuel ?j] by blast
  have "handleRootRootUpsert C fuel u R True s = Inr (True, s4)"
    using tgt getc r(1) by (simp add: handleRootRootUpsert_def)
  then show ?thesis using r(2) posted_same [OF S(6) r(3)] by blast
qed

section \<open>A message below a root node\<close>

definition both_tries ::
  "('k::linorder, 'v::plus) be_config \<Rightarrow> nat \<Rightarrow> ('k, 'v) upsert \<Rightarrow> nat \<Rightarrow> ('k, 'v) be_node pstore \<Rightarrow>
   ('k, 'v) be_node pstore result" where
  "both_tries C fuel u R s =
     bindE (handleRootRootUpsert C fuel u R False s) (\<lambda>(success, s2).
     if success then Inr s2
     else bindE (ps_pin False (\<lambda>_. True) R s2) (\<lambda>s3.
          bindE (handleRootRootUpsert C fuel u R True s3) (\<lambda>(success', s4). Inr s4)))"

text \<open>The second attempt starts from the same nodes.\<close>

lemma retry_run:
  assumes first: "handleRootRootUpsert C fuel u R False s = Inr (False, s1)" "st s1 nd no_locks {} N"
    and R: "nd R = Some y" "0 < N"
    and second: "\<And>s2. xst s2 nd {R} N \<Longrightarrow> \<exists>s3 X' n'. handleRootRootUpsert C fuel u R True s2 = Inr (True, s3) \<and>
                   xst s3 (nds X') {} N \<and> posted C R u h X n h' X' n'"
  shows "\<exists>s' X' n'. both_tries C fuel u R s = Inr s' \<and> st s' (nds X') no_locks {} N \<and> posted C R u h X n h' X' n'"
proof -
  obtain s2 where s2: "ps_pin False (\<lambda>_. True) R s1 = Inr s2" "xst s2 nd {R} N"
    using xst_pin_free [OF first(2) R] by blast
  obtain s3 X' n' where "handleRootRootUpsert C fuel u R True s2 = Inr (True, s3)" "xst s3 (nds X') {} N"
      "posted C R u h X n h' X' n'" using second [OF s2(2)] by blast
  then show ?thesis using first(1) s2(1) xst_done [of s3 "nds X'" N] by (auto simp: both_tries_def)
qed

lemma one_try:
  assumes "handleRootRootUpsert C fuel u R False s = Inr (True, s')"
  shows "both_tries C fuel u R s = Inr s'"
  using assms by (simp add: both_tries_def)

lemma leaf_both_tries:
  fixes X :: "('k::linorder, 'v::plus) be_state"
  assumes t: "top_ok C 0 X R n" and quiet: "noisy X = {}" and C: "config_ok C" and u: "valid_upsert u"
    and ts: "\<forall>t \<in> stamps 0 X (ukey u) (target n (ukey u)). t < timeStamp u"
    and new: "utype u = INSERT \<longrightarrow> look 0 X (ukey u) (target n (ukey u)) \<noteq> Some (uval u)"
    and room: "rsize n < ROOT_N C" and s: "st s (nds X) (no_locks(R := Shared 1)) {} N" and N: "3 \<le> N"
  shows "\<exists>s' X' n'. both_tries C fuel u R s = Inr s' \<and> st s' (nds X') no_locks {} N \<and> posted C R u 0 X n 0 X' n'"
proof -
  let ?c = "target n (ukey u)"
  note k = top_okD [OF t]
  have N2: "2 \<le> N" "0 < N" using N by simp_all
  have "be_ok C 0 X (lo_at None (rseps n) (route (rseps n) (ukey u))) (hi_at (rseps n) None (route (rseps n) (ukey u))) ?c"
    using target_good(1) [OF t, of "ukey u"] by (simp add: good_def)
  then obtain l b where l: "X ?c = Some (BeLeaf l, b)" "bleaf_ok C l" by auto
  have b: "b = []" using quiet_inbox [where X = X, OF quiet l(1)] .
  note c = l(1) [unfolded b]
  have nc: "nds X ?c = Some (BeLeaf l)" by (rule nds_at [where X = X, OF c])
  obtain s1 where s1: "handleRootRootUpsert C fuel u R False s =
        target_upsert C fuel u R False ?c (route (rseps n) (ukey u)) False (BeLeaf l) s1"
      "st s1 (nds X) (no_locks(?c := Exclusive)) {} N"
    using first_try [where X = X and C = C and fuel = fuel, OF t c room s N2(1)] by blast
  have get: "be_leaf_at ?c s1 = Inr l" using st_get [OF s1(2) nc] by (simp add: be_leaf_at_def)
  note lk = leaf_okD [OF l(2)]
  show ?thesis
  proof (cases "utype u = INSERT \<and> lsize l = LEAF_N C")
    case True
    obtain s2 where s2: "ps_unpin False ?c s1 = Inr s2" "st s2 (nds X) no_locks {} N"
      using st_unpin_last [OF s1(2)] by auto
    have first: "handleRootRootUpsert C fuel u R False s = Inr (False, s2)"
      unfolding s1(1) target_upsert_def using get s2(1) True lk(1) by (simp add: root_leaf_upsert_def)
    have nm: "map_of (leaf_kvs l) (ukey u) \<noteq> Some (uval u)"
      using new True c by (simp add: look_def)
    show ?thesis
    proof (rule retry_run [OF first s2(2) nds_at [where X = X, OF k(1)] N2(2)])
      fix s3 assume s3: "xst s3 (nds X) {R} N"
      obtain s4 where s4: "handleRootRootUpsert C fuel u R True s3 =
          target_upsert C fuel u R True ?c (route (rseps n) (ukey u)) False (BeLeaf l) s4" "xst s4 (nds X) {R, ?c} N"
        using second_try [where X = X and C = C and fuel = fuel, OF t c room s3 N2(1)] by blast
      show "\<exists>s' X' n'. handleRootRootUpsert C fuel u R True s3 = Inr (True, s') \<and> xst s' (nds X') {} N \<and>
          posted C R u 0 X n 0 X' n'"
        unfolding s4(1) target_upsert_def
        using leaf_split_run [where X = X, OF t quiet refl c C _ ts _ nm room s4(2) N] True by auto
    qed
  next
    case False
    have card: "card (set (leaf_keys l)) = lsize l" by (rule leaf_card [OF l(2)])
    have room': "card (key_step u (set (leaf_keys l))) \<le> LEAF_N C"
      using False lk(3) card card_insert_le_m1 [of "LEAF_N C" "set (leaf_keys l)" "ukey u"] card_Diff1_le [of "set (leaf_keys l)" "ukey u"]
      by (cases "utype u") (auto simp: card_insert_if)
    obtain s2 X' where s2: "upsert_leaf ?c u s1 = Inr s2" "st s2 (nds X') (no_locks(?c := Exclusive, ?c := Unlocked)) {} N"
        "posted C R u 0 X n 0 X' n"
      using leaf_take_run [where X = X, OF t quiet c C u ts room' s1(2)] by auto
    have "handleRootRootUpsert C fuel u R False s = Inr (True, s2)"
      unfolding s1(1) target_upsert_def using get s2(1) False lk(1,3) by (auto simp: root_leaf_upsert_def)
    from one_try [OF this] show ?thesis using s2(2,3) by auto
  qed
qed

lemma inner_both_tries:
  fixes X :: "('k::linorder, 'v::semigroup_add) be_state"
  assumes t: "top_ok C (Suc h) X R n" and quiet: "noisy X = {}" and C: "config_ok C" and u: "valid_upsert u"
    and ts: "\<forall>t \<in> stamps (Suc h) X (ukey u) (target n (ukey u)). t < timeStamp u"
    and room: "rsize n < ROOT_N C" and s: "st s (nds X) (no_locks(R := Shared 1)) {} N"
    and N: "2 * weight (INNER_N C) (Suc h) \<le> fuel" "2 * weight (INNER_N C) (Suc h) \<le> N" "3 \<le> N"
  shows "\<exists>s' X' n'. both_tries C fuel u R s = Inr s' \<and> st s' (nds X') no_locks {} N \<and>
           posted C R u (Suc h) X n (Suc h) X' n'"
proof -
  let ?c = "target n (ukey u)" and ?j = "route (rseps n) (ukey u)"
  note k = top_okD [OF t]
  have N2: "2 \<le> N" "0 < N" using N by simp_all
  have "be_ok C (Suc h) X (lo_at None (rseps n) ?j) (hi_at (rseps n) None ?j) ?c"
    using target_good(1) [OF t, of "ukey u"] by (simp add: good_def)
  then obtain x b where x: "X ?c = Some (BeInner x, b)" "be_inner_ok C x" by auto
  have b: "b = []" using quiet_inbox [where X = X, OF quiet x(1)] .
  note c = x(1) [unfolded b]
  have nc: "nds X ?c = Some (BeInner x)" by (rule nds_at [where X = X, OF c])
  obtain s1 where s1: "handleRootRootUpsert C fuel u R False s =
        target_upsert C fuel u R False ?c ?j False (BeInner x) s1"
      "st s1 (nds X) (no_locks(?c := Exclusive)) {} N"
    using first_try [where X = X and C = C and fuel = fuel, OF t c room s N2(1)] by blast
  have get: "be_inner_at ?c s1 = Inr x" using st_get [OF s1(2) nc] by (simp add: be_inner_at_def)
  note xs1 = st_xst_one [OF s1(2)]
  note z = be_inner_okD [OF x(2)]
  have run: "\<exists>s' X' n'. both_tries C fuel u R s = Inr s' \<and> st s' (nds X') no_locks {} N \<and> posted C R u (Suc h) X n (Suc h) X' n'"
    if r: "root_inner_upsert C fuel u R False ?c ?j False s1 = Inr (True, s2)" "xst s2 (nds X') {} N"
      "posted C R u (Suc h) X n (Suc h) X' n" for s2 X'
  proof -
    have "handleRootRootUpsert C fuel u R False s = Inr (True, s2)"
      unfolding s1(1) target_upsert_def using r(1) by simp
    from one_try [OF this] show ?thesis using xst_done [OF r(2)] r(3) by blast
  qed
  consider (store) "usize (ubuf x) < INNER_B_N C \<or> ukey u \<in> ukey ` set (bmsgs x)"
    | (flush) "overflows C u x" "innsize x < INNER_N C" | (split) "overflows C u x" "innsize x = INNER_N C"
    using z(3,8) unfolding overflows_def by linarith
  then show ?thesis
  proof cases
    case store
    have pre: "(if False then ps_unpin False R s1 else Inr s1) = Inr s1" by simp
    show ?thesis
      using inner_store_run [where X = X, OF t quiet refl c C u ts store get pre xs1, of fuel ?j] run by blast
  next
    case flush
    show ?thesis
      using inner_flush_run [where X = X and j = ?j and sp = False, OF t quiet refl c C u ts flush xs1, of fuel] N run by fastforce
  next
    case split
    obtain s2 where s2: "ps_unpin False ?c s1 = Inr s2" "st s2 (nds X) no_locks {} N"
      using st_unpin_last [OF s1(2)] by auto
    have first: "handleRootRootUpsert C fuel u R False s = Inr (False, s2)"
      unfolding s1(1) target_upsert_def
      using overflow_run [OF x(2) split(1) get] get s2(1) split(2) z(1) by (simp add: flush_target_def)
    show ?thesis
    proof (rule retry_run [OF first s2(2) nds_at [where X = X, OF k(1)] N2(2)])
      fix s3 assume s3: "xst s3 (nds X) {R} N"
      obtain s4 where s4: "handleRootRootUpsert C fuel u R True s3 =
          target_upsert C fuel u R True ?c ?j False (BeInner x) s4" "xst s4 (nds X) {R, ?c} N"
        using second_try [where X = X and C = C and fuel = fuel, OF t c room s3 N2(1)] by blast
      show "\<exists>s' X' n'. handleRootRootUpsert C fuel u R True s3 = Inr (True, s') \<and> xst s' (nds X') {} N \<and>
          posted C R u (Suc h) X n (Suc h) X' n'"
        unfolding s4(1) target_upsert_def
        using inner_split_flush_run [where X = X, OF t quiet refl c C u ts split room s4(2) N] by simp
    qed
  qed
qed

lemma both_tries_run:
  fixes X :: "('k::linorder, 'v::semigroup_add) be_state"
  assumes t: "top_ok C h X R n" and quiet: "noisy X = {}" and C: "config_ok C" and u: "valid_upsert u"
    and fit: "ROOT_N C mod (INNER_N C div 2 + 1) \<noteq> 0"
    and ts: "\<forall>t \<in> stamps h X (ukey u) (target n (ukey u)). t < timeStamp u"
    and new: "utype u = INSERT \<longrightarrow> look h X (ukey u) (target n (ukey u)) \<noteq> Some (uval u)"
    and s: "st s (nds X) (no_locks(R := Shared 1)) {} N"
    and N: "2 * weight (INNER_N C) h \<le> fuel" "2 * weight (INNER_N C) h \<le> N" "ROOT_N C + 1 \<le> N" "3 \<le> N"
  shows "\<exists>s' h' X' n'. both_tries C fuel u R s = Inr s' \<and> st s' (nds X') no_locks {} N \<and>
           posted C R u h X n h' X' n' \<and> h' \<le> Suc h"
proof (cases "rsize n < ROOT_N C")
  case True
  show ?thesis
  proof (cases h)
    case 0
    have "\<exists>s' X' n'. both_tries C fuel u R s = Inr s' \<and> st s' (nds X') no_locks {} N \<and> posted C R u 0 X n 0 X' n'"
      by (rule leaf_both_tries [where X = X, OF _ quiet C u _ _ True s N(4)]) (use t ts new 0 in auto)
    then show ?thesis using 0 by blast
  next
    case (Suc h')
    have "\<exists>s' X' n'. both_tries C fuel u R s = Inr s' \<and> st s' (nds X') no_locks {} N \<and>
        posted C R u (Suc h') X n (Suc h') X' n'"
      by (rule inner_both_tries [where X = X, OF _ quiet C u _ True s]) (use t ts N Suc in auto)
    then show ?thesis unfolding Suc using le_SucI [OF le_refl, of "Suc h'"] by blast
  qed
next
  case False
  note k = top_okD [OF t]
  have full: "rsize n = ROOT_N C" using False be_root_okD(3) [OF k(2)] by simp
  obtain s1 where s1: "handleRootRootUpsert C fuel u R False s = Inr (False, s1)" "st s1 (nds X) no_locks {} N"
    using full_root_first [OF t full s] by blast
  have "0 < N" using N by simp
  have "\<exists>s' X' n'. both_tries C fuel u R s = Inr s' \<and> st s' (nds X') no_locks {} N \<and> posted C R u h X n (Suc h) X' n'"
    by (rule retry_run [OF s1 nds_at [where X = X, OF k(1)] \<open>0 < N\<close>], rule full_root_second [OF t quiet C u ts full fit _ N(3)])
  then show ?thesis by blast
qed

end
