(* ===== verification/BeMap.thy ===== *)
theory BeMap
  imports BeUpsert
begin

text \<open>
  The B-epsilon-tree as a map: its invariant, the map that it stands for, and what the operations
  of the class \<open>BeTree\<close> do to both, from a root that is a leaf over its first split to a tree of
  any height. \<open>h\<close> is the number of levels of inner nodes below the root node.
\<close>

section \<open>Invariant and map\<close>

definition be_content :: "nat \<Rightarrow> ('k::linorder, 'v::plus) be_tree \<Rightarrow> 'k \<rightharpoonup> 'v" where
  "be_content h t = (\<lambda>key.
     case nodes (bePages t) (beRootID t) of
       Some (BeLeaf l) \<Rightarrow> map_of (leaf_kvs l) key
     | Some (BeRoot n) \<Rightarrow> look h (plain (nodes (bePages t))) key (target n key)
     | _ \<Rightarrow> None)"

definition be_core :: "('k::linorder, 'v) be_config \<Rightarrow> nat \<Rightarrow> nat \<Rightarrow> ('k, 'v) be_tree \<Rightarrow> bool" where
  "be_core C h stamp t \<longleftrightarrow>
     st (bePages t) (nodes (bePages t)) no_locks {} (slots (bePages t)) \<and>
     (case nodes (bePages t) (beRootID t) of
        Some (BeLeaf l) \<Rightarrow> beRootLeaf t \<and> bleaf_ok C l
      | Some (BeRoot n) \<Rightarrow>
          \<not> beRootLeaf t \<and> top_ok C h (plain (nodes (bePages t))) (beRootID t) n \<and>
          (\<forall>key. \<forall>s \<in> stamps h (plain (nodes (bePages t))) key (target n key). s \<le> stamp)
      | _ \<Rightarrow> False)"

definition be_inv :: "('k::linorder, 'v) be_config \<Rightarrow> nat \<Rightarrow> ('k, 'v) be_tree \<Rightarrow> bool" where
  "be_inv C h t \<longleftrightarrow> be_core C h (beTimeStamp t) t"

text \<open>
  The capacities that the code needs, and the slots of the buffer and the steps that a flush
  of a tree of height \<open>h\<close> takes at most.
\<close>

definition be_config_ok :: "('k::linorder, 'v) be_config \<Rightarrow> bool" where
  "be_config_ok C \<longleftrightarrow> config_ok C \<and> ROOT_N C mod (INNER_N C div 2 + 1) \<noteq> 0"

definition be_bound :: "('k, 'v) be_config \<Rightarrow> nat \<Rightarrow> nat" where
  "be_bound C h = max (2 * weight (INNER_N C) h) (ROOT_N C + 3)"

lemma be_boundD:
  assumes "be_bound C h \<le> N"
  shows "2 * weight (INNER_N C) h \<le> N" "ROOT_N C + 1 \<le> N" "3 \<le> N"
  using assms by (simp_all add: be_bound_def)

lemma be_rootI:
  assumes "st (bePages t) (nds X) no_locks {} N" "noisy X = {}" "top_ok C h X (beRootID t) n" "\<not> beRootLeaf t"
    "\<forall>key. \<forall>s \<in> stamps h X key (target n key). s \<le> stamp"
  shows "be_core C h stamp t" "be_content h t = (\<lambda>key. look h X key (target n key))" "slots (bePages t) = N"
proof -
  have nd: "nodes (bePages t) = nds X" and sl: "slots (bePages t) = N" using assms(1) by (simp_all add: st_def)
  have X: "plain (nds X) = X"
  proof
    fix i show "plain (nds X) i = X i"
      using quiet_inbox [where X = X, OF assms(2), of i] by (cases "X i") (auto simp: plain_def nds_def)
  qed
  have R: "nds X (beRootID t) = Some (BeRoot n)" by (rule nds_at [where X = X, OF top_okD(1) [OF assms(3)]])
  show "be_core C h stamp t" using assms R by (simp add: be_core_def nd sl X)
  show "be_content h t = (\<lambda>key. look h X key (target n key))" by (simp add: be_content_def nd X R)
  show "slots (bePages t) = N" by (rule sl)
qed

lemma be_leafI:
  assumes "st (bePages t) nd no_locks {} N" "nd (beRootID t) = Some (BeLeaf l)" "bleaf_ok C l" "beRootLeaf t"
  shows "be_core C h stamp t" "be_content h t = map_of (leaf_kvs l)" "slots (bePages t) = N"
proof -
  have nd: "nodes (bePages t) = nd" and sl: "slots (bePages t) = N" using assms(1) by (simp_all add: st_def)
  show "be_core C h stamp t" using assms by (simp add: be_core_def nd sl)
  show "be_content h t = map_of (leaf_kvs l)" using assms(2) by (simp add: be_content_def nd)
  show "slots (bePages t) = N" by (rule sl)
qed

lemma be_core_cases:
  assumes "be_core C h stamp t"
  obtains (leaf) l where "st (bePages t) (nodes (bePages t)) no_locks {} (slots (bePages t))"
      "nodes (bePages t) (beRootID t) = Some (BeLeaf l)" "beRootLeaf t" "bleaf_ok C l"
      "be_content h t = map_of (leaf_kvs l)"
    | (root) X n where "st (bePages t) (nds X) no_locks {} (slots (bePages t))" "nodes (bePages t) = nds X" "noisy X = {}"
      "nds X (beRootID t) = Some (BeRoot n)" "\<not> beRootLeaf t" "top_ok C h X (beRootID t) n"
      "\<forall>key. \<forall>s \<in> stamps h X key (target n key). s \<le> stamp" "be_content h t = (\<lambda>key. look h X key (target n key))"
proof -
  let ?nd = "nodes (bePages t)"
  have s: "st (bePages t) ?nd no_locks {} (slots (bePages t))" using assms by (simp add: be_core_def)
  obtain x where x: "?nd (beRootID t) = Some x" using assms by (cases "?nd (beRootID t)") (auto simp: be_core_def)
  show ?thesis
  proof (cases x)
    case (BeLeaf l)
    show ?thesis by (rule leaf [OF s]) (use assms x BeLeaf in \<open>simp_all add: be_core_def be_content_def\<close>)
  next
    case (BeRoot n)
    have q: "noisy (plain ?nd) = {}" by (simp add: noisy_def)
    show ?thesis
      by (rule root [of "plain ?nd" n]) (use assms x BeRoot s q in \<open>simp_all add: be_core_def be_content_def\<close>)
  next
    case (BeInner n)
    then show ?thesis using assms x by (simp add: be_core_def)
  qed
qed

section \<open>Messages at a root node\<close>

lemma root_node_upsert:
  fixes t :: "('k::linorder, 'v::semigroup_add) be_tree"
  assumes s: "st (bePages t) (nds X) no_locks {} N" and quiet: "noisy X = {}"
    and R: "nds X (beRootID t) = Some (BeRoot n)" "\<not> beRootLeaf t" and top: "top_ok C h X (beRootID t) n"
    and st: "\<forall>key. \<forall>s \<in> stamps h X key (target n key). s \<le> stamp" "stamp < timeStamp u"
    and C: "be_config_ok C" and u: "valid_upsert u"
    and new: "utype u = INSERT \<longrightarrow> look h X (ukey u) (target n (ukey u)) \<noteq> Some (uval u)"
    and N: "be_bound C h \<le> N" "be_bound C h \<le> fuel"
  shows "\<exists>s' h'. be_upsert C fuel u t = Inr (t\<lparr>bePages := s'\<rparr>) \<and> h' \<le> Suc h \<and>
           be_core C h' (timeStamp u) (t\<lparr>bePages := s'\<rparr>) \<and> slots s' = N \<and>
           be_content h' (t\<lparr>bePages := s'\<rparr>) =
             (\<lambda>key. if key = ukey u then effect u (look h X key (target n key)) else look h X key (target n key))"
proof -
  let ?R = "beRootID t"
  note b = be_boundD [OF N(1)] and f = be_boundD [OF N(2)]
  have cfg: "config_ok C" "ROOT_N C mod (INNER_N C div 2 + 1) \<noteq> 0" using C by (simp_all add: be_config_ok_def)
  obtain s1 where s1: "ps_pin False (\<lambda>_. False) ?R (bePages t) = Inr s1" "st s1 (nds X) (no_locks(?R := Shared 1)) {} N"
    using st_pin [OF s R(1), of "\<lambda>_. False"] b(3) by (auto simp: lock_mode_def)
  have get: "ps_get ?R s1 = Inr (BeRoot n)" using st_get [OF s1(2) R(1)] by simp
  have ts: "\<forall>t \<in> stamps h X (ukey u) (target n (ukey u)). t < timeStamp u"
    using st by (meson le_less_trans)
  obtain s' h' X' n' where r: "both_tries C fuel u ?R s1 = Inr s'" "st s' (nds X') no_locks {} N"
      "posted C ?R u h X n h' X' n'" "h' \<le> Suc h"
    using both_tries_run [where X = X, OF top quiet cfg(1) u cfg(2) ts new s1(2) f(1) b] by (elim exE conjE) rule
  have "be_upsert C fuel u t = Inr (t\<lparr>bePages := s'\<rparr>)"
  proof -
    have "be_upsert C fuel u t = bindE (both_tries C fuel u ?R s1) (\<lambda>s'. Inr (t\<lparr>bePages := s'\<rparr>))"
      using s1(1) get R(2) unfolding both_tries_def
      by (simp add: be_upsert_def bindE_assoc split_def if_distrib [of "\<lambda>x. bindE x _"] cong: if_cong)
    then show ?thesis using r(1) by simp
  qed
  moreover
  have p: "top_ok C h' X' ?R n'" "noisy X' = {}"
    "look h' X' key (target n' key) = (if key = ukey u then effect u (look h X key (target n key)) else look h X key (target n key))"
    "stamps h' X' key (target n' key) \<subseteq> insert (timeStamp u) (stamps h X key (target n key))" for key
    using r(3) unfolding posted_def by blast+
  have ts': "\<forall>key. \<forall>s \<in> stamps h' X' key (target n' key). s \<le> timeStamp u"
  proof (intro allI ballI)
    fix key s assume "s \<in> stamps h' X' key (target n' key)"
    then have "s = timeStamp u \<or> s \<in> stamps h X key (target n key)" using p(4) [of key] by blast
    moreover have "s \<le> stamp" if "s \<in> stamps h X key (target n key)" using st(1) that by blast
    ultimately show "s \<le> timeStamp u" using st(2) by auto
  qed
  note c = be_rootI [of "t\<lparr>bePages := s'\<rparr>" X' N C h' n' "timeStamp u", simplified, OF r(2) p(2,1) R(2) ts']
  have "be_content h' (t\<lparr>bePages := s'\<rparr>) =
      (\<lambda>key. if key = ukey u then effect u (look h X key (target n key)) else look h X key (target n key))"
    unfolding c(2) by (rule ext) (rule p(3))
  ultimately show ?thesis using r(4) c(1,3) by blast
qed

section \<open>A root that is a leaf\<close>

text \<open>The index that was found before a split is right in the half for the key, after an adjustment.\<close>

lemma takeWhile_halves:
  fixes key m :: "'k::linorder"
  assumes "\<forall>x \<in> set A. x \<le> m" "\<forall>x \<in> set B. m < x"
  shows "key \<le> m \<Longrightarrow> takeWhile (\<lambda>x. x < key) (A @ B) = takeWhile (\<lambda>x. x < key) A"
    "m < key \<Longrightarrow> takeWhile (\<lambda>x. x < key) (A @ B) = A @ takeWhile (\<lambda>x. x < key) B"
proof -
  assume k: "key \<le> m"
  then have B: "takeWhile (\<lambda>x. x < key) B = []" using assms(2) by (cases B) auto
  show "takeWhile (\<lambda>x. x < key) (A @ B) = takeWhile (\<lambda>x. x < key) A"
    using B by (induction A) auto
next
  assume "m < key"
  then show "takeWhile (\<lambda>x. x < key) (A @ B) = A @ takeWhile (\<lambda>x. x < key) B"
    by (intro takeWhile_append2) (use assms(1) in auto)
qed

lemma split_index:
  assumes l: "bleaf_ok C l" and i_def: "i = lower_bound (keys l) (lsize l) key"
  shows "key \<le> m \<Longrightarrow> lower_bound (keys (bleaf_left m l)) (lsize (bleaf_left m l)) key = i"
    "m < key \<Longrightarrow> lower_bound (keys (bleaf_right C m l)) (lsize (bleaf_right C m l)) key = i - lsize (bleaf_left m l)"
proof -
  note s = bleaf_split_ok [OF l refl, of m]
  let ?A = "leaf_keys (bleaf_left m l)" and ?B = "leaf_keys (bleaf_right C m l)"
  have AB: "leaf_keys l = ?A @ ?B"
    unfolding s(3,4) by (metis l leaf_okD(4) takeWhile_dropWhile_id takeWhile_le_filter)
  have h: "\<forall>x \<in> set ?A. x \<le> m" "\<forall>x \<in> set ?B. m < x" unfolding s(3,4) by auto
  note t = takeWhile_halves [OF h, of key]
  have lb: "i = length (takeWhile (\<lambda>x. x < key) (leaf_keys l))"
    unfolding i_def by (rule leaf_lower_bound [OF l])
  show "key \<le> m \<Longrightarrow> lower_bound (keys (bleaf_left m l)) (lsize (bleaf_left m l)) key = i"
    using leaf_lower_bound [OF s(1)] t(1) AB lb by simp
  have "length ?A = lsize (bleaf_left m l)" by (rule leaf_okD(5) [OF s(1)])
  then show "m < key \<Longrightarrow> lower_bound (keys (bleaf_right C m l)) (lsize (bleaf_right C m l)) key = i - lsize (bleaf_left m l)"
    using leaf_lower_bound [OF s(2)] t(2) AB lb by simp
qed

lemma put_in_half_run:
  assumes s: "xst s nd S N" "p \<in> S" "nd p = Some (BeLeaf l)" and l: "bleaf_ok C l"
    and u: "utype u = INSERT" "ukey u \<notin> set (leaf_keys l)" "lsize l < LEAF_N C"
  shows "\<exists>s'. put_in_split_root p (lower_bound (keys l) (lsize l) (ukey u)) (ukey u) (uval u) s = Inr s' \<and>
           xst s' (nd(p \<mapsto> BeLeaf (leaf_apply u l))) (S - {p}) N"
proof -
  let ?i = "lower_bound (keys l) (lsize l) (ukey u)"
  note k = leaf_okD [OF l] and f = leaf_found [OF l refl, of "ukey u"]
  have absent: "?i \<ge> lsize l \<or> keys l ! ?i \<noteq> ukey u" using f(2) u(2) by auto
  have ap: "leaf_apply u l = leaf_insert ?i (ukey u) (uval u) l" using u(1) absent by (simp add: leaf_apply_def Let_def)
  have get: "be_leaf_at p s = Inr l" by (rule be_leaf_run [OF s])
  obtain s1 where s1: "ps_put p (BeLeaf (leaf_apply u l)) s = Inr s1" "xst s1 (nd(p \<mapsto> BeLeaf (leaf_apply u l))) S N"
    using xst_put [OF s(1,2)] by blast
  obtain s2 where "ps_unpin True p s1 = Inr s2" "xst s2 (nd(p \<mapsto> BeLeaf (leaf_apply u l))) (S - {p}) N"
    using xst_unpin [OF s1(2) s(2)] by blast
  then show ?thesis using get s1(1) u(3) k(1) by (simp add: put_in_split_root_def ap)
qed

text \<open>The new root over the two halves of the old one.\<close>

lemma grow_run:
  assumes s: "xst s nd S N" "R \<in> S" "nd R = Some x" and N: "card S < N" and C: "0 < ROOT_N C"
  shows "\<exists>q n s'. grow_be_root C R r m s = Inr (q, s') \<and> q \<notin> dom nd \<and> q \<notin> S \<and> be_root_ok C n \<and>
           rseps n = [m] \<and> rkids n = [q, r] \<and>
           xst s' (nd(q \<mapsto> x, R \<mapsto> BeRoot n)) (insert q (S - {R})) N"
proof -
  obtain q s1 s2 where q: "pin_new s = Inr (q, s1)" "be_initializeNode C q NodeType_ROOT s1 = Inr s2" "q \<notin> dom nd"
      "q \<notin> S" "xst s2 (nd(q \<mapsto> BeRoot (new_be_root C))) (insert q S) N"
    using be_new_page_run [OF s(1) N new_be_node_simps(1)] by blast
  have qR: "q \<noteq> R" using q(4) s(2) by auto
  define n where "n = (new_be_root C)\<lparr>rpivots := (rpivots (new_be_root C))[0 := m],
    rchildren := (rchildren (new_be_root C))[0 := q, 1 := r], rsize := 1\<rparr>"
  have get: "be_root_at q s2 = Inr (new_be_root C)" by (rule be_root_run [OF q(5)]) simp_all
  have getR: "ps_get R s2 = Inr x" by (rule xst_get [OF q(5)]) (use s(2,3) qR in auto)
  obtain s3 where s3: "ps_put q x s2 = Inr s3" "xst s3 (nd(q \<mapsto> x)) (insert q S) N"
    using xst_put [OF q(5), of q x] by auto
  obtain s4 where s4: "ps_put R (BeRoot n) s3 = Inr s4" "xst s4 (nd(q \<mapsto> x, R \<mapsto> BeRoot n)) (insert q S) N"
    using xst_put [OF s3(2), of R "BeRoot n"] s(2) by auto
  obtain s5 where s5: "ps_unpin True R s4 = Inr s5" "xst s5 (nd(q \<mapsto> x, R \<mapsto> BeRoot n)) (insert q S - {R}) N"
    using xst_unpin [OF s4(2), of R] s(2) by auto
  have "insert q S - {R} = insert q (S - {R})" using qR by auto
  moreover have "grow_be_root C R r m s = Inr (q, s5)"
    using q(1,2) get getR s3(1) s4(1) s5(1) by (simp add: grow_be_root_def n_def Let_def)
  moreover have "be_root_ok C n \<and> rseps n = [m] \<and> rkids n = [q, r]"
    using C by (cases "ROOT_N C") (simp_all add: be_root_ok_def n_def rseps_def rkids_def new_be_root_def)
  ultimately show ?thesis using q(3,4) s5(2) by auto
qed

text \<open>The first split: a root node over the two halves, one of them with the new key.\<close>

lemma first_split_state:
  fixes X' :: "('k::linorder, 'v::plus) be_state"
  assumes l: "bleaf_ok C l" and C: "config_ok C" and u: "utype u = INSERT" and full: "lsize l = LEAF_N C"
    and m_def: "m = leaf_median (leaf_keys l) [ukey u]"
    and pages: "distinct [q, r, R]"
    and n: "be_root_ok C n" "rseps n = [m]" "rkids n = [q, r]"
    and p_def: "p = (if ukey u \<le> m then q else r)" and lp_def: "lp = (if ukey u \<le> m then bleaf_left m l else bleaf_right C m l)"
    and X'_def: "X' = (plain nd)(r \<mapsto> (BeLeaf (bleaf_right C m l), []), q \<mapsto> (BeLeaf (bleaf_left m l), []),
                    R \<mapsto> (BeRoot n, []), p \<mapsto> (BeLeaf (leaf_apply u lp), []))"
    and out: "r \<notin> dom nd" "q \<notin> dom nd"
  shows "top_ok C 0 X' R n" "look 0 X' key (target n key) = ((map_of (leaf_kvs l))(ukey u \<mapsto> uval u)) key"
    "stamps 0 X' key (target n key) \<subseteq> {timeStamp u}"
    "findMedianKey (zeroKey C) (sizeMaxKey C) (keys l) (lsize l) [ukey u] 1 = Inr m" "2 \<le> lsize l"
    "bleaf_ok C lp" "card (key_step u (set (leaf_keys lp))) \<le> LEAF_N C"
proof -
  have v: "valid_upsert u" using u by (simp add: valid_upsert_def)
  have mx: "1 \<le> MAX_FLUSH_SIZE C" using config_okD(1) [OF C] by (simp add: MAX_FLUSH_SIZE_def)
  define X0 :: "('k, 'v) be_state" where "X0 = (plain nd)(q \<mapsto> (BeLeaf l, [u]))"
  have at: "X0 q = Some (BeLeaf l, [u])" by (simp add: X0_def)
  have up: "upserts_ok [u]" "length [u] \<le> MAX_FLUSH_SIZE C" "LEAF_N C < lsize l + length [u]"
    using v mx full by (simp_all add: upserts_ok_def)
  have m': "m = leaf_median (leaf_keys l) (map ukey [u])" by (simp add: m_def)
  note h = leaf_split_fits [OF C l up(1,3,2) m']
  show "findMedianKey (zeroKey C) (sizeMaxKey C) (keys l) (lsize l) [ukey u] 1 = Inr m" using h(1) by simp
  show "2 \<le> lsize l" by (rule h(2))
  have g: "good C 0 X0 None None q"
    using l single_inbox_ok [OF v mx, of None None] at by (simp add: good_def inbox_def ordered_def)
  have rX: "r \<notin> dom X0" using out(1) pages by (auto simp: X0_def)
  define X2 where "X2 = X0(r \<mapsto> (BeLeaf (bleaf_right C m l), filter (\<lambda>u. m < ukey u) [u]),
                        q \<mapsto> (BeLeaf (bleaf_left m l), filter (\<lambda>u. ukey u \<le> m) [u]))"
  have sp: "splits C 0 X0 X2 None None q m r"
    unfolding X2_def by (rule split_leaf_splits [where X = X0, OF at g _ _ rX]) simp_all
  note d = splitsD [OF sp]
  have fam: "rfam 0 n = [(0, None, Some m, q), (0, Some m, None, r)]"
    by (simp add: rfam_def n kfam_def lo_at_def hi_at_def)
  define X3 where "X3 = X2(R \<mapsto> (BeRoot n, []))"
  have same: "X3 x = X2 x" if "x \<in> set (fids X2 (rfam 0 n))" for x using that pages by (auto simp: X3_def fam)
  note b = fgood_beside [OF d(1) [folded fam], of X3, OF same]
  have top3: "top_ok C 0 X3 R n" using n(1) b(1) pages by (simp add: top_ok_def X3_def fam)
  have tgt: "target n k = (if k \<le> m then q else r)" for k
    using route_Cons [of m "[]" k] by (simp add: target_def n route_def [of "[]"])
  have look3: "same_at 0 X0 q X3 (target n k) k" for k
  proof (rule same_at_trans)
    show "same_at 0 X0 q X2 (target n k) k" using d(5) [of k] by (simp add: tgt)
    show "same_at 0 X2 (target n k) X3 (target n k) k"
      by (rule b(3) [OF _ target_family(1) [OF n(1)]])
  qed
  have X3p: "X3 p = Some (BeLeaf lp, [u])"
    using pages by (auto simp: X3_def X2_def p_def lp_def not_le)
  have fp: "fits (LEAF_N C) (set (leaf_keys lp)) [u]" using h(3,4) by (auto simp: lp_def not_le split: if_splits)
  then show "card (key_step u (set (leaf_keys lp))) \<le> LEAF_N C" by simp
  obtain lo' hi' where fm: "(0, lo', hi', p) \<in> set (rfam 0 n)" unfolding fam p_def by (cases "ukey u \<le> m") auto
  have g3: "good C 0 X3 lo' hi' p" by (rule fgoodD [OF top_okD(3) [OF top3] fm])
  then show "bleaf_ok C lp" using X3p by (auto simp: good_def)
  have X4: "X3(p \<mapsto> (BeLeaf (fold leaf_apply [u] lp), [])) = X'"
    using pages by (auto simp: X'_def X3_def X2_def X0_def p_def lp_def not_le)
  have "evolves C 0 X3 X' lo' hi' p" unfolding X4 [symmetric] by (rule leaf_evolves [where X = X3, OF X3p g3 fp])
  note e = top_evolves_one [OF top3 fm this]
  show "top_ok C 0 X' R n" by (rule e(1))
  have t4: "look 0 X' key (target n key) = look 0 X0 key q" "stamps 0 X' key (target n key) \<subseteq> stamps 0 X0 key q"
    using e(2) look3 [of key] unfolding top_same_def same_at_def by (simp, blast)
  show "look 0 X' key (target n key) = ((map_of (leaf_kvs l))(ukey u \<mapsto> uval u)) key"
    unfolding t4(1) using at u by (simp add: look_def)
  have "stamps 0 X0 key q \<subseteq> {timeStamp u}" using at by (simp add: stamps_def)
  then show "stamps 0 X' key (target n key) \<subseteq> {timeStamp u}" using t4(2) by blast
qed

lemma first_split_run:
  assumes s: "xst s nd {R} N" and R: "nd R = Some (BeLeaf l)" and l: "bleaf_ok C l" and C: "be_config_ok C"
    and u: "utype u = INSERT" "ukey u \<notin> set (leaf_keys l)" and full: "lsize l = LEAF_N C" and N: "3 \<le> N"
  shows "\<exists>s' X' n'. handleRootLeafUpsert C u R rl s = Inr (False, s') \<and> xst s' (nds X') {} N \<and> noisy X' = {} \<and>
           top_ok C 0 X' R n' \<and> (\<forall>key. look 0 X' key (target n' key) = ((map_of (leaf_kvs l))(ukey u \<mapsto> uval u)) key) \<and>
           (\<forall>key. stamps 0 X' key (target n' key) \<subseteq> {timeStamp u})"
proof -
  have cfg: "config_ok C" "0 < ROOT_N C" using C by (auto simp: be_config_ok_def intro: gr0I)
  note k = leaf_okD [OF l] and f = leaf_found [OF l refl, of "ukey u"]
  define i m where "i = lower_bound (keys l) (lsize l) (ukey u)" and "m = leaf_median (leaf_keys l) [ukey u]"
  define L Rt where "L = bleaf_left m l" and "Rt = bleaf_right C m l"
  have get: "be_leaf_at R s = Inr l" by (rule be_leaf_run [OF s _ R]) simp
  have l2: "2 \<le> lsize l" using full config_okD(1) [OF cfg(1)] by simp
  obtain r s1 where r: "be_splitLeafNode C R m s = Inr (r, m, s1)" "r \<notin> dom nd" "r \<notin> {R}"
      "xst s1 (nd(r \<mapsto> BeLeaf Rt, R \<mapsto> BeLeaf L)) (insert r {R}) N"
    using be_splitLeafNode_run [OF s _ R l2, of C m] N unfolding L_def Rt_def by auto
  let ?nd1 = "nd(r \<mapsto> BeLeaf Rt, R \<mapsto> BeLeaf L)"
  have c1: "card (insert r {R}) < N" using r(3) N by simp
  obtain q n s2 where q: "grow_be_root C R r m s1 = Inr (q, s2)" "q \<notin> dom ?nd1" "q \<notin> insert r {R}" "be_root_ok C n"
      "rseps n = [m]" "rkids n = [q, r]" "xst s2 (?nd1(q \<mapsto> BeLeaf L, R \<mapsto> BeRoot n)) (insert q (insert r {R} - {R})) N"
    using grow_run [OF r(4) _ _ c1 cfg(2), of R "BeLeaf L" r m] by auto
  define p p' lp where "p = (if ukey u \<le> m then q else r)" and "p' = (if ukey u \<le> m then r else q)"
    and "lp = (if ukey u \<le> m then L else Rt)"
  define X' :: "('a, 'b) be_state" where "X' = (plain nd)(r \<mapsto> (BeLeaf Rt, []), q \<mapsto> (BeLeaf L, []), R \<mapsto> (BeRoot n, []),
      p \<mapsto> (BeLeaf (leaf_apply u lp), []))"
  have pages: "distinct [q, r, R]" and out: "r \<notin> dom nd" "q \<notin> dom nd" using q(2,3) r(2,3) by auto
  note st = first_split_state [OF l cfg(1) u(1) full m_def pages q(4-6) p_def lp_def [unfolded L_def Rt_def]
      X'_def [unfolded L_def Rt_def] out]
  let ?nd2 = "?nd1(q \<mapsto> BeLeaf L, R \<mapsto> BeRoot n)"
  have S: "insert q (insert r {R} - {R}) = {q, r}" using pages by auto
  note s2 = q(7) [unfolded S]
  have getq: "be_leaf_at q s2 = Inr L" by (rule be_leaf_run [OF s2]) (use pages in auto)
  have "p' \<in> {q, r}" by (simp add: p'_def)
  from xst_unpin [OF s2 this] obtain s3 where s3: "ps_unpin True p' s2 = Inr s3" "xst s3 ?nd2 ({q, r} - {p'}) N" by blast
  have S3: "{q, r} - {p'} = {p}" using pages by (auto simp: p_def p'_def)
  have np: "?nd2 p = Some (BeLeaf lp)" using pages by (auto simp: p_def lp_def)
  have absent: "ukey u \<notin> set (leaf_keys lp)"
    using u(2) bleaf_split_ok(3,4) [OF l refl, of m] by (auto simp: lp_def L_def Rt_def)
  have room: "lsize lp < LEAF_N C"
    using st(7) absent u(1) leaf_card [OF st(6) [folded L_def Rt_def, folded lp_def]] by (simp add: lp_def L_def Rt_def)
  have lpok: "bleaf_ok C lp" using st(6) by (simp add: lp_def L_def Rt_def)
  let ?j = "lower_bound (keys lp) (lsize lp) (ukey u)"
  from put_in_half_run [OF s3(2) [unfolded S3] singletonI np lpok u(1) absent room]
  obtain s4 where s4: "put_in_split_root p ?j (ukey u) (uval u) s3 = Inr s4"
      "xst s4 (?nd2(p \<mapsto> BeLeaf (leaf_apply u lp))) ({p} - {p}) N" by blast
  have j: "?j = (if ukey u \<le> m then i else i - lsize L)"
    using split_index [OF l i_def, of m] not_le_imp_less [of "ukey u" m]
    by (cases "ukey u \<le> m") (simp_all add: lp_def L_def Rt_def)
  have notfound: "\<not> (i < lsize l \<and> keys l ! i = ukey u)" using f(2) u(2) unfolding i_def by blast
  have run: "handleRootLeafUpsert C u R rl s = Inr (False, s4)"
    using get u(1) notfound full k(1) st(4) r(1) q(1) getq s3(1) s4(1) j i_def [symmetric]
    by (cases "ukey u \<le> m") (auto simp: handleRootLeafUpsert_def Let_def p_def p'_def)
  have nds: "nds X' = ?nd2(p \<mapsto> BeLeaf (leaf_apply u lp))"
    using pages by (auto simp: X'_def p_def)
  have quiet: "noisy X' = {}" by (auto simp: X'_def noisy_def)
  show ?thesis using run s4(2) quiet st(1-3) nds by (intro exI [of _ s4] exI [of _ X'] exI [of _ n]) simp
qed

text \<open>Without a split a root leaf takes the message like any other leaf.\<close>

lemma root_leaf_as_leaf:
  assumes get: "be_leaf_at R s = Inr l" and l: "bleaf_ok C l" and u: "valid_upsert u"
    and keep: "\<not> (utype u = INSERT \<and> ukey u \<notin> set (leaf_keys l) \<and> lsize l = LEAF_N C)"
  shows "handleRootLeafUpsert C u R rl s = bindE (upsert_leaf R u s) (\<lambda>s1. Inr (rl, s1))"
proof -
  let ?i = "lower_bound (keys l) (lsize l) (ukey u)"
  note k = leaf_okD [OF l] and f = leaf_found(2) [OF l refl, of "ukey u"]
  show ?thesis
  proof (cases "utype u")
    case INSERT
    show ?thesis
    proof (cases "?i < lsize l \<and> keys l ! ?i = ukey u")
      case True
      then show ?thesis using INSERT get
        by (simp add: handleRootLeafUpsert_def upsert_leaf_def insert_in_leaf_def Let_def bindE_assoc)
    next
      case False
      then have "ukey u \<notin> set (leaf_keys l)" using f by blast
      then have "lsize l < LEAF_N C" using keep INSERT k(3) by simp
      then show ?thesis using INSERT False get k(1)
        by (auto simp: handleRootLeafUpsert_def upsert_leaf_def insert_in_leaf_def put_in_split_root_def Let_def bindE_assoc
            simp del: bindE_eq_Inr)
    qed
  next
    case DELETE
    then show ?thesis using get by (simp add: handleRootLeafUpsert_def upsert_leaf_def)
  next
    case UPDATE
    then show ?thesis using get by (simp add: handleRootLeafUpsert_def upsert_leaf_def)
  next
    case INVALID
    then show ?thesis using u by (simp add: valid_upsert_def)
  qed
qed

lemma root_leaf_upsert_ok:
  fixes t :: "('k::linorder, 'v::semigroup_add) be_tree"
  assumes s: "st (bePages t) nd no_locks {} N" and R: "nd (beRootID t) = Some (BeLeaf l)" "beRootLeaf t"
    and l: "bleaf_ok C l" and C: "be_config_ok C" and u: "valid_upsert u" and N: "3 \<le> N"
  shows "\<exists>s' rl. be_upsert C fuel u t = Inr (t\<lparr>bePages := s', beRootLeaf := rl\<rparr>) \<and>
           be_core C 0 (timeStamp u) (t\<lparr>bePages := s', beRootLeaf := rl\<rparr>) \<and> slots s' = N \<and>
           be_content 0 (t\<lparr>bePages := s', beRootLeaf := rl\<rparr>) =
             (map_of (leaf_kvs l))(ukey u := effect u (map_of (leaf_kvs l) (ukey u)))"
proof -
  let ?R = "beRootID t"
  obtain s1 where s1: "ps_pin False (\<lambda>_. True) ?R (bePages t) = Inr s1" "st s1 nd (no_locks(?R := Exclusive)) {} N"
    using st_pin [OF s R(1), of "\<lambda>_. True"] N by (auto simp: lock_mode_def)
  have get: "ps_get ?R s1 = Inr (BeLeaf l)" using st_get [OF s1(2) R(1)] by simp
  then have getl: "be_leaf_at ?R s1 = Inr l" by (simp add: be_leaf_at_def)
  have run: "be_upsert C fuel u t = Inr (t\<lparr>bePages := s2, beRootLeaf := rl\<rparr>)"
    if "handleRootLeafUpsert C u ?R True s1 = Inr (rl, s2)" for rl s2
    using s1(1) get R(2) that by (simp add: be_upsert_def)
  show ?thesis
  proof (cases "utype u = INSERT \<and> ukey u \<notin> set (leaf_keys l) \<and> lsize l = LEAF_N C")
    case True
    obtain s2 X' n' where r: "handleRootLeafUpsert C u ?R True s1 = Inr (False, s2)" "xst s2 (nds X') {} N" "noisy X' = {}"
        "top_ok C 0 X' ?R n'" "\<forall>key. look 0 X' key (target n' key) = ((map_of (leaf_kvs l))(ukey u \<mapsto> uval u)) key"
        "\<forall>key. stamps 0 X' key (target n' key) \<subseteq> {timeStamp u}"
      using first_split_run [OF st_xst_one [OF s1(2)] R(1) l C _ _ _ N, of u True] True by auto
    have ts: "\<forall>key. \<forall>s \<in> stamps 0 X' key (target n' key). s \<le> timeStamp u" using r(6) by blast
    note c = be_rootI [of "t\<lparr>bePages := s2, beRootLeaf := False\<rparr>" X' N C 0 n' "timeStamp u", simplified,
        OF xst_done [OF r(2)] r(3,4) ts]
    have "be_content 0 (t\<lparr>bePages := s2, beRootLeaf := False\<rparr>) = (map_of (leaf_kvs l))(ukey u := effect u (map_of (leaf_kvs l) (ukey u)))"
      unfolding c(2) using r(5) True by auto
    then show ?thesis using run [OF r(1)] c(1,3) by blast
  next
    case False
    have card: "card (set (leaf_keys l)) = lsize l" by (rule leaf_card [OF l])
    have room: "card (key_step u (set (leaf_keys l))) \<le> LEAF_N C"
      using False leaf_okD(3) [OF l] card card_Diff1_le [of "set (leaf_keys l)" "ukey u"]
      by (cases "utype u") (auto simp: card_insert_if)
    obtain s2 where s2: "upsert_leaf ?R u s1 = Inr s2"
        "st s2 (nd(?R \<mapsto> BeLeaf (leaf_apply u l))) (no_locks(?R := Exclusive, ?R := Unlocked)) ({} - {?R}) N"
      using upsert_leaf_run [OF s1(2) _ R(1) l room u] by auto
    have r: "handleRootLeafUpsert C u ?R True s1 = Inr (True, s2)"
      using root_leaf_as_leaf [OF getl l u False] s2(1) by simp
    note a = leaf_apply_ok [OF l room]
    have at: "(nd(?R \<mapsto> BeLeaf (leaf_apply u l))) ?R = Some (BeLeaf (leaf_apply u l))" by simp
    have st2: "st s2 (nd(?R \<mapsto> BeLeaf (leaf_apply u l))) no_locks {} N" using s2(2) by simp
    note c = be_leafI [of "t\<lparr>bePages := s2, beRootLeaf := True\<rparr>", simplified, OF st2 at a(1)]
    show ?thesis using run [OF r] c a(2) by (intro exI [of _ s2] exI [of _ True]) simp
  qed
qed

section \<open>Messages\<close>

text \<open>
  A message for any tree in order. An insert of the value that the key has already is left out: on
  a full leaf it splits the leaf and then takes a page that it has changed for unchanged.
\<close>

lemma be_upsert_ok:
  fixes t :: "('k::linorder, 'v::semigroup_add) be_tree"
  assumes inv: "be_core C h stamp t" and ts: "stamp < timeStamp u" and C: "be_config_ok C" and u: "valid_upsert u"
    and new: "utype u = INSERT \<longrightarrow> be_content h t (ukey u) \<noteq> Some (uval u)"
    and N: "be_bound C h \<le> slots (bePages t)" "be_bound C h \<le> fuel"
  shows "\<exists>s' rl h'. be_upsert C fuel u t = Inr (t\<lparr>bePages := s', beRootLeaf := rl\<rparr>) \<and> h' \<le> Suc h \<and>
           be_core C h' (timeStamp u) (t\<lparr>bePages := s', beRootLeaf := rl\<rparr>) \<and> slots s' = slots (bePages t) \<and>
           be_content h' (t\<lparr>bePages := s', beRootLeaf := rl\<rparr>) =
             (be_content h t)(ukey u := effect u (be_content h t (ukey u)))"
  using inv
proof (cases rule: be_core_cases)
  case (leaf l)
  show ?thesis
    using root_leaf_upsert_ok [OF leaf(1-4) C u be_boundD(3) [OF N(1)], of fuel] leaf(5) by auto
next
  case (root X n)
  have new': "utype u = INSERT \<longrightarrow> look h X (ukey u) (target n (ukey u)) \<noteq> Some (uval u)" using new root(8) by simp
  obtain s' h' where r: "be_upsert C fuel u t = Inr (t\<lparr>bePages := s'\<rparr>)" "h' \<le> Suc h"
      "be_core C h' (timeStamp u) (t\<lparr>bePages := s'\<rparr>)" "slots s' = slots (bePages t)"
      "be_content h' (t\<lparr>bePages := s'\<rparr>) =
         (\<lambda>key. if key = ukey u then effect u (look h X key (target n key)) else look h X key (target n key))"
    using root_node_upsert [where X = X, OF root(1,3,4,5,6,7) ts C u new' N] by blast
  have e: "t\<lparr>bePages := s', beRootLeaf := False\<rparr> = t\<lparr>bePages := s'\<rparr>" using root(5) by (cases t) simp
  have c: "be_content h' (t\<lparr>bePages := s'\<rparr>) = (be_content h t)(ukey u := effect u (be_content h t (ukey u)))"
    unfolding r(5) root(8) by (auto simp: fun_eq_iff)
  show ?thesis
    by (intro exI [of _ s'] exI [of _ False] exI [of _ h'], unfold e) (intro conjI r(1-4) c)
qed

end
