(* ===== verification/BeFind.thy ===== *)
theory BeFind
  imports BeMap
begin

text \<open>
  \<open>find\<close>: what the descent collects on the way to a leaf is the trail of the key, and adding the
  updates to the value gives the value of the map. The one exception are updates of a key that is
  nowhere: the code then fails an assertion where the map has no value.
\<close>

section \<open>The messages on the path\<close>

text \<open>The trail from the newest message on, until a message settles the value.\<close>

fun read_trail :: "('k, 'v) upsert list \<Rightarrow> 'v option \<Rightarrow> 'v list \<Rightarrow> 'v list \<times> 'v option" where
  "read_trail [] b acc = (acc, b)"
| "read_trail (u # us) b acc =
     (case utype u of
        INSERT \<Rightarrow> (acc, Some (uval u))
      | DELETE \<Rightarrow> ([], None)
      | UPDATE \<Rightarrow> read_trail us b (uval u # acc)
      | INVALID \<Rightarrow> read_trail us b acc)"

definition add_all :: "'v::plus list \<Rightarrow> 'v option \<Rightarrow> 'v option" where
  "add_all acc y = fold (\<lambda>x. map_option (\<lambda>v. v + x)) acc y"

lemma add_all_simps [simp]:
  "add_all [] y = y" "add_all (x # acc) y = add_all acc (map_option (\<lambda>v. v + x) y)" "add_all acc None = None"
proof -
  show "add_all acc None = None" by (induction acc) (simp_all add: add_all_def)
qed (simp_all add: add_all_def)

lemma read_trail_value:
  "add_all (fst (read_trail us b acc)) (snd (read_trail us b acc)) = add_all acc (foldr effect us b)"
  by (induction us arbitrary: acc) (auto split: upsert_type.splits)

lemma add_updates_eq:
  "add_updates acc y = (if acc \<noteq> [] \<and> y = None then Inl AssertFailed else Inr (add_all acc y))"
proof (induction acc arbitrary: y)
  case (Cons x acc)
  then show ?case by (cases y) (simp_all add: check_def)
qed simp

text \<open>Updates of a key that has no value below them.\<close>

definition dangling :: "('k, 'v) upsert list \<Rightarrow> 'v option \<Rightarrow> bool" where
  "dangling us b \<longleftrightarrow> us \<noteq> [] \<and> (\<forall>u \<in> set us. utype u = UPDATE) \<and> b = None"

lemma read_trail_dangling:
  assumes "\<forall>u \<in> set us. valid_upsert u"
  shows "fst (read_trail us b acc) \<noteq> [] \<and> snd (read_trail us b acc) = None \<longleftrightarrow>
    (us \<noteq> [] \<or> acc \<noteq> []) \<and> (\<forall>u \<in> set us. utype u = UPDATE) \<and> b = None"
  using assms
  by (induction us arbitrary: acc) (auto simp: valid_upsert_def split: upsert_type.splits)

lemma add_updates_trail:
  fixes b :: "'v::plus option"
  assumes "\<forall>u \<in> set us. valid_upsert u"
  shows "add_updates (fst (read_trail us b [])) (snd (read_trail us b [])) =
    (if dangling us b then Inl AssertFailed else Inr (foldr effect us b))"
  unfolding add_updates_eq read_trail_value
  using read_trail_dangling [OF assms, of b "[]"] by (simp add: dangling_def)

section \<open>The descent\<close>

lemma key_block:
  assumes "be_inner_ok C n" "i = lower_bound (map ukey (upserts (ubuf n))) (usize (ubuf n)) key"
  shows "takeWhile (\<lambda>u. ukey u = key) (drop i (take (usize (ubuf n)) (upserts (ubuf n)))) = msgs_for key (bmsgs n)"
proof -
  note i = buffer_found(1) [OF assms]
  have "takeWhile (\<lambda>u. ukey u = key) (drop (length (takeWhile (\<lambda>k. k < key) (map ukey us))) us) = msgs_for key us"
    if "upserts_ok us" for us :: "('a, 'b) upsert list"
    using that
  proof (induction us)
    case (Cons u us)
    note c = Cons.prems [unfolded upserts_ok_Cons]
    consider "ukey u < key" | "ukey u = key" | "key < ukey u" by fastforce
    then show ?case
    proof cases
      case 1
      then show ?thesis using Cons.IH c by simp
    next
      case 2
      then have ne: "\<forall>v \<in> set us. ukey v \<noteq> key" using c by auto
      have "msgs_for key us = []" unfolding msgs_for_def filter_empty_conv using ne by blast
      moreover have "takeWhile (\<lambda>u. ukey u = key) us = []" using ne by (cases us) auto
      ultimately show ?thesis using 2 by simp
    next
      case 3
      then have "\<forall>v \<in> set (u # us). ukey v \<noteq> key" using c by (metis less_irrefl less_trans set_ConsD)
      then have "msgs_for key (u # us) = []" unfolding msgs_for_def filter_empty_conv by blast
      then show ?thesis using 3 by simp
    qed
  qed simp
  then show ?thesis using be_inner_okD(9) [OF assms(1)] unfolding i bmsgs_def [symmetric] by blast
qed

lemma find_loop_run:
  fixes X :: "('k::linorder, 'v::plus) be_state"
  assumes "good C h X lo hi i" "within lo hi key" "noisy X = {}" "st s (nds X) (no_locks(i := Shared 1)) {} N" "2 \<le> N"
    "h < fuel"
  shows "\<exists>page a y s'. find_loop fuel key i acc s = Inr (page, a, y, s') \<and>
    (case page of
       None \<Rightarrow> st s' (nds X) no_locks {} N \<and> (\<forall>b. read_trail (trail h X key i) b acc = (a, y))
     | Some p \<Rightarrow> st s' (nds X) (no_locks(p := Shared 1)) {} N \<and> y = None \<and>
         (\<exists>l. X p = Some (BeLeaf l, []) \<and> bleaf_ok C l \<and> base h X key i = map_of (leaf_kvs l) key) \<and>
         (\<forall>b. read_trail (trail h X key i) b acc = (a, b)))"
  using assms
proof (induction h arbitrary: lo hi i s acc fuel)
  case 0
  obtain l b where l: "X i = Some (BeLeaf l, b)" "bleaf_ok C l" using 0(1) by (auto simp: good_def)
  have b: "b = []" by (rule quiet_inbox [where X = X, OF 0(3) l(1)])
  obtain f where f: "fuel = Suc f" using 0(6) by (cases fuel) auto
  have "ps_get i s = Inr (BeLeaf l)" using st_get [OF 0(4) nds_at [where X = X, OF l(1)]] by simp
  then have "find_loop fuel key i acc s = Inr (Some i, acc, None, s)" by (simp add: f)
  moreover have "trail 0 X key i = []" using l(1) b by simp
  ultimately show ?case using 0(4) l b by (intro exI [of _ "Some i"] exI [of _ acc] exI [of _ None] exI [of _ s]) (simp del: fun_upd_apply)
next
  case (Suc h)
  obtain n b where n: "X i = Some (BeInner n, b)" using Suc.prems(1) by (auto simp: good_def)
  have b: "b = []" by (rule quiet_inbox [where X = X, OF Suc.prems(3) n])
  note k = good_kids [where X = X, OF Suc.prems(1) n]
  note z = be_inner_okD [OF k(3)]
  obtain f where f: "fuel = Suc f" using Suc.prems(6) by (cases fuel) auto
  let ?c = "bkids n ! route (bseps n) key"
  let ?first = "lower_bound (map ukey (upserts (ubuf n))) (usize (ubuf n)) key"
  have get: "ps_get i s = Inr (BeInner n)" using st_get [OF Suc.prems(4) nds_at [where X = X, OF n]] by simp
  note blk = key_block [OF k(3) refl, of key]
  have tr: "trail (Suc h) X key i = msgs_for key (bmsgs n) @ trail h X key ?c" "base (Suc h) X key i = base h X key ?c"
    using trail_inner [where X = X and i = i, OF n] b by simp_all
  have valid: "valid_upsert u" if "u \<in> set (msgs_for key (bmsgs n))" for u
    using that z(9) by (simp add: msgs_for_set upserts_ok_def)
  have ch: "ichildren n ! lower_bound (ipivots n) (innsize n) key = ?c"
    using z(11) [OF kid_in(3) [OF k(3), of key]] z(12) [of key] by simp
  have stop: "\<exists>s'. ps_unpin False i s = Inr s' \<and> st s' (nds X) no_locks {} N"
    using st_unpin_last [OF Suc.prems(4)] by auto
  have descend: ?case
    if step: "\<And>s1 s2. ps_pin False (\<lambda>_. False) ?c s = Inr s1 \<Longrightarrow> ps_unpin False i s1 = Inr s2 \<Longrightarrow>
        find_loop fuel key i acc s = find_loop f key ?c acc' s2"
      and read: "\<And>b. read_trail (trail (Suc h) X key i) b acc = read_trail (trail h X key ?c) b acc'" for acc'
  proof -
    note kb = kid_bounds(1) [where h = h, OF k(3) Suc.prems(2)] kid_bounds(2) [OF k(3) Suc.prems(2)]
    note g = fgoodD [OF k(1) kb(1)]
    obtain y b' where y: "X ?c = Some (y, b')" using be_ok_at [of C h X] g unfolding good_def by blast
    have ci: "?c \<noteq> i" using distinct_kids(2) [where X = X, OF Suc.prems(1) n] kid_in(2) [OF k(3), of key] by auto
    have "held_of (no_locks(i := Shared 1)) = {i}" by (auto simp: held_of_def)
    then have held: "card (held_of (no_locks(i := Shared 1))) < N" using Suc.prems(5) by simp
    have free: "(no_locks(i := Shared 1)) ?c = Unlocked" using ci by simp
    obtain s1 where s1: "ps_pin False (\<lambda>_. False) ?c s = Inr s1" "st s1 (nds X) (no_locks(i := Shared 1, ?c := Shared 1)) {} N"
      using st_pin [OF Suc.prems(4) nds_at [where X = X, OF y] free held, of "\<lambda>_. False"]
      by (auto simp: lock_mode_def simp del: fun_upd_apply)
    obtain s2 where s2: "ps_unpin False i s1 = Inr s2" "st s2 (nds X) (no_locks(i := Shared 1, ?c := Shared 1, i := Unlocked)) {} N"
      using st_unpin [OF s1(2), of i False] ci by auto
    have "(no_locks(i := Shared 1, ?c := Shared 1, i := Unlocked)) = no_locks(?c := Shared 1)" using ci by auto
    then have s2': "st s2 (nds X) (no_locks(?c := Shared 1)) {} N" using s2(2) by simp
    have "h < f" using Suc.prems(6) f by simp
    from Suc.IH [OF g kb(2) Suc.prems(3) s2' Suc.prems(5) this, of acc']
    show ?thesis unfolding step [OF s1(1) s2(1)] read tr(2) .
  qed
  show ?case
  proof (cases "msgs_for key (bmsgs n)")
    case Nil
    show ?thesis
      by (rule descend [of acc]) (use get blk Nil ch tr(1) in \<open>simp_all add: f Let_def\<close>)
  next
    case (Cons u us)
    then have one: "msgs_for key (bmsgs n) = [u]" using one_message [OF z(9), of key] by simp
    have v: "valid_upsert u" using valid one by simp
    show ?thesis
    proof (cases "utype u")
      case UPDATE
      show ?thesis
        by (rule descend [of "uval u # acc"]) (use get blk one ch tr(1) UPDATE in \<open>simp_all add: f Let_def\<close>)
    next
      case INSERT
      obtain s' where s': "ps_unpin False i s = Inr s'" "st s' (nds X) no_locks {} N" using stop by blast
      have "find_loop fuel key i acc s = Inr (None, acc, Some (uval u), s')"
        using get blk one INSERT s'(1) by (simp add: f Let_def)
      then show ?thesis using s'(2) one INSERT tr(1) by simp
    next
      case DELETE
      obtain s' where s': "ps_unpin False i s = Inr s'" "st s' (nds X) no_locks {} N" using stop by blast
      have "find_loop fuel key i acc s = Inr (None, [], None, s')"
        using get blk one DELETE s'(1) by (simp add: f Let_def)
      then show ?thesis using s'(2) one DELETE tr(1) by simp
    next
      case INVALID
      then show ?thesis using v by (simp add: valid_upsert_def)
    qed
  qed
qed

section \<open>Find\<close>

lemma trail_valid: "be_ok C h X lo hi i \<Longrightarrow> u \<in> set (trail h X key i) \<Longrightarrow> valid_upsert u"
proof (induction h arbitrary: lo hi i)
  case 0
  then show ?case by (auto simp: inbox_def inbox_ok_def upserts_ok_def msgs_for_set)
next
  case (Suc h)
  obtain n b where n: "X i = Some (BeInner n, b)" using Suc.prems(1) by auto
  note o = be_ok_inner [OF Suc.prems(1) n]
  have "u \<in> set (msgs_for key b) \<or> u \<in> set (msgs_for key (bmsgs n)) \<or> u \<in> set (trail h X key (bkids n ! route (bseps n) key))"
    using Suc.prems(2) n by simp
  moreover have "valid_upsert u" if "u \<in> set (trail h X key (bkids n ! route (bseps n) key))"
    by (rule Suc.IH [OF o(5) [OF kid_in(3) [OF o(1)]] that])
  ultimately show ?case
    using o(4) be_inner_okD(9) [OF o(1)] by (auto simp: msgs_for_set inbox_ok_def upserts_ok_def)
qed

definition be_dangling :: "nat \<Rightarrow> ('k::linorder, 'v) be_tree \<Rightarrow> 'k \<Rightarrow> bool" where
  "be_dangling h t key \<longleftrightarrow>
     (case nodes (bePages t) (beRootID t) of
        Some (BeRoot n) \<Rightarrow>
          dangling (trail h (plain (nodes (bePages t))) key (target n key)) (base h (plain (nodes (bePages t))) key (target n key))
      | _ \<Rightarrow> False)"

lemma be_same_nodes:
  assumes "st s' (nodes (bePages t)) no_locks {} (slots (bePages t))" "be_core C h stamp t"
  shows "be_core C h stamp (t\<lparr>bePages := s'\<rparr>)" "be_content h (t\<lparr>bePages := s'\<rparr>) = be_content h t"
    "slots s' = slots (bePages t)"
proof -
  have n: "nodes s' = nodes (bePages t)" and sl: "slots s' = slots (bePages t)" using assms(1) by (simp_all add: st_def)
  have e: "bePages (t\<lparr>bePages := s'\<rparr>) = s'" "beRootID (t\<lparr>bePages := s'\<rparr>) = beRootID t"
    "beRootLeaf (t\<lparr>bePages := s'\<rparr>) = beRootLeaf t" by simp_all
  show "be_core C h stamp (t\<lparr>bePages := s'\<rparr>)"
    unfolding be_core_def e n sl using assms(1) assms(2) [unfolded be_core_def] by blast
  show "be_content h (t\<lparr>bePages := s'\<rparr>) = be_content h t" unfolding be_content_def e n ..
  show "slots s' = slots (bePages t)" by (rule sl)
qed

lemma be_find_run:
  fixes t :: "('k::linorder, 'v::plus) be_tree"
  assumes inv: "be_core C h stamp t" and root: "\<not> beRootLeaf t" and N: "2 \<le> slots (bePages t)" "h < fuel"
  shows "\<exists>s'. be_find C fuel key t =
             (if be_dangling h t key then Inl AssertFailed else Inr (be_content h t key, t\<lparr>bePages := s'\<rparr>)) \<and>
           be_core C h stamp (t\<lparr>bePages := s'\<rparr>) \<and> be_content h (t\<lparr>bePages := s'\<rparr>) = be_content h t \<and>
           slots s' = slots (bePages t)"
  using inv
proof (cases rule: be_core_cases)
  case (leaf l)
  then show ?thesis using root by simp
next
  case (root X n)
  let ?R = "beRootID t" and ?c = "target n key" and ?N = "slots (bePages t)"
  note k = top_okD [OF root(6)]
  note z = be_root_okD [OF k(2)]
  have X: "plain (nodes (bePages t)) = X"
  proof
    fix i show "plain (nodes (bePages t)) i = X i"
      unfolding root(2) using quiet_inbox [where X = X, OF root(3), of i] by (cases "X i") (auto simp: plain_def nds_def)
  qed
  have lo1: "lock_mode False = Shared 1" by (simp add: lock_mode_def)
  have N0: "card (held_of no_locks) < ?N" using N(1) by simp
  obtain s1 where s1: "ps_pin False (\<lambda>_. False) ?R (bePages t) = Inr s1" "st s1 (nds X) (no_locks(?R := Shared 1)) {} ?N"
    using st_pin [OF root(1,4) _ N0, of "\<lambda>_. False"] unfolding lo1 by auto
  have get: "ps_get ?R s1 = Inr (BeRoot n)" using st_get [OF s1(2) root(4)] by simp
  note g = target_good(1) [OF root(6), of key] and cd = target_good(2,3) [OF root(6), of key]
  obtain y b' where y: "X ?c = Some (y, b')" using cd(1) by auto
  have "held_of (no_locks(?R := Shared 1)) = {?R}" by (auto simp: held_of_def)
  then have held: "card (held_of (no_locks(?R := Shared 1))) < ?N" using N(1) by simp
  have free: "(no_locks(?R := Shared 1)) ?c = Unlocked" using cd(2) by simp
  obtain s2 where s2: "ps_pin False (\<lambda>_. False) ?c s1 = Inr s2" "st s2 (nds X) (no_locks(?R := Shared 1, ?c := Shared 1)) {} ?N"
    using st_pin [OF s1(2) nds_at [where X = X, OF y] free held, of "\<lambda>_. False"] unfolding lo1 by auto
  obtain s3 where s3: "ps_unpin False ?R s2 = Inr s3" "st s3 (nds X) (no_locks(?R := Shared 1, ?c := Shared 1, ?R := Unlocked)) {} ?N"
    using st_unpin [OF s2(2), of ?R False] cd(2) by auto
  have "(no_locks(?R := Shared 1, ?c := Shared 1, ?R := Unlocked)) = no_locks(?c := Shared 1)" using cd(2) by auto
  then have s3': "st s3 (nds X) (no_locks(?c := Shared 1)) {} ?N" using s3(2) by simp
  let ?t = "trail h X key ?c" and ?b = "base h X key ?c"
  obtain page a v s4 where L: "find_loop fuel key ?c [] s3 = Inr (page, a, v, s4)"
      "case page of
         None \<Rightarrow> st s4 (nds X) no_locks {} ?N \<and> (\<forall>b. read_trail ?t b [] = (a, v))
       | Some p \<Rightarrow> st s4 (nds X) (no_locks(p := Shared 1)) {} ?N \<and> v = None \<and>
           (\<exists>l. X p = Some (BeLeaf l, []) \<and> bleaf_ok C l \<and> ?b = map_of (leaf_kvs l) key) \<and>
           (\<forall>b. read_trail ?t b [] = (a, b))"
    using find_loop_run [where X = X, OF g target_family(2) [OF k(2)] root(3) s3' N, of "[]"] by (elim exE conjE) rule
  have ch: "rchildren n ! lower_bound (rpivots n) (rsize n) key = ?c"
    using z(7) [OF z(8)] z(9) by (simp add: target_def)
  have start: "be_find C fuel key t =
      bindE (case page of
               None \<Rightarrow> Inr (v, s4)
             | Some p \<Rightarrow>
                 bindE (be_leaf_at p s4) (\<lambda>leafNode.
                 let index = lower_bound (keys leafNode) (lsize leafNode) key;
                     value = (if v = None \<and> index < lsize leafNode \<and> keys leafNode ! index = key
                              then Some (vals leafNode ! index) else v)
                 in bindE (ps_unpin False p s4) (\<lambda>s5. Inr (value, s5)))) (\<lambda>(value, s5).
      bindE (add_updates a value) (\<lambda>value'. Inr (value', t\<lparr>bePages := s5\<rparr>)))"
    using s1(1) get s2(1) s3(1) L(1) by (simp add: be_find_def ch Let_def cong: option.case_cong)
  obtain s5 where s5: "be_find C fuel key t = bindE (add_updates (fst (read_trail ?t ?b [])) (snd (read_trail ?t ?b [])))
        (\<lambda>value'. Inr (value', t\<lparr>bePages := s5\<rparr>))" "st s5 (nds X) no_locks {} ?N"
  proof (cases page)
    case None
    have r: "read_trail ?t ?b [] = (a, v)" "st s4 (nds X) no_locks {} ?N" using L(2) None by simp_all
    show ?thesis by (rule that [of s4]) (simp_all add: start None r)
  next
    case (Some p)
    obtain l where l: "X p = Some (BeLeaf l, [])" "bleaf_ok C l" "?b = map_of (leaf_kvs l) key"
        "st s4 (nds X) (no_locks(p := Shared 1)) {} ?N" "v = None" "read_trail ?t ?b [] = (a, ?b)"
      using L(2) Some by auto
    obtain s5 where s5: "ps_unpin False p s4 = Inr s5" "st s5 (nds X) no_locks {} ?N"
      using st_unpin_last [OF l(4)] by auto
    have getl: "be_leaf_at p s4 = Inr l" using st_get [OF l(4) nds_at [where X = X, OF l(1)]] by (simp add: be_leaf_at_def)
    note f = leaf_found(2) [OF l(2) refl, of key]
    let ?i = "lower_bound (keys l) (lsize l) key"
    have val: "(if v = None \<and> ?i < lsize l \<and> keys l ! ?i = key then Some (vals l ! ?i) else v) = ?b"
    proof (cases "?i < lsize l \<and> keys l ! ?i = key")
      case True
      then have "map_of (leaf_kvs l) key = Some (vals l ! ?i)" by (intro leaf_lookup [OF l(2)]) simp_all
      then show ?thesis using True l(3,5) by simp
    next
      case False
      then have "key \<notin> dom (map_of (leaf_kvs l))" using f leaf_dom [OF l(2)] by blast
      then show ?thesis using False l(3,5) by auto
    qed
    show ?thesis
      by (rule that [OF _ s5(2)]) (simp only: start Some option.case getl bindE.simps Let_def val s5(1) l(6) fst_conv snd_conv prod.case)
  qed
  have valid: "\<forall>u \<in> set ?t. valid_upsert u" using trail_valid g unfolding good_def by blast
  have d: "be_dangling h t key \<longleftrightarrow> dangling ?t ?b"
    using root(4) by (simp add: be_dangling_def root(2) X [unfolded root(2)])
  have c: "be_content h t key = foldr effect ?t ?b" unfolding root(8) look_def ..
  have "be_find C fuel key t = (if be_dangling h t key then Inl AssertFailed else Inr (be_content h t key, t\<lparr>bePages := s5\<rparr>))"
    unfolding s5(1) add_updates_trail [OF valid] d c by simp
  then show ?thesis using be_same_nodes [OF s5(2) [folded root(2)] inv] by blast
qed

text \<open>A tree with a root leaf answers every lookup with no value.\<close>

lemma be_find_leaf:
  assumes inv: "be_core C h stamp t" and root: "beRootLeaf t" and N: "1 \<le> slots (bePages t)"
  shows "\<exists>s'. be_find C fuel key t = Inr (None, t\<lparr>bePages := s'\<rparr>)"
  using inv
proof (cases rule: be_core_cases)
  case (leaf l)
  have lo1: "lock_mode False = Shared 1" by (simp add: lock_mode_def)
  have N0: "card (held_of no_locks) < slots (bePages t)" using N(1) by simp
  obtain s1 where s1: "ps_pin False (\<lambda>_. False) (beRootID t) (bePages t) = Inr s1"
      "st s1 (nodes (bePages t)) (no_locks(beRootID t := Shared 1)) {} (slots (bePages t))"
    using st_pin [OF leaf(1,2) _ N0, of "\<lambda>_. False"] unfolding lo1 by auto
  have get: "ps_get (beRootID t) s1 = Inr (BeLeaf l)" using st_get [OF s1(2) leaf(2)] by simp
  obtain s2 where "ps_unpin False (beRootID t) s1 = Inr s2"
    using st_unpin_last [OF s1(2)] by auto
  then show ?thesis using s1(1) get by (intro exI [of _ s2]) (simp add: be_find_def)
next
  case (root X n)
  then show ?thesis using assms(2) by simp
qed

end
