(* ===== verification/BeOps.thy ===== *)
theory BeOps
  imports BeFind KvStore
begin

text \<open>
  The operations of \<open>BeTree\<close> with their time stamps: a new tree, inserts, updates and erases
  as operations on the map of the tree, sequences of them, and the header in its file.
\<close>

section \<open>A new tree\<close>

lemma new_be_leaf_ok: "bleaf_ok C (new_be_leaf C)" "leaf_kvs (new_be_leaf C) = []"
  by (simp_all add: leaf_ok_def new_be_leaf_def new_leaf_def leaf_kvs_def leaf_keys_def leaf_vals_def)

lemma be_new_ok:
  assumes "st s nd no_locks {} n" "1 \<le> n"
  shows "\<exists>t. be_new C s = Inr t \<and> be_inv C 0 t \<and> be_content 0 t = Map.empty \<and> slots (bePages t) = n \<and>
           beRootLeaf t \<and> beTimeStamp t = 0"
proof -
  have room: "card (held_of no_locks) < n" using assms(2) by simp
  obtain r s1 y where r: "pin_new s = Inr (r, s1)"
      "st s1 (nd(r \<mapsto> y)) (no_locks(r := Exclusive)) {r} n"
    using pin_new_run [OF assms(1) room] by blast
  let ?l = "BeLeaf (new_be_leaf C)"
  obtain s2 where s2: "be_initializeNode C r NodeType_LEAF s1 = Inr s2"
      "st s2 (nd(r \<mapsto> ?l)) (no_locks(r := Exclusive)) {r} n"
    using st_put [OF r(2), of r ?l] by (auto simp: be_initializeNode_def)
  obtain s3 where s3: "ps_unpin True r s2 = Inr s3" "st s3 (nd(r \<mapsto> ?l)) no_locks {} n"
    using st_unpin_last [OF s2(2), of True] by auto
  define t :: "('a, 'b) be_tree" where
    "t = \<lparr>bePages = s3, beRootID = r, beTimeStamp = 0, beRootLeaf = True, beHdrFile = ftruncate empty_file 32\<rparr>"
  have t: "st (bePages t) (nd(r \<mapsto> ?l)) no_locks {} n" "(nd(r \<mapsto> ?l)) (beRootID t) = Some ?l" "beRootLeaf t"
    using s3(2) by (simp_all add: t_def)
  note i = be_leafI [OF t(1,2) new_be_leaf_ok(1) t(3)]
  have "be_new C s = Inr t"
    using r(1) s2(1) s3(1) by (simp add: be_new_def t_def del: bindE_eq_Inr)
  then show ?thesis
    using i(1) [of 0 0] i(2) [of 0] i(3) by (auto simp: be_inv_def t_def new_be_leaf_ok)
qed

section \<open>The operations as operations on a map\<close>

text \<open>
  \<open>step_ok\<close>: what a call that returns \<open>r\<close> does to a tree. The tree grows by one level at most.
\<close>

definition step_ok ::
  "('k::linorder, 'v::plus) be_config \<Rightarrow> nat \<Rightarrow> ('k, 'v) be_tree \<Rightarrow> ('k \<rightharpoonup> 'v) \<Rightarrow> ('k, 'v) be_tree result \<Rightarrow> bool" where
  "step_ok C h t m r \<longleftrightarrow>
     (\<exists>t' h'. r = Inr t' \<and> h' \<le> Suc h \<and> be_inv C h' t' \<and> be_content h' t' = m \<and> slots (bePages t') = slots (bePages t) \<and>
        beTimeStamp t' = beTimeStamp t + 1 \<and> beRootID t' = beRootID t)"

lemma be_stamp_irrelevant [simp]:
  "be_core C h stamp (t\<lparr>beTimeStamp := n\<rparr>) = be_core C h stamp t"
  "be_content h (t\<lparr>beTimeStamp := n\<rparr>) = be_content h t"
  by (simp_all add: be_core_def be_content_def cong: option.case_cong be_node.case_cong)

lemma stamped_step:
  fixes t :: "('k::linorder, 'v::semigroup_add) be_tree"
  assumes "be_inv C h t" "beTimeStamp t + 1 < 2 ^ 64" "be_config_ok C" "valid_upsert u" "timeStamp u = next_stamp t"
    "utype u = INSERT \<longrightarrow> be_content h t (ukey u) \<noteq> Some (uval u)"
    "be_bound C h \<le> slots (bePages t)" "be_bound C h \<le> fuel"
    "m = (be_content h t)(ukey u := effect u (be_content h t (ukey u)))"
  shows "step_ok C h t m (be_upsert C fuel u (t\<lparr>beTimeStamp := next_stamp t\<rparr>))"
proof -
  let ?t = "t\<lparr>beTimeStamp := next_stamp t\<rparr>"
  have n: "next_stamp t = beTimeStamp t + 1" using assms(2) by (simp add: next_stamp_def)
  have "be_core C h (beTimeStamp t) ?t" "beTimeStamp t < timeStamp u"
    using assms(1,5) n by (simp_all add: be_inv_def)
  from be_upsert_ok [OF this assms(3,4), of fuel] obtain s' rl h' where
    r: "be_upsert C fuel u ?t = Inr (?t\<lparr>bePages := s', beRootLeaf := rl\<rparr>)" "h' \<le> Suc h"
      "be_core C h' (timeStamp u) (?t\<lparr>bePages := s', beRootLeaf := rl\<rparr>)" "slots s' = slots (bePages t)"
      "be_content h' (?t\<lparr>bePages := s', beRootLeaf := rl\<rparr>) = m"
    using assms(6-9) by auto
  have "be_inv C h' (?t\<lparr>bePages := s', beRootLeaf := rl\<rparr>)" using r(3) assms(5) by (simp add: be_inv_def)
  then show ?thesis
    unfolding step_ok_def using r n
    by (intro exI [of _ "?t\<lparr>bePages := s', beRootLeaf := rl\<rparr>"] exI [of _ h']) simp
qed

lemma be_insert_ok:
  fixes t :: "('k::linorder, 'v::semigroup_add) be_tree"
  assumes "be_inv C h t" "beTimeStamp t + 1 < 2 ^ 64" "be_config_ok C" "be_content h t key \<noteq> Some value"
    "be_bound C h \<le> slots (bePages t)" "be_bound C h \<le> fuel"
  shows "step_ok C h t ((be_content h t)(key \<mapsto> value)) (be_insert C fuel key value t)"
  unfolding be_insert_def
  by (rule stamped_step [OF assms(1-3) _ _ _ assms(5,6)]) (use assms(4) in \<open>simp_all add: valid_upsert_def\<close>)

lemma be_update_ok:
  fixes t :: "('k::linorder, 'v::semigroup_add) be_tree"
  assumes "be_inv C h t" "beTimeStamp t + 1 < 2 ^ 64" "be_config_ok C"
    "be_bound C h \<le> slots (bePages t)" "be_bound C h \<le> fuel"
  shows "step_ok C h t (map_update key value (be_content h t)) (be_update C fuel key value t)"
  unfolding be_update_def
  by (rule stamped_step [OF assms(1-3) _ _ _ assms(4,5)])
    (auto simp: valid_upsert_def map_update_def fun_eq_iff split: option.split)

lemma be_erase_ok:
  fixes t :: "('k::linorder, 'v::semigroup_add) be_tree"
  assumes "be_inv C h t" "beTimeStamp t + 1 < 2 ^ 64" "be_config_ok C"
    "be_bound C h \<le> slots (bePages t)" "be_bound C h \<le> fuel"
  shows "step_ok C h t ((be_content h t)(key := None)) (be_erase C fuel d key t)"
  unfolding be_erase_def
  by (rule stamped_step [OF assms(1-3) _ _ _ assms(4,5)]) (simp_all add: valid_upsert_def)

text \<open>A key that is present is found: the values that lead to an assertion belong to absent keys.\<close>

lemma updates_None: "\<forall>u \<in> set us. utype u = UPDATE \<Longrightarrow> foldr effect us None = None"
  by (induction us) auto

lemma be_present:
  assumes "be_content h t key = Some v"
  shows "\<not> be_dangling h t key"
proof
  assume d: "be_dangling h t key"
  then obtain n where n: "nodes (bePages t) (beRootID t) = Some (BeRoot n)"
    by (auto simp: be_dangling_def split: option.splits be_node.splits)
  show False
    using d assms by (simp add: be_dangling_def be_content_def n look_def dangling_def updates_None)
qed

section \<open>Sequences of calls\<close>

text \<open>
  What the calls may be: no lookups (the answers of \<open>be_find\<close> are stated for a single call), and
  no insert of the value that the key has at this moment.
\<close>

fun writes_ok :: "('k, 'v::plus) kv_op list \<Rightarrow> ('k \<rightharpoonup> 'v) \<Rightarrow> bool" where
  "writes_ok [] m = True"
| "writes_ok (KFind key # ops) m = False"
| "writes_ok (KInsert key value # ops) m = (m key \<noteq> Some value \<and> writes_ok ops (m(key \<mapsto> value)))"
| "writes_ok (op # ops) m = writes_ok ops (kv_apply op m)"

abbreviation be_step ::
  "('k::linorder, 'v::plus) be_config \<Rightarrow> nat \<Rightarrow> 'v \<Rightarrow> ('k, 'v) kv_op \<Rightarrow> ('k, 'v) be_tree \<Rightarrow>
   ('v option \<times> ('k, 'v) be_tree) result" where
  "be_step C fuel d \<equiv> kv_step (be_insert C fuel) (be_update C fuel) (be_erase C fuel d) (be_find C fuel)"

lemma be_step_ok:
  fixes t :: "('k::linorder, 'v::semigroup_add) be_tree"
  assumes inv: "be_inv C h t" "beTimeStamp t + 1 < 2 ^ 64" "be_config_ok C"
    and N: "be_bound C h \<le> slots (bePages t)" "be_bound C h \<le> fuel"
    and op: "writes_ok (op # ops) (be_content h t)"
  shows "\<exists>t' h'. be_step C fuel d op t = Inr (None, t') \<and> h' \<le> Suc h \<and> be_inv C h' t' \<and>
           be_content h' t' = kv_apply op (be_content h t) \<and> slots (bePages t') = slots (bePages t) \<and>
           beTimeStamp t' = beTimeStamp t + 1 \<and> writes_ok ops (kv_apply op (be_content h t))"
proof (cases op)
  case (KInsert key v)
  then show ?thesis using be_insert_ok [OF inv _ N, of key v] op by (auto simp: step_ok_def)
next
  case (KUpdate key v)
  then show ?thesis using be_update_ok [OF inv N, of key v] op by (auto simp: step_ok_def)
next
  case (KErase key)
  then show ?thesis using be_erase_ok [OF inv N, of key d] op by (auto simp: step_ok_def)
next
  case (KFind key)
  then show ?thesis using op by simp
qed

lemma weight_mono: "h \<le> h' \<Longrightarrow> weight i h \<le> weight i h'"
proof (induction h' rule: dec_induct)
  case (step n)
  have "weight i n \<le> 1 * weight i n" by simp
  also have "\<dots> \<le> 2 * (i + 1) * weight i n" by (rule mult_le_mono1) simp
  also have "\<dots> \<le> weight i (Suc n)" by simp
  finally show ?case using step.IH by linarith
qed simp

lemma less_weight: "h < weight i h"
proof (induction h)
  case (Suc h)
  have "1 * weight i h \<le> 2 * (i + 1) * weight i h" by (rule mult_le_mono1) simp
  then show ?case using Suc by simp
qed simp

lemma be_bound_mono: "h \<le> h' \<Longrightarrow> be_bound C h \<le> be_bound C h'"
  using weight_mono [of h h' "INNER_N C"] by (auto simp: be_bound_def)

text \<open>With pages and fuel for trees of height \<open>H\<close> the calls return until the tree is higher.\<close>

lemma be_run_height:
  fixes t :: "('k::linorder, 'v::semigroup_add) be_tree"
  assumes "be_config_ok C" "be_inv C h t" "beTimeStamp t + length ops < 2 ^ 64"
    "be_bound C H \<le> slots (bePages t)" "be_bound C H \<le> fuel"
    "writes_ok ops (be_content h t)" "h \<le> Suc H"
  shows "\<exists>m t' h'. m \<le> length ops \<and> kv_run (be_step C fuel d) (take m ops) t = Inr (replicate m None, t') \<and> h' \<le> h + m \<and>
           h' \<le> Suc H \<and> be_inv C h' t' \<and> be_content h' t' = fold kv_apply (take m ops) (be_content h t) \<and>
           slots (bePages t') = slots (bePages t) \<and> (m = length ops \<or> h' = Suc H)"
  using assms(2-7)
proof (induction ops arbitrary: h t)
  case Nil
  then show ?case by (intro exI [of _ 0] exI [of _ t] exI [of _ h]) simp
next
  case (Cons op ops)
  show ?case
  proof (cases "h = Suc H")
    case True
    then show ?thesis using Cons.prems by (intro exI [of _ 0] exI [of _ t] exI [of _ h]) simp
  next
    case False
    then have H: "h \<le> H" using Cons.prems(6) by simp
    note b = be_bound_mono [OF H, of C]
    have ts: "beTimeStamp t + 1 < 2 ^ 64" using Cons.prems(2) by simp
    obtain t1 h1 where t1: "be_step C fuel d op t = Inr (None, t1)" "h1 \<le> Suc h" "be_inv C h1 t1"
        "be_content h1 t1 = kv_apply op (be_content h t)" "slots (bePages t1) = slots (bePages t)"
        "beTimeStamp t1 = beTimeStamp t + 1" "writes_ok ops (kv_apply op (be_content h t))"
      using be_step_ok [OF Cons.prems(1) ts assms(1) order.trans [OF b Cons.prems(3)]
          order.trans [OF b Cons.prems(4)] Cons.prems(5), of d] by blast
    have "\<exists>m t' h'. m \<le> length ops \<and> kv_run (be_step C fuel d) (take m ops) t1 = Inr (replicate m None, t') \<and> h' \<le> h1 + m \<and>
           h' \<le> Suc H \<and> be_inv C h' t' \<and> be_content h' t' = fold kv_apply (take m ops) (be_content h1 t1) \<and>
           slots (bePages t') = slots (bePages t1) \<and> (m = length ops \<or> h' = Suc H)"
      by (rule Cons.IH [OF t1(3)]) (use Cons.prems(2-4) H t1 in \<open>auto intro: order.trans\<close>)
    then obtain m t' h' where m: "m \<le> length ops" "kv_run (be_step C fuel d) (take m ops) t1 = Inr (replicate m None, t')"
        "h' \<le> h1 + m" "h' \<le> Suc H" "be_inv C h' t'" "be_content h' t' = fold kv_apply (take m ops) (be_content h1 t1)"
        "slots (bePages t') = slots (bePages t1)" "m = length ops \<or> h' = Suc H" by blast
    show ?thesis
      by (intro exI [of _ "Suc m"] exI [of _ t'] exI [of _ h']) (use t1(1,2,4,5) m in simp)
  qed
qed

text \<open>A root that is a leaf has no more keys than a leaf.\<close>

lemma be_leaf_small:
  assumes "be_inv C h t" "beRootLeaf t"
  shows "card (dom (be_content h t)) \<le> LEAF_N C"
  using assms(1) [unfolded be_inv_def]
proof (cases rule: be_core_cases)
  case (leaf l)
  have "card (dom (map_of (leaf_kvs l))) \<le> length (leaf_kvs l)"
    unfolding dom_map_of_conv_image_fst using card_image_le [of "set (leaf_kvs l)" fst] card_length [of "leaf_kvs l"] by simp
  also have "\<dots> \<le> LEAF_N C"
    using leaf_okD(3) [OF leaf(4)] by (simp add: leaf_kvs_def leaf_keys_def bconfig.truncate_def)
  finally show ?thesis using leaf(5) by simp
next
  case (root X n)
  with assms(2) show ?thesis by simp
qed

section \<open>Flushing and opening\<close>

lemma enc_be_hdr_ok:
  assumes "root < 2 ^ 64" "stamp < 2 ^ 64"
  shows "length (enc_be_hdr root stamp leaf) = 32" "dec_uint (take 8 (enc_be_hdr root stamp leaf)) = root"
    "dec_uint (take 8 (drop 8 (enc_be_hdr root stamp leaf))) = stamp"
    "(enc_be_hdr root stamp leaf ! 16 \<noteq> 0) = leaf"
  using assms by (simp_all add: enc_be_hdr_def nth_append)

lemma be_flush_open_ok:
  assumes "be_inv C h t" "beRootID t < 2 ^ 64" "beTimeStamp t < 2 ^ 64"
  shows "\<exists>t'. be_open (beHdrFile (be_flush t)) (ps_reopen (bePages (be_flush t))) = Inr t' \<and>
           be_inv C h t' \<and> be_content h t' = be_content h t \<and> beTimeStamp t' = beTimeStamp t"
proof -
  let ?s = "ps_reopen (bePages (be_flush t))" and ?f = "beHdrFile (be_flush t)"
  define t' :: "('a, 'b) be_tree" where
    "t' = \<lparr>bePages = ?s, beRootID = beRootID t, beTimeStamp = beTimeStamp t, beRootLeaf = beRootLeaf t, beHdrFile = ?f\<rparr>"
  note e = enc_be_hdr_ok [OF assms(2,3), of "beRootLeaf t"]
  have "pread ?f 32 0 = enc_be_hdr (beRootID t) (beTimeStamp t) (beRootLeaf t)"
    unfolding be_flush_def by (simp add: e(1))
  then have "be_open ?f ?s = Inr t'" using e by (simp add: be_open_def Let_def t'_def)
  moreover have s: "st ?s (nodes (bePages t)) no_locks {} (slots (bePages t))"
    using assms(1) by (auto simp: be_inv_def be_core_def be_flush_def ps_reopen_def ps_flush_def st_def ps_inv_def ps_held_def)
  have c: "be_core C h (beTimeStamp t) t" using assms(1) by (simp add: be_inv_def)
  have "be_core C h (beTimeStamp t) t'" "be_content h t' = be_content h t"
    using be_same_nodes(1,2) [OF s c] by (simp_all add: be_core_def be_content_def t'_def cong: option.case_cong be_node.case_cong)
  ultimately show ?thesis unfolding be_inv_def by (auto simp: t'_def)
qed

end
