(* ===== verification/BePartProps.thy ===== *)
theory BePartProps
  imports BeKid BePivots
begin

text \<open>
  The properties of the parts of the B-epsilon-tree: merging messages, the median of two
  sequences, inserting several pivots at once and taking messages out of a full buffer, with
  small inputs on which they are applied.
\<close>

section \<open>Messages\<close>

text \<open>
  C24. Merging the messages of a buffer with newer ones gives a sorted sequence with one message
  per key, for exactly the keys of both, and no longer than both. On every key and value it does
  what the older message and then the newer one do.
\<close>
theorem mergeUpserts_correct:
  fixes old new :: "('k::linorder, 'v::semigroup_add) upsert list"
  assumes "upserts_ok old" "upserts_ok new" "newer old new"
  shows "\<exists>out. mergeUpserts old new = Inr out \<and> upserts_ok out \<and>
           ukey ` set out = ukey ` set old \<union> ukey ` set new \<and> length out \<le> length old + length new \<and>
           (\<forall>key x. effects out key x = effects new key (effects old key x))"
  using merge_ok [OF assms] by blast

definition demo_upsert :: "'k \<Rightarrow> int \<Rightarrow> nat \<Rightarrow> upsert_type \<Rightarrow> ('k, int) upsert" where
  "demo_upsert k v t ty = \<lparr>ukey = k, uval = v, timeStamp = t, utype = ty\<rparr>"

theorem mergeUpserts_correct_witness:
  "\<exists>out. mergeUpserts [demo_upsert (1 :: nat) 10 1 INSERT, demo_upsert 4 2 2 UPDATE]
       [demo_upsert 1 5 3 UPDATE, demo_upsert 2 0 4 DELETE] = Inr out \<and> upserts_ok out \<and> effects out 1 None = Some 15"
  using mergeUpserts_correct [of "[demo_upsert (1 :: nat) 10 1 INSERT, demo_upsert 4 2 2 UPDATE]"
      "[demo_upsert 1 5 3 UPDATE, demo_upsert 2 0 4 DELETE]"]
  by (auto simp: upserts_ok_def newer_def valid_upsert_def demo_upsert_def effects_def)

text \<open>
  The binary search for the median of two sorted sequences finds the element that sorting
  them together has at the index \<open>(n + m + 1) / 2 - 1\<close>, provided that the two constants it uses
  at the ends of the arrays bound all keys.
\<close>
theorem findMedianKey_correct:
  fixes xs ys :: "'k::linorder list"
  assumes "sorted (take n xs)" "sorted (take m ys)" "n \<le> length xs" "m \<le> length ys" "0 < n + m"
    "\<forall>x \<in> set (take n xs) \<union> set (take m ys). zero \<le> x \<and> x \<le> mx" "zero \<le> mx"
  shows "findMedianKey zero mx xs n ys m = Inr (sort (take n xs @ take m ys) ! ((n + m + 1) div 2 - 1))"
  by (rule findMedianKey_ok [OF assms])

theorem findMedianKey_correct_witness:
  "findMedianKey 0 100 [1, 5, 7, 0 :: nat] 3 [2, 3, 9] 3 = Inr (3 :: nat)"
proof -
  have "sort [1, 5, 7, 2, 3, 9] = [1, 2, 3, 5, 7, 9 :: nat]" by simp
  then show ?thesis using findMedianKey_correct [of 3 "[1, 5, 7, 0 :: nat]" 3 "[2, 3, 9]" 0 100]
    by (simp add: take_Cons')
qed

section \<open>Pivots\<close>

text \<open>
  Inserting several pivots in one pass from the right gives the same pivots and children as
  inserting them one at a time, each behind the child that was split. The buffer stays as it is.
\<close>
theorem insertPivots_correct:
  assumes "be_inner_ok C n" "innsize n + length P \<le> INNER_N C" "sorted_wrt (<) (map fst P)"
    "sorted_wrt (<) (map (fst \<circ> snd) P)" "\<forall>p \<in> set P. fst p \<le> innsize n"
  shows "\<exists>n'. insertPivots P n = Inr n' \<and> ubuf n' = ubuf n \<and> innsize n' = innsize n + length P \<and>
           bseps n' = foldr (\<lambda>(c, m, r) xs. take c xs @ m # drop c xs) P (bseps n) \<and>
           bkids n' = foldr (\<lambda>(c, m, r) ys. take (Suc c) ys @ r # drop (Suc c) ys) P (bkids n)"
proof -
  have "ins_seps P xs = foldr (\<lambda>(c, m, r) xs. take c xs @ m # drop c xs) P xs"
    "ins_kids P ys = foldr (\<lambda>(c, m, r) ys. take (Suc c) ys @ r # drop (Suc c) ys) P ys"
    for xs :: "'a list" and ys by (induction P) (auto simp: ins_def)
  then show ?thesis using insertPivots_run [OF assms] by metis
qed

definition demo_be_config :: "(8 word, int) be_config" where
  "demo_be_config = \<lparr>LEAF_N = 3, INNER_N = 3, anyKey = 0, anyVal = 0, ROOT_N = 3, INNER_B_N = 2, zeroKey = 0,
     sizeMaxKey = - 1, debugBuild = False, mapOrder = (\<lambda>m. m), sortBySize = (\<lambda>f. sort_key (\<lambda>i. - int (f i)))\<rparr>"

lemma demo_std_ok: "std_ok demo_be_config"
proof -
  have "sorted_wrt (\<lambda>i j. f j \<le> f i) (sort_key (\<lambda>i. - int (f i)) xs)" for f :: "nat \<Rightarrow> nat" and xs
    using sorted_sort_key [of "\<lambda>i. - int (f i)" xs] by (simp add: sorted_map)
  then show ?thesis by (simp add: std_ok_def demo_be_config_def distinct_map)
qed

lemma demo_config_ok: "config_ok demo_be_config"
  unfolding config_ok_def using demo_std_ok by (simp add: demo_be_config_def)

definition demo_inner :: "(8 word, int) be_inner" where
  "demo_inner = \<lparr>ubuf = \<lparr>upserts = [demo_upsert 3 30 1 INSERT, demo_upsert 12 1 2 UPDATE], usize = 2\<rparr>,
     ipivots = [10, 0, 0], ichildren = [7, 8, 0, 0], innsize = 1\<rparr>"

lemma demo_inner_ok: "be_inner_ok demo_be_config demo_inner"
  by (simp add: be_inner_ok_def demo_inner_def demo_be_config_def bseps_def bmsgs_def upserts_ok_def valid_upsert_def
      demo_upsert_def take_Cons')

theorem insertPivots_correct_witness:
  "\<exists>n'. insertPivots [(0, 5, 20), (1, 15, 21)] demo_inner = Inr n' \<and> bseps n' = [5, 10, 15] \<and> bkids n' = [7, 20, 8, 21]"
  using insertPivots_correct [OF demo_inner_ok, of "[(0, 5, 20), (1, 15, 21)]"]
  by (auto simp: demo_be_config_def demo_inner_def bseps_def bkids_def take_Cons')

section \<open>Taking messages out\<close>

text \<open>
  C17. Taking messages out of a buffer that overflows by some new ones loses none and does not
  apply any twice. What stays fits into the buffer, is sorted and has one message per key; what
  is taken out is cut into non-empty blocks, each for the child on the path of its keys, no longer
  than the bound and no more than the messages there are too many. For every key, what stays
  and what is taken out for its child together do what the old message and then the new one do.
\<close>
theorem removeMessages_correct:
  fixes n :: "('k::linorder, 'v::semigroup_add) be_inner"
  assumes "be_inner_ok C n" "upserts_ok add" "newer (bmsgs n) add" "std_ok C"
    "INNER_B_N C < usize (ubuf n) + length add" "usize (ubuf n) + length add - INNER_B_N C \<le> mx"
  shows "\<exists>m n'. removeMessages C n add mx = Inr (m, n') \<and> be_inner_ok C n' \<and>
           bseps n' = bseps n \<and> bkids n' = bkids n \<and> map_ok (bseps n) mx m \<and> m \<noteq> [] \<and>
           length m \<le> usize (ubuf n) + length add - INNER_B_N C \<and>
           (\<forall>key x. effects (bmsgs n') key (effects (entry m (route (bseps n) key)) key x) =
              effects add key (effects (bmsgs n) key x))"
proof -
  obtain m n' ms u where r: "removeMessages C n add mx = Inr (m, n')" "mergeUpserts (bmsgs n) add = Inr ms"
      "be_inner_ok C n'" "n' = n\<lparr>ubuf := u\<rparr>" "map_ok (bseps n) mx m" "m \<noteq> []"
      "length m \<le> usize (ubuf n) + length add - INNER_B_N C"
      "\<forall>key. msgs_for key ms = msgs_for key (bmsgs n') @ msgs_for key (entry m (route (bseps n) key))"
    using removeMessages_ok [OF assms(1-3,5,6,4)] by (elim exE conjE) rule
  obtain ms' where m: "mergeUpserts (bmsgs n) add = Inr ms'" "upserts_ok ms'"
      "\<forall>key x. effects ms' key x = effects add key (effects (bmsgs n) key x)"
    using merge_ok [OF be_inner_okD(9) [OF assms(1)] assms(2,3)] by blast
  have eff: "effects (bmsgs n') key (effects (entry m (route (bseps n) key)) key x) = effects add key (effects (bmsgs n) key x)"
    for key x
  proof -
    have "upserts_ok (entry m c)" for c
      using map_okD(2,6) [OF r(5)] by (cases "c \<in> fst ` set m") (auto simp: entry_absent upserts_ok_def)
    note f = foldr_effects [OF this, of key "route (bseps n) key" x] foldr_effects [OF be_inner_okD(9) [OF r(3)], of key]
    have "effects ms' key x = foldr effect (msgs_for key (bmsgs n') @ msgs_for key (entry m (route (bseps n) key))) x"
      using foldr_effects [OF m(2), of key x] r(2,8) m(1) by simp
    then show ?thesis using m(3) f by simp
  qed
  have "bseps n' = bseps n" "bkids n' = bkids n" using r(4) by (auto simp: bseps_def bkids_def)
  then show ?thesis using r(1,3,5-7) eff by blast
qed

theorem removeMessages_correct_witness:
  "\<exists>m n'. removeMessages demo_be_config demo_inner [demo_upsert 12 5 3 UPDATE, demo_upsert 14 40 4 INSERT] 2 = Inr (m, n') \<and>
     be_inner_ok demo_be_config n' \<and> m \<noteq> [] \<and>
     effects (bmsgs n') 12 (effects (entry m (route (bseps demo_inner) 12)) 12 (Some 100)) = Some 106"
proof -
  have b: "bmsgs demo_inner = [demo_upsert 3 30 1 INSERT, demo_upsert 12 1 2 UPDATE]"
    by (simp add: demo_inner_def bmsgs_def)
  have "effects [demo_upsert (12 :: 8 word) 5 3 UPDATE, demo_upsert 14 40 4 INSERT] 12 (effects (bmsgs demo_inner) 12 (Some 100)) = Some 106"
    unfolding b by (simp add: effects_def demo_upsert_def)
  moreover have "upserts_ok [demo_upsert (12 :: 8 word) 5 3 UPDATE, demo_upsert 14 40 4 INSERT]"
    by (simp add: upserts_ok_def valid_upsert_def demo_upsert_def)
  moreover have "newer (bmsgs demo_inner) [demo_upsert 12 5 3 UPDATE, demo_upsert 14 40 4 INSERT]"
    unfolding b by (simp add: newer_def demo_upsert_def)
  moreover have "INNER_B_N demo_be_config = 2" "usize (ubuf demo_inner) = 2"
    by (simp_all add: demo_be_config_def demo_inner_def)
  ultimately show ?thesis
    using removeMessages_correct [OF demo_inner_ok _ _ demo_std_ok,
        of "[demo_upsert 12 5 3 UPDATE, demo_upsert 14 40 4 INSERT]" 2] by auto
qed

end
