(* ===== verification/BeProps.thy ===== *)
theory BeProps
  imports BeOps BePartProps
begin

text \<open>
  The properties of the B-epsilon-tree, and a small tree on which they are applied: a root node
  over two inner nodes with messages in their buffers and four leaves.
\<close>

section \<open>A small tree\<close>

definition demo_node :: "'k list \<Rightarrow> nat list \<Rightarrow> nat \<Rightarrow> ('k, int) upsert list \<Rightarrow> nat \<Rightarrow> ('k, int) be_node" where
  "demo_node ps cs n us m = BeInner \<lparr>ubuf = \<lparr>upserts = us, usize = m\<rparr>, ipivots = ps, ichildren = cs, innsize = n\<rparr>"

definition demo_be_root :: "8 word be_root" where
  "demo_be_root = \<lparr>rpivots = [10, 0, 0], rchildren = [1, 2, 0, 0], rsize = 1\<rparr>"

definition demo_be_nodes :: "nat \<rightharpoonup> (8 word, int) be_node" where
  "demo_be_nodes =
     [0 \<mapsto> BeRoot demo_be_root,
      1 \<mapsto> demo_node [5, 0, 0] [3, 4, 0, 0] 1 [demo_upsert 3 1 1 UPDATE, demo_upsert 7 70 2 INSERT] 2,
      2 \<mapsto> demo_node [20, 0, 0] [5, 6, 0, 0] 1 [demo_upsert 15 5 3 UPDATE, demo_upsert 0 0 0 INVALID] 1,
      3 \<mapsto> BeLeaf \<lparr>keys = [3, 5, 0], vals = [30, 50, 0], lsize = 2\<rparr>,
      4 \<mapsto> BeLeaf \<lparr>keys = [8, 0, 0], vals = [80, 0, 0], lsize = 1\<rparr>,
      5 \<mapsto> BeLeaf \<lparr>keys = [12, 0, 0], vals = [120, 0, 0], lsize = 1\<rparr>,
      6 \<mapsto> BeLeaf \<lparr>keys = [25, 0, 0], vals = [250, 0, 0], lsize = 1\<rparr>]"

definition demo_be_store :: "(8 word, int) be_node pstore" where
  "demo_be_store =
     \<lparr>slots = 18, nodes = demo_be_nodes, locks = no_locks, changed = {}, id_seq = (\<lambda>i. i), created = 7,
      stale = (\<lambda>_. BeLeaf \<lparr>keys = [], vals = [], lsize = 0\<rparr>), stored = Map.empty\<rparr>"

definition demo_be_tree :: "(8 word, int) be_tree" where
  "demo_be_tree =
     \<lparr>bePages = demo_be_store, beRootID = 0, beTimeStamp = 3, beRootLeaf = False, beHdrFile = empty_file\<rparr>"

lemma demo_be_dom: "dom demo_be_nodes = {..<7}"
  by (auto simp: demo_be_nodes_def)

lemma demo_be_st: "st demo_be_store demo_be_nodes no_locks {} 18"
  by (simp add: st_def demo_be_store_def ps_inv_def ps_held_def demo_be_dom)

lemma demo_plain [simp]:
  "plain demo_be_nodes 0 = Some (BeRoot demo_be_root, [])"
  "plain demo_be_nodes 1 = Some (demo_node [5, 0, 0] [3, 4, 0, 0] 1 [demo_upsert 3 1 1 UPDATE, demo_upsert 7 70 2 INSERT] 2, [])"
  "plain demo_be_nodes (Suc 0) = Some (demo_node [5, 0, 0] [3, 4, 0, 0] 1 [demo_upsert 3 1 1 UPDATE, demo_upsert 7 70 2 INSERT] 2, [])"
  "plain demo_be_nodes 2 = Some (demo_node [20, 0, 0] [5, 6, 0, 0] 1 [demo_upsert 15 5 3 UPDATE, demo_upsert 0 0 0 INVALID] 1, [])"
  "plain demo_be_nodes 3 = Some (BeLeaf \<lparr>keys = [3, 5, 0], vals = [30, 50, 0], lsize = 2\<rparr>, [])"
  "plain demo_be_nodes 4 = Some (BeLeaf \<lparr>keys = [8, 0, 0], vals = [80, 0, 0], lsize = 1\<rparr>, [])"
  "plain demo_be_nodes 5 = Some (BeLeaf \<lparr>keys = [12, 0, 0], vals = [120, 0, 0], lsize = 1\<rparr>, [])"
  "plain demo_be_nodes 6 = Some (BeLeaf \<lparr>keys = [25, 0, 0], vals = [250, 0, 0], lsize = 1\<rparr>, [])"
  by (simp_all add: plain_def demo_be_nodes_def)

lemma demo_leaves [simp]:
  "demo_be_nodes 3 = Some (BeLeaf \<lparr>keys = [3, 5, 0], vals = [30, 50, 0], lsize = 2\<rparr>)"
  "demo_be_nodes 4 = Some (BeLeaf \<lparr>keys = [8, 0, 0], vals = [80, 0, 0], lsize = 1\<rparr>)"
  "demo_be_nodes 5 = Some (BeLeaf \<lparr>keys = [12, 0, 0], vals = [120, 0, 0], lsize = 1\<rparr>)"
  "demo_be_nodes 6 = Some (BeLeaf \<lparr>keys = [25, 0, 0], vals = [250, 0, 0], lsize = 1\<rparr>)"
  by (simp_all add: demo_be_nodes_def)

lemma Suc_0_or: "(j \<le> Suc 0) = (j = 0 \<or> j = Suc 0)"
  by auto

lemma demo_be_good:
  "good demo_be_config 1 (plain demo_be_nodes) None (Some 10) 1"
  "good demo_be_config 1 (plain demo_be_nodes) (Some 10) None 2"
  by (auto simp: good_def Suc_0_or demo_node_def be_inner_ok_def demo_be_config_def bseps_def bkids_def bmsgs_def
      upserts_ok_def valid_upsert_def demo_upsert_def take_Cons' inbox_ok_def within_def lo_at_def hi_at_def leaf_ok_def
      leaf_keys_def bconfig.truncate_def msgs_for_def intro!: length_le_1_ordered)

lemma demo_be_ids: "be_ids 1 (plain demo_be_nodes) 1 = [1, 3, 4]" "be_ids 1 (plain demo_be_nodes) 2 = [2, 5, 6]"
  by (simp_all add: demo_node_def bkids_def)

lemma demo_be_top: "top_ok demo_be_config 1 (plain demo_be_nodes) 0 demo_be_root"
proof -
  have f: "rfam 1 demo_be_root = [(1, None, Some 10, 1), (1, Some 10, None, 2)]"
    by (simp add: rfam_def kfam_def rkids_def rseps_def demo_be_root_def lo_at_def hi_at_def)
  have "be_root_ok demo_be_config demo_be_root"
    by (simp add: be_root_ok_def demo_be_root_def demo_be_config_def rseps_def)
  moreover have "fids (plain demo_be_nodes) (rfam 1 demo_be_root) = [1, 3, 4, 2, 5, 6]"
    unfolding f fids_simps demo_be_ids by simp
  moreover have "\<forall>(h, lo, hi, i) \<in> set (rfam 1 demo_be_root). good demo_be_config h (plain demo_be_nodes) lo hi i"
    unfolding f using demo_be_good by (simp del: One_nat_def)
  ultimately show ?thesis by (simp add: top_ok_def fgood_def del: One_nat_def)
qed

lemma demo_be_core: "be_core demo_be_config 1 3 demo_be_tree"
proof -
  have "\<forall>s \<in> stamps 1 (plain demo_be_nodes) key (target demo_be_root key). s \<le> 3" for key
    by (auto simp: stamps_def msgs_for_def target_def rkids_def rseps_def demo_be_root_def demo_node_def route_def
        bmsgs_def demo_upsert_def bkids_def bseps_def split: if_splits)
  then show ?thesis
    using demo_be_st demo_be_top
    by (simp add: be_core_def demo_be_tree_def) (simp add: demo_be_store_def demo_be_nodes_def)
qed

lemma demo_be_inv: "be_inv demo_be_config 1 demo_be_tree"
  using demo_be_core by (simp add: be_inv_def demo_be_tree_def)

lemma demo_be_at [simp]:
  "nodes (bePages demo_be_tree) = demo_be_nodes" "beRootID demo_be_tree = 0" "beTimeStamp demo_be_tree = 3"
  "beRootLeaf demo_be_tree = False" "slots (bePages demo_be_tree) = 18"
  "demo_be_nodes 0 = Some (BeRoot demo_be_root)"
  by (simp_all add: demo_be_tree_def demo_be_store_def demo_be_nodes_def)

lemma demo_be_content:
  "be_content 1 demo_be_tree 3 = Some 31" "be_content 1 demo_be_tree 7 = Some 70" "be_content 1 demo_be_tree 25 = Some 250"
  "be_content 1 demo_be_tree 8 = Some 80" "be_content 1 demo_be_tree 15 = None" "be_dangling 1 demo_be_tree 15"
  by (simp_all add: be_content_def be_dangling_def dangling_def look_def target_def rkids_def rseps_def demo_be_root_def
      route_def msgs_for_def demo_node_def bmsgs_def bseps_def bkids_def demo_upsert_def leaf_kvs_def leaf_keys_def
      leaf_vals_def take_Cons')

lemmas demo_values = demo_be_content demo_be_content [unfolded One_nat_def]

lemma demo_be_bounds [simp]:
  "be_config_ok demo_be_config" "be_bound demo_be_config 1 = 18" "be_bound demo_be_config (Suc 0) = 18"
proof -
  have d: "INNER_N demo_be_config = 3" "ROOT_N demo_be_config = 3" by (simp_all add: demo_be_config_def)
  show "be_config_ok demo_be_config" using demo_config_ok by (simp add: be_config_ok_def d numeral_2_eq_2 [symmetric])
  show "be_bound demo_be_config 1 = 18" "be_bound demo_be_config (Suc 0) = 18"
    unfolding be_bound_def d by simp_all
qed

section \<open>The operations as operations on a map\<close>

text \<open>
  C2. An insert changes exactly one key of the map that the tree stands for, whatever messages it
  flushes and whatever nodes, the root node among them, it splits. The call returns: no assertion
  fails, no array is left, no page is locked twice or given back as unchanged after a change, and
  the buffer does not run full. The invariant holds again, with one level more at most. The value
  must differ from the one that the key has.
\<close>
theorem be_insert_correct:
  fixes t :: "('k::linorder, 'v::semigroup_add) be_tree"
  assumes "be_inv C h t" "beTimeStamp t + 1 < 2 ^ 64" "be_config_ok C" "be_content h t key \<noteq> Some value"
    "be_bound C h \<le> slots (bePages t)" "be_bound C h \<le> fuel"
  shows "\<exists>t' h'. be_insert C fuel key value t = Inr t' \<and> h' \<le> Suc h \<and> be_inv C h' t' \<and>
           be_content h' t' = (be_content h t)(key \<mapsto> value) \<and> slots (bePages t') = slots (bePages t)"
  using be_insert_ok [OF assms] unfolding step_ok_def by blast

theorem be_insert_correct_witness:
  "\<exists>t' h'. be_insert demo_be_config 18 8 81 demo_be_tree = Inr t' \<and> be_inv demo_be_config h' t' \<and>
     be_content h' t' = (be_content 1 demo_be_tree)(8 \<mapsto> 81)"
  using be_insert_correct [OF demo_be_inv, of 8 81 18] by (auto simp: demo_values)

text \<open>
  C19. An update adds to the value of a key that is present; the map of a tree in which the key
  is absent stays as it is.
\<close>
theorem be_update_correct:
  fixes t :: "('k::linorder, 'v::semigroup_add) be_tree"
  assumes "be_inv C h t" "beTimeStamp t + 1 < 2 ^ 64" "be_config_ok C"
    "be_bound C h \<le> slots (bePages t)" "be_bound C h \<le> fuel"
  shows "\<exists>t' h'. be_update C fuel key value t = Inr t' \<and> h' \<le> Suc h \<and> be_inv C h' t' \<and>
           be_content h' t' = map_update key value (be_content h t) \<and> slots (bePages t') = slots (bePages t)"
  using be_update_ok [OF assms] unfolding step_ok_def by blast

theorem be_update_correct_witness:
  "\<exists>t' h'. be_update demo_be_config 18 3 4 demo_be_tree = Inr t' \<and> be_inv demo_be_config h' t' \<and>
     be_content h' t' 3 = Some 35"
  using be_update_correct [OF demo_be_inv, of 18 3 4] by (fastforce simp: demo_values map_update_def)

text \<open>C20. An erase removes exactly the key from the map of the tree.\<close>
theorem be_erase_correct:
  fixes t :: "('k::linorder, 'v::semigroup_add) be_tree"
  assumes "be_inv C h t" "beTimeStamp t + 1 < 2 ^ 64" "be_config_ok C"
    "be_bound C h \<le> slots (bePages t)" "be_bound C h \<le> fuel"
  shows "\<exists>t' h'. be_erase C fuel d key t = Inr t' \<and> h' \<le> Suc h \<and> be_inv C h' t' \<and>
           be_content h' t' = (be_content h t)(key := None) \<and> slots (bePages t') = slots (bePages t)"
  using be_erase_ok [OF assms] unfolding step_ok_def by blast

theorem be_erase_correct_witness:
  "\<exists>t' h'. be_erase demo_be_config 18 0 7 demo_be_tree = Inr t' \<and> be_inv demo_be_config h' t' \<and>
     be_content h' t' = (be_content 1 demo_be_tree)(7 := None)"
  using be_erase_correct [OF demo_be_inv, of 18 0 7] by auto

section \<open>Lookups\<close>

text \<open>
  C18. In a tree with a root node a lookup collects the messages for the key on one path and
  answers with the value of the map, for every key that is present and for every absent key
  without updates in flight. For an absent key that has such updates an assertion fails.
\<close>
theorem be_find_correct:
  fixes t :: "('k::linorder, 'v::plus) be_tree"
  assumes "be_inv C h t" "\<not> beRootLeaf t" "2 \<le> slots (bePages t)" "h < fuel"
  shows "\<exists>t'. be_find C fuel key t = (if be_dangling h t key then Inl AssertFailed else Inr (be_content h t key, t')) \<and>
           (be_content h t key \<noteq> None \<longrightarrow> \<not> be_dangling h t key) \<and>
           be_inv C h t' \<and> be_content h t' = be_content h t"
  using be_find_run [OF assms(1) [unfolded be_inv_def] assms(2-4), of key] be_present [of h t key]
  unfolding be_inv_def by fastforce

theorem be_find_correct_witness:
  "\<exists>t'. be_find demo_be_config 2 3 demo_be_tree = Inr (Some 31, t') \<and> be_inv demo_be_config 1 t' \<and>
     be_find demo_be_config 2 15 demo_be_tree = Inl AssertFailed"
  using be_find_correct [OF demo_be_inv, of 2 3] be_find_correct [OF demo_be_inv, of 2 15]
  by (auto simp: demo_values)

text \<open>
  C22. While the root is a leaf, that is before the first split, a lookup answers with no value,
  whatever the tree contains.
\<close>
theorem be_find_root_leaf:
  assumes "be_inv C h t" "beRootLeaf t" "1 \<le> slots (bePages t)"
  shows "\<exists>s'. be_find C fuel key t = Inr (None, t\<lparr>bePages := s'\<rparr>)"
  by (rule be_find_leaf [OF assms(1) [unfolded be_inv_def] assms(2,3)])

definition demo_leaf_tree :: "(8 word, int) be_tree" where
  "demo_leaf_tree =
     \<lparr>bePages = \<lparr>slots = 1, nodes = [0 \<mapsto> BeLeaf \<lparr>keys = [3, 5, 0], vals = [30, 50, 0], lsize = 2\<rparr>],
        locks = no_locks, changed = {}, id_seq = (\<lambda>i. i), created = 1,
        stale = (\<lambda>_. BeLeaf \<lparr>keys = [], vals = [], lsize = 0\<rparr>), stored = Map.empty\<rparr>,
      beRootID = 0, beTimeStamp = 2, beRootLeaf = True, beHdrFile = empty_file\<rparr>"

lemma demo_leaf_inv: "be_inv demo_be_config 0 demo_leaf_tree" "be_content 0 demo_leaf_tree 3 = Some 30"
  by (simp_all add: be_inv_def be_core_def demo_leaf_tree_def st_def ps_inv_def ps_held_def leaf_ok_def leaf_keys_def
      leaf_vals_def demo_be_config_def bconfig.truncate_def be_content_def leaf_kvs_def take_Cons' lessThan_Suc)

theorem be_find_root_leaf_witness:
  "\<exists>s'. be_find demo_be_config 1 3 demo_leaf_tree = Inr (None, demo_leaf_tree\<lparr>bePages := s'\<rparr>) \<and>
     be_content 0 demo_leaf_tree 3 = Some 30"
  using be_find_root_leaf [OF demo_leaf_inv(1), of 1 3] demo_leaf_inv(2) by (simp add: demo_leaf_tree_def)

section \<open>Sequences of calls\<close>

text \<open>
  C1. Inserts, updates and erases on a new tree, with pages and fuel for trees of height \<open>H\<close> (the
  bound \<open>be_bound C H\<close> grows exponentially with the height) and fewer than \<open>2 ^ 64\<close> of them, as long as no insert
  repeats the value that its key has: the calls
  return, and end in a tree with the invariant that stands for the map after the same
  operations, until all of them are done or the tree is higher than \<open>H\<close>. One call makes the tree at most one
  level higher, so that up to \<open>H + 1\<close> calls are always all done. If the tree has a root node then, a lookup of a
  key that is present answers with its value; and it has one when the map has more keys than a leaf can hold.
\<close>
theorem be_run_as_map:
  fixes C :: "('k::linorder, 'v::semigroup_add) be_config"
  assumes "st s nd no_locks {} n" "be_config_ok C" "be_new C s = Inr t" "writes_ok ops Map.empty"
    "length ops < 2 ^ 64" "be_bound C H \<le> n" "be_bound C H \<le> fuel"
  shows "\<exists>m t' h. m \<le> length ops \<and>
           kv_run (kv_step (be_insert C fuel) (be_update C fuel) (be_erase C fuel d) (be_find C fuel)) (take m ops) t =
             Inr (replicate m None, t') \<and>
           be_inv C h t' \<and> be_content h t' = fold kv_apply (take m ops) Map.empty \<and>
           h \<le> m \<and> (m = length ops \<or> h = Suc H) \<and>
           (\<forall>key v. be_content h t' key = Some v \<and> \<not> beRootLeaf t' \<longrightarrow>
              (\<exists>t''. be_find C fuel key t' = Inr (Some v, t''))) \<and>
           (LEAF_N C < card (dom (be_content h t')) \<longrightarrow> \<not> beRootLeaf t')"
proof -
  have n: "3 \<le> n" "3 \<le> fuel" using be_boundD(3) assms(6,7) by blast+
  then have "1 \<le> n" by simp
  then have t: "be_inv C 0 t" "be_content 0 t = Map.empty" "slots (bePages t) = n" "beTimeStamp t = 0"
    using be_new_ok [OF assms(1), of C] assms(3) by auto
  obtain m t' h where r: "m \<le> length ops" "kv_run (be_step C fuel d) (take m ops) t = Inr (replicate m None, t')"
      "h \<le> m" "h \<le> Suc H" "be_inv C h t'" "be_content h t' = fold kv_apply (take m ops) Map.empty"
      "slots (bePages t') = n" "m = length ops \<or> h = Suc H"
    using be_run_height [OF assms(2) t(1), of ops H fuel d] assms(4-7) t(2-4) by auto
  have "h \<le> weight (INNER_N C) H" using r(4) less_weight [of H "INNER_N C"] by simp
  then have f: "h < fuel" using be_boundD(1) [OF assms(7)] less_weight [of H "INNER_N C"] by simp
  have find: "\<exists>t''. be_find C fuel key t' = Inr (Some v, t'')"
    if k: "be_content h t' key = Some v" and l: "\<not> beRootLeaf t'" for key v
  proof -
    obtain s' where "be_find C fuel key t' =
        (if be_dangling h t' key then Inl AssertFailed else Inr (be_content h t' key, t'\<lparr>bePages := s'\<rparr>))"
      using be_find_run [OF r(5) [unfolded be_inv_def] l _ f, of key] n(1) r(7) by auto
    then show ?thesis using be_present [OF k] k by simp
  qed
  have small: "LEAF_N C < card (dom (be_content h t')) \<longrightarrow> \<not> beRootLeaf t'" using be_leaf_small [OF r(5)] by auto
  show ?thesis using r(1-3,5,6,8) find small by (intro exI [of _ m] exI [of _ t'] exI [of _ h]) blast
qed

lemma demo_be_new_st: "st (ps_new 1170 (\<lambda>i. i) (\<lambda>_. BeLeaf (new_be_leaf demo_be_config))) Map.empty no_locks {} 1170"
  by (simp add: st_def ps_new_inv) (simp add: ps_new_def)

text \<open>Four keys do not fit into a leaf of the demo tree, and one of them is looked up.\<close>

theorem be_run_as_map_witness:
  "\<exists>t t' t''. be_new demo_be_config (ps_new 1170 (\<lambda>i. i) (\<lambda>_. BeLeaf (new_be_leaf demo_be_config))) = Inr t \<and>
     kv_run (kv_step (be_insert demo_be_config 1170) (be_update demo_be_config 1170) (be_erase demo_be_config 1170 0)
         (be_find demo_be_config 1170)) [KInsert 4 2, KInsert 1 3, KInsert 9 5, KInsert 7 6] t =
       Inr ([None, None, None, None], t') \<and> \<not> beRootLeaf t' \<and> be_find demo_be_config 1170 9 t' = Inr (Some 5, t'')"
proof -
  obtain t where t: "be_new demo_be_config (ps_new 1170 (\<lambda>i. i) (\<lambda>_. BeLeaf (new_be_leaf demo_be_config))) = Inr t"
    using be_new_ok [OF demo_be_new_st, of demo_be_config] by auto
  have d: "INNER_N demo_be_config = 3" "ROOT_N demo_be_config = 3" "LEAF_N demo_be_config = 3"
    by (simp_all add: demo_be_config_def)
  have b: "be_bound demo_be_config 3 = 1170" by (simp add: be_bound_def d numeral_3_eq_3)
  let ?ops = "[KInsert 4 2, KInsert 1 3, KInsert 9 5, KInsert 7 6] :: (8 word, int) kv_op list"
  let ?run = "kv_run (kv_step (be_insert demo_be_config 1170) (be_update demo_be_config 1170)
      (be_erase demo_be_config 1170 0) (be_find demo_be_config 1170))"
  let ?m = "fold kv_apply ?ops Map.empty"
  have w: "writes_ok ?ops Map.empty" "length ?ops < 2 ^ 64" by simp_all
  have b': "be_bound demo_be_config 3 \<le> 1170" using b by simp
  obtain m t' h where
    r: "m \<le> length ?ops" "?run (take m ?ops) t = Inr (replicate m None, t')" "be_content h t' = fold kv_apply (take m ?ops) Map.empty"
      "h \<le> m" "m = length ?ops \<or> h = Suc 3" and
    find: "\<forall>key v. be_content h t' key = Some v \<and> \<not> beRootLeaf t' \<longrightarrow> (\<exists>t''. be_find demo_be_config 1170 key t' = Inr (Some v, t''))" and
    big: "LEAF_N demo_be_config < card (dom (be_content h t')) \<longrightarrow> \<not> beRootLeaf t'"
    using be_run_as_map [OF demo_be_new_st demo_be_bounds(1) t w b' b', of 0] by blast
  have m: "m = length ?ops" using r(1,4,5) by (elim disjE) simp_all
  have c: "be_content h t' = ?m" using r(3) unfolding m take_all [OF order.refl] .
  have "dom ?m = {4, 1, 9, 7}" by auto
  then have "card (dom ?m) = 4" by simp
  then have leaf: "\<not> beRootLeaf t'" using big d(3) unfolding c by simp
  have "?m 9 = Some 5" by simp
  with find leaf c obtain t'' where "be_find demo_be_config 1170 9 t' = Inr (Some 5, t'')" by metis
  moreover have "?run ?ops t = Inr (replicate (length ?ops) None, t')" using r(2) unfolding m take_all [OF order.refl] .
  then have "?run ?ops t = Inr ([None, None, None, None], t')" by (simp del: kv_run.simps)
  ultimately show ?thesis using t leaf by blast
qed

text \<open>
  C23. A flushed tree is opened again with the same contents and the same time stamp: header and
  pages are read back from what the flush has stored.
\<close>
theorem be_flush_reopen:
  assumes "be_inv C h t" "beRootID t < 2 ^ 64" "beTimeStamp t < 2 ^ 64"
  shows "\<exists>t'. be_open (beHdrFile (be_flush t)) (ps_reopen (bePages (be_flush t))) = Inr t' \<and>
           be_inv C h t' \<and> be_content h t' = be_content h t \<and> beTimeStamp t' = beTimeStamp t"
  by (rule be_flush_open_ok [OF assms])

theorem be_flush_reopen_witness:
  "\<exists>t'. be_open (beHdrFile (be_flush demo_be_tree)) (ps_reopen (bePages (be_flush demo_be_tree))) = Inr t' \<and>
     be_inv demo_be_config 1 t' \<and> be_content 1 t' 3 = Some 31"
  using be_flush_reopen [OF demo_be_inv] by (auto simp: demo_values)

end
