(* ===== verification/BeFaults.thy ===== *)
theory BeFaults
  imports BeProps
begin

text \<open>
  Where the B-epsilon-tree does not do what it means to: the cases that the hypotheses of the
  other theorems leave out.
\<close>

section \<open>Splitting a root whose capacity is a multiple of the size of the chunks\<close>

lemma chunk_misses:
  assumes "i + P < rsize r" "rsize r \<le> length (rpivots r)" "length (rchildren r) = length (rpivots r) + 1"
    "P \<le> INNER_N C" "drop i (rchildren r) = drop i cs" "distinct (take (rsize r + 1) cs)"
  shows "cs ! rsize r \<notin> set (bkids (chunk_node C P i r))"
proof
  have b: "bkids (chunk_node C P i r) = take (P + 1) (drop i cs)"
    unfolding bkids_def chunk_node_def
    using take_copy_fwd_front [of i "P + 1" "rchildren r" "replicate (INNER_N C + 1) 0"] assms(1-5)
    by (simp add: new_be_inner_def del: replicate_Suc)
  have "length (drop i (rchildren r)) = length (drop i cs)" using assms(5) by simp
  then have l: "rsize r < length cs" using assms(1-3) by auto
  assume "cs ! rsize r \<in> set (bkids (chunk_node C P i r))"
  then obtain k where k: "k < P + 1" "cs ! rsize r = cs ! (i + k)"
    using assms(1) l by (auto simp: b in_set_conv_nth)
  then have "take (rsize r + 1) cs ! rsize r = take (rsize r + 1) cs ! (i + k)" using assms(1) by simp
  then show False
    using nth_eq_iff_index_eq [OF assms(6), of "rsize r" "i + k"] l k(1) assms(1) by simp
qed

text \<open>
  The loop when the root is a multiple of the chunks: every chunk but the last leaves one separator,
  the children of the root are in the end the new nodes, and the last child has been passed over.
\<close>

lemma dropped_loop:
  assumes "rsize r = i + d * (P + 1)" "rsize r \<le> length (rpivots r)" "length (rchildren r) = length (rpivots r) + 1"
    "P \<le> INNER_N C" "drop i (rchildren r) = drop i cs" "distinct (take (rsize r + 1) cs)" "nrs \<le> i"
    "xst s nd S N" "card S + d \<le> N" "finite S" "set nc \<subseteq> S - {R}" "R \<in> S" "R \<in> dom nd"
    "\<forall>c \<in> set nc. \<exists>e. nd c = Some (BeInner e) \<and> cs ! rsize r \<notin> set (bkids e)"
    "take (if d = 0 then nrs + 1 else nrs) (rchildren r) = nc" "set nc \<inter> D = {}" "D \<subseteq> dom nd"
  shows "\<exists>r' news mids s' nd' S'. split_root_loop C P i nrs r nc mp s = Inr (r', news, mids, s') \<and> xst s' nd' S' N \<and>
    R \<in> S' \<and> R \<notin> set news \<and> (\<forall>c \<in> set news. \<exists>e. nd' c = Some (BeInner e) \<and> cs ! rsize r \<notin> set (bkids e)) \<and>
    rkids r' = news \<and> length news = length nc + d \<and> set news \<inter> D = {}"
  using assms
proof (induction d arbitrary: i r nrs s nd S nc mp)
  case 0
  then have "split_root_loop C P i nrs r nc mp s = Inr (r\<lparr>rsize := nrs\<rparr>, nc, mp, s)"
    by (subst split_root_loop.simps) simp
  moreover have "rkids (r\<lparr>rsize := nrs\<rparr>) = nc" using "0.prems"(15) by (simp add: rkids_def)
  ultimately show ?case using "0.prems"(8,11,12,14,16) by auto
next
  case (Suc d)
  have i: "i < rsize r" using Suc.prems(1) by simp
  have n: "P = min P (rsize r - i)" using Suc.prems(1) by simp
  have S: "card S < N" using Suc.prems(9) by simp
  let ?f = "rsize r \<le> i + (P + 1)"
  obtain c s' where c: "c \<notin> dom nd" "c \<notin> S" "xst s' (nd(c \<mapsto> BeInner (chunk_node C P i r))) (insert c S) N"
      "split_root_loop C P i nrs r nc mp s =
        split_root_loop C P (i + (P + 1)) (if ?f then nrs else nrs + 1) (next_root ?f nrs c (rpivots r ! (i + P)) r)
          (nc @ [c]) (if ?f then mp else mp @ [rpivots r ! (i + P)]) s'"
    using split_round_run [OF Suc.prems(8) S i n refl, of C nrs nc mp] by blast
  let ?r = "next_root ?f nrs c (rpivots r ! (i + P)) r" and ?nd = "nd(c \<mapsto> BeInner (chunk_node C P i r))"
  have "i + P < rsize r" using Suc.prems(1) by simp
  then have z: "cs ! rsize r \<notin> set (bkids (chunk_node C P i r))"
    by (rule chunk_misses [OF _ Suc.prems(2-6)])
  have d: "drop (i + (P + 1)) (rchildren ?r) = drop (i + (P + 1)) cs"
  proof -
    have "drop (i + (P + 1)) (rchildren ?r) = drop (P + 1) (drop i (rchildren r))"
      using Suc.prems(7) by (simp add: add.commute)
    then show ?thesis unfolding Suc.prems(5) by (simp add: add.commute)
  qed
  have size: "rsize ?r = (i + (P + 1)) + d * (P + 1)" "rsize ?r \<le> length (rpivots ?r)"
    "length (rchildren ?r) = length (rpivots ?r) + 1"
    using Suc.prems(1-3) by simp_all
  have set: "finite (insert c S)" "card (insert c S) + d \<le> N" "set (nc @ [c]) \<subseteq> insert c S - {R}" "R \<in> insert c S"
    "R \<in> dom ?nd"
    using Suc.prems(9-13) c(1,2) by auto
  have kids: "\<forall>x \<in> set (nc @ [c]). \<exists>e. ?nd x = Some (BeInner e) \<and> cs ! rsize ?r \<notin> set (bkids e)"
    using Suc.prems(11,14) c(2) z by auto
  have last: "?f \<longleftrightarrow> d = 0" using Suc.prems(1) by (cases d) auto
  have "nrs < length (rchildren r)" using Suc.prems(2,3,7) i by simp
  then have "take (nrs + 1) (rchildren ?r) = nc @ [c]"
    using Suc.prems(15) by (simp add: take_Suc_conv_app_nth)
  then have front: "take (if d = 0 then (if ?f then nrs else nrs + 1) + 1 else (if ?f then nrs else nrs + 1)) (rchildren ?r) =
      nc @ [c]" unfolding last by simp
  have old: "set (nc @ [c]) \<inter> D = {}" "D \<subseteq> dom ?nd" using Suc.prems(16,17) c(1) by auto
  show ?case
    using Suc.IH [OF size Suc.prems(4) d _ _ c(3) set(2,1,3-5) kids front old] Suc.prems(6,7)
    unfolding c(4) by auto
qed

lemma drops_last_child:
  assumes "be_root_ok C n" "rsize n = ROOT_N C" "ROOT_N C mod (INNER_N C div 2 + 1) = 0" "distinct (rkids n)"
    "xst s nd {R} N" "nd R = Some (BeRoot n)" "ROOT_N C + 1 \<le> N" "set (rkids n) \<subseteq> dom nd" "0 < ROOT_N C"
  shows "\<exists>news mids s' r'. splitRootNode C R s = Inr (news, mids, s') \<and> news \<noteq> [] \<and>
           nodes s' R = Some (BeRoot r') \<and> rkids r' = news \<and> last (rkids n) \<notin> set news \<and>
           (\<forall>c \<in> set news. \<exists>e. nodes s' c = Some (BeInner e) \<and> last (rkids n) \<notin> set (bkids e))"
proof -
  note z = be_root_okD [OF assms(1)]
  obtain d where d: "rsize n = 0 + d * (INNER_N C div 2 + 1)"
    using assms(2,3) by (auto simp: mod_eq_0_iff_dvd dvd_def mult.commute)
  have "card {R} + d \<le> N"
  proof -
    have "d * 1 \<le> d * (INNER_N C div 2 + 1)" by (rule mult_le_mono2) simp
    then show ?thesis using d assms(2,7) by simp
  qed
  moreover have R: "R \<in> dom nd" using assms(6) by auto
  have "0 < rsize n" using assms(2,9) by simp
  then have "d \<noteq> 0" using d by auto
  ultimately obtain r' news mids s1 nd' S' where L:
      "split_root_loop C (INNER_N C div 2) 0 0 n [] [] s = Inr (r', news, mids, s1)" "xst s1 nd' S' N" "R \<in> S'"
      "R \<notin> set news" "\<forall>c \<in> set news. \<exists>e. nd' c = Some (BeInner e) \<and> rchildren n ! rsize n \<notin> set (bkids e)"
      "rkids r' = news" "length news = d" "set news \<inter> set (rkids n) = {}"
    using dropped_loop [OF d _ _ _ refl _ le_refl assms(5) _ _ _ _ R _ _ _ assms(8), where C = C and nc = "[]" and mp = "[]"]
      z(1-3) assms(4,6) by (auto simp: rkids_def)
  obtain s2 where s2: "ps_put R (BeRoot r') s1 = Inr s2" "xst s2 (nd'(R \<mapsto> BeRoot r')) S' N"
    using xst_put [OF L(2,3), of "BeRoot r'"] by auto
  have get: "be_root_at R s = Inr n" by (rule be_root_run [OF assms(5) _ assms(6)]) simp
  have ne: "rkids n \<noteq> []" using z(6) by auto
  then have "last (rkids n) = rchildren n ! rsize n"
    using last_conv_nth [of "rkids n"] z(5,6) z(7) [of "rsize n"] by simp
  moreover have "last (rkids n) \<notin> set news" using L(8) last_in_set [OF ne] by blast
  moreover have "nodes s2 = nd'(R \<mapsto> BeRoot r')" using s2(2) by (auto simp: xst_def st_def)
  moreover have "news \<noteq> []" using L(7) \<open>d \<noteq> 0\<close> by auto
  ultimately show ?thesis
    using get L(1,4-6) s2(1)
    by (intro exI [of _ news] exI [of _ mids] exI [of _ s2] exI [of _ r']) (auto simp: splitRootNode_def)
qed

text \<open>
  C21. When the capacity of the root is a multiple of the number of pivots that one round of
  \<open>splitRootNode\<close> takes, the loop ends one child too early: the call returns, the children of the root
  are afterwards exactly the new nodes, and the last child that the root had before is neither a
  child of the root nor of any of the new nodes, so that its keys are lost. (With pages of 4096 bytes, keys and values of 8
  bytes and epsilon 69 the capacity is 253 = 23 * 11 and a round takes 11 pivots.)
\<close>
theorem splitRootNode_drops_last:
  assumes "be_root_ok C n" "rsize n = ROOT_N C" "ROOT_N C mod (INNER_N C div 2 + 1) = 0" "distinct (rkids n)"
    "xst s nd {R} N" "nd R = Some (BeRoot n)" "ROOT_N C + 1 \<le> N" "set (rkids n) \<subseteq> dom nd" "0 < ROOT_N C"
  shows "\<exists>news mids s' r'. splitRootNode C R s = Inr (news, mids, s') \<and> news \<noteq> [] \<and>
           nodes s' R = Some (BeRoot r') \<and> rkids r' = news \<and> last (rkids n) \<notin> set news \<and>
           (\<forall>c \<in> set news. \<exists>e. nodes s' c = Some (BeInner e) \<and> last (rkids n) \<notin> set (bkids e))"
  by (rule drops_last_child [OF assms])

definition five_config :: "(nat, nat) be_config" where
  "five_config = \<lparr>LEAF_N = 3, INNER_N = 5, anyKey = 0, anyVal = 0, ROOT_N = 3, INNER_B_N = 2, zeroKey = 0,
     sizeMaxKey = 255, debugBuild = False, mapOrder = (\<lambda>m. m), sortBySize = (\<lambda>f xs. xs)\<rparr>"

definition full_root :: "nat be_root" where
  "full_root = \<lparr>rpivots = [10, 20, 30], rchildren = [1, 2, 3, 4], rsize = 3\<rparr>"

definition full_root_nodes :: "nat \<Rightarrow> (nat, nat) be_node option" where
  "full_root_nodes =
     [0 \<mapsto> BeRoot full_root, 1 \<mapsto> BeLeaf (new_be_leaf five_config), 2 \<mapsto> BeLeaf (new_be_leaf five_config),
      3 \<mapsto> BeLeaf (new_be_leaf five_config), 4 \<mapsto> BeLeaf (new_be_leaf five_config)]"

definition full_root_store :: "(nat, nat) be_node pstore" where
  "full_root_store =
     \<lparr>slots = 4, nodes = full_root_nodes, locks = no_locks(0 := Exclusive), changed = {},
      id_seq = (\<lambda>i. i), created = 5, stale = (\<lambda>_. BeLeaf \<lparr>keys = [], vals = [], lsize = 0\<rparr>), stored = Map.empty\<rparr>"

theorem splitRootNode_drops_last_witness:
  "\<exists>news mids s' r'. splitRootNode five_config 0 full_root_store = Inr (news, mids, s') \<and> news \<noteq> [] \<and>
     nodes s' 0 = Some (BeRoot r') \<and> 4 \<notin> set (rkids r') \<and>
     (\<forall>c \<in> set (rkids r'). \<exists>e. nodes s' c = Some (BeInner e) \<and> 4 \<notin> set (bkids e))"
proof -
  have r: "be_root_ok five_config full_root" "rsize full_root = ROOT_N five_config" "rkids full_root = [1, 2, 3, 4]"
      "ROOT_N five_config mod (INNER_N five_config div 2 + 1) = 0" "ROOT_N five_config + 1 \<le> 4"
    by (simp_all add: be_root_ok_def five_config_def full_root_def rseps_def rkids_def)
  have n: "full_root_nodes 0 = Some (BeRoot full_root)" "set (rkids full_root) \<subseteq> dom full_root_nodes"
    by (simp_all add: full_root_nodes_def r(3))
  have "st full_root_store full_root_nodes (xlocks {0}) {} 4"
    by (auto simp: st_def full_root_store_def full_root_nodes_def ps_inv_def ps_held_def xlocks_def lessThan_Suc fun_eq_iff
        numeral_eq_Suc)
  then have st: "xst full_root_store full_root_nodes {0} 4" by (auto simp: xst_def)
  have "0 < ROOT_N five_config" by (simp add: five_config_def)
  from splitRootNode_drops_last [OF r(1,2,4) _ st n(1) r(5) n(2) this] show ?thesis by (auto simp: r(3))
qed

section \<open>Inserting a value that the key has already\<close>

definition three_config :: "(nat, nat) be_config" where
  "three_config = five_config\<lparr>INNER_N := 3\<rparr>"

definition full_leaf_tree :: "(nat, nat) be_tree" where
  "full_leaf_tree =
     \<lparr>bePages = \<lparr>slots = 18, nodes =
          [0 \<mapsto> BeRoot \<lparr>rpivots = [10, 0, 0], rchildren = [1, 2, 0, 0], rsize = 1\<rparr>,
           1 \<mapsto> BeLeaf \<lparr>keys = [3, 5, 7], vals = [30, 50, 70], lsize = 3\<rparr>,
           2 \<mapsto> BeLeaf \<lparr>keys = [12, 0, 0], vals = [120, 0, 0], lsize = 1\<rparr>],
        locks = no_locks, changed = {}, id_seq = (\<lambda>i. i), created = 3,
        stale = (\<lambda>_. BeLeaf \<lparr>keys = [], vals = [], lsize = 0\<rparr>), stored = Map.empty\<rparr>,
      beRootID = 0, beTimeStamp = 4, beRootLeaf = False, beHdrFile = empty_file\<rparr>"

text \<open>
  The leaf is full and has the key with the same value: it is split all the same, and then the
  half with the key, which the split has changed, is given back as unchanged. Its changes are lost
  when the page is evicted.
\<close>

lemma same_value_upsert:
  "case be_upsert three_config 18 \<lparr>ukey = 7, uval = 70, timeStamp = 5, utype = INSERT\<rparr> full_leaf_tree of
     Inl e \<Rightarrow> e = LostUpdate | Inr _ \<Rightarrow> False"
  by code_simp

end
