(* ===== verification/Ucsb.thy ===== *)
theory Ucsb
  imports BTreeMap BeOps
begin

text \<open>
  \<open>src/UCSB/src/btree/btree.hpp\<close> and \<open>src/UCSB/src/betree/betree.hpp\<close>: the adapters that make the
  two trees databases of the benchmark UCSB. The two files are the same code over different trees;
  here the code is written once, over the operations of a tree, and then applied to both.

  Keys are 64-bit integers, values are arrays of \<open>VALUE_SIZE_BYTES\<close> bytes. Spans of bytes are
  lists. The constructor of a tree on a directory is an argument of \<open>open\<close>.
\<close>

section \<open>Values and results\<close>

definition VALUE_SIZE_BYTES :: nat where
  "VALUE_SIZE_BYTES = 100"

datatype value_array = Bytes (array_bytes: "8 word list")

text \<open>The \<open>operator+\<close> of \<open>src/UCSB/src/core/db.hpp\<close>, with which an update becomes an overwrite.\<close>

instantiation value_array :: semigroup_add
begin

definition plus_value_array :: "value_array \<Rightarrow> value_array \<Rightarrow> value_array" where
  "plus_value_array first second = second"

instance
  by standard (simp add: plus_value_array_def)

end

definition toArray :: "8 word list \<Rightarrow> value_array result" where
  "toArray valueSpan = bindE (check (length valueSpan = VALUE_SIZE_BYTES)) (\<lambda>_. Inr (Bytes valueSpan))"

datatype operation_status = ok_k | error_k | not_found_k | not_implemented_k

type_synonym operation_result = "nat \<times> operation_status"

section \<open>The adapter over any tree\<close>

record 't adapter =
  config_path :: string
  dir_path :: string
  db :: "'t option"

definition ad_new :: "'t adapter" where
  "ad_new = \<lparr>config_path = '''', dir_path = '''', db = None\<rparr>"

definition ad_set_config :: "string \<Rightarrow> string \<Rightarrow> 't adapter \<Rightarrow> 't adapter" where
  "ad_set_config config dir a = a\<lparr>config_path := config, dir_path := dir\<rparr>"

definition ad_open :: "(string \<Rightarrow> 't result) \<Rightarrow> 't adapter \<Rightarrow> (bool \<times> 't adapter) result" where
  "ad_open construct a =
     (case db a of
        Some t \<Rightarrow> Inr (True, a)
      | None \<Rightarrow> bindE (construct (dir_path a)) (\<lambda>t. Inr (True, a\<lparr>db := Some t\<rparr>)))"

text \<open>The pointer to the tree is followed without a check; a null pointer is undefined.\<close>

definition with_db :: "'t adapter \<Rightarrow> ('t \<Rightarrow> 'a result) \<Rightarrow> 'a result" where
  "with_db a f = (case db a of None \<Rightarrow> Inl Undefined | Some t \<Rightarrow> f t)"

text \<open>The first component is the flushed tree, whose files stay. The destructor calls \<open>close\<close>.\<close>

definition ad_close :: "('t \<Rightarrow> 't) \<Rightarrow> 't adapter \<Rightarrow> ('t \<times> bool \<times> 't adapter) result" where
  "ad_close flush a = with_db a (\<lambda>t. Inr (flush t, True, a\<lparr>db := None\<rparr>))"

definition ad_destructor :: "('t \<Rightarrow> 't) \<Rightarrow> 't adapter \<Rightarrow> unit result" where
  "ad_destructor flush a = bindE (ad_close flush a) (\<lambda>_. Inr ())"

text \<open>\<open>remove_all\<close> stands for \<open>fs::remove_all\<close> on the directory.\<close>

definition ad_destroy :: "('t \<Rightarrow> 't) \<Rightarrow> (string \<Rightarrow> 'f \<Rightarrow> 'f) \<Rightarrow> 't adapter \<Rightarrow> 'f \<Rightarrow> ('t adapter \<times> 'f) result" where
  "ad_destroy flush remove_all a disk =
     bindE (ad_close flush a) (\<lambda>(_, ok, a1). bindE (check ok) (\<lambda>_. Inr (a1, remove_all (dir_path a1) disk)))"

definition ad_write :: "('t \<Rightarrow> 't result) \<Rightarrow> 't adapter \<Rightarrow> (operation_result \<times> 't adapter) result" where
  "ad_write f a = with_db a (\<lambda>t. bindE (f t) (\<lambda>t'. Inr ((1, ok_k), a\<lparr>db := Some t'\<rparr>)))"

definition ad_upsert ::
  "('k \<Rightarrow> value_array \<Rightarrow> 't \<Rightarrow> 't result) \<Rightarrow> 'k \<Rightarrow> 8 word list \<Rightarrow> 't adapter \<Rightarrow> (operation_result \<times> 't adapter) result" where
  "ad_upsert insertOp key valueSpan = ad_write (\<lambda>t. bindE (toArray valueSpan) (\<lambda>v. insertOp key v t))"

definition ad_update ::
  "('k \<Rightarrow> value_array \<Rightarrow> 't \<Rightarrow> 't result) \<Rightarrow> 'k \<Rightarrow> 8 word list \<Rightarrow> 't adapter \<Rightarrow> (operation_result \<times> 't adapter) result" where
  "ad_update upd key valueSpan = ad_write (\<lambda>t. bindE (toArray valueSpan) (\<lambda>v. upd key v t))"

definition ad_remove :: "('k \<Rightarrow> 't \<Rightarrow> 't result) \<Rightarrow> 'k \<Rightarrow> 't adapter \<Rightarrow> (operation_result \<times> 't adapter) result" where
  "ad_remove era key = ad_write (era key)"

text \<open>\<open>out\<close> is the memory of the caller's span; \<open>memmove\<close> writes behind its end when it is short.\<close>

definition ad_read ::
  "('k \<Rightarrow> 't \<Rightarrow> (value_array option \<times> 't) result) \<Rightarrow> 'k \<Rightarrow> 8 word list \<Rightarrow> 't adapter \<Rightarrow>
   (operation_result \<times> 8 word list \<times> 't adapter) result" where
  "ad_read fnd key out a =
     with_db a (\<lambda>t. bindE (fnd key t) (\<lambda>(res, t').
       case res of
         None \<Rightarrow> Inr ((1, not_found_k), out, a\<lparr>db := Some t'\<rparr>)
       | Some v \<Rightarrow>
           if length out < VALUE_SIZE_BYTES then Inl Undefined
           else Inr ((1, ok_k), array_bytes v @ drop VALUE_SIZE_BYTES out, a\<lparr>db := Some t'\<rparr>)))"

text \<open>These calls are not supported.\<close>

definition ad_batch_upsert :: "'k list \<Rightarrow> 8 word list \<Rightarrow> nat list \<Rightarrow> operation_result" where
  "ad_batch_upsert ks vs sizes = (length ks, error_k)"

definition ad_batch_read :: "'k list \<Rightarrow> 8 word list \<Rightarrow> operation_result" where
  "ad_batch_read ks vs = (length ks, error_k)"

definition ad_range_select :: "'k \<Rightarrow> nat \<Rightarrow> 8 word list \<Rightarrow> operation_result" where
  "ad_range_select key n vs = (0, error_k)"

definition ad_scan :: "'k \<Rightarrow> nat \<Rightarrow> 8 word list \<Rightarrow> operation_result" where
  "ad_scan key n vs = (0, error_k)"

text \<open>
  The loop of \<open>bulk_load\<close> with the number of rounds left, the sizes left and the offset. Every round
  inserts under \<open>keys[0]\<close>.
\<close>

fun bulk_loop ::
  "('k \<Rightarrow> value_array \<Rightarrow> 't \<Rightarrow> 't result) \<Rightarrow> 'k list \<Rightarrow> 8 word list \<Rightarrow> nat \<Rightarrow> nat list \<Rightarrow> nat \<Rightarrow> 't \<Rightarrow> 't result" where
  "bulk_loop insertOp ks vs 0 sizes off t = Inr t"
| "bulk_loop insertOp ks vs (Suc n) [] off t = Inl Undefined"
| "bulk_loop insertOp ks vs (Suc n) (z # sizes) off t =
     (if off + z > length vs then Inl Undefined
      else bindE (toArray (take z (drop off vs))) (\<lambda>v.
           bindE (insertOp (ks ! 0) v t) (\<lambda>t'. bulk_loop insertOp ks vs n sizes (off + z) t')))"

definition ad_bulk_load ::
  "('k \<Rightarrow> value_array \<Rightarrow> 't \<Rightarrow> 't result) \<Rightarrow> 'k list \<Rightarrow> 8 word list \<Rightarrow> nat list \<Rightarrow> 't adapter \<Rightarrow>
   (operation_result \<times> 't adapter) result" where
  "ad_bulk_load insertOp ks vs sizes a =
     (if ks = [] then Inr ((0, ok_k), a)
      else with_db a (\<lambda>t. bindE (bulk_loop insertOp ks vs (length ks) sizes 0 t) (\<lambda>t'.
             Inr ((length ks, ok_k), a\<lparr>db := Some t'\<rparr>))))"

definition ad_flush :: "('t \<Rightarrow> 't) \<Rightarrow> 't adapter \<Rightarrow> 't adapter result" where
  "ad_flush flush a = with_db a (\<lambda>t. Inr (a\<lparr>db := Some (flush t)\<rparr>))"

section \<open>An adapter over a store with the laws of a map\<close>

locale ucsb_store = kv_store inv content ins upd era fnd
  for inv :: "'s \<Rightarrow> bool" and content :: "'s \<Rightarrow> ('k \<rightharpoonup> value_array)"
    and ins :: "'k \<Rightarrow> value_array \<Rightarrow> 's \<Rightarrow> 's result" and upd :: "'k \<Rightarrow> value_array \<Rightarrow> 's \<Rightarrow> 's result"
    and era :: "'k \<Rightarrow> 's \<Rightarrow> 's result" and fnd :: "'k \<Rightarrow> 's \<Rightarrow> (value_array option \<times> 's) result"
begin

lemma upsert_run:
  assumes "db a = Some t" "inv t" "length bs = VALUE_SIZE_BYTES"
  shows "\<exists>t'. ad_upsert ins key bs a = Inr ((1, ok_k), a\<lparr>db := Some t'\<rparr>) \<and> inv t' \<and>
           content t' = (content t)(key \<mapsto> Bytes bs)"
  using insert_law [OF assms(2), of key "Bytes bs"] assms(1,3)
  by (auto simp: ad_upsert_def ad_write_def with_db_def toArray_def)

lemma update_run:
  assumes "db a = Some t" "inv t" "length bs = VALUE_SIZE_BYTES"
  shows "\<exists>t'. ad_update upd key bs a = Inr ((1, ok_k), a\<lparr>db := Some t'\<rparr>) \<and> inv t' \<and>
           content t' = (if content t key = None then content t else (content t)(key \<mapsto> Bytes bs))"
  using update_law [OF assms(2), of key "Bytes bs"] assms(1,3)
  by (auto simp: ad_update_def ad_write_def with_db_def toArray_def map_update_def plus_value_array_def
      split: option.splits)

lemma remove_run:
  assumes "db a = Some t" "inv t"
  shows "\<exists>t'. ad_remove era key a = Inr ((1, ok_k), a\<lparr>db := Some t'\<rparr>) \<and> inv t' \<and>
           content t' = (content t)(key := None)"
  using erase_law [OF assms(2), of key] assms(1) by (auto simp: ad_remove_def ad_write_def with_db_def)

lemma read_run:
  assumes "db a = Some t" "inv t" "VALUE_SIZE_BYTES \<le> length out"
  shows "\<exists>t'. ad_read fnd key out a =
             (case content t key of
                None \<Rightarrow> Inr ((1, not_found_k), out, a\<lparr>db := Some t'\<rparr>)
              | Some v \<Rightarrow> Inr ((1, ok_k), array_bytes v @ drop VALUE_SIZE_BYTES out, a\<lparr>db := Some t'\<rparr>)) \<and>
           inv t' \<and> content t' = content t"
proof -
  obtain t' where "fnd key t = Inr (content t key, t')" "inv t'" "content t' = content t"
    using find_law [OF assms(2)] by blast
  then show ?thesis
    using assms(1,3) by (intro exI [of _ t'], cases "content t key") (simp_all add: ad_read_def with_db_def del: bindE_eq_Inr)
qed

text \<open>All rounds of \<open>bulk_load\<close> write the same key.\<close>

lemma bulk_loop_run:
  assumes "inv t" "n \<le> length sizes" "\<forall>z \<in> set sizes. z = VALUE_SIZE_BYTES" "off + n * VALUE_SIZE_BYTES \<le> length vs"
  shows "\<exists>t'. bulk_loop ins ks vs n sizes off t = Inr t' \<and> inv t' \<and>
           content t' = (if n = 0 then content t
             else (content t)(ks ! 0 \<mapsto> Bytes (take VALUE_SIZE_BYTES (drop (off + (n - 1) * VALUE_SIZE_BYTES) vs))))"
  using assms
proof (induction n arbitrary: t sizes off)
  case (Suc n)
  let ?V = VALUE_SIZE_BYTES and ?bs = "take VALUE_SIZE_BYTES (drop off vs)"
  obtain sizes' where z: "sizes = ?V # sizes'" using Suc.prems(2,3) by (cases sizes) auto
  have len: "length ?bs = ?V" "off + ?V \<le> length vs" using Suc.prems(4) by auto
  obtain t1 where t1: "ins (ks ! 0) (Bytes ?bs) t = Inr t1" "inv t1" "content t1 = (content t)(ks ! 0 \<mapsto> Bytes ?bs)"
    using insert_law [OF Suc.prems(1)] by blast
  have sz: "\<forall>z \<in> set sizes'. z = ?V" "n \<le> length sizes'" "off + ?V + n * ?V \<le> length vs"
    using Suc.prems(2-4) z by auto
  obtain t2 where t2: "bulk_loop ins ks vs n sizes' (off + ?V) t1 = Inr t2" "inv t2"
      "content t2 = (if n = 0 then content t1
         else (content t1)(ks ! 0 \<mapsto> Bytes (take ?V (drop (off + ?V + (n - 1) * ?V) vs))))"
    using Suc.IH [OF t1(2) sz(2,1,3)] by blast
  have d: "off + ?V + (n - 1) * ?V = off + n * ?V" if "n \<noteq> 0" using that by (cases n) simp_all
  have "content t2 = (content t)(ks ! 0 \<mapsto> Bytes (take ?V (drop (off + n * ?V) vs)))"
  proof (cases "n = 0")
    case False
    show ?thesis by (simp only: t2(3) t1(3) d [OF False] False if_False fun_upd_upd)
  qed (simp add: t2(3) t1(3))
  moreover have "bulk_loop ins ks vs (Suc n) sizes off t = Inr t2"
    using z len t1(1) t2(1) by (simp add: toArray_def)
  ultimately show ?case using t2(2) by auto
qed simp

lemma bulk_load_run:
  assumes "db a = Some t" "inv t" "ks \<noteq> []" "length ks \<le> length sizes" "\<forall>z \<in> set sizes. z = VALUE_SIZE_BYTES"
    "length ks * VALUE_SIZE_BYTES \<le> length vs"
  shows "\<exists>t'. ad_bulk_load ins ks vs sizes a = Inr ((length ks, ok_k), a\<lparr>db := Some t'\<rparr>) \<and> inv t' \<and>
           content t' = (content t)(hd ks \<mapsto>
             Bytes (take VALUE_SIZE_BYTES (drop ((length ks - 1) * VALUE_SIZE_BYTES) vs)))"
proof -
  obtain t' where "bulk_loop ins ks vs (length ks) sizes 0 t = Inr t'" "inv t'"
      "content t' = (content t)(ks ! 0 \<mapsto> Bytes (take VALUE_SIZE_BYTES (drop (0 + (length ks - 1) * VALUE_SIZE_BYTES) vs)))"
    using bulk_loop_run [OF assms(2,4,5), of 0 vs ks] assms(3,6) by auto
  then show ?thesis using assms(1,3) by (auto simp: ad_bulk_load_def with_db_def hd_conv_nth)
qed

end

section \<open>The adapter of the B+-tree\<close>

text \<open>The adapter type and its methods, each over the operations of the tree. The number of pages
  bounds every descent.\<close>

type_synonym btree_t = "(64 word, value_array) btree adapter"

definition btree_t_set_config :: "string \<Rightarrow> string \<Rightarrow> btree_t \<Rightarrow> btree_t" where
  "btree_t_set_config = ad_set_config"

definition btree_t_open ::
  "(string \<Rightarrow> (64 word, value_array) btree result) \<Rightarrow> btree_t \<Rightarrow> (bool \<times> btree_t) result" where
  "btree_t_open = ad_open"

definition btree_t_close :: "btree_t \<Rightarrow> ((64 word, value_array) btree \<times> bool \<times> btree_t) result" where
  "btree_t_close = ad_close bt_flush"

definition btree_t_upsert ::
  "(64 word, value_array) bconfig \<Rightarrow> 64 word \<Rightarrow> 8 word list \<Rightarrow> btree_t \<Rightarrow> (operation_result \<times> btree_t) result" where
  "btree_t_upsert C = ad_upsert (\<lambda>k v t. bt_insert C (bt_fuel t) k v t)"

definition btree_t_update ::
  "(64 word, value_array) bconfig \<Rightarrow> 64 word \<Rightarrow> 8 word list \<Rightarrow> btree_t \<Rightarrow> (operation_result \<times> btree_t) result" where
  "btree_t_update C = ad_update (\<lambda>k v t. bt_update C (bt_fuel t) k v t)"

definition btree_t_remove ::
  "(64 word, value_array) bconfig \<Rightarrow> 64 word \<Rightarrow> btree_t \<Rightarrow> (operation_result \<times> btree_t) result" where
  "btree_t_remove C = ad_remove (\<lambda>k t. bt_erase C (bt_fuel t) k t)"

definition btree_t_read ::
  "(64 word, value_array) bconfig \<Rightarrow> 64 word \<Rightarrow> 8 word list \<Rightarrow> btree_t \<Rightarrow>
   (operation_result \<times> 8 word list \<times> btree_t) result" where
  "btree_t_read C = ad_read (\<lambda>k t. bt_find C (bt_fuel t) k t)"

definition btree_t_bulk_load ::
  "(64 word, value_array) bconfig \<Rightarrow> 64 word list \<Rightarrow> 8 word list \<Rightarrow> nat list \<Rightarrow> btree_t \<Rightarrow>
   (operation_result \<times> btree_t) result" where
  "btree_t_bulk_load C = ad_bulk_load (\<lambda>k v t. bt_insert C (bt_fuel t) k v t)"

definition btree_t_flush :: "btree_t \<Rightarrow> btree_t result" where
  "btree_t_flush = ad_flush bt_flush"

interpretation ucsb_btree: ucsb_store "\<lambda>t. bt_config C \<and> bt_inv C t" bt_map
  "\<lambda>k v t. bt_insert C (bt_fuel t) k v t" "\<lambda>k v t. bt_update C (bt_fuel t) k v t"
  "\<lambda>k t. bt_erase C (bt_fuel t) k t" "\<lambda>k t. bt_find C (bt_fuel t) k t"
  for C :: "(64 word, value_array) bconfig"
  by unfold_locales

lemmas btree_t_defs = btree_t_upsert_def btree_t_update_def btree_t_remove_def btree_t_read_def btree_t_bulk_load_def

text \<open>
  On an open adapter of the B+-tree an upsert or an update of a present key is what the next
  read of the key gives, and a removed key is not found. A read of another key is not affected.
\<close>
theorem btree_t_read_back:
  assumes "db a = Some t" "bt_config C" "bt_inv C t" "length bs = VALUE_SIZE_BYTES" "length out = VALUE_SIZE_BYTES"
  shows "(\<exists>a1 a2. btree_t_upsert C key bs a = Inr ((1, ok_k), a1) \<and>
            btree_t_read C key out a1 = Inr ((1, ok_k), bs, a2)) \<and>
         (\<exists>a1 a2. btree_t_update C key bs a = Inr ((1, ok_k), a1) \<and>
            btree_t_read C key out a1 =
              (if bt_map t key = None then Inr ((1, not_found_k), out, a2) else Inr ((1, ok_k), bs, a2))) \<and>
         (\<exists>a1 a2. btree_t_remove C key a = Inr ((1, ok_k), a1) \<and>
            btree_t_read C key out a1 = Inr ((1, not_found_k), out, a2))"
proof (intro conjI)
  have inv: "bt_config C \<and> bt_inv C t" using assms(2,3) by blast
  have out: "VALUE_SIZE_BYTES \<le> length out" using assms(5) by simp
  note read = ucsb_btree.read_run [OF _ _ out]
  obtain t1 where t1: "btree_t_upsert C key bs a = Inr ((1, ok_k), a\<lparr>db := Some t1\<rparr>)" "bt_config C \<and> bt_inv C t1"
      "bt_map t1 = (bt_map t)(key \<mapsto> Bytes bs)"
    using ucsb_btree.upsert_run [OF assms(1) inv assms(4)] unfolding btree_t_defs by blast
  show "\<exists>a1 a2. btree_t_upsert C key bs a = Inr ((1, ok_k), a1) \<and> btree_t_read C key out a1 = Inr ((1, ok_k), bs, a2)"
    using t1 read [of "a\<lparr>db := Some t1\<rparr>" t1 C key] assms(5) by (auto simp: btree_t_read_def)
  obtain t2 where t2: "btree_t_update C key bs a = Inr ((1, ok_k), a\<lparr>db := Some t2\<rparr>)" "bt_config C \<and> bt_inv C t2"
      "bt_map t2 = (if bt_map t key = None then bt_map t else (bt_map t)(key \<mapsto> Bytes bs))"
    using ucsb_btree.update_run [OF assms(1) inv assms(4)] unfolding btree_t_defs by blast
  show "\<exists>a1 a2. btree_t_update C key bs a = Inr ((1, ok_k), a1) \<and> btree_t_read C key out a1 =
      (if bt_map t key = None then Inr ((1, not_found_k), out, a2) else Inr ((1, ok_k), bs, a2))"
    using t2 read [of "a\<lparr>db := Some t2\<rparr>" t2 C key] assms(5) by (auto simp: btree_t_read_def)
  obtain t3 where t3: "btree_t_remove C key a = Inr ((1, ok_k), a\<lparr>db := Some t3\<rparr>)" "bt_config C \<and> bt_inv C t3"
      "bt_map t3 = (bt_map t)(key := None)"
    using ucsb_btree.remove_run [OF assms(1) inv] unfolding btree_t_defs by blast
  show "\<exists>a1 a2. btree_t_remove C key a = Inr ((1, ok_k), a1) \<and> btree_t_read C key out a1 = Inr ((1, not_found_k), out, a2)"
    using t3 read [of "a\<lparr>db := Some t3\<rparr>" t3 C key] by (auto simp: btree_t_read_def)
qed

text \<open>
  \<open>bulk_load\<close> reports that it has stored all keys, but stores every value under the first key: what
  remains is the last value there, and no other key is added.
\<close>
theorem btree_t_bulk_load_first_key:
  assumes "db a = Some t" "bt_config C" "bt_inv C t" "ks \<noteq> []" "length sizes = length ks"
    "\<forall>z \<in> set sizes. z = VALUE_SIZE_BYTES" "length vs = length ks * VALUE_SIZE_BYTES"
  shows "\<exists>t'. btree_t_bulk_load C ks vs sizes a = Inr ((length ks, ok_k), a\<lparr>db := Some t'\<rparr>) \<and> bt_inv C t' \<and>
           bt_map t' = (bt_map t)(hd ks \<mapsto>
             Bytes (take VALUE_SIZE_BYTES (drop ((length ks - 1) * VALUE_SIZE_BYTES) vs)))"
  using ucsb_btree.bulk_load_run [OF assms(1) conjI [OF assms(2,3)] assms(4) _ assms(6), of vs] assms(5,7)
  unfolding btree_t_defs by auto

section \<open>The adapter of the B-epsilon-tree\<close>

type_synonym betree_t = "(64 word, value_array) be_tree adapter"

definition betree_t_set_config :: "string \<Rightarrow> string \<Rightarrow> betree_t \<Rightarrow> betree_t" where
  "betree_t_set_config = ad_set_config"

definition betree_t_open ::
  "(string \<Rightarrow> (64 word, value_array) be_tree result) \<Rightarrow> betree_t \<Rightarrow> (bool \<times> betree_t) result" where
  "betree_t_open = ad_open"

definition betree_t_close :: "betree_t \<Rightarrow> ((64 word, value_array) be_tree \<times> bool \<times> betree_t) result" where
  "betree_t_close = ad_close be_flush"

definition betree_t_upsert ::
  "(64 word, value_array) be_config \<Rightarrow> nat \<Rightarrow> 64 word \<Rightarrow> 8 word list \<Rightarrow> betree_t \<Rightarrow> (operation_result \<times> betree_t) result" where
  "betree_t_upsert C fuel = ad_upsert (be_insert C fuel)"

definition betree_t_update ::
  "(64 word, value_array) be_config \<Rightarrow> nat \<Rightarrow> 64 word \<Rightarrow> 8 word list \<Rightarrow> betree_t \<Rightarrow> (operation_result \<times> betree_t) result" where
  "betree_t_update C fuel = ad_update (be_update C fuel)"

text \<open>An erase sends \<open>V()\<close>, an array of zeros.\<close>

definition betree_t_remove ::
  "(64 word, value_array) be_config \<Rightarrow> nat \<Rightarrow> 64 word \<Rightarrow> betree_t \<Rightarrow> (operation_result \<times> betree_t) result" where
  "betree_t_remove C fuel = ad_remove (be_erase C fuel (Bytes (replicate VALUE_SIZE_BYTES 0)))"

definition betree_t_read ::
  "(64 word, value_array) be_config \<Rightarrow> nat \<Rightarrow> 64 word \<Rightarrow> 8 word list \<Rightarrow> betree_t \<Rightarrow>
   (operation_result \<times> 8 word list \<times> betree_t) result" where
  "betree_t_read C fuel = ad_read (be_find C fuel)"

definition betree_t_bulk_load ::
  "(64 word, value_array) be_config \<Rightarrow> nat \<Rightarrow> 64 word list \<Rightarrow> 8 word list \<Rightarrow> nat list \<Rightarrow> betree_t \<Rightarrow>
   (operation_result \<times> betree_t) result" where
  "betree_t_bulk_load C fuel = ad_bulk_load (be_insert C fuel)"

definition betree_t_flush :: "betree_t \<Rightarrow> betree_t result" where
  "betree_t_flush = ad_flush be_flush"

text \<open>
  An upsert on an open adapter of the B-epsilon-tree reports success, and the next read of the key
  gives its bytes if the tree has a root node by then. Before its first split the tree finds
  nothing, and the read reports that the key is missing.
\<close>
theorem betree_t_read_back:
  assumes "db a = Some t" "be_inv C h t" "beTimeStamp t + 1 < 2 ^ 64" "be_config_ok C"
    "be_content h t key \<noteq> Some (Bytes bs)" "be_bound C h \<le> slots (bePages t)" "be_bound C h \<le> fuel"
    "length bs = VALUE_SIZE_BYTES" "length out = VALUE_SIZE_BYTES"
  shows "\<exists>t1 a2. betree_t_upsert C fuel key bs a = Inr ((1, ok_k), a\<lparr>db := Some t1\<rparr>) \<and>
           betree_t_read C fuel key out (a\<lparr>db := Some t1\<rparr>) =
             (if beRootLeaf t1 then Inr ((1, not_found_k), out, a2) else Inr ((1, ok_k), bs, a2))"
proof -
  obtain t1 h1 where t1: "be_insert C fuel key (Bytes bs) t = Inr t1" "h1 \<le> Suc h" "be_inv C h1 t1"
      "be_content h1 t1 = (be_content h t)(key \<mapsto> Bytes bs)" "slots (bePages t1) = slots (bePages t)"
    using be_insert_ok [OF assms(2-7)] unfolding step_ok_def by blast
  have up: "betree_t_upsert C fuel key bs a = Inr ((1, ok_k), a\<lparr>db := Some t1\<rparr>)"
    using t1(1) assms(1,8) by (simp add: betree_t_upsert_def ad_upsert_def ad_write_def with_db_def toArray_def)
  have core: "be_core C h1 (beTimeStamp t1) t1" using t1(3) by (simp add: be_inv_def)
  have n: "3 \<le> slots (bePages t1)" using be_boundD(3) [OF assms(6)] t1(5) by simp
  show ?thesis
  proof (cases "beRootLeaf t1")
    case True
    obtain s' where "be_find C fuel key t1 = Inr (None, t1\<lparr>bePages := s'\<rparr>)"
      using be_find_leaf [OF core True] n by fastforce
    then show ?thesis using up True by (auto simp: betree_t_read_def ad_read_def with_db_def)
  next
    case False
    have "h1 < fuel" using t1(2) less_weight [of h "INNER_N C"] be_boundD(1) [OF assms(7)] by linarith
    then obtain s' where "be_find C fuel key t1 = Inr (Some (Bytes bs), t1\<lparr>bePages := s'\<rparr>)"
      using be_find_run [OF core False, of fuel key] be_present [of h1 t1 key] n t1(4) by auto
    then show ?thesis using up False assms(9) by (auto simp: betree_t_read_def ad_read_def with_db_def)
  qed
qed

section \<open>Small adapters\<close>

definition demo_bconfig :: "(64 word, value_array) bconfig" where
  "demo_bconfig = \<lparr>LEAF_N = 2, INNER_N = 2, anyKey = 0, anyVal = Bytes []\<rparr>"

definition demo_value :: "8 word \<Rightarrow> 8 word list" where
  "demo_value b = replicate VALUE_SIZE_BYTES b"

lemma demo_value_length [simp]: "length (demo_value b) = VALUE_SIZE_BYTES"
  by (simp add: demo_value_def)

lemma demo_btree:
  "\<exists>t. bt_new demo_bconfig (ps_new 3 (\<lambda>i. i) (\<lambda>_. Leaf (new_leaf demo_bconfig))) = Inr t \<and>
     bt_config demo_bconfig \<and> bt_inv demo_bconfig t \<and> bt_map t = Map.empty"
proof -
  have "st (ps_new 3 (\<lambda>i. i) (\<lambda>_. Leaf (new_leaf demo_bconfig))) Map.empty no_locks {} 3"
    by (simp add: st_def ps_new_inv) (simp add: ps_new_def)
  then show ?thesis using bt_new_ok [of _ Map.empty 3 demo_bconfig] by (auto simp: bt_config_def demo_bconfig_def)
qed

theorem btree_t_read_back_witness:
  "\<exists>t a1 a2. bt_new demo_bconfig (ps_new 3 (\<lambda>i. i) (\<lambda>_. Leaf (new_leaf demo_bconfig))) = Inr t \<and>
     btree_t_upsert demo_bconfig 5 (demo_value 7) (ad_new\<lparr>db := Some t\<rparr>) = Inr ((1, ok_k), a1) \<and>
     btree_t_read demo_bconfig 5 (demo_value 0) a1 = Inr ((1, ok_k), demo_value 7, a2)"
proof -
  obtain t where t: "bt_new demo_bconfig (ps_new 3 (\<lambda>i. i) (\<lambda>_. Leaf (new_leaf demo_bconfig))) = Inr t"
      "bt_config demo_bconfig" "bt_inv demo_bconfig t"
    using demo_btree by blast
  have "db (ad_new\<lparr>db := Some t\<rparr>) = Some t" by simp
  from btree_t_read_back [OF this t(2,3), of "demo_value 7" "demo_value 0" 5] t(1) show ?thesis by auto
qed

theorem btree_t_bulk_load_first_key_witness:
  "\<exists>t t'. bt_new demo_bconfig (ps_new 3 (\<lambda>i. i) (\<lambda>_. Leaf (new_leaf demo_bconfig))) = Inr t \<and>
     btree_t_bulk_load demo_bconfig [1, 2] (demo_value 7 @ demo_value 8) [VALUE_SIZE_BYTES, VALUE_SIZE_BYTES]
       (ad_new\<lparr>db := Some t\<rparr>) = Inr ((2, ok_k), ad_new\<lparr>db := Some t'\<rparr>) \<and> bt_map t' = [1 \<mapsto> Bytes (demo_value 8)]"
proof -
  obtain t where t: "bt_new demo_bconfig (ps_new 3 (\<lambda>i. i) (\<lambda>_. Leaf (new_leaf demo_bconfig))) = Inr t"
      "bt_config demo_bconfig" "bt_inv demo_bconfig t" "bt_map t = Map.empty"
    using demo_btree by blast
  have "db (ad_new\<lparr>db := Some t\<rparr>) = Some t" by simp
  from btree_t_bulk_load_first_key [OF this t(2,3), of "[1, 2]" "[VALUE_SIZE_BYTES, VALUE_SIZE_BYTES]"
      "demo_value 7 @ demo_value 8"] t(1,4)
  show ?thesis by (auto simp: numeral_2_eq_2)
qed

definition demo_be_params :: "(64 word, value_array) be_config" where
  "demo_be_params = \<lparr>LEAF_N = 3, INNER_N = 3, anyKey = 0, anyVal = Bytes [], ROOT_N = 3, INNER_B_N = 2, zeroKey = 0,
     sizeMaxKey = - 1, debugBuild = False, mapOrder = (\<lambda>m. m), sortBySize = (\<lambda>f. sort_key (\<lambda>i. - int (f i)))\<rparr>"

lemma demo_be_params_ok: "be_config_ok demo_be_params" "be_bound demo_be_params 0 = 6"
proof -
  have "sorted_wrt (\<lambda>i j. f j \<le> f i) (sort_key (\<lambda>i. - int (f i)) xs)" for f :: "nat \<Rightarrow> nat" and xs
    using sorted_sort_key [of "\<lambda>i. - int (f i)" xs] by (simp add: sorted_map)
  then have "std_ok demo_be_params" by (simp add: std_ok_def demo_be_params_def distinct_map)
  moreover have d: "LEAF_N demo_be_params = 3" "INNER_N demo_be_params = 3" "ROOT_N demo_be_params = 3"
    "INNER_B_N demo_be_params = 2" "zeroKey demo_be_params = 0" "sizeMaxKey demo_be_params = - 1"
    "debugBuild demo_be_params = False"
    by (simp_all add: demo_be_params_def)
  ultimately show "be_config_ok demo_be_params"
    by (simp add: be_config_ok_def config_ok_def d numeral_2_eq_2 [symmetric])
  show "be_bound demo_be_params 0 = 6" by (simp add: be_bound_def d)
qed

theorem betree_t_read_back_witness:
  "\<exists>t t1 a2. be_new demo_be_params (ps_new 6 (\<lambda>i. i) (\<lambda>_. BeLeaf (new_be_leaf demo_be_params))) = Inr t \<and>
     betree_t_upsert demo_be_params 6 5 (demo_value 7) (ad_new\<lparr>db := Some t\<rparr>) = Inr ((1, ok_k), ad_new\<lparr>db := Some t1\<rparr>) \<and>
     betree_t_read demo_be_params 6 5 (demo_value 0) (ad_new\<lparr>db := Some t1\<rparr>) =
       (if beRootLeaf t1 then Inr ((1, not_found_k), demo_value 0, a2) else Inr ((1, ok_k), demo_value 7, a2))"
proof -
  have "st (ps_new 6 (\<lambda>i. i) (\<lambda>_. BeLeaf (new_be_leaf demo_be_params))) Map.empty no_locks {} 6"
    by (simp add: st_def ps_new_inv) (simp add: ps_new_def)
  from be_new_ok [OF this, of demo_be_params] obtain t where
    t: "be_new demo_be_params (ps_new 6 (\<lambda>i. i) (\<lambda>_. BeLeaf (new_be_leaf demo_be_params))) = Inr t"
      "be_inv demo_be_params 0 t" "be_content 0 t = Map.empty" "slots (bePages t) = 6" "beTimeStamp t = 0" by auto
  have "db (ad_new\<lparr>db := Some t\<rparr>) = Some t" by simp
  from betree_t_read_back [OF this t(2) _ demo_be_params_ok(1), of 5 "demo_value 7" 6 "demo_value 0"] t(1,3-5)
  show ?thesis by (auto simp: demo_be_params_ok(2))
qed

end
