(* ===== verification/UcsbFence.thy ===== *)
theory UcsbFence
  imports Main
begin

text \<open>
  \<open>src/UCSB/src/core/threads_fence.hpp\<close>: the barrier at which the threads of the benchmark meet
  before and after a workload. \<open>N\<close> threads call \<open>sync\<close> again and again; one step is one access
  to one of the two atomic counters. \<open>compare_exchange_weak\<close> may fail although the value is the
  expected one: this is an event of its own (\<open>Spurious\<close>). With such failures the fence is still
  safe, but it can get stuck.
\<close>

section \<open>State and steps\<close>

datatype sync_pc =
    Outside
  | SpinReleased
  | CountWaiting
  | SpinWaiting
  | CountReleased
  | TestReleased
  | ResetWaiting
  | ResetReleased

text \<open>\<open>entered\<close> and \<open>left\<close> are history: how often a thread has been counted at each of the two counters.\<close>

record fence =
  waiting_threads_count :: nat
  released_threads_count :: nat
  sync_pcs :: "nat \<Rightarrow> sync_pc"
  entered :: "nat \<Rightarrow> nat"
  left :: "nat \<Rightarrow> nat"

definition fence_new :: fence where
  "fence_new = \<lparr>waiting_threads_count = 0, released_threads_count = 0, sync_pcs = (\<lambda>_. Outside),
                entered = (\<lambda>_. 0), left = (\<lambda>_. 0)\<rparr>"

definition sync_goto :: "nat \<Rightarrow> sync_pc \<Rightarrow> fence \<Rightarrow> fence" where
  "sync_goto t p s = s\<lparr>sync_pcs := (sync_pcs s)(t := p)\<rparr>"

definition compare_exchange :: "nat \<Rightarrow> nat \<Rightarrow> nat \<Rightarrow> nat" where
  "compare_exchange expected desired x = (if x = expected then desired else x)"

text \<open>The statements of \<open>sync\<close>; a thread that spins on a counter has no step (\<open>None\<close>).\<close>

fun sync_step :: "nat \<Rightarrow> nat \<Rightarrow> sync_pc \<Rightarrow> fence \<Rightarrow> fence option" where
  "sync_step N t Outside s = None"
| "sync_step N t SpinReleased s =
     (if released_threads_count s = 0 then Some (sync_goto t CountWaiting s) else None)"
| "sync_step N t CountWaiting s =
     Some (sync_goto t SpinWaiting (s\<lparr>waiting_threads_count := waiting_threads_count s + 1,
       entered := (entered s)(t := entered s t + 1)\<rparr>))"
| "sync_step N t SpinWaiting s =
     (if waiting_threads_count s = N then Some (sync_goto t CountReleased s) else None)"
| "sync_step N t CountReleased s =
     Some (sync_goto t TestReleased (s\<lparr>released_threads_count := released_threads_count s + 1,
       left := (left s)(t := left s t + 1)\<rparr>))"
| "sync_step N t TestReleased s =
     Some (sync_goto t (if released_threads_count s = N then ResetWaiting else Outside) s)"
| "sync_step N t ResetWaiting s =
     Some (sync_goto t ResetReleased
       (s\<lparr>waiting_threads_count := compare_exchange N 0 (waiting_threads_count s)\<rparr>))"
| "sync_step N t ResetReleased s =
     Some (sync_goto t Outside
       (s\<lparr>released_threads_count := compare_exchange N 0 (released_threads_count s)\<rparr>))"

datatype fence_event = CallSync | SyncStep | Spurious

definition fence_step :: "nat \<Rightarrow> fence_event \<Rightarrow> nat \<Rightarrow> fence \<Rightarrow> fence option" where
  "fence_step N ev t s =
     (case ev of
        CallSync \<Rightarrow> if sync_pcs s t = Outside then Some (sync_goto t SpinReleased s) else None
      | SyncStep \<Rightarrow> sync_step N t (sync_pcs s t) s
      | Spurious \<Rightarrow>
          (case sync_pcs s t of
             ResetWaiting \<Rightarrow> Some (sync_goto t ResetReleased s)
           | ResetReleased \<Rightarrow> Some (sync_goto t Outside s)
           | _ \<Rightarrow> None))"

text \<open>What the threads can reach; the flag says that some exchange has failed without a reason.\<close>

inductive fence_reach :: "nat \<Rightarrow> bool \<Rightarrow> fence \<Rightarrow> bool" for N where
  fence_init: "fence_reach N False fence_new"
| fence_next: "fence_reach N failed s \<Longrightarrow> t < N \<Longrightarrow> fence_step N ev t s = Some s' \<Longrightarrow>
     fence_reach N (failed \<or> ev = Spurious) s'"

fun fence_run :: "nat \<Rightarrow> (nat \<times> fence_event) list \<Rightarrow> fence \<Rightarrow> fence option" where
  "fence_run N [] s = Some s"
| "fence_run N ((t, ev) # es) s =
     (if t < N then Option.bind (fence_step N ev t s) (fence_run N es) else None)"

section \<open>Invariant\<close>

text \<open>A thread is inside a round between its two counts.\<close>

definition in_round :: "sync_pc \<Rightarrow> bool" where
  "in_round p \<longleftrightarrow> p = SpinWaiting \<or> p = CountReleased"

text \<open>
  Round \<open>g\<close> gathers until all threads are counted at the first counter, then releases until all
  are counted at the second one, then one of the threads resets the first counter and, last,
  the second one. Threads that arrive late at the resets do nothing, because they are not
  counted in the next round, which therefore has not come to its releasing part.
\<close>

definition gathering :: "nat \<Rightarrow> nat \<Rightarrow> fence \<Rightarrow> bool" where
  "gathering N g s \<longleftrightarrow> released_threads_count s = 0 \<and>
     (\<forall>t < N. left s t = g \<and> entered s t \<le> Suc g) \<and>
     card {t. t < N \<and> entered s t = Suc g} = waiting_threads_count s \<and>
     (\<forall>t < N. sync_pcs s t = CountReleased \<longrightarrow> waiting_threads_count s = N)"

definition releasing :: "nat \<Rightarrow> nat \<Rightarrow> fence \<Rightarrow> bool" where
  "releasing N g s \<longleftrightarrow> released_threads_count s > 0 \<and> waiting_threads_count s = N \<and>
     (\<forall>t < N. entered s t = Suc g \<and> g \<le> left s t) \<and>
     card {t. t < N \<and> left s t = Suc g} = released_threads_count s \<and>
     (\<forall>t < N. sync_pcs s t \<noteq> CountWaiting \<and> sync_pcs s t \<noteq> ResetReleased \<and>
        (sync_pcs s t = ResetWaiting \<longrightarrow> released_threads_count s = N)) \<and>
     (released_threads_count s = N \<longrightarrow>
        (\<exists>t < N. sync_pcs s t = TestReleased \<or> sync_pcs s t = ResetWaiting))"

definition resetting :: "nat \<Rightarrow> nat \<Rightarrow> fence \<Rightarrow> bool" where
  "resetting N g s \<longleftrightarrow> released_threads_count s = N \<and> N > 0 \<and> waiting_threads_count s = 0 \<and>
     (\<forall>t < N. entered s t = Suc g \<and> left s t = Suc g \<and> sync_pcs s t \<noteq> CountWaiting) \<and>
     (\<exists>t < N. sync_pcs s t = ResetReleased)"

definition rounds_ok :: "nat \<Rightarrow> fence \<Rightarrow> bool" where
  "rounds_ok N s \<longleftrightarrow>
     (\<forall>t < N. entered s t = left s t + (if in_round (sync_pcs s t) then 1 else 0))"

definition fence_inv :: "nat \<Rightarrow> fence \<Rightarrow> bool" where
  "fence_inv N s \<longleftrightarrow> rounds_ok N s \<and> (\<exists>g. gathering N g s \<or> releasing N g s \<or> resetting N g s)"

lemma rounds_step:
  assumes "rounds_ok N s" "t < N" "fence_step N ev t s = Some s'"
  shows "rounds_ok N s'"
proof (cases ev)
  case SyncStep
  with assms show ?thesis
    by (cases "sync_pcs s t")
      (auto simp: fence_step_def rounds_ok_def sync_goto_def in_round_def split: if_splits)
qed (use assms in \<open>auto simp: fence_step_def rounds_ok_def sync_goto_def in_round_def
       split: if_splits sync_pc.splits\<close>)

lemma card_all: "card {t. t < N \<and> P t} = N \<longleftrightarrow> (\<forall>t < N. P t)"
proof
  assume c: "card {t. t < N \<and> P t} = N"
  have "{t. t < N \<and> P t} = {..<N}"
    by (rule card_subset_eq) (use c in auto)
  then show "\<forall>t < N. P t" by auto
next
  assume "\<forall>t < N. P t"
  then have "{t. t < N \<and> P t} = {..<N}" by auto
  then show "card {t. t < N \<and> P t} = N" by simp
qed

lemma card_one_more:
  fixes t N :: nat
  assumes "t < N" "\<not> P t" "\<And>u. u < N \<Longrightarrow> Q u \<longleftrightarrow> P u \<or> u = t"
  shows "card {u. u < N \<and> Q u} = Suc (card {u. u < N \<and> P u})"
proof -
  have "{u. u < N \<and> Q u} = insert t {u. u < N \<and> P u}" using assms by auto
  moreover have "finite {u. u < N \<and> P u}" by simp
  ultimately show ?thesis using assms(2) by (simp add: card_insert_if)
qed

lemma gathering_step:
  assumes inv: "rounds_ok N s" "gathering N g s" and t: "t < N" and ev: "ev \<noteq> Spurious"
    and step: "fence_step N ev t s = Some s'"
  shows "gathering N g s' \<or> releasing N g s'"
proof (cases "ev = SyncStep")
  case False
  then show ?thesis
    using assms by (cases ev) (auto simp: fence_step_def gathering_def sync_goto_def split: if_splits)
next
  case True
  with step have step: "sync_step N t (sync_pcs s t) s = Some s'" by (simp add: fence_step_def)
  have ent: "entered s t = g + (if in_round (sync_pcs s t) then 1 else 0)"
    using inv t by (simp add: rounds_ok_def gathering_def)
  show ?thesis
  proof (cases "sync_pcs s t")
    case CountWaiting
    then have e: "entered s t = g" using ent by (simp add: in_round_def)
    have s': "released_threads_count s' = released_threads_count s" "left s' = left s"
        "waiting_threads_count s' = Suc (waiting_threads_count s)"
        "entered s' = (entered s)(t := Suc g)" "sync_pcs s' = (sync_pcs s)(t := SpinWaiting)"
      using step CountWaiting e by (auto simp: sync_goto_def)
    have "card {u. u < N \<and> entered s' u = Suc g} = Suc (card {u. u < N \<and> entered s u = Suc g})"
      by (rule card_one_more [where t = t]) (use t e in \<open>auto simp: s'\<close>)
    moreover have "waiting_threads_count s \<noteq> N"
      using card_all [of N "\<lambda>u. entered s u = Suc g"] e t inv(2)
      unfolding gathering_def by (metis n_not_Suc_n)
    then have "sync_pcs s u \<noteq> CountReleased" if "u < N" for u
      using inv(2) that unfolding gathering_def by metis
    ultimately have "gathering N g s'"
      using inv(2) unfolding gathering_def s' by simp
    then show ?thesis ..
  next
    case CountReleased
    then have W: "waiting_threads_count s = N" using inv(2) t unfolding gathering_def by metis
    have "card {u. u < N \<and> entered s u = Suc g} = waiting_threads_count s"
      using inv(2) unfolding gathering_def by blast
    then have all: "\<forall>u < N. entered s u = Suc g"
      unfolding W by (simp only: card_all)
    have pcs: "sync_pcs s u = SpinWaiting \<or> sync_pcs s u = CountReleased" if "u < N" for u
    proof -
      have "left s u = g" "entered s u = Suc g" using inv(2) that all by (simp_all add: gathering_def)
      then show ?thesis using inv(1) that by (auto simp: rounds_ok_def in_round_def split: if_splits)
    qed
    have l: "left s u = g" if "u < N" for u using inv(2) that by (simp add: gathering_def)
    have s': "released_threads_count s' = Suc 0" "left s' = (left s)(t := Suc g)"
        "waiting_threads_count s' = N" "entered s' = entered s"
        "sync_pcs s' = (sync_pcs s)(t := TestReleased)"
      using step CountReleased inv(2) W l [OF t] by (auto simp: sync_goto_def gathering_def)
    have "card {u. u < N \<and> left s' u = Suc g} = Suc (card {u. u < N \<and> False})"
      by (rule card_one_more [where t = t]) (use t l in \<open>auto simp: s'\<close>)
    moreover have "sync_pcs s' u \<noteq> CountWaiting \<and> sync_pcs s' u \<noteq> ResetReleased \<and>
        sync_pcs s' u \<noteq> ResetWaiting" if "u < N" for u
      using pcs [OF that] by (cases "u = t") (auto simp: s')
    ultimately have "releasing N g s'"
      using all l t unfolding releasing_def s' by auto
    then show ?thesis ..
  next
    case ResetWaiting
    then have "entered s t = g" using ent by (simp add: in_round_def)
    then have "waiting_threads_count s \<noteq> N"
      using card_all [of N "\<lambda>u. entered s u = Suc g"] t inv(2)
      unfolding gathering_def by (metis n_not_Suc_n)
    then show ?thesis
      using inv(2) step ResetWaiting
      by (auto simp: gathering_def sync_goto_def compare_exchange_def split: if_splits)
  qed (use inv(2) step t in \<open>auto simp: gathering_def sync_goto_def compare_exchange_def split: if_splits\<close>)
qed

lemma releasing_step:
  assumes inv: "rounds_ok N s" "releasing N g s" and t: "t < N" and ev: "ev \<noteq> Spurious"
    and step: "fence_step N ev t s = Some s'"
  shows "releasing N g s' \<or> resetting N g s'"
proof (cases "ev = SyncStep")
  case False
  then show ?thesis
    using assms by (cases ev) (auto simp: fence_step_def releasing_def sync_goto_def split: if_splits)
next
  case True
  with step have step: "sync_step N t (sync_pcs s t) s = Some s'" by (simp add: fence_step_def)
  have lf: "Suc g = left s t + (if in_round (sync_pcs s t) then 1 else 0)"
    using inv t by (simp add: rounds_ok_def releasing_def)
  show ?thesis
  proof (cases "sync_pcs s t")
    case CountReleased
    then have e: "left s t = g" using lf by (simp add: in_round_def)
    have s': "released_threads_count s' = Suc (released_threads_count s)" "left s' = (left s)(t := Suc g)"
        "waiting_threads_count s' = waiting_threads_count s" "entered s' = entered s"
        "sync_pcs s' = (sync_pcs s)(t := TestReleased)"
      using step CountReleased e by (auto simp: sync_goto_def)
    have "card {u. u < N \<and> left s' u = Suc g} = Suc (card {u. u < N \<and> left s u = Suc g})"
      by (rule card_one_more [where t = t]) (use t e in \<open>auto simp: s'\<close>)
    moreover have "released_threads_count s \<noteq> N"
      using card_all [of N "\<lambda>u. left s u = Suc g"] e t inv(2)
      unfolding releasing_def by (metis n_not_Suc_n)
    moreover have "\<exists>v < N. sync_pcs s' v = TestReleased \<or> sync_pcs s' v = ResetWaiting"
      using t by (intro exI [of _ t]) (simp add: s')
    ultimately have "releasing N g s'"
      using inv(2) unfolding releasing_def s'(1-4) by (auto simp: s'(5))
    then show ?thesis ..
  next
    case ResetWaiting
    then have "released_threads_count s = N" using inv(2) t unfolding releasing_def by metis
    then have "\<forall>u < N. left s u = Suc g"
      using card_all [of N "\<lambda>u. left s u = Suc g"] inv(2) by (simp add: releasing_def)
    moreover have s': "released_threads_count s' = N" "waiting_threads_count s' = 0" "left s' = left s"
        "entered s' = entered s" "sync_pcs s' = (sync_pcs s)(t := ResetReleased)"
      using step ResetWaiting inv(2) \<open>released_threads_count s = N\<close>
      by (auto simp: sync_goto_def compare_exchange_def releasing_def)
    ultimately have "resetting N g s'"
      using inv(2) t unfolding releasing_def resetting_def s' by auto
    then show ?thesis ..
  qed (use inv(2) step t in \<open>auto simp: releasing_def sync_goto_def split: if_splits\<close>)
qed

lemma resetting_step:
  assumes inv: "rounds_ok N s" "resetting N g s" and t: "t < N" and ev: "ev \<noteq> Spurious"
    and step: "fence_step N ev t s = Some s'"
  shows "resetting N g s' \<or> gathering N (Suc g) s'"
proof (cases "ev = SyncStep")
  case False
  then have out: "sync_pcs s t = Outside" and s': "s' = sync_goto t SpinReleased s"
    using step ev by (cases ev; auto simp: fence_step_def split: if_splits)+
  obtain v where v: "v < N" "sync_pcs s v = ResetReleased" using inv(2) unfolding resetting_def by blast
  then have "v \<noteq> t" using out by auto
  with v have "\<exists>v < N. sync_pcs s' v = ResetReleased" by (intro exI [of _ v]) (simp add: s' sync_goto_def)
  then show ?thesis using inv(2) by (simp add: s' resetting_def sync_goto_def)
next
  case True
  with step have step: "sync_step N t (sync_pcs s t) s = Some s'" by (simp add: fence_step_def)
  have out: "\<not> in_round (sync_pcs s u)" if "u < N" for u
    using inv that by (auto simp: rounds_ok_def resetting_def split: if_splits)
  show ?thesis
  proof (cases "sync_pcs s t = ResetReleased")
    case True
    have "sync_pcs s' u \<noteq> CountReleased" if "u < N" for u
      using out [OF that] step True by (auto simp: in_round_def sync_goto_def split: if_splits)
    then show ?thesis
      using inv(2) step True
      by (auto simp: resetting_def gathering_def sync_goto_def compare_exchange_def)
  next
    case False
    obtain v where v: "v < N" "sync_pcs s v = ResetReleased" using inv(2) unfolding resetting_def by blast
    then have "v \<noteq> t" using False by auto
    then have "sync_pcs s' v = ResetReleased"
      using step v(2) by (cases "sync_pcs s t") (auto simp: sync_goto_def split: if_splits)
    with v(1) have last: "\<exists>v < N. sync_pcs s' v = ResetReleased" by blast
    have "released_threads_count s' = N \<and> waiting_threads_count s' = 0 \<and>
        left s' = left s \<and> entered s' = entered s \<and> sync_pcs s' t \<noteq> CountWaiting \<and>
        (\<forall>u. u \<noteq> t \<longrightarrow> sync_pcs s' u = sync_pcs s u)"
      using inv(2) step t out [OF t] False
      by (cases "sync_pcs s t")
        (auto simp: resetting_def sync_goto_def compare_exchange_def in_round_def split: if_splits)
    with last inv(2) have "resetting N g s'" unfolding resetting_def by metis
    then show ?thesis ..
  qed
qed

lemma fence_reach_rounds: "fence_reach N failed s \<Longrightarrow> rounds_ok N s"
proof (induction rule: fence_reach.induct)
  case fence_init
  show ?case by (simp add: rounds_ok_def fence_new_def in_round_def)
qed (rule rounds_step)

lemma fence_reach_inv: "fence_reach N failed s \<Longrightarrow> \<not> failed \<Longrightarrow> fence_inv N s"
proof (induction rule: fence_reach.induct)
  case fence_init
  have "gathering N 0 fence_new" by (auto simp: gathering_def fence_new_def)
  moreover have "rounds_ok N fence_new" by (simp add: rounds_ok_def fence_new_def in_round_def)
  ultimately show ?case by (auto simp: fence_inv_def)
next
  case (fence_next failed s t ev s')
  then show ?case
    using rounds_step gathering_step releasing_step resetting_step unfolding fence_inv_def by metis
qed

section \<open>Exchanges that fail\<close>

text \<open>
  When exchanges fail without a reason, the first counter can keep its value \<open>N\<close> although the second
  one is reset: the threads of the next round are counted on top of it, and nobody goes on.
\<close>

definition filling :: "nat \<Rightarrow> nat \<Rightarrow> fence \<Rightarrow> bool" where
  "filling N g s \<longleftrightarrow> released_threads_count s = 0 \<and> (\<forall>t < N. left s t = g \<and> entered s t \<le> Suc g) \<and>
     (let c = card {t. t < N \<and> entered s t = Suc g}
      in waiting_threads_count s = c \<and> (\<forall>t < N. sync_pcs s t = CountReleased \<longrightarrow> c = N) \<or>
         waiting_threads_count s = N + c \<and> (\<forall>t < N. sync_pcs s t \<noteq> CountReleased))"

definition emptying :: "nat \<Rightarrow> nat \<Rightarrow> fence \<Rightarrow> bool" where
  "emptying N g s \<longleftrightarrow> released_threads_count s > 0 \<and>
     (\<forall>t < N. entered s t = Suc g \<and> g \<le> left s t \<and> sync_pcs s t \<noteq> CountWaiting) \<and>
     card {t. t < N \<and> left s t = Suc g} = released_threads_count s \<and>
     (waiting_threads_count s = N \<or> waiting_threads_count s = 0 \<and> released_threads_count s = N) \<and>
     (\<forall>t < N. sync_pcs s t = ResetWaiting \<or> sync_pcs s t = ResetReleased \<longrightarrow> released_threads_count s = N)"

lemma filling_step:
  assumes inv: "rounds_ok N s" "filling N g s" and t: "t < N" and step: "fence_step N ev t s = Some s'"
  shows "filling N g s' \<or> emptying N g s'"
proof (cases "ev = SyncStep")
  case False
  then show ?thesis
    using assms by (cases ev)
      (auto simp: fence_step_def filling_def sync_goto_def Let_def split: if_splits sync_pc.splits)
next
  case True
  with step have step: "sync_step N t (sync_pcs s t) s = Some s'" by (simp add: fence_step_def)
  have ent: "entered s t = g + (if in_round (sync_pcs s t) then 1 else 0)"
    using inv t by (simp add: rounds_ok_def filling_def)
  let ?c = "\<lambda>s. card {u. u < N \<and> entered s u = Suc g}"
  have c: "?c s \<noteq> N" if "entered s t = g"
    using card_all [of N "\<lambda>u. entered s u = Suc g"] that t by (metis n_not_Suc_n)
  show ?thesis
  proof (cases "sync_pcs s t")
    case CountWaiting
    then have e: "entered s t = g" using ent by (simp add: in_round_def)
    have s': "released_threads_count s' = released_threads_count s" "left s' = left s"
        "waiting_threads_count s' = Suc (waiting_threads_count s)"
        "entered s' = (entered s)(t := Suc g)" "sync_pcs s' = (sync_pcs s)(t := SpinWaiting)"
      using step CountWaiting e by (auto simp: sync_goto_def)
    have "?c s' = Suc (?c s)"
      by (rule card_one_more [where t = t]) (use t e in \<open>auto simp: s'\<close>)
    moreover have "\<forall>u < N. sync_pcs s u \<noteq> CountReleased"
      using inv(2) c [OF e] unfolding filling_def Let_def by metis
    ultimately have "filling N g s'"
      using inv(2) unfolding filling_def s' Let_def by auto
    then show ?thesis ..
  next
    case CountReleased
    then have full: "?c s = N" "waiting_threads_count s = N"
      using inv(2) t unfolding filling_def Let_def by metis+
    then have all: "\<forall>u < N. entered s u = Suc g" by (simp only: card_all)
    have l: "left s u = g" if "u < N" for u using inv(2) that by (simp add: filling_def)
    have pcs: "sync_pcs s u = SpinWaiting \<or> sync_pcs s u = CountReleased" if "u < N" for u
      using inv(1) all l [OF that] that by (auto simp: rounds_ok_def in_round_def split: if_splits)
    have s': "released_threads_count s' = Suc 0" "left s' = (left s)(t := Suc g)"
        "waiting_threads_count s' = N" "entered s' = entered s"
        "sync_pcs s' = (sync_pcs s)(t := TestReleased)"
      using step CountReleased inv(2) full(2) l [OF t] by (auto simp: sync_goto_def filling_def)
    have "card {u. u < N \<and> left s' u = Suc g} = Suc (card {u. u < N \<and> False})"
      by (rule card_one_more [where t = t]) (use t l in \<open>auto simp: s'\<close>)
    moreover have "sync_pcs s' u \<noteq> CountWaiting \<and> sync_pcs s' u \<noteq> ResetReleased \<and>
        sync_pcs s' u \<noteq> ResetWaiting" if "u < N" for u
      using pcs [OF that] by (cases "u = t") (auto simp: s')
    ultimately have "emptying N g s'"
      using all l unfolding emptying_def s' by auto
    then show ?thesis ..
  next
    case ResetWaiting
    then have "?c s \<noteq> N" using ent c by (simp add: in_round_def)
    then have "\<forall>u < N. sync_pcs s u \<noteq> CountReleased" "waiting_threads_count s = N \<longrightarrow> ?c s = 0"
      using inv(2) unfolding filling_def Let_def by auto
    then show ?thesis
      using inv(2) step ResetWaiting
      by (auto simp: filling_def sync_goto_def compare_exchange_def Let_def split: if_splits)
  next
    case SpinWaiting
    then have "entered s t = Suc g" using ent by (simp add: in_round_def)
    then have "?c s > 0" using t by (auto simp: card_gt_0_iff)
    moreover have w: "waiting_threads_count s = N" "s' = sync_goto t CountReleased s"
      using step SpinWaiting by (simp_all split: if_splits)
    ultimately have full: "?c s = N" using inv(2) unfolding filling_def Let_def by linarith
    have "filling N g s'"
      unfolding filling_def Let_def w(2) using inv(2) w(1) full
      by (intro conjI disjI1) (simp_all add: filling_def sync_goto_def)
    then show ?thesis ..
  qed (use inv(2) step t in \<open>auto simp: filling_def sync_goto_def compare_exchange_def Let_def split: if_splits\<close>)
qed

lemma emptying_step:
  assumes inv: "rounds_ok N s" "emptying N g s" and t: "t < N" and step: "fence_step N ev t s = Some s'"
  shows "emptying N g s' \<or> filling N (Suc g) s'"
proof (cases "ev = SyncStep")
  case False
  then obtain p where s': "s' = sync_goto t p s" "p \<noteq> CountWaiting"
      "p = ResetWaiting \<or> p = ResetReleased \<longrightarrow> sync_pcs s t = ResetWaiting"
    using step by (cases ev) (auto simp: fence_step_def split: if_splits sync_pc.splits)
  have "emptying N g s'"
    using inv(2) t s'(2,3) unfolding emptying_def s'(1) sync_goto_def by auto
  then show ?thesis ..
next
  case True
  with step have step: "sync_step N t (sync_pcs s t) s = Some s'" by (simp add: fence_step_def)
  have lf: "Suc g = left s t + (if in_round (sync_pcs s t) then 1 else 0)"
    using inv t by (simp add: rounds_ok_def emptying_def)
  have all: "\<forall>u < N. left s u = Suc g" if "released_threads_count s = N"
    using card_all [of N "\<lambda>u. left s u = Suc g"] inv(2) that by (simp add: emptying_def)
  have keep: "emptying N g (sync_goto t p (s\<lparr>waiting_threads_count := W\<rparr>))"
    if "p \<noteq> CountWaiting" "p = ResetWaiting \<or> p = ResetReleased \<longrightarrow> released_threads_count s = N"
      "W = waiting_threads_count s \<or> W = 0 \<and> released_threads_count s = N" for p W
    using inv(2) that unfolding emptying_def sync_goto_def by auto
  show ?thesis
  proof (cases "sync_pcs s t")
    case CountReleased
    then have e: "left s t = g" using lf by (simp add: in_round_def)
    have s': "released_threads_count s' = Suc (released_threads_count s)" "left s' = (left s)(t := Suc g)"
        "waiting_threads_count s' = waiting_threads_count s" "entered s' = entered s"
        "sync_pcs s' = (sync_pcs s)(t := TestReleased)"
      using step CountReleased e by (auto simp: sync_goto_def)
    have "card {u. u < N \<and> left s' u = Suc g} = Suc (card {u. u < N \<and> left s u = Suc g})"
      by (rule card_one_more [where t = t]) (use t e in \<open>auto simp: s'\<close>)
    moreover have "released_threads_count s \<noteq> N" using all e t by (metis n_not_Suc_n)
    then have "waiting_threads_count s = N"
      "\<forall>u < N. sync_pcs s u \<noteq> ResetWaiting \<and> sync_pcs s u \<noteq> ResetReleased"
      using inv(2) unfolding emptying_def by blast+
    ultimately have "emptying N g s'"
      using inv(2) unfolding emptying_def s'(1-4) by (simp add: s'(5))
    then show ?thesis ..
  next
    case ResetReleased
    then have r: "released_threads_count s = N" using inv(2) t unfolding emptying_def by metis
    have out: "\<not> in_round (sync_pcs s u)" if "u < N" for u
      using inv(1) all [OF r] inv(2) that by (auto simp: rounds_ok_def emptying_def split: if_splits)
    have s': "released_threads_count s' = 0" "waiting_threads_count s' = waiting_threads_count s"
        "left s' = left s" "entered s' = entered s" "sync_pcs s' = (sync_pcs s)(t := Outside)"
      using step ResetReleased r by (auto simp: sync_goto_def compare_exchange_def)
    have "\<forall>u < N. sync_pcs s' u \<noteq> CountReleased" using out by (auto simp: s' in_round_def)
    moreover have "{u. u < N \<and> entered s u = Suc (Suc g)} = {}" using inv(2) by (auto simp: emptying_def)
    ultimately have "filling N (Suc g) s'"
      using inv(2) all [OF r] unfolding filling_def emptying_def s'(1-4) by auto
    then show ?thesis ..
  next
    case SpinReleased
    then show ?thesis using step inv(2) by (auto simp: emptying_def split: if_splits)
  next
    case SpinWaiting
    then show ?thesis using step keep [of CountReleased "waiting_threads_count s"] by (auto split: if_splits)
  next
    case TestReleased
    then show ?thesis using step keep [of _ "waiting_threads_count s"] by auto
  next
    case ResetWaiting
    moreover have "released_threads_count s = N" using inv(2) t ResetWaiting unfolding emptying_def by blast
    ultimately show ?thesis using step keep [of ResetReleased] by (auto simp: compare_exchange_def)
  qed (use inv(2) step t in \<open>simp_all add: emptying_def\<close>)
qed

lemma fence_reach_safe: "fence_reach N failed s \<Longrightarrow> \<exists>g. filling N g s \<or> emptying N g s"
proof (induction rule: fence_reach.induct)
  case fence_init
  have "filling N 0 fence_new" by (auto simp: filling_def fence_new_def)
  then show ?case by blast
next
  case (fence_next failed s t ev s')
  from fence_next.IH obtain g where "filling N g s \<or> emptying N g s" by blast
  then show ?case
    using filling_step emptying_step fence_reach_rounds [OF fence_next.hyps(1)] fence_next.hyps(2,3) by blast
qed

section \<open>Properties\<close>

text \<open>
  C35. \<open>threads_fence_t\<close> is a barrier that can be used again and again: no thread leaves its
  \<open>k\<close>-th call of \<open>sync\<close> before every thread has entered its \<open>k\<close>-th call, and no thread is
  more than one call ahead of another, also when \<open>compare_exchange_weak\<close> fails without a reason.
  As long as none of these exchanges has failed so, the fence cannot get stuck: when all threads are
  inside \<open>sync\<close>, one of them can go on.
\<close>

theorem fence_barrier:
  assumes "fence_reach N failed s" and "t < N" and "u < N"
  shows "left s t \<le> entered s u \<and> entered s t \<le> Suc (entered s u) \<and>
    (\<not> failed \<and> (\<forall>v < N. sync_pcs s v \<noteq> Outside) \<longrightarrow>
      (\<exists>v < N. \<exists>s'. fence_step N SyncStep v s = Some s'))"
proof (intro conjI impI)
  from fence_reach_safe [OF assms(1)] obtain g where safe: "filling N g s \<or> emptying N g s" by blast
  have ent: "entered s v = left s v + (if in_round (sync_pcs s v) then 1 else 0)" if "v < N" for v
    using fence_reach_rounds [OF assms(1)] that by (simp add: rounds_ok_def)
  show "left s t \<le> entered s u" "entered s t \<le> Suc (entered s u)"
    using safe ent [OF assms(2)] ent [OF assms(3)] assms(2,3)
    unfolding filling_def emptying_def by (auto simp: le_Suc_eq)
  assume inside: "\<not> failed \<and> (\<forall>v < N. sync_pcs s v \<noteq> Outside)"
  then obtain g where phase: "gathering N g s \<or> releasing N g s \<or> resetting N g s"
    using fence_reach_inv [OF assms(1)] unfolding fence_inv_def by blast
  show "\<exists>v < N. \<exists>s'. fence_step N SyncStep v s = Some s'"
  proof (rule ccontr)
    assume stop: "\<not> ?thesis"
    have "sync_pcs s v = SpinReleased \<and> released_threads_count s \<noteq> 0 \<or>
        sync_pcs s v = SpinWaiting \<and> waiting_threads_count s \<noteq> N" if "v < N" for v
      using stop inside that by (cases "sync_pcs s v") (auto simp: fence_step_def split: if_splits)
    note spin = this
    from phase show False
    proof (elim disjE)
      assume g: "gathering N g s"
      then have "sync_pcs s v = SpinWaiting" if "v < N" for v
        using spin [OF that] by (auto simp: gathering_def)
      then have "\<forall>v < N. entered s v = Suc g" using ent g by (simp add: in_round_def gathering_def)
      then have "waiting_threads_count s = N"
        using g card_all [of N "\<lambda>v. entered s v = Suc g"] unfolding gathering_def by metis
      then show False using spin [OF assms(2)] g by (auto simp: gathering_def)
    next
      assume r: "releasing N g s"
      then have out: "sync_pcs s v = SpinReleased" if "v < N" for v
        using spin [OF that] by (auto simp: releasing_def)
      then have "\<forall>v < N. left s v = Suc g" using ent r by (simp add: in_round_def releasing_def)
      then have "released_threads_count s = N"
        using r card_all [of N "\<lambda>v. left s v = Suc g"] unfolding releasing_def by metis
      then show False using r out unfolding releasing_def by fastforce
    next
      assume "resetting N g s"
      then obtain v where "v < N" "sync_pcs s v = ResetReleased" unfolding resetting_def by blast
      then show False using spin [of v] by simp
    qed
  qed
qed

text \<open>Two threads meet, and the exchanges of the last one fail.\<close>

definition failed_meeting :: "(nat \<times> fence_event) list" where
  "failed_meeting =
     [(0, CallSync), (0, SyncStep), (0, SyncStep), (1, CallSync), (1, SyncStep), (1, SyncStep),
      (0, SyncStep), (0, SyncStep), (0, SyncStep), (1, SyncStep), (1, SyncStep), (1, SyncStep), (1, Spurious)]"

lemma fence_run_reach:
  assumes "fence_reach N failed s" "fence_run N es s = Some s'"
  shows "\<exists>failed'. fence_reach N failed' s'"
  using assms
proof (induction es arbitrary: failed s)
  case (Cons e es)
  obtain t ev where "e = (t, ev)" by fastforce
  with Cons.prems obtain s1 where "t < N" "fence_step N ev t s = Some s1" "fence_run N es s1 = Some s'"
    by (auto split: if_splits bind_splits)
  with Cons.IH [OF fence_next [OF Cons.prems(1)]] show ?case by blast
qed auto

theorem fence_barrier_witness:
  "\<exists>s. fence_run 2 failed_meeting fence_new = Some s \<and> left s 0 = 1 \<and> left s 1 = 1 \<and>
     left s 0 \<le> entered s 1 \<and> entered s 0 \<le> Suc (entered s 1)"
proof -
  have "\<exists>s. fence_run 2 failed_meeting fence_new = Some s \<and> left s 0 = 1 \<and> left s 1 = 1"
    by (simp add: failed_meeting_def numeral_eq_Suc fence_step_def fence_new_def sync_goto_def compare_exchange_def)
  then obtain s where s: "fence_run 2 failed_meeting fence_new = Some s" "left s 0 = 1" "left s 1 = 1" by blast
  obtain failed where "fence_reach 2 failed s" using fence_run_reach [OF fence_init s(1)] by blast
  from fence_barrier [OF this, of 0 1] s show ?thesis by auto
qed

text \<open>
  Without that hypothesis the fence does get stuck: when the exchange of the first counter fails, the
  counter keeps its value, and the next call of \<open>sync\<close> waits for ever.
\<close>

lemma fence_spurious:
  "\<exists>es s. fence_run 1 es fence_new = Some s \<and> sync_pcs s 0 = SpinWaiting \<and>
     (\<forall>es' s'. fence_run 1 es' s = Some s' \<longrightarrow> s' = s)"
proof (intro exI conjI)
  let ?s = "\<lparr>waiting_threads_count = 2, released_threads_count = 0,
    sync_pcs = (\<lambda>_. Outside)(0 := SpinWaiting), entered = (\<lambda>_. 0)(0 := 2), left = (\<lambda>_. 0)(0 := 1)\<rparr>"
  let ?es = "(0, CallSync) # replicate 5 (0, SyncStep) @ [(0, Spurious), (0, SyncStep), (0, CallSync),
    (0, SyncStep), (0, SyncStep)] :: (nat \<times> fence_event) list"
  show "fence_run 1 ?es fence_new = Some ?s"
    by (simp add: numeral_eq_Suc fence_step_def fence_new_def sync_goto_def compare_exchange_def)
  show "sync_pcs ?s 0 = SpinWaiting" by simp
  have "fence_step 1 ev t ?s = None" if "t < 1" for ev t
    using that by (cases ev) (simp_all add: fence_step_def)
  then show "\<forall>es' s'. fence_run 1 es' ?s = Some s' \<longrightarrow> s' = ?s"
    by (intro allI impI) (erule fence_run.elims, auto split: if_splits)
qed

end
