(* ===== verification/UcsbWorkload.thy ===== *)
theory UcsbWorkload
  imports Prelude Complex_Main
begin

text \<open>
  \<open>src/UCSB/src/core/workload.hpp\<close>, \<open>distribution.hpp\<close>, \<open>helper.hpp\<close> and the part of
  \<open>bench.cxx\<close> that prepares the workloads: reading them from a file, choosing some by name,
  checking them and dividing each one among the threads.

  The JSON library is not part of the sources: an object of the file is what its calls yield, a
  record of functions, about which nothing is assumed. Sizes and keys are natural numbers,
  proportions rational numbers.
\<close>

section \<open>Data\<close>

datatype distribution_kind =
    unknown_k
  | const_k
  | counter_k
  | uniform_k
  | zipfian_k
  | scrambled_zipfian_k
  | skewed_latest_k
  | acknowledged_counter_k

record workload =
  w_name :: string
  db_records_count :: nat
  records_count :: nat
  db_operations_count :: nat
  operations_count :: nat
  upsert_proportion :: rat
  update_proportion :: rat
  remove_proportion :: rat
  read_proportion :: rat
  read_modify_write_proportion :: rat
  batch_upsert_proportion :: rat
  batch_read_proportion :: rat
  bulk_load_proportion :: rat
  range_select_proportion :: rat
  scan_proportion :: rat
  start_key :: nat
  key_dist :: distribution_kind
  value_length :: nat
  value_length_dist :: distribution_kind
  batch_upsert_min_length :: nat
  batch_upsert_max_length :: nat
  batch_upsert_length_dist :: distribution_kind
  batch_read_min_length :: nat
  batch_read_max_length :: nat
  batch_read_length_dist :: distribution_kind
  bulk_load_min_length :: nat
  bulk_load_max_length :: nat
  bulk_load_length_dist :: distribution_kind
  range_select_min_length :: nat
  range_select_max_length :: nat
  range_select_length_dist :: distribution_kind

definition parse_distribution :: "string \<Rightarrow> distribution_kind" where
  "parse_distribution name =
     (if name = ''const'' then const_k
      else if name = ''counter'' then counter_k
      else if name = ''uniform'' then uniform_k
      else if name = ''zipfian'' then zipfian_k
      else if name = ''scrambled'' then scrambled_zipfian_k
      else if name = ''latest'' then skewed_latest_k
      else if name = ''acknowledged'' then acknowledged_counter_k
      else unknown_k)"

section \<open>Reading the workloads\<close>

text \<open>The calls \<open>j[name].get\<close> and \<open>j.value(name, default)\<close>, at the types at which they are used.\<close>

record json_object =
  get_string :: "string \<Rightarrow> string result"
  get_size :: "string \<Rightarrow> nat result"
  value_size :: "string \<Rightarrow> nat \<Rightarrow> nat result"
  value_num :: "string \<Rightarrow> rat \<Rightarrow> rat result"
  value_string :: "string \<Rightarrow> string \<Rightarrow> string result"

definition j_dist :: "json_object \<Rightarrow> string \<Rightarrow> string \<Rightarrow> distribution_kind result" where
  "j_dist j name dflt = bindE (value_string j name dflt) (\<lambda>w. Inr (parse_distribution w))"

text \<open>
  One workload of the file; \<open>None\<close> where \<open>load\<close> gives up. The last check looks at the
  distribution of the keys again, as the code does.
\<close>

definition load_workload :: "json_object \<Rightarrow> workload option result" where
  "load_workload j =
     bindE (get_string j ''name'') (\<lambda>name.
     bindE (get_size j ''records_count'') (\<lambda>records.
     bindE (get_size j ''operations_count'') (\<lambda>operations.
     bindE (value_num j ''upsert_proportion'' 0) (\<lambda>p1.
     bindE (value_num j ''update_proportion'' 0) (\<lambda>p2.
     bindE (value_num j ''remove_proportion'' 0) (\<lambda>p3.
     bindE (value_num j ''read_proportion'' 0) (\<lambda>p4.
     bindE (value_num j ''read_modify_write_proportion'' 0) (\<lambda>p5.
     bindE (value_num j ''batch_upsert_proportion'' 0) (\<lambda>p6.
     bindE (value_num j ''batch_read_proportion'' 0) (\<lambda>p7.
     bindE (value_num j ''bulk_load_proportion'' 0) (\<lambda>p8.
     bindE (value_num j ''range_select_proportion'' 0) (\<lambda>p9.
     bindE (value_num j ''scan_proportion'' 0) (\<lambda>p10.
     bindE (value_size j ''start_key'' 0) (\<lambda>start.
     bindE (j_dist j ''key_dist'' ''uniform'') (\<lambda>keyd.
     if keyd = unknown_k then Inr None else
     bindE (value_size j ''value_length'' 1024) (\<lambda>vlen.
     bindE (j_dist j ''value_length_dist'' ''const'') (\<lambda>vdist.
     if vdist = unknown_k then Inr None else
     bindE (value_size j ''batch_upsert_min_length'' 256) (\<lambda>bumin.
     bindE (value_size j ''batch_upsert_max_length'' 256) (\<lambda>bumax.
     bindE (j_dist j ''batch_upsert_length_dist'' ''uniform'') (\<lambda>budist.
     if budist = unknown_k then Inr None else
     bindE (value_size j ''batch_read_min_length'' 256) (\<lambda>brmin.
     bindE (value_size j ''batch_read_max_length'' 256) (\<lambda>brmax.
     bindE (j_dist j ''batch_read_length_dist'' ''uniform'') (\<lambda>brdist.
     if brdist = unknown_k then Inr None else
     bindE (value_size j ''bulk_load_min_length'' 256) (\<lambda>blmin.
     bindE (value_size j ''bulk_load_max_length'' 256) (\<lambda>blmax.
     bindE (j_dist j ''bulk_load_length_dist'' ''uniform'') (\<lambda>bldist.
     if bldist = unknown_k then Inr None else
     bindE (value_size j ''range_select_min_length'' 100) (\<lambda>rsmin.
     bindE (value_size j ''range_select_max_length'' 100) (\<lambda>rsmax.
     bindE (j_dist j ''range_select_length_dist'' ''uniform'') (\<lambda>rsdist.
     if keyd = unknown_k then Inr None else
     Inr (Some
       \<lparr>w_name = name, db_records_count = records, records_count = 0,
        db_operations_count = operations, operations_count = 0,
        upsert_proportion = p1, update_proportion = p2, remove_proportion = p3,
        read_proportion = p4, read_modify_write_proportion = p5, batch_upsert_proportion = p6,
        batch_read_proportion = p7, bulk_load_proportion = p8, range_select_proportion = p9,
        scan_proportion = p10, start_key = start, key_dist = keyd, value_length = vlen,
        value_length_dist = vdist, batch_upsert_min_length = bumin,
        batch_upsert_max_length = bumax, batch_upsert_length_dist = budist,
        batch_read_min_length = brmin, batch_read_max_length = brmax,
        batch_read_length_dist = brdist, bulk_load_min_length = blmin,
        bulk_load_max_length = blmax, bulk_load_length_dist = bldist,
        range_select_min_length = rsmin, range_select_max_length = rsmax,
        range_select_length_dist = rsdist\<rparr>))))))))))))))))))))))))))))))"

text \<open>\<open>load\<close>: the flag it returns, and the workloads; \<open>file\<close> is \<open>None\<close> when there is no such file.\<close>

fun load_loop :: "json_object list \<Rightarrow> workload list \<Rightarrow> (bool \<times> workload list) result" where
  "load_loop [] ws = Inr (True, ws)"
| "load_loop (j # js) ws =
     bindE (load_workload j) (\<lambda>r.
       case r of None \<Rightarrow> Inr (False, []) | Some w \<Rightarrow> load_loop js (ws @ [w]))"

definition load_workloads :: "json_object list option \<Rightarrow> (bool \<times> workload list) result" where
  "load_workloads file =
     (case file of None \<Rightarrow> Inr (False, []) | Some js \<Rightarrow> load_loop js [])"

section \<open>Choosing\<close>

text \<open>\<open>split\<close>: the pieces between runs of the delimiter.\<close>

function split_at_char :: "char \<Rightarrow> string \<Rightarrow> string list" where
  "split_at_char d str =
     (case dropWhile (\<lambda>c. c = d) str of
        [] \<Rightarrow> []
      | c # cs \<Rightarrow> takeWhile (\<lambda>c. c \<noteq> d) (c # cs) # split_at_char d (dropWhile (\<lambda>c. c \<noteq> d) (c # cs)))"
  by pat_completeness auto
termination
proof (relation "measure (\<lambda>(d, str). length str)")
  fix d :: char and str :: string and c cs
  assume s: "dropWhile (\<lambda>c. c = d) str = c # cs"
  then have "c \<noteq> d" using hd_dropWhile [of "\<lambda>c. c = d" str] by auto
  then have "length (dropWhile (\<lambda>c. c \<noteq> d) (c # cs)) < length (c # cs)"
    using length_dropWhile_le [of "\<lambda>c. c \<noteq> d" cs] by simp
  also have "\<dots> \<le> length str" unfolding s [symmetric] by (rule length_dropWhile_le)
  finally show "((d, dropWhile (\<lambda>c. c \<noteq> d) (c # cs)), d, str) \<in> measure (\<lambda>(d, str). length str)"
    by simp
qed simp

declare split_at_char.simps [simp del]

definition filter_workloads :: "workload list \<Rightarrow> string \<Rightarrow> workload list" where
  "filter_workloads workloads wanted =
     (if wanted = [] then workloads
      else concat (map (\<lambda>token. filter (\<lambda>w. w_name w = token) workloads)
             (split_at_char (CHR '','') wanted)))"

section \<open>Checking and dividing\<close>

definition validate_workload :: "workload \<Rightarrow> nat \<Rightarrow> unit result" where
  "validate_workload w threads_count =
     bindE (check (threads_count > 0)) (\<lambda>_.
     bindE (check (w_name w \<noteq> [])) (\<lambda>_.
     bindE (check (db_records_count w > 0)) (\<lambda>_.
     bindE (check (db_operations_count w > 0)) (\<lambda>_.
     let proportion = upsert_proportion w + update_proportion w + remove_proportion w +
           read_proportion w + read_modify_write_proportion w + batch_upsert_proportion w +
           batch_read_proportion w + bulk_load_proportion w + range_select_proportion w +
           scan_proportion w
     in bindE (check (proportion > 0 \<and> proportion \<le> 1)) (\<lambda>_.
     bindE (check (key_dist w \<noteq> unknown_k)) (\<lambda>_.
     bindE (check (batch_upsert_min_length w \<le> batch_upsert_max_length w)) (\<lambda>_.
     bindE (check (batch_upsert_max_length w \<le> db_records_count w div threads_count)) (\<lambda>_.
     bindE (check (batch_read_min_length w \<le> batch_read_max_length w)) (\<lambda>_.
     bindE (check (batch_read_max_length w \<le> db_records_count w div threads_count)) (\<lambda>_.
     bindE (check (bulk_load_min_length w \<le> bulk_load_max_length w)) (\<lambda>_.
     bindE (check (bulk_load_max_length w \<le> db_records_count w div threads_count)) (\<lambda>_.
     bindE (check (range_select_min_length w \<le> range_select_max_length w)) (\<lambda>_.
     check (range_select_max_length w \<le> db_records_count w div threads_count))))))))))))))"

text \<open>
  The loop over the threads, with the number of rounds left and what is left over of the two
  divisions; \<open>workloads\<close> is the vector so far.
\<close>

fun split_loop ::
  "workload \<Rightarrow> nat \<Rightarrow> nat \<Rightarrow> nat \<Rightarrow> nat \<Rightarrow> nat \<Rightarrow> nat \<Rightarrow> workload list \<Rightarrow> workload list" where
  "split_loop w perRec perOp idx 0 leftRec leftOp workloads = workloads"
| "split_loop w perRec perOp idx (Suc n) leftRec leftOp workloads =
     (let prev = (if idx = 0 then 0 else records_count (workloads ! (idx - 1)));
          tw = w\<lparr>records_count := perRec + (if leftRec \<noteq> 0 then 1 else 0),
                 operations_count := max 1 (perOp + (if leftOp \<noteq> 0 then 1 else 0)),
                 start_key := start_key w + idx * prev\<rparr>
      in split_loop w perRec perOp (idx + 1) n (leftRec - (if leftRec \<noteq> 0 then 1 else 0))
           (leftOp - (if leftOp \<noteq> 0 then 1 else 0)) (workloads @ [tw]))"

definition split_workload_into_threads :: "workload \<Rightarrow> nat \<Rightarrow> workload list" where
  "split_workload_into_threads w threads_count =
     split_loop w (db_records_count w div threads_count) (db_operations_count w div threads_count)
       0 threads_count (db_records_count w mod threads_count)
       (db_operations_count w mod threads_count) []"

section \<open>The parts of a workload\<close>

definition share :: "nat \<Rightarrow> nat \<Rightarrow> nat \<Rightarrow> nat" where
  "share tot n i = tot div n + (if i < tot mod n then 1 else 0)"

text \<open>What thread \<open>i\<close> of \<open>n\<close> gets; the first key is computed from the share of the thread before.\<close>

definition thread_part :: "workload \<Rightarrow> nat \<Rightarrow> nat \<Rightarrow> workload" where
  "thread_part w n i =
     w\<lparr>records_count := share (db_records_count w) n i,
       operations_count := max 1 (share (db_operations_count w) n i),
       start_key := start_key w + i * (if i = 0 then 0 else share (db_records_count w) n (i - 1))\<rparr>"

lemma split_loop_parts:
  assumes "ws = map (thread_part w n) [0..<i]" "i + k = n"
  shows "split_loop w (db_records_count w div n) (db_operations_count w div n) i k
           (db_records_count w mod n - i) (db_operations_count w mod n - i) ws =
         map (thread_part w n) [0..<n]"
  using assms
proof (induction k arbitrary: i ws)
  case (Suc k)
  have "i \<noteq> 0 \<Longrightarrow> records_count (ws ! (i - 1)) = share (db_records_count w) n (i - 1)"
    using Suc.prems(1) by (simp add: thread_part_def)
  moreover have "ws @ [thread_part w n i] = map (thread_part w n) [0..<Suc i]"
    using Suc.prems(1) by simp
  moreover have "d - (if d \<noteq> 0 then 1 else 0) = d - 1" for d :: nat by simp
  ultimately show ?case
    using Suc.IH [of "ws @ [thread_part w n i]" "Suc i"] Suc.prems(2)
    by (auto simp: Let_def thread_part_def share_def)
qed simp

lemma split_workload_parts:
  "split_workload_into_threads w n = map (thread_part w n) [0..<n]"
  using split_loop_parts [of "[]" w n 0 n] by (simp add: split_workload_into_threads_def)

lemma sum_share: "k \<le> n \<Longrightarrow> (\<Sum>i<k. share tot n i) = k * (tot div n) + min k (tot mod n)"
  by (induction k) (auto simp: share_def)

lemma sum_share_all: "n > 0 \<Longrightarrow> (\<Sum>i<n. share tot n i) = tot"
  using sum_share [of n n tot] by (simp add: min_absorb2 less_imp_le mult.commute)

lemma thread_part_start:
  assumes "i < n"
  shows "start_key (thread_part w n i) = start_key w + (i * (db_records_count w div n) + min i (db_records_count w mod n)) \<longleftrightarrow>
    i \<le> db_records_count w mod n \<or> db_records_count w mod n = 0"
proof (cases "i = 0")
  case False
  then show ?thesis by (auto simp: thread_part_def share_def algebra_simps min_def)
qed (simp add: thread_part_def)

text \<open>
  C39. Dividing a workload among \<open>n\<close> threads: the shares of records add up to all records and
  differ by at most one, and so do the operations when there is at least one for each
  thread. The ranges of keys of the threads follow each other, so that every key belongs to
  one thread, exactly when the records can be divided without remainder or with one of \<open>n - 1\<close>:
  otherwise ranges overlap, and the last keys belong to nobody.
\<close>

theorem split_workload_correct:
  assumes "n > 0"
  shows "length (split_workload_into_threads w n) = n \<and>
    (\<Sum>i<n. records_count (split_workload_into_threads w n ! i)) = db_records_count w \<and>
    (\<forall>i < n. \<forall>j < n. records_count (split_workload_into_threads w n ! i) \<le>
       records_count (split_workload_into_threads w n ! j) + 1) \<and>
    (n \<le> db_operations_count w \<longrightarrow>
       (\<Sum>i<n. operations_count (split_workload_into_threads w n ! i)) = db_operations_count w) \<and>
    ((\<forall>i < n. start_key (split_workload_into_threads w n ! i) =
        start_key w + (\<Sum>j<i. records_count (split_workload_into_threads w n ! j))) \<longleftrightarrow>
     db_records_count w mod n = 0 \<or> db_records_count w mod n = n - 1)"
proof -
  let ?q = "db_records_count w div n" and ?r = "db_records_count w mod n"
  have nth: "split_workload_into_threads w n ! i = thread_part w n i" if "i < n" for i
    using that by (simp add: split_workload_parts)
  have rec: "(\<Sum>j<i. records_count (split_workload_into_threads w n ! j)) = i * ?q + min i ?r" if "i \<le> n" for i
    using sum_share [OF that, of "db_records_count w"] that
    by (simp add: nth thread_part_def)
  have ops: "operations_count (split_workload_into_threads w n ! i) = share (db_operations_count w) n i"
    if "i < n" "n \<le> db_operations_count w" for i
  proof -
    have "db_operations_count w div n \<ge> 1" using that assms by (simp add: div_greater_zero_iff Suc_le_eq)
    then show ?thesis using that by (simp add: nth thread_part_def share_def)
  qed
  have r: "?r < n" using assms by simp
  have start: "start_key (split_workload_into_threads w n ! i) =
      start_key w + (\<Sum>j<i. records_count (split_workload_into_threads w n ! j)) \<longleftrightarrow> i \<le> ?r \<or> ?r = 0"
    if "i < n" for i
    using that rec [of i] by (simp add: nth thread_part_start [OF that])
  have "(\<forall>i < n. i \<le> ?r \<or> ?r = 0) \<longleftrightarrow> ?r = 0 \<or> ?r = n - 1"
  proof
    assume "\<forall>i < n. i \<le> ?r \<or> ?r = 0"
    then have "n - 1 \<le> ?r \<or> ?r = 0" using assms by auto
    then show "?r = 0 \<or> ?r = n - 1" using r by linarith
  qed auto
  then have "(\<forall>i < n. start_key (split_workload_into_threads w n ! i) =
      start_key w + (\<Sum>j<i. records_count (split_workload_into_threads w n ! j))) \<longleftrightarrow>
      ?r = 0 \<or> ?r = n - 1"
    using start by simp
  moreover have "n \<le> db_operations_count w \<longrightarrow>
      (\<Sum>i<n. operations_count (split_workload_into_threads w n ! i)) = db_operations_count w"
    using sum_share_all [OF assms, of "db_operations_count w"] ops by simp
  moreover have "(\<Sum>i<n. records_count (split_workload_into_threads w n ! i)) = db_records_count w"
    using sum_share_all [OF assms, of "db_records_count w"] by (simp add: nth thread_part_def)
  moreover have "length (split_workload_into_threads w n) = n" by (simp add: split_workload_parts)
  ultimately show ?thesis by (auto simp: nth thread_part_def share_def)
qed

definition demo_workload :: workload where
  "demo_workload =
     \<lparr>w_name = ''init'', db_records_count = 10, records_count = 0, db_operations_count = 10,
      operations_count = 0, upsert_proportion = 1, update_proportion = 0, remove_proportion = 0,
      read_proportion = 0, read_modify_write_proportion = 0, batch_upsert_proportion = 0,
      batch_read_proportion = 0, bulk_load_proportion = 0, range_select_proportion = 0,
      scan_proportion = 0, start_key = 0, key_dist = uniform_k, value_length = 100,
      value_length_dist = const_k, batch_upsert_min_length = 1, batch_upsert_max_length = 2,
      batch_upsert_length_dist = uniform_k, batch_read_min_length = 1, batch_read_max_length = 2,
      batch_read_length_dist = uniform_k, bulk_load_min_length = 1, bulk_load_max_length = 2,
      bulk_load_length_dist = uniform_k, range_select_min_length = 1, range_select_max_length = 2,
      range_select_length_dist = uniform_k\<rparr>"

lemma demo_parts:
  "map (\<lambda>w. (start_key w, records_count w)) (split_workload_into_threads demo_workload 4) =
     [(0, 3), (3, 3), (6, 2), (6, 2)]"
  by (simp add: split_workload_parts thread_part_def share_def demo_workload_def upt_rec)

theorem split_workload_correct_witness:
  "start_key (split_workload_into_threads demo_workload 4 ! 3) = 6 \<and>
   (\<Sum>i<4. records_count (split_workload_into_threads demo_workload 4 ! i)) = 10 \<and>
   \<not> (\<forall>i < 4. start_key (split_workload_into_threads demo_workload 4 ! i) =
        start_key demo_workload + (\<Sum>j<i. records_count (split_workload_into_threads demo_workload 4 ! j)))"
  using split_workload_correct [of 4 demo_workload]
  by (simp add: split_workload_parts thread_part_def share_def demo_workload_def)

section \<open>What is checked of the file\<close>

lemma load_workload_kinds:
  assumes "load_workload j = Inr (Some w)"
  shows "key_dist w \<noteq> unknown_k \<and> value_length_dist w \<noteq> unknown_k \<and>
    batch_upsert_length_dist w \<noteq> unknown_k \<and> batch_read_length_dist w \<noteq> unknown_k \<and>
    bulk_load_length_dist w \<noteq> unknown_k"
  using assms by (auto simp: load_workload_def split: if_splits)

lemma load_loop_kinds:
  "load_loop js ws = Inr (ok, ws') \<Longrightarrow> (\<forall>w \<in> set ws. key_dist w \<noteq> unknown_k \<and> value_length_dist w \<noteq> unknown_k \<and>
     batch_upsert_length_dist w \<noteq> unknown_k \<and> batch_read_length_dist w \<noteq> unknown_k \<and>
     bulk_load_length_dist w \<noteq> unknown_k) \<Longrightarrow>
   (if ok then length ws' = length ws + length js else ws' = []) \<and>
   (\<forall>w \<in> set ws'. key_dist w \<noteq> unknown_k \<and> value_length_dist w \<noteq> unknown_k \<and>
     batch_upsert_length_dist w \<noteq> unknown_k \<and> batch_read_length_dist w \<noteq> unknown_k \<and>
     bulk_load_length_dist w \<noteq> unknown_k)"
proof (induction js arbitrary: ws)
  case (Cons j js)
  from Cons.prems(1) obtain r where r: "load_workload j = Inr r"
      "(case r of None \<Rightarrow> Inr (False, []) | Some w \<Rightarrow> load_loop js (ws @ [w])) = Inr (ok, ws')"
    by auto
  show ?case
  proof (cases r)
    case (Some w)
    have "\<forall>v \<in> set (ws @ [w]). key_dist v \<noteq> unknown_k \<and> value_length_dist v \<noteq> unknown_k \<and>
     batch_upsert_length_dist v \<noteq> unknown_k \<and> batch_read_length_dist v \<noteq> unknown_k \<and>
     bulk_load_length_dist v \<noteq> unknown_k"
      using Cons.prems(2) load_workload_kinds [of j w] r(1) Some by simp
    with Cons.IH [of "ws @ [w]"] r(2) Some show ?thesis by simp
  qed (use r in simp)
qed simp

text \<open>A file with one workload that asks for an unknown distribution of the range lengths.\<close>

definition bad_range_file :: json_object where
  "bad_range_file =
     \<lparr>get_string = (\<lambda>name. if name = ''name'' then Inr ''r'' else raise ''type_error''),
      get_size = (\<lambda>name. if name = ''records_count'' then Inr 1000
                          else if name = ''operations_count'' then Inr 10 else raise ''type_error''),
      value_size = (\<lambda>name dflt. Inr dflt),
      value_num = (\<lambda>name dflt. Inr (if name = ''range_select_proportion'' then 1 else dflt)),
      value_string = (\<lambda>name dflt.
        Inr (if name = ''range_select_length_dist'' then ''no_such_distribution'' else dflt))\<rparr>"

lemma bad_range_workload:
  "\<exists>w. load_workload bad_range_file = Inr (Some w) \<and> range_select_length_dist w = unknown_k \<and>
     range_select_proportion w = 1 \<and> range_select_max_length w = 100 \<and> upsert_proportion w = 0 \<and>
     batch_upsert_proportion w = 0 \<and> bulk_load_proportion w = 0 \<and> key_dist w = uniform_k \<and>
     value_length_dist w = const_k \<and> batch_upsert_length_dist w = uniform_k \<and>
     batch_read_length_dist w = uniform_k \<and> bulk_load_length_dist w = uniform_k"
  by (simp add: load_workload_def j_dist_def bad_range_file_def
      parse_distribution_def)

text \<open>
  \<open>load\<close> answers false and with no workload at all when one distribution of the keys, of the
  value lengths or of the lengths of batches is not known, and otherwise with all
  workloads of the file; but it accepts a file whose distribution of range lengths is not known.
\<close>

theorem load_workloads_checked:
  "(\<forall>src ok ws. load_workloads src = Inr (ok, ws) \<longrightarrow>
     (if ok then length ws = length (the src) else ws = []) \<and>
     (\<forall>w \<in> set ws. key_dist w \<noteq> unknown_k \<and> value_length_dist w \<noteq> unknown_k \<and>
        batch_upsert_length_dist w \<noteq> unknown_k \<and> batch_read_length_dist w \<noteq> unknown_k \<and>
        bulk_load_length_dist w \<noteq> unknown_k)) \<and>
   (\<exists>w. load_workloads (Some [bad_range_file]) = Inr (True, [w]) \<and> range_select_length_dist w = unknown_k)"
proof (intro conjI allI impI)
  fix src ok ws
  assume load: "load_workloads src = Inr (ok, ws)"
  have "(if ok then length ws = length (the src) else ws = []) \<and>
     (\<forall>w \<in> set ws. key_dist w \<noteq> unknown_k \<and> value_length_dist w \<noteq> unknown_k \<and>
        batch_upsert_length_dist w \<noteq> unknown_k \<and> batch_read_length_dist w \<noteq> unknown_k \<and>
        bulk_load_length_dist w \<noteq> unknown_k)"
  proof (cases src)
    case (Some js)
    with load load_loop_kinds [of js "[]" ok ws] show ?thesis by (simp add: load_workloads_def)
  qed (use load in \<open>auto simp: load_workloads_def\<close>)
  then show "if ok then length ws = length (the src) else ws = []"
    "\<forall>w \<in> set ws. key_dist w \<noteq> unknown_k \<and> value_length_dist w \<noteq> unknown_k \<and>
        batch_upsert_length_dist w \<noteq> unknown_k \<and> batch_read_length_dist w \<noteq> unknown_k \<and>
        bulk_load_length_dist w \<noteq> unknown_k"
    by blast+
next
  obtain w where "load_workload bad_range_file = Inr (Some w)" "range_select_length_dist w = unknown_k"
    using bad_range_workload by blast
  then show "\<exists>w. load_workloads (Some [bad_range_file]) = Inr (True, [w]) \<and> range_select_length_dist w = unknown_k"
    by (simp add: load_workloads_def)
qed

theorem load_workloads_checked_witness:
  "\<exists>w. load_workloads (Some [bad_range_file]) = Inr (True, [w]) \<and> key_dist w \<noteq> unknown_k"
proof -
  obtain w where w: "load_workloads (Some [bad_range_file]) = Inr (True, [w])"
    using load_workloads_checked by blast
  then have "\<forall>v \<in> set [w]. key_dist v \<noteq> unknown_k"
    using conjunct1 [OF load_workloads_checked, rule_format, OF w] by simp
  with w show ?thesis by simp
qed

end
