(* ===== verification/UcsbWorker.thy ===== *)
theory UcsbWorker
  imports UcsbWorkload
begin

unbundle bit_operations_syntax

text \<open>
  \<open>src/UCSB/src/core/worker.hpp\<close> and the generators it uses: a worker draws keys, values and
  lengths for the operations of one workload, keeps the buffers for them, and calls the database.

  Randomness is an argument: \<open>uniform a b k\<close> is the value that the \<open>k\<close>-th call of a
  \<open>uniform_int_distribution\<close> on \<open>[a, b]\<close> yields over its engine, \<open>zipf a b k\<close> and \<open>latest k m\<close> those
  of the two generators that compute with floating-point numbers, \<open>rand k\<close> the \<open>k\<close>-th number of the
  generator of bytes. An operation of the worker yields the calls of the database it makes;
  for a span that the database fills the call has its length.
\<close>

section \<open>Generators\<close>

record env =
  uniform :: "nat \<Rightarrow> nat \<Rightarrow> nat \<Rightarrow> nat"
  zipf :: "nat \<Rightarrow> nat \<Rightarrow> nat \<Rightarrow> nat"
  latest :: "nat \<Rightarrow> nat \<Rightarrow> nat"
  rand :: "nat \<Rightarrow> 32 word"

text \<open>\<open>x - 1\<close> on \<open>size_t\<close>.\<close>

definition minus_one :: "nat \<Rightarrow> nat" where
  "minus_one x = (if x = 0 then 2 ^ 64 - 1 else x - 1)"

text \<open>\<open>counter_generator_t\<close> and \<open>acknowledged_counter_generator_t\<close>, the latter with its window and limit.\<close>

datatype counter_gen = Counter nat | Acked nat "nat set" nat

definition window_size_k :: nat where
  "window_size_k = 2 ^ 16"

definition acked_new :: "nat \<Rightarrow> counter_gen" where
  "acked_new start = Acked start {} (minus_one start)"

fun counter_next :: "counter_gen \<Rightarrow> nat \<times> counter_gen" where
  "counter_next (Counter c) = (c, Counter (c + 1))"
| "counter_next (Acked c win limit) = (c, Acked (c + 1) win limit)"

fun counter_last :: "counter_gen \<Rightarrow> nat" where
  "counter_last (Counter c) = minus_one c"
| "counter_last (Acked c win limit) = limit"

text \<open>
  The loop of \<open>acknowledge\<close> with the number of rounds left. A counter that starts at 0 has the
  largest number as its limit; the wrap-around of \<open>limit + 1\<close> there is not modelled, and the theorem
  on acknowledgements is about counters that start later.
\<close>

fun ack_loop :: "nat \<Rightarrow> nat \<Rightarrow> nat set \<Rightarrow> nat \<times> nat set" where
  "ack_loop 0 i win = (i, win)"
| "ack_loop (Suc n) i win =
     (if i mod window_size_k \<notin> win then (i, win)
      else ack_loop n (i + 1) (win - {i mod window_size_k}))"

fun acknowledge :: "nat \<Rightarrow> counter_gen \<Rightarrow> counter_gen result" where
  "acknowledge val (Counter c) = Inl Undefined"
| "acknowledge val (Acked c win limit) =
     (let cur_slot = val mod window_size_k
      in if cur_slot \<in> win then raise ''Not enough window size''
         else let (i, win') = ack_loop (window_size_k - 1) (limit + 1) (insert cur_slot win)
              in Inr (Acked c win' (i - 1)))"

definition fnv_round :: "64 word \<times> 64 word \<Rightarrow> 64 word \<times> 64 word" where
  "fnv_round = (\<lambda>(hash, val). ((hash XOR (val AND 0xff)) * 1099511628211, drop_bit 8 val))"

definition fnv_hash64 :: "64 word \<Rightarrow> 64 word" where
  "fnv_hash64 val = fst ((fnv_round ^^ 8) (0xCBF29CE484222325, val))"

definition scramble :: "nat \<Rightarrow> nat \<Rightarrow> nat \<Rightarrow> nat" where
  "scramble base num_items val = base + unat (fnv_hash64 (of_nat val)) mod num_items"

text \<open>The other generators, with the number of values drawn so far.\<close>

datatype gen =
    ConstGen nat
  | UniformGen nat nat nat
  | ZipfGen nat nat nat
  | ScrambledGen nat nat nat
  | LatestGen nat

definition uniform_new :: "nat \<Rightarrow> nat \<Rightarrow> gen" where
  "uniform_new a b = UniformGen a b 1"

definition items_max_count :: nat where
  "items_max_count = 2 ^ 40 - 1"

text \<open>The assertion of \<open>zipfian_generator_t\<close> on the number of its items.\<close>

definition zipf_items :: "nat \<Rightarrow> unit result" where
  "zipf_items items_count = check (2 \<le> items_count \<and> items_count < items_max_count)"

definition zipf_new :: "nat \<Rightarrow> nat \<Rightarrow> gen result" where
  "zipf_new a b = bindE (zipf_items (b + 1 - a)) (\<lambda>_. Inr (ZipfGen a b 1))"

definition scrambled_new :: "nat \<Rightarrow> nat \<Rightarrow> gen" where
  "scrambled_new a b = ScrambledGen a (b + 1 - a) 1"

text \<open>\<open>basis\<close> is \<open>last()\<close> of the counter that a latest generator refers to, the number of its items.\<close>

definition latest_new :: "nat \<Rightarrow> gen result" where
  "latest_new basis = bindE (zipf_items basis) (\<lambda>_. Inr (LatestGen 1))"

text \<open>
  A draw. The assertion of \<open>generate(num)\<close> holds again, since the counter keeps its \<open>last()\<close>; the
  difference of a latest generator is one of \<open>size_t\<close>.
\<close>

definition minus_size :: "nat \<Rightarrow> nat \<Rightarrow> nat" where
  "minus_size x y = unat (of_nat x - of_nat y :: 64 word)"

fun gen_next :: "env \<Rightarrow> nat \<Rightarrow> gen \<Rightarrow> nat \<times> gen" where
  "gen_next e basis (ConstGen c) = (c, ConstGen c)"
| "gen_next e basis (UniformGen a b k) = (uniform e a b k, UniformGen a b (k + 1))"
| "gen_next e basis (ZipfGen a b k) = (zipf e a b k, ZipfGen a b (k + 1))"
| "gen_next e basis (ScrambledGen a n k) = (scramble a n (zipf e 0 10000000000 k), ScrambledGen a n (k + 1))"
| "gen_next e basis (LatestGen k) = (minus_size basis (latest e k basis), LatestGen (k + 1))"

text \<open>\<open>random_byte_generator_t\<close>: six bytes from one random number.\<close>

definition random_byte :: "env \<Rightarrow> nat \<Rightarrow> 8 word" where
  "random_byte e k =
     (let bytes = rand e (k div 6); j = k mod 6;
          mask = (if j = 0 \<or> j = 3 then 31 else if j = 1 \<or> j = 4 then 63 else 95)
      in ucast ((drop_bit (5 * j) bytes AND mask) + 32))"

section \<open>The worker\<close>

record worker =
  wk_workload :: workload
  wk_upsert_gen :: counter_gen
  wk_ack_gen :: "counter_gen option"
  wk_key_gen :: "gen option"
  wk_keys :: "nat list"
  wk_value_length_gen :: gen
  wk_bytes_drawn :: nat
  wk_values :: "8 word list"
  wk_sizes :: "nat list"
  wk_batch_upsert_gen :: gen
  wk_batch_read_gen :: gen
  wk_bulk_load_gen :: gen
  wk_range_select_gen :: gen

definition create_key_generator :: "workload \<Rightarrow> counter_gen \<Rightarrow> gen result" where
  "create_key_generator w counter_generator =
     (case key_dist w of
        uniform_k \<Rightarrow> Inr (uniform_new (start_key w) (minus_one (start_key w + records_count w)))
      | zipfian_k \<Rightarrow>
          let new_keys = nat \<lfloor>of_nat (operations_count w) * upsert_proportion w * 2\<rfloor>
          in Inr (scrambled_new (start_key w) (minus_one (start_key w + records_count w + new_keys)))
      | skewed_latest_k \<Rightarrow> latest_new (counter_last counter_generator)
      | _ \<Rightarrow> raise ''Unknown key distribution'')"

definition create_value_length_generator :: "workload \<Rightarrow> gen result" where
  "create_value_length_generator w =
     (case value_length_dist w of
        const_k \<Rightarrow> Inr (ConstGen (value_length w))
      | uniform_k \<Rightarrow> Inr (uniform_new 1 (value_length w))
      | _ \<Rightarrow> raise ''Unknown value length distribution'')"

text \<open>The four generators of lengths are created in the same way.\<close>

definition create_length_generator :: "distribution_kind \<Rightarrow> nat \<Rightarrow> nat \<Rightarrow> gen result" where
  "create_length_generator kind a b =
     (case kind of
        uniform_k \<Rightarrow> Inr (uniform_new a b)
      | zipfian_k \<Rightarrow> zipf_new a b
      | _ \<Rightarrow> raise ''Unknown length distribution'')"

definition create_batch_upsert_length_generator :: "workload \<Rightarrow> gen result" where
  "create_batch_upsert_length_generator w =
     create_length_generator (batch_upsert_length_dist w) (batch_upsert_min_length w) (batch_upsert_max_length w)"

definition create_batch_read_length_generator :: "workload \<Rightarrow> gen result" where
  "create_batch_read_length_generator w =
     create_length_generator (batch_read_length_dist w) (batch_read_min_length w) (batch_read_max_length w)"

definition create_bulk_load_length_generator :: "workload \<Rightarrow> gen result" where
  "create_bulk_load_length_generator w =
     create_length_generator (bulk_load_length_dist w) (bulk_load_min_length w) (bulk_load_max_length w)"

definition create_range_select_length_generator :: "workload \<Rightarrow> gen result" where
  "create_range_select_length_generator w =
     create_length_generator (range_select_length_dist w) (range_select_min_length w) (range_select_max_length w)"

lemmas create_length_generator_defs = create_batch_upsert_length_generator_def
  create_batch_read_length_generator_def create_bulk_load_length_generator_def
  create_range_select_length_generator_def

definition elements_max_count :: "workload \<Rightarrow> nat" where
  "elements_max_count w =
     Max {batch_upsert_max_length w, batch_read_max_length w, bulk_load_max_length w, 1}"

text \<open>
  The constructor. The generator with acknowledgements is moved to
  \<open>upsert_key_sequence_generator\<close>, which leaves the pointer \<open>acknowledged_key_generator\<close> empty.
\<close>

definition worker_new :: "workload \<Rightarrow> worker result" where
  "worker_new w =
     bindE (if upsert_proportion w = 1 \<or> batch_upsert_proportion w = 1 \<or> bulk_load_proportion w = 1
            then Inr (Counter (start_key w), None)
            else let acked = acked_new (db_records_count w)
                 in bindE (create_key_generator w acked) (\<lambda>g. Inr (acked, Some g)))
       (\<lambda>(upsert_gen, key_gen).
     bindE (create_value_length_generator w) (\<lambda>vlen.
     bindE (create_batch_upsert_length_generator w) (\<lambda>bu.
     bindE (create_batch_read_length_generator w) (\<lambda>br.
     bindE (create_bulk_load_length_generator w) (\<lambda>bl.
     bindE (create_range_select_length_generator w) (\<lambda>rs.
     Inr \<lparr>wk_workload = w, wk_upsert_gen = upsert_gen, wk_ack_gen = None, wk_key_gen = key_gen,
          wk_keys = replicate (elements_max_count w) 0, wk_value_length_gen = vlen,
          wk_bytes_drawn = 0, wk_values = replicate (elements_max_count w * value_length w) 0,
          wk_sizes = replicate (elements_max_count w) 0, wk_batch_upsert_gen = bu,
          wk_batch_read_gen = br, wk_bulk_load_gen = bl, wk_range_select_gen = rs\<rparr>))))))"

section \<open>Drawing keys and values\<close>

text \<open>Writing an array at an index.\<close>

definition put :: "nat \<Rightarrow> 'a \<Rightarrow> 'a list \<Rightarrow> 'a list result" where
  "put i x xs = (if i < length xs then Inr (xs[i := x]) else Inl Undefined)"

fun generate_key :: "env \<Rightarrow> nat \<Rightarrow> worker \<Rightarrow> (nat \<times> worker) result" where
  "generate_key e 0 wk = Inl OutOfFuel"
| "generate_key e (Suc fuel) wk =
     (case wk_key_gen wk of
        None \<Rightarrow> Inl Undefined
      | Some g \<Rightarrow>
          let (key, g') = gen_next e (counter_last (wk_upsert_gen wk)) g;
              wk' = wk\<lparr>wk_key_gen := Some g'\<rparr>
          in if key > counter_last (wk_upsert_gen wk) then generate_key e fuel wk' else Inr (key, wk'))"

text \<open>The keys of \<open>batch_upsert\<close> and \<open>bulk_load\<close>: \<open>n\<close> of them are left, \<open>i\<close> have been written.\<close>

definition acknowledge_key :: "nat \<Rightarrow> worker \<Rightarrow> worker result" where
  "acknowledge_key key wk =
     (case wk_ack_gen wk of
        None \<Rightarrow> Inr wk
      | Some g \<Rightarrow> bindE (acknowledge key g) (\<lambda>g'. Inr (wk\<lparr>wk_ack_gen := Some g'\<rparr>)))"

fun sequence_keys :: "nat \<Rightarrow> nat \<Rightarrow> worker \<Rightarrow> worker result" where
  "sequence_keys i 0 wk = Inr wk"
| "sequence_keys i (Suc n) wk =
     (let (key, g) = counter_next (wk_upsert_gen wk)
      in bindE (put i key (wk_keys wk)) (\<lambda>keys.
         bindE (acknowledge_key key (wk\<lparr>wk_upsert_gen := g, wk_keys := keys\<rparr>)) (\<lambda>wk'.
           sequence_keys (i + 1) n wk')))"

text \<open>The distinct keys of \<open>batch_read\<close>. The span of keys is the first part of the buffer, of the length drawn.\<close>

fun unique_keys_loop :: "env \<Rightarrow> nat \<Rightarrow> nat \<Rightarrow> nat \<Rightarrow> nat set \<Rightarrow> nat \<Rightarrow> worker \<Rightarrow> worker result" where
  "unique_keys_loop e fuel 0 n unique i wk = (if i = n then Inr wk else Inl OutOfFuel)"
| "unique_keys_loop e fuel (Suc rounds) n unique i wk =
     (if i = n then Inr wk
      else bindE (generate_key e fuel wk) (\<lambda>(key, wk').
        if key \<in> unique then unique_keys_loop e fuel rounds n unique i wk'
        else bindE (put i key (wk_keys wk')) (\<lambda>keys.
          unique_keys_loop e fuel rounds n (insert key unique) (i + 1) (wk'\<lparr>wk_keys := keys\<rparr>))))"

definition generate_batch_upsert_keys :: "env \<Rightarrow> worker \<Rightarrow> (nat \<times> worker) result" where
  "generate_batch_upsert_keys e wk =
     (let (n, g) = gen_next e 0 (wk_batch_upsert_gen wk)
      in bindE (sequence_keys 0 n (wk\<lparr>wk_batch_upsert_gen := g\<rparr>)) (\<lambda>wk1. Inr (n, wk1)))"

definition generate_batch_read_keys :: "env \<Rightarrow> nat \<Rightarrow> worker \<Rightarrow> (nat \<times> worker) result" where
  "generate_batch_read_keys e fuel wk =
     (let (n, g) = gen_next e 0 (wk_batch_read_gen wk)
      in bindE (unique_keys_loop e fuel fuel n {} 0 (wk\<lparr>wk_batch_read_gen := g\<rparr>)) (\<lambda>wk1. Inr (n, wk1)))"

definition generate_bulk_load_keys :: "env \<Rightarrow> worker \<Rightarrow> (nat \<times> worker) result" where
  "generate_bulk_load_keys e wk =
     (let (n, g) = gen_next e 0 (wk_bulk_load_gen wk)
      in bindE (sequence_keys 0 n (wk\<lparr>wk_bulk_load_gen := g\<rparr>)) (\<lambda>wk1. Inr (n, wk1)))"

lemmas generate_keys_defs = generate_batch_upsert_keys_def generate_batch_read_keys_def
  generate_bulk_load_keys_def

fun fill_bytes :: "env \<Rightarrow> nat \<Rightarrow> nat \<Rightarrow> worker \<Rightarrow> worker result" where
  "fill_bytes e i 0 wk = Inr wk"
| "fill_bytes e i (Suc n) wk =
     bindE (put i (random_byte e (wk_bytes_drawn wk)) (wk_values wk)) (\<lambda>vs.
       fill_bytes e (i + 1) n (wk\<lparr>wk_values := vs, wk_bytes_drawn := wk_bytes_drawn wk + 1\<rparr>))"

fun fill_sizes :: "env \<Rightarrow> nat \<Rightarrow> nat \<Rightarrow> nat \<Rightarrow> worker \<Rightarrow> (nat \<times> worker) result" where
  "fill_sizes e i 0 acc wk = Inr (acc, wk)"
| "fill_sizes e i (Suc n) acc wk =
     (let (len, g) = gen_next e 0 (wk_value_length_gen wk)
      in bindE (put i len (wk_sizes wk)) (\<lambda>sizes.
           fill_sizes e (i + 1) n (acc + len) (wk\<lparr>wk_sizes := sizes, wk_value_length_gen := g\<rparr>)))"

text \<open>The spans of values and sizes.\<close>

definition generate_values ::
  "env \<Rightarrow> nat \<Rightarrow> worker \<Rightarrow> (8 word list \<times> nat list \<times> worker) result" where
  "generate_values e count wk =
     bindE (fill_bytes e 0 (count * value_length (wk_workload wk)) wk) (\<lambda>wk1.
     bindE (fill_sizes e 0 count 0 wk1) (\<lambda>(len, wk2).
       if len > length (wk_values wk2) then Inl Undefined
       else Inr (take len (wk_values wk2), take count (wk_sizes wk2), wk2)))"

definition generate_value :: "env \<Rightarrow> worker \<Rightarrow> (8 word list \<times> worker) result" where
  "generate_value e wk =
     bindE (generate_values e 1 wk) (\<lambda>(vs, sizes, wk'). Inr (take (sizes ! 0) vs, wk'))"

text \<open>The length of the span that is handed out for \<open>count\<close> values.\<close>

definition values_buffer :: "nat \<Rightarrow> worker \<Rightarrow> nat" where
  "values_buffer count wk = count * value_length (wk_workload wk)"

section \<open>Operations\<close>

datatype db_call =
    Upsert nat "8 word list"
  | Update nat "8 word list"
  | Remove nat
  | Read nat nat
  | BatchUpsert "nat list" "8 word list" "nat list"
  | BatchRead "nat list" nat
  | BulkLoad "nat list" "8 word list" "nat list"
  | RangeSelect nat nat nat
  | Scan nat nat nat

type_synonym step_result = "(db_call list \<times> worker) result"

definition do_upsert :: "env \<Rightarrow> worker \<Rightarrow> step_result" where
  "do_upsert e wk =
     (let (key, g) = counter_next (wk_upsert_gen wk)
      in bindE (generate_value e (wk\<lparr>wk_upsert_gen := g\<rparr>)) (\<lambda>(v, wk1).
         bindE (acknowledge_key key wk1) (\<lambda>wk2. Inr ([Upsert key v], wk2))))"

definition do_update :: "env \<Rightarrow> nat \<Rightarrow> worker \<Rightarrow> step_result" where
  "do_update e fuel wk =
     bindE (generate_key e fuel wk) (\<lambda>(key, wk1).
     bindE (generate_value e wk1) (\<lambda>(v, wk2). Inr ([Update key v], wk2)))"

definition do_remove :: "env \<Rightarrow> nat \<Rightarrow> worker \<Rightarrow> step_result" where
  "do_remove e fuel wk = bindE (generate_key e fuel wk) (\<lambda>(key, wk1). Inr ([Remove key], wk1))"

definition do_read :: "env \<Rightarrow> nat \<Rightarrow> worker \<Rightarrow> step_result" where
  "do_read e fuel wk =
     bindE (generate_key e fuel wk) (\<lambda>(key, wk1). Inr ([Read key (values_buffer 1 wk1)], wk1))"

definition do_read_modify_write :: "env \<Rightarrow> nat \<Rightarrow> worker \<Rightarrow> step_result" where
  "do_read_modify_write e fuel wk =
     bindE (generate_key e fuel wk) (\<lambda>(key, wk1).
     bindE (generate_value e wk1) (\<lambda>(v, wk2).
       Inr ([Read key (values_buffer 1 wk1), Update key v], wk2)))"

definition do_batch_upsert :: "env \<Rightarrow> worker \<Rightarrow> step_result" where
  "do_batch_upsert e wk =
     bindE (generate_batch_upsert_keys e wk) (\<lambda>(n, wk1).
     bindE (generate_values e n wk1) (\<lambda>(vs, sizes, wk2).
       Inr ([BatchUpsert (take n (wk_keys wk1)) vs sizes], wk2)))"

definition do_batch_read :: "env \<Rightarrow> nat \<Rightarrow> worker \<Rightarrow> step_result" where
  "do_batch_read e fuel wk =
     bindE (generate_batch_read_keys e fuel wk) (\<lambda>(n, wk1).
       Inr ([BatchRead (take n (wk_keys wk1)) (values_buffer n wk1)], wk1))"

definition do_bulk_load :: "env \<Rightarrow> worker \<Rightarrow> step_result" where
  "do_bulk_load e wk =
     bindE (generate_bulk_load_keys e wk) (\<lambda>(n, wk1).
     bindE (generate_values e n wk1) (\<lambda>(vs, sizes, wk2).
       Inr ([BulkLoad (take n (wk_keys wk1)) vs sizes], wk2)))"

definition do_range_select :: "env \<Rightarrow> nat \<Rightarrow> worker \<Rightarrow> step_result" where
  "do_range_select e fuel wk =
     bindE (generate_key e fuel wk) (\<lambda>(key, wk1).
       let (n, g) = gen_next e 0 (wk_range_select_gen wk1);
           wk2 = wk1\<lparr>wk_range_select_gen := g\<rparr>
       in Inr ([RangeSelect key n (values_buffer n wk2)], wk2))"

definition do_scan :: "worker \<Rightarrow> step_result" where
  "do_scan wk =
     Inr ([Scan (start_key (wk_workload wk)) (records_count (wk_workload wk)) (values_buffer 1 wk)], wk)"

end
