(* ===== verification/UcsbAck.thy ===== *)
theory UcsbAck
  imports UcsbWorker
begin

text \<open>
  \<open>acknowledged_counter_generator_t\<close>: \<open>last\<close> is the last key up to which all keys have been
  acknowledged, whatever the order of the acknowledgements, as long as they stay within a
  window; the window is kept as a ring of bits. And the hash of the scrambled generator.
\<close>

lemma window_pos: "window_size_k > 1"
  by (simp add: window_size_k_def)

definition slots :: "nat set \<Rightarrow> nat set" where
  "slots B = (\<lambda>v. v mod window_size_k) ` B"

lemma mod_window_inj: "inj_on (\<lambda>v. v mod window_size_k) {i..<i + window_size_k}"
proof (rule inj_onI)
  fix x y
  assume xy: "x \<in> {i..<i + window_size_k}" "y \<in> {i..<i + window_size_k}"
    and eq: "x mod window_size_k = y mod window_size_k"
  have "x = y" if "x \<le> y" "x \<in> {i..<i + window_size_k}" "y \<in> {i..<i + window_size_k}"
      "x mod window_size_k = y mod window_size_k" for x y
  proof -
    have "window_size_k dvd y - x" using that(1) that(4) mod_eq_dvd_iff_nat [of x y window_size_k] by simp
    moreover have "y - x < window_size_k" using that by auto
    ultimately have "y - x = 0" using nat_dvd_not_less by blast
    then show ?thesis using that(1) by simp
  qed
  then show "x = y" using xy eq by (metis nle_le)
qed

lemma slots_mem:
  assumes "B \<subseteq> {i..<i + window_size_k}" "x \<in> {i..<i + window_size_k}"
  shows "x mod window_size_k \<in> slots B \<longleftrightarrow> x \<in> B"
  using inj_onD [OF mod_window_inj [of i]] assms unfolding slots_def by blast

lemma slots_remove:
  assumes "B \<subseteq> {i..<i + window_size_k}" "x \<in> B"
  shows "slots B - {x mod window_size_k} = slots (B - {x})"
  using inj_onD [OF mod_window_inj [of i]] assms unfolding slots_def by blast

text \<open>The loop passes over the acknowledged keys that follow one another.\<close>

lemma ack_loop_ok:
  assumes "B \<subseteq> {i..<i + window_size_k}"
  shows "\<exists>j. ack_loop n i (slots B) = (j, slots (B - {i..<j})) \<and> i \<le> j \<and> {i..<j} \<subseteq> B \<and>
    (j \<notin> B \<or> j = i + n)"
  using assms
proof (induction n arbitrary: i B)
  case (Suc n)
  have i: "i \<in> {i..<i + window_size_k}" using window_pos by simp
  show ?case
  proof (cases "i \<in> B")
    case True
    have "B - {i} \<subseteq> {Suc i..<Suc i + window_size_k}"
    proof
      fix x assume "x \<in> B - {i}"
      then have "i \<le> x" "x < i + window_size_k" "x \<noteq> i" using Suc.prems by auto
      then show "x \<in> {Suc i..<Suc i + window_size_k}" by auto
    qed
    from Suc.IH [OF this] obtain j where j: "ack_loop n (Suc i) (slots (B - {i})) =
        (j, slots (B - {i} - {Suc i..<j}))" "Suc i \<le> j" "{Suc i..<j} \<subseteq> B - {i}"
        "j \<notin> B - {i} \<or> j = Suc i + n" by blast
    have "{i..<j} = insert i {Suc i..<j}" using j(2) by auto
    then have "B - {i} - {Suc i..<j} = B - {i..<j}" "{i..<j} \<subseteq> B" using j(3) True by auto
    moreover have "ack_loop (Suc n) i (slots B) = ack_loop n (Suc i) (slots (B - {i}))"
      using True slots_mem [OF Suc.prems i] slots_remove [OF Suc.prems True] by simp
    ultimately show ?thesis using j by (intro exI [of _ j]) auto
  next
    case False
    then show ?thesis using slots_mem [OF Suc.prems i] by (intro exI [of _ i]) simp
  qed
qed auto

text \<open>
  The generator after the keys of \<open>A\<close> have been acknowledged: \<open>limit\<close> is the last key such that all
  keys from \<open>start\<close> on are in \<open>A\<close>, and the bits are those of the keys of \<open>A\<close> behind it.
\<close>

fun ack_ok :: "nat \<Rightarrow> nat set \<Rightarrow> counter_gen \<Rightarrow> bool" where
  "ack_ok start A (Counter c) = False"
| "ack_ok start A (Acked c win limit) =
     (start > 0 \<and> start \<le> limit + 1 \<and> {start..limit} \<subseteq> A \<and> limit + 1 \<notin> A \<and>
      A \<subseteq> {start..<limit + window_size_k} \<and> win = slots {v \<in> A. limit < v})"

lemma acked_new_ok: "start > 0 \<Longrightarrow> ack_ok start {} (acked_new start)"
  by (simp add: acked_new_def minus_one_def slots_def)

text \<open>
  C40. Acknowledging a new key within the window succeeds, in any order of the keys: afterwards
  \<open>last\<close> is again the last key up to which all keys are acknowledged, and it has not gone back.
  Acknowledging a key twice behind \<open>last\<close> raises.
\<close>

theorem acknowledge_correct:
  assumes "ack_ok start A g" and "start \<le> v" and "v < counter_last g + window_size_k"
  shows "(v \<notin> A \<longrightarrow> (\<exists>g'. acknowledge v g = Inr g' \<and> ack_ok start (insert v A) g' \<and>
           counter_last g \<le> counter_last g' \<and> {start..counter_last g'} \<subseteq> insert v A \<and>
           counter_last g' + 1 \<notin> insert v A)) \<and>
    (v \<in> A \<and> counter_last g < v \<longrightarrow> acknowledge v g = Inl (Raise ''Not enough window size''))"
proof -
  from assms(1) obtain c win limit where g: "g = Acked c win limit" by (cases g) auto
  let ?ws = window_size_k
  define B where "B = {u \<in> A. limit < u}"
  have A: "start > 0" "start \<le> limit + 1" "{start..limit} \<subseteq> A" "limit + 1 \<notin> A" "win = slots B"
    and sub: "A \<subseteq> {start..<limit + ?ws}" using assms(1) by (simp_all add: g B_def)
  have B: "B \<subseteq> {limit + 1..<limit + 1 + ?ws}"
  proof
    fix x assume "x \<in> B"
    then have "limit < x" "x < limit + ?ws" using sub by (auto simp: B_def)
    then show "x \<in> {limit + 1..<limit + 1 + ?ws}" by auto
  qed
  show ?thesis
  proof (intro conjI impI)
    assume new: "v \<notin> A"
    have v: "limit < v" "v < limit + ?ws" using new assms(2,3) A(3) by (auto simp: g not_le [symmetric])
    then have vi: "v \<in> {limit + 1..<limit + 1 + ?ws}" by simp
    have "v mod ?ws \<notin> win" using slots_mem [OF B vi] new by (simp add: A(5) B_def)
    moreover have ins: "insert v B \<subseteq> {limit + 1..<limit + 1 + ?ws}" using B vi by blast
    moreover have "insert (v mod ?ws) win = slots (insert v B)" by (simp add: A(5) slots_def)
    ultimately obtain j where j: "acknowledge v g = Inr (Acked c (slots (insert v B - {limit + 1..<j})) (j - 1))"
        "limit + 1 \<le> j" "{limit + 1..<j} \<subseteq> insert v B" "j \<notin> insert v B \<or> j = limit + 1 + (?ws - 1)"
      using ack_loop_ok [OF ins, of "?ws - 1"] by (auto simp: g Let_def)
    have jn: "j \<notin> insert v A"
    proof -
      have "limit + ?ws \<notin> insert v A" using sub v by auto
      then have "j \<notin> insert v B" using j(4) window_pos by (auto simp: B_def)
      then show ?thesis using j(2) by (auto simp: B_def)
    qed
    have range: "{start..j - 1} \<subseteq> insert v A"
    proof
      fix x assume "x \<in> {start..j - 1}"
      then have "x \<in> {start..limit} \<or> x \<in> {limit + 1..<j}" using j(2) by auto
      then show "x \<in> insert v A" using A(3) j(3) by (auto simp: B_def)
    qed
    have "insert v B - {limit + 1..<j} = {u \<in> insert v A. j - 1 < u}"
      using j(2) v jn by (auto simp: B_def)
    moreover have "insert v A \<subseteq> {start..<j - 1 + ?ws}"
    proof
      fix x assume "x \<in> insert v A"
      then have "start \<le> x" "x < limit + ?ws" using sub assms(2) v(2) by auto
      then show "x \<in> {start..<j - 1 + ?ws}" using j(2) by simp
    qed
    moreover have "j - 1 + 1 = j" "limit \<le> j - 1" using j(2) by simp_all
    ultimately have "ack_ok start (insert v A) (Acked c (slots (insert v B - {limit + 1..<j})) (j - 1))"
      using A(1,2) jn range by simp
    then show "\<exists>g'. acknowledge v g = Inr g' \<and> ack_ok start (insert v A) g' \<and>
           counter_last g \<le> counter_last g' \<and> {start..counter_last g'} \<subseteq> insert v A \<and>
           counter_last g' + 1 \<notin> insert v A"
      using j(1) range jn \<open>j - 1 + 1 = j\<close> \<open>limit \<le> j - 1\<close> by (intro exI) (auto simp: g)
  next
    assume "v \<in> A \<and> counter_last g < v"
    then have "v \<in> B" by (simp add: B_def g)
    then have "v mod ?ws \<in> win" by (simp add: A(5) slots_def)
    then show "acknowledge v g = Inl (Raise ''Not enough window size'')"
      by (simp add: g Let_def raise_def)
  qed
qed

theorem acknowledge_correct_witness:
  "\<exists>g1 g2. acknowledge 12 (acked_new 10) = Inr g1 \<and> acknowledge 10 g1 = Inr g2 \<and>
     counter_last g1 = 9 \<and> counter_last g2 = 10"
proof -
  have 0: "ack_ok 10 {} (acked_new 10)" by (rule acked_new_ok) simp
  have l: "counter_last (acked_new 10) = 9" by (simp add: acked_new_def minus_one_def)
  from acknowledge_correct [OF 0, of 12] obtain g1 where g1: "acknowledge 12 (acked_new 10) = Inr g1"
      "ack_ok 10 {12} g1" "9 \<le> counter_last g1" "{10..counter_last g1} \<subseteq> {12}"
    by (auto simp: l window_size_k_def)
  have l1: "counter_last g1 = 9"
  proof (rule ccontr)
    assume "counter_last g1 \<noteq> 9"
    then have "10 \<in> {10..counter_last g1}" using g1(3) by simp
    with g1(4) show False by auto
  qed
  from acknowledge_correct [OF g1(2), of 10] obtain g2 where g2: "acknowledge 10 g1 = Inr g2"
      "{10..counter_last g2} \<subseteq> {10, 12}" "counter_last g2 + 1 \<notin> {10, 12}" "9 \<le> counter_last g2"
    by (auto simp: l1 window_size_k_def)
  have "counter_last g2 = 10"
  proof -
    have "counter_last g2 \<noteq> 9" using g2(3) by auto
    moreover have "\<not> 11 \<le> counter_last g2"
    proof
      assume "11 \<le> counter_last g2"
      then have "11 \<in> {10..counter_last g2}" by simp
      with g2(2) have "(11::nat) \<in> {10, 12}" by (rule subsetD)
      then show False by simp
    qed
    ultimately show ?thesis using g2(4) by linarith
  qed
  with g1(1) g2(1) l1 show ?thesis by blast
qed

section \<open>The scrambled generator\<close>

lemma scramble_range: "n > 0 \<Longrightarrow> base \<le> scramble base n v \<and> scramble base n v < base + n"
  by (simp add: scramble_def)

end
