(* ===== verification/UcsbOps.thy ===== *)
theory UcsbOps
  imports UcsbAck
begin

text \<open>
  Runs of a worker: the loop of \<open>bench.cxx\<close> draws the kind of the next operation and calls the
  worker. What the operations leave alone, which keys they use, and what they hand to the
  database.
\<close>

section \<open>Runs\<close>

datatype operation_kind =
    upsert_k
  | update_k
  | remove_k
  | read_k
  | read_modify_write_k
  | batch_upsert_k
  | batch_read_k
  | bulk_load_k
  | range_select_k
  | scan_k

definition run_operation :: "env \<Rightarrow> nat \<Rightarrow> operation_kind \<Rightarrow> worker \<Rightarrow> step_result" where
  "run_operation e fuel operation wk =
     (case operation of
        upsert_k \<Rightarrow> do_upsert e wk
      | update_k \<Rightarrow> do_update e fuel wk
      | remove_k \<Rightarrow> do_remove e fuel wk
      | read_k \<Rightarrow> do_read e fuel wk
      | read_modify_write_k \<Rightarrow> do_read_modify_write e fuel wk
      | batch_upsert_k \<Rightarrow> do_batch_upsert e wk
      | batch_read_k \<Rightarrow> do_batch_read e fuel wk
      | bulk_load_k \<Rightarrow> do_bulk_load e wk
      | range_select_k \<Rightarrow> do_range_select e fuel wk
      | scan_k \<Rightarrow> do_scan wk)"

fun worker_run :: "env \<Rightarrow> nat \<Rightarrow> operation_kind list \<Rightarrow> worker \<Rightarrow> step_result" where
  "worker_run e fuel [] wk = Inr ([], wk)"
| "worker_run e fuel (k # ks) wk =
     bindE (run_operation e fuel k wk) (\<lambda>(calls, wk1).
     bindE (worker_run e fuel ks wk1) (\<lambda>(calls', wk2). Inr (calls @ calls', wk2)))"

text \<open>The keys of calls on records that are there, and of calls that make new ones.\<close>

fun old_keys :: "db_call \<Rightarrow> nat list" where
  "old_keys (Update k v) = [k]"
| "old_keys (Remove k) = [k]"
| "old_keys (Read k n) = [k]"
| "old_keys (BatchRead ks n) = ks"
| "old_keys (RangeSelect k n m) = [k]"
| "old_keys c = []"

fun new_keys :: "db_call \<Rightarrow> nat list" where
  "new_keys (Upsert k v) = [k]"
| "new_keys (BatchUpsert ks vs sizes) = ks"
| "new_keys (BulkLoad ks vs sizes) = ks"
| "new_keys c = []"

section \<open>What the steps leave alone\<close>

lemma put_ok [simp]: "i < length xs \<Longrightarrow> put i x xs = Inr (xs[i := x])"
  by (simp add: put_def)

lemma put_Inr: "put i x xs = Inr ys \<longleftrightarrow> i < length xs \<and> ys = xs[i := x]"
  by (auto simp: put_def)

lemma generate_key_frame:
  "generate_key e fuel wk = Inr (key, wk') \<Longrightarrow>
     (\<exists>g. wk' = wk\<lparr>wk_key_gen := g\<rparr>) \<and> key \<le> counter_last (wk_upsert_gen wk)"
proof (induction fuel arbitrary: wk)
  case (Suc fuel)
  from Suc.prems obtain g where g: "wk_key_gen wk = Some g" by (cases "wk_key_gen wk") auto
  obtain k g' where k: "gen_next e (counter_last (wk_upsert_gen wk)) g = (k, g')" by fastforce
  show ?case
  proof (cases "k > counter_last (wk_upsert_gen wk)")
    case True
    then have "generate_key e fuel (wk\<lparr>wk_key_gen := Some g'\<rparr>) = Inr (key, wk')"
      using Suc.prems g k by simp
    from Suc.IH [OF this] show ?thesis by auto
  next
    case False
    then show ?thesis using Suc.prems g k by auto
  qed
qed simp

lemma fill_bytes_frame:
  "fill_bytes e i n wk = Inr wk' \<Longrightarrow>
     \<exists>vs m. wk' = wk\<lparr>wk_values := vs, wk_bytes_drawn := m\<rparr> \<and> length vs = length (wk_values wk)"
proof (induction n arbitrary: i wk)
  case 0
  then show ?case by (intro exI [of _ "wk_values wk"] exI [of _ "wk_bytes_drawn wk"]) simp
next
  case (Suc n)
  then show ?case by (fastforce simp: put_Inr)
qed

lemma fill_bytes_ok:
  "i + n \<le> length (wk_values wk) \<Longrightarrow> \<exists>wk'. fill_bytes e i n wk = Inr wk'"
  by (induction n arbitrary: i wk) auto

lemma fill_sizes_frame:
  "fill_sizes e i n acc wk = Inr (len, wk') \<Longrightarrow>
     \<exists>sz g. wk' = wk\<lparr>wk_sizes := sz, wk_value_length_gen := g\<rparr> \<and> length sz = length (wk_sizes wk)"
proof (induction n arbitrary: i acc wk)
  case 0
  then show ?case by (intro exI [of _ "wk_sizes wk"] exI [of _ "wk_value_length_gen wk"]) simp
next
  case (Suc n)
  then show ?case by (fastforce simp: put_Inr split: prod.splits)
qed

lemma generate_values_frame:
  assumes "generate_values e n wk = Inr (vs, sizes, wk')"
  shows "\<exists>us m sz g. wk' = wk\<lparr>wk_values := us, wk_bytes_drawn := m, wk_sizes := sz, wk_value_length_gen := g\<rparr> \<and>
    length us = length (wk_values wk) \<and> length sz = length (wk_sizes wk)"
proof -
  from assms obtain wk1 len where 1: "fill_bytes e 0 (n * value_length (wk_workload wk)) wk = Inr wk1"
      "fill_sizes e 0 n 0 wk1 = Inr (len, wk')"
    by (auto simp: generate_values_def split: if_splits)
  from fill_bytes_frame [OF 1(1)] obtain us m
    where 2: "wk1 = wk\<lparr>wk_values := us, wk_bytes_drawn := m\<rparr>" "length us = length (wk_values wk)" by blast
  from fill_sizes_frame [OF 1(2)] obtain sz g
    where 3: "wk' = wk1\<lparr>wk_sizes := sz, wk_value_length_gen := g\<rparr>" "length sz = length (wk_sizes wk1)" by blast
  from 2 3 show ?thesis
    by (intro exI [of _ us] exI [of _ m] exI [of _ sz] exI [of _ g]) simp
qed

lemma generate_value_frame:
  assumes "generate_value e wk = Inr (v, wk')"
  shows "\<exists>us m sz g. wk' = wk\<lparr>wk_values := us, wk_bytes_drawn := m, wk_sizes := sz, wk_value_length_gen := g\<rparr> \<and>
    length us = length (wk_values wk) \<and> length sz = length (wk_sizes wk)"
proof -
  from assms obtain vs sizes where "generate_values e 1 wk = Inr (vs, sizes, wk')"
    by (auto simp: generate_value_def)
  from generate_values_frame [OF this] show ?thesis .
qed

section \<open>Sequences of new keys\<close>

text \<open>No key is acknowledged once the pointer is empty.\<close>

fun counter_at :: "counter_gen \<Rightarrow> nat" where
  "counter_at (Counter c) = c"
| "counter_at (Acked c win limit) = c"

fun counter_set :: "nat \<Rightarrow> counter_gen \<Rightarrow> counter_gen" where
  "counter_set n (Counter c) = Counter n"
| "counter_set n (Acked c win limit) = Acked n win limit"

lemma counter_next_eq: "counter_next g = (counter_at g, counter_set (counter_at g + 1) g)"
  by (cases g) auto

lemma counter_set_simps [simp]:
  "counter_at (counter_set n g) = n" "counter_set m (counter_set n g) = counter_set m g"
  by (cases g; simp)+

lemma sequence_keys_run:
  assumes "wk_ack_gen wk = None"
  shows "sequence_keys i n wk =
    (if i + n \<le> length (wk_keys wk) \<or> n = 0
     then Inr (wk\<lparr>wk_upsert_gen := (if n = 0 then wk_upsert_gen wk else counter_set (counter_at (wk_upsert_gen wk) + n) (wk_upsert_gen wk)),
                 wk_keys := take i (wk_keys wk) @ [counter_at (wk_upsert_gen wk)..<counter_at (wk_upsert_gen wk) + n] @
                   drop (i + n) (wk_keys wk)\<rparr>)
     else Inl Undefined)"
  using assms
proof (induction n arbitrary: i wk)
  case (Suc n)
  let ?c = "counter_at (wk_upsert_gen wk)"
  show ?case
  proof (cases "i < length (wk_keys wk)")
    case True
    let ?wk = "wk\<lparr>wk_upsert_gen := counter_set (?c + 1) (wk_upsert_gen wk), wk_keys := (wk_keys wk)[i := ?c]\<rparr>"
    have "sequence_keys i (Suc n) wk = sequence_keys (i + 1) n ?wk"
      using True Suc.prems by (simp add: counter_next_eq acknowledge_key_def)
    moreover have "take (Suc i) ((wk_keys wk)[i := ?c]) = take i (wk_keys wk) @ [?c]"
      using True by (simp add: take_Suc_conv_app_nth)
    moreover have "[?c..<Suc (?c + n)] = ?c # [Suc ?c..<Suc (?c + n)]"
      by (rule upt_conv_Cons) simp
    moreover have "counter_set (?c + 1 + n) (counter_set (?c + 1) (wk_upsert_gen wk)) =
        counter_set (?c + Suc n) (wk_upsert_gen wk)" by simp
    ultimately show ?thesis
      using Suc.IH [of ?wk "i + 1"] Suc.prems True by auto
  next
    case False
    then show ?thesis by (auto simp: counter_next_eq put_def)
  qed
qed (simp add: )

end
