(* ===== verification/UcsbKeys.thy ===== *)
theory UcsbKeys
  imports UcsbOps
begin

text \<open>
  The keys that a worker uses: over all operations of a run the new keys are consecutive, the
  keys of the other operations are those from before the run, and a worker that initializes the database
  uses no others than new ones. The draws of a generator, and when the loop that collects the keys of a batch of reads ends.
\<close>

section \<open>The keys of a batch of reads\<close>

lemma put_Inr_length: "put i x xs = Inr ys \<Longrightarrow> length ys = length xs"
  by (auto simp: put_Inr)

text \<open>
  With the keys of \<open>S\<close> the only ones that \<open>generate_key\<close> yields, where \<open>Q\<close> is what is known of the
  generator.
\<close>

lemma unique_keys_frame:
  assumes step: "\<And>wk key wk'. generate_key e fuel wk = Inr (key, wk') \<Longrightarrow> Q (wk_key_gen wk) \<Longrightarrow>
      wk_upsert_gen wk = ug \<Longrightarrow> key \<in> S \<and> Q (wk_key_gen wk')"
    and "unique_keys_loop e fuel rounds n U i wk = Inr wk'"
    and "i \<le> n" "i \<le> length (wk_keys wk)" "distinct (take i (wk_keys wk))" "set (take i (wk_keys wk)) = U"
    and "U \<subseteq> S" "Q (wk_key_gen wk)" "wk_upsert_gen wk = ug"
  shows "(\<exists>g ks. wk' = wk\<lparr>wk_key_gen := g, wk_keys := ks\<rparr>) \<and> length (take n (wk_keys wk')) = n \<and>
    distinct (take n (wk_keys wk')) \<and> set (take n (wk_keys wk')) \<subseteq> S"
  using assms(2-)
proof (induction rounds arbitrary: U i wk)
  case 0
  then have "wk' = wk" "i = n" by (auto split: if_splits)
  with 0 show ?case by (auto intro!: exI [of _ "wk_key_gen wk"] exI [of _ "wk_keys wk"])
next
  case (Suc rounds)
  show ?case
  proof (cases "i = n")
    case True
    with Suc.prems show ?thesis by (auto intro!: exI [of _ "wk_key_gen wk"] exI [of _ "wk_keys wk"])
  next
    case False
    then obtain key wk1 where k: "generate_key e fuel wk = Inr (key, wk1)"
      using Suc.prems(1) by auto
    from generate_key_frame [OF this] obtain g where g: "wk1 = wk\<lparr>wk_key_gen := g\<rparr>" by blast
    from step [OF k Suc.prems(7,8)] have S: "key \<in> S" "Q (wk_key_gen wk1)" by auto
    show ?thesis
    proof (cases "key \<in> U")
      case True
      then have "unique_keys_loop e fuel rounds n U i wk1 = Inr wk'" using Suc.prems(1) False k by simp
      from Suc.IH [OF this] show ?thesis using Suc.prems g S by auto
    next
      case new: False
      define ks where "ks = (wk_keys wk)[i := key]"
      from new False Suc.prems(1) k g
      have i: "i < length (wk_keys wk)"
        and run: "unique_keys_loop e fuel rounds n (insert key U) (i + 1) (wk1\<lparr>wk_keys := ks\<rparr>) = Inr wk'"
        by (auto simp: put_Inr ks_def)
      have t: "take (i + 1) ks = take i (wk_keys wk) @ [key]"
        using i by (simp add: ks_def take_Suc_conv_app_nth)
      have "distinct (take (i + 1) ks)" "set (take (i + 1) ks) = insert key U"
        unfolding t using Suc.prems(4,5) new by auto
      with Suc.IH [OF run] Suc.prems(2,6,8) False i S g show ?thesis by (auto simp: ks_def)
    qed
  qed
qed

lemma unique_keys_below:
  assumes "unique_keys_loop e fuel rounds n {} 0 wk = Inr wk'"
  shows "(\<exists>g ks. wk' = wk\<lparr>wk_key_gen := g, wk_keys := ks\<rparr>) \<and> length (take n (wk_keys wk')) = n \<and>
    distinct (take n (wk_keys wk')) \<and> set (take n (wk_keys wk')) \<subseteq> {..counter_last (wk_upsert_gen wk)}"
  by (rule unique_keys_frame [where Q = "\<lambda>_. True", OF _ assms]) (auto dest: generate_key_frame)

section \<open>The keys of a step\<close>

text \<open>
  What a step or a run does: \<open>c\<close> is the next new key before it, \<open>m\<close> the last key that is known to be
  there.
\<close>

definition keys_step :: "nat \<Rightarrow> nat set \<Rightarrow> nat \<Rightarrow> db_call list \<Rightarrow> worker \<Rightarrow> bool" where
  "keys_step c win m calls wk' \<longleftrightarrow>
     (\<exists>c' \<ge> c. wk_upsert_gen wk' = Acked c' win m \<and> wk_ack_gen wk' = None \<and>
       concat (map new_keys calls) = [c..<c'] \<and>
       (\<forall>call \<in> set calls. distinct (old_keys call) \<and> set (old_keys call) \<subseteq> {..m}))"

lemma keys_step_old:
  assumes "wk_upsert_gen wk' = Acked c win m" "wk_ack_gen wk' = None"
    and "\<And>call. call \<in> set calls \<Longrightarrow>
      new_keys call = [] \<and> distinct (old_keys call) \<and> set (old_keys call) \<subseteq> {..m}"
  shows "keys_step c win m calls wk'"
proof -
  have "concat (map new_keys calls) = []" using assms(3) by simp
  then show ?thesis unfolding keys_step_def using assms by (intro exI [of _ c]) simp
qed

lemma keys_step_new:
  assumes "wk_upsert_gen wk' = Acked (c + n) win m" "wk_ack_gen wk' = None"
    and "new_keys call = [c..<c + n]" "old_keys call = []"
  shows "keys_step c win m [call] wk'"
  unfolding keys_step_def using assms by (intro exI [of _ "c + n"]) simp

lemma keys_step_append:
  assumes "keys_step c win m calls wk1"
    and "\<And>c'. wk_upsert_gen wk1 = Acked c' win m \<Longrightarrow> wk_ack_gen wk1 = None \<Longrightarrow> keys_step c' win m calls' wk2"
  shows "keys_step c win m (calls @ calls') wk2"
proof -
  from assms(1) obtain c' where 1: "c \<le> c'" "wk_upsert_gen wk1 = Acked c' win m" "wk_ack_gen wk1 = None"
      "concat (map new_keys calls) = [c..<c']"
      "\<forall>call \<in> set calls. distinct (old_keys call) \<and> set (old_keys call) \<subseteq> {..m}"
    by (auto simp: keys_step_def)
  from assms(2) [OF 1(2,3)] obtain c'' where 2: "c' \<le> c''" "wk_upsert_gen wk2 = Acked c'' win m"
      "wk_ack_gen wk2 = None" "concat (map new_keys calls') = [c'..<c'']"
      "\<forall>call \<in> set calls'. distinct (old_keys call) \<and> set (old_keys call) \<subseteq> {..m}"
    by (auto simp: keys_step_def)
  have "[c..<c''] = [c..<c'] @ [c'..<c'']" using 1(1) 2(1) by (metis le_add_diff_inverse upt_add_eq_append)
  then show ?thesis unfolding keys_step_def using 1 2 by (intro exI [of _ c'']) auto
qed

lemma sequence_keys_step:
  assumes "sequence_keys 0 n wk = Inr wk'" "wk_upsert_gen wk = Acked c win m" "wk_ack_gen wk = None"
  shows "wk_upsert_gen wk' = Acked (c + n) win m" "wk_ack_gen wk' = None" "take n (wk_keys wk') = [c..<c + n]"
    "length (wk_keys wk') = length (wk_keys wk)"
  using assms sequence_keys_run [OF assms(3), of 0 n]
  by (auto split: if_splits)

lemma generate_values_gens:
  assumes "generate_values e n wk = Inr (vs, sizes, wk')"
  shows "wk_upsert_gen wk' = wk_upsert_gen wk" "wk_ack_gen wk' = wk_ack_gen wk"
  using generate_values_frame [OF assms] by auto

lemma generate_value_gens:
  assumes "generate_value e wk = Inr (v, wk')"
  shows "wk_upsert_gen wk' = wk_upsert_gen wk" "wk_ack_gen wk' = wk_ack_gen wk"
  using generate_value_frame [OF assms] by auto

lemma generate_key_gens:
  assumes "generate_key e fuel wk = Inr (key, wk')"
  shows "wk_upsert_gen wk' = wk_upsert_gen wk" "wk_ack_gen wk' = wk_ack_gen wk"
    "key \<le> counter_last (wk_upsert_gen wk)"
  using generate_key_frame [OF assms] by auto

lemmas step_gens = generate_values_gens generate_value_gens generate_key_gens

lemmas do_defs = do_upsert_def do_update_def do_remove_def do_read_def do_read_modify_write_def
  do_batch_upsert_def do_batch_read_def do_bulk_load_def do_range_select_def do_scan_def

lemma run_operation_keys:
  assumes run: "run_operation e fuel k wk = Inr (calls, wk')"
    and g: "wk_upsert_gen wk = Acked c win m" "wk_ack_gen wk = None"
  shows "keys_step c win m calls wk'"
proof (cases k)
  case upsert_k
  with run g obtain v wk1 where 1: "generate_value e (wk\<lparr>wk_upsert_gen := Acked (c + 1) win m\<rparr>) = Inr (v, wk1)"
      "acknowledge_key c wk1 = Inr wk'" "calls = [Upsert c v]"
    by (auto simp: run_operation_def do_upsert_def)
  from 1 step_gens(3,4) [OF 1(1)] g show ?thesis
    by (auto simp: acknowledge_key_def intro!: keys_step_new [where n = 1])
next
  case batch_upsert_k
  obtain n gl where n: "gen_next e 0 (wk_batch_upsert_gen wk) = (n, gl)" by fastforce
  with run batch_upsert_k obtain wk1 vs sizes where
      1: "sequence_keys 0 n (wk\<lparr>wk_batch_upsert_gen := gl\<rparr>) = Inr wk1" and
      2: "generate_values e n wk1 = Inr (vs, sizes, wk')" "calls = [BatchUpsert (take n (wk_keys wk1)) vs sizes]"
    by (auto simp: run_operation_def do_batch_upsert_def generate_keys_defs)
  from sequence_keys_step [OF 1] g generate_values_gens [OF 2(1)] 2(2)
  show ?thesis by (auto intro!: keys_step_new)
next
  case bulk_load_k
  obtain n gl where n: "gen_next e 0 (wk_bulk_load_gen wk) = (n, gl)" by fastforce
  with run bulk_load_k obtain wk1 vs sizes where
      1: "sequence_keys 0 n (wk\<lparr>wk_bulk_load_gen := gl\<rparr>) = Inr wk1" and
      2: "generate_values e n wk1 = Inr (vs, sizes, wk')" "calls = [BulkLoad (take n (wk_keys wk1)) vs sizes]"
    by (auto simp: run_operation_def do_bulk_load_def generate_keys_defs)
  from sequence_keys_step [OF 1] g generate_values_gens [OF 2(1)] 2(2)
  show ?thesis by (auto intro!: keys_step_new)
next
  case batch_read_k
  obtain n gl where n: "gen_next e 0 (wk_batch_read_gen wk) = (n, gl)" by fastforce
  with run batch_read_k have
      1: "unique_keys_loop e fuel fuel n {} 0 (wk\<lparr>wk_batch_read_gen := gl\<rparr>) = Inr wk'" and
      2: "calls = [BatchRead (take n (wk_keys wk')) (values_buffer n wk')]"
    by (auto simp: run_operation_def do_batch_read_def generate_keys_defs)
  from unique_keys_below [OF 1] g 2 show ?thesis by (auto intro!: keys_step_old)
next
  case range_select_k
  with run obtain key wk1 where 1: "generate_key e fuel wk = Inr (key, wk1)"
    by (auto simp: run_operation_def do_range_select_def)
  obtain n gl where n: "gen_next e 0 (wk_range_select_gen wk1) = (n, gl)" by fastforce
  from run range_select_k n 1 step_gens(5-7) [OF 1] g show ?thesis
    by (auto simp: run_operation_def do_range_select_def Let_def intro!: keys_step_old)
next
  case update_k
  with run obtain key wk1 v where 1: "generate_key e fuel wk = Inr (key, wk1)"
      "generate_value e wk1 = Inr (v, wk')" "calls = [Update key v]"
    by (auto simp: run_operation_def do_update_def)
  from step_gens(5-7) [OF 1(1)] step_gens(3,4) [OF 1(2)] 1(3) g show ?thesis
    by (auto intro!: keys_step_old)
next
  case read_modify_write_k
  with run obtain key wk1 v where 1: "generate_key e fuel wk = Inr (key, wk1)"
      "generate_value e wk1 = Inr (v, wk')" "calls = [Read key (values_buffer 1 wk1), Update key v]"
    by (auto simp: run_operation_def do_read_modify_write_def)
  from step_gens(5-7) [OF 1(1)] step_gens(3,4) [OF 1(2)] 1(3) g show ?thesis
    by (auto intro!: keys_step_old)
next
  case remove_k
  with run obtain key where 1: "generate_key e fuel wk = Inr (key, wk')" "calls = [Remove key]"
    by (auto simp: run_operation_def do_remove_def)
  from step_gens(5-7) [OF 1(1)] 1(2) g show ?thesis by (auto intro!: keys_step_old)
next
  case read_k
  with run obtain key where 1: "generate_key e fuel wk = Inr (key, wk')" "calls = [Read key (values_buffer 1 wk')]"
    by (auto simp: run_operation_def do_read_def)
  from step_gens(5-7) [OF 1(1)] 1(2) g show ?thesis by (auto intro!: keys_step_old)
next
  case scan_k
  with run g show ?thesis by (auto simp: run_operation_def do_scan_def intro!: keys_step_old)
qed

lemma worker_run_keys:
  assumes "worker_run e fuel ks wk = Inr (calls, wk')"
    and "wk_upsert_gen wk = Acked c win m" "wk_ack_gen wk = None"
  shows "keys_step c win m calls wk'"
  using assms
proof (induction ks arbitrary: wk c calls)
  case Nil
  then show ?case by (auto intro!: keys_step_old)
next
  case (Cons k ks)
  then obtain calls1 wk1 calls2 where 1: "run_operation e fuel k wk = Inr (calls1, wk1)"
      "worker_run e fuel ks wk1 = Inr (calls2, wk')" "calls = calls1 @ calls2" by auto
  from keys_step_append [OF run_operation_keys [OF 1(1) Cons.prems(2,3)]] Cons.IH [OF 1(2)] 1(3)
  show ?case by blast
qed

section \<open>New workers\<close>

definition initializes :: "workload \<Rightarrow> bool" where
  "initializes w \<longleftrightarrow> upsert_proportion w = 1 \<or> batch_upsert_proportion w = 1 \<or> bulk_load_proportion w = 1"

lemma worker_new_gens:
  assumes "worker_new w = Inr wk" and "\<not> initializes w"
  shows "wk_upsert_gen wk = acked_new (db_records_count w)" "wk_ack_gen wk = None"
    "\<exists>g. create_key_generator w (acked_new (db_records_count w)) = Inr g \<and> wk_key_gen wk = Some g"
  using assms by (auto simp: worker_new_def initializes_def Let_def split: if_splits)

lemma worker_new_init:
  assumes "worker_new w = Inr wk" and "initializes w"
  shows "wk_upsert_gen wk = Counter (start_key w)" "wk_key_gen wk = None" "wk_ack_gen wk = None"
  using assms by (auto simp: worker_new_def initializes_def split: if_splits)

text \<open>A worker that initializes has no generator of keys: what it does needs only its counter.\<close>

definition init_step :: "counter_gen \<Rightarrow> db_call list \<Rightarrow> worker \<Rightarrow> bool" where
  "init_step g calls wk' \<longleftrightarrow>
     (\<exists>c' \<ge> counter_at g. wk_upsert_gen wk' = counter_set c' g \<and> wk_key_gen wk' = None \<and> wk_ack_gen wk' = None \<and>
       concat (map new_keys calls) = [counter_at g..<c'] \<and> (\<forall>call \<in> set calls. old_keys call = []))"

lemma counter_set_at [simp]: "counter_set (counter_at g) g = g"
  by (cases g) simp_all

lemma init_step_old:
  assumes "wk_upsert_gen wk' = g" "wk_key_gen wk' = None" "wk_ack_gen wk' = None"
    and "\<And>call. call \<in> set calls \<Longrightarrow> new_keys call = [] \<and> old_keys call = []"
  shows "init_step g calls wk'"
  unfolding init_step_def using assms by (intro exI [of _ "counter_at g"]) simp

lemma init_step_new:
  assumes "wk_upsert_gen wk' = counter_set (counter_at g + n) g" "wk_key_gen wk' = None" "wk_ack_gen wk' = None"
    and "new_keys call = [counter_at g..<counter_at g + n]" "old_keys call = []"
  shows "init_step g [call] wk'"
  unfolding init_step_def using assms by (intro exI [of _ "counter_at g + n"]) simp

lemma no_key: "wk_key_gen wk = None \<Longrightarrow> generate_key e fuel wk \<noteq> Inr r"
  by (cases fuel) simp_all

lemma init_sequence:
  assumes "sequence_keys 0 n wk = Inr wk'" "wk_key_gen wk = None" "wk_ack_gen wk = None"
  shows "wk_upsert_gen wk' = counter_set (counter_at (wk_upsert_gen wk) + n) (wk_upsert_gen wk)"
    "wk_key_gen wk' = None" "wk_ack_gen wk' = None"
    "take n (wk_keys wk') = [counter_at (wk_upsert_gen wk)..<counter_at (wk_upsert_gen wk) + n]"
  using assms sequence_keys_run [OF assms(3), of 0 n] by (auto split: if_splits)

lemma init_operation:
  assumes run: "run_operation e fuel k wk = Inr (calls, wk')"
    and g: "wk_key_gen wk = None" "wk_ack_gen wk = None"
  shows "init_step (wk_upsert_gen wk) calls wk'"
proof (cases k)
  case upsert_k
  let ?c = "counter_at (wk_upsert_gen wk)"
  let ?wk = "wk\<lparr>wk_upsert_gen := counter_set (?c + 1) (wk_upsert_gen wk)\<rparr>"
  from run upsert_k obtain v wk1 where 1: "generate_value e ?wk = Inr (v, wk1)"
      "acknowledge_key ?c wk1 = Inr wk'" "calls = [Upsert ?c v]"
    by (auto simp: run_operation_def do_upsert_def counter_next_eq)
  from 1 generate_value_frame [OF 1(1)] g show ?thesis
    by (auto simp: acknowledge_key_def intro!: init_step_new [where n = 1])
next
  case batch_upsert_k
  obtain n gl where n: "gen_next e 0 (wk_batch_upsert_gen wk) = (n, gl)" by fastforce
  with run batch_upsert_k obtain wk1 vs sizes where
      1: "sequence_keys 0 n (wk\<lparr>wk_batch_upsert_gen := gl\<rparr>) = Inr wk1" and
      2: "generate_values e n wk1 = Inr (vs, sizes, wk')" "calls = [BatchUpsert (take n (wk_keys wk1)) vs sizes]"
    by (auto simp: run_operation_def do_batch_upsert_def generate_keys_defs)
  from init_sequence [OF 1] g generate_values_frame [OF 2(1)] 2(2)
  show ?thesis by (auto intro!: init_step_new)
next
  case bulk_load_k
  obtain n gl where n: "gen_next e 0 (wk_bulk_load_gen wk) = (n, gl)" by fastforce
  with run bulk_load_k obtain wk1 vs sizes where
      1: "sequence_keys 0 n (wk\<lparr>wk_bulk_load_gen := gl\<rparr>) = Inr wk1" and
      2: "generate_values e n wk1 = Inr (vs, sizes, wk')" "calls = [BulkLoad (take n (wk_keys wk1)) vs sizes]"
    by (auto simp: run_operation_def do_bulk_load_def generate_keys_defs)
  from init_sequence [OF 1] g generate_values_frame [OF 2(1)] 2(2)
  show ?thesis by (auto intro!: init_step_new)
next
  case batch_read_k
  obtain n gl where n: "gen_next e 0 (wk_batch_read_gen wk) = (n, gl)" by fastforce
  with run batch_read_k have
      1: "unique_keys_loop e fuel fuel n {} 0 (wk\<lparr>wk_batch_read_gen := gl\<rparr>) = Inr wk'" and
      2: "calls = [BatchRead (take n (wk_keys wk')) (values_buffer n wk')]"
    by (auto simp: run_operation_def do_batch_read_def generate_keys_defs)
  have "generate_key e fuel (wk\<lparr>wk_batch_read_gen := gl\<rparr>) \<noteq> Inr r" for r using no_key g(1) by simp
  with 1 have "n = 0 \<and> wk' = wk\<lparr>wk_batch_read_gen := gl\<rparr>" by (cases fuel) (auto split: if_splits)
  with g 2 show ?thesis by (auto intro!: init_step_old)
next
  case scan_k
  with run g show ?thesis by (auto simp: run_operation_def do_scan_def intro!: init_step_old)
qed (use run no_key [OF g(1)] in \<open>auto simp: run_operation_def do_defs\<close>)

lemma init_run:
  assumes "worker_run e fuel ks wk = Inr (calls, wk')" "wk_key_gen wk = None" "wk_ack_gen wk = None"
  shows "init_step (wk_upsert_gen wk) calls wk'"
  using assms
proof (induction ks arbitrary: wk calls)
  case Nil
  then show ?case by (auto intro!: init_step_old)
next
  case (Cons k ks)
  then obtain calls1 wk1 calls2 where 1: "run_operation e fuel k wk = Inr (calls1, wk1)"
      "worker_run e fuel ks wk1 = Inr (calls2, wk')" "calls = calls1 @ calls2" by auto
  from init_operation [OF 1(1) Cons.prems(2,3)] obtain c where
    c: "counter_at (wk_upsert_gen wk) \<le> c" "wk_upsert_gen wk1 = counter_set c (wk_upsert_gen wk)"
      "wk_key_gen wk1 = None" "wk_ack_gen wk1 = None"
      "concat (map new_keys calls1) = [counter_at (wk_upsert_gen wk)..<c]" "\<forall>call \<in> set calls1. old_keys call = []"
    by (auto simp: init_step_def)
  from Cons.IH [OF 1(2) c(3,4)] obtain d where
    d: "c \<le> d" "wk_upsert_gen wk' = counter_set d (wk_upsert_gen wk)" "wk_key_gen wk' = None" "wk_ack_gen wk' = None"
      "concat (map new_keys calls2) = [c..<d]" "\<forall>call \<in> set calls2. old_keys call = []"
    by (auto simp: init_step_def c(2))
  have "[counter_at (wk_upsert_gen wk)..<d] = [counter_at (wk_upsert_gen wk)..<c] @ [c..<d]"
    using c(1) d(1) by (metis le_add_diff_inverse upt_add_eq_append)
  then show ?case unfolding init_step_def using c d 1(3) by (intro exI [of _ d]) auto
qed

section \<open>The draws of a generator\<close>

text \<open>The generator after \<open>k\<close> draws, and the value that the next draw yields.\<close>

primrec gen_at :: "env \<Rightarrow> nat \<Rightarrow> gen \<Rightarrow> nat \<Rightarrow> gen" where
  "gen_at e basis g 0 = g"
| "gen_at e basis g (Suc k) = snd (gen_next e basis (gen_at e basis g k))"

definition gen_value :: "env \<Rightarrow> nat \<Rightarrow> gen \<Rightarrow> nat \<Rightarrow> nat" where
  "gen_value e basis g k = fst (gen_next e basis (gen_at e basis g k))"

lemma gen_next_at: "gen_next e basis (gen_at e basis g k) = (gen_value e basis g k, gen_at e basis g (Suc k))"
  by (simp add: gen_value_def)

lemma gen_at_uniform: "gen_at e basis (UniformGen a b k) j = UniformGen a b (k + j)"
  by (induction j) simp_all

lemma gen_value_uniform: "gen_value e basis (UniformGen a b k) j = uniform e a b (k + j)"
  by (simp add: gen_value_def gen_at_uniform)

lemma gen_at_scrambled: "gen_at e basis (ScrambledGen a n k) j = ScrambledGen a n (k + j)"
  by (induction j) simp_all

lemma gen_value_scrambled: "gen_value e basis (ScrambledGen a n k) j = scramble a n (zipf e 0 10000000000 (k + j))"
  by (simp add: gen_value_def gen_at_scrambled)

text \<open>The values of \<open>S\<close> come again and again.\<close>

definition again :: "env \<Rightarrow> nat \<Rightarrow> gen \<Rightarrow> nat set \<Rightarrow> bool" where
  "again e basis g S \<longleftrightarrow> (\<forall>x \<in> S. \<forall>k. \<exists>k' \<ge> k. gen_value e basis g k' = x)"

lemma generate_key_at:
  assumes "wk_key_gen wk = Some (gen_at e L g k)" "counter_last (wk_upsert_gen wk) = L"
  shows "generate_key e (Suc fuel) wk =
    (let wk' = wk\<lparr>wk_key_gen := Some (gen_at e L g (Suc k))\<rparr>
     in if gen_value e L g k > L then generate_key e fuel wk' else Inr (gen_value e L g k, wk'))"
  using assms gen_next_at [of e L g k] by (simp add: Let_def del: gen_at.simps)

lemma generate_key_outcome:
  assumes "wk_key_gen wk = Some (gen_at e L g k)" "counter_last (wk_upsert_gen wk) = L"
  shows "generate_key e fuel wk = Inl OutOfFuel \<or>
    (\<exists>j \<ge> k. gen_value e L g j \<le> L \<and>
      generate_key e fuel wk = Inr (gen_value e L g j, wk\<lparr>wk_key_gen := Some (gen_at e L g (Suc j))\<rparr>))"
  using assms
proof (induction fuel arbitrary: wk k)
  case (Suc fuel)
  let ?wk = "wk\<lparr>wk_key_gen := Some (gen_at e L g (Suc k))\<rparr>"
  show ?case
  proof (cases "gen_value e L g k > L")
    case True
    then have "generate_key e (Suc fuel) wk = generate_key e fuel ?wk"
      using generate_key_at [OF Suc.prems] by (simp add: Let_def)
    moreover from Suc.IH [of ?wk "Suc k"] Suc.prems(2) show ?thesis
      unfolding calculation by (auto intro: Suc_leD simp del: gen_at.simps)
  next
    case False
    then show ?thesis using generate_key_at [OF Suc.prems, of fuel] by (auto simp: Let_def not_less simp del: gen_at.simps)
  qed
qed simp

lemma generate_key_draw:
  assumes "wk_key_gen wk = Some (gen_at e L g k)" "counter_last (wk_upsert_gen wk) = L"
    and "k \<le> j" "j - k < fuel" "gen_value e L g j \<le> L" "\<And>l. k \<le> l \<Longrightarrow> l < j \<Longrightarrow> gen_value e L g l > L"
  shows "generate_key e fuel wk = Inr (gen_value e L g j, wk\<lparr>wk_key_gen := Some (gen_at e L g (Suc j))\<rparr>)"
  using assms
proof (induction fuel arbitrary: wk k)
  case (Suc fuel)
  let ?wk = "wk\<lparr>wk_key_gen := Some (gen_at e L g (Suc k))\<rparr>"
  show ?case
  proof (cases "k = j")
    case True
    then show ?thesis using generate_key_at [OF Suc.prems(1,2)] Suc.prems(5) by (simp add: Let_def del: gen_at.simps)
  next
    case False
    have "generate_key e fuel ?wk = Inr (gen_value e L g j, ?wk\<lparr>wk_key_gen := Some (gen_at e L g (Suc j))\<rparr>)"
      by (rule Suc.IH [of ?wk "Suc k"]) (use Suc.prems False in \<open>auto simp del: gen_at.simps\<close>)
    moreover have "generate_key e (Suc fuel) wk = generate_key e fuel ?wk"
      using Suc.prems(3) Suc.prems(6) [of k] False generate_key_at [OF Suc.prems(1,2)] by (simp add: Let_def del: gen_at.simps)
    ultimately show ?thesis by (simp del: gen_at.simps generate_key.simps)
  qed
qed simp

section \<open>When a batch of reads returns\<close>

text \<open>A round of the loop takes the first admissible value of the generator.\<close>

lemma unique_keys_round:
  assumes wk: "wk_key_gen wk = Some (gen_at e L g k)" "counter_last (wk_upsert_gen wk) = L"
    and "i < n" "n \<le> length (wk_keys wk)" "k \<le> k'" "gen_value e L g k' \<le> L"
  obtains j where "k \<le> j" "j \<le> k'" "gen_value e L g j \<le> L"
    "\<And>fuel rounds. j - k < fuel \<Longrightarrow> unique_keys_loop e fuel (Suc rounds) n U i wk =
      (let key = gen_value e L g j; wk1 = wk\<lparr>wk_key_gen := Some (gen_at e L g (Suc j))\<rparr>
       in if key \<in> U then unique_keys_loop e fuel rounds n U i wk1
          else unique_keys_loop e fuel rounds n (insert key U) (i + 1)
                 (wk1\<lparr>wk_keys := (wk_keys wk)[i := key]\<rparr>))"
proof -
  let ?P = "\<lambda>j. k \<le> j \<and> gen_value e L g j \<le> L"
  define j where "j = (LEAST j. ?P j)"
  have j: "?P j" "j \<le> k'" using LeastI [of ?P k'] Least_le [of ?P k'] assms(5,6) by (simp_all add: j_def)
  have before: "gen_value e L g l > L" if "k \<le> l" "l < j" for l
    using not_less_Least [of l ?P] that by (auto simp: j_def not_le)
  show thesis
  proof (rule that [of j])
    fix fuel rounds :: nat
    assume "j - k < fuel"
    then have "generate_key e fuel wk = Inr (gen_value e L g j, wk\<lparr>wk_key_gen := Some (gen_at e L g (Suc j))\<rparr>)"
      using j before by (intro generate_key_draw [OF wk]) auto
    then show "unique_keys_loop e fuel (Suc rounds) n U i wk =
      (let key = gen_value e L g j; wk1 = wk\<lparr>wk_key_gen := Some (gen_at e L g (Suc j))\<rparr>
       in if key \<in> U then unique_keys_loop e fuel rounds n U i wk1
          else unique_keys_loop e fuel rounds n (insert key U) (i + 1)
                 (wk1\<lparr>wk_keys := (wk_keys wk)[i := key]\<rparr>))"
      using assms(3,4) by (simp add: Let_def del: gen_at.simps)
  qed (use j in auto)
qed

definition loop_returns :: "env \<Rightarrow> nat \<Rightarrow> nat set \<Rightarrow> nat \<Rightarrow> worker \<Rightarrow> bool" where
  "loop_returns e n U i wk \<longleftrightarrow>
     (\<exists>F. \<forall>fuel \<ge> F. \<forall>rounds \<ge> F. \<exists>wk'. unique_keys_loop e fuel rounds n U i wk = Inr wk')"

lemma loop_returns_Suc:
  assumes "loop_returns e n U' i' wk'"
    and "\<And>fuel rounds. d < fuel \<Longrightarrow>
      unique_keys_loop e fuel (Suc rounds) n U i wk = unique_keys_loop e fuel rounds n U' i' wk'"
  shows "loop_returns e n U i wk"
proof -
  from assms(1) obtain F where F: "\<And>fuel rounds. F \<le> fuel \<Longrightarrow> F \<le> rounds \<Longrightarrow>
      \<exists>wk''. unique_keys_loop e fuel rounds n U' i' wk' = Inr wk''" by (auto simp: loop_returns_def)
  have "\<exists>wk''. unique_keys_loop e fuel rounds n U i wk = Inr wk''"
    if "F + d + 1 \<le> fuel" "F + d + 1 \<le> rounds" for fuel rounds
  proof -
    from that(2) obtain r where r: "rounds = Suc r" "F \<le> r" by (cases rounds) auto
    have "d < fuel" "F \<le> fuel" using that(1) by simp_all
    then show ?thesis unfolding r(1) using F r(2) assms(2) by metis
  qed
  then show ?thesis unfolding loop_returns_def by blast
qed

lemma unique_keys_return:
  assumes again: "again e L g S" and S: "S \<subseteq> {..L}" "n \<le> card S"
    and "wk_key_gen wk = Some (gen_at e L g k)" "counter_last (wk_upsert_gen wk) = L" "n \<le> length (wk_keys wk)"
    and "finite U" "card U = i" "i \<le> n"
  shows "loop_returns e n U i wk"
  using assms(4-)
proof (induction "n - i" arbitrary: U i k wk rule: less_induct)
  case less
  note outer = less.hyps
  show ?case
  proof (cases "i = n")
    case True
    have "unique_keys_loop e fuel rounds n U i wk = Inr wk" for fuel rounds
      using True by (cases rounds) auto
    then show ?thesis unfolding loop_returns_def by blast
  next
    case False
    then have i: "i < n" using less.prems(6) by simp
    have "finite S" using S(1) finite_subset by blast
    then have "\<not> S \<subseteq> U" using card_mono [OF less.prems(4), of S] S(2) i less.prems(5) by auto
    then obtain x where x: "x \<in> S" "x \<notin> U" by blast
    with again have "\<exists>k'. k \<le> k' \<and> gen_value e L g k' = x" by (auto simp: again_def)
    then obtain k' where k': "k \<le> k'" "gen_value e L g k' = x" by blast
    from k'(1) less.prems show ?thesis
    proof (induction "k' - k" arbitrary: k wk rule: less_induct)
      case (less k wk)
      have "gen_value e L g k' \<le> L" using x(1) S(1) k'(2) by auto
      from unique_keys_round [OF less.prems(2,3) i less.prems(4,1) this, of U]
      obtain j where j: "k \<le> j" "j \<le> k'" "gen_value e L g j \<le> L"
        and round: "\<And>fuel rounds. j - k < fuel \<Longrightarrow> unique_keys_loop e fuel (Suc rounds) n U i wk =
          (let key = gen_value e L g j; wk1 = wk\<lparr>wk_key_gen := Some (gen_at e L g (Suc j))\<rparr>
           in if key \<in> U then unique_keys_loop e fuel rounds n U i wk1
              else unique_keys_loop e fuel rounds n (insert key U) (i + 1)
                     (wk1\<lparr>wk_keys := (wk_keys wk)[i := key]\<rparr>))" by blast
      let ?wk = "wk\<lparr>wk_key_gen := Some (gen_at e L g (Suc j))\<rparr>"
      show ?case
      proof (cases "gen_value e L g j \<in> U")
        case True
        then have "j \<noteq> k'" using k'(2) x(2) by auto
        with j have "loop_returns e n U i ?wk"
          by (intro less.hyps [of "Suc j"]) (use less.prems in \<open>auto simp del: gen_at.simps\<close>)
        then show ?thesis by (rule loop_returns_Suc [where d = "j - k"]) (use round True in \<open>simp add: Let_def\<close>)
      next
        case new: False
        have "loop_returns e n (insert (gen_value e L g j) U) (i + 1) (?wk\<lparr>wk_keys := (wk_keys wk)[i := gen_value e L g j]\<rparr>)"
          by (rule outer [where k = "Suc j"]) (use less.prems i new in \<open>auto simp del: gen_at.simps\<close>)
        then show ?thesis by (rule loop_returns_Suc [where d = "j - k"]) (use round new in \<open>simp add: Let_def\<close>)
      qed
    qed
  qed
qed

text \<open>
  The loop ends with keys that are drawn, or is still running; when fewer keys than asked for are ever
  drawn it does not end.
\<close>

lemma unique_keys_outcome:
  assumes "wk_key_gen wk = Some (gen_at e L g k)" "counter_last (wk_upsert_gen wk) = L"
    and "n \<le> length (wk_keys wk)" "i \<le> n" "card U = i" "U \<subseteq> {..L} \<inter> range (gen_value e L g)"
  shows "unique_keys_loop e fuel rounds n U i wk = Inl OutOfFuel \<or>
    n \<le> card ({..L} \<inter> range (gen_value e L g)) \<and> (\<exists>wk'. unique_keys_loop e fuel rounds n U i wk = Inr wk')"
  using assms
proof (induction rounds arbitrary: U i k wk)
  case 0
  have "card U \<le> card ({..L} \<inter> range (gen_value e L g))" by (rule card_mono) (use 0(6) in auto)
  then show ?case using 0 by auto
next
  case (Suc rounds)
  have fin: "finite U" using Suc.prems(6) finite_subset by blast
  show ?case
  proof (cases "i = n")
    case True
    have "card U \<le> card ({..L} \<inter> range (gen_value e L g))" by (rule card_mono) (use Suc.prems(6) in auto)
    then show ?thesis using Suc.prems True by auto
  next
    case False
    from generate_key_outcome [OF Suc.prems(1,2)] consider "generate_key e fuel wk = Inl OutOfFuel" |
      j where "gen_value e L g j \<le> L" "generate_key e fuel wk =
        Inr (gen_value e L g j, wk\<lparr>wk_key_gen := Some (gen_at e L g (Suc j))\<rparr>)" by blast
    then show ?thesis
    proof cases
      case 1
      then show ?thesis using False by simp
    next
      case 2
      let ?key = "gen_value e L g j" and ?wk = "wk\<lparr>wk_key_gen := Some (gen_at e L g (Suc j))\<rparr>"
      show ?thesis
      proof (cases "?key \<in> U")
        case True
        then have "unique_keys_loop e fuel (Suc rounds) n U i wk = unique_keys_loop e fuel rounds n U i ?wk"
          using 2(2) False by (simp del: gen_at.simps)
        then show ?thesis using Suc.IH [of ?wk "Suc j" i U] Suc.prems by (simp del: gen_at.simps unique_keys_loop.simps)
      next
        case new: False
        let ?wk' = "?wk\<lparr>wk_keys := (wk_keys wk)[i := ?key]\<rparr>"
        have "unique_keys_loop e fuel (Suc rounds) n U i wk = unique_keys_loop e fuel rounds n (insert ?key U) (i + 1) ?wk'"
          using 2(2) False new Suc.prems(3,4) by (simp del: gen_at.simps)
        then show ?thesis using Suc.IH [of ?wk' "Suc j" "i + 1" "insert ?key U"] Suc.prems False new fin 2(1)
          by (simp del: gen_at.simps unique_keys_loop.simps)
      qed
    qed
  qed
qed

end
