(* ===== verification/UcsbSpans.thy ===== *)
theory UcsbSpans
  imports UcsbKeys
begin

text \<open>
  What the worker of a thread hands to the database: the invariant that every operation keeps of its
  buffers and generators, the keys of its calls, the lengths of the spans, and when a batch of reads returns.
\<close>

section \<open>What every operation keeps\<close>

text \<open>A generator without the number of values drawn.\<close>

fun gen_shape :: "gen \<Rightarrow> gen" where
  "gen_shape (ConstGen c) = ConstGen c"
| "gen_shape (UniformGen a b k) = UniformGen a b 0"
| "gen_shape (ZipfGen a b k) = ZipfGen a b 0"
| "gen_shape (ScrambledGen a n k) = ScrambledGen a n 0"
| "gen_shape (LatestGen k) = LatestGen 0"

lemma gen_shape_next: "gen_next e m g = (x, g') \<Longrightarrow> gen_shape g' = gen_shape g"
  by (cases g) auto

definition same_worker :: "worker \<Rightarrow> worker \<Rightarrow> bool" where
  "same_worker wk wk' \<longleftrightarrow>
     wk_workload wk' = wk_workload wk \<and> wk_ack_gen wk' = wk_ack_gen wk \<and>
     map_option gen_shape (wk_key_gen wk') = map_option gen_shape (wk_key_gen wk) \<and>
     length (wk_keys wk') = length (wk_keys wk) \<and>
     gen_shape (wk_value_length_gen wk') = gen_shape (wk_value_length_gen wk) \<and>
     length (wk_values wk') = length (wk_values wk) \<and> length (wk_sizes wk') = length (wk_sizes wk) \<and>
     gen_shape (wk_batch_upsert_gen wk') = gen_shape (wk_batch_upsert_gen wk) \<and>
     gen_shape (wk_batch_read_gen wk') = gen_shape (wk_batch_read_gen wk) \<and>
     gen_shape (wk_bulk_load_gen wk') = gen_shape (wk_bulk_load_gen wk) \<and>
     gen_shape (wk_range_select_gen wk') = gen_shape (wk_range_select_gen wk)"

lemma same_worker_refl [intro!, simp]: "same_worker wk wk"
  by (simp add: same_worker_def)

lemma same_worker_trans: "same_worker wk wk1 \<Longrightarrow> same_worker wk1 wk2 \<Longrightarrow> same_worker wk wk2"
  by (simp add: same_worker_def)

lemma generate_key_same: "generate_key e fuel wk = Inr (key, wk') \<Longrightarrow> same_worker wk wk'"
proof (induction fuel arbitrary: wk)
  case (Suc fuel)
  from Suc.prems obtain g where g: "wk_key_gen wk = Some g" by (cases "wk_key_gen wk") auto
  obtain k g' where k: "gen_next e (counter_last (wk_upsert_gen wk)) g = (k, g')" by fastforce
  let ?wk = "wk\<lparr>wk_key_gen := Some g'\<rparr>"
  have s: "same_worker wk ?wk" using g gen_shape_next [OF k] by (simp add: same_worker_def)
  show ?case
  proof (cases "k > counter_last (wk_upsert_gen wk)")
    case True
    then have "generate_key e fuel ?wk = Inr (key, wk')" using Suc.prems g k by simp
    from same_worker_trans [OF s Suc.IH [OF this]] show ?thesis .
  next
    case False
    then show ?thesis using Suc.prems g k s by auto
  qed
qed simp

lemma unique_keys_same: "unique_keys_loop e fuel rounds n U i wk = Inr wk' \<Longrightarrow> same_worker wk wk'"
proof (induction rounds arbitrary: U i wk)
  case 0
  then show ?case by (auto split: if_splits)
next
  case (Suc rounds)
  show ?case
  proof (cases "i = n")
    case True
    then show ?thesis using Suc.prems by simp
  next
    case False
    then obtain key wk1 where k: "generate_key e fuel wk = Inr (key, wk1)" using Suc.prems by auto
    have "\<exists>U i wk2. same_worker wk1 wk2 \<and> unique_keys_loop e fuel rounds n U i wk2 = Inr wk'"
    proof (cases "key \<in> U")
      case True
      then show ?thesis using Suc.prems False k same_worker_refl by auto
    next
      case new: False
      have "same_worker wk1 (wk1\<lparr>wk_keys := (wk_keys wk1)[i := key]\<rparr>)" by (simp add: same_worker_def)
      then show ?thesis using new Suc.prems False k by (auto simp: put_Inr)
    qed
    then show ?thesis using same_worker_trans generate_key_same [OF k] Suc.IH by metis
  qed
qed

lemma fill_sizes_same: "fill_sizes e i n acc wk = Inr (len, wk') \<Longrightarrow> same_worker wk wk'"
proof (induction n arbitrary: i acc wk)
  case (Suc n)
  obtain x g where g: "gen_next e 0 (wk_value_length_gen wk) = (x, g)" by fastforce
  let ?wk = "wk\<lparr>wk_sizes := (wk_sizes wk)[i := x], wk_value_length_gen := g\<rparr>"
  have "same_worker wk ?wk" using gen_shape_next [OF g] by (simp add: same_worker_def)
  moreover have "same_worker ?wk wk'" by (rule Suc.IH) (use Suc.prems g in \<open>auto simp: put_Inr\<close>)
  ultimately show ?case by (rule same_worker_trans)
qed simp

lemma generate_values_same:
  assumes "generate_values e n wk = Inr (vs, sizes, wk')"
  shows "same_worker wk wk'"
proof -
  from assms obtain wk1 len where 1: "fill_bytes e 0 (n * value_length (wk_workload wk)) wk = Inr wk1"
      "fill_sizes e 0 n 0 wk1 = Inr (len, wk')"
    by (auto simp: generate_values_def split: if_splits)
  from fill_bytes_frame [OF 1(1)] have "same_worker wk wk1" by (auto simp: same_worker_def)
  from same_worker_trans [OF this fill_sizes_same [OF 1(2)]] show ?thesis .
qed

lemma generate_value_same: "generate_value e wk = Inr (v, wk') \<Longrightarrow> same_worker wk wk'"
  by (auto simp: generate_value_def dest: generate_values_same)

lemma sequence_keys_same:
  assumes "sequence_keys 0 n wk = Inr wk'" "wk_ack_gen wk = None"
  shows "same_worker wk wk'"
  using assms sequence_keys_run [OF assms(2), of 0 n] by (auto simp: same_worker_def split: if_splits)

lemma run_operation_same:
  assumes run: "run_operation e fuel k wk = Inr (calls, wk')" and ack: "wk_ack_gen wk = None"
  shows "same_worker wk wk'"
proof (cases k)
  case upsert_k
  obtain c g where "counter_next (wk_upsert_gen wk) = (c, g)" by fastforce
  with run upsert_k obtain v wk1 where 1: "generate_value e (wk\<lparr>wk_upsert_gen := g\<rparr>) = Inr (v, wk1)"
      "acknowledge_key c wk1 = Inr wk'"
    by (auto simp: run_operation_def do_upsert_def)
  from generate_value_same [OF 1(1)] generate_value_gens(2) [OF 1(1)] 1(2) ack show ?thesis
    by (auto simp: acknowledge_key_def same_worker_def)
next
  case batch_upsert_k
  obtain n g where n: "gen_next e 0 (wk_batch_upsert_gen wk) = (n, g)" by fastforce
  with run batch_upsert_k obtain wk1 vs sizes where
      1: "sequence_keys 0 n (wk\<lparr>wk_batch_upsert_gen := g\<rparr>) = Inr wk1" and
      2: "generate_values e n wk1 = Inr (vs, sizes, wk')"
    by (auto simp: run_operation_def do_batch_upsert_def generate_keys_defs)
  have s: "same_worker wk (wk\<lparr>wk_batch_upsert_gen := g\<rparr>)" using gen_shape_next [OF n] by (simp add: same_worker_def)
  have "same_worker (wk\<lparr>wk_batch_upsert_gen := g\<rparr>) wk1" by (rule sequence_keys_same [OF 1]) (use ack in simp)
  from same_worker_trans [OF same_worker_trans [OF s this] generate_values_same [OF 2]] show ?thesis .
next
  case bulk_load_k
  obtain n g where n: "gen_next e 0 (wk_bulk_load_gen wk) = (n, g)" by fastforce
  with run bulk_load_k obtain wk1 vs sizes where
      1: "sequence_keys 0 n (wk\<lparr>wk_bulk_load_gen := g\<rparr>) = Inr wk1" and
      2: "generate_values e n wk1 = Inr (vs, sizes, wk')"
    by (auto simp: run_operation_def do_bulk_load_def generate_keys_defs)
  have s: "same_worker wk (wk\<lparr>wk_bulk_load_gen := g\<rparr>)" using gen_shape_next [OF n] by (simp add: same_worker_def)
  have "same_worker (wk\<lparr>wk_bulk_load_gen := g\<rparr>) wk1" by (rule sequence_keys_same [OF 1]) (use ack in simp)
  from same_worker_trans [OF same_worker_trans [OF s this] generate_values_same [OF 2]] show ?thesis .
next
  case batch_read_k
  obtain n g where n: "gen_next e 0 (wk_batch_read_gen wk) = (n, g)" by fastforce
  with run batch_read_k have
      1: "unique_keys_loop e fuel fuel n {} 0 (wk\<lparr>wk_batch_read_gen := g\<rparr>) = Inr wk'"
    by (auto simp: run_operation_def do_batch_read_def generate_keys_defs)
  have "same_worker wk (wk\<lparr>wk_batch_read_gen := g\<rparr>)" using gen_shape_next [OF n] by (simp add: same_worker_def)
  from same_worker_trans [OF this unique_keys_same [OF 1]] show ?thesis .
next
  case range_select_k
  with run obtain key wk1 where 1: "generate_key e fuel wk = Inr (key, wk1)"
    by (auto simp: run_operation_def do_range_select_def)
  obtain n g where n: "gen_next e 0 (wk_range_select_gen wk1) = (n, g)" by fastforce
  have "same_worker wk1 (wk1\<lparr>wk_range_select_gen := g\<rparr>)" using gen_shape_next [OF n] by (simp add: same_worker_def)
  from same_worker_trans [OF generate_key_same [OF 1] this] show ?thesis
    using run range_select_k n 1 by (auto simp: run_operation_def do_range_select_def Let_def)
next
  case update_k
  with run obtain key wk1 v where 1: "generate_key e fuel wk = Inr (key, wk1)" "generate_value e wk1 = Inr (v, wk')"
    by (auto simp: run_operation_def do_update_def)
  from same_worker_trans [OF generate_key_same [OF 1(1)] generate_value_same [OF 1(2)]] show ?thesis .
next
  case read_modify_write_k
  with run obtain key wk1 v where 1: "generate_key e fuel wk = Inr (key, wk1)" "generate_value e wk1 = Inr (v, wk')"
    by (auto simp: run_operation_def do_read_modify_write_def)
  from same_worker_trans [OF generate_key_same [OF 1(1)] generate_value_same [OF 1(2)]] show ?thesis .
qed (use run in \<open>auto simp: run_operation_def do_defs dest: generate_key_same\<close>)

lemma worker_run_same:
  assumes "worker_run e fuel ks wk = Inr (calls, wk')" "wk_ack_gen wk = None"
  shows "same_worker wk wk'"
  using assms
proof (induction ks arbitrary: wk calls)
  case (Cons k ks)
  then obtain calls1 wk1 calls2 where 1: "run_operation e fuel k wk = Inr (calls1, wk1)"
      "worker_run e fuel ks wk1 = Inr (calls2, wk')" by auto
  have s: "same_worker wk wk1" by (rule run_operation_same [OF 1(1) Cons.prems(2)])
  then have "wk_ack_gen wk1 = None" using Cons.prems(2) by (simp add: same_worker_def)
  from same_worker_trans [OF s Cons.IH [OF 1(2) this]] show ?case .
qed simp

section \<open>A new worker\<close>

lemma worker_new_shape:
  assumes "worker_new w = Inr wk"
  shows "wk_workload wk = w" "wk_ack_gen wk = None" "length (wk_keys wk) = elements_max_count w"
    "length (wk_values wk) = elements_max_count w * value_length w" "length (wk_sizes wk) = elements_max_count w"
    "create_value_length_generator w = Inr (wk_value_length_gen wk)"
    "create_length_generator (batch_upsert_length_dist w) (batch_upsert_min_length w) (batch_upsert_max_length w) =
       Inr (wk_batch_upsert_gen wk)"
    "create_length_generator (batch_read_length_dist w) (batch_read_min_length w) (batch_read_max_length w) =
       Inr (wk_batch_read_gen wk)"
    "create_length_generator (bulk_load_length_dist w) (bulk_load_min_length w) (bulk_load_max_length w) =
       Inr (wk_bulk_load_gen wk)"
    "create_length_generator (range_select_length_dist w) (range_select_min_length w) (range_select_max_length w) =
       Inr (wk_range_select_gen wk)"
  using assms by (auto simp: worker_new_def create_length_generator_defs Let_def split: if_splits)

lemma elements_max_count_ge:
  "batch_upsert_max_length w \<le> elements_max_count w" "batch_read_max_length w \<le> elements_max_count w"
  "bulk_load_max_length w \<le> elements_max_count w"
  by (auto simp: elements_max_count_def intro!: Max_ge)

lemma shape_uniform: "gen_shape g = UniformGen a b 0 \<Longrightarrow> \<exists>k. g = UniformGen a b k"
  by (cases g) auto

lemma shape_uniform_Some: "map_option gen_shape og = Some (UniformGen a b 0) \<Longrightarrow> \<exists>k. og = Some (UniformGen a b k)"
  by (cases og) (auto dest: shape_uniform)

lemma uniform_length_generator:
  "create_length_generator kind a b = Inr g \<Longrightarrow> kind = uniform_k \<Longrightarrow> gen_shape g = UniformGen a b 0"
  by (auto simp: create_length_generator_def uniform_new_def)

lemma value_generator_shape:
  "create_value_length_generator w = Inr g \<Longrightarrow>
     gen_shape g = ConstGen (value_length w) \<or> gen_shape g = UniformGen 1 (value_length w) 0"
  by (auto simp: create_value_length_generator_def uniform_new_def raise_def split: distribution_kind.splits)

section \<open>The worker of a thread\<close>

lemma thread_part_end:
  assumes "i < n"
  shows "start_key (thread_part w n i) + records_count (thread_part w n i) \<le> start_key w + db_records_count w"
proof -
  define q r where "q = db_records_count w div n" and "r = db_records_count w mod n"
  have db: "db_records_count w = n * q + r" by (simp add: q_def r_def)
  have share: "share (db_records_count w) n j = q + (if j < r then 1 else 0)" for j
    by (simp add: share_def q_def r_def)
  have le: "(i + 1) * q \<le> n * q" by (rule mult_le_mono1) (use assms in simp)
  have "i * (if i = 0 then 0 else share (db_records_count w) n (i - 1)) + share (db_records_count w) n i \<le> n * q + r"
  proof (cases "i \<le> r")
    case True
    then have "i = 0 \<or> i - 1 < r" by auto
    then show ?thesis using le True by (auto simp: share algebra_simps)
  next
    case False
    then have "\<not> i - 1 < r" "\<not> i < r" by auto
    then show ?thesis using le by (auto simp: share algebra_simps)
  qed
  then show ?thesis by (simp add: thread_part_def flip: db)
qed

lemma validate_lengths:
  assumes "validate_workload w n = Inr ()"
  shows "n > 0" "db_records_count w > 0" "batch_read_min_length w \<le> batch_read_max_length w"
    "batch_read_max_length w \<le> db_records_count w div n"
    "batch_upsert_min_length w \<le> batch_upsert_max_length w"
    "batch_upsert_max_length w \<le> db_records_count w div n"
    "bulk_load_min_length w \<le> bulk_load_max_length w"
  using assms by (simp_all add: validate_workload_def check_def Let_def split: if_splits)

lemma thread_part_simps [simp]:
  "db_records_count (thread_part w n i) = db_records_count w" "key_dist (thread_part w n i) = key_dist w"
  "value_length (thread_part w n i) = value_length w" "value_length_dist (thread_part w n i) = value_length_dist w"
  "batch_upsert_length_dist (thread_part w n i) = batch_upsert_length_dist w"
  "batch_upsert_min_length (thread_part w n i) = batch_upsert_min_length w"
  "batch_upsert_max_length (thread_part w n i) = batch_upsert_max_length w"
  "batch_read_length_dist (thread_part w n i) = batch_read_length_dist w"
  "batch_read_min_length (thread_part w n i) = batch_read_min_length w"
  "batch_read_max_length (thread_part w n i) = batch_read_max_length w"
  "bulk_load_length_dist (thread_part w n i) = bulk_load_length_dist w"
  "bulk_load_min_length (thread_part w n i) = bulk_load_min_length w"
  "bulk_load_max_length (thread_part w n i) = bulk_load_max_length w"
  "initializes (thread_part w n i) = initializes w" "elements_max_count (thread_part w n i) = elements_max_count w"
  by (simp_all add: thread_part_def initializes_def elements_max_count_def)

text \<open>The worker of the \<open>i\<close>-th of \<open>n\<close> threads at any point of its run.\<close>

lemma thread_worker:
  assumes "i < n" and new: "worker_new (split_workload_into_threads w n ! i) = Inr wk0"
    and run: "worker_run e f ks wk0 = Inr (calls, wk)"
  shows "wk_ack_gen wk = None" "wk_workload wk = thread_part w n i"
    "length (wk_keys wk) = elements_max_count w" "length (wk_sizes wk) = elements_max_count w"
    "length (wk_values wk) = elements_max_count w * value_length w"
    "gen_shape (wk_value_length_gen wk) = ConstGen (value_length w) \<or>
       gen_shape (wk_value_length_gen wk) = UniformGen 1 (value_length w) 0"
    "batch_upsert_length_dist w = uniform_k \<Longrightarrow>
       \<exists>l. wk_batch_upsert_gen wk = UniformGen (batch_upsert_min_length w) (batch_upsert_max_length w) l"
    "batch_read_length_dist w = uniform_k \<Longrightarrow>
       \<exists>l. wk_batch_read_gen wk = UniformGen (batch_read_min_length w) (batch_read_max_length w) l"
    "bulk_load_length_dist w = uniform_k \<Longrightarrow>
       \<exists>l. wk_bulk_load_gen wk = UniformGen (bulk_load_min_length w) (bulk_load_max_length w) l"
    "map_option gen_shape (wk_key_gen wk) = map_option gen_shape (wk_key_gen wk0)"
proof -
  have "split_workload_into_threads w n ! i = thread_part w n i" using assms(1) by (simp add: split_workload_parts)
  note new' = new [unfolded this]
  note same = worker_run_same [OF run worker_new_shape(2) [OF new'], unfolded same_worker_def]
  show "wk_ack_gen wk = None" "wk_workload wk = thread_part w n i"
    "length (wk_keys wk) = elements_max_count w" "length (wk_sizes wk) = elements_max_count w"
    "length (wk_values wk) = elements_max_count w * value_length w"
    "map_option gen_shape (wk_key_gen wk) = map_option gen_shape (wk_key_gen wk0)"
    using same worker_new_shape(1-5) [OF new'] by simp_all
  show "gen_shape (wk_value_length_gen wk) = ConstGen (value_length w) \<or>
       gen_shape (wk_value_length_gen wk) = UniformGen 1 (value_length w) 0"
    using same value_generator_shape [OF worker_new_shape(6) [OF new']] by simp
  show "\<exists>l. wk_batch_upsert_gen wk = UniformGen (batch_upsert_min_length w) (batch_upsert_max_length w) l"
    if "batch_upsert_length_dist w = uniform_k"
    using same uniform_length_generator [OF worker_new_shape(7) [OF new']] that by (auto intro: shape_uniform)
  show "\<exists>l. wk_batch_read_gen wk = UniformGen (batch_read_min_length w) (batch_read_max_length w) l"
    if "batch_read_length_dist w = uniform_k"
    using same uniform_length_generator [OF worker_new_shape(8) [OF new']] that by (auto intro: shape_uniform)
  show "\<exists>l. wk_bulk_load_gen wk = UniformGen (bulk_load_min_length w) (bulk_load_max_length w) l"
    if "bulk_load_length_dist w = uniform_k"
    using same uniform_length_generator [OF worker_new_shape(9) [OF new']] that by (auto intro: shape_uniform)
qed

lemma thread_worker_keys:
  assumes "i < n" "db_records_count w > 0" "\<not> initializes w"
    and new: "worker_new (split_workload_into_threads w n ! i) = Inr wk0"
    and run: "worker_run e f ks wk0 = Inr (calls, wk)"
  shows "keys_step (db_records_count w) {} (db_records_count w - 1) calls wk"
    "counter_last (wk_upsert_gen wk) = db_records_count w - 1"
    "\<exists>kg g0. wk_key_gen wk = Some kg \<and> gen_shape kg = gen_shape g0 \<and>
       create_key_generator (thread_part w n i) (acked_new (db_records_count w)) = Inr g0"
proof -
  have "split_workload_into_threads w n ! i = thread_part w n i" using assms(1) by (simp add: split_workload_parts)
  note new' = new [unfolded this]
  note gens = worker_new_gens [OF new', simplified, OF assms(3)]
  have "wk_upsert_gen wk0 = Acked (db_records_count w) {} (db_records_count w - 1)"
    using gens(1) assms(2) by (simp add: acked_new_def minus_one_def)
  from worker_run_keys [OF run this gens(2)]
  show "keys_step (db_records_count w) {} (db_records_count w - 1) calls wk"
    "counter_last (wk_upsert_gen wk) = db_records_count w - 1" by (auto simp: keys_step_def)
  from gens(3) thread_worker(10) [OF assms(1) new run]
  show "\<exists>kg g0. wk_key_gen wk = Some kg \<and> gen_shape kg = gen_shape g0 \<and>
       create_key_generator (thread_part w n i) (acked_new (db_records_count w)) = Inr g0" by auto
qed

section \<open>The keys of a worker\<close>

lemma run_operation_scan:
  "run_operation e fuel k wk = Inr (calls, wk') \<Longrightarrow> Scan key l buf \<in> set calls \<Longrightarrow>
     key = start_key (wk_workload wk) \<and> l = records_count (wk_workload wk)"
  by (cases k) (auto simp: run_operation_def do_defs case_prod_beta Let_def)

lemma worker_run_scan:
  assumes "worker_run e fuel ks wk = Inr (calls, wk')" "wk_ack_gen wk = None" "Scan key l buf \<in> set calls"
  shows "key = start_key (wk_workload wk) \<and> l = records_count (wk_workload wk)"
  using assms
proof (induction ks arbitrary: wk calls)
  case (Cons k ks)
  then obtain calls1 wk1 calls2 where 1: "run_operation e fuel k wk = Inr (calls1, wk1)"
      "worker_run e fuel ks wk1 = Inr (calls2, wk')" "calls = calls1 @ calls2" by auto
  have same: "wk_workload wk1 = wk_workload wk" "wk_ack_gen wk1 = None"
    using run_operation_same [OF 1(1) Cons.prems(2)] Cons.prems(2) by (simp_all add: same_worker_def)
  show ?case using run_operation_scan [OF 1(1)] Cons.IH [OF 1(2) same(2)] Cons.prems(3) 1(3) same(1) by auto
qed simp

text \<open>
  C36. The keys of the worker of the \<open>i\<close>-th of \<open>n\<close> threads over any sequence of operations, whatever
  the distributions. The keys of the records it makes are consecutive: when the workload initializes the
  database they start at the first key of the thread's part, and otherwise behind all records of the
  database, in every thread at the same key. Updates, removes, reads, batches of reads and range selects
  use keys below the number of these records, a batch each key once, and a worker that initializes makes
  no such call with a key. A scan covers the keys and records of the thread's part. Unless it initializes, the
  last key that may be read stays what it was: no record made by the worker is ever read, updated or removed.
\<close>

theorem worker_keys:
  assumes "i < n" and "db_records_count w > 0"
    and "worker_new (split_workload_into_threads w n ! i) = Inr wk"
    and "worker_run e fuel ks wk = Inr (calls, wk')"
  shows "let part = split_workload_into_threads w n ! i
    in (\<exists>c. concat (map new_keys calls) =
          [if initializes w then start_key part else db_records_count w..<c]) \<and>
       (\<forall>call \<in> set calls. distinct (old_keys call) \<and>
          set (old_keys call) \<subseteq> (if initializes w then {} else {..<db_records_count w})) \<and>
       (\<forall>key l buf. Scan key l buf \<in> set calls \<longrightarrow> key = start_key part \<and> l = records_count part) \<and>
       (\<not> initializes w \<longrightarrow> counter_last (wk_upsert_gen wk') + 1 = db_records_count w)"
proof -
  let ?p = "thread_part w n i"
  have w: "split_workload_into_threads w n ! i = ?p" using assms(1) by (simp add: split_workload_parts)
  note new = assms(3) [unfolded w]
  have "\<forall>key l buf. Scan key l buf \<in> set calls \<longrightarrow> key = start_key ?p \<and> l = records_count ?p"
    using worker_run_scan [OF assms(4) worker_new_shape(2) [OF new]] worker_new_shape(1) [OF new] by auto
  moreover have "(\<exists>c. concat (map new_keys calls) = [if initializes w then start_key ?p else db_records_count w..<c]) \<and>
       (\<forall>call \<in> set calls. distinct (old_keys call) \<and>
          set (old_keys call) \<subseteq> (if initializes w then {} else {..<db_records_count w})) \<and>
       (\<not> initializes w \<longrightarrow> counter_last (wk_upsert_gen wk') + 1 = db_records_count w)"
  proof (cases "initializes w")
    case True
    note g = worker_new_init [OF new, simplified, OF True]
    from init_run [OF assms(4) g(2,3)] show ?thesis using True g(1) by (auto simp: init_step_def)
  next
    case False
    have "{..db_records_count w - 1} = {..<db_records_count w}" using assms(2) by auto
    with thread_worker_keys(1,2) [OF assms(1,2) False assms(3,4)] show ?thesis
      using False assms(2) by (auto simp: keys_step_def)
  qed
  ultimately show ?thesis unfolding w Let_def by blast
qed

section \<open>Batches of reads that return\<close>

text \<open>
  What the code relies on of a distribution over a random engine: the values are in the range,
  and every value of the range comes again and again.
\<close>

definition uniform_fair :: "env \<Rightarrow> nat \<Rightarrow> nat \<Rightarrow> bool" where
  "uniform_fair e a b \<longleftrightarrow>
     (\<forall>k. uniform e a b k \<in> {a..b}) \<and> (\<forall>x \<in> {a..b}. \<forall>k. \<exists>k' \<ge> k. uniform e a b k' = x)"

lemma uniform_again: "uniform_fair e a b \<Longrightarrow> again e L (UniformGen a b k) {a..b}"
  unfolding again_def gen_value_uniform
proof (intro ballI allI)
  fix x j assume "uniform_fair e a b" "x \<in> {a..b}"
  then obtain k' where "k + j \<le> k'" "uniform e a b k' = x" unfolding uniform_fair_def by blast
  then show "\<exists>j' \<ge> j. uniform e a b (k + j') = x" by (intro exI [of _ "k' - k"]) simp
qed

lemma do_batch_read_cases:
  assumes "gen_next e 0 (wk_batch_read_gen wk) = (m, g)"
  shows "do_batch_read e fuel wk =
    bindE (unique_keys_loop e fuel fuel m {} 0 (wk\<lparr>wk_batch_read_gen := g\<rparr>)) (\<lambda>wk1.
      Inr ([BatchRead (take m (wk_keys wk1)) (values_buffer m wk1)], wk1))"
  using assms by (simp add: do_batch_read_def generate_keys_defs bindE_assoc)

lemma batch_read_result:
  assumes kg: "wk_key_gen wk = Some kg" "counter_last (wk_upsert_gen wk) = L"
    and m: "gen_next e 0 (wk_batch_read_gen wk) = (m, g)"
    and run: "unique_keys_loop e fuel fuel m {} 0 (wk\<lparr>wk_batch_read_gen := g\<rparr>) = Inr wk'"
  shows "\<exists>keys. do_batch_read e fuel wk = Inr ([BatchRead keys (m * value_length (wk_workload wk))], wk') \<and>
    length keys = m \<and> distinct keys \<and> set keys \<subseteq> {..L} \<inter> range (gen_value e L kg) \<and>
    length (wk_values wk') = length (wk_values wk)"
proof -
  have "length (take m (wk_keys wk')) = m \<and> distinct (take m (wk_keys wk')) \<and>
      set (take m (wk_keys wk')) \<subseteq> {..L} \<inter> range (gen_value e L kg)"
  proof (rule conjunct2 [OF unique_keys_frame [where Q = "\<lambda>og. \<exists>k. og = Some (gen_at e L kg k)" and
        ug = "wk_upsert_gen wk", OF _ run]])
    fix wk1 key wk2
    assume 1: "generate_key e fuel wk1 = Inr (key, wk2)" "\<exists>k. wk_key_gen wk1 = Some (gen_at e L kg k)"
      "wk_upsert_gen wk1 = wk_upsert_gen wk"
    then obtain k where "wk_key_gen wk1 = Some (gen_at e L kg k)" by blast
    from generate_key_outcome [OF this, of fuel] 1 kg(2)
    show "key \<in> {..L} \<inter> range (gen_value e L kg) \<and> (\<exists>k. wk_key_gen wk2 = Some (gen_at e L kg k))"
      by (auto simp del: gen_at.simps)
  qed (use kg in \<open>auto intro: exI [of _ 0]\<close>)
  moreover have "same_worker (wk\<lparr>wk_batch_read_gen := g\<rparr>) wk'" by (rule unique_keys_same [OF run])
  then have "values_buffer m wk' = m * value_length (wk_workload wk)" "length (wk_values wk') = length (wk_values wk)"
    by (simp_all add: values_buffer_def same_worker_def)
  ultimately show ?thesis unfolding do_batch_read_cases [OF m] using run by simp
qed

lemma batch_read_outcome:
  assumes "wk_key_gen wk = Some kg" "counter_last (wk_upsert_gen wk) = L"
    and m: "gen_next e 0 (wk_batch_read_gen wk) = (m, g)" and "m \<le> length (wk_keys wk)"
  shows "do_batch_read e fuel wk = Inl OutOfFuel \<or>
    m \<le> card ({..L} \<inter> range (gen_value e L kg)) \<and>
    (\<exists>wk'. unique_keys_loop e fuel fuel m {} 0 (wk\<lparr>wk_batch_read_gen := g\<rparr>) = Inr wk')"
  using unique_keys_outcome [of "wk\<lparr>wk_batch_read_gen := g\<rparr>" e L kg 0 m 0 "{}" fuel fuel] assms
  unfolding do_batch_read_cases [OF m] by auto

text \<open>The next batch of reads of a worker returns, given enough fuel, and has \<open>m\<close> different keys of \<open>K\<close>.\<close>

definition batch_returns :: "env \<Rightarrow> worker \<Rightarrow> nat \<Rightarrow> nat set \<Rightarrow> bool" where
  "batch_returns e wk m K \<longleftrightarrow> (\<exists>F. \<forall>fuel \<ge> F. \<exists>keys buf wk'.
     do_batch_read e fuel wk = Inr ([BatchRead keys buf], wk') \<and> length keys = m \<and> distinct keys \<and> set keys \<subseteq> K)"

lemma batch_returns_again:
  assumes kg: "wk_key_gen wk = Some kg" "counter_last (wk_upsert_gen wk) = L"
    and m: "gen_next e 0 (wk_batch_read_gen wk) = (m, g)" and "m \<le> length (wk_keys wk)"
    and "again e L kg S" "S \<subseteq> {..L}" "m \<le> card S"
  shows "batch_returns e wk m ({..L} \<inter> range (gen_value e L kg))"
proof -
  have "loop_returns e m {} 0 (wk\<lparr>wk_batch_read_gen := g\<rparr>)"
    by (rule unique_keys_return [OF assms(5-7), where k = 0]) (use kg assms(4) in simp_all)
  then obtain F where F: "\<And>fuel. F \<le> fuel \<Longrightarrow>
      \<exists>wk'. unique_keys_loop e fuel fuel m {} 0 (wk\<lparr>wk_batch_read_gen := g\<rparr>) = Inr wk'"
    by (auto simp: loop_returns_def)
  show ?thesis unfolding batch_returns_def
  proof (intro exI [of _ F] allI impI)
    fix fuel assume "F \<le> fuel"
    from F [OF this] obtain wk' where "unique_keys_loop e fuel fuel m {} 0 (wk\<lparr>wk_batch_read_gen := g\<rparr>) = Inr wk'" by blast
    from batch_read_result [OF kg m this] show "\<exists>keys buf wk'. do_batch_read e fuel wk = Inr ([BatchRead keys buf], wk') \<and>
        length keys = m \<and> distinct keys \<and> set keys \<subseteq> {..L} \<inter> range (gen_value e L kg)" by blast
  qed
qed

lemma batch_returns_mono: "batch_returns e wk m K \<Longrightarrow> K \<subseteq> K' \<Longrightarrow> batch_returns e wk m K'"
  unfolding batch_returns_def by (meson order_trans)

text \<open>Generators of keys whose values are not below their first key.\<close>

lemma late_keys:
  assumes "gen_shape kg = gen_shape g0" "create_key_generator p c = Inr g0" "start_key p + records_count p > 0"
    and "key_dist p = uniform_k \<and> (\<forall>a b. a \<le> b \<longrightarrow> uniform_fair e a b) \<and> records_count p > 0 \<or> key_dist p = zipfian_k"
  shows "start_key p \<le> gen_value e L kg j"
proof (cases "key_dist p = zipfian_k")
  case True
  then obtain n where "gen_shape kg = ScrambledGen (start_key p) n 0"
    using assms(1,2) by (auto simp: create_key_generator_def scrambled_new_def Let_def)
  then obtain k where "kg = ScrambledGen (start_key p) n k" by (cases kg) auto
  then show ?thesis by (simp add: gen_value_scrambled scramble_def)
next
  case False
  then have u: "key_dist p = uniform_k" "\<forall>a b. a \<le> b \<longrightarrow> uniform_fair e a b" "records_count p > 0" using assms(4) by blast+
  let ?b = "minus_one (start_key p + records_count p)"
  have "gen_shape kg = UniformGen (start_key p) ?b 0"
    using assms(1,2) u(1) by (auto simp: create_key_generator_def uniform_new_def)
  then obtain k where "kg = UniformGen (start_key p) ?b k" using shape_uniform by blast
  moreover have "uniform_fair e (start_key p) ?b" using u(2,3) by (simp add: minus_one_def)
  ultimately show ?thesis by (simp add: gen_value_uniform uniform_fair_def)
qed

lemma uniform_part_returns:
  assumes "gen_shape kg = gen_shape g0" "create_key_generator p c = Inr g0" "key_dist p = uniform_k"
    and fair: "\<And>a b. a \<le> b \<Longrightarrow> uniform_fair e a b" and inside: "start_key p + records_count p \<le> Suc L"
    and kg: "wk_key_gen wk = Some kg" "counter_last (wk_upsert_gen wk) = L"
    and m: "gen_next e 0 (wk_batch_read_gen wk) = (m, g)" "m \<le> length (wk_keys wk)" "m \<le> records_count p"
  shows "batch_returns e wk m {start_key p..<start_key p + records_count p}"
proof (cases "m = 0")
  case True
  have "again e L kg {}" by (simp add: again_def)
  from batch_returns_again [OF kg m(1,2) this] True have "batch_returns e wk 0 ({..L} \<inter> range (gen_value e L kg))" by simp
  then show ?thesis using True by (auto simp: batch_returns_def)
next
  case False
  let ?a = "start_key p" and ?b = "minus_one (start_key p + records_count p)"
  have b: "?a \<le> ?b" "{?a..?b} = {?a..<?a + records_count p}" using False m(3) by (auto simp: minus_one_def)
  have "gen_shape kg = UniformGen ?a ?b 0"
    using assms(1-3) by (auto simp: create_key_generator_def uniform_new_def)
  then obtain k where k: "kg = UniformGen ?a ?b k" using shape_uniform by blast
  have "again e L kg {?a..<?a + records_count p}" using uniform_again [OF fair [OF b(1)]] b(2) k by metis
  moreover have "{?a..<?a + records_count p} \<subseteq> {..L}" using inside by auto
  ultimately have "batch_returns e wk m ({..L} \<inter> range (gen_value e L kg))"
    by (rule batch_returns_again [OF kg m(1,2)]) (use m(3) in simp)
  moreover have "range (gen_value e L kg) \<subseteq> {?a..<?a + records_count p}"
    unfolding k gen_value_uniform b(2) [symmetric] using fair [OF b(1)] by (auto simp: uniform_fair_def)
  ultimately show ?thesis by (rule batch_returns_mono [OF _ le_infI2])
qed

text \<open>
  C37. A batch of reads at any point of the run of any thread of a validated workload that does not
  initialize, whatever the distribution of the keys, when the length drawn for the batch is not above the largest
  length of batches of reads. It returns with as many different keys of the database as its length says, if so many keys
  of the database come again and again in the draws of the key generator. It never
  returns if fewer different keys of the database than its length are ever drawn. In particular: with
  uniform keys that start at 0 it returns with keys of the thread's own part, given that every value of
  the distribution comes again and again; with uniform or zipfian keys whose first key is behind the
  number of records, a batch that is not empty never returns.
\<close>

theorem batch_read_returns:
  assumes valid: "validate_workload w n = Inr ()" and "i < n" and other: "\<not> initializes w"
    and new: "worker_new (split_workload_into_threads w n ! i) = Inr wk0"
    and run: "worker_run e f ks wk0 = Inr (calls, wk)"
    and m: "gen_next e 0 (wk_batch_read_gen wk) = (m, g)" "m \<le> batch_read_max_length w"
  shows "\<exists>kg. wk_key_gen wk = Some kg \<and>
    (let db = db_records_count w; drawn = gen_value e (db - 1) kg; part = split_workload_into_threads w n ! i
     in (\<forall>S \<subseteq> {..<db}. m \<le> card S \<and> (\<forall>x \<in> S. \<forall>k. \<exists>k' \<ge> k. drawn k' = x) \<longrightarrow>
           batch_returns e wk m ({..<db} \<inter> range drawn)) \<and>
        (card ({..<db} \<inter> range drawn) < m \<longrightarrow> (\<forall>fuel. do_batch_read e fuel wk = Inl OutOfFuel)) \<and>
        (key_dist w = uniform_k \<and> start_key w = 0 \<and> (\<forall>a b. a \<le> b \<longrightarrow> uniform_fair e a b) \<longrightarrow>
           batch_returns e wk m {start_key part..<start_key part + records_count part}) \<and>
        (db \<le> start_key w \<and> 0 < m \<and>
         (key_dist w = uniform_k \<and> (\<forall>a b. a \<le> b \<longrightarrow> uniform_fair e a b) \<or> key_dist w = zipfian_k) \<longrightarrow>
           (\<forall>fuel. do_batch_read e fuel wk = Inl OutOfFuel)))"
proof -
  let ?p = "thread_part w n i" and ?db = "db_records_count w"
  have w: "split_workload_into_threads w n ! i = ?p" using assms(2) by (simp add: split_workload_parts)
  note db = validate_lengths(2) [OF valid]
  from thread_worker_keys(2,3) [OF assms(2) db other new run] obtain kg g0 where
    kg: "wk_key_gen wk = Some kg" "counter_last (wk_upsert_gen wk) = ?db - 1" and
    g0: "gen_shape kg = gen_shape g0" "create_key_generator ?p (acked_new ?db) = Inr g0" by blast
  have below: "{..?db - 1} = {..<?db}" using db by auto
  have len: "m \<le> length (wk_keys wk)"
    using thread_worker(3) [OF assms(2) new run] elements_max_count_ge(2) [of w] m(2) by simp
  have "?db div n \<le> records_count ?p" by (simp add: thread_part_def share_def)
  then have count: "m \<le> records_count ?p" using m(2) validate_lengths(4) [OF valid] by simp
  have stuck: "\<forall>fuel. do_batch_read e fuel wk = Inl OutOfFuel"
    if "card ({..<?db} \<inter> range (gen_value e (?db - 1) kg)) < m"
    using batch_read_outcome [OF kg m(1) len] that unfolding below by (metis not_less)
  show ?thesis unfolding w Let_def
  proof (intro exI [of _ kg] conjI impI allI kg(1))
    fix S assume "S \<subseteq> {..<?db}" "m \<le> card S \<and> (\<forall>x \<in> S. \<forall>k. \<exists>k' \<ge> k. gen_value e (?db - 1) kg k' = x)"
    then show "batch_returns e wk m ({..<?db} \<inter> range (gen_value e (?db - 1) kg))"
      using batch_returns_again [OF kg m(1) len, of S] unfolding below again_def by blast
  next
    assume "key_dist w = uniform_k \<and> start_key w = 0 \<and> (\<forall>a b. a \<le> b \<longrightarrow> uniform_fair e a b)"
    then show "batch_returns e wk m {start_key ?p..<start_key ?p + records_count ?p}"
      using thread_part_end [OF assms(2), of w] db
      by (intro uniform_part_returns [OF g0 _ _ _ kg m(1) len count]) simp_all
  next
    fix fuel
    assume late: "?db \<le> start_key w \<and> 0 < m \<and>
         (key_dist w = uniform_k \<and> (\<forall>a b. a \<le> b \<longrightarrow> uniform_fair e a b) \<or> key_dist w = zipfian_k)"
    moreover have "start_key w \<le> start_key ?p" by (simp add: thread_part_def)
    ultimately have "?db \<le> gen_value e (?db - 1) kg j" for j
      using late_keys [OF g0, of e "?db - 1" j] count by simp
    then have "{..<?db} \<inter> range (gen_value e (?db - 1) kg) = {}" using leD by blast
    then show "do_batch_read e fuel wk = Inl OutOfFuel" using stuck late by simp
  next
    fix fuel
    assume "card ({..<?db} \<inter> range (gen_value e (?db - 1) kg)) < m"
    from stuck [OF this] show "do_batch_read e fuel wk = Inl OutOfFuel" by blast
  qed
qed

section \<open>Spans of values\<close>

lemma fill_bytes_fits:
  assumes "n \<le> length (wk_values wk)"
  obtains us m where "fill_bytes e 0 n wk = Inr (wk\<lparr>wk_values := us, wk_bytes_drawn := m\<rparr>)"
    "length us = length (wk_values wk)"
proof -
  from fill_bytes_ok [of 0 n wk e] assms obtain wk' where 1: "fill_bytes e 0 n wk = Inr wk'" by auto
  from fill_bytes_frame [OF this] show thesis using 1 that by blast
qed

text \<open>The generator of lengths yields at most \<open>V\<close>.\<close>

lemma value_length_bound:
  assumes "gen_shape g = ConstGen V \<or> gen_shape g = UniformGen 1 V 0" "gen_next e 0 g = (x, g')"
    and "\<And>k. uniform e 1 V k \<in> {1..V}"
  shows "x \<le> V" "gen_shape g' = gen_shape g"
proof -
  show "x \<le> V"
  proof (cases g)
    case (UniformGen a b k)
    then show ?thesis using assms(1,2) assms(3) [of k] by auto
  qed (use assms in auto)
qed (rule gen_shape_next [OF assms(2)])

lemma fill_sizes_ok:
  assumes "i + n \<le> length (wk_sizes wk)"
    and "gen_shape (wk_value_length_gen wk) = ConstGen V \<or> gen_shape (wk_value_length_gen wk) = UniformGen 1 V 0"
    and "\<And>k. uniform e 1 V k \<in> {1..V}"
  shows "\<exists>lens wk'. fill_sizes e i n acc wk = Inr (acc + sum_list lens, wk') \<and> length lens = n \<and>
    (\<forall>l \<in> set lens. l \<le> V) \<and> take (i + n) (wk_sizes wk') = take i (wk_sizes wk) @ lens \<and> wk_values wk' = wk_values wk"
  using assms(1,2)
proof (induction n arbitrary: i acc wk)
  case 0
  then show ?case by (intro exI [of _ "[]"] exI [of _ wk]) simp
next
  case (Suc n)
  obtain x g where g: "gen_next e 0 (wk_value_length_gen wk) = (x, g)" by fastforce
  note x = value_length_bound [OF Suc.prems(2) g assms(3)]
  let ?wk = "wk\<lparr>wk_sizes := (wk_sizes wk)[i := x], wk_value_length_gen := g\<rparr>"
  from Suc.IH [of "i + 1" ?wk "acc + x"] Suc.prems x(2) obtain lens wk' where
    ih: "fill_sizes e (i + 1) n (acc + x) ?wk = Inr (acc + x + sum_list lens, wk')" "length lens = n"
      "\<forall>l \<in> set lens. l \<le> V" "take (i + 1 + n) (wk_sizes wk') = take (i + 1) ((wk_sizes wk)[i := x]) @ lens"
      "wk_values wk' = wk_values wk" by auto
  have "take (i + 1) ((wk_sizes wk)[i := x]) = take i (wk_sizes wk) @ [x]"
    using Suc.prems(1) by (simp add: take_Suc_conv_app_nth)
  with ih x(1) Suc.prems(1) g show ?case by (intro exI [of _ "x # lens"] exI [of _ wk']) (simp add: ac_simps)
qed

lemma sum_list_bound: "\<forall>l \<in> set ls. l \<le> (V::nat) \<Longrightarrow> sum_list ls \<le> length ls * V"
  by (induction ls) auto

text \<open>Any number of values that the buffers were made for.\<close>

lemma generate_values_fit:
  assumes "n * V \<le> length (wk_values wk)" "n \<le> length (wk_sizes wk)" "value_length (wk_workload wk) = V"
    and "gen_shape (wk_value_length_gen wk) = ConstGen V \<or> gen_shape (wk_value_length_gen wk) = UniformGen 1 V 0"
    and "\<And>k. uniform e 1 V k \<in> {1..V}"
  shows "\<exists>vs sizes wk'. generate_values e n wk = Inr (vs, sizes, wk') \<and> length sizes = n \<and>
    length vs = sum_list sizes \<and> (\<forall>l \<in> set sizes. l \<le> V)"
proof -
  from fill_bytes_fits [OF assms(1)] obtain us m
    where 1: "fill_bytes e 0 (n * V) wk = Inr (wk\<lparr>wk_values := us, wk_bytes_drawn := m\<rparr>)" "length us = length (wk_values wk)" .
  let ?wk = "wk\<lparr>wk_values := us, wk_bytes_drawn := m\<rparr>"
  have "\<exists>lens wk'. fill_sizes e 0 n 0 ?wk = Inr (0 + sum_list lens, wk') \<and> length lens = n \<and>
    (\<forall>l \<in> set lens. l \<le> V) \<and> take (0 + n) (wk_sizes wk') = take 0 (wk_sizes ?wk) @ lens \<and> wk_values wk' = wk_values ?wk"
    by (rule fill_sizes_ok) (use assms(2,4,5) in simp_all)
  then obtain lens wk' where
    2: "fill_sizes e 0 n 0 ?wk = Inr (sum_list lens, wk')" "length lens = n"
      "\<forall>l \<in> set lens. l \<le> V" "take n (wk_sizes wk') = lens" "wk_values wk' = us" by (auto simp del: length_take)
  have "sum_list lens \<le> length us" using sum_list_bound [OF 2(3)] 2(2) 1(2) assms(1) by simp
  then show ?thesis using 1 2 assms(3) by (auto simp: generate_values_def)
qed

definition spans_agree :: "nat \<Rightarrow> nat \<Rightarrow> nat list \<Rightarrow> 8 word list \<Rightarrow> nat list \<Rightarrow> bool" where
  "spans_agree V m keys vs sizes \<longleftrightarrow>
     length keys = m \<and> length sizes = m \<and> length vs = sum_list sizes \<and> (\<forall>l \<in> set sizes. l \<le> V)"

lemma batch_spans:
  assumes "wk_ack_gen wk = None" "length (wk_keys wk) = N" "length (wk_sizes wk) = N" "length (wk_values wk) = N * V"
    and "value_length (wk_workload wk) = V"
    and "gen_shape (wk_value_length_gen wk) = ConstGen V \<or> gen_shape (wk_value_length_gen wk) = UniformGen 1 V 0"
    and "\<And>k. uniform e 1 V k \<in> {1..V}"
  shows "m \<le> N \<Longrightarrow> \<exists>wk1 vs sizes wk'. sequence_keys 0 m wk = Inr wk1 \<and>
      generate_values e m wk1 = Inr (vs, sizes, wk') \<and> spans_agree V m (take m (wk_keys wk1)) vs sizes"
    and "N < m \<Longrightarrow> sequence_keys 0 m wk = Inl Undefined"
proof -
  assume fits: "m \<le> N"
  obtain wk1 where seq: "sequence_keys 0 m wk = Inr wk1"
    using sequence_keys_run [OF assms(1), of 0 m] fits assms(2) by auto
  note same = sequence_keys_same [OF seq assms(1), unfolded same_worker_def]
  have "\<exists>vs sizes wk'. generate_values e m wk1 = Inr (vs, sizes, wk') \<and> length sizes = m \<and>
      length vs = sum_list sizes \<and> (\<forall>l \<in> set sizes. l \<le> V)"
    by (rule generate_values_fit) (use same fits assms in simp_all)
  with seq show "\<exists>wk1 vs sizes wk'. sequence_keys 0 m wk = Inr wk1 \<and>
      generate_values e m wk1 = Inr (vs, sizes, wk') \<and> spans_agree V m (take m (wk_keys wk1)) vs sizes"
    using same assms(2) fits by (auto simp: spans_agree_def)
qed (use assms(2) sequence_keys_run [OF assms(1), of 0 m] in auto)

lemma range_select_span:
  assumes "do_range_select e fuel wk = Inr ([RangeSelect key l buf], wk')"
  shows "buf = l * value_length (wk_workload wk) \<and> length (wk_values wk') = length (wk_values wk)"
proof -
  from assms obtain key1 wk1 where k: "generate_key e fuel wk = Inr (key1, wk1)"
    by (auto simp: do_range_select_def)
  obtain n g where "gen_next e 0 (wk_range_select_gen wk1) = (n, g)" by fastforce
  with assms k have 1: "generate_key e fuel wk = Inr (key, wk1)" "buf = l * value_length (wk_workload wk1)"
      "wk_values wk' = wk_values wk1"
    by (auto simp: do_range_select_def Let_def values_buffer_def)
  from generate_key_same [OF 1(1)] 1(2,3) show ?thesis by (simp add: same_worker_def)
qed

text \<open>
  C38. The spans that a worker hands out, at any point of the run of any thread of a validated
  workload, given that the uniform distributions stay in their ranges. A batch of upserts and a bulk load
  whose length is not above the largest length of its kind return: as many keys and sizes as the length,
  each size at most the length of a value, and the span of values as long as the sizes say. They
  write past the buffer of keys when their length is above the largest length of all batches. A batch of
  reads of a worker that does not initialize, if it comes to an end, hands out a span of values for
  all its keys that is within the buffer. Uniform lengths are in the range of the workload. The span of
  a range select is within the buffer of values just if the length is not above the largest length of the
  three kinds of batches: the buffer is not made for range selects.
\<close>

theorem worker_spans:
  assumes valid: "validate_workload w n = Inr ()" and "i < n" "value_length w > 0"
    and range: "\<And>a b k. a \<le> b \<Longrightarrow> uniform e a b k \<in> {a..b}"
    and new: "worker_new (split_workload_into_threads w n ! i) = Inr wk0"
    and run: "worker_run e f ks wk0 = Inr (calls, wk)"
  shows "(\<forall>m g. gen_next e 0 (wk_batch_upsert_gen wk) = (m, g) \<longrightarrow>
      (m \<le> batch_upsert_max_length w \<longrightarrow> (\<exists>keys vs sizes wk'.
         do_batch_upsert e wk = Inr ([BatchUpsert keys vs sizes], wk') \<and> spans_agree (value_length w) m keys vs sizes)) \<and>
      (elements_max_count w < m \<longrightarrow> do_batch_upsert e wk = Inl Undefined) \<and>
      (batch_upsert_length_dist w = uniform_k \<longrightarrow> m \<in> {batch_upsert_min_length w..batch_upsert_max_length w})) \<and>
    (\<forall>m g. gen_next e 0 (wk_bulk_load_gen wk) = (m, g) \<longrightarrow>
      (m \<le> bulk_load_max_length w \<longrightarrow> (\<exists>keys vs sizes wk'.
         do_bulk_load e wk = Inr ([BulkLoad keys vs sizes], wk') \<and> spans_agree (value_length w) m keys vs sizes)) \<and>
      (elements_max_count w < m \<longrightarrow> do_bulk_load e wk = Inl Undefined) \<and>
      (bulk_load_length_dist w = uniform_k \<longrightarrow> m \<in> {bulk_load_min_length w..bulk_load_max_length w})) \<and>
    (\<forall>m g fuel. gen_next e 0 (wk_batch_read_gen wk) = (m, g) \<longrightarrow>
      (\<not> initializes w \<and> m \<le> batch_read_max_length w \<longrightarrow> do_batch_read e fuel wk = Inl OutOfFuel \<or>
         (\<exists>keys buf wk'. do_batch_read e fuel wk = Inr ([BatchRead keys buf], wk') \<and> length keys = m \<and>
            buf = m * value_length w \<and> buf \<le> length (wk_values wk'))) \<and>
      (batch_read_length_dist w = uniform_k \<longrightarrow> m \<in> {batch_read_min_length w..batch_read_max_length w})) \<and>
    (\<forall>fuel key l buf wk'. do_range_select e fuel wk = Inr ([RangeSelect key l buf], wk') \<longrightarrow>
      (buf \<le> length (wk_values wk') \<longleftrightarrow> l \<le> elements_max_count w))"
proof -
  note tw = thread_worker [OF assms(2) new run]
  note max = elements_max_count_ge [of w]
  have vals: "uniform e 1 (value_length w) k \<in> {1..value_length w}" for k using range assms(3) by simp
  have upsert: "(m \<le> batch_upsert_max_length w \<longrightarrow> (\<exists>keys vs sizes wk'.
         do_batch_upsert e wk = Inr ([BatchUpsert keys vs sizes], wk') \<and> spans_agree (value_length w) m keys vs sizes)) \<and>
      (elements_max_count w < m \<longrightarrow> do_batch_upsert e wk = Inl Undefined) \<and>
      (batch_upsert_length_dist w = uniform_k \<longrightarrow> m \<in> {batch_upsert_min_length w..batch_upsert_max_length w})"
    if m: "gen_next e 0 (wk_batch_upsert_gen wk) = (m, g)" for m g
  proof -
    note bs = batch_spans [of "wk\<lparr>wk_batch_upsert_gen := g\<rparr>" "elements_max_count w" "value_length w" e m]
    show ?thesis
    proof (intro conjI impI)
      assume "m \<le> batch_upsert_max_length w"
      with bs(1) tw vals max(1) m show "\<exists>keys vs sizes wk'.
         do_batch_upsert e wk = Inr ([BatchUpsert keys vs sizes], wk') \<and> spans_agree (value_length w) m keys vs sizes"
        by (fastforce simp: do_batch_upsert_def generate_keys_defs)
    next
      assume "elements_max_count w < m"
      with bs(2) tw vals m show "do_batch_upsert e wk = Inl Undefined"
        by (simp add: do_batch_upsert_def generate_keys_defs)
    next
      assume "batch_upsert_length_dist w = uniform_k"
      from tw(7) [OF this] m show "m \<in> {batch_upsert_min_length w..batch_upsert_max_length w}"
        using range [OF validate_lengths(5) [OF valid]] by auto
    qed
  qed
  have load: "(m \<le> bulk_load_max_length w \<longrightarrow> (\<exists>keys vs sizes wk'.
         do_bulk_load e wk = Inr ([BulkLoad keys vs sizes], wk') \<and> spans_agree (value_length w) m keys vs sizes)) \<and>
      (elements_max_count w < m \<longrightarrow> do_bulk_load e wk = Inl Undefined) \<and>
      (bulk_load_length_dist w = uniform_k \<longrightarrow> m \<in> {bulk_load_min_length w..bulk_load_max_length w})"
    if m: "gen_next e 0 (wk_bulk_load_gen wk) = (m, g)" for m g
  proof -
    note bs = batch_spans [of "wk\<lparr>wk_bulk_load_gen := g\<rparr>" "elements_max_count w" "value_length w" e m]
    show ?thesis
    proof (intro conjI impI)
      assume "m \<le> bulk_load_max_length w"
      with bs(1) tw vals max(3) m show "\<exists>keys vs sizes wk'.
         do_bulk_load e wk = Inr ([BulkLoad keys vs sizes], wk') \<and> spans_agree (value_length w) m keys vs sizes"
        by (fastforce simp: do_bulk_load_def generate_keys_defs)
    next
      assume "elements_max_count w < m"
      with bs(2) tw vals m show "do_bulk_load e wk = Inl Undefined"
        by (simp add: do_bulk_load_def generate_keys_defs)
    next
      assume "bulk_load_length_dist w = uniform_k"
      from tw(9) [OF this] m show "m \<in> {bulk_load_min_length w..bulk_load_max_length w}"
        using range [OF validate_lengths(7) [OF valid]] by auto
    qed
  qed
  have read: "(\<not> initializes w \<and> m \<le> batch_read_max_length w \<longrightarrow> do_batch_read e fuel wk = Inl OutOfFuel \<or>
         (\<exists>keys buf wk'. do_batch_read e fuel wk = Inr ([BatchRead keys buf], wk') \<and> length keys = m \<and>
            buf = m * value_length w \<and> buf \<le> length (wk_values wk'))) \<and>
      (batch_read_length_dist w = uniform_k \<longrightarrow> m \<in> {batch_read_min_length w..batch_read_max_length w})"
    if m: "gen_next e 0 (wk_batch_read_gen wk) = (m, g)" for m g fuel
  proof (intro conjI impI)
    assume a: "\<not> initializes w \<and> m \<le> batch_read_max_length w"
    from thread_worker_keys(2,3) [OF assms(2) validate_lengths(2) [OF valid] _ new run] a obtain kg where
      kg: "wk_key_gen wk = Some kg" "counter_last (wk_upsert_gen wk) = db_records_count w - 1" by blast
    have fits: "m \<le> elements_max_count w" using a max(2) by simp
    then have buf: "m * value_length w \<le> length (wk_values wk)" using tw(5) by simp
    have "m \<le> length (wk_keys wk)" using fits tw(3) by simp
    from batch_read_outcome [OF kg m this, of fuel] consider "do_batch_read e fuel wk = Inl OutOfFuel" |
      wk' where "unique_keys_loop e fuel fuel m {} 0 (wk\<lparr>wk_batch_read_gen := g\<rparr>) = Inr wk'" by blast
    then show "do_batch_read e fuel wk = Inl OutOfFuel \<or>
         (\<exists>keys buf wk'. do_batch_read e fuel wk = Inr ([BatchRead keys buf], wk') \<and> length keys = m \<and>
            buf = m * value_length w \<and> buf \<le> length (wk_values wk'))"
    proof cases
      case 2
      from batch_read_result [OF kg m 2] buf tw(2) show ?thesis by (intro disjI2) auto
    qed simp
  next
    assume "batch_read_length_dist w = uniform_k"
    from tw(8) [OF this] m show "m \<in> {batch_read_min_length w..batch_read_max_length w}"
      using range [OF validate_lengths(3) [OF valid]] by auto
  qed
  have select: "buf \<le> length (wk_values wk') \<longleftrightarrow> l \<le> elements_max_count w"
    if "do_range_select e fuel wk = Inr ([RangeSelect key l buf], wk')" for fuel key l buf wk'
    using range_select_span [OF that] tw(2,5) assms(3) by simp
  show ?thesis by (intro conjI [OF _ conjI [OF _ conjI]] allI impI; rule upsert load read select; assumption)
qed

section \<open>An example\<close>

text \<open>Uniform distributions that go round, and a workload of which no operation is an initialization.\<close>

definition round_env :: env where
  "round_env = \<lparr>uniform = (\<lambda>a b k. a + k mod (b + 1 - a)), zipf = (\<lambda>a b k. a), latest = (\<lambda>k m. 0), rand = (\<lambda>k. 0)\<rparr>"

lemma round_env_fair: "a \<le> b \<Longrightarrow> uniform_fair round_env a b"
proof -
  assume ab: "a \<le> b"
  define d where "d = b + 1 - a"
  have d: "d > 0" "Suc b - a = d" using ab by (simp_all add: d_def)
  have "k mod d \<le> b - a" for k
  proof -
    have "k mod d < d" using d(1) by (rule mod_less_divisor)
    then show ?thesis using d_def ab by linarith
  qed
  moreover have "\<exists>k' \<ge> k. a + k' mod d = x" if "x \<in> {a..b}" for x k
  proof -
    have "x - a < d" using that by (auto simp: d_def)
    then have "(k * d + (x - a)) mod d = x - a" by simp
    moreover have "k \<le> k * d + (x - a)" using d by (simp add: trans_le_add1)
    ultimately have "k \<le> k * d + (x - a) \<and> a + (k * d + (x - a)) mod d = a + (x - a)" by simp
    then show ?thesis using that by (metis atLeastAtMost_iff le_add_diff_inverse)
  qed
  ultimately have "uniform_fair \<lparr>uniform = (\<lambda>a b k. a + k mod (b + 1 - a)), zipf = z, latest = l, rand = r\<rparr> a b" for z l r
    using ab by (auto simp: uniform_fair_def d(2) le_diff_conv2 add.commute)
  then show ?thesis by (simp add: round_env_def)
qed

definition mixed_workload :: "nat \<Rightarrow> workload" where
  "mixed_workload start = demo_workload\<lparr>upsert_proportion := 0, read_proportion := 1, start_key := start, value_length := 1\<rparr>"

lemma mixed_valid: "validate_workload (mixed_workload start) 2 = Inr ()"
  by (simp add: validate_workload_def mixed_workload_def demo_workload_def check_def)

lemma mixed_new: "\<exists>wk. worker_new (split_workload_into_threads (mixed_workload start) 2 ! 1) = Inr wk"
  by (simp add: split_workload_parts thread_part_def mixed_workload_def demo_workload_def worker_new_def
      create_key_generator_def create_value_length_generator_def create_length_generator_def create_length_generator_defs)

lemma mixed_other [simp]:
  "\<not> initializes (mixed_workload start)" "key_dist (mixed_workload start) = uniform_k"
  "batch_read_length_dist (mixed_workload start) = uniform_k" "batch_upsert_length_dist (mixed_workload start) = uniform_k"
  "db_records_count (mixed_workload start) = 10" "start_key (mixed_workload start) = start"
  "batch_read_min_length (mixed_workload start) = 1" "value_length (mixed_workload start) = 1"
  "batch_read_max_length (mixed_workload start) = 2" "batch_upsert_max_length (mixed_workload start) = 2"
  "bulk_load_max_length (mixed_workload start) = 2"
  by (simp_all add: mixed_workload_def demo_workload_def initializes_def)

text \<open>The first batches of a new worker of the example have two keys.\<close>

lemma mixed_batches:
  assumes "worker_new (split_workload_into_threads (mixed_workload start) 2 ! 1) = Inr wk"
  shows "\<exists>g. gen_next round_env 0 (wk_batch_read_gen wk) = (2, g)" "\<exists>g. gen_next round_env 0 (wk_batch_upsert_gen wk) = (2, g)"
    "\<exists>g. gen_next round_env 0 (wk_bulk_load_gen wk) = (2, g)"
  using assms
  by (auto simp: split_workload_parts thread_part_def mixed_workload_def demo_workload_def worker_new_def
      create_key_generator_def create_value_length_generator_def create_length_generator_def create_length_generator_defs
      uniform_new_def round_env_def)

theorem batch_read_returns_witness:
  "(\<exists>wk fuel keys l wk'. worker_new (split_workload_into_threads (mixed_workload 0) 2 ! 1) = Inr wk \<and>
     do_batch_read round_env fuel wk = Inr ([BatchRead keys l], wk') \<and> length keys = 2 \<and> set keys \<subseteq> {5..<10}) \<and>
   (\<exists>wk. worker_new (split_workload_into_threads (mixed_workload 10) 2 ! 1) = Inr wk \<and>
     (\<forall>fuel. do_batch_read round_env fuel wk = Inl OutOfFuel))"
proof (intro conjI)
  from mixed_new obtain wk where wk: "worker_new (split_workload_into_threads (mixed_workload 0) 2 ! 1) = Inr wk" by blast
  from mixed_batches(1) [OF wk] obtain g where g: "gen_next round_env 0 (wk_batch_read_gen wk) = (2, g)" by blast
  have part: "start_key (split_workload_into_threads (mixed_workload 0) 2 ! 1) = 5"
    "records_count (split_workload_into_threads (mixed_workload 0) 2 ! 1) = 5"
    by (simp_all add: split_workload_parts thread_part_def share_def mixed_workload_def demo_workload_def)
  have "\<forall>a b. a \<le> b \<longrightarrow> uniform_fair round_env a b" using round_env_fair by blast
  with batch_read_returns [OF mixed_valid _ _ wk _ g, where ks = "[]" and f = 0 and calls = "[]"] part
  have "batch_returns round_env wk 2 {5..<10}" by (auto simp: Let_def)
  then obtain F where "\<forall>fuel \<ge> F. \<exists>keys l wk'. do_batch_read round_env fuel wk = Inr ([BatchRead keys l], wk') \<and>
      length keys = 2 \<and> distinct keys \<and> set keys \<subseteq> {5..<10}" by (auto simp: batch_returns_def)
  then show "\<exists>wk fuel keys l wk'. worker_new (split_workload_into_threads (mixed_workload 0) 2 ! 1) = Inr wk \<and>
     do_batch_read round_env fuel wk = Inr ([BatchRead keys l], wk') \<and> length keys = 2 \<and> set keys \<subseteq> {5..<10}"
    using wk by blast
next
  from mixed_new obtain wk where wk: "worker_new (split_workload_into_threads (mixed_workload 10) 2 ! 1) = Inr wk" by blast
  from mixed_batches(1) [OF wk] obtain g where g: "gen_next round_env 0 (wk_batch_read_gen wk) = (2, g)" by blast
  have "\<forall>a b. a \<le> b \<longrightarrow> uniform_fair round_env a b" using round_env_fair by blast
  with batch_read_returns [OF mixed_valid _ _ wk _ g, where ks = "[]" and f = 0 and calls = "[]"]
  have "\<forall>fuel. do_batch_read round_env fuel wk = Inl OutOfFuel" by (auto simp: Let_def)
  then show "\<exists>wk. worker_new (split_workload_into_threads (mixed_workload 10) 2 ! 1) = Inr wk \<and>
     (\<forall>fuel. do_batch_read round_env fuel wk = Inl OutOfFuel)" using wk by auto
qed

theorem worker_spans_witness:
  "\<exists>wk keys vs sizes wk1 keys' vs' sizes' wk2.
     worker_new (split_workload_into_threads (mixed_workload 0) 2 ! 1) = Inr wk \<and>
     do_batch_upsert round_env wk = Inr ([BatchUpsert keys vs sizes], wk1) \<and> spans_agree 1 2 keys vs sizes \<and>
     do_bulk_load round_env wk = Inr ([BulkLoad keys' vs' sizes'], wk2) \<and> spans_agree 1 2 keys' vs' sizes'"
proof -
  from mixed_new obtain wk where wk: "worker_new (split_workload_into_threads (mixed_workload 0) 2 ! 1) = Inr wk" by blast
  have range: "uniform round_env a b k \<in> {a..b}" if "a \<le> b" for a b k
    using round_env_fair [OF that] by (simp add: uniform_fair_def)
  note spans = worker_spans [OF mixed_valid _ _ range wk, where ks = "[]" and f = 0 and calls = "[]" and wk = wk]
  from spans mixed_batches(2) [OF wk] have "\<exists>keys vs sizes wk1.
      do_batch_upsert round_env wk = Inr ([BatchUpsert keys vs sizes], wk1) \<and> spans_agree 1 2 keys vs sizes" by auto
  moreover from spans mixed_batches(3) [OF wk] have "\<exists>keys vs sizes wk1.
      do_bulk_load round_env wk = Inr ([BulkLoad keys vs sizes], wk1) \<and> spans_agree 1 2 keys vs sizes" by auto
  ultimately show ?thesis using wk by blast
qed

theorem worker_keys_witness:
  "\<exists>wk calls wk'. worker_new (split_workload_into_threads (mixed_workload 0) 2 ! 1) = Inr wk \<and>
     worker_run round_env 1 [upsert_k, read_k, scan_k] wk = Inr (calls, wk') \<and>
     concat (map new_keys calls) = [10] \<and> calls ! 2 = Scan 5 5 1 \<and> counter_last (wk_upsert_gen wk') = 9"
proof -
  let ?w = "split_workload_into_threads (mixed_workload 0) 2 ! 1"
  have two: "replicate 2 x = [x, x]" for x :: 'a by (simp add: numeral_2_eq_2)
  have "\<exists>wk calls wk'. worker_new ?w = Inr wk \<and> worker_run round_env 1 [upsert_k, read_k, scan_k] wk = Inr (calls, wk') \<and>
      length calls = 3 \<and> (\<exists>k l. calls ! 2 = Scan k l 1) \<and> length (concat (map new_keys calls)) = 1"
    by (simp add: split_workload_parts thread_part_def mixed_workload_def demo_workload_def worker_new_def
      create_key_generator_def create_value_length_generator_def create_length_generator_def create_length_generator_defs share_def
      run_operation_def do_upsert_def do_read_def do_scan_def acked_new_def minus_one_def generate_value_def generate_values_def
      acknowledge_key_def elements_max_count_def round_env_def uniform_new_def two put_def values_buffer_def Let_def)
  then obtain wk calls wk' k l where 1: "worker_new ?w = Inr wk"
      "worker_run round_env 1 [upsert_k, read_k, scan_k] wk = Inr (calls, wk')" "length calls = 3" "calls ! 2 = Scan k l 1"
      "length (concat (map new_keys calls)) = 1" by blast
  have part: "start_key ?w = 5" "records_count ?w = 5"
    by (simp_all add: split_workload_parts thread_part_def share_def mixed_workload_def demo_workload_def)
  have n: "(1::nat) < 2" "0 < db_records_count (mixed_workload 0)" by simp_all
  note keys = worker_keys [OF n 1(1,2), unfolded Let_def]
  have facts: "Scan k l 1 \<in> set calls \<longrightarrow> k = start_key ?w \<and> l = records_count ?w" "Scan k l 1 \<in> set calls"
    using conjunct1 [OF conjunct2 [OF conjunct2 [OF keys]]] nth_mem [of 2 calls] unfolding 1(3,4) by (blast, simp)
  have "counter_last (wk_upsert_gen wk') = 9" "\<exists>c. concat (map new_keys calls) = [10..<c]"
    using conjunct1 [OF keys] conjunct2 [OF conjunct2 [OF conjunct2 [OF keys]]] by simp_all
  moreover have "k = 5 \<and> l = 5" using facts part by simp
  ultimately obtain c where c: "k = 5" "l = 5" "concat (map new_keys calls) = [10..<c]" "counter_last (wk_upsert_gen wk') = 9" by blast
  then have "c = 11" using 1(5) by simp
  then show ?thesis using 1 c by (intro exI [of _ wk] exI [of _ calls] exI [of _ wk']) (simp add: upt_rec)
qed

end
