(* ===== verification/UcsbBench.thy ===== *)
theory UcsbBench
  imports Ucsb UcsbSpans
begin

text \<open>
  The benchmark from the worker to the tree: the calls of a worker reach the adapter of the B+-tree.
  Which records there are after several threads have loaded a database.
\<close>

section \<open>Calls\<close>

text \<open>A call of the database. The memory of a span for values that are read starts with zeros.\<close>

fun serve ::
  "(64 word \<Rightarrow> value_array \<Rightarrow> 't \<Rightarrow> 't result) \<Rightarrow> (64 word \<Rightarrow> value_array \<Rightarrow> 't \<Rightarrow> 't result) \<Rightarrow>
   (64 word \<Rightarrow> 't \<Rightarrow> 't result) \<Rightarrow> (64 word \<Rightarrow> 't \<Rightarrow> (value_array option \<times> 't) result) \<Rightarrow>
   db_call \<Rightarrow> 't adapter \<Rightarrow> (operation_result \<times> 't adapter) result" where
  "serve insertOp updateOp eraseOp findOp (Upsert k v) a = ad_upsert insertOp (of_nat k) v a"
| "serve insertOp updateOp eraseOp findOp (Update k v) a = ad_update updateOp (of_nat k) v a"
| "serve insertOp updateOp eraseOp findOp (Remove k) a = ad_remove eraseOp (of_nat k) a"
| "serve insertOp updateOp eraseOp findOp (Read k n) a =
     bindE (ad_read findOp (of_nat k) (replicate n 0) a) (\<lambda>(r, out, a'). Inr (r, a'))"
| "serve insertOp updateOp eraseOp findOp (BatchUpsert ks vs sizes) a = Inr (ad_batch_upsert ks vs sizes, a)"
| "serve insertOp updateOp eraseOp findOp (BatchRead ks n) a = Inr (ad_batch_read ks (replicate n 0), a)"
| "serve insertOp updateOp eraseOp findOp (BulkLoad ks vs sizes) a = ad_bulk_load insertOp (map of_nat ks) vs sizes a"
| "serve insertOp updateOp eraseOp findOp (RangeSelect k l n) a = Inr (ad_range_select k l (replicate n 0), a)"
| "serve insertOp updateOp eraseOp findOp (Scan k l n) a = Inr (ad_scan k l (replicate n 0), a)"

fun serve_all :: "(db_call \<Rightarrow> 'a \<Rightarrow> (operation_result \<times> 'a) result) \<Rightarrow> db_call list \<Rightarrow> 'a \<Rightarrow> (operation_result list \<times> 'a) result" where
  "serve_all srv [] a = Inr ([], a)"
| "serve_all srv (call # calls) a =
     bindE (srv call a) (\<lambda>(r, a1). bindE (serve_all srv calls a1) (\<lambda>(rs, a2). Inr (r # rs, a2)))"

section \<open>A store that serves the calls\<close>

text \<open>Calls on values of the right size, with the keys that are read at most \<open>m\<close>.\<close>

fun call_fits :: "nat \<Rightarrow> db_call \<Rightarrow> bool" where
  "call_fits m (Upsert k v) = (length v = VALUE_SIZE_BYTES)"
| "call_fits m (Update k v) = (length v = VALUE_SIZE_BYTES)"
| "call_fits m (Read k n) = (k \<le> m \<and> n = VALUE_SIZE_BYTES)"
| "call_fits m _ = False"

locale bench_store = ucsb_store inv content ins upd era fnd
  for inv :: "'s \<Rightarrow> bool" and content :: "'s \<Rightarrow> (64 word \<rightharpoonup> value_array)"
    and ins :: "64 word \<Rightarrow> value_array \<Rightarrow> 's \<Rightarrow> 's result" and upd :: "64 word \<Rightarrow> value_array \<Rightarrow> 's \<Rightarrow> 's result"
    and era :: "64 word \<Rightarrow> 's \<Rightarrow> 's result" and fnd :: "64 word \<Rightarrow> 's \<Rightarrow> (value_array option \<times> 's) result"
begin

lemma serve_fits:
  assumes "db a = Some t" "inv t" "call_fits m call" "\<forall>k \<in> set (old_keys call). content t (of_nat k) \<noteq> None"
  shows "\<exists>t'. serve ins upd era fnd call a = Inr ((1, ok_k), a\<lparr>db := Some t'\<rparr>) \<and> inv t' \<and>
    dom (content t') = dom (content t) \<union> of_nat ` set (new_keys call)"
proof (cases call)
  case (Upsert k v)
  with upsert_run [OF assms(1,2), of v "of_nat k"] assms(3) show ?thesis by auto
next
  case (Update k v)
  with update_run [OF assms(1,2), of v "of_nat k"] assms(3,4) obtain t' where
    t': "ad_update upd (of_nat k) v a = Inr ((1, ok_k), a\<lparr>db := Some t'\<rparr>)" "inv t'"
      "content t' = (content t)(of_nat k \<mapsto> Bytes v)" by auto
  have "dom (content t') = dom (content t)" using assms(4) Update by (auto simp: t'(3))
  then show ?thesis using t'(1,2) Update by (intro exI [of _ t']) simp
next
  case (Read k n)
  with read_run [OF assms(1,2), of "replicate n 0" "of_nat k"] assms(3,4) show ?thesis by auto
qed (use assms(3) in auto)

lemma serve_all_fit:
  assumes "db a = Some t" "inv t" "\<forall>call \<in> set calls. call_fits m call \<and> set (old_keys call) \<subseteq> K"
    and "\<forall>k \<in> K. content t (of_nat k) \<noteq> None"
  shows "\<exists>t'. serve_all (serve ins upd era fnd) calls a = Inr (replicate (length calls) (1, ok_k), a\<lparr>db := Some t'\<rparr>) \<and>
    inv t' \<and> dom (content t') = dom (content t) \<union> of_nat ` set (concat (map new_keys calls))"
  using assms
proof (induction calls arbitrary: a t)
  case Nil
  then have "a\<lparr>db := Some t\<rparr> = a" by simp
  then show ?case using Nil by (intro exI [of _ t]) simp
next
  case (Cons call calls)
  have "\<forall>k \<in> set (old_keys call). content t (of_nat k) \<noteq> None" "call_fits m call" using Cons.prems(3,4) by auto
  from serve_fits [OF Cons.prems(1,2) this(2,1)] obtain t1 where
    t1: "serve ins upd era fnd call a = Inr ((1, ok_k), a\<lparr>db := Some t1\<rparr>)" "inv t1"
      "dom (content t1) = dom (content t) \<union> of_nat ` set (new_keys call)" by blast
  have "\<forall>k \<in> K. content t1 (of_nat k) \<noteq> None" using Cons.prems(4) t1(3) by blast
  with Cons.IH [of "a\<lparr>db := Some t1\<rparr>" t1] t1(2) Cons.prems(3) obtain t2 where
    t2: "serve_all (serve ins upd era fnd) calls (a\<lparr>db := Some t1\<rparr>) =
        Inr (replicate (length calls) (1, ok_k), a\<lparr>db := Some t2\<rparr>)" "inv t2"
      "dom (content t2) = dom (content t1) \<union> of_nat ` set (concat (map new_keys calls))" by auto
  then show ?case using t1 by (intro exI [of _ t2]) auto
qed

end

text \<open>The operations of a tree that serve the calls of the benchmark.\<close>

abbreviation bt_serve ::
  "(64 word, value_array) bconfig \<Rightarrow> db_call \<Rightarrow> btree_t \<Rightarrow> (operation_result \<times> btree_t) result" where
  "bt_serve C \<equiv> serve (\<lambda>k v t. bt_insert C (bt_fuel t) k v t) (\<lambda>k v t. bt_update C (bt_fuel t) k v t)
     (\<lambda>k t. bt_erase C (bt_fuel t) k t) (\<lambda>k t. bt_find C (bt_fuel t) k t)"

interpretation bench_btree: bench_store "\<lambda>t. bt_config C \<and> bt_inv C t" bt_map
  "\<lambda>k v t. bt_insert C (bt_fuel t) k v t" "\<lambda>k v t. bt_update C (bt_fuel t) k v t"
  "\<lambda>k t. bt_erase C (bt_fuel t) k t" "\<lambda>k t. bt_find C (bt_fuel t) k t"
  for C :: "(64 word, value_array) bconfig"
  by unfold_locales

section \<open>Single operations\<close>

text \<open>Workers whose values have a fixed length.\<close>

definition fixed_values :: "nat \<Rightarrow> worker \<Rightarrow> bool" where
  "fixed_values V wk \<longleftrightarrow> value_length (wk_workload wk) = V \<and> wk_value_length_gen wk = ConstGen V \<and>
     V \<le> length (wk_values wk) \<and> 0 < length (wk_sizes wk) \<and> wk_ack_gen wk = None"

lemma shape_const: "gen_shape g = ConstGen V \<longleftrightarrow> g = ConstGen V"
  by (cases g) auto

lemma fixed_values_same: "same_worker wk wk' \<Longrightarrow> fixed_values V wk \<Longrightarrow> fixed_values V wk'"
  by (auto simp: same_worker_def fixed_values_def shape_const)

lemma fixed_values_new:
  assumes "worker_new w = Inr wk" "value_length_dist w = const_k"
  shows "fixed_values (value_length w) wk"
proof -
  have "1 \<le> elements_max_count w" by (auto simp: elements_max_count_def intro!: Max_ge)
  then show ?thesis
    using worker_new_shape(1,2,4-6) [OF assms(1)] assms(2)
    by (simp add: fixed_values_def create_value_length_generator_def)
qed

lemma generate_value_fixed:
  assumes "fixed_values V wk"
  shows "\<exists>v wk'. generate_value e wk = Inr (v, wk') \<and> length v = V"
proof -
  note wk = assms [unfolded fixed_values_def]
  then have "V \<le> length (wk_values wk)" by blast
  from fill_bytes_fits [OF this] obtain us m
    where 1: "fill_bytes e 0 V wk = Inr (wk\<lparr>wk_values := us, wk_bytes_drawn := m\<rparr>)" "length us = length (wk_values wk)"
    by blast
  obtain z zs where z: "wk_sizes wk = z # zs" using wk by (cases "wk_sizes wk") auto
  show ?thesis using 1 wk z by (simp add: generate_value_def generate_values_def One_nat_def)
qed

lemma upsert_op:
  assumes "fixed_values V wk"
  shows "\<exists>v wk'. run_operation e fuel upsert_k wk = Inr ([Upsert (counter_at (wk_upsert_gen wk)) v], wk') \<and>
    length v = V \<and> wk_upsert_gen wk' = counter_set (counter_at (wk_upsert_gen wk) + 1) (wk_upsert_gen wk)"
proof -
  let ?c = "counter_at (wk_upsert_gen wk)"
  let ?wk = "wk\<lparr>wk_upsert_gen := counter_set (?c + 1) (wk_upsert_gen wk)\<rparr>"
  have "fixed_values V ?wk" using assms by (simp add: fixed_values_def)
  from generate_value_fixed [OF this] obtain v wk' where v: "generate_value e ?wk = Inr (v, wk')" "length v = V" by blast
  from generate_value_gens [OF v(1)] assms show ?thesis
    using v by (auto simp: run_operation_def do_upsert_def counter_next_eq acknowledge_key_def fixed_values_def)
qed

section \<open>Loading\<close>

text \<open>A thread that only upserts makes the keys from its counter on.\<close>

lemma load_run:
  assumes "fixed_values VALUE_SIZE_BYTES wk"
  shows "\<exists>calls wk'. worker_run e fuel (replicate n upsert_k) wk = Inr (calls, wk') \<and> length calls = n \<and>
    (\<forall>call \<in> set calls. call_fits m call \<and> old_keys call = []) \<and>
    concat (map new_keys calls) = [counter_at (wk_upsert_gen wk)..<counter_at (wk_upsert_gen wk) + n]"
  using assms
proof (induction n arbitrary: wk)
  case (Suc n)
  let ?c = "counter_at (wk_upsert_gen wk)"
  from upsert_op [OF Suc.prems] obtain v wk1 where
    1: "run_operation e fuel upsert_k wk = Inr ([Upsert ?c v], wk1)" "length v = VALUE_SIZE_BYTES"
      "wk_upsert_gen wk1 = counter_set (?c + 1) (wk_upsert_gen wk)" by blast
  have "fixed_values VALUE_SIZE_BYTES wk1"
    by (rule fixed_values_same [OF run_operation_same [OF 1(1)] Suc.prems]) (use Suc.prems in \<open>simp add: fixed_values_def\<close>)
  from Suc.IH [OF this] obtain calls wk' where
    2: "worker_run e fuel (replicate n upsert_k) wk1 = Inr (calls, wk')" "length calls = n"
      "\<forall>call \<in> set calls. call_fits m call \<and> old_keys call = []"
      "concat (map new_keys calls) = [?c + 1..<?c + 1 + n]" by (auto simp: 1(3))
  have "[?c..<?c + Suc n] = ?c # [?c + 1..<?c + 1 + n]" by (simp add: upt_conv_Cons)
  with 1 2 show ?case by (intro exI [of _ "Upsert ?c v # calls"] exI [of _ wk']) simp
qed simp

lemma init_worker:
  assumes "worker_new w = Inr wk" "upsert_proportion w = 1"
  shows "wk_upsert_gen wk = Counter (start_key w)"
  using assms by (auto simp: worker_new_def)

text \<open>Which keys the ranges of the threads have, when there are at least as many records as threads.\<close>

lemma ranges_cover:
  assumes "0 < n" "n \<le> db_records_count w"
  shows "(\<forall>k \<in> {start_key w..<start_key w + db_records_count w}. \<exists>i < n. k \<in> {start_key (thread_part w n i)..<
      start_key (thread_part w n i) + share (db_records_count w) n i}) \<longleftrightarrow>
    db_records_count w mod n = 0 \<or> db_records_count w mod n = n - 1"
proof -
  define q r where "q = db_records_count w div n" and "r = db_records_count w mod n"
  have db: "db_records_count w = n * q + r" by (simp add: q_def r_def)
  have q: "q \<ge> 1" using assms by (simp add: q_def div_greater_zero_iff Suc_le_eq)
  have r: "r < n" using assms(1) by (simp add: r_def)
  have share: "share (db_records_count w) n j = q + (if j < r then 1 else 0)" for j
    by (simp add: share_def q_def r_def)
  have start: "start_key (thread_part w n i) = start_key w + i * (if i = 0 then 0 else q + (if i - 1 < r then 1 else 0))" for i
    by (simp add: thread_part_def share)
  define S where "S i = i * q + min i r" for i
  have S0: "S 0 = 0" "S n = db_records_count w" using r by (simp_all add: S_def db)
  have S_Suc: "S (Suc i) = S i + share (db_records_count w) n i" for i by (auto simp: S_def share)
  show ?thesis
  proof
    assume cover: "\<forall>k \<in> {start_key w..<start_key w + db_records_count w}. \<exists>i < n. k \<in> {start_key (thread_part w n i)..<
      start_key (thread_part w n i) + share (db_records_count w) n i}"
    show "db_records_count w mod n = 0 \<or> db_records_count w mod n = n - 1"
    proof (rule ccontr)
      assume "\<not> ?thesis"
      then have r2: "0 < r" "r + 1 < n" using r by (auto simp: r_def)
      have "start_key w + db_records_count w - 1 \<in> {start_key w..<start_key w + db_records_count w}" using assms by auto
      from bspec [OF cover this] obtain i where i: "i < n" "start_key w + db_records_count w - 1 <
          start_key (thread_part w n i) + share (db_records_count w) n i" by auto
      have "start_key (thread_part w n i) + share (db_records_count w) n i < start_key w + (n * q + r)"
      proof -
        consider "i < r" | "i = r" | "i > r" by linarith
        then show ?thesis
        proof cases
          case 1
          then have "(i + 1) * (q + 1) \<le> r * (q + 1)" by (intro mult_le_mono1) simp
          moreover have "(r + 1) * q \<le> n * q" using r2 by (intro mult_le_mono1) simp
          ultimately show ?thesis using 1 q by (auto simp: start share algebra_simps)
        next
          case 2
          have "(r + 2) * q \<le> n * q" using r2 by (intro mult_le_mono1) simp
          then show ?thesis using 2 q r2 by (auto simp: start share algebra_simps)
        next
          case 3
          then have "(i + 1) * q \<le> n * q" using i by (intro mult_le_mono1) simp
          moreover have "\<not> i - 1 < r" using 3 by simp
          ultimately show ?thesis using 3 r2 by (auto simp: start share algebra_simps)
        qed
      qed
      with i(2) show False by (simp add: db [symmetric])
    qed
  next
    assume "db_records_count w mod n = 0 \<or> db_records_count w mod n = n - 1"
    then have st: "start_key (thread_part w n i) = start_key w + S i" if "i < n" for i
      using thread_part_start [OF that, of w] that r by (auto simp: S_def q_def r_def)
    have find: "d < S i \<Longrightarrow> \<exists>j < i. S j \<le> d \<and> d < S (Suc j)" for d i
    proof (induction i)
      case (Suc i)
      then show ?case by (cases "d < S i") (auto simp: not_less intro: less_SucI)
    qed (simp add: S0)
    show "\<forall>k \<in> {start_key w..<start_key w + db_records_count w}. \<exists>i < n. k \<in> {start_key (thread_part w n i)..<
      start_key (thread_part w n i) + share (db_records_count w) n i}"
    proof
      fix k assume k: "k \<in> {start_key w..<start_key w + db_records_count w}"
      then have "k - start_key w < S n" using S0 by auto
      from find [OF this] obtain j where j: "j < n" "S j \<le> k - start_key w" "k - start_key w < S (Suc j)" by blast
      then show "\<exists>i < n. k \<in> {start_key (thread_part w n i)..<start_key (thread_part w n i) + share (db_records_count w) n i}"
        using k st [OF j(1)] S_Suc [of j] by (intro exI [of _ j]) auto
    qed
  qed
qed

text \<open>
  C33. A load by \<open>n\<close> threads: each upserts as many records as its part of the workload has, with values
  of the size that the adapter of the B+-tree expects. All workers return; in whatever order
  their calls reach an empty tree, every call succeeds; but all records are there afterwards exactly
  when the number of records has remainder \<open>0\<close> or \<open>n - 1\<close> by \<open>n\<close>.
\<close>

theorem bench_load_keys:
  assumes "0 < n" "n \<le> db_records_count w" "db_operations_count w = db_records_count w"
    and "upsert_proportion w = 1" "value_length w = VALUE_SIZE_BYTES" "value_length_dist w = const_k"
    and "start_key w + db_records_count w \<le> 2 ^ 64"
    and new: "\<And>i. i < n \<Longrightarrow> worker_new (split_workload_into_threads w n ! i) = Inr (wk i)"
    and tree: "db a = Some t" "bt_config C" "bt_inv C t" "bt_map t = Map.empty"
  shows "\<exists>cs. (\<forall>i < n. \<exists>wk'. worker_run e fuel (replicate (operations_count (split_workload_into_threads w n ! i)) upsert_k)
      (wk i) = Inr (cs i, wk')) \<and>
    (\<forall>calls. mset calls = (\<Sum>i<n. mset (cs i)) \<longrightarrow>
      (\<exists>t'. serve_all (bt_serve C) calls a = Inr (replicate (db_records_count w) (1, ok_k), a\<lparr>db := Some t'\<rparr>) \<and>
        bt_inv C t' \<and>
        ((\<forall>k \<in> {start_key w..<start_key w + db_records_count w}. bt_map t' (of_nat k) \<noteq> None) \<longleftrightarrow>
          db_records_count w mod n = 0 \<or> db_records_count w mod n = n - 1)))"
proof -
  let ?p = "thread_part w n" and ?share = "share (db_records_count w) n"
  let ?load = "\<lambda>i calls. (\<exists>wk'. worker_run e fuel (replicate (operations_count (split_workload_into_threads w n ! i)) upsert_k)
      (wk i) = Inr (calls, wk')) \<and> length calls = ?share i \<and>
      (\<forall>call \<in> set calls. call_fits 0 call \<and> old_keys call = []) \<and>
      concat (map new_keys calls) = [start_key (?p i)..<start_key (?p i) + ?share i]"
  have part: "split_workload_into_threads w n ! i = ?p i" if "i < n" for i
    using that by (simp add: split_workload_parts)
  have "1 \<le> db_records_count w div n" using assms(1,2) by (simp add: div_greater_zero_iff Suc_le_eq)
  then have ops: "operations_count (?p i) = ?share i" for i
    using assms(3) by (simp add: thread_part_def share_def)
  have "\<exists>calls. ?load i calls" if i: "i < n" for i
  proof -
    have n: "worker_new (?p i) = Inr (wk i)" using new [OF i] part [OF i] by simp
    have c: "counter_at (wk_upsert_gen (wk i)) = start_key (?p i)"
      using init_worker [OF n] assms(4) by (simp add: thread_part_def)
    have "fixed_values VALUE_SIZE_BYTES (wk i)"
      using fixed_values_new [OF n] assms(5,6) by (simp add: thread_part_def)
    from load_run [OF this, of e fuel "?share i" 0] show ?thesis unfolding c part [OF i] ops by blast
  qed
  then obtain cs where cs: "\<And>i. i < n \<Longrightarrow> ?load i (cs i)" by metis
  have "\<exists>t'. serve_all (bt_serve C) calls a = Inr (replicate (db_records_count w) (1, ok_k), a\<lparr>db := Some t'\<rparr>) \<and>
        bt_inv C t' \<and>
        ((\<forall>k \<in> {start_key w..<start_key w + db_records_count w}. bt_map t' (of_nat k) \<noteq> None) \<longleftrightarrow>
          db_records_count w mod n = 0 \<or> db_records_count w mod n = n - 1)"
    if calls: "mset calls = (\<Sum>i<n. mset (cs i))" for calls
  proof -
    have "length calls = (\<Sum>i<n. length (cs i))" using arg_cong [OF calls, of size] by (simp add: size_multiset_sum)
    also have "\<dots> = (\<Sum>i<n. ?share i)" by (rule sum.cong) (use cs in auto)
    also have "\<dots> = db_records_count w" by (rule sum_share_all [OF assms(1)])
    finally have len: "length calls = db_records_count w" .
    have set: "set calls = (\<Union>i<n. set (cs i))" using arg_cong [OF calls, of set_mset] by (simp add: set_mset_sum)
    define U where "U = set (concat (map new_keys calls))"
    have U: "U = (\<Union>i<n. {start_key (?p i)..<start_key (?p i) + ?share i})"
    proof -
      have "U = (\<Union>i<n. set (concat (map new_keys (cs i))))" by (auto simp: U_def set)
      also have "\<dots> = (\<Union>i<n. {start_key (?p i)..<start_key (?p i) + ?share i})" by (rule SUP_cong) (use cs in auto)
      finally show ?thesis .
    qed
    have "\<forall>call \<in> set calls. call_fits 0 call \<and> set (old_keys call) \<subseteq> {}"
    proof
      fix call assume "call \<in> set calls"
      then obtain i where "i < n" "call \<in> set (cs i)" using set by auto
      with cs [OF \<open>i < n\<close>] show "call_fits 0 call \<and> set (old_keys call) \<subseteq> {}" by simp
    qed
    from bench_btree.serve_all_fit [OF tree(1) _ this, of C] tree(2-4) len obtain t' where
      t': "serve_all (bt_serve C) calls a = Inr (replicate (db_records_count w) (1, ok_k), a\<lparr>db := Some t'\<rparr>)"
        "bt_inv C t'" "dom (bt_map t') = of_nat ` U" by (auto simp: U_def)
    have below: "k < 2 ^ 64" if "k \<in> U" for k
    proof -
      from that obtain i where i: "i < n" "k < start_key (?p i) + ?share i" by (auto simp: U)
      have "start_key (?p i) + ?share i \<le> start_key w + db_records_count w"
        using thread_part_end [OF i(1), of w] by (simp add: thread_part_def)
      with i(2) assms(7) show ?thesis by linarith
    qed
    have "bt_map t' (of_nat k) \<noteq> None \<longleftrightarrow> k \<in> U" if "k \<in> {start_key w..<start_key w + db_records_count w}" for k
    proof -
      have k: "k < 2 ^ 64" using that assms(7) by auto
      have "bt_map t' (of_nat k) \<noteq> None \<longleftrightarrow> (of_nat k :: 64 word) \<in> of_nat ` U" using t'(3) by (metis domIff)
      also have "\<dots> \<longleftrightarrow> k \<in> U"
      proof
        assume "(of_nat k :: 64 word) \<in> of_nat ` U"
        then obtain u where u: "u \<in> U" "(of_nat k :: 64 word) = of_nat u" by blast
        from arg_cong [OF u(2), of unat] have "k = u" using k below [OF u(1)] by (simp add: unat_of_nat take_bit_nat_eq_self)
        then show "k \<in> U" using u(1) by simp
      qed simp
      finally show ?thesis .
    qed
    then have "(\<forall>k \<in> {start_key w..<start_key w + db_records_count w}. bt_map t' (of_nat k) \<noteq> None) \<longleftrightarrow>
        (\<forall>k \<in> {start_key w..<start_key w + db_records_count w}. k \<in> U)" by blast
    also have "\<dots> \<longleftrightarrow> db_records_count w mod n = 0 \<or> db_records_count w mod n = n - 1"
      using ranges_cover [OF assms(1,2)] by (simp add: U Bex_def)
    finally show ?thesis using t'(1,2) by (intro exI [of _ t'] conjI)
  qed
  then show ?thesis using cs by blast
qed

section \<open>Examples\<close>

lemma demo_load_new: "i < 4 \<Longrightarrow> \<exists>wk. worker_new (split_workload_into_threads demo_workload 4 ! i) = Inr wk"
  by (simp add: split_workload_parts thread_part_def demo_workload_def worker_new_def
      create_value_length_generator_def create_length_generator_def create_length_generator_defs)

theorem bench_load_keys_witness:
  "\<exists>t calls t'. bt_new demo_bconfig (ps_new 3 (\<lambda>i. i) (\<lambda>_. Leaf (new_leaf demo_bconfig))) = Inr t \<and>
     serve_all (bt_serve demo_bconfig) calls (ad_new\<lparr>db := Some t\<rparr>) =
       Inr (replicate 10 (1, ok_k), ad_new\<lparr>db := Some t'\<rparr>) \<and>
     (\<exists>k \<in> {0..<10}. bt_map t' (of_nat k) = None)"
proof -
  obtain t where t: "bt_new demo_bconfig (ps_new 3 (\<lambda>i. i) (\<lambda>_. Leaf (new_leaf demo_bconfig))) = Inr t"
      "bt_config demo_bconfig" "bt_inv demo_bconfig t" "bt_map t = Map.empty"
    using demo_btree by blast
  from demo_load_new obtain wk where
    wk: "\<And>i. i < 4 \<Longrightarrow> worker_new (split_workload_into_threads demo_workload 4 ! i) = Inr (wk i)" by metis
  have w: "db_records_count demo_workload = 10" "db_operations_count demo_workload = 10" "start_key demo_workload = 0"
    "upsert_proportion demo_workload = 1" "value_length demo_workload = VALUE_SIZE_BYTES" "value_length_dist demo_workload = const_k"
    by (simp_all add: demo_workload_def VALUE_SIZE_BYTES_def)
  have "db (ad_new\<lparr>db := Some t\<rparr>) = Some t" by simp
  from bench_load_keys [OF _ _ _ _ _ _ _ wk this t(2-4), where e = round_env and fuel = 1] w obtain cs where
    cs: "\<forall>calls. mset calls = (\<Sum>i<(4::nat). mset (cs i)) \<longrightarrow>
      (\<exists>t'. serve_all (bt_serve demo_bconfig) calls (ad_new\<lparr>db := Some t\<rparr>) =
          Inr (replicate 10 (1, ok_k), ad_new\<lparr>db := Some t'\<rparr>) \<and> bt_inv demo_bconfig t' \<and>
        \<not> (\<forall>k \<in> {0..<10}. bt_map t' (of_nat k) \<noteq> None))"
    by auto
  obtain calls where calls: "mset calls = (\<Sum>i<(4::nat). mset (cs i))" using ex_mset by blast
  from mp [OF spec [OF cs] calls] obtain t' where "serve_all (bt_serve demo_bconfig) calls (ad_new\<lparr>db := Some t\<rparr>) =
      Inr (replicate 10 (1, ok_k), ad_new\<lparr>db := Some t'\<rparr>)" "\<exists>k \<in> {0..<10}. bt_map t' (of_nat k) = None"
    by auto
  then show ?thesis using t(1) by (intro exI [of _ t] exI [of _ calls] exI [of _ t'] conjI)
qed

end
