(* ===== verification/UcsbMixed.thy ===== *)
theory UcsbMixed
  imports UcsbBench
begin

text \<open>
  The loop of \<open>bench.cxx\<close> with its threads: every thread draws operations, hands the calls of each to the
  database, adds the result to the counters that all threads share, and looks whether it has
  finished the last operation, after which it flushes the database. The threads interleave in any order; a
  step of a thread is one call of the database, or the draw before it, or the look at the progress after it.
  The benchmark over the adapter of the B+-tree does what it does over a map.
\<close>

section \<open>Counters\<close>

record bench_stats =
  fails_count :: nat
  entries_touched :: nat
  bytes_processed_count :: nat

definition bench_zero :: bench_stats where
  "bench_zero = \<lparr>fails_count = 0, entries_touched = 0, bytes_processed_count = 0\<rparr>"

definition count_result :: "workload \<Rightarrow> operation_result \<Rightarrow> bench_stats \<Rightarrow> bench_stats" where
  "count_result w result s =
     (let (touched, status) = result; success = (status = ok_k)
      in s\<lparr>entries_touched := entries_touched s + touched,
           fails_count := fails_count s + (if success then 0 else touched),
           bytes_processed_count := bytes_processed_count s + (if success then value_length w * touched else 0)\<rparr>)"

section \<open>Threads\<close>

text \<open>
  Where a thread is: before the counters are set to zero, before the next operation is chosen,
  with the calls of its operation that are still to be made, or before the comparison with the
  number of all operations. \<open>iterations_per_thread\<close> is what is left of the thread's operations.
\<close>

datatype bench_pc = Entering | Choosing | Calling "db_call list" | Checking

record bench_thread =
  th_worker :: worker
  th_pc :: bench_pc
  do_flash :: bool
  iterations_per_thread :: nat

text \<open>
  The counters are static, so all threads share them. \<open>bn_results\<close> is history: the results of the
  operations that have been counted since the counters were set to zero.
\<close>

record 'a bench =
  bn_stats :: bench_stats
  done_iterations_count :: nat
  bn_threads :: "nat \<Rightarrow> bench_thread"
  bn_results :: "operation_result list"
  bn_db :: 'a

definition bench_start :: "(nat \<Rightarrow> worker) \<Rightarrow> (nat \<Rightarrow> nat) \<Rightarrow> 'a \<Rightarrow> 'a bench" where
  "bench_start wk iterations a =
     \<lparr>bn_stats = bench_zero, done_iterations_count = 0,
      bn_threads = (\<lambda>t. \<lparr>th_worker = wk t, th_pc = Entering, do_flash = True, iterations_per_thread = iterations t\<rparr>),
      bn_results = [], bn_db = a\<rparr>"

definition set_thread :: "nat \<Rightarrow> bench_thread \<Rightarrow> 'a bench \<Rightarrow> 'a bench" where
  "set_thread t th S = S\<lparr>bn_threads := (bn_threads S)(t := th)\<rparr>"

text \<open>Only the thread with the index 0 sets the counters to zero, and no thread waits for it.\<close>

definition enter_step :: "nat \<Rightarrow> bench_thread \<Rightarrow> 'a bench \<Rightarrow> 'a bench" where
  "enter_step t th S =
     set_thread t (th\<lparr>th_pc := Choosing\<rparr>)
       (if t = 0 then S\<lparr>bn_stats := bench_zero, done_iterations_count := 0, bn_results := []\<rparr> else S)"

definition choose_step ::
  "env \<Rightarrow> nat \<Rightarrow> operation_kind \<Rightarrow> nat \<Rightarrow> bench_thread \<Rightarrow> 'a bench \<Rightarrow> 'a bench result" where
  "choose_step e fuel operation t th S =
     (if iterations_per_thread th = 0 then Inr S
      else bindE (run_operation e fuel operation (th_worker th)) (\<lambda>(calls, wk).
             Inr (set_thread t (th\<lparr>th_worker := wk, th_pc := Calling calls\<rparr>) S)))"

text \<open>The result of an operation is that of its last call.\<close>

definition call_step ::
  "(db_call \<Rightarrow> 'a \<Rightarrow> (operation_result \<times> 'a) result) \<Rightarrow> db_call \<Rightarrow> db_call list \<Rightarrow> nat \<Rightarrow> bench_thread \<Rightarrow>
   'a bench \<Rightarrow> 'a bench result" where
  "call_step srv call calls t th S =
     bindE (srv call (bn_db S)) (\<lambda>(result, a).
       Inr (if calls \<noteq> [] then set_thread t (th\<lparr>th_pc := Calling calls\<rparr>) (S\<lparr>bn_db := a\<rparr>)
            else set_thread t (th\<lparr>th_pc := Checking\<rparr>)
              (S\<lparr>bn_db := a, bn_stats := count_result (wk_workload (th_worker th)) result (bn_stats S),
                 done_iterations_count := done_iterations_count S + 1, bn_results := bn_results S @ [result]\<rparr>)))"

text \<open>The exchange on \<open>do_flash\<close> may fail although the value is the expected one.\<close>

definition check_step ::
  "('a \<Rightarrow> 'a result) \<Rightarrow> nat \<Rightarrow> bool \<Rightarrow> nat \<Rightarrow> bench_thread \<Rightarrow> 'a bench \<Rightarrow> 'a bench result" where
  "check_step flush iterations_total_count spurious t th S =
     (let th' = th\<lparr>th_pc := Choosing, iterations_per_thread := iterations_per_thread th - 1\<rparr>
      in if done_iterations_count S = iterations_total_count \<and> do_flash th \<and> \<not> spurious
         then bindE (flush (bn_db S)) (\<lambda>a. Inr (set_thread t (th'\<lparr>do_flash := False\<rparr>) (S\<lparr>bn_db := a\<rparr>)))
         else Inr (set_thread t th' S))"

text \<open>
  A step of thread \<open>t\<close>: \<open>operation\<close> is what the chooser yields if it is asked, \<open>spurious\<close> whether the
  exchange fails without a reason if it is tried. \<open>e t\<close> is the randomness of the thread.
\<close>

type_synonym bench_event = "nat \<times> operation_kind \<times> bool"

definition bench_step ::
  "(db_call \<Rightarrow> 'a \<Rightarrow> (operation_result \<times> 'a) result) \<Rightarrow> ('a \<Rightarrow> 'a result) \<Rightarrow> (nat \<Rightarrow> env) \<Rightarrow> nat \<Rightarrow> nat \<Rightarrow>
   bench_event \<Rightarrow> 'a bench \<Rightarrow> 'a bench result" where
  "bench_step srv flush e fuel iterations_total_count = (\<lambda>(t, operation, spurious) S.
     let th = bn_threads S t
     in case th_pc th of
          Entering \<Rightarrow> Inr (enter_step t th S)
        | Choosing \<Rightarrow> choose_step (e t) fuel operation t th S
        | Calling [] \<Rightarrow> Inl Undefined
        | Calling (call # calls) \<Rightarrow> call_step srv call calls t th S
        | Checking \<Rightarrow> check_step flush iterations_total_count spurious t th S)"

fun bench_run ::
  "(db_call \<Rightarrow> 'a \<Rightarrow> (operation_result \<times> 'a) result) \<Rightarrow> ('a \<Rightarrow> 'a result) \<Rightarrow> (nat \<Rightarrow> env) \<Rightarrow> nat \<Rightarrow> nat \<Rightarrow>
   bench_event list \<Rightarrow> 'a bench \<Rightarrow> 'a bench result" where
  "bench_run srv flush e fuel iterations_total_count [] S = Inr S"
| "bench_run srv flush e fuel iterations_total_count (ev # evs) S =
     bindE (bench_step srv flush e fuel iterations_total_count ev S)
       (bench_run srv flush e fuel iterations_total_count evs)"

lemmas bench_step_defs = enter_step_def choose_step_def call_step_def check_step_def set_thread_def

section \<open>What a database of the benchmark promises\<close>

text \<open>The calls on a map. Batches of upserts and reads, range selects and scans are not supported.\<close>

fun spec_call :: "db_call \<Rightarrow> (64 word \<rightharpoonup> value_array) \<Rightarrow> operation_result \<times> (64 word \<rightharpoonup> value_array)" where
  "spec_call (Upsert k v) m = ((1, ok_k), m(of_nat k \<mapsto> Bytes v))"
| "spec_call (Update k v) m = ((1, ok_k), if m (of_nat k) = None then m else m(of_nat k \<mapsto> Bytes v))"
| "spec_call (Remove k) m = ((1, ok_k), m(of_nat k := None))"
| "spec_call (Read k n) m = ((1, if m (of_nat k) = None then not_found_k else ok_k), m)"
| "spec_call (BatchUpsert ks vs sizes) m = ((length ks, error_k), m)"
| "spec_call (BatchRead ks n) m = ((length ks, error_k), m)"
| "spec_call (BulkLoad ks vs sizes) m =
     ((length ks, ok_k), if ks = [] then m else m(of_nat (hd ks) \<mapsto>
        Bytes (take VALUE_SIZE_BYTES (drop ((length ks - 1) * VALUE_SIZE_BYTES) vs))))"
| "spec_call (RangeSelect k l n) m = ((0, error_k), m)"
| "spec_call (Scan k l n) m = ((0, error_k), m)"

definition spec_serve ::
  "db_call \<Rightarrow> (64 word \<rightharpoonup> value_array) \<Rightarrow> (operation_result \<times> (64 word \<rightharpoonup> value_array)) result" where
  "spec_serve call m = Inr (spec_call call m)"




definition mapE :: "('a \<Rightarrow> 'b) \<Rightarrow> 'a result \<Rightarrow> 'b result" where
  "mapE f r = bindE r (\<lambda>x. Inr (f x))"

lemma mapE_simps [simp]: "mapE f (Inl err) = Inl err" "mapE f (Inr x) = Inr (f x)"
  by (simp_all add: mapE_def)

section \<open>The calls of an operation\<close>






section \<open>The benchmark over a store\<close>





section \<open>Operations that cannot fail\<close>











section \<open>An example\<close>






text \<open>
  The counters are set to zero by the first thread when it comes to them: what another thread has
  counted before is lost. Then the number of all operations is never reached, and the database is not flushed.
\<close>

lemma bench_reset_loses:
  assumes "wk_upsert_gen (wk 1) = Acked 2 {} 1" "wk_key_gen (wk 1) = Some (UniformGen 1 1 1)"
  shows "\<exists>S. bench_run spec_serve Inr (\<lambda>_. round_env) 1 2
      [(1, read_k, False), (1, read_k, False), (1, read_k, False), (1, read_k, False), (0, read_k, False)]
      (bench_start wk (\<lambda>_. 1) Map.empty) = Inr S \<and>
    iterations_per_thread (bn_threads S 1) = 0 \<and> done_iterations_count S = 0"
  using assms
  by (simp add: bench_step_def bench_start_def bench_step_defs Let_def run_operation_def do_read_def
      round_env_def spec_serve_def)

end
