(* ===== verification/PoolUse.thy ===== *)
theory PoolUse
  imports PageBuffer
begin

text \<open>
  Sequences of calls to a page buffer. Whatever its clients do later within the rules of
  \<open>PagePool\<close>, a page keeps what was written to it until somebody writes to it again, also when it is
  evicted and read from the disk in between.
\<close>

section \<open>Sequences of calls\<close>

datatype ('i, 'd) pool_op =
    PoolCreate
  | PoolPin bool "'d \<Rightarrow> bool" 'i
  | PoolPut 'i 'd
  | PoolUnpin bool 'i

fun pool_step ::
  "('s \<Rightarrow> ('i \<times> 's) result) \<Rightarrow> (bool \<Rightarrow> ('d \<Rightarrow> bool) \<Rightarrow> 'i \<Rightarrow> 's \<Rightarrow> 's result) \<Rightarrow> ('i \<Rightarrow> 'd \<Rightarrow> 's \<Rightarrow> 's result) \<Rightarrow>
   (bool \<Rightarrow> 'i \<Rightarrow> 's \<Rightarrow> 's result) \<Rightarrow> ('i, 'd) pool_op \<Rightarrow> 's \<Rightarrow> 's result" where
  "pool_step createP pinP putP unpinP PoolCreate s = bindE (createP s) (\<lambda>(i, s'). Inr s')"
| "pool_step createP pinP putP unpinP (PoolPin skip f i) s = pinP skip f i s"
| "pool_step createP pinP putP unpinP (PoolPut i d) s = putP i d s"
| "pool_step createP pinP putP unpinP (PoolUnpin dirty i) s = unpinP dirty i s"

text \<open>
  What a client may call: pages that exist, locks that it does not have to wait for, no more pages
  pinned than the buffer has, writes under the exclusive lock only, and no unpinning of a changed
  page as clean.
\<close>

fun pool_allows ::
  "('s \<Rightarrow> 'i set) \<Rightarrow> ('s \<Rightarrow> 'i \<Rightarrow> 'd result) \<Rightarrow> ('s \<Rightarrow> 'i \<Rightarrow> lock) \<Rightarrow> ('s \<Rightarrow> 'i set) \<Rightarrow> nat \<Rightarrow> ('s \<Rightarrow> bool) \<Rightarrow> ('d \<Rightarrow> bool) \<Rightarrow>
   ('i, 'd) pool_op \<Rightarrow> 's \<Rightarrow> bool" where
  "pool_allows used content held modified cap room data_ok PoolCreate s = room s"
| "pool_allows used content held modified cap room data_ok (PoolPin skip f i) s =
     (i \<in> used s \<and> (held s i \<noteq> Unlocked \<or> card (pinned_pages held s) < cap) \<and>
      (if skip then held s i = Unlocked
       else case content s i of Inl e \<Rightarrow> False | Inr d \<Rightarrow> lock_free (f d) (held s i)))"
| "pool_allows used content held modified cap room data_ok (PoolPut i d) s = (held s i = Exclusive \<and> data_ok d)"
| "pool_allows used content held modified cap room data_ok (PoolUnpin dirty i) s =
     (held s i \<noteq> Unlocked \<and> (dirty \<or> i \<notin> modified s))"

fun pool_run :: "('o \<Rightarrow> 's \<Rightarrow> 's result) \<Rightarrow> 'o list \<Rightarrow> 's \<Rightarrow> 's result" where
  "pool_run step [] s = Inr s"
| "pool_run step (op # ops) s = bindE (step op s) (pool_run step ops)"

fun pool_allows_run :: "('o \<Rightarrow> 's \<Rightarrow> 's result) \<Rightarrow> ('o \<Rightarrow> 's \<Rightarrow> bool) \<Rightarrow> 'o list \<Rightarrow> 's \<Rightarrow> bool" where
  "pool_allows_run step allows [] s = True"
| "pool_allows_run step allows (op # ops) s =
     (allows op s \<and> (case step op s of Inl e \<Rightarrow> True | Inr s' \<Rightarrow> pool_allows_run step allows ops s'))"

text \<open>The calls that may change a page: writing to it, and pinning it without loading it.\<close>

fun pool_writes :: "'i \<Rightarrow> ('i, 'd) pool_op \<Rightarrow> bool" where
  "pool_writes i (PoolPut j d) = (j = i)"
| "pool_writes i (PoolPin skip f j) = (skip \<and> j = i)"
| "pool_writes i _ = False"

context page_pool
begin

lemma step_keeps:
  assumes "inv s" "i \<in> used s" "content s i = Inr d" "\<not> pool_writes i op"
    and allowed: "pool_allows used content held modified cap can_create data_ok op s"
  shows "\<exists>s'. pool_step create pin put unpin op s = Inr s' \<and> inv s' \<and> i \<in> used s' \<and> content s' i = Inr d"
proof (cases op)
  case PoolCreate
  with allowed create_law [OF assms(1)] assms(2,3) show ?thesis by fastforce
next
  case (PoolPin skip f j)
  show ?thesis
  proof (cases skip)
    case True
    then have j: "held s j = Unlocked" "j \<in> used s" "card (pinned_pages held s) < cap" "j \<noteq> i"
      using PoolPin allowed assms(4) by auto
    from pin_skip_law [OF assms(1) j(2,1,3), of f] j(4) assms(2,3) PoolPin True show ?thesis by auto
  next
    case False
    with PoolPin allowed obtain e where e: "content s j = Inr e" "lock_free (f e) (held s j)" "j \<in> used s"
        "held s j \<noteq> Unlocked \<or> card (pinned_pages held s) < cap" by (auto split: sum.splits)
    from pin_law [of s j e f, OF assms(1) e(3,1,2,4)] assms(2,3) PoolPin False show ?thesis by auto
  qed
next
  case (PoolPut j x)
  then have j: "held s j = Exclusive" "data_ok x" "j \<noteq> i" using allowed assms(4) by auto
  from put_law [OF assms(1) j(1,2)] j(3) assms(2,3) PoolPut show ?thesis by auto
next
  case (PoolUnpin dirty j)
  then have j: "held s j \<noteq> Unlocked" "dirty \<or> j \<notin> modified s" using allowed by auto
  from unpin_law [OF assms(1) j] assms(2,3) PoolUnpin show ?thesis by auto
qed

lemma run_keeps:
  assumes "inv s" "i \<in> used s" "content s i = Inr d" "\<forall>op \<in> set ops. \<not> pool_writes i op"
    and "pool_allows_run (pool_step create pin put unpin)
      (pool_allows used content held modified cap can_create data_ok) ops s"
  shows "\<exists>s'. pool_run (pool_step create pin put unpin) ops s = Inr s' \<and> inv s' \<and> i \<in> used s' \<and> content s' i = Inr d"
  using assms
proof (induction ops arbitrary: s)
  case (Cons op ops)
  then have "\<not> pool_writes i op" "pool_allows used content held modified cap can_create data_ok op s" by simp_all
  from step_keeps [OF Cons.prems(1-3) this] obtain s1 where
    s1: "pool_step create pin put unpin op s = Inr s1" "inv s1" "i \<in> used s1" "content s1 i = Inr d" by blast
  with Cons show ?case by simp
qed simp

end

section \<open>Updates of the page buffer\<close>

text \<open>The calls of \<open>PageBuffer\<close>, with the choices of the segment manager and of a free slot.\<close>

abbreviation pb_calls ::
  "nat \<Rightarrow> (nat \<Rightarrow> nat) \<Rightarrow> (nat set \<Rightarrow> nat) \<Rightarrow> (nat set \<Rightarrow> nat) \<Rightarrow> (block_id, 8 word list) pool_op \<Rightarrow> page_buffer \<Rightarrow> page_buffer result" where
  "pb_calls B grow pick slot \<equiv> pool_step (pb_createPage B grow pick) (pb_pin B slot) pb_put pb_unpin"

abbreviation pb_allows ::
  "nat \<Rightarrow> nat \<Rightarrow> (nat \<Rightarrow> nat) \<Rightarrow> (nat set \<Rightarrow> nat) \<Rightarrow> (block_id, 8 word list) pool_op \<Rightarrow> page_buffer \<Rightarrow> bool" where
  "pb_allows B N grow pick \<equiv> pool_allows (pb_used B) (pb_content B) pb_held (pb_modified B) N
     (\<lambda>pb. sm_can_create grow pick (segmentManager pb)) (\<lambda>d. length d = B)"

text \<open>
  C31. An update through the buffer lasts: after pinning a page exclusively, writing \<open>d\<close>
  and unpinning it as dirty, the page holds \<open>d\<close>, its lock is free again, and every other
  page has kept its contents and its lock. And over any later sequence of creating, pinning, writing
  and unpinning pages that keeps the rules of the buffer and does not write to this page,
  whatever is evicted: all calls succeed, the page still holds \<open>d\<close>, and whoever has it pinned sees \<open>d\<close>.
\<close>

theorem pb_update_lasts:
  assumes "pool_inv B N slot pb" and "b \<in> pb_used B pb" and "pb_held pb b = Unlocked"
    and "card (pb_pinned pb) < N" and "length d = B"
  shows "\<exists>pb1 pb2 pb3. pb_pin B slot False (\<lambda>_. True) b pb = Inr pb1 \<and> pb_put b d pb1 = Inr pb2 \<and>
           pb_unpin True b pb2 = Inr pb3 \<and> pool_inv B N slot pb3 \<and> pb_used B pb3 = pb_used B pb \<and>
           pb_held pb3 = pb_held pb \<and> pb_content B pb3 b = Inr d \<and>
           (\<forall>c \<in> pb_used B pb - {b}. pb_content B pb3 c = pb_content B pb c) \<and>
           (\<forall>ops. pool_allows_run (pb_calls B grow pick slot) (pb_allows B N grow pick) ops pb3 \<and>
              (\<forall>op \<in> set ops. \<not> pool_writes b op) \<longrightarrow>
              (\<exists>pb4. pool_run (pb_calls B grow pick slot) ops pb3 = Inr pb4 \<and> pool_inv B N slot pb4 \<and>
                 pb_content B pb4 b = Inr d \<and> (pb_held pb4 b \<noteq> Unlocked \<longrightarrow> pb_get b pb4 = Inr d)))"
proof -
  from pool.update_page [OF assms(1-3) _ assms(5)] assms(4) obtain pb1 pb2 pb3 where
    u: "pb_pin B slot False (\<lambda>_. True) b pb = Inr pb1" "pb_put b d pb1 = Inr pb2"
      "pb_unpin True b pb2 = Inr pb3" "pool_inv B N slot pb3" "pb_used B pb3 = pb_used B pb"
      "pb_held pb3 = pb_held pb" "pb_content B pb3 b = Inr d"
      "\<forall>c \<in> pb_used B pb - {b}. pb_content B pb3 c = pb_content B pb c"
    by (auto simp: pinned_pages_pb)
  have b: "b \<in> pb_used B pb3" using assms(2) u(5) by simp
  have "\<exists>pb4. pool_run (pb_calls B grow pick slot) ops pb3 = Inr pb4 \<and> pool_inv B N slot pb4 \<and>
      pb_content B pb4 b = Inr d \<and> (pb_held pb4 b \<noteq> Unlocked \<longrightarrow> pb_get b pb4 = Inr d)"
    if "pool_allows_run (pb_calls B grow pick slot) (pb_allows B N grow pick) ops pb3" "\<forall>op \<in> set ops. \<not> pool_writes b op" for ops
  proof -
    from pool.run_keeps [OF u(4) b u(7) that(2,1)] obtain pb4 where
      "pool_run (pb_calls B grow pick slot) ops pb3 = Inr pb4" "pool_inv B N slot pb4" "pb_content B pb4 b = Inr d" by blast
    with pool.get_law show ?thesis by metis
  qed
  with u show ?thesis by blast
qed

theorem pb_update_lasts_witness:
  "\<exists>x m pb1 pb2 pb3 pb4. pb_pin 48 Min False (\<lambda>_. True) x (pb_new 48 2 m) = Inr pb1 \<and>
     pb_put x (replicate 48 7) pb1 = Inr pb2 \<and> pb_unpin True x pb2 = Inr pb3 \<and>
     pb_pin 48 Min False (\<lambda>_. False) x pb3 = Inr pb4 \<and> pb_content 48 pb4 x = Inr (replicate 48 7)"
proof -
  obtain x m where m: "sm_inv 48 m" "sm_used 48 m = {x}" using demo_manager by blast
  note new = pb_new_ok [OF m(1), of 2]
  have "pool_inv 48 2 Min (pb_new 48 2 m)" using new(1) demo_slot by (simp add: pool_inv_def)
  from pb_update_lasts [OF this, of x "replicate 48 7" id Min] m(2) obtain pb1 pb2 pb3 where
    u: "pb_pin 48 Min False (\<lambda>_. True) x (pb_new 48 2 m) = Inr pb1" "pb_put x (replicate 48 7) pb1 = Inr pb2"
      "pb_unpin True x pb2 = Inr pb3" "pb_used 48 pb3 = {x}" "pb_held pb3 = pb_held (pb_new 48 2 m)"
      "pb_content 48 pb3 x = Inr (replicate 48 7)"
      "\<forall>ops. pool_allows_run (pb_calls 48 id Min Min) (pb_allows 48 2 id Min) ops pb3 \<and>
              (\<forall>op \<in> set ops. \<not> pool_writes x op) \<longrightarrow>
              (\<exists>pb4. pool_run (pb_calls 48 id Min Min) ops pb3 = Inr pb4 \<and> pool_inv 48 2 Min pb4 \<and>
                 pb_content 48 pb4 x = Inr (replicate 48 7) \<and> (pb_held pb4 x \<noteq> Unlocked \<longrightarrow> pb_get x pb4 = Inr (replicate 48 7)))"
    by (auto simp: new)
  let ?ops = "[PoolPin False (\<lambda>_. False) x]"
  have "pinned_pages pb_held pb3 = {}" using u(5) new(4) by (simp add: pinned_pages_def pb_pinned_def)
  then have "pool_allows_run (pb_calls 48 id Min Min) (pb_allows 48 2 id Min) ?ops pb3"
    using u(4-6) new by (auto split: sum.splits)
  with spec [OF u(7), of ?ops] obtain pb4 where "pb_pin 48 Min False (\<lambda>_. False) x pb3 = Inr pb4"
      "pb_content 48 pb4 x = Inr (replicate 48 7)" by auto
  with u(1-3) show ?thesis by blast
qed

end
