(* ===== verification/Spec2Isabelle.thy ===== *)
theory Spec2Isabelle
  imports Prelude StdAlgo FileIO BlockStore Segment SegmentManager Queues Locks PagePool
    PageBuffer PinSteps PinLocks PinTable PinRefs PinInv PinData PinProgress PinProps
    PageStore OptBuffer NodePool BNode BTree BTreeInv BTreeOps BTreeRoot KvStore BTreeMap BTreeProps
    BeNode BeUpserts BeParts BeTree BeRoot BeInv Exclusive BeSplit BePivots BeMessages BeLeaves BeKid BeFlush BeTop BeTarget BeBuffer BeGrow BeUpsert BeMap BeFind BeOps BePartProps BeProps BeFaults Ucsb
    UcsbFence UcsbWorkload UcsbWorker UcsbAck UcsbOps UcsbKeys UcsbSpans UcsbBench UcsbMixed PoolUse
begin

text \<open>
  A verification development of a B-epsilon-tree, and a B+-tree as its baseline, on top of a page
  buffer with two queues, over blocks that are kept in segments of one file.

  \<^bold>\<open>The program.\<close> From the bottom up: \<open>Segment\<close> hands out blocks of \<open>B\<close> bytes in a part of a file and
  chains the deleted ones into a free list; \<open>SegmentManager\<close> lays segments of growing size one after
  the other and packs segment and block into a 64-bit number; \<open>PageBuffer\<close> keeps \<open>N\<close> blocks in memory,
  evicts the oldest page that is not pinned from one of two queues, and locks pages in a shared or
  exclusive mode; \<open>OptimalPageBuffer.h\<close> is a replacement for it without eviction; \<open>BTree\<close> and \<open>BeTree\<close>
  keep their nodes in pages, which they only reach by \<open>createPage\<close>, \<open>pinPage\<close> and \<open>unpinPage\<close>; two
  adapters make the trees databases of the benchmark UCSB.

  \<^bold>\<open>The theories.\<close> Each interface between two parts is a locale, interpreted in the theory of the
  part that provides it.
  \<^item> \<open>Prelude\<close>, \<open>StdAlgo\<close>, \<open>FileIO\<close>, \<open>Locks\<close>: results with errors as values, the algorithms of the
    standard library on arrays, positioned reads and writes of a file, one shared mutex.
  \<^item> \<open>BlockStore\<close> (the contract of a block allocator), \<open>Segment\<close> (\<open>src/file/Segment.h\<close>),
    \<open>SegmentManager\<close> (\<open>src/file/SegmentManager.h\<close>): both classes keep the contract; runs of operations
    behave as a map from blocks to contents; flushing and opening; block numbers.
  \<^item> \<open>Queues\<close> (\<open>src/buffer/queue\<close>), \<open>PagePool\<close> (the contract of a page buffer), \<open>PageBuffer\<close>
    (\<open>src/buffer/PageBuffer.h\<close>), \<open>OptBuffer\<close> (\<open>src/buffer/OptimalPageBuffer.h\<close>): both buffers keep the
    contract; what a pin, an eviction, a full buffer and a flush do. \<open>PoolUse\<close>: sequences of calls of a
    buffer with the contract.
  \<^item> \<open>PinSteps\<close>: \<open>pinPage\<close> and \<open>unpinPage\<close> again, as steps of threads that run at the same time, with the
    mutexes, the counters of pins and the dirty flags; a schedule is a list of steps. The invariant of
    the reachable states comes in parts: who has which mutex (\<open>PinLocks\<close>), table and queues
    (\<open>PinTable\<close>), references and counters (\<open>PinRefs\<close>, \<open>PinInv\<close>), where the last bytes of a block are
    (\<open>PinData\<close>), which steps can wait (\<open>PinProgress\<close>). \<open>PinProps\<close> has the guarantees and three
    schedules that go wrong.
  \<^item> \<open>PageStore\<close>: the page buffer as the trees see it, with typed nodes instead of bytes. \<open>NodePool\<close> proves
    that every buffer with the contract implements this store, operation by operation, and applies
    this to both buffers.
  \<^item> \<open>BNode\<close>, \<open>BTree\<close> (\<open>src/btree\<close>): capacities, nodes and all operations. \<open>BTreeInv\<close> has the invariant
    and the map of a tree, \<open>BTreeOps\<close> and \<open>BTreeRoot\<close> the descent and the growth at the root,
    \<open>KvStore\<close> the contract of a map, which \<open>BTreeMap\<close> interprets; \<open>BTreeProps\<close> the properties.
  \<^item> \<open>BeNode\<close>, \<open>BeUpserts\<close>, \<open>BeParts\<close>, \<open>BeTree\<close>, \<open>BeRoot\<close> (\<open>src/betree\<close>): the definitions, in the order of
    the code: nodes and messages; squashing, merging and the median; splits, \<open>insertPivots\<close> and
    \<open>removeMessages\<close>; the level-order flush; the operations, the header file and the output.
  \<^item> The proof of the B-epsilon-tree: \<open>BeInv\<close> (invariant, and the trail of messages of a key),
    \<open>Exclusive\<close> (the store with exclusive locks only), \<open>BeSplit\<close>, \<open>BePivots\<close>, \<open>BeMessages\<close>, \<open>BeLeaves\<close> (the
    parts), \<open>BeKid\<close>, \<open>BeFlush\<close> (one child, then the traversal), \<open>BeTop\<close>, \<open>BeTarget\<close>, \<open>BeBuffer\<close>, \<open>BeGrow\<close>,
    \<open>BeUpsert\<close> (the root node and its two attempts), \<open>BeMap\<close>, \<open>BeFind\<close>, \<open>BeOps\<close> (the operations as operations
    on a map); properties in \<open>BePartProps\<close>, \<open>BeProps\<close> and, for the cases in which the code goes wrong,
    \<open>BeFaults\<close>.
  \<^item> \<open>Ucsb\<close> (\<open>src/UCSB/src/btree\<close>, \<open>src/UCSB/src/betree\<close>): the adapters.
  \<^item> The core of the benchmark (\<open>src/UCSB/src/core\<close>, and from \<open>bench.cxx\<close> the functions on workloads and
    the loop of a thread): \<open>UcsbFence\<close> (\<open>threads_fence.hpp\<close>), \<open>UcsbWorkload\<close> (\<open>workload.hpp\<close>),
    \<open>UcsbWorker\<close> (\<open>worker.hpp\<close> and the generators, with \<open>UcsbAck\<close> on the one that waits for
    acknowledgements), \<open>UcsbOps\<close> (runs of a worker), \<open>UcsbKeys\<close> (the keys it uses), \<open>UcsbSpans\<close> (its
    buffers, and when its operations return). \<open>UcsbBench\<close> puts worker, adapter and B+-tree together
    for the load of a database, \<open>UcsbMixed\<close> the loop of \<open>bench\<close> with its threads and shared counters for
    operations of all kinds.

  \<^bold>\<open>How state and errors are modelled.\<close> A class is a record, a method takes and returns it. A raised
  exception, a failed assertion, an access out of bounds, a lock that its only client waits for, a
  change without the exclusive lock and a changed page that is given back as unchanged are values of
  \<open>error\<close>; that a call returns a value therefore excludes all of them. A page number stands for a
  reference to its node, which is read again wherever the code uses the reference. The bytes of new
  pages are arbitrary. Block numbers are 64-bit words, counters wrap where the code can reach the
  wrap, time stamps too.

  \<^bold>\<open>What is shown.\<close> For both trees: from every state with the invariant every call returns, restores
  the invariant, leaves no page pinned, and has on the map of the tree exactly the effect that it
  has on a map; so do sequences of calls on a new tree, and a flushed tree is opened with the same
  contents. In the B-epsilon-tree the map of a tree applies, for every key, the messages on the path
  of the key to the value in its leaf, the newest last. The flush is correct because each of its
  steps \<open>evolves\<close> a subtree: it stays in order and every key keeps its value, while messages on the way
  between two nodes are in the \<open>inbox\<close> of the page they go to.

  \<^bold>\<open>Bounds and fuel.\<close> A descent in the B+-tree takes the number of created pages as fuel, and visits
  each at most once; three slots are enough. A flush of the B-epsilon-tree keeps pages of several
  levels pinned: \<open>weight i h\<close> bounds the pages of a flush below one child of height \<open>h\<close> with nodes of
  \<open>i\<close> pivots, and \<open>be_bound\<close>, twice this or the capacity of the root, is enough as slots of the buffer
  and as fuel; it grows exponentially with the height, and the bound on the height that is proved is one level
  for each call. The loop of \<open>pinPage\<close> ends after two rounds with one client. Capacities: \<open>config_ok\<close>
  asks for leaves of at least three keys, an odd number of at least three pivots, room for one
  message, the constants \<open>0\<close> and \<open>SIZE_MAX\<close> as bounds of the keys, what the standard promises of
  \<open>std::sort\<close> and of walking an \<open>unordered_map\<close>, and a build without assertions (one assertion reads a
  slot that is not in use); \<open>be_config_ok\<close> adds that the capacity of the root is no multiple of the
  size of the chunks in which \<open>splitRootNode\<close> cuts it, without which it loses a child
  (\<open>splitRootNode_drops_last\<close>). Inserts of the value that a key has already are left out, see \<open>BeFaults\<close>.
  Time stamps must not wrap.

  \<^bold>\<open>Threads.\<close> For the page buffer: under every schedule of threads that write pages only under their
  exclusive lock and unpin what they wrote as dirty, a pinned page is the page of its block with the
  bytes last written to the block, no step changes a page under the lock of another thread, and when all
  calls are over a flush completes the blocks on disk. Threads that pin one page at a time do not
  deadlock; threads that pin a second one, as both trees do on the way down, can
  (\<open>pin_evict_deadlock\<close>). There a block is read and written in one step, which
  \<open>pin_locked_bytes\<close> justifies, and IO does not fail.

  \<^bold>\<open>The benchmark.\<close> The fence of the threads is a barrier, also when \<open>compare_exchange_weak\<close> fails without a
  reason; it cannot get stuck as long as this does not happen. The shares of a divided workload add up, but the
  key ranges of the threads follow one another only in some cases. A worker draws new keys
  consecutively and other keys from below the number of records. A batch of reads returns
  if enough different keys of the database come again and again in the draws of its generator, whatever the
  distribution, and does not if too few are ever drawn; with uniform keys from 0 it returns. The buffers of a worker fit its
  batches, but not its range selects. Loops that draw have fuel; running out of it is an error, and that enough fuel gives the result is
  shown. Loading through the adapter of the B+-tree succeeds
  call by call, and leaves all records in the tree unless the split of the workload has a gap. The loop of
  \<open>bench\<close> with threads that interleave, over operations of all kinds, does on the tree what it does on a map, with
  exact counters; operations on single records that are all in the tree do not fail. A step there is one call of the
  database: calls of the tree do not overlap in time.

  \<^bold>\<open>Not modelled.\<close> Interleavings above and below the page buffer: trees and segment manager run one call
  at a time, the locks of pages are part of the state, and taking a lock that is held is an error; the
  mutex of the segment manager has no counterpart. Errors of the
  operating system: files can be read and written as far as their size allows. The floating-point
  computation of the capacity from epsilon, the growth factor of the segments, the choice among free
  segments and slots and the bytes of a page object behind its data are arguments. The
  messages on the standard output of \<open>flush\<close> in \<open>OptimalPageBuffer.h\<close>. Of UCSB: arguments, reports,
  timing and profiling, which are input and output; the adapters to other databases, which only call
  libraries that are not here; the random engines, the two generators that compute with
  floating-point numbers and the JSON library are arguments; keys and sizes of the benchmark are
  natural numbers, apart from differences on \<open>size_t\<close> and the hash, so that the wrap of an acknowledged counter that starts at 0 is left out; proportions are
  rational, where the code adds floats. The thread pool and
  googletest are code of third parties; the tests only call what is modelled here.
\<close>

end
